(* ===== verification/Prelude.thy ===== *)
theory Prelude
  imports Main "HOL-Library.Word" "HOL-Library.Multiset"
begin

text \<open>
  Shared vocabulary of the development: the widths of the machine integers the
  sources use, the attribute collections the component proofs feed, and generic
  facts on lists, rings (indices modulo a capacity) and words that more than one
  component needs.  Nothing here models code.
\<close>

unbundle bit_operations_syntax

type_synonym u8 = "8 word"
type_synonym u16 = "16 word"
type_synonym u32 = "32 word"
type_synonym u64 = "64 word"

text \<open>\<^verbatim>\<open>STACKFULL_CHECK\<close> and \<^verbatim>\<open>fatal\<close> print a message and abort the process.\<close>

datatype fatal = Fatal string

named_theorems cursor_simps "evaluation of packed cursors"
named_theorems ring_simps "facts on indices that wrap around a ring"
named_theorems inv_intros "operations that keep a component's invariant"

section \<open>Lists updated by index\<close>

lemma nth_update_if: "i < length xs \<Longrightarrow> xs[i := v] ! j = (if i = j then v else xs ! j)"
  by simp

lemma drop_Cons_nth: "i < length xs \<Longrightarrow> drop i xs = xs ! i # drop (Suc i) xs"
  by (rule Cons_nth_drop_Suc [symmetric])

lemma map_upt_shift: "map (\<lambda>i. f (k + i)) [0..<n] = map f [k..<k + n]"
  by (rule nth_equalityI) auto

lemma map_upt_snoc: "map f [0..<Suc n] = map f [0..<n] @ [f n]"
  by simp

lemma map_upt_Cons: "0 < n \<Longrightarrow> map f [0..<n] = f 0 # map (\<lambda>i. f (Suc i)) [0..<n - 1]"
  by (cases n) (simp_all add: map_upt_Suc del: upt_Suc)

lemma mset_remove_nth:
  "i < length xs \<Longrightarrow> mset (take i xs @ drop (Suc i) xs) = mset xs - {#xs ! i#}"
proof -
  assume i: "i < length xs"
  have "mset xs = mset (take i xs @ xs ! i # drop (Suc i) xs)"
    using i by (simp add: id_take_nth_drop [symmetric])
  then show ?thesis by simp
qed

section \<open>Sums over a list updated by index\<close>

lemma sum_list_split:
  assumes "w < length ks"
  shows "sum_list (map g (ks[w := k])) = (g k :: 'b::comm_monoid_add) + sum_list (map g (take w ks @ drop (Suc w) ks))"
proof -
  have "ks[w := k] = take w ks @ k # drop (Suc w) ks" using assms by (simp add: upd_conv_take_nth_drop)
  then show ?thesis by (simp add: ac_simps)
qed

lemma sum_list_update:
  assumes "w < length xs"
  shows "sum_list (map g (xs[w := x])) + g (xs ! w) = sum_list (map g xs) + (g x :: 'b::comm_monoid_add)"
proof -
  have "sum_list (map g (xs[w := xs ! w])) = g (xs ! w) + sum_list (map g (take w xs @ drop (Suc w) xs))"
    using assms by (rule sum_list_split)
  moreover have "sum_list (map g (xs[w := x])) = g x + sum_list (map g (take w xs @ drop (Suc w) xs))"
    using assms by (rule sum_list_split)
  ultimately show ?thesis by (simp add: ac_simps)
qed

lemma sum_list_empty: "(\<And>x. x \<in> set xs \<Longrightarrow> f x = {#}) \<Longrightarrow> sum_list (map f xs) = {#}"
  by (induction xs) auto

section \<open>Indices modulo a ring size\<close>

lemma mod_add_eq_imp_eq:
  fixes a b c n :: nat
  assumes "(a + b) mod n = (a + c) mod n" "b < n" "c < n"
  shows "b = c"
proof -
  have "b mod n = c mod n"
    using assms(1) by (simp add: nat_mod_eq_iff)
  then show ?thesis using assms(2,3) by simp
qed

end
