(* ===== verification/Packed_Cursor.thy ===== *)
theory Packed_Cursor
  imports Prelude
begin

text \<open>
  The packed cursors of \<^verbatim>\<open>queue/detail/PackedCursor.h\<close>: one machine word holding
  \<open>version << IndexBits | index\<close>.  The word width is a type parameter, because
  the library is built for 64-bit and for 32-bit targets and the queues' safe
  lifetime depends on it; \<open>IndexBits\<close> is the argument \<open>n\<close>.
\<close>

section \<open>The operations\<close>

fun bitsToHold :: "nat \<Rightarrow> nat" where
  "bitsToHold maxValue = (if maxValue = 0 then 0 else 1 + bitsToHold (maxValue div 2))"

declare bitsToHold.simps [simp del]

definition isPowerOfTwo :: "'w::len word \<Rightarrow> bool" where
  "isPowerOfTwo value \<longleftrightarrow> value \<noteq> 0 \<and> (value AND (value - 1)) = 0"

definition kIndexMask :: "nat \<Rightarrow> 'w::len word" where
  "kIndexMask n = push_bit n 1 - 1"

definition cursor_make :: "nat \<Rightarrow> 'w::len word \<Rightarrow> 'w word \<Rightarrow> 'w word" where
  "cursor_make n version index = (push_bit n version OR index)"

definition cursor_index :: "nat \<Rightarrow> 'w::len word \<Rightarrow> 'w word" where
  "cursor_index n raw = raw AND kIndexMask n"

definition cursor_version :: "nat \<Rightarrow> 'w::len word \<Rightarrow> 'w word" where
  "cursor_version n raw = drop_bit n raw"

definition cursor_addIndex :: "'w::len word \<Rightarrow> 'w word \<Rightarrow> 'w word" where
  "cursor_addIndex raw k = raw + k"

definition cursor_nextRound :: "nat \<Rightarrow> 'w::len word \<Rightarrow> bool \<Rightarrow> 'w word" where
  "cursor_nextRound n raw bump = (raw AND NOT (kIndexMask n)) + (if bump then push_bit n 1 else 0)"

section \<open>Reading a cursor as a pair of numbers\<close>

text \<open>
  \<open>cur n v i\<close> is the word with version \<open>v\<close> and index \<open>i\<close>; the queues' invariants
  are stated with it.  It is proof vocabulary: the operations above are the code.
\<close>

definition cur :: "nat \<Rightarrow> nat \<Rightarrow> nat \<Rightarrow> 'w::len word" where
  "cur n v i = of_nat (v * 2 ^ n + i)"

lemma kIndexMask_mask: "kIndexMask n = mask n"
  by (simp add: kIndexMask_def mask_eq_exp_minus_1 push_bit_eq_mult)

lemma unat_of_nat_small: "m < 2 ^ LENGTH('w) \<Longrightarrow> unat (of_nat m :: 'w::len word) = m"
  by (simp add: unat_of_nat)

lemma unat_cursor_index: "unat (cursor_index n raw) = unat raw mod 2 ^ n"
proof -
  have "cursor_index n raw = take_bit n raw"
    by (simp only: cursor_index_def kIndexMask_mask take_bit_eq_mask)
  then have "unat (cursor_index n raw) = take_bit n (unat raw)"
    by (simp only: unsigned_take_bit_eq)
  then show ?thesis by (simp only: take_bit_eq_mod)
qed

lemma unat_cursor_version: "unat (cursor_version n raw) = unat raw div 2 ^ n"
proof -
  have "unat (cursor_version n raw) = drop_bit n (take_bit LENGTH('a) (unat raw))"
    by (simp only: cursor_version_def unsigned_drop_bit_eq)
  also have "take_bit LENGTH('a) (unat raw) = unat raw"
    by (simp only: take_bit_nat_eq_self unsigned_less)
  finally show ?thesis by (simp only: drop_bit_eq_div)
qed

lemma unat_cur:
  assumes "v * 2 ^ n + i < 2 ^ LENGTH('w)"
  shows "unat (cur n v i :: 'w::len word) = v * 2 ^ n + i"
  unfolding cur_def using assms by (rule unat_of_nat_small)

lemma cur_bound:
  assumes "n \<le> w" "v < 2 ^ (w - n)" "i < 2 ^ n"
  shows "v * 2 ^ n + i < (2 ^ w :: nat)"
proof -
  have "v * 2 ^ n + i < Suc v * 2 ^ n" using assms(3) by simp
  also have "\<dots> \<le> 2 ^ (w - n) * 2 ^ n" using assms(2) by (intro mult_le_mono1) simp
  also have "\<dots> = 2 ^ w" using assms(1) by (simp flip: power_add)
  finally show ?thesis .
qed

lemma index_cur [cursor_simps]:
  assumes "n \<le> LENGTH('w)" "v < 2 ^ (LENGTH('w) - n)" "i < 2 ^ n"
  shows "cursor_index n (cur n v i :: 'w::len word) = of_nat i"
proof -
  have b: "v * 2 ^ n + i < 2 ^ LENGTH('w)" using assms by (rule cur_bound)
  then have "unat (cursor_index n (cur n v i :: 'w word)) = i"
    using assms(3) by (simp only: unat_cursor_index unat_cur) simp
  moreover have "unat (of_nat i :: 'w word) = i"
    using b by (intro unat_of_nat_small) simp
  ultimately show ?thesis by (simp only: word_unat_eq_iff)
qed

lemma version_cur [cursor_simps]:
  assumes "n \<le> LENGTH('w)" "v < 2 ^ (LENGTH('w) - n)" "i < 2 ^ n"
  shows "cursor_version n (cur n v i :: 'w::len word) = of_nat v"
proof -
  have b: "v * 2 ^ n + i < 2 ^ LENGTH('w)" using assms by (rule cur_bound)
  then have "unat (cursor_version n (cur n v i :: 'w word)) = v"
    using assms(3) by (simp only: unat_cursor_version unat_cur) simp
  moreover have "v < 2 ^ LENGTH('w)"
    using assms(2) by (rule less_le_trans) simp
  then have "unat (of_nat v :: 'w word) = v"
    by (rule unat_of_nat_small)
  ultimately show ?thesis by (simp only: word_unat_eq_iff)
qed

lemma addIndex_cur [cursor_simps]:
  "cursor_addIndex (cur n v i) (of_nat k :: 'w::len word) = cur n v (i + k)"
  by (simp add: cursor_addIndex_def cur_def)

lemma make_cur [cursor_simps]:
  assumes "i < 2 ^ n" "n \<le> LENGTH('w)"
  shows "cursor_make n (of_nat v) (of_nat i :: 'w::len word) = cur n v i"
proof -
  have small: "of_nat i = (take_bit n (of_nat i) :: 'w word)"
    using assms(1) by (simp add: take_bit_of_nat take_bit_nat_eq_self)
  have "push_bit n (of_nat v) OR take_bit n (of_nat i :: 'w word) = push_bit n (of_nat v) + take_bit n (of_nat i)"
    by (rule disjunctive_add [symmetric]) (auto simp: bit_push_bit_iff bit_take_bit_iff)
  then have "push_bit n (of_nat v) OR (of_nat i :: 'w word) = push_bit n (of_nat v) + of_nat i"
    by (simp only: small [symmetric])
  then show ?thesis by (simp add: cursor_make_def cur_def push_bit_eq_mult)
qed

lemma and_split_mask:
  fixes c :: "'w::len word"
  shows "c AND NOT m = c - (c AND m)"
proof -
  have "(c AND m) + (c AND NOT m) = (c AND m) OR (c AND NOT m)"
    by (rule disjunctive_add) (auto simp: bit_and_iff bit_not_iff)
  also have "\<dots> = c"
    by (rule bit_eqI) (auto simp: bit_or_iff bit_and_iff bit_not_iff)
  finally show ?thesis by (simp add: algebra_simps)
qed

lemma nextRound_cur [cursor_simps]:
  assumes "n \<le> LENGTH('w)" "v < 2 ^ (LENGTH('w) - n)" "i < 2 ^ n"
  shows "cursor_nextRound n (cur n v i :: 'w::len word) bump = cur n (v + (if bump then 1 else 0)) 0"
proof -
  let ?c = "cur n v i :: 'w word"
  have "?c AND NOT (mask n) = ?c - cursor_index n ?c"
    by (simp only: cursor_index_def kIndexMask_mask and_split_mask)
  also have "\<dots> = cur n v 0"
    using assms by (simp add: index_cur) (simp add: cur_def)
  finally show ?thesis
    by (simp add: cursor_nextRound_def kIndexMask_mask cur_def push_bit_eq_mult algebra_simps)
qed

section \<open>Powers of two and index widths\<close>

lemma nat_and_pred_zero:
  fixes m :: nat
  shows "m \<noteq> 0 \<Longrightarrow> (m AND (m - 1)) = 0 \<Longrightarrow> \<exists>k. m = 2 ^ k"
proof (induction m rule: less_induct)
  case (less m)
  show ?case
  proof (cases "even m")
    case True
    then obtain h where h: "m = 2 * h" by (elim evenE)
    with less.prems(1) have h0: "h \<noteq> 0" by simp
    have "2 * h - 1 = 2 * (h - 1) + 1" using h0 by simp
    then have "(2 * h AND (2 * h - 1)) div 2 = (h AND (h - 1))"
      by (simp add: and_nat_rec [of "2 * h"])
    with less.prems(2) h have "(h AND (h - 1)) = 0" by simp
    with less.IH [of h] h0 h obtain k where "h = 2 ^ k" by auto
    with h have "m = 2 ^ Suc k" by simp
    then show ?thesis ..
  next
    case False
    then obtain h where h: "m = 2 * h + 1" by (elim oddE)
    have "(2 * h + 1 AND 2 * h) div 2 = (h AND h)"
      by (simp add: and_nat_rec [of "Suc (2 * h)"])
    with less.prems(2) h have "h = 0" by simp
    with h have "m = 2 ^ 0" by simp
    then show ?thesis ..
  qed
qed

lemma isPowerOfTwo_exp:
  assumes "isPowerOfTwo (v :: 'w::len word)"
  shows "\<exists>k. unat v = 2 ^ k"
proof (rule nat_and_pred_zero)
  show "unat v \<noteq> 0" using assms by (simp add: isPowerOfTwo_def unsigned_eq_0_iff)
  have "unat (v AND (v - 1)) = (unat v AND unat (v - 1))"
    by (rule unsigned_and_eq)
  then show "(unat v AND (unat v - 1)) = 0"
    using assms by (simp add: isPowerOfTwo_def unat_minus_one)
qed

lemma bitsToHold_upper: "m < 2 ^ bitsToHold m"
proof (induction m rule: bitsToHold.induct)
  case (1 m)
  show ?case
  proof (cases "m = 0")
    case True
    then show ?thesis by (simp add: bitsToHold.simps [of m])
  next
    case False
    with 1 have "m div 2 < 2 ^ bitsToHold (m div 2)" by simp
    with False show ?thesis by (simp add: bitsToHold.simps [of m])
  qed
qed

lemma bitsToHold_lower: "0 < m \<Longrightarrow> 2 ^ (bitsToHold m - 1) \<le> m"
proof (induction m rule: bitsToHold.induct)
  case (1 m)
  show ?case
  proof (cases "m = 1")
    case True
    then show ?thesis by (simp add: bitsToHold.simps)
  next
    case False
    with "1.prems" have m2: "0 < m div 2" by simp
    with 1 have IH: "2 ^ (bitsToHold (m div 2) - 1) \<le> m div 2" by simp
    have "0 < bitsToHold (m div 2)" using m2 by (simp add: bitsToHold.simps [of "m div 2"])
    then have "(2::nat) ^ bitsToHold (m div 2) = 2 * 2 ^ (bitsToHold (m div 2) - 1)"
      by (cases "bitsToHold (m div 2)") simp_all
    also have "\<dots> \<le> m" using IH by linarith
    finally show ?thesis using "1.prems" by (simp add: bitsToHold.simps [of m])
  qed
qed

section \<open>Properties\<close>

text \<open>C1: a cursor is exactly its version and its index: reading the two fields of any word
  and packing them again gives the same word, and packing an in-range index and version
  gives a word from which both are read back.\<close>

theorem cursor_roundtrip:
  fixes raw v i :: "'w::len word"
  assumes "n \<le> LENGTH('w)" "unat i < 2 ^ n" "unat v < 2 ^ (LENGTH('w) - n)"
  shows "cursor_make n (cursor_version n raw) (cursor_index n raw) = raw
    \<and> cursor_index n (cursor_make n v i) = i \<and> cursor_version n (cursor_make n v i) = v"
proof (intro conjI)
  have "raw = cur n (unat raw div 2 ^ n) (unat raw mod 2 ^ n)"
    by (simp only: cur_def div_mult_mod_eq) simp
  moreover have "cursor_make n (of_nat (unat raw div 2 ^ n)) (of_nat (unat raw mod 2 ^ n) :: 'w word)
      = cur n (unat raw div 2 ^ n) (unat raw mod 2 ^ n)"
    using assms(1) by (intro make_cur) simp_all
  moreover have "of_nat (unat raw div 2 ^ n) = cursor_version n raw"
    "of_nat (unat raw mod 2 ^ n) = cursor_index n raw"
    by (simp_all only: unat_cursor_version [symmetric] unat_cursor_index [symmetric]) simp_all
  ultimately show "cursor_make n (cursor_version n raw) (cursor_index n raw) = raw" by simp
next
  have mk: "cursor_make n v i = cur n (unat v) (unat i)"
    using make_cur [OF assms(2,1), of "unat v"] by simp
  show "cursor_index n (cursor_make n v i) = i"
    using assms by (simp add: mk index_cur)
  show "cursor_version n (cursor_make n v i) = v"
    using assms by (simp add: mk version_cur)
qed

theorem cursor_roundtrip_witness:
  "cursor_make 6 (cursor_version 6 0x1234) (cursor_index 6 0x1234) = (0x1234 :: u64)
    \<and> cursor_index 6 (cursor_make 6 7 31) = (31 :: u64) \<and> cursor_version 6 (cursor_make 6 7 31) = (7 :: u64)"
  using cursor_roundtrip [of 6 "31 :: u64" "7 :: u64" "0x1234"] by simp

text \<open>integer comparison of two cursors orders them by version first and index second,
  which is what makes the queues' atomic maximum a comparison of rounds.\<close>

theorem cursor_order_lexicographic:
  fixes a b :: "'w::len word"
  shows "a < b \<longleftrightarrow> cursor_version n a < cursor_version n b
    \<or> cursor_version n a = cursor_version n b \<and> cursor_index n a < cursor_index n b"
proof -
  let ?v = "\<lambda>w :: 'w word. unat w div 2 ^ n" and ?i = "\<lambda>w :: 'w word. unat w mod 2 ^ n"
  have ab: "unat a = ?v a * 2 ^ n + ?i a" "unat b = ?v b * 2 ^ n + ?i b"
    by (rule div_mult_mod_eq [symmetric])+
  have "?v a < ?v b \<Longrightarrow> unat a < unat b"
    by (metis div_le_mono leD leI)
  moreover have "?v a = ?v b \<Longrightarrow> unat a < unat b \<longleftrightarrow> ?i a < ?i b"
    by (metis ab add_less_cancel_left)
  moreover have "?v b < ?v a \<Longrightarrow> \<not> unat a < unat b"
    by (metis div_le_mono leD less_imp_le)
  ultimately have "unat a < unat b \<longleftrightarrow> ?v a < ?v b \<or> ?v a = ?v b \<and> ?i a < ?i b"
    by (metis linorder_neqE_nat)
  then show ?thesis
    by (simp only: word_less_nat_alt word_unat_eq_iff unat_cursor_version unat_cursor_index)
qed

end
