(* ===== verification/Work_Queue_Spec.thy ===== *)
theory Work_Queue_Spec
  imports Prelude
begin

text \<open>
  The static interface that \<^verbatim>\<open>RingQueue\<close> and \<^verbatim>\<open>BwosQueue\<close> share, so that the scheduler can be
  built with either: an owner pushes and pops at two ends, thieves remove entries.
  The contract is stated on the list of entries a queue holds, oldest first.  A
  schedule is any sequence of operations by the owner and by thieves; the client
  lemmas say what such a schedule may do with the entries.
\<close>

datatype 'a wq_op = WPush 'a | WPop | WPopBlock | WSteal | WStealBlock

text \<open>What one operation accepted into the queue, what it handed out, and the state after it.\<close>

fun wq_step ::
  "('q \<Rightarrow> 'a \<Rightarrow> bool \<times> 'q) \<Rightarrow> ('q \<Rightarrow> 'a option \<times> 'q) \<Rightarrow> ('q \<Rightarrow> 'a list \<times> 'q)
   \<Rightarrow> ('q \<Rightarrow> 'a option \<times> 'q) \<Rightarrow> ('q \<Rightarrow> 'a list \<times> 'q) \<Rightarrow> 'q \<Rightarrow> 'a wq_op \<Rightarrow> 'a list \<times> 'a list \<times> 'q" where
  "wq_step push pop popBlock steal stealBlock q (WPush x) =
     (case push q x of (ok, q') \<Rightarrow> (if ok then [x] else [], [], q'))"
| "wq_step push pop popBlock steal stealBlock q WPop =
     (case pop q of (r, q') \<Rightarrow> ([], (case r of None \<Rightarrow> [] | Some x \<Rightarrow> [x]), q'))"
| "wq_step push pop popBlock steal stealBlock q WPopBlock =
     (case popBlock q of (xs, q') \<Rightarrow> ([], xs, q'))"
| "wq_step push pop popBlock steal stealBlock q WSteal =
     (case steal q of (r, q') \<Rightarrow> ([], (case r of None \<Rightarrow> [] | Some x \<Rightarrow> [x]), q'))"
| "wq_step push pop popBlock steal stealBlock q WStealBlock =
     (case stealBlock q of (xs, q') \<Rightarrow> ([], xs, q'))"

fun wq_run ::
  "('q \<Rightarrow> 'a wq_op \<Rightarrow> 'a list \<times> 'a list \<times> 'q) \<Rightarrow> 'q \<Rightarrow> 'a wq_op list \<Rightarrow> 'a list \<times> 'a list \<times> 'q" where
  "wq_run step q [] = ([], [], q)"
| "wq_run step q (op # ops) =
     (case step q op of (i, o', q') \<Rightarrow>
      case wq_run step q' ops of (is, os, q'') \<Rightarrow> (i @ is, o' @ os, q''))"

fun wq_owner_op :: "'a wq_op \<Rightarrow> bool" where
  "wq_owner_op WSteal = False"
| "wq_owner_op WStealBlock = False"
| "wq_owner_op _ = True"

locale work_queue =
  fixes push :: "'q \<Rightarrow> 'a \<Rightarrow> bool \<times> 'q"
    and pop :: "'q \<Rightarrow> 'a option \<times> 'q"
    and popBlock :: "'q \<Rightarrow> 'a list \<times> 'q"
    and steal :: "'q \<Rightarrow> 'a option \<times> 'q"
    and stealBlock :: "'q \<Rightarrow> 'a list \<times> 'q"
    and hasEntries :: "'q \<Rightarrow> bool"
    and contents :: "'q \<Rightarrow> 'a list"
    and inv :: "'q \<Rightarrow> bool"
  assumes push_ok: "inv q \<Longrightarrow> push q x = (True, q') \<Longrightarrow> inv q' \<and> contents q' = contents q @ [x]"
    and push_full: "inv q \<Longrightarrow> push q x = (False, q') \<Longrightarrow> inv q' \<and> contents q' = contents q"
    and pop_none: "inv q \<Longrightarrow> pop q = (None, q') \<Longrightarrow> inv q' \<and> contents q' = [] \<and> contents q = []"
    and pop_some: "inv q \<Longrightarrow> pop q = (Some x, q') \<Longrightarrow> inv q' \<and> contents q = x # contents q'"
    and popBlock_law: "inv q \<Longrightarrow> popBlock q = (xs, q') \<Longrightarrow>
      inv q' \<and> contents q = xs @ contents q' \<and> (xs = [] \<longrightarrow> contents q = [])"
    and steal_none: "inv q \<Longrightarrow> steal q = (None, q') \<Longrightarrow> inv q' \<and> contents q' = contents q"
    and steal_some: "inv q \<Longrightarrow> steal q = (Some x, q') \<Longrightarrow>
      inv q' \<and> (\<exists>as bs. contents q = as @ x # bs \<and> contents q' = as @ bs)"
    and stealBlock_law: "inv q \<Longrightarrow> stealBlock q = (xs, q') \<Longrightarrow>
      inv q' \<and> (\<exists>as bs. contents q = as @ xs @ bs \<and> contents q' = as @ bs)"
    and hasEntries_law: "inv q \<Longrightarrow> hasEntries q \<longleftrightarrow> contents q \<noteq> []"
begin

abbreviation step where
  "step \<equiv> wq_step push pop popBlock steal stealBlock"

lemma step_mset:
  assumes "inv q" "step q op = (i, o', q')"
  shows "inv q' \<and> mset (contents q) + mset i = mset o' + mset (contents q')"
proof (cases op)
  case (WPush x)
  show ?thesis
  proof (cases "push q x")
    case (Pair ok q1)
    with assms WPush show ?thesis
      using push_ok [OF assms(1), of x q1] push_full [OF assms(1), of x q1] by (cases ok) auto
  qed
next
  case WPop
  show ?thesis
  proof (cases "pop q")
    case (Pair r q1)
    with assms WPop show ?thesis
      using pop_none [OF assms(1), of q1] pop_some [OF assms(1), of _ q1] by (cases r) auto
  qed
next
  case WPopBlock
  with assms show ?thesis
    using popBlock_law [OF assms(1)] by (cases "popBlock q") auto
next
  case WSteal
  show ?thesis
  proof (cases "steal q")
    case (Pair r q1)
    with assms WSteal show ?thesis
      using steal_none [OF assms(1), of q1] steal_some [OF assms(1), of _ q1] by (cases r) fastforce+
  qed
next
  case WStealBlock
  with assms show ?thesis
    using stealBlock_law [OF assms(1)] by (cases "stealBlock q") fastforce
qed

lemma run_conserves:
  assumes "inv q" "wq_run step q ops = (is, os, q')"
  shows "inv q' \<and> mset (contents q) + mset is = mset os + mset (contents q')"
  using assms
proof (induction ops arbitrary: q "is" os)
  case Nil
  then show ?case by simp
next
  case (Cons op ops)
  obtain i o1 q1 where s: "step q op = (i, o1, q1)" by (metis prod_cases3)
  obtain is1 os1 q2 where r0: "wq_run step q1 ops = (is1, os1, q2)" by (metis prod_cases3)
  from Cons.prems(2) s r0 have eqs: "is = i @ is1" "os = o1 @ os1" and q2: "q2 = q'" by auto
  note r = r0 [unfolded q2]
  from step_mset [OF Cons.prems(1) s] have q1: "inv q1"
    "mset (contents q) + mset i = mset o1 + mset (contents q1)" by auto
  from Cons.IH [OF q1(1) r] have "inv q'" "mset (contents q1) + mset is1 = mset os1 + mset (contents q')"
    by auto
  with q1(2) show ?case unfolding eqs
    by (metis (no_types, lifting) mset_append union_assoc union_commute)
qed

lemma step_owner_fifo:
  assumes "inv q" "step q op = (i, o', q')" "wq_owner_op op"
  shows "contents q @ i = o' @ contents q'"
proof (cases op)
  case (WPush x)
  show ?thesis
  proof (cases "push q x")
    case (Pair ok q1)
    with assms WPush show ?thesis
      using push_ok [OF assms(1), of x q1] push_full [OF assms(1), of x q1] by (cases ok) auto
  qed
next
  case WPop
  show ?thesis
  proof (cases "pop q")
    case (Pair r q1)
    with assms WPop show ?thesis
      using pop_none [OF assms(1), of q1] pop_some [OF assms(1), of _ q1] by (cases r) auto
  qed
next
  case WPopBlock
  with assms show ?thesis
    using popBlock_law [OF assms(1)] by (cases "popBlock q") auto
qed (use assms(3) in simp_all)

lemma run_owner_fifo:
  assumes "inv q" "wq_run step q ops = (is, os, q')" "list_all wq_owner_op ops"
  shows "contents q @ is = os @ contents q'"
  using assms
proof (induction ops arbitrary: q "is" os)
  case Nil
  then show ?case by simp
next
  case (Cons op ops)
  obtain i o1 q1 where s: "step q op = (i, o1, q1)" by (metis prod_cases3)
  obtain is1 os1 q2 where r0: "wq_run step q1 ops = (is1, os1, q2)" by (metis prod_cases3)
  from Cons.prems(2) s r0 have eqs: "is = i @ is1" "os = o1 @ os1" and q2: "q2 = q'" by auto
  note r = r0 [unfolded q2]
  from step_owner_fifo [OF Cons.prems(1) s] Cons.prems(3) have "contents q @ i = o1 @ contents q1" by simp
  moreover from step_mset [OF Cons.prems(1) s] have "inv q1" by simp
  from Cons.IH [OF this r] Cons.prems(3) have "contents q1 @ is1 = os1 @ contents q'" by simp
  ultimately show ?case unfolding eqs by (metis append.assoc)
qed

end

text \<open>The ring also never refuses an entry while it is empty; the block-based queue may.\<close>

locale unbounded_rounds = work_queue +
  assumes push_empty: "inv q \<Longrightarrow> contents q = [] \<Longrightarrow> fst (push q x)"
begin

lemma drained_accepts:
  assumes "inv q" "pop q = (None, q')"
  shows "fst (push q' x)"
  using pop_none [OF assms] push_empty by blast

end

end
