(* ===== verification/Ring_Queue.thy ===== *)
theory Ring_Queue
  imports Work_Queue_Spec Packed_Cursor
begin

text \<open>
  \<^verbatim>\<open>queue/RingQueue.h\<close>: a fixed power-of-two ring with a free-running head and tail.
  Each operation is modelled as its successful pass (the compare-exchange of an
  operation that runs alone succeeds on its first try); the word-level counters
  wrap exactly as in the code.
\<close>

section \<open>The model\<close>

record (overloaded) ('w, 'a) ring_queue =
  rq_capacity :: nat
  rq_head :: "'w::len word"
  rq_tail :: "'w word"
  rq_buffer :: "'a list"

text \<open>The static assertions of the class template, and the buffer's array bound.\<close>

definition ring_static :: "('w::len, 'a) ring_queue \<Rightarrow> bool" where
  "ring_static q \<longleftrightarrow> rq_capacity q < 2 ^ LENGTH('w)
     \<and> isPowerOfTwo (of_nat (rq_capacity q) :: 'w word) \<and> rq_capacity q \<ge> 2
     \<and> length (rq_buffer q) = rq_capacity q"

definition ring_new :: "'a list \<Rightarrow> ('w::len, 'a) ring_queue" where
  "ring_new storage = \<lparr>rq_capacity = length storage, rq_head = 0, rq_tail = 0, rq_buffer = storage\<rparr>"

definition ring_kMask :: "('w::len, 'a) ring_queue \<Rightarrow> 'w word" where
  "ring_kMask q = of_nat (rq_capacity q) - 1"

definition ring_kEntriesPerBlock :: "('w::len, 'a) ring_queue \<Rightarrow> 'w word" where
  "ring_kEntriesPerBlock q = of_nat (rq_capacity q) div 2"

definition ring_slot :: "('w::len, 'a) ring_queue \<Rightarrow> 'w word \<Rightarrow> nat" where
  "ring_slot q i = unat (i AND ring_kMask q)"

definition ring_push :: "('w::len, 'a) ring_queue \<Rightarrow> 'a \<Rightarrow> bool \<times> ('w, 'a) ring_queue" where
  "ring_push q x =
     (let t = rq_tail q; h = rq_head q in
      if t - h \<ge> of_nat (rq_capacity q) then (False, q)
      else (True, q\<lparr>rq_buffer := (rq_buffer q)[ring_slot q t := x], rq_tail := t + 1\<rparr>))"

fun ring_pushBatch :: "('w::len, 'a) ring_queue \<Rightarrow> 'a list \<Rightarrow> nat \<times> ('w, 'a) ring_queue" where
  "ring_pushBatch q [] = (0, q)"
| "ring_pushBatch q (x # xs) =
     (case ring_push q x of
        (False, q') \<Rightarrow> (0, q')
      | (True, q') \<Rightarrow> (case ring_pushBatch q' xs of (pushed, q'') \<Rightarrow> (Suc pushed, q'')))"

definition ring_pop :: "('w::len, 'a) ring_queue \<Rightarrow> 'a option \<times> ('w, 'a) ring_queue" where
  "ring_pop q =
     (let h = rq_head q; t = rq_tail q in
      if h = t then (None, q)
      else (Some (rq_buffer q ! ring_slot q h), q\<lparr>rq_head := h + 1\<rparr>))"

definition ring_grab :: "('w::len, 'a) ring_queue \<Rightarrow> bool \<Rightarrow> 'a list \<times> ('w, 'a) ring_queue" where
  "ring_grab q half =
     (let h = rq_head q; t = rq_tail q; available = t - h;
          n = (if half then available - available div 2 else available)
      in if n = 0 then ([], q)
         else let m = (if n > ring_kEntriesPerBlock q then ring_kEntriesPerBlock q else n)
              in (map (\<lambda>i. rq_buffer q ! ring_slot q (h + of_nat i)) [0..<unat m],
                  q\<lparr>rq_head := h + m\<rparr>))"

definition ring_popBlock :: "('w::len, 'a) ring_queue \<Rightarrow> 'a list \<times> ('w, 'a) ring_queue" where
  "ring_popBlock q = ring_grab q True"

definition ring_minRemainingSlots :: "('w::len, 'a) ring_queue \<Rightarrow> 'w word" where
  "ring_minRemainingSlots q = of_nat (rq_capacity q) - (rq_tail q - rq_head q)"

definition ring_hasEntries :: "('w::len, 'a) ring_queue \<Rightarrow> bool" where
  "ring_hasEntries q \<longleftrightarrow> rq_tail q \<noteq> rq_head q"

definition ring_steal :: "('w::len, 'a) ring_queue \<Rightarrow> 'a option \<times> ('w, 'a) ring_queue" where
  "ring_steal q =
     (let h = rq_head q; t = rq_tail q in
      if h = t then (None, q)
      else (Some (rq_buffer q ! ring_slot q h), q\<lparr>rq_head := h + 1\<rparr>))"

definition ring_stealBlock :: "('w::len, 'a) ring_queue \<Rightarrow> 'a list \<times> ('w, 'a) ring_queue" where
  "ring_stealBlock q = ring_grab q True"

definition ring_isEmptyForThief :: "('w::len, 'a) ring_queue \<Rightarrow> bool" where
  "ring_isEmptyForThief q \<longleftrightarrow> \<not> ring_hasEntries q"

section \<open>Abstraction: the entries between head and tail\<close>

definition ring_size :: "('w::len, 'a) ring_queue \<Rightarrow> nat" where
  "ring_size q = unat (rq_tail q - rq_head q)"

definition ring_contents :: "('w::len, 'a) ring_queue \<Rightarrow> 'a list" where
  "ring_contents q = map (\<lambda>i. rq_buffer q ! ((unat (rq_head q) + i) mod rq_capacity q)) [0..<ring_size q]"

definition ring_inv :: "('w::len, 'a) ring_queue \<Rightarrow> bool" where
  "ring_inv q \<longleftrightarrow> ring_static q \<and> ring_size q \<le> rq_capacity q"

lemma ring_static_exp:
  assumes "ring_static (q :: ('w::len, 'a) ring_queue)"
  obtains k where "rq_capacity q = 2 ^ k" "0 < k" "k < LENGTH('w)"
proof -
  have small: "rq_capacity q < 2 ^ LENGTH('w)" and two: "2 \<le> rq_capacity q"
    and p: "isPowerOfTwo (of_nat (rq_capacity q) :: 'w word)"
    using assms by (auto simp: ring_static_def)
  from isPowerOfTwo_exp [OF p] obtain k where k: "rq_capacity q = 2 ^ k"
    using small by (auto simp: unat_of_nat_small)
  with two have "0 < k" by (cases k) auto
  moreover from k small have "k < LENGTH('w)" by simp
  ultimately show ?thesis using k that by blast
qed

lemma unat_and_kMask:
  assumes "ring_static (q :: ('w::len, 'a) ring_queue)"
  shows "unat (i AND ring_kMask q) = unat i mod rq_capacity q"
proof -
  from assms obtain k where k: "rq_capacity q = 2 ^ k" by (rule ring_static_exp)
  then have "ring_kMask q = (mask k :: 'w word)"
    by (simp add: ring_kMask_def mask_eq_exp_minus_1)
  then have "i AND ring_kMask q = cursor_index k i"
    by (simp add: cursor_index_def kIndexMask_mask)
  then show ?thesis by (simp add: unat_cursor_index k)
qed

lemma unat_add_mod_capacity:
  assumes "ring_static (q :: ('w::len, 'a) ring_queue)"
  shows "unat (i + j :: 'w word) mod rq_capacity q = (unat i + unat j) mod rq_capacity q"
proof -
  from assms obtain k where k: "rq_capacity q = 2 ^ k" "k < LENGTH('w)" by (rule ring_static_exp)
  then have "(2::nat) ^ k dvd 2 ^ LENGTH('w)" by (simp add: le_imp_power_dvd)
  then show ?thesis by (simp add: k unat_word_ariths mod_mod_cancel)
qed

lemma ring_slot_eq:
  assumes "ring_static (q :: ('w::len, 'a) ring_queue)"
  shows "ring_slot q (i + of_nat j) = (unat i + j) mod rq_capacity q"
proof -
  from assms obtain k where k: "rq_capacity q = 2 ^ k" "k < LENGTH('w)" by (rule ring_static_exp)
  then have "(2::nat) ^ k dvd 2 ^ LENGTH('w)" by (simp add: le_imp_power_dvd)
  then have "unat (of_nat j :: 'w word) mod rq_capacity q = j mod rq_capacity q"
    by (simp add: k unat_of_nat mod_mod_cancel)
  then show ?thesis
    unfolding ring_slot_def unat_and_kMask [OF assms] unat_add_mod_capacity [OF assms]
    by (metis mod_add_right_eq)
qed

lemma ring_slot_eq0: "ring_static q \<Longrightarrow> ring_slot q i = unat i mod rq_capacity q"
  using ring_slot_eq [of q i 0] by simp

lemma ring_slot_tail:
  assumes "ring_static q"
  shows "ring_slot q (rq_tail q) = (unat (rq_head q) + ring_size q) mod rq_capacity q"
proof -
  have "rq_tail q = rq_head q + of_nat (ring_size q)"
    by (simp add: ring_size_def)
  then show ?thesis by (metis ring_slot_eq [OF assms])
qed

section \<open>The operations on the list of entries\<close>

lemma ring_size_zero: "ring_size q = 0 \<longleftrightarrow> rq_tail q = rq_head q"
  by (auto simp: ring_size_def unsigned_eq_0_iff)

lemma length_ring_contents [simp]: "length (ring_contents q) = ring_size q"
  by (simp add: ring_contents_def)

lemma ring_contents_Nil: "ring_contents q = [] \<longleftrightarrow> rq_tail q = rq_head q"
  by (metis length_0_conv length_ring_contents ring_size_zero)

lemma ring_invD:
  assumes "ring_inv (q :: ('w::len, 'a) ring_queue)"
  shows "ring_static q" "0 < rq_capacity q" "rq_capacity q < 2 ^ LENGTH('w)"
    "unat (of_nat (rq_capacity q) :: 'w word) = rq_capacity q" "length (rq_buffer q) = rq_capacity q"
    "ring_size q \<le> rq_capacity q"
  using assms by (auto simp: ring_inv_def ring_static_def unat_of_nat_small)

lemma ring_push_cases:
  assumes "ring_inv (q :: ('w::len, 'a) ring_queue)"
  shows "fst (ring_push q x) \<longleftrightarrow> ring_size q < rq_capacity q"
  using ring_invD(4) [OF assms]
  by (simp add: ring_push_def Let_def word_le_nat_alt ring_size_def not_le)

lemma ring_size_succ:
  fixes q :: "('w::len, 'a) ring_queue"
  assumes "ring_inv q" "ring_size q < rq_capacity q"
  shows "unat (rq_tail q + 1 - rq_head q) = Suc (ring_size q)"
proof -
  have "rq_tail q + 1 - rq_head q = of_nat (Suc (ring_size q))"
    by (simp add: ring_size_def algebra_simps)
  moreover have "Suc (ring_size q) < 2 ^ LENGTH('w)"
    using assms ring_invD(3) [OF assms(1)] by simp
  ultimately show ?thesis by (simp only: unat_of_nat_small)
qed

lemma ring_push_law:
  fixes q :: "('w::len, 'a) ring_queue"
  assumes inv: "ring_inv q" and push: "ring_push q x = (True, q')"
  shows "ring_inv q' \<and> ring_contents q' = ring_contents q @ [x]"
proof -
  note d = ring_invD [OF inv]
  from ring_push_cases [OF inv, of x] push have room: "ring_size q < rq_capacity q" by simp
  let ?s = "(unat (rq_head q) + ring_size q) mod rq_capacity q"
  from push have q': "q' = q\<lparr>rq_buffer := (rq_buffer q)[?s := x], rq_tail := rq_tail q + 1\<rparr>"
    by (auto simp: ring_push_def Let_def ring_slot_tail [OF d(1)] split: if_splits)
  then have size: "ring_size q' = Suc (ring_size q)"
    using ring_size_succ [OF inv room] by (simp add: ring_size_def)
  have other: "(unat (rq_head q) + i) mod rq_capacity q \<noteq> ?s" if "i < ring_size q" for i
    using mod_add_eq_imp_eq [of "unat (rq_head q)" i "rq_capacity q" "ring_size q"] that room by auto
  have "ring_contents q' = map (\<lambda>i. (rq_buffer q)[?s := x] ! ((unat (rq_head q) + i) mod rq_capacity q))
      [0..<Suc (ring_size q)]"
    by (simp only: ring_contents_def size) (simp add: q')
  also have "\<dots> = ring_contents q @ [x]"
    using d(2,5) by (auto simp: ring_contents_def nth_list_update dest!: sym [of "?s"] dest: other)
  finally have "ring_contents q' = ring_contents q @ [x]" .
  moreover have "ring_inv q'"
    using inv room unfolding ring_inv_def ring_static_def size by (simp add: q')
  ultimately show ?thesis by simp
qed

text \<open>Moving the head past the first \<open>m\<close> entries, which is what pop, steal and grab do.\<close>

lemma ring_advance:
  fixes q :: "('w::len, 'a) ring_queue"
  assumes inv: "ring_inv q" and m: "m \<le> ring_size q"
  defines "q' \<equiv> q\<lparr>rq_head := rq_head q + of_nat m\<rparr>"
  shows "ring_inv q'" "ring_contents q' = drop m (ring_contents q)"
    "map (\<lambda>i. rq_buffer q ! ring_slot q (rq_head q + of_nat i)) [0..<m] = take m (ring_contents q)"
proof -
  note d = ring_invD [OF inv]
  have "rq_tail q' - rq_head q' = of_nat (ring_size q) - of_nat m"
    by (simp add: q'_def ring_size_def algebra_simps)
  also have "\<dots> = of_nat (ring_size q - m)"
    using m by (simp add: of_nat_diff)
  finally have size: "ring_size q' = ring_size q - m"
    using d(3,6) by (simp only: ring_size_def [of q']) (simp add: unat_of_nat_small)
  show "ring_inv q'"
    using inv m unfolding ring_inv_def ring_static_def size by (simp add: q'_def le_diff_conv)
  have shift: "(unat (rq_head q + of_nat m) + i) mod rq_capacity q
      = (unat (rq_head q) + (m + i)) mod rq_capacity q" for i
  proof -
    have "unat (rq_head q + of_nat m) mod rq_capacity q = (unat (rq_head q) + m) mod rq_capacity q"
      using ring_slot_eq [OF d(1), of "rq_head q" m] ring_slot_eq0 [OF d(1), of "rq_head q + of_nat m"] by simp
    then show ?thesis by (metis add.assoc mod_add_left_eq)
  qed
  show "ring_contents q' = drop m (ring_contents q)"
    by (rule nth_equalityI) (use m in \<open>simp_all add: size\<close>,
        use m in \<open>simp add: ring_contents_def size\<close>, simp add: q'_def shift)
  show "map (\<lambda>i. rq_buffer q ! ring_slot q (rq_head q + of_nat i)) [0..<m] = take m (ring_contents q)"
    using m by (intro nth_equalityI) (simp_all add: ring_contents_def ring_slot_eq [OF d(1)])
qed

lemma ring_pop_law:
  assumes inv: "ring_inv q" and pop: "ring_pop q = (r, q')"
  shows "ring_inv q' \<and> (case r of None \<Rightarrow> ring_contents q = [] \<and> q' = q
    | Some x \<Rightarrow> ring_contents q = x # ring_contents q')"
proof (cases "rq_tail q = rq_head q")
  case True
  then show ?thesis
    using pop inv by (auto simp: ring_pop_def Let_def ring_contents_Nil)
next
  case False
  then have ne: "ring_contents q \<noteq> []" "1 \<le> ring_size q"
    using ring_size_zero [of q] by (auto simp: ring_contents_Nil)
  note adv = ring_advance [OF inv ne(2)]
  have "rq_buffer q ! ring_slot q (rq_head q) = hd (ring_contents q)"
    using adv(3) ne(1) by (cases "ring_contents q") auto
  with False pop have "r = Some (hd (ring_contents q))" "q' = q\<lparr>rq_head := rq_head q + of_nat 1\<rparr>"
    by (auto simp: ring_pop_def Let_def)
  with adv(1,2) ne(1) show ?thesis by (cases "ring_contents q") auto
qed

lemma ring_steal_is_pop: "ring_steal q = ring_pop q"
  by (simp add: ring_steal_def ring_pop_def)

definition ring_share :: "nat \<Rightarrow> nat \<Rightarrow> nat" where
  "ring_share cap n = min (n - n div 2) (cap div 2)"

lemma ring_grab_law:
  fixes q :: "('w::len, 'a) ring_queue"
  assumes inv: "ring_inv q" and grab: "ring_grab q True = (xs, q')"
  shows "ring_inv q' \<and> xs = take (ring_share (rq_capacity q) (ring_size q)) (ring_contents q)
    \<and> ring_contents q' = drop (ring_share (rq_capacity q) (ring_size q)) (ring_contents q)"
proof -
  note d = ring_invD [OF inv]
  let ?a = "rq_tail q - rq_head q" let ?n = "?a - ?a div 2"
  have two: "unat (2 :: 'w word) = 2"
    using d(1,3) unat_of_nat_small [of 2, where 'w = 'w] by (simp add: ring_static_def)
  have len: "LENGTH('w) \<noteq> Suc 0" using d(1,3) by (auto simp: ring_static_def)
  have "unat (?a div 2) \<le> unat ?a" by (simp add: unat_div)
  then have n: "unat ?n = ring_size q - ring_size q div 2"
    using len by (simp add: unat_sub word_le_nat_alt ring_size_def unat_div two del: unat_numeral)
  have blk: "unat (ring_kEntriesPerBlock q) = rq_capacity q div 2"
    using len by (simp add: ring_kEntriesPerBlock_def unat_div d(4) two del: unat_numeral)
  let ?m = "if ?n > ring_kEntriesPerBlock q then ring_kEntriesPerBlock q else ?n"
  have m: "unat ?m = ring_share (rq_capacity q) (ring_size q)"
    by (auto simp: ring_share_def word_less_nat_alt n blk min_def)
  have le: "unat ?m \<le> ring_size q"
    unfolding m by (simp add: ring_share_def min.coboundedI1)
  note adv = ring_advance [OF inv le]
  show ?thesis
  proof (cases "?n = 0")
    case True
    then have "ring_share (rq_capacity q) (ring_size q) = 0" using n by (simp add: ring_share_def)
    then show ?thesis using True grab inv by (auto simp: ring_grab_def Let_def)
  next
    case False
    with grab have "xs = map (\<lambda>i. rq_buffer q ! ring_slot q (rq_head q + of_nat i)) [0..<unat ?m]"
      "q' = q\<lparr>rq_head := rq_head q + of_nat (unat ?m)\<rparr>"
      by (auto simp: ring_grab_def Let_def)
    with adv show ?thesis by (simp only: m)
  qed
qed

section \<open>The ring implements the work-queue contract\<close>

lemma ring_push_full:
  "ring_inv q \<Longrightarrow> ring_push q x = (False, q') \<Longrightarrow> ring_inv q' \<and> ring_contents q' = ring_contents q"
  by (auto simp: ring_push_def Let_def split: if_splits)

lemma ring_push_empty: "ring_inv q \<Longrightarrow> ring_contents q = [] \<Longrightarrow> fst (ring_push q x)"
  using ring_invD(2) [of q] by (simp add: ring_push_cases ring_contents_Nil ring_size_def)

lemma ring_pop_none:
  "ring_inv q \<Longrightarrow> ring_pop q = (None, q') \<Longrightarrow> ring_inv q' \<and> ring_contents q' = [] \<and> ring_contents q = []"
  using ring_pop_law [of q None q'] by auto

lemma ring_pop_some:
  "ring_inv q \<Longrightarrow> ring_pop q = (Some x, q') \<Longrightarrow> ring_inv q' \<and> ring_contents q = x # ring_contents q'"
  using ring_pop_law [of q "Some x" q'] by simp

lemma ring_popBlock_law:
  assumes "ring_inv q" "ring_popBlock q = (xs, q')"
  shows "ring_inv q' \<and> ring_contents q = xs @ ring_contents q' \<and> (xs = [] \<longrightarrow> ring_contents q = [])"
proof -
  have "2 \<le> rq_capacity q" using ring_invD(1) [OF assms(1)] by (simp add: ring_static_def)
  then have "ring_share (rq_capacity q) (ring_size q) = 0 \<longleftrightarrow> ring_size q = 0"
    by (auto simp: ring_share_def min_def)
  with ring_grab_law [OF assms(1), of xs q'] assms(2) show ?thesis
    by (auto simp: ring_popBlock_def) (metis length_0_conv length_ring_contents)
qed

interpretation ring: unbounded_rounds ring_push ring_pop ring_popBlock ring_steal ring_stealBlock
  ring_hasEntries ring_contents ring_inv
proof unfold_locales
qed (fact ring_push_law ring_push_full ring_push_empty ring_pop_none ring_pop_some ring_popBlock_law
  | simp add: ring_steal_is_pop ring_stealBlock_def ring_popBlock_def [symmetric] ring_hasEntries_def ring_contents_Nil
      ring_pop_none
  | metis append_Nil ring_pop_some ring_popBlock_law ring_steal_is_pop ring_stealBlock_def ring_popBlock_def ring_pop_none)+

lemmas ring_run_laws = ring.run_conserves ring.run_owner_fifo

lemma ring_push_size:
  assumes "ring_inv q" "ring_push q x = (ok, q')"
  shows "ring_inv q' \<and> rq_capacity q' = rq_capacity q
    \<and> ring_contents q' = ring_contents q @ (if ring_size q < rq_capacity q then [x] else [])"
proof -
  have "rq_capacity q' = rq_capacity q"
    using assms(2) by (auto simp: ring_push_def Let_def split: if_splits)
  then show ?thesis
    using ring_push_cases [OF assms(1), of x] assms ring_push_law [OF assms(1), of x q']
      ring_push_full [OF assms(1), of x q'] by (cases ok) auto
qed

lemma ring_new_inv:
  assumes "length storage = 2 ^ k" "0 < k" "k < LENGTH('w)"
  shows "ring_inv (ring_new storage :: ('w::len, 'a) ring_queue)" "ring_contents (ring_new storage :: ('w, 'a) ring_queue) = []"
proof -
  have "(2 ^ k AND (2 ^ k - 1) :: 'w word) = 0"
    by (rule bit_word_eqI) (auto simp: bit_and_iff bit_exp_iff simp flip: mask_eq_exp_minus_1 simp: bit_mask_iff)
  moreover have "(2 ^ k :: 'w word) \<noteq> 0" using assms(3) by (simp add: exp_eq_zero_iff)
  ultimately have "isPowerOfTwo (2 ^ k :: 'w word)" by (simp add: isPowerOfTwo_def)
  moreover have "(2::nat) \<le> 2 ^ k" using assms(2) by (cases k) auto
  ultimately show "ring_inv (ring_new storage :: ('w::len, 'a) ring_queue)"
    using assms by (simp add: ring_inv_def ring_static_def ring_new_def ring_size_def)
  show "ring_contents (ring_new storage :: ('w, 'a) ring_queue) = []"
    by (simp add: ring_contents_Nil ring_new_def)
qed

lemma ring_pushBatch_law:
  fixes q :: "('w::len, 'a) ring_queue"
  assumes "ring_inv q" "ring_pushBatch q xs = (n, q')"
  shows "ring_inv q' \<and> n = min (length xs) (rq_capacity q - ring_size q) \<and> ring_contents q' = ring_contents q @ take n xs"
  using assms
proof (induction xs arbitrary: q n)
  case Nil
  then show ?case by simp
next
  case (Cons x xs)
  obtain ok q1 where p: "ring_push q x = (ok, q1)" by (cases "ring_push q x")
  note one = ring_push_size [OF Cons.prems(1) p] ring_push_cases [OF Cons.prems(1), of x]
  obtain m q2 where b: "ring_pushBatch q1 xs = (m, q2)" by (cases "ring_pushBatch q1 xs")
  show ?case
  proof (cases ok)
    case True
    with one p have room: "ring_size q < rq_capacity q" by simp
    then have len: "ring_size q1 = Suc (ring_size q)"
      using one(1) by (metis length_append_singleton length_ring_contents)
    from True p b Cons.prems(2) have "n = Suc m" "q2 = q'" by auto
    with Cons.IH [of q1 m] b one(1) len room show ?thesis by auto
  next
    case False
    with p Cons.prems one show ?thesis by auto
  qed
qed

section \<open>Properties\<close>

text \<open>C2: whatever schedule of owner and thief operations runs on the ring, including past the
  wrap-around of the free-running counters, every accepted entry is handed out exactly once or
  is still queued; when only the owner runs, entries leave in the order they were pushed.\<close>

theorem ring_schedule_exactly_once:
  fixes q :: "('w::len, 'a) ring_queue"
  assumes "ring_inv q"
    and "wq_run (wq_step ring_push ring_pop ring_popBlock ring_steal ring_stealBlock) q ops = (ins, outs, q')"
  shows "ring_inv q' \<and> mset (ring_contents q) + mset ins = mset outs + mset (ring_contents q')
    \<and> (list_all wq_owner_op ops \<longrightarrow> ring_contents q @ ins = outs @ ring_contents q')"
  using ring_run_laws [OF assms] by blast

theorem ring_schedule_exactly_once_witness:
  "\<exists>ins outs q'. wq_run (wq_step ring_push ring_pop ring_popBlock ring_steal ring_stealBlock)
       (\<lparr>rq_capacity = 4, rq_head = - 1, rq_tail = - 1, rq_buffer = [0, 0, 0, 0]\<rparr> :: (64, nat) ring_queue)
       [WPush 1, WPush 2, WPop, WPush 3, WPopBlock] = (ins, outs, q')
     \<and> ring_inv q' \<and> mset ins = mset outs + mset (ring_contents q') \<and> ins = outs @ ring_contents q'"
proof -
  let ?q = "\<lparr>rq_capacity = 4, rq_head = - 1, rq_tail = - 1, rq_buffer = [0, 0, 0, 0]\<rparr> :: (64, nat) ring_queue"
  let ?ops = "[WPush 1, WPush 2, WPop, WPush 3, WPopBlock] :: nat wq_op list"
  have inv: "ring_inv ?q"
    by (simp add: ring_inv_def ring_static_def isPowerOfTwo_def ring_size_def)
  have empty: "ring_contents ?q = []" by (simp add: ring_contents_Nil)
  obtain ins outs q' where
    run: "wq_run (wq_step ring_push ring_pop ring_popBlock ring_steal ring_stealBlock) ?q ?ops = (ins, outs, q')"
    by (metis prod_cases3)
  from ring_schedule_exactly_once [OF inv run] run empty show ?thesis by (intro exI [of _ ins] exI [of _ outs] exI [of _ q']) simp
qed

text \<open>a batch push accepts exactly as many entries as there are free slots (or the whole
  batch), keeps their order behind what was queued, and \<open>minRemainingSlots\<close> reports the number
  of free slots exactly.\<close>

theorem ring_pushBatch_exact:
  fixes q :: "('w::len, 'a) ring_queue"
  assumes "ring_inv q" "ring_pushBatch q xs = (n, q')"
  shows "ring_inv q' \<and> n = min (length xs) (unat (ring_minRemainingSlots q))
    \<and> ring_contents q' = ring_contents q @ take n xs"
proof -
  have free: "unat (ring_minRemainingSlots q) = rq_capacity q - ring_size q"
    using ring_invD [OF assms(1)] unfolding ring_minRemainingSlots_def ring_size_def
    by (simp add: unat_sub word_le_nat_alt)
  from ring_pushBatch_law [OF assms] show ?thesis by (simp only: free)
qed

theorem ring_pushBatch_exact_witness:
  "\<exists>n q'. ring_pushBatch (ring_new [0, 0] :: (32, nat) ring_queue) [7, 8, 9] = (n, q')
     \<and> n = 2 \<and> ring_contents q' = [7, 8]"
proof -
  let ?q = "ring_new [0, 0] :: (32, nat) ring_queue"
  have inv: "ring_inv ?q" "ring_contents ?q = []"
    using ring_new_inv [of "[0, 0 :: nat]" 1, where 'w = 32] by simp_all
  obtain n q' where b: "ring_pushBatch ?q [7, 8, 9] = (n, q')" by (cases "ring_pushBatch ?q [7, 8, 9]")
  have "unat (ring_minRemainingSlots ?q) = 2" by (simp add: ring_minRemainingSlots_def ring_new_def)
  with ring_pushBatch_exact [OF inv(1) b] inv(2) b show ?thesis by (simp add: numeral_2_eq_2)
qed

end
