(* ===== verification/Bbq_Queue.thy ===== *)
theory Bbq_Queue
  imports Packed_Cursor
begin

text \<open>
  \<^verbatim>\<open>queue/BbqQueue.h\<close>: the bounded block queue behind the scheduler's injection
  queue.  Heads and cursors are packed words; each operation is modelled as it runs
  alone (its fetch-adds, atomic maxima and compare-exchanges in program order, none of
  them interfered with), so the loops of push and pop are \<open>partial_function\<close>s whose
  return is part of what is proved.
\<close>

section \<open>The model\<close>

datatype PushStatus = PushOk | PushFull | PushBusy

datatype 'a PopStatus = PopOk 'a | PopEmpty | PopBusy

record (overloaded) ('w, 'a) bbq_block =
  allocated :: "'w::len word"
  committed :: "'w::len word"
  reserved :: "'w::len word"
  consumed :: "'w::len word"
  entries :: "'a list"

record (overloaded) ('w, 'a) bbq_queue =
  bq_numBlocks :: nat
  bq_blockSize :: nat
  producerHead :: "'w::len word"
  consumerHead :: "'w::len word"
  blocks :: "('w, 'a) bbq_block list"

definition bbq_kCapacity :: "('w::len, 'a) bbq_queue \<Rightarrow> nat" where
  "bbq_kCapacity q = (bq_numBlocks q - 1) * bq_blockSize q"

definition headBits :: "('w::len, 'a) bbq_queue \<Rightarrow> nat" where
  "headBits q = bitsToHold (bq_numBlocks q - 1)"

definition kOverflowBits :: nat where
  "kOverflowBits = 10"

definition cursorBits :: "('w::len, 'a) bbq_queue \<Rightarrow> nat" where
  "cursorBits q = bitsToHold (bq_blockSize q) + kOverflowBits"

definition bbq_static :: "('w::len, 'a) bbq_queue \<Rightarrow> bool" where
  "bbq_static q \<longleftrightarrow> bq_numBlocks q < 2 ^ LENGTH('w) \<and> isPowerOfTwo (of_nat (bq_numBlocks q) :: 'w word)
     \<and> bq_numBlocks q \<ge> 2 \<and> bq_blockSize q \<ge> 1 \<and> cursorBits q < LENGTH('w)
     \<and> length (blocks q) = bq_numBlocks q \<and> (\<forall>b\<in>set (blocks q). length (entries b) = bq_blockSize q)"

definition bbq_new :: "nat \<Rightarrow> nat \<Rightarrow> 'a list \<Rightarrow> ('w::len, 'a) bbq_queue" where
  "bbq_new numBlocks blockSize storage =
     (let initial = (\<lambda>i. cursor_make (bitsToHold blockSize + kOverflowBits) 0 (if i = (0::nat) then 0 else of_nat blockSize))
      in \<lparr>bq_numBlocks = numBlocks, bq_blockSize = blockSize, producerHead = 0, consumerHead = 0,
          blocks = map (\<lambda>i. \<lparr>allocated = initial i, committed = initial i, reserved = initial i,
                             consumed = initial i, entries = storage\<rparr>) [0..<numBlocks]\<rparr>)"

definition atomicMax :: "'w::len word \<Rightarrow> 'w word \<Rightarrow> 'w word" where
  "atomicMax current value = (if current < value then value else current)"

definition blockAt :: "('w::len, 'a) bbq_queue \<Rightarrow> 'w word \<Rightarrow> ('w, 'a) bbq_block" where
  "blockAt q i = blocks q ! unat i"

definition updBlock :: "('w::len, 'a) bbq_queue \<Rightarrow> 'w word \<Rightarrow> (('w, 'a) bbq_block \<Rightarrow> ('w, 'a) bbq_block) \<Rightarrow> ('w, 'a) bbq_queue" where
  "updBlock q i f = q\<lparr>blocks := (blocks q)[unat i := f (blocks q ! unat i)]\<rparr>"

definition nextIndex :: "('w::len, 'a) bbq_queue \<Rightarrow> 'w word \<Rightarrow> 'w word" where
  "nextIndex q i = (i + 1) AND (of_nat (bq_numBlocks q) - 1)"

text \<open>Moving the producer head: None means the loop of push goes round again.\<close>

definition advance_phead :: "('w::len, 'a) bbq_queue \<Rightarrow> 'w word \<Rightarrow> PushStatus option \<times> ('w, 'a) bbq_queue" where
  "advance_phead q head =
     (let hv = cursor_version (headBits q) head;
          ni = nextIndex q (cursor_index (headBits q) head);
          next = blockAt q ni;
          n = cursorBits q;
          cv = cursor_version n (consumed next);
          ci = cursor_index n (consumed next);
          previousRoundLeft = (cv = hv \<and> ci = of_nat (bq_blockSize q));
          laterRound = (cv > hv)
      in if \<not> previousRoundLeft \<and> \<not> laterRound
         then (Some (if cursor_index n (reserved next) = ci then PushFull else PushBusy), q)
         else let fresh = cursor_make n (hv + 1) 0;
                  q1 = updBlock q ni (\<lambda>b. b\<lparr>committed := atomicMax (committed b) fresh\<rparr>);
                  q2 = updBlock q1 ni (\<lambda>b. b\<lparr>allocated := atomicMax (allocated b) fresh\<rparr>)
              in (None, q2\<lparr>producerHead := atomicMax (producerHead q2) (head + 1)\<rparr>))"

definition bbq_push_once :: "('w::len, 'a) bbq_queue \<Rightarrow> 'a \<Rightarrow> PushStatus option \<times> ('w, 'a) bbq_queue" where
  "bbq_push_once q x =
     (let head = producerHead q;
          i = cursor_index (headBits q) head;
          n = cursorBits q;
          peek = allocated (blockAt q i)
      in if cursor_index n peek < of_nat (bq_blockSize q)
         then let slot = allocated (blockAt q i);
                  q1 = updBlock q i (\<lambda>b. b\<lparr>allocated := allocated b + 1\<rparr>)
              in if cursor_index n slot < of_nat (bq_blockSize q)
                 then (Some PushOk,
                       updBlock q1 i (\<lambda>b. b\<lparr>entries := (entries b)[unat (cursor_index n slot) := x],
                                            committed := committed b + 1\<rparr>))
                 else advance_phead q1 head
         else advance_phead q head)"

partial_function (option) bbq_push :: "('w::len, 'a) bbq_queue \<Rightarrow> 'a \<Rightarrow> (PushStatus \<times> ('w, 'a) bbq_queue) option" where
  "bbq_push q x =
     (case bbq_push_once q x of
        (Some s, q') \<Rightarrow> Some (s, q')
      | (None, q') \<Rightarrow> bbq_push q' x)"

definition advance_chead :: "('w::len, 'a) bbq_queue \<Rightarrow> 'w word \<Rightarrow> 'a PopStatus option \<times> ('w, 'a) bbq_queue" where
  "advance_chead q head =
     (let hv = cursor_version (headBits q) head;
          ni = nextIndex q (cursor_index (headBits q) head);
          n = cursorBits q
      in if cursor_version n (committed (blockAt q ni)) \<noteq> hv + 1
         then (Some PopEmpty, q)
         else let fresh = cursor_make n (hv + 1) 0;
                  q1 = updBlock q ni (\<lambda>b. b\<lparr>consumed := atomicMax (consumed b) fresh\<rparr>);
                  q2 = updBlock q1 ni (\<lambda>b. b\<lparr>reserved := atomicMax (reserved b) fresh\<rparr>)
              in (None, q2\<lparr>consumerHead := atomicMax (consumerHead q2) (head + 1)\<rparr>))"

definition bbq_pop_once :: "('w::len, 'a) bbq_queue \<Rightarrow> 'a PopStatus option \<times> ('w, 'a) bbq_queue" where
  "bbq_pop_once q =
     (let head = consumerHead q;
          i = cursor_index (headBits q) head;
          n = cursorBits q;
          block = blockAt q i;
          ri = cursor_index n (reserved block);
          ci = cursor_index n (committed block)
      in if ri < of_nat (bq_blockSize q)
         then if ri = ci then (Some PopEmpty, q)
              else if ci \<noteq> of_nat (bq_blockSize q) \<and> cursor_index n (allocated block) \<noteq> ci
              then (Some PopBusy, q)
              else (Some (PopOk (entries block ! unat ri)),
                    updBlock (updBlock q i (\<lambda>b. b\<lparr>reserved := cursor_addIndex (reserved b) 1\<rparr>)) i
                      (\<lambda>b. b\<lparr>consumed := consumed b + 1\<rparr>))
         else advance_chead q head)"

partial_function (option) bbq_pop :: "('w::len, 'a) bbq_queue \<Rightarrow> ('a PopStatus \<times> ('w, 'a) bbq_queue) option" where
  "bbq_pop q =
     (case bbq_pop_once q of
        (Some s, q') \<Rightarrow> Some (s, q')
      | (None, q') \<Rightarrow> bbq_pop q')"

definition bbq_isEmptyApprox :: "('w::len, 'a) bbq_queue \<Rightarrow> bool" where
  "bbq_isEmptyApprox q =
     (let head = consumerHead q;
          i = cursor_index (headBits q) head;
          n = cursorBits q;
          block = blockAt q i
      in if cursor_index n (reserved block) < of_nat (bq_blockSize q)
         then cursor_index n (reserved block) = cursor_index n (committed block)
         else let next = blockAt q (nextIndex q i)
              in if cursor_version n (committed next) \<noteq> cursor_version (headBits q) head + 1 then True
                 else cursor_version n (reserved next) = cursor_version n (committed next)
                      \<and> cursor_index n (reserved next) = cursor_index n (committed next))"

declare bbq_push.simps [code] bbq_pop.simps [code]

section \<open>Block numbers\<close>

text \<open>
  The raw value of a head is the number of blocks passed so far.  Shifted by the number
  of blocks, so that the blocks that start out as already consumed have numbers too, the
  block with number \<open>m\<close> lies at index \<open>m mod N\<close> and its cursors carry the version
  \<open>(m - 1) div N\<close>.  \<open>bbq_at q K p L c\<close>: the producer has filled \<open>p\<close> slots of block \<open>K\<close>, the
  consumer has taken \<open>c\<close> slots of block \<open>L\<close>.
\<close>

definition blk_ver :: "nat \<Rightarrow> nat \<Rightarrow> nat" where
  "blk_ver N m = (m - 1) div N"

definition bbq_counts :: "('w::len, 'a) bbq_queue \<Rightarrow> nat \<Rightarrow> nat \<Rightarrow> nat \<Rightarrow> nat \<Rightarrow> bool" where
  "bbq_counts q K p L c \<longleftrightarrow> (let N = bq_numBlocks q; B = bq_blockSize q in
     p \<le> B \<and> c \<le> B \<and> L \<le> K \<and> K \<le> L + N \<and> (L = K \<longrightarrow> c \<le> p) \<and> (K = L + N \<longrightarrow> c = B)
     \<and> K < 2 ^ LENGTH('w) \<and> blk_ver N (K + N) < 2 ^ (LENGTH('w) - cursorBits q))"

definition bbq_at :: "('w::len, 'a) bbq_queue \<Rightarrow> nat \<Rightarrow> nat \<Rightarrow> nat \<Rightarrow> nat \<Rightarrow> bool" where
  "bbq_at q K p L c \<longleftrightarrow> (let N = bq_numBlocks q; B = bq_blockSize q; n = cursorBits q in
     bbq_static q \<and> bbq_counts q K p L c
     \<and> producerHead q = of_nat K \<and> consumerHead q = of_nat L
     \<and> (\<forall>m. K < m \<and> m \<le> K + N \<longrightarrow>
           allocated (blocks q ! (m mod N)) = cur n (blk_ver N m) (if m = K + N then p else B)
         \<and> committed (blocks q ! (m mod N)) = cur n (blk_ver N m) (if m = K + N then p else B))
     \<and> (\<forall>m. L < m \<and> m \<le> L + N \<longrightarrow>
           reserved (blocks q ! (m mod N)) = cur n (blk_ver N m) (if m = L + N then c else B)
         \<and> consumed (blocks q ! (m mod N)) = cur n (blk_ver N m) (if m = L + N then c else B)))"

definition bbq_pushes :: "('w::len, 'a) bbq_queue \<Rightarrow> nat" where
  "bbq_pushes q = unat (producerHead q) * bq_blockSize q
     + unat (cursor_index (cursorBits q) (allocated (blockAt q (cursor_index (headBits q) (producerHead q)))))"

definition bbq_pops :: "('w::len, 'a) bbq_queue \<Rightarrow> nat" where
  "bbq_pops q = unat (consumerHead q) * bq_blockSize q
     + unat (cursor_index (cursorBits q) (reserved (blockAt q (cursor_index (headBits q) (consumerHead q)))))"

definition bbq_cell :: "('w::len, 'a) bbq_queue \<Rightarrow> nat \<Rightarrow> 'a" where
  "bbq_cell q t = entries (blocks q ! ((t div bq_blockSize q) mod bq_numBlocks q)) ! (t mod bq_blockSize q)"

definition bbq_contents :: "('w::len, 'a) bbq_queue \<Rightarrow> 'a list" where
  "bbq_contents q = map (bbq_cell q) [bbq_pops q..<bbq_pushes q]"

definition bbq_inv :: "('w::len, 'a) bbq_queue \<Rightarrow> bool" where
  "bbq_inv q \<longleftrightarrow> (\<exists>K p L c. bbq_at q K p L c)"

text \<open>The version fields can still count one more round.\<close>

definition bbq_fresh :: "('w::len, 'a) bbq_queue \<Rightarrow> bool" where
  "bbq_fresh q \<longleftrightarrow> unat (cursor_version (headBits q) (producerHead q)) + 1 < 2 ^ (LENGTH('w) - cursorBits q)
     \<and> unat (producerHead q) + 1 < 2 ^ LENGTH('w)"

lemma bitsToHold_exp_minus_1: "bitsToHold (2 ^ a - 1) = a"
proof (cases "a = 0")
  case True
  then show ?thesis by (simp add: bitsToHold.simps)
next
  case False
  let ?b = "bitsToHold (2 ^ a - 1)"
  have pos: "0 < (2::nat) ^ a - 1" using False one_less_power [of "2::nat" a] by simp
  have "2 ^ a \<le> (2::nat) ^ ?b" using bitsToHold_upper [of "2 ^ a - 1"] by linarith
  then have up: "a \<le> ?b" by (rule power_le_imp_le_exp [rotated]) simp
  have "(2::nat) ^ (?b - 1) < 2 ^ a"
    using bitsToHold_lower [OF pos] pos by linarith
  then have "?b - 1 < a" by (rule power_less_imp_less_exp [rotated]) simp
  with up show ?thesis by simp
qed

lemma bbq_static_exp:
  assumes "bbq_static (q :: ('w::len, 'a) bbq_queue)"
  shows "bq_numBlocks q = 2 ^ headBits q" "0 < headBits q" "headBits q < LENGTH('w)"
    "1 < bq_numBlocks q" "0 < bq_blockSize q" "cursorBits q < LENGTH('w)"
    "bq_blockSize q < 2 ^ cursorBits q"
proof -
  have st: "bq_numBlocks q < 2 ^ LENGTH('w)" "2 \<le> bq_numBlocks q"
    "isPowerOfTwo (of_nat (bq_numBlocks q) :: 'w word)"
    using assms by (auto simp: bbq_static_def)
  from isPowerOfTwo_exp [OF st(3)] obtain k where k: "bq_numBlocks q = 2 ^ k"
    using st(1) by (auto simp: unat_of_nat_small)
  then have h: "headBits q = k" by (simp only: headBits_def bitsToHold_exp_minus_1)
  show "bq_numBlocks q = 2 ^ headBits q" using k h by simp
  show "0 < headBits q" using st(2) k h by (cases k) auto
  show "headBits q < LENGTH('w)" using st(1) k h by simp
  show "1 < bq_numBlocks q" "0 < bq_blockSize q" "cursorBits q < LENGTH('w)"
    using assms by (auto simp: bbq_static_def)
  have "bq_blockSize q < 2 ^ bitsToHold (bq_blockSize q)" by (rule bitsToHold_upper)
  also have "\<dots> \<le> 2 ^ cursorBits q" by (simp add: cursorBits_def)
  finally show "bq_blockSize q < 2 ^ cursorBits q" .
qed

text \<open>Reading a head.\<close>

lemma head_split:
  fixes K a :: nat
  assumes "K < 2 ^ LENGTH('w)"
  shows "unat (cursor_index a (of_nat K :: 'w::len word)) = K mod 2 ^ a"
    "unat (cursor_version a (of_nat K :: 'w word)) = K div 2 ^ a"
    "cursor_version a (of_nat K :: 'w word) = of_nat (K div 2 ^ a)"
proof -
  have u: "unat (of_nat K :: 'w word) = K" using assms by (rule unat_of_nat_small)
  show "unat (cursor_index a (of_nat K :: 'w::len word)) = K mod 2 ^ a"
    by (simp only: unat_cursor_index u)
  show v: "unat (cursor_version a (of_nat K :: 'w word)) = K div 2 ^ a"
    by (simp only: unat_cursor_version u)
  show "cursor_version a (of_nat K :: 'w word) = of_nat (K div 2 ^ a)"
    by (subst v [symmetric]) simp
qed

lemma unat_nextIndex:
  assumes "bbq_static (q :: ('w::len, 'a) bbq_queue)" "K < 2 ^ LENGTH('w)"
  shows "unat (nextIndex q (cursor_index (headBits q) (of_nat K :: 'w word))) = (K + 1) mod bq_numBlocks q"
proof -
  note e = bbq_static_exp [OF assms(1)]
  let ?a = "headBits q"
  have "nextIndex q i = cursor_index ?a (i + 1)" for i :: "'w word"
    by (simp add: nextIndex_def cursor_index_def kIndexMask_mask mask_eq_exp_minus_1 e(1))
  moreover have "(2::nat) ^ ?a dvd 2 ^ LENGTH('w)" using e(3) by (simp add: le_imp_power_dvd)
  ultimately show ?thesis
    using head_split(1) [OF assms(2), of ?a]
    by (simp add: unat_cursor_index unat_word_ariths mod_mod_cancel mod_Suc_eq e(1))
qed

section \<open>Reading and writing the cursors\<close>

lemma bbq_atD:
  assumes "bbq_at (q :: ('w::len, 'a) bbq_queue) K p L c"
  shows "bbq_static q" "bbq_counts q K p L c" "producerHead q = of_nat K" "consumerHead q = of_nat L"
    "\<And>m. K < m \<Longrightarrow> m \<le> K + bq_numBlocks q \<Longrightarrow>
       allocated (blocks q ! (m mod bq_numBlocks q)) = cur (cursorBits q) (blk_ver (bq_numBlocks q) m) (if m = K + bq_numBlocks q then p else bq_blockSize q)
     \<and> committed (blocks q ! (m mod bq_numBlocks q)) = cur (cursorBits q) (blk_ver (bq_numBlocks q) m) (if m = K + bq_numBlocks q then p else bq_blockSize q)"
    "\<And>m. L < m \<Longrightarrow> m \<le> L + bq_numBlocks q \<Longrightarrow>
       reserved (blocks q ! (m mod bq_numBlocks q)) = cur (cursorBits q) (blk_ver (bq_numBlocks q) m) (if m = L + bq_numBlocks q then c else bq_blockSize q)
     \<and> consumed (blocks q ! (m mod bq_numBlocks q)) = cur (cursorBits q) (blk_ver (bq_numBlocks q) m) (if m = L + bq_numBlocks q then c else bq_blockSize q)"
  using assms unfolding bbq_at_def Let_def by blast+

lemma bbq_countsD:
  assumes "bbq_counts (q :: ('w::len, 'a) bbq_queue) K p L c"
  shows "p \<le> bq_blockSize q" "c \<le> bq_blockSize q" "L \<le> K" "K \<le> L + bq_numBlocks q"
    "L = K \<Longrightarrow> c \<le> p" "K = L + bq_numBlocks q \<Longrightarrow> c = bq_blockSize q"
    "K < 2 ^ LENGTH('w)" "L < 2 ^ LENGTH('w)"
    "blk_ver (bq_numBlocks q) (K + bq_numBlocks q) < 2 ^ (LENGTH('w) - cursorBits q)"
  using assms unfolding bbq_counts_def Let_def by auto

lemma blk_ver_mono: "m \<le> m' \<Longrightarrow> blk_ver N m \<le> blk_ver N m'"
  by (simp add: blk_ver_def div_le_mono)

lemma blk_ver_Suc: "blk_ver N (Suc K) = K div N"
  by (simp add: blk_ver_def)

lemma blk_ver_next: "0 < N \<Longrightarrow> blk_ver N (Suc K + N) = Suc (K div N)"
  by (simp add: blk_ver_def div_add_self2)

lemma bbq_read:
  assumes "bbq_at (q :: ('w::len, 'a) bbq_queue) K p L c" "m \<le> K + bq_numBlocks q" "i \<le> bq_blockSize q"
  shows "cursor_index (cursorBits q) (cur (cursorBits q) (blk_ver (bq_numBlocks q) m) i :: 'w word) = of_nat i"
    "cursor_version (cursorBits q) (cur (cursorBits q) (blk_ver (bq_numBlocks q) m) i :: 'w word) = of_nat (blk_ver (bq_numBlocks q) m)"
    "unat (of_nat i :: 'w word) = i"
proof -
  note d = bbq_atD(1,2) [OF assms(1)]
  note e = bbq_static_exp [OF d(1)]
  have n: "cursorBits q \<le> LENGTH('w)" using e(6) by simp
  have v: "blk_ver (bq_numBlocks q) m < 2 ^ (LENGTH('w) - cursorBits q)"
    using bbq_countsD(9) [OF d(2)] blk_ver_mono [OF assms(2)] by (rule le_less_trans [rotated])
  have i: "i < 2 ^ cursorBits q" using e(7) assms(3) by simp
  show "cursor_index (cursorBits q) (cur (cursorBits q) (blk_ver (bq_numBlocks q) m) i :: 'w word) = of_nat i"
    using n v i by (rule index_cur)
  show "cursor_version (cursorBits q) (cur (cursorBits q) (blk_ver (bq_numBlocks q) m) i :: 'w word) = of_nat (blk_ver (bq_numBlocks q) m)"
    using n v i by (rule version_cur)
  have "(2::nat) ^ cursorBits q < 2 ^ LENGTH('w)" using e(6) by simp
  with i show "unat (of_nat i :: 'w word) = i" by (intro unat_of_nat_small) (rule less_trans)
qed

text \<open>The producer's and the consumer's current block, and what the queue-level counters say.\<close>

lemma bbq_producer_block:
  assumes "bbq_at (q :: ('w::len, 'a) bbq_queue) K p L c"
  shows "unat (cursor_index (headBits q) (producerHead q)) = K mod bq_numBlocks q"
    "cursor_index (cursorBits q) (allocated (blockAt q (cursor_index (headBits q) (producerHead q)))) = of_nat p"
    "unat (of_nat p :: 'w word) = p" "bbq_pushes q = K * bq_blockSize q + p"
proof -
  note d = bbq_atD [OF assms] note k = bbq_countsD [OF d(2)] note e = bbq_static_exp [OF d(1)]
  show i: "unat (cursor_index (headBits q) (producerHead q)) = K mod bq_numBlocks q"
    using head_split(1) [OF k(7)] by (simp add: d(3) e(1))
  have "allocated (blockAt q (cursor_index (headBits q) (producerHead q)))
      = cur (cursorBits q) (blk_ver (bq_numBlocks q) (K + bq_numBlocks q)) p"
    using d(5) [of "K + bq_numBlocks q"] e(4) by (simp add: blockAt_def i)
  then show a: "cursor_index (cursorBits q) (allocated (blockAt q (cursor_index (headBits q) (producerHead q)))) = of_nat p"
    using bbq_read(1) [OF assms le_refl k(1)] by simp
  show u: "unat (of_nat p :: 'w word) = p" using bbq_read(3) [OF assms le_refl k(1)] .
  show "bbq_pushes q = K * bq_blockSize q + p"
    unfolding bbq_pushes_def a u using k(7) by (simp add: d(3) unat_of_nat_small)
qed

lemma bbq_consumer_block:
  assumes "bbq_at (q :: ('w::len, 'a) bbq_queue) K p L c"
  shows "unat (cursor_index (headBits q) (consumerHead q)) = L mod bq_numBlocks q"
    "cursor_index (cursorBits q) (reserved (blockAt q (cursor_index (headBits q) (consumerHead q)))) = of_nat c"
    "unat (of_nat c :: 'w word) = c" "bbq_pops q = L * bq_blockSize q + c"
proof -
  note d = bbq_atD [OF assms] note k = bbq_countsD [OF d(2)] note e = bbq_static_exp [OF d(1)]
  have le: "L + bq_numBlocks q \<le> K + bq_numBlocks q" using k(3) by simp
  show i: "unat (cursor_index (headBits q) (consumerHead q)) = L mod bq_numBlocks q"
    using head_split(1) [OF k(8)] by (simp add: d(4) e(1))
  have "reserved (blockAt q (cursor_index (headBits q) (consumerHead q)))
      = cur (cursorBits q) (blk_ver (bq_numBlocks q) (L + bq_numBlocks q)) c"
    using d(6) [of "L + bq_numBlocks q"] e(4) by (simp add: blockAt_def i)
  then show a: "cursor_index (cursorBits q) (reserved (blockAt q (cursor_index (headBits q) (consumerHead q)))) = of_nat c"
    using bbq_read(1) [OF assms le k(2)] by simp
  show u: "unat (of_nat c :: 'w word) = c" using bbq_read(3) [OF assms le k(2)] .
  show "bbq_pops q = L * bq_blockSize q + c"
    unfolding bbq_pops_def a u using k(8) by (simp add: d(4) unat_of_nat_small)
qed

lemma window_inj:
  fixes m m' :: nat
  assumes "m mod N = m' mod N" "K < m" "m \<le> K + N" "K < m'" "m' \<le> K + N"
  shows "m = m'"
proof -
  have "m - Suc K = m' - Suc K"
    by (rule mod_add_eq_imp_eq [of "Suc K" _ N]) (use assms in auto)
  with assms(2,4) show ?thesis by simp
qed

lemma cell_inj:
  fixes s t :: nat
  assumes "(s div B) mod N = (t div B) mod N" "s mod B = t mod B" "s \<le> t" "t < s + B * N"
  shows "s = t"
proof -
  have "s mod (B * N) = t mod (B * N)"
    using assms(1,2) by (simp add: mod_mult2_eq)
  moreover have "0 < B * N" using assms(3,4) by linarith
  ultimately have "0 = t - s"
    using assms(3,4) by (intro mod_add_eq_imp_eq [of s 0 "B * N" "t - s"]) auto
  with assms(3) show ?thesis by simp
qed

lemma updBlock_simps [simp]:
  "bq_numBlocks (updBlock q i f) = bq_numBlocks q" "bq_blockSize (updBlock q i f) = bq_blockSize q"
  "producerHead (updBlock q i f) = producerHead q" "consumerHead (updBlock q i f) = consumerHead q"
  "cursorBits (updBlock q i f) = cursorBits q" "headBits (updBlock q i f) = headBits q"
  "length (blocks (updBlock q i f)) = length (blocks q)"
  by (simp_all add: updBlock_def cursorBits_def headBits_def)

lemma updBlock_twice: "updBlock (updBlock q i f) i g = updBlock q i (\<lambda>b. g (f b))"
  by (cases "unat i < length (blocks q)") (simp_all add: updBlock_def list_update_beyond)

lemma blocks_updBlock:
  "unat i < length (blocks q) \<Longrightarrow>
   blocks (updBlock q i f) ! j = (if j = unat i then f (blocks q ! j) else blocks q ! j)"
  by (auto simp: updBlock_def)

lemma bbq_static_updBlock:
  assumes "bbq_static q" "\<And>b. length (entries (f b)) = length (entries b)"
  shows "bbq_static (updBlock q i f)"
proof (cases "unat i < length (blocks q)")
  case True
  then have "set (blocks (updBlock q i f)) \<subseteq> insert (f (blocks q ! unat i)) (set (blocks q))"
    by (simp add: updBlock_def set_update_subset_insert)
  with True assms show ?thesis
    unfolding bbq_static_def by (fastforce simp: updBlock_def cursorBits_def)
next
  case False
  with assms(1) show ?thesis by (simp add: updBlock_def bbq_static_def cursorBits_def list_update_beyond)
qed

lemma bbq_static_heads [simp]:
  "bbq_static (q\<lparr>producerHead := h\<rparr>) = bbq_static q" "bbq_static (q\<lparr>consumerHead := h\<rparr>) = bbq_static q"
  "cursorBits (q\<lparr>producerHead := h\<rparr>) = cursorBits q" "cursorBits (q\<lparr>consumerHead := h\<rparr>) = cursorBits q"
  "headBits (q\<lparr>producerHead := h\<rparr>) = headBits q" "headBits (q\<lparr>consumerHead := h\<rparr>) = headBits q"
  by (simp_all add: bbq_static_def cursorBits_def headBits_def)

lemma cur_Suc: "cur n v i + 1 = cur n v (Suc i)"
  by (simp add: cur_def)

lemma bbq_mod_less: "bbq_static q \<Longrightarrow> m mod bq_numBlocks q < length (blocks q)"
  by (simp add: bbq_static_def)

section \<open>Push\<close>

lemma bbq_push_slot:
  fixes q :: "('w::len, 'a) bbq_queue" and x :: 'a
  assumes at: "bbq_at q K p L c" and room: "p < bq_blockSize q"
  defines "q' \<equiv> updBlock q (cursor_index (headBits q) (producerHead q))
    (\<lambda>b. b\<lparr>allocated := allocated b + 1, entries := (entries b)[p := x], committed := committed b + 1\<rparr>)"
  shows "bbq_push_once q x = (Some PushOk, q')" "bbq_at q' K (Suc p) L c"
proof -
  note d = bbq_atD [OF at] note k = bbq_countsD [OF d(2)] note e = bbq_static_exp [OF d(1)]
  note pb = bbq_producer_block [OF at]
  let ?i = "cursor_index (headBits q) (producerHead q)" and ?N = "bq_numBlocks q" and ?n = "cursorBits q"
  have B: "unat (of_nat (bq_blockSize q) :: 'w word) = bq_blockSize q"
    using bbq_read(3) [OF at le_refl order_refl] .
  have lt: "(of_nat p :: 'w word) < of_nat (bq_blockSize q)"
    using room by (simp add: word_less_nat_alt pb(3) B)
  show "bbq_push_once q x = (Some PushOk, q')"
    by (simp add: bbq_push_once_def Let_def pb(2,3) lt updBlock_twice q'_def)
  have len: "unat ?i < length (blocks q)" using bbq_mod_less [OF d(1), of K] by (simp add: pb(1))
  have st: "bbq_static q'" unfolding q'_def by (rule bbq_static_updBlock [OF d(1)]) simp
  have ct: "bbq_counts q' K (Suc p) L c"
    using d(2) room unfolding bbq_counts_def Let_def q'_def by auto
  have prod: "allocated (blocks q' ! (m mod ?N)) = cur ?n (blk_ver ?N m) (if m = K + ?N then Suc p else bq_blockSize q)
      \<and> committed (blocks q' ! (m mod ?N)) = cur ?n (blk_ver ?N m) (if m = K + ?N then Suc p else bq_blockSize q)"
    if m: "K < m" "m \<le> K + ?N" for m
  proof -
    have "m mod ?N = unat ?i \<longleftrightarrow> m = K + ?N"
      using window_inj [of m ?N "K + ?N" K] m e(4) by (auto simp: pb(1))
    then show ?thesis
      using d(5) [OF m] by (cases "m = K + ?N") (simp_all add: q'_def blocks_updBlock [OF len] cur_Suc)
  qed
  have cons: "reserved (blocks q' ! j) = reserved (blocks q ! j)" "consumed (blocks q' ! j) = consumed (blocks q ! j)" for j
    by (simp_all add: q'_def blocks_updBlock [OF len])
  show "bbq_at q' K (Suc p) L c"
    using st ct prod d(3,4,6) unfolding bbq_at_def Let_def cons by (simp add: q'_def)
qed

lemma bbq_contents_push:
  fixes q :: "('w::len, 'a) bbq_queue" and x :: 'a
  assumes at: "bbq_at q K p L c" and room: "p < bq_blockSize q"
  defines "q' \<equiv> updBlock q (cursor_index (headBits q) (producerHead q))
    (\<lambda>b. b\<lparr>allocated := allocated b + 1, entries := (entries b)[p := x], committed := committed b + 1\<rparr>)"
  shows "bbq_contents q' = bbq_contents q @ [x]"
proof -
  note d = bbq_atD [OF at] note k = bbq_countsD [OF d(2)] note e = bbq_static_exp [OF d(1)]
  note pb = bbq_producer_block [OF at]
  note at' = bbq_push_slot(2) [OF at room, of x, folded q'_def]
  let ?i = "cursor_index (headBits q) (producerHead q)" and ?N = "bq_numBlocks q" and ?B = "bq_blockSize q"
  let ?C = "L * ?B + c" and ?P = "K * ?B + p"
  have len: "unat ?i < length (blocks q)" using bbq_mod_less [OF d(1), of K] by (simp add: pb(1))
  have elen: "length (entries (blocks q ! (K mod ?N))) = ?B"
    using d(1) len by (auto simp: bbq_static_def pb(1))
  have bound: "?P < ?C + ?B * ?N" and le: "?C \<le> ?P"
  proof -
    show "?C \<le> ?P"
    proof (cases "L = K")
      case False
      then have "Suc L * ?B \<le> K * ?B" using k(3) by (intro mult_le_mono1) simp
      then show ?thesis using k(2) by simp
    qed (use k(5) in simp)
    show "?P < ?C + ?B * ?N"
    proof (cases "K = L + ?N")
      case True
      then show ?thesis using k(6) room by (simp add: algebra_simps)
    next
      case False
      then have "Suc K * ?B \<le> (L + ?N) * ?B" using k(4) by (intro mult_le_mono1) simp
      then show ?thesis using room by (simp add: algebra_simps)
    qed
  qed
  have div: "?P div ?B = K" "?P mod ?B = p" using room by simp_all
  have old: "bbq_cell q' t = bbq_cell q t" if "?C \<le> t" "t < ?P" for t
  proof -
    have "\<not> ((t div ?B) mod ?N = K mod ?N \<and> t mod ?B = p)"
      using cell_inj [of t ?B ?N ?P] that bound div by auto
    then show ?thesis
      by (auto simp: bbq_cell_def q'_def blocks_updBlock [OF len] pb(1) nth_list_update)
  qed
  have new: "bbq_cell q' ?P = x"
    using room elen by (simp add: bbq_cell_def q'_def blocks_updBlock [OF len] pb(1) div del: mult_Suc)
  have "bbq_contents q' = map (bbq_cell q') [?C..<Suc ?P]"
    using bbq_producer_block(4) [OF at'] bbq_consumer_block(4) [OF at'] by (simp add: bbq_contents_def q'_def)
  also have "\<dots> = map (bbq_cell q') [?C..<?P] @ [x]" using le new by simp
  also have "map (bbq_cell q') [?C..<?P] = map (bbq_cell q) [?C..<?P]" using old by simp
  finally show ?thesis
    by (simp add: bbq_contents_def pb(4) bbq_consumer_block(4) [OF at])
qed

definition bbq_mayEnter :: "('w::len, 'a) bbq_queue \<Rightarrow> nat \<Rightarrow> nat \<Rightarrow> nat \<Rightarrow> bool" where
  "bbq_mayEnter q K L c \<longleftrightarrow> K + 1 < L + bq_numBlocks q \<or> K + 1 = L + bq_numBlocks q \<and> c = bq_blockSize q"

text \<open>What the producer reads in the next block.\<close>

lemma bbq_next_consumed:
  fixes q :: "('w::len, 'a) bbq_queue"
  assumes at: "bbq_at q K p L c"
  defines "next \<equiv> blocks q ! (Suc K mod bq_numBlocks q)"
  shows "reserved next = consumed next"
    "unat (cursor_version (cursorBits q) (consumed next)) \<le> K div bq_numBlocks q"
    "bbq_mayEnter q K L c \<Longrightarrow> consumed next = cur (cursorBits q) (K div bq_numBlocks q) (bq_blockSize q)
       \<and> cursor_version (cursorBits q) (consumed next) = of_nat (K div bq_numBlocks q)
       \<and> cursor_index (cursorBits q) (consumed next) = of_nat (bq_blockSize q)"
    "\<not> bbq_mayEnter q K L c \<Longrightarrow> unat (cursor_version (cursorBits q) (consumed next)) < K div bq_numBlocks q
       \<or> cursor_index (cursorBits q) (consumed next) \<noteq> of_nat (bq_blockSize q)"
proof -
  note d = bbq_atD [OF at] note k = bbq_countsD [OF d(2)] note e = bbq_static_exp [OF d(1)]
  let ?N = "bq_numBlocks q" and ?B = "bq_blockSize q" and ?n = "cursorBits q"
  define m where "m = (if K < L + ?N then Suc K else Suc L)"
  have m: "L < m" "m \<le> L + ?N" "m \<le> K + ?N" and mm: "m mod ?N = Suc K mod ?N"
  proof -
    show "L < m" "m \<le> L + ?N" "m \<le> K + ?N" using k(3,4) e(4) by (auto simp: m_def)
    show "m mod ?N = Suc K mod ?N"
      using k(4) mod_add_self2 [of "Suc L" ?N] by (cases "K < L + ?N") (simp_all add: m_def)
  qed
  define i where "i = (if m = L + ?N then c else ?B)"
  have i: "i \<le> ?B" using k(2) by (simp add: i_def)
  from d(6) [OF m(1,2)] have nx: "reserved next = cur ?n (blk_ver ?N m) i" "consumed next = cur ?n (blk_ver ?N m) i"
    by (simp_all add: next_def mm i_def)
  note rd = bbq_read [OF at m(3) i]
  have small: "blk_ver ?N m < 2 ^ LENGTH('w)"
    using k(9) blk_ver_mono [OF m(3), of ?N] by (meson le_less_trans less_le_trans one_le_numeral diff_le_self power_increasing)
  have ver: "unat (cursor_version ?n (consumed next)) = blk_ver ?N m"
    by (simp only: nx rd(2) unat_of_nat_small [OF small])
  have idx: "cursor_index ?n (consumed next) = of_nat i" by (simp only: nx rd(1))
  have vm: "blk_ver ?N m \<le> K div ?N"
    using div_le_mono [OF k(3), of ?N] by (simp add: m_def blk_ver_def)
  show "reserved next = consumed next" by (simp only: nx)
  show "unat (cursor_version ?n (consumed next)) \<le> K div ?N" by (simp only: ver vm)
  show "bbq_mayEnter q K L c \<Longrightarrow> consumed next = cur ?n (K div ?N) ?B
       \<and> cursor_version ?n (consumed next) = of_nat (K div ?N) \<and> cursor_index ?n (consumed next) = of_nat ?B"
  proof -
    assume "bbq_mayEnter q K L c"
    then have "blk_ver ?N m = K div ?N" "i = ?B" by (auto simp: bbq_mayEnter_def m_def blk_ver_def i_def)
    then show ?thesis using rd(1,2) by (simp add: nx)
  qed
  show "\<not> bbq_mayEnter q K L c \<Longrightarrow> unat (cursor_version ?n (consumed next)) < K div ?N
       \<or> cursor_index ?n (consumed next) \<noteq> of_nat ?B"
  proof -
    assume no: "\<not> bbq_mayEnter q K L c"
    show ?thesis
    proof (cases "K < L + ?N")
      case True
      with no have "Suc K = L + ?N" "c \<noteq> ?B" by (auto simp: bbq_mayEnter_def)
      then have "i < ?B" using k(2) by (simp add: i_def m_def)
      then have "(of_nat i :: 'w word) \<noteq> of_nat ?B"
        using rd(3) bbq_read(3) [OF at le_refl order_refl] by (metis less_irrefl)
      then show ?thesis by (simp add: idx)
    next
      case False
      then have "m = Suc L" "K = L + ?N" using k(4) by (auto simp: m_def)
      then have "blk_ver ?N m < K div ?N" using e(4) by (simp add: blk_ver_def div_add_self2)
      then show ?thesis by (simp add: ver)
    qed
  qed
qed

lemma bbq_push_full:
  fixes q :: "('w::len, 'a) bbq_queue"
  assumes at: "bbq_at q K (bq_blockSize q) L c" and no: "\<not> bbq_mayEnter q K L c"
  shows "bbq_push_once q x = (Some PushFull, q)"
proof -
  note d = bbq_atD [OF at] note k = bbq_countsD [OF d(2)] note e = bbq_static_exp [OF d(1)]
  note nc = bbq_next_consumed [OF at]
  note hv = head_split(2) [OF k(7), of "headBits q", folded e(1)]
  note pb = bbq_producer_block [OF at]
  have nx: "blockAt q (nextIndex q (cursor_index (headBits q) (of_nat K))) = blocks q ! (Suc K mod bq_numBlocks q)"
    by (simp add: blockAt_def unat_nextIndex [OF d(1) k(7)])
  have "\<not> cursor_version (cursorBits q) (consumed (blocks q ! (Suc K mod bq_numBlocks q)))
      > cursor_version (headBits q) (of_nat K)"
    using nc(2) hv by (simp add: word_less_nat_alt)
  moreover have "\<not> (cursor_version (cursorBits q) (consumed (blocks q ! (Suc K mod bq_numBlocks q)))
      = cursor_version (headBits q) (of_nat K) \<and>
      cursor_index (cursorBits q) (consumed (blocks q ! (Suc K mod bq_numBlocks q))) = of_nat (bq_blockSize q))"
    using nc(4) [OF no] hv by (metis less_irrefl)
  ultimately show ?thesis
    using pb(2) nc(1) by (simp add: bbq_push_once_def advance_phead_def Let_def d(3) nx)
qed

lemma cur_less:
  assumes "n \<le> LENGTH('w)" "v < v'" "v' < 2 ^ (LENGTH('w) - n)" "i < 2 ^ n" "i' < 2 ^ n"
  shows "(cur n v i :: 'w::len word) < cur n v' i'"
proof -
  have "v * 2 ^ n + i < v' * 2 ^ n + i'"
  proof -
    have "v * 2 ^ n + i < Suc v * 2 ^ n" using assms(4) by simp
    also have "\<dots> \<le> v' * 2 ^ n" using assms(2) by (intro mult_le_mono1) simp
    finally show ?thesis by simp
  qed
  moreover have "v * 2 ^ n + i < 2 ^ LENGTH('w)" "v' * 2 ^ n + i' < 2 ^ LENGTH('w)"
    using assms by (auto intro!: cur_bound)
  ultimately show ?thesis by (simp add: word_less_nat_alt unat_cur)
qed

lemma cur_less_imp_max:
  assumes "n \<le> LENGTH('w)" "v < v'" "v' < 2 ^ (LENGTH('w) - n)" "i < 2 ^ n" "i' < 2 ^ n"
  shows "atomicMax (cur n v i :: 'w::len word) (cur n v' i') = cur n v' i'"
  using cur_less [OF assms] by (simp add: atomicMax_def)

lemma atomicMax_succ:
  "Suc K < 2 ^ LENGTH('w) \<Longrightarrow> atomicMax (of_nat K :: 'w::len word) (of_nat K + 1) = of_nat (Suc K)"
  using unat_of_nat_small [of K, where 'w = 'w] unat_of_nat_small [of "Suc K", where 'w = 'w]
  by (simp add: atomicMax_def word_less_nat_alt add.commute)

text \<open>Entering the next block starts a new round of it with an empty cursor.\<close>

lemma bbq_enter_max:
  fixes q :: "('w::len, 'a) bbq_queue"
  assumes "bbq_static q" "Suc (K div bq_numBlocks q) < 2 ^ (LENGTH('w) - cursorBits q)" "K < 2 ^ LENGTH('w)"
  shows "cursor_make (cursorBits q) (cursor_version (headBits q) (of_nat K) + 1) 0
      = (cur (cursorBits q) (Suc (K div bq_numBlocks q)) 0 :: 'w word)"
    "atomicMax (cur (cursorBits q) (K div bq_numBlocks q) (bq_blockSize q) :: 'w word)
       (cur (cursorBits q) (Suc (K div bq_numBlocks q)) 0) = cur (cursorBits q) (Suc (K div bq_numBlocks q)) 0"
proof -
  note e = bbq_static_exp [OF assms(1)]
  have "cursor_version (headBits q) (of_nat K) + 1 = (of_nat (Suc (K div bq_numBlocks q)) :: 'w word)"
    using head_split(3) [OF assms(3), of "headBits q", folded e(1)] by (simp add: add.commute)
  then show "cursor_make (cursorBits q) (cursor_version (headBits q) (of_nat K) + 1) 0
      = (cur (cursorBits q) (Suc (K div bq_numBlocks q)) 0 :: 'w word)"
    using make_cur [of 0 "cursorBits q" "Suc (K div bq_numBlocks q)", where 'w = 'w] e(6) by (simp add: add.commute)
  show "atomicMax (cur (cursorBits q) (K div bq_numBlocks q) (bq_blockSize q) :: 'w word)
       (cur (cursorBits q) (Suc (K div bq_numBlocks q)) 0) = cur (cursorBits q) (Suc (K div bq_numBlocks q)) 0"
    using e(6,7) assms(2) by (intro cur_less_imp_max) simp_all
qed

lemma bbq_push_enter:
  fixes q :: "('w::len, 'a) bbq_queue" and x :: 'a
  assumes at: "bbq_at q K (bq_blockSize q) L c" and may: "bbq_mayEnter q K L c" and fresh: "bbq_fresh q"
  defines "f \<equiv> cur (cursorBits q) (Suc (K div bq_numBlocks q)) 0 :: 'w word"
  defines "q' \<equiv> (updBlock q (nextIndex q (cursor_index (headBits q) (of_nat K)))
    (\<lambda>b. b\<lparr>committed := atomicMax (committed b) f, allocated := atomicMax (allocated b) f\<rparr>))\<lparr>producerHead := of_nat (Suc K)\<rparr>"
  shows "bbq_push_once q x = (None, q')" "bbq_at q' (Suc K) 0 L c" "bbq_contents q' = bbq_contents q"
proof -
  note d = bbq_atD [OF at] note k = bbq_countsD [OF d(2)] note e = bbq_static_exp [OF d(1)]
  note nc = bbq_next_consumed(3) [OF at may]
  note pb = bbq_producer_block [OF at]
  let ?N = "bq_numBlocks q" and ?B = "bq_blockSize q" and ?n = "cursorBits q"
  let ?ni = "nextIndex q (cursor_index (headBits q) (of_nat K))"
  have fr: "Suc (K div ?N) < 2 ^ (LENGTH('w) - ?n)" "Suc K < 2 ^ LENGTH('w)"
    using fresh head_split(2) [OF k(7), of "headBits q", folded e(1)] k(7)
    by (simp_all add: bbq_fresh_def d(3) unat_of_nat_small)
  note en = bbq_enter_max [OF d(1) fr(1) k(7)]
  have ni: "unat ?ni = Suc K mod ?N" using unat_nextIndex [OF d(1) k(7)] by simp
  have len: "unat ?ni < length (blocks q)" using bbq_mod_less [OF d(1)] by (simp add: ni)
  show "bbq_push_once q x = (None, q')"
    using pb(2) nc [THEN conjunct2] by (simp add: bbq_push_once_def advance_phead_def Let_def d(3) blockAt_def ni
        head_split(3) [OF k(7), of "headBits q", folded e(1), symmetric] en(1) updBlock_twice q'_def f_def
        atomicMax_succ [OF fr(2)])
  have old: "allocated (blocks q ! (Suc K mod ?N)) = cur ?n (K div ?N) ?B"
    "committed (blocks q ! (Suc K mod ?N)) = cur ?n (K div ?N) ?B"
    using d(5) [of "Suc K"] e(4) by (simp_all add: blk_ver_Suc)
  have blk: "allocated (blocks q' ! j) = (if j = Suc K mod ?N then f else allocated (blocks q ! j))"
    "committed (blocks q' ! j) = (if j = Suc K mod ?N then f else committed (blocks q ! j))"
    "reserved (blocks q' ! j) = reserved (blocks q ! j)" "consumed (blocks q' ! j) = consumed (blocks q ! j)"
    "entries (blocks q' ! j) = entries (blocks q ! j)" for j
    using old en(2) by (simp_all add: q'_def blocks_updBlock [OF len] ni f_def)
  have same: "bq_numBlocks q' = ?N" "bq_blockSize q' = ?B" "cursorBits q' = ?n" "headBits q' = headBits q"
    "consumerHead q' = of_nat L" "producerHead q' = of_nat (Suc K)"
    by (simp_all add: q'_def d(4))
  have st: "bbq_static q'" unfolding q'_def bbq_static_heads by (rule bbq_static_updBlock [OF d(1)]) simp
  have ct: "bbq_counts q' (Suc K) 0 L c"
    using k may fr blk_ver_next [of ?N K] e(4) unfolding bbq_counts_def Let_def same bbq_mayEnter_def by auto
  have prod: "allocated (blocks q' ! (m mod ?N)) = cur ?n (blk_ver ?N m) (if m = Suc K + ?N then 0 else ?B)
      \<and> committed (blocks q' ! (m mod ?N)) = cur ?n (blk_ver ?N m) (if m = Suc K + ?N then 0 else ?B)"
    if m: "Suc K < m" "m \<le> Suc K + ?N" for m
  proof (cases "m = Suc K + ?N")
    case True
    then have "m mod ?N = Suc K mod ?N" "blk_ver ?N m = Suc (K div ?N)"
      using blk_ver_next [of ?N K] e(4) mod_add_self2 [of "Suc K" ?N] by simp_all
    with True show ?thesis by (simp add: blk f_def)
  next
    case False
    with m have "m mod ?N \<noteq> Suc K mod ?N" using window_inj [of m ?N "Suc K" K] e(4) by auto
    with False m d(5) [of m] show ?thesis by (simp add: blk)
  qed
  show at': "bbq_at q' (Suc K) 0 L c"
    using st ct prod d(6) unfolding bbq_at_def Let_def same blk by simp
  have "bbq_cell q' = bbq_cell q" by (rule ext) (simp add: bbq_cell_def same blk)
  then show "bbq_contents q' = bbq_contents q"
    by (simp add: bbq_contents_def pb(4) bbq_consumer_block(4) [OF at] bbq_producer_block(4) [OF at']
        bbq_consumer_block(4) [OF at'] same add.commute)
qed

lemma bbq_mayEnter_size:
  fixes q :: "('w::len, 'a) bbq_queue"
  assumes at: "bbq_at q K (bq_blockSize q) L c" and no: "\<not> bbq_mayEnter q K L c"
  shows "bbq_kCapacity q < length (bbq_contents q)"
proof -
  note d = bbq_atD [OF at] note k = bbq_countsD [OF d(2)] note e = bbq_static_exp [OF d(1)]
  let ?N = "bq_numBlocks q" and ?B = "bq_blockSize q"
  have "L * ?B + c + ?N * ?B < K * ?B + ?B + ?B"
  proof (cases "K = L + ?N")
    case True
    then show ?thesis using k(6) e(5) by (simp add: algebra_simps)
  next
    case False
    with no k(2,4) have "Suc K = L + ?N" "c < ?B" by (auto simp: bbq_mayEnter_def)
    then have "Suc K * ?B = (L + ?N) * ?B" by simp
    then show ?thesis using \<open>c < ?B\<close> by (simp add: algebra_simps)
  qed
  moreover have cap: "bbq_kCapacity q = ?N * ?B - ?B" by (simp add: bbq_kCapacity_def diff_mult_distrib)
  moreover have "?B \<le> ?N * ?B" using e(4) by simp
  moreover have len: "length (bbq_contents q) = K * ?B + ?B - (L * ?B + c)"
    using bbq_producer_block(4) [OF at] bbq_consumer_block(4) [OF at] by (simp add: bbq_contents_def)
  ultimately show ?thesis unfolding cap len by linarith
qed

definition bbq_same :: "('w::len, 'a) bbq_queue \<Rightarrow> ('w, 'a) bbq_queue \<Rightarrow> bool" where
  "bbq_same q q' \<longleftrightarrow> bq_numBlocks q' = bq_numBlocks q \<and> bq_blockSize q' = bq_blockSize q"

lemma bbq_push_law:
  fixes q :: "('w::len, 'a) bbq_queue"
  assumes "bbq_inv q" "bbq_fresh q"
  shows "\<exists>s q'. bbq_push q x = Some (s, q') \<and> bbq_inv q' \<and> bbq_same q q'
    \<and> (s = PushOk \<and> bbq_contents q' = bbq_contents q @ [x] \<and> bbq_pushes q' = Suc (bbq_pushes q)
       \<or> s = PushFull \<and> q' = q \<and> bbq_kCapacity q < length (bbq_contents q))"
proof -
  from assms(1) obtain K p L c where at: "bbq_at q K p L c" by (auto simp: bbq_inv_def)
  note k = bbq_countsD [OF bbq_atD(2) [OF at]]
  have slot: "bbq_push r x = Some (PushOk, r') \<and> bbq_inv r' \<and> bbq_same r r'
      \<and> bbq_contents r' = bbq_contents r @ [x] \<and> bbq_pushes r' = Suc (bbq_pushes r)"
    if at': "bbq_at r K' p' L' c'" "p' < bq_blockSize r"
      and r': "r' = updBlock r (cursor_index (headBits r) (producerHead r))
        (\<lambda>b. b\<lparr>allocated := allocated b + 1, entries := (entries b)[p' := x], committed := committed b + 1\<rparr>)"
    for r r' :: "('w, 'a) bbq_queue" and K' p' L' c'
    using bbq_push_slot [OF at', of x] bbq_contents_push [OF at', of x] r'
      bbq_producer_block(4) [OF bbq_push_slot(2) [OF at', of x]] bbq_producer_block(4) [OF at'(1)]
    by (subst bbq_push.simps) (auto simp: bbq_inv_def bbq_same_def)
  show ?thesis
  proof (cases "p < bq_blockSize q")
    case True
    from slot [OF at True refl] show ?thesis by blast
  next
    case False
    with k(1) have full: "bbq_at q K (bq_blockSize q) L c" using at by simp
    show ?thesis
    proof (cases "bbq_mayEnter q K L c")
      case True
      note en = bbq_push_enter [OF full True assms(2)]
      note once = en(1) [of x]
      from once have step: "bbq_push q x = bbq_push (snd (bbq_push_once q x)) x"
        by (subst bbq_push.simps) simp
      have "bq_blockSize (snd (bbq_push_once q x)) = bq_blockSize q" by (simp add: once)
      then have "0 < bq_blockSize (snd (bbq_push_once q x))"
        using bbq_static_exp(5) [OF bbq_atD(1) [OF at]] by simp
      moreover have "bbq_same q (snd (bbq_push_once q x))" by (simp add: once bbq_same_def)
      moreover have "bbq_pushes (snd (bbq_push_once q x)) = bbq_pushes q"
        using bbq_producer_block(4) [OF en(2)] bbq_producer_block(4) [OF full] by (simp add: once add.commute)
      ultimately show ?thesis
        using slot [OF _ _ refl, of "snd (bbq_push_once q x)" "Suc K" 0 L c] once en(2,3) step
        by (auto simp: bbq_same_def)
    next
      case False
      from bbq_push_full [OF full this, of x] bbq_mayEnter_size [OF full this] assms(1) show ?thesis
        by (subst bbq_push.simps) (auto simp: bbq_same_def)
    qed
  qed
qed

section \<open>Pop\<close>

text \<open>What the consumer reads in its own block.\<close>

lemma bbq_own_committed:
  fixes q :: "('w::len, 'a) bbq_queue"
  assumes at: "bbq_at q K p L c" and c: "c < bq_blockSize q"
  defines "b \<equiv> blockAt q (cursor_index (headBits q) (consumerHead q))"
  defines "avail \<equiv> (if L = K then p else bq_blockSize q)"
  shows "cursor_index (cursorBits q) (committed b) = of_nat avail"
    "cursor_index (cursorBits q) (allocated b) = of_nat avail"
    "unat (of_nat avail :: 'w word) = avail" "c \<le> avail"
proof -
  note d = bbq_atD [OF at] note k = bbq_countsD [OF d(2)] note e = bbq_static_exp [OF d(1)]
  let ?N = "bq_numBlocks q"
  have lt: "K < L + ?N" using k(4,6) c by (cases "K = L + ?N") auto
  have le: "L + ?N \<le> K + ?N" and av: "avail \<le> bq_blockSize q" using k(1,3) by (auto simp: avail_def)
  have "allocated b = cur (cursorBits q) (blk_ver ?N (L + ?N)) avail \<and> committed b = cur (cursorBits q) (blk_ver ?N (L + ?N)) avail"
    using d(5) [OF lt le] by (simp add: b_def blockAt_def bbq_consumer_block(1) [OF at] avail_def)
  with bbq_read [OF at le av]
  show "cursor_index (cursorBits q) (committed b) = of_nat avail"
    "cursor_index (cursorBits q) (allocated b) = of_nat avail"
    "unat (of_nat avail :: 'w word) = avail" by simp_all
  show "c \<le> avail" using k(5) c by (simp add: avail_def)
qed

lemma bbq_pop_slot:
  fixes q :: "('w::len, 'a) bbq_queue"
  assumes at: "bbq_at q K p L c" and c: "c < bq_blockSize q" and av: "L = K \<Longrightarrow> c < p"
  defines "q' \<equiv> updBlock q (cursor_index (headBits q) (consumerHead q))
    (\<lambda>b. b\<lparr>reserved := reserved b + 1, consumed := consumed b + 1\<rparr>)"
  shows "bbq_pop_once q = (Some (PopOk (bbq_cell q (bbq_pops q))), q')" "bbq_at q' K p L (Suc c)"
    "bbq_contents q = bbq_cell q (bbq_pops q) # bbq_contents q'"
proof -
  note d = bbq_atD [OF at] note k = bbq_countsD [OF d(2)] note e = bbq_static_exp [OF d(1)]
  note cb = bbq_consumer_block [OF at] note oc = bbq_own_committed [OF at c]
  let ?i = "cursor_index (headBits q) (consumerHead q)" and ?N = "bq_numBlocks q" and ?n = "cursorBits q"
    and ?B = "bq_blockSize q"
  have B: "unat (of_nat ?B :: 'w word) = ?B"
    using bbq_read(3) [OF at le_refl order_refl] .
  have lt: "(of_nat c :: 'w word) < of_nat ?B"
    using c by (simp add: word_less_nat_alt cb(3) B)
  have ne: "(of_nat c :: 'w word) \<noteq> of_nat (if L = K then p else ?B)"
    using oc(3) cb(3) av c by (metis less_irrefl)
  have cell: "entries (blockAt q ?i) ! c = bbq_cell q (bbq_pops q)"
    using c by (simp add: bbq_cell_def cb(1,4) blockAt_def)
  show "bbq_pop_once q = (Some (PopOk (bbq_cell q (bbq_pops q))), q')"
    by (simp add: bbq_pop_once_def Let_def cb(2,3) lt oc(1,2) ne updBlock_twice q'_def cell cursor_addIndex_def)
  have len: "unat ?i < length (blocks q)" using bbq_mod_less [OF d(1), of L] by (simp add: cb(1))
  have st: "bbq_static q'" unfolding q'_def by (rule bbq_static_updBlock [OF d(1)]) simp
  have ct: "bbq_counts q' K p L (Suc c)"
    using d(2) c av unfolding bbq_counts_def Let_def q'_def by auto
  have cons: "reserved (blocks q' ! (m mod ?N)) = cur ?n (blk_ver ?N m) (if m = L + ?N then Suc c else ?B)
      \<and> consumed (blocks q' ! (m mod ?N)) = cur ?n (blk_ver ?N m) (if m = L + ?N then Suc c else ?B)"
    if m: "L < m" "m \<le> L + ?N" for m
  proof -
    have "m mod ?N = unat ?i \<longleftrightarrow> m = L + ?N"
      using window_inj [of m ?N "L + ?N" L] m e(4) by (auto simp: cb(1))
    then show ?thesis
      using d(6) [OF m] by (cases "m = L + ?N") (simp_all add: q'_def blocks_updBlock [OF len] cur_Suc)
  qed
  have prod: "allocated (blocks q' ! j) = allocated (blocks q ! j)" "committed (blocks q' ! j) = committed (blocks q ! j)"
    "entries (blocks q' ! j) = entries (blocks q ! j)" for j
    by (simp_all add: q'_def blocks_updBlock [OF len])
  show at': "bbq_at q' K p L (Suc c)"
    using st ct cons d(3,4,5) unfolding bbq_at_def Let_def prod by (simp add: q'_def)
  have "L * ?B + c < K * ?B + p"
  proof (cases "L = K")
    case False
    then have "Suc L * ?B \<le> K * ?B" using k(3) by (intro mult_le_mono1) simp
    then show ?thesis using c by simp
  qed (use av in simp)
  moreover have "bbq_cell q' = bbq_cell q" by (rule ext) (simp add: bbq_cell_def prod, simp add: q'_def)
  ultimately show "bbq_contents q = bbq_cell q (bbq_pops q) # bbq_contents q'"
    using bbq_producer_block(4) [OF at'] bbq_consumer_block(4) [OF at']
    by (simp add: bbq_contents_def bbq_producer_block(4) [OF at] cb(4) q'_def upt_conv_Cons)
qed

lemma bbq_pop_enter:
  fixes q :: "('w::len, 'a) bbq_queue"
  assumes at: "bbq_at q K p L (bq_blockSize q)" and lt: "L < K"
  defines "f \<equiv> cur (cursorBits q) (Suc (L div bq_numBlocks q)) 0 :: 'w word"
  defines "q' \<equiv> (updBlock q (nextIndex q (cursor_index (headBits q) (of_nat L)))
    (\<lambda>b. b\<lparr>consumed := atomicMax (consumed b) f, reserved := atomicMax (reserved b) f\<rparr>))\<lparr>consumerHead := of_nat (Suc L)\<rparr>"
  shows "bbq_pop_once q = (None, q')" "bbq_at q' K p (Suc L) 0" "bbq_contents q' = bbq_contents q"
proof -
  note d = bbq_atD [OF at] note k = bbq_countsD [OF d(2)] note e = bbq_static_exp [OF d(1)]
  note cb = bbq_consumer_block [OF at]
  let ?N = "bq_numBlocks q" and ?B = "bq_blockSize q" and ?n = "cursorBits q"
  let ?ni = "nextIndex q (cursor_index (headBits q) (of_nat L))"
  have vn: "blk_ver ?N (Suc L + ?N) = Suc (L div ?N)" using e(4) by (intro blk_ver_next) simp
  have w: "K < Suc L + ?N" "Suc L + ?N \<le> K + ?N" using k(4) lt by auto
  have fr: "Suc (L div ?N) < 2 ^ (LENGTH('w) - ?n)" "Suc L < 2 ^ LENGTH('w)"
    using blk_ver_mono [OF w(2), of ?N] k(7,9) lt by (simp_all only: vn)
  note en = bbq_enter_max [OF d(1) fr(1) k(8)]
  have ni: "unat ?ni = Suc L mod ?N" using unat_nextIndex [OF d(1) k(8)] by simp
  have len: "unat ?ni < length (blocks q)" using bbq_mod_less [OF d(1)] by (simp add: ni)
  have "cursor_version ?n (committed (blocks q ! (Suc L mod ?N))) = of_nat (Suc (L div ?N))"
  proof -
    define i where "i = (if Suc L + ?N = K + ?N then p else ?B)"
    have "i \<le> ?B" using k(1) by (simp add: i_def)
    moreover have "committed (blocks q ! (Suc L mod ?N)) = cur ?n (blk_ver ?N (Suc L + ?N)) i"
      using d(5) [OF w] mod_add_self2 [of "Suc L" ?N] by (simp add: i_def)
    ultimately show ?thesis using bbq_read(2) [OF at w(2), of i] by (simp only: vn)
  qed
  then have ver: "cursor_version ?n (committed (blocks q ! (Suc L mod ?N))) = cursor_version (headBits q) (of_nat L) + 1"
    using head_split(3) [OF k(8), of "headBits q", folded e(1)] by (simp add: add.commute)
  show "bbq_pop_once q = (None, q')"
    using cb(2) by (simp add: bbq_pop_once_def advance_chead_def Let_def d(4) blockAt_def ni
        ver en(1) updBlock_twice q'_def f_def atomicMax_succ [OF fr(2)])
  have old: "reserved (blocks q ! (Suc L mod ?N)) = cur ?n (L div ?N) ?B"
    "consumed (blocks q ! (Suc L mod ?N)) = cur ?n (L div ?N) ?B"
    using d(6) [of "Suc L"] e(4) by (simp_all add: blk_ver_Suc)
  have blk: "reserved (blocks q' ! j) = (if j = Suc L mod ?N then f else reserved (blocks q ! j))"
    "consumed (blocks q' ! j) = (if j = Suc L mod ?N then f else consumed (blocks q ! j))"
    "allocated (blocks q' ! j) = allocated (blocks q ! j)" "committed (blocks q' ! j) = committed (blocks q ! j)"
    "entries (blocks q' ! j) = entries (blocks q ! j)" for j
    using old en(2) by (simp_all add: q'_def blocks_updBlock [OF len] ni f_def)
  have same: "bq_numBlocks q' = ?N" "bq_blockSize q' = ?B" "cursorBits q' = ?n" "headBits q' = headBits q"
    "consumerHead q' = of_nat (Suc L)" "producerHead q' = of_nat K"
    by (simp_all add: q'_def d(3))
  have st: "bbq_static q'" unfolding q'_def bbq_static_heads by (rule bbq_static_updBlock [OF d(1)]) simp
  have ct: "bbq_counts q' K p (Suc L) 0"
    using k lt unfolding bbq_counts_def Let_def same by auto
  have cons: "reserved (blocks q' ! (m mod ?N)) = cur ?n (blk_ver ?N m) (if m = Suc L + ?N then 0 else ?B)
      \<and> consumed (blocks q' ! (m mod ?N)) = cur ?n (blk_ver ?N m) (if m = Suc L + ?N then 0 else ?B)"
    if m: "Suc L < m" "m \<le> Suc L + ?N" for m
  proof (cases "m = Suc L + ?N")
    case True
    then have "m mod ?N = Suc L mod ?N" using mod_add_self2 [of "Suc L" ?N] by simp
    with True vn show ?thesis by (simp add: blk f_def)
  next
    case False
    with m have "m mod ?N \<noteq> Suc L mod ?N" using window_inj [of m ?N "Suc L" L] e(4) by auto
    with False m d(6) [of m] show ?thesis by (simp add: blk)
  qed
  show at': "bbq_at q' K p (Suc L) 0"
    using st ct cons d(5) unfolding bbq_at_def Let_def same blk by simp
  have "bbq_cell q' = bbq_cell q" by (rule ext) (simp add: bbq_cell_def same blk)
  then show "bbq_contents q' = bbq_contents q"
    by (simp add: bbq_contents_def bbq_producer_block(4) [OF at] cb(4) bbq_producer_block(4) [OF at']
        bbq_consumer_block(4) [OF at'] same add.commute)
qed

lemma bbq_pop_empty:
  fixes q :: "('w::len, 'a) bbq_queue"
  assumes at: "bbq_at q K p K p"
  shows "bbq_pop_once q = (Some PopEmpty, q)" "bbq_contents q = []"
proof -
  note d = bbq_atD [OF at] note k = bbq_countsD [OF d(2)] note e = bbq_static_exp [OF d(1)]
  note cb = bbq_consumer_block [OF at]
  let ?N = "bq_numBlocks q" and ?B = "bq_blockSize q" and ?n = "cursorBits q"
  show "bbq_contents q = []"
    by (simp add: bbq_contents_def cb(4) bbq_producer_block(4) [OF at])
  show "bbq_pop_once q = (Some PopEmpty, q)"
  proof (cases "p < ?B")
    case True
    then have "(of_nat p :: 'w word) < of_nat ?B"
      using bbq_read(3) [OF at le_refl order_refl] by (simp add: word_less_nat_alt cb(3))
    with bbq_own_committed(1) [OF at True] show ?thesis by (simp add: bbq_pop_once_def Let_def cb(2))
  next
    case False
    with k(1) have p: "p = ?B" by simp
    have "cursor_version ?n (committed (blocks q ! (Suc K mod ?N))) = of_nat (K div ?N)"
      using d(5) [of "Suc K"] e(4) bbq_read(2) [OF at _ order_refl, of "Suc K"]
      by (simp add: blk_ver_Suc)
    then have "cursor_version ?n (committed (blocks q ! (Suc K mod ?N))) \<noteq> cursor_version (headBits q) (of_nat K) + 1"
      using head_split(3) [OF k(7), of "headBits q", folded e(1)] by simp
    with cb(2) p show ?thesis
      by (simp add: bbq_pop_once_def advance_chead_def Let_def d(4) blockAt_def unat_nextIndex [OF d(1) k(8)])
  qed
qed

lemma bbq_pop_law:
  fixes q :: "('w::len, 'a) bbq_queue"
  assumes "bbq_inv q"
  shows "\<exists>s q'. bbq_pop q = Some (s, q') \<and> bbq_inv q' \<and> bbq_same q q' \<and> bbq_pushes q' = bbq_pushes q
    \<and> (s = PopEmpty \<and> bbq_contents q = [] \<and> bbq_contents q' = []
       \<or> (\<exists>x. s = PopOk x \<and> bbq_contents q = x # bbq_contents q'))"
proof -
  from assms obtain K p L c where at: "bbq_at q K p L c" by (auto simp: bbq_inv_def)
  have here: "\<exists>s r'. bbq_pop r = Some (s, r') \<and> bbq_inv r' \<and> bbq_same r r' \<and> bbq_pushes r' = bbq_pushes r
    \<and> (s = PopEmpty \<and> bbq_contents r = [] \<and> bbq_contents r' = []
       \<or> (\<exists>x. s = PopOk x \<and> bbq_contents r = x # bbq_contents r'))"
    if at': "bbq_at r K' p' L' c'" and c': "c' < bq_blockSize r \<or> L' = K'"
    for r :: "('w, 'a) bbq_queue" and K' p' L' c'
  proof (cases "L' = K' \<and> c' = p'")
    case True
    with at' bbq_pop_empty [of r K' p'] show ?thesis
      by (subst bbq_pop.simps) (auto simp: bbq_inv_def bbq_same_def)
  next
    case False
    note k = bbq_countsD [OF bbq_atD(2) [OF at']]
    from False c' k(1,5) have av: "c' < bq_blockSize r" "L' = K' \<Longrightarrow> c' < p'" by auto
    note sl = bbq_pop_slot [OF at' av]
    from sl bbq_producer_block(4) [OF sl(2)] bbq_producer_block(4) [OF at'] show ?thesis
      by (subst bbq_pop.simps) (auto simp: bbq_inv_def bbq_same_def)
  qed
  show ?thesis
  proof (cases "c < bq_blockSize q \<or> L = K")
    case True
    with here [OF at] show ?thesis by blast
  next
    case False
    note k = bbq_countsD [OF bbq_atD(2) [OF at]]
    from False k(2,3) have full: "bbq_at q K p L (bq_blockSize q)" and lt: "L < K" using at by auto
    note en = bbq_pop_enter [OF full lt]
    define r where "r = snd (bbq_pop_once q)"
    have step: "bbq_pop q = bbq_pop r"
      by (subst bbq_pop.simps) (simp add: en(1) r_def)
    have at': "bbq_at r K p (Suc L) 0" and cts: "bbq_contents r = bbq_contents q"
      using en(2,3) by (simp_all add: r_def en(1))
    have r: "bq_blockSize r = bq_blockSize q" "bq_numBlocks r = bq_numBlocks q" by (simp_all add: r_def en(1))
    moreover have "bbq_pushes r = bbq_pushes q"
      using bbq_producer_block(4) [OF at'] bbq_producer_block(4) [OF at] r by simp
    moreover have "0 < bq_blockSize r"
      using bbq_static_exp(5) [OF bbq_atD(1) [OF at]] r by simp
    ultimately show ?thesis using here [OF at'] by (simp add: step cts bbq_same_def)
  qed
qed

lemma bbq_new_inv:
  assumes "numBlocks = 2 ^ k" "0 < k" "k < LENGTH('w)" "1 \<le> blockSize" "length storage = blockSize"
    "bitsToHold blockSize + kOverflowBits < LENGTH('w)"
  shows "bbq_at (bbq_new numBlocks blockSize storage :: ('w::len, 'a) bbq_queue) 0 0 0 0"
proof -
  let ?q = "bbq_new numBlocks blockSize storage :: ('w, 'a) bbq_queue"
  have q: "bq_numBlocks ?q = numBlocks" "bq_blockSize ?q = blockSize" "producerHead ?q = 0" "consumerHead ?q = 0"
    "cursorBits ?q = bitsToHold blockSize + kOverflowBits" "length (blocks ?q) = numBlocks"
    by (simp_all add: bbq_new_def Let_def cursorBits_def)
  have N: "2 \<le> numBlocks" "numBlocks < 2 ^ LENGTH('w)"
    using assms(1-3) one_less_power [of "2::nat" k] by (simp_all add: Suc_le_eq numeral_2_eq_2 [symmetric])
  have "(2 ^ k AND (2 ^ k - 1) :: 'w word) = 0"
    by (rule bit_word_eqI) (auto simp: bit_and_iff bit_exp_iff bit_mask_iff simp flip: mask_eq_exp_minus_1)
  then have pow: "isPowerOfTwo (of_nat numBlocks :: 'w word)"
    using assms(1,3) by (simp add: isPowerOfTwo_def exp_eq_zero_iff)
  have st: "bbq_static ?q"
  proof -
    have "\<forall>b\<in>set (blocks ?q). length (entries b) = blockSize"
      using assms(5) by (auto simp: bbq_new_def Let_def)
    with N pow assms(4,6) show ?thesis by (simp add: bbq_static_def q)
  qed
  have init: "cursor_make (bitsToHold blockSize + kOverflowBits) 0 (of_nat i :: 'w word)
      = cur (bitsToHold blockSize + kOverflowBits) 0 i" if "i \<le> blockSize" for i
  proof -
    have "i < 2 ^ (bitsToHold blockSize + kOverflowBits)"
      using bbq_static_exp(7) [OF st] that by (simp add: q)
    then show ?thesis using make_cur [of i _ 0, where 'w = 'w] assms(6) by simp
  qed
  have "cursor_make (bitsToHold blockSize + kOverflowBits) 0 (if m = numBlocks then 0 else of_nat blockSize :: 'w word)
      = cur (bitsToHold blockSize + kOverflowBits) (blk_ver numBlocks m) (if m = numBlocks then 0 else blockSize)"
    if "0 < m" "m \<le> numBlocks" for m
  proof -
    have "blk_ver numBlocks m = 0" using that by (simp add: blk_ver_def)
    then show ?thesis using init [of 0] init [of blockSize] by simp
  qed
  moreover have "m mod numBlocks = 0 \<longleftrightarrow> m = numBlocks" if "0 < m" "m \<le> numBlocks" for m
    using that by (cases "m = numBlocks") auto
  moreover have "m mod numBlocks < numBlocks" for m using N by simp
  ultimately have "allocated (blocks ?q ! (m mod numBlocks)) = cur (cursorBits ?q) (blk_ver numBlocks m) (if m = numBlocks then 0 else blockSize)
      \<and> committed (blocks ?q ! (m mod numBlocks)) = cur (cursorBits ?q) (blk_ver numBlocks m) (if m = numBlocks then 0 else blockSize)
      \<and> reserved (blocks ?q ! (m mod numBlocks)) = cur (cursorBits ?q) (blk_ver numBlocks m) (if m = numBlocks then 0 else blockSize)
      \<and> consumed (blocks ?q ! (m mod numBlocks)) = cur (cursorBits ?q) (blk_ver numBlocks m) (if m = numBlocks then 0 else blockSize)"
    if "0 < m" "m \<le> numBlocks" for m
    unfolding q(5) using that by (simp add: bbq_new_def Let_def cong: if_cong)
  moreover have "bbq_counts ?q 0 0 0 0"
    using N assms(4) by (simp add: bbq_counts_def q blk_ver_def)
  ultimately show ?thesis using st by (simp add: bbq_at_def q)
qed

section \<open>Runs\<close>

datatype 'a bbq_op = BPush 'a | BPop

text \<open>The entries accepted, the entries handed out, and the state after a run.\<close>

fun bbq_run :: "('w::len, 'a) bbq_queue \<Rightarrow> 'a bbq_op list \<Rightarrow> ('a list \<times> 'a list \<times> ('w, 'a) bbq_queue) option" where
  "bbq_run q [] = Some ([], [], q)"
| "bbq_run q (BPush x # ops) =
     (case bbq_push q x of None \<Rightarrow> None
      | Some (s, q') \<Rightarrow> (case bbq_run q' ops of None \<Rightarrow> None
          | Some (ins, outs, q'') \<Rightarrow> Some (if s = PushOk then x # ins else ins, outs, q'')))"
| "bbq_run q (BPop # ops) =
     (case bbq_pop q of None \<Rightarrow> None
      | Some (s, q') \<Rightarrow> (case bbq_run q' ops of None \<Rightarrow> None
          | Some (ins, outs, q'') \<Rightarrow> Some (ins, (case s of PopOk x \<Rightarrow> x # outs | _ \<Rightarrow> outs), q'')))"

text \<open>How many pushes the version field of the cursors can tell apart.\<close>

definition bbq_lifetime :: "('w::len, 'a) bbq_queue \<Rightarrow> nat" where
  "bbq_lifetime q = bq_numBlocks q * (2 ^ (LENGTH('w) - cursorBits q) - 1) * bq_blockSize q"

lemma bbq_lifetime_same: "bbq_same q q' \<Longrightarrow> bbq_lifetime q' = bbq_lifetime q"
  by (simp add: bbq_same_def bbq_lifetime_def cursorBits_def)

lemma bbq_lifetime_fresh:
  fixes q :: "('w::len, 'a) bbq_queue"
  assumes "bbq_inv q" "bq_numBlocks q \<le> 2 ^ cursorBits q" "bbq_pushes q < bbq_lifetime q"
  shows "bbq_fresh q"
proof -
  from assms(1) obtain K p L c where at: "bbq_at q K p L c" by (auto simp: bbq_inv_def)
  note d = bbq_atD [OF at] note k = bbq_countsD [OF d(2)] note e = bbq_static_exp [OF d(1)]
  let ?N = "bq_numBlocks q" and ?V = "2 ^ (LENGTH('w) - cursorBits q) :: nat"
  have "K * bq_blockSize q < ?N * (?V - 1) * bq_blockSize q"
    using assms(3) unfolding bbq_producer_block(4) [OF at] bbq_lifetime_def by (rule le_less_trans [rotated]) simp
  then have K: "K < ?N * (?V - 1)" by simp
  then have "K div ?N < ?V - 1" by (simp add: less_mult_imp_div_less mult.commute)
  then have "K div ?N + 1 < ?V" by simp
  moreover have "K + 1 < 2 ^ LENGTH('w)"
  proof -
    have "K + 1 \<le> ?N * (?V - 1)" using K by simp
    also have "\<dots> < ?N * ?V" using e(4) by simp
    also have "\<dots> \<le> 2 ^ cursorBits q * ?V" using assms(2) by (intro mult_le_mono1)
    also have "\<dots> = 2 ^ LENGTH('w)" using e(6) by (simp flip: power_add)
    finally show ?thesis .
  qed
  ultimately show ?thesis
    using head_split(2) [OF k(7), of "headBits q", folded e(1)] k(7)
    by (simp add: bbq_fresh_def d(3) unat_of_nat_small)
qed

lemma bbq_run_law:
  fixes q :: "('w::len, 'a) bbq_queue"
  assumes "bbq_inv q" "bq_numBlocks q \<le> 2 ^ cursorBits q" "bbq_pushes q + length ops \<le> bbq_lifetime q"
  shows "\<exists>ins outs q'. bbq_run q ops = Some (ins, outs, q') \<and> bbq_inv q' \<and> bbq_contents q @ ins = outs @ bbq_contents q'"
  using assms
proof (induction ops arbitrary: q)
  case Nil
  then show ?case by simp
next
  case (Cons op ops)
  have rest: "\<exists>ins outs q''. bbq_run q' ops = Some (ins, outs, q'') \<and> bbq_inv q'' \<and> bbq_contents q' @ ins = outs @ bbq_contents q''"
    if "bbq_inv q'" "bbq_same q q'" "bbq_pushes q' \<le> Suc (bbq_pushes q)" for q'
    using that Cons.prems bbq_lifetime_same [OF that(2)]
    by (intro Cons.IH) (auto simp: bbq_same_def cursorBits_def)
  show ?case
  proof (cases op)
    case (BPush x)
    have "bbq_fresh q" using Cons.prems by (intro bbq_lifetime_fresh) auto
    from bbq_push_law [OF Cons.prems(1) this, of x] obtain s q' where
      p: "bbq_push q x = Some (s, q')" "bbq_inv q'" "bbq_same q q'" and
      s: "s = PushOk \<and> bbq_contents q' = bbq_contents q @ [x] \<and> bbq_pushes q' = Suc (bbq_pushes q)
        \<or> s = PushFull \<and> q' = q" by blast
    then have "bbq_pushes q' \<le> Suc (bbq_pushes q)" by auto
    from rest [OF p(2,3) this] s p(1) BPush show ?thesis by fastforce
  next
    case BPop
    from bbq_pop_law [OF Cons.prems(1)] obtain s q' where
      p: "bbq_pop q = Some (s, q')" "bbq_inv q'" "bbq_same q q'" "bbq_pushes q' = bbq_pushes q" and
      s: "s = PopEmpty \<and> bbq_contents q = [] \<and> bbq_contents q' = []
        \<or> (\<exists>x. s = PopOk x \<and> bbq_contents q = x # bbq_contents q')" by blast
    from rest [OF p(2,3)] p(4) s p(1) BPop show ?thesis by fastforce
  qed
qed

section \<open>Properties\<close>

text \<open>C3: a queue that starts empty is a first-in first-out queue for as long as its version
  fields can count the rounds: every run of pushes and pops of up to that many operations
  returns from each call, and what was accepted is what was handed out, in order, followed by
  what is still queued.\<close>

theorem bbq_run_fifo:
  fixes storage :: "'a list"
  assumes "numBlocks = 2 ^ k" "0 < k" "k < LENGTH('w)" "length storage = blockSize" "1 \<le> blockSize"
    "bitsToHold blockSize + kOverflowBits < LENGTH('w)" "numBlocks \<le> 2 ^ (bitsToHold blockSize + kOverflowBits)"
    and "length ops \<le> bbq_lifetime (bbq_new numBlocks blockSize storage :: ('w::len, 'a) bbq_queue)"
  shows "\<exists>ins outs q'. bbq_run (bbq_new numBlocks blockSize storage :: ('w, 'a) bbq_queue) ops = Some (ins, outs, q')
    \<and> ins = outs @ bbq_contents q'"
proof -
  let ?q = "bbq_new numBlocks blockSize storage :: ('w, 'a) bbq_queue"
  note at = bbq_new_inv [OF assms(1-3,5,4,6)]
  have "bbq_contents ?q = []" "bbq_pushes ?q = 0"
    using bbq_producer_block(4) [OF at] bbq_consumer_block(4) [OF at] by (simp_all add: bbq_contents_def)
  moreover have "bq_numBlocks ?q \<le> 2 ^ cursorBits ?q"
    using assms(7) by (simp add: bbq_new_def Let_def cursorBits_def)
  ultimately show ?thesis
    using bbq_run_law [of ?q ops] at assms(8) by (auto simp: bbq_inv_def)
qed

lemma bitsToHold_4096: "bitsToHold 4096 = 13"
  by (simp add: bitsToHold.simps)

theorem bbq_run_fifo_witness:
  "\<exists>ins outs q'. bbq_run (bbq_new 16 4096 (replicate 4096 0) :: (64, nat) bbq_queue)
     (replicate 1000 (BPush 1) @ replicate 3000 BPop) = Some (ins, outs, q') \<and> ins = outs @ bbq_contents q'"
  by (rule bbq_run_fifo [of 16 4])
    (simp_all add: bitsToHold_4096 kOverflowBits_def bbq_lifetime_def bbq_new_def Let_def cursorBits_def)

text \<open>C4: while the producer head's version is within the lifetime of the cursors' versions (\<open>bbq_fresh\<close>; the next
  property says what happens after it), a push with no other thread inside an operation always returns, never reports
  Busy, and reports Full only when more than \<open>kCapacity\<close> entries are queued: within the lifetime
  \<open>kCapacity\<close> entries fit.\<close>

theorem bbq_push_full_only_beyond_capacity:
  fixes q :: "('w::len, 'a) bbq_queue"
  assumes "bbq_inv q" "bbq_fresh q"
  shows "\<exists>s q'. bbq_push q x = Some (s, q') \<and> s \<noteq> PushBusy
    \<and> (length (bbq_contents q) \<le> bbq_kCapacity q \<longrightarrow> s = PushOk) \<and> (s = PushFull \<longrightarrow> q' = q)"
proof -
  from bbq_push_law [OF assms, of x] obtain s q' where
    "bbq_push q x = Some (s, q')" "s = PushOk \<or> s = PushFull \<and> q' = q \<and> bbq_kCapacity q < length (bbq_contents q)"
    by blast
  then show ?thesis by (intro exI [of _ s] exI [of _ q']) auto
qed

theorem bbq_push_full_only_beyond_capacity_witness:
  "\<exists>s q'. bbq_push (bbq_new 2 1 [0] :: (32, nat) bbq_queue) 5 = Some (s, q') \<and> s \<noteq> PushBusy
    \<and> (length (bbq_contents (bbq_new 2 1 [0] :: (32, nat) bbq_queue)) \<le> bbq_kCapacity (bbq_new 2 1 [0] :: (32, nat) bbq_queue) \<longrightarrow> s = PushOk)
    \<and> (s = PushFull \<longrightarrow> q' = bbq_new 2 1 [0])"
proof (rule bbq_push_full_only_beyond_capacity)
  have one: "bitsToHold 1 = 1" "bitsToHold (Suc 0) = 1" by (simp_all add: bitsToHold.simps)
  show "bbq_inv (bbq_new 2 1 [0] :: (32, nat) bbq_queue)"
    unfolding bbq_inv_def using bbq_new_inv [of 2 1 1 "[0 :: nat]", where 'w = 32]
    by (auto simp: one kOverflowBits_def)
  show "bbq_fresh (bbq_new 2 1 [0] :: (32, nat) bbq_queue)"
    by (simp add: bbq_fresh_def bbq_new_def Let_def cursorBits_def one kOverflowBits_def cursor_version_def)
qed

text \<open>C5: the version of a head is wider than the version of a cursor.  Once the producer's
  head has gone round more often than a cursor can count, a push that needs the next block is
  refused whatever the queue holds, an empty queue included.\<close>

theorem bbq_push_refused_after_lifetime:
  fixes q :: "('w::len, 'a) bbq_queue"
  assumes "2 ^ (LENGTH('w) - cursorBits q) \<le> unat (cursor_version (headBits q) (producerHead q))"
    and "\<not> cursor_index (cursorBits q) (allocated (blockAt q (cursor_index (headBits q) (producerHead q)))) < of_nat (bq_blockSize q)"
  shows "\<exists>s. bbq_push q x = Some (s, q) \<and> s \<noteq> PushOk"
proof -
  have "cursor_version (cursorBits q) r < cursor_version (headBits q) (producerHead q)" for r
  proof -
    have "unat r div 2 ^ cursorBits q < 2 ^ (LENGTH('w) - cursorBits q)"
    proof (cases "cursorBits q \<le> LENGTH('w)")
      case True
      have "unat r < 2 ^ LENGTH('w)" by (rule unsigned_less)
      also have "\<dots> = 2 ^ (LENGTH('w) - cursorBits q) * 2 ^ cursorBits q"
        using True by (simp flip: power_add)
      finally show ?thesis by (rule less_mult_imp_div_less)
    next
      case False
      then have "unat r < 2 ^ cursorBits q"
        by (meson less_le_trans linear one_le_numeral power_increasing unsigned_less)
      then show ?thesis by simp
    qed
    with assms(1) show ?thesis by (simp add: word_less_nat_alt unat_cursor_version)
  qed
  then have "\<not> cursor_version (cursorBits q) r > cursor_version (headBits q) (producerHead q)
      \<and> cursor_version (cursorBits q) r \<noteq> cursor_version (headBits q) (producerHead q)" for r
    by (metis less_asym less_irrefl)
  with assms(2) have "\<exists>s. bbq_push_once q x = (Some s, q) \<and> s \<noteq> PushOk"
    by (simp add: bbq_push_once_def advance_phead_def Let_def)
  then show ?thesis by (subst bbq_push.simps) auto
qed

theorem bbq_push_refused_after_lifetime_witness:
  "let b = \<lparr>allocated = 4096, committed = 4096, reserved = 4096, consumed = 4096, entries = []\<rparr> :: (32, nat) bbq_block;
       q = \<lparr>bq_numBlocks = 2, bq_blockSize = 4096, producerHead = 1024, consumerHead = 1024, blocks = [b, b]\<rparr>
   in bbq_isEmptyApprox q \<and> (\<exists>s. bbq_push q 1 = Some (s, q) \<and> s \<noteq> PushOk)"
  unfolding Let_def
proof
  let ?b = "\<lparr>allocated = 4096, committed = 4096, reserved = 4096, consumed = 4096, entries = []\<rparr> :: (32, nat) bbq_block"
  let ?q = "\<lparr>bq_numBlocks = 2, bq_blockSize = 4096, producerHead = 1024, consumerHead = 1024, blocks = [?b, ?b]\<rparr>"
  have hb: "bitsToHold (Suc 0) = 1" by (simp add: bitsToHold.simps)
  note ev = Let_def blockAt_def nextIndex_def cursorBits_def headBits_def hb bitsToHold_4096 kOverflowBits_def
    cursor_index_def cursor_version_def kIndexMask_def push_bit_eq_mult drop_bit_eq_div
  show "bbq_isEmptyApprox ?q" by (simp add: bbq_isEmptyApprox_def ev)
  show "\<exists>s. bbq_push ?q 1 = Some (s, ?q) \<and> s \<noteq> PushOk"
    by (rule bbq_push_refused_after_lifetime) (simp_all add: ev)
qed

text \<open>the queue holds up to a full ring of blocks, one block more than \<open>kCapacity\<close>.\<close>

theorem bbq_holds_whole_ring:
  "case bbq_run (bbq_new 2 1 [0] :: (32, nat) bbq_queue) [BPush 1, BPush 2, BPush 3] of
     None \<Rightarrow> False
   | Some (ins, outs, q') \<Rightarrow> ins = [1, 2] \<and> outs = [] \<and> bbq_contents q' = [1, 2] \<and> bbq_kCapacity q' = 1"
  by code_simp

end
