(* ===== verification/Wait_List.thy ===== *)
theory Wait_List
  imports Prelude
begin

text \<open>
  \<^verbatim>\<open>sync/detail/Waiter.h\<close> and \<^verbatim>\<open>sync/src/Waiter.cpp\<close>: waiters that live on their own stacks,
  linked into an intrusive doubly linked list.  Waiters are addresses into a store; the list
  operations write the same links as the code.  The list is proved to be a FIFO list of
  addresses, and walking a detached chain of waiters to notify each one exactly once.
\<close>

section \<open>Waiters and wakers\<close>

type_synonym addr = nat

text \<open>A token names a scheduler, one of its task slots and the slot's generation; a token without a
  scheduler is empty.\<close>

record wake_token =
  wt_core :: "addr option"
  wt_slot :: u32
  wt_generation :: u32

definition token_valid :: "wake_token \<Rightarrow> bool" where
  "token_valid t \<longleftrightarrow> wt_core t \<noteq> None"

datatype wake_event = CallbackRun nat nat | Unparked nat | TokenWoken wake_token | NothingWoken

record waker =
  wk_token :: wake_token
  wk_parker :: "nat option"
  wk_callback :: "nat option"
  wk_argument :: nat

definition empty_token :: wake_token where
  "empty_token = \<lparr>wt_core = None, wt_slot = 0, wt_generation = 0\<rparr>"

definition waker_empty :: waker where
  "waker_empty = \<lparr>wk_token = empty_token, wk_parker = None, wk_callback = None, wk_argument = 0\<rparr>"

definition waker_wake :: "waker \<Rightarrow> wake_event" where
  "waker_wake w =
     (case wk_callback w of Some f \<Rightarrow> CallbackRun f (wk_argument w)
      | None \<Rightarrow> (case wk_parker w of Some p \<Rightarrow> Unparked p
          | None \<Rightarrow> if token_valid (wk_token w) then TokenWoken (wk_token w) else NothingWoken))"

definition waker_isEmpty :: "waker \<Rightarrow> bool" where
  "waker_isEmpty w \<longleftrightarrow> wk_callback w = None \<and> wk_parker w = None \<and> \<not> token_valid (wk_token w)"

definition waker_eq :: "waker \<Rightarrow> waker \<Rightarrow> bool" where
  "waker_eq a b \<longleftrightarrow> wk_callback a = wk_callback b \<and> wk_argument a = wk_argument b \<and> wk_parker a = wk_parker b
     \<and> wt_core (wk_token a) = wt_core (wk_token b) \<and> wt_slot (wk_token a) = wt_slot (wk_token b) \<and> wt_generation (wk_token a) = wt_generation (wk_token b)"

datatype EnqueueResult = Ready | Enqueued | Cancelled

datatype TransferResult = TDone | TClosed | TWouldBlock | TEnqueued | TCancelled

record waiter =
  w_next :: "addr option"
  w_prev :: "addr option"
  w_linked :: bool
  w_satisfied :: bool
  w_token :: wake_token
  w_parker :: "nat option"
  w_callback :: "nat option"
  w_argument :: nat
  w_cancelled :: bool

type_synonym wstore = "addr \<Rightarrow> waiter"

text \<open>The two constructors: bound to the calling task or thread, or to a callback.\<close>

definition waiter_here :: "wake_token option \<Rightarrow> nat \<Rightarrow> waiter" where
  "waiter_here currentTask threadParker =
     \<lparr>w_next = None, w_prev = None, w_linked = False, w_satisfied = False,
      w_token = (case currentTask of Some t \<Rightarrow> t | None \<Rightarrow> empty_token),
      w_parker = (case currentTask of Some _ \<Rightarrow> None | None \<Rightarrow> Some threadParker),
      w_callback = None, w_argument = 0, w_cancelled = False\<rparr>"

definition waiter_callback :: "nat \<Rightarrow> nat \<Rightarrow> waiter" where
  "waiter_callback callback argument =
     \<lparr>w_next = None, w_prev = None, w_linked = False, w_satisfied = False, w_token = empty_token,
      w_parker = None, w_callback = Some callback, w_argument = argument, w_cancelled = False\<rparr>"

definition waiter_waker :: "waiter \<Rightarrow> waker" where
  "waiter_waker w = \<lparr>wk_token = w_token w, wk_parker = w_parker w, wk_callback = w_callback w, wk_argument = w_argument w\<rparr>"

definition waiter_notify :: "wstore \<Rightarrow> addr \<Rightarrow> wake_event \<times> wstore" where
  "waiter_notify st a =
     (let w = st a in
      case w_callback w of Some f \<Rightarrow> (CallbackRun f (w_argument w), st)
      | None \<Rightarrow> (case w_parker w of
            Some p \<Rightarrow> (Unparked p, st(a := w\<lparr>w_satisfied := True\<rparr>))
          | None \<Rightarrow> (TokenWoken (w_token w), st(a := w\<lparr>w_satisfied := True\<rparr>))))"

section \<open>The intrusive list\<close>

record wait_list =
  wl_head :: "addr option"
  wl_tail :: "addr option"

definition wl_empty :: wait_list where
  "wl_empty = \<lparr>wl_head = None, wl_tail = None\<rparr>"

definition wl_isEmpty :: "wait_list \<Rightarrow> bool" where
  "wl_isEmpty l \<longleftrightarrow> wl_head l = None"

definition pushBack :: "wstore \<Rightarrow> wait_list \<Rightarrow> addr \<Rightarrow> wstore \<times> wait_list" where
  "pushBack st l a =
     (let st1 = st(a := (st a)\<lparr>w_next := None, w_prev := wl_tail l, w_linked := True\<rparr>) in
      case wl_tail l of
        Some t \<Rightarrow> (st1(t := (st1 t)\<lparr>w_next := Some a\<rparr>), l\<lparr>wl_tail := Some a\<rparr>)
      | None \<Rightarrow> (st1, l\<lparr>wl_head := Some a, wl_tail := Some a\<rparr>))"

definition wl_unlink :: "wstore \<Rightarrow> wait_list \<Rightarrow> addr \<Rightarrow> wstore \<times> wait_list" where
  "wl_unlink st l a =
     (let w = st a;
          (st1, l1) = (case w_prev w of
              Some p \<Rightarrow> (st(p := (st p)\<lparr>w_next := w_next w\<rparr>), l)
            | None \<Rightarrow> (st, l\<lparr>wl_head := w_next w\<rparr>));
          (st2, l2) = (case w_next w of
              Some n \<Rightarrow> (st1(n := (st1 n)\<lparr>w_prev := w_prev w\<rparr>), l1)
            | None \<Rightarrow> (st1, l1\<lparr>wl_tail := w_prev w\<rparr>))
      in (st2(a := (st2 a)\<lparr>w_next := None, w_prev := None, w_linked := False\<rparr>), l2))"

definition popFront :: "wstore \<Rightarrow> wait_list \<Rightarrow> addr option \<times> wstore \<times> wait_list" where
  "popFront st l =
     (case wl_head l of None \<Rightarrow> (None, st, l)
      | Some a \<Rightarrow> (case wl_unlink st l a of (st', l') \<Rightarrow> (Some a, st', l')))"

definition cancelWaiter :: "wstore \<Rightarrow> wait_list \<Rightarrow> addr \<Rightarrow> bool \<times> wstore \<times> wait_list" where
  "cancelWaiter st l a =
     (if w_linked (st a) then (case wl_unlink st l a of (st', l') \<Rightarrow> (True, st', l'))
      else (False, st(a := (st a)\<lparr>w_cancelled := True\<rparr>), l))"

text \<open>The destructor of an armed guard: unlinked under the lock, or the notifier is awaited
  (the second component says so; it returns once the notifier has set \<open>satisfied\<close>).\<close>

definition waitGuard_destroy :: "bool \<Rightarrow> wstore \<Rightarrow> wait_list \<Rightarrow> addr \<Rightarrow> bool \<times> bool \<times> wstore \<times> wait_list" where
  "waitGuard_destroy armed st l a =
     (if \<not> armed then (False, False, st, l)
      else if w_linked (st a) then (case wl_unlink st l a of (st', l') \<Rightarrow> (True, False, st', l'))
      else (False, True, st, l))"

text \<open>Detaching every waiter into a chain through \<open>next\<close>, newest first, and walking a chain.\<close>

partial_function (option) detachAll :: "wstore \<Rightarrow> wait_list \<Rightarrow> addr option \<Rightarrow> (addr option \<times> wstore \<times> wait_list) option" where
  "detachAll st l chain =
     (case popFront st l of
        (None, st', l') \<Rightarrow> Some (chain, st', l')
      | (Some a, st', l') \<Rightarrow> detachAll (st'(a := (st' a)\<lparr>w_next := chain\<rparr>)) l' (Some a))"

partial_function (option) notifyChain :: "wstore \<Rightarrow> addr option \<Rightarrow> wake_event list \<Rightarrow> (wake_event list \<times> wstore) option" where
  "notifyChain st chain events =
     (case chain of
        None \<Rightarrow> Some (events, st)
      | Some a \<Rightarrow>
          (case waiter_notify st a of (ev, st1) \<Rightarrow> notifyChain st1 (w_next (st a)) (events @ [ev])))"

text \<open>Popping one waiter and notifying it.\<close>

definition popNotify :: "wstore \<Rightarrow> wait_list \<Rightarrow> wake_event list \<times> wstore \<times> wait_list" where
  "popNotify st l =
     (case popFront st l of
        (None, st', l') \<Rightarrow> ([], st', l')
      | (Some a, st', l') \<Rightarrow> (case waiter_notify st' a of (ev, st'') \<Rightarrow> ([ev], st'', l')))"

declare detachAll.simps [code] notifyChain.simps [code]

section \<open>The list of linked waiters\<close>

definition firstOr :: "addr option \<Rightarrow> addr list \<Rightarrow> addr option" where
  "firstOr n xs = (case xs of [] \<Rightarrow> n | x # _ \<Rightarrow> Some x)"

definition lastOr :: "addr option \<Rightarrow> addr list \<Rightarrow> addr option" where
  "lastOr p xs = (if xs = [] then p else Some (last xs))"

fun dll :: "wstore \<Rightarrow> addr option \<Rightarrow> addr list \<Rightarrow> addr option \<Rightarrow> bool" where
  "dll st p [] n \<longleftrightarrow> True"
| "dll st p (x # xs) n \<longleftrightarrow> w_prev (st x) = p \<and> w_next (st x) = firstOr n xs \<and> dll st (Some x) xs n"

definition wl_rep :: "wstore \<Rightarrow> wait_list \<Rightarrow> addr list \<Rightarrow> bool" where
  "wl_rep st l xs \<longleftrightarrow> distinct xs \<and> dll st None xs None \<and> wl_head l = firstOr None xs \<and> wl_tail l = lastOr None xs
     \<and> (\<forall>a. w_linked (st a) \<longleftrightarrow> a \<in> set xs)"

lemma firstOr_simps [simp]: "firstOr n [] = n" "firstOr n (x # xs) = Some x"
  by (simp_all add: firstOr_def)

lemma lastOr_simps [simp]: "lastOr p [] = p" "lastOr p (x # xs) = lastOr (Some x) xs" "lastOr p (xs @ [x]) = Some x"
  by (simp_all add: lastOr_def)

lemma firstOr_append [simp]: "firstOr n (xs @ ys) = firstOr (firstOr n ys) xs"
  by (cases xs) simp_all

lemma lastOr_append [simp]: "lastOr p (xs @ ys) = lastOr (lastOr p xs) ys"
  by (induction xs arbitrary: p) simp_all

lemma dll_append: "dll st p (xs @ ys) n \<longleftrightarrow> dll st p xs (firstOr n ys) \<and> dll st (lastOr p xs) ys n"
  by (induction xs arbitrary: p) auto

lemma dll_cong:
  "(\<And>x. x \<in> set xs \<Longrightarrow> w_prev (st' x) = w_prev (st x) \<and> w_next (st' x) = w_next (st x)) \<Longrightarrow> dll st' p xs n = dll st p xs n"
  by (induction xs arbitrary: p) auto

lemma firstOr_eq_None: "firstOr None xs = None \<longleftrightarrow> xs = []"
  by (cases xs) simp_all

lemma wl_rep_empty: "(\<And>a. \<not> w_linked (st a)) \<Longrightarrow> wl_rep st wl_empty []"
  by (simp add: wl_rep_def wl_empty_def)

lemma wl_rep_isEmpty: "wl_rep st l xs \<Longrightarrow> wl_isEmpty l \<longleftrightarrow> xs = []"
  by (simp add: wl_rep_def wl_isEmpty_def firstOr_eq_None)

lemma dll_upd_last:
  assumes "dll st p (xs @ [y]) n" "y \<notin> set xs"
  shows "dll (st(y := (st y)\<lparr>w_next := m\<rparr>)) p (xs @ [y]) m"
proof -
  have "dll (st(y := (st y)\<lparr>w_next := m\<rparr>)) p xs (Some y) = dll st p xs (Some y)"
    using assms(2) by (intro dll_cong) auto
  with assms(1) show ?thesis by (simp add: dll_append)
qed

lemma dll_upd_first:
  assumes "dll st p (y # ys) n" "y \<notin> set ys"
  shows "dll (st(y := (st y)\<lparr>w_prev := m\<rparr>)) m (y # ys) n"
proof -
  have "dll (st(y := (st y)\<lparr>w_prev := m\<rparr>)) (Some y) ys n = dll st (Some y) ys n"
    using assms(2) by (intro dll_cong) auto
  with assms(1) show ?thesis by simp
qed

lemma pushBack_rep:
  assumes "wl_rep st l xs" "a \<notin> set xs" "pushBack st l a = (st', l')"
  shows "wl_rep st' l' (xs @ [a])"
proof (cases xs rule: rev_cases)
  case Nil
  with assms show ?thesis by (auto simp: wl_rep_def pushBack_def Let_def split: if_splits)
next
  case (snoc ys y)
  let ?st1 = "st(a := (st a)\<lparr>w_next := None, w_prev := Some y, w_linked := True\<rparr>)"
  from assms(1) snoc have r: "distinct (ys @ [y])" "dll st None (ys @ [y]) None" "wl_head l = firstOr None (ys @ [y])"
    "wl_tail l = Some y" "\<And>b. w_linked (st b) \<longleftrightarrow> b \<in> set ys \<union> {y}" by (auto simp: wl_rep_def)
  from assms(2) snoc have ne: "a \<noteq> y" "a \<notin> set ys" by auto
  have st': "st' = ?st1(y := (?st1 y)\<lparr>w_next := Some a\<rparr>)" and l': "l' = l\<lparr>wl_tail := Some a\<rparr>"
    using assms(3) r(4) by (auto simp: pushBack_def Let_def)
  have "dll ?st1 None (ys @ [y]) None"
    using r(2) ne by (subst dll_cong [of _ _ st]) auto
  then have "dll st' None (ys @ [y]) (Some a)"
    unfolding st' using r(1) by (intro dll_upd_last) auto
  moreover have "w_prev (st' a) = Some y" "w_next (st' a) = None" using ne st' by auto
  ultimately have "dll st' None (xs @ [a]) None" by (simp add: dll_append snoc)
  moreover have "w_linked (st' b) \<longleftrightarrow> b \<in> set (xs @ [a])" for b
    using r(5) [of b] r(5) [of y] snoc by (auto simp: st')
  ultimately show ?thesis using r(1,3) ne by (simp add: wl_rep_def l' snoc)
qed

text \<open>Unlinking in the middle joins the two neighbours.\<close>

lemma wl_unlink_rep:
  assumes "wl_rep st l (as @ a # bs)" "wl_unlink st l a = (st', l')"
  shows "wl_rep st' l' (as @ bs)"
proof -
  from assms(1) have r: "distinct (as @ a # bs)" "dll st None as (Some a)" "w_prev (st a) = lastOr None as"
    "w_next (st a) = firstOr None bs" "dll st (Some a) bs None" "wl_head l = firstOr (Some a) as"
    "wl_tail l = lastOr (Some a) bs" "\<And>b. w_linked (st b) \<longleftrightarrow> b \<in> set (as @ a # bs)"
    by (auto simp: wl_rep_def dll_append)
  define st1 where "st1 = (case lastOr None as of Some p \<Rightarrow> st(p := (st p)\<lparr>w_next := firstOr None bs\<rparr>) | None \<Rightarrow> st)"
  define st2 where "st2 = (case firstOr None bs of Some n \<Rightarrow> st1(n := (st1 n)\<lparr>w_prev := lastOr None as\<rparr>) | None \<Rightarrow> st1)"
  define l1 where "l1 = (case lastOr None as of Some p \<Rightarrow> l | None \<Rightarrow> l\<lparr>wl_head := firstOr None bs\<rparr>)"
  define l2 where "l2 = (case firstOr None bs of Some n \<Rightarrow> l1 | None \<Rightarrow> l1\<lparr>wl_tail := lastOr None as\<rparr>)"
  have "(case lastOr None as of Some p \<Rightarrow> (st(p := (st p)\<lparr>w_next := firstOr None bs\<rparr>), l)
      | None \<Rightarrow> (st, l\<lparr>wl_head := firstOr None bs\<rparr>)) = (st1, l1)"
    by (simp add: st1_def l1_def split: option.split)
  moreover have "(case firstOr None bs of Some n \<Rightarrow> (st1(n := (st1 n)\<lparr>w_prev := lastOr None as\<rparr>), l1)
      | None \<Rightarrow> (st1, l1\<lparr>wl_tail := lastOr None as\<rparr>)) = (st2, l2)"
    by (simp add: st2_def l2_def split: option.split)
  ultimately have st': "st' = st2(a := (st2 a)\<lparr>w_next := None, w_prev := None, w_linked := False\<rparr>)" and l2: "l' = l2"
    using assms(2) unfolding wl_unlink_def Let_def r(3,4) by simp_all
  have st1: "dll st1 None as (firstOr None bs)" "dll st1 (Some a) bs None"
    "\<And>b. w_linked (st1 b) = w_linked (st b)"
  proof -
    show "dll st1 None as (firstOr None bs)"
    proof (cases as rule: rev_cases)
      case (snoc ys y)
      with r(1,2) show ?thesis using dll_upd_last [of st None ys y "Some a" "firstOr None bs"] by (simp add: st1_def)
    qed simp
    have "as \<noteq> [] \<Longrightarrow> last as \<notin> set bs" using r(1) last_in_set [of as] by (auto simp del: last_in_set)
    then show "dll st1 (Some a) bs None"
      using r(1,5) by (subst dll_cong [of _ _ st]) (auto simp: st1_def lastOr_def)
    show "\<And>b. w_linked (st1 b) = w_linked (st b)" by (simp add: st1_def lastOr_def)
  qed
  have st2: "dll st2 None as (firstOr None bs)" "dll st2 (lastOr None as) bs None"
    "\<And>b. w_linked (st2 b) = w_linked (st b)"
  proof -
    show "dll st2 None as (firstOr None bs)"
      using r(1) st1(1) by (subst dll_cong [of _ _ st1]) (auto simp: st2_def firstOr_def split: list.splits)
    show "dll st2 (lastOr None as) bs None"
    proof (cases bs)
      case (Cons y ys)
      with r(1) st1(2) show ?thesis using dll_upd_first [of st1 "Some a" y ys None] by (simp add: st2_def)
    qed simp
    show "\<And>b. w_linked (st2 b) = w_linked (st b)" using st1(3) by (auto simp: st2_def firstOr_def split: list.splits)
  qed
  have "dll st' None (as @ bs) None"
    using st2(1,2) r(1) unfolding dll_append st'
    by (subst (1 2) dll_cong [of _ _ st2]) auto
  moreover have "w_linked (st' b) \<longleftrightarrow> b \<in> set (as @ bs)" for b
    using st2(3) r(1,8) by (auto simp: st')
  moreover have "wl_head l' = firstOr None (as @ bs)" "wl_tail l' = lastOr None (as @ bs)"
    using r(6,7) by (simp_all add: l2 l2_def l1_def lastOr_def firstOr_def split: list.split)
  ultimately show ?thesis using r(1) by (simp add: wl_rep_def)
qed

text \<open>List operations write links only.\<close>

definition w_payload :: "waiter \<Rightarrow> bool \<times> wake_token \<times> nat option \<times> nat option \<times> nat \<times> bool" where
  "w_payload w = (w_satisfied w, w_token w, w_parker w, w_callback w, w_argument w, w_cancelled w)"

definition same_waiters :: "wstore \<Rightarrow> wstore \<Rightarrow> bool" where
  "same_waiters st st' \<longleftrightarrow> (\<forall>a. w_payload (st' a) = w_payload (st a))"

lemma w_payload_links [simp]:
  "w_payload (w\<lparr>w_next := n\<rparr>) = w_payload w" "w_payload (w\<lparr>w_prev := n\<rparr>) = w_payload w"
  "w_payload (w\<lparr>w_linked := b\<rparr>) = w_payload w"
  by (simp_all add: w_payload_def)

lemma same_waiters_refl [simp]: "same_waiters st st"
  by (simp add: same_waiters_def)

lemma same_waiters_trans: "same_waiters st st1 \<Longrightarrow> same_waiters st1 st2 \<Longrightarrow> same_waiters st st2"
  by (simp add: same_waiters_def)

lemma pushBack_same: "pushBack st l a = (st', l') \<Longrightarrow> same_waiters st st'"
  by (auto simp: pushBack_def Let_def same_waiters_def split: option.splits)

lemma wl_unlink_same: "wl_unlink st l a = (st', l') \<Longrightarrow> same_waiters st st'"
  by (auto simp: wl_unlink_def Let_def same_waiters_def split: option.splits)

lemma notify_event_same:
  "same_waiters st st' \<Longrightarrow> fst (waiter_notify st' a) = fst (waiter_notify st a)"
  by (auto simp: waiter_notify_def Let_def same_waiters_def w_payload_def split: option.splits)

lemma popFront_rep:
  assumes "wl_rep st l xs"
  shows "case popFront st l of (r, st', l') \<Rightarrow> same_waiters st st' \<and>
    (case xs of [] \<Rightarrow> r = None \<and> st' = st \<and> l' = l | x # ys \<Rightarrow> r = Some x \<and> wl_rep st' l' ys)"
proof (cases xs)
  case Nil
  with assms show ?thesis by (simp add: popFront_def wl_rep_def)
next
  case (Cons x ys)
  then have "wl_head l = Some x" using assms by (simp add: wl_rep_def)
  moreover obtain st' l' where u: "wl_unlink st l x = (st', l')" by (cases "wl_unlink st l x")
  moreover have "wl_rep st' l' ys" using wl_unlink_rep [of st l "[]" x ys] assms u Cons by simp
  ultimately show ?thesis using Cons wl_unlink_same [OF u] by (simp add: popFront_def)
qed

lemma cancelWaiter_rep:
  assumes "wl_rep st l xs" "cancelWaiter st l a = (r, st', l')"
  shows "wl_rep st' l' (removeAll a xs) \<and> (r \<longleftrightarrow> a \<in> set xs) \<and> (\<not> r \<longrightarrow> w_cancelled (st' a))"
proof (cases "a \<in> set xs")
  case True
  then obtain as bs where xs: "xs = as @ a # bs" by (meson split_list)
  with assms(1) have d: "a \<notin> set as" "a \<notin> set bs" by (auto simp: wl_rep_def)
  obtain st1 l1 where u: "wl_unlink st l a = (st1, l1)" by (cases "wl_unlink st l a")
  from True assms u have "st' = st1" "l' = l1" "r" by (auto simp: cancelWaiter_def wl_rep_def)
  with wl_unlink_rep [OF assms(1) [unfolded xs] u] d True show ?thesis by (simp add: xs)
next
  case False
  with assms have eq: "\<not> r" "l' = l" "st' = st(a := (st a)\<lparr>w_cancelled := True\<rparr>)"
    by (auto simp: cancelWaiter_def wl_rep_def)
  have "dll st' None xs None = dll st None xs None" unfolding eq by (intro dll_cong) simp
  then show ?thesis using assms(1) False by (auto simp: wl_rep_def eq)
qed

section \<open>Detached chains\<close>

fun wchain :: "wstore \<Rightarrow> addr list \<Rightarrow> addr option \<Rightarrow> bool" where
  "wchain st [] p \<longleftrightarrow> p = None"
| "wchain st (x # xs) p \<longleftrightarrow> p = Some x \<and> wchain st xs (w_next (st x))"

lemma wchain_cong: "(\<And>x. x \<in> set xs \<Longrightarrow> w_next (st' x) = w_next (st x)) \<Longrightarrow> wchain st' xs p = wchain st xs p"
  by (induction xs arbitrary: p) auto

lemma wl_unlink_next_other:
  assumes "wl_rep st l (as @ a # bs)" "wl_unlink st l a = (st', l')" "b \<notin> set (as @ a # bs)"
  shows "w_next (st' b) = w_next (st b)"
proof -
  from assms(1) have "w_prev (st a) = lastOr None as" "w_next (st a) = firstOr None bs"
    by (auto simp: wl_rep_def dll_append)
  then have "\<And>p. w_prev (st a) = Some p \<Longrightarrow> p \<noteq> b" "\<And>n. w_next (st a) = Some n \<Longrightarrow> n \<noteq> b"
    using assms(3) by (auto simp: lastOr_def firstOr_def split: if_splits list.splits)
  then show ?thesis using assms(2,3)
    by (auto simp: wl_unlink_def Let_def split: option.splits)
qed

lemma wl_rep_upd_next:
  assumes "wl_rep st l xs" "a \<notin> set xs"
  shows "wl_rep (st(a := (st a)\<lparr>w_next := c\<rparr>)) l xs"
proof -
  have "dll (st(a := (st a)\<lparr>w_next := c\<rparr>)) None xs None = dll st None xs None"
    using assms(2) by (intro dll_cong) auto
  with assms show ?thesis by (auto simp: wl_rep_def)
qed

lemma detachAll_rep:
  assumes "wl_rep st l xs" "wchain st ys chain" "distinct (xs @ ys)"
  shows "\<exists>c st' l'. detachAll st l chain = Some (c, st', l') \<and> wl_rep st' l' [] \<and> wchain st' (rev xs @ ys) c \<and> same_waiters st st'"
  using assms
proof (induction xs arbitrary: st l ys chain)
  case Nil
  then show ?case using popFront_rep [OF Nil(1)] by (subst detachAll.simps) (auto split: prod.splits)
next
  case (Cons x xs)
  from popFront_rep [OF Cons.prems(1)] obtain st1 l1 where
    p: "popFront st l = (Some x, st1, l1)" "same_waiters st st1" "wl_rep st1 l1 xs" by (auto split: prod.splits)
  let ?st2 = "st1(x := (st1 x)\<lparr>w_next := chain\<rparr>)"
  have rep: "wl_rep ?st2 l1 xs" using p(3) Cons.prems(3) by (intro wl_rep_upd_next) auto
  have "wl_unlink st l x = (st1, l1)"
    using p(1) Cons.prems(1) by (auto simp: popFront_def wl_rep_def split: option.splits prod.splits)
  then have "w_next (st1 y) = w_next (st y)" if "y \<in> set ys" for y
    using wl_unlink_next_other [of st l "[]" x xs st1 l1 y] Cons.prems(1,3) that by auto
  then have "wchain ?st2 ys chain"
    using Cons.prems(2,3) by (subst wchain_cong [of _ _ st]) auto
  then have "wchain ?st2 (x # ys) (Some x)" by simp
  moreover have "distinct (xs @ x # ys)" using Cons.prems(3) by auto
  ultimately obtain c st' l' where d: "detachAll ?st2 l1 (Some x) = Some (c, st', l')" "wl_rep st' l' []"
    "wchain st' (rev xs @ x # ys) c" "same_waiters ?st2 st'" using Cons.IH [OF rep] by blast
  have "same_waiters st ?st2" using p(2) by (simp add: same_waiters_def)
  with d p(1) show ?case by (subst detachAll.simps) (auto intro: same_waiters_trans)
qed

definition satisfy :: "wstore \<Rightarrow> addr set \<Rightarrow> wstore" where
  "satisfy st A = (\<lambda>a. if a \<in> A \<and> w_callback (st a) = None then (st a)\<lparr>w_satisfied := True\<rparr> else st a)"

lemma snd_waiter_notify: "snd (waiter_notify st a) = satisfy st {a}"
  by (auto simp: waiter_notify_def Let_def satisfy_def fun_eq_iff split: option.splits)

lemma satisfy_satisfy: "satisfy (satisfy st A) B = satisfy st (A \<union> B)"
  by (auto simp: satisfy_def fun_eq_iff)

lemma satisfy_simps [simp]:
  "w_next (satisfy st A a) = w_next (st a)" "w_prev (satisfy st A a) = w_prev (st a)"
  "w_linked (satisfy st A a) = w_linked (st a)" "w_callback (satisfy st A a) = w_callback (st a)"
  "w_cancelled (satisfy st A a) = w_cancelled (st a)"
  by (simp_all add: satisfy_def)

lemma notify_event_satisfy: "fst (waiter_notify (satisfy st A) a) = fst (waiter_notify st a)"
  by (auto simp: waiter_notify_def Let_def satisfy_def split: option.splits)

lemma wl_rep_satisfy: "wl_rep (satisfy st A) l xs = wl_rep st l xs"
  using dll_cong [of xs "satisfy st A" st None None] by (simp add: wl_rep_def)

lemma popNotify_rep:
  assumes "wl_rep st l xs"
  shows "fst (popNotify st l) = map (\<lambda>a. fst (waiter_notify st a)) (take 1 xs)"
    "wl_rep (fst (snd (popNotify st l))) (snd (snd (popNotify st l))) (tl xs)"
proof -
  obtain r st1 l1 where p: "popFront st l = (r, st1, l1)" by (cases "popFront st l")
  have "fst (popNotify st l) = map (\<lambda>a. fst (waiter_notify st a)) (take 1 xs)
    \<and> wl_rep (fst (snd (popNotify st l))) (snd (snd (popNotify st l))) (tl xs)"
  proof (cases xs)
    case Nil
    with popFront_rep [OF assms] p assms show ?thesis by (simp add: popNotify_def)
  next
    case (Cons x ys)
    with popFront_rep [OF assms] p have q: "r = Some x" "wl_rep st1 l1 ys" "same_waiters st st1" by auto
    with Cons p show ?thesis
      by (simp add: popNotify_def split_beta snd_waiter_notify wl_rep_satisfy notify_event_same)
  qed
  then show "fst (popNotify st l) = map (\<lambda>a. fst (waiter_notify st a)) (take 1 xs)"
    "wl_rep (fst (snd (popNotify st l))) (snd (snd (popNotify st l))) (tl xs)" by blast+
qed

lemma notifyChain_law:
  assumes "wchain st xs c"
  shows "notifyChain st c evs = Some (evs @ map (\<lambda>a. fst (waiter_notify st a)) xs, satisfy st (set xs))"
  using assms
proof (induction xs arbitrary: st c evs)
  case Nil
  then show ?case by (subst notifyChain.simps) (simp add: satisfy_def)
next
  case (Cons x xs)
  have "wchain (satisfy st {x}) xs (w_next (st x))"
    using Cons.prems by (subst wchain_cong [of _ _ st]) auto
  from Cons.IH [OF this, of "evs @ [fst (waiter_notify st x)]"] Cons.prems show ?case
    by (subst notifyChain.simps) (simp add: split_beta snd_waiter_notify notify_event_satisfy satisfy_satisfy)
qed

section \<open>The list as a FIFO queue with removal\<close>

datatype wl_op = WlPush addr | WlPop | WlCancel addr

datatype wl_out = WlPushed | WlPopped "addr option" | WlCancelled bool

fun wl_exec :: "wstore \<times> wait_list \<Rightarrow> wl_op \<Rightarrow> wl_out \<times> wstore \<times> wait_list" where
  "wl_exec (st, l) (WlPush a) = (WlPushed, pushBack st l a)"
| "wl_exec (st, l) WlPop = (case popFront st l of (r, st', l') \<Rightarrow> (WlPopped r, st', l'))"
| "wl_exec (st, l) (WlCancel a) = (case cancelWaiter st l a of (r, st', l') \<Rightarrow> (WlCancelled r, st', l'))"

fun fifo_exec :: "addr list \<Rightarrow> wl_op \<Rightarrow> wl_out \<times> addr list" where
  "fifo_exec xs (WlPush a) = (WlPushed, xs @ [a])"
| "fifo_exec xs WlPop = (case xs of [] \<Rightarrow> (WlPopped None, []) | x # ys \<Rightarrow> (WlPopped (Some x), ys))"
| "fifo_exec xs (WlCancel a) = (WlCancelled (a \<in> set xs), removeAll a xs)"

fun wl_run :: "('s \<Rightarrow> wl_op \<Rightarrow> wl_out \<times> 's) \<Rightarrow> 's \<Rightarrow> wl_op list \<Rightarrow> wl_out list \<times> 's" where
  "wl_run exec s [] = ([], s)"
| "wl_run exec s (op # ops) = (case exec s op of (o1, s1) \<Rightarrow> case wl_run exec s1 ops of (os, s2) \<Rightarrow> (o1 # os, s2))"

text \<open>A waiter is linked into one place of one list: it is not pushed while it is linked.\<close>

fun wl_legal :: "addr list \<Rightarrow> wl_op list \<Rightarrow> bool" where
  "wl_legal xs [] \<longleftrightarrow> True"
| "wl_legal xs (op # ops) \<longleftrightarrow> (case op of WlPush a \<Rightarrow> a \<notin> set xs | _ \<Rightarrow> True) \<and> wl_legal (snd (fifo_exec xs op)) ops"

lemma wl_exec_rep:
  assumes "wl_rep st l xs" "case op of WlPush a \<Rightarrow> a \<notin> set xs | _ \<Rightarrow> True"
  shows "\<exists>o1 st' l'. wl_exec (st, l) op = (o1, st', l') \<and> o1 = fst (fifo_exec xs op) \<and> wl_rep st' l' (snd (fifo_exec xs op))"
proof (cases op)
  case (WlPush a)
  then show ?thesis using pushBack_rep [OF assms(1), of a] assms(2) by (cases "pushBack st l a") auto
next
  case WlPop
  then show ?thesis using popFront_rep [OF assms(1)] assms(1) by (cases xs) (auto split: prod.splits)
next
  case (WlCancel a)
  then show ?thesis using cancelWaiter_rep [OF assms(1), of a] by (cases "cancelWaiter st l a") auto
qed

text \<open>C9: the intrusive list behaves as a FIFO list of waiters with removal from any place: every
  sequence of pushes, pops and cancellations gives the results the list of waiters gives, and
  the links afterwards represent that list.\<close>

theorem wait_list_refines_fifo:
  assumes "wl_rep st l xs" "wl_legal xs ops"
  shows "\<exists>outs st' l'. wl_run wl_exec (st, l) ops = (outs, st', l')
    \<and> outs = fst (wl_run fifo_exec xs ops) \<and> wl_rep st' l' (snd (wl_run fifo_exec xs ops))"
  using assms
proof (induction ops arbitrary: st l xs)
  case Nil
  then show ?case by simp
next
  case (Cons op ops)
  from Cons.prems have "case op of WlPush a \<Rightarrow> a \<notin> set xs | _ \<Rightarrow> True" by simp
  from wl_exec_rep [OF Cons.prems(1) this] obtain o1 st1 l1 where
    s: "wl_exec (st, l) op = (o1, st1, l1)" "o1 = fst (fifo_exec xs op)" "wl_rep st1 l1 (snd (fifo_exec xs op))" by blast
  from Cons.IH [OF s(3)] Cons.prems(2) s show ?case by (fastforce split: prod.splits)
qed

theorem wait_list_refines_fifo_witness:
  "\<exists>outs st' l'. wl_run wl_exec (\<lambda>a. waiter_callback a 0, wl_empty) [WlPush 1, WlPush 2, WlPush 3, WlCancel 2, WlPop, WlPop] = (outs, st', l')
    \<and> outs = [WlPushed, WlPushed, WlPushed, WlCancelled True, WlPopped (Some 1), WlPopped (Some 3)] \<and> wl_rep st' l' []"
proof -
  have "wl_rep (\<lambda>a. waiter_callback a 0) wl_empty []" by (rule wl_rep_empty) (simp add: waiter_callback_def)
  from wait_list_refines_fifo [OF this, of "[WlPush 1, WlPush 2, WlPush 3, WlCancel 2, WlPop, WlPop]"]
  show ?thesis by simp
qed

end
