(* ===== verification/Semaphore.thy ===== *)
theory Semaphore
  imports Wait_List Step_System
begin

text \<open>
  \<^verbatim>\<open>sync/Semaphore\<close> and \<^verbatim>\<open>sync/Mutex\<close>.  First every operation as one critical section on the
  permits, the waiter count and the intrusive waiter list; then the same operations cut into
  their sequentially consistent accesses and interleaved between any number of threads, which
  is where the announce-then-recheck argument against lost wakeups is proved.  Permits are 64-bit
  words, and \<^verbatim>\<open>release\<close> wraps; the waiter count is bounded by the objects that wait.
\<close>

section \<open>Operations\<close>

record semaphore =
  sem_permits :: u64
  sem_waiterCount :: nat
  sem_waiters :: wait_list
  sem_store :: wstore

definition sem_new :: "u64 \<Rightarrow> wstore \<Rightarrow> semaphore" where
  "sem_new initialPermits st = \<lparr>sem_permits = initialPermits, sem_waiterCount = 0, sem_waiters = wl_empty, sem_store = st\<rparr>"

definition sem_tryAcquire :: "semaphore \<Rightarrow> bool \<times> semaphore" where
  "sem_tryAcquire s = (if sem_permits s > 0 then (True, s\<lparr>sem_permits := sem_permits s - 1\<rparr>) else (False, s))"

definition sem_push :: "semaphore \<Rightarrow> addr \<Rightarrow> semaphore" where
  "sem_push s a = (case pushBack (sem_store s) (sem_waiters s) a of (st, l) \<Rightarrow> s\<lparr>sem_store := st, sem_waiters := l\<rparr>)"

text \<open>Up to the point where the caller blocks: True means a permit was taken.  The waiter is a
  fresh object on the caller's stack.\<close>

definition sem_acquireSlow :: "semaphore \<Rightarrow> addr \<Rightarrow> waiter \<Rightarrow> bool \<times> semaphore" where
  "sem_acquireSlow s a w =
     (let s0 = s\<lparr>sem_store := (sem_store s)(a := w)\<rparr>;
          s1 = s0\<lparr>sem_waiterCount := sem_waiterCount s0 + 1\<rparr>
      in case sem_tryAcquire s1 of
           (True, s2) \<Rightarrow> (True, s2\<lparr>sem_waiterCount := sem_waiterCount s2 - 1\<rparr>)
         | (False, s2) \<Rightarrow> (False, sem_push s2 a))"

definition sem_acquire :: "semaphore \<Rightarrow> addr \<Rightarrow> waiter \<Rightarrow> bool \<times> semaphore" where
  "sem_acquire s a w = (case sem_tryAcquire s of (True, s') \<Rightarrow> (True, s') | (False, s') \<Rightarrow> sem_acquireSlow s' a w)"

text \<open>A forced unwind out of the wait; the flag says whether the notifier has to be awaited.\<close>

definition sem_unwind :: "semaphore \<Rightarrow> addr \<Rightarrow> bool \<times> semaphore" where
  "sem_unwind s a =
     (case waitGuard_destroy True (sem_store s) (sem_waiters s) a of (unlinked, await, st, l) \<Rightarrow>
        (await, s\<lparr>sem_store := st, sem_waiters := l,
                  sem_waiterCount := (if unlinked then sem_waiterCount s - 1 else sem_waiterCount s)\<rparr>))"

definition sem_acquireOrEnqueue :: "semaphore \<Rightarrow> addr \<Rightarrow> EnqueueResult \<times> semaphore" where
  "sem_acquireOrEnqueue s a =
     (case sem_tryAcquire s of
        (True, s') \<Rightarrow> (Ready, s')
      | (False, s0) \<Rightarrow>
          if w_cancelled (sem_store s0 a) then (Cancelled, s0)
          else let s1 = s0\<lparr>sem_waiterCount := sem_waiterCount s0 + 1\<rparr> in
               case sem_tryAcquire s1 of
                 (True, s2) \<Rightarrow> (Ready, s2\<lparr>sem_waiterCount := sem_waiterCount s2 - 1\<rparr>)
               | (False, s2) \<Rightarrow> (Enqueued, sem_push s2 a))"

definition sem_cancel :: "semaphore \<Rightarrow> addr \<Rightarrow> bool \<times> semaphore" where
  "sem_cancel s a =
     (case cancelWaiter (sem_store s) (sem_waiters s) a of (r, st, l) \<Rightarrow>
        (r, s\<lparr>sem_store := st, sem_waiters := l,
              sem_waiterCount := (if r then sem_waiterCount s - 1 else sem_waiterCount s)\<rparr>))"

text \<open>\<open>lastp\<close> points to \<open>first\<close> (None) or to the \<open>next\<close> field of a waiter.\<close>

definition writeLast :: "addr option \<Rightarrow> wstore \<Rightarrow> addr option \<Rightarrow> addr option \<Rightarrow> addr option \<times> wstore" where
  "writeLast first st lastp v = (case lastp of None \<Rightarrow> (v, st) | Some b \<Rightarrow> (first, st(b := (st b)\<lparr>w_next := v\<rparr>)))"

partial_function (option) sem_handOut :: "semaphore \<Rightarrow> addr option \<Rightarrow> addr option \<Rightarrow> (semaphore \<times> addr option \<times> addr option) option" where
  "sem_handOut s first lastp =
     (if wl_isEmpty (sem_waiters s) then Some (s, first, lastp)
      else if sem_permits s = 0 then Some (s, first, lastp)
      else case popFront (sem_store s) (sem_waiters s) of
          (None, st, l) \<Rightarrow> Some (s, first, lastp)
        | (Some a, st, l) \<Rightarrow>
            (case writeLast first st lastp (Some a) of (first', st') \<Rightarrow>
               sem_handOut (s\<lparr>sem_permits := sem_permits s - 1, sem_store := st', sem_waiters := l,
                              sem_waiterCount := sem_waiterCount s - 1\<rparr>) first' (Some a)))"

declare sem_handOut.simps [code]

definition sem_release :: "semaphore \<Rightarrow> (wake_event list \<times> semaphore) option" where
  "sem_release s =
     (let s1 = s\<lparr>sem_permits := sem_permits s + 1\<rparr> in
      if sem_waiterCount s1 = 0 then Some ([], s1)
      else case sem_handOut s1 None None of None \<Rightarrow> None
         | Some (s2, first, lastp) \<Rightarrow>
             (case writeLast first (sem_store s2) lastp None of (first', st) \<Rightarrow>
                (case notifyChain st first' [] of None \<Rightarrow> None
                 | Some (events, st') \<Rightarrow> Some (events, s2\<lparr>sem_store := st'\<rparr>))))"

definition sem_available :: "semaphore \<Rightarrow> u64" where
  "sem_available s = sem_permits s"

section \<open>Mutex\<close>

type_synonym mutex = semaphore

definition mutex_new :: "wstore \<Rightarrow> mutex" where
  "mutex_new st = sem_new 1 st"

definition mutex_lock :: "mutex \<Rightarrow> addr \<Rightarrow> waiter \<Rightarrow> bool \<times> mutex" where
  "mutex_lock m a w = sem_acquire m a w"

definition mutex_tryLock :: "mutex \<Rightarrow> bool \<times> mutex" where
  "mutex_tryLock m = sem_tryAcquire m"

definition mutex_unlock :: "mutex \<Rightarrow> (wake_event list \<times> mutex) option" where
  "mutex_unlock m = sem_release m"

definition mutex_lockOrEnqueue :: "mutex \<Rightarrow> addr \<Rightarrow> EnqueueResult \<times> mutex" where
  "mutex_lockOrEnqueue m a = sem_acquireOrEnqueue m a"

definition mutex_cancel :: "mutex \<Rightarrow> addr \<Rightarrow> bool \<times> mutex" where
  "mutex_cancel m a = sem_cancel m a"

section \<open>The queue of waiters\<close>

lemma permits_pos: "(0 :: u64) < p \<longleftrightarrow> p \<noteq> 0"
  by (metis word_gt_0)

definition sem_rep :: "semaphore \<Rightarrow> addr list \<Rightarrow> bool" where
  "sem_rep s xs \<longleftrightarrow> wl_rep (sem_store s) (sem_waiters s) xs \<and> sem_waiterCount s = length xs
     \<and> (sem_permits s > 0 \<longrightarrow> xs = [])"

lemma wchain_snoc:
  assumes "wchain st ts first" "ts \<noteq> []" "distinct (ts @ [a])" "w_next (st a) = None"
  shows "wchain (st(last ts := (st (last ts))\<lparr>w_next := Some a\<rparr>)) (ts @ [a]) first"
  using assms
proof (induction ts arbitrary: first)
  case (Cons t ts)
  show ?case
  proof (cases "ts = []")
    case True
    with Cons.prems show ?thesis by simp
  next
    case False
    with Cons.prems have "last ts \<noteq> t" by (metis append_Cons distinct.simps(2) in_set_conv_decomp last_in_set UnCI set_append)
    with False Cons show ?thesis by simp
  qed
qed simp

lemma wl_unlink_next_self: "wl_unlink st l a = (st', l') \<Longrightarrow> w_next (st' a) = None"
  by (auto simp: wl_unlink_def Let_def split: option.splits)

lemma popFront_next:
  assumes "wl_rep st l (x # xs)" "popFront st l = (r, st', l')"
  shows "r = Some x" "wl_rep st' l' xs" "same_waiters st st'" "w_next (st' x) = None"
    "\<And>y. y \<notin> set (x # xs) \<Longrightarrow> w_next (st' y) = w_next (st y)"
proof -
  show "r = Some x" "wl_rep st' l' xs" "same_waiters st st'"
    using popFront_rep [OF assms(1)] assms(2) by auto
  have u: "wl_unlink st l x = (st', l')"
    using assms by (auto simp: popFront_def wl_rep_def split: prod.splits)
  show "w_next (st' x) = None" by (rule wl_unlink_next_self [OF u])
  show "\<And>y. y \<notin> set (x # xs) \<Longrightarrow> w_next (st' y) = w_next (st y)"
    using wl_unlink_next_other [of st l "[]" x xs] assms(1) u by simp
qed

lemma sem_handOut_law:
  assumes "wl_rep (sem_store s) (sem_waiters s) xs" "sem_waiterCount s = length xs"
    "wchain (sem_store s) ts first" "distinct (ts @ xs)" "lst = lastOr None ts"
  shows "\<exists>s' first'. sem_handOut s first lst = Some (s', first', lastOr None (ts @ take (unat (sem_permits s)) xs))
    \<and> wchain (sem_store s') (ts @ take (unat (sem_permits s)) xs) first'
    \<and> wl_rep (sem_store s') (sem_waiters s') (drop (unat (sem_permits s)) xs)
    \<and> sem_waiterCount s' = length xs - unat (sem_permits s) \<and> unat (sem_permits s') = unat (sem_permits s) - length xs
    \<and> same_waiters (sem_store s) (sem_store s')"
  using assms
proof (induction xs arbitrary: s ts first lst)
  case Nil
  then show ?case by (subst sem_handOut.simps) (simp add: wl_rep_isEmpty [OF Nil(1)])
next
  case (Cons x xs)
  have ne: "\<not> wl_isEmpty (sem_waiters s)" using wl_rep_isEmpty [OF Cons.prems(1)] by simp
  show ?case
  proof (cases "sem_permits s = 0")
    case True
    with Cons.prems ne show ?thesis by (subst sem_handOut.simps) simp
  next
    case False
    obtain r st1 l1 where p: "popFront (sem_store s) (sem_waiters s) = (r, st1, l1)" by (cases "popFront (sem_store s) (sem_waiters s)")
    note pf = popFront_next [OF Cons.prems(1) p]
    have ts1: "wchain st1 ts first" using Cons.prems(3,4) pf(5) by (subst wchain_cong [of _ _ "sem_store s"]) (auto intro!: pf(5))
    obtain first2 st2 where wr: "writeLast first st1 lst (Some x) = (first2, st2)" by (cases "writeLast first st1 lst (Some x)")
    have st2: "wchain st2 (ts @ [x]) first2" "wl_rep st2 l1 xs" "same_waiters (sem_store s) st2"
    proof -
      show "wchain st2 (ts @ [x]) first2"
      proof (cases "ts = []")
        case True
        then show ?thesis using wr pf(4) Cons.prems(5) by (auto simp: writeLast_def)
      next
        case False
        then show ?thesis using wchain_snoc [OF ts1 False, of x] wr pf(4) Cons.prems(4,5)
          by (auto simp: writeLast_def lastOr_def)
      qed
      have "last ts \<notin> set xs" if "ts \<noteq> []" using last_in_set [OF that] Cons.prems(4) by auto
      then show "wl_rep st2 l1 xs" using wr pf(2) wl_rep_upd_next [OF pf(2)] Cons.prems(5)
        by (cases "ts = []") (auto simp: writeLast_def lastOr_def)
      have "same_waiters st1 st2" using wr by (auto simp: writeLast_def same_waiters_def split: option.splits)
      with pf(3) show "same_waiters (sem_store s) st2" by (rule same_waiters_trans)
    qed
    let ?s2 = "s\<lparr>sem_permits := sem_permits s - 1, sem_store := st2, sem_waiters := l1, sem_waiterCount := sem_waiterCount s - 1\<rparr>"
    have step: "sem_handOut s first lst = sem_handOut ?s2 first2 (Some x)"
      using ne False p pf(1) wr by (subst sem_handOut.simps) simp
    obtain k where k: "unat (sem_permits s) = Suc k" using False by (cases "unat (sem_permits s)") (auto simp: unat_eq_0)
    have k2: "unat (sem_permits ?s2) = k" using k False by (simp add: unat_minus_one)
    have "\<exists>s' first'. sem_handOut ?s2 first2 (Some x) = Some (s', first', lastOr None ((ts @ [x]) @ take (unat (sem_permits ?s2)) xs))
      \<and> wchain (sem_store s') ((ts @ [x]) @ take (unat (sem_permits ?s2)) xs) first'
      \<and> wl_rep (sem_store s') (sem_waiters s') (drop (unat (sem_permits ?s2)) xs)
      \<and> sem_waiterCount s' = length xs - unat (sem_permits ?s2) \<and> unat (sem_permits s') = unat (sem_permits ?s2) - length xs
      \<and> same_waiters (sem_store ?s2) (sem_store s')"
      using st2 Cons.prems(2,4) by (intro Cons.IH) simp_all
    then show ?thesis using st2(3) by (simp only: k2 k step) (auto intro: same_waiters_trans)
  qed
qed

lemma sem_release_law:
  assumes "sem_rep s xs"
  shows "\<exists>s'. sem_release s = Some (map (\<lambda>a. fst (waiter_notify (sem_store s) a)) (take 1 xs), s')
    \<and> sem_rep s' (drop 1 xs) \<and> sem_permits s' = (if xs = [] then sem_permits s + 1 else 0)"
proof (cases "xs = []")
  case True
  with assms show ?thesis by (simp add: sem_release_def sem_rep_def)
next
  case False
  with assms have p0: "sem_permits s = 0" by (auto simp: sem_rep_def permits_pos)
  let ?s1 = "s\<lparr>sem_permits := sem_permits s + 1\<rparr>"
  have "wl_rep (sem_store ?s1) (sem_waiters ?s1) xs" "sem_waiterCount ?s1 = length xs" "wchain (sem_store ?s1) [] None"
    "distinct ([] @ xs)" using assms by (auto simp: sem_rep_def wl_rep_def)
  from sem_handOut_law [OF this, of None] obtain s2 first where
    h: "sem_handOut ?s1 None None = Some (s2, first, lastOr None (take 1 xs))" "wchain (sem_store s2) (take 1 xs) first"
    "wl_rep (sem_store s2) (sem_waiters s2) (drop 1 xs)" "sem_waiterCount s2 = length xs - 1"
    "unat (sem_permits s2) = 1 - length xs" "same_waiters (sem_store s) (sem_store s2)" by (auto simp: p0)
  obtain x ys where xs: "xs = x # ys" using False by (cases xs) auto
  have p2: "sem_permits s2 = 0" using h(5) by (simp add: xs unat_eq_0)
  have x: "x \<notin> set ys" using assms by (simp add: sem_rep_def wl_rep_def xs)
  let ?st = "(sem_store s2)(x := (sem_store s2 x)\<lparr>w_next := None\<rparr>)"
  have wr: "writeLast first (sem_store s2) (lastOr None (take 1 xs)) None = (first, ?st)"
    by (simp add: writeLast_def xs)
  have "wchain ?st (take 1 xs) first" using h(2) by (simp add: xs)
  note nc = notifyChain_law [OF this, of "[]"]
  have ev: "fst (waiter_notify ?st x) = fst (waiter_notify (sem_store s) x)"
  proof (rule notify_event_same)
    show "same_waiters (sem_store s) ?st" using h(6) by (simp add: same_waiters_def)
  qed
  have "wl_rep (satisfy ?st (set (take 1 xs))) (sem_waiters s2) (drop 1 xs)"
    unfolding wl_rep_satisfy using wl_rep_upd_next [OF h(3), of x None] x by (simp add: xs)
  then show ?thesis
    using h(1,4) p2 wr nc ev False assms by (simp add: sem_release_def Let_def sem_rep_def xs)
qed

lemma wl_rep_fresh:
  assumes "wl_rep st l xs" "a \<notin> set xs" "\<not> w_linked w"
  shows "wl_rep (st(a := w)) l xs"
proof -
  have "dll (st(a := w)) None xs None = dll st None xs None"
    using assms(2) by (intro dll_cong) auto
  with assms show ?thesis by (auto simp: wl_rep_def)
qed

lemma sem_push_rep:
  assumes "wl_rep (sem_store s) (sem_waiters s) xs" "a \<notin> set xs"
  shows "wl_rep (sem_store (sem_push s a)) (sem_waiters (sem_push s a)) (xs @ [a])"
    "sem_permits (sem_push s a) = sem_permits s" "sem_waiterCount (sem_push s a) = sem_waiterCount s"
  using pushBack_rep [OF assms] by (simp_all add: sem_push_def split: prod.splits)

lemma sem_acquire_law:
  assumes "sem_rep s xs" "a \<notin> set xs" "\<not> w_linked w"
  shows "case sem_acquire s a w of (got, s') \<Rightarrow> (got \<longleftrightarrow> sem_permits s > 0)
    \<and> sem_rep s' (if got then xs else xs @ [a]) \<and> sem_permits s' = (if got then sem_permits s - 1 else sem_permits s)"
proof (cases "sem_permits s > 0")
  case True
  with assms show ?thesis by (auto simp: sem_acquire_def sem_tryAcquire_def sem_rep_def)
next
  case False
  let ?s1 = "s\<lparr>sem_store := (sem_store s)(a := w), sem_waiterCount := Suc (sem_waiterCount s)\<rparr>"
  have "wl_rep (sem_store ?s1) (sem_waiters ?s1) xs"
    using wl_rep_fresh assms by (simp add: sem_rep_def)
  note push = sem_push_rep [OF this assms(2)]
  have "sem_acquire s a w = (False, sem_push ?s1 a)"
    using False by (simp add: sem_acquire_def sem_acquireSlow_def sem_tryAcquire_def Let_def)
  then show ?thesis using push assms(1) False by (simp add: sem_rep_def)
qed

lemma sem_acquireOrEnqueue_law:
  assumes "sem_rep s xs" "a \<notin> set xs"
  shows "case sem_acquireOrEnqueue s a of (r, s') \<Rightarrow>
    r = (if sem_permits s > 0 then Ready else if w_cancelled (sem_store s a) then Cancelled else Enqueued)
    \<and> sem_rep s' (if r = Enqueued then xs @ [a] else xs) \<and> sem_permits s' = sem_permits s - (if r = Ready then 1 else 0)"
proof (cases "sem_permits s > 0")
  case True
  with assms show ?thesis by (auto simp: sem_acquireOrEnqueue_def sem_tryAcquire_def sem_rep_def)
next
  case False
  let ?s1 = "s\<lparr>sem_waiterCount := Suc (sem_waiterCount s)\<rparr>"
  have "wl_rep (sem_store ?s1) (sem_waiters ?s1) xs" using assms by (simp add: sem_rep_def)
  note push = sem_push_rep [OF this assms(2)]
  show ?thesis using push assms(1) False
    by (simp add: sem_acquireOrEnqueue_def sem_tryAcquire_def Let_def sem_rep_def)
qed

lemma sem_cancel_law:
  assumes "sem_rep s xs"
  shows "case sem_cancel s a of (r, s') \<Rightarrow> (r \<longleftrightarrow> a \<in> set xs) \<and> sem_rep s' (removeAll a xs)
    \<and> sem_permits s' = sem_permits s"
proof -
  obtain r st l where c: "cancelWaiter (sem_store s) (sem_waiters s) a = (r, st, l)"
    by (cases "cancelWaiter (sem_store s) (sem_waiters s) a")
  from assms have rep: "wl_rep (sem_store s) (sem_waiters s) xs" by (simp add: sem_rep_def)
  then have "distinct xs" by (simp add: wl_rep_def)
  then have "length (removeAll a xs) = length xs - (if a \<in> set xs then 1 else 0)"
    by (simp add: distinct_remove1_removeAll [symmetric] length_remove1)
  with cancelWaiter_rep [OF rep c] assms c show ?thesis by (auto simp: sem_cancel_def sem_rep_def)
qed

section \<open>Conservation of permits\<close>

datatype sem_op = SAcquire addr | SEnqueue addr | STryAcquire | SRelease | SCancel addr

text \<open>How many permits an operation handed to somebody.\<close>

fun sem_exec :: "(addr \<Rightarrow> waiter) \<Rightarrow> semaphore \<Rightarrow> sem_op \<Rightarrow> (nat \<times> semaphore) option" where
  "sem_exec new s (SAcquire a) = (case sem_acquire s a (new a) of (got, s') \<Rightarrow> Some (if got then 1 else 0, s'))"
| "sem_exec new s (SEnqueue a) = (case sem_acquireOrEnqueue s a of (r, s') \<Rightarrow> Some (if r = Ready then 1 else 0, s'))"
| "sem_exec new s STryAcquire = (case sem_tryAcquire s of (got, s') \<Rightarrow> Some (if got then 1 else 0, s'))"
| "sem_exec new s SRelease = (case sem_release s of None \<Rightarrow> None | Some (events, s') \<Rightarrow> Some (length events, s'))"
| "sem_exec new s (SCancel a) = (case sem_cancel s a of (r, s') \<Rightarrow> Some (0, s'))"

fun sem_run :: "(addr \<Rightarrow> waiter) \<Rightarrow> semaphore \<Rightarrow> sem_op list \<Rightarrow> (nat \<times> semaphore) option" where
  "sem_run new s [] = Some (0, s)"
| "sem_run new s (op # ops) =
     (case sem_exec new s op of None \<Rightarrow> None
      | Some (n, s1) \<Rightarrow> (case sem_run new s1 ops of None \<Rightarrow> None | Some (m, s2) \<Rightarrow> Some (n + m, s2)))"

text \<open>No waiter is queued a second time while it is linked, and fresh waiters are unlinked.\<close>

fun sem_legal :: "semaphore \<Rightarrow> sem_op \<Rightarrow> bool" where
  "sem_legal s (SAcquire a) \<longleftrightarrow> \<not> w_linked (sem_store s a)"
| "sem_legal s (SEnqueue a) \<longleftrightarrow> \<not> w_linked (sem_store s a)"
| "sem_legal s _ \<longleftrightarrow> True"

fun sem_legal_run :: "(addr \<Rightarrow> waiter) \<Rightarrow> semaphore \<Rightarrow> sem_op list \<Rightarrow> bool" where
  "sem_legal_run new s [] \<longleftrightarrow> True"
| "sem_legal_run new s (op # ops) \<longleftrightarrow> sem_legal s op
     \<and> (case sem_exec new s op of None \<Rightarrow> True | Some (n, s1) \<Rightarrow> sem_legal_run new s1 ops)"

definition sem_released :: "sem_op list \<Rightarrow> nat" where
  "sem_released ops = length (filter (\<lambda>op. op = SRelease) ops)"

text \<open>Permits are added modulo the word size: what is handed out and left is what was there and
  came, exactly unless the counter wraps, and never more.\<close>

definition permits_move :: "semaphore \<Rightarrow> nat \<Rightarrow> semaphore \<Rightarrow> nat \<Rightarrow> bool" where
  "permits_move s granted s' released \<longleftrightarrow> sem_permits s' + of_nat granted = sem_permits s + of_nat released
     \<and> unat (sem_permits s') + granted \<le> unat (sem_permits s) + released"

lemma permits_move_idle [simp]: "sem_permits s' = sem_permits s \<Longrightarrow> permits_move s 0 s' 0"
  by (simp add: permits_move_def)

lemma permits_move_take: "sem_permits s > 0 \<Longrightarrow> sem_permits s' = sem_permits s - 1 \<Longrightarrow> permits_move s 1 s' 0"
  by (auto simp: permits_move_def unat_minus_one word_gt_0 unat_gt_0 Suc_le_eq)

lemma permits_move_free: "sem_permits s' = sem_permits s + 1 \<Longrightarrow> permits_move s 0 s' 1"
  using unat_plus_simple [of "sem_permits s" 1] by (auto simp: permits_move_def unat_word_ariths)

lemma permits_move_hand: "sem_permits s = 0 \<Longrightarrow> sem_permits s' = 0 \<Longrightarrow> permits_move s 1 s' 1"
  by (simp add: permits_move_def)

lemma permits_move_trans: "permits_move s m s1 a \<Longrightarrow> permits_move s1 n s2 b \<Longrightarrow> permits_move s (m + n) s2 (a + b)"
  by (auto simp: permits_move_def algebra_simps)

lemma permits_move_exact:
  assumes "permits_move s n s' r" "unat (sem_permits s) + r < 2 ^ 64"
  shows "unat (sem_permits s') + n = unat (sem_permits s) + r"
proof -
  let ?l = "unat (sem_permits s') + n" and ?r = "unat (sem_permits s) + r"
  have "(of_nat ?l :: u64) = of_nat ?r" using assms(1) by (simp add: permits_move_def)
  then have "unat (of_nat ?l :: u64) = unat (of_nat ?r :: u64)" by (rule arg_cong)
  moreover have "?l < 2 ^ 64" using assms by (simp add: permits_move_def)
  ultimately show ?thesis using assms(2) by (simp add: unat_of_nat del: of_nat_add)
qed

lemma sem_exec_law:
  assumes "sem_rep s xs" "sem_legal s op" "\<And>a. \<not> w_linked (new a)"
  shows "\<exists>n s' xs'. sem_exec new s op = Some (n, s') \<and> sem_rep s' xs'
    \<and> permits_move s n s' (if op = SRelease then 1 else 0)"
proof -
  have linked: "\<And>a. w_linked (sem_store s a) \<longleftrightarrow> a \<in> set xs"
    using assms(1) by (simp add: sem_rep_def wl_rep_def)
  show ?thesis
proof (cases op)
  case (SAcquire a)
  with linked assms sem_acquire_law [OF assms(1), of a "new a"] permits_move_take [of s] show ?thesis
    by (fastforce split: prod.splits)
next
  case (SEnqueue a)
  with linked assms sem_acquireOrEnqueue_law [OF assms(1), of a] permits_move_take [of s] show ?thesis
    by (fastforce split: prod.splits if_splits)
next
  case STryAcquire
  with assms(1) permits_move_take [of s] show ?thesis by (fastforce simp: sem_tryAcquire_def sem_rep_def)
next
  case SRelease
  from sem_release_law [OF assms(1)] obtain s' where
    r: "sem_release s = Some (map (\<lambda>a. fst (waiter_notify (sem_store s) a)) (take 1 xs), s')"
    "sem_rep s' (drop 1 xs)" "sem_permits s' = (if xs = [] then sem_permits s + 1 else 0)" by blast
  moreover have "xs \<noteq> [] \<Longrightarrow> sem_permits s = 0" using assms(1) by (auto simp: sem_rep_def permits_pos)
  ultimately show ?thesis using SRelease permits_move_free [of s' s] permits_move_hand [of s s'] by (cases xs) auto
next
  case (SCancel a)
  with sem_cancel_law [OF assms(1), of a] show ?thesis by (auto split: prod.splits)
qed
qed

lemma sem_run_law:
  assumes "sem_rep s xs" "sem_legal_run new s ops" "\<And>a. \<not> w_linked (new a)"
  shows "\<exists>n s' xs'. sem_run new s ops = Some (n, s') \<and> sem_rep s' xs'
    \<and> permits_move s n s' (sem_released ops)"
  using assms
proof (induction ops arbitrary: s xs)
  case Nil
  then show ?case by (auto simp: sem_released_def)
next
  case (Cons op ops)
  from sem_exec_law [where new = new, OF Cons.prems(1), of op] Cons.prems(2,3) obtain n s1 xs1 where
    e: "sem_exec new s op = Some (n, s1)" "sem_rep s1 xs1"
    "permits_move s n s1 (if op = SRelease then 1 else 0)" by auto
  from Cons.IH [OF e(2)] Cons.prems(2,3) e(1) obtain m s2 xs2 where
    "sem_run new s1 ops = Some (m, s2)" "sem_rep s2 xs2" "permits_move s1 m s2 (sem_released ops)" by auto
  with e permits_move_trans [OF e(3), of m s2] show ?case by (auto simp: sem_released_def)
qed

section \<open>Interleaved acquirers and releasers\<close>

text \<open>
  One step is one sequentially consistent access (or one change of the lock-protected list).
  Acquirers: \<open>AFailed\<close> found no permit, \<open>ALocked\<close> holds the lock, \<open>AAnnounced\<close> has
  incremented the waiter count, \<open>ATaken\<close> and \<open>AMissed\<close> have re-checked the permits, \<open>AWaiting\<close>
  is queued and parked, \<open>AGranted\<close> was taken off the list and not yet notified.  Releasers:
  \<open>RAdded\<close> has added its permit, \<open>RSaw\<close> read a non-zero count, \<open>RHanding\<close> holds the lock,
  \<open>RNotify\<close> notifies what it detached.
\<close>

datatype sem_pc = SIdle | AFailed | ALocked | AAnnounced | ATaken | AMissed | AWaiting | AGranted
  | RAdded | RSaw | RHanding | RNotify

record sem_sys =
  sy_permits :: u64
  sy_count :: nat
  sy_lock :: "nat option"
  sy_queue :: "nat list"
  sy_chain :: "nat \<Rightarrow> nat list"
  sy_pc :: "nat \<Rightarrow> sem_pc"

definition sy_goto :: "sem_sys \<Rightarrow> nat \<Rightarrow> sem_pc \<Rightarrow> sem_sys" where
  "sy_goto s t p = s\<lparr>sy_pc := (sy_pc s)(t := p)\<rparr>"

inductive sem_step :: "sem_sys \<Rightarrow> sem_sys \<Rightarrow> bool" where
  acq_fast: "sy_pc s t = SIdle \<Longrightarrow> sy_permits s > 0 \<Longrightarrow> sem_step s (s\<lparr>sy_permits := sy_permits s - 1\<rparr>)"
| acq_miss: "sy_pc s t = SIdle \<Longrightarrow> sy_permits s = 0 \<Longrightarrow> sem_step s (sy_goto s t AFailed)"
| acq_lock: "sy_pc s t = AFailed \<Longrightarrow> sy_lock s = None \<Longrightarrow> sem_step s (sy_goto (s\<lparr>sy_lock := Some t\<rparr>) t ALocked)"
| acq_announce: "sy_pc s t = ALocked \<Longrightarrow> sem_step s (sy_goto (s\<lparr>sy_count := sy_count s + 1\<rparr>) t AAnnounced)"
| acq_retake: "sy_pc s t = AAnnounced \<Longrightarrow> sy_permits s > 0 \<Longrightarrow>
    sem_step s (sy_goto (s\<lparr>sy_permits := sy_permits s - 1\<rparr>) t ATaken)"
| acq_recheck: "sy_pc s t = AAnnounced \<Longrightarrow> sy_permits s = 0 \<Longrightarrow> sem_step s (sy_goto s t AMissed)"
| acq_leave: "sy_pc s t = ATaken \<Longrightarrow>
    sem_step s (sy_goto (s\<lparr>sy_count := sy_count s - 1, sy_lock := None\<rparr>) t SIdle)"
| acq_queue: "sy_pc s t = AMissed \<Longrightarrow>
    sem_step s (sy_goto (s\<lparr>sy_queue := sy_queue s @ [t], sy_lock := None\<rparr>) t AWaiting)"
| acq_cancel: "sy_pc s t = AWaiting \<Longrightarrow> sy_lock s = None \<Longrightarrow>
    sem_step s (sy_goto (s\<lparr>sy_queue := removeAll t (sy_queue s), sy_count := sy_count s - 1\<rparr>) t SIdle)"
| rel_add: "sy_pc s t = SIdle \<Longrightarrow> sem_step s (sy_goto (s\<lparr>sy_permits := sy_permits s + 1\<rparr>) t RAdded)"
| rel_none: "sy_pc s t = RAdded \<Longrightarrow> sy_count s = 0 \<Longrightarrow> sem_step s (sy_goto s t SIdle)"
| rel_saw: "sy_pc s t = RAdded \<Longrightarrow> sy_count s \<noteq> 0 \<Longrightarrow> sem_step s (sy_goto s t RSaw)"
| rel_lock: "sy_pc s t = RSaw \<Longrightarrow> sy_lock s = None \<Longrightarrow>
    sem_step s (sy_goto (s\<lparr>sy_lock := Some t, sy_chain := (sy_chain s)(t := [])\<rparr>) t RHanding)"
| rel_hand: "sy_pc s t = RHanding \<Longrightarrow> sy_queue s = u # q \<Longrightarrow> sy_permits s > 0 \<Longrightarrow>
    sem_step s (sy_goto (s\<lparr>sy_permits := sy_permits s - 1, sy_count := sy_count s - 1, sy_queue := q,
      sy_chain := (sy_chain s)(t := sy_chain s t @ [u])\<rparr>) u AGranted)"
| rel_stop: "sy_pc s t = RHanding \<Longrightarrow> sy_queue s = [] \<or> sy_permits s = 0 \<Longrightarrow>
    sem_step s (sy_goto (s\<lparr>sy_lock := None\<rparr>) t RNotify)"
| rel_notify: "sy_pc s t = RNotify \<Longrightarrow> sy_chain s t = u # us \<Longrightarrow> sy_pc s u = AGranted \<Longrightarrow>
    sem_step s (sy_goto (s\<lparr>sy_chain := (sy_chain s)(t := us)\<rparr>) u SIdle)"
| rel_done: "sy_pc s t = RNotify \<Longrightarrow> sy_chain s t = [] \<Longrightarrow> sem_step s (sy_goto s t SIdle)"

definition sem_init :: "sem_sys \<Rightarrow> bool" where
  "sem_init s \<longleftrightarrow> sy_count s = 0 \<and> sy_lock s = None \<and> sy_queue s = [] \<and> (\<forall>t. sy_chain s t = []) \<and> (\<forall>t. sy_pc s t = SIdle)"

definition pc_locked :: "sem_pc \<Rightarrow> bool" where
  "pc_locked p \<longleftrightarrow> p \<in> {ALocked, AAnnounced, ATaken, AMissed, RHanding}"

definition pc_announced :: "sem_pc \<Rightarrow> bool" where
  "pc_announced p \<longleftrightarrow> p \<in> {AAnnounced, ATaken, AMissed}"

definition pc_releasing :: "sem_pc \<Rightarrow> bool" where
  "pc_releasing p \<longleftrightarrow> p \<in> {RAdded, RSaw, RHanding}"

definition sy_announced :: "sem_sys \<Rightarrow> nat" where
  "sy_announced s = (if \<exists>t. sy_lock s = Some t \<and> pc_announced (sy_pc s t) then 1 else 0)"

text \<open>Somebody is waiting, or is about to queue itself after its re-check failed.\<close>

definition sy_needs :: "sem_sys \<Rightarrow> bool" where
  "sy_needs s \<longleftrightarrow> sy_queue s \<noteq> [] \<or> (\<exists>u. sy_pc s u = AMissed)"

definition sem_sys_inv :: "sem_sys \<Rightarrow> bool" where
  "sem_sys_inv s \<longleftrightarrow>
     (\<forall>t. pc_locked (sy_pc s t) \<longleftrightarrow> sy_lock s = Some t)
   \<and> sy_count s = length (sy_queue s) + sy_announced s
   \<and> distinct (sy_queue s) \<and> (\<forall>t. t \<in> set (sy_queue s) \<longleftrightarrow> sy_pc s t = AWaiting)
   \<and> (sy_permits s > 0 \<and> sy_needs s \<longrightarrow> (\<exists>t. pc_releasing (sy_pc s t)))"

lemmas pc_defs = pc_locked_def pc_announced_def pc_releasing_def

lemma sem_sys_invD:
  assumes "sem_sys_inv s"
  shows "\<And>t. pc_locked (sy_pc s t) \<longleftrightarrow> sy_lock s = Some t"
    "sy_count s = length (sy_queue s) + sy_announced s" "distinct (sy_queue s)"
    "\<And>t. t \<in> set (sy_queue s) \<longleftrightarrow> sy_pc s t = AWaiting"
    "sy_permits s > 0 \<Longrightarrow> sy_needs s \<Longrightarrow> \<exists>t. pc_releasing (sy_pc s t)"
  using assms unfolding sem_sys_inv_def by blast+

lemma sem_init_inv: "sem_init s \<Longrightarrow> sem_sys_inv s"
  by (simp add: sem_init_def sem_sys_inv_def pc_defs sy_announced_def sy_needs_def)

text \<open>What a step of one thread has to show.\<close>

lemma sem_inv_goto:
  assumes inv: "sem_sys_inv s" and pc: "sy_pc s' = (sy_pc s)(t := p)"
    and lock: "pc_locked p \<longleftrightarrow> sy_lock s' = Some t" "\<And>u. u \<noteq> t \<Longrightarrow> sy_lock s' = Some u \<longleftrightarrow> sy_lock s = Some u"
    and count: "sy_count s' = length (sy_queue s') + sy_announced s'"
    and queue: "distinct (sy_queue s')" "t \<in> set (sy_queue s') \<longleftrightarrow> p = AWaiting"
      "\<And>u. u \<noteq> t \<Longrightarrow> u \<in> set (sy_queue s') \<longleftrightarrow> u \<in> set (sy_queue s)"
    and rel: "sy_permits s' > 0 \<Longrightarrow> sy_needs s' \<Longrightarrow>
      pc_releasing p \<or> sy_permits s > 0 \<and> sy_needs s \<and> \<not> pc_releasing (sy_pc s t)"
  shows "sem_sys_inv s'"
proof -
  note d = sem_sys_invD [OF inv]
  have "\<exists>u. pc_releasing (sy_pc s' u)" if "sy_permits s' > 0" "sy_needs s'"
    using rel [OF that] d(5) unfolding pc by (metis fun_upd_apply)
  moreover have "pc_locked (sy_pc s' u) \<longleftrightarrow> sy_lock s' = Some u" "u \<in> set (sy_queue s') \<longleftrightarrow> sy_pc s' u = AWaiting" for u
    using lock queue d(1,4) by (cases "u = t"; simp add: pc)+
  ultimately show ?thesis using count queue(1) unfolding sem_sys_inv_def by blast
qed

lemmas sy_simps = sy_goto_def pc_defs sy_announced_def sy_needs_def

lemma sem_sys_miss: "sem_sys_inv s \<Longrightarrow> sy_pc s u = AMissed \<Longrightarrow> sy_lock s = Some u"
  using sem_sys_invD(1) [of s u] by (simp add: pc_locked_def)

lemma length_removeAll_distinct: "distinct xs \<Longrightarrow> x \<in> set xs \<Longrightarrow> length (removeAll x xs) = length xs - 1"
  by (simp add: distinct_remove1_removeAll [symmetric] length_remove1)

lemma sem_step_inv:
  assumes inv: "sem_sys_inv s" and "sem_step s s'"
  shows "sem_sys_inv s'"
proof -
  note d = sem_sys_invD(2-4) [OF inv] and l = sem_sys_invD(1) [OF inv]
  from assms(2) show ?thesis
  proof cases
    case (acq_fast t)
    then show ?thesis by (intro sem_inv_goto [OF inv, of _ t SIdle])
      (use d l [of t] in \<open>auto simp: sy_simps split: if_splits\<close>)
  next
    case (acq_miss t)
    then show ?thesis by (intro sem_inv_goto [OF inv, of _ t AFailed])
      (use d l [of t] in \<open>auto simp: sy_simps split: if_splits\<close>)
  next
    case (acq_lock t)
    then show ?thesis by (intro sem_inv_goto [OF inv, of _ t ALocked])
      (use d l [of t] in \<open>auto simp: sy_simps split: if_splits\<close>)
  next
    case (acq_announce t)
    then show ?thesis by (intro sem_inv_goto [OF inv, of _ t AAnnounced])
      (use d l [of t] in \<open>auto simp: sy_simps split: if_splits\<close>)
  next
    case (acq_retake t)
    then show ?thesis by (intro sem_inv_goto [OF inv, of _ t ATaken])
      (use d l [of t] in \<open>auto simp: sy_simps split: if_splits\<close>)
  next
    case (acq_recheck t)
    then show ?thesis by (intro sem_inv_goto [OF inv, of _ t AMissed])
      (use d l [of t] in \<open>auto simp: sy_simps split: if_splits\<close>)
  next
    case (acq_leave t)
    then show ?thesis by (intro sem_inv_goto [OF inv, of _ t SIdle])
      (use d l [of t] in \<open>auto simp: sy_simps split: if_splits\<close>)
  next
    case (acq_queue t)
    then show ?thesis by (intro sem_inv_goto [OF inv, of _ t AWaiting])
      (use d l [of t] in \<open>auto simp: sy_simps split: if_splits\<close>)
  next
    case (acq_cancel t)
    then show ?thesis by (intro sem_inv_goto [OF inv, of _ t SIdle])
      (use d l [of t] in \<open>auto simp: sy_simps distinct_removeAll length_removeAll_distinct split: if_splits\<close>)
  next
    case (rel_add t)
    then show ?thesis by (intro sem_inv_goto [OF inv, of _ t RAdded])
      (use d l [of t] in \<open>auto simp: sy_simps split: if_splits\<close>)
  next
    case (rel_none t)
    then show ?thesis by (intro sem_inv_goto [OF inv, of _ t SIdle])
      (use d l [of t] in \<open>auto simp: sy_simps split: if_splits dest: sem_sys_miss [OF inv]\<close>)
  next
    case (rel_saw t)
    then show ?thesis by (intro sem_inv_goto [OF inv, of _ t RSaw])
      (use d l [of t] in \<open>auto simp: sy_simps split: if_splits\<close>)
  next
    case (rel_lock t)
    then show ?thesis by (intro sem_inv_goto [OF inv, of _ t RHanding])
      (use d l [of t] in \<open>auto simp: sy_simps split: if_splits\<close>)
  next
    case (rel_hand t u q)
    then show ?thesis by (intro sem_inv_goto [OF inv, of _ u AGranted])
      (use d l [of t] l [of u] d(3) [of u] in \<open>auto simp: sy_simps split: if_splits\<close>)
  next
    case (rel_stop t)
    then show ?thesis by (intro sem_inv_goto [OF inv, of _ t RNotify])
      (use d l [of t] in \<open>auto simp: sy_simps split: if_splits dest: sem_sys_miss [OF inv]\<close>)
  next
    case (rel_notify t u us)
    then show ?thesis by (intro sem_inv_goto [OF inv, of _ u SIdle])
      (use d l [of t] l [of u] d(3) [of u] in \<open>auto simp: sy_simps split: if_splits\<close>)
  next
    case (rel_done t)
    then show ?thesis by (intro sem_inv_goto [OF inv, of _ t SIdle])
      (use d l [of t] in \<open>auto simp: sy_simps split: if_splits\<close>)
  qed
qed

interpretation sem: step_system sem_init sem_step sem_sys_inv
  by unfold_locales (fact sem_init_inv, fact sem_step_inv)

section \<open>Properties\<close>

text \<open>C6: no wakeup is lost: in every state that any interleaving of acquirers, releasers and
  cancellations reaches, a free permit beside a queued waiter (or one about to queue itself)
  means that some releaser is still between adding its permit and finishing its hand-out.  Once
  no release is in progress, no waiter sleeps while a permit is free.\<close>

theorem semaphore_no_lost_wakeup:
  assumes "sem_init s" "sem_step\<^sup>*\<^sup>* s s'" "\<And>t. sy_pc s' t \<notin> {RAdded, RSaw, RHanding}"
  shows "sy_permits s' = 0 \<or> sy_queue s' = [] \<and> (\<forall>t. sy_pc s' t \<noteq> AMissed \<and> sy_pc s' t \<noteq> AWaiting)"
proof -
  have inv: "sem_sys_inv s'" using sem.reachable_inv assms(1,2) .
  have "\<not> (\<exists>t. pc_releasing (sy_pc s' t))" using assms(3) by (auto simp: pc_releasing_def)
  with sem_sys_invD(5) [OF inv] have "sy_permits s' = 0 \<or> \<not> sy_needs s'" by (auto simp: permits_pos)
  with sem_sys_invD(4) [OF inv] show ?thesis by (auto simp: sy_needs_def)
qed

theorem semaphore_no_lost_wakeup_witness:
  "let s = \<lparr>sy_permits = 0, sy_count = 0, sy_lock = None, sy_queue = [], sy_chain = \<lambda>_. [], sy_pc = \<lambda>_. SIdle\<rparr>;
       s' = sy_goto s 7 AFailed
   in sem_step\<^sup>*\<^sup>* s s' \<and>
     (sy_permits s' = 0 \<or> sy_queue s' = [] \<and> (\<forall>t. sy_pc s' t \<noteq> AMissed \<and> sy_pc s' t \<noteq> AWaiting))"
proof -
  let ?s = "\<lparr>sy_permits = 0, sy_count = 0, sy_lock = None, sy_queue = [], sy_chain = \<lambda>_. [], sy_pc = \<lambda>_. SIdle\<rparr>"
  have init: "sem_init ?s" by (simp add: sem_init_def)
  have step: "sem_step\<^sup>*\<^sup>* ?s (sy_goto ?s 7 AFailed)"
    by (intro r_into_rtranclp sem_step.acq_miss) simp_all
  have "sy_permits (sy_goto ?s 7 AFailed) = 0 \<or> sy_queue (sy_goto ?s 7 AFailed) = []
      \<and> (\<forall>t. sy_pc (sy_goto ?s 7 AFailed) t \<noteq> AMissed \<and> sy_pc (sy_goto ?s 7 AFailed) t \<noteq> AWaiting)"
    by (rule semaphore_no_lost_wakeup [OF init step]) (simp add: sy_goto_def)
  with step show ?thesis by (simp add: Let_def)
qed

text \<open>C7: permits are conserved: over any legal sequence of acquisitions, queued acquisitions,
  attempts, releases and cancellations every call returns, the permits granted plus those left
  are the initial ones plus those released, modulo the 64 bits of the counter and exactly as long
  as the initial and the released permits together fit into it, and no waiter is left queued
  while a permit is free.\<close>

theorem semaphore_permits_conserved:
  assumes "sem_rep s xs" "sem_legal_run new s ops" "\<And>a. \<not> w_linked (new a)"
  shows "\<exists>granted s' xs'. sem_run new s ops = Some (granted, s')
    \<and> sem_available s' + of_nat granted = sem_available s + of_nat (sem_released ops)
    \<and> (unat (sem_available s) + sem_released ops < 2 ^ 64 \<longrightarrow> unat (sem_available s') + granted = unat (sem_available s) + sem_released ops)
    \<and> sem_rep s' xs' \<and> (sem_available s' > 0 \<longrightarrow> xs' = [])"
proof -
  from sem_run_law [where new = new, OF assms] obtain n s' xs' where
    "sem_run new s ops = Some (n, s')" "sem_rep s' xs'" and m: "permits_move s n s' (sem_released ops)" by blast
  then show ?thesis using permits_move_exact [OF m] by (auto simp: sem_available_def sem_rep_def permits_move_def)
qed

theorem semaphore_permits_conserved_witness:
  "\<exists>granted s' xs'. sem_run (\<lambda>a. waiter_callback a 0) (sem_new 1 (\<lambda>a. waiter_callback a 0)) [SAcquire 1, SAcquire 2, SRelease] = Some (granted, s')
    \<and> unat (sem_available s') + granted = 2 \<and> sem_rep s' xs' \<and> (sem_available s' > 0 \<longrightarrow> xs' = [])"
proof -
  let ?new = "\<lambda>a. waiter_callback a 0" and ?ops = "[SAcquire 1, SAcquire 2, SRelease]"
  have rep: "sem_rep (sem_new 1 ?new) []"
    by (simp add: sem_rep_def sem_new_def wl_rep_empty waiter_callback_def)
  have "sem_legal_run ?new (sem_new 1 ?new) ?ops"
    by (simp add: sem_new_def sem_acquire_def sem_tryAcquire_def waiter_callback_def split: option.split)
  note cons = semaphore_permits_conserved [where new = ?new, OF rep this]
  have "unat (sem_available (sem_new 1 ?new)) + sem_released ?ops = 2"
    by (simp add: sem_available_def sem_new_def sem_released_def)
  moreover have "\<And>a. \<not> w_linked (?new a)" by (simp add: waiter_callback_def)
  ultimately show ?thesis using cons by fastforce
qed

text \<open>a release with waiters queued wakes exactly the one that has waited longest and hands
  it the permit (none becomes free); with no waiter the permit becomes free.\<close>

theorem semaphore_release_fifo:
  assumes "sem_rep s xs"
  shows "\<exists>s'. sem_release s = Some (map (\<lambda>a. fst (waiter_notify (sem_store s) a)) (take 1 xs), s')
    \<and> sem_rep s' (drop 1 xs) \<and> sem_permits s' = (if xs = [] then sem_permits s + 1 else 0)"
  using assms by (rule sem_release_law)

theorem semaphore_release_fifo_witness:
  "\<exists>s'. sem_release (sem_new 2 (\<lambda>a. waiter_callback a 0)) = Some ([], s') \<and> sem_permits s' = 3"
proof -
  have "sem_rep (sem_new 2 (\<lambda>a. waiter_callback a 0)) []"
    by (simp add: sem_rep_def sem_new_def wl_rep_empty waiter_callback_def)
  from semaphore_release_fifo [OF this] show ?thesis by (auto simp: sem_new_def)
qed

text \<open>C8: mutual exclusion: starting from an unlocked mutex, the number of times it was granted
  exceeds the number of unlocks by at most one.\<close>

theorem mutex_mutual_exclusion:
  assumes "\<And>a. \<not> w_linked (st a)" "\<And>a. \<not> w_linked (new a)" "sem_legal_run new (mutex_new st) ops"
  shows "\<exists>granted m'. sem_run new (mutex_new st) ops = Some (granted, m') \<and> granted \<le> sem_released ops + 1"
proof -
  have "sem_rep (mutex_new st) []"
    using assms(1) by (simp add: sem_rep_def mutex_new_def sem_new_def wl_rep_empty)
  from sem_run_law [where new = new, OF this assms(3,2)] show ?thesis
    by (fastforce simp: mutex_new_def sem_new_def permits_move_def)
qed

theorem mutex_mutual_exclusion_witness:
  "\<exists>granted m'. sem_run (\<lambda>a. waiter_callback a 0) (mutex_new (\<lambda>a. waiter_callback a 0)) [STryAcquire, STryAcquire] = Some (granted, m')
    \<and> granted \<le> sem_released [STryAcquire, STryAcquire] + 1"
  by (rule mutex_mutual_exclusion) (simp_all add: waiter_callback_def sem_tryAcquire_def mutex_new_def sem_new_def)

end
