(* ===== verification/Cond_Wait.thy ===== *)
theory Cond_Wait
  imports Semaphore
begin

text \<open>
  \<^verbatim>\<open>sync/ConditionVariable\<close> and \<^verbatim>\<open>sync/WaitGroup\<close>: primitives that detach their whole waiter list
  under the lock and notify from the detached chain.  The count of a wait group is a machine
  word, because \<open>done()\<close> decrements it before checking it.
\<close>

section \<open>Condition variable\<close>

record cond_var =
  cv_waiters :: wait_list
  cv_store :: wstore

definition cv_new :: "wstore \<Rightarrow> cond_var" where
  "cv_new st = \<lparr>cv_waiters = wl_empty, cv_store = st\<rparr>"

text \<open>The first half of \<open>wait\<close>: register, then release the mutex.  What follows is the block
  itself, then \<open>cv_wait_return\<close> or, on a forced unwind, \<open>cv_wait_unwind\<close>.\<close>

definition cv_wait_enter :: "cond_var \<Rightarrow> mutex \<Rightarrow> addr \<Rightarrow> waiter \<Rightarrow> (wake_event list \<times> cond_var \<times> mutex) option" where
  "cv_wait_enter cv m a w =
     (case pushBack ((cv_store cv)(a := w)) (cv_waiters cv) a of (st, l) \<Rightarrow>
        (case mutex_unlock m of None \<Rightarrow> None
         | Some (events, m') \<Rightarrow> Some (events, cv\<lparr>cv_store := st, cv_waiters := l\<rparr>, m')))"

definition cv_wait_return :: "mutex \<Rightarrow> addr \<Rightarrow> waiter \<Rightarrow> bool \<times> mutex" where
  "cv_wait_return m a w = mutex_lock m a w"

fun relockOnUnwind :: "nat \<Rightarrow> mutex \<Rightarrow> mutex" where
  "relockOnUnwind 0 m = m"
| "relockOnUnwind (Suc spins) m = (case mutex_tryLock m of (True, m') \<Rightarrow> m' | (False, m') \<Rightarrow> relockOnUnwind spins m')"

definition cv_wait_unwind :: "cond_var \<Rightarrow> mutex \<Rightarrow> addr \<Rightarrow> bool \<times> cond_var \<times> mutex" where
  "cv_wait_unwind cv m a =
     (case waitGuard_destroy True (cv_store cv) (cv_waiters cv) a of (unlinked, await, st, l) \<Rightarrow>
        (await, cv\<lparr>cv_store := st, cv_waiters := l\<rparr>, relockOnUnwind 1024 m))"

definition cv_notifyOne :: "cond_var \<Rightarrow> wake_event list \<times> cond_var" where
  "cv_notifyOne cv = (case popNotify (cv_store cv) (cv_waiters cv) of (ev, st, l) \<Rightarrow> (ev, cv\<lparr>cv_store := st, cv_waiters := l\<rparr>))"

definition cv_notifyAll :: "cond_var \<Rightarrow> (wake_event list \<times> cond_var) option" where
  "cv_notifyAll cv =
     (case detachAll (cv_store cv) (cv_waiters cv) None of None \<Rightarrow> None
      | Some (chain, st, l) \<Rightarrow>
          (case notifyChain st chain [] of None \<Rightarrow> None
           | Some (events, st') \<Rightarrow> Some (events, cv\<lparr>cv_store := st', cv_waiters := l\<rparr>)))"

definition cv_rep :: "cond_var \<Rightarrow> addr list \<Rightarrow> bool" where
  "cv_rep cv xs \<longleftrightarrow> wl_rep (cv_store cv) (cv_waiters cv) xs"

text \<open>Detaching and notifying, as both primitives do it.\<close>

lemma detach_notify:
  assumes "wl_rep st l xs"
  shows "\<exists>chain st1 l1 st2. detachAll st l None = Some (chain, st1, l1)
    \<and> notifyChain st1 chain [] = Some (map (\<lambda>a. fst (waiter_notify st a)) (rev xs), st2) \<and> wl_rep st2 l1 []
    \<and> (\<forall>a\<in>set xs. w_callback (st a) = None \<longrightarrow> w_satisfied (st2 a))"
proof -
  have "distinct (xs @ [])" using assms by (simp add: wl_rep_def)
  from detachAll_rep [OF assms _ this, of None] obtain c st1 l1 where
    d: "detachAll st l None = Some (c, st1, l1)" "wl_rep st1 l1 []" "wchain st1 (rev xs) c" "same_waiters st st1"
    by auto
  have "map (\<lambda>a. fst (waiter_notify st1 a)) (rev xs) = map (\<lambda>a. fst (waiter_notify st a)) (rev xs)"
    using notify_event_same [OF d(4)] by simp
  moreover have "w_callback (st1 a) = w_callback (st a)" for a
    using d(4) by (simp add: same_waiters_def w_payload_def)
  then have "\<forall>a\<in>set xs. w_callback (st a) = None \<longrightarrow> w_satisfied (satisfy st1 (set (rev xs)) a)"
    by (simp add: satisfy_def)
  moreover have "wl_rep (satisfy st1 (set (rev xs))) l1 []" using d(2) by (simp only: wl_rep_satisfy)
  ultimately show ?thesis
    using d(1) notifyChain_law [OF d(3), of "[]"] by auto
qed

section \<open>Wait group\<close>

record wait_group =
  wg_pending :: u64
  wg_waiters :: wait_list
  wg_store :: wstore

definition wg_new :: "wstore \<Rightarrow> wait_group" where
  "wg_new st = \<lparr>wg_pending = 0, wg_waiters = wl_empty, wg_store = st\<rparr>"

definition wg_add :: "wait_group \<Rightarrow> u64 \<Rightarrow> wait_group" where
  "wg_add g n = g\<lparr>wg_pending := wg_pending g + n\<rparr>"

definition wg_done :: "wait_group \<Rightarrow> (fatal + wake_event list \<times> wait_group) option" where
  "wg_done g =
     (let before = wg_pending g; g1 = g\<lparr>wg_pending := before - 1\<rparr> in
      if before = 0 then Some (Inl (Fatal ''stackfull: WaitGroup::done() without matching add()''))
      else if before \<noteq> 1 then Some (Inr ([], g1))
      else case detachAll (wg_store g1) (wg_waiters g1) None of None \<Rightarrow> None
         | Some (chain, st, l) \<Rightarrow>
             (case notifyChain st chain [] of None \<Rightarrow> None
              | Some (events, st') \<Rightarrow> Some (Inr (events, g1\<lparr>wg_store := st', wg_waiters := l\<rparr>))))"

definition wg_pendingCount :: "wait_group \<Rightarrow> u64" where
  "wg_pendingCount g = wg_pending g"

text \<open>True: returned at once; False: queued and about to block.\<close>

definition wg_wait :: "wait_group \<Rightarrow> addr \<Rightarrow> waiter \<Rightarrow> bool \<times> wait_group" where
  "wg_wait g a w =
     (if wg_pending g = 0 then (True, g)
      else if wg_pending g = 0 then (True, g)
      else case pushBack ((wg_store g)(a := w)) (wg_waiters g) a of
             (st, l) \<Rightarrow> (False, g\<lparr>wg_store := st, wg_waiters := l\<rparr>))"

definition wg_waitOrEnqueue :: "wait_group \<Rightarrow> addr \<Rightarrow> EnqueueResult \<times> wait_group" where
  "wg_waitOrEnqueue g a =
     (if wg_pending g = 0 then (Ready, g)
      else if w_cancelled (wg_store g a) then (Cancelled, g)
      else if wg_pending g = 0 then (Ready, g)
      else case pushBack (wg_store g) (wg_waiters g) a of (st, l) \<Rightarrow> (Enqueued, g\<lparr>wg_store := st, wg_waiters := l\<rparr>))"

definition wg_cancel :: "wait_group \<Rightarrow> addr \<Rightarrow> bool \<times> wait_group" where
  "wg_cancel g a =
     (case cancelWaiter (wg_store g) (wg_waiters g) a of (r, st, l) \<Rightarrow> (r, g\<lparr>wg_store := st, wg_waiters := l\<rparr>))"

definition wg_rep :: "wait_group \<Rightarrow> addr list \<Rightarrow> bool" where
  "wg_rep g xs \<longleftrightarrow> wl_rep (wg_store g) (wg_waiters g) xs \<and> (wg_pending g = 0 \<longrightarrow> xs = [])"

lemma wg_done_law:
  assumes "wg_rep g xs" "wg_pending g \<noteq> 0"
  shows "\<exists>events g'. wg_done g = Some (Inr (events, g')) \<and> wg_pending g' = wg_pending g - 1
    \<and> wg_rep g' (if wg_pending g = 1 then [] else xs)
    \<and> events = (if wg_pending g = 1 then map (\<lambda>a. fst (waiter_notify (wg_store g) a)) (rev xs) else [])"
proof (cases "wg_pending g = 1")
  case True
  from assms(1) have "wl_rep (wg_store g) (wg_waiters g) xs" by (simp add: wg_rep_def)
  from detach_notify [OF this] True show ?thesis by (auto simp: wg_done_def Let_def wg_rep_def)
next
  case False
  then have "wg_pending g - 1 \<noteq> 0" by simp
  with False assms show ?thesis by (simp add: wg_done_def Let_def wg_rep_def)
qed

lemma wg_wait_law:
  assumes "wg_rep g xs" "a \<notin> set xs" "\<not> w_linked w"
  shows "case wg_wait g a w of (returned, g') \<Rightarrow> (returned \<longleftrightarrow> wg_pending g = 0)
    \<and> wg_rep g' (if returned then xs else xs @ [a]) \<and> wg_pending g' = wg_pending g"
proof (cases "wg_pending g = 0")
  case True
  with assms show ?thesis by (simp add: wg_wait_def)
next
  case False
  have "wl_rep ((wg_store g)(a := w)) (wg_waiters g) xs"
    using assms by (intro wl_rep_fresh) (auto simp: wg_rep_def)
  from pushBack_rep [OF this assms(2)] False show ?thesis
    by (auto simp: wg_wait_def wg_rep_def split: prod.splits)
qed

section \<open>Interleaved waiters and finishers\<close>

text \<open>
  \<open>GChecked\<close> read a non-zero count, \<open>GLocked\<close> holds the lock, \<open>GMissed\<close> has re-checked,
  \<open>GWaiting\<close> is queued; \<open>GZero\<close> brought the count to zero and has not yet detached the list.
\<close>

datatype wg_pc = GIdle | GChecked | GLocked | GMissed | GWaiting | GZero

record wg_sys =
  ws_pending :: nat
  ws_lock :: "nat option"
  ws_queue :: "nat list"
  ws_pc :: "nat \<Rightarrow> wg_pc"

definition ws_goto :: "wg_sys \<Rightarrow> nat \<Rightarrow> wg_pc \<Rightarrow> wg_sys" where
  "ws_goto s t p = s\<lparr>ws_pc := (ws_pc s)(t := p)\<rparr>"

inductive wg_step :: "wg_sys \<Rightarrow> wg_sys \<Rightarrow> bool" where
  g_add: "wg_step s (s\<lparr>ws_pending := ws_pending s + n\<rparr>)"
| g_done: "ws_pc s t = GIdle \<Longrightarrow> ws_pending s > 1 \<Longrightarrow> wg_step s (s\<lparr>ws_pending := ws_pending s - 1\<rparr>)"
| g_done_last: "ws_pc s t = GIdle \<Longrightarrow> ws_pending s = 1 \<Longrightarrow> wg_step s (ws_goto (s\<lparr>ws_pending := 0\<rparr>) t GZero)"
| g_drain: "ws_pc s t = GZero \<Longrightarrow> ws_lock s = None \<Longrightarrow>
    wg_step s (s\<lparr>ws_queue := [], ws_pc := (\<lambda>u. if u = t \<or> u \<in> set (ws_queue s) then GIdle else ws_pc s u)\<rparr>)"
| g_check: "ws_pc s t = GIdle \<Longrightarrow> ws_pending s \<noteq> 0 \<Longrightarrow> wg_step s (ws_goto s t GChecked)"
| g_lock: "ws_pc s t = GChecked \<Longrightarrow> ws_lock s = None \<Longrightarrow> wg_step s (ws_goto (s\<lparr>ws_lock := Some t\<rparr>) t GLocked)"
| g_recheck_zero: "ws_pc s t = GLocked \<Longrightarrow> ws_pending s = 0 \<Longrightarrow> wg_step s (ws_goto (s\<lparr>ws_lock := None\<rparr>) t GIdle)"
| g_recheck: "ws_pc s t = GLocked \<Longrightarrow> ws_pending s \<noteq> 0 \<Longrightarrow> wg_step s (ws_goto s t GMissed)"
| g_queue: "ws_pc s t = GMissed \<Longrightarrow>
    wg_step s (ws_goto (s\<lparr>ws_queue := ws_queue s @ [t], ws_lock := None\<rparr>) t GWaiting)"

definition wg_sys_init :: "wg_sys \<Rightarrow> bool" where
  "wg_sys_init s \<longleftrightarrow> ws_lock s = None \<and> ws_queue s = [] \<and> (\<forall>t. ws_pc s t = GIdle)"

definition wg_sys_inv :: "wg_sys \<Rightarrow> bool" where
  "wg_sys_inv s \<longleftrightarrow> (\<forall>t. ws_pc s t \<in> {GLocked, GMissed} \<longleftrightarrow> ws_lock s = Some t)
     \<and> (\<forall>t. t \<in> set (ws_queue s) \<longleftrightarrow> ws_pc s t = GWaiting)
     \<and> (ws_pending s = 0 \<longrightarrow> ws_queue s \<noteq> [] \<or> (\<exists>u. ws_pc s u = GMissed) \<longrightarrow> (\<exists>t. ws_pc s t = GZero))"

definition ws_needs :: "wg_sys \<Rightarrow> bool" where
  "ws_needs s \<longleftrightarrow> ws_queue s \<noteq> [] \<or> (\<exists>u. ws_pc s u = GMissed)"

lemma wg_sys_invD:
  assumes "wg_sys_inv s"
  shows "\<And>t. ws_pc s t \<in> {GLocked, GMissed} \<longleftrightarrow> ws_lock s = Some t" "\<And>t. t \<in> set (ws_queue s) \<longleftrightarrow> ws_pc s t = GWaiting"
    "ws_pending s = 0 \<Longrightarrow> ws_needs s \<Longrightarrow> \<exists>t. ws_pc s t = GZero"
  using assms unfolding wg_sys_inv_def ws_needs_def by blast+

lemma wg_inv_goto:
  assumes inv: "wg_sys_inv s" and pc: "ws_pc s' = (ws_pc s)(t := p)"
    and "p \<in> {GLocked, GMissed} \<longleftrightarrow> ws_lock s' = Some t" "\<And>u. u \<noteq> t \<Longrightarrow> ws_lock s' = Some u \<longleftrightarrow> ws_lock s = Some u"
      "t \<in> set (ws_queue s') \<longleftrightarrow> p = GWaiting" "\<And>u. u \<noteq> t \<Longrightarrow> u \<in> set (ws_queue s') \<longleftrightarrow> u \<in> set (ws_queue s)"
    and zero: "ws_pending s' = 0 \<Longrightarrow> ws_needs s' \<Longrightarrow> p = GZero \<or> ws_pending s = 0 \<and> ws_needs s \<and> ws_pc s t \<noteq> GZero"
  shows "wg_sys_inv s'"
proof -
  note d = wg_sys_invD [OF inv]
  have "\<exists>u. ws_pc s' u = GZero" if "ws_pending s' = 0" "ws_needs s'"
    using zero [OF that] d(3) unfolding pc by (metis fun_upd_apply)
  moreover have "ws_pc s' u \<in> {GLocked, GMissed} \<longleftrightarrow> ws_lock s' = Some u" "u \<in> set (ws_queue s') \<longleftrightarrow> ws_pc s' u = GWaiting" for u
    using assms(3-6) d(1,2) by (cases "u = t"; simp add: pc)+
  ultimately show ?thesis unfolding wg_sys_inv_def ws_needs_def by blast
qed

lemma wg_step_inv:
  assumes inv: "wg_sys_inv s" and "wg_step s s'"
  shows "wg_sys_inv s'"
proof -
  note d = wg_sys_invD(2) [OF inv] and l = wg_sys_invD(1) [OF inv]
  from assms(2) show ?thesis
  proof cases
    case (g_add n)
    with inv show ?thesis by (auto simp: wg_sys_inv_def)
  next
    case (g_done t)
    with inv show ?thesis by (auto simp: wg_sys_inv_def)
  next
    case (g_drain t)
    have "ws_pc s u \<noteq> GMissed" for u using l [of u] g_drain by auto
    with g_drain inv show ?thesis by (auto simp: wg_sys_inv_def)
  next
    case (g_done_last t)
    then show ?thesis by (intro wg_inv_goto [OF inv, of _ t GZero])
      (use d [of t] l [of t] in \<open>auto simp: ws_goto_def ws_needs_def split: if_splits\<close>)
  next
    case (g_check t)
    then show ?thesis by (intro wg_inv_goto [OF inv, of _ t GChecked])
      (use d [of t] l [of t] in \<open>auto simp: ws_goto_def ws_needs_def split: if_splits\<close>)
  next
    case (g_lock t)
    then show ?thesis by (intro wg_inv_goto [OF inv, of _ t GLocked])
      (use d [of t] l [of t] in \<open>auto simp: ws_goto_def ws_needs_def split: if_splits\<close>)
  next
    case (g_recheck_zero t)
    then show ?thesis by (intro wg_inv_goto [OF inv, of _ t GIdle])
      (use d [of t] l [of t] in \<open>auto simp: ws_goto_def ws_needs_def split: if_splits\<close>)
  next
    case (g_recheck t)
    then show ?thesis by (intro wg_inv_goto [OF inv, of _ t GMissed])
      (use d [of t] l [of t] in \<open>auto simp: ws_goto_def ws_needs_def split: if_splits\<close>)
  next
    case (g_queue t)
    then show ?thesis by (intro wg_inv_goto [OF inv, of _ t GWaiting])
      (use d [of t] l [of t] in \<open>auto simp: ws_goto_def ws_needs_def split: if_splits\<close>)
  qed
qed

interpretation wg: step_system wg_sys_init wg_step wg_sys_inv
  by unfold_locales (simp add: wg_sys_init_def wg_sys_inv_def, fact wg_step_inv)

section \<open>Properties\<close>

text \<open>waiting on a condition variable registers the waiter behind those already waiting
  before the mutex is released, so a notification under the mutex cannot miss it: right after
  the first half of \<open>wait\<close>, \<open>notifyOne\<close> wakes the longest waiting party and \<open>notifyAll\<close> wakes all
  of them, each exactly once, and empties the list.\<close>

theorem condition_variable_wait_notify:
  assumes "cv_rep cv xs" "a \<notin> set xs" "\<not> w_linked w" "sem_rep m ys"
  shows "\<exists>events cv' m' woken cv''. cv_wait_enter cv m a w = Some (events, cv', m') \<and> cv_rep cv' (xs @ [a])
    \<and> fst (cv_notifyOne cv') = [fst (waiter_notify (cv_store cv') (hd (xs @ [a])))]
    \<and> cv_rep (snd (cv_notifyOne cv')) (tl (xs @ [a]))
    \<and> cv_notifyAll cv' = Some (woken, cv'') \<and> cv_rep cv'' []
    \<and> mset woken = mset (map (\<lambda>b. fst (waiter_notify (cv_store cv') b)) (xs @ [a]))"
proof -
  have "wl_rep ((cv_store cv)(a := w)) (cv_waiters cv) xs"
    using assms by (intro wl_rep_fresh) (auto simp: cv_rep_def)
  note push = pushBack_rep [OF this assms(2)]
  from sem_release_law [OF assms(4)] obtain ev m' where u: "mutex_unlock m = Some (ev, m')"
    by (auto simp: mutex_unlock_def)
  define cv' where "cv' = (case pushBack ((cv_store cv)(a := w)) (cv_waiters cv) a of
    (st, l) \<Rightarrow> cv\<lparr>cv_store := st, cv_waiters := l\<rparr>)"
  have e: "cv_wait_enter cv m a w = Some (ev, cv', m')" "cv_rep cv' (xs @ [a])"
    using u push by (auto simp: cv_wait_enter_def cv'_def cv_rep_def split: prod.splits)
  then have rep: "wl_rep (cv_store cv') (cv_waiters cv') (xs @ [a])" by (simp add: cv_rep_def)
  obtain x zs where xz: "xs @ [a] = x # zs" by (cases "xs @ [a]") auto
  have one: "fst (cv_notifyOne cv') = [fst (waiter_notify (cv_store cv') (hd (xs @ [a])))]"
    "cv_rep (snd (cv_notifyOne cv')) (tl (xs @ [a]))"
    using popNotify_rep [OF rep] by (simp_all add: cv_notifyOne_def cv_rep_def xz split_beta)
  from detach_notify [OF rep] obtain woken cv'' where
    "cv_notifyAll cv' = Some (woken, cv'')" "cv_rep cv'' []"
    "woken = map (\<lambda>b. fst (waiter_notify (cv_store cv') b)) (rev (xs @ [a]))"
    by (auto simp: cv_notifyAll_def cv_rep_def)
  moreover have "mset (map (\<lambda>b. fst (waiter_notify (cv_store cv') b)) (rev (xs @ [a])))
      = mset (map (\<lambda>b. fst (waiter_notify (cv_store cv') b)) (xs @ [a]))"
    by (simp only: mset_map mset_rev)
  ultimately show ?thesis using e one by blast
qed

theorem condition_variable_wait_notify_witness:
  "\<exists>events cv' m' woken cv''. cv_wait_enter (cv_new (\<lambda>a. waiter_callback a 0)) (sem_new 0 (\<lambda>a. waiter_callback a 0)) 3 (waiter_callback 3 0)
      = Some (events, cv', m') \<and> cv_rep cv' [3] \<and> cv_notifyAll cv' = Some (woken, cv'') \<and> cv_rep cv'' []"
proof -
  have "cv_rep (cv_new (\<lambda>a. waiter_callback a 0)) []"
    by (simp add: cv_rep_def cv_new_def wl_rep_empty waiter_callback_def)
  moreover have "sem_rep (sem_new 0 (\<lambda>a. waiter_callback a 0)) []"
    by (simp add: sem_rep_def sem_new_def wl_rep_empty waiter_callback_def)
  moreover have "\<not> w_linked (waiter_callback 3 0)" by (simp add: waiter_callback_def)
  ultimately show ?thesis
    using condition_variable_wait_notify [of "cv_new (\<lambda>a. waiter_callback a 0)" "[]" 3 "waiter_callback 3 0"] by fastforce
qed

text \<open>\<open>done()\<close> on a wait group: without a matching \<open>add()\<close> it aborts; above one it only counts
  down; bringing the count to zero it wakes every waiter exactly once and leaves none queued.\<close>

theorem wait_group_done:
  assumes "wg_rep g xs"
  shows "(wg_pending g = 0 \<longrightarrow> wg_done g = Some (Inl (Fatal ''stackfull: WaitGroup::done() without matching add()'')))
    \<and> (wg_pending g \<noteq> 0 \<longrightarrow> (\<exists>events g'. wg_done g = Some (Inr (events, g')) \<and> wg_pendingCount g' = wg_pendingCount g - 1
        \<and> wg_rep g' (if wg_pending g = 1 then [] else xs)
        \<and> mset events = (if wg_pending g = 1 then mset (map (\<lambda>a. fst (waiter_notify (wg_store g) a)) xs) else {#})))"
proof (intro conjI impI)
  show "wg_pending g = 0 \<Longrightarrow> wg_done g = Some (Inl (Fatal ''stackfull: WaitGroup::done() without matching add()''))"
    by (simp add: wg_done_def Let_def)
next
  assume "wg_pending g \<noteq> 0"
  from wg_done_law [OF assms this] obtain events g' where
    "wg_done g = Some (Inr (events, g'))" "wg_pending g' = wg_pending g - 1" "wg_rep g' (if wg_pending g = 1 then [] else xs)"
    "events = (if wg_pending g = 1 then map (\<lambda>a. fst (waiter_notify (wg_store g) a)) (rev xs) else [])" by blast
  then show "\<exists>events g'. wg_done g = Some (Inr (events, g')) \<and> wg_pendingCount g' = wg_pendingCount g - 1
        \<and> wg_rep g' (if wg_pending g = 1 then [] else xs)
        \<and> mset events = (if wg_pending g = 1 then mset (map (\<lambda>a. fst (waiter_notify (wg_store g) a)) xs) else {#})"
    by (auto simp: wg_pendingCount_def)
qed

theorem wait_group_done_witness:
  "\<exists>events g'. wg_done (wg_add (wg_new (\<lambda>a. waiter_callback a 0)) 2) = Some (Inr (events, g')) \<and> wg_pendingCount g' = 1 \<and> events = []"
proof -
  let ?g = "wg_add (wg_new (\<lambda>a. waiter_callback a 0)) 2"
  have "wg_rep ?g []" by (simp add: wg_rep_def wg_add_def wg_new_def wl_rep_empty waiter_callback_def)
  moreover have "wg_pending ?g = 2" by (simp add: wg_add_def wg_new_def)
  ultimately show ?thesis using wait_group_done [of ?g "[]"] by (auto simp: wg_pendingCount_def)
qed

text \<open>a waiter of a wait group is not lost: whatever interleaving of \<open>add\<close>, \<open>done\<close> and \<open>wait\<close> runs,
  a queued waiter beside a zero count means that the \<open>done()\<close> that reached zero has yet to
  detach the list.\<close>

theorem wait_group_no_lost_wakeup:
  assumes "wg_sys_init s" "wg_step\<^sup>*\<^sup>* s s'" "ws_pending s' = 0" "ws_pc s' u = GWaiting"
  shows "\<exists>t. ws_pc s' t = GZero"
proof -
  have inv: "wg_sys_inv s'" using wg.reachable_inv assms(1,2) .
  with assms(4) have "ws_queue s' \<noteq> []" by (auto simp: wg_sys_inv_def)
  with inv assms(3) show ?thesis by (auto simp: wg_sys_inv_def)
qed

theorem wait_group_no_lost_wakeup_witness:
  "\<exists>t. ws_pc (\<lparr>ws_pending = 0, ws_lock = None, ws_queue = [5], ws_pc = (\<lambda>_. GIdle)(5 := GWaiting, 1 := GZero)\<rparr>) t = GZero"
proof -
  let ?s0 = "\<lparr>ws_pending = 1, ws_lock = None, ws_queue = [], ws_pc = \<lambda>_. GIdle\<rparr>"
  let ?s1 = "ws_goto ?s0 5 GChecked" let ?s2 = "ws_goto (?s1\<lparr>ws_lock := Some 5\<rparr>) 5 GLocked"
  let ?s3 = "ws_goto ?s2 5 GMissed" let ?s4 = "ws_goto (?s3\<lparr>ws_queue := ws_queue ?s3 @ [5], ws_lock := None\<rparr>) 5 GWaiting"
  let ?s5 = "ws_goto (?s4\<lparr>ws_pending := 0\<rparr>) 1 GZero"
  have "wg_step ?s0 ?s1" "wg_step ?s1 ?s2" "wg_step ?s2 ?s3" "wg_step ?s3 ?s4" "wg_step ?s4 ?s5"
    by (rule wg_step.intros; simp add: ws_goto_def)+
  then have "wg_step\<^sup>*\<^sup>* ?s0 ?s5" by (meson rtranclp.rtrancl_into_rtrancl rtranclp.rtrancl_refl)
  moreover have "wg_sys_init ?s0" by (simp add: wg_sys_init_def)
  ultimately have "\<exists>t. ws_pc ?s5 t = GZero"
    using wait_group_no_lost_wakeup [of ?s0 ?s5 5] by (simp add: ws_goto_def)
  then show ?thesis by (simp add: ws_goto_def)
qed

end
