(* ===== verification/Channel.thy ===== *)
theory Channel
  imports Cond_Wait
begin

text \<open>
  \<^verbatim>\<open>sync/Channel.h\<close>: a bounded channel.  Each call is its pass under the spin lock followed by
  the notification; a blocking call that finds the channel full (or empty) leaves its waiter
  queued and repeats the pass when it is woken.  The waiters of senders and of receivers are
  disjoint objects, kept in two stores.
\<close>

section \<open>The ring of slots\<close>

definition slots_put :: "nat \<Rightarrow> 'a list \<Rightarrow> nat \<Rightarrow> nat \<Rightarrow> 'a \<Rightarrow> 'a list" where
  "slots_put capacity slots head n v = slots[(head + n) mod capacity := v]"

definition slots_list :: "nat \<Rightarrow> 'a list \<Rightarrow> nat \<Rightarrow> nat \<Rightarrow> 'a list" where
  "slots_list capacity slots head n = map (\<lambda>i. slots ! ((head + i) mod capacity)) [0..<n]"

definition slots_ok :: "nat \<Rightarrow> 'a list \<Rightarrow> nat \<Rightarrow> nat \<Rightarrow> bool" where
  "slots_ok capacity slots head n \<longleftrightarrow> capacity \<ge> 1 \<and> length slots = capacity \<and> head < capacity \<and> n \<le> capacity"

lemma length_slots_list [simp]: "length (slots_list capacity slots head n) = n"
  by (simp add: slots_list_def)

lemma slots_put_list:
  assumes "slots_ok capacity slots head n" "n < capacity"
  shows "slots_list capacity (slots_put capacity slots head n v) head (Suc n) = slots_list capacity slots head n @ [v]"
    "slots_ok capacity (slots_put capacity slots head n v) head (Suc n)"
proof -
  have "(head + n) mod capacity \<noteq> (head + i) mod capacity" if "i < n" for i
    using mod_add_eq_imp_eq [of head i capacity n] that assms(2) by auto
  then show "slots_list capacity (slots_put capacity slots head n v) head (Suc n) = slots_list capacity slots head n @ [v]"
    using assms unfolding slots_list_def slots_put_def slots_ok_def by (auto simp: nth_list_update)
  show "slots_ok capacity (slots_put capacity slots head n v) head (Suc n)"
    using assms by (simp add: slots_ok_def slots_put_def)
qed

lemma slots_pop_list:
  assumes "slots_ok capacity slots head n" "0 < n"
  shows "slots_list capacity slots head n = slots ! head # slots_list capacity slots ((head + 1) mod capacity) (n - 1)"
    "slots_ok capacity slots ((head + 1) mod capacity) (n - 1)"
proof -
  have "(Suc head mod capacity + i) mod capacity = (head + Suc i) mod capacity" for i
    using mod_add_left_eq [of "Suc head" capacity i] by simp
  then show "slots_list capacity slots head n = slots ! head # slots_list capacity slots ((head + 1) mod capacity) (n - 1)"
    using assms map_upt_Cons [of n "\<lambda>i. slots ! ((head + i) mod capacity)"] by (simp add: slots_list_def slots_ok_def)
  show "slots_ok capacity slots ((head + 1) mod capacity) (n - 1)"
    using assms by (auto simp: slots_ok_def)
qed

section \<open>The channel\<close>

record 'a channel =
  ch_capacity :: nat
  ch_slots :: "'a list"
  ch_head :: nat
  ch_count :: nat
  ch_closed :: bool
  ch_senders :: wait_list
  ch_sstore :: wstore
  ch_receivers :: wait_list
  ch_rstore :: wstore

definition ch_new :: "nat \<Rightarrow> 'a list \<Rightarrow> wstore \<Rightarrow> wstore \<Rightarrow> fatal + 'a channel" where
  "ch_new capacity storage sst rst =
     (if \<not> capacity \<ge> 1 then Inl (Fatal ''stackfull: Channel capacity must be at least 1'')
      else Inr \<lparr>ch_capacity = capacity, ch_slots = storage, ch_head = 0, ch_count = 0, ch_closed = False,
                ch_senders = wl_empty, ch_sstore = sst, ch_receivers = wl_empty, ch_rstore = rst\<rparr>)"

definition pushLocked :: "'a channel \<Rightarrow> 'a \<Rightarrow> 'a channel" where
  "pushLocked c v = c\<lparr>ch_slots := slots_put (ch_capacity c) (ch_slots c) (ch_head c) (ch_count c) v,
                      ch_count := ch_count c + 1\<rparr>"

definition popLocked :: "'a channel \<Rightarrow> 'a \<times> 'a channel" where
  "popLocked c = (ch_slots c ! ch_head c,
                  c\<lparr>ch_head := (ch_head c + 1) mod ch_capacity c, ch_count := ch_count c - 1\<rparr>)"

text \<open>The destructor drains what is buffered.\<close>

function ch_destroy :: "'a channel \<Rightarrow> 'a list" where
  "ch_destroy c = (if ch_count c \<noteq> 0 then
     ch_slots c ! ch_head c # ch_destroy (c\<lparr>ch_head := (ch_head c + 1) mod ch_capacity c, ch_count := ch_count c - 1\<rparr>)
     else [])"
  by auto
termination by (relation "measure ch_count") auto

declare ch_destroy.simps [simp del]

definition popReceiver :: "'a channel \<Rightarrow> wake_event list \<times> 'a channel" where
  "popReceiver c = (case popNotify (ch_rstore c) (ch_receivers c) of (ev, st, l) \<Rightarrow> (ev, c\<lparr>ch_rstore := st, ch_receivers := l\<rparr>))"

definition popSender :: "'a channel \<Rightarrow> wake_event list \<times> 'a channel" where
  "popSender c = (case popNotify (ch_sstore c) (ch_senders c) of (ev, st, l) \<Rightarrow> (ev, c\<lparr>ch_sstore := st, ch_senders := l\<rparr>))"

datatype send_pass = Sent | SendClosed | SendBlocked

datatype 'a recv_pass = Received 'a | RecvClosed | RecvBlocked

definition ch_send :: "'a channel \<Rightarrow> 'a \<Rightarrow> addr \<Rightarrow> waiter \<Rightarrow> send_pass \<times> wake_event list \<times> 'a channel" where
  "ch_send c v a w =
     (if ch_closed c then (SendClosed, [], c)
      else if ch_count c < ch_capacity c
      then (case popReceiver (pushLocked c v) of (ev, c') \<Rightarrow> (Sent, ev, c'))
      else case pushBack ((ch_sstore c)(a := w)) (ch_senders c) a of
             (st, l) \<Rightarrow> (SendBlocked, [], c\<lparr>ch_sstore := st, ch_senders := l\<rparr>))"

definition ch_trySend :: "'a channel \<Rightarrow> 'a \<Rightarrow> bool \<times> wake_event list \<times> 'a channel" where
  "ch_trySend c v =
     (if ch_closed c \<or> ch_count c = ch_capacity c then (False, [], c)
      else case popReceiver (pushLocked c v) of (ev, c') \<Rightarrow> (True, ev, c'))"

definition ch_recv :: "'a channel \<Rightarrow> addr \<Rightarrow> waiter \<Rightarrow> 'a recv_pass \<times> wake_event list \<times> 'a channel" where
  "ch_recv c a w =
     (if ch_count c \<noteq> 0
      then (case popLocked c of (v, c1) \<Rightarrow> case popSender c1 of (ev, c') \<Rightarrow> (Received v, ev, c'))
      else if ch_closed c then (RecvClosed, [], c)
      else case pushBack ((ch_rstore c)(a := w)) (ch_receivers c) a of
             (st, l) \<Rightarrow> (RecvBlocked, [], c\<lparr>ch_rstore := st, ch_receivers := l\<rparr>))"

definition ch_tryRecv :: "'a channel \<Rightarrow> 'a option \<times> wake_event list \<times> 'a channel" where
  "ch_tryRecv c =
     (if ch_count c = 0 then (None, [], c)
      else case popLocked c of (v, c1) \<Rightarrow> case popSender c1 of (ev, c') \<Rightarrow> (Some v, ev, c'))"

definition enqueueLocked :: "wstore \<Rightarrow> wait_list \<Rightarrow> addr option \<Rightarrow> TransferResult \<times> wstore \<times> wait_list" where
  "enqueueLocked st l waiter =
     (case waiter of None \<Rightarrow> (TWouldBlock, st, l)
      | Some a \<Rightarrow> if w_cancelled (st a) then (TCancelled, st, l)
                  else (case pushBack st l a of (st', l') \<Rightarrow> (TEnqueued, st', l')))"

definition ch_sendOrEnqueue :: "'a channel \<Rightarrow> 'a \<Rightarrow> addr option \<Rightarrow> TransferResult \<times> wake_event list \<times> 'a channel" where
  "ch_sendOrEnqueue c v waiter =
     (if ch_closed c then (TClosed, [], c)
      else if ch_count c < ch_capacity c
      then (case popReceiver (pushLocked c v) of (ev, c') \<Rightarrow> (TDone, ev, c'))
      else case enqueueLocked (ch_sstore c) (ch_senders c) waiter of
             (r, st, l) \<Rightarrow> (r, [], c\<lparr>ch_sstore := st, ch_senders := l\<rparr>))"

definition ch_recvOrEnqueue :: "'a channel \<Rightarrow> addr option \<Rightarrow> 'a option \<times> TransferResult \<times> wake_event list \<times> 'a channel" where
  "ch_recvOrEnqueue c waiter =
     (if ch_count c \<noteq> 0
      then (case popLocked c of (v, c1) \<Rightarrow> case popSender c1 of (ev, c') \<Rightarrow> (Some v, TDone, ev, c'))
      else if ch_closed c then (None, TClosed, [], c)
      else case enqueueLocked (ch_rstore c) (ch_receivers c) waiter of
             (r, st, l) \<Rightarrow> (None, r, [], c\<lparr>ch_rstore := st, ch_receivers := l\<rparr>))"

definition ch_cancelSend :: "'a channel \<Rightarrow> addr \<Rightarrow> bool \<times> 'a channel" where
  "ch_cancelSend c a = (case cancelWaiter (ch_sstore c) (ch_senders c) a of
     (r, st, l) \<Rightarrow> (r, c\<lparr>ch_sstore := st, ch_senders := l\<rparr>))"

definition ch_cancelRecv :: "'a channel \<Rightarrow> addr \<Rightarrow> bool \<times> 'a channel" where
  "ch_cancelRecv c a = (case cancelWaiter (ch_rstore c) (ch_receivers c) a of
     (r, st, l) \<Rightarrow> (r, c\<lparr>ch_rstore := st, ch_receivers := l\<rparr>))"

text \<open>The chain starts with the receivers, newest first, and ends with the senders.\<close>

definition ch_close :: "'a channel \<Rightarrow> (wake_event list \<times> 'a channel) option" where
  "ch_close c =
     (let c1 = c\<lparr>ch_closed := True\<rparr> in
      case detachAll (ch_sstore c1) (ch_senders c1) None of None \<Rightarrow> None
      | Some (schain, sst, sl) \<Rightarrow>
        (case detachAll (ch_rstore c1) (ch_receivers c1) None of None \<Rightarrow> None
         | Some (rchain, rst, rl) \<Rightarrow>
           (case notifyChain rst rchain [] of None \<Rightarrow> None
            | Some (revents, rst') \<Rightarrow>
              (case notifyChain sst schain revents of None \<Rightarrow> None
               | Some (events, sst') \<Rightarrow>
                   Some (events, c1\<lparr>ch_sstore := sst', ch_senders := sl, ch_rstore := rst', ch_receivers := rl\<rparr>)))))"

definition ch_isClosed :: "'a channel \<Rightarrow> bool" where
  "ch_isClosed c = ch_closed c"

definition ch_size :: "'a channel \<Rightarrow> nat" where
  "ch_size c = ch_count c"

section \<open>Contents and waiters\<close>

definition ch_contents :: "'a channel \<Rightarrow> 'a list" where
  "ch_contents c = slots_list (ch_capacity c) (ch_slots c) (ch_head c) (ch_count c)"

definition ch_rep :: "'a channel \<Rightarrow> addr list \<Rightarrow> addr list \<Rightarrow> bool" where
  "ch_rep c ss rs \<longleftrightarrow> slots_ok (ch_capacity c) (ch_slots c) (ch_head c) (ch_count c)
     \<and> wl_rep (ch_sstore c) (ch_senders c) ss \<and> wl_rep (ch_rstore c) (ch_receivers c) rs
     \<and> (ch_closed c \<longrightarrow> ss = [] \<and> rs = [])"

lemma pushLocked_contents:
  assumes "ch_rep c ss rs" "ch_count c < ch_capacity c"
  shows "ch_contents (pushLocked c v) = ch_contents c @ [v]" "ch_rep (pushLocked c v) ss rs"
  using assms slots_put_list [of "ch_capacity c" "ch_slots c" "ch_head c" "ch_count c" v]
  by (auto simp: ch_rep_def ch_contents_def pushLocked_def)

lemma popLocked_contents:
  assumes "ch_rep c ss rs" "ch_count c \<noteq> 0" "popLocked c = (v, c')"
  shows "ch_contents c = v # ch_contents c'" "ch_rep c' ss rs"
  using assms slots_pop_list [of "ch_capacity c" "ch_slots c" "ch_head c" "ch_count c"]
  by (auto simp: ch_rep_def ch_contents_def popLocked_def)

lemma popReceiver_law:
  assumes "ch_rep c ss rs"
  shows "ch_rep (snd (popReceiver c)) ss (tl rs)" "ch_contents (snd (popReceiver c)) = ch_contents c"
    "fst (popReceiver c) = map (\<lambda>a. fst (waiter_notify (ch_rstore c) a)) (take 1 rs)"
    "ch_closed (snd (popReceiver c)) = ch_closed c"
proof -
  from assms have "wl_rep (ch_rstore c) (ch_receivers c) rs" by (simp add: ch_rep_def)
  note pn = popNotify_rep [OF this]
  show "ch_rep (snd (popReceiver c)) ss (tl rs)" "fst (popReceiver c) = map (\<lambda>a. fst (waiter_notify (ch_rstore c) a)) (take 1 rs)"
    using assms pn by (auto simp: popReceiver_def ch_rep_def split_beta)
  show "ch_contents (snd (popReceiver c)) = ch_contents c" "ch_closed (snd (popReceiver c)) = ch_closed c"
    by (simp_all add: popReceiver_def ch_contents_def split_beta)
qed

lemma popSender_law:
  assumes "ch_rep c ss rs"
  shows "ch_rep (snd (popSender c)) (tl ss) rs" "ch_contents (snd (popSender c)) = ch_contents c"
    "fst (popSender c) = map (\<lambda>a. fst (waiter_notify (ch_sstore c) a)) (take 1 ss)"
    "ch_closed (snd (popSender c)) = ch_closed c"
proof -
  from assms have "wl_rep (ch_sstore c) (ch_senders c) ss" by (simp add: ch_rep_def)
  note pn = popNotify_rep [OF this]
  show "ch_rep (snd (popSender c)) (tl ss) rs" "fst (popSender c) = map (\<lambda>a. fst (waiter_notify (ch_sstore c) a)) (take 1 ss)"
    using assms pn by (auto simp: popSender_def ch_rep_def split_beta)
  show "ch_contents (snd (popSender c)) = ch_contents c" "ch_closed (snd (popSender c)) = ch_closed c"
    by (simp_all add: popSender_def ch_contents_def split_beta)
qed

lemma ch_destroy_contents:
  "slots_ok (ch_capacity c) (ch_slots c) (ch_head c) (ch_count c) \<Longrightarrow> ch_destroy c = ch_contents c"
proof (induction c rule: ch_destroy.induct)
  case (1 c)
  show ?case
  proof (cases "ch_count c = 0")
    case True
    then show ?thesis by (subst ch_destroy.simps) (simp add: ch_contents_def slots_list_def)
  next
    case False
    note sp = slots_pop_list [OF "1.prems"]
    from False "1.IH" [OF False] sp(2) have
      "ch_destroy (c\<lparr>ch_head := (ch_head c + 1) mod ch_capacity c, ch_count := ch_count c - 1\<rparr>)
        = ch_contents (c\<lparr>ch_head := (ch_head c + 1) mod ch_capacity c, ch_count := ch_count c - 1\<rparr>)" by simp
    with False sp(1) show ?thesis by (subst ch_destroy.simps) (simp add: ch_contents_def)
  qed
qed

section \<open>Sequences of calls\<close>

datatype 'a ch_op = CSend 'a addr | CTrySend 'a | CSendOrEnqueue 'a "addr option" | CRecv addr | CTryRecv
  | CRecvOrEnqueue "addr option" | CCancelSend addr | CCancelRecv addr | CClose

text \<open>The values a call put into the channel, those it took out, and the channel afterwards.\<close>

fun ch_exec :: "(addr \<Rightarrow> waiter) \<Rightarrow> 'a channel \<Rightarrow> 'a ch_op \<Rightarrow> ('a list \<times> 'a list \<times> 'a channel) option" where
  "ch_exec new c (CSend v a) = (case ch_send c v a (new a) of (r, ev, c') \<Rightarrow> Some (if r = Sent then [v] else [], [], c'))"
| "ch_exec new c (CTrySend v) = (case ch_trySend c v of (r, ev, c') \<Rightarrow> Some (if r then [v] else [], [], c'))"
| "ch_exec new c (CSendOrEnqueue v w) = (case ch_sendOrEnqueue c v w of (r, ev, c') \<Rightarrow> Some (if r = TDone then [v] else [], [], c'))"
| "ch_exec new c (CRecv a) = (case ch_recv c a (new a) of (r, ev, c') \<Rightarrow> Some ([], case r of Received v \<Rightarrow> [v] | _ \<Rightarrow> [], c'))"
| "ch_exec new c CTryRecv = (case ch_tryRecv c of (r, ev, c') \<Rightarrow> Some ([], case r of Some v \<Rightarrow> [v] | None \<Rightarrow> [], c'))"
| "ch_exec new c (CRecvOrEnqueue w) = (case ch_recvOrEnqueue c w of (x, r, ev, c') \<Rightarrow> Some ([], case x of Some v \<Rightarrow> [v] | None \<Rightarrow> [], c'))"
| "ch_exec new c (CCancelSend a) = (case ch_cancelSend c a of (r, c') \<Rightarrow> Some ([], [], c'))"
| "ch_exec new c (CCancelRecv a) = (case ch_cancelRecv c a of (r, c') \<Rightarrow> Some ([], [], c'))"
| "ch_exec new c CClose = (case ch_close c of None \<Rightarrow> None | Some (ev, c') \<Rightarrow> Some ([], [], c'))"

text \<open>A waiter is handed to at most one call at a time.\<close>

fun ch_legal :: "'a channel \<Rightarrow> 'a ch_op \<Rightarrow> bool" where
  "ch_legal c (CSend v a) \<longleftrightarrow> \<not> w_linked (ch_sstore c a)"
| "ch_legal c (CSendOrEnqueue v (Some a)) \<longleftrightarrow> \<not> w_linked (ch_sstore c a)"
| "ch_legal c (CRecv a) \<longleftrightarrow> \<not> w_linked (ch_rstore c a)"
| "ch_legal c (CRecvOrEnqueue (Some a)) \<longleftrightarrow> \<not> w_linked (ch_rstore c a)"
| "ch_legal c _ \<longleftrightarrow> True"

fun ch_run :: "(addr \<Rightarrow> waiter) \<Rightarrow> 'a channel \<Rightarrow> 'a ch_op list \<Rightarrow> ('a list \<times> 'a list \<times> 'a channel) option" where
  "ch_run new c [] = Some ([], [], c)"
| "ch_run new c (op # ops) =
     (if \<not> ch_legal c op then ch_run new c ops
      else case ch_exec new c op of None \<Rightarrow> None
      | Some (i, out, c1) \<Rightarrow> (case ch_run new c1 ops of None \<Rightarrow> None
          | Some (ins, outs, c2) \<Rightarrow> Some (i @ ins, out @ outs, c2)))"

lemma ch_accept:
  assumes "ch_rep c ss rs" "\<not> ch_closed c" "ch_count c < ch_capacity c" "popReceiver (pushLocked c v) = (ev, c')"
  shows "ch_rep c' ss (tl rs) \<and> ch_contents c' = ch_contents c @ [v] \<and> ch_closed c' = ch_closed c"
  using popReceiver_law [OF pushLocked_contents(2) [OF assms(1,3), of v]] pushLocked_contents(1) [OF assms(1,3), of v] assms(4)
  by (simp add: pushLocked_def)

lemma ch_deliver:
  assumes "ch_rep c ss rs" "ch_count c \<noteq> 0" "popLocked c = (v, c1)" "popSender c1 = (ev, c')"
  shows "ch_rep c' (tl ss) rs \<and> ch_contents c = v # ch_contents c' \<and> ch_closed c' = ch_closed c"
  using popSender_law [OF popLocked_contents(2) [OF assms(1-3)]] popLocked_contents(1) [OF assms(1-3)] assms(3,4)
  by (auto simp: popLocked_def)

lemma enqueueLocked_rep:
  assumes "wl_rep st l xs" "\<And>a. w = Some a \<Longrightarrow> a \<notin> set xs"
  shows "\<exists>r st' l' xs'. enqueueLocked st l w = (r, st', l') \<and> wl_rep st' l' xs' \<and> r \<noteq> TDone"
proof (cases w)
  case None
  with assms show ?thesis by (auto simp: enqueueLocked_def)
next
  case (Some a)
  obtain st' l' where p: "pushBack st l a = (st', l')" by (cases "pushBack st l a")
  with pushBack_rep [OF assms(1) assms(2) [OF Some] p] assms(1) Some show ?thesis by (auto simp: enqueueLocked_def)
qed

lemma ch_close_law:
  assumes "ch_rep c ss rs"
  shows "\<exists>events c'. ch_close c = Some (events, c') \<and> ch_rep c' [] [] \<and> ch_closed c' \<and> ch_contents c' = ch_contents c
    \<and> events = map (\<lambda>a. fst (waiter_notify (ch_rstore c) a)) (rev rs) @ map (\<lambda>a. fst (waiter_notify (ch_sstore c) a)) (rev ss)"
proof -
  from assms have r: "wl_rep (ch_sstore c) (ch_senders c) ss" "wl_rep (ch_rstore c) (ch_receivers c) rs"
    by (simp_all add: ch_rep_def)
  have "distinct (ss @ [])" using r(1) by (simp add: wl_rep_def)
  from detachAll_rep [OF r(1) _ this, of None] obtain sc st1 l1 where
    s: "detachAll (ch_sstore c) (ch_senders c) None = Some (sc, st1, l1)" "wl_rep st1 l1 []" "wchain st1 (rev ss) sc"
       "same_waiters (ch_sstore c) st1" by auto
  have "map (\<lambda>a. fst (waiter_notify st1 a)) (rev ss) = map (\<lambda>a. fst (waiter_notify (ch_sstore c) a)) (rev ss)"
    using notify_event_same [OF s(4)] by simp
  with notifyChain_law [OF s(3)] have sn: "notifyChain st1 sc evs =
      Some (evs @ map (\<lambda>a. fst (waiter_notify (ch_sstore c) a)) (rev ss), satisfy st1 (set (rev ss)))" for evs by simp
  from detach_notify [OF r(2)] obtain rc rst rl rst2 where
    d: "detachAll (ch_rstore c) (ch_receivers c) None = Some (rc, rst, rl)"
       "notifyChain rst rc [] = Some (map (\<lambda>a. fst (waiter_notify (ch_rstore c) a)) (rev rs), rst2)" "wl_rep rst2 rl []" by blast
  show ?thesis using s(1,2) sn d assms by (simp add: ch_close_def Let_def ch_rep_def ch_contents_def wl_rep_satisfy)
qed

text \<open>What one call may do to a channel.\<close>

definition ch_ok :: "'a channel \<Rightarrow> 'a list \<Rightarrow> 'a list \<Rightarrow> 'a channel \<Rightarrow> bool" where
  "ch_ok c ins outs c' \<longleftrightarrow> (\<exists>ss rs. ch_rep c' ss rs) \<and> ch_contents c @ ins = outs @ ch_contents c'
     \<and> (ch_closed c \<longrightarrow> ins = [] \<and> ch_closed c') \<and> ch_capacity c' = ch_capacity c"

lemma ch_ok_refl: "ch_rep c ss rs \<Longrightarrow> ch_ok c [] [] c"
  by (auto simp: ch_ok_def)

lemma ch_ok_senders:
  assumes "ch_rep c ss rs" "wl_rep st l xs" "ch_closed c \<longrightarrow> xs = []"
  shows "ch_ok c [] [] (c\<lparr>ch_sstore := st, ch_senders := l\<rparr>)"
proof -
  have "ch_rep (c\<lparr>ch_sstore := st, ch_senders := l\<rparr>) xs rs" using assms by (simp add: ch_rep_def)
  then show ?thesis by (auto simp: ch_ok_def ch_contents_def)
qed

lemma ch_ok_receivers:
  assumes "ch_rep c ss rs" "wl_rep st l xs" "ch_closed c \<longrightarrow> xs = []"
  shows "ch_ok c [] [] (c\<lparr>ch_rstore := st, ch_receivers := l\<rparr>)"
proof -
  have "ch_rep (c\<lparr>ch_rstore := st, ch_receivers := l\<rparr>) ss xs" using assms by (simp add: ch_rep_def)
  then show ?thesis by (auto simp: ch_ok_def ch_contents_def)
qed

lemma ch_ok_accept:
  assumes "ch_rep c ss rs" "\<not> ch_closed c" "ch_count c < ch_capacity c"
  shows "ch_ok c [v] [] (snd (popReceiver (pushLocked c v)))"
proof -
  have "ch_capacity (snd (popReceiver (pushLocked c v))) = ch_capacity c"
    by (simp add: popReceiver_def pushLocked_def split_beta)
  with ch_accept [OF assms, of v] assms(2) show ?thesis
    by (cases "popReceiver (pushLocked c v)") (auto simp: ch_ok_def)
qed

lemma ch_ok_deliver:
  assumes "ch_rep c ss rs" "ch_count c \<noteq> 0"
  shows "ch_ok c [] [fst (popLocked c)] (snd (popSender (snd (popLocked c))))"
proof -
  have "ch_capacity (snd (popSender (snd (popLocked c)))) = ch_capacity c"
    by (simp add: popSender_def popLocked_def split_beta)
  with ch_deliver [OF assms prod.collapse [symmetric] prod.collapse [symmetric]] show ?thesis
    by (auto simp: ch_ok_def)
qed

lemma ch_send_ok:
  assumes rep: "ch_rep c ss rs" and a: "a \<notin> set ss" and w: "\<not> w_linked w"
  shows "case ch_send c v a w of (r, ev, c') \<Rightarrow> ch_ok c (if r = Sent then [v] else []) [] c'"
proof -
  have sl: "wl_rep (ch_sstore c) (ch_senders c) ss" using rep by (simp add: ch_rep_def)
  obtain st l where pb: "pushBack ((ch_sstore c)(a := w)) (ch_senders c) a = (st, l)"
    by (cases "pushBack ((ch_sstore c)(a := w)) (ch_senders c) a")
  note blocked = ch_ok_senders [OF rep pushBack_rep [OF wl_rep_fresh [OF sl a w] a pb]]
  consider "ch_closed c" | "\<not> ch_closed c" "ch_count c < ch_capacity c" | "\<not> ch_closed c" "\<not> ch_count c < ch_capacity c" by blast
  then show ?thesis
    using ch_ok_refl [OF rep] ch_ok_accept [OF rep, of v] blocked pb
    by cases (simp_all add: ch_send_def split_beta)
qed

lemma ch_recv_ok:
  assumes rep: "ch_rep c ss rs" and a: "a \<notin> set rs" and w: "\<not> w_linked w"
  shows "case ch_recv c a w of (r, ev, c') \<Rightarrow> ch_ok c [] (case r of Received v \<Rightarrow> [v] | _ \<Rightarrow> []) c'"
proof -
  have rl: "wl_rep (ch_rstore c) (ch_receivers c) rs" using rep by (simp add: ch_rep_def)
  obtain st l where pb: "pushBack ((ch_rstore c)(a := w)) (ch_receivers c) a = (st, l)"
    by (cases "pushBack ((ch_rstore c)(a := w)) (ch_receivers c) a")
  note blocked = ch_ok_receivers [OF rep pushBack_rep [OF wl_rep_fresh [OF rl a w] a pb]]
  consider "ch_count c \<noteq> 0" | "ch_count c = 0" "ch_closed c" | "ch_count c = 0" "\<not> ch_closed c" by blast
  then show ?thesis
    using ch_ok_refl [OF rep] ch_ok_deliver [OF rep] blocked pb
    by cases (simp_all add: ch_recv_def split_beta)
qed

lemma ch_sendOrEnqueue_ok:
  assumes rep: "ch_rep c ss rs" and "\<And>a. w = Some a \<Longrightarrow> a \<notin> set ss"
  shows "case ch_sendOrEnqueue c v w of (r, ev, c') \<Rightarrow> ch_ok c (if r = TDone then [v] else []) [] c'"
proof -
  have "wl_rep (ch_sstore c) (ch_senders c) ss" using rep by (simp add: ch_rep_def)
  from enqueueLocked_rep [OF this assms(2)] obtain r st l xs where
    e: "enqueueLocked (ch_sstore c) (ch_senders c) w = (r, st, l)" "wl_rep st l xs" "r \<noteq> TDone" by blast
  consider "ch_closed c" | "\<not> ch_closed c" "ch_count c < ch_capacity c" | "\<not> ch_closed c" "\<not> ch_count c < ch_capacity c" by blast
  then show ?thesis
    using ch_ok_refl [OF rep] ch_ok_accept [OF rep, of v] ch_ok_senders [OF rep e(2)] e
    by cases (simp_all add: ch_sendOrEnqueue_def split_beta)
qed

lemma ch_recvOrEnqueue_ok:
  assumes rep: "ch_rep c ss rs" and "\<And>a. w = Some a \<Longrightarrow> a \<notin> set rs"
  shows "case ch_recvOrEnqueue c w of (x, r, ev, c') \<Rightarrow> ch_ok c [] (case x of Some v \<Rightarrow> [v] | None \<Rightarrow> []) c'"
proof -
  have "wl_rep (ch_rstore c) (ch_receivers c) rs" using rep by (simp add: ch_rep_def)
  from enqueueLocked_rep [OF this assms(2)] obtain r st l xs where
    e: "enqueueLocked (ch_rstore c) (ch_receivers c) w = (r, st, l)" "wl_rep st l xs" "r \<noteq> TDone" by blast
  consider "ch_count c \<noteq> 0" | "ch_count c = 0" "ch_closed c" | "ch_count c = 0" "\<not> ch_closed c" by blast
  then show ?thesis
    using ch_ok_refl [OF rep] ch_ok_deliver [OF rep] ch_ok_receivers [OF rep e(2)] e
    by cases (simp_all add: ch_recvOrEnqueue_def split_beta)
qed

lemma ch_try_ok:
  assumes rep: "ch_rep c ss rs"
  shows "case ch_trySend c v of (r, ev, c') \<Rightarrow> ch_ok c (if r then [v] else []) [] c'"
    "case ch_tryRecv c of (r, ev, c') \<Rightarrow> ch_ok c [] (case r of Some x \<Rightarrow> [x] | None \<Rightarrow> []) c'"
proof -
  have le: "ch_count c \<le> ch_capacity c" using rep by (simp add: ch_rep_def slots_ok_def)
  show "case ch_trySend c v of (r, ev, c') \<Rightarrow> ch_ok c (if r then [v] else []) [] c'"
    using ch_ok_refl [OF rep] ch_ok_accept [OF rep, of v] le by (auto simp: ch_trySend_def split_beta)
  show "case ch_tryRecv c of (r, ev, c') \<Rightarrow> ch_ok c [] (case r of Some x \<Rightarrow> [x] | None \<Rightarrow> []) c'"
    using ch_ok_refl [OF rep] ch_ok_deliver [OF rep] by (auto simp: ch_tryRecv_def split_beta)
qed

lemma ch_cancel_ok:
  assumes rep: "ch_rep c ss rs"
  shows "ch_ok c [] [] (snd (ch_cancelSend c a))" "ch_ok c [] [] (snd (ch_cancelRecv c a))"
proof -
  have r: "wl_rep (ch_sstore c) (ch_senders c) ss" "wl_rep (ch_rstore c) (ch_receivers c) rs" "ch_closed c \<longrightarrow> ss = [] \<and> rs = []"
    using rep by (simp_all add: ch_rep_def)
  show "ch_ok c [] [] (snd (ch_cancelSend c a))"
    using cancelWaiter_rep [OF r(1), of a] ch_ok_senders [OF rep, of _ _ "removeAll a ss"] r(3)
    by (cases "cancelWaiter (ch_sstore c) (ch_senders c) a") (auto simp: ch_cancelSend_def)
  show "ch_ok c [] [] (snd (ch_cancelRecv c a))"
    using cancelWaiter_rep [OF r(2), of a] ch_ok_receivers [OF rep, of _ _ "removeAll a rs"] r(3)
    by (cases "cancelWaiter (ch_rstore c) (ch_receivers c) a") (auto simp: ch_cancelRecv_def)
qed

lemma ch_exec_law:
  assumes rep: "ch_rep c ss rs" and legal: "ch_legal c op" and new: "\<And>a. \<not> w_linked (new a)"
  shows "\<exists>ins outs c'. ch_exec new c op = Some (ins, outs, c') \<and> ch_ok c ins outs c'"
proof -
  have linked: "\<And>a. w_linked (ch_sstore c a) \<longleftrightarrow> a \<in> set ss" "\<And>a. w_linked (ch_rstore c a) \<longleftrightarrow> a \<in> set rs"
    using rep by (auto simp: ch_rep_def wl_rep_def)
  show ?thesis
  proof (cases op)
    case (CSend v a)
    then show ?thesis using ch_send_ok [OF rep _ new, of a v a] legal linked by (auto simp: split_beta)
  next
    case (CRecv a)
    then show ?thesis using ch_recv_ok [OF rep _ new, of a a] legal linked by (auto simp: split_beta)
  next
    case (CSendOrEnqueue v w)
    then have "a \<notin> set ss" if "w = Some a" for a using that legal linked by simp
    from ch_sendOrEnqueue_ok [OF rep this] CSendOrEnqueue show ?thesis by (simp add: split_beta)
  next
    case (CRecvOrEnqueue w)
    then have "a \<notin> set rs" if "w = Some a" for a using that legal linked by simp
    from ch_recvOrEnqueue_ok [OF rep this] CRecvOrEnqueue show ?thesis by (simp add: split_beta)
  next
    case CClose
    from ch_close_law [OF rep] obtain ev c' where
      "ch_close c = Some (ev, c')" "ch_rep c' [] []" "ch_closed c'" "ch_contents c' = ch_contents c" by blast
    moreover from this(1) have "ch_capacity c' = ch_capacity c"
      by (auto simp: ch_close_def Let_def split: option.splits)
    ultimately show ?thesis using CClose by (auto simp: ch_ok_def)
  qed (use ch_try_ok [OF rep] ch_cancel_ok [OF rep] in \<open>simp_all add: split_beta\<close>)
qed

lemma ch_run_law:
  assumes "ch_rep c ss rs" "\<And>a. \<not> w_linked (new a)"
  shows "\<exists>ins outs c'. ch_run new c ops = Some (ins, outs, c') \<and> ch_ok c ins outs c'"
  using assms(1)
proof (induction ops arbitrary: c ss rs)
  case Nil
  then show ?case using ch_ok_refl by auto
next
  case (Cons op ops)
  show ?case
  proof (cases "ch_legal c op")
    case False
    with Cons show ?thesis by simp
  next
    case True
    from ch_exec_law [where new = new, OF Cons.prems True assms(2)] obtain i out c1 where
      e: "ch_exec new c op = Some (i, out, c1)" "ch_ok c i out c1" by blast
    then obtain ss1 rs1 where "ch_rep c1 ss1 rs1" by (auto simp: ch_ok_def)
    from Cons.IH [OF this] obtain ins outs c' where
      r: "ch_run new c1 ops = Some (ins, outs, c')" "ch_ok c1 ins outs c'" by blast
    have "ch_contents c @ (i @ ins) = (out @ outs) @ ch_contents c'"
      using e(2) r(2) by (metis append.assoc ch_ok_def)
    with True e r show ?thesis by (auto simp: ch_ok_def)
  qed
qed

section \<open>Receiving\<close>

text \<open>What a receive answers, whether the channel is open or closed.\<close>

lemma ch_recv_answer:
  assumes "ch_rep c ss rs"
  shows "fst (ch_recv c a w) = (case ch_contents c of [] \<Rightarrow> if ch_closed c then RecvClosed else RecvBlocked | v # _ \<Rightarrow> Received v)"
    "fst (ch_tryRecv c) = (case ch_contents c of [] \<Rightarrow> None | v # _ \<Rightarrow> Some v)"
    "fst (ch_recvOrEnqueue c x) = (case ch_contents c of [] \<Rightarrow> None | v # _ \<Rightarrow> Some v)"
proof -
  have e: "ch_contents c = [] \<longleftrightarrow> ch_count c = 0" by (simp add: ch_contents_def slots_list_def)
  consider "ch_count c = 0" "ch_contents c = []" | vs where "ch_count c \<noteq> 0" "ch_contents c = fst (popLocked c) # vs"
    using e popLocked_contents(1) [OF assms _ prod.collapse [symmetric]] by blast
  note v = this
  show "fst (ch_recv c a w) = (case ch_contents c of [] \<Rightarrow> if ch_closed c then RecvClosed else RecvBlocked | v # _ \<Rightarrow> Received v)"
    by (cases rule: v) (simp_all add: ch_recv_def split_beta)
  show "fst (ch_tryRecv c) = (case ch_contents c of [] \<Rightarrow> None | v # _ \<Rightarrow> Some v)"
    by (cases rule: v) (simp_all add: ch_tryRecv_def split_beta)
  show "fst (ch_recvOrEnqueue c x) = (case ch_contents c of [] \<Rightarrow> None | v # _ \<Rightarrow> Some v)"
    by (cases rule: v) (simp_all add: ch_recvOrEnqueue_def split_beta)
qed

lemma ch_drains:
  assumes "ch_rep c ss rs" "\<And>a. \<not> w_linked (new a)"
  shows "\<exists>c'. ch_run new c (replicate (length (ch_contents c)) CTryRecv) = Some ([], ch_contents c, c') \<and> ch_contents c' = []"
  using assms(1)
proof (induction "ch_contents c" arbitrary: c ss rs)
  case Nil
  then show ?case by (simp flip: Nil.hyps)
next
  case (Cons v vs)
  obtain ev c1 where t: "ch_tryRecv c = (Some v, ev, c1)"
    using ch_recv_answer(2) [OF Cons.prems] by (cases "ch_tryRecv c") (simp flip: Cons.hyps(2))
  have "ch_ok c [] [v] c1" using ch_try_ok(2) [OF Cons.prems] t by simp
  then obtain ss1 rs1 where c1: "ch_rep c1 ss1 rs1" "ch_contents c1 = vs" by (auto simp: ch_ok_def simp flip: Cons.hyps(2))
  from Cons.hyps(1) [OF c1(2) [symmetric] c1(1)] show ?case using t by (auto simp: c1(2) simp flip: Cons.hyps(2))
qed

section \<open>Interleaved senders and receivers\<close>

text \<open>
  Any number of parties call the channel, each call (and each repetition of a blocked one) being a pass under the
  lock.  A party is its waiter.  \<open>cs_recvNotified\<close> are the receivers that were taken off the list and have not
  passed again yet, likewise the senders.  A task that is unwound out of its wait leaves through the
  guard: if it was still queued it unlinks itself, and if it was notified before, the notification ends with it; these
  are counted in \<open>cs_recvLost\<close> and \<open>cs_sendLost\<close>.
\<close>

definition ch_unwindSend :: "'a channel \<Rightarrow> addr \<Rightarrow> bool \<times> 'a channel" where
  "ch_unwindSend c a = (case waitGuard_destroy True (ch_sstore c) (ch_senders c) a of
     (unlinked, await, st, l) \<Rightarrow> (await, c\<lparr>ch_sstore := st, ch_senders := l\<rparr>))"

definition ch_unwindRecv :: "'a channel \<Rightarrow> addr \<Rightarrow> bool \<times> 'a channel" where
  "ch_unwindRecv c a = (case waitGuard_destroy True (ch_rstore c) (ch_receivers c) a of
     (unlinked, await, st, l) \<Rightarrow> (await, c\<lparr>ch_rstore := st, ch_receivers := l\<rparr>))"

record 'a chan_sys =
  cs_chan :: "'a channel"
  cs_recvNotified :: "addr set"
  cs_sendNotified :: "addr set"
  cs_recvLost :: nat
  cs_sendLost :: nat

fun recv_party :: "'a ch_op \<Rightarrow> addr set" where
  "recv_party (CRecv a) = {a}"
| "recv_party (CRecvOrEnqueue (Some a)) = {a}"
| "recv_party _ = {}"

fun send_party :: "'a ch_op \<Rightarrow> addr set" where
  "send_party (CSend v a) = {a}"
| "send_party (CSendOrEnqueue v (Some a)) = {a}"
| "send_party _ = {}"

definition cancels :: "'a ch_op \<Rightarrow> bool" where
  "cancels op \<longleftrightarrow> (\<exists>a. op = CCancelSend a \<or> op = CCancelRecv a)"

text \<open>The waiters a call took off a list; all but cancelling does so to notify them.\<close>

definition taken_off :: "'a ch_op \<Rightarrow> wstore \<Rightarrow> wstore \<Rightarrow> addr set" where
  "taken_off op st st' = (if cancels op then {} else {a. w_linked (st a) \<and> \<not> w_linked (st' a)})"

definition cs_call :: "'a chan_sys \<Rightarrow> 'a ch_op \<Rightarrow> 'a channel \<Rightarrow> 'a chan_sys" where
  "cs_call s op c' = s\<lparr>cs_chan := c',
     cs_recvNotified := (cs_recvNotified s - recv_party op) \<union> taken_off op (ch_rstore (cs_chan s)) (ch_rstore c'),
     cs_sendNotified := (cs_sendNotified s - send_party op) \<union> taken_off op (ch_sstore (cs_chan s)) (ch_sstore c')\<rparr>"

inductive chan_step :: "'a chan_sys \<Rightarrow> 'a chan_sys \<Rightarrow> bool" where
  call: "ch_legal (cs_chan s) op \<Longrightarrow> ch_exec (\<lambda>_. waiter_here task parker) (cs_chan s) op = Some (ins, outs, c') \<Longrightarrow>
    chan_step s (cs_call s op c')"
| callback_send: "\<not> w_linked (ch_sstore (cs_chan s) a) \<Longrightarrow> a \<notin> cs_sendNotified s \<Longrightarrow>
    chan_step s (s\<lparr>cs_chan := (cs_chan s)\<lparr>ch_sstore := (ch_sstore (cs_chan s))(a := waiter_callback f x)\<rparr>\<rparr>)"
| callback_recv: "\<not> w_linked (ch_rstore (cs_chan s) a) \<Longrightarrow> a \<notin> cs_recvNotified s \<Longrightarrow>
    chan_step s (s\<lparr>cs_chan := (cs_chan s)\<lparr>ch_rstore := (ch_rstore (cs_chan s))(a := waiter_callback f x)\<rparr>\<rparr>)"
| unwind_send: "a \<in> cs_sendNotified s \<or> w_linked (ch_sstore (cs_chan s) a) \<Longrightarrow> ch_unwindSend (cs_chan s) a = (await, c') \<Longrightarrow>
    chan_step s (s\<lparr>cs_chan := c', cs_sendNotified := cs_sendNotified s - {a},
      cs_sendLost := cs_sendLost s + (if a \<in> cs_sendNotified s then 1 else 0)\<rparr>)"
| unwind_recv: "a \<in> cs_recvNotified s \<or> w_linked (ch_rstore (cs_chan s) a) \<Longrightarrow> ch_unwindRecv (cs_chan s) a = (await, c') \<Longrightarrow>
    chan_step s (s\<lparr>cs_chan := c', cs_recvNotified := cs_recvNotified s - {a},
      cs_recvLost := cs_recvLost s + (if a \<in> cs_recvNotified s then 1 else 0)\<rparr>)"

text \<open>How a call moves the count and the two queues.\<close>

definition stays :: "'a ch_op \<Rightarrow> 'a channel \<Rightarrow> bool" where
  "stays op c \<longleftrightarrow> (recv_party op \<noteq> {} \<longrightarrow> ch_count c = 0) \<and> (send_party op \<noteq> {} \<longrightarrow> ch_closed c \<or> ch_count c = ch_capacity c)"

datatype ch_move = Stay | Put | Take | QueueSend addr | QueueRecv addr | LeaveSend addr | LeaveRecv addr | Empties

fun move_ok :: "ch_move \<Rightarrow> 'a ch_op \<Rightarrow> 'a channel \<Rightarrow> bool" where
  "move_ok Stay op c \<longleftrightarrow> stays op c"
| "move_ok Put op c \<longleftrightarrow> ch_count c < ch_capacity c \<and> recv_party op = {} \<and> \<not> cancels op"
| "move_ok Take op c \<longleftrightarrow> ch_count c > 0 \<and> send_party op = {} \<and> \<not> cancels op"
| "move_ok (QueueSend a) op c \<longleftrightarrow> send_party op = {a} \<and> recv_party op = {} \<and> ch_count c = ch_capacity c \<and> \<not> cancels op"
| "move_ok (QueueRecv a) op c \<longleftrightarrow> recv_party op = {a} \<and> send_party op = {} \<and> ch_count c = 0 \<and> \<not> cancels op"
| "move_ok (LeaveSend a) op c \<longleftrightarrow> op = CCancelSend a"
| "move_ok (LeaveRecv a) op c \<longleftrightarrow> op = CCancelRecv a"
| "move_ok Empties op c \<longleftrightarrow> op = CClose"

fun moved_count :: "ch_move \<Rightarrow> nat \<Rightarrow> nat" where
  "moved_count Put n = n + 1"
| "moved_count Take n = n - 1"
| "moved_count _ n = n"

fun moved_senders :: "ch_move \<Rightarrow> addr list \<Rightarrow> addr list" where
  "moved_senders Take ss = tl ss"
| "moved_senders (QueueSend a) ss = ss @ [a]"
| "moved_senders (LeaveSend a) ss = removeAll a ss"
| "moved_senders Empties ss = []"
| "moved_senders _ ss = ss"

fun moved_receivers :: "ch_move \<Rightarrow> addr list \<Rightarrow> addr list" where
  "moved_receivers Put rs = tl rs"
| "moved_receivers (QueueRecv a) rs = rs @ [a]"
| "moved_receivers (LeaveRecv a) rs = removeAll a rs"
| "moved_receivers Empties rs = []"
| "moved_receivers _ rs = rs"

definition ch_moves :: "'a channel \<Rightarrow> addr list \<Rightarrow> addr list \<Rightarrow> 'a ch_op \<Rightarrow> 'a channel \<Rightarrow> bool" where
  "ch_moves c ss rs op c' \<longleftrightarrow> (\<exists>m. move_ok m op c \<and> ch_rep c' (moved_senders m ss) (moved_receivers m rs)
     \<and> ch_count c' = moved_count m (ch_count c) \<and> ch_capacity c' = ch_capacity c)"

lemma ch_moves_stay: "ch_rep c ss rs \<Longrightarrow> stays op c \<Longrightarrow> ch_moves c ss rs op c"
  unfolding ch_moves_def by (rule exI [of _ Stay]) simp

lemma ch_count_contents: "ch_count c = length (ch_contents c)"
  by (simp add: ch_contents_def)

lemma ch_moves_put:
  assumes "ch_rep c ss rs" "\<not> ch_closed c" "ch_count c < ch_capacity c" "recv_party op = {}" "\<not> cancels op"
  shows "ch_moves c ss rs op (snd (popReceiver (pushLocked c v)))"
proof -
  have "ch_capacity (snd (popReceiver (pushLocked c v))) = ch_capacity c"
    by (simp add: popReceiver_def pushLocked_def split_beta)
  with ch_accept [OF assms(1-3) prod.collapse [symmetric], of v] assms show ?thesis
    unfolding ch_moves_def by (intro exI [of _ Put]) (simp add: ch_count_contents)
qed

lemma ch_moves_take:
  assumes "ch_rep c ss rs" "ch_count c \<noteq> 0" "send_party op = {}" "\<not> cancels op"
  shows "ch_moves c ss rs op (snd (popSender (snd (popLocked c))))"
proof -
  have "ch_capacity (snd (popSender (snd (popLocked c)))) = ch_capacity c"
    by (simp add: popSender_def popLocked_def split_beta)
  with ch_deliver [OF assms(1,2) prod.collapse [symmetric] prod.collapse [symmetric]] assms show ?thesis
    unfolding ch_moves_def by (intro exI [of _ Take]) (simp add: ch_count_contents)
qed

lemma ch_moves_queue:
  assumes "ch_rep c ss rs" "\<not> ch_closed c" "\<not> cancels op"
  shows "pushBack st (ch_senders c) a = (st', l') \<Longrightarrow> wl_rep st (ch_senders c) ss \<Longrightarrow> a \<notin> set ss \<Longrightarrow> send_party op = {a} \<Longrightarrow> recv_party op = {} \<Longrightarrow>
      ch_count c = ch_capacity c \<Longrightarrow> ch_moves c ss rs op (c\<lparr>ch_sstore := st', ch_senders := l'\<rparr>)"
    "pushBack st (ch_receivers c) a = (st', l') \<Longrightarrow> wl_rep st (ch_receivers c) rs \<Longrightarrow> a \<notin> set rs \<Longrightarrow> recv_party op = {a} \<Longrightarrow> send_party op = {} \<Longrightarrow>
      ch_count c = 0 \<Longrightarrow> ch_moves c ss rs op (c\<lparr>ch_rstore := st', ch_receivers := l'\<rparr>)"
proof -
  assume p: "pushBack st (ch_senders c) a = (st', l')" "wl_rep st (ch_senders c) ss" "a \<notin> set ss" "send_party op = {a}" "recv_party op = {}"
    "ch_count c = ch_capacity c"
  then show "ch_moves c ss rs op (c\<lparr>ch_sstore := st', ch_senders := l'\<rparr>)"
    unfolding ch_moves_def using assms pushBack_rep [OF p(2,3,1)] by (intro exI [of _ "QueueSend a"]) (simp add: ch_rep_def)
next
  assume p: "pushBack st (ch_receivers c) a = (st', l')" "wl_rep st (ch_receivers c) rs" "a \<notin> set rs" "recv_party op = {a}" "send_party op = {}"
    "ch_count c = 0"
  then show "ch_moves c ss rs op (c\<lparr>ch_rstore := st', ch_receivers := l'\<rparr>)"
    unfolding ch_moves_def using assms pushBack_rep [OF p(2,3,1)] by (intro exI [of _ "QueueRecv a"]) (simp add: ch_rep_def)
qed

lemma ch_exec_moves:
  assumes rep: "ch_rep c ss rs" and legal: "ch_legal c op" and new: "\<And>a. \<not> w_linked (new a)"
    and e: "ch_exec new c op = Some (ins, outs, c')"
  shows "ch_moves c ss rs op c'"
proof -
  have linked: "\<And>a. w_linked (ch_sstore c a) \<longleftrightarrow> a \<in> set ss" "\<And>a. w_linked (ch_rstore c a) \<longleftrightarrow> a \<in> set rs"
    and l: "wl_rep (ch_sstore c) (ch_senders c) ss" "wl_rep (ch_rstore c) (ch_receivers c) rs"
    and le: "ch_count c \<le> ch_capacity c"
    using rep by (auto simp: ch_rep_def wl_rep_def slots_ok_def)
  note rules = ch_moves_stay [OF rep] ch_moves_put [OF rep] ch_moves_take [OF rep]
  show ?thesis
  proof (cases op)
    case (CSend v a)
    then show ?thesis using e legal linked le rules ch_moves_queue(1) [OF rep _ _ _ wl_rep_fresh [OF l(1) _ new]]
      by (auto simp: ch_send_def split_beta cancels_def stays_def split: if_splits)
  next
    case (CTrySend v)
    then show ?thesis using e le rules by (auto simp: ch_trySend_def split_beta cancels_def stays_def split: if_splits)
  next
    case (CSendOrEnqueue v w)
    then show ?thesis using e legal linked le rules ch_moves_queue(1) [OF rep _ _ _ l(1)]
      by (cases w) (auto simp: ch_sendOrEnqueue_def enqueueLocked_def split_beta cancels_def stays_def split: if_splits)
  next
    case (CRecv a)
    then show ?thesis using e legal linked rules ch_moves_queue(2) [OF rep _ _ _ wl_rep_fresh [OF l(2) _ new]]
      by (auto simp: ch_recv_def split_beta cancels_def stays_def split: if_splits)
  next
    case CTryRecv
    then show ?thesis using e rules by (auto simp: ch_tryRecv_def split_beta cancels_def stays_def split: if_splits)
  next
    case (CRecvOrEnqueue w)
    then show ?thesis using e legal linked rules ch_moves_queue(2) [OF rep _ _ _ l(2)]
      by (cases w) (auto simp: ch_recvOrEnqueue_def enqueueLocked_def split_beta cancels_def stays_def split: if_splits)
  next
    case (CCancelSend a)
    then show ?thesis using e rep cancelWaiter_rep [OF l(1), of a]
      by (cases "cancelWaiter (ch_sstore c) (ch_senders c) a")
        (auto simp: ch_cancelSend_def ch_moves_def ch_rep_def intro!: exI [of _ "LeaveSend a"])
  next
    case (CCancelRecv a)
    then show ?thesis using e rep cancelWaiter_rep [OF l(2), of a]
      by (cases "cancelWaiter (ch_rstore c) (ch_receivers c) a")
        (auto simp: ch_cancelRecv_def ch_moves_def ch_rep_def intro!: exI [of _ "LeaveRecv a"])
  next
    case CClose
    from ch_close_law [OF rep] obtain ev c1 where
      c1: "ch_close c = Some (ev, c1)" "ch_rep c1 [] []" "ch_contents c1 = ch_contents c" by blast
    moreover from this(1) have "ch_capacity c1 = ch_capacity c" by (auto simp: ch_close_def Let_def split: option.splits)
    ultimately show ?thesis using CClose e
      by (auto simp: ch_moves_def ch_count_contents intro!: exI [of _ Empties])
  qed
qed

text \<open>The accounting: nobody is both queued and notified, and a side that has parties queued has
  enough notified ones (or lost that many) for what there is to take, or to fill.\<close>

definition side_ok :: "addr list \<Rightarrow> addr set \<Rightarrow> nat \<Rightarrow> nat \<Rightarrow> bool" where
  "side_ok queue notified lost work \<longleftrightarrow> finite notified \<and> notified \<inter> set queue = {} \<and> (queue \<noteq> [] \<longrightarrow> work \<le> card notified + lost)"

definition chan_inv :: "'a chan_sys \<Rightarrow> bool" where
  "chan_inv s \<longleftrightarrow> (\<exists>ss rs. ch_rep (cs_chan s) ss rs
     \<and> side_ok rs (cs_recvNotified s) (cs_recvLost s) (ch_count (cs_chan s))
     \<and> side_ok ss (cs_sendNotified s) (cs_sendLost s) (ch_capacity (cs_chan s) - ch_count (cs_chan s)))"


text \<open>A party that passed is no longer notified, and those a call took off the queue now are.\<close>

definition renotify :: "addr set \<Rightarrow> addr set \<Rightarrow> addr list \<Rightarrow> addr list \<Rightarrow> addr set" where
  "renotify n p q q' = (n - p) \<union> (set q - set q')"

lemma side_keep:
  assumes "side_ok q n l k" "p = {} \<and> k' \<le> k \<or> (\<exists>a. p = {a}) \<and> (k' + 1 \<le> k \<or> k' = 0 \<or> q = [])"
  shows "side_ok q (renotify n p q q) l k'"
  using assms by (fastforce simp: side_ok_def renotify_def card_Diff_singleton_if)

lemma side_pop:
  assumes "side_ok q n l k" "distinct q" "k' \<le> k + 1"
  shows "side_ok (tl q) (renotify n {} q (tl q)) l k'"
  using assms by (cases q) (auto simp: side_ok_def renotify_def insert_Diff_if)

lemma side_queue: "side_ok q n l k \<Longrightarrow> side_ok (q @ [a]) (renotify n {a} q (q @ [a])) l 0"
  by (auto simp: side_ok_def renotify_def)

lemma side_leave: "side_ok q n l k \<Longrightarrow> side_ok (removeAll a q) n l k"
  by (cases q) (auto simp: side_ok_def)

lemma side_empties: "side_ok q n l k \<Longrightarrow> side_ok [] (renotify n {} q []) l k'"
  by (auto simp: side_ok_def renotify_def)

lemma party_cases: "recv_party op = {} \<or> (\<exists>a. recv_party op = {a})" "send_party op = {} \<or> (\<exists>a. send_party op = {a})"
  by (cases op rule: recv_party.cases; simp) (cases op rule: send_party.cases; simp)

lemma taken_off_renotify:
  assumes "\<not> cancels op" "wl_rep st l q" "wl_rep st' l' q'"
  shows "(n - p) \<union> taken_off op st st' = renotify n p q q'"
  using assms by (auto simp: taken_off_def renotify_def wl_rep_def)

lemma chan_call_inv:
  assumes inv: "chan_inv s" and legal: "ch_legal (cs_chan s) op"
    and e: "ch_exec (\<lambda>_. waiter_here task parker) (cs_chan s) op = Some (ins, outs, c')"
  shows "chan_inv (cs_call s op c')"
proof -
  let ?c = "cs_chan s"
  obtain ss rs where rep: "ch_rep ?c ss rs" and r: "side_ok rs (cs_recvNotified s) (cs_recvLost s) (ch_count ?c)"
    and t: "side_ok ss (cs_sendNotified s) (cs_sendLost s) (ch_capacity ?c - ch_count ?c)" using inv by (auto simp: chan_inv_def)
  have "ch_moves ?c ss rs op c'" by (rule ch_exec_moves [OF rep legal _ e]) (simp add: waiter_here_def)
  then obtain m where m: "move_ok m op ?c" "ch_rep c' (moved_senders m ss) (moved_receivers m rs)"
    "ch_count c' = moved_count m (ch_count ?c)" "ch_capacity c' = ch_capacity ?c" by (auto simp: ch_moves_def)
  have d: "distinct ss" "distinct rs" "ch_closed ?c \<Longrightarrow> ss = []" "ch_count ?c \<le> ch_capacity ?c"
    using rep by (auto simp: ch_rep_def wl_rep_def slots_ok_def)
  show ?thesis
  proof (cases "cancels op")
    case True
    then have "recv_party op = {}" "send_party op = {}" "taken_off op st st' = {}" for st st' by (auto simp: cancels_def taken_off_def)
    moreover have "m = Stay \<or> (\<exists>a. m = LeaveSend a) \<or> (\<exists>a. m = LeaveRecv a)" using m(1) True by (cases m) (auto simp: cancels_def)
    ultimately show ?thesis using m r t side_leave unfolding chan_inv_def cs_call_def by fastforce
  next
    case False
    have w: "wl_rep (ch_rstore ?c) (ch_receivers ?c) rs" "wl_rep (ch_rstore c') (ch_receivers c') (moved_receivers m rs)"
      "wl_rep (ch_sstore ?c) (ch_senders ?c) ss" "wl_rep (ch_sstore c') (ch_senders c') (moved_senders m ss)"
      using rep m(2) by (simp_all add: ch_rep_def)
    note pc = party_cases [of op]
    have sd: "Suc (b - Suc a) \<le> b - a" if "a < b" for a b :: nat using that by simp
    have "side_ok (moved_receivers m rs) (renotify (cs_recvNotified s) (recv_party op) rs (moved_receivers m rs)) (cs_recvLost s) (ch_count c')"
      using m(1,3) r d(2) pc False side_keep [OF r, of "recv_party op"] side_pop [OF r d(2)] side_queue [OF r] side_empties [OF r]
      by (cases m) (auto simp: stays_def cancels_def)
    moreover have "side_ok (moved_senders m ss) (renotify (cs_sendNotified s) (send_party op) ss (moved_senders m ss)) (cs_sendLost s)
        (ch_capacity c' - ch_count c')"
      using m(1,3,4) t d pc False side_keep [OF t, of "send_party op" "ch_capacity c' - ch_count c'"] side_pop [OF t d(1)] side_queue [OF t] side_empties [OF t] sd
      by (cases m) (auto simp: stays_def cancels_def)
    ultimately show ?thesis using m(2) unfolding chan_inv_def cs_call_def
      by (auto simp: taken_off_renotify [OF False w(1,2)] taken_off_renotify [OF False w(3,4)])
  qed
qed

lemma waitGuard_rep:
  assumes "wl_rep st l xs" "waitGuard_destroy True st l a = (u, w, st', l')"
  shows "wl_rep st' l' (removeAll a xs)" "w \<longleftrightarrow> a \<notin> set xs"
proof -
  have k: "w_linked (st a) \<longleftrightarrow> a \<in> set xs" using assms(1) by (simp add: wl_rep_def)
  then show "w \<longleftrightarrow> a \<notin> set xs" using assms(2) by (auto simp: waitGuard_destroy_def split: if_splits prod.splits)
  show "wl_rep st' l' (removeAll a xs)"
  proof (cases "a \<in> set xs")
    case True
    then have "cancelWaiter st l a = (True, st', l')" using assms(2) k by (auto simp: waitGuard_destroy_def cancelWaiter_def split: prod.splits)
    then show ?thesis using cancelWaiter_rep [OF assms(1)] by blast
  next
    case False
    then show ?thesis using assms k by (simp add: waitGuard_destroy_def)
  qed
qed

lemma side_unwind: "side_ok q n l k \<Longrightarrow> side_ok (removeAll a q) (n - {a}) (l + (if a \<in> n then 1 else 0)) k"
  by (cases q) (auto simp: side_ok_def card_Diff_singleton_if)

lemma chan_step_inv:
  assumes "chan_inv s" "chan_step s s'"
  shows "chan_inv s'"
proof -
  from assms(1) obtain ss rs where rep: "ch_rep (cs_chan s) ss rs"
    and r: "side_ok rs (cs_recvNotified s) (cs_recvLost s) (ch_count (cs_chan s))"
    and t: "side_ok ss (cs_sendNotified s) (cs_sendLost s) (ch_capacity (cs_chan s) - ch_count (cs_chan s))" by (auto simp: chan_inv_def)
  then have k: "wl_rep (ch_sstore (cs_chan s)) (ch_senders (cs_chan s)) ss" "wl_rep (ch_rstore (cs_chan s)) (ch_receivers (cs_chan s)) rs"
    "\<And>a. w_linked (ch_sstore (cs_chan s) a) \<longleftrightarrow> a \<in> set ss" "\<And>a. w_linked (ch_rstore (cs_chan s) a) \<longleftrightarrow> a \<in> set rs"
    by (auto simp: ch_rep_def wl_rep_def)
  from assms(2) show ?thesis
  proof (cases rule: chan_step.cases)
    case (call op task parker ins outs c')
    then show ?thesis using chan_call_inv assms(1) by blast
  next
    case (callback_send a f x)
    then show ?thesis using rep r t k wl_rep_fresh [OF k(1), of a "waiter_callback f x"]
      by (auto simp: chan_inv_def ch_rep_def waiter_callback_def)
  next
    case (callback_recv a f x)
    then show ?thesis using rep r t k wl_rep_fresh [OF k(2), of a "waiter_callback f x"]
      by (auto simp: chan_inv_def ch_rep_def waiter_callback_def)
  next
    case (unwind_send a await c')
    obtain u w st l where g: "waitGuard_destroy True (ch_sstore (cs_chan s)) (ch_senders (cs_chan s)) a = (u, w, st, l)" by (rule prod_cases4)
    then have "c' = (cs_chan s)\<lparr>ch_sstore := st, ch_senders := l\<rparr>" using unwind_send by (simp add: ch_unwindSend_def)
    then show ?thesis unfolding chan_inv_def unwind_send(1) using rep r side_unwind [OF t, of a] waitGuard_rep(1) [OF k(1) g]
      by (intro exI [of _ "removeAll a ss"] exI [of _ rs]) (auto simp: ch_rep_def)
  next
    case (unwind_recv a await c')
    obtain u w st l where g: "waitGuard_destroy True (ch_rstore (cs_chan s)) (ch_receivers (cs_chan s)) a = (u, w, st, l)" by (rule prod_cases4)
    then have "c' = (cs_chan s)\<lparr>ch_rstore := st, ch_receivers := l\<rparr>" using unwind_recv by (simp add: ch_unwindRecv_def)
    then show ?thesis unfolding chan_inv_def unwind_recv(1) using rep t side_unwind [OF r, of a] waitGuard_rep(1) [OF k(2) g]
      by (intro exI [of _ ss] exI [of _ "removeAll a rs"]) (auto simp: ch_rep_def)
  qed
qed

definition chan_init :: "'a chan_sys \<Rightarrow> bool" where
  "chan_init s \<longleftrightarrow> (\<exists>capacity storage sst rst. ch_new capacity storage sst rst = Inr (cs_chan s) \<and> length storage = capacity
     \<and> (\<forall>a. \<not> w_linked (sst a)) \<and> (\<forall>a. \<not> w_linked (rst a)))
     \<and> cs_recvNotified s = {} \<and> cs_sendNotified s = {} \<and> cs_recvLost s = 0 \<and> cs_sendLost s = 0"

lemma ch_new_rep:
  assumes "ch_new capacity storage sst rst = Inr c" "length storage = capacity" "\<And>a. \<not> w_linked (sst a)" "\<And>a. \<not> w_linked (rst a)"
  shows "ch_rep c [] []" "ch_contents c = []" "ch_capacity c = capacity"
  using assms by (auto simp: ch_new_def ch_rep_def slots_ok_def wl_rep_empty ch_contents_def slots_list_def split: if_splits)

lemma chan_init_inv:
  assumes "chan_init s"
  shows "chan_inv s"
proof -
  have "ch_rep (cs_chan s) [] []" using assms ch_new_rep(1) unfolding chan_init_def by blast
  then show ?thesis using assms unfolding chan_init_def chan_inv_def
    by (intro exI [of _ "[]"]) (simp add: side_ok_def)
qed

interpretation chan: step_system chan_init chan_step chan_inv
  by unfold_locales (fact chan_init_inv, fact chan_step_inv)

section \<open>Properties\<close>




text \<open>Two receivers wait, a value is sent, and the first of them, which the send notified, is unwound.\<close>

definition demo_chan :: "nat channel" where
  "demo_chan = \<lparr>ch_capacity = 1, ch_slots = [0], ch_head = 0, ch_count = 0, ch_closed = False,
     ch_senders = wl_empty, ch_sstore = (\<lambda>_. waiter_here None 0), ch_receivers = wl_empty, ch_rstore = (\<lambda>_. waiter_here None 0)\<rparr>"

definition demo_sys :: "nat chan_sys" where
  "demo_sys = \<lparr>cs_chan = demo_chan, cs_recvNotified = {}, cs_sendNotified = {}, cs_recvLost = 0, cs_sendLost = 0\<rparr>"

lemma demo_sys_init: "chan_init demo_sys"
  unfolding chan_init_def demo_sys_def demo_chan_def
  by (intro conjI exI [of _ 1] exI [of _ "[0]"] exI [of _ "\<lambda>_. waiter_here None 0"]) (simp_all add: ch_new_def waiter_here_def)

definition demo_recv :: "nat chan_sys \<Rightarrow> addr \<Rightarrow> nat chan_sys" where
  "demo_recv s a = cs_call s (CRecv a) (snd (snd (ch_recv (cs_chan s) a (waiter_here None 0))))"

definition demo_send :: "nat chan_sys \<Rightarrow> nat \<Rightarrow> addr \<Rightarrow> nat chan_sys" where
  "demo_send s v a = cs_call s (CSend v a) (snd (snd (ch_send (cs_chan s) v a (waiter_here None 0))))"

definition demo_waiting :: "nat chan_sys" where "demo_waiting = demo_recv (demo_recv demo_sys 1) 2"
definition demo_sent :: "nat chan_sys" where "demo_sent = demo_send demo_waiting 7 3"

lemma chan_demo_steps:
  "\<not> w_linked (ch_rstore (cs_chan s) a) \<Longrightarrow> chan_step s (demo_recv s a)"
  "\<not> w_linked (ch_sstore (cs_chan s) a) \<Longrightarrow> chan_step s (demo_send s v a)"
  unfolding demo_recv_def demo_send_def
  by (rule chan_step.call [where task = None and parker = 0]; simp add: split_beta)+

lemmas demo_eval = demo_sys_def demo_chan_def demo_recv_def demo_send_def cs_call_def ch_recv_def ch_send_def pushBack_def wl_empty_def
  waiter_here_def taken_off_def cancels_def popReceiver_def popNotify_def popFront_def wl_unlink_def pushLocked_def waiter_notify_def
  slots_put_def wl_isEmpty_def Let_def

lemma demo_waiting_eval:
  "ch_receivers (cs_chan demo_waiting) = \<lparr>wl_head = Some 1, wl_tail = Some 2\<rparr>" "ch_count (cs_chan demo_waiting) = 0"
  "cs_recvNotified demo_waiting = {}" "cs_recvLost demo_waiting = 0" "\<not> ch_closed (cs_chan demo_waiting)" "ch_capacity (cs_chan demo_waiting) = 1"
  "ch_rstore (cs_chan demo_waiting) = (\<lambda>_. waiter_here None 0)(1 := (waiter_here None 0)\<lparr>w_linked := True, w_next := Some 2\<rparr>,
     2 := (waiter_here None 0)\<lparr>w_linked := True, w_prev := Some 1\<rparr>)"
  by (auto simp: demo_waiting_def demo_eval fun_eq_iff)


lemma demo_reaches: "chan_step\<^sup>*\<^sup>* demo_sys demo_sent"
proof -
  have "chan_step demo_sys (demo_recv demo_sys 1)" by (rule chan_demo_steps) (simp add: demo_eval)
  moreover have "chan_step (demo_recv demo_sys 1) demo_waiting" unfolding demo_waiting_def by (rule chan_demo_steps) (simp add: demo_eval)
  moreover have "chan_step demo_waiting demo_sent" unfolding demo_sent_def by (rule chan_demo_steps) (simp add: demo_waiting_def demo_eval)
  ultimately show ?thesis by (meson rtranclp.rtrancl_into_rtrancl rtranclp.rtrancl_refl)
qed

lemma demo_sent_eval:
  "ch_receivers (cs_chan demo_sent) = \<lparr>wl_head = Some 2, wl_tail = Some 2\<rparr>" "ch_count (cs_chan demo_sent) = 1"
  "cs_recvNotified demo_sent = {1}" "cs_recvLost demo_sent = 0" "\<not> w_linked (ch_rstore (cs_chan demo_sent) 1)"
  using demo_waiting_eval unfolding demo_sent_def
  by (auto simp: demo_send_def cs_call_def ch_send_def popReceiver_def popNotify_def popFront_def wl_unlink_def pushLocked_def waiter_notify_def
    taken_off_def cancels_def waiter_here_def Let_def split: if_splits)


text \<open>When the notified receiver is unwound, the value stays buffered beside a queued receiver that nobody will wake: the
  guard unlinks a queued waiter and does not pass on the notification of one that was taken off.\<close>

lemma channel_unwind_strands_receiver:
  "\<exists>s. chan_step\<^sup>*\<^sup>* demo_sys s \<and> \<not> wl_isEmpty (ch_receivers (cs_chan s)) \<and> ch_size (cs_chan s) = 1
     \<and> cs_recvNotified s = {} \<and> cs_recvLost s = 1"
proof -
  have u: "ch_unwindRecv (cs_chan demo_sent) 1 = (True, cs_chan demo_sent)"
    using demo_sent_eval by (simp add: ch_unwindRecv_def waitGuard_destroy_def)
  have "chan_step demo_sent (demo_sent\<lparr>cs_chan := cs_chan demo_sent, cs_recvNotified := cs_recvNotified demo_sent - {1},
      cs_recvLost := cs_recvLost demo_sent + (if 1 \<in> cs_recvNotified demo_sent then 1 else 0)\<rparr>)"
    by (rule chan_step.unwind_recv [OF _ u]) (simp add: demo_sent_eval)
  with demo_reaches show ?thesis using demo_sent_eval
    by (intro exI [of _ "demo_sent\<lparr>cs_recvNotified := {}, cs_recvLost := 1\<rparr>"])
      (auto simp: wl_isEmpty_def ch_size_def intro: rtranclp.rtrancl_into_rtrancl)
qed

end
