(* ===== verification/Event_Sources.thy ===== *)
theory Event_Sources
  imports Channel "HOL-Library.Sublist"
begin

text \<open>
  \<^verbatim>\<open>sync/Completion.h\<close>, \<^verbatim>\<open>sync/Stream.h\<close>, \<^verbatim>\<open>sync/Mailbox.h\<close> and \<^verbatim>\<open>sync/Select.h\<close>: sources that keep
  their own readiness and remember one awaiter as a waker by value.  What \<open>select\<close> relies on is
  the locale \<open>event_source\<close>, interpreted for each of the three sources.
\<close>

section \<open>The contract of a source\<close>

locale event_source =
  fixes isReady :: "'s \<Rightarrow> bool"
    and attach :: "'s \<Rightarrow> waker \<Rightarrow> bool \<times> 's"
    and detach :: "'s \<Rightarrow> waker \<Rightarrow> 's"
    and consumer :: "'s \<Rightarrow> waker"
  assumes attach_ready: "isReady s \<Longrightarrow> attach s w = (False, s)"
    and attach_waits: "\<not> isReady s \<Longrightarrow> attach s w = (True, s') \<Longrightarrow> consumer s' = w \<and> \<not> isReady s'"
    and attach_result: "fst (attach s w) \<longleftrightarrow> \<not> isReady s"
    and detach_ready: "isReady (detach s w) = isReady s"
    and detach_own: "consumer s = w \<Longrightarrow> consumer (detach s w) = waker_empty"
    and detach_other: "\<not> waker_eq (consumer s) w \<Longrightarrow> detach s w = s"
begin

lemma attach_detach_ready: "isReady (detach (snd (attach s w)) w) = isReady s"
  using attach_ready [of s w] attach_waits [of s w] attach_result [of s w] detach_ready
  by (cases "attach s w") (auto dest: sym)

lemma detached:
  assumes "waker_eq (consumer s) w \<Longrightarrow> consumer s = w" "w \<noteq> waker_empty"
  shows "consumer (detach s w) \<noteq> w"
  using assms detach_own detach_other by (metis waker_eq_def)

end

lemma waker_eq_iff: "waker_eq a b \<longleftrightarrow> a = b"
  by (cases a; cases b; cases "wk_token a"; cases "wk_token b") (auto simp: waker_eq_def)

section \<open>Stream\<close>

datatype Overflow = DropOldest | DropNewest

record 'a stream =
  sm_capacity :: nat
  sm_policy :: Overflow
  sm_slots :: "'a list"
  sm_head :: nat
  sm_count :: nat
  sm_closed :: bool
  sm_consumer :: waker
  sm_dropped :: nat

definition sm_new :: "nat \<Rightarrow> Overflow \<Rightarrow> 'a list \<Rightarrow> fatal + 'a stream" where
  "sm_new capacity policy storage =
     (if \<not> capacity \<ge> 1 then Inl (Fatal ''stackfull: Stream capacity must be at least 1'')
      else Inr \<lparr>sm_capacity = capacity, sm_policy = policy, sm_slots = storage, sm_head = 0, sm_count = 0,
                sm_closed = False, sm_consumer = waker_empty, sm_dropped = 0\<rparr>)"

definition latest_new :: "'a list \<Rightarrow> fatal + 'a stream" where
  "latest_new storage = sm_new 1 DropOldest storage"

definition takeConsumerLocked :: "'a stream \<Rightarrow> waker \<times> 'a stream" where
  "takeConsumerLocked s = (sm_consumer s, s\<lparr>sm_consumer := waker_empty\<rparr>)"

definition sm_push :: "'a stream \<Rightarrow> 'a \<Rightarrow> wake_event list \<times> 'a stream" where
  "sm_push s v =
     (if sm_closed s \<or> sm_count s = sm_capacity s \<and> sm_policy s = DropNewest
      then ([], s\<lparr>sm_dropped := sm_dropped s + 1\<rparr>)
      else let s1 = (if sm_count s = sm_capacity s
                     then s\<lparr>sm_head := (sm_head s + 1) mod sm_capacity s, sm_count := sm_count s - 1,
                            sm_dropped := sm_dropped s + 1\<rparr>
                     else s);
               s2 = s1\<lparr>sm_slots := slots_put (sm_capacity s1) (sm_slots s1) (sm_head s1) (sm_count s1) v,
                       sm_count := sm_count s1 + 1\<rparr>
           in case takeConsumerLocked s2 of (w, s3) \<Rightarrow> ([waker_wake w], s3))"

definition sm_close :: "'a stream \<Rightarrow> wake_event list \<times> 'a stream" where
  "sm_close s = (case takeConsumerLocked (s\<lparr>sm_closed := True\<rparr>) of (w, s') \<Rightarrow> ([waker_wake w], s'))"

definition sm_popLocked :: "'a stream \<Rightarrow> 'a \<times> 'a stream" where
  "sm_popLocked s = (sm_slots s ! sm_head s, s\<lparr>sm_head := (sm_head s + 1) mod sm_capacity s, sm_count := sm_count s - 1\<rparr>)"

definition sm_tryNext :: "'a stream \<Rightarrow> 'a option \<times> 'a stream" where
  "sm_tryNext s = (if sm_count s = 0 then (None, s) else case sm_popLocked s of (v, s') \<Rightarrow> (Some v, s'))"

text \<open>One pass of \<open>next\<close> and \<open>nextUntil\<close> under the lock; after RecvBlocked the caller blocks and
  repeats it (\<open>nextUntil\<close> ends with \<open>sm_tryNext\<close> when its deadline passes), and the scope guard
  detaches the waiter on every way out.\<close>

definition sm_next :: "'a stream \<Rightarrow> waker \<Rightarrow> 'a recv_pass \<times> 'a stream" where
  "sm_next s w =
     (if sm_count s \<noteq> 0 then (case sm_popLocked s of (v, s') \<Rightarrow> (Received v, s'))
      else if sm_closed s then (RecvClosed, s)
      else (RecvBlocked, s\<lparr>sm_consumer := w\<rparr>))"

definition sm_isReady :: "'a stream \<Rightarrow> bool" where
  "sm_isReady s \<longleftrightarrow> sm_count s \<noteq> 0 \<or> sm_closed s"

definition sm_attach :: "'a stream \<Rightarrow> waker \<Rightarrow> bool \<times> 'a stream" where
  "sm_attach s w = (if sm_count s \<noteq> 0 \<or> sm_closed s then (False, s) else (True, s\<lparr>sm_consumer := w\<rparr>))"

definition sm_detach :: "'a stream \<Rightarrow> waker \<Rightarrow> 'a stream" where
  "sm_detach s w = (if waker_eq (sm_consumer s) w then s\<lparr>sm_consumer := waker_empty\<rparr> else s)"

text \<open>\<open>nextUntil\<close> for a sequence of blocks: the environment acts on the stream while the caller is
  blocked and says whether the block ended by a wake (True) or by the deadline.\<close>

fun sm_nextUntil :: "(bool \<times> ('a stream \<Rightarrow> 'a stream)) list \<Rightarrow> 'a stream \<Rightarrow> waker \<Rightarrow> ('a option \<times> 'a stream) option" where
  "sm_nextUntil blocks s w =
     (case sm_next s w of
        (Received v, s') \<Rightarrow> Some (Some v, sm_detach s' w)
      | (RecvClosed, s') \<Rightarrow> Some (None, sm_detach s' w)
      | (RecvBlocked, s') \<Rightarrow>
          (case blocks of [] \<Rightarrow> None
           | (woken, env) # rest \<Rightarrow>
               if \<not> woken then (case sm_tryNext (env s') of (r, s'') \<Rightarrow> Some (r, sm_detach s'' w))
               else sm_nextUntil rest (env s') w))"

declare sm_nextUntil.simps [simp del]

definition sm_nextOrAttach :: "'a stream \<Rightarrow> (bool \<times> waker) option \<Rightarrow> 'a option \<times> TransferResult \<times> 'a stream" where
  "sm_nextOrAttach s waiter =
     (if sm_count s \<noteq> 0 then (case sm_popLocked s of (v, s') \<Rightarrow> (Some v, TDone, s'))
      else if sm_closed s then (None, TClosed, s)
      else case waiter of None \<Rightarrow> (None, TWouldBlock, s)
         | Some (cancelled, w) \<Rightarrow> if cancelled then (None, TCancelled, s)
                                  else (None, TEnqueued, s\<lparr>sm_consumer := w\<rparr>))"

text \<open>The second component: the waiter is marked cancelled.\<close>

definition sm_cancel :: "'a stream \<Rightarrow> waker \<Rightarrow> bool \<times> bool \<times> 'a stream" where
  "sm_cancel s w = (if waker_eq (sm_consumer s) w then (True, False, s\<lparr>sm_consumer := waker_empty\<rparr>) else (False, True, s))"

definition sm_contents :: "'a stream \<Rightarrow> 'a list" where
  "sm_contents s = slots_list (sm_capacity s) (sm_slots s) (sm_head s) (sm_count s)"

definition sm_inv :: "'a stream \<Rightarrow> bool" where
  "sm_inv s \<longleftrightarrow> slots_ok (sm_capacity s) (sm_slots s) (sm_head s) (sm_count s)"

interpretation stream: event_source sm_isReady sm_attach sm_detach sm_consumer
  by unfold_locales (auto simp: sm_isReady_def sm_attach_def sm_detach_def waker_eq_def split: if_splits)

text \<open>What a push leaves buffered.\<close>

definition sm_spec_push :: "nat \<Rightarrow> Overflow \<Rightarrow> bool \<Rightarrow> 'a list \<Rightarrow> 'a \<Rightarrow> 'a list \<times> nat" where
  "sm_spec_push capacity policy closed xs v =
     (if closed then (xs, 1)
      else if length xs < capacity then (xs @ [v], 0)
      else case policy of DropNewest \<Rightarrow> (xs, 1) | DropOldest \<Rightarrow> (tl xs @ [v], 1))"

lemma sm_push_law:
  assumes "sm_inv s" "sm_push s v = (ev, s')"
  shows "sm_inv s' \<and> sm_capacity s' = sm_capacity s \<and> sm_policy s' = sm_policy s \<and> sm_closed s' = sm_closed s
    \<and> (sm_contents s', sm_dropped s' - sm_dropped s) = sm_spec_push (sm_capacity s) (sm_policy s) (sm_closed s) (sm_contents s) v
    \<and> sm_dropped s \<le> sm_dropped s'"
proof -
  have len: "length (sm_contents s) = sm_count s" by (simp add: sm_contents_def)
  have ok: "slots_ok (sm_capacity s) (sm_slots s) (sm_head s) (sm_count s)" using assms(1) by (simp add: sm_inv_def)
  then have le: "sm_count s \<le> sm_capacity s" "sm_capacity s \<ge> 1" by (simp_all add: slots_ok_def)
  consider "sm_closed s \<or> sm_count s = sm_capacity s \<and> sm_policy s = DropNewest"
    | "\<not> sm_closed s" "sm_count s = sm_capacity s" "sm_policy s = DropOldest"
    | "\<not> sm_closed s" "sm_count s < sm_capacity s"
    using le Overflow.exhaust by (metis le_neq_implies_less)
  then show ?thesis
  proof cases
    case 1
    then show ?thesis using assms le len
      by (auto simp: sm_push_def sm_spec_push_def sm_inv_def sm_contents_def)
  next
    case 2
    let ?h = "(sm_head s + 1) mod sm_capacity s"
    note pop = slots_pop_list [OF ok]
    from 2 le have pos: "0 < sm_count s" by simp
    note put = slots_put_list [OF pop(2) [OF pos], of v]
    have "s' = s\<lparr>sm_head := ?h, sm_count := sm_count s, sm_dropped := sm_dropped s + 1,
        sm_slots := slots_put (sm_capacity s) (sm_slots s) ?h (sm_count s - 1) v, sm_consumer := waker_empty\<rparr>"
      using 2 assms(2) pos by (auto simp: sm_push_def Let_def takeConsumerLocked_def)
    with put pop(1) [OF pos] 2 pos len show ?thesis
      by (simp add: sm_inv_def sm_contents_def sm_spec_push_def)
  next
    case 3
    note put = slots_put_list [OF ok 3(2), of v]
    have "s' = s\<lparr>sm_count := sm_count s + 1, sm_slots := slots_put (sm_capacity s) (sm_slots s) (sm_head s) (sm_count s) v,
        sm_consumer := waker_empty\<rparr>"
      using 3 assms(2) by (auto simp: sm_push_def Let_def takeConsumerLocked_def)
    with put 3 len show ?thesis by (simp add: sm_inv_def sm_contents_def sm_spec_push_def)
  qed
qed

lemma sm_pop_law:
  assumes "sm_inv s" "sm_count s \<noteq> 0" "sm_popLocked s = (v, s')"
  shows "sm_inv s' \<and> sm_contents s = v # sm_contents s' \<and> sm_dropped s' = sm_dropped s \<and> sm_capacity s' = sm_capacity s
    \<and> sm_policy s' = sm_policy s \<and> sm_closed s' = sm_closed s"
  using assms slots_pop_list [of "sm_capacity s" "sm_slots s" "sm_head s" "sm_count s"]
  by (auto simp: sm_popLocked_def sm_inv_def sm_contents_def)

section \<open>Mailbox\<close>

record 'a mailbox =
  mb_queue :: "'a list"
  mb_closed :: bool
  mb_consumer :: waker

definition mb_new :: "'a mailbox" where
  "mb_new = \<lparr>mb_queue = [], mb_closed = False, mb_consumer = waker_empty\<rparr>"

definition mb_post :: "'a mailbox \<Rightarrow> 'a \<Rightarrow> wake_event list \<times> 'a mailbox" where
  "mb_post m f = (if mb_closed m then ([], m)
     else ([waker_wake (mb_consumer m)], m\<lparr>mb_queue := mb_queue m @ [f]\<rparr>))"

definition mb_close :: "'a mailbox \<Rightarrow> wake_event list \<times> 'a mailbox" where
  "mb_close m = ([waker_wake (mb_consumer m)], m\<lparr>mb_closed := True\<rparr>)"

definition mb_next :: "'a mailbox \<Rightarrow> waker \<Rightarrow> 'a recv_pass \<times> 'a mailbox" where
  "mb_next m w =
     (case mb_queue m of
        f # fs \<Rightarrow> (Received f, m\<lparr>mb_queue := fs\<rparr>)
      | [] \<Rightarrow> if mb_closed m then (RecvClosed, m) else (RecvBlocked, m\<lparr>mb_consumer := w\<rparr>))"

definition mb_isReady :: "'a mailbox \<Rightarrow> bool" where
  "mb_isReady m \<longleftrightarrow> mb_queue m \<noteq> [] \<or> mb_closed m"

definition mb_attach :: "'a mailbox \<Rightarrow> waker \<Rightarrow> bool \<times> 'a mailbox" where
  "mb_attach m w = (if mb_queue m \<noteq> [] \<or> mb_closed m then (False, m) else (True, m\<lparr>mb_consumer := w\<rparr>))"

definition mb_detach :: "'a mailbox \<Rightarrow> waker \<Rightarrow> 'a mailbox" where
  "mb_detach m w = (if waker_eq (mb_consumer m) w then m\<lparr>mb_consumer := waker_empty\<rparr> else m)"

text \<open>\<open>nextUntil\<close>: when the deadline passes, one last look at the queue.\<close>

fun mb_nextUntil :: "(bool \<times> ('a mailbox \<Rightarrow> 'a mailbox)) list \<Rightarrow> 'a mailbox \<Rightarrow> waker \<Rightarrow> ('a option \<times> 'a mailbox) option" where
  "mb_nextUntil blocks m w =
     (case mb_next m w of
        (Received f, m') \<Rightarrow> Some (Some f, mb_detach m' w)
      | (RecvClosed, m') \<Rightarrow> Some (None, mb_detach m' w)
      | (RecvBlocked, m') \<Rightarrow>
          (case blocks of [] \<Rightarrow> None
           | (woken, env) # rest \<Rightarrow>
               if \<not> woken then (case mb_queue (env m') of [] \<Rightarrow> Some (None, mb_detach (env m') w)
                                | f # fs \<Rightarrow> Some (Some f, mb_detach ((env m')\<lparr>mb_queue := fs\<rparr>) w))
               else mb_nextUntil rest (env m') w))"

declare mb_nextUntil.simps [simp del]

text \<open>\<open>run\<close>: closures in order until the mailbox is closed and drained; what the environment posts
  while the owner is blocked comes from the list.\<close>

partial_function (option) mb_run :: "('a mailbox \<Rightarrow> 'a mailbox) list \<Rightarrow> 'a mailbox \<Rightarrow> waker \<Rightarrow> 'a list \<Rightarrow> ('a list \<times> 'a mailbox) option" where
  "mb_run blocks m w done =
     (case mb_next m w of
        (Received f, m') \<Rightarrow> mb_run blocks (mb_detach m' w) w (done @ [f])
      | (RecvClosed, m') \<Rightarrow> Some (done, mb_detach m' w)
      | (RecvBlocked, m') \<Rightarrow>
          (case blocks of [] \<Rightarrow> None | env # rest \<Rightarrow> mb_run rest (env m') w done))"

interpretation mailbox: event_source mb_isReady mb_attach mb_detach mb_consumer
  by unfold_locales (auto simp: mb_isReady_def mb_attach_def mb_detach_def waker_eq_def split: if_splits)

lemma mb_run_drains:
  "mb_closed m \<Longrightarrow> \<exists>m'. mb_run blocks m w done = Some (done @ mb_queue m, m') \<and> mb_queue m' = []"
proof (induction "mb_queue m" arbitrary: m "done")
  case Nil
  then have "mb_next m w = (RecvClosed, m)" by (simp add: mb_next_def flip: Nil.hyps)
  then show ?case using Nil by (subst mb_run.simps) (simp add: mb_detach_def)
next
  case (Cons f fs)
  let ?m = "mb_detach (m\<lparr>mb_queue := fs\<rparr>) w"
  have "mb_next m w = (Received f, m\<lparr>mb_queue := fs\<rparr>)" by (simp add: mb_next_def flip: Cons.hyps(2))
  then have "mb_run blocks m w done = mb_run blocks ?m w (done @ [f])" by (subst mb_run.simps) simp
  moreover have "mb_queue ?m = fs" "mb_closed ?m" using Cons.prems by (simp_all add: mb_detach_def)
  ultimately show ?case using Cons.hyps(1) [of ?m "done @ [f]"] by (simp flip: Cons.hyps(2))
qed

section \<open>Completion\<close>

text \<open>An outcome carries a value, an error code or a captured exception.\<close>

record 'a outcome =
  oc_value :: "'a option"
  oc_error :: "nat option"
  oc_exception :: "nat option"

definition oc_bool :: "'a outcome \<Rightarrow> bool" where
  "oc_bool r \<longleftrightarrow> oc_error r = None \<and> oc_exception r = None"

definition oc_empty :: "'a outcome" where
  "oc_empty = \<lparr>oc_value = None, oc_error = None, oc_exception = None\<rparr>"

record 'a completion =
  cp_consumer :: waker
  cp_claimed :: bool
  cp_ready :: bool
  cp_outcome :: "'a outcome"

definition cp_new :: "'a completion" where
  "cp_new = \<lparr>cp_consumer = waker_empty, cp_claimed = False, cp_ready = False, cp_outcome = oc_empty\<rparr>"

definition cp_claim :: "'a completion \<Rightarrow> bool \<times> 'a completion" where
  "cp_claim c = (\<not> cp_claimed c, c\<lparr>cp_claimed := True\<rparr>)"

definition cp_publish :: "'a completion \<Rightarrow> wake_event list \<times> 'a completion" where
  "cp_publish c = ([waker_wake (cp_consumer c)], c\<lparr>cp_ready := True, cp_consumer := waker_empty\<rparr>)"

definition cp_deliver :: "'a completion \<Rightarrow> ('a outcome \<Rightarrow> 'a outcome) \<Rightarrow> wake_event list \<times> 'a completion" where
  "cp_deliver c write =
     (case cp_claim c of (won, c1) \<Rightarrow>
        if \<not> won then ([], c1) else cp_publish (c1\<lparr>cp_outcome := write (cp_outcome c1)\<rparr>))"

definition cp_set :: "'a completion \<Rightarrow> 'a \<Rightarrow> wake_event list \<times> 'a completion" where
  "cp_set c v = cp_deliver c (\<lambda>r. r\<lparr>oc_value := Some v\<rparr>)"

definition cp_fail :: "'a completion \<Rightarrow> nat \<Rightarrow> wake_event list \<times> 'a completion" where
  "cp_fail c e = cp_deliver c (\<lambda>r. r\<lparr>oc_error := Some e\<rparr>)"

definition cp_setException :: "'a completion \<Rightarrow> nat \<Rightarrow> wake_event list \<times> 'a completion" where
  "cp_setException c x = cp_deliver c (\<lambda>r. r\<lparr>oc_exception := Some x\<rparr>)"

definition cp_isReady :: "'a completion \<Rightarrow> bool" where
  "cp_isReady c = cp_ready c"

definition cp_attachOrReady :: "'a completion \<Rightarrow> bool \<Rightarrow> waker \<Rightarrow> EnqueueResult \<times> 'a completion" where
  "cp_attachOrReady c cancelled w =
     (if cp_ready c then (Ready, c) else if cancelled then (Cancelled, c) else (Enqueued, c\<lparr>cp_consumer := w\<rparr>))"

definition cp_cancel :: "'a completion \<Rightarrow> waker \<Rightarrow> bool \<times> bool \<times> 'a completion" where
  "cp_cancel c w = (if waker_eq (cp_consumer c) w then (True, False, c\<lparr>cp_consumer := waker_empty\<rparr>) else (False, True, c))"

definition cp_attach :: "'a completion \<Rightarrow> waker \<Rightarrow> bool \<times> 'a completion" where
  "cp_attach c w = (if cp_ready c then (False, c) else (True, c\<lparr>cp_consumer := w\<rparr>))"

definition cp_detach :: "'a completion \<Rightarrow> waker \<Rightarrow> 'a completion" where
  "cp_detach c w = (if waker_eq (cp_consumer c) w then c\<lparr>cp_consumer := waker_empty\<rparr> else c)"

interpretation completion: event_source cp_isReady cp_attach cp_detach cp_consumer
  by unfold_locales (auto simp: cp_isReady_def cp_attach_def cp_detach_def waker_eq_def split: if_splits)

text \<open>\<open>get\<close> and \<open>getUntil\<close>: each block lets the environment act on the completion and ends by a wake
  (True) or by the deadline; \<open>errc_timed_out\<close> is the error a timeout reports.\<close>

definition errc_timed_out :: nat where
  "errc_timed_out = 110"

fun cp_getUntil :: "(bool \<times> ('a completion \<Rightarrow> 'a completion)) list \<Rightarrow> 'a completion \<Rightarrow> waker \<Rightarrow> ('a outcome \<times> 'a completion) option" where
  "cp_getUntil blocks c w =
     (case cp_attach c w of
        (False, c1) \<Rightarrow> Some (cp_outcome c1, cp_detach c1 w)
      | (True, c1) \<Rightarrow>
          (case blocks of [] \<Rightarrow> None
           | (woken, env) # rest \<Rightarrow>
               if woken then cp_getUntil rest (env c1) w
               else if \<not> cp_isReady (env c1) then Some (oc_empty\<lparr>oc_error := Some errc_timed_out\<rparr>, cp_detach (env c1) w)
               else Some (cp_outcome (env c1), cp_detach (env c1) w)))"

declare cp_getUntil.simps [simp del]

fun cp_get :: "('a completion \<Rightarrow> 'a completion) list \<Rightarrow> 'a completion \<Rightarrow> waker \<Rightarrow> ('a outcome \<times> 'a completion) option" where
  "cp_get blocks c w =
     (case cp_attach c w of
        (False, c1) \<Rightarrow> Some (cp_outcome c1, cp_detach c1 w)
      | (True, c1) \<Rightarrow> (case blocks of [] \<Rightarrow> None | env # rest \<Rightarrow> cp_get rest (env c1) w))"

declare cp_get.simps [simp del]

section \<open>Select\<close>

definition kSelectTimedOut :: nat where
  "kSelectTimedOut = 2 ^ 64 - 1"

datatype 'a source = SrcCompletion "'a completion" | SrcStream "'a stream" | SrcMailbox "'a mailbox"

fun src_isReady :: "'a source \<Rightarrow> bool" where
  "src_isReady (SrcCompletion c) = cp_isReady c"
| "src_isReady (SrcStream s) = sm_isReady s"
| "src_isReady (SrcMailbox m) = mb_isReady m"

fun src_attach :: "'a source \<Rightarrow> waker \<Rightarrow> bool \<times> 'a source" where
  "src_attach (SrcCompletion c) w = (case cp_attach c w of (r, c') \<Rightarrow> (r, SrcCompletion c'))"
| "src_attach (SrcStream s) w = (case sm_attach s w of (r, s') \<Rightarrow> (r, SrcStream s'))"
| "src_attach (SrcMailbox m) w = (case mb_attach m w of (r, m') \<Rightarrow> (r, SrcMailbox m'))"

fun src_detach :: "'a source \<Rightarrow> waker \<Rightarrow> 'a source" where
  "src_detach (SrcCompletion c) w = SrcCompletion (cp_detach c w)"
| "src_detach (SrcStream s) w = SrcStream (sm_detach s w)"
| "src_detach (SrcMailbox m) w = SrcMailbox (mb_detach m w)"

fun src_consumer :: "'a source \<Rightarrow> waker" where
  "src_consumer (SrcCompletion c) = cp_consumer c"
| "src_consumer (SrcStream s) = sm_consumer s"
| "src_consumer (SrcMailbox m) = mb_consumer m"

interpretation source: event_source src_isReady src_attach src_detach src_consumer
proof unfold_locales
  fix s s' :: "'a source" and w
  show "src_isReady s \<Longrightarrow> src_attach s w = (False, s)"
    by (cases s) (auto simp: completion.attach_ready stream.attach_ready mailbox.attach_ready)
  show "\<not> src_isReady s \<Longrightarrow> src_attach s w = (True, s') \<Longrightarrow> src_consumer s' = w \<and> \<not> src_isReady s'"
    by (cases s) (auto split: prod.splits dest: completion.attach_waits stream.attach_waits mailbox.attach_waits)
  show "fst (src_attach s w) \<longleftrightarrow> \<not> src_isReady s"
    by (cases s) (auto simp: split_beta completion.attach_result stream.attach_result mailbox.attach_result)
  show "src_isReady (src_detach s w) = src_isReady s"
    by (cases s) (simp_all add: completion.detach_ready stream.detach_ready mailbox.detach_ready)
  show "src_consumer s = w \<Longrightarrow> src_consumer (src_detach s w) = waker_empty"
    by (cases s) (simp_all add: completion.detach_own stream.detach_own mailbox.detach_own)
  show "\<not> waker_eq (src_consumer s) w \<Longrightarrow> src_detach s w = s"
    by (cases s) (simp_all add: completion.detach_other stream.detach_other mailbox.detach_other)
qed

fun firstReadyFrom :: "nat \<Rightarrow> bool list \<Rightarrow> nat" where
  "firstReadyFrom i [] = kSelectTimedOut"
| "firstReadyFrom i (r # rs) = (if r then i else firstReadyFrom (Suc i) rs)"

definition firstReady :: "'a source list \<Rightarrow> nat" where
  "firstReady srcs = firstReadyFrom 0 (map src_isReady srcs)"

definition attachAll :: "waker \<Rightarrow> 'a source list \<Rightarrow> bool \<times> 'a source list" where
  "attachAll w srcs = (let attached = map (\<lambda>s. src_attach s w) srcs in (list_all fst attached, map snd attached))"

definition detachAllSources :: "waker \<Rightarrow> 'a source list \<Rightarrow> 'a source list" where
  "detachAllSources w srcs = map (\<lambda>s. src_detach s w) srcs"

text \<open>One round of the environment: what it does between the scan and the attach, what it does
  while the caller is blocked, and whether the block ended by a wake.\<close>

record 'a select_env =
  se_between :: "'a source list \<Rightarrow> 'a source list"
  se_blocked :: "'a source list \<Rightarrow> 'a source list"
  se_woken :: bool

fun selectImpl :: "bool \<Rightarrow> 'a select_env list \<Rightarrow> 'a source list \<Rightarrow> waker \<Rightarrow> (nat \<times> 'a source list) option" where
  "selectImpl hasDeadline envs srcs w =
     (if firstReady srcs \<noteq> kSelectTimedOut then Some (firstReady srcs, srcs)
      else case envs of [] \<Rightarrow> None
         | e # rest \<Rightarrow>
             (case attachAll w (se_between e srcs) of
                (False, srcs1) \<Rightarrow> selectImpl hasDeadline rest (detachAllSources w srcs1) w
              | (True, srcs1) \<Rightarrow>
                  let srcs2 = se_blocked e srcs1 in
                  if hasDeadline \<and> \<not> se_woken e then Some (firstReady srcs2, detachAllSources w srcs2)
                  else selectImpl hasDeadline rest (detachAllSources w srcs2) w))"

declare selectImpl.simps [simp del]

lemma firstReadyFrom_spec:
  "firstReadyFrom i rs = kSelectTimedOut \<and> (\<forall>j<length rs. \<not> rs ! j)
   \<or> (\<exists>k<length rs. firstReadyFrom i rs = i + k \<and> rs ! k \<and> (\<forall>j<k. \<not> rs ! j))"
proof (induction rs arbitrary: i)
  case (Cons r rs)
  show ?case
  proof (cases r)
    case True
    then show ?thesis by auto
  next
    case False
    from Cons [of "Suc i"] show ?thesis
    proof
      assume "\<exists>k<length rs. firstReadyFrom (Suc i) rs = Suc i + k \<and> rs ! k \<and> (\<forall>j<k. \<not> rs ! j)"
      then obtain k where "k < length rs" "firstReadyFrom (Suc i) rs = Suc i + k" "rs ! k" "\<forall>j<k. \<not> rs ! j" by blast
      with False show ?thesis by (intro disjI2 exI [of _ "Suc k"]) (auto simp: nth_Cons split: nat.splits)
    qed (use False in \<open>auto simp: nth_Cons split: nat.splits\<close>)
  qed
qed simp

lemma firstReady_ready:
  assumes "firstReady srcs \<noteq> kSelectTimedOut"
  shows "firstReady srcs < length srcs \<and> src_isReady (srcs ! firstReady srcs) \<and> (\<forall>j<firstReady srcs. \<not> src_isReady (srcs ! j))"
  using firstReadyFrom_spec [of 0 "map src_isReady srcs"] assms by (auto simp: firstReady_def)

lemma length_attachAll [simp]: "length (snd (attachAll w srcs)) = length srcs"
  by (simp add: attachAll_def Let_def)

lemma src_detached: "w \<noteq> waker_empty \<Longrightarrow> src_consumer (src_detach s w) \<noteq> w"
  by (rule source.detached) (simp_all add: waker_eq_iff)

lemma src_isReady_detach: "firstReady (detachAllSources w srcs) = firstReady srcs"
  by (simp add: firstReady_def detachAllSources_def comp_def source.detach_ready)

section \<open>Streams over a sequence of calls\<close>

datatype 'a sm_op = SmPush 'a | SmNext | SmClose

fun sm_exec :: "'a stream \<Rightarrow> 'a sm_op \<Rightarrow> 'a list \<times> 'a stream" where
  "sm_exec s (SmPush v) = ([], snd (sm_push s v))"
| "sm_exec s SmNext = (case sm_tryNext s of (r, s') \<Rightarrow> (case r of Some v \<Rightarrow> [v] | None \<Rightarrow> [], s'))"
| "sm_exec s SmClose = ([], snd (sm_close s))"

fun sm_run :: "'a stream \<Rightarrow> 'a sm_op list \<Rightarrow> 'a list \<times> 'a stream" where
  "sm_run s [] = ([], s)"
| "sm_run s (op # ops) = (case sm_exec s op of (o1, s1) \<Rightarrow> case sm_run s1 ops of (os, s2) \<Rightarrow> (o1 @ os, s2))"

fun sm_pushed :: "'a sm_op list \<Rightarrow> 'a list" where
  "sm_pushed [] = []"
| "sm_pushed (SmPush v # ops) = v # sm_pushed ops"
| "sm_pushed (_ # ops) = sm_pushed ops"

lemma sm_exec_law:
  assumes "sm_inv s" "sm_exec s op = (o1, s1)"
  shows "sm_inv s1 \<and> subseq (o1 @ sm_contents s1) (sm_contents s @ sm_pushed [op])
    \<and> length (sm_contents s) + length (sm_pushed [op]) + sm_dropped s = length o1 + length (sm_contents s1) + sm_dropped s1"
proof (cases op)
  case (SmPush v)
  obtain ev s' where p: "sm_push s v = (ev, s')" by (cases "sm_push s v")
  note l = sm_push_law [OF assms(1) p]
  have "subseq (tl xs @ [v]) (xs @ [v])" "subseq xs (xs @ [v])" for xs :: "'a list"
    by (auto intro: list_emb_append_mono simp: tl_def split: list.split)
  moreover have "sm_contents s = [] \<Longrightarrow> length (sm_contents s) < sm_capacity s"
    using assms(1) by (auto simp: sm_inv_def slots_ok_def)
  ultimately show ?thesis
    using l assms(2) SmPush p by (cases "sm_contents s") (auto simp: sm_spec_push_def split: if_splits Overflow.splits)
next
  case SmNext
  obtain v s' where p: "sm_popLocked s = (v, s')" by (cases "sm_popLocked s")
  show ?thesis
  proof (cases "sm_count s = 0")
    case True
    then show ?thesis using assms SmNext by (auto simp: sm_tryNext_def)
  next
    case False
    then show ?thesis using sm_pop_law [OF assms(1) False p] assms(2) SmNext p by (auto simp: sm_tryNext_def)
  qed
next
  case SmClose
  then show ?thesis using assms by (auto simp: sm_close_def takeConsumerLocked_def sm_inv_def sm_contents_def)
qed

lemma sm_pushed_Cons: "sm_pushed (op # ops) = sm_pushed [op] @ sm_pushed ops"
  by (cases op) simp_all

section \<open>A completion with its producers and its awaiter\<close>

text \<open>
  Producers race on the claim; the winner writes, publishes under the lock (taking the
  registered waker) and wakes after it; the claim remembers its winner.  The awaiter registers under the lock while the
  completion is not ready and blocks; a wake leaves a permit for a block that has not begun.
\<close>

datatype producer_pc = DIdle | DWon | DWritten | DWaking | DDone

datatype awaiter_pc = WRunning | WAttached | WBlocked | WGot

record comp_sys =
  cm_claimed :: "nat option"
  cm_ready :: bool
  cm_value :: "nat option"
  cm_registered :: bool
  cm_permit :: bool
  cm_pc :: "nat \<Rightarrow> producer_pc"
  cm_awaiter :: awaiter_pc

inductive comp_step :: "comp_sys \<Rightarrow> comp_sys \<Rightarrow> bool" where
  c_win: "cm_pc s t = DIdle \<Longrightarrow> cm_claimed s = None \<Longrightarrow> comp_step s (s\<lparr>cm_claimed := Some t, cm_pc := (cm_pc s)(t := DWon)\<rparr>)"
| c_lose: "cm_pc s t = DIdle \<Longrightarrow> cm_claimed s \<noteq> None \<Longrightarrow> comp_step s (s\<lparr>cm_pc := (cm_pc s)(t := DDone)\<rparr>)"
| c_write: "cm_pc s t = DWon \<Longrightarrow> comp_step s (s\<lparr>cm_value := Some t, cm_pc := (cm_pc s)(t := DWritten)\<rparr>)"
| c_publish: "cm_pc s t = DWritten \<Longrightarrow>
    comp_step s (s\<lparr>cm_ready := True, cm_registered := False,
                   cm_pc := (cm_pc s)(t := (if cm_registered s then DWaking else DDone))\<rparr>)"
| c_wake: "cm_pc s t = DWaking \<Longrightarrow>
    comp_step s (s\<lparr>cm_pc := (cm_pc s)(t := DDone), cm_permit := cm_awaiter s \<noteq> WBlocked,
                   cm_awaiter := (if cm_awaiter s = WBlocked then WRunning else cm_awaiter s)\<rparr>)"
| a_attach: "cm_awaiter s = WRunning \<Longrightarrow> \<not> cm_ready s \<Longrightarrow>
    comp_step s (s\<lparr>cm_registered := True, cm_awaiter := WAttached\<rparr>)"
| a_ready: "cm_awaiter s = WRunning \<Longrightarrow> cm_ready s \<Longrightarrow> comp_step s (s\<lparr>cm_awaiter := WGot\<rparr>)"
| a_block: "cm_awaiter s = WAttached \<Longrightarrow> \<not> cm_permit s \<Longrightarrow> comp_step s (s\<lparr>cm_awaiter := WBlocked\<rparr>)"
| a_pass: "cm_awaiter s = WAttached \<Longrightarrow> cm_permit s \<Longrightarrow>
    comp_step s (s\<lparr>cm_permit := False, cm_awaiter := WRunning\<rparr>)"
| a_spurious: "cm_awaiter s = WBlocked \<Longrightarrow> comp_step s (s\<lparr>cm_awaiter := WRunning\<rparr>)"

definition comp_init :: "comp_sys \<Rightarrow> bool" where
  "comp_init s \<longleftrightarrow> cm_claimed s = None \<and> \<not> cm_ready s \<and> cm_value s = None \<and> \<not> cm_registered s \<and> \<not> cm_permit s
     \<and> (\<forall>t. cm_pc s t = DIdle) \<and> cm_awaiter s = WRunning"

definition comp_inv :: "comp_sys \<Rightarrow> bool" where
  "comp_inv s \<longleftrightarrow> (\<forall>t. cm_pc s t \<in> {DWon, DWritten} \<longrightarrow> cm_claimed s = Some t \<and> \<not> cm_ready s)
     \<and> (\<forall>t. cm_pc s t = DWritten \<longrightarrow> cm_value s = Some t)
     \<and> (cm_ready s \<longrightarrow> cm_claimed s \<noteq> None \<and> cm_value s = cm_claimed s \<and> \<not> cm_registered s)
     \<and> (cm_awaiter s \<in> {WAttached, WBlocked} \<and> \<not> cm_permit s \<longrightarrow> cm_registered s \<or> (\<exists>t. cm_pc s t = DWaking))
     \<and> (cm_permit s \<longrightarrow> cm_awaiter s \<noteq> WBlocked)"

lemma comp_invD:
  assumes "comp_inv s"
  shows "\<And>t. cm_pc s t \<in> {DWon, DWritten} \<Longrightarrow> cm_claimed s = Some t \<and> \<not> cm_ready s"
    "\<And>t. cm_pc s t = DWritten \<Longrightarrow> cm_value s = Some t"
    "cm_ready s \<Longrightarrow> cm_claimed s \<noteq> None \<and> cm_value s = cm_claimed s \<and> \<not> cm_registered s"
    "cm_awaiter s \<in> {WAttached, WBlocked} \<Longrightarrow> \<not> cm_permit s \<Longrightarrow> cm_registered s \<or> (\<exists>t. cm_pc s t = DWaking)"
    "cm_permit s \<Longrightarrow> cm_awaiter s \<noteq> WBlocked"
  using assms unfolding comp_inv_def by blast+

text \<open>What a step of one producer has to show.\<close>

lemma comp_inv_producer:
  assumes pc: "cm_pc s' = (cm_pc s)(t := p)"
    and others: "\<And>u. u \<noteq> t \<Longrightarrow> cm_pc s u \<in> {DWon, DWritten} \<Longrightarrow>
      cm_claimed s' = Some u \<and> \<not> cm_ready s' \<and> (cm_pc s u = DWritten \<longrightarrow> cm_value s' = Some u)"
    and own: "p \<in> {DWon, DWritten} \<Longrightarrow> cm_claimed s' = Some t \<and> \<not> cm_ready s' \<and> (p = DWritten \<longrightarrow> cm_value s' = Some t)"
    and ready: "cm_ready s' \<Longrightarrow> cm_claimed s' \<noteq> None \<and> cm_value s' = cm_claimed s' \<and> \<not> cm_registered s'"
    and waits: "cm_awaiter s' \<in> {WAttached, WBlocked} \<Longrightarrow> \<not> cm_permit s' \<Longrightarrow>
      cm_registered s' \<or> p = DWaking \<or> (\<exists>u. u \<noteq> t \<and> cm_pc s u = DWaking)"
    and permit: "cm_permit s' \<Longrightarrow> cm_awaiter s' \<noteq> WBlocked"
  shows "comp_inv s'"
proof -
  have "\<exists>u. cm_pc s' u = DWaking" if "p = DWaking \<or> (\<exists>u. u \<noteq> t \<and> cm_pc s u = DWaking)"
    using that by (auto simp: pc)
  moreover have "cm_claimed s' = Some u \<and> \<not> cm_ready s' \<and> (cm_pc s' u = DWritten \<longrightarrow> cm_value s' = Some u)"
    if "cm_pc s' u \<in> {DWon, DWritten}" for u
    using that others [of u] own by (cases "u = t") (simp_all add: pc)
  ultimately show ?thesis using ready waits permit unfolding comp_inv_def by blast
qed

lemma comp_step_inv:
  assumes "comp_inv s" "comp_step s s'"
  shows "comp_inv s'"
proof -
  note d = comp_invD [OF assms(1)]
  have one: "u = t" if "cm_pc s t \<in> {DWon, DWritten}" "cm_pc s u \<in> {DWon, DWritten}" for t u
    using d(1) [OF that(1)] d(1) [OF that(2)] by simp
  have keep: "\<exists>u. u \<noteq> t \<and> cm_pc s u = DWaking" if "\<exists>u. cm_pc s u = DWaking" "cm_pc s t \<noteq> DWaking" for t
    using that by metis
  from assms(2) show ?thesis
  proof cases
    case (c_win t)
    have "cm_pc s u \<notin> {DWon, DWritten}" for u using d(1) [of u] c_win by auto
    with c_win d(3-5) keep [of t] show ?thesis
      by (intro comp_inv_producer [of _ s t DWon]) auto
  next
    case (c_lose t)
    then show ?thesis using d keep [of t] by (intro comp_inv_producer [of _ s t DDone]) auto
  next
    case (c_write t)
    then show ?thesis using d one [of t] keep [of t] by (intro comp_inv_producer [of _ s t DWritten]) auto
  next
    case (c_publish t)
    then have "cm_claimed s = Some t" "cm_value s = Some t" using d(1,2) [of t] by simp_all
    with c_publish show ?thesis using d(4,5) one [of t] keep [of t]
      by (intro comp_inv_producer [of _ s t "if cm_registered s then DWaking else DDone"]) (auto split: if_splits)
  next
    case (c_wake t)
    then show ?thesis using d by (intro comp_inv_producer [of _ s t DDone]) (auto split: if_splits)
  qed (use d in \<open>auto simp: comp_inv_def\<close>)
qed

interpretation comp: step_system comp_init comp_step comp_inv
  by unfold_locales (simp add: comp_init_def comp_inv_def, fact comp_step_inv)

section \<open>Properties\<close>

text \<open>a stream never reorders and never loses count: over any sequence of pushes, takes and
  a close, what is taken followed by what is still buffered is a subsequence of what was
  pushed, and every pushed item was taken, is buffered or is counted as dropped.\<close>

theorem stream_order_and_accounting:
  assumes "sm_inv s" "sm_run s ops = (outs, s')"
  shows "sm_inv s' \<and> subseq (outs @ sm_contents s') (sm_contents s @ sm_pushed ops)
    \<and> length (sm_contents s) + length (sm_pushed ops) + sm_dropped s = length outs + length (sm_contents s') + sm_dropped s'"
  using assms
proof (induction ops arbitrary: s outs)
  case Nil
  then show ?case by simp
next
  case (Cons op ops)
  obtain o1 s1 where e: "sm_exec s op = (o1, s1)" by (cases "sm_exec s op")
  obtain os s2 where r: "sm_run s1 ops = (os, s2)" by (cases "sm_run s1 ops")
  with e Cons.prems(2) have outs: "outs = o1 @ os" "s2 = s'" by auto
  note l = sm_exec_law [OF Cons.prems(1) e]
  from Cons.IH [of s1 os] l r outs have ih: "sm_inv s'" "subseq (os @ sm_contents s') (sm_contents s1 @ sm_pushed ops)"
    "length (sm_contents s1) + length (sm_pushed ops) + sm_dropped s1 = length os + length (sm_contents s') + sm_dropped s'" by auto
  have "subseq (o1 @ (os @ sm_contents s')) (o1 @ (sm_contents s1 @ sm_pushed ops))"
    using ih(2) by (simp only: subseq_append')
  also have "subseq (o1 @ (sm_contents s1 @ sm_pushed ops)) ((sm_contents s @ sm_pushed [op]) @ sm_pushed ops)"
    using l by (simp only: append.assoc [symmetric]) (rule list_emb_append_mono, simp_all)
  finally have "subseq (outs @ sm_contents s') (sm_contents s @ sm_pushed (op # ops))"
    using sm_pushed_Cons [of op ops] by (simp add: outs)
  moreover have "length (sm_pushed (op # ops)) = length (sm_pushed [op]) + length (sm_pushed ops)"
    using sm_pushed_Cons [of op ops] by simp
  ultimately show ?case using l ih(1,3) outs(1) by simp
qed

theorem stream_order_and_accounting_witness:
  "\<exists>s outs s'. sm_new 2 DropOldest [0, 0 :: nat] = Inr s \<and> sm_run s [SmPush 1, SmPush 2, SmPush 3, SmNext, SmClose, SmPush 4] = (outs, s')
    \<and> subseq (outs @ sm_contents s') [1, 2, 3, 4] \<and> 4 = length outs + length (sm_contents s') + sm_dropped s'"
proof -
  obtain s where s: "sm_new 2 DropOldest [0, 0 :: nat] = Inr s" by (simp add: sm_new_def)
  then have "sm_inv s" "sm_contents s = []" "sm_dropped s = 0"
    by (auto simp: sm_new_def sm_inv_def slots_ok_def sm_contents_def slots_list_def)
  moreover obtain outs s' where "sm_run s [SmPush 1, SmPush 2, SmPush 3, SmNext, SmClose, SmPush 4] = (outs, s')"
    by (cases "sm_run s [SmPush 1, SmPush 2, SmPush 3, SmNext, SmClose, SmPush 4]")
  ultimately show ?thesis
    using s stream_order_and_accounting [of s "[SmPush 1, SmPush 2, SmPush 3, SmNext, SmClose, SmPush 4]" outs s'] by auto
qed

text \<open>an open drop-oldest stream holds exactly the newest items: after any pushes it buffers
  the last \<open>capacity\<close> of what it held followed by what was pushed; a \<open>Latest\<close> holds the last item.\<close>

theorem stream_keeps_newest:
  assumes "sm_inv s" "\<not> sm_closed s" "sm_policy s = DropOldest"
  shows "sm_contents (snd (sm_run s (map SmPush vs)))
    = drop (length (sm_contents s @ vs) - sm_capacity s) (sm_contents s @ vs)"
  using assms
proof (induction vs arbitrary: s)
  case Nil
  then show ?case by (simp add: sm_inv_def slots_ok_def sm_contents_def)
next
  case (Cons v vs)
  obtain ev s1 where p: "sm_push s v = (ev, s1)" by (cases "sm_push s v")
  note l = sm_push_law [OF Cons.prems(1) p]
  have le: "length (sm_contents s) \<le> sm_capacity s" "sm_capacity s \<ge> 1"
    using Cons.prems(1) by (simp_all add: sm_inv_def slots_ok_def sm_contents_def)
  have "sm_contents (snd (sm_run s (map SmPush (v # vs)))) = sm_contents (snd (sm_run s1 (map SmPush vs)))"
    by (simp add: p split_beta)
  also have "\<dots> = drop (length (sm_contents s1 @ vs) - sm_capacity s1) (sm_contents s1 @ vs)"
    using l Cons.prems by (intro Cons.IH) auto
  also have "\<dots> = drop (length (sm_contents s @ v # vs) - sm_capacity s) (sm_contents s @ v # vs)"
  proof (cases "length (sm_contents s) < sm_capacity s")
    case True
    with l Cons.prems show ?thesis by (simp add: sm_spec_push_def)
  next
    case False
    with le obtain x xs where xs: "sm_contents s = x # xs" by (cases "sm_contents s") auto
    with False l Cons.prems le show ?thesis by (simp add: sm_spec_push_def Suc_diff_le)
  qed
  finally show ?case .
qed

theorem stream_keeps_newest_witness:
  "\<exists>s. latest_new [0 :: nat] = Inr s \<and> sm_contents (snd (sm_run s (map SmPush [4, 5, 6]))) = [6]"
proof -
  obtain s where s: "latest_new [0 :: nat] = Inr s" by (simp add: latest_new_def sm_new_def)
  then have "sm_inv s" "\<not> sm_closed s" "sm_policy s = DropOldest" "sm_capacity s = 1" "sm_contents s = []"
    by (auto simp: latest_new_def sm_new_def sm_inv_def slots_ok_def sm_contents_def slots_list_def)
  with s stream_keeps_newest [of s "[4, 5, 6]"] show ?thesis by (simp add: numeral_2_eq_2)
qed

text \<open>a completion is delivered once: whichever producers race, once it is ready its value is
  that of the one producer that won the claim, and an awaiter that is registered or blocked
  without a pending wake is still registered or is about to be woken.\<close>

theorem completion_delivers_once:
  assumes "comp_init s" "comp_step\<^sup>*\<^sup>* s s'"
  shows "(cm_ready s' \<longrightarrow> (\<exists>t. cm_claimed s' = Some t \<and> cm_value s' = Some t))
    \<and> (cm_ready s' \<and> cm_awaiter s' = WBlocked \<longrightarrow> (\<exists>t. cm_pc s' t = DWaking))
    \<and> (\<forall>s''. cm_ready s' \<and> comp_step\<^sup>*\<^sup>* s' s'' \<longrightarrow> cm_ready s'' \<and> cm_value s'' = cm_value s')"
proof (intro conjI allI impI)
  note inv = comp.reachable_inv [OF assms]
  note d = comp_invD [OF inv]
  show "cm_ready s' \<Longrightarrow> \<exists>t. cm_claimed s' = Some t \<and> cm_value s' = Some t" using d(3) by auto
  show "cm_ready s' \<and> cm_awaiter s' = WBlocked \<Longrightarrow> \<exists>t. cm_pc s' t = DWaking"
    using d(3-5) by auto
  fix s'' assume a: "cm_ready s' \<and> comp_step\<^sup>*\<^sup>* s' s''"
  then have "comp_step\<^sup>*\<^sup>* s' s''" by simp
  then have "cm_ready s'' \<and> cm_value s'' = cm_value s'"
  proof (induction rule: rtranclp_induct)
    case base
    with a show ?case by simp
  next
    case (step y z)
    have "comp_inv y" using comp.steps_inv [OF step.hyps(1) inv] .
    note active = comp_invD(1) [OF this]
    from step.hyps(2) show ?case using active step.IH by cases auto
  qed
  then show "cm_ready s''" "cm_value s'' = cm_value s'" by simp_all
qed

theorem completion_delivers_once_witness:
  "let s = \<lparr>cm_claimed = None, cm_ready = False, cm_value = None, cm_registered = False, cm_permit = False,
            cm_pc = \<lambda>_. DIdle, cm_awaiter = WRunning\<rparr>;
       s' = s\<lparr>cm_claimed := Some 3, cm_pc := (cm_pc s)(3 := DWon)\<rparr>
   in comp_step\<^sup>*\<^sup>* s s' \<and> (cm_ready s' \<longrightarrow> (\<exists>t. cm_claimed s' = Some t \<and> cm_value s' = Some t))"
proof -
  let ?s = "\<lparr>cm_claimed = None, cm_ready = False, cm_value = None, cm_registered = False, cm_permit = False,
            cm_pc = \<lambda>_. DIdle, cm_awaiter = WRunning\<rparr>"
  have "comp_step\<^sup>*\<^sup>* ?s (?s\<lparr>cm_claimed := Some 3, cm_pc := (cm_pc ?s)(3 := DWon)\<rparr>)"
    by (intro r_into_rtranclp comp_step.c_win) simp_all
  moreover have "comp_init ?s" by (simp add: comp_init_def)
  ultimately show ?thesis using completion_delivers_once [of ?s] by (simp add: Let_def)
qed

text \<open>select answers correctly: whatever the sources do between its scan, its registrations and
  its blocks, an index it returns is that of a ready source with no ready source before it, it
  reports a timeout only with a deadline and with no source ready, and if it ever registered, it
  leaves no source holding its waker.\<close>

theorem select_first_ready:
  assumes "selectImpl hasDeadline envs srcs w = Some (i, srcs')" "w \<noteq> waker_empty"
    and "\<forall>s\<in>set srcs. src_consumer s \<noteq> w"
  shows "(i \<noteq> kSelectTimedOut \<longrightarrow> i < length srcs' \<and> src_isReady (srcs' ! i) \<and> (\<forall>j<i. \<not> src_isReady (srcs' ! j)))
    \<and> (i = kSelectTimedOut \<longrightarrow> hasDeadline \<and> firstReady srcs' = kSelectTimedOut)
    \<and> (\<forall>s\<in>set srcs'. src_consumer s \<noteq> w)"
  using assms(1,3)
proof (induction envs arbitrary: srcs)
  case Nil
  then show ?case using firstReady_ready [of srcs] by (subst (asm) selectImpl.simps) (auto split: if_splits)
next
  case (Cons e envs)
  have det: "\<forall>s\<in>set (detachAllSources w xs). src_consumer s \<noteq> w" for xs :: "'a source list"
    using src_detached [OF assms(2)] by (auto simp: detachAllSources_def)
  show ?case
  proof (cases "firstReady srcs = kSelectTimedOut")
    case False
    with Cons.prems have "i = firstReady srcs" "srcs' = srcs" by (subst (asm) selectImpl.simps, simp)+
    with False firstReady_ready [of srcs] Cons.prems(2) show ?thesis by simp
  next
    case True
    obtain b srcs1 where a: "attachAll w (se_between e srcs) = (b, srcs1)" by (cases "attachAll w (se_between e srcs)")
    show ?thesis
    proof (cases "b \<and> hasDeadline \<and> \<not> se_woken e")
      case late: True
      with Cons.prems(1) True a have "i = firstReady (se_blocked e srcs1)" "srcs' = detachAllSources w (se_blocked e srcs1)"
        by (subst (asm) selectImpl.simps, simp add: Let_def)+
      then show ?thesis using late det firstReady_ready [of srcs'] by (auto simp: src_isReady_detach)
    next
      case False
      with Cons.prems(1) True a obtain xs where "selectImpl hasDeadline envs (detachAllSources w xs) w = Some (i, srcs')"
        by (subst (asm) selectImpl.simps) (auto simp: Let_def split: bool.splits if_splits)
      from Cons.IH [OF this det] show ?thesis .
    qed
  qed
qed

theorem select_first_ready_witness:
  "\<exists>srcs'. selectImpl False [\<lparr>se_between = id, se_blocked = (\<lambda>xs. [hd xs, SrcMailbox (snd (mb_post mb_new (1 :: nat)))]), se_woken = True\<rparr>]
       [SrcCompletion cp_new, SrcMailbox mb_new] (waker_empty\<lparr>wk_parker := Some 4\<rparr>) = Some (1, srcs')
     \<and> src_isReady (srcs' ! 1) \<and> \<not> src_isReady (srcs' ! 0) \<and> (\<forall>s\<in>set srcs'. src_consumer s \<noteq> waker_empty\<lparr>wk_parker := Some 4\<rparr>)"
proof -
  let ?w = "waker_empty\<lparr>wk_parker := Some 4\<rparr>"
  let ?srcs = "[SrcCompletion cp_new, SrcMailbox mb_new] :: nat source list"
  let ?env = "\<lparr>se_between = id, se_blocked = (\<lambda>xs. [hd xs, SrcMailbox (snd (mb_post mb_new (1 :: nat)))]), se_woken = True\<rparr>"
  note ev = firstReady_def attachAll_def detachAllSources_def cp_new_def mb_new_def cp_isReady_def mb_isReady_def cp_attach_def
    mb_attach_def mb_post_def cp_detach_def mb_detach_def waker_eq_def waker_empty_def kSelectTimedOut_def
  have "\<exists>srcs'. selectImpl False [?env] ?srcs ?w = Some (1, srcs')"
    by (subst selectImpl.simps, subst selectImpl.simps) (simp add: ev)
  then obtain srcs' where r: "selectImpl False [?env] ?srcs ?w = Some (1, srcs')" by blast
  have "?w \<noteq> waker_empty" "\<forall>s\<in>set ?srcs. src_consumer s \<noteq> ?w" by (simp_all add: ev)
  from select_first_ready [OF r this] r show ?thesis by (auto simp: kSelectTimedOut_def)
qed

text \<open>a mailbox runs its closures in the order they were posted: after posting to an open
  mailbox and closing it, whatever is posted later is dropped, and running it returns, having
  run exactly the closures posted before the close, in order.\<close>

theorem mailbox_runs_in_order:
  assumes "\<not> mb_closed m"
  shows "\<exists>m'. mb_run blocks (foldl (\<lambda>b f. snd (mb_post b f)) (snd (mb_close (foldl (\<lambda>b f. snd (mb_post b f)) m fs))) late) w []
    = Some (mb_queue m @ fs, m') \<and> mb_queue m' = []"
proof -
  have posts: "mb_queue (foldl (\<lambda>b f. snd (mb_post b f)) m fs) = mb_queue m @ fs" if "\<not> mb_closed m" for m :: "'a mailbox"
    using that by (induction fs arbitrary: m) (simp_all add: mb_post_def)
  have late: "mb_queue (foldl (\<lambda>b f. snd (mb_post b f)) n late) = mb_queue n \<and> mb_closed (foldl (\<lambda>b f. snd (mb_post b f)) n late)"
    if "mb_closed n" for n :: "'a mailbox"
    using that by (induction late arbitrary: n) (simp_all add: mb_post_def)
  let ?m = "foldl (\<lambda>b f. snd (mb_post b f)) (snd (mb_close (foldl (\<lambda>b f. snd (mb_post b f)) m fs))) late"
  have "mb_closed ?m" "mb_queue ?m = mb_queue m @ fs"
    using late posts [OF assms] by (simp_all add: mb_close_def)
  then show ?thesis using mb_run_drains [of ?m blocks w "[]"] by simp
qed

theorem mailbox_runs_in_order_witness:
  "\<exists>m'. mb_run [] (foldl (\<lambda>b f. snd (mb_post b f)) (snd (mb_close (foldl (\<lambda>b f. snd (mb_post b f)) mb_new [1, 2 :: nat]))) [3]) waker_empty []
    = Some ([1, 2], m') \<and> mb_queue m' = []"
  using mailbox_runs_in_order [of "mb_new :: nat mailbox" "[]" "[1, 2]" "[3]" waker_empty] by (simp add: mb_new_def)

end
