(* ===== verification/Timer_Queue.thy ===== *)
theory Timer_Queue
  imports Wait_List Step_System
begin

text \<open>
  \<^verbatim>\<open>sched/detail/TimerQueue.h\<close> and \<^verbatim>\<open>sched/src/TimerQueue.cpp\<close>: a binary min-heap of pointers to
  timer entries that know their position, with a mirrored size, earliest deadline and active
  bit.  Entries are addresses into a store; deadlines are clock ticks.
\<close>

section \<open>The model\<close>

definition kNoDeadline :: int where
  "kNoDeadline = 2 ^ 63 - 1"

record timer_entry =
  te_deadline :: int
  te_token :: wake_token
  te_queue :: "nat option"
  te_heapIndex :: "nat option"
  te_fired :: bool
  te_callback :: "nat option"
  te_argument :: nat
  te_cancelled :: bool

record timer_queue =
  tq_id :: nat
  tq_entries :: "addr \<Rightarrow> timer_entry"
  tq_heap :: "addr list"
  tq_closed :: bool
  tq_size :: nat
  tq_earliest :: int
  tq_activeMask :: "u64 option"
  tq_activeBit :: u64

definition tq_new :: "nat \<Rightarrow> (addr \<Rightarrow> timer_entry) \<Rightarrow> timer_queue" where
  "tq_new i es = \<lparr>tq_id = i, tq_entries = es, tq_heap = [], tq_closed = False, tq_size = 0,
     tq_earliest = kNoDeadline, tq_activeMask = None, tq_activeBit = 0\<rparr>"

definition attachActiveMask :: "timer_queue \<Rightarrow> u64 \<Rightarrow> u64 \<Rightarrow> timer_queue" where
  "attachActiveMask q m b = q\<lparr>tq_activeMask := Some m, tq_activeBit := b\<rparr>"

definition updEntry :: "timer_queue \<Rightarrow> addr \<Rightarrow> (timer_entry \<Rightarrow> timer_entry) \<Rightarrow> timer_queue" where
  "updEntry q a f = q\<lparr>tq_entries := (tq_entries q)(a := f (tq_entries q a))\<rparr>"

definition tq_key :: "timer_queue \<Rightarrow> nat \<Rightarrow> int" where
  "tq_key q i = te_deadline (tq_entries q (tq_heap q ! i))"

definition swapAt :: "timer_queue \<Rightarrow> nat \<Rightarrow> nat \<Rightarrow> timer_queue" where
  "swapAt q a b =
     (let q1 = q\<lparr>tq_heap := (tq_heap q)[a := tq_heap q ! b, b := tq_heap q ! a]\<rparr>;
          q2 = updEntry q1 (tq_heap q1 ! a) (\<lambda>e. e\<lparr>te_heapIndex := Some a\<rparr>)
      in updEntry q2 (tq_heap q2 ! b) (\<lambda>e. e\<lparr>te_heapIndex := Some b\<rparr>))"

fun siftUp :: "timer_queue \<Rightarrow> nat \<Rightarrow> timer_queue" where
  "siftUp q index =
     (if index = 0 then q
      else let parent = (index - 1) div 2 in
           if \<not> tq_key q index < tq_key q parent then q else siftUp (swapAt q index parent) parent)"

declare siftUp.simps [simp del]

definition smallestOf :: "timer_queue \<Rightarrow> nat \<Rightarrow> nat" where
  "smallestOf q index =
     (let sz = length (tq_heap q); left = 2 * index + 1; right = left + 1;
          s1 = (if left < sz \<and> tq_key q left < tq_key q index then left else index)
      in if right < sz \<and> tq_key q right < tq_key q s1 then right else s1)"

lemma length_swapAt [simp]: "length (tq_heap (swapAt q a b)) = length (tq_heap q)"
  by (simp add: swapAt_def updEntry_def Let_def)

function siftDown :: "timer_queue \<Rightarrow> nat \<Rightarrow> timer_queue" where
  "siftDown q index =
     (let smallest = smallestOf q index in
      if smallest = index then q else siftDown (swapAt q index smallest) smallest)"
  by auto
termination
  by (relation "measure (\<lambda>(q, i). length (tq_heap q) - i)")
    (auto simp: smallestOf_def Let_def split: if_splits)

declare siftDown.simps [simp del]

definition publishLocked :: "timer_queue \<Rightarrow> timer_queue" where
  "publishLocked q =
     (let before = tq_size q; now = length (tq_heap q);
          q1 = (case tq_activeMask q of None \<Rightarrow> q
                | Some m \<Rightarrow> if before = 0 \<and> now \<noteq> 0 then q\<lparr>tq_activeMask := Some (m OR tq_activeBit q)\<rparr>
                           else if before \<noteq> 0 \<and> now = 0 then q\<lparr>tq_activeMask := Some (m AND NOT (tq_activeBit q))\<rparr>
                           else q)
      in q1\<lparr>tq_size := now, tq_earliest := (if tq_heap q1 = [] then kNoDeadline else tq_key q1 0)\<rparr>)"

definition tq_insert :: "timer_queue \<Rightarrow> addr \<Rightarrow> timer_queue" where
  "tq_insert q a =
     (let i = length (tq_heap q);
          q1 = updEntry q a (\<lambda>e. e\<lparr>te_fired := False, te_heapIndex := Some i\<rparr>);
          q2 = q1\<lparr>tq_heap := tq_heap q1 @ [a]\<rparr>
      in siftUp q2 i)"

definition tq_add :: "timer_queue \<Rightarrow> addr \<Rightarrow> bool \<times> timer_queue" where
  "tq_add q a =
     (let q1 = tq_insert (updEntry q a (\<lambda>e. e\<lparr>te_queue := Some (tq_id q)\<rparr>)) a
      in (tq_heap q1 ! 0 = a, publishLocked q1))"

definition addUnlessCancelled :: "timer_queue \<Rightarrow> addr \<Rightarrow> bool \<times> timer_queue" where
  "addUnlessCancelled q a =
     (if te_cancelled (tq_entries q a) \<or> tq_closed q then (False, q) else (True, publishLocked (tq_insert q a)))"

definition removeLocked :: "timer_queue \<Rightarrow> nat \<Rightarrow> timer_queue" where
  "removeLocked q index =
     (let a = tq_heap q ! index; final = length (tq_heap q) - 1;
          q1 = (if index \<noteq> final then swapAt q index final else q);
          q2 = q1\<lparr>tq_heap := butlast (tq_heap q1)\<rparr>;
          q3 = updEntry q2 a (\<lambda>e. e\<lparr>te_heapIndex := None\<rparr>);
          q4 = (if index \<noteq> final then siftUp (siftDown q3 index) index else q3)
      in publishLocked q4)"

definition tq_cancel :: "timer_queue \<Rightarrow> addr \<Rightarrow> bool \<times> timer_queue" where
  "tq_cancel q a =
     (case te_heapIndex (tq_entries q a) of
        None \<Rightarrow> (False, updEntry q a (\<lambda>e. e\<lparr>te_cancelled := True\<rparr>))
      | Some index \<Rightarrow> (True, removeLocked q index))"

definition cancelTimer :: "timer_queue \<Rightarrow> addr \<Rightarrow> bool \<times> timer_queue" where
  "cancelTimer q a = (if te_queue (tq_entries q a) = None then (False, q) else tq_cancel q a)"

definition fireAndUnlock :: "timer_queue \<Rightarrow> addr \<Rightarrow> wake_event \<times> timer_queue" where
  "fireAndUnlock q a =
     (let e = tq_entries q a; q' = updEntry q a (\<lambda>e. e\<lparr>te_fired := True\<rparr>) in
      (case te_callback e of Some f \<Rightarrow> CallbackRun f (te_argument e) | None \<Rightarrow> TokenWoken (te_token e), q'))"

lemma updEntry_simps [simp]:
  "tq_heap (updEntry q a f) = tq_heap q" "tq_size (updEntry q a f) = tq_size q"
  "tq_earliest (updEntry q a f) = tq_earliest q" "tq_activeMask (updEntry q a f) = tq_activeMask q"
  "tq_activeBit (updEntry q a f) = tq_activeBit q" "tq_closed (updEntry q a f) = tq_closed q"
  "tq_entries (updEntry q a f) b = (if b = a then f (tq_entries q a) else tq_entries q b)" "tq_id (updEntry q a f) = tq_id q"
  by (simp_all add: updEntry_def)

lemma length_siftUp [simp]: "length (tq_heap (siftUp q i)) = length (tq_heap q)"
  by (induction q i rule: siftUp.induct) (subst siftUp.simps, simp add: Let_def)

lemma length_siftDown [simp]: "length (tq_heap (siftDown q i)) = length (tq_heap q)"
  by (induction q i rule: siftDown.induct) (subst siftDown.simps, simp add: Let_def)

lemma length_publishLocked [simp]: "tq_heap (publishLocked q) = tq_heap q"
  by (simp add: publishLocked_def Let_def split: option.split)

lemma length_removeLocked: "length (tq_heap (removeLocked q i)) = length (tq_heap q) - 1"
  by (simp add: removeLocked_def Let_def)

text \<open>One pass of the loops that fire: the lock is released between passes, so another thread's
  operation may come in between.  The result is the entry fired and what was done for it.\<close>

type_synonym timer_shot = "addr \<times> wake_event"

definition fireAt :: "timer_queue \<Rightarrow> nat \<Rightarrow> timer_shot \<times> timer_queue" where
  "fireAt q index =
     (let a = tq_heap q ! index in case fireAndUnlock (removeLocked q index) a of (ev, q') \<Rightarrow> ((a, ev), q'))"

definition fireOne :: "timer_queue \<Rightarrow> int \<Rightarrow> (timer_shot \<times> timer_queue) option" where
  "fireOne q now = (if tq_heap q = [] \<or> tq_key q 0 > now then None else Some (fireAt q 0))"

definition firstCallback :: "timer_queue \<Rightarrow> nat" where
  "firstCallback q = length (takeWhile (\<lambda>a. te_callback (tq_entries q a) = None) (tq_heap q))"

definition closeOne :: "timer_queue \<Rightarrow> timer_shot option \<times> timer_queue" where
  "closeOne q =
     (let q0 = q\<lparr>tq_closed := True\<rparr>; index = firstCallback q0 in
      if index = length (tq_heap q0) then (None, q0)
      else case fireAt q0 index of (shot, q1) \<Rightarrow> (Some shot, q1))"

lemma length_fireAt: "fireAt q i = (shot, q') \<Longrightarrow> length (tq_heap q') = length (tq_heap q) - 1"
  by (auto simp: fireAt_def fireAndUnlock_def Let_def length_removeLocked)

function fireExpired :: "timer_queue \<Rightarrow> int \<Rightarrow> timer_shot list \<times> timer_queue" where
  "fireExpired q now =
     (case fireOne q now of None \<Rightarrow> ([], q)
      | Some (shot, q1) \<Rightarrow> (case fireExpired q1 now of (shots, q2) \<Rightarrow> (shot # shots, q2)))"
  by auto
termination
proof (relation "measure (\<lambda>(q, now). length (tq_heap q))")
  fix q now x shot q1 assume "fireOne q now = Some x" "(shot, q1) = x"
  then show "((q1, now), q, now) \<in> measure (\<lambda>(q, now). length (tq_heap q))"
    using length_fireAt [of q 0 shot q1] by (auto simp: fireOne_def split: if_splits)
qed simp

declare fireExpired.simps [simp del]

lemma closeOne_shorter:
  assumes "closeOne q = (Some shot, q1)"
  shows "length (tq_heap q1) < length (tq_heap q)"
proof -
  have "tq_heap q \<noteq> []" using assms by (auto simp: closeOne_def firstCallback_def Let_def)
  with assms show ?thesis
    using length_fireAt [of "q\<lparr>tq_closed := True\<rparr>" "firstCallback (q\<lparr>tq_closed := True\<rparr>)" shot q1]
    by (auto simp: closeOne_def Let_def split: if_splits prod.splits)
qed

function fireCallbacksAndClose :: "timer_queue \<Rightarrow> timer_shot list \<times> timer_queue" where
  "fireCallbacksAndClose q =
     (case closeOne q of (None, q0) \<Rightarrow> ([], q0)
      | (Some shot, q1) \<Rightarrow> (case fireCallbacksAndClose q1 of (shots, q2) \<Rightarrow> (shot # shots, q2)))"
  by auto
termination
  by (relation "measure (\<lambda>q. length (tq_heap q))") (auto simp: closeOne_shorter dest: sym)

declare fireCallbacksAndClose.simps [simp del]

section \<open>Heap order\<close>

text \<open>The order is stated on the deadlines by position.  \<open>up_ok\<close>: only the entry at \<open>i\<close> may be too
  small for its parent; \<open>down_ok\<close>: only it may be too large for its children; \<open>hole_ok\<close>: either.\<close>

definition par :: "nat \<Rightarrow> nat" where
  "par j = (j - 1) div 2"

definition heap_ok :: "nat \<Rightarrow> (nat \<Rightarrow> int) \<Rightarrow> bool" where
  "heap_ok n K \<longleftrightarrow> (\<forall>j<n. 0 < j \<longrightarrow> K (par j) \<le> K j)"

definition bridge_ok :: "nat \<Rightarrow> (nat \<Rightarrow> int) \<Rightarrow> nat \<Rightarrow> bool" where
  "bridge_ok n K i \<longleftrightarrow> (0 < i \<longrightarrow> (\<forall>c<n. 0 < c \<and> par c = i \<longrightarrow> K (par i) \<le> K c))"

definition up_ok :: "nat \<Rightarrow> (nat \<Rightarrow> int) \<Rightarrow> nat \<Rightarrow> bool" where
  "up_ok n K i \<longleftrightarrow> (\<forall>j<n. 0 < j \<and> j \<noteq> i \<longrightarrow> K (par j) \<le> K j) \<and> bridge_ok n K i"

definition down_ok :: "nat \<Rightarrow> (nat \<Rightarrow> int) \<Rightarrow> nat \<Rightarrow> bool" where
  "down_ok n K i \<longleftrightarrow> (\<forall>j<n. 0 < j \<and> par j \<noteq> i \<longrightarrow> K (par j) \<le> K j) \<and> bridge_ok n K i"

definition hole_ok :: "nat \<Rightarrow> (nat \<Rightarrow> int) \<Rightarrow> nat \<Rightarrow> bool" where
  "hole_ok n K i \<longleftrightarrow> (\<forall>j<n. 0 < j \<and> j \<noteq> i \<and> par j \<noteq> i \<longrightarrow> K (par j) \<le> K j) \<and> bridge_ok n K i"

lemma par_less: "0 < j \<Longrightarrow> par j < j"
  by (simp add: par_def)

lemma par_eq_iff: "0 < c \<Longrightarrow> par c = i \<longleftrightarrow> c = 2 * i + 1 \<or> c = 2 * i + 2"
  by (auto simp: par_def)

lemma up_ok_step:
  assumes "up_ok n K i" "0 < i" "i < n" "K i < K (par i)"
  shows "up_ok n (K(i := K (par i), par i := K i)) (par i)"
proof -
  let ?p = "par i" let ?K = "K(i := K ?p, ?p := K i)"
  from assms(2) have pi: "?p < i" by (rule par_less)
  have ok: "K (par j) \<le> K j" if "j < n" "0 < j" "j \<noteq> i" for j using assms(1) that by (simp add: up_ok_def)
  have br: "K ?p \<le> K c" if "c < n" "0 < c" "par c = i" for c using assms(1,2) that by (simp add: up_ok_def bridge_ok_def)
  have "?K (par j) \<le> ?K j" if j: "j < n" "0 < j" "j \<noteq> ?p" for j
  proof (cases "j = i")
    case True
    then show ?thesis using assms(4) pi by auto
  next
    case False
    consider "par j = i" | "par j = ?p" | "par j \<noteq> i" "par j \<noteq> ?p" by blast
    then show ?thesis
      using False j ok [OF j(1,2) False] br [OF j(1,2)] assms(4) pi by cases auto
  qed
  moreover have "?K (par ?p) \<le> ?K c" if c: "0 < ?p" "c < n" "0 < c" "par c = ?p" for c
  proof -
    have pp: "par ?p < ?p" using par_less [OF c(1)] .
    have "K (par ?p) \<le> K ?p" using ok [of ?p] c(1) pi assms(3) by simp
    moreover have "K ?p \<le> K c" if "c \<noteq> i" using ok [OF c(2,3) that] c(4) by simp
    moreover have "c \<noteq> ?p" using par_less [OF c(3)] c(4) by auto
    ultimately show ?thesis using pp pi by auto
  qed
  ultimately show ?thesis unfolding up_ok_def bridge_ok_def by blast
qed

lemma up_ok_stop:
  assumes "up_ok n K i" "i = 0 \<or> \<not> K i < K (par i)"
  shows "heap_ok n K"
  using assms by (auto simp: up_ok_def heap_ok_def)

lemma down_ok_step:
  assumes "down_ok n K i" "i < n" "s < n" "par s = i" "0 < s" "K s < K i" "\<And>c. c < n \<Longrightarrow> 0 < c \<Longrightarrow> par c = i \<Longrightarrow> K s \<le> K c"
  shows "down_ok n (K(i := K s, s := K i)) s"
proof -
  let ?K = "K(i := K s, s := K i)"
  have is_lt: "i < s" using par_less [OF assms(5)] assms(4) by simp
  have ok: "K (par j) \<le> K j" if "j < n" "0 < j" "par j \<noteq> i" for j using assms(1) that by (simp add: down_ok_def)
  have "?K (par j) \<le> ?K j" if j: "j < n" "0 < j" "par j \<noteq> s" for j
  proof (cases "par j = i")
    case True
    then show ?thesis using assms(6,7) j is_lt par_less [OF j(2)] by auto
  next
    case False
    show ?thesis
    proof (cases "j = i")
      case True
      with assms(1,3,4,5) j(2) have "K (par i) \<le> K s" by (auto simp: down_ok_def bridge_ok_def)
      then show ?thesis using True is_lt par_less [OF j(2)] by auto
    next
      case jn: False
      have "j \<noteq> s" using False assms(4) by auto
      with jn False j ok [OF j(1,2)] show ?thesis by auto
    qed
  qed
  moreover have "?K (par s) \<le> ?K c" if c: "c < n" "0 < c" "par c = s" for c
  proof -
    have "s < c" using par_less [OF c(2)] c(3) by simp
    moreover have "K s \<le> K c" using ok [OF c(1,2)] c(3) is_lt by auto
    ultimately show ?thesis using assms(4) is_lt by auto
  qed
  ultimately show ?thesis unfolding down_ok_def bridge_ok_def by blast
qed

lemma down_ok_stop:
  assumes "down_ok n K i" "\<And>c. c < n \<Longrightarrow> 0 < c \<Longrightarrow> par c = i \<Longrightarrow> K i \<le> K c"
  shows "heap_ok n K"
  using assms unfolding down_ok_def heap_ok_def by metis

section \<open>Sifting\<close>

lemma tq_key_swapAt:
  assumes "a < length (tq_heap q)" "b < length (tq_heap q)"
  shows "tq_key (swapAt q a b) = (tq_key q)(a := tq_key q b, b := tq_key q a)"
proof -
  have e: "te_deadline (tq_entries (swapAt q a b) x) = te_deadline (tq_entries q x)" for x
    by (simp add: swapAt_def Let_def)
  have "tq_heap (swapAt q a b) = (tq_heap q)[a := tq_heap q ! b, b := tq_heap q ! a]"
    by (simp add: swapAt_def Let_def)
  then show ?thesis using assms by (auto simp: fun_eq_iff tq_key_def e nth_list_update)
qed

lemma siftUp_heap:
  assumes "up_ok (length (tq_heap q)) (tq_key q) i" "i < length (tq_heap q)"
  shows "heap_ok (length (tq_heap q)) (tq_key (siftUp q i))"
  using assms
proof (induction q i rule: siftUp.induct)
  case (1 q i)
  show ?case
  proof (cases "i = 0 \<or> \<not> tq_key q i < tq_key q (par i)")
    case True
    then have "siftUp q i = q" by (subst siftUp.simps) (auto simp: par_def Let_def)
    with up_ok_stop [OF "1.prems"(1) True] show ?thesis by simp
  next
    case False
    let ?q = "swapAt q i (par i)"
    have p: "par i < length (tq_heap q)" using par_less [of i] False "1.prems"(2) by simp
    have s: "siftUp q i = siftUp ?q (par i)" using False by (subst siftUp.simps) (auto simp: par_def Let_def)
    have "up_ok (length (tq_heap q)) (tq_key ?q) (par i)"
      using up_ok_step [OF "1.prems"(1)] False "1.prems"(2) by (simp add: tq_key_swapAt p)
    then show ?thesis using "1.IH" [of "par i"] False p s by (simp add: par_def)
  qed
qed

lemma smallestOf_spec:
  assumes "i < length (tq_heap q)"
  shows "smallestOf q i = i \<Longrightarrow> c < length (tq_heap q) \<Longrightarrow> 0 < c \<Longrightarrow> par c = i \<Longrightarrow> tq_key q i \<le> tq_key q c"
    "smallestOf q i \<noteq> i \<Longrightarrow> smallestOf q i < length (tq_heap q) \<and> par (smallestOf q i) = i \<and> 0 < smallestOf q i
      \<and> tq_key q (smallestOf q i) < tq_key q i
      \<and> (\<forall>c<length (tq_heap q). 0 < c \<and> par c = i \<longrightarrow> tq_key q (smallestOf q i) \<le> tq_key q c)"
proof -
  show "smallestOf q i = i \<Longrightarrow> c < length (tq_heap q) \<Longrightarrow> 0 < c \<Longrightarrow> par c = i \<Longrightarrow> tq_key q i \<le> tq_key q c"
    by (auto simp: smallestOf_def Let_def par_eq_iff split: if_splits)
  assume ne: "smallestOf q i \<noteq> i"
  then have "smallestOf q i \<in> {2 * i + 1, 2 * i + 2}" "smallestOf q i < length (tq_heap q)" "tq_key q (smallestOf q i) < tq_key q i"
    "\<And>c. c < length (tq_heap q) \<Longrightarrow> c = 2 * i + 1 \<or> c = 2 * i + 2 \<Longrightarrow> tq_key q (smallestOf q i) \<le> tq_key q c"
    by (auto simp: smallestOf_def Let_def split: if_splits)
  moreover from this(1) have "0 < smallestOf q i" "par (smallestOf q i) = i" by (auto simp: par_eq_iff)
  ultimately show "smallestOf q i < length (tq_heap q) \<and> par (smallestOf q i) = i \<and> 0 < smallestOf q i
      \<and> tq_key q (smallestOf q i) < tq_key q i
      \<and> (\<forall>c<length (tq_heap q). 0 < c \<and> par c = i \<longrightarrow> tq_key q (smallestOf q i) \<le> tq_key q c)"
    using par_eq_iff by blast
qed

lemma siftDown_heap:
  assumes "down_ok (length (tq_heap q)) (tq_key q) i" "i < length (tq_heap q)"
  shows "heap_ok (length (tq_heap q)) (tq_key (siftDown q i))"
  using assms
proof (induction q i rule: siftDown.induct)
  case (1 q i)
  note sp = smallestOf_spec [OF "1.prems"(2)]
  show ?case
  proof (cases "smallestOf q i = i")
    case True
    then have "siftDown q i = q" by (subst siftDown.simps) (simp add: Let_def)
    with down_ok_stop [OF "1.prems"(1)] sp(1) [OF True] show ?thesis by simp
  next
    case False
    let ?s = "smallestOf q i"
    have s: "siftDown q i = siftDown (swapAt q i ?s) ?s" using False by (subst siftDown.simps) (simp add: Let_def)
    from sp(2) [OF False] "1.prems" have "down_ok (length (tq_heap q)) (tq_key (swapAt q i ?s)) ?s"
      by (simp add: tq_key_swapAt down_ok_step)
    with "1.IH" [OF refl False] sp(2) [OF False] s show ?thesis by simp
  qed
qed

text \<open>Replacing the entry at \<open>i\<close> by anything: sifting down and then up restores the heap.\<close>

lemma sift_hole:
  assumes hole: "hole_ok (length (tq_heap q)) (tq_key q) i" and i: "i < length (tq_heap q)"
  shows "heap_ok (length (tq_heap q)) (tq_key (siftUp (siftDown q i) i))"
proof (cases "0 < i \<and> tq_key q i < tq_key q (par i)")
  case True
  have "tq_key q i \<le> tq_key q c" if "c < length (tq_heap q)" "0 < c" "par c = i" for c
    using hole True that by (fastforce simp: hole_ok_def bridge_ok_def)
  note kids = this
  have "smallestOf q i = i"
    using smallestOf_spec(2) [OF i] kids by (metis leD)
  then have sd: "siftDown q i = q" by (subst siftDown.simps) (simp add: Let_def)
  have "up_ok (length (tq_heap q)) (tq_key q) i"
    unfolding up_ok_def
  proof (intro conjI allI impI)
    fix j assume "j < length (tq_heap q)" "0 < j \<and> j \<noteq> i"
    then show "tq_key q (par j) \<le> tq_key q j" using hole kids [of j] by (cases "par j = i") (auto simp: hole_ok_def)
  qed (use hole in \<open>simp add: hole_ok_def\<close>)
  from siftUp_heap [OF this i] show ?thesis by (simp add: sd)
next
  case False
  have "down_ok (length (tq_heap q)) (tq_key q) i"
    unfolding down_ok_def
  proof (intro conjI allI impI)
    fix j assume "j < length (tq_heap q)" "0 < j \<and> par j \<noteq> i"
    then show "tq_key q (par j) \<le> tq_key q j" using hole False by (cases "j = i") (auto simp: hole_ok_def)
  qed (use hole in \<open>simp add: hole_ok_def\<close>)
  from siftDown_heap [OF this i] have h: "heap_ok (length (tq_heap q)) (tq_key (siftDown q i))" .
  then have "i = 0 \<or> \<not> tq_key (siftDown q i) i < tq_key (siftDown q i) (par i)"
    using i by (auto simp: heap_ok_def)
  then have "siftUp (siftDown q i) i = siftDown q i"
    by (subst siftUp.simps) (auto simp: par_def Let_def)
  with h show ?thesis by simp
qed

section \<open>Positions, frame and mirrors\<close>

definition tq_idx :: "timer_queue \<Rightarrow> bool" where
  "tq_idx q \<longleftrightarrow> distinct (tq_heap q) \<and> (\<forall>i<length (tq_heap q). te_heapIndex (tq_entries q (tq_heap q ! i)) = Some i)
     \<and> (\<forall>a. a \<notin> set (tq_heap q) \<longrightarrow> te_heapIndex (tq_entries q a) = None)"

text \<open>Two queues that differ only in the order of the heap and the positions stored with it.\<close>

definition te_rest :: "timer_entry \<Rightarrow> timer_entry" where
  "te_rest e = e\<lparr>te_heapIndex := None\<rparr>"

definition tq_frame :: "timer_queue \<Rightarrow> timer_queue \<Rightarrow> bool" where
  "tq_frame q q' \<longleftrightarrow> mset (tq_heap q') = mset (tq_heap q) \<and> (\<forall>a. te_rest (tq_entries q' a) = te_rest (tq_entries q a))
     \<and> tq_size q' = tq_size q \<and> tq_activeMask q' = tq_activeMask q \<and> tq_activeBit q' = tq_activeBit q \<and> tq_closed q' = tq_closed q"

lemma tq_frame_refl [simp]: "tq_frame q q"
  by (simp add: tq_frame_def)

lemma tq_frame_trans: "tq_frame q q1 \<Longrightarrow> tq_frame q1 q2 \<Longrightarrow> tq_frame q q2"
  by (simp add: tq_frame_def)

lemma te_rest_simps [simp]: "te_rest (e\<lparr>te_heapIndex := i\<rparr>) = te_rest e"
  by (simp add: te_rest_def)

lemma te_rest_deadline: "te_rest e = te_rest e' \<Longrightarrow> te_deadline e = te_deadline e'"
  by (metis te_rest_def timer_entry.select_convs(1) timer_entry.surjective timer_entry.update_convs(4))

lemma swapAt_frame:
  assumes "tq_idx q" "a < length (tq_heap q)" "b < length (tq_heap q)"
  shows "tq_idx (swapAt q a b)" "tq_frame q (swapAt q a b)"
proof -
  let ?h = "(tq_heap q)[a := tq_heap q ! b, b := tq_heap q ! a]"
  have h: "tq_heap (swapAt q a b) = ?h" by (simp add: swapAt_def Let_def)
  have m: "mset ?h = mset (tq_heap q)" by (rule mset_swap [OF assms(3,2)])
  then have set: "set ?h = set (tq_heap q)" and d: "distinct ?h"
    using assms(1) by (auto dest: mset_eq_setD mset_eq_imp_distinct_iff simp: tq_idx_def)
  have nth: "?h ! a = tq_heap q ! b" "?h ! b = tq_heap q ! a" using assms(2,3) by (auto simp: nth_list_update)
  have entries: "te_heapIndex (tq_entries (swapAt q a b) x) =
      (if x = tq_heap q ! a then Some b else if x = tq_heap q ! b then Some a else te_heapIndex (tq_entries q x))" for x
    using nth by (simp add: swapAt_def Let_def)
  have inj: "tq_heap q ! i = tq_heap q ! j \<longleftrightarrow> i = j" if "i < length (tq_heap q)" "j < length (tq_heap q)" for i j
    using assms(1) that by (simp add: tq_idx_def nth_eq_iff_index_eq)
  have "te_heapIndex (tq_entries (swapAt q a b) (?h ! i)) = Some i" if "i < length (tq_heap q)" for i
    using that assms inj by (auto simp: entries nth_list_update tq_idx_def)
  moreover have "te_heapIndex (tq_entries (swapAt q a b) x) = None" if "x \<notin> set (tq_heap q)" for x
  proof -
    have "x \<noteq> tq_heap q ! a" "x \<noteq> tq_heap q ! b" using that assms(2,3) nth_mem by blast+
    then show ?thesis using assms(1) that by (simp add: entries tq_idx_def)
  qed
  ultimately show "tq_idx (swapAt q a b)" using d set unfolding tq_idx_def h by simp
  have "te_rest (tq_entries (swapAt q a b) x) = te_rest (tq_entries q x)" for x
    by (simp add: swapAt_def Let_def)
  moreover have "tq_size (swapAt q a b) = tq_size q" "tq_activeMask (swapAt q a b) = tq_activeMask q"
    "tq_activeBit (swapAt q a b) = tq_activeBit q" "tq_closed (swapAt q a b) = tq_closed q"
    by (simp_all add: swapAt_def Let_def)
  ultimately show "tq_frame q (swapAt q a b)" using m unfolding tq_frame_def h by blast
qed

lemma siftUp_frame:
  "tq_idx q \<Longrightarrow> i < length (tq_heap q) \<Longrightarrow> tq_idx (siftUp q i) \<and> tq_frame q (siftUp q i)"
proof (induction q i rule: siftUp.induct)
  case (1 q i)
  show ?case
  proof (cases "i = 0 \<or> \<not> tq_key q i < tq_key q (par i)")
    case True
    then have "siftUp q i = q" by (subst siftUp.simps) (auto simp: par_def Let_def)
    with "1.prems" show ?thesis by simp
  next
    case False
    have p: "par i < length (tq_heap q)" using par_less [of i] False "1.prems"(2) by simp
    have s: "siftUp q i = siftUp (swapAt q i (par i)) (par i)" using False by (subst siftUp.simps) (auto simp: par_def Let_def)
    note f = swapAt_frame [OF "1.prems"(1,2) p]
    have "tq_idx (siftUp (swapAt q i (par i)) (par i)) \<and> tq_frame (swapAt q i (par i)) (siftUp (swapAt q i (par i)) (par i))"
      using "1.IH" [of "par i"] False f(1) p by (simp add: par_def)
    then show ?thesis using f(2) s by (auto intro: tq_frame_trans)
  qed
qed

lemma siftDown_frame:
  "tq_idx q \<Longrightarrow> i < length (tq_heap q) \<Longrightarrow> tq_idx (siftDown q i) \<and> tq_frame q (siftDown q i)"
proof (induction q i rule: siftDown.induct)
  case (1 q i)
  show ?case
  proof (cases "smallestOf q i = i")
    case True
    then have "siftDown q i = q" by (subst siftDown.simps) (simp add: Let_def)
    with "1.prems" show ?thesis by simp
  next
    case False
    let ?s = "smallestOf q i"
    have p: "?s < length (tq_heap q)" using smallestOf_spec(2) [OF "1.prems"(2) False] by simp
    have s: "siftDown q i = siftDown (swapAt q i ?s) ?s" using False by (subst siftDown.simps) (simp add: Let_def)
    note f = swapAt_frame [OF "1.prems"(1,2) p]
    have "tq_idx (siftDown (swapAt q i ?s) ?s) \<and> tq_frame (swapAt q i ?s) (siftDown (swapAt q i ?s) ?s)"
      using "1.IH" [OF refl False] f(1) p by simp
    then show ?thesis using f(2) s by (auto intro: tq_frame_trans)
  qed
qed

definition tq_maskOk :: "timer_queue \<Rightarrow> nat \<Rightarrow> bool" where
  "tq_maskOk q n \<longleftrightarrow> (\<forall>m. tq_activeMask q = Some m \<longrightarrow> (m AND tq_activeBit q) = (if n = 0 then 0 else tq_activeBit q))"

definition tq_pub :: "timer_queue \<Rightarrow> bool" where
  "tq_pub q \<longleftrightarrow> tq_size q = length (tq_heap q) \<and> tq_earliest q = (if tq_heap q = [] then kNoDeadline else tq_key q 0)
     \<and> tq_maskOk q (length (tq_heap q))"

lemma word_and_or_absorb: "((m OR b) AND b) = (b :: u64)" "((m AND NOT b) AND b) = (0 :: u64)"
  by (auto intro!: bit_word_eqI simp: bit_and_iff bit_or_iff bit_not_iff)

text \<open>Publishing after a change of the heap, given that the mirrors were right before it.\<close>

lemma publishLocked_frame [simp]:
  "tq_entries (publishLocked q) = tq_entries q" "tq_closed (publishLocked q) = tq_closed q"
  "tq_activeBit (publishLocked q) = tq_activeBit q" "tq_key (publishLocked q) = tq_key q"
  "tq_id (publishLocked q) = tq_id q"
  by (auto simp: publishLocked_def Let_def tq_key_def fun_eq_iff split: option.split)

lemma publishLocked_idx [simp]: "tq_idx (publishLocked q) = tq_idx q"
  by (simp add: tq_idx_def)

lemma publishLocked_pub:
  assumes "tq_maskOk q (tq_size q)"
  shows "tq_pub (publishLocked q)"
proof -
  have "tq_size (publishLocked q) = length (tq_heap q)"
    "tq_earliest (publishLocked q) = (if tq_heap q = [] then kNoDeadline else tq_key q 0)"
    by (auto simp: publishLocked_def Let_def tq_key_def split: option.split)
  moreover have "tq_maskOk (publishLocked q) (length (tq_heap q))"
    using assms by (cases "tq_activeMask q") (auto simp: tq_maskOk_def publishLocked_def Let_def word_and_or_absorb)
  ultimately show ?thesis by (simp add: tq_pub_def)
qed

definition tq_inv :: "timer_queue \<Rightarrow> bool" where
  "tq_inv q \<longleftrightarrow> tq_idx q \<and> heap_ok (length (tq_heap q)) (tq_key q) \<and> tq_pub q"

lemma tq_frame_maskOk: "tq_frame q q' \<Longrightarrow> tq_maskOk q n \<Longrightarrow> tq_maskOk q' n"
  by (simp add: tq_frame_def tq_maskOk_def)

lemma tq_pub_maskOk: "tq_pub q \<Longrightarrow> tq_maskOk q (tq_size q)"
  by (simp add: tq_pub_def)

lemma heap_ok_cong: "(\<And>j. j < n \<Longrightarrow> K j = K' j) \<Longrightarrow> heap_ok n K \<longleftrightarrow> heap_ok n K'"
  unfolding heap_ok_def using par_less by (metis order.strict_trans)

lemma heap_ok_hole:
  assumes "heap_ok n K" "m \<le> n" "i < m"
  shows "hole_ok m (K(i := x)) i"
proof -
  have ok: "K (par j) \<le> K j" if "j < m" "0 < j" for j using assms(1,2) that by (simp add: heap_ok_def)
  have "(K(i := x)) (par i) \<le> (K(i := x)) c" if "0 < i" "c < m" "0 < c" "par c = i" for c
    using ok [of c] ok [OF assms(3)] that par_less [of c] par_less [of i] by auto
  then show ?thesis using ok unfolding hole_ok_def bridge_ok_def by auto
qed

lemma hole_ok_cong:
  assumes "\<And>j. j < n \<Longrightarrow> K j = K' j" "i < n"
  shows "hole_ok n K i \<longleftrightarrow> hole_ok n K' i"
proof -
  have "K (par j) = K' (par j)" if "0 < j" "j < n" for j using par_less [OF that(1)] that(2) assms(1) by simp
  then show ?thesis using assms unfolding hole_ok_def bridge_ok_def by auto
qed

lemma heap_ok_root: "heap_ok n K \<Longrightarrow> j < n \<Longrightarrow> K 0 \<le> K j"
proof (induction j rule: less_induct)
  case (less j)
  show ?case
  proof (cases "j = 0")
    case False
    then have "par j < j" using par_less by simp
    moreover from less.prems False have "K (par j) \<le> K j" by (simp add: heap_ok_def)
    ultimately show ?thesis using less.IH [of "par j"] less.prems by simp
  qed simp
qed

section \<open>Inserting and removing\<close>

lemma te_rest_field:
  assumes "te_rest e = te_rest e'"
  shows "te_deadline e = te_deadline e'" "te_token e = te_token e'" "te_queue e = te_queue e'" "te_fired e = te_fired e'"
    "te_callback e = te_callback e'" "te_argument e = te_argument e'" "te_cancelled e = te_cancelled e'"
  using assms by (cases e; cases e'; simp add: te_rest_def)+

lemma tq_idx_dropLast:
  assumes "tq_idx q" "tq_heap q \<noteq> []"
  defines "q' \<equiv> updEntry (q\<lparr>tq_heap := butlast (tq_heap q)\<rparr>) (last (tq_heap q)) (\<lambda>e. e\<lparr>te_heapIndex := None\<rparr>)"
  shows "tq_idx q'" "mset (tq_heap q') = mset (tq_heap q) - {#last (tq_heap q)#}"
    "\<And>j. j < length (tq_heap q) - 1 \<Longrightarrow> tq_key q' j = tq_key q j"
    "te_rest (tq_entries q' a) = te_rest (tq_entries q a)"
proof -
  from assms(2) obtain xs x where h: "tq_heap q = xs @ [x]" by (metis rev_exhaust)
  have idx: "te_heapIndex (tq_entries q (xs ! i)) = Some i" if "i < length xs" for i
    using assms(1) that unfolding tq_idx_def h by (metis length_append_singleton less_SucI nth_append)
  have nin: "te_heapIndex (tq_entries q a) = None" if "a \<notin> set xs" "a \<noteq> x" for a
    using assms(1) that by (auto simp: tq_idx_def h)
  have d: "distinct xs" "x \<notin> set xs" using assms(1) by (auto simp: tq_idx_def h)
  then have "xs ! i \<noteq> x" if "i < length xs" for i using that nth_mem by blast
  with idx nin d show "tq_idx q'" by (auto simp: tq_idx_def q'_def h)
  show "mset (tq_heap q') = mset (tq_heap q) - {#last (tq_heap q)#}" by (simp add: q'_def h)
  show "\<And>j. j < length (tq_heap q) - 1 \<Longrightarrow> tq_key q' j = tq_key q j"
    by (simp add: q'_def h tq_key_def nth_append)
  show "te_rest (tq_entries q' a) = te_rest (tq_entries q a)" by (simp add: q'_def)
qed

text \<open>What \<open>removeLocked\<close> promises: the invariant, the heap less the entry, nothing else touched.\<close>

definition removed :: "timer_queue \<Rightarrow> addr \<Rightarrow> timer_queue \<Rightarrow> bool" where
  "removed q a q' \<longleftrightarrow> tq_inv q' \<and> mset (tq_heap q') = mset (tq_heap q) - {#a#}
     \<and> (\<forall>b. te_rest (tq_entries q' b) = te_rest (tq_entries q b)) \<and> tq_closed q' = tq_closed q"

lemma tq_publish_inv:
  assumes "tq_frame q0 q" "tq_idx q" "heap_ok (length (tq_heap q)) (tq_key q)" "tq_maskOk q0 (tq_size q0)"
  shows "tq_inv (publishLocked q)"
  using assms publishLocked_pub [of q] tq_frame_maskOk [OF assms(1), of "tq_size q"]
  by (auto simp: tq_inv_def tq_frame_def)

lemma removeLocked_law:
  assumes inv: "tq_inv q" and i: "i < length (tq_heap q)"
  shows "removed q (tq_heap q ! i) (removeLocked q i)"
proof -
  define final a where "final = length (tq_heap q) - 1" and "a = tq_heap q ! i"
  define q1 where "q1 = (if i \<noteq> final then swapAt q i final else q)"
  define q3 where "q3 = updEntry (q1\<lparr>tq_heap := butlast (tq_heap q1)\<rparr>) a (\<lambda>e. e\<lparr>te_heapIndex := None\<rparr>)"
  define q4 where "q4 = (if i \<noteq> final then siftUp (siftDown q3 i) i else q3)"
  from inv have idx: "tq_idx q" and ho: "heap_ok (length (tq_heap q)) (tq_key q)" and pub: "tq_pub q" by (simp_all add: tq_inv_def)
  have f: "final < length (tq_heap q)" using i by (simp add: final_def)
  have q1: "tq_idx q1" "tq_frame q q1" "length (tq_heap q1) = length (tq_heap q)"
    using idx swapAt_frame [OF idx i f] by (auto simp: q1_def)
  have ne: "tq_heap q1 \<noteq> []" using q1(3) i by (metis list.size(3) not_less_zero)
  have "tq_heap q1 ! final = a"
    using i f by (auto simp: q1_def a_def swapAt_def Let_def)
  then have la: "last (tq_heap q1) = a" using ne q1(3) by (simp add: last_conv_nth final_def)
  note dl = tq_idx_dropLast [OF q1(1) ne, unfolded la, folded q3_def]
  have len: "length (tq_heap q3) = final" using q1(3) by (simp add: q3_def final_def)
  have k3: "tq_key q3 j = ((tq_key q)(i := tq_key q final)) j" if "j < final" for j
    using dl(3) [of j] that q1(3) i f by (auto simp: q1_def tq_key_swapAt final_def)
  have q4: "tq_idx q4 \<and> tq_frame q3 q4 \<and> heap_ok final (tq_key q4)"
  proof (cases "i = final")
    case True
    have "heap_ok final (tq_key q)" using ho f by (simp add: heap_ok_def)
    moreover have "heap_ok final (tq_key q3) = heap_ok final (tq_key q)"
      using k3 True by (intro heap_ok_cong) auto
    ultimately show ?thesis using dl(1) True by (simp add: q4_def)
  next
    case False
    then have i4: "i < final" using i by (simp add: final_def)
    have "hole_ok final (tq_key q3) i = hole_ok final ((tq_key q)(i := tq_key q final)) i"
      using k3 i4 by (intro hole_ok_cong) auto
    with heap_ok_hole [OF ho _ i4] f have hole: "hole_ok (length (tq_heap q3)) (tq_key q3) i" by (simp add: len)
    have i5: "i < length (tq_heap q3)" "i < length (tq_heap (siftDown q3 i))" using i4 len by simp_all
    from siftDown_frame [OF dl(1) i5(1)] siftUp_frame [OF _ i5(2)] sift_hole [OF hole i5(1)] False len
    show ?thesis by (auto simp: q4_def intro: tq_frame_trans)
  qed
  have rl: "removeLocked q i = publishLocked q4"
    by (simp add: removeLocked_def Let_def q4_def q3_def q1_def a_def final_def)
  have s3: "tq_maskOk q3 (tq_size q3)" "tq_closed q3 = tq_closed q"
    using q1(2) tq_frame_maskOk [OF q1(2) tq_pub_maskOk [OF pub]] by (auto simp: q3_def tq_frame_def tq_maskOk_def)
  have "length (tq_heap q4) = final" using len by (simp add: q4_def)
  with tq_publish_inv [of q3 q4] s3(1) q4 have "tq_inv (publishLocked q4)" by simp
  then show ?thesis
    using q4 dl(2,4) q1(2) s3(2) unfolding removed_def rl tq_frame_def a_def by simp
qed

lemma swapAt_rest: "te_rest (tq_entries (swapAt q a b) x) = te_rest (tq_entries q x)"
  by (simp add: swapAt_def Let_def)

lemma siftUp_rest: "te_rest (tq_entries (siftUp q i) b) = te_rest (tq_entries q b)"
  by (induction q i rule: siftUp.induct) (subst siftUp.simps, simp add: Let_def swapAt_rest)

lemma up_ok_snoc:
  assumes "heap_ok n K" "\<And>j. j < n \<Longrightarrow> K' j = K j"
  shows "up_ok (Suc n) K' n"
proof -
  have "K' (par j) \<le> K' j" if "j < Suc n" "0 < j" "j \<noteq> n" for j
  proof -
    have "j < n" using that by simp
    with assms that par_less [of j] show ?thesis by (simp add: heap_ok_def)
  qed
  moreover have "par c \<noteq> n" if "c < Suc n" "0 < c" for c using par_less [of c] that by simp
  ultimately show ?thesis by (auto simp: up_ok_def bridge_ok_def)
qed

definition inserted :: "timer_queue \<Rightarrow> addr \<Rightarrow> timer_queue \<Rightarrow> bool" where
  "inserted q a q' \<longleftrightarrow> tq_inv q' \<and> mset (tq_heap q') = add_mset a (mset (tq_heap q)) \<and> \<not> te_fired (tq_entries q' a)
     \<and> te_deadline (tq_entries q' a) = te_deadline (tq_entries q a)
     \<and> (\<forall>b. b \<noteq> a \<longrightarrow> te_rest (tq_entries q' b) = te_rest (tq_entries q b)) \<and> tq_closed q' = tq_closed q"

lemma tq_insert_law:
  assumes "tq_inv q" "a \<notin> set (tq_heap q)"
  shows "inserted q a (publishLocked (tq_insert q a))"
proof -
  define i where "i = length (tq_heap q)"
  define q1 where "q1 = updEntry q a (\<lambda>e. e\<lparr>te_fired := False, te_heapIndex := Some i\<rparr>)"
  define q2 where "q2 = q1\<lparr>tq_heap := tq_heap q1 @ [a]\<rparr>"
  have ins: "tq_insert q a = siftUp q2 i" by (simp add: tq_insert_def Let_def i_def q1_def q2_def)
  have idx: "tq_idx q" and ho: "heap_ok i (tq_key q)" and pub: "tq_pub q" using assms(1) by (simp_all add: tq_inv_def i_def)
  have ia: "tq_heap q ! j \<noteq> a" if "j < i" for j using that assms(2) nth_mem [of j "tq_heap q"] by (auto simp: i_def)
  have idx2: "tq_idx q2"
    using idx assms(2) ia by (auto simp: tq_idx_def q2_def q1_def i_def nth_append less_Suc_eq)
  have "tq_key q2 j = tq_key q j" if "j < i" for j
    using that ia [OF that] by (simp add: tq_key_def q2_def q1_def nth_append i_def)
  with up_ok_snoc [OF ho] have up: "up_ok (length (tq_heap q2)) (tq_key q2) i" by (simp add: q2_def q1_def i_def)
  have i2: "i < length (tq_heap q2)" by (simp add: q2_def q1_def i_def)
  have fr: "tq_idx (siftUp q2 i)" "tq_frame q2 (siftUp q2 i)" using siftUp_frame [OF idx2 i2] by auto
  have "tq_maskOk q2 (tq_size q2)" using tq_pub_maskOk [OF pub] by (simp add: q2_def q1_def tq_maskOk_def)
  with fr siftUp_heap [OF up i2] have "tq_inv (publishLocked (siftUp q2 i))"
    by (intro tq_publish_inv [of q2]) auto
  moreover have e: "te_rest (tq_entries (siftUp q2 i) b) = te_rest (tq_entries q2 b)" for b
    using fr(2) by (simp add: tq_frame_def)
  moreover have "te_rest (tq_entries q2 b) = te_rest (tq_entries q b)" if "b \<noteq> a" for b
    using that by (simp add: q2_def q1_def)
  ultimately show ?thesis
    using fr(2) te_rest_field(1,4) [OF e [of a]] by (simp add: inserted_def ins tq_frame_def q2_def q1_def)
qed

lemma updEntry_inv:
  assumes "te_deadline (f (tq_entries q a)) = te_deadline (tq_entries q a)"
    "te_heapIndex (f (tq_entries q a)) = te_heapIndex (tq_entries q a)"
  shows "tq_inv (updEntry q a f) = tq_inv q"
proof -
  have "tq_key (updEntry q a f) = tq_key q" using assms(1) by (auto simp: fun_eq_iff tq_key_def)
  moreover have "te_heapIndex (tq_entries (updEntry q a f) b) = te_heapIndex (tq_entries q b)" for b
    using assms(2) by simp
  then have "tq_idx (updEntry q a f) = tq_idx q" by (simp only: tq_idx_def updEntry_simps(1))
  ultimately show ?thesis by (simp add: tq_inv_def tq_pub_def tq_maskOk_def)
qed

lemma tq_key_closed [simp]: "tq_key (q\<lparr>tq_closed := b\<rparr>) = tq_key q"
  by (simp add: tq_key_def fun_eq_iff)

lemma tq_inv_closed [simp]: "tq_inv (q\<lparr>tq_closed := b\<rparr>) = tq_inv q"
  by (simp add: tq_inv_def tq_pub_def tq_maskOk_def tq_idx_def)

section \<open>Firing\<close>

definition te_event :: "timer_entry \<Rightarrow> wake_event" where
  "te_event e = (case te_callback e of Some f \<Rightarrow> CallbackRun f (te_argument e) | None \<Rightarrow> TokenWoken (te_token e))"

lemma te_event_rest:
  assumes "te_rest e = te_rest e'"
  shows "te_event e = te_event e'"
  using te_rest_field(2,5,6) [OF assms] by (simp add: te_event_def split: option.split)

lemma fireAt_law:
  assumes "tq_inv q" "i < length (tq_heap q)" "fireAt q i = (shot, q')"
  shows "shot = (tq_heap q ! i, te_event (tq_entries q (tq_heap q ! i)))" "tq_inv q'"
    "mset (tq_heap q) = add_mset (tq_heap q ! i) (mset (tq_heap q'))" "te_fired (tq_entries q' (tq_heap q ! i))"
    "\<And>b. b \<noteq> tq_heap q ! i \<Longrightarrow> te_rest (tq_entries q' b) = te_rest (tq_entries q b)"
    "\<And>b. te_deadline (tq_entries q' b) = te_deadline (tq_entries q b)" "tq_closed q' = tq_closed q"
    "\<And>b. te_callback (tq_entries q' b) = te_callback (tq_entries q b)"
proof -
  let ?a = "tq_heap q ! i"
  from removeLocked_law [OF assms(1,2)] have r: "tq_inv (removeLocked q i)"
    "mset (tq_heap (removeLocked q i)) = mset (tq_heap q) - {#?a#}" "tq_closed (removeLocked q i) = tq_closed q"
    "\<And>b. te_rest (tq_entries (removeLocked q i) b) = te_rest (tq_entries q b)" by (auto simp: removed_def)
  have q': "q' = updEntry (removeLocked q i) ?a (\<lambda>e. e\<lparr>te_fired := True\<rparr>)"
    and s: "shot = (?a, te_event (tq_entries (removeLocked q i) ?a))"
    using assms(3) by (auto simp: fireAt_def fireAndUnlock_def te_event_def Let_def)
  show "shot = (?a, te_event (tq_entries q ?a))" using s te_event_rest [OF r(4)] by simp
  show "tq_inv q'" using r(1) by (simp add: q' updEntry_inv)
  show "mset (tq_heap q) = add_mset ?a (mset (tq_heap q'))" using r(2) assms(2) by (simp add: q')
  show "te_fired (tq_entries q' ?a)" "tq_closed q' = tq_closed q" using r(3) by (simp_all add: q')
  show "te_rest (tq_entries q' b) = te_rest (tq_entries q b)" if "b \<noteq> ?a" for b using that r(4) by (simp add: q')
  show "te_deadline (tq_entries q' b) = te_deadline (tq_entries q b)"
    "te_callback (tq_entries q' b) = te_callback (tq_entries q b)" for b
    using te_rest_field(1,5) [OF r(4) [of b]] by (auto simp: q')
qed

lemma tq_inv_min:
  assumes "tq_inv q" "a \<in> set (tq_heap q)"
  shows "tq_key q 0 \<le> te_deadline (tq_entries q a)"
proof -
  from assms(2) obtain j where "j < length (tq_heap q)" "tq_heap q ! j = a" by (auto simp: in_set_conv_nth)
  with heap_ok_root [of "length (tq_heap q)" "tq_key q" j] assms(1) show ?thesis by (auto simp: tq_inv_def tq_key_def)
qed

lemma tq_inv_distinct: "tq_inv q \<Longrightarrow> distinct (tq_heap q)"
  by (simp add: tq_inv_def tq_idx_def)

text \<open>The outcome of firing: what was fired, in which order, and what is left.\<close>

definition fired_exactly :: "timer_queue \<Rightarrow> (addr \<Rightarrow> bool) \<Rightarrow> timer_shot list \<Rightarrow> timer_queue \<Rightarrow> bool" where
  "fired_exactly q P shots q' \<longleftrightarrow> tq_inv q'
     \<and> mset (map fst shots) = filter_mset P (mset (tq_heap q))
     \<and> mset (tq_heap q') = filter_mset (\<lambda>a. \<not> P a) (mset (tq_heap q))
     \<and> (\<forall>(a, ev) \<in> set shots. ev = te_event (tq_entries q a) \<and> te_fired (tq_entries q' a))
     \<and> (\<forall>b. b \<notin> fst ` set shots \<longrightarrow> te_rest (tq_entries q' b) = te_rest (tq_entries q b))"

lemma fired_exactly_step:
  assumes inv: "tq_inv q" and i: "i < length (tq_heap q)" and f: "fireAt q i = (shot, q1)" and P: "P (tq_heap q ! i)"
    and rest: "fired_exactly q1 P shots q2"
  shows "fired_exactly q P (shot # shots) q2"
proof -
  let ?a = "tq_heap q ! i"
  note l = fireAt_law [OF inv i f]
  have "?a \<notin> set (tq_heap q1)"
    using tq_inv_distinct [OF inv] l(3) by (metis distinct.simps(2) mset.simps(2) mset_eq_imp_distinct_iff)
  then have na: "?a \<notin> fst ` set shots"
    using rest unfolding fired_exactly_def by (metis (no_types, lifting) filter_mset_eq_conv in_multiset_in_set list.set_map mset_subset_eqD multiset_filter_subset)
  have m: "mset (map fst (shot # shots)) = filter_mset P (mset (tq_heap q))"
    "mset (tq_heap q2) = filter_mset (\<lambda>a. \<not> P a) (mset (tq_heap q))"
    using rest P l(1,3) by (auto simp: fired_exactly_def)
  have ev: "ev = te_event (tq_entries q a) \<and> te_fired (tq_entries q2 a)" if "(a, ev) \<in> set shots" for a ev
  proof -
    from that na have "a \<noteq> ?a" by force
    with te_event_rest [OF l(5)] rest that show ?thesis by (auto simp: fired_exactly_def)
  qed
  have "te_fired (tq_entries q2 ?a)"
    using te_rest_field(4) l(4) rest na unfolding fired_exactly_def by metis
  moreover have "te_rest (tq_entries q2 b) = te_rest (tq_entries q b)" if "b \<notin> fst ` set (shot # shots)" for b
    using that rest l(1,5) by (auto simp: fired_exactly_def)
  ultimately show ?thesis using m ev l(1) rest by (auto simp: fired_exactly_def)
qed

lemma fired_exactly_none:
  assumes "tq_inv q" "\<And>a. a \<in> set (tq_heap q) \<Longrightarrow> \<not> P a"
  shows "fired_exactly q P [] q"
proof -
  have "filter P (tq_heap q) = []" "filter (\<lambda>a. \<not> P a) (tq_heap q) = tq_heap q"
    using assms(2) by (auto simp: filter_empty_conv intro: filter_True)
  then have "filter_mset P (mset (tq_heap q)) = {#}" "filter_mset (\<lambda>a. \<not> P a) (mset (tq_heap q)) = mset (tq_heap q)"
    by (metis mset.simps(1) mset_filter, metis mset_filter)
  with assms(1) show ?thesis by (simp add: fired_exactly_def)
qed

lemma fireExpired_law:
  assumes "tq_inv q" "fireExpired q now = (shots, q')"
  shows "fired_exactly q (\<lambda>a. te_deadline (tq_entries q a) \<le> now) shots q'
    \<and> sorted (map (\<lambda>s. te_deadline (tq_entries q (fst s))) shots)"
  using assms
proof (induction q now arbitrary: shots q' rule: fireExpired.induct)
  case (1 q now)
  show ?case
  proof (cases "fireOne q now")
    case None
    with "1.prems"(2) have *: "shots = []" "q' = q" by (auto simp: fireExpired.simps [of q now])
    from None have "\<not> te_deadline (tq_entries q a) \<le> now" if "a \<in> set (tq_heap q)" for a
      using that tq_inv_min [OF "1.prems"(1) that] by (auto simp: fireOne_def split: if_splits)
    with fired_exactly_none [OF "1.prems"(1)] show ?thesis by (simp add: *)
  next
    case (Some p)
    obtain shot q1 where p: "p = (shot, q1)" by (cases p)
    obtain shots1 where r: "fireExpired q1 now = (shots1, q')" "shots = shot # shots1"
      using "1.prems"(2) Some p by (auto simp: fireExpired.simps [of q now] split: prod.splits)
    have f: "fireAt q 0 = (shot, q1)" and ne: "0 < length (tq_heap q)" and le: "tq_key q 0 \<le> now"
      using Some p by (auto simp: fireOne_def split: if_splits)
    note l = fireAt_law [OF "1.prems"(1) ne f]
    from "1.IH" [OF Some p [symmetric] l(2) r(1)] have ih:
      "fired_exactly q1 (\<lambda>a. te_deadline (tq_entries q a) \<le> now) shots1 q'"
      "sorted (map (\<lambda>s. te_deadline (tq_entries q (fst s))) shots1)" by (simp_all add: l(6))
    have "tq_key q 0 \<le> te_deadline (tq_entries q (fst s))" if "s \<in> set shots1" for s
    proof -
      from that ih(1) have "fst s \<in># mset (tq_heap q1)"
        unfolding fired_exactly_def by (metis (no_types, lifting) image_eqI list.set_map mset_subset_eqD multiset_filter_subset set_mset_mset)
      then have "fst s \<in> set (tq_heap q)" using l(3) by (metis insert_iff set_mset_add_mset_insert set_mset_mset)
      then show ?thesis by (rule tq_inv_min [OF "1.prems"(1)])
    qed
    then show ?thesis
      using fired_exactly_step [OF "1.prems"(1) ne f _ ih(1)] ih(2) le l(1) r(2) by (auto simp: tq_key_def)
  qed
qed

lemma firstCallback_spec:
  assumes "firstCallback q \<noteq> length (tq_heap q)"
  shows "firstCallback q < length (tq_heap q)" "te_callback (tq_entries q (tq_heap q ! firstCallback q)) \<noteq> None"
proof -
  let ?P = "\<lambda>a. te_callback (tq_entries q a) = None"
  show "firstCallback q < length (tq_heap q)"
    using assms length_takeWhile_le [of ?P "tq_heap q"] unfolding firstCallback_def by (rule le_neq_implies_less [rotated])
  then show "te_callback (tq_entries q (tq_heap q ! firstCallback q)) \<noteq> None"
    using nth_length_takeWhile [of ?P "tq_heap q"] by (simp add: firstCallback_def)
qed

lemma firstCallback_none:
  assumes "firstCallback q = length (tq_heap q)" "a \<in> set (tq_heap q)"
  shows "te_callback (tq_entries q a) = None"
  using assms by (metis (mono_tags, lifting) firstCallback_def set_takeWhileD takeWhile_eq_take take_all_iff order_refl)

lemma closeOne_cases:
  assumes "tq_inv q" "closeOne q = (r, q1)"
  shows "case r of None \<Rightarrow> q1 = q\<lparr>tq_closed := True\<rparr> \<and> (\<forall>a\<in>set (tq_heap q). te_callback (tq_entries q a) = None)
    | Some shot \<Rightarrow> \<exists>i<length (tq_heap q). te_callback (tq_entries q (tq_heap q ! i)) \<noteq> None
        \<and> fireAt (q\<lparr>tq_closed := True\<rparr>) i = (shot, q1)"
proof -
  let ?q = "q\<lparr>tq_closed := True\<rparr>"
  show ?thesis
  proof (cases "firstCallback ?q = length (tq_heap ?q)")
    case True
    with assms(2) firstCallback_none [OF True] show ?thesis by (auto simp: closeOne_def Let_def)
  next
    case False
    let ?i = "firstCallback ?q"
    obtain shot q2 where f: "fireAt ?q ?i = (shot, q2)" by (cases "fireAt ?q ?i")
    with assms(2) False have "r = Some shot" "q1 = q2" by (auto simp: closeOne_def Let_def)
    with firstCallback_spec [OF False] f show ?thesis by auto
  qed
qed

lemma fired_exactly_closed:
  "fired_exactly (q\<lparr>tq_closed := b\<rparr>) P shots q' = fired_exactly q P shots q'"
  by (simp add: fired_exactly_def)

lemma fireCallbacksAndClose_law:
  assumes "tq_inv q" "fireCallbacksAndClose q = (shots, q')"
  shows "fired_exactly q (\<lambda>a. te_callback (tq_entries q a) \<noteq> None) shots q' \<and> tq_closed q'"
  using assms
proof (induction q arbitrary: shots q' rule: fireCallbacksAndClose.induct)
  case (1 q)
  let ?q = "q\<lparr>tq_closed := True\<rparr>" let ?P = "\<lambda>a. te_callback (tq_entries q a) \<noteq> None"
  obtain r q1 where c: "closeOne q = (r, q1)" by (cases "closeOne q")
  note cc = closeOne_cases [OF "1.prems"(1) c]
  show ?case
  proof (cases r)
    case None
    with "1.prems"(2) c have "shots = []" "q' = q1" by (auto simp: fireCallbacksAndClose.simps [of q])
    moreover have "fired_exactly ?q ?P [] ?q" using cc None "1.prems"(1) by (intro fired_exactly_none) auto
    ultimately show ?thesis using cc None by (simp add: fired_exactly_closed)
  next
    case (Some shot)
    obtain shots1 where r: "fireCallbacksAndClose q1 = (shots1, q')" "shots = shot # shots1"
      using "1.prems"(2) Some c by (auto simp: fireCallbacksAndClose.simps [of q] split: prod.splits)
    from cc Some obtain i where i: "i < length (tq_heap ?q)" "?P (tq_heap ?q ! i)" "fireAt ?q i = (shot, q1)" by auto
    have inv: "tq_inv ?q" using "1.prems"(1) by simp
    note l = fireAt_law [OF inv i(1,3)]
    from "1.IH" [OF c [symmetric] Some l(2) r(1)] have ih: "fired_exactly q1 ?P shots1 q'" "tq_closed q'" by (simp_all add: l(8))
    from fired_exactly_step [OF inv i(1,3) i(2) ih(1)] ih(2) r(2) show ?thesis by (simp add: fired_exactly_closed)
  qed
qed

lemma tq_idx_queued:
  assumes "tq_inv q"
  shows "te_heapIndex (tq_entries q a) = None \<longleftrightarrow> a \<notin> set (tq_heap q)"
    "te_heapIndex (tq_entries q a) = Some i \<Longrightarrow> i < length (tq_heap q) \<and> tq_heap q ! i = a"
proof -
  have idx: "tq_idx q" using assms by (simp add: tq_inv_def)
  have queued: "\<exists>j<length (tq_heap q). tq_heap q ! j = a \<and> te_heapIndex (tq_entries q a) = Some j" if "a \<in> set (tq_heap q)"
    using that idx by (auto simp: tq_idx_def in_set_conv_nth)
  then show n: "te_heapIndex (tq_entries q a) = None \<longleftrightarrow> a \<notin> set (tq_heap q)"
    using idx by (auto simp: tq_idx_def)
  show "i < length (tq_heap q) \<and> tq_heap q ! i = a" if "te_heapIndex (tq_entries q a) = Some i"
    using that n queued by auto
qed

section \<open>Runs of a queue\<close>

text \<open>Any order of the operations, one critical section each.  \<open>Prepare\<close> sets up an entry that is
  not queued, as its owner does on its own stack; \<open>Others\<close> is another queue changing its own bit
  of the shared mask.\<close>

inductive tq_step :: "timer_queue \<Rightarrow> timer_queue \<Rightarrow> bool" where
  Prepare: "a \<notin> set (tq_heap q) \<Longrightarrow> te_heapIndex e = None \<Longrightarrow> tq_step q (q\<lparr>tq_entries := (tq_entries q)(a := e)\<rparr>)"
| Add: "a \<notin> set (tq_heap q) \<Longrightarrow> tq_add q a = (r, q') \<Longrightarrow> tq_step q q'"
| AddUnlessCancelled: "a \<notin> set (tq_heap q) \<Longrightarrow> addUnlessCancelled q a = (r, q') \<Longrightarrow> tq_step q q'"
| Cancel: "cancelTimer q a = (r, q') \<Longrightarrow> tq_step q q'"
| Fire: "fireOne q now = Some (shot, q') \<Longrightarrow> tq_step q q'"
| Close: "closeOne q = (r, q') \<Longrightarrow> tq_step q q'"
| Others: "tq_activeMask q = Some m \<Longrightarrow> (m' AND tq_activeBit q) = (m AND tq_activeBit q)
    \<Longrightarrow> tq_step q (q\<lparr>tq_activeMask := Some m'\<rparr>)"

definition tq_init :: "timer_queue \<Rightarrow> bool" where
  "tq_init q \<longleftrightarrow> (\<exists>i es m b. (\<forall>a. te_heapIndex (es a) = None) \<and> (m AND b) = 0 \<and> q = attachActiveMask (tq_new i es) m b)"

lemma tq_add_law:
  assumes "tq_inv q" "a \<notin> set (tq_heap q)" "tq_add q a = (r, q')"
  shows "inserted q a q' \<and> (r \<longleftrightarrow> tq_heap q' ! 0 = a) \<and> te_queue (tq_entries q' a) = Some (tq_id q)"
proof -
  let ?q = "updEntry q a (\<lambda>e. e\<lparr>te_queue := Some (tq_id q)\<rparr>)"
  have i: "tq_inv ?q" "a \<notin> set (tq_heap ?q)" using assms(1,2) by (simp_all add: updEntry_inv)
  have q': "q' = publishLocked (tq_insert ?q a)" "r = (tq_heap q' ! 0 = a)" using assms(3) by (auto simp: tq_add_def Let_def)
  have "inserted q a q'" using tq_insert_law [OF i] by (simp add: q'(1) inserted_def)
  moreover have "te_queue (tq_entries q' a) = Some (tq_id q)"
  proof -
    let ?q2 = "(updEntry ?q a (\<lambda>e. e\<lparr>te_fired := False, te_heapIndex := Some (length (tq_heap q))\<rparr>))\<lparr>tq_heap := tq_heap q @ [a]\<rparr>"
    from te_rest_field(3) [OF siftUp_rest, of ?q2 "length (tq_heap q)" a] show ?thesis by (simp add: q' tq_insert_def Let_def)
  qed
  ultimately show ?thesis using q'(2) by blast
qed

lemma tq_cancel_law:
  assumes "tq_inv q" "tq_cancel q a = (r, q')"
  shows "if a \<in> set (tq_heap q) then r \<and> removed q a q'
    else \<not> r \<and> tq_inv q' \<and> te_cancelled (tq_entries q' a) \<and> tq_heap q' = tq_heap q"
proof (cases "te_heapIndex (tq_entries q a)")
  case None
  then have "a \<notin> set (tq_heap q)" "r = False" "q' = updEntry q a (\<lambda>e. e\<lparr>te_cancelled := True\<rparr>)"
    using assms(2) tq_idx_queued(1) [OF assms(1), of a] by (simp_all add: tq_cancel_def)
  then show ?thesis using assms(1) by (simp add: updEntry_inv)
next
  case (Some i)
  with tq_idx_queued [OF assms(1), of a] have "i < length (tq_heap q)" "tq_heap q ! i = a" "a \<in> set (tq_heap q)" by auto
  then show ?thesis using assms(2) removeLocked_law [OF assms(1), of i] Some by (auto simp: tq_cancel_def)
qed

lemma tq_step_inv: "tq_step q q' \<Longrightarrow> tq_inv q \<Longrightarrow> tq_inv q'"
proof (induction rule: tq_step.induct)
  case (Prepare a q e)
  let ?q = "q\<lparr>tq_entries := (tq_entries q)(a := e)\<rparr>"
  have ne: "tq_heap q ! i \<noteq> a" if "i < length (tq_heap q)" for i using that Prepare(1) nth_mem by blast
  then have k: "tq_key ?q i = tq_key q i" if "i < length (tq_heap q)" for i using that by (simp add: tq_key_def)
  have "heap_ok (length (tq_heap q)) (tq_key ?q)" using Prepare(3) heap_ok_cong [OF k] by (simp add: tq_inv_def)
  moreover have "tq_idx ?q" using Prepare ne by (simp add: tq_inv_def tq_idx_def)
  moreover have "tq_pub ?q" using Prepare(3) k [of 0] by (simp add: tq_inv_def tq_pub_def tq_maskOk_def)
  ultimately show ?case by (simp add: tq_inv_def)
next
  case (Add a q r q')
  then show ?case using tq_add_law [of q a r q'] by (simp add: inserted_def)
next
  case (AddUnlessCancelled a q r q')
  then show ?case using tq_insert_law [of q a] by (auto simp: addUnlessCancelled_def inserted_def split: if_splits)
next
  case (Cancel q a r q')
  then show ?case using tq_cancel_law [of q a r q'] by (auto simp: cancelTimer_def removed_def split: if_splits)
next
  case (Fire q now shot q')
  then show ?case using fireAt_law(2) [of q 0 shot q'] by (auto simp: fireOne_def split: if_splits)
next
  case (Close q r q')
  note cc = closeOne_cases [OF Close(2,1)]
  have inv: "tq_inv (q\<lparr>tq_closed := True\<rparr>)" using Close(2) by simp
  show ?case
  proof (cases r)
    case None
    with cc inv show ?thesis by simp
  next
    case (Some shot)
    with cc obtain i where "i < length (tq_heap (q\<lparr>tq_closed := True\<rparr>))" "fireAt (q\<lparr>tq_closed := True\<rparr>) i = (shot, q')" by auto
    then show ?thesis by (rule fireAt_law(2) [OF inv])
  qed
next
  case (Others q m m')
  then show ?case by (auto simp: tq_inv_def tq_pub_def tq_maskOk_def tq_idx_def tq_key_def heap_ok_def)
qed

interpretation tq: step_system tq_init tq_step tq_inv
proof
  show "tq_inv q" if "tq_init q" for q
    using that by (auto simp: tq_init_def tq_inv_def tq_idx_def heap_ok_def tq_pub_def tq_maskOk_def attachActiveMask_def tq_new_def)
  show "tq_inv q'" if "tq_inv q" "tq_step q q'" for q q'
    using tq_step_inv that by blast
qed

section \<open>Properties\<close>

text \<open>in every reachable state the published mirrors are exact: the size is the number of queued
  entries, the earliest deadline is the minimum over them (or the no-deadline value), the active
  bit of the shared mask is set iff something is queued; and every queued entry knows its position.\<close>

theorem timer_mirrors_exact:
  assumes "tq_init q0" "tq_step\<^sup>*\<^sup>* q0 q"
  shows "tq_size q = length (tq_heap q)
    \<and> tq_earliest q = (if tq_heap q = [] then kNoDeadline else Min ((\<lambda>a. te_deadline (tq_entries q a)) ` set (tq_heap q)))
    \<and> (\<forall>m. tq_activeMask q = Some m \<longrightarrow> (m AND tq_activeBit q) = (if tq_heap q = [] then 0 else tq_activeBit q))
    \<and> (\<forall>i<length (tq_heap q). te_heapIndex (tq_entries q (tq_heap q ! i)) = Some i)"
proof -
  have inv: "tq_inv q" by (rule tq.reachable_inv [OF assms])
  have "Min ((\<lambda>a. te_deadline (tq_entries q a)) ` set (tq_heap q)) = tq_key q 0" if "tq_heap q \<noteq> []"
    using tq_inv_min [OF inv] that by (intro Min_eqI) (auto simp: tq_key_def)
  with inv show ?thesis by (simp add: tq_inv_def tq_pub_def tq_maskOk_def tq_idx_def)
qed

definition demo_entry :: "int \<Rightarrow> timer_entry" where
  "demo_entry d = \<lparr>te_deadline = d, te_token = empty_token, te_queue = None, te_heapIndex = None, te_fired = False,
     te_callback = None, te_argument = 0, te_cancelled = False\<rparr>"

definition demo_queue :: timer_queue where
  "demo_queue = attachActiveMask (tq_new 0 (\<lambda>a. demo_entry (10 - int a))) 2 1"

lemma demo_init: "tq_init demo_queue"
  unfolding tq_init_def demo_queue_def by (intro exI [of _ 0] exI [of _ "\<lambda>a. demo_entry (10 - int a)"] exI [of _ 2] exI [of _ 1]) (simp add: demo_entry_def)

lemma demo_steps: "tq_step\<^sup>*\<^sup>* demo_queue (snd (tq_add (snd (tq_add demo_queue 1)) 2))"
proof -
  have "tq_step demo_queue (snd (tq_add demo_queue 1))"
    by (rule tq_step.Add [of 1 _ "fst (tq_add demo_queue 1)"]) (simp_all add: demo_queue_def attachActiveMask_def tq_new_def)
  moreover have "tq_step (snd (tq_add demo_queue 1)) (snd (tq_add (snd (tq_add demo_queue 1)) 2))"
  proof (rule tq_step.Add [of 2])
    have "tq_heap (snd (tq_add demo_queue 1)) = [1]" by code_simp
    then show "2 \<notin> set (tq_heap (snd (tq_add demo_queue 1)))" by simp
    show "tq_add (snd (tq_add demo_queue 1)) 2 = (fst (tq_add (snd (tq_add demo_queue 1)) 2), snd (tq_add (snd (tq_add demo_queue 1)) 2))" by simp
  qed
  ultimately show ?thesis by (meson converse_rtranclp_into_rtranclp rtranclp.rtrancl_refl)
qed

lemma demo_inv: "tq_inv (snd (tq_add (snd (tq_add demo_queue 1)) 2))"
  by (rule tq.reachable_inv [OF demo_init demo_steps])

theorem timer_mirrors_exact_witness:
  "tq_size (snd (tq_add (snd (tq_add demo_queue 1)) 2)) = 2 \<and> tq_earliest (snd (tq_add (snd (tq_add demo_queue 1)) 2)) = 8"
proof -
  have "tq_heap (snd (tq_add (snd (tq_add demo_queue 1)) 2)) = [2, 1]"
    "te_deadline (tq_entries (snd (tq_add (snd (tq_add demo_queue 1)) 2)) 1) = 9"
    "te_deadline (tq_entries (snd (tq_add (snd (tq_add demo_queue 1)) 2)) 2) = 8" by code_simp+
  with timer_mirrors_exact [OF demo_init demo_steps] show ?thesis by simp
qed

text \<open>C12: firing at \<open>now\<close> returns, and fires exactly the queued entries whose deadline is at most
  \<open>now\<close>, each once, in the order of their deadlines, with its own callback or wake token; it marks
  each fired, leaves the later entries queued and touches no other entry.\<close>

theorem timer_fires_exactly_due:
  assumes "tq_inv q"
  shows "\<exists>shots q'. fireExpired q now = (shots, q')
    \<and> mset (map fst shots) = filter_mset (\<lambda>a. te_deadline (tq_entries q a) \<le> now) (mset (tq_heap q))
    \<and> mset (tq_heap q') = filter_mset (\<lambda>a. \<not> te_deadline (tq_entries q a) \<le> now) (mset (tq_heap q))
    \<and> sorted (map (\<lambda>s. te_deadline (tq_entries q (fst s))) shots) \<and> distinct (map fst shots)
    \<and> (\<forall>(a, ev) \<in> set shots. te_fired (tq_entries q' a)
         \<and> ev = (case te_callback (tq_entries q a) of Some f \<Rightarrow> CallbackRun f (te_argument (tq_entries q a))
                 | None \<Rightarrow> TokenWoken (te_token (tq_entries q a))))
    \<and> (\<forall>b. b \<notin> fst ` set shots \<longrightarrow> te_fired (tq_entries q' b) = te_fired (tq_entries q b)) \<and> tq_inv q'"
proof -
  obtain shots q' where f: "fireExpired q now = (shots, q')" by (cases "fireExpired q now")
  note l = fireExpired_law [OF assms f, unfolded fired_exactly_def te_event_def]
  have "distinct (map fst shots)"
  proof -
    have "mset (map fst shots) = mset (filter (\<lambda>a. te_deadline (tq_entries q a) \<le> now) (tq_heap q))" using l by simp
    then show ?thesis using tq_inv_distinct [OF assms] mset_eq_imp_distinct_iff distinct_filter by blast
  qed
  with f l te_rest_field(4) show ?thesis by blast
qed

theorem timer_fires_exactly_due_witness:
  "\<exists>shots q'. fireExpired (snd (tq_add (snd (tq_add demo_queue 1)) 2)) 8 = (shots, q') \<and> mset (map fst shots) = {#2#}"
proof -
  have "filter (\<lambda>a. te_deadline (tq_entries (snd (tq_add (snd (tq_add demo_queue 1)) 2)) a) \<le> 8)
      (tq_heap (snd (tq_add (snd (tq_add demo_queue 1)) 2))) = [2]" by code_simp
  then have "filter_mset (\<lambda>a. te_deadline (tq_entries (snd (tq_add (snd (tq_add demo_queue 1)) 2)) a) \<le> 8)
      (mset (tq_heap (snd (tq_add (snd (tq_add demo_queue 1)) 2)))) = {#2#}" by (metis mset_filter mset_single_iff)
  with timer_fires_exactly_due [OF demo_inv, of 8] show ?thesis by metis
qed

text \<open>cancelling a timer reports whether it was still queued and then removes exactly it; an
  entry that is not queued any more, or not yet, is marked so that a later conditional add refuses
  it.\<close>

theorem timer_cancel_exact:
  assumes "tq_inv q" "te_queue (tq_entries q a) \<noteq> None" "cancelTimer q a = (r, q')"
  shows "(r \<longleftrightarrow> a \<in> set (tq_heap q)) \<and> tq_inv q' \<and> a \<notin> set (tq_heap q')
    \<and> mset (tq_heap q') = mset (tq_heap q) - {#a#}
    \<and> (\<not> r \<longrightarrow> addUnlessCancelled q' a = (False, q'))
    \<and> (\<forall>b. b \<noteq> a \<longrightarrow> te_fired (tq_entries q' b) = te_fired (tq_entries q b))"
proof -
  have c: "tq_cancel q a = (r, q')" using assms(2,3) unfolding cancelTimer_def by (simp only: if_False)
  show ?thesis
  proof (cases "a \<in> set (tq_heap q)")
    case True
    then have r: "r" "removed q a q'" using tq_cancel_law [OF assms(1) c] by auto
    then have m: "mset (tq_heap q) = add_mset a (mset (tq_heap q'))" using True by (simp add: removed_def)
    then have "a \<notin> set (tq_heap q')"
      using tq_inv_distinct [OF assms(1)] by (metis distinct.simps(2) mset.simps(2) mset_eq_imp_distinct_iff)
    moreover have "\<And>b. te_fired (tq_entries q' b) = te_fired (tq_entries q b)"
      using r(2) te_rest_field(4) unfolding removed_def by blast
    ultimately show ?thesis using r True by (auto simp: removed_def)
  next
    case False
    then have r: "\<not> r" "tq_inv q'" "te_cancelled (tq_entries q' a)" "tq_heap q' = tq_heap q"
      using tq_cancel_law [OF assms(1) c] by auto
    have "te_fired (tq_entries q' b) = te_fired (tq_entries q b)" if "b \<noteq> a" for b
      using c r(1) that by (auto simp: tq_cancel_def split: option.splits)
    with r False show ?thesis by (simp add: addUnlessCancelled_def)
  qed
qed

theorem timer_cancel_exact_witness:
  "fst (cancelTimer (snd (tq_add (snd (tq_add demo_queue 1)) 2)) 2)
    \<and> 2 \<notin> set (tq_heap (snd (cancelTimer (snd (tq_add (snd (tq_add demo_queue 1)) 2)) 2)))"
proof -
  let ?q = "snd (tq_add (snd (tq_add demo_queue 1)) 2)"
  have h: "tq_heap ?q = [2, 1]" "te_queue (tq_entries ?q 2) = Some 0" by code_simp+
  have "te_queue (tq_entries ?q 2) \<noteq> None" by (simp only: h option.distinct(2) not_False_eq_True)
  from timer_cancel_exact [OF demo_inv this, of "fst (cancelTimer ?q 2)" "snd (cancelTimer ?q 2)"] h(1)
  show ?thesis by simp
qed

end
