(* ===== verification/Task_Park.thy ===== *)
theory Task_Park
  imports Step_System
begin

text \<open>
  The park/wake protocol of one task (\<^verbatim>\<open>sched/detail/Task.h\<close>, \<^verbatim>\<open>Runtime.h\<close>,
  \<^verbatim>\<open>ThisTask.h\<close> and the reaper of \<^verbatim>\<open>Worker.cpp\<close>), cut into the accesses to \<^verbatim>\<open>parkState\<close> and
  interleaved with any number of threads that wake or reap it.  \<^verbatim>\<open>schedule\<close> is one step here:
  it puts the task into some run queue; which one is the business of the placement model.
\<close>

section \<open>The model\<close>

datatype TaskState = Running | Parked | Notified | Done

text \<open>Where the task itself is: executing; consuming a token in \<^verbatim>\<open>park\<close>; switched out with its
  post-switch hook still to run (\<open>TOut\<close> for \<^verbatim>\<open>onTaskParked\<close>, \<open>TYield\<close> for \<^verbatim>\<open>onTaskYielded\<close>,
  \<open>TFinish\<close> for \<^verbatim>\<open>onTaskFinished\<close>); inside \<^verbatim>\<open>onTaskParked\<close> after its exchange failed; or fully
  switched out.\<close>

datatype task_pc = TExec | TConsume | TOut | THookLost | THookSched | TYield | TFinish | TAway | TDone

text \<open>A thread in \<^verbatim>\<open>SchedulerCore::wake\<close> or \<^verbatim>\<open>Worker::reapParkedTasks\<close>.\<close>

datatype wake_pc = PIdle | WLoaded TaskState | WWon | WSched | RClaimed | RLost | RSched

text \<open>\<open>pk_queued\<close> counts the entries for the task in all run queues.  \<open>pk_woken\<close> is a ghost: a wake
  took effect and the task has not executed since.\<close>

record park_sys =
  pk_state :: TaskState
  pk_task :: task_pc
  pk_pc :: "nat \<Rightarrow> wake_pc"
  pk_queued :: nat
  pk_shields :: nat
  pk_woken :: bool

inductive park_step :: "park_sys \<Rightarrow> park_sys \<Rightarrow> bool" where
  ParkToken: "pk_task s = TExec \<Longrightarrow> pk_state s = Notified \<Longrightarrow> park_step s (s\<lparr>pk_task := TConsume\<rparr>)"
| ParkConsume: "pk_task s = TConsume \<Longrightarrow> park_step s (s\<lparr>pk_task := TExec, pk_state := Running, pk_woken := False\<rparr>)"
| ParkSwitch: "pk_task s = TExec \<Longrightarrow> pk_state s \<noteq> Notified \<Longrightarrow> park_step s (s\<lparr>pk_task := TOut\<rparr>)"
| HookParks: "pk_task s = TOut \<Longrightarrow> pk_state s = Running \<Longrightarrow> park_step s (s\<lparr>pk_task := TAway, pk_state := Parked\<rparr>)"
| HookLoses: "pk_task s = TOut \<Longrightarrow> pk_state s \<noteq> Running \<Longrightarrow> park_step s (s\<lparr>pk_task := THookLost\<rparr>)"
| HookStores: "pk_task s = THookLost \<Longrightarrow> park_step s (s\<lparr>pk_task := THookSched, pk_state := Running\<rparr>)"
| HookSchedules: "pk_task s = THookSched \<Longrightarrow> park_step s (s\<lparr>pk_task := TAway, pk_queued := pk_queued s + 1\<rparr>)"
| Yields: "pk_task s = TExec \<Longrightarrow> park_step s (s\<lparr>pk_task := TYield\<rparr>)"
| YieldQueues: "pk_task s = TYield \<Longrightarrow> park_step s (s\<lparr>pk_task := TAway, pk_queued := pk_queued s + 1\<rparr>)"
| Returns: "pk_task s = TExec \<Longrightarrow> park_step s (s\<lparr>pk_task := TFinish\<rparr>)"
| Releases: "pk_task s = TFinish \<Longrightarrow> park_step s (s\<lparr>pk_task := TDone, pk_state := Done\<rparr>)"
| Dispatch: "pk_queued s > 0 \<Longrightarrow> park_step s (s\<lparr>pk_queued := pk_queued s - 1, pk_task := TExec, pk_woken := False\<rparr>)"
| Shield: "pk_task s = TExec \<Longrightarrow> park_step s (s\<lparr>pk_shields := n\<rparr>)"
| WakeLoad: "pk_pc s t = PIdle \<Longrightarrow> park_step s (s\<lparr>pk_pc := (pk_pc s)(t := WLoaded (pk_state s))\<rparr>)"
| WakeNothing: "pk_pc s t = WLoaded st \<Longrightarrow> st = Notified \<or> st = Done \<Longrightarrow> park_step s (s\<lparr>pk_pc := (pk_pc s)(t := PIdle)\<rparr>)"
| WakeRetry: "pk_pc s t = WLoaded st \<Longrightarrow> st = Running \<or> st = Parked \<Longrightarrow> park_step s (s\<lparr>pk_pc := (pk_pc s)(t := WLoaded (pk_state s))\<rparr>)"
| WakeRunning: "pk_pc s t = WLoaded Running \<Longrightarrow> pk_state s = Running
    \<Longrightarrow> park_step s (s\<lparr>pk_pc := (pk_pc s)(t := PIdle), pk_state := Notified, pk_woken := True\<rparr>)"
| WakeParked: "pk_pc s t = WLoaded Parked \<Longrightarrow> pk_state s = Parked
    \<Longrightarrow> park_step s (s\<lparr>pk_pc := (pk_pc s)(t := WWon), pk_state := Notified, pk_woken := True\<rparr>)"
| WakeStores: "pk_pc s t = WWon \<Longrightarrow> park_step s (s\<lparr>pk_pc := (pk_pc s)(t := WSched), pk_state := Running\<rparr>)"
| WakeSchedules: "pk_pc s t = WSched \<Longrightarrow> park_step s (s\<lparr>pk_pc := (pk_pc s)(t := PIdle), pk_queued := pk_queued s + 1\<rparr>)"
| ReapClaims: "pk_pc s t = PIdle \<Longrightarrow> pk_state s = Parked
    \<Longrightarrow> park_step s (s\<lparr>pk_pc := (pk_pc s)(t := RClaimed), pk_state := Running\<rparr>)"
| ReapPutsBack: "pk_pc s t = RClaimed \<Longrightarrow> pk_shields s \<noteq> 0 \<Longrightarrow> pk_state s = Running
    \<Longrightarrow> park_step s (s\<lparr>pk_pc := (pk_pc s)(t := PIdle), pk_state := Parked\<rparr>)"
| ReapLoses: "pk_pc s t = RClaimed \<Longrightarrow> pk_shields s \<noteq> 0 \<Longrightarrow> pk_state s \<noteq> Running
    \<Longrightarrow> park_step s (s\<lparr>pk_pc := (pk_pc s)(t := RLost)\<rparr>)"
| ReapStores: "pk_pc s t = RLost \<Longrightarrow> park_step s (s\<lparr>pk_pc := (pk_pc s)(t := RSched), pk_state := Running\<rparr>)"
| ReapSchedules: "pk_pc s t = RSched \<Longrightarrow> park_step s (s\<lparr>pk_pc := (pk_pc s)(t := PIdle), pk_queued := pk_queued s + 1\<rparr>)"
| ReapUnwinds: "pk_pc s t = RClaimed \<Longrightarrow> pk_shields s = 0
    \<Longrightarrow> park_step s (s\<lparr>pk_pc := (pk_pc s)(t := PIdle), pk_task := TExec\<rparr>)"

text \<open>A task as \<^verbatim>\<open>createTask\<close> leaves it, once \<^verbatim>\<open>schedule\<close> has queued it.\<close>

definition park_init :: "park_sys \<Rightarrow> bool" where
  "park_init s \<longleftrightarrow> pk_state s = Running \<and> pk_task s = TAway \<and> pk_pc s = (\<lambda>_. PIdle) \<and> pk_queued s = 1 \<and> \<not> pk_woken s"

section \<open>One owner\<close>

text \<open>At any moment exactly one party may touch the task: itself, the thread that claimed it, the
  run queue it is in, or, while it is parked, whoever claims it first.\<close>

datatype park_owner = OTask | OThread nat | OQueue | OParked | ONobody

definition wake_holds :: "wake_pc \<Rightarrow> bool" where
  "wake_holds p \<longleftrightarrow> p \<in> {WWon, WSched, RClaimed, RLost, RSched}"

definition task_holds :: "task_pc \<Rightarrow> bool" where
  "task_holds p \<longleftrightarrow> p \<notin> {TAway, TDone}"

definition park_own :: "park_sys \<Rightarrow> park_owner \<Rightarrow> bool" where
  "park_own s w \<longleftrightarrow> task_holds (pk_task s) = (w = OTask) \<and> (\<forall>t. wake_holds (pk_pc s t) = (w = OThread t))
     \<and> pk_queued s = (if w = OQueue then 1 else 0) \<and> (pk_state s = Parked) = (w = OParked)
     \<and> (pk_task s = TDone) = (w = ONobody) \<and> (pk_state s = Done) = (w = ONobody)"

definition park_inv :: "park_sys \<Rightarrow> bool" where
  "park_inv s \<longleftrightarrow> (\<exists>w. park_own s w)
     \<and> (\<forall>t. pk_pc s t \<in> {WWon, RLost} \<longrightarrow> pk_state s = Notified)
     \<and> (pk_task s \<in> {TConsume, THookLost} \<longrightarrow> pk_state s = Notified)
     \<and> (pk_woken s \<longrightarrow> pk_state s \<noteq> Parked \<and> (pk_task s \<in> {TExec, TOut} \<longrightarrow> pk_state s = Notified)
          \<and> (\<forall>t. pk_pc s t = RClaimed \<longrightarrow> pk_state s = Notified))"

lemma park_inv_own:
  assumes "park_inv s"
  obtains w where "park_own s w" using assms by (auto simp: park_inv_def)

text \<open>What each kind of owner excludes.\<close>

lemma own_task:
  assumes "park_inv s" "task_holds (pk_task s)"
  shows "park_own s OTask"
  using assms by (metis park_inv_own park_own_def)

lemma own_thread:
  assumes "park_inv s" "wake_holds (pk_pc s t)"
  shows "park_own s (OThread t)"
  using assms by (metis park_inv_own park_own_def)

lemma own_queue:
  assumes "park_inv s" "pk_queued s > 0"
  shows "park_own s OQueue"
  using assms by (metis park_inv_own park_own_def less_not_refl)

lemma own_parked:
  assumes "park_inv s" "pk_state s = Parked"
  shows "park_own s OParked"
  using assms by (metis park_inv_own park_own_def)

text \<open>The conditions besides ownership.\<close>

definition park_side :: "park_sys \<Rightarrow> bool" where
  "park_side s \<longleftrightarrow> (\<forall>t. pk_pc s t \<in> {WWon, RLost} \<longrightarrow> pk_state s = Notified)
     \<and> (pk_task s \<in> {TConsume, THookLost} \<longrightarrow> pk_state s = Notified)
     \<and> (pk_woken s \<longrightarrow> pk_state s \<noteq> Parked \<and> (pk_task s \<in> {TExec, TOut} \<longrightarrow> pk_state s = Notified)
          \<and> (\<forall>t. pk_pc s t = RClaimed \<longrightarrow> pk_state s = Notified))"

lemma park_inv_side: "park_inv s \<longleftrightarrow> (\<exists>w. park_own s w) \<and> park_side s"
  by (simp add: park_inv_def park_side_def)

lemma park_invI: "park_own s w \<Longrightarrow> park_side s \<Longrightarrow> park_inv s"
  by (auto simp: park_inv_side)

lemma not_holding:
  "\<not> wake_holds p \<longleftrightarrow> p = PIdle \<or> (\<exists>st. p = WLoaded st)"
  by (cases p) (auto simp: wake_holds_def)

text \<open>While the task itself, a queue or the parked state owns it, no thread is past its claim.\<close>

lemma no_claims:
  assumes "park_own s w" "\<forall>t. w \<noteq> OThread t"
  shows "pk_pc s t \<notin> {WWon, WSched, RClaimed, RLost, RSched}"
  using assms unfolding park_own_def by (metis wake_holds_def)

lemma side_task_step:
  assumes "park_own s OTask" "park_own s' w'" "pk_pc s' = pk_pc s"
    "pk_task s' \<in> {TConsume, THookLost} \<Longrightarrow> pk_state s' = Notified"
    "pk_woken s' \<Longrightarrow> pk_state s' \<noteq> Parked \<and> (pk_task s' \<in> {TExec, TOut} \<longrightarrow> pk_state s' = Notified)"
  shows "park_inv s'"
  using assms no_claims [OF assms(1)] by (intro park_invI [OF assms(2)]) (auto simp: park_side_def)

lemma park_step_task:
  assumes inv: "park_inv s" and holds: "task_holds (pk_task s)"
    and eq: "s' = s\<lparr>pk_task := p, pk_state := st, pk_queued := n, pk_woken := wk, pk_shields := sh\<rparr>"
    and own: "case p of TAway \<Rightarrow> (if st = Parked then n = 0 else st \<noteq> Done \<and> n = 1) | TDone \<Rightarrow> st = Done \<and> n = 0
       | _ \<Rightarrow> st \<noteq> Parked \<and> st \<noteq> Done \<and> n = 0"
    and side: "p \<in> {TConsume, THookLost} \<Longrightarrow> st = Notified" "wk \<Longrightarrow> st \<noteq> Parked \<and> (p \<in> {TExec, TOut} \<longrightarrow> st = Notified)"
  shows "park_inv s'"
proof -
  note o = own_task [OF inv holds]
  let ?w = "if p = TDone then ONobody else if p = TAway then (if st = Parked then OParked else OQueue) else OTask"
  have "park_own s' ?w" using o own by (cases p) (auto simp: park_own_def task_holds_def eq split: if_splits)
  then show ?thesis by (rule side_task_step [OF o]) (use side in \<open>auto simp: eq\<close>)
qed

lemma own_task_facts:
  assumes "park_inv s" "task_holds (pk_task s)"
  shows "pk_queued s = 0" "pk_state s \<noteq> Parked" "pk_state s \<noteq> Done"
  using own_task [OF assms] by (auto simp: park_own_def)

text \<open>A thread that holds the task, or claims it while it is parked, and where it leaves it.\<close>

lemma park_step_thread:
  assumes own: "park_own s (OThread t) \<or> park_own s OParked \<and> (\<exists>st. pk_pc s t \<in> {PIdle, WLoaded st})"
    and eq: "s' = s\<lparr>pk_pc := (pk_pc s)(t := p), pk_state := st, pk_queued := n, pk_task := k, pk_woken := wk\<rparr>"
    and new: "wake_holds p \<and> n = 0 \<and> k = TAway \<and> st \<noteq> Parked \<or> p = PIdle \<and> n = 1 \<and> k = TAway \<and> st \<noteq> Parked
       \<or> p = PIdle \<and> n = 0 \<and> k = TAway \<and> st = Parked \<or> p = PIdle \<and> n = 0 \<and> k = TExec \<and> st \<noteq> Parked"
    and st: "st \<noteq> Done" "p \<in> {WWon, RLost} \<Longrightarrow> st = Notified"
      "wk \<Longrightarrow> st \<noteq> Parked \<and> (k = TExec \<or> p = RClaimed \<longrightarrow> st = Notified)"
  shows "park_inv s'"
proof -
  let ?w = "if wake_holds p then OThread t else if n = 1 then OQueue else if st = Parked then OParked else OTask"
  have others: "\<not> wake_holds (pk_pc s u)" if "u \<noteq> t" for u using own that by (auto simp: park_own_def)
  have "park_own s' ?w" using others new st by (auto simp: park_own_def eq wake_holds_def task_holds_def)
  moreover have "pk_pc s u \<notin> {WWon, RLost, RClaimed}" if "u \<noteq> t" for u using others [OF that] by (auto simp: wake_holds_def)
  then have "park_side s'" using st new by (auto simp: park_side_def eq)
  ultimately show ?thesis by (rule park_invI)
qed

text \<open>A thread that does not hold the task and changes at most a running state to notified.\<close>

lemma park_step_loose:
  assumes inv: "park_inv s" and pc: "\<not> wake_holds (pk_pc s t)" "\<not> wake_holds p"
    and eq: "s' = s\<lparr>pk_pc := (pk_pc s)(t := p), pk_state := st, pk_woken := wk\<rparr>"
    and st: "st = pk_state s \<and> wk = pk_woken s \<or> pk_state s = Running \<and> st = Notified \<and> wk"
  shows "park_inv s'"
proof -
  obtain w where w: "park_own s w" and side: "park_side s" using inv by (auto simp: park_inv_side)
  have "park_own s' w" using w pc st by (auto simp: park_own_def eq)
  moreover have "park_side s'" using side pc st by (auto simp: park_side_def eq wake_holds_def)
  ultimately show ?thesis by (rule park_invI)
qed

lemma park_inv_sideD:
  assumes "park_inv s"
  shows "pk_pc s t \<in> {WWon, RLost} \<Longrightarrow> pk_state s = Notified" "pk_task s \<in> {TConsume, THookLost} \<Longrightarrow> pk_state s = Notified"
    "pk_woken s \<Longrightarrow> pk_state s \<noteq> Parked" "pk_woken s \<Longrightarrow> pk_task s \<in> {TExec, TOut} \<Longrightarrow> pk_state s = Notified"
    "pk_woken s \<Longrightarrow> pk_pc s t = RClaimed \<Longrightarrow> pk_state s = Notified"
  using assms by (auto simp: park_inv_side park_side_def)

lemma park_step_inv:
  assumes "park_step s s'" "park_inv s"
  shows "park_inv s'"
  using assms(1)
proof cases
  case ParkToken
  then have h: "task_holds (pk_task s)" by (simp add: task_holds_def)
  show ?thesis using ParkToken own_task_facts [OF assms(2) h]
    by (intro park_step_task [OF assms(2) h, where p = TConsume and st = Notified and n = 0 and wk = "pk_woken s" and sh = "pk_shields s"]) auto
next
  case ParkConsume
  then have h: "task_holds (pk_task s)" by (simp add: task_holds_def)
  show ?thesis using ParkConsume own_task_facts [OF assms(2) h]
    by (intro park_step_task [OF assms(2) h, where p = TExec and st = Running and n = 0 and wk = False and sh = "pk_shields s"]) auto
next
  case ParkSwitch
  then have h: "task_holds (pk_task s)" by (simp add: task_holds_def)
  show ?thesis using ParkSwitch own_task_facts [OF assms(2) h] park_inv_sideD(4) [OF assms(2)]
    by (intro park_step_task [OF assms(2) h, where p = TOut and st = "pk_state s" and n = 0 and wk = "pk_woken s" and sh = "pk_shields s"]) auto
next
  case HookParks
  then have h: "task_holds (pk_task s)" by (simp add: task_holds_def)
  show ?thesis using HookParks own_task_facts [OF assms(2) h] park_inv_sideD(4) [OF assms(2)]
    by (intro park_step_task [OF assms(2) h, where p = TAway and st = Parked and n = 0 and wk = "pk_woken s" and sh = "pk_shields s"]) auto
next
  case HookLoses
  then have h: "task_holds (pk_task s)" by (simp add: task_holds_def)
  then have "pk_state s = Notified" using HookLoses own_task_facts [OF assms(2) h] by (cases "pk_state s") auto
  then show ?thesis using HookLoses own_task_facts [OF assms(2) h]
    by (intro park_step_task [OF assms(2) h, where p = THookLost and st = "pk_state s" and n = 0 and wk = "pk_woken s" and sh = "pk_shields s"]) auto
next
  case HookStores
  then have h: "task_holds (pk_task s)" by (simp add: task_holds_def)
  show ?thesis using HookStores own_task_facts [OF assms(2) h]
    by (intro park_step_task [OF assms(2) h, where p = THookSched and st = Running and n = 0 and wk = "pk_woken s" and sh = "pk_shields s"]) auto
next
  case HookSchedules
  then have h: "task_holds (pk_task s)" by (simp add: task_holds_def)
  show ?thesis using HookSchedules own_task_facts [OF assms(2) h]
    by (intro park_step_task [OF assms(2) h, where p = TAway and st = "pk_state s" and n = 1 and wk = "pk_woken s" and sh = "pk_shields s"]) auto
next
  case Yields
  then have h: "task_holds (pk_task s)" by (simp add: task_holds_def)
  show ?thesis using Yields own_task_facts [OF assms(2) h]
    by (intro park_step_task [OF assms(2) h, where p = TYield and st = "pk_state s" and n = 0 and wk = "pk_woken s" and sh = "pk_shields s"]) auto
next
  case YieldQueues
  then have h: "task_holds (pk_task s)" by (simp add: task_holds_def)
  show ?thesis using YieldQueues own_task_facts [OF assms(2) h]
    by (intro park_step_task [OF assms(2) h, where p = TAway and st = "pk_state s" and n = 1 and wk = "pk_woken s" and sh = "pk_shields s"]) auto
next
  case Returns
  then have h: "task_holds (pk_task s)" by (simp add: task_holds_def)
  show ?thesis using Returns own_task_facts [OF assms(2) h]
    by (intro park_step_task [OF assms(2) h, where p = TFinish and st = "pk_state s" and n = 0 and wk = "pk_woken s" and sh = "pk_shields s"]) auto
next
  case Releases
  then have h: "task_holds (pk_task s)" by (simp add: task_holds_def)
  show ?thesis using Releases own_task_facts [OF assms(2) h]
    by (intro park_step_task [OF assms(2) h, where p = TDone and st = Done and n = 0 and wk = "pk_woken s" and sh = "pk_shields s"]) auto
next
  case (Shield n)
  then have h: "task_holds (pk_task s)" by (simp add: task_holds_def)
  show ?thesis using Shield own_task_facts [OF assms(2) h] park_inv_sideD(4) [OF assms(2)]
    by (intro park_step_task [OF assms(2) h, where p = TExec and st = "pk_state s" and n = 0 and wk = "pk_woken s" and sh = n]) auto
next
  case Dispatch
  then show ?thesis using own_queue [OF assms(2)] no_claims [of s OQueue]
    by (intro park_invI [of s' OTask]) (auto simp: park_own_def park_side_def task_holds_def)
next
  case (WakeLoad t)
  then show ?thesis
    by (intro park_step_loose [OF assms(2), where t = t and p = "WLoaded (pk_state s)" and st = "pk_state s" and wk = "pk_woken s"]) (auto simp: wake_holds_def)
next
  case (WakeNothing t st)
  then show ?thesis
    by (intro park_step_loose [OF assms(2), where t = t and p = "PIdle" and st = "pk_state s" and wk = "pk_woken s"]) (auto simp: wake_holds_def)
next
  case (WakeRetry t st)
  then show ?thesis
    by (intro park_step_loose [OF assms(2), where t = t and p = "WLoaded (pk_state s)" and st = "pk_state s" and wk = "pk_woken s"]) (auto simp: wake_holds_def)
next
  case (WakeRunning t)
  then show ?thesis
    by (intro park_step_loose [OF assms(2), where t = t and p = "PIdle" and st = "Notified" and wk = "True"]) (auto simp: wake_holds_def)
next
  case (WakeParked t)
  then show ?thesis using own_parked [OF assms(2)]
    by (intro park_step_thread [where t = t and p = WWon and st = "Notified" and n = 0 and k = TAway and wk = "True" and s = s])
      (auto simp: wake_holds_def park_own_def task_holds_def)
next
  case (WakeStores t)
  then show ?thesis using own_thread [OF assms(2), of t]
    by (intro park_step_thread [where t = t and p = WSched and st = "Running" and n = 0 and k = TAway and wk = "pk_woken s" and s = s])
      (auto simp: wake_holds_def park_own_def task_holds_def)
next
  case (WakeSchedules t)
  then show ?thesis using own_thread [OF assms(2), of t]
    by (intro park_step_thread [where t = t and p = PIdle and st = "pk_state s" and n = 1 and k = TAway and wk = "pk_woken s" and s = s])
      (auto simp: wake_holds_def park_own_def task_holds_def)
next
  case (ReapClaims t)
  then show ?thesis using own_parked [OF assms(2)] park_inv_sideD(3) [OF assms(2)]
    by (intro park_step_thread [where t = t and p = RClaimed and st = "Running" and n = 0 and k = TAway and wk = "pk_woken s" and s = s])
      (auto simp: wake_holds_def park_own_def task_holds_def)
next
  case (ReapPutsBack t)
  then show ?thesis using own_thread [OF assms(2), of t] park_inv_sideD(5) [OF assms(2), of t]
    by (intro park_step_thread [where t = t and p = PIdle and st = "Parked" and n = 0 and k = TAway and wk = "pk_woken s" and s = s])
      (auto simp: wake_holds_def park_own_def task_holds_def)
next
  case (ReapLoses t)
  then have o: "park_own s (OThread t)" using own_thread [OF assms(2)] by (simp add: wake_holds_def)
  then have "pk_state s = Notified" using ReapLoses by (cases "pk_state s") (auto simp: park_own_def)
  then show ?thesis using ReapLoses o
    by (intro park_step_thread [where t = t and p = RLost and st = "pk_state s" and n = 0 and k = TAway and wk = "pk_woken s" and s = s])
      (auto simp: wake_holds_def park_own_def task_holds_def)
next
  case (ReapStores t)
  then show ?thesis using own_thread [OF assms(2), of t]
    by (intro park_step_thread [where t = t and p = RSched and st = "Running" and n = 0 and k = TAway and wk = "pk_woken s" and s = s])
      (auto simp: wake_holds_def park_own_def task_holds_def)
next
  case (ReapSchedules t)
  then show ?thesis using own_thread [OF assms(2), of t]
    by (intro park_step_thread [where t = t and p = PIdle and st = "pk_state s" and n = 1 and k = TAway and wk = "pk_woken s" and s = s])
      (auto simp: wake_holds_def park_own_def task_holds_def)
next
  case (ReapUnwinds t)
  then show ?thesis using own_thread [OF assms(2), of t] park_inv_sideD(5) [OF assms(2), of t]
    by (intro park_step_thread [where t = t and p = PIdle and st = "pk_state s" and n = 0 and k = TExec and wk = "pk_woken s" and s = s])
      (auto simp: wake_holds_def park_own_def task_holds_def)
qed

interpretation park: step_system park_init park_step park_inv
proof
  show "park_inv s" if "park_init s" for s
    using that by (intro park_invI [of s OQueue])
      (auto simp: park_init_def park_own_def park_side_def wake_holds_def task_holds_def)
  show "park_inv s'" if "park_inv s" "park_step s s'" for s s'
    using park_step_inv that by blast
qed

text \<open>A finished task stays finished: late wakes and reapers find nothing to do.\<close>

lemma done_facts:
  assumes "park_inv s" "pk_state s = Done"
  shows "pk_task s = TDone" "pk_queued s = 0" "\<not> wake_holds (pk_pc s t)"
  using assms by (auto elim!: park_inv_own simp: park_own_def)

interpretation park_done: stable_property park_init park_step park_inv "\<lambda>s. pk_state s = Done"
proof
  show "pk_state s' = Done" if "park_inv s" "pk_state s = Done" "park_step s s'" for s s'
    using that(3)
  proof cases
    case (WakeStores t)
    then show ?thesis using done_facts(3) [OF that(1,2), of t] by (simp add: wake_holds_def)
  next
    case (ReapStores t)
    then show ?thesis using done_facts(3) [OF that(1,2), of t] by (simp add: wake_holds_def)
  qed (use done_facts(1,2) [OF that(1,2)] that(2) in simp_all)
qed

section \<open>A woken task gets to run\<close>

text \<open>From each stage of a wakeup the remaining steps, none of which another thread can block.\<close>

definition runs_again :: "park_sys \<Rightarrow> bool" where
  "runs_again s \<longleftrightarrow> (\<exists>s'. park_step\<^sup>*\<^sup>* s s' \<and> pk_task s' = TExec)"

lemma runs_again_now: "pk_task s = TExec \<Longrightarrow> runs_again s"
  by (auto simp: runs_again_def)

lemma runs_again_step: "park_step s s' \<Longrightarrow> runs_again s' \<Longrightarrow> runs_again s"
  by (auto simp: runs_again_def intro: converse_rtranclp_into_rtranclp)

lemma runs_queued: "pk_queued s > 0 \<Longrightarrow> runs_again s"
  by (rule runs_again_step [OF park_step.Dispatch]) (auto intro: runs_again_now)

lemma runs_hook: "pk_task s = THookSched \<Longrightarrow> runs_again s" "pk_task s = THookLost \<Longrightarrow> runs_again s"
proof -
  show h: "runs_again s" if "pk_task s = THookSched" for s
    using that by (rule runs_again_step [OF park_step.HookSchedules]) (simp add: runs_queued)
  show "pk_task s = THookLost \<Longrightarrow> runs_again s"
    by (rule runs_again_step [OF park_step.HookStores]) (auto intro: h)
qed

lemma runs_yield: "pk_task s = TYield \<Longrightarrow> runs_again s"
  by (rule runs_again_step [OF park_step.YieldQueues]) (auto intro: runs_queued)

lemma runs_waker: "pk_pc s t = WSched \<Longrightarrow> runs_again s" "pk_pc s t = WWon \<Longrightarrow> runs_again s"
proof -
  show h: "runs_again s" if "pk_pc s t = WSched" for s
    using that by (rule runs_again_step [OF park_step.WakeSchedules]) (simp add: runs_queued)
  show "pk_pc s t = WWon \<Longrightarrow> runs_again s"
    by (rule runs_again_step [OF park_step.WakeStores]) (auto intro: h)
qed

lemma runs_reaper:
  "pk_pc s t = RSched \<Longrightarrow> runs_again s" "pk_pc s t = RLost \<Longrightarrow> runs_again s"
  "pk_pc s t = RClaimed \<Longrightarrow> pk_state s = Notified \<Longrightarrow> runs_again s"
proof -
  show h: "runs_again s" if "pk_pc s t = RSched" for s
    using that by (rule runs_again_step [OF park_step.ReapSchedules]) (simp add: runs_queued)
  show l: "runs_again s" if "pk_pc s t = RLost" for s
    using that by (rule runs_again_step [OF park_step.ReapStores]) (auto intro: h)
  assume c: "pk_pc s t = RClaimed" "pk_state s = Notified"
  show "runs_again s"
  proof (cases "pk_shields s = 0")
    case True
    show ?thesis by (rule runs_again_step [OF park_step.ReapUnwinds [OF c(1) True]]) (simp add: runs_again_now)
  next
    case False
    show ?thesis by (rule runs_again_step [OF park_step.ReapLoses [OF c(1) False]]) (use c in \<open>auto intro: l\<close>)
  qed
qed

lemma woken_runs:
  assumes inv: "park_inv s" and woken: "pk_woken s" and alive: "pk_state s \<noteq> Done" "pk_task s \<noteq> TFinish"
  shows "runs_again s"
proof -
  obtain w where w: "park_own s w" using inv by (rule park_inv_own)
  show ?thesis
  proof (cases w)
    case OTask
    with w have "task_holds (pk_task s)" by (simp add: park_own_def)
    moreover have "runs_again s" if "pk_task s = TOut"
      using runs_again_step [OF park_step.HookLoses [OF that]] park_inv_sideD(4) [OF inv woken] that runs_hook(2) by simp
    moreover have "runs_again s" if "pk_task s = TConsume"
      by (rule runs_again_step [OF park_step.ParkConsume [OF that]]) (simp add: runs_again_now)
    ultimately show ?thesis
      using alive runs_again_now runs_hook runs_yield by (cases "pk_task s") (auto simp: task_holds_def)
  next
    case (OThread t)
    with w have "wake_holds (pk_pc s t)" by (simp add: park_own_def)
    then show ?thesis
      using runs_waker [of s t] runs_reaper [of s t] park_inv_sideD(5) [OF inv woken, of t]
      by (cases "pk_pc s t") (auto simp: wake_holds_def)
  next
    case OQueue
    with w show ?thesis by (intro runs_queued) (simp add: park_own_def)
  next
    case OParked
    with w park_inv_sideD(3) [OF inv woken] show ?thesis by (simp add: park_own_def)
  next
    case ONobody
    with w alive show ?thesis by (simp add: park_own_def)
  qed
qed

section \<open>Properties\<close>

text \<open>C13: under every interleaving of parks, yields, wakes and reapers a task is in the run queues at
  most once; while it is, it is fully switched out and nobody else is about to queue it, so two
  workers never run it and none resumes it while its registers are still being saved.\<close>

theorem task_queued_at_most_once:
  assumes "park_init s0" "park_step\<^sup>*\<^sup>* s0 s"
  shows "pk_queued s \<le> 1
    \<and> (pk_queued s = 1 \<longrightarrow> pk_task s = TAway \<and> pk_state s \<noteq> Parked
         \<and> (\<forall>t. pk_pc s t \<notin> {WWon, WSched, RClaimed, RLost, RSched}))
    \<and> (pk_task s \<notin> {TAway, TDone} \<longrightarrow> pk_queued s = 0 \<and> (\<forall>t. pk_pc s t \<notin> {WWon, WSched, RClaimed, RLost, RSched}))"
proof -
  have inv: "park_inv s" by (rule park.reachable_inv [OF assms])
  then obtain w where w: "park_own s w" by (rule park_inv_own)
  have q: "pk_queued s = (if w = OQueue then 1 else 0)" and t: "task_holds (pk_task s) = (w = OTask)"
    and d: "(pk_task s = TDone) = (w = ONobody)" and p: "(pk_state s = Parked) = (w = OParked)"
    using w by (simp_all add: park_own_def)
  have c: "w = OQueue \<or> w = OTask \<Longrightarrow> pk_pc s u \<notin> {WWon, WSched, RClaimed, RLost, RSched}" for u
    using no_claims [OF w] by auto
  show ?thesis using q t d p c by (cases w) (auto simp: task_holds_def)
qed

definition park_demo :: park_sys where
  "park_demo = \<lparr>pk_state = Running, pk_task = TAway, pk_pc = (\<lambda>_. PIdle), pk_queued = 1, pk_shields = 0, pk_woken = False\<rparr>"

theorem task_queued_at_most_once_witness:
  "pk_queued park_demo \<le> 1 \<and> pk_task park_demo = TAway"
  using task_queued_at_most_once [of park_demo park_demo] by (simp add: park_demo_def park_init_def)

text \<open>C14: no wakeup is lost: once a wake took effect the task is not parked before it has executed
  again, and unless it already finished, the wakeup's own remaining steps bring it back to a CPU.\<close>

theorem woken_task_runs_again:
  assumes "park_init s0" "park_step\<^sup>*\<^sup>* s0 s" "pk_woken s"
  shows "pk_state s \<noteq> Parked
    \<and> (pk_task s \<notin> {TFinish, TDone} \<longrightarrow> (\<exists>s'. park_step\<^sup>*\<^sup>* s s' \<and> pk_task s' = TExec))"
proof -
  have inv: "park_inv s" by (rule park.reachable_inv [OF assms(1,2)])
  from woken_runs [OF inv assms(3)] done_facts(1) [OF inv] park_inv_sideD(3) [OF inv assms(3)]
  show ?thesis by (auto simp: runs_again_def)
qed

theorem woken_task_runs_again_witness:
  "\<exists>s. park_step\<^sup>*\<^sup>* park_demo s \<and> pk_woken s \<and> pk_state s \<noteq> Parked"
proof -
  let ?a = "park_demo\<lparr>pk_pc := (\<lambda>_. PIdle)(0 := WLoaded Running)\<rparr>"
  let ?b = "park_demo\<lparr>pk_pc := (\<lambda>_. PIdle), pk_state := Notified, pk_woken := True\<rparr>"
  have "park_step park_demo ?a" using park_step.WakeLoad [of park_demo 0] by (simp add: park_demo_def)
  moreover have "park_step ?a ?b" using park_step.WakeRunning [of ?a 0] by (simp add: park_demo_def fun_upd_def cong: if_cong)
  ultimately have r: "park_step\<^sup>*\<^sup>* park_demo ?b" by auto
  from woken_task_runs_again [OF _ r] have "pk_state ?b \<noteq> Parked" by (simp add: park_demo_def park_init_def)
  with r show ?thesis by (intro exI [of _ ?b]) simp
qed

text \<open>A finished task stays finished.\<close>

lemma finished_task_stays_done:
  assumes "park_init s0" "park_step\<^sup>*\<^sup>* s0 s" "pk_state s = Done" "park_step\<^sup>*\<^sup>* s s'"
  shows "pk_state s' = Done \<and> pk_queued s' = 0 \<and> pk_task s' = TDone"
proof -
  have inv: "park_inv s" "park_inv s'"
    using park.reachable_inv [OF assms(1,2)] park.steps_inv [OF assms(4)] by auto
  have "pk_state s' = Done" by (rule park_done.stable_steps [OF assms(4) inv(1) assms(3)])
  with done_facts(1,2) [OF inv(2)] show ?thesis by simp
qed

end
