(* ===== verification/Wake_Token.thy ===== *)
theory Wake_Token
  imports Step_System
begin

text \<open>
  One entry of the wake-token slab (\<^verbatim>\<open>TaskSlot\<close> of \<^verbatim>\<open>sched/detail/SchedulerCore.h\<close>): a task is
  stored in it by \<^verbatim>\<open>createTask\<close>, taken out by \<^verbatim>\<open>releaseTask\<close>, and reached meanwhile by threads that
  hold a token (\<^verbatim>\<open>WakeToken::wake\<close>) or scan the slab (\<^verbatim>\<open>wakeAllParked\<close>, \<^verbatim>\<open>forEachTask\<close>, the claim of
  \<^verbatim>\<open>reapParkedTasks\<close>).  Tasks of the slot are numbered in the order they are created there; the
  memory of a task is what must not be touched once it is freed.
\<close>

section \<open>The model\<close>

text \<open>The slot's life: free; holding task \<open>k\<close>; its pointer cleared; its generation advanced, so that
  only the pins are awaited before the task's memory goes.\<close>

datatype slot_phase = SFree | SLive nat | SNulled nat | SBumped nat

text \<open>A thread with a token for task \<open>i\<close>: pinned; generation matched; holding the pointer \<open>p\<close>.  A
  scanning thread: pinned; holding the pointer.  Then the pin is dropped.\<close>

datatype slot_pc = KIdle | KPinned nat | KChecked nat | KHas nat nat | KScan | KScanHas nat | KUnpin

record slot_sys =
  sl_task :: "nat option"
  sl_generation :: u32
  sl_pins :: nat
  sl_phase :: slot_phase
  sl_created :: nat
  sl_taskGeneration :: "nat \<Rightarrow> u32"
  sl_live :: "nat set"
  sl_pc :: "nat \<Rightarrow> slot_pc"

inductive slot_step :: "slot_sys \<Rightarrow> slot_sys \<Rightarrow> bool" where
  Create: "sl_phase s = SFree \<Longrightarrow> slot_step s (s\<lparr>sl_task := Some (sl_created s), sl_phase := SLive (sl_created s),
     sl_taskGeneration := (sl_taskGeneration s)(sl_created s := sl_generation s),
     sl_live := insert (sl_created s) (sl_live s), sl_created := sl_created s + 1\<rparr>)"
| Null: "sl_phase s = SLive k \<Longrightarrow> slot_step s (s\<lparr>sl_task := None, sl_phase := SNulled k\<rparr>)"
| Bump: "sl_phase s = SNulled k \<Longrightarrow> slot_step s (s\<lparr>sl_generation := sl_generation s + 1, sl_phase := SBumped k\<rparr>)"
| Free: "sl_phase s = SBumped k \<Longrightarrow> sl_pins s = 0 \<Longrightarrow> slot_step s (s\<lparr>sl_phase := SFree, sl_live := sl_live s - {k}\<rparr>)"
| Pin: "sl_pc s t = KIdle \<Longrightarrow> i < sl_created s \<Longrightarrow> slot_step s (s\<lparr>sl_pins := sl_pins s + 1, sl_pc := (sl_pc s)(t := KPinned i)\<rparr>)"
| Match: "sl_pc s t = KPinned i \<Longrightarrow> sl_generation s = sl_taskGeneration s i \<Longrightarrow> slot_step s (s\<lparr>sl_pc := (sl_pc s)(t := KChecked i)\<rparr>)"
| Stale: "sl_pc s t = KPinned i \<Longrightarrow> sl_generation s \<noteq> sl_taskGeneration s i \<Longrightarrow> slot_step s (s\<lparr>sl_pc := (sl_pc s)(t := KUnpin)\<rparr>)"
| Load: "sl_pc s t = KChecked i \<Longrightarrow> sl_task s = Some p \<Longrightarrow> slot_step s (s\<lparr>sl_pc := (sl_pc s)(t := KHas i p)\<rparr>)"
| LoadNull: "sl_pc s t = KChecked i \<Longrightarrow> sl_task s = None \<Longrightarrow> slot_step s (s\<lparr>sl_pc := (sl_pc s)(t := KUnpin)\<rparr>)"
| Woke: "sl_pc s t = KHas i p \<Longrightarrow> slot_step s (s\<lparr>sl_pc := (sl_pc s)(t := KUnpin)\<rparr>)"
| ScanPin: "sl_pc s t = KIdle \<Longrightarrow> slot_step s (s\<lparr>sl_pins := sl_pins s + 1, sl_pc := (sl_pc s)(t := KScan)\<rparr>)"
| ScanLoad: "sl_pc s t = KScan \<Longrightarrow> sl_task s = Some p \<Longrightarrow> slot_step s (s\<lparr>sl_pc := (sl_pc s)(t := KScanHas p)\<rparr>)"
| ScanNull: "sl_pc s t = KScan \<Longrightarrow> sl_task s = None \<Longrightarrow> slot_step s (s\<lparr>sl_pc := (sl_pc s)(t := KUnpin)\<rparr>)"
| ScanDone: "sl_pc s t = KScanHas p \<Longrightarrow> slot_step s (s\<lparr>sl_pc := (sl_pc s)(t := KUnpin)\<rparr>)"
| Unpin: "sl_pc s t = KUnpin \<Longrightarrow> slot_step s (s\<lparr>sl_pins := sl_pins s - 1, sl_pc := (sl_pc s)(t := KIdle)\<rparr>)"

definition slot_init :: "slot_sys \<Rightarrow> bool" where
  "slot_init s \<longleftrightarrow> sl_task s = None \<and> sl_generation s = 0 \<and> sl_pins s = 0 \<and> sl_phase s = SFree \<and> sl_created s = 0
     \<and> sl_live s = {} \<and> sl_pc s = (\<lambda>_. KIdle)"

section \<open>Invariant\<close>

text \<open>The pins count the threads that are in the middle of an access.\<close>

definition pins_ok :: "slot_sys \<Rightarrow> bool" where
  "pins_ok s \<longleftrightarrow> finite {t. sl_pc s t \<noteq> KIdle} \<and> sl_pins s = card {t. sl_pc s t \<noteq> KIdle}"

definition phase_ok :: "slot_sys \<Rightarrow> bool" where
  "phase_ok s \<longleftrightarrow> (\<forall>i. i < sl_created s \<longrightarrow> sl_taskGeneration s i = of_nat i)
     \<and> (case sl_phase s of
          SFree \<Rightarrow> sl_task s = None \<and> sl_live s = {} \<and> sl_generation s = of_nat (sl_created s)
        | SLive k \<Rightarrow> sl_task s = Some k \<and> sl_live s = {k} \<and> sl_generation s = of_nat k \<and> sl_created s = Suc k
        | SNulled k \<Rightarrow> sl_task s = None \<and> sl_live s = {k} \<and> sl_generation s = of_nat k \<and> sl_created s = Suc k
        | SBumped k \<Rightarrow> sl_task s = None \<and> sl_live s = {k} \<and> sl_generation s = of_nat (Suc k) \<and> sl_created s = Suc k)"

text \<open>A token whose generation matched: either the slot holds that generation's task, or nothing can
  be loaded from it until the pin is dropped, or it is free and about to hold that generation.\<close>

definition checked_ok :: "slot_phase \<Rightarrow> nat \<Rightarrow> nat \<Rightarrow> bool" where
  "checked_ok ph created i \<longleftrightarrow> (case ph of SFree \<Rightarrow> (of_nat i :: u32) = of_nat created
     | SLive k \<Rightarrow> (of_nat i :: u32) = of_nat k | _ \<Rightarrow> True)"

definition holds_ok :: "slot_phase \<Rightarrow> nat \<Rightarrow> bool" where
  "holds_ok ph p \<longleftrightarrow> ph \<in> {SLive p, SNulled p, SBumped p}"

fun thread_ok :: "slot_phase \<Rightarrow> nat \<Rightarrow> slot_pc \<Rightarrow> bool" where
  "thread_ok ph created (KPinned i) \<longleftrightarrow> i < created"
| "thread_ok ph created (KChecked i) \<longleftrightarrow> checked_ok ph created i"
| "thread_ok ph created (KHas i p) \<longleftrightarrow> holds_ok ph p \<and> (of_nat i :: u32) = of_nat p"
| "thread_ok ph created (KScanHas p) \<longleftrightarrow> holds_ok ph p"
| "thread_ok ph created _ \<longleftrightarrow> True"

definition threads_ok :: "slot_sys \<Rightarrow> bool" where
  "threads_ok s \<longleftrightarrow> (\<forall>t. thread_ok (sl_phase s) (sl_created s) (sl_pc s t))"

definition slot_inv :: "slot_sys \<Rightarrow> bool" where
  "slot_inv s \<longleftrightarrow> pins_ok s \<and> phase_ok s \<and> threads_ok s"

lemma pins_same:
  assumes "pins_ok s" "sl_pins s' = sl_pins s" "sl_pc s' = (sl_pc s)(t := p)" "sl_pc s t \<noteq> KIdle" "p \<noteq> KIdle"
  shows "pins_ok s'"
proof -
  have "{u. sl_pc s' u \<noteq> KIdle} = {u. sl_pc s u \<noteq> KIdle}" using assms(3-5) by auto
  then show ?thesis using assms(1,2) by (simp add: pins_ok_def)
qed

lemma pins_in:
  assumes "pins_ok s" "sl_pins s' = sl_pins s + 1" "sl_pc s' = (sl_pc s)(t := p)" "sl_pc s t = KIdle" "p \<noteq> KIdle"
  shows "pins_ok s'"
proof -
  have "{u. sl_pc s' u \<noteq> KIdle} = insert t {u. sl_pc s u \<noteq> KIdle}" using assms(3-5) by auto
  then show ?thesis using assms(1,2,4) by (simp add: pins_ok_def)
qed

lemma pins_out:
  assumes "pins_ok s" "sl_pins s' = sl_pins s - 1" "sl_pc s' = (sl_pc s)(t := KIdle)" "sl_pc s t \<noteq> KIdle"
  shows "pins_ok s'"
proof -
  have "{u. sl_pc s' u \<noteq> KIdle} = {u. sl_pc s u \<noteq> KIdle} - {t}" using assms(3,4) by auto
  then show ?thesis using assms(1,2,4) by (simp add: pins_ok_def)
qed

lemma pins_zero: "pins_ok s \<Longrightarrow> sl_pins s = 0 \<Longrightarrow> sl_pc s t = KIdle"
  by (auto simp: pins_ok_def)

lemma threads_upd:
  assumes "threads_ok s" "sl_pc s' = (sl_pc s)(t := p)" "sl_phase s' = sl_phase s" "sl_created s' = sl_created s"
    "thread_ok (sl_phase s) (sl_created s) p"
  shows "threads_ok s'"
  using assms by (simp add: threads_ok_def)

lemma phase_keep:
  assumes "phase_ok s" "sl_task s' = sl_task s" "sl_generation s' = sl_generation s" "sl_phase s' = sl_phase s"
    "sl_created s' = sl_created s" "sl_taskGeneration s' = sl_taskGeneration s" "sl_live s' = sl_live s"
  shows "phase_ok s'"
  using assms(1) unfolding phase_ok_def assms(2-) .

lemma holds_live: "phase_ok s \<Longrightarrow> holds_ok (sl_phase s) p \<Longrightarrow> sl_live s = {p}"
  by (cases "sl_phase s") (auto simp: phase_ok_def holds_ok_def)

lemma task_holds: "phase_ok s \<Longrightarrow> sl_task s = Some p \<Longrightarrow> sl_phase s = SLive p"
  by (cases "sl_phase s") (auto simp: phase_ok_def)

text \<open>Steps of the slot itself: every thread's claim survives.\<close>

lemma threads_phase:
  assumes "threads_ok s" "sl_pc s' = sl_pc s" "sl_created s \<le> sl_created s'"
    "\<And>t i. sl_pc s t = KChecked i \<Longrightarrow> checked_ok (sl_phase s) (sl_created s) i \<Longrightarrow> checked_ok (sl_phase s') (sl_created s') i"
    "\<And>t i p. sl_pc s t = KHas i p \<or> sl_pc s t = KScanHas p \<Longrightarrow> holds_ok (sl_phase s) p \<Longrightarrow> holds_ok (sl_phase s') p"
  shows "threads_ok s'"
  unfolding threads_ok_def
proof
  fix t
  have "thread_ok (sl_phase s) (sl_created s) (sl_pc s t)" using assms(1) by (simp add: threads_ok_def)
  then show "thread_ok (sl_phase s') (sl_created s') (sl_pc s' t)"
    using assms(2,3) assms(4) [of t] assms(5) [of t] by (cases "sl_pc s t") auto
qed

lemma slot_step_inv:
  assumes "slot_step s s'" "slot_inv s"
  shows "slot_inv s'"
proof -
  have pins: "pins_ok s" and ph: "phase_ok s" and th: "threads_ok s" using assms(2) by (auto simp: slot_inv_def)
  note tht = th [unfolded threads_ok_def, rule_format]
  from assms(1) show ?thesis
  proof cases
    case Create
    have "threads_ok s'" using Create by (intro threads_phase [OF th]) (auto simp: checked_ok_def holds_ok_def)
    moreover have "phase_ok s'" using Create ph by (auto simp: phase_ok_def)
    ultimately show ?thesis using pins Create by (simp add: slot_inv_def pins_ok_def)
  next
    case (Null k)
    have "threads_ok s'" using Null by (intro threads_phase [OF th]) (auto simp: checked_ok_def holds_ok_def)
    moreover have "phase_ok s'" using Null ph by (auto simp: phase_ok_def)
    ultimately show ?thesis using pins Null by (simp add: slot_inv_def pins_ok_def)
  next
    case (Bump k)
    have "threads_ok s'" using Bump by (intro threads_phase [OF th]) (auto simp: checked_ok_def holds_ok_def)
    moreover have "phase_ok s'" using Bump ph by (auto simp: phase_ok_def)
    ultimately show ?thesis using pins Bump by (simp add: slot_inv_def pins_ok_def)
  next
    case (Free k)
    have "threads_ok s'" using Free pins_zero [OF pins] by (intro threads_phase [OF th]) auto
    moreover have "phase_ok s'" using Free ph by (auto simp: phase_ok_def)
    ultimately show ?thesis using pins Free by (simp add: slot_inv_def pins_ok_def)
  next
    case (Pin t i)
    then show ?thesis using pins_in [OF pins, of s' t] threads_upd [OF th, of s' t] phase_keep [OF ph, of s']
      by (simp add: slot_inv_def)
  next
    case (Match t i)
    have "i < sl_created s" using tht [of t] Match by simp
    then have "checked_ok (sl_phase s) (sl_created s) i"
      using Match ph by (cases "sl_phase s") (auto simp: checked_ok_def phase_ok_def)
    then show ?thesis using Match pins_same [OF pins, of s' t] threads_upd [OF th, of s' t] phase_keep [OF ph, of s']
      by (simp add: slot_inv_def)
  next
    case (Load t i p)
    then have "holds_ok (sl_phase s) p" "(of_nat i :: u32) = of_nat p"
      using task_holds [OF ph] tht [of t] by (auto simp: holds_ok_def checked_ok_def)
    then show ?thesis using Load pins_same [OF pins, of s' t] threads_upd [OF th, of s' t] phase_keep [OF ph, of s']
      by (simp add: slot_inv_def)
  next
    case (ScanLoad t p)
    then have "holds_ok (sl_phase s) p" using task_holds [OF ph] by (simp add: holds_ok_def)
    then show ?thesis using ScanLoad pins_same [OF pins, of s' t] threads_upd [OF th, of s' t] phase_keep [OF ph, of s']
      by (simp add: slot_inv_def)
  next
    case (ScanPin t)
    then show ?thesis using pins_in [OF pins, of s' t] threads_upd [OF th, of s' t] phase_keep [OF ph, of s']
      by (simp add: slot_inv_def)
  next
    case (Unpin t)
    then show ?thesis using pins_out [OF pins, of s' t] threads_upd [OF th, of s' t] phase_keep [OF ph, of s']
      by (simp add: slot_inv_def)
  qed (use pins_same [OF pins, of s'] threads_upd [OF th, of s'] phase_keep [OF ph, of s'] in \<open>simp add: slot_inv_def\<close>)+
qed

interpretation slot: step_system slot_init slot_step slot_inv
proof
  show "slot_inv s" if "slot_init s" for s
    using that by (simp add: slot_init_def slot_inv_def pins_ok_def phase_ok_def threads_ok_def)
  show "slot_inv s'" if "slot_inv s" "slot_step s s'" for s s'
    using slot_step_inv that by blast
qed

section \<open>Properties\<close>

text \<open>C15: no thread that reached a task through its slot touches freed memory: while a waker or a
  scanner holds the pointer, that task has not been freed, whatever the task's release does; and a
  waker's task is the one its token was made for, up to the wrap-around of the 32-bit generation,
  so exactly that one while the slot has held at most \<open>2 ^ 32\<close> tasks.\<close>

theorem wake_token_no_use_after_free:
  assumes "slot_init s0" "slot_step\<^sup>*\<^sup>* s0 s"
  shows "(\<forall>t i p. sl_pc s t = KHas i p \<longrightarrow> p \<in> sl_live s \<and> (of_nat i :: u32) = of_nat p
        \<and> (i < 2 ^ 32 \<and> sl_created s \<le> 2 ^ 32 \<longrightarrow> i = p))
    \<and> (\<forall>t p. sl_pc s t = KScanHas p \<longrightarrow> p \<in> sl_live s)"
proof -
  have inv: "slot_inv s" by (rule slot.reachable_inv [OF assms])
  then have ph: "phase_ok s" and th: "\<And>t. thread_ok (sl_phase s) (sl_created s) (sl_pc s t)"
    by (auto simp: slot_inv_def threads_ok_def)
  have created: "p < sl_created s" if "holds_ok (sl_phase s) p" for p
    using that ph by (auto simp: holds_ok_def phase_ok_def)
  have eq: "i = p" if "i < 2 ^ 32" "p < 2 ^ 32" "(of_nat i :: u32) = of_nat p" for i p
  proof -
    from that(3) have "unat (of_nat i :: u32) = unat (of_nat p :: u32)" by simp
    then show ?thesis using that(1,2) by (simp add: unat_of_nat take_bit_eq_mod)
  qed
  have "p \<in> sl_live s \<and> (of_nat i :: u32) = of_nat p \<and> (i < 2 ^ 32 \<and> sl_created s \<le> 2 ^ 32 \<longrightarrow> i = p)"
    if "sl_pc s t = KHas i p" for t i p
    using th [of t] that holds_live [OF ph, of p] created [of p] eq [of i p] by auto
  moreover have "p \<in> sl_live s" if "sl_pc s t = KScanHas p" for t p
    using th [of t] that holds_live [OF ph, of p] by auto
  ultimately show ?thesis by blast
qed

definition slot_demo :: "slot_pc \<Rightarrow> nat \<Rightarrow> slot_sys" where
  "slot_demo pc n = \<lparr>sl_task = Some 0, sl_generation = 0, sl_pins = n, sl_phase = SLive 0, sl_created = 1,
     sl_taskGeneration = (\<lambda>_. 0), sl_live = {0}, sl_pc = (\<lambda>_. KIdle)(0 := pc)\<rparr>"

theorem wake_token_no_use_after_free_witness:
  "sl_pc (slot_demo (KHas 0 0) 1) 0 = KHas 0 0 \<and> 0 \<in> sl_live (slot_demo (KHas 0 0) 1)"
proof -
  let ?s0 = "\<lparr>sl_task = None, sl_generation = 0, sl_pins = 0, sl_phase = SFree, sl_created = 0,
     sl_taskGeneration = (\<lambda>_. 0), sl_live = {}, sl_pc = (\<lambda>_. KIdle)\<rparr>"
  have init: "slot_init ?s0" by (simp add: slot_init_def)
  have "slot_step ?s0 (slot_demo KIdle 0)"
    using slot_step.Create [of ?s0] by (simp add: slot_demo_def fun_upd_def cong: if_cong)
  moreover have "slot_step (slot_demo KIdle 0) (slot_demo (KPinned 0) 1)"
    using slot_step.Pin [of "slot_demo KIdle 0" 0 0] by (simp add: slot_demo_def)
  moreover have "slot_step (slot_demo (KPinned 0) 1) (slot_demo (KChecked 0) 1)"
    using slot_step.Match [of "slot_demo (KPinned 0) 1" 0 0] by (simp add: slot_demo_def)
  moreover have "slot_step (slot_demo (KChecked 0) 1) (slot_demo (KHas 0 0) 1)"
    using slot_step.Load [of "slot_demo (KChecked 0) 1" 0 0 0] by (simp add: slot_demo_def)
  ultimately have "slot_step\<^sup>*\<^sup>* ?s0 (slot_demo (KHas 0 0) 1)"
    by (meson converse_rtranclp_into_rtranclp rtranclp.rtrancl_refl)
  from wake_token_no_use_after_free [OF init this] show ?thesis by (simp add: slot_demo_def)
qed

end
