(* ===== verification/Join.thy ===== *)
theory Join
  imports Step_System
begin

text \<open>
  \<^verbatim>\<open>JoinState\<close> and \<^verbatim>\<open>JoinHandle\<close>: the finishing task (\<^verbatim>\<open>releaseTask\<close>, \<^verbatim>\<open>finishJoin\<close>) and the one
  holder of the handle, access by access.  Blocking is by a token (a task's park or a thread's
  parker); it may also return for no reason.
\<close>

section \<open>The model\<close>

datatype waiterKind = kNoWaiter | kTaskWaiter | kThreadWaiter

text \<open>The handle's holder: \<^verbatim>\<open>join\<close> up to its first test, storing the waiter, storing its kind, testing
  \<^verbatim>\<open>done\<close>, blocked, taking the exception, and dropping the reference.\<close>

datatype joiner_pc = JHas | JStoreWaiter waiterKind | JStoreKind waiterKind | JTest waiterKind | JBlocked waiterKind
  | JTake | JDrop | JGone

datatype finisher_pc = FRuns | FStoreDone | FLoadKind | FWakes waiterKind | FDrop | FGone

text \<open>An exception is a number; \<open>jn_outcome\<close> is what \<^verbatim>\<open>join\<close> found to rethrow.  \<open>jn_escaped\<close> is a ghost:
  what escaped the task's body.\<close>

record join_sys =
  jn_refs :: int
  jn_done :: bool
  jn_waiterKind :: waiterKind
  jn_waiterStored :: bool
  jn_exception :: "nat option"
  jn_deleted :: nat
  jn_joiner :: joiner_pc
  jn_finisher :: finisher_pc
  jn_token :: bool
  jn_outcome :: "nat option option"
  jn_escaped :: "nat option"

text \<open>\<^verbatim>\<open>JoinState::release\<close>.\<close>

definition join_release :: "join_sys \<Rightarrow> join_sys" where
  "join_release s = s\<lparr>jn_refs := jn_refs s - 1, jn_deleted := (if jn_refs s = 1 then jn_deleted s + 1 else jn_deleted s)\<rparr>"

inductive join_step :: "join_sys \<Rightarrow> join_sys \<Rightarrow> bool" where
  AlreadyDone: "jn_joiner s = JHas \<Longrightarrow> jn_done s \<Longrightarrow> join_step s (s\<lparr>jn_joiner := JTake\<rparr>)"
| MustWait: "jn_joiner s = JHas \<Longrightarrow> \<not> jn_done s \<Longrightarrow> k \<noteq> kNoWaiter \<Longrightarrow> join_step s (s\<lparr>jn_joiner := JStoreWaiter k\<rparr>)"
| Detach: "jn_joiner s = JHas \<Longrightarrow> join_step s (s\<lparr>jn_joiner := JDrop\<rparr>)"
| StoreWaiter: "jn_joiner s = JStoreWaiter k \<Longrightarrow> join_step s (s\<lparr>jn_waiterStored := True, jn_joiner := JStoreKind k\<rparr>)"
| StoreKind: "jn_joiner s = JStoreKind k \<Longrightarrow> join_step s (s\<lparr>jn_waiterKind := k, jn_joiner := JTest k\<rparr>)"
| TestDone: "jn_joiner s = JTest k \<Longrightarrow> jn_done s \<Longrightarrow> join_step s (s\<lparr>jn_joiner := JTake\<rparr>)"
| TestNot: "jn_joiner s = JTest k \<Longrightarrow> \<not> jn_done s \<Longrightarrow> join_step s (s\<lparr>jn_joiner := JBlocked k\<rparr>)"
| Unblock: "jn_joiner s = JBlocked k \<Longrightarrow> jn_token s \<Longrightarrow> join_step s (s\<lparr>jn_token := False, jn_joiner := JTest k\<rparr>)"
| Spurious: "jn_joiner s = JBlocked k \<Longrightarrow> join_step s (s\<lparr>jn_joiner := JTest k\<rparr>)"
| Take: "jn_joiner s = JTake \<Longrightarrow> join_step s (s\<lparr>jn_outcome := Some (jn_exception s), jn_exception := None, jn_joiner := JDrop\<rparr>)"
| JoinerDrops: "jn_joiner s = JDrop \<Longrightarrow> join_step s ((join_release s)\<lparr>jn_joiner := JGone\<rparr>)"
| Finishes: "jn_finisher s = FRuns \<Longrightarrow> join_step s (s\<lparr>jn_exception := e, jn_escaped := e, jn_finisher := FStoreDone\<rparr>)"
| StoreDone: "jn_finisher s = FStoreDone \<Longrightarrow> join_step s (s\<lparr>jn_done := True, jn_finisher := FLoadKind\<rparr>)"
| LoadKind: "jn_finisher s = FLoadKind \<Longrightarrow> join_step s (s\<lparr>jn_finisher := FWakes (jn_waiterKind s)\<rparr>)"
| Wakes: "jn_finisher s = FWakes k \<Longrightarrow> join_step s (s\<lparr>jn_token := (jn_token s \<or> k \<noteq> kNoWaiter), jn_finisher := FDrop\<rparr>)"
| FinisherDrops: "jn_finisher s = FDrop \<Longrightarrow> join_step s ((join_release s)\<lparr>jn_finisher := FGone\<rparr>)"
| Stray: "join_step s (s\<lparr>jn_token := True\<rparr>)"

definition join_init :: "join_sys \<Rightarrow> bool" where
  "join_init s \<longleftrightarrow> jn_refs s = 2 \<and> \<not> jn_done s \<and> jn_waiterKind s = kNoWaiter \<and> \<not> jn_waiterStored s \<and> jn_exception s = None
     \<and> jn_deleted s = 0 \<and> jn_joiner s = JHas \<and> jn_finisher s = FRuns \<and> jn_outcome s = None"

section \<open>Invariant\<close>

definition join_refs_ok :: "join_sys \<Rightarrow> bool" where
  "join_refs_ok s \<longleftrightarrow> jn_refs s = (if jn_joiner s = JGone then 0 else 1) + (if jn_finisher s = FGone then 0 else 1)
     \<and> jn_deleted s = (if jn_joiner s = JGone \<and> jn_finisher s = FGone then 1 else 0)"

definition join_wait_ok :: "join_sys \<Rightarrow> bool" where
  "join_wait_ok s \<longleftrightarrow> (jn_done s \<longleftrightarrow> jn_finisher s \<notin> {FRuns, FStoreDone})
     \<and> (\<forall>k. jn_joiner s \<in> {JStoreWaiter k, JStoreKind k, JTest k, JBlocked k} \<longrightarrow> k \<noteq> kNoWaiter)
     \<and> (\<forall>k. jn_joiner s \<in> {JTest k, JBlocked k} \<longrightarrow> jn_waiterKind s = k)
     \<and> (jn_waiterKind s \<noteq> kNoWaiter \<longrightarrow> jn_waiterStored s) \<and> (\<forall>k. jn_joiner s = JStoreKind k \<longrightarrow> jn_waiterStored s)
     \<and> (\<forall>k. jn_finisher s = FWakes k \<and> k \<noteq> kNoWaiter \<longrightarrow> jn_waiterStored s)
     \<and> (\<forall>k. jn_joiner s = JBlocked k \<and> jn_done s \<and> \<not> jn_token s \<longrightarrow>
          jn_finisher s = FLoadKind \<or> (\<exists>k'. k' \<noteq> kNoWaiter \<and> jn_finisher s = FWakes k'))"

definition join_value_ok :: "join_sys \<Rightarrow> bool" where
  "join_value_ok s \<longleftrightarrow> (jn_joiner s = JTake \<longrightarrow> jn_done s) \<and> (jn_joiner s \<notin> {JDrop, JGone} \<longrightarrow> jn_outcome s = None)
     \<and> (jn_finisher s \<noteq> FRuns \<and> jn_outcome s = None \<longrightarrow> jn_exception s = jn_escaped s)
     \<and> (\<forall>v. jn_outcome s = Some v \<longrightarrow> jn_done s \<and> v = jn_escaped s)"

definition join_inv :: "join_sys \<Rightarrow> bool" where
  "join_inv s \<longleftrightarrow> join_refs_ok s \<and> join_wait_ok s \<and> join_value_ok s"

lemma join_step_refs: "join_step s s' \<Longrightarrow> join_refs_ok s \<Longrightarrow> join_refs_ok s'"
  by (induction rule: join_step.induct) (auto simp: join_refs_ok_def join_release_def split: if_splits)

lemma join_step_wait: "join_step s s' \<Longrightarrow> join_wait_ok s \<Longrightarrow> join_wait_ok s'"
  by (induction rule: join_step.induct) (auto simp: join_wait_ok_def join_release_def)

lemma join_step_value: "join_step s s' \<Longrightarrow> join_wait_ok s \<Longrightarrow> join_value_ok s \<Longrightarrow> join_value_ok s'"
  by (induction rule: join_step.induct) (auto simp: join_value_ok_def join_wait_ok_def join_release_def)

interpretation join: step_system join_init join_step join_inv
proof
  show "join_inv s" if "join_init s" for s
    using that by (simp add: join_init_def join_inv_def join_refs_ok_def join_wait_ok_def join_value_ok_def)
  show "join_inv s'" if "join_inv s" "join_step s s'" for s s'
    using that join_step_refs join_step_wait join_step_value by (simp add: join_inv_def)
qed

section \<open>Properties\<close>

text \<open>C16: \<^verbatim>\<open>join\<close> finishes only after the task did and with exactly what escaped the task; a joiner that
  is blocked although the task is done has its token or is about to get it; the finishing task
  reads the stored waiter only after it was written; and the shared state is deleted once, after
  both sides' last access.\<close>

theorem join_protocol:
  assumes "join_init s0" "join_step\<^sup>*\<^sup>* s0 s"
  shows "(\<forall>v. jn_outcome s = Some v \<longrightarrow> jn_done s \<and> v = jn_escaped s)
    \<and> (\<forall>k. jn_joiner s = JBlocked k \<and> jn_done s \<longrightarrow> jn_token s \<or> jn_finisher s = FLoadKind
          \<or> jn_finisher s = FWakes kTaskWaiter \<or> jn_finisher s = FWakes kThreadWaiter)
    \<and> (\<forall>k. jn_finisher s = FWakes k \<and> k \<noteq> kNoWaiter \<longrightarrow> jn_waiterStored s)
    \<and> jn_deleted s = (if jn_joiner s = JGone \<and> jn_finisher s = FGone then 1 else 0)"
proof -
  have "join_inv s" by (rule join.reachable_inv [OF assms])
  then have v: "join_value_ok s" and w: "join_wait_ok s" and r: "join_refs_ok s" by (simp_all add: join_inv_def)
  have "jn_token s \<or> jn_finisher s = FLoadKind \<or> jn_finisher s = FWakes kTaskWaiter \<or> jn_finisher s = FWakes kThreadWaiter"
    if "jn_joiner s = JBlocked k" "jn_done s" for k
    using w that unfolding join_wait_ok_def by (metis waiterKind.exhaust)
  with v w r show ?thesis by (auto simp: join_value_ok_def join_wait_ok_def join_refs_ok_def)
qed

definition join_demo :: join_sys where
  "join_demo = \<lparr>jn_refs = 2, jn_done = False, jn_waiterKind = kNoWaiter, jn_waiterStored = False, jn_exception = None,
     jn_deleted = 0, jn_joiner = JHas, jn_finisher = FRuns, jn_token = False, jn_outcome = None, jn_escaped = None\<rparr>"

theorem join_protocol_witness:
  "\<exists>s. join_step\<^sup>*\<^sup>* join_demo s \<and> jn_outcome s = Some (Some 7) \<and> jn_done s \<and> jn_escaped s = Some 7"
proof -
  let ?a = "join_demo\<lparr>jn_exception := Some 7, jn_escaped := Some 7, jn_finisher := FStoreDone\<rparr>"
  let ?b = "?a\<lparr>jn_done := True, jn_finisher := FLoadKind\<rparr>"
  let ?c = "?b\<lparr>jn_joiner := JTake\<rparr>"
  let ?d = "?c\<lparr>jn_outcome := Some (Some 7), jn_exception := None, jn_joiner := JDrop\<rparr>"
  have "join_step join_demo ?a" by (rule join_step.Finishes) (simp add: join_demo_def)
  moreover have "join_step ?a ?b" by (rule join_step.StoreDone) simp
  moreover have "join_step ?b ?c" by (rule join_step.AlreadyDone) (simp_all add: join_demo_def)
  moreover have "join_step ?c ?d" using join_step.Take [of ?c] by simp
  ultimately have r: "join_step\<^sup>*\<^sup>* join_demo ?d" by (meson converse_rtranclp_into_rtranclp rtranclp.rtrancl_refl)
  from join_protocol [OF _ r] have "jn_done ?d \<and> Some 7 = jn_escaped ?d" by (simp add: join_init_def join_demo_def)
  with r show ?thesis by (intro exI [of _ ?d]) simp
qed

end
