(* ===== verification/Parker.thy ===== *)
theory Parker
  imports Step_System
begin

text \<open>
  \<^verbatim>\<open>FutexParker\<close> of \<^verbatim>\<open>sched/src/Parker.cpp\<close>: one word, the owner that parks (with or without a
  timeout) and any number of threads that unpark it, access by access.  The kernel's futex is
  modelled by its documented behaviour: a wait sleeps only if the word still has the expected
  value at that moment, a wake ends a sleep, and a sleep may end by itself.
\<close>

section \<open>The model\<close>

datatype parker_word = KEmpty | KNotified | KParked

text \<open>The owner: outside; in the loop, about to test the word; asleep in the kernel; about to store
  \<^verbatim>\<open>kEmpty\<close> and return whether it was notified.  The flag tells \<^verbatim>\<open>parkFor\<close> from \<^verbatim>\<open>park\<close>.\<close>

datatype parker_pc = POutside | PLoop bool | PAsleep bool | PConsume bool

datatype unpark_pc = UOutside | UWake

text \<open>\<open>fp_posted\<close> is a ghost: some unpark exchanged the word since a park last returned.\<close>

record parker_sys =
  fp_word :: parker_word
  fp_owner :: parker_pc
  fp_unpark :: "nat \<Rightarrow> unpark_pc"
  fp_posted :: bool

inductive parker_step :: "parker_sys \<Rightarrow> parker_sys \<Rightarrow> bool" where
  Enter: "fp_owner s = POutside \<Longrightarrow> fp_word s = KEmpty \<Longrightarrow> parker_step s (s\<lparr>fp_word := KParked, fp_owner := PLoop timed\<rparr>)"
| HadToken: "fp_owner s = POutside \<Longrightarrow> fp_word s \<noteq> KEmpty \<Longrightarrow> parker_step s (s\<lparr>fp_owner := PConsume True\<rparr>)"
| Notified: "fp_owner s = PLoop timed \<Longrightarrow> fp_word s \<noteq> KParked \<Longrightarrow> parker_step s (s\<lparr>fp_owner := PConsume True\<rparr>)"
| Sleep: "fp_owner s = PLoop timed \<Longrightarrow> fp_word s = KParked \<Longrightarrow> parker_step s (s\<lparr>fp_owner := PAsleep timed\<rparr>)"
| Spurious: "fp_owner s = PAsleep timed \<Longrightarrow> parker_step s (s\<lparr>fp_owner := PLoop timed\<rparr>)"
| GiveUp: "fp_owner s = PLoop True \<Longrightarrow> fp_word s = KParked \<Longrightarrow> parker_step s (s\<lparr>fp_word := KEmpty, fp_owner := PConsume False\<rparr>)"
| Return: "fp_owner s = PConsume r \<Longrightarrow> parker_step s (s\<lparr>fp_word := KEmpty, fp_owner := POutside, fp_posted := False\<rparr>)"
| Unpark: "fp_unpark s t = UOutside \<Longrightarrow>
    parker_step s (s\<lparr>fp_word := KNotified, fp_posted := True,
      fp_unpark := (fp_unpark s)(t := if fp_word s = KParked then UWake else UOutside)\<rparr>)"
| FutexWake: "fp_unpark s t = UWake \<Longrightarrow>
    parker_step s (s\<lparr>fp_unpark := (fp_unpark s)(t := UOutside),
      fp_owner := (case fp_owner s of PAsleep timed \<Rightarrow> PLoop timed | p \<Rightarrow> p)\<rparr>)"

definition parker_init :: "parker_sys \<Rightarrow> bool" where
  "parker_init s \<longleftrightarrow> fp_word s = KEmpty \<and> fp_owner s = POutside \<and> fp_unpark s = (\<lambda>_. UOutside) \<and> \<not> fp_posted s"

section \<open>Invariant\<close>

definition in_wait :: "parker_pc \<Rightarrow> bool" where
  "in_wait p \<longleftrightarrow> (\<exists>b. p = PLoop b \<or> p = PAsleep b)"

definition parker_inv :: "parker_sys \<Rightarrow> bool" where
  "parker_inv s \<longleftrightarrow> (in_wait (fp_owner s) \<longrightarrow> fp_word s \<noteq> KEmpty)
     \<and> (\<not> in_wait (fp_owner s) \<longrightarrow> fp_word s \<noteq> KParked)
     \<and> (\<forall>b. fp_owner s = PAsleep b \<and> fp_word s = KNotified \<longrightarrow> (\<exists>t. fp_unpark s t = UWake))
     \<and> (fp_posted s \<longrightarrow> fp_word s = KNotified)"

lemma parker_step_inv:
  assumes "parker_step s s'" "parker_inv s"
  shows "parker_inv s'"
  using assms(1)
proof cases
  case (Unpark t)
  have "\<exists>u. fp_unpark s' u = UWake" if "fp_owner s = PAsleep b" for b
  proof (cases "fp_word s = KParked")
    case True
    then show ?thesis using Unpark by auto
  next
    case False
    with that assms(2) obtain u where "fp_unpark s u = UWake"
      by (cases "fp_word s") (auto simp: parker_inv_def in_wait_def)
    then show ?thesis using Unpark by (intro exI [of _ u]) auto
  qed
  with Unpark assms(2) show ?thesis by (auto simp: parker_inv_def in_wait_def)
next
  case (FutexWake t)
  then show ?thesis using assms(2) by (cases "fp_owner s") (auto simp: parker_inv_def in_wait_def)
qed (use assms(2) in \<open>auto simp: parker_inv_def in_wait_def\<close>)

interpretation parker: step_system parker_init parker_step parker_inv
proof
  show "parker_inv s" if "parker_init s" for s
    using that by (simp add: parker_init_def parker_inv_def in_wait_def)
  show "parker_inv s'" if "parker_inv s" "parker_step s s'" for s s'
    using parker_step_inv that by blast
qed

section \<open>Properties\<close>

text \<open>C17: no unpark is lost on a parked thread: whenever the owner is asleep although an unpark was
  posted since its last park returned, the thread that posted it is still to make its wake call;
  and with the owner outside, the posted token is in the word, so the next park returns at once.\<close>

theorem parker_no_lost_unpark:
  assumes "parker_init s0" "parker_step\<^sup>*\<^sup>* s0 s" "fp_posted s"
  shows "(\<forall>b. fp_owner s = PAsleep b \<longrightarrow> (\<exists>t. fp_unpark s t = UWake))
    \<and> (\<forall>s'. fp_owner s = POutside \<and> parker_step s s' \<longrightarrow> \<not> in_wait (fp_owner s'))"
proof -
  have inv: "parker_inv s" by (rule parker.reachable_inv [OF assms(1,2)])
  then have w: "fp_word s = KNotified" using assms(3) by (simp add: parker_inv_def)
  have "\<not> in_wait (fp_owner s')" if "fp_owner s = POutside" "parker_step s s'" for s'
    using that(2,1) w by cases (auto simp: in_wait_def)
  with inv w show ?thesis by (auto simp: parker_inv_def)
qed

definition parker_demo :: "parker_word \<Rightarrow> parker_pc \<Rightarrow> bool \<Rightarrow> parker_sys" where
  "parker_demo w p b = \<lparr>fp_word = w, fp_owner = p, fp_unpark = (\<lambda>_. UOutside), fp_posted = b\<rparr>"

lemma parker_demo_init: "parker_init (parker_demo KEmpty POutside False)"
  by (simp add: parker_init_def parker_demo_def)

lemma parker_demo_steps:
  "parker_step (parker_demo KEmpty POutside b) (parker_demo KParked (PLoop timed) b)"
  "parker_step (parker_demo KParked (PLoop timed) b) (parker_demo KParked (PAsleep timed) b)"
  "parker_step (parker_demo KParked (PLoop True) b) (parker_demo KEmpty (PConsume False) b)"
  "w \<noteq> KParked \<Longrightarrow> parker_step (parker_demo w p b) (parker_demo KNotified p True)"
  "parker_step (parker_demo w (PConsume r) b) (parker_demo KEmpty POutside False)"
  using parker_step.Enter [of "parker_demo KEmpty POutside b" timed] parker_step.Sleep [of "parker_demo KParked (PLoop timed) b" timed]
    parker_step.GiveUp [of "parker_demo KParked (PLoop True) b"] parker_step.Return [of "parker_demo w (PConsume r) b" r]
    parker_step.Unpark [of "parker_demo w p b" 0]
  by (simp_all add: parker_demo_def fun_upd_def cong: if_cong)

theorem parker_no_lost_unpark_witness:
  "fp_posted (parker_demo KNotified POutside True)
    \<and> \<not> (\<exists>s'. parker_step (parker_demo KNotified POutside True) s' \<and> in_wait (fp_owner s'))"
proof -
  have "parker_step\<^sup>*\<^sup>* (parker_demo KEmpty POutside False) (parker_demo KNotified POutside True)"
    using parker_demo_steps(4) [of KEmpty POutside False] by auto
  from parker_no_lost_unpark [OF parker_demo_init this] show ?thesis by (auto simp: parker_demo_def)
qed

text \<open>a timed park can swallow a token: an unpark that arrives after \<^verbatim>\<open>parkFor\<close> gave up its parked
  state, and before its last store, is overwritten by that store; \<^verbatim>\<open>parkFor\<close> reports a timeout
  and the next \<^verbatim>\<open>park\<close> sleeps although nobody is left to wake it.\<close>

theorem parkFor_swallows_unpark:
  "\<exists>s0 s1 s2 s3. parker_init s0 \<and> parker_step\<^sup>*\<^sup>* s0 s1 \<and> fp_owner s1 = PConsume False
    \<and> parker_step s1 s2 \<and> \<not> fp_posted s1 \<and> fp_posted s2
    \<and> parker_step\<^sup>*\<^sup>* s2 s3 \<and> fp_owner s3 = PAsleep False \<and> fp_word s3 = KParked \<and> (\<forall>t. fp_unpark s3 t = UOutside)"
proof -
  let ?s0 = "parker_demo KEmpty POutside False" let ?s1 = "parker_demo KEmpty (PConsume False) False"
  let ?s2 = "parker_demo KNotified (PConsume False) True" let ?s3 = "parker_demo KParked (PAsleep False) False"
  have "parker_step\<^sup>*\<^sup>* ?s0 ?s1"
    by (rule converse_rtranclp_into_rtranclp [of parker_step, OF parker_demo_steps(1) r_into_rtranclp [of parker_step, OF parker_demo_steps(3)]])
  moreover have "parker_step ?s1 ?s2" by (rule parker_demo_steps(4)) simp
  moreover have "parker_step\<^sup>*\<^sup>* ?s2 ?s3"
    by (rule converse_rtranclp_into_rtranclp [of parker_step, OF parker_demo_steps(5)
      converse_rtranclp_into_rtranclp [of parker_step, OF parker_demo_steps(1) r_into_rtranclp [of parker_step, OF parker_demo_steps(2)]]])
  ultimately show ?thesis using parker_demo_init
    by (intro exI [of _ ?s0] exI [of _ ?s1] exI [of _ ?s2] exI [of _ ?s3]) (simp add: parker_demo_def)
qed

end
