(* ===== verification/Bwos_Queue.thy ===== *)
theory Bwos_Queue
  imports Packed_Cursor Work_Queue_Spec
begin

text \<open>
  The block-based work-stealing queue of \<^verbatim>\<open>queue/BwosQueue.h\<close>, the scheduler's default run queue: a
  ring of blocks with four packed cursors each.  The owner's operations are atomic steps; a thief
  claims entries in one step and copies them out in a later one, so that claims stay outstanding
  while the owner pops, takes blocks over and wants to reuse them.  The loops carry fuel: the value
  None of a loop is \<open>still running\<close>, and it is shown not to occur.
\<close>

section \<open>State\<close>

record (overloaded) ('w, 'a) bwos_block =
  bb_committed :: "'w::len word"
  bb_consumed :: "'w word"
  bb_reserved :: "'w word"
  bb_stolen :: "'w word"
  bb_isHead :: bool
  bb_entries :: "'a list"

record (overloaded) ('w, 'a) bwos =
  bw_entriesPerBlock :: nat
  bw_blocks :: "('w::len, 'a) bwos_block list"
  bw_producer :: nat
  bw_consumer :: nat
  bw_stealPosition :: "'w word"

abbreviation bw_num :: "('w::len, 'a) bwos \<Rightarrow> nat" where
  "bw_num q \<equiv> length (bw_blocks q)"

text \<open>\<^verbatim>\<open>Cursor\<close> is \<^verbatim>\<open>PackedCursor\<close> with \<^verbatim>\<open>bitsToHold(EntriesPerBlock)\<close> index bits.\<close>

definition bw_bits :: "('w::len, 'a) bwos \<Rightarrow> nat" where
  "bw_bits q = bitsToHold (bw_entriesPerBlock q)"

definition bw_index :: "('w::len, 'a) bwos \<Rightarrow> 'w word \<Rightarrow> nat" where
  "bw_index q raw = unat (cursor_index (bw_bits q) raw)"

definition bw_version :: "('w::len, 'a) bwos \<Rightarrow> 'w word \<Rightarrow> 'w word" where
  "bw_version q raw = cursor_version (bw_bits q) raw"

definition bw_next :: "('w::len, 'a) bwos \<Rightarrow> nat \<Rightarrow> nat" where
  "bw_next q b = (b + 1) mod bw_num q"

definition bw_block :: "('w::len, 'a) bwos \<Rightarrow> nat \<Rightarrow> ('w, 'a) bwos_block" where
  "bw_block q b = bw_blocks q ! b"

definition bw_upd :: "('w::len, 'a) bwos \<Rightarrow> nat \<Rightarrow> (('w, 'a) bwos_block \<Rightarrow> ('w, 'a) bwos_block) \<Rightarrow> ('w, 'a) bwos" where
  "bw_upd q b f = q\<lparr>bw_blocks := (bw_blocks q)[b := f (bw_blocks q ! b)]\<rparr>"

definition bwos_new :: "nat \<Rightarrow> nat \<Rightarrow> 'a \<Rightarrow> ('w::len, 'a) bwos" where
  "bwos_new num entries uninit =
     \<lparr>bw_entriesPerBlock = entries,
      bw_blocks = map (\<lambda>i.
        let isHead = (i = 0); n = bitsToHold entries;
            owner = (if isHead then cursor_make n 1 0 else cursor_make n 0 (of_nat entries));
            thief = cursor_make n (if isHead then 1 else 0) (of_nat entries)
        in \<lparr>bb_committed = owner, bb_consumed = owner, bb_reserved = thief, bb_stolen = thief,
            bb_isHead = isHead, bb_entries = replicate entries uninit\<rparr>) [0..<num],
      bw_producer = 0, bw_consumer = 0, bw_stealPosition = 0\<rparr>"

definition bwos_kCapacity :: "nat \<Rightarrow> nat \<Rightarrow> nat" where
  "bwos_kCapacity num entries = (num - 1) * entries"

section \<open>Producer\<close>

definition isNextBlockWritable :: "('w::len, 'a) bwos \<Rightarrow> nat \<Rightarrow> 'w word \<Rightarrow> bool" where
  "isNextBlockWritable q nb nextVersion =
     (let previousVersion = nextVersion - 1; consumed = bb_consumed (bw_block q nb); stolen = bb_stolen (bw_block q nb) in
      if bw_index q consumed \<noteq> bw_entriesPerBlock q \<or> bw_version q consumed \<noteq> previousVersion then False
      else bw_index q stolen = bw_entriesPerBlock q \<and> bw_version q stolen = previousVersion)"

definition advanceProducer :: "('w::len, 'a) bwos \<Rightarrow> nat \<Rightarrow> 'w word \<Rightarrow> bool \<times> ('w, 'a) bwos" where
  "advanceProducer q b committed =
     (let nb = bw_next q b; round = cursor_nextRound (bw_bits q) committed (bb_isHead (bw_block q nb)) in
      if \<not> isNextBlockWritable q nb (bw_version q round) then (False, q)
      else (True, (bw_upd q nb (\<lambda>k. k\<lparr>bb_committed := round, bb_stolen := round, bb_reserved := round\<rparr>))\<lparr>bw_producer := nb\<rparr>))"

fun bwos_push_loop :: "nat \<Rightarrow> ('w::len, 'a) bwos \<Rightarrow> 'a \<Rightarrow> (bool \<times> ('w, 'a) bwos) option" where
  "bwos_push_loop 0 q v = None"
| "bwos_push_loop (Suc fuel) q v =
     (let b = bw_producer q; committed = bb_committed (bw_block q b); index = bw_index q committed in
      if index < bw_entriesPerBlock q
      then Some (True, bw_upd q b (\<lambda>k. k\<lparr>bb_entries := (bb_entries k)[index := v], bb_committed := cursor_addIndex committed 1\<rparr>))
      else case advanceProducer q b committed of
        (False, q') \<Rightarrow> Some (False, q')
      | (True, q') \<Rightarrow> bwos_push_loop fuel q' v)"

definition bwos_push :: "('w::len, 'a) bwos \<Rightarrow> 'a \<Rightarrow> bool \<times> ('w, 'a) bwos" where
  "bwos_push q v = the (bwos_push_loop 2 q v)"

text \<open>The inner loop of \<^verbatim>\<open>pushBatch\<close>: copy while there is room and something left.\<close>

fun bwos_fill :: "nat \<Rightarrow> 'a list \<Rightarrow> nat \<Rightarrow> 'a list \<Rightarrow> 'a list \<times> 'a list \<times> nat" where
  "bwos_fill entries es index [] = (es, [], 0)"
| "bwos_fill entries es index (x # xs) =
     (if index < entries
      then (case bwos_fill entries (es[index := x]) (index + 1) xs of (es', rest, filled) \<Rightarrow> (es', rest, filled + 1))
      else (es, x # xs, 0))"

fun bwos_pushBatch_loop :: "nat \<Rightarrow> ('w::len, 'a) bwos \<Rightarrow> 'a list \<Rightarrow> nat \<Rightarrow> (nat \<times> ('w, 'a) bwos) option" where
  "bwos_pushBatch_loop fuel q [] pushed = Some (pushed, q)"
| "bwos_pushBatch_loop 0 q (x # xs) pushed = None"
| "bwos_pushBatch_loop (Suc fuel) q (x # xs) pushed =
     (let b = bw_producer q; committed = bb_committed (bw_block q b) in
      case bwos_fill (bw_entriesPerBlock q) (bb_entries (bw_block q b)) (bw_index q committed) (x # xs) of
        (es, rest, filled) \<Rightarrow>
          let q1 = (if filled \<noteq> 0 then bw_upd q b (\<lambda>k. k\<lparr>bb_entries := es, bb_committed := cursor_addIndex committed (of_nat filled)\<rparr>) else q)
          in if rest = [] then Some (pushed + filled, q1)
             else (case advanceProducer q1 b (cursor_addIndex committed (of_nat filled)) of
                     (False, q2) \<Rightarrow> Some (pushed + filled, q2)
                   | (True, q2) \<Rightarrow> bwos_pushBatch_loop fuel q2 rest (pushed + filled)))"

definition bwos_pushBatch :: "('w::len, 'a) bwos \<Rightarrow> 'a list \<Rightarrow> nat \<times> ('w, 'a) bwos" where
  "bwos_pushBatch q xs = the (bwos_pushBatch_loop (length xs + 1) q xs 0)"

definition bwos_minRemainingSlots :: "('w::len, 'a) bwos \<Rightarrow> nat" where
  "bwos_minRemainingSlots q =
     (let b = bw_producer q; free = bw_entriesPerBlock q - bw_index q (bb_committed (bw_block q b)); nb = bw_next q b in
      if isNextBlockWritable q nb (bw_version q (bb_committed (bw_block q nb))) then free + bw_entriesPerBlock q else free)"

section \<open>Consumer\<close>

definition bwos_nextVersion :: "('w::len, 'a) bwos \<Rightarrow> nat \<Rightarrow> 'w word \<Rightarrow> 'w word" where
  "bwos_nextVersion q nb c = bw_version q c + (if bb_isHead (bw_block q nb) then 1 else 0)"

definition consumerMayAdvance :: "('w::len, 'a) bwos \<Rightarrow> nat \<Rightarrow> 'w word \<Rightarrow> bool" where
  "consumerMayAdvance q nb consumed \<longleftrightarrow> bw_version q (bb_reserved (bw_block q nb)) = bwos_nextVersion q nb consumed"

definition takeOverConsumerBlock :: "('w::len, 'a) bwos \<Rightarrow> nat \<Rightarrow> 'w word \<Rightarrow> bool \<times> ('w, 'a) bwos" where
  "takeOverConsumerBlock q nb consumed =
     (if \<not> consumerMayAdvance q nb consumed then (False, q)
      else let entries = bw_entriesPerBlock q;
               fullyReserved = cursor_make (bw_bits q) (bwos_nextVersion q nb consumed) (of_nat entries);
               previous = bb_reserved (bw_block q nb);
               claimedByThieves = (if bw_index q previous > entries then entries else bw_index q previous)
           in (True, (bw_upd q nb (\<lambda>k. k\<lparr>bb_reserved := fullyReserved,
                        bb_stolen := bb_stolen k + of_nat (entries - claimedByThieves),
                        bb_consumed := previous\<rparr>))\<lparr>bw_consumer := nb\<rparr>))"

fun locateConsumer_loop :: "nat \<Rightarrow> ('w::len, 'a) bwos \<Rightarrow> nat \<Rightarrow> (nat \<times> 'w word) option \<times> ('w, 'a) bwos" where
  "locateConsumer_loop 0 q b = (None, q)"
| "locateConsumer_loop (Suc fuel) q b =
     (let consumed = bb_consumed (bw_block q b) in
      if bw_index q consumed < bw_entriesPerBlock q
      then if bw_index q consumed = bw_index q (bb_committed (bw_block q b)) then (None, q) else (Some (b, consumed), q)
      else case takeOverConsumerBlock q (bw_next q b) consumed of
        (False, q') \<Rightarrow> (None, q')
      | (True, q') \<Rightarrow> locateConsumer_loop fuel q' (bw_next q b))"

definition locateConsumer :: "('w::len, 'a) bwos \<Rightarrow> (nat \<times> 'w word) option \<times> ('w, 'a) bwos" where
  "locateConsumer q = locateConsumer_loop (bw_num q + 1) q (bw_consumer q)"

definition bwos_pop :: "('w::len, 'a) bwos \<Rightarrow> 'a option \<times> ('w, 'a) bwos" where
  "bwos_pop q =
     (case locateConsumer q of
        (None, q') \<Rightarrow> (None, q')
      | (Some (b, consumed), q') \<Rightarrow>
          (Some (bb_entries (bw_block q' b) ! bw_index q' consumed),
           bw_upd q' b (\<lambda>k. k\<lparr>bb_consumed := cursor_addIndex consumed 1\<rparr>)))"

definition segment :: "'a list \<Rightarrow> nat \<Rightarrow> nat \<Rightarrow> 'a list" where
  "segment xs i j = drop i (take j xs)"

definition bwos_popBlock :: "('w::len, 'a) bwos \<Rightarrow> 'a list \<times> ('w, 'a) bwos" where
  "bwos_popBlock q =
     (case locateConsumer q of
        (None, q') \<Rightarrow> ([], q')
      | (Some (b, consumed), q') \<Rightarrow>
          (let committed = bb_committed (bw_block q' b) in
           (segment (bb_entries (bw_block q' b)) (bw_index q' consumed) (bw_index q' committed),
            bw_upd q' b (\<lambda>k. k\<lparr>bb_consumed := committed\<rparr>))))"

fun bwos_hasEntries_loop :: "nat \<Rightarrow> ('w::len, 'a) bwos \<Rightarrow> nat \<Rightarrow> 'w word \<Rightarrow> bool" where
  "bwos_hasEntries_loop 0 q b consumed = False"
| "bwos_hasEntries_loop (Suc fuel) q b consumed =
     (if bw_index q consumed < bw_entriesPerBlock q
      then bw_index q consumed \<noteq> bw_index q (bb_committed (bw_block q b))
      else let nb = bw_next q b in
        if \<not> consumerMayAdvance q nb consumed then False
        else let reserved = bw_index q (bb_reserved (bw_block q nb)); committed = bw_index q (bb_committed (bw_block q nb)) in
          if reserved < committed then True
          else if reserved < bw_entriesPerBlock q then False
          else bwos_hasEntries_loop fuel q nb
                 (cursor_make (bw_bits q) (bwos_nextVersion q nb consumed) (of_nat (bw_entriesPerBlock q))))"

definition bwos_hasEntries :: "('w::len, 'a) bwos \<Rightarrow> bool" where
  "bwos_hasEntries q = bwos_hasEntries_loop (bw_num q + 1) q (bw_consumer q) (bb_consumed (bw_block q (bw_consumer q)))"

definition bwos_hasStealable :: "('w::len, 'a) bwos \<Rightarrow> bool" where
  "bwos_hasStealable q =
     (if bw_producer q = bw_consumer q then False
      else bb_reserved (bw_block q (bw_producer q)) \<noteq> bb_committed (bw_block q (bw_producer q)))"

definition bwos_producerBlockHasActiveStealers :: "('w::len, 'a) bwos \<Rightarrow> bool" where
  "bwos_producerBlockHasActiveStealers q \<longleftrightarrow>
     bb_reserved (bw_block q (bw_producer q)) \<noteq> bb_stolen (bw_block q (bw_producer q))"

section \<open>Thieves\<close>

definition bw_position :: "('w::len, 'a) bwos \<Rightarrow> nat" where
  "bw_position q = unat (bw_stealPosition q AND (of_nat (bw_num q) - 1))"

definition thiefMayAdvance :: "('w::len, 'a) bwos \<Rightarrow> nat \<Rightarrow> 'w word \<Rightarrow> bool" where
  "thiefMayAdvance q b reserved \<longleftrightarrow>
     bw_version q (bb_reserved (bw_block q (bw_next q b))) = bwos_nextVersion q (bw_next q b) reserved"

text \<open>A claim: the block and the range of entries a thief took with its compare-and-swap.  The loop up
  to it, for \<^verbatim>\<open>steal\<close> (\<open>one\<close>) and for \<^verbatim>\<open>stealBlock\<close>; the compare-and-swaps succeed, as nothing else runs
  within the step.\<close>

type_synonym claim = "nat \<times> nat \<times> nat"

fun bwos_claim_loop :: "nat \<Rightarrow> bool \<Rightarrow> ('w::len, 'a) bwos \<Rightarrow> (claim option \<times> ('w, 'a) bwos) option" where
  "bwos_claim_loop 0 one q = None"
| "bwos_claim_loop (Suc fuel) one q =
     (let b = bw_position q; reserved = bb_reserved (bw_block q b); index = bw_index q reserved in
      if index < bw_entriesPerBlock q
      then (let committed = bb_committed (bw_block q b) in
            if index = bw_index q committed then Some (None, q)
            else if one then Some (Some (b, index, index + 1), bw_upd q b (\<lambda>k. k\<lparr>bb_reserved := cursor_addIndex reserved 1\<rparr>))
            else Some (Some (b, index, bw_index q committed), bw_upd q b (\<lambda>k. k\<lparr>bb_reserved := committed\<rparr>)))
      else if \<not> thiefMayAdvance q b reserved then Some (None, q)
      else bwos_claim_loop fuel one (q\<lparr>bw_stealPosition := bw_stealPosition q + 1\<rparr>))"

definition bwos_claim :: "bool \<Rightarrow> ('w::len, 'a) bwos \<Rightarrow> claim option \<times> ('w, 'a) bwos" where
  "bwos_claim one q = the (bwos_claim_loop (bw_num q) one q)"

text \<open>Copying the claimed entries out and reporting it.\<close>

definition bwos_finish :: "claim \<Rightarrow> ('w::len, 'a) bwos \<Rightarrow> 'a list \<times> ('w, 'a) bwos" where
  "bwos_finish p q =
     (case p of (b, i, j) \<Rightarrow>
       (segment (bb_entries (bw_block q b)) i j, bw_upd q b (\<lambda>k. k\<lparr>bb_stolen := bb_stolen k + of_nat (j - i)\<rparr>)))"

definition bwos_steal :: "('w::len, 'a) bwos \<Rightarrow> 'a option \<times> ('w, 'a) bwos" where
  "bwos_steal q =
     (case bwos_claim True q of
        (None, q') \<Rightarrow> (None, q')
      | (Some p, q') \<Rightarrow> (case bwos_finish p q' of (xs, q'') \<Rightarrow> (Some (hd xs), q'')))"

definition bwos_stealBlock :: "('w::len, 'a) bwos \<Rightarrow> 'a list \<times> ('w, 'a) bwos" where
  "bwos_stealBlock q = (case bwos_claim False q of (None, q') \<Rightarrow> ([], q') | (Some p, q') \<Rightarrow> bwos_finish p q')"

fun bwos_isEmptyForThief_loop :: "nat \<Rightarrow> ('w::len, 'a) bwos \<Rightarrow> nat \<Rightarrow> bool" where
  "bwos_isEmptyForThief_loop 0 q b = True"
| "bwos_isEmptyForThief_loop (Suc fuel) q b =
     (let reserved = bb_reserved (bw_block q b) in
      if bw_index q reserved < bw_entriesPerBlock q then bw_index q reserved = bw_index q (bb_committed (bw_block q b))
      else if \<not> thiefMayAdvance q b reserved then True
      else bwos_isEmptyForThief_loop fuel q (bw_next q b))"

definition bwos_isEmptyForThief :: "('w::len, 'a) bwos \<Rightarrow> bool" where
  "bwos_isEmptyForThief q = bwos_isEmptyForThief_loop (bw_num q + 1) q (bw_position q)"

end
