(* ===== verification/Bwos_Laws.thy ===== *)
theory Bwos_Laws
  imports Bwos_Queue
begin

text \<open>
  The invariant of the block-based queue and what each operation does to the entries it holds.
  Blocks are numbered along the rounds: block \<open>k\<close> is the ring's block \<open>k mod N\<close> in round \<open>k div N\<close>, the head
  block of round 1 being block \<open>N\<close>.  The ring holds the blocks after \<open>kp - N\<close> up to the producer's \<open>kp\<close>.
\<close>

section \<open>The numbered blocks\<close>

record bwa =
  a_kp :: nat
  a_kc :: nat
  a_c :: nat
  a_d :: nat
  a_r :: "nat \<Rightarrow> nat"

definition pend :: "claim list \<Rightarrow> nat \<Rightarrow> nat" where
  "pend P b = sum_list (map (\<lambda>(b', i, j). if b' = b then j - i else 0) P)"

definition a_com :: "bwa \<Rightarrow> nat \<Rightarrow> nat \<Rightarrow> nat" where
  "a_com A E k = (if k < a_kp A then E else a_c A)"

definition a_res :: "bwa \<Rightarrow> nat \<Rightarrow> nat \<Rightarrow> nat" where
  "a_res A E k = (if k \<le> a_kc A then E else a_r A k)"

definition a_cons :: "bwa \<Rightarrow> nat \<Rightarrow> nat \<Rightarrow> nat \<Rightarrow> nat \<times> nat" where
  "a_cons A E N k = (if a_kc A < k then (k div N - 1, E) else if k = a_kc A then (k div N, a_d A) else (k div N, E))"

definition window :: "bwa \<Rightarrow> nat \<Rightarrow> nat \<Rightarrow> bool" where
  "window A N k \<longleftrightarrow> a_kp A < k + N \<and> k \<le> a_kp A"

definition block_ok :: "nat \<Rightarrow> nat \<Rightarrow> nat \<Rightarrow> bwa \<Rightarrow> claim list \<Rightarrow> nat \<Rightarrow> ('w::len, 'a) bwos_block \<Rightarrow> bool" where
  "block_ok n E N A P k b \<longleftrightarrow>
     bb_committed b = cur n (k div N) (a_com A E k) \<and> bb_reserved b = cur n (k div N) (a_res A E k)
     \<and> bb_stolen b = cur n (k div N) (a_res A E k - pend P (k mod N)) \<and> pend P (k mod N) \<le> a_res A E k
     \<and> bb_consumed b = cur n (fst (a_cons A E N k)) (snd (a_cons A E N k))
     \<and> (a_kc A < k \<longrightarrow> a_r A k \<le> a_com A E k)
     \<and> length (bb_entries b) = E \<and> bb_isHead b = (k mod N = 0)
     \<and> (\<forall>i j. (k mod N, i, j) \<in> set P \<longrightarrow> i < j \<and> j \<le> a_com A E k)"

definition bw_static :: "('w::len, 'a) bwos \<Rightarrow> bool" where
  "bw_static q \<longleftrightarrow> 1 \<le> bw_entriesPerBlock q \<and> 2 \<le> bw_num q \<and> (\<exists>m<LENGTH('w). bw_num q = 2 ^ m) \<and> bw_bits q < LENGTH('w)"

definition a_ok :: "bwa \<Rightarrow> nat \<Rightarrow> nat \<Rightarrow> nat \<Rightarrow> nat \<Rightarrow> bool" where
  "a_ok A E N n len \<longleftrightarrow> N \<le> a_kc A \<and> a_kc A \<le> a_kp A \<and> a_kp A \<le> a_kc A + N \<and> a_kp A div N < 2 ^ (len - n)
     \<and> a_c A \<le> E \<and> a_d A \<le> a_com A E (a_kc A) \<and> (a_kp A = a_kc A + N \<longrightarrow> a_d A = E)"

definition bw_rep :: "bwa \<Rightarrow> claim list \<Rightarrow> ('w::len, 'a) bwos \<Rightarrow> bool" where
  "bw_rep A P q \<longleftrightarrow> bw_static q \<and> a_ok A (bw_entriesPerBlock q) (bw_num q) (bw_bits q) LENGTH('w)
     \<and> bw_producer q = a_kp A mod bw_num q \<and> bw_consumer q = a_kc A mod bw_num q
     \<and> (\<forall>k. window A (bw_num q) k \<longrightarrow>
          block_ok (bw_bits q) (bw_entriesPerBlock q) (bw_num q) A P k (bw_block q (k mod bw_num q)))
     \<and> (\<forall>b i j. (b, i, j) \<in> set P \<longrightarrow> b < bw_num q)"

definition a_lo :: "bwa \<Rightarrow> nat \<Rightarrow> nat" where
  "a_lo A k = (if k = a_kc A then a_d A else a_r A k)"

definition a_slice :: "bwa \<Rightarrow> ('w::len, 'a) bwos \<Rightarrow> nat \<Rightarrow> 'a list" where
  "a_slice A q k = segment (bb_entries (bw_block q (k mod bw_num q))) (a_lo A k) (a_com A (bw_entriesPerBlock q) k)"

definition a_cont :: "bwa \<Rightarrow> ('w::len, 'a) bwos \<Rightarrow> 'a list" where
  "a_cont A q = concat (map (a_slice A q) [a_kc A..<Suc (a_kp A)])"

section \<open>Generic facts\<close>

lemma segment_empty [simp]: "j \<le> i \<Longrightarrow> segment xs i j = []"
  by (simp add: segment_def)

lemma length_segment: "j \<le> length xs \<Longrightarrow> length (segment xs i j) = j - i"
  by (simp add: segment_def)

lemma segment_Nil: "j \<le> length xs \<Longrightarrow> segment xs i j = [] \<longleftrightarrow> j \<le> i"
  by (simp add: segment_def)

lemma segment_split: "i \<le> m \<Longrightarrow> m \<le> j \<Longrightarrow> segment xs i j = segment xs i m @ segment xs m j"
proof -
  assume a: "i \<le> m" "m \<le> j"
  have "take j xs = take m xs @ drop m (take j xs)" using a by (metis append_take_drop_id min.absorb1 take_take)
  then have "drop i (take j xs) = drop i (take m xs @ drop m (take j xs))" by simp
  also have "\<dots> = drop i (take m xs) @ drop (i - length (take m xs)) (drop m (take j xs))" by simp
  also have "drop (i - length (take m xs)) (drop m (take j xs)) = drop m (take j xs)"
    using a by (cases "length xs \<le> m") simp_all
  finally show ?thesis by (simp add: segment_def)
qed

lemma segment_Cons: "i < j \<Longrightarrow> j \<le> length xs \<Longrightarrow> segment xs i j = xs ! i # segment xs (Suc i) j"
  by (simp add: segment_def drop_Cons_nth)

lemma segment_append:
  assumes "c + length ys \<le> length xs" "i \<le> c"
  shows "segment (take c xs @ ys @ drop (c + length ys) xs) i (c + length ys) = segment xs i c @ ys"
  using assms by (cases ys) (auto simp: segment_def min_def)

lemma segment_below:
  assumes "c \<le> length xs" "j \<le> c"
  shows "segment (take c xs @ zs) i j = segment xs i j"
  using assms by (simp add: segment_def min_def)

lemma div_step: "0 < N \<Longrightarrow> Suc k div N = k div N + (if Suc k mod N = 0 then 1 else 0)"
  by (simp add: div_Suc)

lemma mod_step: "0 < N \<Longrightarrow> (k mod N + 1) mod N = Suc k mod (N :: nat)"
  by (simp add: mod_Suc_eq)

lemma window_unique:
  assumes "window A N k" "window A N k'" "k mod N = k' mod N"
  shows "k = k'"
proof -
  let ?a = "a_kp A + 1 - N"
  have d: "k = ?a + (k - ?a)" "k' = ?a + (k' - ?a)" "k - ?a < N" "k' - ?a < N" using assms(1,2) by (auto simp: window_def)
  then have "k - ?a = k' - ?a" using mod_add_eq_imp_eq [of ?a "k - ?a" N "k' - ?a"] assms(3) by simp
  with d(1,2) show ?thesis by simp
qed

lemma window_exists:
  assumes "b < N" "N \<le> a_kp A"
  obtains k where "window A N k" "k mod N = b"
proof -
  define m r where "m = a_kp A div N" and "r = a_kp A mod N"
  have kp: "a_kp A = N * m + r" "r < N" using assms by (simp_all add: m_def r_def)
  have "0 < m" using assms by (simp add: m_def div_greater_zero_iff)
  then obtain m' where m': "m = Suc m'" by (cases m) auto
  show ?thesis
  proof (cases "b \<le> r")
    case True
    then have "window A N (N * m + b)" using kp assms(1) unfolding window_def by linarith
    then show ?thesis using that [of "N * m + b"] assms(1) by simp
  next
    case False
    then have "window A N (N * m' + b)" using kp m' assms(1) by (simp add: window_def)
    then show ?thesis using that [of "N * m' + b"] assms(1) by simp
  qed
qed

lemma pend_Nil [simp]: "pend [] b = 0"
  by (simp add: pend_def)

lemma pend_Cons [simp]: "pend ((b', i, j) # P) b = (if b' = b then j - i else 0) + pend P b"
  by (simp add: pend_def)

lemma pend_zero:
  assumes "pend P b = 0" "\<And>i j. (b, i, j) \<in> set P \<Longrightarrow> i < j"
  shows "(b, i, j) \<notin> set P"
  using assms by (force simp: pend_def)

lemma pend_remove1:
  assumes "(b, i, j) \<in> set P"
  shows "pend P b' = pend (remove1 (b, i, j) P) b' + (if b' = b then j - i else 0)"
  using assms by (induction P) (auto simp: pend_def)

section \<open>Reading the cursors\<close>

lemma bits_pos: "1 \<le> E \<Longrightarrow> 0 < bitsToHold E"
  by (subst bitsToHold.simps) simp

lemma static_bits:
  assumes "bw_static (q :: ('w::len, 'a) bwos)"
  shows "bw_entriesPerBlock q < 2 ^ bw_bits q" "0 < bw_bits q" "bw_bits q < LENGTH('w)" "0 < bw_num q"
  using assms bitsToHold_upper [of "bw_entriesPerBlock q"] bits_pos [of "bw_entriesPerBlock q"] by (auto simp: bw_static_def bw_bits_def)

lemma bw_index_cur:
  assumes "bw_static (q :: ('w::len, 'a) bwos)" "v < 2 ^ (LENGTH('w) - bw_bits q)" "i \<le> bw_entriesPerBlock q"
  shows "bw_index q (cur (bw_bits q) v i) = i"
proof -
  note b = static_bits [OF assms(1)]
  have i: "i < 2 ^ bw_bits q" using b(1) assms(3) by simp
  also have "(2 :: nat) ^ bw_bits q \<le> 2 ^ LENGTH('w)" using b(3) by (intro power_increasing) simp_all
  finally have "unat (of_nat i :: 'w word) = i" by (rule unat_of_nat_small)
  moreover have "cursor_index (bw_bits q) (cur (bw_bits q) v i :: 'w word) = of_nat i"
    using index_cur [of "bw_bits q" v i, where 'w = 'w] b(3) assms(2) i by simp
  ultimately show ?thesis by (simp only: bw_index_def)
qed

lemma bw_version_cur:
  assumes "bw_static (q :: ('w::len, 'a) bwos)" "v < 2 ^ (LENGTH('w) - bw_bits q)" "i \<le> bw_entriesPerBlock q"
  shows "bw_version q (cur (bw_bits q) v i) = of_nat v"
  using version_cur [of "bw_bits q" v i, where 'w = 'w] assms static_bits [OF assms(1)] by (simp add: bw_version_def)

lemma of_nat_version_eq:
  assumes "0 < n" "n < LENGTH('w::len)" "v \<le> 2 ^ (LENGTH('w) - n)" "v' \<le> 2 ^ (LENGTH('w) - n)"
  shows "(of_nat v :: 'w word) = of_nat v' \<longleftrightarrow> v = v'"
proof -
  have "(2 :: nat) ^ (LENGTH('w) - n) < 2 ^ LENGTH('w)" using assms(1,2) by (intro power_strict_increasing) simp_all
  then have "unat (of_nat v :: 'w word) = v" "unat (of_nat v' :: 'w word) = v'"
    using assms(3,4) by (intro unat_of_nat_small; linarith)+
  then show ?thesis by (metis)
qed

lemma rep_static: "bw_rep A P q \<Longrightarrow> bw_static q"
  by (simp add: bw_rep_def)

lemma rep_num:
  fixes q :: "('w::len, 'a) bwos"
  assumes "bw_rep A P q"
  shows "bw_num q \<le> a_kc A" "a_kc A \<le> a_kp A" "a_kp A \<le> a_kc A + bw_num q" "a_kp A div bw_num q < 2 ^ (LENGTH('w) - bw_bits q)"
    "a_c A \<le> bw_entriesPerBlock q" "a_d A \<le> a_com A (bw_entriesPerBlock q) (a_kc A)"
    "a_kp A = a_kc A + bw_num q \<Longrightarrow> a_d A = bw_entriesPerBlock q"
    "bw_producer q = a_kp A mod bw_num q" "bw_consumer q = a_kc A mod bw_num q"
  using assms by (auto simp: bw_rep_def a_ok_def)

lemma rep_block: "bw_rep A P q \<Longrightarrow> window A (bw_num q) k \<Longrightarrow>
    block_ok (bw_bits q) (bw_entriesPerBlock q) (bw_num q) A P k (bw_block q (k mod bw_num q))"
  by (simp add: bw_rep_def)

lemma window_version:
  fixes q :: "('w::len, 'a) bwos"
  assumes "bw_rep A P q" "k \<le> a_kp A"
  shows "k div bw_num q < 2 ^ (LENGTH('w) - bw_bits q)"
  using rep_num(4) [OF assms(1)] assms(2) by (meson div_le_mono le_less_trans)

lemma window_kp: "bw_rep A P q \<Longrightarrow> window A (bw_num q) (a_kp A)"
  using static_bits(4) [OF rep_static] by (auto simp: window_def)

lemma com_le: "bw_rep A P q \<Longrightarrow> a_com A (bw_entriesPerBlock q) k \<le> bw_entriesPerBlock q"
  using rep_num(5) [of A P q] by (simp add: a_com_def)

text \<open>What is read off a block in the window.\<close>

lemma rep_reads:
  fixes q :: "('w::len, 'a) bwos"
  assumes rep: "bw_rep A P q" and k: "window A (bw_num q) k"
  defines "b \<equiv> bw_block q (k mod bw_num q)" and "E \<equiv> bw_entriesPerBlock q"
  shows "bw_index q (bb_committed b) = a_com A E k" "bw_index q (bb_reserved b) = a_res A E k"
    "bw_version q (bb_reserved b) = of_nat (k div bw_num q)" "bw_version q (bb_committed b) = of_nat (k div bw_num q)"
    "length (bb_entries b) = E" "bb_isHead b = (k mod bw_num q = 0)" "a_res A E k \<le> E"
    "a_kc A < k \<Longrightarrow> a_r A k \<le> a_com A E k"
proof -
  have b: "block_ok (bw_bits q) E (bw_num q) A P k b" unfolding b_def E_def by (rule rep_block [OF rep k])
  have v: "k div bw_num q < 2 ^ (LENGTH('w) - bw_bits q)" using window_version [OF rep] k by (simp add: window_def)
  have c: "a_com A E k \<le> E" unfolding E_def by (rule com_le [OF rep])
  show "a_kc A < k \<Longrightarrow> a_r A k \<le> a_com A E k" using b by (simp add: block_ok_def)
  then show r: "a_res A E k \<le> E" using c by (auto simp: a_res_def)
  show "bw_index q (bb_committed b) = a_com A E k" "bw_index q (bb_reserved b) = a_res A E k"
    "bw_version q (bb_reserved b) = of_nat (k div bw_num q)" "bw_version q (bb_committed b) = of_nat (k div bw_num q)"
    using b bw_index_cur [OF rep_static [OF rep] v] bw_version_cur [OF rep_static [OF rep] v] c r by (simp_all add: block_ok_def E_def)
  show "length (bb_entries b) = E" "bb_isHead b = (k mod bw_num q = 0)" using b by (simp_all add: block_ok_def)
qed

lemma bw_block_upd: "b < bw_num q \<Longrightarrow> bw_block (bw_upd q b f) b' = (if b' = b then f (bw_block q b) else bw_block q b')"
  by (simp add: bw_block_def bw_upd_def)

lemma bw_upd_frame [simp]:
  "bw_entriesPerBlock (bw_upd q b f) = bw_entriesPerBlock q" "bw_num (bw_upd q b f) = bw_num q"
  "bw_producer (bw_upd q b f) = bw_producer q" "bw_consumer (bw_upd q b f) = bw_consumer q"
  "bw_stealPosition (bw_upd q b f) = bw_stealPosition q" "bw_bits (bw_upd q b f) = bw_bits q"
  by (simp_all add: bw_upd_def bw_bits_def)

lemma bw_field_frame [simp]:
  "bw_bits (q\<lparr>bw_producer := x\<rparr>) = bw_bits q" "bw_bits (q\<lparr>bw_consumer := x\<rparr>) = bw_bits q"
  "bw_bits (q\<lparr>bw_stealPosition := y\<rparr>) = bw_bits q" "bw_block (q\<lparr>bw_producer := x\<rparr>) b = bw_block q b"
  "bw_block (q\<lparr>bw_consumer := x\<rparr>) b = bw_block q b" "bw_block (q\<lparr>bw_stealPosition := y\<rparr>) b = bw_block q b"
  by (simp_all add: bw_bits_def bw_block_def)

text \<open>One block changes: the representation has to be shown for that block, and the numbers of the
  others must read the same.\<close>

lemma rep_upd:
  fixes q :: "('w::len, 'a) bwos"
  assumes rep: "bw_rep A P q" and b: "b < bw_num q"
    and ok: "a_ok A' (bw_entriesPerBlock q) (bw_num q) (bw_bits q) LENGTH('w)"
    and f: "\<And>k. window A' (bw_num q) k \<Longrightarrow> k mod bw_num q = b \<Longrightarrow>
      block_ok (bw_bits q) (bw_entriesPerBlock q) (bw_num q) A' P' k (f (bw_block q b))"
    and other: "\<And>k. window A' (bw_num q) k \<Longrightarrow> k mod bw_num q \<noteq> b \<Longrightarrow> window A (bw_num q) k \<and>
      (block_ok (bw_bits q) (bw_entriesPerBlock q) (bw_num q) A P k (bw_block q (k mod bw_num q)) \<longrightarrow>
       block_ok (bw_bits q) (bw_entriesPerBlock q) (bw_num q) A' P' k (bw_block q (k mod bw_num q)))"
    and P: "\<And>x i j. (x, i, j) \<in> set P' \<Longrightarrow> x < bw_num q"
    and pc: "bw_producer q' = a_kp A' mod bw_num q" "bw_consumer q' = a_kc A' mod bw_num q"
    and q': "bw_blocks q' = bw_blocks (bw_upd q b f)" "bw_entriesPerBlock q' = bw_entriesPerBlock q"
  shows "bw_rep A' P' q'"
proof -
  have fr: "bw_num q' = bw_num q" "bw_bits q' = bw_bits q" using q' by (simp_all add: bw_bits_def bw_upd_def)
  have bl: "bw_block q' x = (if x = b then f (bw_block q b) else bw_block q x)" for x
    using q'(1) bw_block_upd [OF b, of f x] by (simp add: bw_block_def)
  have "bw_static q'" using rep_static [OF rep] fr q'(2) by (simp add: bw_static_def)
  moreover have "block_ok (bw_bits q) (bw_entriesPerBlock q) (bw_num q) A' P' k (bw_block q' (k mod bw_num q))"
    if "window A' (bw_num q) k" for k
    using f [OF that] other [OF that] rep_block [OF rep, of k] by (cases "k mod bw_num q = b") (auto simp: bl)
  ultimately show ?thesis using ok P pc by (simp add: bw_rep_def fr q'(2))
qed

section \<open>Pushing\<close>

lemma window_same: "a_kp A' = a_kp A \<Longrightarrow> window A' N k = window A N k"
  by (simp add: window_def)

lemma cont_last:
  assumes "a_kp A' = a_kp A" "a_kc A' = a_kc A" "a_kc A \<le> a_kp A" "a_slice A' q' (a_kp A) = a_slice A q (a_kp A) @ ys"
    "\<And>k. a_kc A \<le> k \<Longrightarrow> k < a_kp A \<Longrightarrow> a_slice A' q' k = a_slice A q k"
  shows "a_cont A' q' = a_cont A q @ ys"
proof -
  have "map (a_slice A' q') [a_kc A..<a_kp A] = map (a_slice A q) [a_kc A..<a_kp A]" using assms(5) by simp
  moreover have "[a_kc A..<Suc (a_kp A)] = [a_kc A..<a_kp A] @ [a_kp A]" using assms(3) by simp
  ultimately show ?thesis unfolding a_cont_def assms(1,2) by (simp only: map_append concat_append) (simp add: assms(4))
qed

lemma block_ok_append:
  assumes "block_ok n E N A P k b" "a_com A' E k = c'" "a_com A E k \<le> c'" "a_res A' E k = a_res A E k"
    "a_cons A' E N k = a_cons A E N k" "a_kc A' = a_kc A" "a_r A' k = a_r A k" "length es = E"
  shows "block_ok n E N A' P k (b\<lparr>bb_entries := es, bb_committed := cur n (k div N) c'\<rparr>)"
  using assms unfolding block_ok_def by (auto intro: le_trans)

lemma rep_append:
  fixes q :: "('w::len, 'a) bwos"
  assumes rep: "bw_rep A P q" and room: "a_c A + length ys \<le> bw_entriesPerBlock q"
  defines "b \<equiv> a_kp A mod bw_num q" and "A' \<equiv> A\<lparr>a_c := a_c A + length ys\<rparr>"
  defines "es \<equiv> bb_entries (bw_block q b)"
  defines "q' \<equiv> bw_upd q b (\<lambda>k. k\<lparr>bb_entries := take (a_c A) es @ ys @ drop (a_c A + length ys) es,
      bb_committed := cur (bw_bits q) (a_kp A div bw_num q) (a_c A + length ys)\<rparr>)"
  shows "bw_rep A' P q'" "a_cont A' q' = a_cont A q @ ys"
    "(x, i, j) \<in> set P \<Longrightarrow> segment (bb_entries (bw_block q' x)) i j = segment (bb_entries (bw_block q x)) i j"
proof -
  let ?E = "bw_entriesPerBlock q" let ?N = "bw_num q"
  note num = rep_num [OF rep] and kp = window_kp [OF rep]
  note rd = rep_reads [OF rep kp]
  have bN: "b < ?N" using static_bits(4) [OF rep_static [OF rep]] by (simp add: b_def)
  have bkp: "block_ok (bw_bits q) ?E ?N A P (a_kp A) (bw_block q b)" unfolding b_def by (rule rep_block [OF rep kp])
  have els: "length es = ?E" using rd(5) by (simp add: es_def b_def)
  show rep': "bw_rep A' P q'"
    unfolding q'_def
  proof (rule rep_upd [OF rep bN])
    show "a_ok A' ?E ?N (bw_bits q) LENGTH('w)" using num room unfolding A'_def a_ok_def a_com_def by auto
  next
    fix k assume k: "window A' ?N k" "k mod ?N = b"
    then have "k = a_kp A" using window_unique [OF _ kp] by (simp add: A'_def b_def window_def)
    then show "block_ok (bw_bits q) ?E ?N A' P k ((bw_block q b)\<lparr>bb_entries := take (a_c A) es @ ys @ drop (a_c A + length ys) es,
      bb_committed := cur (bw_bits q) (a_kp A div ?N) (a_c A + length ys)\<rparr>)"
      by (simp only:, intro block_ok_append [OF bkp])
        (use els room in \<open>simp_all add: A'_def a_com_def a_res_def a_cons_def\<close>)
  next
    fix k assume k: "window A' ?N k" "k mod ?N \<noteq> b"
    then have "k < a_kp A" by (auto simp: A'_def window_def b_def intro: le_neq_implies_less)
    then show "window A ?N k \<and> (block_ok (bw_bits q) ?E ?N A P k (bw_block q (k mod ?N)) \<longrightarrow> block_ok (bw_bits q) ?E ?N A' P k (bw_block q (k mod ?N)))"
      using k(1) by (simp add: A'_def window_def block_ok_def a_com_def a_res_def a_cons_def)
  next
    fix x i j assume "(x, i, j) \<in> set P"
    then show "x < ?N" using rep by (simp add: bw_rep_def) blast
  qed (use num in \<open>simp_all add: A'_def\<close>)
  have ent: "bb_entries (bw_block q' x) = (if x = b then take (a_c A) es @ ys @ drop (a_c A + length ys) es else bb_entries (bw_block q x))" for x
    by (simp add: q'_def bw_block_upd [OF bN])
  have N': "bw_num q' = ?N" "bw_entriesPerBlock q' = ?E" by (simp_all add: q'_def)
  have lo: "a_lo A (a_kp A) \<le> a_c A"
    using rd(8) num(6) num(2) by (auto simp: a_lo_def a_com_def)
  have last: "a_slice A' q' (a_kp A) = a_slice A q (a_kp A) @ ys"
    using segment_append [of "a_c A" ys es "a_lo A (a_kp A)"] room els lo
    unfolding a_slice_def N' ent b_def [symmetric] by (simp add: A'_def a_com_def a_lo_def es_def split: if_splits)
  have old: "a_slice A' q' k = a_slice A q k" if "a_kc A \<le> k" "k < a_kp A" for k
  proof (cases "k mod ?N = b")
    case False
    then show ?thesis using that by (simp add: a_slice_def N' ent A'_def a_com_def a_lo_def)
  next
    case True
    then have "\<not> window A ?N k" using window_unique [OF _ kp] that unfolding b_def by fastforce
    then have "k = a_kc A" "a_d A = ?E" using that num(3,7) by (auto simp: window_def)
    then show ?thesis using that els by (simp add: a_slice_def N' ent True A'_def a_com_def a_lo_def)
  qed
  show "a_cont A' q' = a_cont A q @ ys"
  proof (rule cont_last)
    show "a_kp A' = a_kp A" "a_kc A' = a_kc A" by (simp_all add: A'_def)
  qed (fact num(2) last old)+
  show "segment (bb_entries (bw_block q' x)) i j = segment (bb_entries (bw_block q x)) i j" if "(x, i, j) \<in> set P"
  proof (cases "x = b")
    case True
    with that have "j \<le> a_c A" using bkp by (simp add: block_ok_def a_com_def b_def [symmetric])
    then show ?thesis using True els room segment_below [of "a_c A" es j] by (simp add: ent es_def)
  qed (simp add: ent)
qed

text \<open>The block after the producer's, in its previous round.\<close>

lemma oldest_block:
  assumes rep: "bw_rep A P q"
  defines "k' \<equiv> Suc (a_kp A) - bw_num q"
  shows "window A (bw_num q) k'" "k' mod bw_num q = Suc (a_kp A) mod bw_num q" "k' div bw_num q = Suc (a_kp A) div bw_num q - 1"
    "1 \<le> Suc (a_kp A) div bw_num q" "k' \<le> Suc (a_kc A)" "k' + bw_num q = Suc (a_kp A)"
    "bw_next q (a_kp A mod bw_num q) = k' mod bw_num q"
proof -
  note num = rep_num [OF rep]
  have N: "0 < bw_num q" "2 \<le> bw_num q" using rep_static [OF rep] by (auto simp: bw_static_def)
  have le: "bw_num q \<le> Suc (a_kp A)" using num(1,2) by simp
  then show e: "k' + bw_num q = Suc (a_kp A)" by (simp add: k'_def)
  show "window A (bw_num q) k'" "k' \<le> Suc (a_kc A)" using e N num(3) by (auto simp: window_def)
  show m: "k' mod bw_num q = Suc (a_kp A) mod bw_num q" by (metis e mod_add_self2)
  show "k' div bw_num q = Suc (a_kp A) div bw_num q - 1" "1 \<le> Suc (a_kp A) div bw_num q"
    using div_add_self2 [of "bw_num q" k'] N by (simp_all add: e)
  show "bw_next q (a_kp A mod bw_num q) = k' mod bw_num q" using mod_step [OF N(1), of "a_kp A"] m by (simp add: bw_next_def)
qed

lemma writable_iff:
  fixes q :: "('w::len, 'a) bwos"
  assumes rep: "bw_rep A P q"
  defines "k' \<equiv> Suc (a_kp A) - bw_num q" and "V \<equiv> Suc (a_kp A) div bw_num q"
  shows "isNextBlockWritable q (k' mod bw_num q) (bw_version q (cur (bw_bits q) V 0)) \<longleftrightarrow>
    V < 2 ^ (LENGTH('w) - bw_bits q) \<and> (k' < a_kc A \<or> k' = a_kc A \<and> a_d A = bw_entriesPerBlock q) \<and> pend P (k' mod bw_num q) = 0"
proof -
  let ?E = "bw_entriesPerBlock q" let ?N = "bw_num q" let ?n = "bw_bits q" let ?b = "bw_block q (k' mod bw_num q)"
  let ?M = "2 ^ (LENGTH('w) - ?n) :: nat"
  note num = rep_num [OF rep] and st = rep_static [OF rep]
  note bits = static_bits [OF st] and old = oldest_block [OF rep, folded k'_def V_def]
  have ok: "block_ok ?n ?E ?N A P k' ?b" by (rule rep_block [OF rep old(1)])
  have k'M: "k' div ?N < ?M" using window_version [OF rep] old(1) by (simp add: window_def)
  obtain v e where cons: "a_cons A ?E ?N k' = (v, e)" by (cases "a_cons A ?E ?N k'")
  have ve: "v \<le> k' div ?N" "e \<le> ?E"
    using cons num(6) com_le [OF rep, of "a_kc A"] by (auto simp: a_cons_def split: if_splits)
  have ci: "bw_index q (bb_consumed ?b) = e" "bw_version q (bb_consumed ?b) = of_nat v"
    using ok cons bw_index_cur [OF st, of v e] bw_version_cur [OF st, of v e] ve k'M by (simp_all add: block_ok_def)
  have res: "a_res A ?E k' \<le> ?E" by (rule rep_reads(7) [OF rep old(1)])
  have si: "bw_index q (bb_stolen ?b) = a_res A ?E k' - pend P (k' mod ?N)" "bw_version q (bb_stolen ?b) = of_nat (k' div ?N)"
    using ok bw_index_cur [OF st k'M, of "a_res A ?E k' - pend P (k' mod ?N)"]
      bw_version_cur [OF st k'M, of "a_res A ?E k' - pend P (k' mod ?N)"] res by (simp_all add: block_ok_def)
  show ?thesis
  proof (cases "V < ?M")
    case True
    have "bw_version q (cur ?n V 0) = of_nat V" using bw_version_cur [OF st True] by simp
    moreover have "of_nat V - 1 = (of_nat (k' div ?N) :: 'w word)" using old(3,4) by (simp add: of_nat_diff)
    moreover have "(of_nat v :: 'w word) = of_nat (k' div ?N) \<longleftrightarrow> v = k' div ?N"
      using of_nat_version_eq [of ?n v "k' div ?N", where 'w = 'w] bits ve(1) k'M by simp
    ultimately have "isNextBlockWritable q (k' mod ?N) (bw_version q (cur ?n V 0)) \<longleftrightarrow>
        e = ?E \<and> v = k' div ?N \<and> a_res A ?E k' - pend P (k' mod ?N) = ?E"
      by (auto simp: isNextBlockWritable_def Let_def ci si)
    also have "\<dots> \<longleftrightarrow> (k' < a_kc A \<or> k' = a_kc A \<and> a_d A = ?E) \<and> pend P (k' mod ?N) = 0"
    proof (cases "a_kc A < k'")
      case True
      then have "?N \<le> k'" using num(1) by simp
      then have "0 < k' div ?N" using bits(4) by (simp add: div_greater_zero_iff)
      then show ?thesis using cons True by (auto simp: a_cons_def)
    next
      case False
      have "1 \<le> ?E" using st by (simp add: bw_static_def)
      then show ?thesis using cons False ok by (auto simp: a_cons_def a_res_def block_ok_def split: if_splits)
    qed
    finally show ?thesis using True by simp
  next
    case False
    have "V \<le> ?M" using num(4) div_step [OF bits(4), of "a_kp A"] by (simp add: V_def split: if_splits)
    then have V: "V = ?M" using False by simp
    have p: "?M * 2 ^ ?n = (2 :: nat) ^ LENGTH('w)" using bits(3) by (simp flip: power_add)
    have "cur ?n V 0 = (of_nat (2 ^ LENGTH('w)) :: 'w word)" unfolding cur_def V using p by simp
    then have "cur ?n V 0 = (0 :: 'w word)" by (simp add: exp_eq_zero_iff)
    then have "bw_version q (cur ?n V 0) - 1 = (- 1 :: 'w word)" by (simp add: bw_version_def cursor_version_def)
    moreover have "(of_nat v :: 'w word) \<noteq> - 1"
    proof
      assume "(of_nat v :: 'w word) = - 1"
      then have "unat (of_nat v :: 'w word) = 2 ^ LENGTH('w) - 1" by (simp add: unsigned_minus_1_eq_mask mask_eq_exp_minus_1)
      moreover have "v < ?M" using ve(1) k'M by simp
      moreover have "?M \<le> 2 ^ LENGTH('w)" by (intro power_increasing) simp_all
      moreover have "?M + ?M \<le> 2 ^ LENGTH('w)"
      proof -
        have "(2 :: nat) \<le> 2 ^ ?n" using bits(2) by (cases ?n) auto
        then have "?M * 2 \<le> ?M * 2 ^ ?n" by (rule mult_le_mono2)
        then show ?thesis using p by simp
      qed
      ultimately show False by (simp add: unat_of_nat_small)
    qed
    ultimately show ?thesis using V by (simp add: isNextBlockWritable_def Let_def ci)
  qed
qed

lemma rep_advance:
  fixes q :: "('w::len, 'a) bwos"
  assumes rep: "bw_rep A P q" and full: "a_c A = bw_entriesPerBlock q"
    and adv: "advanceProducer q (a_kp A mod bw_num q) (cur (bw_bits q) (a_kp A div bw_num q) (bw_entriesPerBlock q)) = (ok, q')"
  defines "A' \<equiv> A\<lparr>a_kp := Suc (a_kp A), a_c := 0, a_r := (a_r A)(Suc (a_kp A) := 0)\<rparr>"
  shows "\<not> ok \<Longrightarrow> q' = q" "ok \<Longrightarrow> bw_rep A' P q'" "ok \<Longrightarrow> a_cont A' q' = a_cont A q"
    "bb_entries (bw_block q' x) = bb_entries (bw_block q x)"
proof -
  let ?E = "bw_entriesPerBlock q" let ?N = "bw_num q" let ?n = "bw_bits q"
  define k' V where "k' = Suc (a_kp A) - ?N" and "V = Suc (a_kp A) div ?N"
  note num = rep_num [OF rep] and st = rep_static [OF rep]
  note bits = static_bits [OF st] and old = oldest_block [OF rep, folded k'_def V_def]
  note ok' = rep_block [OF rep old(1)]
  have nbN: "k' mod ?N < ?N" using bits(4) by simp
  have E: "1 \<le> ?E" "?E < 2 ^ ?n" using st bits(1) by (simp_all add: bw_static_def)
  have round: "cursor_nextRound ?n (cur ?n (a_kp A div ?N) ?E) (bb_isHead (bw_block q (k' mod ?N))) = (cur ?n V 0 :: 'w word)"
    using nextRound_cur [of ?n "a_kp A div ?N" ?E, where 'w = 'w] bits(3) num(4) E(2) rep_reads(6) [OF rep old(1)]
      div_step [OF bits(4), of "a_kp A"] old(2) by (simp add: V_def)
  define f where "f = (\<lambda>k :: ('w, 'a) bwos_block. k\<lparr>bb_committed := cur ?n V 0, bb_stolen := cur ?n V 0, bb_reserved := cur ?n V 0\<rparr>)"
  have eq: "(ok, q') = (if isNextBlockWritable q (k' mod ?N) (bw_version q (cur ?n V 0))
      then (True, (bw_upd q (k' mod ?N) f)\<lparr>bw_producer := k' mod ?N\<rparr>) else (False, q))"
    using adv unfolding advanceProducer_def Let_def old(7) round f_def by auto
  then show "\<not> ok \<Longrightarrow> q' = q" by (auto split: if_splits)
  show ent: "bb_entries (bw_block q' x) = bb_entries (bw_block q x)" for x
    using eq by (auto simp: f_def bw_block_upd [OF nbN] split: if_splits)
  show "bw_rep A' P q'" if ok
  proof -
    have w: "V < 2 ^ (LENGTH('w) - ?n)" "k' < a_kc A \<or> k' = a_kc A \<and> a_d A = ?E" "pend P (k' mod ?N) = 0"
      and q': "q' = (bw_upd q (k' mod ?N) f)\<lparr>bw_producer := k' mod ?N\<rparr>"
      using eq \<open>ok\<close> writable_iff [OF rep] unfolding k'_def [symmetric] V_def [symmetric] by (auto split: if_splits)
    have none: "(k' mod ?N, i, j) \<notin> set P" for i j
      using ok' by (intro pend_zero [OF w(3)]) (auto simp: block_ok_def)
    have V1: "V - 1 = k' div ?N" using old(3) by simp
    show ?thesis unfolding q'
    proof (rule rep_upd [OF rep nbN, where f = f])
      show "a_ok A' ?E ?N ?n LENGTH('w)" using num w full old(6) unfolding A'_def a_ok_def a_com_def V_def by (auto split: if_splits)
    next
      fix k assume k: "window A' ?N k" "k mod ?N = k' mod ?N"
      have "window A' ?N (Suc (a_kp A))" using bits(4) by (simp add: A'_def window_def)
      then have "k = Suc (a_kp A)" using window_unique [OF k(1)] k(2) old(2) by simp
      then show "block_ok ?n ?E ?N A' P k (f (bw_block q (k' mod ?N)))"
        using ok' w(2,3) none num(2) old(2) V1 unfolding block_ok_def f_def
        by (auto simp: A'_def a_com_def a_res_def a_cons_def V_def split: if_splits)
    next
      fix k assume k: "window A' ?N k" "k mod ?N \<noteq> k' mod ?N"
      then have "window A ?N k" "k \<le> a_kp A" using old(2) by (auto simp: A'_def window_def intro: le_SucE)
      moreover have "a_com A' ?E k = a_com A ?E k" using \<open>k \<le> a_kp A\<close> full by (simp add: A'_def a_com_def)
      moreover have "a_r A' k = a_r A k" using \<open>k \<le> a_kp A\<close> by (simp add: A'_def)
      ultimately show "window A ?N k \<and> (block_ok ?n ?E ?N A P k (bw_block q (k mod ?N)) \<longrightarrow> block_ok ?n ?E ?N A' P k (bw_block q (k mod ?N)))"
        by (simp add: block_ok_def a_res_def a_cons_def) (simp add: A'_def)
    next
      fix x i j assume "(x, i, j) \<in> set P"
      then show "x < ?N" using rep by (simp add: bw_rep_def) blast
    qed (use num old in \<open>simp_all add: A'_def\<close>)
  qed
  show "a_cont A' q' = a_cont A q" if ok
  proof -
    have N': "bw_num q' = ?N" "bw_entriesPerBlock q' = ?E" using eq \<open>ok\<close> by (auto split: if_splits)
    have "a_slice A' q' k = a_slice A q k" if "k \<le> a_kp A" for k
      using that full num(2) by (simp add: a_slice_def N' ent A'_def a_com_def a_lo_def)
    then have "map (a_slice A' q') [a_kc A..<Suc (a_kp A)] = map (a_slice A q) [a_kc A..<Suc (a_kp A)]" by (auto simp: less_Suc_eq_le)
    moreover have "a_slice A' q' (Suc (a_kp A)) = []" using num(2) by (simp add: a_slice_def A'_def a_com_def a_lo_def)
    moreover have "[a_kc A..<Suc (Suc (a_kp A))] = [a_kc A..<Suc (a_kp A)] @ [Suc (a_kp A)]" using num(2) by simp
    moreover have "a_kp A' = Suc (a_kp A)" "a_kc A' = a_kc A" by (simp_all add: A'_def)
    ultimately show ?thesis unfolding a_cont_def by (simp only: map_append concat_append) simp
  qed
qed

text \<open>\<open>keeps\<close>: an owner operation turned the entries \<open>a_cont A q\<close> into \<open>xs\<close> and left the entries under the
  thieves' claims alone.\<close>

definition keeps :: "claim list \<Rightarrow> ('w::len, 'a) bwos \<Rightarrow> ('w, 'a) bwos \<Rightarrow> 'a list \<Rightarrow> bool" where
  "keeps P q q' xs \<longleftrightarrow> (\<exists>A'. bw_rep A' P q' \<and> a_cont A' q' = xs)
     \<and> (\<forall>b i j. (b, i, j) \<in> set P \<longrightarrow> segment (bb_entries (bw_block q' b)) i j = segment (bb_entries (bw_block q b)) i j)"

lemma keepsI:
  "bw_rep A' P q' \<Longrightarrow> a_cont A' q' = xs \<Longrightarrow>
    (\<And>b i j. (b, i, j) \<in> set P \<Longrightarrow> segment (bb_entries (bw_block q' b)) i j = segment (bb_entries (bw_block q b)) i j) \<Longrightarrow> keeps P q q' xs"
  by (auto simp: keeps_def)

lemma keeps_via:
  assumes "\<And>b. bb_entries (bw_block q1 b) = bb_entries (bw_block q b)" "keeps P q1 q' xs"
  shows "keeps P q q' xs"
  using assms by (simp add: keeps_def)

lemma keeps_trans:
  assumes "\<And>b i j. (b, i, j) \<in> set P \<Longrightarrow> segment (bb_entries (bw_block q1 b)) i j = segment (bb_entries (bw_block q b)) i j"
    "keeps P q1 q' xs"
  shows "keeps P q q' xs"
  using assms by (simp add: keeps_def)

lemma rep_producer:
  assumes "bw_rep A P q"
  shows "bw_producer q = a_kp A mod bw_num q" "bw_index q (bb_committed (bw_block q (a_kp A mod bw_num q))) = a_c A"
    "bb_committed (bw_block q (a_kp A mod bw_num q)) = cur (bw_bits q) (a_kp A div bw_num q) (a_c A)"
    "length (bb_entries (bw_block q (a_kp A mod bw_num q))) = bw_entriesPerBlock q" "a_c A \<le> bw_entriesPerBlock q"
  using rep_num(5,8) [OF assms] rep_reads(1,5) [OF assms window_kp [OF assms]] rep_block [OF assms window_kp [OF assms]]
  by (simp_all add: a_com_def block_ok_def)

lemma push_into:
  assumes rep: "bw_rep A P q" and room: "a_c A < bw_entriesPerBlock q"
  shows "\<exists>q'. bwos_push_loop (Suc fuel) q v = Some (True, q') \<and> keeps P q q' (a_cont A q @ [v])"
proof -
  let ?b = "a_kp A mod bw_num q" let ?es = "bb_entries (bw_block q ?b)"
  note pr = rep_producer [OF rep]
  have upd: "?es[a_c A := v] = take (a_c A) ?es @ [v] @ drop (a_c A + length [v]) ?es"
    using room pr(4) by (simp add: upd_conv_take_nth_drop)
  have add: "cursor_addIndex (cur (bw_bits q) (a_kp A div bw_num q) (a_c A)) 1 = cur (bw_bits q) (a_kp A div bw_num q) (a_c A + length [v])"
    using addIndex_cur [of "bw_bits q" "a_kp A div bw_num q" "a_c A" 1] by simp
  define q' where "q' = bw_upd q ?b (\<lambda>k. k\<lparr>bb_entries := take (a_c A) ?es @ [v] @ drop (a_c A + length [v]) ?es,
      bb_committed := cur (bw_bits q) (a_kp A div bw_num q) (a_c A + length [v])\<rparr>)"
  have "bwos_push_loop (Suc fuel) q v = Some (True, bw_upd q ?b (\<lambda>k. k\<lparr>bb_entries := (bb_entries k)[a_c A := v],
      bb_committed := cursor_addIndex (cur (bw_bits q) (a_kp A div bw_num q) (a_c A)) 1\<rparr>))"
    using room by (simp add: Let_def pr(1,2)) (simp add: pr(3))
  also have "bw_upd q ?b (\<lambda>k. k\<lparr>bb_entries := (bb_entries k)[a_c A := v],
      bb_committed := cursor_addIndex (cur (bw_bits q) (a_kp A div bw_num q) (a_c A)) 1\<rparr>) = q'"
    unfolding q'_def upd [symmetric] add by (simp add: bw_upd_def bw_block_def)
  finally have l: "bwos_push_loop (Suc fuel) q v = Some (True, q')" .
  have "a_c A + length [v] \<le> bw_entriesPerBlock q" using room by simp
  note ap = rep_append [OF rep this, folded q'_def]
  show ?thesis using l keepsI [OF ap(1,2)] ap(3) by blast
qed

lemma bwos_push_law:
  assumes rep: "bw_rep A P q"
  shows "\<exists>ok q'. bwos_push_loop 2 q v = Some (ok, q') \<and> keeps P q q' (a_cont A q @ (if ok then [v] else []))"
proof (cases "a_c A < bw_entriesPerBlock q")
  case True
  from push_into [OF rep this, of 1 v] show ?thesis by (auto simp: numeral_2_eq_2 simp del: bwos_push_loop.simps)
next
  case False
  note pr = rep_producer [OF rep]
  have full: "a_c A = bw_entriesPerBlock q" using False pr(5) by simp
  let ?p = "advanceProducer q (a_kp A mod bw_num q) (cur (bw_bits q) (a_kp A div bw_num q) (bw_entriesPerBlock q))"
  obtain ok q1 where a: "?p = (ok, q1)" by (cases ?p)
  note adv = rep_advance [OF rep full a]
  have idx: "bw_index q (cur (bw_bits q) (a_kp A div bw_num q) (bw_entriesPerBlock q)) = bw_entriesPerBlock q"
    using pr(2,3) full by simp
  have l: "bwos_push_loop (Suc (Suc 0)) q v = (if ok then bwos_push_loop (Suc 0) q1 v else Some (False, q1))"
    by (subst bwos_push_loop.simps) (use full a idx in \<open>simp add: Let_def pr(1,3) split: bool.split del: bwos_push_loop.simps\<close>)
  show ?thesis
  proof (cases ok)
    case True
    let ?A' = "A\<lparr>a_kp := Suc (a_kp A), a_c := 0, a_r := (a_r A)(Suc (a_kp A) := 0)\<rparr>"
    have "bw_entriesPerBlock q1 = bw_entriesPerBlock q"
      using a by (auto simp: advanceProducer_def Let_def split: if_splits)
    then have "a_c ?A' < bw_entriesPerBlock q1" using rep_static [OF rep] by (simp add: bw_static_def)
    from push_into [OF adv(2) [OF True] this, of 0 v] obtain q' where
      "bwos_push_loop (Suc 0) q1 v = Some (True, q')" "keeps P q1 q' (a_cont A q @ [v])" using adv(3) [OF True] by auto
    then show ?thesis using l True keeps_via [OF adv(4)] by (auto simp: numeral_2_eq_2 simp del: bwos_push_loop.simps)
  next
    case False
    then show ?thesis using l adv(1) rep by (auto simp: numeral_2_eq_2 keeps_def simp del: bwos_push_loop.simps)
  qed
qed

lemma bwos_fill_spec:
  "bwos_fill E es i xs = (es', rest, n) \<Longrightarrow> i \<le> E \<Longrightarrow> length es = E \<Longrightarrow>
    n = min (length xs) (E - i) \<and> rest = drop n xs \<and> es' = take i es @ take n xs @ drop (i + n) es"
proof (induction E es i xs arbitrary: es' rest n rule: bwos_fill.induct)
  case (1 E es i)
  then show ?case by simp
next
  case (2 E es i x xs)
  show ?case
  proof (cases "i < E")
    case True
    obtain es1 r1 n1 where f: "bwos_fill E (es[i := x]) (i + 1) xs = (es1, r1, n1)" by (metis prod_cases3)
    then have eq: "es' = es1" "rest = r1" "n = n1 + 1" using "2.prems"(1) True by auto
    have "n1 = min (length xs) (E - (i + 1)) \<and> r1 = drop n1 xs
        \<and> es1 = take (i + 1) (es[i := x]) @ take n1 xs @ drop (i + 1 + n1) (es[i := x])"
      using "2.IH" [OF True f] True "2.prems"(3) by simp
    moreover have "take (i + 1) (es[i := x]) = take i es @ [x]" using True "2.prems"(3) by (simp add: take_Suc_conv_app_nth)
    ultimately show ?thesis using eq True by auto
  next
    case False
    then show ?thesis using "2.prems" by auto
  qed
qed

lemma pushBatch_round:
  fixes q :: "('w::len, 'a) bwos"
  assumes rep: "bw_rep A P q" and fuel: "Suc (length xs) + (if a_c A < bw_entriesPerBlock q then 0 else 1) \<le> Suc fuel"
    and IH: "\<And>A (q :: ('w, 'a) bwos) zs pushed. bw_rep A P q \<Longrightarrow> length zs + (if a_c A < bw_entriesPerBlock q then 0 else 1) \<le> fuel \<Longrightarrow>
      \<exists>n q'. bwos_pushBatch_loop fuel q zs pushed = Some (pushed + n, q') \<and> n \<le> length zs \<and> keeps P q q' (a_cont A q @ take n zs)"
  shows "\<exists>n q'. bwos_pushBatch_loop (Suc fuel) q (x # xs) pushed = Some (pushed + n, q') \<and> n \<le> length (x # xs)
    \<and> keeps P q q' (a_cont A q @ take n (x # xs))"
proof -
  note pr = rep_producer [OF rep]
  let ?b = "a_kp A mod bw_num q" let ?es = "bb_entries (bw_block q ?b)" let ?v = "a_kp A div bw_num q" let ?E = "bw_entriesPerBlock q"
  let ?ys = "x # xs"
  obtain es rest n where f: "bwos_fill ?E ?es (a_c A) ?ys = (es, rest, n)" by (metis prod_cases3)
  note fs = bwos_fill_spec [OF f pr(5,4)]
  have n: "n = min (length ?ys) (?E - a_c A)" "rest = drop n ?ys" "length (take n ?ys) = n" using fs by auto
  define q1 where "q1 = (if n \<noteq> 0 then bw_upd q ?b (\<lambda>k. k\<lparr>bb_entries := es, bb_committed := cursor_addIndex (cur (bw_bits q) ?v (a_c A)) (of_nat n)\<rparr>) else q)"
  let ?A1 = "A\<lparr>a_c := a_c A + n\<rparr>"
  have room: "a_c A + length (take n ?ys) \<le> ?E" using n pr(5) by simp
  have q1: "bw_rep ?A1 P q1" "a_cont ?A1 q1 = a_cont A q @ take n ?ys"
    "\<And>x i j. (x, i, j) \<in> set P \<Longrightarrow> segment (bb_entries (bw_block q1 x)) i j = segment (bb_entries (bw_block q x)) i j"
    "bw_entriesPerBlock q1 = ?E" "bw_num q1 = bw_num q" "bw_bits q1 = bw_bits q"
  proof -
    have add: "cursor_addIndex (cur (bw_bits q) ?v (a_c A)) (of_nat n) = cur (bw_bits q) ?v (a_c A + length (take n ?ys))"
      by (simp only: addIndex_cur n(3))
    have esq: "es = take (a_c A) ?es @ take n ?ys @ drop (a_c A + length (take n ?ys)) ?es" unfolding n(3) by (rule fs [THEN conjunct2, THEN conjunct2])
    have e: "n \<noteq> 0 \<Longrightarrow> q1 = bw_upd q ?b (\<lambda>k. k\<lparr>bb_entries := take (a_c A) ?es @ take n ?ys @ drop (a_c A + length (take n ?ys)) ?es,
        bb_committed := cur (bw_bits q) ?v (a_c A + length (take n ?ys))\<rparr>)"
      unfolding q1_def esq [symmetric] add [symmetric] by simp
    note ap = rep_append [OF rep room]
    show "bw_rep ?A1 P q1" "a_cont ?A1 q1 = a_cont A q @ take n ?ys"
      "\<And>x i j. (x, i, j) \<in> set P \<Longrightarrow> segment (bb_entries (bw_block q1 x)) i j = segment (bb_entries (bw_block q x)) i j"
      using ap e n(3) rep by (cases "n = 0"; simp add: q1_def)+
    show "bw_entriesPerBlock q1 = ?E" "bw_num q1 = bw_num q" "bw_bits q1 = bw_bits q" by (simp_all add: q1_def)
  qed
  have l: "bwos_pushBatch_loop (Suc fuel) q ?ys pushed = (if rest = [] then Some (pushed + n, q1)
      else case advanceProducer q1 ?b (cur (bw_bits q) ?v (a_c A + n)) of (False, q2) \<Rightarrow> Some (pushed + n, q2)
        | (True, q2) \<Rightarrow> bwos_pushBatch_loop fuel q2 rest (pushed + n))"
    unfolding bwos_pushBatch_loop.simps Let_def pr(1,2) f prod.case q1_def by (simp only: pr(3) addIndex_cur)
  show ?thesis
  proof (cases "rest = []")
    case True
    then have "n = length ?ys" using n by simp
    then show ?thesis using l True keeps_trans [OF q1(3) keepsI [OF q1(1,2) refl]] by auto
  next
    case False
    then have full: "a_c A + n = ?E" using n pr(5) by (auto simp: min_def split: if_splits)
    let ?p = "advanceProducer q1 (a_kp ?A1 mod bw_num q1) (cur (bw_bits q1) (a_kp ?A1 div bw_num q1) (bw_entriesPerBlock q1))"
    obtain ok q2 where a: "?p = (ok, q2)" by (cases ?p)
    then have a': "advanceProducer q1 ?b (cur (bw_bits q) ?v (a_c A + n)) = (ok, q2)" using q1(4-6) full by simp
    have "a_c ?A1 = bw_entriesPerBlock q1" using full q1(4) by simp
    note adv = rep_advance [OF q1(1) this a]
    show ?thesis
    proof (cases ok)
      case False
      have "keeps P q q2 (a_cont A q @ take n ?ys)"
        using keeps_trans [OF q1(3) keepsI [OF q1(1,2) refl]] adv(1) [OF False] by auto
      then show ?thesis using l a' False \<open>rest \<noteq> []\<close> n by auto
    next
      case True
      let ?A2 = "?A1\<lparr>a_kp := Suc (a_kp ?A1), a_c := 0, a_r := (a_r ?A1)(Suc (a_kp ?A1) := 0)\<rparr>"
      have E2: "bw_entriesPerBlock q2 = ?E" using a q1(4) by (auto simp: advanceProducer_def Let_def split: if_splits)
      have "1 \<le> ?E" using rep_static [OF rep] by (simp add: bw_static_def)
      then have fu: "length rest + (if a_c ?A2 < bw_entriesPerBlock q2 then 0 else 1) \<le> fuel"
        using fuel n full E2 by (auto split: if_splits)
      have "\<exists>m q'. bwos_pushBatch_loop fuel q2 rest (pushed + n) = Some (pushed + n + m, q') \<and> m \<le> length rest \<and> keeps P q2 q' (a_cont ?A2 q2 @ take m rest)"
        by (rule IH [OF adv(2) [OF True] fu])
      then obtain m q' where m: "bwos_pushBatch_loop fuel q2 rest (pushed + n) = Some (pushed + n + m, q')" "m \<le> length rest"
        "keeps P q2 q' (a_cont ?A2 q2 @ take m rest)" by blast
      have "a_cont ?A2 q2 @ take m rest = a_cont A q @ take (n + m) ?ys"
        using adv(3) [OF True] q1(2) n(2) by (simp add: take_add)
      then have "keeps P q q' (a_cont A q @ take (n + m) ?ys)"
        using keeps_trans [OF q1(3) keeps_via [OF adv(4) m(3)]] by simp
      then show ?thesis using l a' True \<open>rest \<noteq> []\<close> m n by (intro exI [of _ "n + m"] exI [of _ q']) auto
    qed
  qed
qed

lemma bwos_pushBatch_law:
  "bw_rep A P q \<Longrightarrow> length xs + (if a_c A < bw_entriesPerBlock q then 0 else 1) \<le> fuel \<Longrightarrow>
    \<exists>n q'. bwos_pushBatch_loop fuel q xs pushed = Some (pushed + n, q') \<and> n \<le> length xs \<and> keeps P q q' (a_cont A q @ take n xs)"
proof (induction fuel arbitrary: q xs pushed A)
  case 0
  then show ?case by (auto simp: keeps_def)
next
  case (Suc fuel q zs pushed A)
  show ?case
  proof (cases zs)
    case Nil
    then show ?thesis using Suc.prems(1) by (auto simp: keeps_def)
  next
    case (Cons x xs)
    then show ?thesis using pushBatch_round [OF Suc.prems(1) _ Suc.IH, of xs x pushed] Suc.prems(2) by simp
  qed
qed

section \<open>Consuming\<close>

lemma next_block:
  assumes "bw_rep A P q"
  shows "bw_next q (k mod bw_num q) = Suc k mod bw_num q"
  using static_bits(4) [OF rep_static [OF assms]] mod_step [of "bw_num q" k] by (simp add: bw_next_def)

text \<open>From block \<open>k\<close> one may go on exactly when the producer has entered block \<open>k + 1\<close>.\<close>

lemma may_advance_iff:
  fixes q :: "('w::len, 'a) bwos"
  assumes rep: "bw_rep A P q" and k: "a_kp A \<le> k + bw_num q" "k \<le> a_kp A" and v: "bw_version q c = of_nat (k div bw_num q)"
  shows "bw_version q (bb_reserved (bw_block q (Suc k mod bw_num q))) = bwos_nextVersion q (Suc k mod bw_num q) c \<longleftrightarrow> k < a_kp A"
    "k < a_kp A \<Longrightarrow> bwos_nextVersion q (Suc k mod bw_num q) c = of_nat (Suc k div bw_num q)"
proof -
  let ?N = "bw_num q" let ?M = "2 ^ (LENGTH('w) - bw_bits q) :: nat"
  note bits = static_bits [OF rep_static [OF rep]]
  obtain j where j: "window A ?N j" "j mod ?N = Suc k mod ?N" "(j = Suc k \<and> k < a_kp A) \<or> (k = a_kp A \<and> j div ?N = Suc k div ?N - 1 \<and> 1 \<le> Suc k div ?N)"
  proof (cases "k < a_kp A")
    case True
    then have "window A ?N (Suc k)" using k by (auto simp: window_def)
    then show ?thesis using True that by blast
  next
    case False
    then have e: "k = a_kp A" using k by simp
    then show ?thesis using oldest_block [OF rep] that by (metis One_nat_def)
  qed
  note rd = rep_reads(3,6) [OF rep j(1), unfolded j(2)]
  have nv: "bwos_nextVersion q (Suc k mod ?N) c = (of_nat (Suc k div ?N) :: 'w word)"
    unfolding bwos_nextVersion_def rd(2) v using div_step [OF bits(4), of k] by simp
  then show "bwos_nextVersion q (Suc k mod ?N) c = of_nat (Suc k div ?N)" .
  have le: "j div ?N \<le> ?M" using window_version [OF rep, of j] j(1) by (simp add: window_def)
  have "Suc k div ?N \<le> ?M" using window_version [OF rep k(2)] div_step [OF bits(4), of k] by (simp split: if_splits)
  then have "(of_nat (j div ?N) :: 'w word) = of_nat (Suc k div ?N) \<longleftrightarrow> j div ?N = Suc k div ?N"
    using of_nat_version_eq [OF bits(2,3) le] by simp
  then show "bw_version q (bb_reserved (bw_block q (Suc k mod ?N))) = bwos_nextVersion q (Suc k mod ?N) c \<longleftrightarrow> k < a_kp A"
    unfolding rd(1) nv using j(3) by auto
qed

text \<open>What the consumer reads of its own block.\<close>

lemma rep_consumer:
  fixes q :: "('w::len, 'a) bwos"
  assumes rep: "bw_rep A P q"
  defines "b \<equiv> a_kc A mod bw_num q"
  shows "bb_consumed (bw_block q b) = cur (bw_bits q) (a_kc A div bw_num q) (a_d A)"
    "bw_index q (bb_consumed (bw_block q b)) = a_d A" "bw_version q (bb_consumed (bw_block q b)) = of_nat (a_kc A div bw_num q)"
    "a_d A < bw_entriesPerBlock q \<Longrightarrow> window A (bw_num q) (a_kc A)" "a_d A \<le> bw_entriesPerBlock q"
proof -
  let ?N = "bw_num q"
  note num = rep_num [OF rep] and bits = static_bits [OF rep_static [OF rep]]
  show w: "a_d A < bw_entriesPerBlock q \<Longrightarrow> window A ?N (a_kc A)"
    using num(2,3,7) by (cases "a_kp A = a_kc A + ?N") (auto simp: window_def)
  show d: "a_d A \<le> bw_entriesPerBlock q" using num(6) com_le [OF rep, of "a_kc A"] by simp
  show c: "bb_consumed (bw_block q b) = cur (bw_bits q) (a_kc A div ?N) (a_d A)"
  proof (cases "a_kp A = a_kc A + ?N")
    case False
    then have "window A ?N (a_kc A)" using num(2,3) by (auto simp: window_def)
    from rep_block [OF rep this] show ?thesis by (simp add: block_ok_def a_cons_def b_def)
  next
    case True
    then have "block_ok (bw_bits q) (bw_entriesPerBlock q) ?N A P (a_kp A) (bw_block q b)"
      using rep_block [OF rep window_kp [OF rep]] by (simp add: b_def)
    moreover have "(a_kc A + ?N) div ?N - 1 = a_kc A div ?N" using div_add_self2 [of ?N "a_kc A"] bits(4) by simp
    ultimately show ?thesis using True num(7) bits(4) by (simp add: block_ok_def a_cons_def)
  qed
  have v: "a_kc A div ?N < 2 ^ (LENGTH('w) - bw_bits q)" by (rule window_version [OF rep num(2)])
  show "bw_index q (bb_consumed (bw_block q b)) = a_d A" "bw_version q (bb_consumed (bw_block q b)) = of_nat (a_kc A div ?N)"
    unfolding c using bw_index_cur [OF rep_static [OF rep] v d] bw_version_cur [OF rep_static [OF rep] v d] by simp_all
qed

lemma block_ok_takeOver:
  assumes ok: "block_ok n E N A P k b" and k: "k = Suc (a_kc A)"
    and A': "A' = A\<lparr>a_kc := k, a_d := a_r A k\<rparr>" and r: "a_r A k \<le> E"
  shows "block_ok n E N A' P k (b\<lparr>bb_reserved := cur n (k div N) E, bb_stolen := bb_stolen b + of_nat (E - a_r A k), bb_consumed := bb_reserved b\<rparr>)"
proof -
  have "bb_stolen b = cur n (k div N) (a_r A k - pend P (k mod N))" and p: "pend P (k mod N) \<le> a_r A k"
    using ok k by (simp_all add: block_ok_def a_res_def)
  then have "bb_stolen b + of_nat (E - a_r A k) = cur n (k div N) (a_r A k - pend P (k mod N) + (E - a_r A k))"
    by (simp only: addIndex_cur [unfolded cursor_addIndex_def])
  also have "a_r A k - pend P (k mod N) + (E - a_r A k) = E - pend P (k mod N)" using p r by simp
  finally show ?thesis using ok k r p unfolding block_ok_def by (auto simp: A' a_com_def a_res_def a_cons_def)
qed

lemma rep_takeOver:
  fixes q :: "('w::len, 'a) bwos"
  assumes rep: "bw_rep A P q" and d: "a_d A = bw_entriesPerBlock q"
    and t: "takeOverConsumerBlock q (Suc (a_kc A) mod bw_num q) (bb_consumed (bw_block q (a_kc A mod bw_num q))) = (ok, q')"
  defines "A' \<equiv> A\<lparr>a_kc := Suc (a_kc A), a_d := a_r A (Suc (a_kc A))\<rparr>"
  shows "ok \<longleftrightarrow> a_kc A < a_kp A" "\<not> ok \<Longrightarrow> q' = q" "ok \<Longrightarrow> bw_rep A' P q'" "ok \<Longrightarrow> a_cont A' q' = a_cont A q"
    "bb_entries (bw_block q' x) = bb_entries (bw_block q x)" "bw_num q' = bw_num q" "bw_entriesPerBlock q' = bw_entriesPerBlock q"
proof -
  let ?E = "bw_entriesPerBlock q" let ?N = "bw_num q" let ?n = "bw_bits q" let ?k = "Suc (a_kc A)" let ?b = "Suc (a_kc A) mod bw_num q"
  let ?c = "bb_consumed (bw_block q (a_kc A mod ?N))"
  note num = rep_num [OF rep] and st = rep_static [OF rep] and cr = rep_consumer [OF rep]
  note bits = static_bits [OF st] and adv = may_advance_iff [OF rep num(3,2) cr(3)]
  have bN: "?b < ?N" using bits(4) by simp
  show okiff: "ok \<longleftrightarrow> a_kc A < a_kp A" "\<not> ok \<Longrightarrow> q' = q"
    using t adv(1) by (auto simp: takeOverConsumerBlock_def consumerMayAdvance_def Let_def split: if_splits)
  define f where "f = (\<lambda>k :: ('w, 'a) bwos_block. k\<lparr>bb_reserved := cur ?n (?k div ?N) ?E,
      bb_stolen := bb_stolen k + of_nat (?E - a_r A ?k), bb_consumed := bb_reserved k\<rparr>)"
  have q': "q' = (bw_upd q ?b f)\<lparr>bw_consumer := ?b\<rparr>" and w: "window A ?N ?k" and r: "a_r A ?k \<le> ?E" if ok
  proof -
    have lt: "a_kc A < a_kp A" using okiff(1) that by simp
    then show w: "window A ?N ?k" using num(3) by (simp add: window_def)
    show r: "a_r A ?k \<le> ?E" using rep_reads(8) [OF rep w] com_le [OF rep, of ?k] by simp
    have mk: "cursor_make ?n (bwos_nextVersion q ?b ?c) (of_nat ?E) = (cur ?n (?k div ?N) ?E :: 'w word)"
      unfolding adv(2) [OF lt] using bits(1,3) by (intro make_cur) simp_all
    have i: "bw_index q (bb_reserved (bw_block q ?b)) = a_r A ?k" using rep_reads(2) [OF rep w] by (simp add: a_res_def)
    have "consumerMayAdvance q ?b ?c" using adv(1) lt by (simp add: consumerMayAdvance_def)
    then have "q' = (bw_upd q ?b (\<lambda>k. k\<lparr>bb_reserved := cur ?n (?k div ?N) ?E,
        bb_stolen := bb_stolen k + of_nat (?E - a_r A ?k), bb_consumed := bb_reserved (bw_block q ?b)\<rparr>))\<lparr>bw_consumer := ?b\<rparr>"
      using t r unfolding takeOverConsumerBlock_def Let_def mk i by auto
    then show "q' = (bw_upd q ?b f)\<lparr>bw_consumer := ?b\<rparr>" by (simp add: bw_upd_def f_def bw_block_def)
  qed
  show ent: "bb_entries (bw_block q' x) = bb_entries (bw_block q x)" for x
    using q' okiff(2) by (cases ok) (simp_all add: bw_block_upd [OF bN] f_def)
  show N': "bw_num q' = ?N" "bw_entriesPerBlock q' = ?E" using q' okiff(2) by (cases ok; simp)+
  show "bw_rep A' P q'" if ok
    unfolding q' [OF \<open>ok\<close>]
  proof (rule rep_upd [OF rep bN, where f = f])
    have "a_kc A < a_kp A" using okiff(1) that by simp
    then show "a_ok A' ?E ?N ?n LENGTH('w)"
      using num r [OF that] rep_reads(8) [OF rep w [OF that]] unfolding A'_def a_ok_def a_com_def by auto
  next
    fix k assume k: "window A' ?N k" "k mod ?N = ?b"
    then have "k = ?k" using window_unique [OF _ w [OF that]] by (simp add: A'_def window_def)
    then show "block_ok ?n ?E ?N A' P k (f (bw_block q ?b))"
      unfolding f_def using block_ok_takeOver [OF rep_block [OF rep w [OF that]] refl meta_eq_to_obj_eq [OF A'_def] r [OF that]] by simp
  next
    fix k assume k: "window A' ?N k" "k mod ?N \<noteq> ?b"
    then have "window A ?N k" "k \<noteq> ?k" by (auto simp: A'_def window_def)
    moreover have "a_res A' ?E k = a_res A ?E k" "a_cons A' ?E ?N k = a_cons A ?E ?N k" "a_com A' ?E k = a_com A ?E k"
      using \<open>k \<noteq> ?k\<close> d by (auto simp: A'_def a_res_def a_cons_def a_com_def)
    ultimately show "window A ?N k \<and> (block_ok ?n ?E ?N A P k (bw_block q (k mod ?N)) \<longrightarrow> block_ok ?n ?E ?N A' P k (bw_block q (k mod ?N)))"
      by (simp add: block_ok_def) (simp add: A'_def)
  next
    fix x i j assume "(x, i, j) \<in> set P"
    then show "x < ?N" using rep by (simp add: bw_rep_def) blast
  qed (use num in \<open>simp_all add: A'_def\<close>)
  show "a_cont A' q' = a_cont A q" if ok
  proof -
    have lt: "a_kc A < a_kp A" using okiff(1) that by simp
    have "a_slice A' q' k = a_slice A q k" if "?k \<le> k" for k
      using that by (auto simp: a_slice_def N' ent A'_def a_lo_def a_com_def)
    then have "map (a_slice A' q') [?k..<Suc (a_kp A)] = map (a_slice A q) [?k..<Suc (a_kp A)]" by (intro map_cong) auto
    moreover have "[a_kc A..<Suc (a_kp A)] = a_kc A # [?k..<Suc (a_kp A)]" using lt by (simp add: upt_conv_Cons)
    moreover have "a_slice A q (a_kc A) = []" using lt d by (simp add: a_slice_def a_lo_def a_com_def)
    moreover have "a_kp A' = a_kp A" "a_kc A' = ?k" by (simp_all add: A'_def)
    ultimately show ?thesis unfolding a_cont_def by (simp only: list.map concat.simps) simp
  qed
qed

text \<open>Where \<^verbatim>\<open>locateConsumer\<close> ends: with an entry of the block the consumer is in, or on an empty queue.\<close>

definition located :: "claim list \<Rightarrow> 'a list \<Rightarrow> ('w::len, 'a) bwos \<Rightarrow> (nat \<times> 'w word) option \<Rightarrow> bool" where
  "located P xs q r \<longleftrightarrow> (\<exists>A. bw_rep A P q \<and> a_cont A q = xs \<and>
     (if r = None then xs = []
      else r = Some (a_kc A mod bw_num q, cur (bw_bits q) (a_kc A div bw_num q) (a_d A)) \<and> a_d A < a_com A (bw_entriesPerBlock q) (a_kc A)))"

lemma cont_consumer:
  assumes "bw_rep A P q"
  shows "a_cont A q = a_slice A q (a_kc A) @ concat (map (a_slice A q) [Suc (a_kc A)..<Suc (a_kp A)])"
proof -
  have "[a_kc A..<Suc (a_kp A)] = a_kc A # [Suc (a_kc A)..<Suc (a_kp A)]" using rep_num(2) [OF assms] by (simp add: upt_conv_Cons)
  then show ?thesis unfolding a_cont_def by (simp only: list.map concat.simps)
qed

lemma locate_law:
  assumes "bw_rep A P q" "Suc (a_kp A - a_kc A) \<le> fuel" "locateConsumer_loop fuel q (a_kc A mod bw_num q) = (r, q')"
  shows "located P (a_cont A q) q' r \<and> (\<forall>x. bb_entries (bw_block q' x) = bb_entries (bw_block q x))"
  using assms
proof (induction fuel arbitrary: A q)
  case 0
  then show ?case by simp
next
  case (Suc fuel)
  note rep = Suc.prems(1)
  let ?E = "bw_entriesPerBlock q" let ?c = "bb_consumed (bw_block q (a_kc A mod bw_num q))"
  note cr = rep_consumer [OF rep] and num = rep_num [OF rep]
  show ?case
  proof (cases "a_d A < ?E")
    case True
    note rd = rep_reads [OF rep cr(4) [OF True]]
    have e: "(r, q') = (if a_d A = a_com A ?E (a_kc A) then None else Some (a_kc A mod bw_num q, ?c), q)"
      using Suc.prems(3) True cr(2) rd(1) by (auto simp: Let_def split: if_splits)
    show ?thesis
    proof (cases "a_d A = a_com A ?E (a_kc A)")
      case True
      then have "a_kp A = a_kc A" using \<open>a_d A < ?E\<close> num(2) by (auto simp: a_com_def split: if_splits)
      then have "a_cont A q = []" using True by (simp add: a_cont_def a_slice_def a_lo_def)
      then show ?thesis using e True rep by (auto simp: located_def)
    next
      case False
      then have "a_d A < a_com A ?E (a_kc A)" using num(6) by simp
      then show ?thesis using e False rep cr(1) by (auto simp: located_def)
    qed
  next
    case False
    then have d: "a_d A = ?E" using cr(5) by simp
    let ?p = "takeOverConsumerBlock q (Suc (a_kc A) mod bw_num q) ?c"
    obtain ok q1 where t: "?p = (ok, q1)" by (cases ?p)
    note to = rep_takeOver [OF rep d t]
    have l: "(r, q') = (if ok then locateConsumer_loop fuel q1 (Suc (a_kc A) mod bw_num q) else (None, q1))"
      using Suc.prems(3) d cr(2) t by (simp add: Let_def next_block [OF rep] split: bool.splits)
    show ?thesis
    proof (cases ok)
      case True
      let ?A = "A\<lparr>a_kc := Suc (a_kc A), a_d := a_r A (Suc (a_kc A))\<rparr>"
      have "located P (a_cont ?A q1) q' r \<and> (\<forall>x. bb_entries (bw_block q' x) = bb_entries (bw_block q1 x))"
        by (rule Suc.IH [OF to(3) [OF True]]) (use Suc.prems(2) to(1,6) True l in auto)
      then show ?thesis using to(4) [OF True] to(5) by simp
    next
      case False
      then have "a_kc A = a_kp A" using to(1) num(2) by simp
      then have "a_cont A q = []" using d com_le [OF rep, of "a_kc A"] by (simp add: a_cont_def a_slice_def a_lo_def)
      then show ?thesis using l False to(2) rep by (auto simp: located_def)
    qed
  qed
qed

text \<open>Moving the consumer forward within its block.\<close>

lemma rep_consume:
  fixes q :: "('w::len, 'a) bwos"
  assumes rep: "bw_rep A P q" and d: "a_d A < d'" "d' \<le> a_com A (bw_entriesPerBlock q) (a_kc A)"
  defines "b \<equiv> a_kc A mod bw_num q" and "A' \<equiv> A\<lparr>a_d := d'\<rparr>"
  defines "q' \<equiv> bw_upd q b (\<lambda>k. k\<lparr>bb_consumed := cur (bw_bits q) (a_kc A div bw_num q) d'\<rparr>)"
  shows "bw_rep A' P q'" "a_cont A q = segment (bb_entries (bw_block q b)) (a_d A) d' @ a_cont A' q'"
    "bb_entries (bw_block q' x) = bb_entries (bw_block q x)"
proof -
  let ?E = "bw_entriesPerBlock q" let ?N = "bw_num q" let ?n = "bw_bits q"
  note num = rep_num [OF rep] and bits = static_bits [OF rep_static [OF rep]]
  have lt: "a_d A < ?E" using d com_le [OF rep, of "a_kc A"] by simp
  have w: "window A ?N (a_kc A)" by (rule rep_consumer(4) [OF rep lt])
  have bN: "b < ?N" using bits(4) by (simp add: b_def)
  show ent: "bb_entries (bw_block q' x) = bb_entries (bw_block q x)" for x by (simp add: q'_def bw_block_upd [OF bN])
  have com: "a_com A' ?E k = a_com A ?E k" for k by (simp add: A'_def a_com_def)
  show "bw_rep A' P q'" unfolding q'_def
  proof (rule rep_upd [OF rep bN])
    show "a_ok A' ?E ?N ?n LENGTH('w)" using num d lt unfolding A'_def a_ok_def a_com_def by auto
  next
    fix k assume k: "window A' ?N k" "k mod ?N = b"
    then have "k = a_kc A" using window_unique [OF _ w] by (simp add: A'_def b_def window_def)
    then show "block_ok ?n ?E ?N A' P k ((bw_block q b)\<lparr>bb_consumed := cur ?n (a_kc A div ?N) d'\<rparr>)"
      using rep_block [OF rep w] com by (simp add: block_ok_def b_def) (simp add: A'_def a_res_def a_cons_def)
  next
    fix k assume k: "window A' ?N k" "k mod ?N \<noteq> b"
    then have "k \<noteq> a_kc A" by (auto simp: b_def)
    then show "window A ?N k \<and> (block_ok ?n ?E ?N A P k (bw_block q (k mod ?N)) \<longrightarrow> block_ok ?n ?E ?N A' P k (bw_block q (k mod ?N)))"
      using k(1) by (simp add: A'_def window_def block_ok_def a_com_def a_res_def a_cons_def)
  next
    fix x i j assume "(x, i, j) \<in> set P"
    then show "x < ?N" using rep by (simp add: bw_rep_def) blast
  qed (use num in \<open>simp_all add: A'_def\<close>)
  then have rep': "bw_rep A' P q'" .
  have N': "bw_num q' = ?N" "bw_entriesPerBlock q' = ?E" by (simp_all add: q'_def)
  have A: "a_kc A' = a_kc A" "a_kp A' = a_kp A" "\<And>k. a_com A' ?E k = a_com A ?E k" by (simp_all add: A'_def a_com_def)
  have "map (a_slice A' q') [Suc (a_kc A)..<Suc (a_kp A)] = map (a_slice A q) [Suc (a_kc A)..<Suc (a_kp A)]"
    by (intro map_cong) (auto simp: a_slice_def N' ent A a_lo_def, auto simp: A'_def)
  moreover have "a_slice A q (a_kc A) = segment (bb_entries (bw_block q b)) (a_d A) d' @ a_slice A' q' (a_kc A)"
    using segment_split [of "a_d A" d' "a_com A ?E (a_kc A)" "bb_entries (bw_block q b)"] d
    by (simp add: a_slice_def N' ent A a_lo_def b_def) (simp add: A'_def)
  ultimately show "a_cont A q = segment (bb_entries (bw_block q b)) (a_d A) d' @ a_cont A' q'"
    unfolding cont_consumer [OF rep] cont_consumer [OF rep'] A by (simp only: append_assoc)
qed

lemma bwos_pop_law:
  assumes rep: "bw_rep A P q" and pop: "bwos_pop q = (r, q')"
  shows "case r of None \<Rightarrow> a_cont A q = [] \<and> keeps P q q' [] | Some x \<Rightarrow> \<exists>xs. a_cont A q = x # xs \<and> keeps P q q' xs"
proof -
  note num = rep_num [OF rep]
  obtain l q1 where l: "locateConsumer q = (l, q1)" by (cases "locateConsumer q")
  then have "locateConsumer_loop (bw_num q + 1) q (a_kc A mod bw_num q) = (l, q1)" by (simp add: locateConsumer_def num(9))
  from locate_law [OF rep _ this] num(2,3) have loc: "located P (a_cont A q) q1 l" and
    ent: "\<And>x. bb_entries (bw_block q1 x) = bb_entries (bw_block q x)" by auto
  show ?thesis
  proof (cases l)
    case None
    then have "r = None" "q' = q1" using pop l by (simp_all add: bwos_pop_def)
    then show ?thesis using loc None ent by (auto simp: located_def keeps_def)
  next
    case (Some p)
    with loc obtain A1 where A1: "bw_rep A1 P q1" "a_cont A1 q1 = a_cont A q"
      "p = (a_kc A1 mod bw_num q1, cur (bw_bits q1) (a_kc A1 div bw_num q1) (a_d A1))"
      "a_d A1 < a_com A1 (bw_entriesPerBlock q1) (a_kc A1)" by (auto simp: located_def)
    let ?b = "a_kc A1 mod bw_num q1" let ?v = "a_kc A1 div bw_num q1"
    have lt: "a_d A1 < bw_entriesPerBlock q1" using A1(4) com_le [OF A1(1), of "a_kc A1"] by simp
    note rd = rep_reads(5) [OF A1(1) rep_consumer(4) [OF A1(1) lt]]
    have i: "bw_index q1 (cur (bw_bits q1) ?v (a_d A1)) = a_d A1" using rep_consumer(1,2) [OF A1(1)] by simp
    have add: "cursor_addIndex (cur (bw_bits q1) ?v (a_d A1)) 1 = cur (bw_bits q1) ?v (Suc (a_d A1))"
      using addIndex_cur [of "bw_bits q1" ?v "a_d A1" 1] by simp
    have e: "r = Some (bb_entries (bw_block q1 ?b) ! a_d A1)"
      "q' = bw_upd q1 ?b (\<lambda>k. k\<lparr>bb_consumed := cur (bw_bits q1) ?v (Suc (a_d A1))\<rparr>)"
      using pop l Some by (auto simp: bwos_pop_def A1(3) i add)
    have "segment (bb_entries (bw_block q1 ?b)) (a_d A1) (Suc (a_d A1)) = [bb_entries (bw_block q1 ?b) ! a_d A1]"
      using segment_Cons [of "a_d A1" "Suc (a_d A1)" "bb_entries (bw_block q1 ?b)"] lt rd by simp
    with rep_consume [OF A1(1), of "Suc (a_d A1)"] A1(2,4) e
    show ?thesis using keepsI [of "A1\<lparr>a_d := Suc (a_d A1)\<rparr>" P q' _ q] ent by auto
  qed
qed

lemma bwos_popBlock_law:
  assumes rep: "bw_rep A P q" and pop: "bwos_popBlock q = (xs, q')"
  shows "\<exists>ys. a_cont A q = xs @ ys \<and> keeps P q q' ys \<and> (xs = [] \<longrightarrow> a_cont A q = [])"
proof -
  note num = rep_num [OF rep]
  obtain l q1 where l: "locateConsumer q = (l, q1)" by (cases "locateConsumer q")
  then have "locateConsumer_loop (bw_num q + 1) q (a_kc A mod bw_num q) = (l, q1)" by (simp add: locateConsumer_def num(9))
  from locate_law [OF rep _ this] num(2,3) have loc: "located P (a_cont A q) q1 l" and
    ent: "\<And>x. bb_entries (bw_block q1 x) = bb_entries (bw_block q x)" by auto
  show ?thesis
  proof (cases l)
    case None
    then have "xs = []" "q' = q1" using pop l by (simp_all add: bwos_popBlock_def)
    then show ?thesis using loc None ent by (auto simp: located_def keeps_def)
  next
    case (Some p)
    with loc obtain A1 where A1: "bw_rep A1 P q1" "a_cont A1 q1 = a_cont A q"
      "p = (a_kc A1 mod bw_num q1, cur (bw_bits q1) (a_kc A1 div bw_num q1) (a_d A1))"
      "a_d A1 < a_com A1 (bw_entriesPerBlock q1) (a_kc A1)" by (auto simp: located_def)
    let ?b = "a_kc A1 mod bw_num q1" let ?v = "a_kc A1 div bw_num q1" let ?c = "a_com A1 (bw_entriesPerBlock q1) (a_kc A1)"
    have lt: "a_d A1 < bw_entriesPerBlock q1" using A1(4) com_le [OF A1(1), of "a_kc A1"] by simp
    note w = rep_consumer(4) [OF A1(1) lt]
    note rd = rep_reads(1,5) [OF A1(1) w]
    have i: "bw_index q1 (cur (bw_bits q1) ?v (a_d A1)) = a_d A1" using rep_consumer(1,2) [OF A1(1)] by simp
    have c: "bb_committed (bw_block q1 ?b) = cur (bw_bits q1) ?v ?c" using rep_block [OF A1(1) w] by (simp add: block_ok_def)
    have e: "xs = segment (bb_entries (bw_block q1 ?b)) (a_d A1) ?c" "q' = bw_upd q1 ?b (\<lambda>k. k\<lparr>bb_consumed := cur (bw_bits q1) ?v ?c\<rparr>)"
      using pop l Some rd(1) by (auto simp: bwos_popBlock_def Let_def A1(3) i c)
    have "xs \<noteq> []" using e(1) A1(4) rd(2) com_le [OF A1(1), of "a_kc A1"] by (simp add: segment_Nil)
    with rep_consume [OF A1(1), of ?c] A1(2,4) e show ?thesis using keepsI [of "A1\<lparr>a_d := ?c\<rparr>" P q' _ q] ent by auto
  qed
qed

end
