(* ===== verification/Bwos_Steal.thy ===== *)
theory Bwos_Steal
  imports Bwos_Laws Step_System
begin

text \<open>
  Looking into the block-based queue, stealing from it, and the queue's contract: it is a work queue in
  the sense of \<open>Work_Queue_Spec\<close>, and with thieves whose claims are outstanding no entry is lost, handed
  out twice or overwritten before it is copied.
\<close>

section \<open>Whether there are entries\<close>

lemma hasEntries_from:
  assumes rep: "bw_rep A P q" and k: "a_kc A \<le> k" "k \<le> a_kp A" "Suc (a_kp A - k) \<le> fuel"
    and c: "bw_index q c = e" "bw_version q c = of_nat (k div bw_num q)" "e \<le> bw_entriesPerBlock q"
    and lt: "e < bw_entriesPerBlock q \<Longrightarrow> k = a_kc A \<and> e = a_d A" and eq: "e = bw_entriesPerBlock q \<Longrightarrow> a_slice A q k = []"
  shows "bwos_hasEntries_loop fuel q (k mod bw_num q) c \<longleftrightarrow> concat (map (a_slice A q) [k..<Suc (a_kp A)]) \<noteq> []"
  using k c lt eq
proof (induction fuel arbitrary: k c e)
  case 0
  then show ?case by simp
next
  case (Suc fuel)
  let ?E = "bw_entriesPerBlock q" let ?N = "bw_num q"
  note num = rep_num [OF rep]
  have up: "[k..<Suc (a_kp A)] = k # [Suc k..<Suc (a_kp A)]" using Suc.prems(2) by (simp add: upt_conv_Cons)
  show ?case
  proof (cases "e < ?E")
    case True
    then have kc: "k = a_kc A" "e = a_d A" using Suc.prems(7) by auto
    then have w: "window A ?N k" using rep_consumer(4) [OF rep] True by simp
    note rd = rep_reads(1,5) [OF rep w]
    have l: "bwos_hasEntries_loop (Suc fuel) q (k mod ?N) c \<longleftrightarrow> a_d A \<noteq> a_com A ?E k"
      using True kc Suc.prems(4) rd(1) by simp
    show ?thesis
    proof (cases "a_d A = a_com A ?E k")
      case True
      then have "k = a_kp A" using \<open>e < ?E\<close> kc Suc.prems(2) by (auto simp: a_com_def split: if_splits)
      then show ?thesis using l True kc by (simp add: a_slice_def a_lo_def)
    next
      case False
      then have "a_slice A q k \<noteq> []" using num(6) kc rd(2) com_le [OF rep, of k] by (auto simp: a_slice_def a_lo_def segment_Nil)
      then show ?thesis using l False up by (simp del: upt_Suc)
    qed
  next
    case False
    then have e: "e = ?E" "a_slice A q k = []" using Suc.prems(6,8) by auto
    have kN: "a_kp A \<le> k + ?N" using num(3) Suc.prems(1) by simp
    note adv = may_advance_iff [OF rep kN Suc.prems(2,5)]
    let ?b = "Suc k mod ?N"
    have l: "bwos_hasEntries_loop (Suc fuel) q (k mod ?N) c \<longleftrightarrow> k < a_kp A \<and>
        (bw_index q (bb_reserved (bw_block q ?b)) < bw_index q (bb_committed (bw_block q ?b)) \<or>
         \<not> bw_index q (bb_reserved (bw_block q ?b)) < ?E \<and>
           bwos_hasEntries_loop fuel q ?b (cursor_make (bw_bits q) (bwos_nextVersion q ?b c) (of_nat ?E)))"
      using e Suc.prems(4) adv(1) by (auto simp: next_block [OF rep] consumerMayAdvance_def Let_def)
    show ?thesis
    proof (cases "k < a_kp A")
      case False
      then have "k = a_kp A" using Suc.prems(2) by simp
      then show ?thesis using l e(2) by simp
    next
      case True
      let ?k = "Suc k"
      have w: "window A ?N ?k" using True kN by (simp add: window_def)
      note rd = rep_reads [OF rep w]
      have kc: "a_kc A < ?k" using Suc.prems(1) by simp
      have r: "a_res A ?E ?k = a_r A ?k" "a_r A ?k \<le> a_com A ?E ?k" "a_lo A ?k = a_r A ?k"
        using kc rd(8) by (auto simp: a_res_def a_lo_def)
      have up': "[?k..<Suc (a_kp A)] = ?k # [Suc ?k..<Suc (a_kp A)]" using True by (simp add: upt_conv_Cons)
      consider "a_r A ?k < a_com A ?E ?k" | (part) "a_r A ?k = a_com A ?E ?k" "a_r A ?k < ?E" | (full) "a_r A ?k = a_com A ?E ?k" "a_r A ?k = ?E"
        using r(2) com_le [OF rep, of ?k] by linarith
      then show ?thesis
      proof cases
        case 1
        then have "a_slice A q ?k \<noteq> []" using rd(5) com_le [OF rep, of ?k] by (simp add: a_slice_def r(3) segment_Nil)
        then show ?thesis using l 1 rd(1,2) r(1) True up up' by (simp del: upt_Suc)
      next
        case part
        then have "?k = a_kp A" using True by (auto simp: a_com_def split: if_splits)
        then show ?thesis using l part rd(1,2) r True up up' e(2) by (simp add: a_slice_def del: upt_Suc)
      next
        case full
        have mk: "cursor_make (bw_bits q) (bwos_nextVersion q ?b c) (of_nat ?E) = cur (bw_bits q) (?k div ?N) ?E"
          unfolding adv(2) [OF True] using static_bits(1,3) [OF rep_static [OF rep]] by (intro make_cur) simp_all
        have v: "?k div ?N < 2 ^ (LENGTH('a) - bw_bits q)" by (rule window_version [OF rep]) (use True in simp)
        note cur = bw_index_cur [OF rep_static [OF rep] v, of ?E] bw_version_cur [OF rep_static [OF rep] v, of ?E]
        have "a_slice A q ?k = []" using full by (simp add: a_slice_def r(3))
        moreover have "bwos_hasEntries_loop fuel q ?b (cur (bw_bits q) (?k div ?N) ?E) \<longleftrightarrow> concat (map (a_slice A q) [?k..<Suc (a_kp A)]) \<noteq> []"
          by (rule Suc.IH [OF _ _ _ cur]) (use True Suc.prems(1,3) calculation in auto)
        ultimately show ?thesis using l full rd(1,2) r True up e(2) mk by (simp del: upt_Suc)
      qed
    qed
  qed
qed

lemma bwos_hasEntries_law:
  assumes "bw_rep A P q"
  shows "bwos_hasEntries q \<longleftrightarrow> a_cont A q \<noteq> []"
proof -
  note num = rep_num [OF assms] and cr = rep_consumer [OF assms]
  have "a_slice A q (a_kc A) = []" if "a_d A = bw_entriesPerBlock q"
    using that com_le [OF assms, of "a_kc A"] by (simp add: a_slice_def a_lo_def)
  then show ?thesis unfolding bwos_hasEntries_def a_cont_def num(9)
    by (intro hasEntries_from [OF assms _ _ _ cr(2,3,5)]) (use num(2,3) in auto)
qed

section \<open>Stealing\<close>

lemma upt_append_split: "i \<le> m \<Longrightarrow> m \<le> n \<Longrightarrow> [i..<n] = [i..<m] @ [m..<n]"
  by (metis le_add_diff_inverse upt_add_eq_append)

lemma bw_position_mod:
  fixes q :: "('w::len, 'a) bwos"
  assumes "bw_static q"
  shows "bw_position q = unat (bw_stealPosition q) mod bw_num q"
proof -
  from assms obtain m where m: "m < LENGTH('w)" "bw_num q = 2 ^ m" by (auto simp: bw_static_def)
  have "of_nat (bw_num q) - 1 = (mask m :: 'w word)" by (simp add: m(2) mask_eq_exp_minus_1)
  then have "bw_position q = unat (take_bit m (bw_stealPosition q))" by (simp add: bw_position_def take_bit_eq_mask)
  also have "\<dots> = take_bit m (unat (bw_stealPosition q))" by (rule unsigned_take_bit_eq)
  finally show ?thesis by (simp add: take_bit_eq_mod m(2))
qed

lemma bw_position_step:
  fixes q :: "('w::len, 'a) bwos"
  assumes st: "bw_static q" and k: "bw_position q = k mod bw_num q"
  shows "bw_position (q\<lparr>bw_stealPosition := bw_stealPosition q + 1\<rparr>) = Suc k mod bw_num q"
proof -
  from st obtain m where m: "m < LENGTH('w)" "bw_num q = 2 ^ m" by (auto simp: bw_static_def)
  have st': "bw_static (q\<lparr>bw_stealPosition := bw_stealPosition q + 1\<rparr>)" using st by (simp add: bw_static_def)
  have "unat (bw_stealPosition q + 1) mod 2 ^ m = (unat (bw_stealPosition q) + 1) mod 2 ^ m"
  proof -
    have "take_bit m (take_bit LENGTH('w) (unat (bw_stealPosition q) + 1)) = take_bit m (unat (bw_stealPosition q) + 1)"
      using m(1) by (simp add: take_bit_take_bit min_def)
    moreover have "unat (bw_stealPosition q + 1) = take_bit LENGTH('w) (unat (bw_stealPosition q) + 1)"
      by (simp add: unat_word_ariths take_bit_eq_mod)
    ultimately show ?thesis by (simp add: take_bit_eq_mod)
  qed
  also have "\<dots> = Suc (unat (bw_stealPosition q) mod 2 ^ m) mod 2 ^ m" by (simp add: mod_Suc_eq)
  also have "\<dots> = Suc k mod 2 ^ m" using k bw_position_mod [OF st] m(2) by (metis mod_Suc_eq)
  finally show ?thesis unfolding bw_position_mod [OF st'] by (simp add: m(2))
qed

lemma rep_position [simp]: "bw_rep A P (q\<lparr>bw_stealPosition := x\<rparr>) = bw_rep A P q" "a_cont A (q\<lparr>bw_stealPosition := x\<rparr>) = a_cont A q"
proof -
  have "a_slice A (q\<lparr>bw_stealPosition := x\<rparr>) = a_slice A q" by (simp add: a_slice_def fun_eq_iff)
  then show "a_cont A (q\<lparr>bw_stealPosition := x\<rparr>) = a_cont A q" by (simp add: a_cont_def)
qed (simp add: bw_rep_def bw_static_def)

lemma block_ok_claim:
  assumes ok: "block_ok n E N A P k b" and k: "a_kc A < k" "a_r A k < j" "j \<le> a_com A E k"
  shows "block_ok n E N (A\<lparr>a_r := (a_r A)(k := j)\<rparr>) ((k mod N, a_r A k, j) # P) k (b\<lparr>bb_reserved := cur n (k div N) j\<rparr>)"
proof -
  have p: "pend P (k mod N) \<le> a_r A k" using ok k(1) by (simp add: block_ok_def a_res_def)
  then have e: "j - (j - a_r A k + pend P (k mod N)) = a_r A k - pend P (k mod N)" using k(2) by simp
  have com: "a_com (A\<lparr>a_r := (a_r A)(k := j)\<rparr>) E k = a_com A E k" by (simp add: a_com_def)
  have cons: "a_cons (A\<lparr>a_r := (a_r A)(k := j)\<rparr>) E N k = a_cons A E N k" by (simp add: a_cons_def)
  have res: "a_res (A\<lparr>a_r := (a_r A)(k := j)\<rparr>) E k = j" "a_res A E k = a_r A k" using k(1) by (simp_all add: a_res_def)
  show ?thesis using ok k p unfolding block_ok_def com cons res by (auto simp: e)
qed

lemma rep_claim:
  fixes q :: "('w::len, 'a) bwos"
  assumes rep: "bw_rep A P q" and w: "window A (bw_num q) k" and k: "a_kc A < k" "a_r A k < j" "j \<le> a_com A (bw_entriesPerBlock q) k"
  defines "b \<equiv> k mod bw_num q" and "A' \<equiv> A\<lparr>a_r := (a_r A)(k := j)\<rparr>"
  defines "q' \<equiv> bw_upd q b (\<lambda>x. x\<lparr>bb_reserved := cur (bw_bits q) (k div bw_num q) j\<rparr>)"
  shows "bw_rep A' ((b, a_r A k, j) # P) q'" "bb_entries (bw_block q' x) = bb_entries (bw_block q x)"
    "\<exists>as bs. a_cont A q = as @ segment (bb_entries (bw_block q b)) (a_r A k) j @ bs \<and> a_cont A' q' = as @ bs"
proof -
  let ?E = "bw_entriesPerBlock q" let ?N = "bw_num q" let ?n = "bw_bits q"
  note num = rep_num [OF rep] and bits = static_bits [OF rep_static [OF rep]]
  have bN: "b < ?N" using bits(4) by (simp add: b_def)
  show ent: "bb_entries (bw_block q' x) = bb_entries (bw_block q x)" for x by (simp add: q'_def bw_block_upd [OF bN])
  show "bw_rep A' ((b, a_r A k, j) # P) q'" unfolding q'_def
  proof (rule rep_upd [OF rep bN])
    show "a_ok A' ?E ?N ?n LENGTH('w)" using num unfolding A'_def a_ok_def a_com_def by auto
  next
    fix k2 assume k2: "window A' ?N k2" "k2 mod ?N = b"
    then have "k2 = k" using window_unique [OF _ w] by (simp add: A'_def b_def window_def)
    then show "block_ok ?n ?E ?N A' ((b, a_r A k, j) # P) k2 ((bw_block q b)\<lparr>bb_reserved := cur ?n (k div ?N) j\<rparr>)"
      using block_ok_claim [OF rep_block [OF rep w] k] by (simp add: A'_def b_def)
  next
    fix k2 assume k2: "window A' ?N k2" "k2 mod ?N \<noteq> b"
    then have "k2 \<noteq> k" by (auto simp: b_def)
    then have "a_r A' k2 = a_r A k2" "a_com A' ?E k2 = a_com A ?E k2" "a_res A' ?E k2 = a_res A ?E k2" "a_cons A' ?E ?N k2 = a_cons A ?E ?N k2"
      by (simp_all add: A'_def a_com_def a_res_def a_cons_def)
    then show "window A ?N k2 \<and> (block_ok ?n ?E ?N A P k2 (bw_block q (k2 mod ?N)) \<longrightarrow>
        block_ok ?n ?E ?N A' ((b, a_r A k, j) # P) k2 (bw_block q (k2 mod ?N)))"
      using k2 by (simp add: block_ok_def window_def) (simp add: A'_def)
  next
    fix x i l assume "(x, i, l) \<in> set ((b, a_r A k, j) # P)"
    then show "x < ?N" using rep bN by (auto simp: bw_rep_def)
  qed (use num in \<open>simp_all add: A'_def\<close>)
  have N': "bw_num q' = ?N" "bw_entriesPerBlock q' = ?E" by (simp_all add: q'_def)
  have old: "a_slice A' q' k2 = a_slice A q k2" if "k2 \<noteq> k" for k2
    using that by (simp add: a_slice_def N' ent A'_def a_lo_def a_com_def)
  have new: "a_slice A q k = segment (bb_entries (bw_block q b)) (a_r A k) j @ a_slice A' q' k"
    using segment_split [of "a_r A k" j "a_com A ?E k" "bb_entries (bw_block q b)"] k
    by (simp add: a_slice_def N' ent A'_def a_lo_def a_com_def b_def)
  have kp: "k \<le> a_kp A" using w by (simp add: window_def)
  have "[a_kc A..<Suc (a_kp A)] = [a_kc A..<k] @ [k..<Suc (a_kp A)]" by (rule upt_append_split) (use k(1) kp in simp_all)
  then have up: "[a_kc A..<Suc (a_kp A)] = [a_kc A..<k] @ k # [Suc k..<Suc (a_kp A)]" using kp by (simp add: upt_conv_Cons)
  let ?as = "concat (map (a_slice A q) [a_kc A..<k])" let ?bs = "a_slice A' q' k @ concat (map (a_slice A q) [Suc k..<Suc (a_kp A)])"
  have "a_cont A q = ?as @ segment (bb_entries (bw_block q b)) (a_r A k) j @ ?bs"
    unfolding a_cont_def up by (simp only: map_append list.map concat_append concat.simps new append_assoc)
  moreover have m: "map (a_slice A' q') [a_kc A..<k] = map (a_slice A q) [a_kc A..<k]"
    "map (a_slice A' q') [Suc k..<Suc (a_kp A)] = map (a_slice A q) [Suc k..<Suc (a_kp A)]"
    by (intro map_cong refl old; auto)+
  have kk: "a_kc A' = a_kc A" "a_kp A' = a_kp A" by (simp_all add: A'_def)
  have "a_cont A' q' = ?as @ ?bs"
    unfolding a_cont_def kk up by (simp only: map_append list.map concat_append concat.simps m)
  ultimately show "\<exists>as bs. a_cont A q = as @ segment (bb_entries (bw_block q b)) (a_r A k) j @ bs \<and> a_cont A' q' = as @ bs" by blast
qed

text \<open>What a claim of a thief does: it takes a range out of the queue's entries and leaves it outstanding.\<close>

definition claimed :: "bool \<Rightarrow> bwa \<Rightarrow> claim list \<Rightarrow> ('w::len, 'a) bwos \<Rightarrow> claim option \<Rightarrow> ('w, 'a) bwos \<Rightarrow> bool" where
  "claimed one A P q r q' \<longleftrightarrow> (\<forall>x. bb_entries (bw_block q' x) = bb_entries (bw_block q x)) \<and>
     (case r of None \<Rightarrow> bw_rep A P q' \<and> a_cont A q' = a_cont A q
      | Some (b, i, j) \<Rightarrow> i < j \<and> j \<le> length (bb_entries (bw_block q b)) \<and> (one \<longrightarrow> j = Suc i) \<and>
          (\<exists>A' as bs. bw_rep A' ((b, i, j) # P) q' \<and> a_cont A q = as @ segment (bb_entries (bw_block q b)) i j @ bs \<and> a_cont A' q' = as @ bs))"

lemma claimed_position: "claimed one A P (q\<lparr>bw_stealPosition := x\<rparr>) r q' = claimed one A P q r q'"
  by (cases r) (auto simp: claimed_def)

lemma claim_loop_law:
  assumes "bw_rep A P q" "window A (bw_num q) k" "bw_position q = k mod bw_num q" "Suc (a_kp A - k) \<le> fuel"
  shows "\<exists>r q'. bwos_claim_loop fuel one q = Some (r, q') \<and> claimed one A P q r q'"
  using assms
proof (induction fuel arbitrary: k q)
  case 0
  then show ?case by simp
next
  case (Suc fuel)
  note rep = Suc.prems(1) and w = Suc.prems(2)
  let ?E = "bw_entriesPerBlock q" let ?N = "bw_num q" let ?b = "k mod bw_num q"
  note rd = rep_reads [OF rep w] and num = rep_num [OF rep]
  have kk: "a_kp A \<le> k + ?N" "k \<le> a_kp A" using w by (auto simp: window_def)
  note adv = may_advance_iff [OF rep kk rd(3)]
  show ?case
  proof (cases "a_res A ?E k < ?E")
    case True
    then have kc: "a_kc A < k" and res: "a_res A ?E k = a_r A k" by (auto simp: a_res_def split: if_splits)
    show ?thesis
    proof (cases "a_r A k = a_com A ?E k")
      case eq: True
      then have "bwos_claim_loop (Suc fuel) one q = Some (None, q)" using True res rd(1,2) Suc.prems(3) by (simp add: Let_def)
      then show ?thesis using rep by (auto simp: claimed_def)
    next
      case False
      then have lt: "a_r A k < a_com A ?E k" using rd(8) [OF kc] by simp
      define j where "j = (if one then Suc (a_r A k) else a_com A ?E k)"
      have j: "a_r A k < j" "j \<le> a_com A ?E k" using lt by (auto simp: j_def)
      have blk: "bb_committed (bw_block q ?b) = cur (bw_bits q) (k div ?N) (a_com A ?E k)"
        "bb_reserved (bw_block q ?b) = cur (bw_bits q) (k div ?N) (a_r A k)"
        using rep_block [OF rep w] res by (simp_all add: block_ok_def)
      have add: "cursor_addIndex (cur (bw_bits q) (k div ?N) (a_r A k)) 1 = cur (bw_bits q) (k div ?N) (Suc (a_r A k))"
        using addIndex_cur [of "bw_bits q" "k div ?N" "a_r A k" 1] by simp
      have "bwos_claim_loop (Suc fuel) one q = Some (Some (?b, a_r A k, j), bw_upd q ?b (\<lambda>x. x\<lparr>bb_reserved := cur (bw_bits q) (k div ?N) j\<rparr>))"
        using True False res rd(1,2) Suc.prems(3) by (simp add: Let_def j_def) (simp add: blk add)
      moreover have "j \<le> length (bb_entries (bw_block q ?b))" using j(2) rd(5) com_le [OF rep, of k] by simp
      ultimately show ?thesis using rep_claim [OF rep w kc j] j(1) by (fastforce simp: claimed_def j_def)
    qed
  next
    case False
    then have full: "a_res A ?E k = ?E" using rd(7) by simp
    let ?q = "q\<lparr>bw_stealPosition := bw_stealPosition q + 1\<rparr>"
    have l: "bwos_claim_loop (Suc fuel) one q = (if k < a_kp A then bwos_claim_loop fuel one ?q else Some (None, q))"
      using full rd(2) Suc.prems(3) adv(1) by (simp add: Let_def thiefMayAdvance_def next_block [OF rep])
    show ?thesis
    proof (cases "k < a_kp A")
      case False
      then show ?thesis using l rep by (auto simp: claimed_def)
    next
      case True
      have "\<exists>r q'. bwos_claim_loop fuel one ?q = Some (r, q') \<and> claimed one A P ?q r q'"
      proof (rule Suc.IH)
        show "bw_position ?q = Suc k mod bw_num ?q" using bw_position_step [OF rep_static [OF rep] Suc.prems(3)] by simp
      qed (use rep True kk Suc.prems(4) in \<open>auto simp: window_def\<close>)
      then show ?thesis using l True by (simp only: if_True claimed_position)
    qed
  qed
qed

lemma bwos_claim_law:
  assumes rep: "bw_rep A P q"
  shows "\<exists>r q'. bwos_claim_loop (bw_num q) one q = Some (r, q') \<and> claimed one A P q r q'"
proof -
  note num = rep_num [OF rep] and st = rep_static [OF rep]
  have "bw_position q < bw_num q" using bw_position_mod [OF st] static_bits(4) [OF st] by simp
  then obtain k where k: "window A (bw_num q) k" "k mod bw_num q = bw_position q"
    using window_exists [of "bw_position q" "bw_num q" A] num(1,2) by (metis le_trans)
  then show ?thesis by (intro claim_loop_law [OF rep k(1)]) (auto simp: window_def)
qed

lemma rep_claims: "bw_rep A P q \<Longrightarrow> (b, i, j) \<in> set P \<Longrightarrow> b < bw_num q"
  unfolding bw_rep_def by blast

lemma bwos_finish_law:
  fixes q :: "('w::len, 'a) bwos"
  assumes rep: "bw_rep A P q" and p: "(b, i, j) \<in> set P"
  defines "q' \<equiv> snd (bwos_finish (b, i, j) q)"
  shows "bw_rep A (remove1 (b, i, j) P) q'" "bb_entries (bw_block q' x) = bb_entries (bw_block q x)" "a_cont A q' = a_cont A q"
proof -
  let ?E = "bw_entriesPerBlock q" let ?N = "bw_num q" let ?n = "bw_bits q" let ?P = "remove1 (b, i, j) P"
  note num = rep_num [OF rep]
  have bN: "b < ?N" using rep p by (auto simp: bw_rep_def)
  have q': "q' = bw_upd q b (\<lambda>k. k\<lparr>bb_stolen := bb_stolen k + of_nat (j - i)\<rparr>)" by (simp add: q'_def bwos_finish_def)
  show ent: "bb_entries (bw_block q' x) = bb_entries (bw_block q x)" for x by (simp add: q' bw_block_upd [OF bN])
  have "a_slice A q' = a_slice A q" by (simp add: a_slice_def fun_eq_iff ent) (simp add: q')
  then show "a_cont A q' = a_cont A q" by (simp add: a_cont_def)
  have sub: "set ?P \<subseteq> set P" by (rule set_remove1_subset)
  show "bw_rep A ?P q'" unfolding q'
  proof (rule rep_upd [OF rep bN])
    show "a_ok A ?E ?N ?n LENGTH('w)" using rep by (simp add: bw_rep_def)
  next
    fix k assume k: "window A ?N k" "k mod ?N = b"
    note ok = rep_block [OF rep k(1), unfolded k(2)]
    have pe: "pend P b = pend ?P b + (j - i)" using pend_remove1 [OF p, of b] by simp
    have st: "bb_stolen (bw_block q b) = cur ?n (k div ?N) (a_res A ?E k - pend P b)" "pend P b \<le> a_res A ?E k"
      using ok k(2) by (simp_all add: block_ok_def)
    have "bb_stolen (bw_block q b) + of_nat (j - i) = cur ?n (k div ?N) (a_res A ?E k - pend P b + (j - i))"
      unfolding st(1) by (simp only: addIndex_cur [unfolded cursor_addIndex_def])
    moreover have "a_res A ?E k - pend P b + (j - i) = a_res A ?E k - pend ?P b" using pe st(2) by simp
    ultimately show "block_ok ?n ?E ?N A ?P k ((bw_block q b)\<lparr>bb_stolen := bb_stolen (bw_block q b) + of_nat (j - i)\<rparr>)"
      using ok k(2) pe sub by (auto simp: block_ok_def)
  next
    fix k assume k: "window A ?N k" "k mod ?N \<noteq> b"
    have "pend P (k mod ?N) = pend ?P (k mod ?N)" using pend_remove1 [OF p, of "k mod ?N"] k(2) by simp
    then show "window A ?N k \<and> (block_ok ?n ?E ?N A P k (bw_block q (k mod ?N)) \<longrightarrow> block_ok ?n ?E ?N A ?P k (bw_block q (k mod ?N)))"
      using k(1) sub by (auto simp: block_ok_def)
  next
    fix x i' j' assume "(x, i', j') \<in> set ?P"
    then show "x < ?N" using rep_claims [OF rep] sub by blast
  qed (use num in simp_all)
qed

section \<open>The contract\<close>

text \<open>The entries a queue holds, oldest first, read off the cursors: those of the consumer's block it has
  not consumed, then those of the blocks ahead that no thief has claimed.\<close>

fun bwos_ahead :: "nat \<Rightarrow> ('w::len, 'a) bwos \<Rightarrow> nat \<Rightarrow> 'w word \<Rightarrow> nat list" where
  "bwos_ahead 0 q b c = []"
| "bwos_ahead (Suc fuel) q b c =
     (let nb = bw_next q b in
      if consumerMayAdvance q nb c then nb # bwos_ahead fuel q nb (bb_reserved (bw_block q nb)) else [])"

definition bwos_unclaimed :: "('w::len, 'a) bwos \<Rightarrow> nat \<Rightarrow> 'w word \<Rightarrow> 'a list" where
  "bwos_unclaimed q b c = segment (bb_entries (bw_block q b)) (bw_index q c) (bw_index q (bb_committed (bw_block q b)))"

definition bwos_contents :: "('w::len, 'a) bwos \<Rightarrow> 'a list" where
  "bwos_contents q =
     (let b = bw_consumer q; c = bb_consumed (bw_block q b) in
      bwos_unclaimed q b c @ concat (map (\<lambda>b. bwos_unclaimed q b (bb_reserved (bw_block q b))) (bwos_ahead (bw_num q) q b c)))"

lemma bwos_ahead_blocks:
  assumes rep: "bw_rep A P q"
  shows "a_kc A \<le> k \<Longrightarrow> k \<le> a_kp A \<Longrightarrow> a_kp A - k \<le> fuel \<Longrightarrow> bw_version q c = of_nat (k div bw_num q) \<Longrightarrow>
    bwos_ahead fuel q (k mod bw_num q) c = map (\<lambda>k. k mod bw_num q) [Suc k..<Suc (a_kp A)]"
proof (induction fuel arbitrary: k c)
  case 0
  then show ?case by simp
next
  case (Suc fuel)
  have kN: "a_kp A \<le> k + bw_num q" using rep_num(3) [OF rep] Suc.prems(1) by simp
  note adv = may_advance_iff [OF rep kN Suc.prems(2,4)]
  show ?case
  proof (cases "k < a_kp A")
    case True
    then have w: "window A (bw_num q) (Suc k)" using kN by (simp add: window_def)
    have "bwos_ahead fuel q (Suc k mod bw_num q) (bb_reserved (bw_block q (Suc k mod bw_num q))) = map (\<lambda>k. k mod bw_num q) [Suc (Suc k)..<Suc (a_kp A)]"
      by (rule Suc.IH) (use True Suc.prems(1,3) rep_reads(3) [OF rep w] in simp_all)
    moreover have "[Suc k..<Suc (a_kp A)] = Suc k # [Suc (Suc k)..<Suc (a_kp A)]" using True by (simp add: upt_conv_Cons)
    ultimately show ?thesis using adv(1) True by (simp add: consumerMayAdvance_def next_block [OF rep] Let_def del: upt_Suc)
  next
    case False
    then show ?thesis using adv(1) Suc.prems(2) by (simp add: consumerMayAdvance_def next_block [OF rep] Let_def)
  qed
qed

lemma bwos_contents_rep:
  assumes rep: "bw_rep A P q"
  shows "bwos_contents q = a_cont A q"
proof -
  let ?N = "bw_num q" let ?E = "bw_entriesPerBlock q"
  note num = rep_num [OF rep] and cr = rep_consumer [OF rep]
  have first: "bwos_unclaimed q (a_kc A mod ?N) (bb_consumed (bw_block q (a_kc A mod ?N))) = a_slice A q (a_kc A)"
  proof (cases "a_d A < ?E")
    case True
    then show ?thesis using rep_reads(1) [OF rep cr(4) [OF True]] cr(2) by (simp add: bwos_unclaimed_def a_slice_def a_lo_def)
  next
    case False
    then have d: "a_d A = ?E" using cr(5) by simp
    obtain k where "window A ?N k" "k mod ?N = a_kc A mod ?N"
      using window_exists [of "a_kc A mod ?N" ?N A] static_bits(4) [OF rep_static [OF rep]] num(1,2) by (metis le_trans mod_less_divisor)
    then have "bw_index q (bb_committed (bw_block q (a_kc A mod ?N))) \<le> ?E" using rep_reads(1) [OF rep] com_le [OF rep] by metis
    then show ?thesis using d cr(2) com_le [OF rep, of "a_kc A"] by (simp add: bwos_unclaimed_def a_slice_def a_lo_def)
  qed
  have rest: "bwos_unclaimed q (k mod ?N) (bb_reserved (bw_block q (k mod ?N))) = a_slice A q k" if "k \<in> set [Suc (a_kc A)..<Suc (a_kp A)]" for k
  proof -
    have "window A ?N k" using that num(3) by (auto simp: window_def)
    then show ?thesis using rep_reads(1,2) [OF rep, of k] that by (auto simp: bwos_unclaimed_def a_slice_def a_lo_def a_res_def)
  qed
  have "bwos_ahead ?N q (a_kc A mod ?N) (bb_consumed (bw_block q (a_kc A mod ?N))) = map (\<lambda>k. k mod ?N) [Suc (a_kc A)..<Suc (a_kp A)]"
    by (rule bwos_ahead_blocks [OF rep _ _ _ cr(3)]) (use num(2,3) in simp_all)
  then have "bwos_contents q = a_slice A q (a_kc A)
      @ concat (map (\<lambda>k. bwos_unclaimed q (k mod ?N) (bb_reserved (bw_block q (k mod ?N)))) [Suc (a_kc A)..<Suc (a_kp A)])"
    unfolding bwos_contents_def Let_def num(9) first by (simp only: map_map comp_def)
  also have "\<dots> = a_slice A q (a_kc A) @ concat (map (a_slice A q) [Suc (a_kc A)..<Suc (a_kp A)])"
    using rest by (simp only: cong: map_cong)
  finally show ?thesis unfolding cont_consumer [OF rep] .
qed

definition bwos_inv :: "('w::len, 'a) bwos \<Rightarrow> bool" where
  "bwos_inv q \<longleftrightarrow> (\<exists>A. bw_rep A [] q)"

lemma keeps_contents: "keeps P q q' xs \<Longrightarrow> bwos_contents q' = xs"
  using bwos_contents_rep by (auto simp: keeps_def)

lemma keeps_inv: "keeps [] q q' xs \<Longrightarrow> bwos_inv q' \<and> bwos_contents q' = xs"
  using keeps_contents [of "[]" q q' xs] by (simp add: bwos_inv_def) (auto simp: keeps_def)

lemma bwos_push_inv:
  assumes "bwos_inv q" "bwos_push q x = (ok, q')"
  shows "bwos_inv q' \<and> bwos_contents q' = bwos_contents q @ (if ok then [x] else [])"
proof -
  from assms(1) obtain A where rep: "bw_rep A [] q" by (auto simp: bwos_inv_def)
  from bwos_push_law [OF rep, of x] assms(2) have "keeps [] q q' (a_cont A q @ (if ok then [x] else []))" by (auto simp: bwos_push_def)
  from keeps_inv [OF this] bwos_contents_rep [OF rep] show ?thesis by simp
qed

lemma bwos_pushBatch_inv:
  assumes "bwos_inv q" "bwos_pushBatch q xs = (n, q')"
  shows "bwos_inv q' \<and> n \<le> length xs \<and> bwos_contents q' = bwos_contents q @ take n xs"
proof -
  from assms(1) obtain A where rep: "bw_rep A [] q" by (auto simp: bwos_inv_def)
  have "length xs + (if a_c A < bw_entriesPerBlock q then 0 else 1) \<le> length xs + 1" by simp
  from bwos_pushBatch_law [OF rep this, of 0] obtain m q1 where
    "bwos_pushBatch_loop (length xs + 1) q xs 0 = Some (0 + m, q1)" "m \<le> length xs" "keeps [] q q1 (a_cont A q @ take m xs)" by blast
  then show ?thesis using assms(2) keeps_inv bwos_contents_rep [OF rep] by (auto simp: bwos_pushBatch_def)
qed

lemma bwos_pop_inv:
  assumes "bwos_inv q" "bwos_pop q = (r, q')"
  shows "bwos_inv q' \<and> (case r of None \<Rightarrow> bwos_contents q = [] \<and> bwos_contents q' = [] | Some x \<Rightarrow> bwos_contents q = x # bwos_contents q')"
proof -
  from assms(1) obtain A where rep: "bw_rep A [] q" by (auto simp: bwos_inv_def)
  from bwos_pop_law [OF rep assms(2)] show ?thesis using keeps_inv bwos_contents_rep [OF rep] by (cases r) fastforce+
qed

lemma bwos_popBlock_inv:
  assumes "bwos_inv q" "bwos_popBlock q = (xs, q')"
  shows "bwos_inv q' \<and> bwos_contents q = xs @ bwos_contents q' \<and> (xs = [] \<longrightarrow> bwos_contents q = [])"
proof -
  from assms(1) obtain A where rep: "bw_rep A [] q" by (auto simp: bwos_inv_def)
  from bwos_popBlock_law [OF rep assms(2)] show ?thesis using keeps_inv bwos_contents_rep [OF rep] by fastforce
qed

text \<open>A claim followed at once by its completion.\<close>

lemma bwos_claim_finish:
  assumes "bwos_inv q" "bwos_claim one q = (r, q1)"
  shows "r = None \<Longrightarrow> bwos_inv q1 \<and> bwos_contents q1 = bwos_contents q"
    "r = Some p \<Longrightarrow> bwos_finish p q1 = (xs, q2) \<Longrightarrow>
      bwos_inv q2 \<and> xs \<noteq> [] \<and> (one \<longrightarrow> length xs = 1) \<and> (\<exists>as bs. bwos_contents q = as @ xs @ bs \<and> bwos_contents q2 = as @ bs)"
proof -
  from assms(1) obtain A where rep: "bw_rep A [] q" by (auto simp: bwos_inv_def)
  have cl: "claimed one A [] q r q1" using bwos_claim_law [OF rep, of one] assms(2) by (auto simp: bwos_claim_def)
  show "bwos_inv q1 \<and> bwos_contents q1 = bwos_contents q" if "r = None"
    using cl that bwos_contents_rep [OF rep] bwos_contents_rep by (fastforce simp: claimed_def bwos_inv_def)
  show "bwos_inv q2 \<and> xs \<noteq> [] \<and> (one \<longrightarrow> length xs = 1) \<and> (\<exists>as bs. bwos_contents q = as @ xs @ bs \<and> bwos_contents q2 = as @ bs)"
    if r: "r = Some p" and f: "bwos_finish p q1 = (xs, q2)"
  proof -
    obtain b i j where p: "p = (b, i, j)" by (metis prod_cases3)
    from cl r p obtain A' as bs where c: "\<And>x. bb_entries (bw_block q1 x) = bb_entries (bw_block q x)" "i < j"
      "j \<le> length (bb_entries (bw_block q b))" "one \<longrightarrow> j = Suc i" "bw_rep A' [(b, i, j)] q1"
      "a_cont A q = as @ segment (bb_entries (bw_block q b)) i j @ bs" "a_cont A' q1 = as @ bs"
      by (auto simp: claimed_def)
    note fin = bwos_finish_law [OF c(5), of b i j]
    have q2: "q2 = snd (bwos_finish (b, i, j) q1)" "xs = segment (bb_entries (bw_block q b)) i j"
      using f p c(1) by (simp_all add: bwos_finish_def)
    have "bw_rep A' [] q2" "a_cont A' q2 = as @ bs" using fin(1,3) c(7) q2(1) by simp_all
    moreover have "length xs = j - i" using c(3) q2(2) by (simp add: length_segment)
    ultimately show ?thesis using c(2,4,6) q2(2) bwos_contents_rep [OF rep] bwos_contents_rep [of A' "[]" q2]
      by (auto simp: bwos_inv_def)
  qed
qed

lemma bwos_steal_inv:
  assumes "bwos_inv q" "bwos_steal q = (r, q')"
  shows "bwos_inv q' \<and> (case r of None \<Rightarrow> bwos_contents q' = bwos_contents q
    | Some x \<Rightarrow> \<exists>as bs. bwos_contents q = as @ x # bs \<and> bwos_contents q' = as @ bs)"
proof -
  obtain c q1 where c: "bwos_claim True q = (c, q1)" by (cases "bwos_claim True q")
  note cf = bwos_claim_finish [OF assms(1) c]
  show ?thesis
  proof (cases c)
    case None
    then have "r = None" "q' = q1" using assms(2) c by (simp_all add: bwos_steal_def)
    then show ?thesis using cf(1) [OF None] by simp
  next
    case (Some p)
    obtain xs q2 where f: "bwos_finish p q1 = (xs, q2)" by (cases "bwos_finish p q1")
    have "r = Some (hd xs)" "q' = q2" using assms(2) c Some f by (simp_all add: bwos_steal_def)
    moreover obtain x where "xs = [x]" using cf(2) [OF Some f] by (auto simp: length_Suc_conv)
    ultimately show ?thesis using cf(2) [OF Some f] by auto
  qed
qed

lemma bwos_stealBlock_inv:
  assumes "bwos_inv q" "bwos_stealBlock q = (xs, q')"
  shows "bwos_inv q' \<and> (\<exists>as bs. bwos_contents q = as @ xs @ bs \<and> bwos_contents q' = as @ bs)"
proof -
  obtain c q1 where c: "bwos_claim False q = (c, q1)" by (cases "bwos_claim False q")
  note cf = bwos_claim_finish [OF assms(1) c]
  show ?thesis
  proof (cases c)
    case None
    then have "xs = []" "q' = q1" using assms(2) c by (simp_all add: bwos_stealBlock_def)
    then show ?thesis using cf(1) [OF None] by (auto intro: exI [of _ "[]"])
  next
    case (Some p)
    then have "bwos_finish p q1 = (xs, q')" using assms(2) c by (simp add: bwos_stealBlock_def)
    then show ?thesis using cf(2) [OF Some] by blast
  qed
qed

lemma bwos_hasEntries_inv: "bwos_inv q \<Longrightarrow> bwos_hasEntries q \<longleftrightarrow> bwos_contents q \<noteq> []"
  using bwos_hasEntries_law bwos_contents_rep by (fastforce simp: bwos_inv_def)

interpretation bwos: work_queue bwos_push bwos_pop bwos_popBlock bwos_steal bwos_stealBlock
  bwos_hasEntries bwos_contents bwos_inv
proof (unfold_locales, goal_cases)
  case (1 q x q')
  from bwos_push_inv [OF this] show ?case by simp
next
  case (2 q x q')
  from bwos_push_inv [OF this] show ?case by simp
next
  case (3 q q')
  from bwos_pop_inv [OF this] show ?case by simp
next
  case (4 q x q')
  from bwos_pop_inv [OF this] show ?case by simp
next
  case (5 q xs q')
  from bwos_popBlock_inv [OF this] show ?case .
next
  case (6 q q')
  from bwos_steal_inv [OF this] show ?case by simp
next
  case (7 q x q')
  from bwos_steal_inv [OF this] show ?case by simp
next
  case (8 q xs q')
  from bwos_stealBlock_inv [OF this] show ?case .
next
  case (9 q)
  from bwos_hasEntries_inv [OF this] show ?case .
qed

section \<open>A new queue\<close>

lemma bwos_new_rep:
  assumes "1 \<le> E" "2 \<le> N" "N = 2 ^ m" "m < LENGTH('w)" "bitsToHold E < LENGTH('w)"
  shows "bw_rep \<lparr>a_kp = N, a_kc = N, a_c = 0, a_d = 0, a_r = \<lambda>_. 0\<rparr> [] (bwos_new N E u :: ('w::len, 'a) bwos)"
proof -
  let ?q = "bwos_new N E u :: ('w, 'a) bwos" let ?A = "\<lparr>a_kp = N, a_kc = N, a_c = 0, a_d = 0, a_r = \<lambda>_. 0\<rparr>" let ?n = "bitsToHold E"
  have fr: "bw_num ?q = N" "bw_entriesPerBlock ?q = E" "bw_bits ?q = ?n" by (simp_all add: bwos_new_def bw_bits_def)
  have one: "(1 :: nat) < 2 ^ (LENGTH('w) - ?n)" using assms(5) one_less_power [of "2 :: nat" "LENGTH('w) - ?n"] by simp
  have E: "E < 2 ^ ?n" "(0 :: nat) < 2 ^ ?n" by (simp_all add: bitsToHold_upper)
  have mk: "cursor_make ?n 1 0 = (cur ?n 1 0 :: 'w word)" "cursor_make ?n 0 (of_nat E) = (cur ?n 0 E :: 'w word)"
    "cursor_make ?n 1 (of_nat E) = (cur ?n 1 E :: 'w word)"
    using make_cur [of 0 ?n 1, where 'w = 'w] make_cur [of E ?n 0, where 'w = 'w] make_cur [of E ?n 1, where 'w = 'w] E assms(5) by simp_all
  have "block_ok ?n E N ?A [] k (bw_block ?q (k mod N))" if w: "window ?A N k" for k
  proof -
    have b: "bw_block ?q i = \<lparr>bb_committed = if i = 0 then cur ?n 1 0 else cur ?n 0 E, bb_consumed = if i = 0 then cur ?n 1 0 else cur ?n 0 E,
        bb_reserved = if i = 0 then cur ?n 1 E else cur ?n 0 E, bb_stolen = if i = 0 then cur ?n 1 E else cur ?n 0 E,
        bb_isHead = (i = 0), bb_entries = replicate E u\<rparr>" if "i < N" for i
      using that by (auto simp: bw_block_def bwos_new_def Let_def mk)
    have iN: "k mod N < N" using assms(2) by simp
    show ?thesis
    proof (cases "k = N")
      case True
      then show ?thesis using assms(2) by (simp add: b [of 0] block_ok_def a_com_def a_res_def a_cons_def)
    next
      case False
      then have "0 < k" "k < N" using w by (auto simp: window_def)
      then show ?thesis by (simp add: b [of k] block_ok_def a_com_def a_res_def a_cons_def)
    qed
  qed
  moreover have "bw_static ?q" unfolding bw_static_def fr using assms by blast
  moreover have "a_ok ?A E N ?n LENGTH('w)" using one assms(2) by (simp add: a_ok_def a_com_def)
  ultimately show ?thesis unfolding bw_rep_def fr by (simp add: bwos_new_def)
qed

lemma bwos_new_inv:
  assumes "1 \<le> E" "2 \<le> N" "N = 2 ^ m" "m < LENGTH('w)" "bitsToHold E < LENGTH('w)"
  shows "bwos_inv (bwos_new N E u :: ('w::len, 'a) bwos)" "bwos_contents (bwos_new N E u :: ('w, 'a) bwos) = []"
proof -
  note rep = bwos_new_rep [OF assms, of u]
  then show "bwos_inv (bwos_new N E u :: ('w::len, 'a) bwos)" by (auto simp: bwos_inv_def)
  show "bwos_contents (bwos_new N E u :: ('w, 'a) bwos) = []"
    unfolding bwos_contents_rep [OF rep] by (simp add: a_cont_def a_slice_def a_lo_def a_com_def)
qed

section \<open>Thieves with outstanding claims\<close>

text \<open>The queue, the claims whose entries are not copied yet, everything accepted and everything handed
  out so far.\<close>

record (overloaded) ('w, 'a) bwos_sys =
  bs_queue :: "('w::len, 'a) bwos"
  bs_claims :: "claim list"
  bs_in :: "'a list"
  bs_out :: "'a list"

inductive bwos_step :: "('w::len, 'a) bwos_sys \<Rightarrow> ('w, 'a) bwos_sys \<Rightarrow> bool" where
  Push: "bwos_push (bs_queue s) x = (ok, q') \<Longrightarrow> bwos_step s (s\<lparr>bs_queue := q', bs_in := bs_in s @ (if ok then [x] else [])\<rparr>)"
| PushBatch: "bwos_pushBatch (bs_queue s) xs = (n, q') \<Longrightarrow> bwos_step s (s\<lparr>bs_queue := q', bs_in := bs_in s @ take n xs\<rparr>)"
| Pop: "bwos_pop (bs_queue s) = (r, q') \<Longrightarrow>
    bwos_step s (s\<lparr>bs_queue := q', bs_out := bs_out s @ (case r of None \<Rightarrow> [] | Some x \<Rightarrow> [x])\<rparr>)"
| PopBlock: "bwos_popBlock (bs_queue s) = (xs, q') \<Longrightarrow> bwos_step s (s\<lparr>bs_queue := q', bs_out := bs_out s @ xs\<rparr>)"
| Claim: "bwos_claim one (bs_queue s) = (r, q') \<Longrightarrow>
    bwos_step s (s\<lparr>bs_queue := q', bs_claims := (case r of None \<Rightarrow> bs_claims s | Some p \<Rightarrow> p # bs_claims s)\<rparr>)"
| Finish: "p \<in> set (bs_claims s) \<Longrightarrow> bwos_finish p (bs_queue s) = (xs, q') \<Longrightarrow>
    bwos_step s (s\<lparr>bs_queue := q', bs_claims := remove1 p (bs_claims s), bs_out := bs_out s @ xs\<rparr>)"

definition claimed_entries :: "('w::len, 'a) bwos \<Rightarrow> claim \<Rightarrow> 'a list" where
  "claimed_entries q p = (case p of (b, i, j) \<Rightarrow> segment (bb_entries (bw_block q b)) i j)"

definition bs_inv :: "('w::len, 'a) bwos_sys \<Rightarrow> bool" where
  "bs_inv s \<longleftrightarrow> (\<exists>A. bw_rep A (bs_claims s) (bs_queue s)) \<and>
     mset (bs_in s) = mset (bs_out s) + mset (bwos_contents (bs_queue s))
       + mset (concat (map (claimed_entries (bs_queue s)) (bs_claims s)))"

definition bs_init :: "nat \<Rightarrow> nat \<Rightarrow> ('w::len, 'a) bwos_sys \<Rightarrow> bool" where
  "bs_init N E s \<longleftrightarrow> 1 \<le> E \<and> 2 \<le> N \<and> isPowerOfTwo (of_nat N :: 'w word) \<and> N < 2 ^ LENGTH('w) \<and> bitsToHold E < LENGTH('w)
     \<and> (\<exists>u. s = \<lparr>bs_queue = bwos_new N E u, bs_claims = [], bs_in = [], bs_out = []\<rparr>)"

lemma claimed_same:
  "(\<And>b i j. (b, i, j) \<in> set P \<Longrightarrow> segment (bb_entries (bw_block q' b)) i j = segment (bb_entries (bw_block q b)) i j) \<Longrightarrow>
    map (claimed_entries q') P = map (claimed_entries q) P"
  by (auto simp: claimed_entries_def)

lemma mset_concat_remove1:
  "p \<in> set P \<Longrightarrow> mset (concat (map f P)) = mset (f p) + mset (concat (map f (remove1 p P)))"
  by (induction P) auto

text \<open>An operation of the owner.\<close>

lemma bs_inv_owner:
  assumes "keeps (bs_claims s) (bs_queue s) q' ys" "mset (bs_in s') = mset (bs_out s') + mset ys
      + mset (concat (map (claimed_entries (bs_queue s)) (bs_claims s)))"
    "bs_queue s' = q'" "bs_claims s' = bs_claims s"
  shows "bs_inv s'"
proof -
  have same: "map (claimed_entries q') (bs_claims s) = map (claimed_entries (bs_queue s)) (bs_claims s)"
    using assms(1) by (intro claimed_same) (auto simp: keeps_def)
  have "\<exists>A. bw_rep A (bs_claims s) q'" using assms(1) by (auto simp: keeps_def)
  then show ?thesis unfolding bs_inv_def assms(3,4) same keeps_contents [OF assms(1)] using assms(2) by blast
qed

lemma bs_inv_step:
  assumes inv: "bs_inv s" and step: "bwos_step s s'"
  shows "bs_inv s'"
proof -
  let ?q = "bs_queue s" let ?P = "bs_claims s"
  from inv obtain A where rep: "bw_rep A ?P ?q"
    and m: "mset (bs_in s) = mset (bs_out s) + mset (a_cont A ?q) + mset (concat (map (claimed_entries ?q) ?P))"
    using bwos_contents_rep by (fastforce simp: bs_inv_def)
  show ?thesis using step
  proof cases
    case (Push x ok q')
    then have "keeps ?P ?q q' (a_cont A ?q @ (if ok then [x] else []))" using bwos_push_law [OF rep, of x] by (auto simp: bwos_push_def)
    then show ?thesis by (rule bs_inv_owner) (use Push m in auto)
  next
    case (PushBatch xs n q')
    have "length xs + (if a_c A < bw_entriesPerBlock ?q then 0 else 1) \<le> length xs + 1" by simp
    from bwos_pushBatch_law [OF rep this, of 0] have "keeps ?P ?q q' (a_cont A ?q @ take n xs)" using PushBatch by (auto simp: bwos_pushBatch_def)
    then show ?thesis by (rule bs_inv_owner) (use PushBatch m in auto)
  next
    case (Pop r q')
    obtain ys where "keeps ?P ?q q' ys" "a_cont A ?q = (case r of None \<Rightarrow> [] | Some x \<Rightarrow> [x]) @ ys"
      using bwos_pop_law [OF rep Pop(2)] by (cases r) auto
    then show ?thesis using Pop m by (intro bs_inv_owner) auto
  next
    case (PopBlock xs q')
    obtain ys where "keeps ?P ?q q' ys" "a_cont A ?q = xs @ ys" using bwos_popBlock_law [OF rep PopBlock(2)] by auto
    then show ?thesis using PopBlock m by (intro bs_inv_owner) auto
  next
    case (Claim one r q')
    have cl: "claimed one A ?P ?q r q'" using bwos_claim_law [OF rep, of one] Claim(2) by (auto simp: bwos_claim_def)
    have same: "claimed_entries q' = claimed_entries ?q" using cl by (auto simp: claimed_def claimed_entries_def fun_eq_iff)
    show ?thesis
    proof (cases r)
      case None
      then have "bw_rep A ?P q'" "a_cont A q' = a_cont A ?q" using cl by (simp_all add: claimed_def)
      then show ?thesis using Claim(1) None m same bwos_contents_rep [of A ?P q'] by (auto simp: bs_inv_def)
    next
      case (Some p)
      obtain b i j where p: "p = (b, i, j)" by (metis prod_cases3)
      from cl Some p obtain A' as bs where c: "bw_rep A' (p # ?P) q'"
        "a_cont A ?q = as @ segment (bb_entries (bw_block ?q b)) i j @ bs" "a_cont A' q' = as @ bs"
        by (auto simp: claimed_def)
      then have "mset (a_cont A ?q) = mset (claimed_entries ?q p) + mset (a_cont A' q')" by (simp add: p claimed_entries_def)
      then show ?thesis using Claim(1) Some m same c(1) bwos_contents_rep [OF c(1)] by (auto simp: bs_inv_def)
    qed
  next
    case (Finish p xs q')
    obtain b i j where p: "p = (b, i, j)" by (metis prod_cases3)
    note f = bwos_finish_law [OF rep, of b i j]
    have q': "q' = snd (bwos_finish (b, i, j) ?q)" "xs = claimed_entries ?q p" using Finish(3) p by (auto simp: bwos_finish_def claimed_entries_def)
    have pin: "(b, i, j) \<in> set ?P" using Finish(2) p by simp
    have "bw_rep A (remove1 p ?P) q'" "a_cont A q' = a_cont A ?q" using f(1,3) pin q'(1) p by auto
    moreover have "claimed_entries q' = claimed_entries ?q" using f(2) [OF pin] q'(1) by (auto simp: claimed_entries_def fun_eq_iff)
    moreover have "mset (concat (map (claimed_entries ?q) ?P)) = mset xs + mset (concat (map (claimed_entries ?q) (remove1 p ?P)))"
      unfolding q'(2) by (rule mset_concat_remove1) (rule Finish(2))
    ultimately show ?thesis using Finish(1) m bwos_contents_rep [of A "remove1 p ?P" q'] by (auto simp: bs_inv_def)
  qed
qed

lemma bs_inv_init:
  assumes "bs_init N E (s :: ('w::len, 'a) bwos_sys)"
  shows "bs_inv s"
proof -
  from assms obtain u where s: "s = \<lparr>bs_queue = bwos_new N E u, bs_claims = [], bs_in = [], bs_out = []\<rparr>"
    and N: "1 \<le> E" "2 \<le> N" "isPowerOfTwo (of_nat N :: 'w word)" "N < 2 ^ LENGTH('w)" "bitsToHold E < LENGTH('w)"
    by (auto simp: bs_init_def)
  obtain m where m: "N = 2 ^ m" using isPowerOfTwo_exp [OF N(3)] N(4) by (auto simp: unat_of_nat_small)
  then have "m < LENGTH('w)" using N(4) by simp
  with bwos_new_rep [OF N(1,2) m _ N(5), of u] bwos_new_inv(2) [OF N(1,2) m _ N(5), of u] show ?thesis
    by (auto simp: bs_inv_def s)
qed

interpretation bwos_threads: step_system "bs_init N E" bwos_step bs_inv
  by unfold_locales (auto intro: bs_inv_init bs_inv_step)

lemma bwos_size:
  assumes rep: "bw_rep A P q"
  shows "length (a_cont A q) \<le> bw_num q * bw_entriesPerBlock q"
proof -
  let ?E = "bw_entriesPerBlock q" let ?N = "bw_num q"
  note num = rep_num [OF rep]
  have le: "length (a_slice A q k) \<le> ?E" for k
    using com_le [OF rep, of k] by (simp add: a_slice_def segment_def) 
  have sum: "length (concat (map (a_slice A q) ks)) \<le> length ks * ?E" for ks
    using le by (induction ks) (simp_all add: add_le_mono)
  show ?thesis
  proof (cases "a_kp A = a_kc A + ?N")
    case True
    then have "a_slice A q (a_kc A) = []" using num(7) com_le [OF rep, of "a_kc A"] by (simp add: a_slice_def a_lo_def)
    then have "a_cont A q = concat (map (a_slice A q) [Suc (a_kc A)..<Suc (a_kp A)])" using cont_consumer [OF rep] by (simp del: upt_Suc)
    then show ?thesis using sum [of "[Suc (a_kc A)..<Suc (a_kp A)]"] True by (simp del: upt_Suc)
  next
    case False
    then have "length [a_kc A..<Suc (a_kp A)] \<le> ?N" using num(2,3) by simp
    then have "length [a_kc A..<Suc (a_kp A)] * ?E \<le> ?N * ?E" by (rule mult_le_mono1)
    then show ?thesis using sum [of "[a_kc A..<Suc (a_kp A)]"] unfolding a_cont_def by linarith
  qed
qed

lemma not_writable_own_version:
  assumes "bw_rep A P q"
  shows "\<not> isNextBlockWritable q (bw_next q (bw_producer q)) (bw_version q (bb_committed (bw_block q (bw_next q (bw_producer q)))))"
proof -
  note old = oldest_block [OF assms] and num = rep_num [OF assms]
  let ?k = "Suc (a_kp A) - bw_num q" let ?b = "bw_block q (?k mod bw_num q)"
  have nb: "bw_next q (bw_producer q) = ?k mod bw_num q" using old(7) num(8) by simp
  have k: "?k div bw_num q < 2 ^ (LENGTH('a) - bw_bits q)" using window_version [OF assms] old(1) by (simp add: window_def)
  have "bw_version q (bb_stolen ?b) = bw_version q (bb_committed ?b)"
    using rep_block [OF assms old(1)] rep_reads(4,7) [OF assms old(1)] bw_version_cur [OF rep_static [OF assms] k] by (simp add: block_ok_def)
  then show ?thesis by (simp add: nb isNextBlockWritable_def Let_def)
qed

text \<open>A run: an entry goes through, a second one is claimed by a thief that has not copied it yet.\<close>

definition demo_q0 :: "(64, nat) bwos" where "demo_q0 = bwos_new 2 1 0"
definition demo_q1 :: "(64, nat) bwos" where "demo_q1 = snd (bwos_push demo_q0 7)"
definition demo_q2 :: "(64, nat) bwos" where "demo_q2 = snd (bwos_pop demo_q1)"
definition demo_q3 :: "(64, nat) bwos" where "demo_q3 = snd (bwos_push demo_q2 8)"
definition demo_q4 :: "(64, nat) bwos" where "demo_q4 = snd (bwos_claim True demo_q3)"

definition demo_s0 :: "(64, nat) bwos_sys" where
  "demo_s0 = \<lparr>bs_queue = demo_q0, bs_claims = [], bs_in = [], bs_out = []\<rparr>"

definition demo_s4 :: "(64, nat) bwos_sys" where
  "demo_s4 = \<lparr>bs_queue = demo_q4, bs_claims = [(1, 0, 1)], bs_in = [7, 8], bs_out = [7]\<rparr>"

lemma demo_ops:
  "bwos_push demo_q0 7 = (True, demo_q1)" "bwos_pop demo_q1 = (Some 7, demo_q2)"
  "bwos_push demo_q2 8 = (True, demo_q3)" "bwos_claim True demo_q3 = (Some (1, 0, 1), demo_q4)"
proof -
  have "fst (bwos_push demo_q0 7) = True" "fst (bwos_pop demo_q1) = Some 7" "fst (bwos_push demo_q2 8) = True"
    "fst (bwos_claim True demo_q3) = Some (1, 0, 1)" by code_simp+
  then show "bwos_push demo_q0 7 = (True, demo_q1)" "bwos_pop demo_q1 = (Some 7, demo_q2)"
    "bwos_push demo_q2 8 = (True, demo_q3)" "bwos_claim True demo_q3 = (Some (1, 0, 1), demo_q4)"
    unfolding demo_q1_def demo_q2_def demo_q3_def demo_q4_def by (simp_all add: prod_eq_iff)
qed

lemma demo_bwos_init: "bs_init 2 1 demo_s0"
  unfolding bs_init_def demo_s0_def demo_q0_def by (auto simp: isPowerOfTwo_def bitsToHold.simps)

lemma demo_run: "bwos_step\<^sup>*\<^sup>* demo_s0 demo_s4"
proof -
  let ?s = "\<lambda>q xs. \<lparr>bs_queue = q, bs_claims = [], bs_in = xs, bs_out = []\<rparr> :: (64, nat) bwos_sys"
  have 1: "bwos_step demo_s0 (?s demo_q1 [7])" using Push [of demo_s0 7 True demo_q1] demo_ops(1) by (simp add: demo_s0_def)
  have 2: "bwos_step (?s demo_q1 [7]) (?s demo_q2 [7]\<lparr>bs_out := [7]\<rparr>)" using Pop [of "?s demo_q1 [7]" "Some 7" demo_q2] demo_ops(2) by simp
  have 3: "bwos_step (?s demo_q2 [7]\<lparr>bs_out := [7]\<rparr>) (?s demo_q3 [7, 8]\<lparr>bs_out := [7]\<rparr>)"
    using Push [of "?s demo_q2 [7]\<lparr>bs_out := [7]\<rparr>" 8 True demo_q3] demo_ops(3) by simp
  have 4: "bwos_step (?s demo_q3 [7, 8]\<lparr>bs_out := [7]\<rparr>) demo_s4"
    using Claim [of True "?s demo_q3 [7, 8]\<lparr>bs_out := [7]\<rparr>" "Some (1, 0, 1)" demo_q4] demo_ops(4) by (simp add: demo_s4_def)
  from 1 2 3 4 show ?thesis by (meson converse_rtranclp_into_rtranclp rtranclp.rtrancl_refl)
qed

section \<open>Properties\<close>

text \<open>C18: whatever the owner pushes, pops and hands off in blocks while any number of thieves claim entries and
  copy them out later, every entry the queue accepted was handed out once, is still queued, or is
  under a claim whose entries are still unchanged in its block; no entry is lost, duplicated or
  overwritten before it is copied.\<close>

theorem bwos_exactly_once:
  assumes "bs_init N E s" "bwos_step\<^sup>*\<^sup>* s s'"
  shows "mset (bs_in s') = mset (bs_out s') + mset (bwos_contents (bs_queue s'))
    + mset (concat (map (claimed_entries (bs_queue s')) (bs_claims s')))"
  using bwos_threads.reachable_inv [OF assms] by (simp add: bs_inv_def)

theorem bwos_exactly_once_witness:
  "bs_init 2 1 demo_s0 \<and> bwos_step\<^sup>*\<^sup>* demo_s0 demo_s4 \<and> bs_claims demo_s4 = [(1, 0, 1)]
    \<and> mset [7, 8] = mset [7] + mset (bwos_contents demo_q4) + mset (claimed_entries demo_q4 (1, 0, 1))"
  using bwos_exactly_once [OF demo_bwos_init demo_run] demo_bwos_init demo_run by (simp add: demo_s4_def)

text \<open>C19: the loops of the operations end: pushing looks at no more than two blocks, a thief at no more
  than all of them, and a batch push at no more blocks than it has entries, plus one.\<close>

theorem bwos_loops_end:
  assumes "bs_init N E s" "bwos_step\<^sup>*\<^sup>* s s'"
  shows "bwos_push_loop 2 (bs_queue s') x \<noteq> None \<and> bwos_claim_loop (bw_num (bs_queue s')) one (bs_queue s') \<noteq> None
    \<and> bwos_pushBatch_loop (length xs + 1) (bs_queue s') xs 0 \<noteq> None"
proof -
  from bwos_threads.reachable_inv [OF assms] obtain A where rep: "bw_rep A (bs_claims s') (bs_queue s')" by (auto simp: bs_inv_def)
  have "length xs + (if a_c A < bw_entriesPerBlock (bs_queue s') then 0 else 1) \<le> length xs + 1" by simp
  from bwos_pushBatch_law [OF rep this, of 0] bwos_push_law [OF rep, of x] bwos_claim_law [OF rep, of one] show ?thesis by auto
qed

theorem bwos_loops_end_witness:
  "bwos_push_loop 2 (bs_queue demo_s4) 9 \<noteq> None \<and> bwos_claim_loop 2 False (bs_queue demo_s4) \<noteq> None
    \<and> bwos_pushBatch_loop (length [1, 2, 3 :: nat] + 1) (bs_queue demo_s4) [1, 2, 3] 0 \<noteq> None"
proof -
  have two: "bw_num (bs_queue demo_s4) = 2" by code_simp
  show ?thesis using bwos_loops_end [OF demo_bwos_init demo_run, of 9 False "[1, 2, 3]"] unfolding two .
qed

text \<open>\<open>minRemainingSlots\<close> only ever counts the producer's current block: the next block is never found
  writable, because it is compared with its own round instead of the round the producer would enter
  it in.\<close>

theorem bwos_minRemainingSlots_own_block:
  assumes "bs_init N E s" "bwos_step\<^sup>*\<^sup>* s s'"
  defines "q \<equiv> bs_queue s'"
  shows "bwos_minRemainingSlots q = bw_entriesPerBlock q - bw_index q (bb_committed (bw_block q (bw_producer q)))"
proof -
  from bwos_threads.reachable_inv [OF assms(1,2)] obtain A where "bw_rep A (bs_claims s') q" by (auto simp: bs_inv_def q_def)
  from not_writable_own_version [OF this] show ?thesis by (simp add: bwos_minRemainingSlots_def Let_def)
qed

theorem bwos_minRemainingSlots_own_block_witness:
  "bs_init 2 1 demo_s0 \<and> bwos_step\<^sup>*\<^sup>* demo_s0 demo_s4 \<and> bwos_minRemainingSlots (bs_queue demo_s4) = 0 \<and> fst (bwos_push (bs_queue demo_s4) 9)"
proof -
  have "bw_entriesPerBlock (bs_queue demo_s4)
      - bw_index (bs_queue demo_s4) (bb_committed (bw_block (bs_queue demo_s4) (bw_producer (bs_queue demo_s4)))) = 0" by code_simp
  moreover have "fst (bwos_push (bs_queue demo_s4) 9)" by code_simp
  ultimately show ?thesis using bwos_minRemainingSlots_own_block [OF demo_bwos_init demo_run] demo_bwos_init demo_run by simp
qed

text \<open>The queue never holds more than all entries of its blocks, \<open>NumBlocks * EntriesPerBlock\<close>.\<close>

theorem bwos_capacity:
  assumes "bs_init N E s" "bwos_step\<^sup>*\<^sup>* s s'"
  shows "length (bwos_contents (bs_queue s')) \<le> bw_num (bs_queue s') * bw_entriesPerBlock (bs_queue s')"
proof -
  from bwos_threads.reachable_inv [OF assms] obtain A where "bw_rep A (bs_claims s') (bs_queue s')" by (auto simp: bs_inv_def)
  then show ?thesis using bwos_size bwos_contents_rep by metis
qed

text \<open>The bound is reached from the start, so the documented capacity \<open>(NumBlocks - 1) * EntriesPerBlock\<close> is not one.\<close>

theorem bwos_capacity_witness:
  "\<exists>q :: (64, nat) bwos. bwos_pushBatch (bwos_new 4 2 0) [1, 2, 3, 4, 5, 6, 7, 8, 9] = (8, q)
     \<and> bwos_kCapacity 4 2 < length (bwos_contents q) \<and> length (bwos_contents q) \<le> bw_num q * bw_entriesPerBlock q"
proof -
  let ?q0 = "bwos_new 4 2 0 :: (64, nat) bwos" let ?xs = "[1, 2, 3, 4, 5, 6, 7, 8, 9] :: nat list"
  define s0 where "s0 = \<lparr>bs_queue = ?q0, bs_claims = [], bs_in = [], bs_out = []\<rparr>"
  define q where "q = snd (bwos_pushBatch ?q0 ?xs)"
  have "isPowerOfTwo (of_nat 4 :: 64 word)" "bitsToHold 2 < 64" by code_simp+
  then have init: "bs_init 4 2 s0" unfolding bs_init_def s0_def by auto
  have p: "bwos_pushBatch ?q0 ?xs = (8, q)" unfolding q_def by (rule prod_eqI) (code_simp, simp)
  have "bwos_step s0 (s0\<lparr>bs_queue := q, bs_in := bs_in s0 @ take 8 ?xs\<rparr>)" by (rule PushBatch) (unfold s0_def bwos_sys.simps, rule p)
  from bwos_capacity [OF init r_into_rtranclp [of bwos_step, OF this]]
  have "length (bwos_contents q) \<le> bw_num q * bw_entriesPerBlock q" by simp
  moreover have "bwos_kCapacity 4 2 < length (bwos_contents q)" unfolding q_def by code_simp
  ultimately show ?thesis using p by blast
qed

end
