(* ===== verification/Placement.thy ===== *)
theory Placement
  imports Work_Queue_Spec Task_Park
begin

text \<open>
  Where runnable tasks go: the inline hot paths of \<^verbatim>\<open>sched/detail/Runtime.h\<close>, the placement, stealing
  and idling of \<^verbatim>\<open>Worker.cpp\<close>, the notifications of \<^verbatim>\<open>SchedulerCore.cpp\<close> and \<^verbatim>\<open>this_task\<close>'s yield and
  park.  Every operation is one step on the state of the scheduler; the accesses of the park/wake
  protocol are interleaved in \<open>Task_Park\<close>.  The local run queue is whichever implementation the
  build selects (\<^verbatim>\<open>LocalQueue\<close>): its operations are an argument.  The injection queue and the pinned
  inbox are the lists their implementations refine, and the batch linked through \<^verbatim>\<open>mpscNext\<close> is the
  list of its tasks.  A failed \<^verbatim>\<open>STACKFULL_CHECK\<close> leaves its message in \<open>sc_fatal\<close>.  The injection list refuses by
  its length alone: the Busy retries of the BBQ queue and its refusals once its versions are used up
  (\<open>Bbq_Queue\<close>) are not in it.  \<open>wk_lifoStreak\<close> does not wrap (the code's counter is 32 bits wide and a wrap only
  restarts the streak), and the check of the stack canary in the post-switch hooks is left out.
\<close>

section \<open>State\<close>

type_synonym tid = nat
type_synonym wid = nat

record 'q local_ops =
  lq_push :: "'q \<Rightarrow> tid \<Rightarrow> bool \<times> 'q"
  lq_pop :: "'q \<Rightarrow> tid option \<times> 'q"
  lq_popBlock :: "'q \<Rightarrow> tid list \<times> 'q"
  lq_steal :: "'q \<Rightarrow> tid option \<times> 'q"
  lq_stealBlock :: "'q \<Rightarrow> tid list \<times> 'q"
  lq_hasEntries :: "'q \<Rightarrow> bool"
  lq_pushBatch :: "'q \<Rightarrow> tid list \<Rightarrow> nat \<times> 'q"
  lq_minRemainingSlots :: "'q \<Rightarrow> nat"
  lq_kEntriesPerBlock :: nat
  lq_producerBlockHasActiveStealers :: "'q \<Rightarrow> bool"

record task =
  tk_parkState :: TaskState
  tk_pinnedTo :: "wid option"
  tk_readyAt :: int

text \<open>\<open>wk_current\<close> is the task whose stack the worker's thread runs on (\<^verbatim>\<open>ThreadState::current\<close>), None
  for the dispatcher; \<open>wk_token\<close> is the token of its parker.\<close>

record 'q worker =
  wk_local :: 'q
  wk_lifoSlot :: "tid option"
  wk_lifoStreak :: nat
  wk_yieldTick :: u32
  wk_tick :: u32
  wk_rng :: u32
  wk_spinMisses :: nat
  wk_spinSkips :: nat
  wk_switchCount :: u32
  wk_gathering :: bool
  wk_gathered :: "tid list"
  wk_pinnedInbox :: "tid list"
  wk_token :: bool
  wk_handoffWake :: bool
  wk_sleeps :: u64
  wk_steals :: u64
  wk_wakeLatency :: "u64 list"
  wk_current :: "tid option"

record 'q core =
  sc_workers :: "'q worker list"
  sc_tasks :: "tid \<Rightarrow> task"
  sc_injection :: "tid list"
  sc_injectionCapacity :: nat
  sc_idleMask :: u64
  sc_searching :: nat
  sc_timekeeper :: "wid option"
  sc_hasDriver :: bool
  sc_driverWoken :: bool
  sc_timersPending :: bool
  sc_now :: int
  sc_recordWakeLatency :: bool
  sc_rampUpDelay :: int
  sc_rampUpDeadline :: int
  sc_keeperDeadline :: int
  sc_lastKeeperWake :: int
  sc_parkedWoken :: bool
  sc_fatal :: "fatal option"

abbreviation wkr :: "'q core \<Rightarrow> wid \<Rightarrow> 'q worker" where
  "wkr s w \<equiv> sc_workers s ! w"

definition updW :: "'q core \<Rightarrow> wid \<Rightarrow> ('q worker \<Rightarrow> 'q worker) \<Rightarrow> 'q core" where
  "updW s w f = s\<lparr>sc_workers := (sc_workers s)[w := f (sc_workers s ! w)]\<rparr>"

definition updT :: "'q core \<Rightarrow> tid \<Rightarrow> (task \<Rightarrow> task) \<Rightarrow> 'q core" where
  "updT s t f = s\<lparr>sc_tasks := (sc_tasks s)(t := f (sc_tasks s t))\<rparr>"

definition ctz :: "u64 \<Rightarrow> nat" where
  "ctz m = length (takeWhile (\<lambda>i. \<not> bit m i) [0..<64])"

definition wbit :: "wid \<Rightarrow> u64" where
  "wbit w = push_bit w 1"

definition sc_kNoDeadline :: int where
  "sc_kNoDeadline = 2 ^ 63 - 1"

section \<open>Idle workers\<close>

definition hasIdleWorkers :: "'q core \<Rightarrow> bool" where
  "hasIdleWorkers s \<longleftrightarrow> sc_idleMask s \<noteq> 0"

definition hasInjectedWork :: "'q core \<Rightarrow> bool" where
  "hasInjectedWork s \<longleftrightarrow> sc_injection s \<noteq> []"

definition unparkWorker :: "'q core \<Rightarrow> wid \<Rightarrow> 'q core" where
  "unparkWorker s w =
     (let s1 = (if sc_hasDriver s \<and> sc_timekeeper s = Some w then s\<lparr>sc_driverWoken := True\<rparr> else s)
      in updW s1 w (\<lambda>k. k\<lparr>wk_token := True\<rparr>))"

text \<open>\<open>me\<close> is \<^verbatim>\<open>currentWorker()\<close>: the calling thread's worker, or None on a foreign thread.\<close>

definition handOffTo :: "wid option \<Rightarrow> 'q core \<Rightarrow> wid \<Rightarrow> 'q core" where
  "handOffTo me s w =
     unparkWorker (if me \<noteq> None then updW s w (\<lambda>k. k\<lparr>wk_handoffWake := True\<rparr>) else s) w"

definition notifyIdleWorker :: "wid option \<Rightarrow> 'q core \<Rightarrow> 'q core" where
  "notifyIdleWorker me s =
     (if sc_searching s > 0 then s
      else let m = sc_idleMask s in
        if m = 0 then s
        else let candidates = (case sc_timekeeper s of None \<Rightarrow> m
                   | Some keeper \<Rightarrow> if (m AND NOT (wbit keeper)) \<noteq> 0 then m AND NOT (wbit keeper) else m);
                 index = ctz candidates
             in handOffTo me (s\<lparr>sc_idleMask := m AND NOT (wbit index)\<rparr>) index)"

definition markIdle :: "'q core \<Rightarrow> wid \<Rightarrow> 'q core" where
  "markIdle s w = s\<lparr>sc_idleMask := sc_idleMask s OR wbit w\<rparr>"

definition clearIdle :: "'q core \<Rightarrow> wid \<Rightarrow> bool \<times> 'q core" where
  "clearIdle s w = ((sc_idleMask s AND wbit w) \<noteq> 0, s\<lparr>sc_idleMask := sc_idleMask s AND NOT (wbit w)\<rparr>)"

definition notifyWorker :: "wid option \<Rightarrow> 'q core \<Rightarrow> wid \<Rightarrow> 'q core" where
  "notifyWorker me s w = (case clearIdle s w of (was, s') \<Rightarrow> if was then handOffTo me s' w else s')"

definition tryBecomeTimekeeper :: "'q core \<Rightarrow> wid \<Rightarrow> bool \<times> 'q core" where
  "tryBecomeTimekeeper s w = (if sc_timekeeper s = None then (True, s\<lparr>sc_timekeeper := Some w\<rparr>) else (False, s))"

definition releaseTimekeeper :: "'q core \<Rightarrow> wid \<Rightarrow> 'q core" where
  "releaseTimekeeper s w = (if sc_timekeeper s = Some w then s\<lparr>sc_timekeeper := None\<rparr> else s)"

definition ensureTimekeeper :: "wid option \<Rightarrow> 'q core \<Rightarrow> 'q core" where
  "ensureTimekeeper me s =
     (if sc_timekeeper s \<noteq> None \<or> \<not> hasIdleWorkers s \<or> \<not> sc_timersPending s then s
      else if sc_rampUpDelay s > 0 then
        (if sc_now s - sc_lastKeeperWake s < sc_rampUpDelay s then s
         else notifyIdleWorker me (s\<lparr>sc_lastKeeperWake := sc_now s\<rparr>))
      else notifyIdleWorker me s)"

definition requestRampUp :: "wid option \<Rightarrow> 'q core \<Rightarrow> 'q core" where
  "requestRampUp me s =
     (if sc_rampUpDelay s \<le> 0 then notifyIdleWorker me s
      else if \<not> hasIdleWorkers s then s
      else let due = sc_now s + sc_rampUpDelay s in
        if sc_rampUpDeadline s \<le> due then s
        else let s1 = s\<lparr>sc_rampUpDeadline := due\<rparr> in
          (case sc_timekeeper s1 of
             Some keeper \<Rightarrow> if due < sc_keeperDeadline s1 then unparkWorker s1 keeper else s1
           | None \<Rightarrow> notifyIdleWorker me s1))"

section \<open>Queues of one worker\<close>

definition kLifoCap :: nat where "kLifoCap = 3"

definition takeLocal :: "'q local_ops \<Rightarrow> 'q core \<Rightarrow> wid \<Rightarrow> tid option \<times> 'q core" where
  "takeLocal Q s w =
     (let k = wkr s w in
      if wk_lifoSlot k \<noteq> None \<and> (wk_lifoStreak k < kLifoCap \<or> \<not> lq_hasEntries Q (wk_local k))
      then (wk_lifoSlot k, updW s w (\<lambda>k. k\<lparr>wk_lifoSlot := None, wk_lifoStreak := wk_lifoStreak k + 1\<rparr>))
      else let s0 = updW s w (\<lambda>k. k\<lparr>wk_lifoStreak := 0\<rparr>) in
        case lq_pop Q (wk_local k) of
          (Some t, q) \<Rightarrow> (Some t, updW s0 w (\<lambda>k. k\<lparr>wk_local := q\<rparr>))
        | (None, q) \<Rightarrow>
            let s1 = updW s0 w (\<lambda>k. k\<lparr>wk_local := q\<rparr>) in
            (case wk_pinnedInbox k of
               t # ts \<Rightarrow> (Some t, updW s1 w (\<lambda>k. k\<lparr>wk_pinnedInbox := ts\<rparr>))
             | [] \<Rightarrow> (wk_lifoSlot k, updW s1 w (\<lambda>k. k\<lparr>wk_lifoSlot := None\<rparr>))))"

text \<open>The check aborts when the queue is full; the model records that and goes on.\<close>

definition pushInjection :: "'q core \<Rightarrow> tid \<Rightarrow> 'q core" where
  "pushInjection s t =
     s\<lparr>sc_injection := sc_injection s @ [t],
       sc_fatal := (if length (sc_injection s) \<ge> sc_injectionCapacity s then Some (Fatal ''injection queue full'')
                    else sc_fatal s)\<rparr>"

definition popInjection :: "'q core \<Rightarrow> tid option \<times> 'q core" where
  "popInjection s = (case sc_injection s of [] \<Rightarrow> (None, s) | t # ts \<Rightarrow> (Some t, s\<lparr>sc_injection := ts\<rparr>))"

definition inject :: "wid option \<Rightarrow> 'q core \<Rightarrow> tid \<Rightarrow> 'q core" where
  "inject me s t = notifyIdleWorker me (pushInjection s t)"

definition pushLocalFifo :: "'q local_ops \<Rightarrow> 'q core \<Rightarrow> wid \<Rightarrow> tid \<Rightarrow> 'q core" where
  "pushLocalFifo Q s w t =
     (case lq_push Q (wk_local (wkr s w)) t of
        (True, q) \<Rightarrow> updW s w (\<lambda>k. k\<lparr>wk_local := q\<rparr>)
      | (False, q) \<Rightarrow>
          let s1 = updW s w (\<lambda>k. k\<lparr>wk_local := q\<rparr>);
              s2 = (if lq_producerBlockHasActiveStealers Q q then s1
                    else case lq_popBlock Q q of (batch, q') \<Rightarrow>
                      foldl (inject (Some w)) (updW s1 w (\<lambda>k. k\<lparr>wk_local := q'\<rparr>)) batch)
          in inject (Some w) s2 t)"

definition pushLocalLifo :: "'q local_ops \<Rightarrow> 'q core \<Rightarrow> wid \<Rightarrow> tid \<Rightarrow> 'q core" where
  "pushLocalLifo Q s w t =
     updW (case wk_lifoSlot (wkr s w) of None \<Rightarrow> s | Some evicted \<Rightarrow> pushLocalFifo Q s w evicted) w
       (\<lambda>k. k\<lparr>wk_lifoSlot := Some t\<rparr>)"

definition hasLocalWork :: "'q local_ops \<Rightarrow> 'q core \<Rightarrow> wid \<Rightarrow> bool" where
  "hasLocalWork Q s w \<longleftrightarrow> wk_lifoSlot (wkr s w) \<noteq> None \<or> lq_hasEntries Q (wk_local (wkr s w)) \<or> wk_pinnedInbox (wkr s w) \<noteq> []"

definition gather :: "'q core \<Rightarrow> wid \<Rightarrow> tid \<Rightarrow> 'q core" where
  "gather s w t = updW s w (\<lambda>k. k\<lparr>wk_gathered := wk_gathered k @ [t]\<rparr>)"

definition pushInbox :: "'q core \<Rightarrow> wid \<Rightarrow> tid \<Rightarrow> 'q core" where
  "pushInbox s w t = updW s w (\<lambda>k. k\<lparr>wk_pinnedInbox := wk_pinnedInbox k @ [t]\<rparr>)"

section \<open>Placement, wake and the post-switch hooks\<close>

definition schedule :: "'q local_ops \<Rightarrow> wid option \<Rightarrow> 'q core \<Rightarrow> tid \<Rightarrow> 'q core" where
  "schedule Q me s0 t =
     (let s = (if sc_recordWakeLatency s0 then updT s0 t (\<lambda>k. k\<lparr>tk_readyAt := sc_now s0\<rparr>) else s0) in
      case tk_pinnedTo (sc_tasks s t) of
        Some target \<Rightarrow> notifyWorker me (pushInbox s target t) target
      | None \<Rightarrow>
          (case me of
             None \<Rightarrow> inject me s t
           | Some w \<Rightarrow> if wk_gathering (wkr s w) then gather s w t
                      else if \<not> hasIdleWorkers s then pushLocalLifo Q s w t
                      else inject me s t))"

definition setState :: "'q core \<Rightarrow> tid \<Rightarrow> TaskState \<Rightarrow> 'q core" where
  "setState s t st = updT s t (\<lambda>k. k\<lparr>tk_parkState := st\<rparr>)"

definition wake :: "'q local_ops \<Rightarrow> wid option \<Rightarrow> 'q core \<Rightarrow> tid \<Rightarrow> 'q core" where
  "wake Q me s t =
     (case tk_parkState (sc_tasks s t) of
        Notified \<Rightarrow> s
      | Done \<Rightarrow> s
      | Running \<Rightarrow> setState s t Notified
      | Parked \<Rightarrow> schedule Q me (setState (setState s t Notified) t Running) t)"

definition kWakeLatencyBuckets :: nat where "kWakeLatencyBuckets = 24"

definition wakeLatencyBucket :: "int \<Rightarrow> nat" where
  "wakeLatencyBucket nanos =
     (let micros = (if nanos > 0 then nat nanos div 1000 else 0) in
      if micros < 2 then 0
      else let log2 = Max (set (filter (bit micros) [0..<64]))
           in if log2 < kWakeLatencyBuckets then log2 else kWakeLatencyBuckets - 1)"

definition recordWakeLatency :: "'q core \<Rightarrow> tid \<Rightarrow> wid \<Rightarrow> 'q core" where
  "recordWakeLatency s t w =
     (if tk_readyAt (sc_tasks s t) = 0 then s
      else let waited = sc_now s - tk_readyAt (sc_tasks s t);
               i = wakeLatencyBucket waited
           in updW (updT s t (\<lambda>k. k\<lparr>tk_readyAt := 0\<rparr>)) w
                (\<lambda>k. k\<lparr>wk_wakeLatency := (wk_wakeLatency k)[i := wk_wakeLatency k ! i + 1]\<rparr>))"

definition countSwitch :: "'q core \<Rightarrow> wid \<Rightarrow> 'q core" where
  "countSwitch s w = updW s w (\<lambda>k. k\<lparr>wk_switchCount := wk_switchCount k + 1\<rparr>)"

definition onTaskYielded :: "'q local_ops \<Rightarrow> 'q core \<Rightarrow> tid \<Rightarrow> wid \<Rightarrow> 'q core" where
  "onTaskYielded Q s t w =
     (case tk_pinnedTo (sc_tasks s t) of
        Some target \<Rightarrow> pushInbox s target t
      | None \<Rightarrow> pushLocalFifo Q s w t)"

definition onTaskParked :: "'q local_ops \<Rightarrow> 'q core \<Rightarrow> tid \<Rightarrow> wid \<Rightarrow> 'q core" where
  "onTaskParked Q s t w =
     (if tk_parkState (sc_tasks s t) = Running then setState s t Parked
      else schedule Q (Some w) (setState s t Running) t)"

section \<open>Batches, stealing and searching\<close>

definition placeGathered :: "'q local_ops \<Rightarrow> 'q core \<Rightarrow> wid \<Rightarrow> bool \<Rightarrow> tid option \<times> 'q core" where
  "placeGathered Q s0 w keepFirst =
     (let batch = wk_gathered (wkr s0 w); s = updW s0 w (\<lambda>k. k\<lparr>wk_gathered := []\<rparr>) in
      if \<not> keepFirst \<and> length batch = 1 \<and> \<not> hasLocalWork Q s w then (None, pushLocalLifo Q s w (hd batch))
      else let kept = (if keepFirst \<and> batch \<noteq> [] then Some (hd batch) else None);
               rest = (if keepFirst then tl batch else batch)
           in if hasIdleWorkers s
              then (kept, let s1 = foldl pushInjection s rest in if rest \<noteq> [] then notifyIdleWorker (Some w) s1 else s1)
              else (kept, foldl (\<lambda>s t. pushLocalFifo Q s w t) s rest))"

definition nextRandom :: "u32 \<Rightarrow> u32" where
  "nextRandom x0 =
     (let x1 = x0 XOR push_bit 13 x0; x2 = x1 XOR drop_bit 17 x1 in x2 XOR push_bit 5 x2)"

fun stealFrom :: "'q local_ops \<Rightarrow> 'q core \<Rightarrow> wid \<Rightarrow> wid list \<Rightarrow> tid option \<times> 'q core" where
  "stealFrom Q s w [] = (None, s)"
| "stealFrom Q s w (v # vs) =
     (if v = w then stealFrom Q s w vs
      else if lq_minRemainingSlots Q (wk_local (wkr s w)) < lq_kEntriesPerBlock Q then
        (case lq_steal Q (wk_local (wkr s v)) of (r, q) \<Rightarrow>
           let s1 = updW s v (\<lambda>k. k\<lparr>wk_local := q\<rparr>) in
           (case r of Some t \<Rightarrow> (Some t, updW s1 w (\<lambda>k. k\<lparr>wk_steals := wk_steals k + 1\<rparr>))
            | None \<Rightarrow> stealFrom Q s1 w vs))
      else
        (case lq_stealBlock Q (wk_local (wkr s v)) of (batch, q) \<Rightarrow>
           let s1 = updW s v (\<lambda>k. k\<lparr>wk_local := q\<rparr>) in
           (case batch of [] \<Rightarrow> stealFrom Q s1 w vs
            | t # ts \<Rightarrow>
                let s2 = updW s1 w (\<lambda>k. k\<lparr>wk_steals := wk_steals k + 1\<rparr>) in
                (case lq_pushBatch Q (wk_local (wkr s2 w)) ts of (pushed, q') \<Rightarrow>
                   (Some t, foldl (inject (Some w)) (updW s2 w (\<lambda>k. k\<lparr>wk_local := q'\<rparr>)) (drop pushed ts))))))"

definition steal :: "'q local_ops \<Rightarrow> 'q core \<Rightarrow> wid \<Rightarrow> tid option \<times> 'q core" where
  "steal Q s w =
     (let count = length (sc_workers s) in
      if count \<le> 1 then (None, s)
      else let rng = nextRandom (wk_rng (wkr s w)); start = unat rng mod count
           in stealFrom Q (updW s w (\<lambda>k. k\<lparr>wk_rng := rng\<rparr>)) w (map (\<lambda>i. (start + i) mod count) [0..<count]))"

text \<open>Chains of attempts, each tried only if the ones before found nothing.\<close>

definition orElse :: "tid option \<times> 'q core \<Rightarrow> ('q core \<Rightarrow> tid option \<times> 'q core) \<Rightarrow> tid option \<times> 'q core" where
  "orElse p f = (case p of (Some t, s) \<Rightarrow> (Some t, s) | (None, s) \<Rightarrow> f s)"

definition wakePeerForLeftovers :: "'q local_ops \<Rightarrow> 'q core \<Rightarrow> wid \<Rightarrow> 'q core" where
  "wakePeerForLeftovers Q s w = (if hasInjectedWork s \<or> hasLocalWork Q s w then requestRampUp (Some w) s else s)"

definition searchForWork :: "'q local_ops \<Rightarrow> 'q core \<Rightarrow> wid \<Rightarrow> tid option \<times> 'q core" where
  "searchForWork Q s w =
     (let limit = length (sc_workers s) div 2 + 1; searcher = (sc_searching s < limit) in
      if \<not> searcher then popInjection s
      else case orElse (orElse (popInjection (s\<lparr>sc_searching := sc_searching s + 1\<rparr>)) (\<lambda>s. steal Q s w)) popInjection of
        (r, s2) \<Rightarrow>
          let before = sc_searching s2; s3 = s2\<lparr>sc_searching := before - 1\<rparr>
          in (r, if r \<noteq> None \<and> before = 1 then wakePeerForLeftovers Q s3 w else s3))"

section \<open>Idling\<close>

definition kMaxSpinners :: nat where "kMaxSpinners = 2"
definition kMaxSpinBackoff :: nat where "kMaxSpinBackoff = 32"

lemma spin_stop:
  assumes "\<not> (i mod 32 = 0 \<and> n \<le> i)"
  shows "32 * ((max n (i + 1) + 31) div 32) - (i + 1) < 32 * ((max n i + 31) div 32) - (i :: nat)"
proof (cases "n \<le> i")
  case True
  define q r where "q = i div 32" and "r = i mod 32"
  have i: "i = 32 * q + r" "r < 32" by (simp_all add: q_def r_def)
  have "0 < r" using assms True by (simp add: r_def)
  then have "(i + 31) div 32 = q + 1" "(i + 32) div 32 = q + 1" using i by (simp_all add: div_nat_eqI)
  moreover have "max n i = i" "max n (i + 1) + 31 = i + 32" using True by simp_all
  moreover have "i < 32 * (q + 1)" using i by simp
  ultimately show ?thesis by (simp only:)
next
  case False
  have "n + 31 = 32 * ((n + 31) div 32) + (n + 31) mod 32" "(n + 31) mod 32 < 32" by simp_all
  then have "n \<le> 32 * ((n + 31) div 32)" by linarith
  then have "32 * ((n + 31) div 32) - (i + 1) < 32 * ((n + 31) div 32) - i" using False by linarith
  moreover have "max n i = n" "max n (i + 1) = n" using False by simp_all
  ultimately show ?thesis by (simp only:)
qed

text \<open>\<open>n\<close> is the iteration from which on the clock is past the spin's deadline.\<close>

function spinLoop :: "'q local_ops \<Rightarrow> 'q core \<Rightarrow> wid \<Rightarrow> nat \<Rightarrow> nat \<Rightarrow> tid option \<times> 'q core" where
  "spinLoop Q s w n i =
     (case orElse (orElse (takeLocal Q s w) (\<lambda>s. if hasInjectedWork s then popInjection s else (None, s)))
             (\<lambda>s. if i mod 128 = 0 then steal Q s w else (None, s)) of
        (Some t, s1) \<Rightarrow> (Some t, s1)
      | (None, s1) \<Rightarrow> if i mod 32 = 0 \<and> n \<le> i then (None, s1) else spinLoop Q s1 w n (i + 1))"
  by pat_completeness auto

termination
  by (relation "measure (\<lambda>(Q, s, w, n, i). 32 * ((max n i + 31) div 32) - i)") (use spin_stop in auto)

declare spinLoop.simps [simp del]

definition spinForWork :: "'q local_ops \<Rightarrow> 'q core \<Rightarrow> wid \<Rightarrow> int \<Rightarrow> nat \<Rightarrow> tid option \<times> 'q core" where
  "spinForWork Q s w idleSpin n =
     (if idleSpin \<le> 0 then (None, s)
      else if sc_hasDriver s \<and> sc_timekeeper s = None then (None, s)
      else if wk_spinSkips (wkr s w) \<noteq> 0 then (None, updW s w (\<lambda>k. k\<lparr>wk_spinSkips := wk_spinSkips k - 1\<rparr>))
      else if sc_searching s \<ge> kMaxSpinners then (None, s)
      else case spinLoop Q (s\<lparr>sc_searching := sc_searching s + 1\<rparr>) w n 1 of (r, s1) \<Rightarrow>
        let before = sc_searching s1; s2 = s1\<lparr>sc_searching := before - 1\<rparr> in
        case orElse (orElse (r, s2) (\<lambda>s. takeLocal Q s w)) popInjection of (r', s3) \<Rightarrow>
          if r' \<noteq> None then
            (let s4 = updW s3 w (\<lambda>k. k\<lparr>wk_spinMisses := 0\<rparr>)
             in (r', if before = 1 then wakePeerForLeftovers Q s4 w else s4))
          else
            (r', updW s3 w (\<lambda>k. let misses = (if wk_spinMisses k < 16 then wk_spinMisses k + 1 else wk_spinMisses k) in
                   k\<lparr>wk_spinMisses := misses,
                     wk_spinSkips := (if misses \<ge> 2 then min (2 ^ (misses - 1)) kMaxSpinBackoff else wk_spinSkips k)\<rparr>)))"

text \<open>\<^verbatim>\<open>parkIdle\<close> up to its sleep: a task found before or instead of sleeping, or None to sleep.\<close>

definition parkIdle_enter :: "'q local_ops \<Rightarrow> 'q core \<Rightarrow> wid \<Rightarrow> bool \<Rightarrow> int \<Rightarrow> nat \<Rightarrow> tid option \<times> 'q core" where
  "parkIdle_enter Q s w stopping idleSpin n =
     orElse (if stopping then (None, s) else spinForWork Q s w idleSpin n) (\<lambda>s0.
       case orElse (takeLocal Q (markIdle s0 w) w) popInjection of
         (None, s1) \<Rightarrow> (None, s1)
       | (Some t, s1) \<Rightarrow>
           (case clearIdle s1 w of (was, s2) \<Rightarrow>
              (Some t, if was then s2 else updW s2 w (\<lambda>k. k\<lparr>wk_token := False\<rparr>))))"

datatype sleepMode = SleepPark | SleepParkFor int | SleepDriver int

text \<open>\<^verbatim>\<open>sleepIdle\<close> up to the blocking call; \<open>next\<close> is what \<^verbatim>\<open>nextDeadline\<close> found, in ticks (nanoseconds).\<close>

definition sleepIdle_enter :: "'q core \<Rightarrow> wid \<Rightarrow> bool \<Rightarrow> int \<Rightarrow> sleepMode \<times> 'q core" where
  "sleepIdle_enter s w stopping nextd =
     (let s0 = updW s w (\<lambda>k. k\<lparr>wk_sleeps := wk_sleeps k + 1\<rparr>) in
      case tryBecomeTimekeeper s0 w of
        (False, s1) \<Rightarrow> (if stopping then SleepParkFor 1000000 else SleepPark, s1)
      | (True, s1) \<Rightarrow>
          let wakeAt = (if sc_rampUpDeadline s1 < nextd then sc_rampUpDeadline s1 else nextd);
              timeout = (if wakeAt = sc_kNoDeadline then - 1 else if wakeAt > sc_now s1 then wakeAt - sc_now s1 else 0);
              s2 = s1\<lparr>sc_keeperDeadline := wakeAt\<rparr>;
              timeout' = (if stopping \<and> (timeout < 0 \<or> timeout > 1000000) then 1000000 else timeout);
              s3 = updW s2 w (\<lambda>k. k\<lparr>wk_gathering := True\<rparr>)
          in (if sc_hasDriver s3 then SleepDriver timeout'
              else if timeout' < 0 then SleepPark else SleepParkFor timeout', s3))"

text \<open>The rest of \<^verbatim>\<open>sleepIdle\<close> and \<^verbatim>\<open>parkIdle\<close>: \<open>ready\<close> are the tasks woken inside the driver, \<open>due\<close> those
  whose timers \<^verbatim>\<open>fireTimers\<close> fired.\<close>

definition wakeAll :: "'q local_ops \<Rightarrow> wid option \<Rightarrow> 'q core \<Rightarrow> tid list \<Rightarrow> 'q core" where
  "wakeAll Q me s ts = foldl (wake Q me) s ts"

definition sleepIdle_leave :: "'q local_ops \<Rightarrow> 'q core \<Rightarrow> wid \<Rightarrow> tid list \<Rightarrow> tid list \<Rightarrow> 'q core" where
  "sleepIdle_leave Q s w ready due =
     (if sc_timekeeper s \<noteq> Some w then s
      else let s1 = releaseTimekeeper (wakeAll Q (Some w) s ready) w;
               s2 = updW (wakeAll Q (Some w) s1 due) w (\<lambda>k. k\<lparr>wk_gathering := False\<rparr>)
           in if sc_rampUpDeadline s2 \<noteq> sc_kNoDeadline \<and> sc_rampUpDeadline s2 \<le> sc_now s2
              then s2\<lparr>sc_rampUpDeadline := sc_kNoDeadline\<rparr> else s2)"

definition parkIdle_leave :: "'q local_ops \<Rightarrow> 'q core \<Rightarrow> wid \<Rightarrow> tid option \<times> 'q core" where
  "parkIdle_leave Q s w =
     (let s1 = snd (clearIdle s w);
          s2 = updW s1 w (\<lambda>k. if wk_handoffWake k then k\<lparr>wk_handoffWake := False, wk_spinMisses := 0, wk_spinSkips := 0\<rparr> else k)
      in placeGathered Q s2 w True)"

definition maintain :: "'q local_ops \<Rightarrow> 'q core \<Rightarrow> wid \<Rightarrow> tid list \<Rightarrow> tid list \<Rightarrow> 'q core" where
  "maintain Q s w due ready =
     (let s1 = wakeAll Q (Some w) (updW s w (\<lambda>k. k\<lparr>wk_gathering := True\<rparr>)) due;
          s2 = (if sc_hasDriver s1 then
                  (case tryBecomeTimekeeper s1 w of (True, s') \<Rightarrow> releaseTimekeeper (wakeAll Q (Some w) s' ready) w
                   | (False, s') \<Rightarrow> s')
                else s1);
          s3 = updW s2 w (\<lambda>k. k\<lparr>wk_gathering := False\<rparr>)
      in snd (placeGathered Q s3 w False))"

section \<open>What a worker and its tasks do\<close>

definition setCurrent :: "'q core \<Rightarrow> wid \<Rightarrow> tid option \<Rightarrow> 'q core" where
  "setCurrent s w c = updW s w (\<lambda>k. k\<lparr>wk_current := c\<rparr>)"

definition kInjectionCheckPeriod :: u32 where "kInjectionCheckPeriod = 61"

text \<open>One turn of \<^verbatim>\<open>Worker::run\<close> up to the point where it would idle; \<open>due\<close> and \<open>ready\<close> are what the
  maintenance of this turn, if any, finds due and ready.\<close>

definition dispatch :: "'q core \<Rightarrow> wid \<Rightarrow> tid \<Rightarrow> 'q core" where
  "dispatch s w t =
     (let s1 = updW s w (\<lambda>k. k\<lparr>wk_tick := wk_tick k + 1\<rparr>)
      in setCurrent (if sc_timekeeper s1 = None then ensureTimekeeper (Some w) s1 else s1) w (Some t))"

definition runFound :: "tid option \<times> 'q core \<Rightarrow> wid \<Rightarrow> 'q core" where
  "runFound p w = (case p of (None, s1) \<Rightarrow> s1 | (Some t, s1) \<Rightarrow> dispatch s1 w t)"

definition runTurn :: "'q local_ops \<Rightarrow> 'q core \<Rightarrow> wid \<Rightarrow> tid list \<Rightarrow> tid list \<Rightarrow> 'q core" where
  "runTurn Q s w due ready =
     runFound (orElse (orElse
         (if wk_tick (wkr s w) mod kInjectionCheckPeriod = 0 then popInjection (maintain Q s w due ready) else (None, s))
         (\<lambda>s. takeLocal Q s w)) (\<lambda>s. searchForWork Q s w)) w"

text \<open>A task that gives up the processor leaves a post-switch hook, which the arriving side runs: the
  operation returns the hook it left, if it switched at all.  \<open>Reaped\<close> is no hook: it says that the worker's
  reaper has claimed the task and not dealt with it yet.\<close>

datatype hook = OnTaskYielded | OnTaskParked | OnTaskFinished | Reaped

definition yield_task :: "'q local_ops \<Rightarrow> 'q core \<Rightarrow> wid \<Rightarrow> hook option \<times> 'q core" where
  "yield_task Q s w =
     (let yields = wk_yieldTick (wkr s w) + 1;
          s1 = updW s w (\<lambda>k. k\<lparr>wk_yieldTick := yields\<rparr>);
          fairnessTick = ((yields AND 63) = 0);
          s2 = (if fairnessTick then (case popInjection s1 of (Some i, s') \<Rightarrow> pushLocalFifo Q s' w i | (None, s') \<Rightarrow> s') else s1)
      in case orElse (takeLocal Q s2 w) popInjection of (nextt, s3) \<Rightarrow>
           if nextt = None \<and> \<not> fairnessTick then (None, s3)
           else (Some OnTaskYielded, setCurrent s3 w nextt))"

definition park_task :: "'q local_ops \<Rightarrow> 'q core \<Rightarrow> wid \<Rightarrow> tid \<Rightarrow> hook option \<times> 'q core" where
  "park_task Q s0 w t =
     (let s = countSwitch s0 w in
      if tk_parkState (sc_tasks s t) = Notified then (None, setState s t Running)
      else case takeLocal Q s w of (nextt, s1) \<Rightarrow> (Some OnTaskParked, setCurrent s1 w nextt))"

definition finish_task :: "'q local_ops \<Rightarrow> 'q core \<Rightarrow> wid \<Rightarrow> hook option \<times> 'q core" where
  "finish_task Q s w = (case takeLocal Q s w of (nextt, s1) \<Rightarrow> (Some OnTaskFinished, setCurrent s1 w nextt))"

definition onTaskFinished :: "'q core \<Rightarrow> tid \<Rightarrow> wid \<Rightarrow> 'q core" where
  "onTaskFinished s t w = setState (countSwitch s w) t Done"

fun runHook :: "'q local_ops \<Rightarrow> 'q core \<Rightarrow> wid \<Rightarrow> hook \<Rightarrow> tid \<Rightarrow> 'q core" where
  "runHook Q s w OnTaskYielded t = onTaskYielded Q s t w"
| "runHook Q s w OnTaskParked t = onTaskParked Q s t w"
| "runHook Q s w OnTaskFinished t = onTaskFinished s t w"
| "runHook Q s w Reaped t = s"

section \<open>Shutdown\<close>

text \<open>\<^verbatim>\<open>stop\<close> wakes every parked task once, which \<^verbatim>\<open>parkedWoken\<close> then says, and unparks the workers.  From then on
  a worker that finds nothing to run reaps: it claims each task that is still parked, whatever worker it is pinned to, and
  switches to it to unwind it; a task with a shield is put back instead, or scheduled if a wake came in
  between.  In a build without exceptions the claimed task is dropped where it is.\<close>

definition wakeAllParked :: "'q local_ops \<Rightarrow> wid option \<Rightarrow> 'q core \<Rightarrow> nat \<Rightarrow> 'q core" where
  "wakeAllParked Q me s maxTasks = wakeAll Q me s [0..<maxTasks]"

definition stop :: "'q local_ops \<Rightarrow> wid option \<Rightarrow> 'q core \<Rightarrow> nat \<Rightarrow> 'q core" where
  "stop Q me s maxTasks =
     fold (\<lambda>w s. unparkWorker s w) [0..<length (sc_workers s)] ((wakeAllParked Q me s maxTasks)\<lparr>sc_parkedWoken := True\<rparr>)"

definition reap_claim :: "'q core \<Rightarrow> tid \<Rightarrow> bool \<times> 'q core" where
  "reap_claim s t = (if tk_parkState (sc_tasks s t) = Parked then (True, setState s t Running) else (False, s))"

definition reap_claimed :: "'q local_ops \<Rightarrow> 'q core \<Rightarrow> wid \<Rightarrow> tid \<Rightarrow> nat \<Rightarrow> bool \<Rightarrow> 'q core" where
  "reap_claimed Q s w t shields exceptions =
     (if shields \<noteq> 0
      then if tk_parkState (sc_tasks s t) = Running then setState s t Parked
           else schedule Q (Some w) (setState s t Running) t
      else if exceptions then setCurrent s w (Some t)
      else setState s t Done)"

text \<open>\<^verbatim>\<open>Scheduler::spawn\<close>, with the fresh task \<^verbatim>\<open>createTask\<close> built.\<close>

definition spawn_task :: "'q local_ops \<Rightarrow> wid option \<Rightarrow> 'q core \<Rightarrow> tid \<Rightarrow> 'q core" where
  "spawn_task Q me s t =
     schedule Q me (updT s t (\<lambda>_. \<lparr>tk_parkState = Running, tk_pinnedTo = None, tk_readyAt = 0\<rparr>)) t"

definition pinToCurrentWorker :: "'q core \<Rightarrow> wid \<Rightarrow> tid \<Rightarrow> 'q core" where
  "pinToCurrentWorker s w t = updT s t (\<lambda>k. k\<lparr>tk_pinnedTo := Some w\<rparr>)"

definition unpin :: "'q core \<Rightarrow> tid \<Rightarrow> 'q core" where
  "unpin s t = updT s t (\<lambda>k. k\<lparr>tk_pinnedTo := None\<rparr>)"

end
