(* ===== verification/Placement_Laws.thy ===== *)
theory Placement_Laws
  imports Placement
begin

text \<open>
  What every placement operation does with the tasks, proved once for any local queue that keeps
  the work-queue contract: nothing is dropped or duplicated, unpinned tasks move only between the
  stealable containers, and pinned tasks only through their worker's inbox.
\<close>

section \<open>The tasks a scheduler holds\<close>

fun optm :: "'a option \<Rightarrow> 'a multiset" where
  "optm None = {#}"
| "optm (Some x) = {#x#}"

definition worker_free :: "('q \<Rightarrow> tid list) \<Rightarrow> 'q worker \<Rightarrow> tid multiset" where
  "worker_free c k = optm (wk_lifoSlot k) + mset (c (wk_local k)) + mset (wk_gathered k)"

text \<open>The tasks any worker may end up running, the pinned ones per worker, the running ones.\<close>

definition free_tasks :: "('q \<Rightarrow> tid list) \<Rightarrow> 'q core \<Rightarrow> tid multiset" where
  "free_tasks c s = mset (sc_injection s) + sum_list (map (worker_free c) (sc_workers s))"

definition inboxes :: "'q core \<Rightarrow> tid list list" where
  "inboxes s = map wk_pinnedInbox (sc_workers s)"

definition currents :: "'q core \<Rightarrow> tid option list" where
  "currents s = map wk_current (sc_workers s)"

definition wf_core :: "('q \<Rightarrow> bool) \<Rightarrow> 'q core \<Rightarrow> bool" where
  "wf_core i s \<longleftrightarrow> (\<forall>k\<in>set (sc_workers s). i (wk_local k))"

definition same_tasks :: "'q core \<Rightarrow> 'q core \<Rightarrow> bool" where
  "same_tasks s s' \<longleftrightarrow> (\<forall>t. tk_parkState (sc_tasks s' t) = tk_parkState (sc_tasks s t)
     \<and> tk_pinnedTo (sc_tasks s' t) = tk_pinnedTo (sc_tasks s t)) \<and> sc_injectionCapacity s' = sc_injectionCapacity s
     \<and> sc_parkedWoken s' = sc_parkedWoken s"

lemma same_tasks_refl [simp]: "same_tasks s s"
  by (simp add: same_tasks_def)

lemma same_tasks_trans: "same_tasks s s1 \<Longrightarrow> same_tasks s1 s2 \<Longrightarrow> same_tasks s s2"
  by (simp add: same_tasks_def)

text \<open>\<open>moved\<close>: the free tasks lose \<open>rem\<close> and gain \<open>add\<close>; the rest stays.\<close>

definition moved :: "('q \<Rightarrow> tid list) \<Rightarrow> ('q \<Rightarrow> bool) \<Rightarrow> 'q core \<Rightarrow> 'q core \<Rightarrow> tid multiset \<Rightarrow> tid multiset \<Rightarrow> bool" where
  "moved c i s s' add rem \<longleftrightarrow> wf_core i s' \<and> inboxes s' = inboxes s \<and> currents s' = currents s \<and> same_tasks s s'
     \<and> free_tasks c s' + rem = free_tasks c s + add"

text \<open>\<open>calm\<close>: the injection queue does not overflow if it could hold all free tasks and the new ones.
  \<open>placed\<close> is both.\<close>

definition calm :: "('q \<Rightarrow> tid list) \<Rightarrow> 'q core \<Rightarrow> 'q core \<Rightarrow> tid multiset \<Rightarrow> bool" where
  "calm c s s' add \<longleftrightarrow> (sc_fatal s = None \<and> size (free_tasks c s) + size add \<le> sc_injectionCapacity s \<longrightarrow> sc_fatal s' = None)"

definition placed :: "('q \<Rightarrow> tid list) \<Rightarrow> ('q \<Rightarrow> bool) \<Rightarrow> 'q core \<Rightarrow> 'q core \<Rightarrow> tid multiset \<Rightarrow> tid multiset \<Rightarrow> bool" where
  "placed c i s s' add rem \<longleftrightarrow> moved c i s s' add rem \<and> calm c s s' add"

text \<open>\<open>took\<close>: one task, if any, was taken out for worker \<open>w\<close>.\<close>

definition from_inbox :: "('q \<Rightarrow> tid list) \<Rightarrow> 'q core \<Rightarrow> 'q core \<Rightarrow> wid \<Rightarrow> tid option \<Rightarrow> bool" where
  "from_inbox c s s' w r \<longleftrightarrow> w < length (inboxes s) \<and> r \<noteq> None \<and> inboxes s ! w = the r # inboxes s' ! w
     \<and> inboxes s' = (inboxes s)[w := inboxes s' ! w] \<and> free_tasks c s' = free_tasks c s"

definition took :: "('q \<Rightarrow> tid list) \<Rightarrow> ('q \<Rightarrow> bool) \<Rightarrow> 'q core \<Rightarrow> 'q core \<Rightarrow> wid \<Rightarrow> tid option \<Rightarrow> bool" where
  "took c i s s' w r \<longleftrightarrow> placed c i s s' {#} (optm r)
     \<or> calm c s s' {#} \<and> wf_core i s' \<and> currents s' = currents s \<and> same_tasks s s' \<and> from_inbox c s s' w r"

lemma movedI:
  assumes "wf_core i s'" "inboxes s' = inboxes s" "currents s' = currents s" "same_tasks s s'"
    "free_tasks c s' + rem = free_tasks c s + add"
  shows "moved c i s s' add rem"
  using assms by (simp add: moved_def)

lemma moved_trans:
  assumes "moved c i s s1 a r" "moved c i s1 s2 b q"
  shows "moved c i s s2 (a + b) (r + q)"
proof (rule movedI)
  from assms have e: "free_tasks c s2 + q = free_tasks c s1 + b" "free_tasks c s1 + r = free_tasks c s + a"
    by (simp_all add: moved_def)
  have "free_tasks c s2 + (r + q) = (free_tasks c s1 + b) + r" using e(1) by (metis union_assoc union_commute)
  also have "\<dots> = (free_tasks c s + a) + b" using e(2) by (metis union_assoc union_commute)
  finally show "free_tasks c s2 + (r + q) = free_tasks c s + (a + b)" by (simp add: union_assoc)
qed (use assms in \<open>auto simp: moved_def intro: same_tasks_trans\<close>)

lemma moved_length: "moved c i s s' a r \<Longrightarrow> length (sc_workers s') = length (sc_workers s)"
  by (metis inboxes_def length_map moved_def)

lemma moved_wf: "moved c i s s' a r \<Longrightarrow> wf_core i s'"
  by (simp add: moved_def)

lemma moved_size: "moved c i s s' a r \<Longrightarrow> size (free_tasks c s') \<le> size (free_tasks c s) + size a"
  by (metis le_add1 moved_def size_union)

lemma placed_trans:
  assumes "placed c i s s1 a r" "placed c i s1 s2 b q"
  shows "placed c i s s2 (a + b) (r + q)"
proof -
  have m: "moved c i s s1 a r" "moved c i s1 s2 b q" using assms by (simp_all add: placed_def)
  have "sc_injectionCapacity s1 = sc_injectionCapacity s" using m(1) by (simp add: moved_def same_tasks_def)
  with assms moved_size [OF m(1)] have "calm c s s2 (a + b)" by (auto simp: placed_def calm_def)
  with moved_trans [OF m] show ?thesis by (simp add: placed_def)
qed

lemma placed_moved: "placed c i s s' a r \<Longrightarrow> moved c i s s' a r"
  by (simp add: placed_def)

lemmas placed_wf = moved_wf [OF placed_moved]

lemma took_length: "took c i s s' w r \<Longrightarrow> length (sc_workers s') = length (sc_workers s)"
  by (metis currents_def length_map moved_def placed_def took_def)

lemma took_wf: "took c i s s' w r \<Longrightarrow> wf_core i s'"
  by (auto simp: moved_def placed_def took_def)

lemma placed_took: "placed c i s s' {#} (optm r) \<Longrightarrow> took c i s s' w r"
  by (simp add: took_def)

lemma took_none: "took c i s s' w None \<Longrightarrow> placed c i s s' {#} {#}"
  by (simp add: took_def from_inbox_def)

lemma from_inbox_eq:
  assumes "from_inbox c s s' w r" "inboxes s0 = inboxes s" "inboxes s1 = inboxes s'"
    "free_tasks c s1 = free_tasks c s'" "free_tasks c s0 = free_tasks c s"
  shows "from_inbox c s0 s1 w r"
  using assms by (auto simp: from_inbox_def)

lemma calm_trans:
  assumes "calm c s s1 {#}" "moved c i s s1 {#} r" "calm c s1 s2 {#}"
  shows "calm c s s2 {#}"
proof -
  have "sc_injectionCapacity s1 = sc_injectionCapacity s" using assms(2) by (simp add: moved_def same_tasks_def)
  with moved_size [OF assms(2)] assms(1,3) show ?thesis by (auto simp: calm_def)
qed

lemma quiet_took:
  assumes "placed c i s s1 {#} {#}" "took c i s1 s2 w r"
  shows "took c i s s2 w r"
proof (cases "placed c i s1 s2 {#} (optm r)")
  case True
  from placed_trans [OF assms(1) this] show ?thesis by (simp add: placed_took)
next
  case False
  with assms(2) have t: "wf_core i s2" "currents s2 = currents s1" "same_tasks s1 s2" "from_inbox c s1 s2 w r" "calm c s1 s2 {#}"
    by (simp_all add: took_def)
  note p = placed_moved [OF assms(1)]
  have m: "inboxes s1 = inboxes s" "currents s1 = currents s" "same_tasks s s1" "free_tasks c s1 = free_tasks c s"
    using p by (simp_all add: moved_def)
  have "calm c s s2 {#}" by (rule calm_trans [OF _ p t(5)]) (use assms(1) in \<open>simp add: placed_def\<close>)
  moreover have "from_inbox c s s2 w r" by (rule from_inbox_eq [OF t(4)]) (simp_all add: m)
  ultimately show ?thesis using t m same_tasks_trans [OF m(3) t(3)] by (simp add: took_def)
qed

lemma took_quiet:
  assumes "took c i s s1 w r" "placed c i s1 s2 {#} {#}"
  shows "took c i s s2 w r"
proof (cases "placed c i s s1 {#} (optm r)")
  case True
  from placed_trans [OF this assms(2)] show ?thesis by (simp add: placed_took)
next
  case False
  with assms(1) have t: "currents s1 = currents s" "same_tasks s s1" "from_inbox c s s1 w r" "calm c s s1 {#}"
    by (simp_all add: took_def)
  have m: "inboxes s2 = inboxes s1" "currents s2 = currents s1" "same_tasks s1 s2" "wf_core i s2" "free_tasks c s2 = free_tasks c s1"
    using placed_moved [OF assms(2)] by (simp_all add: moved_def)
  have "calm c s s2 {#}"
    using t(2,3,4) assms(2) by (auto simp: calm_def placed_def from_inbox_def same_tasks_def)
  moreover have "from_inbox c s s2 w r" by (rule from_inbox_eq [OF t(3)]) (simp_all add: m)
  ultimately show ?thesis using t m same_tasks_trans [OF t(2) m(3)] by (simp add: took_def)
qed

section \<open>Updates of one worker\<close>

lemma free_tasks_updW:
  assumes "w < length (sc_workers s)" "worker_free c (f (wkr s w)) + rem = worker_free c (wkr s w) + add"
  shows "free_tasks c (updW s w f) + rem = free_tasks c s + add"
proof -
  let ?R = "sum_list (map (worker_free c) (take w (sc_workers s) @ drop (Suc w) (sc_workers s)))"
  have "sum_list (map (worker_free c) ((sc_workers s)[w := wkr s w])) = worker_free c (wkr s w) + ?R"
    using assms(1) by (rule sum_list_split)
  then have a: "free_tasks c s = mset (sc_injection s) + (worker_free c (wkr s w) + ?R)" by (simp add: free_tasks_def)
  have b: "free_tasks c (updW s w f) = mset (sc_injection s) + (worker_free c (f (wkr s w)) + ?R)"
    unfolding free_tasks_def updW_def using sum_list_split [OF assms(1)] by simp
  have "free_tasks c (updW s w f) + rem = mset (sc_injection s) + ?R + (worker_free c (f (wkr s w)) + rem)"
    by (simp add: b ac_simps)
  also have "\<dots> = free_tasks c s + add" by (simp only: assms(2)) (simp add: a ac_simps)
  finally show ?thesis .
qed

lemma updW_frame [simp]:
  "sc_tasks (updW s w f) = sc_tasks s" "sc_injection (updW s w f) = sc_injection s" "sc_fatal (updW s w f) = sc_fatal s"
  "length (sc_workers (updW s w f)) = length (sc_workers s)" "sc_idleMask (updW s w f) = sc_idleMask s"
  "sc_injectionCapacity (updW s w f) = sc_injectionCapacity s" "sc_parkedWoken (updW s w f) = sc_parkedWoken s" "sc_searching (updW s w f) = sc_searching s"
  "sc_timekeeper (updW s w f) = sc_timekeeper s" "sc_hasDriver (updW s w f) = sc_hasDriver s"
  by (simp_all add: updW_def)

lemma wkr_updW: "w < length (sc_workers s) \<Longrightarrow> wkr (updW s w f) v = (if v = w then f (wkr s w) else wkr s v)"
  by (simp add: updW_def nth_list_update)

lemma updW_out: "\<not> w < length (sc_workers s) \<Longrightarrow> updW s w f = s"
  by (simp add: updW_def list_update_beyond)

lemma updW_map:
  assumes "g (f (wkr s w)) = g (wkr s w)"
  shows "map g (sc_workers (updW s w f)) = map g (sc_workers s)"
proof (cases "w < length (sc_workers s)")
  case True
  then show ?thesis using assms by (simp add: updW_def map_update list_update_same_conv)
qed (simp add: updW_out)

lemma wf_updW:
  assumes "wf_core i s" "w < length (sc_workers s) \<Longrightarrow> i (wk_local (f (wkr s w)))"
  shows "wf_core i (updW s w f)"
proof (cases "w < length (sc_workers s)")
  case True
  then show ?thesis using assms unfolding wf_core_def updW_def by (auto dest: set_update_subset_insert [THEN subsetD])
qed (use assms in \<open>simp add: updW_out\<close>)

lemma wf_nth: "wf_core i s \<Longrightarrow> w < length (sc_workers s) \<Longrightarrow> i (wk_local (wkr s w))"
  by (simp add: wf_core_def)

lemma moved_updW:
  assumes "wf_core i s" "w < length (sc_workers s)" "i (wk_local (f (wkr s w)))"
    "wk_pinnedInbox (f (wkr s w)) = wk_pinnedInbox (wkr s w)" "wk_current (f (wkr s w)) = wk_current (wkr s w)"
    "worker_free c (f (wkr s w)) + rem = worker_free c (wkr s w) + add"
  shows "moved c i s (updW s w f) add rem"
proof (rule movedI)
  show "inboxes (updW s w f) = inboxes s" unfolding inboxes_def by (rule updW_map) (rule assms(4))
  show "currents (updW s w f) = currents s" unfolding currents_def by (rule updW_map) (rule assms(5))
qed (use assms in \<open>auto simp: same_tasks_def intro: wf_updW free_tasks_updW\<close>)

lemma moved_quiet: "moved c i s s1 a r \<Longrightarrow> moved c i s1 s2 {#} {#} \<Longrightarrow> moved c i s s2 a r"
  using moved_trans [of c i s s1 a r s2 "{#}" "{#}"] by simp

lemma quiet_moved: "moved c i s s1 {#} {#} \<Longrightarrow> moved c i s1 s2 a r \<Longrightarrow> moved c i s s2 a r"
  using moved_trans [of c i s s1 "{#}" "{#}" s2 a r] by simp

text \<open>\<open>quietly\<close>: only bookkeeping changed, no container of tasks.\<close>

definition tracked :: "'q worker \<Rightarrow> 'q \<times> tid option \<times> tid list \<times> tid list \<times> tid option" where
  "tracked k = (wk_local k, wk_lifoSlot k, wk_gathered k, wk_pinnedInbox k, wk_current k)"

definition quietly :: "'q core \<Rightarrow> 'q core \<Rightarrow> bool" where
  "quietly s s' \<longleftrightarrow> map tracked (sc_workers s') = map tracked (sc_workers s) \<and> sc_injection s' = sc_injection s
     \<and> sc_tasks s' = sc_tasks s \<and> sc_fatal s' = sc_fatal s \<and> sc_injectionCapacity s' = sc_injectionCapacity s
     \<and> sc_parkedWoken s' = sc_parkedWoken s"

lemma quietly_refl [simp]: "quietly s s"
  by (simp add: quietly_def)

lemma quietly_core [simp]:
  "quietly a (s\<lparr>sc_idleMask := x1\<rparr>) = quietly a s" "quietly a (s\<lparr>sc_searching := x2\<rparr>) = quietly a s"
  "quietly a (s\<lparr>sc_timekeeper := x3\<rparr>) = quietly a s" "quietly a (s\<lparr>sc_driverWoken := x4\<rparr>) = quietly a s"
  "quietly a (s\<lparr>sc_rampUpDeadline := x5\<rparr>) = quietly a s" "quietly a (s\<lparr>sc_keeperDeadline := x6\<rparr>) = quietly a s"
  "quietly a (s\<lparr>sc_lastKeeperWake := x7\<rparr>) = quietly a s"
  by (simp_all add: quietly_def)

lemma quietly_updW: "quietly a s \<Longrightarrow> (\<And>k. tracked (f k) = tracked k) \<Longrightarrow> quietly a (updW s w f)"
  by (simp add: quietly_def updW_map)

lemma quietly_moved:
  assumes "quietly s s'" "wf_core i s"
  shows "moved c i s s' {#} {#}"
proof -
  have m: "map g (sc_workers s') = map g (sc_workers s)" if "\<And>k k'. tracked k = tracked k' \<Longrightarrow> g k = g k'" for g
  proof (rule nth_equalityI)
    show l: "length (map g (sc_workers s')) = length (map g (sc_workers s))"
      using assms(1) by (metis length_map quietly_def)
    fix j assume "j < length (map g (sc_workers s'))"
    then show "map g (sc_workers s') ! j = map g (sc_workers s) ! j"
      using assms(1) l that unfolding quietly_def by (metis length_map nth_map)
  qed
  have "map (\<lambda>k. i (wk_local k)) (sc_workers s') = map (\<lambda>k. i (wk_local k)) (sc_workers s)"
    by (rule m) (simp add: tracked_def)
  then have "wf_core i s'"
    using assms(2) unfolding wf_core_def by (metis (mono_tags, lifting) in_set_conv_nth length_map nth_map)
  moreover have "map (worker_free c) (sc_workers s') = map (worker_free c) (sc_workers s)" "inboxes s' = inboxes s" "currents s' = currents s"
    unfolding inboxes_def currents_def by (rule m; simp add: tracked_def worker_free_def)+
  ultimately show ?thesis using assms(1) by (simp add: moved_def quietly_def same_tasks_def free_tasks_def)
qed

lemma quietly_placed: "quietly s s' \<Longrightarrow> wf_core i s \<Longrightarrow> placed c i s s' {#} {#}"
  using quietly_moved [of s s' i c] by (simp add: placed_def calm_def quietly_def)

lemma moved_placed: "moved c i s s' a r \<Longrightarrow> sc_fatal s' = sc_fatal s \<Longrightarrow> placed c i s s' a r"
  by (simp add: placed_def calm_def)

section \<open>Notifications place nothing\<close>

lemma quietly_unparkWorker: "quietly a s \<Longrightarrow> quietly a (unparkWorker s w)"
  by (auto simp: unparkWorker_def tracked_def intro!: quietly_updW)

lemma quietly_handOffTo: "quietly a s \<Longrightarrow> quietly a (handOffTo me s w)"
  by (auto simp: handOffTo_def tracked_def intro!: quietly_unparkWorker quietly_updW)

lemma quietly_notifyIdleWorker: "quietly a s \<Longrightarrow> quietly a (notifyIdleWorker me s)"
  by (auto simp: notifyIdleWorker_def Let_def intro!: quietly_handOffTo)

lemma quietly_notifyWorker: "quietly a s \<Longrightarrow> quietly a (notifyWorker me s w)"
  by (auto simp: notifyWorker_def clearIdle_def intro!: quietly_handOffTo)

lemma quietly_ensureTimekeeper: "quietly a s \<Longrightarrow> quietly a (ensureTimekeeper me s)"
  by (auto simp: ensureTimekeeper_def intro!: quietly_notifyIdleWorker)

lemma quietly_requestRampUp: "quietly a s \<Longrightarrow> quietly a (requestRampUp me s)"
  by (auto simp: requestRampUp_def Let_def intro!: quietly_notifyIdleWorker quietly_unparkWorker split: option.split)

lemma quietly_wakePeer: "quietly a s \<Longrightarrow> quietly a (wakePeerForLeftovers Q s w)"
  by (simp add: wakePeerForLeftovers_def quietly_requestRampUp)

section \<open>Injection, gathering, inboxes\<close>

lemma moved_pushInjection: "wf_core i s \<Longrightarrow> moved c i s (pushInjection s t) {#t#} {#}"
  by (auto simp: moved_def pushInjection_def wf_core_def inboxes_def currents_def same_tasks_def free_tasks_def)

lemma moved_inject: "wf_core i s \<Longrightarrow> moved c i s (inject me s t) {#t#} {#}"
  unfolding inject_def
  by (rule moved_quiet [OF moved_pushInjection quietly_moved])
    (auto intro: quietly_notifyIdleWorker moved_wf [OF moved_pushInjection])

lemma moved_foldl:
  assumes "\<And>s t. wf_core i s \<Longrightarrow> length (sc_workers s) = n \<Longrightarrow> moved c i s (f s t) {#t#} {#}"
  shows "wf_core i s \<Longrightarrow> length (sc_workers s) = n \<Longrightarrow> moved c i s (foldl f s ts) (mset ts) {#}"
proof (induction ts arbitrary: s)
  case Nil
  then show ?case by (simp add: moved_def)
next
  case (Cons t ts)
  have m: "moved c i s (f s t) {#t#} {#}" using assms Cons.prems by blast
  then have "moved c i (f s t) (foldl f (f s t) ts) (mset ts) {#}"
    using Cons.prems moved_length [OF m] by (intro Cons.IH moved_wf [OF m]) simp
  from moved_trans [OF m this] show ?case by simp
qed

lemma moved_popInjection: "wf_core i s \<Longrightarrow> popInjection s = (r, s') \<Longrightarrow> moved c i s s' {#} (optm r)"
  by (auto simp: moved_def popInjection_def wf_core_def inboxes_def currents_def same_tasks_def free_tasks_def split: list.splits)

lemma moved_gather:
  assumes "wf_core i s" "w < length (sc_workers s)"
  shows "moved c i s (gather s w t) {#t#} {#}"
  unfolding gather_def using assms by (intro moved_updW) (auto simp: worker_free_def wf_nth)

lemma took_inbox:
  assumes "wf_core i s" "w < length (sc_workers s)" "wk_pinnedInbox (wkr s w) = t # ts"
  shows "took c i s (updW s w (\<lambda>k. k\<lparr>wk_pinnedInbox := ts\<rparr>)) w (Some t)"
proof -
  let ?s = "updW s w (\<lambda>k. k\<lparr>wk_pinnedInbox := ts\<rparr>)"
  have "inboxes ?s = (inboxes s)[w := ts]" unfolding inboxes_def updW_def by (simp add: map_update)
  moreover have "currents ?s = currents s" unfolding currents_def by (rule updW_map) simp
  moreover have "free_tasks c ?s = free_tasks c s"
    using free_tasks_updW [OF assms(2), of c "\<lambda>k. k\<lparr>wk_pinnedInbox := ts\<rparr>" "{#}" "{#}"] by (simp add: worker_free_def)
  moreover have "wf_core i ?s" using assms(1) by (intro wf_updW) (auto simp: wf_nth)
  moreover have "calm c s ?s {#}" by (simp add: calm_def)
  ultimately show ?thesis using assms by (simp add: took_def from_inbox_def inboxes_def same_tasks_def)
qed

lemma orElse_took:
  assumes "took c i s s1 w r" "\<And>s2 r2. placed c i s s1 {#} {#} \<Longrightarrow> f s1 = (r2, s2) \<Longrightarrow> took c i s1 s2 w r2" "orElse (r, s1) f = (r', s')"
  shows "took c i s s' w r'"
proof (cases r)
  case None
  then have q: "placed c i s s1 {#} {#}" using assms(1) by (simp add: took_none)
  have "f s1 = (r', s')" using None assms(3) by (simp add: orElse_def)
  from quiet_took [OF q assms(2) [OF q this]] show ?thesis .
next
  case (Some t)
  then show ?thesis using assms(1,3) by (simp add: orElse_def)
qed

text \<open>The LIFO slots are left alone by injection.\<close>

definition lifos :: "'q core \<Rightarrow> tid option list" where
  "lifos s = map wk_lifoSlot (sc_workers s)"

lemma quietly_lifos:
  assumes "quietly s s'"
  shows "lifos s' = lifos s"
proof -
  have "map wk_lifoSlot ws = map (\<lambda>p. fst (snd p)) (map tracked ws)" for ws :: "'a worker list"
    by (simp add: tracked_def)
  then show ?thesis using assms unfolding lifos_def quietly_def by metis
qed

lemma lifos_inject [simp]: "lifos (inject me s t) = lifos s"
proof -
  have "lifos (inject me s t) = lifos (pushInjection s t)"
    unfolding inject_def by (rule quietly_lifos [OF quietly_notifyIdleWorker]) simp
  then show ?thesis by (simp add: pushInjection_def lifos_def)
qed

lemma lifos_foldl_inject [simp]: "lifos (foldl (inject me) s ts) = lifos s"
  by (induction ts arbitrary: s) simp_all

lemma lifos_updW: "wk_lifoSlot (f (wkr s w)) = wk_lifoSlot (wkr s w) \<Longrightarrow> lifos (updW s w f) = lifos s"
  unfolding lifos_def by (rule updW_map)

lemma lifos_pushLocalFifo: "lifos (pushLocalFifo Q s w t) = lifos s"
  by (auto simp: pushLocalFifo_def Let_def lifos_updW split: prod.split bool.split)

section \<open>The injection queue during an operation\<close>

text \<open>\<open>grows a s\<close>: between \<open>a\<close> and \<open>s\<close> the injection queue only grew, and its check failed only if it
  is now longer than its capacity.\<close>

definition grows :: "'q core \<Rightarrow> 'q core \<Rightarrow> bool" where
  "grows a s \<longleftrightarrow> length (sc_injection a) \<le> length (sc_injection s) \<and> sc_injectionCapacity s = sc_injectionCapacity a
     \<and> (sc_fatal a = None \<and> length (sc_injection s) \<le> sc_injectionCapacity a \<longrightarrow> sc_fatal s = None)"

lemma grows_refl [simp]: "grows s s"
  by (simp add: grows_def)

lemma grows_quietly: "grows a s \<Longrightarrow> quietly s s' \<Longrightarrow> grows a s'"
  by (simp add: grows_def quietly_def)

lemma grows_updW [simp]: "grows a (updW s w f) = grows a s"
  by (simp add: grows_def)

lemma grows_pushInjection: "grows a s \<Longrightarrow> grows a (pushInjection s t)"
  by (auto simp: grows_def pushInjection_def)

lemma grows_notifyIdleWorker: "grows a s \<Longrightarrow> grows a (notifyIdleWorker me s)"
  by (rule grows_quietly [of a s]) (auto intro: quietly_notifyIdleWorker)

lemma grows_notifyWorker: "grows a s \<Longrightarrow> grows a (notifyWorker me s w)"
  by (rule grows_quietly [of a s]) (auto intro: quietly_notifyWorker)

lemma grows_inject: "grows a s \<Longrightarrow> grows a (inject me s t)"
  unfolding inject_def by (intro grows_notifyIdleWorker grows_pushInjection)

lemma grows_foldl: "(\<And>s t. grows a s \<Longrightarrow> grows a (f s t)) \<Longrightarrow> grows a s \<Longrightarrow> grows a (foldl f s ts)"
  by (induction ts arbitrary: s) simp_all

lemma grows_pushLocalFifo: "grows a s \<Longrightarrow> grows a (pushLocalFifo Q s w t)"
  by (auto simp: pushLocalFifo_def Let_def intro!: grows_inject grows_foldl split: prod.split bool.split)

lemma grows_pushLocalLifo: "grows a s \<Longrightarrow> grows a (pushLocalLifo Q s w t)"
  by (auto simp: pushLocalLifo_def intro!: grows_pushLocalFifo split: option.split)

lemma grows_placeGathered: "grows a s \<Longrightarrow> grows a (snd (placeGathered Q s w keep))"
  by (auto simp: placeGathered_def Let_def
      intro!: grows_pushLocalLifo grows_foldl grows_pushLocalFifo grows_pushInjection grows_notifyIdleWorker)

lemma grows_stealFrom: "grows a s \<Longrightarrow> grows a (snd (stealFrom Q s w vs))"
  by (induction Q s w vs rule: stealFrom.induct)
    (auto simp: Let_def intro!: grows_foldl grows_inject split: prod.split option.split list.split)

lemma grows_steal: "grows a s \<Longrightarrow> grows a (snd (steal Q s w))"
  by (simp add: steal_def Let_def grows_stealFrom)

lemma grows_calm:
  assumes "grows s s'" "moved c i s s' a r"
  shows "placed c i s s' a r"
proof -
  have "length (sc_injection s') \<le> size (free_tasks c s')" by (simp add: free_tasks_def)
  then show ?thesis using assms moved_size [OF assms(2)] by (auto simp: placed_def calm_def grows_def)
qed

section \<open>The contract of a local queue\<close>

locale local_queue =
  work_queue "lq_push Q" "lq_pop Q" "lq_popBlock Q" "lq_steal Q" "lq_stealBlock Q" "lq_hasEntries Q" contents inv
  for Q :: "'q local_ops" and contents :: "'q \<Rightarrow> tid list" and inv :: "'q \<Rightarrow> bool" +
  assumes pushBatch_law: "inv q \<Longrightarrow> lq_pushBatch Q q ts = (n, q') \<Longrightarrow>
    inv q' \<and> n \<le> length ts \<and> contents q' = contents q @ take n ts"
begin

abbreviation wf where "wf \<equiv> wf_core inv"
abbreviation mv where "mv \<equiv> moved contents inv"
abbreviation tk where "tk \<equiv> took contents inv"

lemma local_moved:
  assumes "wf s" "w < length (sc_workers s)" "inv q" "mset (contents q) + rem = mset (contents (wk_local (wkr s w))) + add"
  shows "mv s (updW s w (\<lambda>k. k\<lparr>wk_local := q\<rparr>)) add rem"
proof (rule moved_updW [OF assms(1,2)])
  show "worker_free contents ((wkr s w)\<lparr>wk_local := q\<rparr>) + rem = worker_free contents (wkr s w) + add"
    using assms(4) unfolding worker_free_def by (simp add: ac_simps)
qed (simp_all add: assms(3))

lemma moved_pushLocalFifo:
  assumes "wf s" "w < length (sc_workers s)"
  shows "mv s (pushLocalFifo Q s w t) {#t#} {#}"
proof -
  let ?q = "wk_local (wkr s w)"
  have inv: "inv ?q" using assms by (rule wf_nth)
  obtain ok q where p: "lq_push Q ?q t = (ok, q)" by (cases "lq_push Q ?q t")
  show ?thesis
  proof (cases ok)
    case True
    with p inv push_ok have "inv q" "contents q = contents ?q @ [t]" by auto
    with local_moved [OF assms, of q "{#}" "{#t#}"] p True show ?thesis by (simp add: pushLocalFifo_def)
  next
    case False
    with p inv push_full have q: "inv q" "contents q = contents ?q" by auto
    let ?s1 = "updW s w (\<lambda>k. k\<lparr>wk_local := q\<rparr>)"
    let ?s2 = "if lq_producerBlockHasActiveStealers Q q then ?s1
       else case lq_popBlock Q q of (batch, q') \<Rightarrow> foldl (inject (Some w)) (updW ?s1 w (\<lambda>k. k\<lparr>wk_local := q'\<rparr>)) batch"
    have s1: "mv s ?s1 {#} {#}" using local_moved [OF assms q(1), of "{#}" "{#}"] q(2) by simp
    have w1: "w < length (sc_workers ?s1)" "wk_local (wkr ?s1 w) = q" using assms(2) by (simp_all add: wkr_updW)
    have s2: "mv s ?s2 {#} {#} \<or> (\<exists>b. mv s ?s2 b b)"
    proof (cases "lq_producerBlockHasActiveStealers Q q")
      case True
      with s1 show ?thesis by simp
    next
      case False
      obtain batch q' where b: "lq_popBlock Q q = (batch, q')" by (cases "lq_popBlock Q q")
      let ?s3 = "updW ?s1 w (\<lambda>k. k\<lparr>wk_local := q'\<rparr>)"
      have "inv q'" "contents q = batch @ contents q'" using popBlock_law [OF q(1) b] by auto
      then have m3: "mv ?s1 ?s3 {#} (mset batch)" using local_moved [OF moved_wf [OF s1] w1(1), of q' "mset batch" "{#}"] w1(2) by simp
      have "mv ?s3 (foldl (inject (Some w)) ?s3 batch) (mset batch) {#}"
        by (rule moved_foldl [OF moved_inject]) (use moved_wf [OF m3] in simp_all)
      from moved_trans [OF moved_trans [OF s1 m3] this] have "mv s (foldl (inject (Some w)) ?s3 batch) (mset batch) (mset batch)" by simp
      then show ?thesis using False b by auto
    qed
    then obtain b where s2: "mv s ?s2 b b" by auto
    have pl: "pushLocalFifo Q s w t = inject (Some w) ?s2 t" using p False by (simp add: pushLocalFifo_def Let_def)
    from moved_trans [OF s2 moved_inject [OF moved_wf [OF s2]]] have "mv s (pushLocalFifo Q s w t) (b + {#t#}) b" by (simp only: pl add_0_right)
    then show ?thesis by (auto simp: moved_def)
  qed
qed

lemma moved_pushLocalLifo:
  assumes "wf s" "w < length (sc_workers s)"
  shows "mv s (pushLocalLifo Q s w t) {#t#} {#}"
proof (cases "wk_lifoSlot (wkr s w)")
  case None
  then show ?thesis using assms wf_nth [OF assms]
    by (simp add: pushLocalLifo_def) (intro moved_updW, auto simp: worker_free_def)
next
  case (Some e)
  let ?s1 = "pushLocalFifo Q s w e"
  note m = moved_pushLocalFifo [OF assms, of e]
  have w1: "w < length (sc_workers ?s1)" using moved_length [OF m] assms(2) by simp
  have "lifos ?s1 ! w = lifos s ! w" by (simp add: lifos_pushLocalFifo)
  then have l: "wk_lifoSlot (wkr ?s1 w) = Some e" using Some w1 assms(2) by (simp add: lifos_def)
  have "mv ?s1 (updW ?s1 w (\<lambda>k. k\<lparr>wk_lifoSlot := Some t\<rparr>)) {#t#} {#e#}"
    using moved_wf [OF m] w1 l by (intro moved_updW) (auto simp: worker_free_def wf_nth)
  from moved_trans [OF m this] Some show ?thesis by (simp add: pushLocalLifo_def moved_def)
qed

lemma took_takeLocal:
  assumes "wf s" "w < length (sc_workers s)" "takeLocal Q s w = (r, s')"
  shows "tk s s' w r"
proof -
  let ?k = "wkr s w"
  have inv: "inv (wk_local ?k)" using assms(1,2) by (rule wf_nth)
  show ?thesis
  proof (cases "wk_lifoSlot ?k \<noteq> None \<and> (wk_lifoStreak ?k < kLifoCap \<or> \<not> lq_hasEntries Q (wk_local ?k))")
    case True
    then have eq: "r = wk_lifoSlot ?k" "s' = updW s w (\<lambda>k. k\<lparr>wk_lifoSlot := None, wk_lifoStreak := wk_lifoStreak k + 1\<rparr>)"
      using assms(3) by (auto simp: takeLocal_def)
    have "mv s s' {#} (optm r)" unfolding eq using assms(1,2) inv by (intro moved_updW) (auto simp: worker_free_def)
    then show ?thesis by (intro placed_took moved_placed) (simp_all add: eq)
  next
    case False
    let ?s0 = "updW s w (\<lambda>k. k\<lparr>wk_lifoStreak := 0\<rparr>)"
    have s0: "mv s ?s0 {#} {#}" using assms(1) by (intro quietly_moved quietly_updW) (simp_all add: tracked_def)
    have w0: "w < length (sc_workers ?s0)" "wkr ?s0 w = ?k\<lparr>wk_lifoStreak := 0\<rparr>" using assms(2) by (simp_all add: wkr_updW)
    obtain p q where pop: "lq_pop Q (wk_local ?k) = (p, q)" by (cases "lq_pop Q (wk_local ?k)")
    let ?s1 = "updW ?s0 w (\<lambda>k. k\<lparr>wk_local := q\<rparr>)"
    show ?thesis
    proof (cases p)
      case (Some t)
      with pop inv pop_some have "inv q" "contents (wk_local ?k) = t # contents q" by auto
      then have "mv ?s0 ?s1 {#} {#t#}" using local_moved [OF moved_wf [OF s0] w0(1), of q "{#t#}" "{#}"] w0(2) by simp
      moreover have "r = Some t" "s' = ?s1" using assms(3) False pop Some by (auto simp: takeLocal_def Let_def)
      ultimately show ?thesis using quiet_moved [OF s0] by (simp add: placed_took moved_placed)
    next
      case None
      with pop inv pop_none have q: "inv q" "contents q = []" "contents (wk_local ?k) = []" by auto
      then have m1: "mv ?s0 ?s1 {#} {#}" using local_moved [OF moved_wf [OF s0] w0(1), of q "{#}" "{#}"] w0(2) by simp
      note s1 = quiet_moved [OF s0 m1]
      have w1: "w < length (sc_workers ?s1)" "wkr ?s1 w = ?k\<lparr>wk_lifoStreak := 0, wk_local := q\<rparr>"
        using assms(2) w0 by (simp_all add: wkr_updW)
      show ?thesis
      proof (cases "wk_pinnedInbox ?k")
        case (Cons t ts)
        let ?s2 = "updW ?s1 w (\<lambda>k. k\<lparr>wk_pinnedInbox := ts\<rparr>)"
        have eq: "r = Some t" "s' = ?s2" using assms(3) False pop None Cons by (auto simp: takeLocal_def Let_def)
        have "tk ?s1 ?s2 w (Some t)"
          using took_inbox [OF moved_wf [OF s1] w1(1), of t ts] w1(2) Cons by simp
        with quiet_took [OF moved_placed [OF s1]] eq show ?thesis by simp
      next
        case Nil
        let ?s2 = "updW ?s1 w (\<lambda>k. k\<lparr>wk_lifoSlot := None\<rparr>)"
        have eq: "r = wk_lifoSlot ?k" "s' = ?s2" using assms(3) False pop None Nil by (auto simp: takeLocal_def Let_def)
        have "mv ?s1 ?s2 {#} (optm r)" unfolding eq(1) using moved_wf [OF s1] w1 q(1)
          by (intro moved_updW) (auto simp: worker_free_def)
        with quiet_moved [OF s1] eq show ?thesis by (simp add: placed_took moved_placed)
      qed
    qed
  qed
qed

lemma moved_placeGathered:
  assumes "wf s" "w < length (sc_workers s)" "placeGathered Q s w keep = (r, s')"
  shows "mv s s' {#} (optm r)"
proof -
  let ?b = "wk_gathered (wkr s w)" let ?s = "updW s w (\<lambda>k. k\<lparr>wk_gathered := []\<rparr>)"
  have m: "mv s ?s {#} (mset ?b)" using assms(1,2) by (intro moved_updW) (auto simp: worker_free_def wf_nth)
  note wf1 = moved_wf [OF m]
  have w1: "w < length (sc_workers ?s)" using assms(2) by simp
  show ?thesis
  proof (cases "\<not> keep \<and> length ?b = 1 \<and> \<not> hasLocalWork Q ?s w")
    case True
    then obtain t where "?b = [t]" by (cases ?b) auto
    with True assms(3) have "r = None" "s' = pushLocalLifo Q ?s w t" by (auto simp: placeGathered_def Let_def)
    with moved_trans [OF m moved_pushLocalLifo [OF wf1 w1, of t]] \<open>?b = [t]\<close> show ?thesis by (auto simp: moved_def)
  next
    case False
    let ?rest = "if keep then tl ?b else ?b"
    let ?s1 = "foldl pushInjection ?s ?rest" let ?s2 = "foldl (\<lambda>s t. pushLocalFifo Q s w t) ?s ?rest"
    have r: "r = (if keep \<and> ?b \<noteq> [] then Some (hd ?b) else None)"
      and s': "s' = (if hasIdleWorkers ?s then if ?rest \<noteq> [] then notifyIdleWorker (Some w) ?s1 else ?s1 else ?s2)"
      using assms(3) False by (auto simp: placeGathered_def Let_def split: if_splits)
    have split: "mset ?b = optm r + mset ?rest" unfolding r by (cases ?b) auto
    have "mv ?s ?s1 (mset ?rest) {#}" by (rule moved_foldl [OF moved_pushInjection]) (use wf1 in auto)
    moreover have "mv ?s1 (notifyIdleWorker (Some w) ?s1) {#} {#}"
      by (intro quietly_moved quietly_notifyIdleWorker moved_wf [OF \<open>mv ?s ?s1 (mset ?rest) {#}\<close>]) simp
    moreover have "mv ?s ?s2 (mset ?rest) {#}"
      by (rule moved_foldl [where n = "length (sc_workers ?s)"]) (use wf1 w1 moved_pushLocalFifo in auto)
    ultimately have "mv ?s s' (mset ?rest) {#}" unfolding s' using moved_quiet by auto
    from moved_trans [OF m this] show ?thesis by (simp add: moved_def split)
  qed
qed

lemma took_stealFrom:
  "wf s \<Longrightarrow> w < length (sc_workers s) \<Longrightarrow> \<forall>v\<in>set vs. v < length (sc_workers s) \<Longrightarrow>
    stealFrom Q s w vs = (r, s') \<Longrightarrow> mv s s' {#} (optm r)"
proof (induction vs arbitrary: s)
  case Nil
  then show ?case by (simp add: moved_def)
next
  case (Cons v vs)
  let ?k = "wk_local (wkr s v)"
  have v: "v < length (sc_workers s)" using Cons.prems(3) by simp
  have inv: "inv ?k" using Cons.prems(1) v by (rule wf_nth)
  have bump: "mv a (updW a w (\<lambda>k. k\<lparr>wk_steals := wk_steals k + 1\<rparr>)) {#} {#}" if "wf a" for a
    using that by (intro quietly_moved quietly_updW) (simp_all add: tracked_def)
  consider "v = w" | (one) "v \<noteq> w" "lq_minRemainingSlots Q (wk_local (wkr s w)) < lq_kEntriesPerBlock Q"
    | (block) "v \<noteq> w" "\<not> lq_minRemainingSlots Q (wk_local (wkr s w)) < lq_kEntriesPerBlock Q" by blast
  then show ?case
  proof cases
    case 1
    with Cons show ?thesis by simp
  next
    case one
    obtain p q where st: "lq_steal Q ?k = (p, q)" by (cases "lq_steal Q ?k")
    let ?s1 = "updW s v (\<lambda>k. k\<lparr>wk_local := q\<rparr>)"
    show ?thesis
    proof (cases p)
      case None
      with steal_none inv st have "inv q" "contents q = contents ?k" by auto
      then have m: "mv s ?s1 {#} {#}" using local_moved [OF Cons.prems(1) v, of q "{#}" "{#}"] by simp
      have "mv ?s1 s' {#} (optm r)"
        by (rule Cons.IH) (use Cons.prems one st None moved_wf [OF m] in auto)
      with quiet_moved [OF m] show ?thesis by simp
    next
      case (Some t)
      with steal_some inv st obtain as bs where q: "inv q" "contents ?k = as @ t # bs" "contents q = as @ bs" by blast
      then have m: "mv s ?s1 {#} {#t#}" using local_moved [OF Cons.prems(1) v, of q "{#t#}" "{#}"] by simp
      have "r = Some t" "s' = updW ?s1 w (\<lambda>k. k\<lparr>wk_steals := wk_steals k + 1\<rparr>)"
        using Cons.prems(4) one st Some by auto
      with moved_quiet [OF m bump [OF moved_wf [OF m]]] show ?thesis by simp
    qed
  next
    case block
    obtain batch q where st: "lq_stealBlock Q ?k = (batch, q)" by (cases "lq_stealBlock Q ?k")
    let ?s1 = "updW s v (\<lambda>k. k\<lparr>wk_local := q\<rparr>)"
    from stealBlock_law [OF inv st] obtain as bs where q: "inv q" "contents ?k = as @ batch @ bs" "contents q = as @ bs" by blast
    then have m: "mv s ?s1 {#} (mset batch)" using local_moved [OF Cons.prems(1) v, of q "mset batch" "{#}"] by simp
    show ?thesis
    proof (cases batch)
      case Nil
      have "mv ?s1 s' {#} (optm r)"
        by (rule Cons.IH) (use Cons.prems block st Nil moved_wf [OF m] in auto)
      with quiet_moved [of contents inv s ?s1] m Nil show ?thesis by simp
    next
      case (Cons t ts)
      let ?s2 = "updW ?s1 w (\<lambda>k. k\<lparr>wk_steals := wk_steals k + 1\<rparr>)"
      have m2: "mv s ?s2 {#} (mset batch)" by (rule moved_quiet [OF m bump [OF moved_wf [OF m]]])
      have w2: "w < length (sc_workers ?s2)" using Cons.prems(2) by simp
      obtain n q' where b: "lq_pushBatch Q (wk_local (wkr ?s2 w)) ts = (n, q')" by (cases "lq_pushBatch Q (wk_local (wkr ?s2 w)) ts")
      note pb = pushBatch_law [OF wf_nth [OF moved_wf [OF m2] w2] b]
      let ?s3 = "updW ?s2 w (\<lambda>k. k\<lparr>wk_local := q'\<rparr>)"
      have m3: "mv ?s2 ?s3 (mset (take n ts)) {#}"
        using local_moved [OF moved_wf [OF m2] w2, of q' "{#}" "mset (take n ts)"] pb by simp
      have m4: "mv ?s3 (foldl (inject (Some w)) ?s3 (drop n ts)) (mset (drop n ts)) {#}"
        by (rule moved_foldl [OF moved_inject]) (use moved_wf [OF m3] in auto)
      have eq: "r = Some t" "s' = foldl (inject (Some w)) ?s3 (drop n ts)"
        using Cons.prems(4) block st \<open>batch = t # ts\<close> b by auto
      have ts: "mset (take n ts) + mset (drop n ts) = mset ts" by (metis append_take_drop_id mset_append)
      from moved_trans [OF moved_trans [OF m2 m3] m4] have "mv s s' (mset ts) (add_mset t (mset ts))"
        by (simp add: eq ts \<open>batch = t # ts\<close>)
      then show ?thesis by (auto simp: moved_def eq)
    qed
  qed
qed

lemma moved_steal:
  assumes "wf s" "w < length (sc_workers s)" "steal Q s w = (r, s')"
  shows "mv s s' {#} (optm r)"
proof (cases "length (sc_workers s) \<le> 1")
  case True
  then show ?thesis using assms by (auto simp: steal_def moved_def)
next
  case False
  let ?n = "length (sc_workers s)" let ?rng = "nextRandom (wk_rng (wkr s w))"
  let ?s = "updW s w (\<lambda>k. k\<lparr>wk_rng := ?rng\<rparr>)"
  have m: "mv s ?s {#} {#}" using assms(1) by (intro quietly_moved quietly_updW) (simp_all add: tracked_def)
  have "stealFrom Q ?s w (map (\<lambda>i. (unat ?rng mod ?n + i) mod ?n) [0..<?n]) = (r, s')"
    using assms(3) False by (simp add: steal_def Let_def)
  moreover have "\<forall>v\<in>set (map (\<lambda>i. (unat ?rng mod ?n + i) mod ?n) [0..<?n]). v < length (sc_workers ?s)"
    using assms(2) by (auto intro!: mod_less_divisor)
  ultimately have "mv ?s s' {#} (optm r)" using assms(2) moved_wf [OF m] by (intro took_stealFrom) auto
  with quiet_moved [OF m] show ?thesis .
qed

lemma quiet_searching: "wf s \<Longrightarrow> placed contents inv s (s\<lparr>sc_searching := n\<rparr>) {#} {#}"
  by (rule quietly_placed) simp_all

lemma took_popInjection: "wf s \<Longrightarrow> popInjection s = (r, s') \<Longrightarrow> tk s s' w r"
  by (rule placed_took [OF moved_placed [OF moved_popInjection]]) (auto simp: popInjection_def split: list.splits)

lemma took_steal: "wf s \<Longrightarrow> w < length (sc_workers s) \<Longrightarrow> steal Q s w = (r, s') \<Longrightarrow> tk s s' w r"
  by (rule placed_took [OF grows_calm [OF _ moved_steal]]) (use grows_steal [OF grows_refl, of s Q w] in simp_all)

text \<open>One more attempt after a chain of them.\<close>

lemma took_orElse:
  assumes "\<And>r s1. p = (r, s1) \<Longrightarrow> tk s s1 w r" "w < length (sc_workers s)"
    "\<And>s1 s2 r2. wf s1 \<Longrightarrow> w < length (sc_workers s1) \<Longrightarrow> f s1 = (r2, s2) \<Longrightarrow> tk s1 s2 w r2"
    "orElse p f = (r', s')"
  shows "tk s s' w r'"
proof -
  obtain r s1 where p: "p = (r, s1)" by (cases p)
  note t = assms(1) [OF p]
  show ?thesis
    by (rule orElse_took [OF t]) (use assms(2-4) p took_length [OF t] took_wf [OF t] in auto)
qed

lemma took_refl: "wf s \<Longrightarrow> tk s s w None"
  by (rule placed_took) (simp add: placed_def calm_def moved_def)

lemma took_searchForWork:
  assumes "wf s" "w < length (sc_workers s)" "searchForWork Q s w = (r, s')"
  shows "tk s s' w r"
proof (cases "sc_searching s < length (sc_workers s) div 2 + 1")
  case False
  then show ?thesis using assms by (simp add: searchForWork_def Let_def took_popInjection)
next
  case True
  let ?s = "s\<lparr>sc_searching := sc_searching s + 1\<rparr>"
  obtain r2 s2 where c: "orElse (orElse (popInjection ?s) (\<lambda>s. steal Q s w)) popInjection = (r2, s2)"
    by (cases "orElse (orElse (popInjection ?s) (\<lambda>s. steal Q s w)) popInjection")
  note q = quiet_searching [OF assms(1), of "sc_searching s + 1"]
  have wf1: "wf ?s" by (rule placed_wf [OF q])
  have "tk ?s s2 w r2"
  proof (rule took_orElse [OF _ _ _ c])
    fix r s1 assume "orElse (popInjection ?s) (\<lambda>s. steal Q s w) = (r, s1)"
    then show "tk ?s s1 w r" by (rule took_orElse [rotated -1]) (use assms(2) wf1 took_popInjection took_steal in auto)
  qed (use assms(2) took_popInjection in auto)
  from quiet_took [OF q this] have t: "tk s s2 w r2" .
  let ?s3 = "s2\<lparr>sc_searching := sc_searching s2 - 1\<rparr>"
  note q3 = quiet_searching [OF took_wf [OF t], of "sc_searching s2 - 1"]
  have eq: "r = r2" "s' = (if r2 \<noteq> None \<and> sc_searching s2 = 1 then wakePeerForLeftovers Q ?s3 w else ?s3)"
    using assms(3) True c by (auto simp: searchForWork_def Let_def)
  have "quietly ?s3 s'" unfolding eq(2) by (split if_split) (intro conjI impI quietly_wakePeer quietly_refl)
  then have "placed contents inv ?s3 s' {#} {#}" by (rule quietly_placed) (rule placed_wf [OF q3])
  with took_quiet [OF took_quiet [OF t q3]] eq show ?thesis by simp
qed

lemma took_spinLoop:
  "wf s \<Longrightarrow> w < length (sc_workers s) \<Longrightarrow> spinLoop Q s w n j = (r, s') \<Longrightarrow> tk s s' w r"
proof (induction "32 * ((max n j + 31) div 32) - j" arbitrary: s j rule: less_induct)
  case less
  let ?p = "orElse (orElse (takeLocal Q s w) (\<lambda>s. if hasInjectedWork s then popInjection s else (None, s)))
             (\<lambda>s. if j mod 128 = 0 then steal Q s w else (None, s))"
  obtain r1 s1 where p: "?p = (r1, s1)" by (cases ?p)
  have t: "tk s s1 w r1"
  proof (rule took_orElse [OF _ _ _ p])
    fix r s1 assume "orElse (takeLocal Q s w) (\<lambda>s. if hasInjectedWork s then popInjection s else (None, s)) = (r, s1)"
    then show "tk s s1 w r"
      by (rule took_orElse [rotated -1])
        (use less.prems(1,2) took_takeLocal took_popInjection took_refl in \<open>auto split: if_splits\<close>)
  qed (use less.prems(2) took_steal took_refl in \<open>auto split: if_splits\<close>)
  show ?case
  proof (cases r1)
    case (Some x)
    with p less.prems(3) t show ?thesis by (subst (asm) spinLoop.simps) simp
  next
    case None
    show ?thesis
    proof (cases "j mod 32 = 0 \<and> n \<le> j")
      case True
      with p None less.prems(3) t show ?thesis by (subst (asm) spinLoop.simps) simp
    next
      case False
      with p None less.prems(3) have "spinLoop Q s1 w n (j + 1) = (r, s')" by (subst (asm) spinLoop.simps) auto
      from less.hyps [OF spin_stop [OF False] _ _ this] have "tk s1 s' w r"
        using took_wf [OF t] took_length [OF t] less.prems(2) by simp
      with quiet_took [OF took_none] t None show ?thesis by blast
    qed
  qed
qed

lemma took_spinForWork:
  assumes "wf s" "w < length (sc_workers s)" "spinForWork Q s w idleSpin n = (r, s')"
  shows "tk s s' w r"
proof -
  let ?skip = "idleSpin \<le> 0 \<or> sc_hasDriver s \<and> sc_timekeeper s = None \<or> wk_spinSkips (wkr s w) \<noteq> 0 \<or> sc_searching s \<ge> kMaxSpinners"
  show ?thesis
  proof (cases ?skip)
    case True
    then have "r = None" "s' = s \<or> s' = updW s w (\<lambda>k. k\<lparr>wk_spinSkips := wk_spinSkips k - 1\<rparr>)"
      using assms(3) by (auto simp: spinForWork_def split: if_splits)
    moreover have "quietly s s'" using calculation(2) by (auto intro!: quietly_updW simp: tracked_def)
    ultimately show ?thesis using quietly_placed [OF _ assms(1)] by (simp add: placed_took)
  next
    case False
    let ?s = "s\<lparr>sc_searching := sc_searching s + 1\<rparr>"
    obtain r1 s1 where l: "spinLoop Q ?s w n 1 = (r1, s1)" by (cases "spinLoop Q ?s w n 1")
    let ?s2 = "s1\<lparr>sc_searching := sc_searching s1 - 1\<rparr>"
    obtain r3 s3 where c: "orElse (orElse (r1, ?s2) (\<lambda>s. takeLocal Q s w)) popInjection = (r3, s3)"
      by (cases "orElse (orElse (r1, ?s2) (\<lambda>s. takeLocal Q s w)) popInjection")
    note q = quiet_searching [OF assms(1), of "sc_searching s + 1"]
    have "tk ?s s1 w r1" by (rule took_spinLoop [OF placed_wf [OF q] _ l]) (simp add: assms(2))
    from quiet_took [OF q this] have t1: "tk s s1 w r1" .
    then have t2: "tk s ?s2 w r1" using quiet_searching [OF took_wf [OF t1]] took_quiet by blast
    have t3: "tk s s3 w r3"
    proof (rule took_orElse [OF _ _ _ c])
      fix r s1' assume "orElse (r1, ?s2) (\<lambda>s. takeLocal Q s w) = (r, s1')"
      then show "tk s s1' w r" by (rule took_orElse [rotated -1]) (use t2 assms(2) took_takeLocal in auto)
    qed (use assms(2) took_popInjection in auto)
    have "r = r3 \<and> quietly s3 s'"
      using assms(3) False l c
      by (cases r3) (auto simp: spinForWork_def Let_def tracked_def intro!: quietly_wakePeer quietly_updW split: if_splits)
    then have eq: "r = r3" and quiet: "quietly s3 s'" by auto
    from took_quiet [OF t3 quietly_placed [OF quiet took_wf [OF t3]]] eq show ?thesis by simp
  qed
qed

lemma took_parkIdle_enter:
  assumes "wf s" "w < length (sc_workers s)" "parkIdle_enter Q s w stopping idleSpin n = (r, s')"
  shows "tk s s' w r"
proof (rule took_orElse [OF _ _ _ assms(3) [unfolded parkIdle_enter_def]])
  fix r s1 assume "(if stopping then (None, s) else spinForWork Q s w idleSpin n) = (r, s1)"
  then show "tk s s1 w r" using took_spinForWork took_refl assms(1,2) by (auto split: if_splits)
next
  fix s0 s2 r2 assume a: "wf s0" "w < length (sc_workers s0)"
    "(case orElse (takeLocal Q (markIdle s0 w) w) popInjection of (None, s1) \<Rightarrow> (None, s1)
      | (Some t, s1) \<Rightarrow> (case clearIdle s1 w of (was, s2) \<Rightarrow>
            (Some t, if was then s2 else updW s2 w (\<lambda>k. k\<lparr>wk_token := False\<rparr>)))) = (r2, s2)"
  obtain r1 s1 where c: "orElse (takeLocal Q (markIdle s0 w) w) popInjection = (r1, s1)"
    by (cases "orElse (takeLocal Q (markIdle s0 w) w) popInjection")
  have q0: "placed contents inv s0 (markIdle s0 w) {#} {#}" by (rule quietly_placed) (simp_all add: markIdle_def a(1))
  have t1: "tk (markIdle s0 w) s1 w r1"
    by (rule took_orElse [OF _ _ _ c]) (use a(2) placed_wf [OF q0] took_takeLocal took_popInjection in \<open>auto simp: markIdle_def\<close>)
  have "r2 = r1" "quietly s1 s2"
    using a(3) c by (auto simp: clearIdle_def tracked_def intro!: quietly_updW split: option.splits)
  with took_quiet [OF quiet_took [OF q0 t1] quietly_placed [OF \<open>quietly s1 s2\<close> took_wf [OF t1]]]
  show "tk s0 s2 w r2" by simp
qed (rule assms(2))

lemma placed_parkIdle_leave:
  assumes "wf s" "w < length (sc_workers s)" "parkIdle_leave Q s w = (r, s')"
  shows "placed contents inv s s' {#} (optm r)"
proof -
  let ?s2 = "updW (snd (clearIdle s w)) w
     (\<lambda>k. if wk_handoffWake k then k\<lparr>wk_handoffWake := False, wk_spinMisses := 0, wk_spinSkips := 0\<rparr> else k)"
  have q: "placed contents inv s ?s2 {#} {#}" using assms(1)
    by (intro quietly_placed quietly_updW) (auto simp: clearIdle_def tracked_def)
  have e: "placeGathered Q ?s2 w True = (r, s')" using assms(3) by (simp add: parkIdle_leave_def Let_def)
  have "mv ?s2 s' {#} (optm r)"
    by (rule moved_placeGathered [OF placed_wf [OF q] _ e]) (use assms(2) in \<open>simp add: clearIdle_def\<close>)
  moreover have "grows ?s2 s'" using grows_placeGathered [OF grows_refl, of ?s2 Q w True] e by simp
  ultimately show ?thesis using placed_trans [OF q grows_calm] by fastforce
qed

end

end
