(* ===== verification/Sched_System.thy ===== *)
theory Sched_System
  imports Placement_Laws Ring_Queue
begin

text \<open>
  The scheduler as a whole: workers take turns, idle, sleep and maintain; tasks are spawned, yield,
  park, are woken, pinned and finish, in any order.  Every task that can run is in exactly one
  place exactly once, and pinned tasks only ever on their worker, until a stopping scheduler reaps them.
\<close>

section \<open>The invariant\<close>

definition all_tasks :: "('q \<Rightarrow> tid list) \<Rightarrow> 'q core \<Rightarrow> tid multiset" where
  "all_tasks c s = free_tasks c s + sum_list (map mset (inboxes s)) + sum_list (map optm (currents s))"

definition runnable :: "'q core \<Rightarrow> tid \<Rightarrow> bool" where
  "runnable s t \<longleftrightarrow> tk_parkState (sc_tasks s t) = Running \<or> tk_parkState (sc_tasks s t) = Notified"

text \<open>Tasks that exist: a slot whose task finished is \<open>Done\<close> here until it is reused.\<close>

definition liveTasks_set :: "'q core \<Rightarrow> tid set" where
  "liveTasks_set s = {t. tk_parkState (sc_tasks s t) \<noteq> Done}"

text \<open>\<open>X\<close> are tasks in the hands of the operation under way, in no container.\<close>

definition counts_ok :: "('q \<Rightarrow> tid list) \<Rightarrow> tid set \<Rightarrow> 'q core \<Rightarrow> bool" where
  "counts_ok c X s \<longleftrightarrow> (\<forall>t. count (all_tasks c s) t = (if runnable s t \<and> t \<notin> X then 1 else 0))"

definition pins_valid :: "('q \<Rightarrow> tid list) \<Rightarrow> 'q core \<Rightarrow> bool" where
  "pins_valid c s \<longleftrightarrow> (\<forall>t v. tk_pinnedTo (sc_tasks s t) = Some v \<longrightarrow> v < length (sc_workers s))
     \<and> (\<forall>t\<in>#free_tasks c s. tk_pinnedTo (sc_tasks s t) = None)
     \<and> (\<forall>w<length (sc_workers s). \<forall>t\<in>set (inboxes s ! w). tk_pinnedTo (sc_tasks s t) = Some w)
     \<and> (\<forall>w<length (sc_workers s). \<forall>t v. currents s ! w = Some t \<and> tk_pinnedTo (sc_tasks s t) = Some v
          \<longrightarrow> v = w \<or> sc_parkedWoken s)"

definition sys_ok :: "('q \<Rightarrow> tid list) \<Rightarrow> ('q \<Rightarrow> bool) \<Rightarrow> tid set \<Rightarrow> 'q core \<Rightarrow> bool" where
  "sys_ok c i X s \<longleftrightarrow> wf_core i s \<and> sc_fatal s = None \<and> finite (liveTasks_set s)
     \<and> card (liveTasks_set s) \<le> sc_injectionCapacity s \<and> pins_valid c s \<and> counts_ok c X s"

lemma pins_validI:
  assumes "\<And>t v. tk_pinnedTo (sc_tasks s t) = Some v \<Longrightarrow> v < length (sc_workers s)"
    "\<And>t. t \<in># free_tasks c s \<Longrightarrow> tk_pinnedTo (sc_tasks s t) = None"
    "\<And>w t. w < length (sc_workers s) \<Longrightarrow> t \<in> set (inboxes s ! w) \<Longrightarrow> tk_pinnedTo (sc_tasks s t) = Some w"
    "\<And>w t v. w < length (sc_workers s) \<Longrightarrow> currents s ! w = Some t \<Longrightarrow> tk_pinnedTo (sc_tasks s t) = Some v \<Longrightarrow> v = w \<or> sc_parkedWoken s"
  shows "pins_valid c s"
  unfolding pins_valid_def using assms by blast

lemma pinned_in_range: "pins_valid c s \<Longrightarrow> tk_pinnedTo (sc_tasks s t) = Some v \<Longrightarrow> v < length (sc_workers s)"
  unfolding pins_valid_def by (drule conjunct1) blast

lemma free_unpinned: "pins_valid c s \<Longrightarrow> t \<in># free_tasks c s \<Longrightarrow> tk_pinnedTo (sc_tasks s t) = None"
  unfolding pins_valid_def by (drule conjunct2, drule conjunct1) blast

lemma inbox_pinned:
  "pins_valid c s \<Longrightarrow> w < length (sc_workers s) \<Longrightarrow> t \<in> set (inboxes s ! w) \<Longrightarrow> tk_pinnedTo (sc_tasks s t) = Some w"
  unfolding pins_valid_def by (drule conjunct2, drule conjunct2, drule conjunct1) blast

lemma current_pinned:
  "pins_valid c s \<Longrightarrow> w < length (sc_workers s) \<Longrightarrow> currents s ! w = Some t \<Longrightarrow> tk_pinnedTo (sc_tasks s t) = Some v \<Longrightarrow> v = w \<or> sc_parkedWoken s"
  unfolding pins_valid_def by (drule conjunct2, drule conjunct2, drule conjunct2) blast

lemma length_inboxes [simp]: "length (inboxes s) = length (sc_workers s)"
  by (simp add: inboxes_def)

lemma length_currents [simp]: "length (currents s) = length (sc_workers s)"
  by (simp add: currents_def)

lemma same_tasks_simps:
  assumes "same_tasks s s'"
  shows "runnable s' = runnable s" "liveTasks_set s' = liveTasks_set s" "\<And>t. tk_pinnedTo (sc_tasks s' t) = tk_pinnedTo (sc_tasks s t)"
    "sc_injectionCapacity s' = sc_injectionCapacity s" "sc_parkedWoken s' = sc_parkedWoken s"
  using assms by (auto simp: same_tasks_def runnable_def liveTasks_set_def fun_eq_iff)

lemma counts_free:
  assumes "counts_ok c X s" "t \<in># free_tasks c s"
  shows "runnable s t" "t \<notin> X" "count (free_tasks c s) t = 1"
proof -
  have le: "count (free_tasks c s) t \<le> count (all_tasks c s) t" by (simp add: all_tasks_def)
  have pos: "count (free_tasks c s) t \<ge> 1" using assms(2) by (simp add: count_greater_eq_one_iff)
  have e: "count (all_tasks c s) t = (if runnable s t \<and> t \<notin> X then 1 else 0)" using assms(1) by (simp add: counts_ok_def)
  have r: "runnable s t \<and> t \<notin> X"
  proof (rule ccontr)
    assume "\<not> ?thesis"
    with e le pos show False by simp
  qed
  then show "runnable s t" "t \<notin> X" by auto
  have "count (all_tasks c s) t = 1" using r e by simp
  with le pos show "count (free_tasks c s) t = 1" by linarith
qed

text \<open>The free tasks and those in hand are distinct live tasks.\<close>

lemma free_size:
  assumes "sys_ok c i X s" "Y \<subseteq> X" "Y \<subseteq> liveTasks_set s"
  shows "size (free_tasks c s) + card Y \<le> sc_injectionCapacity s"
proof -
  have co: "counts_ok c X s" and fin: "finite (liveTasks_set s)" using assms(1) by (simp_all add: sys_ok_def)
  let ?F = "set_mset (free_tasks c s)"
  have "free_tasks c s = mset_set ?F"
    by (rule multiset_eqI) (use counts_free(3) [OF co] in \<open>auto simp: count_mset_set' not_in_iff\<close>)
  then have "size (free_tasks c s) = card ?F" by (metis size_mset_set)
  moreover have "?F \<inter> Y = {}" using counts_free(2) [OF co] assms(2) by blast
  moreover have "?F \<union> Y \<subseteq> liveTasks_set s"
    using counts_free(1) [OF co] assms(3) unfolding runnable_def liveTasks_set_def by fastforce
  moreover have "finite Y" using fin assms(3) finite_subset by blast
  ultimately have "size (free_tasks c s) + card Y = card (?F \<union> Y)" by (simp add: card_Un_disjoint)
  also have "\<dots> \<le> card (liveTasks_set s)" using fin \<open>?F \<union> Y \<subseteq> _\<close> by (rule card_mono)
  finally show ?thesis using assms(1) by (simp add: sys_ok_def)
qed

section \<open>Taking, running, placing\<close>

lemma took_cases:
  assumes "took c i s s' w r"
  obtains (free) "inboxes s' = inboxes s" "free_tasks c s' + optm r = free_tasks c s"
    | (inbox) t where "r = Some t" "inboxes s ! w = t # inboxes s' ! w" "inboxes s' = (inboxes s)[w := inboxes s' ! w]"
        "free_tasks c s' = free_tasks c s"
proof (cases "placed c i s s' {#} (optm r)")
  case True
  then show ?thesis using that(1) by (simp add: placed_def moved_def)
next
  case False
  with assms have "from_inbox c s s' w r" by (simp add: took_def)
  then show ?thesis using that(2) [of "the r"] unfolding from_inbox_def by (metis option.collapse)
qed

lemma took_frame:
  assumes "took c i s s' w r"
  shows "currents s' = currents s" "same_tasks s s'" "calm c s s' {#}"
  using assms by (auto simp: took_def placed_def moved_def)

lemma took_all:
  assumes t: "took c i s s' w r" and w: "w < length (sc_workers s)" and pv: "pins_valid c s"
  shows "all_tasks c s' + optm r = all_tasks c s" "pins_valid c s'"
    "\<And>t. r = Some t \<Longrightarrow> tk_pinnedTo (sc_tasks s t) \<in> {None, Some w}"
proof -
  note cu = took_frame(1) [OF t] and st = same_tasks_simps [OF took_frame(2) [OF t]] and len = took_length [OF t]
  show "all_tasks c s' + optm r = all_tasks c s"
    using t
  proof (cases rule: took_cases)
    case free
    then show ?thesis unfolding all_tasks_def cu by (simp add: ac_simps)
  next
    case (inbox t)
    have "sum_list (map mset (inboxes s')) + mset (inboxes s ! w) = sum_list (map mset (inboxes s)) + mset (inboxes s' ! w)"
      using w sum_list_update [of w "inboxes s" mset "inboxes s' ! w"] inbox(3) by simp
    then have "sum_list (map mset (inboxes s')) + {#t#} = sum_list (map mset (inboxes s))" using inbox(2) by simp
    then show ?thesis unfolding all_tasks_def cu using inbox(1,4) by (simp add: ac_simps)
  qed
  have sub: "set_mset (free_tasks c s') \<subseteq> set_mset (free_tasks c s)"
    using t by (cases rule: took_cases) (metis set_mset_mono mset_subset_eq_add_left, simp)
  have "set (inboxes s' ! v) \<subseteq> set (inboxes s ! v)" if "v < length (sc_workers s)" for v
    using t
  proof (cases rule: took_cases)
    case (inbox t)
    then show ?thesis using that w by (metis length_inboxes nth_list_update_eq nth_list_update_neq set_subset_Cons subset_refl)
  qed simp
  then show "pins_valid c s'"
    using sub pinned_in_range [OF pv] free_unpinned [OF pv] inbox_pinned [OF pv] current_pinned [OF pv]
    by (intro pins_validI; unfold st cu len) (blast | assumption)+
  show "tk_pinnedTo (sc_tasks s t) \<in> {None, Some w}" if "r = Some t" for t
    using t
  proof (cases rule: took_cases)
    case free
    then have "t \<in># free_tasks c s" using that by (metis optm.simps(2) union_iff union_single_eq_member add.commute)
    then show ?thesis using free_unpinned [OF pv] by simp
  next
    case (inbox u)
    then have "t \<in> set (inboxes s ! w)" using that by simp
    then show ?thesis using inbox_pinned [OF pv w] by simp
  qed
qed

lemma sys_took:
  assumes ok: "sys_ok c i X s" and t: "took c i s s' w r" and w: "w < length (sc_workers s)"
  shows "sys_ok c i (X \<union> set_option r) s'" "\<And>t. r = Some t \<Longrightarrow> t \<notin> X \<and> runnable s t \<and> tk_pinnedTo (sc_tasks s t) \<in> {None, Some w}"
proof -
  have co: "counts_ok c X s" and pv: "pins_valid c s" and sz: "size (free_tasks c s) \<le> sc_injectionCapacity s"
    using ok free_size [OF ok, of "{}"] by (simp_all add: sys_ok_def)
  note st' = same_tasks_simps [OF took_frame(2) [OF t]] and main = took_all [OF t w pv]
  have fatal: "sc_fatal s' = None" using took_frame(3) [OF t] ok sz by (simp add: calm_def sys_ok_def)
  have cnt: "count (all_tasks c s') x + count (optm r) x = (if runnable s x \<and> x \<notin> X then 1 else 0)" for x
    using main(1) co by (metis count_union counts_ok_def)
  show "t \<notin> X \<and> runnable s t \<and> tk_pinnedTo (sc_tasks s t) \<in> {None, Some w}" if "r = Some t" for t
    using main(3) [OF that] cnt [of t] that by (auto split: if_splits)
  have "counts_ok c (X \<union> set_option r) s'"
    unfolding counts_ok_def st'
  proof
    fix x show "count (all_tasks c s') x = (if runnable s x \<and> x \<notin> X \<union> set_option r then 1 else 0)"
      using cnt [of x] by (cases r) (auto split: if_splits)
  qed
  with main(2) ok fatal took_wf [OF t] show "sys_ok c i (X \<union> set_option r) s'" by (simp add: sys_ok_def st')
qed

lemma currents_setCurrent: "w < length (sc_workers s) \<Longrightarrow> currents (setCurrent s w r) = (currents s)[w := r]"
  by (simp add: currents_def setCurrent_def updW_def map_update)

lemma setCurrent_frame:
  "inboxes (setCurrent s w r) = inboxes s" "same_tasks s (setCurrent s w r)" "sc_fatal (setCurrent s w r) = sc_fatal s"
  "free_tasks c (setCurrent s w r) = free_tasks c s" "wf_core i (setCurrent s w r) = wf_core i s"
  "length (sc_workers (setCurrent s w r)) = length (sc_workers s)" "sc_tasks (setCurrent s w r) = sc_tasks s"
  "sc_parkedWoken (setCurrent s w r) = sc_parkedWoken s"
proof -
  show "inboxes (setCurrent s w r) = inboxes s" unfolding inboxes_def setCurrent_def by (rule updW_map) simp
  show "same_tasks s (setCurrent s w r)" by (simp add: setCurrent_def same_tasks_def)
  have "map (worker_free c) (sc_workers (setCurrent s w r)) = map (worker_free c) (sc_workers s)"
    unfolding setCurrent_def by (rule updW_map) (simp add: worker_free_def)
  then show "free_tasks c (setCurrent s w r) = free_tasks c s" by (simp add: free_tasks_def setCurrent_def)
  have "map wk_local (sc_workers (setCurrent s w r)) = map wk_local (sc_workers s)"
    unfolding setCurrent_def by (rule updW_map) simp
  then have "wk_local ` set (sc_workers (setCurrent s w r)) = wk_local ` set (sc_workers s)" by (metis list.set_map)
  then show "wf_core i (setCurrent s w r) = wf_core i s" unfolding wf_core_def by (metis (no_types, lifting) imageE image_eqI)
qed (simp_all add: setCurrent_def)

text \<open>Worker \<open>w\<close> switches from what it runs to \<open>r\<close>, which was in hand.\<close>

lemma sys_switch:
  assumes ok: "sys_ok c i (X \<union> set_option r) s" and w: "w < length (sc_workers s)"
    and r: "\<And>t. r = Some t \<Longrightarrow> t \<notin> X \<and> runnable s t \<and> (tk_pinnedTo (sc_tasks s t) \<in> {None, Some w} \<or> sc_parkedWoken s)"
  shows "sys_ok c i (X \<union> set_option (currents s ! w)) (setCurrent s w r)"
    "\<And>t. currents s ! w = Some t \<Longrightarrow> t \<notin> X \<and> runnable s t"
proof -
  let ?s = "setCurrent s w r"
  note st = same_tasks_simps [OF setCurrent_frame(2) [of s w r]]
  have co: "counts_ok c (X \<union> set_option r) s" using ok by (simp add: sys_ok_def)
  have "sum_list (map optm (currents ?s)) + optm (currents s ! w) = sum_list (map optm (currents s)) + optm r"
    using sum_list_update [of w "currents s" optm r] w by (simp add: currents_setCurrent)
  then have all: "all_tasks c ?s + optm (currents s ! w) = all_tasks c s + optm r"
    unfolding all_tasks_def by (simp add: setCurrent_frame ac_simps)
  have cnt: "count (all_tasks c ?s) x + count (optm (currents s ! w)) x
      = (if runnable s x \<and> x \<notin> X \<union> set_option r then 1 else 0) + count (optm r) x" for x
  proof -
    have "count (all_tasks c ?s + optm (currents s ! w)) x = count (all_tasks c s + optm r) x" by (simp only: all)
    moreover have "count (all_tasks c s) x = (if runnable s x \<and> x \<notin> X \<union> set_option r then 1 else 0)"
      using co by (simp only: counts_ok_def)
    ultimately show ?thesis by simp
  qed
  have le1: "count (all_tasks c ?s) x + count (optm (currents s ! w)) x = (if runnable s x \<and> x \<notin> X then 1 else 0)" for x
  proof (cases r)
    case None
    with cnt [of x] show ?thesis by simp
  next
    case (Some u)
    then have "u \<notin> X" "runnable s u" using r [of u] by simp_all
    then show ?thesis using cnt [of x] Some by (cases "x = u") simp_all
  qed
  show "t \<notin> X \<and> runnable s t" if "currents s ! w = Some t" for t
    using le1 [of t] that by (simp split: if_split_asm)
  have "counts_ok c (X \<union> set_option (currents s ! w)) ?s"
    unfolding counts_ok_def st
  proof
    fix x show "count (all_tasks c ?s) x = (if runnable s x \<and> x \<notin> X \<union> set_option (currents s ! w) then 1 else 0)"
      using le1 [of x] by (cases "currents s ! w"; cases "currents s ! w = Some x") (simp_all split: if_split_asm)
  qed
  moreover have "pins_valid c ?s"
  proof -
    have pv: "pins_valid c s" using ok by (simp add: sys_ok_def)
    show ?thesis
    proof (rule pins_validI)
      fix v t u assume "v < length (sc_workers ?s)" "currents ?s ! v = Some t" "tk_pinnedTo (sc_tasks ?s t) = Some u"
      then show "u = v \<or> sc_parkedWoken ?s" using current_pinned [OF pv, of v t u] r [of t] w
        by (cases "v = w") (auto simp: setCurrent_frame currents_setCurrent)
    qed (unfold setCurrent_frame; rule pinned_in_range [OF pv] free_unpinned [OF pv] inbox_pinned [OF pv]; assumption)+
  qed
  ultimately show "sys_ok c i (X \<union> set_option (currents s ! w)) ?s"
    using ok by (simp add: sys_ok_def setCurrent_frame st)
qed

text \<open>Placing a task that was in hand, where its pin says.\<close>

definition sent :: "('q \<Rightarrow> tid list) \<Rightarrow> ('q \<Rightarrow> bool) \<Rightarrow> 'q core \<Rightarrow> 'q core \<Rightarrow> tid \<Rightarrow> bool" where
  "sent c i s s' t \<longleftrightarrow> (if tk_pinnedTo (sc_tasks s t) = None then placed c i s s' {#t#} {#}
     else wf_core i s' \<and> currents s' = currents s \<and> same_tasks s s' \<and> sc_fatal s' = sc_fatal s \<and> free_tasks c s' = free_tasks c s
       \<and> inboxes s' = (inboxes s)[the (tk_pinnedTo (sc_tasks s t)) := inboxes s ! the (tk_pinnedTo (sc_tasks s t)) @ [t]])"

lemma sent_frame:
  assumes "sent c i s s' t"
  shows "wf_core i s'" "currents s' = currents s" "same_tasks s s'"
  using assms by (auto simp: sent_def placed_def moved_def split: if_splits)

lemma sys_sent:
  assumes ok: "sys_ok c i (insert t X) s" and se: "sent c i s s' t" and t: "runnable s t" "t \<notin> X"
  shows "sys_ok c i X s'"
proof -
  note fr = sent_frame [OF se] note st = same_tasks_simps [OF fr(3)]
  have pv: "pins_valid c s" and co: "counts_ok c (insert t X) s" and f0: "sc_fatal s = None" using ok by (simp_all add: sys_ok_def)
  have len: "length (sc_workers s') = length (sc_workers s)" using fr(2) by (metis length_currents)
  have sz: "size (free_tasks c s) + 1 \<le> sc_injectionCapacity s"
    using free_size [OF ok, of "{t}"] t(1) by (auto simp: liveTasks_set_def runnable_def)
  have main: "all_tasks c s' = add_mset t (all_tasks c s) \<and> pins_valid c s' \<and> sc_fatal s' = None"
  proof (cases "tk_pinnedTo (sc_tasks s t)")
    case None
    then have p: "placed c i s s' {#t#} {#}" using se by (simp add: sent_def)
    then have m: "inboxes s' = inboxes s" "free_tasks c s' = add_mset t (free_tasks c s)" by (simp_all add: placed_def moved_def)
    have "sc_fatal s' = None" using p sz f0 by (simp add: placed_def calm_def)
    moreover have "pins_valid c s'"
    proof (rule pins_validI; unfold st fr(2) len m)
      fix u assume "u \<in># add_mset t (free_tasks c s)"
      then show "tk_pinnedTo (sc_tasks s u) = None" using free_unpinned [OF pv, of u] None by (cases "u = t") simp_all
    qed (rule pinned_in_range [OF pv] inbox_pinned [OF pv] current_pinned [OF pv]; assumption)+
    ultimately show ?thesis by (simp add: all_tasks_def m fr(2))
  next
    case (Some v)
    then have v: "v < length (sc_workers s)" by (rule pinned_in_range [OF pv])
    have m: "inboxes s' = (inboxes s)[v := inboxes s ! v @ [t]]" "free_tasks c s' = free_tasks c s" "sc_fatal s' = None"
      using se Some f0 by (simp_all add: sent_def)
    have "sum_list (map mset (inboxes s')) + mset (inboxes s ! v) = sum_list (map mset (inboxes s)) + mset (inboxes s ! v @ [t])"
      using sum_list_update [of v "inboxes s" mset] v m(1) by simp
    then have "sum_list (map mset (inboxes s')) = add_mset t (sum_list (map mset (inboxes s)))" by simp
    moreover have "pins_valid c s'"
    proof (rule pins_validI; unfold st fr(2) len m)
      fix w u assume "w < length (sc_workers s)" "u \<in> set ((inboxes s)[v := inboxes s ! v @ [t]] ! w)"
      then show "tk_pinnedTo (sc_tasks s u) = Some w"
        using inbox_pinned [OF pv, of w u] Some v by (cases "w = v") auto
    qed (rule pinned_in_range [OF pv] free_unpinned [OF pv] current_pinned [OF pv]; assumption)+
    ultimately show ?thesis by (simp add: all_tasks_def m fr(2))
  qed
  have "count (all_tasks c s') x = (if runnable s x \<and> x \<notin> X then 1 else 0)" for x
  proof -
    have "count (all_tasks c s) x = (if runnable s x \<and> x \<notin> insert t X then 1 else 0)" using co by (simp add: counts_ok_def)
    then show ?thesis using main t by (cases "x = t") simp_all
  qed
  then have "counts_ok c X s'" by (simp add: counts_ok_def st)
  with main ok fr(1) show ?thesis by (simp add: sys_ok_def st)
qed

end
