(* ===== verification/Sched_Steps.thy ===== *)
theory Sched_Steps
  imports Sched_System
begin

text \<open>
  The steps of the scheduler one by one: where each of them sends a task, and that each keeps the
  invariant of \<open>Sched_System\<close>.
\<close>

section \<open>Placement operations send the task where its pin says\<close>

lemma updT_frame [simp]:
  "sc_workers (updT s t f) = sc_workers s" "sc_injection (updT s t f) = sc_injection s" "sc_fatal (updT s t f) = sc_fatal s"
  "sc_injectionCapacity (updT s t f) = sc_injectionCapacity s" "sc_tasks (updT s t f) = (sc_tasks s)(t := f (sc_tasks s t))"
  "free_tasks c (updT s t f) = free_tasks c s" "inboxes (updT s t f) = inboxes s" "currents (updT s t f) = currents s"
  "wf_core i (updT s t f) = wf_core i s" "all_tasks c (updT s t f) = all_tasks c s" "sc_parkedWoken (updT s t f) = sc_parkedWoken s"
  by (simp_all add: updT_def free_tasks_def inboxes_def currents_def wf_core_def all_tasks_def)

lemma sent_readyAt:
  assumes "sent c i (updT s u (\<lambda>k. k\<lparr>tk_readyAt := x\<rparr>)) s' t"
  shows "sent c i s s' t"
  using assms by (simp add: sent_def placed_def moved_def calm_def same_tasks_def split: if_split_asm)

lemma sent_quietly:
  assumes "sent c i s s1 t" "quietly s1 s2"
  shows "sent c i s s2 t"
proof -
  have q: "placed c i s1 s2 {#} {#}" using assms sent_frame(1) by (blast intro: quietly_placed)
  show ?thesis
  proof (cases "tk_pinnedTo (sc_tasks s t) = None")
    case True
    then have "placed c i s s1 {#t#} {#}" using assms(1) by (simp add: sent_def)
    from placed_trans [OF this q] True show ?thesis by (simp add: sent_def)
  next
    case False
    then show ?thesis using assms q same_tasks_trans [of s s1 s2] by (simp add: sent_def placed_def moved_def quietly_def)
  qed
qed

lemma sent_pushInbox:
  assumes "wf_core i s" "tk_pinnedTo (sc_tasks s t) = Some v" "v < length (sc_workers s)"
  shows "sent c i s (pushInbox s v t) t"
proof -
  let ?f = "\<lambda>k. k\<lparr>wk_pinnedInbox := wk_pinnedInbox k @ [t]\<rparr>"
  have "inboxes (updW s v ?f) = (inboxes s)[v := inboxes s ! v @ [t]]"
    using assms(3) by (simp add: inboxes_def updW_def map_update)
  moreover have "currents (updW s v ?f) = currents s" unfolding currents_def by (rule updW_map) simp
  moreover have "free_tasks c (updW s v ?f) = free_tasks c s"
    using free_tasks_updW [OF assms(3), of c ?f "{#}" "{#}"] by (simp add: worker_free_def)
  moreover have "wf_core i (updW s v ?f)" using assms(1) by (intro wf_updW) (auto simp: wf_nth)
  ultimately show ?thesis using assms(2) by (simp add: sent_def pushInbox_def same_tasks_def)
qed

lemma sent_inject: "wf_core i s \<Longrightarrow> tk_pinnedTo (sc_tasks s t) = None \<Longrightarrow> sent c i s (inject me s t) t"
  by (simp add: sent_def grows_calm [OF grows_inject [OF grows_refl] moved_inject])

lemma sent_gather:
  "wf_core i s \<Longrightarrow> w < length (sc_workers s) \<Longrightarrow> tk_pinnedTo (sc_tasks s t) = None \<Longrightarrow> sent c i s (gather s w t) t"
  unfolding sent_def by (simp, rule moved_placed [OF moved_gather]) (simp_all add: gather_def)

text \<open>\<open>me_ok\<close>: the calling thread is a worker of this scheduler, or foreign.\<close>

definition me_ok :: "wid option \<Rightarrow> 'q core \<Rightarrow> bool" where
  "me_ok me s \<longleftrightarrow> (\<forall>w\<in>set_option me. w < length (sc_workers s))"

context local_queue
begin

lemma sent_pushLocalFifo:
  "wf s \<Longrightarrow> w < length (sc_workers s) \<Longrightarrow> tk_pinnedTo (sc_tasks s t) = None \<Longrightarrow> sent contents inv s (pushLocalFifo Q s w t) t"
  by (simp add: sent_def grows_calm [OF grows_pushLocalFifo [OF grows_refl] moved_pushLocalFifo])

lemma sent_pushLocalLifo:
  "wf s \<Longrightarrow> w < length (sc_workers s) \<Longrightarrow> tk_pinnedTo (sc_tasks s t) = None \<Longrightarrow> sent contents inv s (pushLocalLifo Q s w t) t"
  by (simp add: sent_def grows_calm [OF grows_pushLocalLifo [OF grows_refl] moved_pushLocalLifo])

lemma sent_schedule:
  assumes wf: "wf s0" and me: "me_ok me s0"
    and pin: "\<And>v. tk_pinnedTo (sc_tasks s0 t) = Some v \<Longrightarrow> v < length (sc_workers s0)"
  shows "sent contents inv s0 (schedule Q me s0 t) t"
proof -
  define s where "s = (if sc_recordWakeLatency s0 then updT s0 t (\<lambda>k. k\<lparr>tk_readyAt := sc_now s0\<rparr>) else s0)"
  have s: "wf s" "sc_workers s = sc_workers s0" "tk_pinnedTo (sc_tasks s t) = tk_pinnedTo (sc_tasks s0 t)"
    using wf by (simp_all add: s_def)
  have "sent contents inv s (schedule Q me s0 t) t"
  proof (cases "tk_pinnedTo (sc_tasks s t)")
    case (Some v)
    then have "schedule Q me s0 t = notifyWorker me (pushInbox s v t) v" by (simp add: schedule_def s_def Let_def)
    moreover have "sent contents inv s (pushInbox s v t) t" by (rule sent_pushInbox) (use s Some pin in auto)
    ultimately show ?thesis using sent_quietly quietly_notifyWorker [OF quietly_refl] by metis
  next
    case None
    show ?thesis
    proof (cases me)
      case (Some w)
      then have w: "w < length (sc_workers s)" using me s(2) by (simp add: me_ok_def)
      have "schedule Q me s0 t = (if wk_gathering (wkr s w) then gather s w t
          else if \<not> hasIdleWorkers s then pushLocalLifo Q s w t else inject me s t)"
        using None Some unfolding schedule_def Let_def s_def [symmetric] by simp
      then show ?thesis by (simp add: s(1) w None sent_gather sent_pushLocalLifo sent_inject)
    next
      case none: None
      have "schedule Q me s0 t = inject me s t" using None none unfolding schedule_def Let_def s_def [symmetric] by simp
      then show ?thesis using s None sent_inject by metis
    qed
  qed
  then show ?thesis by (cases "sc_recordWakeLatency s0") (simp_all add: s_def sent_readyAt)
qed

lemma sent_onTaskYielded:
  assumes "wf s" "w < length (sc_workers s)" "\<And>v. tk_pinnedTo (sc_tasks s t) = Some v \<Longrightarrow> v < length (sc_workers s)"
  shows "sent contents inv s (onTaskYielded Q s t w) t"
  using assms by (cases "tk_pinnedTo (sc_tasks s t)") (simp_all add: onTaskYielded_def sent_pushLocalFifo sent_pushInbox)

end

section \<open>State changes of one task\<close>

lemma runnable_updT: "runnable (updT s t f) x = (if x = t then tk_parkState (f (sc_tasks s t)) \<in> {Running, Notified} else runnable s x)"
  by (simp add: runnable_def)

lemma sys_updT:
  assumes ok: "sys_ok c i X s" and X: "\<And>x. x \<noteq> t \<Longrightarrow> x \<in> Y \<longleftrightarrow> x \<in> X"
    and run: "(tk_parkState k \<in> {Running, Notified} \<and> t \<notin> Y) = (runnable s t \<and> t \<notin> X)"
    and live: "tk_parkState k = Done \<or> tk_parkState (sc_tasks s t) \<noteq> Done \<or> card (liveTasks_set s) < sc_injectionCapacity s"
    and pins: "pins_valid c (updT s t (\<lambda>_. k))"
  shows "sys_ok c i Y (updT s t (\<lambda>_. k))"
proof -
  let ?s = "updT s t (\<lambda>_. k)"
  have fin: "finite (liveTasks_set s)" and card: "card (liveTasks_set s) \<le> sc_injectionCapacity s"
    and co: "\<And>x. count (all_tasks c s) x = (if runnable s x \<and> x \<notin> X then 1 else 0)"
    using ok by (simp_all add: sys_ok_def counts_ok_def)
  have "counts_ok c Y ?s" unfolding counts_ok_def
  proof
    fix x show "count (all_tasks c ?s) x = (if runnable ?s x \<and> x \<notin> Y then 1 else 0)"
      using co [of x] X [of x] run by (cases "x = t") (simp_all add: runnable_updT)
  qed
  moreover have "liveTasks_set ?s = (if tk_parkState k = Done then liveTasks_set s - {t} else insert t (liveTasks_set s))"
    by (auto simp: liveTasks_set_def)
  moreover have "card (liveTasks_set s - {t}) \<le> card (liveTasks_set s)" using fin by (simp add: card_Diff1_le)
  moreover have "card (insert t (liveTasks_set s)) \<le> sc_injectionCapacity s" if "tk_parkState k \<noteq> Done"
    using live that card fin by (cases "t \<in> liveTasks_set s") (auto simp: insert_absorb liveTasks_set_def)
  ultimately show ?thesis using ok fin card pins by (auto simp: sys_ok_def)
qed

lemma updT_const: "updT s t f = updT s t (\<lambda>_. f (sc_tasks s t))"
  by (simp add: updT_def)

lemma pins_updT:
  assumes pv: "pins_valid c s" and same: "tk_pinnedTo (f (sc_tasks s t)) = tk_pinnedTo (sc_tasks s t)"
  shows "pins_valid c (updT s t f)"
proof -
  have pin: "tk_pinnedTo (sc_tasks (updT s t f) x) = tk_pinnedTo (sc_tasks s x)" for x using same by simp
  show ?thesis
    by (rule pins_validI; unfold pin updT_frame(1,6-8,11))
      (rule pinned_in_range [OF pv] free_unpinned [OF pv] inbox_pinned [OF pv] current_pinned [OF pv]; assumption)+
qed

lemma sys_setState:
  assumes ok: "sys_ok c i X s" and X: "\<And>x. x \<noteq> t \<Longrightarrow> x \<in> Y \<longleftrightarrow> x \<in> X"
    and run: "(st \<in> {Running, Notified} \<and> t \<notin> Y) = (runnable s t \<and> t \<notin> X)"
    and live: "st = Done \<or> tk_parkState (sc_tasks s t) \<noteq> Done"
  shows "sys_ok c i Y (setState s t st)"
proof -
  let ?f = "\<lambda>k. k\<lparr>tk_parkState := st\<rparr>"
  have "pins_valid c (updT s t ?f)" by (rule pins_updT) (use ok in \<open>simp_all add: sys_ok_def\<close>)
  then have "sys_ok c i Y (updT s t (\<lambda>_. ?f (sc_tasks s t)))"
    by (intro sys_updT [OF ok X]) (use run live updT_const [of s t ?f] in auto)
  then show ?thesis by (simp add: setState_def updT_const [of s t ?f])
qed

section \<open>Operations keep the invariant\<close>

lemma quietly_frame:
  assumes "quietly s s'"
  shows "currents s' = currents s" "inboxes s' = inboxes s" "sc_tasks s' = sc_tasks s" "runnable s' = runnable s"
    "length (sc_workers s') = length (sc_workers s)" "sc_parkedWoken s' = sc_parkedWoken s"
proof -
  show "sc_parkedWoken s' = sc_parkedWoken s" using assms by (simp add: quietly_def)
  have m: "moved (\<lambda>_. []) (\<lambda>_. True) s s' {#} {#}" using assms by (rule quietly_moved) (simp add: wf_core_def)
  then show "currents s' = currents s" "inboxes s' = inboxes s" by (simp_all add: moved_def)
  show "length (sc_workers s') = length (sc_workers s)" by (rule moved_length [OF m])
  show "sc_tasks s' = sc_tasks s" using assms by (simp add: quietly_def)
  then show "runnable s' = runnable s" by (simp add: runnable_def fun_eq_iff)
qed

lemma sys_quietly:
  assumes ok: "sys_ok c i X s" and q: "quietly s s'"
  shows "sys_ok c i X s'"
proof -
  have m: "moved c i s s' {#} {#}" using q ok by (intro quietly_moved) (simp_all add: sys_ok_def)
  then have eq: "inboxes s' = inboxes s" "currents s' = currents s" "free_tasks c s' = free_tasks c s" "wf_core i s'"
    by (simp_all add: moved_def)
  have "pins_valid c s' = pins_valid c s"
    by (simp only: pins_valid_def eq quietly_frame [OF q])
  moreover have "counts_ok c X s' = counts_ok c X s" by (simp add: counts_ok_def all_tasks_def eq quietly_frame [OF q])
  moreover have "liveTasks_set s' = liveTasks_set s" by (simp add: liveTasks_set_def quietly_frame [OF q])
  ultimately show ?thesis using ok q eq(4) by (simp add: sys_ok_def quietly_def)
qed

text \<open>Worker \<open>w\<close> takes its next task and leaves the one it ran in hand.\<close>

lemma sys_swap:
  assumes ok: "sys_ok c i X s" and t: "took c i s s1 w r" and w: "w < length (sc_workers s)"
  shows "sys_ok c i (X \<union> set_option (currents s ! w)) (setCurrent s1 w r)"
    "currents (setCurrent s1 w r) = (currents s)[w := r]" "runnable (setCurrent s1 w r) = runnable s"
    "\<And>u. currents s ! w = Some u \<Longrightarrow> u \<notin> X \<and> runnable s u"
proof -
  note fr = took_frame [OF t] and len = took_length [OF t]
  note st = same_tasks_simps [OF fr(2)]
  note tk = sys_took [OF ok t w]
  have w1: "w < length (sc_workers s1)" using w len by simp
  have r: "u \<notin> X \<and> runnable s1 u \<and> (tk_pinnedTo (sc_tasks s1 u) \<in> {None, Some w} \<or> sc_parkedWoken s1)" if "r = Some u" for u
    using tk(2) [OF that] st by simp
  note sw = sys_switch [OF tk(1) w1 r]
  show "sys_ok c i (X \<union> set_option (currents s ! w)) (setCurrent s1 w r)" using sw(1) fr(1) by simp
  show "currents (setCurrent s1 w r) = (currents s)[w := r]" using currents_setCurrent [OF w1, of r] fr(1) by simp
  show "runnable (setCurrent s1 w r) = runnable s" using st(1) by (simp add: runnable_def fun_eq_iff setCurrent_frame)
  show "u \<notin> X \<and> runnable s u" if "currents s ! w = Some u" for u using sw(2) [of u] fr(1) st(1) that by simp
qed

lemma sys_wf: "sys_ok c i X s \<Longrightarrow> wf_core i s"
  by (simp add: sys_ok_def)

lemma sys_pins: "sys_ok c i X s \<Longrightarrow> pins_valid c s"
  by (simp add: sys_ok_def)

lemma setState_frame [simp]:
  "sc_workers (setState s t st) = sc_workers s" "currents (setState s t st) = currents s"
  "runnable (setState s t st) x = (if x = t then st \<in> {Running, Notified} else runnable s x)"
  "tk_parkState (sc_tasks (setState s t st) x) = (if x = t then st else tk_parkState (sc_tasks s x))"
  "tk_pinnedTo (sc_tasks (setState s t st) x) = tk_pinnedTo (sc_tasks s x)"
  by (simp_all add: setState_def runnable_updT)

lemma me_ok_cong: "currents s' = currents s \<Longrightarrow> me_ok me s' = me_ok me s"
  unfolding me_ok_def by (metis length_currents)

context local_queue
begin

abbreviation ok where "ok \<equiv> sys_ok contents inv"

lemma sys_schedule:
  assumes ok: "ok (insert t X) s" and me: "me_ok me s" and t: "runnable s t" "t \<notin> X"
  shows "ok X (schedule Q me s t)" "currents (schedule Q me s t) = currents s" "runnable (schedule Q me s t) = runnable s"
proof -
  have se: "sent contents inv s (schedule Q me s t) t"
    by (rule sent_schedule [OF sys_wf [OF ok] me]) (rule pinned_in_range [OF sys_pins [OF ok]])
  show "ok X (schedule Q me s t)" by (rule sys_sent [OF ok se t])
  show "currents (schedule Q me s t) = currents s" by (rule sent_frame [OF se])
  show "runnable (schedule Q me s t) = runnable s" by (rule same_tasks_simps [OF sent_frame(3) [OF se]])
qed

text \<open>A wake leaves running tasks runnable and adds the woken one.\<close>

lemma sys_wake:
  assumes ok: "ok X s" and me: "me_ok me s" and X: "\<And>x. x \<in> X \<Longrightarrow> runnable s x"
  shows "ok X (wake Q me s t)" "currents (wake Q me s t) = currents s" "\<And>x. runnable s x \<Longrightarrow> runnable (wake Q me s t) x"
proof -
  consider "tk_parkState (sc_tasks s t) \<in> {Notified, Done}" | (run) "tk_parkState (sc_tasks s t) = Running"
    | (park) "tk_parkState (sc_tasks s t) = Parked" by (cases "tk_parkState (sc_tasks s t)") auto
  then have "ok X (wake Q me s t) \<and> currents (wake Q me s t) = currents s \<and> (\<forall>x. runnable s x \<longrightarrow> runnable (wake Q me s t) x)"
  proof cases
    case 1
    then have "wake Q me s t = s" by (auto simp: wake_def)
    then show ?thesis using ok by simp
  next
    case run
    then have "runnable s t" by (simp add: runnable_def)
    then have "ok X (setState s t Notified)" by (intro sys_setState [OF ok]) (simp_all add: run)
    then show ?thesis using run by (simp add: wake_def)
  next
    case park
    then have t: "t \<notin> X" "\<not> runnable s t" using X [of t] by (auto simp: runnable_def)
    define s1 where "s1 = setState s t Notified"
    define s2 where "s2 = setState s1 t Running"
    have "ok (insert t X) s1" unfolding s1_def by (rule sys_setState [OF ok]) (simp_all add: t park)
    then have ok2: "ok (insert t X) s2" unfolding s2_def by (rule sys_setState) (simp_all add: s1_def)
    have "currents s2 = currents s" "runnable s2 t" by (simp_all add: s2_def s1_def)
    moreover have "runnable s2 x" if "runnable s x" for x using that by (simp add: s2_def s1_def)
    moreover have "me_ok me s2" using me me_ok_cong calculation(1) by blast
    moreover have "wake Q me s t = schedule Q me s2 t" by (simp add: wake_def park s1_def s2_def)
    ultimately show ?thesis using sys_schedule [OF ok2 _ _ t(1)] by simp
  qed
  then show "ok X (wake Q me s t)" "currents (wake Q me s t) = currents s" "\<And>x. runnable s x \<Longrightarrow> runnable (wake Q me s t) x"
    by blast+
qed

lemma sys_wakeAll:
  "ok X s \<Longrightarrow> me_ok me s \<Longrightarrow> (\<And>x. x \<in> X \<Longrightarrow> runnable s x) \<Longrightarrow>
    ok X (wakeAll Q me s ts) \<and> currents (wakeAll Q me s ts) = currents s \<and> (\<forall>x. runnable s x \<longrightarrow> runnable (wakeAll Q me s ts) x)"
proof (induction ts arbitrary: s)
  case Nil
  then show ?case by (simp add: wakeAll_def)
next
  case (Cons t ts)
  note w = sys_wake [OF Cons.prems, where t = t]
  have "me_ok me (wake Q me s t)" using Cons.prems(2) me_ok_cong w(2) by blast
  from Cons.IH [OF w(1) this] w(2,3) Cons.prems(3) show ?case by (simp add: wakeAll_def)
qed

end

text \<open>Operations during which no worker changes the task it runs.\<close>

definition fit :: "('q \<Rightarrow> tid list) \<Rightarrow> ('q \<Rightarrow> bool) \<Rightarrow> tid set \<Rightarrow> wid option \<Rightarrow> 'q core \<Rightarrow> bool" where
  "fit c i X me s \<longleftrightarrow> sys_ok c i X s \<and> me_ok me s \<and> (\<forall>x\<in>X. runnable s x)"

definition kept :: "'q core \<Rightarrow> 'q core \<Rightarrow> bool" where
  "kept s s' \<longleftrightarrow> currents s' = currents s \<and> (\<forall>x. runnable s x \<longrightarrow> runnable s' x)"

lemma kept_refl [simp]: "kept s s"
  by (simp add: kept_def)

lemma kept_trans: "kept s s1 \<Longrightarrow> kept s1 s2 \<Longrightarrow> kept s s2"
  by (simp add: kept_def)

lemma quietly_kept: "quietly s s' \<Longrightarrow> kept s s'"
  by (simp add: kept_def quietly_frame)

lemma fitI: "sys_ok c i X s' \<Longrightarrow> kept s s' \<Longrightarrow> fit c i X me s \<Longrightarrow> fit c i X me s'"
  using me_ok_cong [of s' s me] by (auto simp: fit_def kept_def)

lemma fit_quietly: "fit c i X me s \<Longrightarrow> quietly s s' \<Longrightarrow> fit c i X me s'"
  by (rule fitI [OF sys_quietly quietly_kept]) (auto simp: fit_def)

lemma fit_took:
  assumes f: "fit c i X (Some w) s" and t: "took c i s s' w None"
  shows "fit c i X (Some w) s'" "kept s s'"
proof -
  have "sys_ok c i X s'" using sys_took(1) [of c i X s s' w None] t f by (simp add: fit_def me_ok_def)
  moreover show k: "kept s s'" using took_frame(1) [OF t] same_tasks_simps(1) [OF took_frame(2) [OF t]] by (simp add: kept_def)
  ultimately show "fit c i X (Some w) s'" using f fitI by blast
qed

lemma quietly_gathering: "quietly s (updW s w (\<lambda>k. k\<lparr>wk_gathering := b\<rparr>))"
  by (rule quietly_updW) (simp_all add: tracked_def)

lemma quietly_releaseTimekeeper: "quietly s (releaseTimekeeper s w)"
  by (simp add: releaseTimekeeper_def)

lemma quietly_tryBecome: "tryBecomeTimekeeper s w = (b, s') \<Longrightarrow> quietly s s'"
  by (auto simp: tryBecomeTimekeeper_def split: if_splits)

context local_queue
begin

abbreviation ft where "ft \<equiv> fit contents inv"

lemma fit_wakeAll:
  assumes "ft X me s"
  shows "ft X me (wakeAll Q me s ts)" "kept s (wakeAll Q me s ts)"
proof -
  have a: "ok X s" "me_ok me s" "\<And>x. x \<in> X \<Longrightarrow> runnable s x" using assms by (simp_all add: fit_def)
  note w = sys_wakeAll [OF a, of ts]
  then show "kept s (wakeAll Q me s ts)" by (simp add: kept_def)
  with w assms show "ft X me (wakeAll Q me s ts)" using fitI by blast
qed

lemma fit_sleepIdle_enter:
  assumes "ft X (Some w) s" "sleepIdle_enter s w stopping nextd = (m, s')"
  shows "ft X (Some w) s'" "kept s s'"
proof -
  have "quietly s s'" using assms(2)
    by (auto simp: sleepIdle_enter_def tryBecomeTimekeeper_def Let_def tracked_def intro!: quietly_updW split: if_splits)
  then show "ft X (Some w) s'" "kept s s'" using assms(1) fit_quietly quietly_kept by blast+
qed

lemma fit_sleepIdle_leave:
  assumes "ft X (Some w) s"
  shows "ft X (Some w) (sleepIdle_leave Q s w ready due)" "kept s (sleepIdle_leave Q s w ready due)"
proof -
  define s0 where "s0 = wakeAll Q (Some w) s ready"
  define s1 where "s1 = releaseTimekeeper s0 w"
  define s1' where "s1' = wakeAll Q (Some w) s1 due"
  define s2 where "s2 = updW s1' w (\<lambda>k. k\<lparr>wk_gathering := False\<rparr>)"
  have 0: "ft X (Some w) s0" "kept s s0" unfolding s0_def using fit_wakeAll [OF assms] by auto
  have q1: "quietly s0 s1" unfolding s1_def by (rule quietly_releaseTimekeeper)
  have 1: "ft X (Some w) s1'" "kept s1 s1'" unfolding s1'_def using fit_wakeAll [OF fit_quietly [OF 0(1) q1]] by auto
  have q2: "quietly s1' s2" unfolding s2_def by (rule quietly_gathering)
  let ?r = "sleepIdle_leave Q s w ready due"
  have r: "?r = s \<or> quietly s2 ?r"
    unfolding sleepIdle_leave_def Let_def s0_def [symmetric] s1_def [symmetric] s1'_def [symmetric] s2_def [symmetric] by simp
  have k: "kept s s2" using 0(2) quietly_kept [OF q1] 1(2) quietly_kept [OF q2] kept_trans by blast
  from r show "ft X (Some w) ?r" using assms fit_quietly [OF fit_quietly [OF 1(1) q2]] by auto
  from r show "kept s ?r" using kept_trans [OF k quietly_kept] by auto
qed

lemma took_placeGathered:
  assumes "wf s" "w < length (sc_workers s)" "placeGathered Q s w keep = (r, s')"
  shows "tk s s' w r"
  using grows_placeGathered [OF grows_refl, of s Q w keep] assms(3)
  by (intro placed_took grows_calm moved_placeGathered [OF assms]) simp

lemma took_parkIdle_leave:
  "wf s \<Longrightarrow> w < length (sc_workers s) \<Longrightarrow> parkIdle_leave Q s w = (r, s') \<Longrightarrow> tk s s' w r"
  by (rule placed_took [OF placed_parkIdle_leave])

lemma fit_placeGathered:
  assumes "ft X (Some w) s"
  shows "ft X (Some w) (snd (placeGathered Q s w False))" "kept s (snd (placeGathered Q s w False))"
proof -
  obtain r s' where p: "placeGathered Q s w False = (r, s')" by (cases "placeGathered Q s w False")
  then have "r = None" by (auto simp: placeGathered_def Let_def split: if_splits)
  moreover have "tk s s' w r"
    by (rule took_placeGathered [OF _ _ p]) (use assms in \<open>simp_all add: fit_def sys_ok_def me_ok_def\<close>)
  ultimately show "ft X (Some w) (snd (placeGathered Q s w False))" "kept s (snd (placeGathered Q s w False))"
    using fit_took [OF assms] p by simp_all
qed

lemma fit_maintain:
  assumes "ft X (Some w) s"
  shows "ft X (Some w) (maintain Q s w due ready)" "kept s (maintain Q s w due ready)"
proof -
  define s0 where "s0 = updW s w (\<lambda>k. k\<lparr>wk_gathering := True\<rparr>)"
  define s1 where "s1 = wakeAll Q (Some w) s0 due"
  have q0: "quietly s s0" unfolding s0_def by (rule quietly_gathering)
  have 1: "ft X (Some w) s1" "kept s0 s1" unfolding s1_def using fit_wakeAll [OF fit_quietly [OF assms q0]] by auto
  obtain b s1' where tb: "tryBecomeTimekeeper s1 w = (b, s1')" by (cases "tryBecomeTimekeeper s1 w")
  note q1 = quietly_tryBecome [OF tb]
  note 2 = fit_wakeAll [OF fit_quietly [OF 1(1) q1], of ready]
  define s2 where "s2 = (if sc_hasDriver s1 then if b then releaseTimekeeper (wakeAll Q (Some w) s1' ready) w else s1' else s1)"
  have s2: "ft X (Some w) s2 \<and> kept s1 s2" unfolding s2_def
    using 1 2 fit_quietly [OF 2(1) quietly_releaseTimekeeper, of w] fit_quietly [OF 1(1) q1] quietly_kept [OF q1]
      kept_trans [OF quietly_kept [OF q1] kept_trans [OF 2(2) quietly_kept [OF quietly_releaseTimekeeper, of _ w]]] by auto
  define s3 where "s3 = updW s2 w (\<lambda>k. k\<lparr>wk_gathering := False\<rparr>)"
  have q3: "quietly s2 s3" unfolding s3_def by (rule quietly_gathering)
  note 3 = fit_placeGathered [OF fit_quietly [OF conjunct1 [OF s2] q3]]
  have "maintain Q s w due ready = snd (placeGathered Q s3 w False)"
    unfolding maintain_def Let_def s0_def [symmetric] s1_def [symmetric] tb s3_def s2_def by (simp split: bool.split)
  then show "ft X (Some w) (maintain Q s w due ready)" "kept s (maintain Q s w due ready)"
    using 3 kept_trans [OF kept_trans [OF quietly_kept [OF q0] 1(2)] kept_trans [OF conjunct2 [OF s2] kept_trans [OF quietly_kept [OF q3]]]] by auto
qed

end

section \<open>Switches\<close>

text \<open>\<open>w\<close> now runs \<open>r\<close>; what it ran before is in hand.\<close>

definition switched :: "('q \<Rightarrow> tid list) \<Rightarrow> ('q \<Rightarrow> bool) \<Rightarrow> tid set \<Rightarrow> 'q core \<Rightarrow> wid \<Rightarrow> tid option \<Rightarrow> 'q core \<Rightarrow> bool" where
  "switched c i X s w r s' \<longleftrightarrow> sys_ok c i (X \<union> set_option (currents s ! w)) s' \<and> currents s' = (currents s)[w := r]
     \<and> (\<forall>x. runnable s x \<longrightarrow> runnable s' x) \<and> (\<forall>u. currents s ! w = Some u \<longrightarrow> u \<notin> X \<and> runnable s' u)"

lemma switchedI:
  assumes "fit c i X (Some w) s" "took c i s s1 w r"
  shows "switched c i X s w r (setCurrent s1 w r)"
  using sys_swap [OF _ assms(2), of X] assms(1) by (simp add: switched_def fit_def me_ok_def)

lemma kept_switched: "kept s s0 \<Longrightarrow> switched c i X s0 w r s' \<Longrightarrow> switched c i X s w r s'"
  by (auto simp: kept_def switched_def)

lemma fit_parts:
  assumes "fit c i X (Some w) s"
  shows "wf_core i s" "w < length (sc_workers s)" "sys_ok c i X s"
  using assms by (simp_all add: fit_def sys_ok_def me_ok_def)

lemma switched_dispatch:
  assumes f: "fit c i X (Some w) s" and t: "took c i s s1 w (Some t)"
  shows "switched c i X s w (Some t) (dispatch s1 w t)"
proof -
  define s2 where "s2 = updW s1 w (\<lambda>k. k\<lparr>wk_tick := wk_tick k + 1\<rparr>)"
  define s3 where "s3 = (if sc_timekeeper s2 = None then ensureTimekeeper (Some w) s2 else s2)"
  have "quietly s1 s2" unfolding s2_def by (rule quietly_updW) (simp_all add: tracked_def)
  then have "quietly s1 s3" unfolding s3_def by (auto intro: quietly_ensureTimekeeper)
  then have "took c i s s3 w (Some t)" by (rule took_quiet [OF t quietly_placed]) (rule took_wf [OF t])
  from switchedI [OF f this] show ?thesis unfolding dispatch_def Let_def s2_def [symmetric] s3_def [symmetric] .
qed

lemma found_cases:
  assumes "fit c i X (Some w) s0" "kept s s0" "took c i s0 s1 w r"
  shows "fit c i X (Some w) (runFound (r, s1) w) \<and> kept s (runFound (r, s1) w)
    \<or> (\<exists>t. switched c i X s w (Some t) (runFound (r, s1) w))"
proof (cases r)
  case None
  with assms show ?thesis using fit_took [OF assms(1)] kept_trans [OF assms(2)] by (simp add: runFound_def)
next
  case (Some t)
  with assms have "switched c i X s w (Some t) (dispatch s1 w t)"
    using switched_dispatch [OF assms(1)] kept_switched [OF assms(2)] by simp
  then show ?thesis using Some by (simp add: runFound_def) blast
qed

context local_queue
begin

lemma took_next: "wf s \<Longrightarrow> w < length (sc_workers s) \<Longrightarrow> orElse (takeLocal Q s w) popInjection = (r, s') \<Longrightarrow> tk s s' w r"
  by (rule took_orElse [rotated -1]) (auto intro: took_takeLocal took_popInjection)

text \<open>A turn of the dispatcher either finds nothing and only moves tasks about, or runs one.\<close>

lemma runTurn_cases:
  assumes f: "ft X (Some w) s"
  shows "ft X (Some w) (runTurn Q s w due ready) \<and> kept s (runTurn Q s w due ready)
    \<or> (\<exists>t. switched contents inv X s w (Some t) (runTurn Q s w due ready))"
proof -
  let ?check = "wk_tick (wkr s w) mod kInjectionCheckPeriod = 0"
  define s0 where "s0 = (if ?check then maintain Q s w due ready else s)"
  have s0: "ft X (Some w) s0" "kept s s0" unfolding s0_def using f fit_maintain [OF f] by simp_all
  note parts = fit_parts [OF s0(1)]
  let ?p = "if ?check then popInjection (maintain Q s w due ready) else (None, s)"
  let ?e = "orElse (orElse ?p (\<lambda>s. takeLocal Q s w)) (\<lambda>s. searchForWork Q s w)"
  obtain r s1 where e: "?e = (r, s1)" by (cases ?e)
  have p: "tk s0 s1 w r" if "?p = (r, s1)" for r s1
    using that took_popInjection [OF parts(1)] took_refl [OF parts(1)] by (auto simp: s0_def split: if_splits)
  have "tk s0 s1 w r"
  proof (rule took_orElse [OF _ parts(2) _ e])
    fix r s1 assume "orElse ?p (\<lambda>s. takeLocal Q s w) = (r, s1)"
    then show "tk s0 s1 w r" by (rule took_orElse [rotated -1]) (use p parts(2) took_takeLocal in auto)
  qed (use took_searchForWork in auto)
  with s0 show ?thesis unfolding runTurn_def e by (rule found_cases)
qed

lemma sys_popFair:
  assumes f: "ft X (Some w) s"
  defines "s2 \<equiv> (case popInjection s of (Some j, s') \<Rightarrow> pushLocalFifo Q s' w j | (None, s') \<Rightarrow> s')"
  shows "ft X (Some w) s2" "kept s s2"
proof -
  note parts = fit_parts [OF f]
  obtain r s1 where p: "popInjection s = (r, s1)" by (cases "popInjection s")
  have t: "tk s s1 w r" by (rule took_popInjection [OF parts(1) p])
  note st = same_tasks_simps [OF took_frame(2) [OF t]]
  have "ft X (Some w) s2 \<and> kept s s2"
  proof (cases r)
    case None
    then show ?thesis using fit_took [OF f] t p by (simp add: s2_def)
  next
    case (Some j)
    note a = sys_took [OF parts(3) t parts(2)]
    have ok: "ok (insert j X) s1" using a(1) Some by simp
    have j: "j \<notin> X" "runnable s1 j" using a(2) [OF Some] st(1) by simp_all
    have "mv s s1 {#} {#j#}" using moved_popInjection [OF parts(1) p] Some by simp
    then have "j \<in># free_tasks contents s" by (simp add: moved_def) (metis union_single_eq_member)
    then have "tk_pinnedTo (sc_tasks s1 j) = None" using free_unpinned [OF sys_pins [OF parts(3)]] st(3) by simp
    then have se: "sent contents inv s1 (pushLocalFifo Q s1 w j) j"
      using took_length [OF t] parts(2) by (intro sent_pushLocalFifo took_wf [OF t]) simp_all
    have "currents s2 = currents s" "runnable s2 = runnable s" "ok X s2"
      using sent_frame(2) [OF se] same_tasks_simps(1) [OF sent_frame(3) [OF se]] sys_sent [OF ok se j(2,1)]
        took_frame(1) [OF t] st(1) p Some by (simp_all add: s2_def)
    then show ?thesis using fitI [OF _ _ f] by (simp add: kept_def)
  qed
  then show "ft X (Some w) s2" "kept s s2" by auto
qed

lemma yield_cases:
  assumes f: "ft X (Some w) s" and y: "yield_task Q s w = (h, s')"
  shows "h = None \<and> ft X (Some w) s' \<and> kept s s' \<or> h = Some OnTaskYielded \<and> (\<exists>r. switched contents inv X s w r s')"
proof -
  define yields where "yields = wk_yieldTick (wkr s w) + 1"
  define s1 where "s1 = updW s w (\<lambda>k. k\<lparr>wk_yieldTick := yields\<rparr>)"
  define s2 where "s2 = (if (yields AND 63) = 0
    then (case popInjection s1 of (Some j, s') \<Rightarrow> pushLocalFifo Q s' w j | (None, s') \<Rightarrow> s') else s1)"
  have q1: "quietly s s1" unfolding s1_def by (rule quietly_updW) (simp_all add: tracked_def)
  note f1 = fit_quietly [OF f q1]
  have f2: "ft X (Some w) s2" "kept s1 s2" unfolding s2_def using f1 sys_popFair [OF f1] by simp_all
  have k: "kept s s2" by (rule kept_trans [OF quietly_kept [OF q1] f2(2)])
  obtain r s3 where n: "orElse (takeLocal Q s2 w) popInjection = (r, s3)" by (cases "orElse (takeLocal Q s2 w) popInjection")
  have t: "tk s2 s3 w r" by (rule took_next [OF _ _ n]) (use fit_parts [OF f2(1)] in simp_all)
  have eq: "yield_task Q s w = (if r = None \<and> (yields AND 63) \<noteq> 0 then (None, s3) else (Some OnTaskYielded, setCurrent s3 w r))"
    unfolding yield_task_def Let_def yields_def [symmetric] s1_def [symmetric] s2_def [symmetric] n by simp
  show ?thesis
  proof (cases "r = None \<and> (yields AND 63) \<noteq> 0")
    case True
    then show ?thesis using y eq fit_took [OF f2(1)] t kept_trans [OF k] by auto
  next
    case False
    then have "h = Some OnTaskYielded" "s' = setCurrent s3 w r" using y eq by auto
    then show ?thesis using kept_switched [OF k switchedI [OF f2(1) t]] by auto
  qed
qed

lemma quietly_countSwitch: "quietly s (countSwitch s w)"
  unfolding countSwitch_def by (rule quietly_updW) (simp_all add: tracked_def)

lemma park_cases:
  assumes f: "ft X (Some w) s" and y: "park_task Q s w t = (h, s')"
  shows "h = None \<and> ft X (Some w) s' \<and> kept s s' \<or> h = Some OnTaskParked \<and> (\<exists>r. switched contents inv X s w r s')"
proof -
  define s1 where "s1 = countSwitch s w"
  have q1: "quietly s s1" unfolding s1_def by (rule quietly_countSwitch)
  note f1 = fit_quietly [OF f q1] and k1 = quietly_kept [OF q1]
  show ?thesis
  proof (cases "tk_parkState (sc_tasks s1 t) = Notified")
    case True
    then have r: "runnable s1 t" by (simp add: runnable_def)
    have "ok X (setState s1 t Running)" by (rule sys_setState [OF fit_parts(3) [OF f1]]) (simp_all add: True r)
    moreover have "kept s1 (setState s1 t Running)" by (simp add: kept_def)
    moreover have "h = None" "s' = setState s1 t Running" using y True by (simp_all add: park_task_def s1_def [symmetric] Let_def)
    ultimately show ?thesis using fitI [OF _ _ f1] kept_trans [OF k1] by auto
  next
    case False
    obtain r s2 where n: "takeLocal Q s1 w = (r, s2)" by (cases "takeLocal Q s1 w")
    have "h = Some OnTaskParked" "s' = setCurrent s2 w r" using y False n by (simp_all add: park_task_def s1_def [symmetric] Let_def)
    moreover have "tk s1 s2 w r" by (rule took_takeLocal [OF _ _ n]) (use fit_parts [OF f1] in simp_all)
    ultimately show ?thesis using kept_switched [OF k1 switchedI [OF f1]] by auto
  qed
qed

lemma finish_cases:
  assumes f: "ft X (Some w) s" and y: "finish_task Q s w = (h, s')"
  shows "h = Some OnTaskFinished \<and> (\<exists>r. switched contents inv X s w r s')"
proof -
  obtain r s2 where n: "takeLocal Q s w = (r, s2)" by (cases "takeLocal Q s w")
  have "tk s s2 w r" by (rule took_takeLocal [OF _ _ n]) (use fit_parts [OF f] in simp_all)
  then show ?thesis using switchedI [OF f] y n by (auto simp: finish_task_def)
qed

text \<open>The hook puts the task in hand where it belongs.\<close>

lemma sys_runHook:
  assumes ok: "ok (insert t X) s" and w: "w < length (sc_workers s)" and t: "runnable s t" "t \<notin> X" and h: "h \<noteq> Reaped"
  shows "ok X (runHook Q s w h t)" "currents (runHook Q s w h t) = currents s"
    "\<And>x. x \<noteq> t \<Longrightarrow> runnable s x \<Longrightarrow> runnable (runHook Q s w h t) x"
proof -
  let ?s = "runHook Q s w h t"
  have "ok X ?s \<and> currents ?s = currents s \<and> (\<forall>x. x \<noteq> t \<longrightarrow> runnable s x \<longrightarrow> runnable ?s x)"
  proof (cases h)
    case OnTaskYielded
    have se: "sent contents inv s (onTaskYielded Q s t w) t"
      by (rule sent_onTaskYielded [OF sys_wf [OF ok] w]) (rule pinned_in_range [OF sys_pins [OF ok]])
    then show ?thesis using sys_sent [OF ok se t] sent_frame(2) [OF se] same_tasks_simps(1) [OF sent_frame(3) [OF se]] OnTaskYielded by simp
  next
    case OnTaskParked
    show ?thesis
    proof (cases "tk_parkState (sc_tasks s t) = Running")
      case True
      have "ok X (setState s t Parked)" by (rule sys_setState [OF ok]) (auto simp: True)
      then show ?thesis using OnTaskParked True by (simp add: onTaskParked_def)
    next
      case False
      define s1 where "s1 = setState s t Running"
      have live: "tk_parkState (sc_tasks s t) \<noteq> Done" using t(1) by (auto simp: runnable_def)
      have ok1: "ok (insert t X) s1" unfolding s1_def by (rule sys_setState [OF ok]) (auto simp: live)
      have "me_ok (Some w) s1" "runnable s1 t" using w by (simp_all add: me_ok_def s1_def)
      note r = sys_schedule [OF ok1 this t(2)]
      have "?s = schedule Q (Some w) s1 t" using OnTaskParked False by (simp add: onTaskParked_def s1_def)
      then show ?thesis using r by (simp add: s1_def)
    qed
  next
    case OnTaskFinished
    define s1 where "s1 = countSwitch s w"
    have q: "quietly s s1" unfolding s1_def by (rule quietly_countSwitch)
    have "ok X (setState s1 t Done)" by (rule sys_setState [OF sys_quietly [OF ok q]]) auto
    then show ?thesis using OnTaskFinished quietly_frame [OF q] by (simp add: onTaskFinished_def s1_def)
  qed (use h in simp)
  then show "ok X ?s" "currents ?s = currents s" "\<And>x. x \<noteq> t \<Longrightarrow> runnable s x \<Longrightarrow> runnable ?s x" by blast+
qed

end

section \<open>The system\<close>

text \<open>\<open>sy_hook\<close> is the post-switch hook that the arriving side of a switch on that worker has not run yet,
  with the task it is for, or the task that the worker's reaper has claimed.\<close>

record 'q sys =
  sy_core :: "'q core"
  sy_hook :: "wid \<Rightarrow> (hook \<times> tid) option"

definition sys_hands :: "(wid \<Rightarrow> (hook \<times> tid) option) \<Rightarrow> tid set" where
  "sys_hands m = {t. \<exists>w h. m w = Some (h, t)}"

definition idle :: "'q sys \<Rightarrow> wid \<Rightarrow> bool" where
  "idle S w \<longleftrightarrow> w < length (sc_workers (sy_core S)) \<and> sy_hook S w = None \<and> wk_current (wkr (sy_core S) w) = None"

definition runs :: "'q sys \<Rightarrow> wid \<Rightarrow> tid \<Rightarrow> bool" where
  "runs S w t \<longleftrightarrow> w < length (sc_workers (sy_core S)) \<and> sy_hook S w = None \<and> wk_current (wkr (sy_core S) w) = Some t"

definition leave :: "'q sys \<Rightarrow> wid \<Rightarrow> tid \<Rightarrow> hook option \<times> 'q core \<Rightarrow> 'q sys" where
  "leave S w t p = (case p of (h, s) \<Rightarrow> \<lparr>sy_core = s, sy_hook = (sy_hook S)(w := map_option (\<lambda>h. (h, t)) h)\<rparr>)"

text \<open>Dispatchers take turns, idle, sleep and wake; tasks are spawned, yield, park, finish, pin and unpin
  themselves; anybody wakes tasks; somebody stops the scheduler, whose workers then claim parked tasks from
  their dispatchers and deal with them; the clock, timers, the driver and other bookkeeping change as
  they like.\<close>

inductive sched_step :: "'q local_ops \<Rightarrow> 'q sys \<Rightarrow> 'q sys \<Rightarrow> bool" for Q where
  Turn: "idle S w \<Longrightarrow> sched_step Q S (S\<lparr>sy_core := runTurn Q (sy_core S) w due ready\<rparr>)"
| IdleEnter: "idle S w \<Longrightarrow> sched_step Q S (S\<lparr>sy_core := runFound (parkIdle_enter Q (sy_core S) w stopping idleSpin n) w\<rparr>)"
| Sleep: "idle S w \<Longrightarrow> sched_step Q S (S\<lparr>sy_core := snd (sleepIdle_enter (sy_core S) w stopping nextd)\<rparr>)"
| WakeUp: "idle S w \<Longrightarrow> sched_step Q S (S\<lparr>sy_core := sleepIdle_leave Q (sy_core S) w ready due\<rparr>)"
| IdleLeave: "idle S w \<Longrightarrow> sched_step Q S (S\<lparr>sy_core := runFound (parkIdle_leave Q (sy_core S) w) w\<rparr>)"
| Yield: "runs S w t \<Longrightarrow> sched_step Q S (leave S w t (yield_task Q (sy_core S) w))"
| Park: "runs S w t \<Longrightarrow> sched_step Q S (leave S w t (park_task Q (sy_core S) w t))"
| Finish: "runs S w t \<Longrightarrow> sched_step Q S (leave S w t (finish_task Q (sy_core S) w))"
| Hook: "sy_hook S w = Some (h, t) \<Longrightarrow> h \<noteq> Reaped \<Longrightarrow>
    sched_step Q S \<lparr>sy_core = runHook Q (sy_core S) w h t, sy_hook = (sy_hook S)(w := None)\<rparr>"
| Wake: "me_ok me (sy_core S) \<Longrightarrow> sched_step Q S (S\<lparr>sy_core := wake Q me (sy_core S) t\<rparr>)"
| Spawn: "me_ok me (sy_core S) \<Longrightarrow> tk_parkState (sc_tasks (sy_core S) t) = Done \<Longrightarrow>
    card (liveTasks_set (sy_core S)) < sc_injectionCapacity (sy_core S) \<Longrightarrow>
    sched_step Q S (S\<lparr>sy_core := spawn_task Q me (sy_core S) t\<rparr>)"
| Resumed: "runs S w t \<Longrightarrow> sched_step Q S (S\<lparr>sy_core := recordWakeLatency (sy_core S) t w\<rparr>)"
| Pin: "runs S w t \<Longrightarrow> sched_step Q S (S\<lparr>sy_core := pinToCurrentWorker (sy_core S) w t\<rparr>)"
| Unpin: "runs S w t \<Longrightarrow> sched_step Q S (S\<lparr>sy_core := unpin (sy_core S) t\<rparr>)"
| Stop: "me_ok me (sy_core S) \<Longrightarrow> sched_step Q S (S\<lparr>sy_core := stop Q me (sy_core S) maxTasks\<rparr>)"
| ReapClaim: "idle S w \<Longrightarrow> sc_parkedWoken (sy_core S) \<Longrightarrow> reap_claim (sy_core S) t = (True, s') \<Longrightarrow>
    sched_step Q S \<lparr>sy_core = s', sy_hook = (sy_hook S)(w := Some (Reaped, t))\<rparr>"
| ReapClaimed: "sy_hook S w = Some (Reaped, t) \<Longrightarrow> wk_current (wkr (sy_core S) w) = None \<Longrightarrow> sc_parkedWoken (sy_core S) \<Longrightarrow>
    sched_step Q S \<lparr>sy_core = reap_claimed Q (sy_core S) w t shields exceptions, sy_hook = (sy_hook S)(w := None)\<rparr>"
| Environment: "quietly (sy_core S) s' \<Longrightarrow> sched_step Q S (S\<lparr>sy_core := s'\<rparr>)"

definition sys_inv :: "('q \<Rightarrow> tid list) \<Rightarrow> ('q \<Rightarrow> bool) \<Rightarrow> 'q sys \<Rightarrow> bool" where
  "sys_inv c i S \<longleftrightarrow> sys_ok c i (sys_hands (sy_hook S)) (sy_core S)
     \<and> (\<forall>w h t. sy_hook S w = Some (h, t) \<longrightarrow> w < length (sc_workers (sy_core S)) \<and> runnable (sy_core S) t)
     \<and> (\<forall>v w g h t. sy_hook S v = Some (g, t) \<longrightarrow> sy_hook S w = Some (h, t) \<longrightarrow> v = w)"

lemma sys_invI:
  assumes "sys_ok c i (sys_hands m) s" "\<And>w h t. m w = Some (h, t) \<Longrightarrow> w < length (sc_workers s) \<and> runnable s t"
    "\<And>v w g h t. m v = Some (g, t) \<Longrightarrow> m w = Some (h, t) \<Longrightarrow> v = w"
  shows "sys_inv c i \<lparr>sy_core = s, sy_hook = m\<rparr>"
  unfolding sys_inv_def using assms by auto

lemma sys_invD:
  assumes "sys_inv c i S"
  shows "sys_ok c i (sys_hands (sy_hook S)) (sy_core S)"
    "sy_hook S w = Some (h, t) \<Longrightarrow> w < length (sc_workers (sy_core S)) \<and> runnable (sy_core S) t"
    "sy_hook S v = Some (g, t) \<Longrightarrow> sy_hook S w = Some (h, t) \<Longrightarrow> v = w"
proof -
  show "sys_ok c i (sys_hands (sy_hook S)) (sy_core S)" using assms by (simp add: sys_inv_def)
  show "w < length (sc_workers (sy_core S)) \<and> runnable (sy_core S) t" if "sy_hook S w = Some (h, t)"
    using assms that unfolding sys_inv_def by blast
  show "v = w" if "sy_hook S v = Some (g, t)" "sy_hook S w = Some (h, t)"
    using assms that unfolding sys_inv_def by blast
qed

lemma sys_fit: "sys_inv c i S \<Longrightarrow> me_ok me (sy_core S) \<Longrightarrow> fit c i (sys_hands (sy_hook S)) me (sy_core S)"
  using sys_invD(1,2) [of c i S] by (auto simp: fit_def sys_hands_def)

lemma core_update: "S\<lparr>sy_core := s\<rparr> = \<lparr>sy_core = s, sy_hook = sy_hook S\<rparr>"
  by (cases S) simp

text \<open>Steps that leave the running tasks and the hooks alone.\<close>

lemma inv_kept:
  assumes inv: "sys_inv c i S" and ok: "sys_ok c i (sys_hands (sy_hook S)) s'" and k: "kept (sy_core S) s'"
  shows "sys_inv c i (S\<lparr>sy_core := s'\<rparr>)"
proof -
  have "length (sc_workers s') = length (sc_workers (sy_core S))" using k by (metis kept_def length_currents)
  then show ?thesis unfolding core_update using sys_invD(2,3) [OF inv] k
    by (intro sys_invI [OF ok]) (auto simp: kept_def)
qed

lemma inv_fit: "sys_inv c i S \<Longrightarrow> fit c i (sys_hands (sy_hook S)) me s' \<and> kept (sy_core S) s' \<Longrightarrow> sys_inv c i (S\<lparr>sy_core := s'\<rparr>)"
  by (rule inv_kept) (auto simp: fit_def)

lemma sys_handsI: "m w = Some (h, t) \<Longrightarrow> t \<in> sys_hands m"
  by (auto simp: sys_hands_def)

lemma sys_hands_upd:
  assumes "m w = None"
  shows "sys_hands (m(w := Some (h, t))) = insert t (sys_hands m)"
proof -
  have "sys_hands n = snd ` ran n" for n by (force simp: sys_hands_def ran_def)
  then show ?thesis using ran_map_upd [of m w "(h, t)"] assms by simp
qed

lemma sys_hands_del:
  assumes m: "m w = Some (h, t)" and inj: "\<And>v g. m v = Some (g, t) \<Longrightarrow> v = w"
  shows "sys_hands m = insert t (sys_hands (m(w := None)))" "t \<notin> sys_hands (m(w := None))"
proof -
  have "(m(w := None))(w := Some (h, t)) = m" using m by (simp add: fun_upd_idem)
  then show "sys_hands m = insert t (sys_hands (m(w := None)))" using sys_hands_upd [of "m(w := None)" w h t] by simp
  show "t \<notin> sys_hands (m(w := None))"
  proof
    assume "t \<in> sys_hands (m(w := None))"
    then obtain v g where "v \<noteq> w" "m v = Some (g, t)" by (auto simp: sys_hands_def split: if_splits)
    then show False using inj by blast
  qed
qed

lemma inv_switched:
  assumes inv: "sys_inv c i S" and h: "sy_hook S w = None" and w: "w < length (sc_workers (sy_core S))"
    and sw: "switched c i (sys_hands (sy_hook S)) (sy_core S) w r s'"
  shows "wk_current (wkr (sy_core S) w) = None \<Longrightarrow> sys_inv c i (S\<lparr>sy_core := s'\<rparr>)"
    "wk_current (wkr (sy_core S) w) = Some t \<Longrightarrow> sys_inv c i \<lparr>sy_core = s', sy_hook = (sy_hook S)(w := Some (k, t))\<rparr>"
proof -
  have cur: "currents (sy_core S) ! w = wk_current (wkr (sy_core S) w)" using w by (simp add: currents_def)
  have len: "length (sc_workers s') = length (sc_workers (sy_core S))"
    using sw unfolding switched_def by (metis length_currents length_list_update)
  have run: "runnable s' x" if "runnable (sy_core S) x" for x using sw that by (simp add: switched_def)
  have old: "v < length (sc_workers s') \<and> runnable s' x" if "sy_hook S v = Some (g, x)" for v g x
    using sys_invD(2) [OF inv that] run len by simp
  {
    assume "wk_current (wkr (sy_core S) w) = None"
    then have "sys_ok c i (sys_hands (sy_hook S)) s'" using sw cur by (simp add: switched_def)
    then show "sys_inv c i (S\<lparr>sy_core := s'\<rparr>)" unfolding core_update using old sys_invD(3) [OF inv] by (intro sys_invI) auto
  next
    assume t: "wk_current (wkr (sy_core S) w) = Some t"
    have ok: "sys_ok c i (insert t (sys_hands (sy_hook S))) s'" and nt: "t \<notin> sys_hands (sy_hook S)" "runnable s' t"
      using sw cur t by (simp_all add: switched_def)
    show "sys_inv c i \<lparr>sy_core = s', sy_hook = (sy_hook S)(w := Some (k, t))\<rparr>"
    proof (rule sys_invI)
      show "sys_ok c i (sys_hands ((sy_hook S)(w := Some (k, t)))) s'" using ok by (simp add: sys_hands_upd h)
      fix v g x assume "((sy_hook S)(w := Some (k, t))) v = Some (g, x)"
      then show "v < length (sc_workers s') \<and> runnable s' x" using old nt(2) w len by (cases "v = w") simp_all
      fix v' g' assume "((sy_hook S)(w := Some (k, t))) v' = Some (g', x)"
      with \<open>((sy_hook S)(w := Some (k, t))) v = Some (g, x)\<close> show "v = v'"
        using nt(1) sys_invD(3) [OF inv, of v g x v' g'] by (auto simp: sys_hands_def split: if_splits)
    qed
  }
qed

text \<open>A running task is nowhere else, so pinning and unpinning it is safe.\<close>

lemma nth_subset_sum:
  assumes "v < length xs"
  shows "(g (xs ! v) :: 'b multiset) \<subseteq># sum_list (map g xs)"
  using sum_list_split [OF assms, of g "xs ! v"] by simp

lemma current_only:
  assumes co: "counts_ok c X s" and w: "w < length (sc_workers s)" and t: "currents s ! w = Some t"
  shows "t \<notin># free_tasks c s" "v < length (sc_workers s) \<Longrightarrow> t \<notin> set (inboxes s ! v)"
    "v < length (sc_workers s) \<Longrightarrow> currents s ! v = Some t \<Longrightarrow> v = w"
proof -
  let ?rest = "sum_list (map optm ((currents s)[w := None]))"
  have cur: "sum_list (map optm (currents s)) = ?rest + {#t#}"
    using sum_list_update [of w "currents s" optm None] w t by simp
  have "count (all_tasks c s) t \<le> 1" using co by (simp add: counts_ok_def)
  then have z: "count (free_tasks c s) t = 0" "count (sum_list (map mset (inboxes s))) t = 0" "count ?rest t = 0"
    unfolding all_tasks_def cur by simp_all
  show "t \<notin># free_tasks c s" using z(1) by (simp add: count_eq_zero_iff)
  show "t \<notin> set (inboxes s ! v)" if "v < length (sc_workers s)"
    using nth_subset_sum [of v "inboxes s" mset] that z(2)
    by (metis count_eq_zero_iff length_inboxes mset_subset_eqD set_mset_mset)
  show "v = w" if v: "v < length (sc_workers s)" "currents s ! v = Some t"
  proof (rule ccontr)
    assume "v \<noteq> w"
    then have "{#t#} \<subseteq># ?rest" using nth_subset_sum [of v "(currents s)[w := None]" optm] v by simp
    with z(3) show False by (simp add: count_eq_zero_iff)
  qed
qed

lemma kept_updT:
  "tk_parkState (f (sc_tasks s t)) = tk_parkState (sc_tasks s t) \<Longrightarrow> kept s (updT s t f)"
  by (simp add: kept_def runnable_updT) (simp add: runnable_def)

lemma sys_updT_pin:
  assumes ok: "sys_ok c i X s" and same: "tk_parkState (f (sc_tasks s t)) = tk_parkState (sc_tasks s t)"
    and pins: "pins_valid c (updT s t f)"
  shows "sys_ok c i X (updT s t f)"
proof -
  have "sys_ok c i X (updT s t (\<lambda>_. f (sc_tasks s t)))"
    by (rule sys_updT [OF ok]) (use same pins updT_const [of s t f] in \<open>auto simp: runnable_def\<close>)
  then show ?thesis by (simp add: updT_const [of s t f])
qed

lemma pins_repin:
  assumes pv: "pins_valid c s" and co: "counts_ok c X s" and w: "w < length (sc_workers s)" "currents s ! w = Some t"
    and p: "p = None \<or> p = Some w"
  shows "pins_valid c (updT s t (\<lambda>k. k\<lparr>tk_pinnedTo := p\<rparr>))"
proof -
  note only = current_only [OF co w]
  show ?thesis
  proof (rule pins_validI; unfold updT_frame(1,6-8,11))
    fix x v assume "tk_pinnedTo (sc_tasks (updT s t (\<lambda>k. k\<lparr>tk_pinnedTo := p\<rparr>)) x) = Some v"
    then show "v < length (sc_workers s)" using pinned_in_range [OF pv, of x v] p w(1) by (cases "x = t") auto
  next
    fix x assume "x \<in># free_tasks c s"
    then show "tk_pinnedTo (sc_tasks (updT s t (\<lambda>k. k\<lparr>tk_pinnedTo := p\<rparr>)) x) = None"
      using only(1) free_unpinned [OF pv, of x] by (cases "x = t") auto
  next
    fix v x assume v: "v < length (sc_workers s)" "x \<in> set (inboxes s ! v)"
    then show "tk_pinnedTo (sc_tasks (updT s t (\<lambda>k. k\<lparr>tk_pinnedTo := p\<rparr>)) x) = Some v"
      using only(2) [of v] inbox_pinned [OF pv, of v x] by (cases "x = t") auto
  next
    fix v x u assume v: "v < length (sc_workers s)" "currents s ! v = Some x"
      "tk_pinnedTo (sc_tasks (updT s t (\<lambda>k. k\<lparr>tk_pinnedTo := p\<rparr>)) x) = Some u"
    then show "u = v \<or> sc_parkedWoken s" using only(3) [of v] current_pinned [OF pv, of v x u] p by (cases "x = t") auto
  qed
qed

context local_queue
begin

lemma inv_found:
  assumes inv: "sys_inv contents inv S" and w: "idle S w"
    and r: "ft (sys_hands (sy_hook S)) (Some w) s' \<and> kept (sy_core S) s'
      \<or> (\<exists>t. switched contents inv (sys_hands (sy_hook S)) (sy_core S) w (Some t) s')"
  shows "sys_inv contents inv (S\<lparr>sy_core := s'\<rparr>)"
  using r
proof
  assume "ft (sys_hands (sy_hook S)) (Some w) s' \<and> kept (sy_core S) s'"
  then show ?thesis by (rule inv_fit [OF inv])
next
  assume "\<exists>t. switched contents inv (sys_hands (sy_hook S)) (sy_core S) w (Some t) s'"
  then show ?thesis using inv_switched(1) [OF inv] w by (auto simp: idle_def)
qed

lemma inv_leave:
  assumes inv: "sys_inv contents inv S" and w: "runs S w t"
    and r: "fst p = None \<and> ft (sys_hands (sy_hook S)) (Some w) (snd p) \<and> kept (sy_core S) (snd p)
      \<or> (\<exists>h. fst p = Some h \<and> (\<exists>r. switched contents inv (sys_hands (sy_hook S)) (sy_core S) w r (snd p)))"
  shows "sys_inv contents inv (leave S w t p)"
proof -
  have w': "sy_hook S w = None" "w < length (sc_workers (sy_core S))" "wk_current (wkr (sy_core S) w) = Some t"
    using w by (simp_all add: runs_def)
  from r show ?thesis
  proof
    assume a: "fst p = None \<and> ft (sys_hands (sy_hook S)) (Some w) (snd p) \<and> kept (sy_core S) (snd p)"
    then have "leave S w t p = S\<lparr>sy_core := snd p\<rparr>" using w'(1) by (cases p) (simp add: leave_def core_update fun_upd_idem)
    with inv_fit [OF inv] a show ?thesis by metis
  next
    assume "\<exists>h. fst p = Some h \<and> (\<exists>r. switched contents inv (sys_hands (sy_hook S)) (sy_core S) w r (snd p))"
    then obtain h r where p: "fst p = Some h" and sw: "switched contents inv (sys_hands (sy_hook S)) (sy_core S) w r (snd p)" by blast
    have "leave S w t p = \<lparr>sy_core = snd p, sy_hook = (sy_hook S)(w := Some (h, t))\<rparr>" using p by (cases p) (simp add: leave_def)
    then show ?thesis using inv_switched(2) [OF inv w'(1,2) sw w'(3)] by simp
  qed
qed

lemma inv_released:
  assumes inv: "sys_inv contents inv S" and h: "sy_hook S w = Some (h, t)"
    and ok: "sys_ok contents inv (sys_hands ((sy_hook S)(w := None))) s'" and len: "length (sc_workers s') = length (sc_workers (sy_core S))"
    and run: "\<And>x. x \<noteq> t \<Longrightarrow> runnable (sy_core S) x \<Longrightarrow> runnable s' x"
  shows "sys_inv contents inv \<lparr>sy_core = s', sy_hook = (sy_hook S)(w := None)\<rparr>"
proof (rule sys_invI [OF ok])
  let ?m = "(sy_hook S)(w := None)"
  have inj: "v = w" if "sy_hook S v = Some (g, t)" for v g using sys_invD(3) [OF inv that h] .
  have d: "t \<notin> sys_hands ?m" by (rule sys_hands_del [of "sy_hook S" w h t]; fact h inj)
  fix v g x assume v: "?m v = Some (g, x)"
  then have x: "sy_hook S v = Some (g, x)" "x \<noteq> t" using d sys_handsI [of "?m" v g x] by (auto split: if_splits)
  show "v < length (sc_workers s') \<and> runnable s' x" using sys_invD(2) [OF inv x(1)] run [OF x(2)] len by simp
  fix v' g' assume "?m v' = Some (g', x)"
  then show "v = v'" using sys_invD(3) [OF inv x(1), of v' g'] by (auto split: if_splits)
qed

lemma hook_in_hand:
  assumes inv: "sys_inv contents inv S" and h: "sy_hook S w = Some (h, t)"
  shows "ok (insert t (sys_hands ((sy_hook S)(w := None)))) (sy_core S)" "t \<notin> sys_hands ((sy_hook S)(w := None))"
    "w < length (sc_workers (sy_core S))" "runnable (sy_core S) t"
proof -
  let ?m = "(sy_hook S)(w := None)"
  have inj: "v = w" if "sy_hook S v = Some (g, t)" for v g using sys_invD(3) [OF inv that h] .
  have d: "sys_hands (sy_hook S) = insert t (sys_hands ?m)" "t \<notin> sys_hands ?m"
    by (rule sys_hands_del [of "sy_hook S" w h t]; fact h inj)+
  then show "ok (insert t (sys_hands ?m)) (sy_core S)" "t \<notin> sys_hands ?m" using sys_invD(1) [OF inv] by simp_all
  show "w < length (sc_workers (sy_core S))" "runnable (sy_core S) t" using sys_invD(2) [OF inv h] by simp_all
qed

lemma inv_hook:
  assumes inv: "sys_inv contents inv S" and h: "sy_hook S w = Some (h, t)" "h \<noteq> Reaped"
  shows "sys_inv contents inv \<lparr>sy_core = runHook Q (sy_core S) w h t, sy_hook = (sy_hook S)(w := None)\<rparr>"
proof -
  note k = hook_in_hand [OF inv h(1)]
  note r = sys_runHook [OF k(1,3,4,2) h(2)]
  have "length (sc_workers (runHook Q (sy_core S) w h t)) = length (sc_workers (sy_core S))" using r(2) by (metis length_currents)
  then show ?thesis using inv_released [OF inv h(1) r(1)] r(3) by blast
qed

text \<open>Shutdown: a claim takes a parked task in hand, and the claimed task is put back, unwound or dropped.\<close>

lemma inv_reap_claim:
  assumes inv: "sys_inv contents inv S" and w: "idle S w" and c: "reap_claim (sy_core S) t = (True, s')"
  shows "sys_inv contents inv \<lparr>sy_core = s', sy_hook = (sy_hook S)(w := Some (Reaped, t))\<rparr>"
proof -
  let ?s = "sy_core S" let ?X = "sys_hands (sy_hook S)"
  have p: "tk_parkState (sc_tasks ?s t) = Parked" "s' = setState ?s t Running" using c by (auto simp: reap_claim_def split: if_splits)
  have h: "sy_hook S w = None" "w < length (sc_workers ?s)" using w by (simp_all add: idle_def)
  have nr: "\<not> runnable ?s t" using p(1) by (simp add: runnable_def)
  then have nX: "t \<notin> ?X" using sys_invD(2) [OF inv] by (auto simp: sys_hands_def)
  have ok: "ok (insert t ?X) s'" unfolding p(2) by (rule sys_setState [OF sys_invD(1) [OF inv]]) (simp_all add: nr nX p(1))
  show ?thesis
  proof (rule sys_invI)
    show "ok (sys_hands ((sy_hook S)(w := Some (Reaped, t)))) s'" using ok by (simp add: sys_hands_upd h)
    fix v g x assume v: "((sy_hook S)(w := Some (Reaped, t))) v = Some (g, x)"
    then show "v < length (sc_workers s') \<and> runnable s' x" using sys_invD(2) [OF inv] h by (auto simp: p(2) split: if_splits)
    fix v' g' assume "((sy_hook S)(w := Some (Reaped, t))) v' = Some (g', x)"
    with v show "v = v'" using nX sys_invD(3) [OF inv, of v g x v' g'] by (auto simp: sys_hands_def split: if_splits)
  qed
qed

lemma reap_claimed_shielded: "shields \<noteq> 0 \<Longrightarrow> reap_claimed Q s w t shields exceptions = runHook Q s w OnTaskParked t"
  by (simp add: reap_claimed_def onTaskParked_def)

lemma inv_reap_claimed:
  assumes inv: "sys_inv contents inv S" and h: "sy_hook S w = Some (Reaped, t)"
    and w: "wk_current (wkr (sy_core S) w) = None" "sc_parkedWoken (sy_core S)"
  shows "sys_inv contents inv \<lparr>sy_core = reap_claimed Q (sy_core S) w t shields exceptions, sy_hook = (sy_hook S)(w := None)\<rparr>"
proof -
  let ?s = "sy_core S" let ?m = "(sy_hook S)(w := None)"
  note k = hook_in_hand [OF inv h]
  consider "shields \<noteq> 0" | "shields = 0" "exceptions" | "shields = 0" "\<not> exceptions" by auto
  then show ?thesis
  proof cases
    case 1
    note r = sys_runHook [OF k(1,3,4,2), of OnTaskParked]
    have "length (sc_workers (runHook Q ?s w OnTaskParked t)) = length (sc_workers ?s)" using r(2) by (metis length_currents hook.distinct(9))
    then show ?thesis using inv_released [OF inv h r(1)] r(3) by (simp add: reap_claimed_shielded 1)
  next
    case 2
    have "ok (sys_hands ?m \<union> set_option (Some t)) ?s" using k(1) by simp
    from sys_switch(1) [OF this k(3)] have "ok (sys_hands ?m) (setCurrent ?s w (Some t))"
      using w k(2,3,4) by (simp add: currents_def)
    then show ?thesis using inv_released [OF inv h, of "setCurrent ?s w (Some t)"] 2
      by (simp add: reap_claimed_def setCurrent_frame runnable_def)
  next
    case 3
    have "ok (sys_hands ?m) (setState ?s t Done)" by (rule sys_setState [OF k(1)]) (auto simp: k(2))
    then show ?thesis using inv_released [OF inv h, of "setState ?s t Done"] 3 by (simp add: reap_claimed_def)
  qed
qed

lemma fit_parkedWoken:
  assumes "ft X me s"
  shows "ft X me (s\<lparr>sc_parkedWoken := True\<rparr>)" "kept s (s\<lparr>sc_parkedWoken := True\<rparr>)"
proof -
  let ?s = "s\<lparr>sc_parkedWoken := True\<rparr>"
  have f: "inboxes ?s = inboxes s" "currents ?s = currents s" "free_tasks contents ?s = free_tasks contents s" "runnable ?s = runnable s"
    by (simp_all add: inboxes_def currents_def free_tasks_def runnable_def fun_eq_iff)
  then show k: "kept s ?s" by (simp add: kept_def)
  have ok: "ok X s" using assms by (simp add: fit_def)
  note pv = sys_pins [OF ok]
  have t: "sc_tasks ?s = sc_tasks s" "sc_workers ?s = sc_workers s" "sc_parkedWoken ?s" by simp_all
  have "pins_valid contents ?s"
    by (rule pins_validI; unfold f t)
      (rule pinned_in_range [OF pv] free_unpinned [OF pv] inbox_pinned [OF pv] disjI2 [OF t(3)]; assumption?)+
  moreover have "counts_ok contents X ?s = counts_ok contents X s" "liveTasks_set ?s = liveTasks_set s" "wf_core inv ?s = wf_core inv s"
    by (simp_all only: counts_ok_def all_tasks_def f liveTasks_set_def wf_core_def t)
  ultimately have "ok X ?s" using ok by (simp add: sys_ok_def)
  then show "ft X me ?s" by (rule fitI [OF _ k assms])
qed

lemma quietly_unparkAll: "quietly a s \<Longrightarrow> quietly a (fold (\<lambda>w s. unparkWorker s w) ws s)"
  by (induction ws arbitrary: s) (simp_all add: quietly_unparkWorker)

lemma inv_stop:
  assumes inv: "sys_inv contents inv S" and me: "me_ok me (sy_core S)"
  shows "sys_inv contents inv (S\<lparr>sy_core := stop Q me (sy_core S) maxTasks\<rparr>)"
proof -
  let ?s1 = "wakeAllParked Q me (sy_core S) maxTasks" let ?s2 = "?s1\<lparr>sc_parkedWoken := True\<rparr>"
  have w: "ft (sys_hands (sy_hook S)) me ?s1" "kept (sy_core S) ?s1"
    using fit_wakeAll [OF sys_fit [OF inv me]] by (simp_all add: wakeAllParked_def)
  note p = fit_parkedWoken [OF w(1)]
  have q: "quietly ?s2 (stop Q me (sy_core S) maxTasks)" unfolding stop_def by (rule quietly_unparkAll) simp
  show ?thesis using inv_fit [OF inv] fit_quietly [OF p(1) q] kept_trans [OF kept_trans [OF w(2) p(2)] quietly_kept [OF q]] by blast
qed

lemma inv_spawn:
  assumes inv: "sys_inv contents inv S" and me: "me_ok me (sy_core S)"
    and t: "tk_parkState (sc_tasks (sy_core S) t) = Done" "card (liveTasks_set (sy_core S)) < sc_injectionCapacity (sy_core S)"
  shows "sys_inv contents inv (S\<lparr>sy_core := spawn_task Q me (sy_core S) t\<rparr>)"
proof -
  let ?s = "sy_core S" let ?X = "sys_hands (sy_hook S)" let ?k = "\<lparr>tk_parkState = Running, tk_pinnedTo = None, tk_readyAt = 0\<rparr>"
  define s1 where "s1 = updT ?s t (\<lambda>_. ?k)"
  note ok = sys_invD(1) [OF inv]
  note pv = sys_pins [OF ok]
  have co: "counts_ok contents ?X ?s" using ok by (simp add: sys_ok_def)
  have nr: "\<not> runnable ?s t" using t(1) by (simp add: runnable_def)
  have nX: "t \<notin> ?X" using sys_invD(2) [OF inv] nr by (auto simp: sys_hands_def)
  have "count (all_tasks contents ?s) t = 0" using co nr by (simp add: counts_ok_def)
  then have no: "t \<notin># free_tasks contents ?s" "t \<notin># sum_list (map mset (inboxes ?s))" "t \<notin># sum_list (map optm (currents ?s))"
    by (simp_all add: all_tasks_def count_eq_zero_iff)
  have "pins_valid contents s1" unfolding s1_def
  proof (rule pins_validI; unfold updT_frame(1,6-8,11))
    fix x v assume "tk_pinnedTo (sc_tasks (updT ?s t (\<lambda>_. ?k)) x) = Some v"
    then show "v < length (sc_workers ?s)" using pinned_in_range [OF pv, of x v] by (simp split: if_splits)
  next
    fix x assume "x \<in># free_tasks contents ?s"
    then show "tk_pinnedTo (sc_tasks (updT ?s t (\<lambda>_. ?k)) x) = None" using free_unpinned [OF pv, of x] by simp
  next
    fix v x assume v: "v < length (sc_workers ?s)" "x \<in> set (inboxes ?s ! v)"
    then have "x \<noteq> t" using no(2) nth_subset_sum [of v "inboxes ?s" mset] by (auto dest: mset_subset_eqD)
    then show "tk_pinnedTo (sc_tasks (updT ?s t (\<lambda>_. ?k)) x) = Some v" using inbox_pinned [OF pv v] by simp
  next
    fix v x u assume v: "v < length (sc_workers ?s)" "currents ?s ! v = Some x" "tk_pinnedTo (sc_tasks (updT ?s t (\<lambda>_. ?k)) x) = Some u"
    then show "u = v \<or> sc_parkedWoken ?s" using current_pinned [OF pv v(1,2)] by (simp split: if_splits)
  qed
  then have ok1: "ok (insert t ?X) s1" unfolding s1_def by (intro sys_updT [OF ok]) (use t nr in auto)
  have c1: "currents s1 = currents ?s" "runnable s1 t" by (simp_all add: s1_def runnable_updT)
  have "me_ok me s1" using me me_ok_cong [OF c1(1)] by simp
  note r = sys_schedule [OF ok1 this c1(2) nX]
  have "kept ?s (spawn_task Q me ?s t)"
    unfolding spawn_task_def s1_def [symmetric] using r(2,3) c1 nr by (auto simp: kept_def s1_def runnable_updT)
  with r(1) show ?thesis unfolding spawn_task_def s1_def [symmetric] by (intro inv_kept [OF inv])
qed

theorem sched_step_inv:
  assumes inv: "sys_inv contents inv S" and st: "sched_step Q S S'"
  shows "sys_inv contents inv S'"
  using st
proof cases
  case (Turn w due ready)
  then show ?thesis using inv_found [OF inv] runTurn_cases [OF sys_fit [OF inv]] by (auto simp: idle_def me_ok_def)
next
  case (IdleEnter w stopping idleSpin n)
  have f: "ft (sys_hands (sy_hook S)) (Some w) (sy_core S)" using IdleEnter sys_fit [OF inv] by (auto simp: idle_def me_ok_def)
  obtain r s1 where p: "parkIdle_enter Q (sy_core S) w stopping idleSpin n = (r, s1)"
    by (cases "parkIdle_enter Q (sy_core S) w stopping idleSpin n")
  from found_cases [OF f kept_refl took_parkIdle_enter [OF fit_parts(1,2) [OF f] p]] IdleEnter p
  show ?thesis using inv_found [OF inv] by simp
next
  case (Sleep w stopping nextd)
  then have f: "ft (sys_hands (sy_hook S)) (Some w) (sy_core S)" using sys_fit [OF inv] by (auto simp: idle_def me_ok_def)
  show ?thesis using Sleep(1) inv_fit [OF inv] fit_sleepIdle_enter [OF f prod.collapse [symmetric]] by blast
next
  case (WakeUp w ready due)
  then have f: "ft (sys_hands (sy_hook S)) (Some w) (sy_core S)" using sys_fit [OF inv] by (auto simp: idle_def me_ok_def)
  show ?thesis using WakeUp(1) inv_fit [OF inv] fit_sleepIdle_leave [OF f] by blast
next
  case (IdleLeave w)
  have f: "ft (sys_hands (sy_hook S)) (Some w) (sy_core S)" using IdleLeave sys_fit [OF inv] by (auto simp: idle_def me_ok_def)
  obtain r s1 where p: "parkIdle_leave Q (sy_core S) w = (r, s1)" by (cases "parkIdle_leave Q (sy_core S) w")
  from found_cases [OF f kept_refl took_parkIdle_leave [OF fit_parts(1,2) [OF f] p]] IdleLeave p
  show ?thesis using inv_found [OF inv] by simp
next
  case (Yield w t)
  have f: "ft (sys_hands (sy_hook S)) (Some w) (sy_core S)" using Yield sys_fit [OF inv] by (auto simp: runs_def me_ok_def)
  show ?thesis unfolding Yield(1) by (rule inv_leave [OF inv Yield(2)]) (use yield_cases [OF f prod.collapse [symmetric]] in blast)
next
  case (Park w t)
  have f: "ft (sys_hands (sy_hook S)) (Some w) (sy_core S)" using Park sys_fit [OF inv] by (auto simp: runs_def me_ok_def)
  show ?thesis unfolding Park(1) by (rule inv_leave [OF inv Park(2)]) (use park_cases [OF f prod.collapse [symmetric]] in blast)
next
  case (Finish w t)
  have f: "ft (sys_hands (sy_hook S)) (Some w) (sy_core S)" using Finish sys_fit [OF inv] by (auto simp: runs_def me_ok_def)
  show ?thesis unfolding Finish(1) by (rule inv_leave [OF inv Finish(2)]) (use finish_cases [OF f prod.collapse [symmetric]] in blast)
next
  case (Hook w h t)
  then show ?thesis using inv_hook [OF inv] by simp
next
  case (Stop me maxTasks)
  then show ?thesis using inv_stop [OF inv] by simp
next
  case (ReapClaim w t s')
  then show ?thesis using inv_reap_claim [OF inv] by simp
next
  case (ReapClaimed w t shields exceptions)
  then show ?thesis using inv_reap_claimed [OF inv] by simp
next
  case (Wake me t)
  have f: "ft (sys_hands (sy_hook S)) me (sy_core S)" using Wake sys_fit [OF inv] by simp
  have "wakeAll Q me (sy_core S) [t] = wake Q me (sy_core S) t" by (simp add: wakeAll_def)
  then show ?thesis using Wake(1) inv_fit [OF inv] fit_wakeAll [OF f, of "[t]"] by metis
next
  case (Spawn me t)
  then show ?thesis using inv_spawn [OF inv] by simp
next
  case (Resumed w t)
  let ?s = "sy_core S"
  define s1 where "s1 = updT ?s t (\<lambda>k. k\<lparr>tk_readyAt := 0\<rparr>)"
  have ok1: "ok (sys_hands (sy_hook S)) s1" unfolding s1_def
    by (rule sys_updT_pin [OF sys_invD(1) [OF inv]]) (use sys_pins [OF sys_invD(1) [OF inv]] in \<open>auto intro: pins_updT\<close>)
  have k1: "kept ?s s1" unfolding s1_def by (rule kept_updT) simp
  have "recordWakeLatency ?s t w = ?s \<or> quietly s1 (recordWakeLatency ?s t w)"
    unfolding recordWakeLatency_def Let_def s1_def by (auto intro!: quietly_updW simp: tracked_def)
  then show ?thesis unfolding Resumed(1)
    using inv inv_kept [OF inv sys_quietly [OF ok1] kept_trans [OF k1 quietly_kept]] by (elim disjE) simp_all
next
  case (Pin w t)
  let ?s = "sy_core S"
  have "w < length (sc_workers ?s)" "currents ?s ! w = Some t" using Pin(2) by (simp_all add: runs_def currents_def)
  then have "pins_valid contents (pinToCurrentWorker ?s w t)" unfolding pinToCurrentWorker_def
    using sys_invD(1) [OF inv] by (intro pins_repin) (auto simp: sys_ok_def)
  then show ?thesis unfolding Pin(1) pinToCurrentWorker_def
    by (intro inv_kept [OF inv] sys_updT_pin [OF sys_invD(1) [OF inv]] kept_updT) simp_all
next
  case (Unpin w t)
  let ?s = "sy_core S"
  have "w < length (sc_workers ?s)" "currents ?s ! w = Some t" using Unpin(2) by (simp_all add: runs_def currents_def)
  then have "pins_valid contents (unpin ?s t)" unfolding unpin_def
    using sys_invD(1) [OF inv] by (intro pins_repin) (auto simp: sys_ok_def)
  then show ?thesis unfolding Unpin(1) unpin_def
    by (intro inv_kept [OF inv] sys_updT_pin [OF sys_invD(1) [OF inv]] kept_updT) simp_all
next
  case (Environment s')
  then show ?thesis using inv_kept [OF inv sys_quietly [OF sys_invD(1) [OF inv]] quietly_kept] by simp
qed

end

end
