(* ===== verification/Scheduler_System.thy ===== *)
theory Scheduler_System
  imports Sched_Steps Bwos_Steal
begin

text \<open>
  The scheduler built from its parts: the run queues it can be compiled with, a newly constructed
  scheduler, and what holds in every state it reaches.
\<close>

section \<open>Construction\<close>

definition kMaxWorkers :: nat where "kMaxWorkers = 64"

definition resolveWorkerCount :: "nat \<Rightarrow> nat \<Rightarrow> nat" where
  "resolveWorkerCount requested hardware =
     (let n = (if requested \<noteq> 0 then requested else hardware); n1 = (if n = 0 then 1 else n)
      in if n1 > kMaxWorkers then kMaxWorkers else n1)"

definition newWorker :: "'q \<Rightarrow> wid \<Rightarrow> 'q worker" where
  "newWorker q w =
     \<lparr>wk_local = q, wk_lifoSlot = None, wk_lifoStreak = 0, wk_yieldTick = 0, wk_tick = 0,
      wk_rng = of_nat (0x9E3779B9 * (w + 1)), wk_spinMisses = 0, wk_spinSkips = 0, wk_switchCount = 0,
      wk_gathering = False, wk_gathered = [], wk_pinnedInbox = [], wk_token = False, wk_handoffWake = False,
      wk_sleeps = 0, wk_steals = 0, wk_wakeLatency = replicate kWakeLatencyBuckets 0, wk_current = None\<rparr>"

text \<open>The options, with \<open>capacity\<close> for \<^verbatim>\<open>SlotQueue::kCapacity\<close>; the constructor checks \<^verbatim>\<open>maxTasks\<close> against it.\<close>

record options =
  op_workers :: nat
  op_maxTasks :: nat
  op_hasDriver :: bool
  op_recordWakeLatency :: bool
  op_rampUpDelay :: int

definition initialCore :: "'q \<Rightarrow> nat \<Rightarrow> nat \<Rightarrow> options \<Rightarrow> 'q core" where
  "initialCore q hardware capacity opts =
     \<lparr>sc_workers = map (newWorker q) [0..<resolveWorkerCount (op_workers opts) hardware],
      sc_tasks = (\<lambda>_. \<lparr>tk_parkState = Done, tk_pinnedTo = None, tk_readyAt = 0\<rparr>),
      sc_injection = [], sc_injectionCapacity = capacity, sc_idleMask = 0, sc_searching = 0, sc_timekeeper = None,
      sc_hasDriver = op_hasDriver opts, sc_driverWoken = False, sc_timersPending = False, sc_now = 0,
      sc_recordWakeLatency = op_recordWakeLatency opts, sc_rampUpDelay = op_rampUpDelay opts,
      sc_rampUpDeadline = sc_kNoDeadline, sc_keeperDeadline = sc_kNoDeadline, sc_lastKeeperWake = - (2 ^ 62),
      sc_parkedWoken = False, sc_fatal = None\<rparr>"

definition newCore :: "'q \<Rightarrow> nat \<Rightarrow> nat \<Rightarrow> options \<Rightarrow> fatal + 'q core" where
  "newCore q hardware capacity opts =
     (if \<not> (1 \<le> op_maxTasks opts \<and> op_maxTasks opts \<le> capacity)
      then Inl (Fatal ''SchedulerOptions::maxTasks out of range for the injection queue'')
      else Inr (initialCore q hardware capacity opts))"

definition newSystem :: "'q \<Rightarrow> nat \<Rightarrow> nat \<Rightarrow> options \<Rightarrow> 'q sys \<Rightarrow> bool" where
  "newSystem q hardware capacity opts S \<longleftrightarrow> newCore q hardware capacity opts = Inr (sy_core S) \<and> sy_hook S = (\<lambda>_. None)"

section \<open>The run queues\<close>

definition ring_ops :: "(64, tid) ring_queue local_ops" where
  "ring_ops = \<lparr>lq_push = ring_push, lq_pop = ring_pop, lq_popBlock = ring_popBlock, lq_steal = ring_steal,
     lq_stealBlock = ring_stealBlock, lq_hasEntries = ring_hasEntries, lq_pushBatch = ring_pushBatch,
     lq_minRemainingSlots = (\<lambda>q. unat (ring_minRemainingSlots q)), lq_kEntriesPerBlock = 128,
     lq_producerBlockHasActiveStealers = (\<lambda>_. False)\<rparr>"

definition bwos_ops :: "(64, tid) bwos local_ops" where
  "bwos_ops = \<lparr>lq_push = bwos_push, lq_pop = bwos_pop, lq_popBlock = bwos_popBlock, lq_steal = bwos_steal,
     lq_stealBlock = bwos_stealBlock, lq_hasEntries = bwos_hasEntries, lq_pushBatch = bwos_pushBatch,
     lq_minRemainingSlots = bwos_minRemainingSlots, lq_kEntriesPerBlock = 32,
     lq_producerBlockHasActiveStealers = bwos_producerBlockHasActiveStealers\<rparr>"

definition new_ring :: "(64, tid) ring_queue" where
  "new_ring = ring_new (replicate 256 0)"

definition new_bwos :: "(64, tid) bwos" where
  "new_bwos = bwos_new 8 32 0"

lemma new_ring_inv: "ring_inv new_ring" "ring_contents new_ring = []"
proof -
  have "(256 :: nat) = 2 ^ 8" "(8 :: nat) < LENGTH(64)" by simp_all
  then show "ring_inv new_ring" "ring_contents new_ring = []"
    unfolding new_ring_def by (intro ring_new_inv [where k = 8]; simp only: length_replicate)+
qed

lemma new_bwos_inv: "bwos_inv new_bwos" "bwos_contents new_bwos = []"
proof -
  have "bitsToHold 32 = 6" by (simp add: bitsToHold.simps)
  then have n: "(1 :: nat) \<le> 32" "(2 :: nat) \<le> 8" "(8 :: nat) = 2 ^ 3" "3 < LENGTH(64)" "bitsToHold 32 < LENGTH(64)" by simp_all
  show "bwos_inv new_bwos" "bwos_contents new_bwos = []" unfolding new_bwos_def by (rule bwos_new_inv [OF n])+
qed

interpretation ring_build: local_queue ring_ops ring_contents ring_inv
proof -
  have "work_queue (lq_push ring_ops) (lq_pop ring_ops) (lq_popBlock ring_ops) (lq_steal ring_ops) (lq_stealBlock ring_ops)
      (lq_hasEntries ring_ops) ring_contents ring_inv"
    using ring.work_queue_axioms by (simp add: ring_ops_def)
  then show "local_queue ring_ops ring_contents ring_inv"
    by (rule local_queue.intro) (unfold_locales, use ring_pushBatch_law in \<open>fastforce simp: ring_ops_def\<close>)
qed

interpretation bwos_build: local_queue bwos_ops bwos_contents bwos_inv
proof -
  have "work_queue (lq_push bwos_ops) (lq_pop bwos_ops) (lq_popBlock bwos_ops) (lq_steal bwos_ops) (lq_stealBlock bwos_ops)
      (lq_hasEntries bwos_ops) bwos_contents bwos_inv"
    using bwos.work_queue_axioms by (simp add: bwos_ops_def)
  then show "local_queue bwos_ops bwos_contents bwos_inv"
    by (rule local_queue.intro) (unfold_locales, use bwos_pushBatch_inv in \<open>fastforce simp: bwos_ops_def\<close>)
qed

lemma newWorker_frame: "worker_free c (newWorker q w) = mset (c q)" "wk_pinnedInbox (newWorker q w) = []" "wk_current (newWorker q w) = None"
  "wk_local (newWorker q w) = q" "wk_tick (newWorker q w) = 0" "wk_gathered (newWorker q w) = []"
  by (simp_all add: newWorker_def worker_free_def)

lemma newSystem_inv:
  assumes "newSystem q hardware capacity opts S" "i q" "c q = []"
  shows "sys_inv c i S"
proof -
  let ?s = "sy_core S"
  from assms(1) have core: "?s = initialCore q hardware capacity opts" by (auto simp: newSystem_def newCore_def split: if_splits)
  from assms(1) have S: "sy_hook S = (\<lambda>_. None)" and ws: "sc_workers ?s = map (newWorker q) [0..<resolveWorkerCount (op_workers opts) hardware]"
    and t: "sc_tasks ?s = (\<lambda>_. \<lparr>tk_parkState = Done, tk_pinnedTo = None, tk_readyAt = 0\<rparr>)" and inj: "sc_injection ?s = []"
    and f: "sc_fatal ?s = None"
    by (simp_all add: newSystem_def core initialCore_def)
  have live: "liveTasks_set ?s = {}" by (simp add: liveTasks_set_def t)
  have free: "free_tasks c ?s = {#}" unfolding free_tasks_def ws inj using assms(3)
    by (simp add: sum_list_empty newWorker_frame)
  have ib: "inboxes ?s ! w = []" if "w < length (sc_workers ?s)" for w using that by (simp add: inboxes_def ws newWorker_frame)
  have cu: "currents ?s ! w = None" if "w < length (sc_workers ?s)" for w using that by (simp add: currents_def ws newWorker_frame)
  have "sum_list (map mset (inboxes ?s)) = {#}" "sum_list (map optm (currents ?s)) = {#}"
    by (rule sum_list_empty, auto simp: inboxes_def currents_def ws newWorker_frame)+
  then have "all_tasks c ?s = {#}" by (simp add: all_tasks_def free)
  moreover have "\<not> runnable ?s x" for x by (simp add: runnable_def t)
  ultimately have "counts_ok c {} ?s" by (simp add: counts_ok_def)
  moreover have "pins_valid c ?s" by (rule pins_validI) (simp_all add: t free ib cu)
  moreover have "wf_core i ?s" using assms(2) by (auto simp: wf_core_def ws newWorker_frame)
  ultimately have "sys_ok c i {} ?s" using f live by (simp add: sys_ok_def)
  then show ?thesis using S by (simp add: sys_inv_def sys_hands_def)
qed

interpretation bwos_sched: step_system "newSystem new_bwos hardware capacity opts" "sched_step bwos_ops" "sys_inv bwos_contents bwos_inv"
  by unfold_locales (auto intro: newSystem_inv new_bwos_inv bwos_build.sched_step_inv)

interpretation ring_sched: step_system "newSystem new_ring hardware capacity opts" "sched_step ring_ops" "sys_inv ring_contents ring_inv"
  by unfold_locales (auto intro: newSystem_inv new_ring_inv ring_build.sched_step_inv)

section \<open>Choosing a worker to wake\<close>

lemma ctz_bit:
  assumes "m \<noteq> 0"
  shows "bit m (ctz m)" "ctz m < 64"
proof -
  have "\<exists>i<64. bit m i"
  proof (rule ccontr)
    assume no: "\<not> ?thesis"
    have "m = 0"
    proof (rule bit_word_eqI)
      fix i assume "i < LENGTH(64)"
      then show "bit m i = bit (0 :: u64) i" using no by simp
    qed
    with assms show False by simp
  qed
  then obtain i where i: "i < 64" "bit m i" by blast
  have "length (takeWhile (\<lambda>i. \<not> bit m i) [0..<64]) \<noteq> 64"
  proof
    assume a: "length (takeWhile (\<lambda>i. \<not> bit m i) [0..<64]) = 64"
    have "takeWhile (\<lambda>i. \<not> bit m i) [0..<64] = take (length (takeWhile (\<lambda>i. \<not> bit m i) [0..<64])) [0..<64]" by (rule takeWhile_eq_take)
    then have "takeWhile (\<lambda>i. \<not> bit m i) [0..<64] = [0..<64]" unfolding a by simp
    then show False using i by simp
  qed
  then have lt: "length (takeWhile (\<lambda>i. \<not> bit m i) [0..<64]) < length [0..<64]"
    using length_takeWhile_le [of "\<lambda>i. \<not> bit m i" "[0..<64]"] by simp
  then show "ctz m < 64" by (simp add: ctz_def)
  with nth_length_takeWhile [OF lt] show "bit m (ctz m)" by (simp only: ctz_def [symmetric]) simp
qed

lemma bit_wbit: "bit (wbit w) i \<longleftrightarrow> i = w \<and> w < 64"
  by (auto simp: wbit_def bit_exp_iff)

lemma bit_clear: "bit (m AND NOT (wbit w)) i \<longleftrightarrow> bit m i \<and> i \<noteq> w"
  by (auto simp: bit_and_iff bit_not_iff bit_wbit dest: bit_imp_le_length)

lemma handOff_frame:
  assumes "w < length (sc_workers s)"
  shows "sc_idleMask (handOffTo me s w) = sc_idleMask s" "wk_token (wkr (handOffTo me s w) w)"
    "v \<noteq> w \<Longrightarrow> wkr (handOffTo me s w) v = wkr s v"
  using assms by (auto simp: handOffTo_def unparkWorker_def Let_def wkr_updW)

section \<open>A first run\<close>

definition demo_options :: options where
  "demo_options = \<lparr>op_workers = 2, op_maxTasks = 100, op_hasDriver = False, op_recordWakeLatency = False, op_rampUpDelay = 0\<rparr>"

definition demo_new :: "(64, tid) bwos sys" where
  "demo_new = \<lparr>sy_core = initialCore new_bwos 4 131072 demo_options, sy_hook = (\<lambda>_. None)\<rparr>"

definition demo_spawned :: "(64, tid) bwos sys" where
  "demo_spawned = demo_new\<lparr>sy_core := spawn_task bwos_ops None (sy_core demo_new) 5\<rparr>"

lemma demo_new: "newSystem new_bwos 4 131072 demo_options demo_new"
  by (simp add: newSystem_def newCore_def demo_new_def demo_options_def)

lemma demo_spawn: "sched_step bwos_ops demo_new demo_spawned"
  unfolding demo_spawned_def
proof (rule Spawn)
  have t: "sc_tasks (sy_core demo_new) = (\<lambda>_. \<lparr>tk_parkState = Done, tk_pinnedTo = None, tk_readyAt = 0\<rparr>)"
    by (simp add: demo_new_def initialCore_def)
  then show "tk_parkState (sc_tasks (sy_core demo_new) 5) = Done" by simp
  have "liveTasks_set (sy_core demo_new) = {}" by (simp add: liveTasks_set_def t)
  then show "card (liveTasks_set (sy_core demo_new)) < sc_injectionCapacity (sy_core demo_new)" by (simp add: demo_new_def initialCore_def)
qed (simp add: me_ok_def)

lemma demo_runnable: "runnable (sy_core demo_spawned) 5" "sc_injection (sy_core demo_spawned) = [5]" "sy_hook demo_spawned = (\<lambda>_. None)"
  by (simp_all add: demo_spawned_def demo_new_def initialCore_def demo_options_def spawn_task_def schedule_def inject_def
      notifyIdleWorker_def pushInjection_def updT_def runnable_def Let_def)

text \<open>The same with the ring: the task is picked up by the first worker and pins itself there.\<close>

definition demo_ring :: "(64, tid) ring_queue sys" where
  "demo_ring = \<lparr>sy_core = initialCore new_ring 4 131072 demo_options, sy_hook = (\<lambda>_. None)\<rparr>"

definition demo_ring_spawned :: "(64, tid) ring_queue sys" where
  "demo_ring_spawned = demo_ring\<lparr>sy_core := spawn_task ring_ops None (sy_core demo_ring) 5\<rparr>"

definition demo_ring_runs :: "(64, tid) ring_queue sys" where
  "demo_ring_runs = demo_ring_spawned\<lparr>sy_core := runTurn ring_ops (sy_core demo_ring_spawned) 0 [] []\<rparr>"

definition demo_pinned :: "(64, tid) ring_queue sys" where
  "demo_pinned = demo_ring_runs\<lparr>sy_core := pinToCurrentWorker (sy_core demo_ring_runs) 0 5\<rparr>"

lemma demo_ring: "newSystem new_ring 4 131072 demo_options demo_ring"
  by (simp add: newSystem_def newCore_def demo_ring_def demo_options_def)

lemma demo_ring_spawn: "sched_step ring_ops demo_ring demo_ring_spawned"
  unfolding demo_ring_spawned_def
proof (rule Spawn)
  have t: "sc_tasks (sy_core demo_ring) = (\<lambda>_. \<lparr>tk_parkState = Done, tk_pinnedTo = None, tk_readyAt = 0\<rparr>)"
    by (simp add: demo_ring_def initialCore_def)
  then show "tk_parkState (sc_tasks (sy_core demo_ring) 5) = Done" by simp
  have "liveTasks_set (sy_core demo_ring) = {}" by (simp add: liveTasks_set_def t)
  then show "card (liveTasks_set (sy_core demo_ring)) < sc_injectionCapacity (sy_core demo_ring)" by (simp add: demo_ring_def initialCore_def)
qed (simp add: me_ok_def)

lemma demo_workers:
  "sc_workers (sy_core demo_ring_spawned) = [newWorker new_ring 0, newWorker new_ring 1]" "sc_injection (sy_core demo_ring_spawned) = [5]"
  "sc_idleMask (sy_core demo_ring_spawned) = 0" "sc_hasDriver (sy_core demo_ring_spawned) = False"
  "sc_searching (sy_core demo_ring_spawned) = 0" "sy_hook demo_ring_spawned = (\<lambda>_. None)"
proof -
  have "[0..<2] = [0, Suc 0]" by (simp add: numeral_2_eq_2)
  then show "sc_workers (sy_core demo_ring_spawned) = [newWorker new_ring 0, newWorker new_ring 1]" "sc_injection (sy_core demo_ring_spawned) = [5]"
    "sc_idleMask (sy_core demo_ring_spawned) = 0" "sc_hasDriver (sy_core demo_ring_spawned) = False"
    "sc_searching (sy_core demo_ring_spawned) = 0" "sy_hook demo_ring_spawned = (\<lambda>_. None)"
    by (simp_all add: demo_ring_spawned_def demo_ring_def initialCore_def demo_options_def resolveWorkerCount_def kMaxWorkers_def
        spawn_task_def schedule_def inject_def notifyIdleWorker_def pushInjection_def updT_def Let_def)
qed

lemma demo_turn:
  "wk_current (wkr (sy_core demo_ring_runs) 0) = Some 5" "wk_current (wkr (sy_core demo_ring_runs) 1) = None"
  "length (sc_workers (sy_core demo_ring_runs)) = 2" "sy_hook demo_ring_runs = (\<lambda>_. None)"
proof -
  let ?s = "sy_core demo_ring_spawned"
  define s1 where "s1 = maintain ring_ops ?s 0 [] []"
  have s1: "s1 = updW (updW (updW ?s 0 (\<lambda>k. k\<lparr>wk_gathering := True\<rparr>)) 0 (\<lambda>k. k\<lparr>wk_gathering := False\<rparr>)) 0 (\<lambda>k. k\<lparr>wk_gathered := []\<rparr>)"
    by (simp add: s1_def maintain_def wakeAll_def placeGathered_def Let_def demo_workers hasIdleWorkers_def wkr_updW newWorker_frame)
  then have f: "sc_injection s1 = [5]" "length (sc_workers s1) = 2" "wk_current (wkr s1 1) = None"
    "sc_timekeeper s1 = sc_timekeeper ?s" "sc_idleMask s1 = 0"
    by (simp_all add: demo_workers wkr_updW newWorker_frame)
  have c: "sy_core demo_ring_runs = dispatch (s1\<lparr>sc_injection := []\<rparr>) 0 5"
    by (simp add: demo_ring_runs_def runTurn_def demo_workers newWorker_frame s1_def [symmetric] popInjection_def f(1) orElse_def runFound_def)
  define s2 where "s2 = updW (s1\<lparr>sc_injection := []\<rparr>) 0 (\<lambda>k. k\<lparr>wk_tick := wk_tick k + 1\<rparr>)"
  have "hasIdleWorkers s2 = False" using f(5) by (simp add: s2_def hasIdleWorkers_def)
  then have d: "sy_core demo_ring_runs = setCurrent s2 0 (Some 5)"
    unfolding c dispatch_def Let_def s2_def [symmetric] by (simp add: ensureTimekeeper_def)
  show "wk_current (wkr (sy_core demo_ring_runs) 0) = Some 5" "wk_current (wkr (sy_core demo_ring_runs) 1) = None"
    "length (sc_workers (sy_core demo_ring_runs)) = 2"
    using f unfolding d by (simp_all add: setCurrent_def s2_def wkr_updW)
  show "sy_hook demo_ring_runs = (\<lambda>_. None)" by (simp add: demo_ring_runs_def demo_workers)
qed

lemma demo_pinned:
  "(sched_step ring_ops)\<^sup>*\<^sup>* demo_ring demo_pinned" "tk_pinnedTo (sc_tasks (sy_core demo_pinned) 5) = Some 0"
  "wk_current (wkr (sy_core demo_pinned) 0) = Some 5" "wk_current (wkr (sy_core demo_pinned) 1) = None"
proof -
  have "sched_step ring_ops demo_ring_spawned demo_ring_runs" unfolding demo_ring_runs_def
    by (rule Turn) (simp add: idle_def demo_workers newWorker_def)
  moreover have "sched_step ring_ops demo_ring_runs demo_pinned" unfolding demo_pinned_def
    by (rule Pin) (simp add: runs_def demo_turn)
  ultimately show "(sched_step ring_ops)\<^sup>*\<^sup>* demo_ring demo_pinned"
    using demo_ring_spawn by (blast intro: converse_rtranclp_into_rtranclp)
  show "tk_pinnedTo (sc_tasks (sy_core demo_pinned) 5) = Some 0" "wk_current (wkr (sy_core demo_pinned) 0) = Some 5"
    "wk_current (wkr (sy_core demo_pinned) 1) = None"
    using demo_turn by (simp_all add: demo_pinned_def pinToCurrentWorker_def)
qed

text \<open>A worker whose LIFO slot is refilled again and again, and an idle mask with the timekeeper in it.\<close>

definition demo_local :: "(64, tid) ring_queue" where
  "demo_local = \<lparr>rq_capacity = 2, rq_head = 0, rq_tail = 1, rq_buffer = [9, 0]\<rparr>"

definition demo_lifo :: "nat \<Rightarrow> (64, tid) ring_queue core" where
  "demo_lifo i = (initialCore demo_local 4 100 demo_options)
     \<lparr>sc_workers := [(newWorker demo_local 0)\<lparr>wk_lifoSlot := Some 7, wk_lifoStreak := i\<rparr>]\<rparr>"

definition demo_idle :: "(64, tid) bwos core" where
  "demo_idle = (initialCore new_bwos 4 100 demo_options)\<lparr>sc_idleMask := 3, sc_timekeeper := Some 0\<rparr>"

section \<open>Properties\<close>

text \<open>C20: from construction on, however workers take turns, steal, idle, sleep, wake up and maintain, and
  tasks are spawned, yield, park, are woken, pinned and finish, and are reaped once the scheduler is stopped, every
  task that can run is in exactly one place exactly once (running, in a LIFO slot, a run queue, an inbox, a gathered
  batch, the injection queue, or in the hands of a post-switch hook or a reaper), no other task is anywhere, and the
  injection queue never holds more than its capacity.\<close>

theorem every_runnable_task_once:
  assumes "newSystem new_bwos hardware capacity opts S" "(sched_step bwos_ops)\<^sup>*\<^sup>* S S'"
  shows "count (all_tasks bwos_contents (sy_core S')) t + (if t \<in> sys_hands (sy_hook S') then 1 else 0)
      = (if runnable (sy_core S') t then 1 else 0) \<and> sc_fatal (sy_core S') = None"
proof -
  have inv: "sys_inv bwos_contents bwos_inv S'" by (rule bwos_sched.reachable_inv [OF assms])
  have "t \<in> sys_hands (sy_hook S') \<Longrightarrow> runnable (sy_core S') t" using sys_invD(2) [OF inv] by (auto simp: sys_hands_def)
  then show ?thesis using sys_invD(1) [OF inv] by (simp add: sys_ok_def counts_ok_def)
qed

theorem every_runnable_task_once_witness:
  "newSystem new_bwos 4 131072 demo_options demo_new \<and> (sched_step bwos_ops)\<^sup>*\<^sup>* demo_new demo_spawned
    \<and> count (all_tasks bwos_contents (sy_core demo_spawned)) 5 = 1 \<and> count (all_tasks bwos_contents (sy_core demo_spawned)) 5 \<le> 1
    \<and> sc_fatal (sy_core demo_spawned) = None"
  using every_runnable_task_once [OF demo_new r_into_rtranclp [of "sched_step bwos_ops", OF demo_spawn], of 5] demo_new
    r_into_rtranclp [of "sched_step bwos_ops", OF demo_spawn] demo_runnable by (simp add: sys_hands_def)

text \<open>C21: a pinned task is only ever on its own worker: in every reachable state it is in no container other workers
  take from and waits only in its worker's inbox, and until \<^verbatim>\<open>stop\<close> has woken the parked tasks it runs only
  there.  (After that the reaper of any worker may claim a parked task and run it to unwind it, pinned or
  not.)  This holds for the ring as run queue as well.\<close>

theorem pinned_task_stays:
  assumes "newSystem new_ring hardware capacity opts S" "(sched_step ring_ops)\<^sup>*\<^sup>* S S'" "tk_pinnedTo (sc_tasks (sy_core S') t) = Some v"
  shows "v < length (sc_workers (sy_core S')) \<and> t \<notin># free_tasks ring_contents (sy_core S')
    \<and> (\<forall>w<length (sc_workers (sy_core S')). w \<noteq> v \<longrightarrow> t \<notin> set (wk_pinnedInbox (wkr (sy_core S') w))
        \<and> (wk_current (wkr (sy_core S') w) = Some t \<longrightarrow> sc_parkedWoken (sy_core S')))"
proof -
  have "sys_inv ring_contents ring_inv S'" by (rule ring_sched.reachable_inv [OF assms(1,2)])
  then have pv: "pins_valid ring_contents (sy_core S')" using sys_invD(1) sys_pins by blast
  have "t \<notin> set (wk_pinnedInbox (wkr (sy_core S') w)) \<and> (wk_current (wkr (sy_core S') w) = Some t \<longrightarrow> sc_parkedWoken (sy_core S'))"
    if "w < length (sc_workers (sy_core S'))" "w \<noteq> v" for w
    using inbox_pinned [OF pv that(1), of t] current_pinned [OF pv that(1), of t v] assms(3) that by (auto simp: inboxes_def currents_def)
  then show ?thesis using pinned_in_range [OF pv assms(3)] free_unpinned [OF pv, of t] assms(3) by auto
qed

theorem pinned_task_stays_witness:
  "newSystem new_ring 4 131072 demo_options demo_ring \<and> (sched_step ring_ops)\<^sup>*\<^sup>* demo_ring demo_pinned
    \<and> tk_pinnedTo (sc_tasks (sy_core demo_pinned) 5) = Some 0 \<and> 5 \<notin># free_tasks ring_contents (sy_core demo_pinned)
    \<and> wk_current (wkr (sy_core demo_pinned) 0) = Some 5 \<and> wk_current (wkr (sy_core demo_pinned) 1) \<noteq> Some 5"
  using pinned_task_stays [OF demo_ring demo_pinned(1,2)] demo_ring demo_pinned by simp

text \<open>C22: with entries in the run queue, at most three of four consecutive picks of a worker come from the
  LIFO slot, however often it is refilled in between: one of the four pops the run queue.\<close>

theorem lifo_slot_is_capped:
  assumes "\<And>i. i < 4 \<Longrightarrow> w < length (sc_workers (s i)) \<and> lq_hasEntries Q (wk_local (wkr (s i) w))"
    and "\<And>i. i < 3 \<Longrightarrow> wk_lifoStreak (wkr (s (Suc i)) w) = wk_lifoStreak (wkr (snd (takeLocal Q (s i) w)) w)"
  shows "\<exists>i<4. \<forall>x. fst (lq_pop Q (wk_local (wkr (s i) w))) = Some x \<longrightarrow> fst (takeLocal Q (s i) w) = Some x"
proof (rule ccontr)
  assume "\<not> ?thesis"
  then have no: "\<And>i. i < 4 \<Longrightarrow> \<exists>x. fst (lq_pop Q (wk_local (wkr (s i) w))) = Some x \<and> fst (takeLocal Q (s i) w) \<noteq> Some x" by blast
  have lifo: "wk_lifoStreak (wkr (s i) w) < 3 \<and> wk_lifoStreak (wkr (snd (takeLocal Q (s i) w)) w) = Suc (wk_lifoStreak (wkr (s i) w))" if "i < 4" for i
    using no [OF that] assms(1) [OF that]
    by (cases "lq_pop Q (wk_local (wkr (s i) w))") (auto simp: takeLocal_def Let_def kLifoCap_def wkr_updW split: if_splits option.splits list.splits)
  have "wk_lifoStreak (wkr (s (Suc i)) w) = Suc (wk_lifoStreak (wkr (s i) w))" if "i < 3" for i
    using assms(2) [OF that] lifo [of i] that by simp
  from this [of 0] this [of 1] this [of 2] have "wk_lifoStreak (wkr (s 3) w) = wk_lifoStreak (wkr (s 0) w) + 3"
    by (simp add: numeral_2_eq_2 numeral_3_eq_3)
  with lifo [of 3] show False by simp
qed

theorem lifo_slot_is_capped_witness:
  "\<exists>i<4. fst (takeLocal ring_ops (demo_lifo i) 0) = Some 9"
proof -
  have q: "lq_hasEntries ring_ops demo_local" "fst (lq_pop ring_ops demo_local) = Some 9"
    by (simp_all add: ring_ops_def demo_local_def ring_hasEntries_def ring_pop_def ring_slot_def ring_kMask_def Let_def)
  have "\<exists>i<4. \<forall>x. fst (lq_pop ring_ops (wk_local (wkr (demo_lifo i) 0))) = Some x \<longrightarrow> fst (takeLocal ring_ops (demo_lifo i) 0) = Some x"
  proof (rule lifo_slot_is_capped)
    fix i :: nat assume "i < 3"
    then show "wk_lifoStreak (wkr (demo_lifo (Suc i)) 0) = wk_lifoStreak (wkr (snd (takeLocal ring_ops (demo_lifo i) 0)) 0)"
      by (simp add: demo_lifo_def takeLocal_def kLifoCap_def updW_def)
  qed (simp add: demo_lifo_def q newWorker_frame)
  then show ?thesis using q by (simp add: demo_lifo_def newWorker_frame)
qed

text \<open>waking an idle worker: while somebody searches or nobody is idle nothing changes; otherwise exactly
  one idle worker leaves the mask and gets a token, and it is the timekeeper only if no other worker is
  idle.\<close>

theorem notifyIdleWorker_picks_one:
  assumes idle: "\<And>i. bit (sc_idleMask s) i \<Longrightarrow> i < length (sc_workers s)"
  shows "if sc_searching s > 0 \<or> sc_idleMask s = 0 then notifyIdleWorker me s = s
    else \<exists>w. bit (sc_idleMask s) w \<and> (\<forall>i. bit (sc_idleMask (notifyIdleWorker me s)) i = (bit (sc_idleMask s) i \<and> i \<noteq> w))
      \<and> wk_token (wkr (notifyIdleWorker me s) w) \<and> (\<forall>v. v \<noteq> w \<longrightarrow> wkr (notifyIdleWorker me s) v = wkr s v)
      \<and> (sc_timekeeper s = Some w \<longrightarrow> (\<forall>i. bit (sc_idleMask s) i \<longrightarrow> i = w))"
proof (cases "sc_searching s > 0 \<or> sc_idleMask s = 0")
  case True
  then show ?thesis by (auto simp: notifyIdleWorker_def)
next
  case False
  let ?m = "sc_idleMask s"
  define c where "c = (case sc_timekeeper s of None \<Rightarrow> ?m | Some keeper \<Rightarrow> if (?m AND NOT (wbit keeper)) \<noteq> 0 then ?m AND NOT (wbit keeper) else ?m)"
  define w where "w = ctz c"
  have c0: "c \<noteq> 0" using False by (auto simp: c_def split: option.splits)
  then have cw: "bit c w" unfolding w_def by (rule ctz_bit)
  have sub: "bit c i \<Longrightarrow> bit ?m i" for i by (auto simp: c_def bit_clear split: option.splits if_splits)
  have mw: "bit ?m w" by (rule sub [OF cw])
  define s1 where "s1 = s\<lparr>sc_idleMask := ?m AND NOT (wbit w)\<rparr>"
  have w1: "w < length (sc_workers s1)" using idle [OF mw] by (simp add: s1_def)
  have eq: "notifyIdleWorker me s = handOffTo me s1 w"
    using False unfolding notifyIdleWorker_def Let_def c_def [symmetric] w_def [symmetric] s1_def by simp
  have "i = w" if "sc_timekeeper s = Some w" "bit ?m i" for i
  proof (rule ccontr)
    assume "i \<noteq> w"
    then have "bit (?m AND NOT (wbit w)) i" using that(2) by (simp add: bit_clear)
    then have "?m AND NOT (wbit w) \<noteq> 0" by (metis bit_0_eq bot_apply bot_bool_def)
    then have "c = ?m AND NOT (wbit w)" using that(1) by (simp add: c_def)
    then show False using cw by (simp add: bit_clear)
  qed
  then show ?thesis using False mw handOff_frame [OF w1, where me = me] unfolding eq by (auto simp: s1_def bit_clear)
qed

theorem notifyIdleWorker_picks_one_witness:
  "\<exists>w. bit (3 :: u64) w \<and> w \<noteq> 0 \<and> wk_token (wkr (notifyIdleWorker None demo_idle) w)"
proof -
  have b: "bit (3 :: u64) i \<longleftrightarrow> i < 2" for i
  proof -
    have "bit (mask 2 :: u64) i \<longleftrightarrow> i < 2" by (auto simp del: mask_numeral simp: bit_mask_iff)
    then show ?thesis by (simp add: mask_eq_exp_minus_1)
  qed
  have s: "sc_idleMask demo_idle = 3" "sc_searching demo_idle = 0" "sc_timekeeper demo_idle = Some 0" "length (sc_workers demo_idle) = 2"
    by (simp_all add: demo_idle_def initialCore_def demo_options_def resolveWorkerCount_def kMaxWorkers_def)
  have "\<And>i. bit (sc_idleMask demo_idle) i \<Longrightarrow> i < length (sc_workers demo_idle)" unfolding s b .
  from notifyIdleWorker_picks_one [OF this, of None] obtain w where
    w: "bit (3 :: u64) w" "wk_token (wkr (notifyIdleWorker None demo_idle) w)" "w = 0 \<longrightarrow> (\<forall>i. bit (3 :: u64) i \<longrightarrow> i = w)"
    using s by auto
  have "w \<noteq> 0" using w(3) unfolding b by (auto dest: spec [of _ 1])
  with w(1,2) show ?thesis by blast
qed

end
