(* ===== verification/Mpsc_Queue.thy ===== *)
theory Mpsc_Queue
  imports Step_System
begin

text \<open>
  \<^verbatim>\<open>sched/detail/MpscQueue.h\<close>, the intrusive queue behind a worker's pinned inbox: first the operations
  as they run alone, then producers and the one consumer access by access.  A producer publishes a
  node with an exchange on the head and links it with a later store, so the chain may have gaps.
\<close>

section \<open>The operations\<close>

datatype mnode = Stub | Item nat

record mpsc =
  mq_next :: "mnode \<Rightarrow> mnode option"
  mq_head :: mnode
  mq_tail :: mnode

definition mpsc_new :: "(mnode \<Rightarrow> mnode option) \<Rightarrow> mpsc" where
  "mpsc_new nx = \<lparr>mq_next = nx(Stub := None), mq_head = Stub, mq_tail = Stub\<rparr>"

definition mpsc_publish :: "mpsc \<Rightarrow> mnode \<Rightarrow> mnode \<times> mpsc" where
  "mpsc_publish q n = (mq_head q, q\<lparr>mq_next := (mq_next q)(n := None), mq_head := n\<rparr>)"

definition mpsc_link :: "mpsc \<Rightarrow> mnode \<Rightarrow> mnode \<Rightarrow> mpsc" where
  "mpsc_link q previous n = q\<lparr>mq_next := (mq_next q)(previous := Some n)\<rparr>"

definition mpsc_push :: "mpsc \<Rightarrow> mnode \<Rightarrow> mpsc" where
  "mpsc_push q n = (case mpsc_publish q n of (previous, q') \<Rightarrow> mpsc_link q' previous n)"

text \<open>\<^verbatim>\<open>pop\<close> once the stub is skipped: \<open>front\<close> is the tail and \<open>nextn\<close> what its \<^verbatim>\<open>mpscNext\<close> held.\<close>

definition mpsc_take :: "mpsc \<Rightarrow> mnode \<Rightarrow> mnode option \<Rightarrow> mnode option \<times> mpsc" where
  "mpsc_take q front nextn =
     (case nextn of
        Some n \<Rightarrow> (Some front, q\<lparr>mq_tail := n\<rparr>)
      | None \<Rightarrow>
          if front \<noteq> mq_head q then (None, q)
          else let q1 = mpsc_push q Stub in
            (case mq_next q1 front of
               Some n \<Rightarrow> (Some front, q1\<lparr>mq_tail := n\<rparr>)
             | None \<Rightarrow> (None, q1)))"

definition mpsc_pop :: "mpsc \<Rightarrow> mnode option \<times> mpsc" where
  "mpsc_pop q =
     (let front = mq_tail q; nextn = mq_next q front in
      if front = Stub then
        (case nextn of
           None \<Rightarrow> (None, q)
         | Some n \<Rightarrow> mpsc_take (q\<lparr>mq_tail := n\<rparr>) n (mq_next q n))
      else mpsc_take q front nextn)"

definition mpsc_isEmpty :: "mpsc \<Rightarrow> bool" where
  "mpsc_isEmpty q \<longleftrightarrow> mq_tail q = Stub \<and> mq_next q Stub = None"

section \<open>Interleaving\<close>

text \<open>The consumer between two accesses of \<^verbatim>\<open>pop\<close>: about to load the next pointer of the node behind the
  stub, to compare with the head, to publish the stub, to link it, and to look at its front again.\<close>

datatype consumer_pc = CIdle | CSecond mnode | CHead mnode | CStub mnode | CLink mnode mnode | CLast mnode

text \<open>\<open>ms_unlinked\<close> are the published nodes whose link is not stored yet, each with the \<^verbatim>\<open>previous\<close> its
  producer holds.\<close>

record mpsc_sys =
  ms_queue :: mpsc
  ms_pc :: consumer_pc
  ms_unlinked :: "(mnode \<times> mnode) set"
  ms_in :: "nat list"
  ms_out :: "nat list"

definition mpsc_deliver :: "mpsc_sys \<Rightarrow> mnode \<Rightarrow> mnode \<Rightarrow> mpsc_sys" where
  "mpsc_deliver s front n =
     s\<lparr>ms_queue := (ms_queue s)\<lparr>mq_tail := n\<rparr>, ms_pc := CIdle,
       ms_out := ms_out s @ (case front of Stub \<Rightarrow> [] | Item t \<Rightarrow> [t])\<rparr>"

text \<open>A node is pushed again only after it was popped.\<close>

inductive mpsc_step :: "mpsc_sys \<Rightarrow> mpsc_sys \<Rightarrow> bool" where
  Publish: "count_list (ms_in s) t = count_list (ms_out s) t \<Longrightarrow> mpsc_publish (ms_queue s) (Item t) = (previous, q) \<Longrightarrow>
    mpsc_step s (s\<lparr>ms_queue := q, ms_unlinked := insert (previous, Item t) (ms_unlinked s), ms_in := ms_in s @ [t]\<rparr>)"
| Link: "(previous, Item t) \<in> ms_unlinked s \<Longrightarrow>
    mpsc_step s (s\<lparr>ms_queue := mpsc_link (ms_queue s) previous (Item t), ms_unlinked := ms_unlinked s - {(previous, Item t)}\<rparr>)"
| PopStubEmpty: "ms_pc s = CIdle \<Longrightarrow> mq_tail (ms_queue s) = Stub \<Longrightarrow> mq_next (ms_queue s) Stub = None \<Longrightarrow> mpsc_step s s"
| PopStub: "ms_pc s = CIdle \<Longrightarrow> mq_tail (ms_queue s) = Stub \<Longrightarrow> mq_next (ms_queue s) Stub = Some n \<Longrightarrow>
    mpsc_step s (s\<lparr>ms_queue := (ms_queue s)\<lparr>mq_tail := n\<rparr>, ms_pc := CSecond n\<rparr>)"
| PopItem: "ms_pc s = CIdle \<Longrightarrow> mq_tail (ms_queue s) \<noteq> Stub \<Longrightarrow> mq_next (ms_queue s) (mq_tail (ms_queue s)) = Some n \<Longrightarrow>
    mpsc_step s (mpsc_deliver s (mq_tail (ms_queue s)) n)"
| PopItemLast: "ms_pc s = CIdle \<Longrightarrow> mq_tail (ms_queue s) \<noteq> Stub \<Longrightarrow> mq_next (ms_queue s) (mq_tail (ms_queue s)) = None \<Longrightarrow>
    mpsc_step s (s\<lparr>ms_pc := CHead (mq_tail (ms_queue s))\<rparr>)"
| Second: "ms_pc s = CSecond front \<Longrightarrow> mq_next (ms_queue s) front = Some n \<Longrightarrow> mpsc_step s (mpsc_deliver s front n)"
| SecondLast: "ms_pc s = CSecond front \<Longrightarrow> mq_next (ms_queue s) front = None \<Longrightarrow> mpsc_step s (s\<lparr>ms_pc := CHead front\<rparr>)"
| HeadMoved: "ms_pc s = CHead front \<Longrightarrow> front \<noteq> mq_head (ms_queue s) \<Longrightarrow> mpsc_step s (s\<lparr>ms_pc := CIdle\<rparr>)"
| HeadSame: "ms_pc s = CHead front \<Longrightarrow> front = mq_head (ms_queue s) \<Longrightarrow> mpsc_step s (s\<lparr>ms_pc := CStub front\<rparr>)"
| PublishStub: "ms_pc s = CStub front \<Longrightarrow> mpsc_publish (ms_queue s) Stub = (previous, q) \<Longrightarrow>
    mpsc_step s (s\<lparr>ms_queue := q, ms_pc := CLink front previous, ms_unlinked := insert (previous, Stub) (ms_unlinked s)\<rparr>)"
| LinkStub: "ms_pc s = CLink front previous \<Longrightarrow>
    mpsc_step s (s\<lparr>ms_queue := mpsc_link (ms_queue s) previous Stub, ms_pc := CLast front, ms_unlinked := ms_unlinked s - {(previous, Stub)}\<rparr>)"
| Last: "ms_pc s = CLast front \<Longrightarrow> mq_next (ms_queue s) front = Some n \<Longrightarrow> mpsc_step s (mpsc_deliver s front n)"
| LastMissing: "ms_pc s = CLast front \<Longrightarrow> mq_next (ms_queue s) front = None \<Longrightarrow> mpsc_step s (s\<lparr>ms_pc := CIdle\<rparr>)"

definition mpsc_init :: "mpsc_sys \<Rightarrow> bool" where
  "mpsc_init s \<longleftrightarrow> (\<exists>nx. s = \<lparr>ms_queue = mpsc_new nx, ms_pc = CIdle, ms_unlinked = {}, ms_in = [], ms_out = []\<rparr>)"

section \<open>The chain\<close>

text \<open>The nodes from the tail to the head in the order they were published: each points to its successor
  or its successor's link is still to be stored.\<close>

fun linked :: "(mnode \<Rightarrow> mnode option) \<Rightarrow> (mnode \<times> mnode) set \<Rightarrow> mnode list \<Rightarrow> bool" where
  "linked nx U [] \<longleftrightarrow> False"
| "linked nx U [x] \<longleftrightarrow> nx x = None \<and> x \<notin> fst ` U"
| "linked nx U (x # y # zs) \<longleftrightarrow>
     (if x \<in> fst ` U then nx x = None \<and> (x, y) \<in> U else nx x = Some y) \<and> linked nx U (y # zs)"

definition chain :: "mpsc \<Rightarrow> (mnode \<times> mnode) set \<Rightarrow> mnode list \<Rightarrow> bool" where
  "chain q U L \<longleftrightarrow> linked (mq_next q) U L \<and> distinct L \<and> hd L = mq_tail q \<and> last L = mq_head q
     \<and> fst ` U \<subseteq> set L \<and> inj_on fst U"

fun items :: "mnode list \<Rightarrow> nat list" where
  "items [] = []"
| "items (Stub # ns) = items ns"
| "items (Item t # ns) = t # items ns"

lemma items_append [simp]: "items (xs @ ys) = items xs @ items ys"
  by (induction xs rule: items.induct) auto

lemma set_items: "t \<in> set (items xs) \<longleftrightarrow> Item t \<in> set xs"
  by (induction xs rule: items.induct) auto

lemma linked_cong:
  "linked nx U L \<Longrightarrow> (\<And>x. x \<in> set L \<Longrightarrow> nx' x = nx x) \<Longrightarrow> (\<And>x y. x \<in> set L \<Longrightarrow> (x, y) \<in> U' \<longleftrightarrow> (x, y) \<in> U) \<Longrightarrow> linked nx' U' L"
proof (induction nx U L rule: linked.induct)
  case (2 nx U x)
  then show ?case by force
next
  case (3 nx U x y zs)
  have "x \<in> fst ` U' \<longleftrightarrow> x \<in> fst ` U" using "3.prems"(3) [of x] by force
  moreover have "linked nx' U' (y # zs)" using 3 by (auto split: if_splits)
  ultimately show ?case using "3.prems" by (auto split: if_splits)
qed auto

lemma linked_snoc:
  "linked nx U L \<Longrightarrow> n \<notin> set L \<Longrightarrow> n \<notin> fst ` U \<Longrightarrow> distinct L \<Longrightarrow> linked (nx(n := None)) (insert (last L, n) U) (L @ [n])"
  by (induction nx U L rule: linked.induct) (auto split: if_splits)

lemma linked_link:
  "linked nx U L \<Longrightarrow> distinct L \<Longrightarrow> inj_on fst U \<Longrightarrow> (a, b) \<in> U \<Longrightarrow> linked (nx(a := Some b)) (U - {(a, b)}) L"
proof (induction nx U L rule: linked.induct)
  case (2 nx U x)
  then show ?case by force
next
  case (3 nx U x y zs)
  have tl: "linked (nx(a := Some b)) (U - {(a, b)}) (y # zs)" by (rule "3.IH") (use "3.prems" in auto)
  have only: "(a, z) \<in> U \<Longrightarrow> z = b" for z using inj_onD [OF "3.prems"(3), of "(a, z)" "(a, b)"] "3.prems"(4) by simp
  then have "a \<notin> fst ` (U - {(a, b)})" by auto
  moreover have "x \<noteq> a \<Longrightarrow> x \<in> fst ` (U - {(a, b)}) \<longleftrightarrow> x \<in> fst ` U" by force
  moreover have "a \<in> fst ` U" using "3.prems"(4) by force
  moreover have "if x \<in> fst ` U then nx x = None \<and> (x, y) \<in> U else nx x = Some y" using "3.prems"(1) by simp
  ultimately have "if x \<in> fst ` (U - {(a, b)}) then (nx(a := Some b)) x = None \<and> (x, y) \<in> U - {(a, b)} else (nx(a := Some b)) x = Some y"
    using only [of y] by (cases "x = a") auto
  with tl show ?case by (simp del: fun_upd_apply)
qed auto

lemma linked_last: "linked nx U L \<Longrightarrow> last L \<notin> fst ` U"
  by (induction nx U L rule: linked.induct) auto

lemma chain_nonempty: "chain q U L \<Longrightarrow> L \<noteq> []"
  by (auto simp: chain_def)

lemma chain_publish:
  assumes "chain q U L" "n \<notin> set L" "mpsc_publish q n = (previous, q')"
  shows "chain q' (insert (previous, n) U) (L @ [n])" "previous = last L"
proof -
  have ne: "L \<noteq> []" using assms(1) by (rule chain_nonempty)
  show p: "previous = last L" using assms by (auto simp: mpsc_publish_def chain_def)
  have "last L \<in> set L" using ne by simp
  moreover have "last L \<notin> fst ` U" using assms(1) linked_last unfolding chain_def by blast
  moreover have n: "n \<notin> fst ` U" using assms(1,2) by (auto simp: chain_def)
  moreover have "linked ((mq_next q)(n := None)) (insert (last L, n) U) (L @ [n])"
    using linked_snoc [OF _ assms(2) n] assms(1) by (simp add: chain_def)
  ultimately show "chain q' (insert (previous, n) U) (L @ [n])"
    using assms ne unfolding p chain_def mpsc_publish_def by (auto simp: image_iff)
qed

lemma chain_link:
  assumes "chain q U L" "(a, b) \<in> U"
  shows "chain (mpsc_link q a b) (U - {(a, b)}) L"
  using assms linked_link [of "mq_next q" U L a b] unfolding chain_def mpsc_link_def by (auto intro: inj_on_subset)

lemma chain_take:
  assumes "chain q U L" "mq_next q (mq_tail q) = Some n"
  obtains zs where "L = mq_tail q # n # zs" "chain (q\<lparr>mq_tail := n\<rparr>) U (n # zs)"
proof -
  from assms obtain zs where L: "L = mq_tail q # n # zs" 
    by (cases "(mq_next q, U, L)" rule: linked.cases) (auto simp: chain_def split: if_splits)
  then have "mq_tail q \<notin> fst ` U" using assms by (auto simp: chain_def split: if_splits)
  moreover from this have "fst ` U \<subseteq> set (n # zs)" using assms L unfolding chain_def by (auto 0 3 simp: subset_iff image_iff)
  ultimately have "chain (q\<lparr>mq_tail := n\<rparr>) U (n # zs)" using assms L by (simp add: chain_def)
  with L show thesis by (rule that)
qed

section \<open>The invariant\<close>

fun pc_ok :: "consumer_pc \<Rightarrow> mnode list \<Rightarrow> (mnode \<times> mnode) set \<Rightarrow> bool" where
  "pc_ok CIdle L U \<longleftrightarrow> True"
| "pc_ok (CSecond f) L U \<longleftrightarrow> f = hd L \<and> Stub \<notin> set L"
| "pc_ok (CHead f) L U \<longleftrightarrow> f = hd L \<and> f \<noteq> Stub"
| "pc_ok (CStub f) L U \<longleftrightarrow> f = hd L \<and> Stub \<notin> set L"
| "pc_ok (CLink f p) L U \<longleftrightarrow> f = hd L \<and> f \<noteq> Stub \<and> (p, Stub) \<in> U"
| "pc_ok (CLast f) L U \<longleftrightarrow> f = hd L \<and> f \<noteq> Stub"

definition mpsc_inv :: "mpsc_sys \<Rightarrow> bool" where
  "mpsc_inv s \<longleftrightarrow> (\<exists>L. chain (ms_queue s) (ms_unlinked s) L \<and> ms_in s = ms_out s @ items L \<and> pc_ok (ms_pc s) L (ms_unlinked s))"

lemma mpsc_invI:
  "chain (ms_queue s) (ms_unlinked s) L \<Longrightarrow> ms_in s = ms_out s @ items L \<Longrightarrow> pc_ok (ms_pc s) L (ms_unlinked s) \<Longrightarrow> mpsc_inv s"
  by (auto simp: mpsc_inv_def)

lemma pc_ok_append: "pc_ok pc L U \<Longrightarrow> L \<noteq> [] \<Longrightarrow> n \<noteq> Stub \<Longrightarrow> pc_ok pc (L @ [n]) (insert (p, n) U)"
  by (cases pc) auto

lemma pc_ok_link: "pc_ok pc L U \<Longrightarrow> b \<noteq> Stub \<Longrightarrow> pc_ok pc L (U - {(a, b)})"
  by (cases pc) auto

lemma deliver_inv:
  assumes "chain (ms_queue s) (ms_unlinked s) L" "ms_in s = ms_out s @ items L" "hd L = f" "mq_next (ms_queue s) f = Some n"
  shows "mpsc_inv (mpsc_deliver s f n)"
proof -
  have f: "f = mq_tail (ms_queue s)" using assms by (simp add: chain_def)
  from chain_take [OF assms(1) assms(4) [unfolded f]] obtain zs where
    zs: "L = mq_tail (ms_queue s) # n # zs" "chain ((ms_queue s)\<lparr>mq_tail := n\<rparr>) (ms_unlinked s) (n # zs)" .
  show ?thesis
    by (rule mpsc_invI [of _ "n # zs"]) (use zs assms(2) f in \<open>auto simp: mpsc_deliver_def split: mnode.splits\<close>)
qed

lemma mpsc_step_inv:
  assumes inv: "mpsc_inv s" and step: "mpsc_step s s'"
  shows "mpsc_inv s'"
proof -
  from inv obtain L where c: "chain (ms_queue s) (ms_unlinked s) L" and io: "ms_in s = ms_out s @ items L"
    and pc: "pc_ok (ms_pc s) L (ms_unlinked s)" by (auto simp: mpsc_inv_def)
  have ne: "L \<noteq> []" and tail: "hd L = mq_tail (ms_queue s)" "last L = mq_head (ms_queue s)" using c chain_nonempty by (auto simp: chain_def)
  show ?thesis using step
  proof cases
    case (Publish t previous q)
    have "count_list (items L) t = 0" using Publish(2) io by simp
    then have "Item t \<notin> set L" by (simp add: count_list_0_iff set_items)
    from chain_publish [OF c this Publish(3)] show ?thesis using Publish io pc ne by (intro mpsc_invI [of _ "L @ [Item t]"]) (auto intro: pc_ok_append)
  next
    case (Link previous t)
    then show ?thesis using chain_link [OF c] io pc by (intro mpsc_invI [of _ L]) (auto intro: pc_ok_link)
  next
    case (PopStub n)
    from chain_take [OF c] PopStub obtain zs where "L = Stub # n # zs" "chain ((ms_queue s)\<lparr>mq_tail := n\<rparr>) (ms_unlinked s) (n # zs)" by metis
    then show ?thesis using PopStub io c by (intro mpsc_invI [of _ "n # zs"]) (auto simp: chain_def)
  next
    case (PublishStub front previous q)
    then have "Stub \<notin> set L" "hd L = front" using pc by auto
    from chain_publish [OF c this(1) PublishStub(3)] this show ?thesis
      using PublishStub io ne by (intro mpsc_invI [of _ "L @ [Stub]"]) (auto dest: hd_in_set)
  next
    case (LinkStub front previous)
    then show ?thesis using chain_link [OF c, of previous Stub] io pc by (intro mpsc_invI [of _ L]) auto
  next
    case (HeadSame front)
    then have "last L = hd L" using pc tail by simp
    then have "L = [front]" using HeadSame pc c ne by (cases L) (auto simp: chain_def dest: last_in_set split: if_splits)
    then show ?thesis using HeadSame c io pc by (intro mpsc_invI [of _ L]) auto
  next
    case (PopItemLast)
    then show ?thesis using c io pc tail by (intro mpsc_invI [of _ L]) auto
  next
    case (SecondLast front)
    then show ?thesis using c io pc tail ne by (intro mpsc_invI [of _ L]) (auto dest: hd_in_set)
  next
    case (HeadMoved front)
    then show ?thesis using c io by (intro mpsc_invI [of _ L]) auto
  next
    case (LastMissing front)
    then show ?thesis using c io by (intro mpsc_invI [of _ L]) auto
  next
    case (PopItem n)
    then show ?thesis using deliver_inv [OF c io tail(1)] by simp
  next
    case (Second front n)
    then show ?thesis using deliver_inv [OF c io] pc by simp
  next
    case (Last front n)
    then show ?thesis using deliver_inv [OF c io] pc by simp
  qed (use inv in simp)
qed

lemma mpsc_init_inv: "mpsc_init s \<Longrightarrow> mpsc_inv s"
  by (auto simp: mpsc_init_def mpsc_new_def chain_def intro!: mpsc_invI [of _ "[Stub]"])

interpretation mpsc_threads: step_system mpsc_init mpsc_step mpsc_inv
  by unfold_locales (fact mpsc_init_inv, fact mpsc_step_inv)

section \<open>An operation that runs alone\<close>

lemma chain_push: "chain q {} L \<Longrightarrow> n \<notin> set L \<Longrightarrow> chain (mpsc_push q n) {} (L @ [n])"
  using chain_publish [of q "{}" L n] chain_link [of _ "{(last L, n)}" "L @ [n]" "last L" n]
  by (fastforce simp: mpsc_push_def split: prod.splits)

lemma chain_two: "chain q {} (f # n # zs) \<Longrightarrow> mq_tail q = f \<and> mq_next q f = Some n \<and> chain (q\<lparr>mq_tail := n\<rparr>) {} (n # zs)"
  by (auto simp: chain_def)

lemma take_alone:
  assumes "chain q {} L" "Item t = hd L" "Stub \<notin> set L \<or> tl L \<noteq> []" "mpsc_take q (Item t) (mq_next q (Item t)) = (r, q')"
  shows "r = Some (Item t) \<and> (\<exists>L'. chain q' {} L' \<and> items L = t # items L')"
proof (cases "tl L")
  case (Cons n zs)
  then have L: "L = Item t # n # zs" using assms(2) by (cases L) auto
  then have "mq_next q (Item t) = Some n" "chain (q\<lparr>mq_tail := n\<rparr>) {} (n # zs)" using chain_two assms(1) by auto
  then show ?thesis using assms(4) L by (auto simp: mpsc_take_def)
next
  case Nil
  then have L: "L = [Item t]" using assms(1,2) chain_nonempty by (cases L) auto
  then have "mq_next q (Item t) = None" "mq_head q = Item t" using assms(1) by (auto simp: chain_def)
  moreover have p: "chain (mpsc_push q Stub) {} [Item t, Stub]" using chain_push [OF assms(1), of Stub] L by simp
  ultimately show ?thesis using assms(4) chain_two [OF p] L by (auto simp: mpsc_take_def Let_def)
qed

lemma pop_alone:
  assumes "chain q {} L" "mpsc_pop q = (r, q')"
  shows "r = (case items L of [] \<Rightarrow> None | t # ts \<Rightarrow> Some (Item t)) \<and> (\<exists>L'. chain q' {} L' \<and> items L' = tl (items L))"
proof (cases L)
  case Nil
  then show ?thesis using assms(1) chain_nonempty by blast
next
  case (Cons f zs)
  then have f: "mq_tail q = f" using assms(1) by (simp add: chain_def)
  show ?thesis
  proof (cases f)
    case (Item t)
    have "zs = [] \<Longrightarrow> Stub \<notin> set L" using Cons Item by simp
    then have "r = Some (Item t) \<and> (\<exists>L'. chain q' {} L' \<and> items L = t # items L')"
      using assms Cons Item f by (intro take_alone [OF assms(1)]) (auto simp: mpsc_pop_def Let_def)
    then show ?thesis using Cons Item by auto
  next
    case Stub
    show ?thesis
    proof (cases zs)
      case Nil
      then have "mq_next q Stub = None" using assms(1) Cons Stub by (simp add: chain_def)
      then show ?thesis using assms Cons Stub Nil f by (auto simp: mpsc_pop_def)
    next
      case (Cons n ys)
      then have L: "L = Stub # n # ys" using \<open>L = f # zs\<close> Stub by simp
      then have two: "mq_next q Stub = Some n" "chain (q\<lparr>mq_tail := n\<rparr>) {} (n # ys)" using chain_two assms(1) by auto
      have d: "Stub \<notin> set (n # ys)" using assms(1) L by (simp add: chain_def)
      then obtain t where t: "n = Item t" by (cases n) auto
      have "mpsc_take (q\<lparr>mq_tail := n\<rparr>) n (mq_next q n) = (r, q')" using assms(2) f Stub two by (simp add: mpsc_pop_def)
      then have "r = Some (Item t) \<and> (\<exists>L'. chain q' {} L' \<and> items (n # ys) = t # items L')"
        using two d t by (intro take_alone [OF two(2)]) auto
      then show ?thesis using L t by auto
    qed
  qed
qed

lemma isEmpty_alone:
  assumes "chain q {} L"
  shows "mpsc_isEmpty q \<longleftrightarrow> items L = []"
proof (cases "(mq_next q, {} :: (mnode \<times> mnode) set, L)" rule: linked.cases)
  case (2 nx U x)
  then have "mq_tail q = x" "mq_next q x = None" "L = [x]" using assms by (auto simp: chain_def)
  then show ?thesis by (cases x) (auto simp: mpsc_isEmpty_def)
next
  case (3 nx U x y zs)
  then have "mq_tail q = x" "mq_next q x = Some y" "L = x # y # zs" "x \<noteq> y" using assms by (auto simp: chain_def)
  then show ?thesis by (cases x; cases y) (auto simp: mpsc_isEmpty_def)
qed (use assms in \<open>simp add: chain_def\<close>)

text \<open>Whole operations in a row, on the queue and on a list.\<close>

datatype mpsc_op = MPush nat | MPop

fun mpsc_run :: "mpsc_op list \<Rightarrow> mpsc \<Rightarrow> mnode option list" where
  "mpsc_run [] q = []"
| "mpsc_run (MPush t # ops) q = mpsc_run ops (mpsc_push q (Item t))"
| "mpsc_run (MPop # ops) q = (case mpsc_pop q of (r, q') \<Rightarrow> r # mpsc_run ops q')"

fun fifo_run :: "mpsc_op list \<Rightarrow> nat list \<Rightarrow> mnode option list" where
  "fifo_run [] xs = []"
| "fifo_run (MPush t # ops) xs = fifo_run ops (xs @ [t])"
| "fifo_run (MPop # ops) [] = None # fifo_run ops []"
| "fifo_run (MPop # ops) (x # xs) = Some (Item x) # fifo_run ops xs"

fun fifo_fresh :: "mpsc_op list \<Rightarrow> nat list \<Rightarrow> bool" where
  "fifo_fresh [] xs \<longleftrightarrow> True"
| "fifo_fresh (MPush t # ops) xs \<longleftrightarrow> t \<notin> set xs \<and> fifo_fresh ops (xs @ [t])"
| "fifo_fresh (MPop # ops) xs \<longleftrightarrow> fifo_fresh ops (tl xs)"

lemma mpsc_run_fifo: "chain q {} L \<Longrightarrow> fifo_fresh ops (items L) \<Longrightarrow> mpsc_run ops q = fifo_run ops (items L)"
proof (induction ops arbitrary: q L)
  case (Cons op ops)
  show ?case
  proof (cases op)
    case (MPush t)
    then have "chain (mpsc_push q (Item t)) {} (L @ [Item t])" using Cons.prems by (intro chain_push) (auto simp: set_items)
    then show ?thesis using Cons.IH [of _ "L @ [Item t]"] Cons.prems MPush by simp
  next
    case MPop
    obtain r q' where p: "mpsc_pop q = (r, q')" by (cases "mpsc_pop q")
    from pop_alone [OF Cons.prems(1) p] obtain L' where "chain q' {} L'" "items L' = tl (items L)" by blast
    then have "mpsc_run ops q' = fifo_run ops (tl (items L))" using Cons.IH [of q' L'] Cons.prems MPop by simp
    then show ?thesis using pop_alone [OF Cons.prems(1) p] p MPop by (cases "items L") auto
  qed
qed simp

text \<open>Two nodes published before either is linked, and one published and linked.\<close>

definition demo_mpsc :: mpsc_sys where
  "demo_mpsc = \<lparr>ms_queue = mpsc_new (\<lambda>_. None), ms_pc = CIdle, ms_unlinked = {}, ms_in = [], ms_out = []\<rparr>"

definition demo_published :: mpsc_sys where
  "demo_published = demo_mpsc\<lparr>ms_queue := snd (mpsc_publish (mpsc_new (\<lambda>_. None)) (Item 1)), ms_unlinked := {(Stub, Item 1)}, ms_in := [1]\<rparr>"

definition demo_twice :: mpsc_sys where
  "demo_twice = demo_published\<lparr>ms_queue := snd (mpsc_publish (ms_queue demo_published) (Item 2)),
     ms_unlinked := {(Item 1, Item 2), (Stub, Item 1)}, ms_in := [1, 2]\<rparr>"

definition demo_linked :: mpsc_sys where
  "demo_linked = demo_published\<lparr>ms_queue := mpsc_link (ms_queue demo_published) Stub (Item 1), ms_unlinked := {}\<rparr>"

lemma demo_mpsc_init: "mpsc_init demo_mpsc"
  by (auto simp: demo_mpsc_def mpsc_init_def)

lemma demo_mpsc_steps: "mpsc_step demo_mpsc demo_published" "mpsc_step demo_published demo_twice" "mpsc_step demo_published demo_linked"
proof -
  show "mpsc_step demo_mpsc demo_published"
    using Publish [of demo_mpsc 1 Stub "snd (mpsc_publish (mpsc_new (\<lambda>_. None)) (Item 1))"]
    by (simp add: demo_published_def demo_mpsc_def mpsc_publish_def mpsc_new_def)
  show "mpsc_step demo_published demo_twice"
    using Publish [of demo_published 2 "Item 1" "snd (mpsc_publish (ms_queue demo_published) (Item 2))"]
    by (simp add: demo_twice_def demo_published_def demo_mpsc_def mpsc_publish_def mpsc_new_def)
  show "mpsc_step demo_published demo_linked"
    using Link [of Stub 1 demo_published] by (simp add: demo_linked_def) (simp add: demo_published_def)
qed

section \<open>Properties\<close>

text \<open>C23: whatever the producers and the consumer are in the middle of, nodes come out in the order in which
  they were published, none twice and none skipped, and the node a producer is still going to link
  its own to has not been handed out: its memory is not yet the consumer's to reuse.\<close>

theorem mpsc_fifo:
  assumes "mpsc_init s" "mpsc_step\<^sup>*\<^sup>* s s'"
  shows "ms_out s' = take (length (ms_out s')) (ms_in s')
    \<and> (\<forall>t n. (Item t, n) \<in> ms_unlinked s' \<longrightarrow> count_list (ms_out s') t < count_list (ms_in s') t)"
proof -
  from mpsc_threads.reachable_inv [OF assms] obtain L where c: "chain (ms_queue s') (ms_unlinked s') L" and io: "ms_in s' = ms_out s' @ items L"
    by (auto simp: mpsc_inv_def)
  have "count_list (items L) t > 0" if "(Item t, n) \<in> ms_unlinked s'" for t n
  proof -
    have "Item t \<in> set L" using c that by (auto simp: chain_def)
    then show ?thesis by (metis count_list_0_iff gr0I set_items)
  qed
  then show ?thesis unfolding io by auto
qed


theorem mpsc_fifo_witness:
  "mpsc_init demo_mpsc \<and> mpsc_step\<^sup>*\<^sup>* demo_mpsc demo_twice \<and> (Item 1, Item 2) \<in> ms_unlinked demo_twice
    \<and> ms_out demo_twice = take 0 (ms_in demo_twice) \<and> count_list (ms_out demo_twice) 1 < count_list (ms_in demo_twice) 1"
proof -
  have r: "mpsc_step\<^sup>*\<^sup>* demo_mpsc demo_twice" using demo_mpsc_steps(1,2) by (meson converse_rtranclp_into_rtranclp r_into_rtranclp)
  have u: "(Item 1, Item 2) \<in> ms_unlinked demo_twice" "ms_out demo_twice = []" by (simp_all add: demo_twice_def demo_published_def demo_mpsc_def)
  show ?thesis using mpsc_fifo [OF demo_mpsc_init r] demo_mpsc_init r u by auto
qed

text \<open>between whole operations the queue is the list of what was published and not yet handed out:
  however pushes and pops follow each other from there on, every pop returns what it would on that
  list, nothing exactly when the list is empty; and \<open>isEmpty\<close> is exact.\<close>

theorem mpsc_refines_list:
  assumes "mpsc_init s" "mpsc_step\<^sup>*\<^sup>* s s'" "ms_unlinked s' = {}" "fifo_fresh ops (drop (length (ms_out s')) (ms_in s'))"
  shows "mpsc_run ops (ms_queue s') = fifo_run ops (drop (length (ms_out s')) (ms_in s')) \<and> mpsc_isEmpty (ms_queue s') = (ms_out s' = ms_in s')"
proof -
  from mpsc_threads.reachable_inv [OF assms(1,2)] assms(3) obtain L where c: "chain (ms_queue s') {} L" and io: "ms_in s' = ms_out s' @ items L"
    by (auto simp: mpsc_inv_def)
  show ?thesis using mpsc_run_fifo [OF c, of ops] isEmpty_alone [OF c] assms(4) unfolding io by auto
qed

theorem mpsc_refines_list_witness:
  "ms_unlinked demo_linked = {} \<and> mpsc_run [MPush 2, MPop, MPop, MPop] (ms_queue demo_linked) = [Some (Item 1), Some (Item 2), None]
    \<and> \<not> mpsc_isEmpty (ms_queue demo_linked)"
proof -
  have r: "mpsc_step\<^sup>*\<^sup>* demo_mpsc demo_linked" using demo_mpsc_steps(1,3) by (meson converse_rtranclp_into_rtranclp r_into_rtranclp)
  have u: "ms_unlinked demo_linked = {}" "ms_out demo_linked = []" "ms_in demo_linked = [1]"
    by (simp_all add: demo_linked_def demo_published_def demo_mpsc_def)
  show ?thesis using mpsc_refines_list [OF demo_mpsc_init r, of "[MPush 2, MPop, MPop, MPop]"] u by simp
qed

end
