(* ===== verification/Task_Slots.thy ===== *)
theory Task_Slots
  imports Step_System
begin

text \<open>
  The slab indices of tasks (\<^verbatim>\<open>SchedulerCore.cpp\<close>): the global free list, the workers' caches in front of
  it, and the sharded live-task counters that decide when \<^verbatim>\<open>acquireSlot\<close> gives up.  The free list is the
  FIFO list that \<^verbatim>\<open>SlotQueue\<close> (a \<open>Bbq_Queue\<close>) is between whole operations; \<open>sp_capacity\<close> is its
  \<^verbatim>\<open>kCapacity\<close>.  A cache is its array and its count.
\<close>

section \<open>State\<close>

definition kCapacity :: nat where "kCapacity = 64"
definition kBatch :: nat where "kBatch = 32"

record slotCache =
  ca_slots :: "nat list"
  ca_count :: nat

record pool =
  sp_freeSlots :: "nat list"
  sp_capacity :: nat
  sp_caches :: "slotCache list"
  sp_tasksCreated :: "u64 list"
  sp_tasksFinished :: "u64 list"
  sp_foreignCreated :: u64
  sp_foreignFinished :: u64
  sp_maxTasks :: nat

section \<open>The free list and the caches\<close>

definition popFreeSlot :: "nat list \<Rightarrow> (nat \<times> nat list) option" where
  "popFreeSlot free = (case free of [] \<Rightarrow> None | x # xs \<Rightarrow> Some (x, xs))"

text \<open>None: the loop never gets out, because the queue stays full.\<close>

definition pushFreeSlot :: "nat \<Rightarrow> nat list \<Rightarrow> nat \<Rightarrow> nat list option" where
  "pushFreeSlot capacity free slot = (if length free < capacity then Some (free @ [slot]) else None)"

fun pushFreeSlots :: "nat \<Rightarrow> nat list \<Rightarrow> nat list \<Rightarrow> nat list option" where
  "pushFreeSlots capacity free [] = Some free"
| "pushFreeSlots capacity free (x # xs) =
     (case pushFreeSlot capacity free x of None \<Rightarrow> None | Some free' \<Rightarrow> pushFreeSlots capacity free' xs)"

text \<open>The refill of an empty cache; the recursion is on what the free list still has.\<close>

fun fillCache :: "slotCache \<Rightarrow> nat list \<Rightarrow> slotCache \<times> nat list" where
  "fillCache c free =
     (if ca_count c < kBatch then
        (case free of
           [] \<Rightarrow> (c, [])
         | x # xs \<Rightarrow> fillCache (c\<lparr>ca_slots := (ca_slots c)[ca_count c := x], ca_count := ca_count c + 1\<rparr>) xs)
      else (c, free))"

declare fillCache.simps [simp del]

definition takeCached :: "slotCache \<Rightarrow> (nat \<times> slotCache) option" where
  "takeCached c = (if ca_count c \<noteq> 0 then Some (ca_slots c ! (ca_count c - 1), c\<lparr>ca_count := ca_count c - 1\<rparr>) else None)"

fun scanCaches :: "nat option \<Rightarrow> slotCache list \<Rightarrow> nat list \<Rightarrow> (nat \<times> slotCache list) option" where
  "scanCaches me cs [] = None"
| "scanCaches me cs (w # ws) =
     (if me = Some w then scanCaches me cs ws
      else case takeCached (cs ! w) of
        Some (slot, c) \<Rightarrow> Some (slot, cs[w := c])
      | None \<Rightarrow> scanCaches me cs ws)"

definition scanAndPop :: "pool \<Rightarrow> nat option \<Rightarrow> nat option \<times> pool" where
  "scanAndPop p me =
     (case scanCaches me (sp_caches p) [0..<length (sp_caches p)] of
        Some (slot, cs) \<Rightarrow> (Some slot, p\<lparr>sp_caches := cs\<rparr>)
      | None \<Rightarrow>
          (case popFreeSlot (sp_freeSlots p) of
             Some (slot, free) \<Rightarrow> (Some slot, p\<lparr>sp_freeSlots := free\<rparr>)
           | None \<Rightarrow> (None, p)))"

definition tryAcquireSlot :: "pool \<Rightarrow> nat option \<Rightarrow> nat option \<times> pool" where
  "tryAcquireSlot p me =
     (case me of
        Some w \<Rightarrow>
          (case (if ca_count (sp_caches p ! w) = 0 then fillCache (sp_caches p ! w) (sp_freeSlots p)
                 else (sp_caches p ! w, sp_freeSlots p)) of
             (c, free) \<Rightarrow>
               let p1 = p\<lparr>sp_caches := (sp_caches p)[w := c], sp_freeSlots := free\<rparr> in
               (case takeCached c of
                  Some (slot, c') \<Rightarrow> (Some slot, p1\<lparr>sp_caches := (sp_caches p1)[w := c']\<rparr>)
                | None \<Rightarrow> scanAndPop p1 me))
      | None \<Rightarrow>
          (case popFreeSlot (sp_freeSlots p) of
             Some (slot, free) \<Rightarrow> (Some slot, p\<lparr>sp_freeSlots := free\<rparr>)
           | None \<Rightarrow> scanAndPop p me))"

text \<open>A full cache without its oldest half, moved down.\<close>

definition spillCache :: "slotCache \<Rightarrow> slotCache" where
  "spillCache c = c\<lparr>ca_slots := foldl (\<lambda>a i. a[i - kBatch := a ! i]) (ca_slots c) [kBatch..<ca_count c], ca_count := ca_count c - kBatch\<rparr>"

definition releaseSlot :: "pool \<Rightarrow> nat option \<Rightarrow> nat \<Rightarrow> pool option" where
  "releaseSlot p me slot =
     (case me of
        None \<Rightarrow> map_option (\<lambda>free. p\<lparr>sp_freeSlots := free\<rparr>) (pushFreeSlot (sp_capacity p) (sp_freeSlots p) slot)
      | Some w \<Rightarrow>
          let c = sp_caches p ! w;
              spilled = (if ca_count c = kCapacity
                then map_option (\<lambda>free. (spillCache c, free)) (pushFreeSlots (sp_capacity p) (sp_freeSlots p) (take kBatch (ca_slots c)))
                else Some (c, sp_freeSlots p))
          in map_option (\<lambda>(c, free). p\<lparr>sp_caches := (sp_caches p)
               [w := c\<lparr>ca_slots := (ca_slots c)[ca_count c := slot], ca_count := ca_count c + 1\<rparr>], sp_freeSlots := free\<rparr>) spilled)"

section \<open>Counting live tasks\<close>

definition countCreated :: "pool \<Rightarrow> nat option \<Rightarrow> pool" where
  "countCreated p me = (case me of
     Some w \<Rightarrow> p\<lparr>sp_tasksCreated := (sp_tasksCreated p)[w := sp_tasksCreated p ! w + 1]\<rparr>
   | None \<Rightarrow> p\<lparr>sp_foreignCreated := sp_foreignCreated p + 1\<rparr>)"

definition countFinished :: "pool \<Rightarrow> nat option \<Rightarrow> pool" where
  "countFinished p me = (case me of
     Some w \<Rightarrow> p\<lparr>sp_tasksFinished := (sp_tasksFinished p)[w := sp_tasksFinished p ! w + 1]\<rparr>
   | None \<Rightarrow> p\<lparr>sp_foreignFinished := sp_foreignFinished p + 1\<rparr>)"

text \<open>The sum over all counters, as a thread reads it that no other thread disturbs.\<close>

definition liveTasks :: "pool \<Rightarrow> u64" where
  "liveTasks p =
     (let n = length (sp_caches p);
          finished = foldl (\<lambda>a i. a + sp_tasksFinished p ! i) (sp_foreignFinished p) [0..<n];
          created = foldl (\<lambda>a i. a + sp_tasksCreated p ! i) (sp_foreignCreated p) [0..<n]
      in created - finished)"

text \<open>One round of \<^verbatim>\<open>acquireSlot\<close>'s loop, undisturbed: \<open>Slot_Calls\<close> has its accesses one by one and shows that they
  compose to this.\<close>

datatype acquired = Acquired nat | Exhausted | Retry

definition acquireSlot_round :: "pool \<Rightarrow> nat option \<Rightarrow> acquired \<times> pool" where
  "acquireSlot_round p me =
     (case tryAcquireSlot p me of
        (Some slot, p') \<Rightarrow> (Acquired slot, p')
      | (None, p') \<Rightarrow> (if unat (liveTasks p') \<ge> sp_maxTasks p' then Exhausted else Retry, p'))"

definition newPool :: "nat \<Rightarrow> nat \<Rightarrow> nat \<Rightarrow> pool option" where
  "newPool workers maxTasks capacity =
     map_option (\<lambda>free. \<lparr>sp_freeSlots = free, sp_capacity = capacity,
         sp_caches = replicate workers \<lparr>ca_slots = replicate kCapacity 0, ca_count = 0\<rparr>,
         sp_tasksCreated = replicate workers 0, sp_tasksFinished = replicate workers 0,
         sp_foreignCreated = 0, sp_foreignFinished = 0, sp_maxTasks = maxTasks\<rparr>)
       (pushFreeSlots capacity [] [0..<maxTasks])"

section \<open>Where the slots are\<close>

definition cached :: "slotCache \<Rightarrow> nat list" where
  "cached c = take (ca_count c) (ca_slots c)"

definition cache_ok :: "slotCache \<Rightarrow> bool" where
  "cache_ok c \<longleftrightarrow> length (ca_slots c) = kCapacity \<and> ca_count c \<le> kCapacity"

definition free_slots :: "pool \<Rightarrow> nat multiset" where
  "free_slots p = mset (sp_freeSlots p) + sum_list (map (\<lambda>c. mset (cached c)) (sp_caches p))"

definition pool_ok :: "pool \<Rightarrow> bool" where
  "pool_ok p \<longleftrightarrow> (\<forall>c\<in>set (sp_caches p). cache_ok c)"

definition me_in :: "nat option \<Rightarrow> pool \<Rightarrow> bool" where
  "me_in me p \<longleftrightarrow> (case me of None \<Rightarrow> True | Some w \<Rightarrow> w < length (sp_caches p))"

text \<open>What slot operations leave alone.\<close>

definition same_counts :: "pool \<Rightarrow> pool \<Rightarrow> bool" where
  "same_counts p p' \<longleftrightarrow> sp_tasksCreated p' = sp_tasksCreated p \<and> sp_tasksFinished p' = sp_tasksFinished p
     \<and> sp_foreignCreated p' = sp_foreignCreated p \<and> sp_foreignFinished p' = sp_foreignFinished p
     \<and> sp_maxTasks p' = sp_maxTasks p \<and> sp_capacity p' = sp_capacity p \<and> length (sp_caches p') = length (sp_caches p)"

lemma sizes: "0 < kBatch" "kBatch \<le> kCapacity" "kBatch < kCapacity"
  by (simp_all add: kBatch_def kCapacity_def)

lemma cache_put:
  fixes x :: nat
  assumes "cache_ok c" "ca_count c < kCapacity"
  defines "c' \<equiv> c\<lparr>ca_slots := (ca_slots c)[ca_count c := x], ca_count := ca_count c + 1\<rparr>"
  shows "cache_ok c'" "cached c' = cached c @ [x]"
  using assms by (auto simp: cache_ok_def cached_def take_Suc_conv_app_nth)

lemma takeCached_law:
  assumes "cache_ok c"
  shows "case takeCached c of None \<Rightarrow> cached c = [] | Some (slot, c') \<Rightarrow> cache_ok c' \<and> cached c = cached c' @ [slot]"
proof (cases "ca_count c")
  case (Suc n)
  then have "n < length (ca_slots c)" using assms by (simp add: cache_ok_def)
  then show ?thesis using Suc assms by (simp add: takeCached_def cache_ok_def cached_def take_Suc_conv_app_nth)
qed (simp add: takeCached_def cached_def)

lemma fillCache_law:
  "cache_ok c \<Longrightarrow> fillCache c free = (c', free') \<Longrightarrow>
    cache_ok c' \<and> mset (cached c') + mset free' = mset (cached c) + mset free \<and> (cached c' = [] \<longrightarrow> free' = [])"
proof (induction c free arbitrary: c' free' rule: fillCache.induct)
  case (1 c free)
  show ?case
  proof (cases "ca_count c < kBatch \<and> free \<noteq> []")
    case True
    then obtain x xs where free: "free = x # xs" by (cases free) auto
    have "ca_count c < kCapacity" using True sizes by linarith
    note put = cache_put [OF "1.prems"(1) this, of x]
    have "fillCache (c\<lparr>ca_slots := (ca_slots c)[ca_count c := x], ca_count := ca_count c + 1\<rparr>) xs = (c', free')"
      using "1.prems"(2) True free by (simp add: fillCache.simps [of c])
    from "1.IH" [OF _ free put(1) this] True put(2) free show ?thesis by simp
  next
    case False
    have "cached c = [] \<Longrightarrow> ca_count c < kBatch" using "1.prems"(1) sizes by (auto simp: cached_def cache_ok_def)
    moreover have "c' = c \<and> free' = free" using "1.prems"(2) False by (auto simp: fillCache.simps [of c] split: list.splits if_splits)
    ultimately show ?thesis using "1.prems"(1) False by auto
  qed
qed

lemma scanCaches_law:
  assumes "\<And>c. c \<in> set cs \<Longrightarrow> cache_ok c" "set ws \<subseteq> {..<length cs}"
  shows "case scanCaches me cs ws of
      None \<Rightarrow> \<forall>w\<in>set ws. me \<noteq> Some w \<longrightarrow> cached (cs ! w) = []
    | Some (slot, cs') \<Rightarrow> length cs' = length cs \<and> (\<forall>c\<in>set cs'. cache_ok c)
        \<and> sum_list (map (\<lambda>c. mset (cached c)) cs) = {#slot#} + sum_list (map (\<lambda>c. mset (cached c)) cs')"
  using assms(2)
proof (induction ws)
  case (Cons w ws)
  have w: "w < length cs" using Cons.prems by simp
  have "cache_ok (cs ! w)" using assms(1) w by simp
  note tk = takeCached_law [OF this]
  show ?case
  proof (cases "me = Some w \<or> takeCached (cs ! w) = None")
    case True
    then show ?thesis using Cons tk by (auto split: option.splits)
  next
    case False
    then obtain slot c where c: "takeCached (cs ! w) = Some (slot, c)" by auto
    have "sum_list (map (\<lambda>c. mset (cached c)) (cs[w := c])) + mset (cached (cs ! w)) = sum_list (map (\<lambda>c. mset (cached c)) cs) + mset (cached c)"
      by (rule sum_list_update [OF w])
    moreover have "c' \<in> set (cs[w := c]) \<Longrightarrow> cache_ok c'" for c' using set_update_subset_insert [of cs w c] assms(1) tk c by auto
    ultimately show ?thesis using False c tk by auto
  qed
qed simp

lemma pool_ok_nth: "pool_ok p \<Longrightarrow> w < length (sp_caches p) \<Longrightarrow> cache_ok (sp_caches p ! w)"
  by (simp add: pool_ok_def)

lemma pool_ok_update: "pool_ok p \<Longrightarrow> cache_ok c \<Longrightarrow> pool_ok (p\<lparr>sp_caches := (sp_caches p)[w := c]\<rparr>)"
  using set_update_subset_insert [of "sp_caches p" w c] by (auto simp: pool_ok_def)

lemma free_slots_moved:
  assumes "w < length (sp_caches p)"
    "mset (cached c) + mset free + X = mset (cached (sp_caches p ! w)) + mset (sp_freeSlots p) + Y"
  shows "free_slots (p\<lparr>sp_caches := (sp_caches p)[w := c], sp_freeSlots := free\<rparr>) + X = free_slots p + Y"
proof -
  let ?f = "sum_list (map (\<lambda>c. mset (cached c)) ((sp_caches p)[w := c]))" and ?g = "sum_list (map (\<lambda>c. mset (cached c)) (sp_caches p))"
  have "(mset free + ?f + X) + mset (cached (sp_caches p ! w)) = mset free + X + (?f + mset (cached (sp_caches p ! w)))" by (simp add: ac_simps)
  also have "\<dots> = ?g + (mset (cached c) + mset free + X)" using sum_list_update [OF assms(1), of "\<lambda>c. mset (cached c)" c] by (simp add: ac_simps)
  also have "\<dots> = (mset (sp_freeSlots p) + ?g + Y) + mset (cached (sp_caches p ! w))" unfolding assms(2) by (simp add: ac_simps)
  finally show ?thesis by (simp add: free_slots_def)
qed

text \<open>The outcome of a search: a slot taken out, or nothing to take anywhere.\<close>

definition found :: "pool \<Rightarrow> nat option \<Rightarrow> pool \<Rightarrow> bool" where
  "found p r p' \<longleftrightarrow> pool_ok p' \<and> same_counts p p' \<and>
     (case r of None \<Rightarrow> free_slots p = {#} \<and> free_slots p' = {#} | Some slot \<Rightarrow> free_slots p = {#slot#} + free_slots p')"

lemma scanAndPop_law:
  assumes "pool_ok p" "scanAndPop p me = (r, p')" "\<And>w. me = Some w \<Longrightarrow> cached (sp_caches p ! w) = []"
  shows "found p r p'"
proof (cases "scanCaches me (sp_caches p) [0..<length (sp_caches p)]")
  case None
  have "set [0..<length (sp_caches p)] \<subseteq> {..<length (sp_caches p)}" by auto
  from scanCaches_law [OF _ this, of me] assms(1) None have "\<And>w. w < length (sp_caches p) \<Longrightarrow> me \<noteq> Some w \<Longrightarrow> cached (sp_caches p ! w) = []"
    by (auto simp: pool_ok_def)
  then have "\<And>w. w < length (sp_caches p) \<Longrightarrow> cached (sp_caches p ! w) = []" using assms(3) by blast
  then have "sum_list (map (\<lambda>c. mset (cached c)) (sp_caches p)) = {#}" by (intro sum_list_empty) (metis in_set_conv_nth mset.simps(1))
  then show ?thesis using assms(1,2) None by (cases "sp_freeSlots p") (auto simp: scanAndPop_def popFreeSlot_def found_def same_counts_def pool_ok_def free_slots_def)
next
  case (Some a)
  then obtain slot cs where cs: "scanCaches me (sp_caches p) [0..<length (sp_caches p)] = Some (slot, cs)" by (cases a) auto
  have "set [0..<length (sp_caches p)] \<subseteq> {..<length (sp_caches p)}" by auto
  from scanCaches_law [OF _ this, of me] assms(1) cs show ?thesis
    using assms(2) by (auto simp: scanAndPop_def pool_ok_def found_def same_counts_def free_slots_def)
qed

lemma tryAcquireSlot_law:
  assumes ok: "pool_ok p" and me: "me_in me p" and r: "tryAcquireSlot p me = (r, p')"
  shows "found p r p'"
proof (cases me)
  case None
  show ?thesis
  proof (cases "sp_freeSlots p")
    case Nil
    then have "scanAndPop p me = (r, p')" using r None by (simp add: tryAcquireSlot_def popFreeSlot_def)
    then show ?thesis by (rule scanAndPop_law [OF ok]) (simp add: None)
  next
    case (Cons x xs)
    then show ?thesis using r None ok by (auto simp: tryAcquireSlot_def popFreeSlot_def found_def same_counts_def pool_ok_def free_slots_def)
  qed
next
  case (Some w)
  let ?c = "sp_caches p ! w"
  have w: "w < length (sp_caches p)" using me Some by (simp add: me_in_def)
  have c: "cache_ok ?c" by (rule pool_ok_nth [OF ok w])
  obtain c1 free where f: "(if ca_count ?c = 0 then fillCache ?c (sp_freeSlots p) else (?c, sp_freeSlots p)) = (c1, free)" by (metis surj_pair)
  then have c1: "cache_ok c1" "mset (cached c1) + mset free = mset (cached ?c) + mset (sp_freeSlots p)"
    using fillCache_law [OF c] c by (auto split: if_splits)
  define p1 where "p1 = p\<lparr>sp_caches := (sp_caches p)[w := c1], sp_freeSlots := free\<rparr>"
  have p1: "pool_ok p1" "same_counts p p1" "sp_caches p1 ! w = c1" "w < length (sp_caches p1)"
    using pool_ok_update [OF ok c1(1), of w] w by (simp_all add: p1_def pool_ok_def same_counts_def)
  have "free_slots p1 = free_slots p" using free_slots_moved [OF w, where c = c1 and X = "{#}" and Y = "{#}"] c1(2) by (simp add: p1_def)
  note p1 = p1 this
  have "found p1 r p'"
  proof (cases "takeCached c1")
    case None
    then have "scanAndPop p1 me = (r, p')" using r Some f unfolding tryAcquireSlot_def p1_def by (simp only: option.case prod.case Let_def)
    then show ?thesis by (rule scanAndPop_law [OF p1(1)]) (use takeCached_law [OF c1(1)] None p1(3) Some in auto)
  next
    case (Some a)
    obtain slot c2 where a: "a = (slot, c2)" by (cases a)
    have rp: "r = Some slot" "p' = p1\<lparr>sp_caches := (sp_caches p1)[w := c2]\<rparr>"
      using r \<open>me = Some w\<close> f Some a unfolding tryAcquireSlot_def p1_def by (simp_all only: option.case prod.case Let_def prod.inject)
    have "cache_ok c2" "cached c1 = cached c2 @ [slot]" using takeCached_law [OF c1(1)] Some a by auto
    then show ?thesis using pool_ok_update [OF p1(1), of c2 w] free_slots_moved [OF p1(4), where c = c2 and free = "sp_freeSlots p1" and X = "{#slot#}" and Y = "{#}"] p1(3)
      unfolding found_def rp by (simp add: same_counts_def)
  qed
  then show ?thesis using p1 by (auto simp: found_def same_counts_def split: option.splits)
qed

text \<open>Spilling the older half of a full cache.\<close>

lemma shift_down:
  fixes a :: "nat list"
  assumes "0 < k" "n \<le> length a"
  defines "b \<equiv> foldl (\<lambda>a i. a[i - k := a ! i]) a [k..<n]"
  shows "length b = length a \<and> (\<forall>j. b ! j = (if j + k < n then a ! (j + k) else a ! j))"
  using assms(2) unfolding b_def
proof (induction n)
  case (Suc n)
  define b where "b = foldl (\<lambda>a i. a[i - k := a ! i]) a [k..<n]"
  have ih: "length b = length a" "\<And>j. b ! j = (if j + k < n then a ! (j + k) else a ! j)" using Suc b_def by auto
  show ?case
  proof (cases "k \<le> n")
    case True
    have "b ! n = a ! n" using ih(2) [of n] assms(1) by simp
    moreover have "n - k < length b" using ih(1) Suc.prems assms(1) True by simp
    ultimately have "length (b[n - k := b ! n]) = length a \<and> (\<forall>j. (b[n - k := b ! n]) ! j = (if j + k < Suc n then a ! (j + k) else a ! j))"
      using ih True by (auto simp: nth_list_update)
    then show ?thesis using True by (simp add: b_def)
  next
    case False
    then show ?thesis by simp
  qed
qed simp

lemma spill_cached:
  assumes "cache_ok c" "ca_count c = kCapacity"
  defines "c' \<equiv> spillCache c"
  shows "cache_ok c'" "cached c = take kBatch (ca_slots c) @ cached c'" "ca_count c' < kCapacity"
proof -
  have l: "length (ca_slots c) = kCapacity" using assms(1) by (simp add: cache_ok_def)
  note sh = shift_down [OF sizes(1), of kCapacity "ca_slots c"]
  show "cache_ok c'" "ca_count c' < kCapacity" using sh l sizes assms(2) by (simp_all add: c'_def spillCache_def cache_ok_def)
  have "cached c' = drop kBatch (ca_slots c)"
    using sh l sizes assms(2) by (intro nth_equalityI) (auto simp: c'_def spillCache_def cached_def ac_simps)
  then show "cached c = take kBatch (ca_slots c) @ cached c'" using l assms(2) by (simp add: cached_def)
qed

lemma pushFreeSlots_law: "length free + length xs \<le> capacity \<Longrightarrow> pushFreeSlots capacity free xs = Some (free @ xs)"
  by (induction xs arbitrary: free) (auto simp: pushFreeSlot_def)

lemma size_free_slots: "length (sp_freeSlots p) \<le> size (free_slots p)"
  by (simp add: free_slots_def)

lemma size_cached:
  assumes "w < length (sp_caches p)"
  shows "length (sp_freeSlots p) + length (cached (sp_caches p ! w)) \<le> size (free_slots p)"
proof -
  have "mset (cached (sp_caches p ! w)) \<subseteq># sum_list (map (\<lambda>c. mset (cached c)) (sp_caches p))"
    using sum_list_split [OF assms, of "\<lambda>c. mset (cached c)" "sp_caches p ! w"] by simp
  then show ?thesis using size_mset_mono by (fastforce simp: free_slots_def)
qed

lemma releaseSlot_law:
  assumes ok: "pool_ok p" and me: "me_in me p" and room: "size (free_slots p) < sp_capacity p"
  obtains p' where "releaseSlot p me slot = Some p'" "pool_ok p'" "same_counts p p'" "free_slots p' = free_slots p + {#slot#}"
proof (cases me)
  case None
  let ?p = "p\<lparr>sp_freeSlots := sp_freeSlots p @ [slot]\<rparr>"
  have "length (sp_freeSlots p) < sp_capacity p" using room size_free_slots [of p] by linarith
  then have "releaseSlot p me slot = Some ?p" using None by (simp add: releaseSlot_def pushFreeSlot_def)
  moreover have "pool_ok ?p" "same_counts p ?p" "free_slots ?p = free_slots p + {#slot#}"
    using ok by (simp_all add: pool_ok_def same_counts_def free_slots_def)
  ultimately show thesis by (rule that)
next
  case (Some w)
  let ?c = "sp_caches p ! w"
  have w: "w < length (sp_caches p)" using me Some by (simp add: me_in_def)
  have c: "cache_ok ?c" by (rule pool_ok_nth [OF ok w])
  obtain c1 free where sp: "(if ca_count ?c = kCapacity
      then map_option (\<lambda>free. (spillCache ?c, free)) (pushFreeSlots (sp_capacity p) (sp_freeSlots p) (take kBatch (ca_slots ?c)))
      else Some (?c, sp_freeSlots p)) = Some (c1, free)"
    and c1: "cache_ok c1" "ca_count c1 < kCapacity" "mset (cached c1) + mset free = mset (cached ?c) + mset (sp_freeSlots p)"
  proof (cases "ca_count ?c = kCapacity")
    case True
    have "length (sp_freeSlots p) + length (take kBatch (ca_slots ?c)) \<le> sp_capacity p"
      using size_cached [OF w] room spill_cached(2) [OF c True] by simp
    from pushFreeSlots_law [OF this] spill_cached [OF c True] True show thesis
      by (intro that [of "spillCache ?c" "sp_freeSlots p @ take kBatch (ca_slots ?c)"]) simp_all
  next
    case False
    then show thesis using c by (intro that) (auto simp: cache_ok_def)
  qed
  let ?c2 = "c1\<lparr>ca_slots := (ca_slots c1)[ca_count c1 := slot], ca_count := ca_count c1 + 1\<rparr>"
  let ?p = "p\<lparr>sp_caches := (sp_caches p)[w := ?c2], sp_freeSlots := free\<rparr>"
  note put = cache_put [OF c1(1,2), of slot]
  have "releaseSlot p me slot = Some ?p" unfolding releaseSlot_def Some option.case Let_def sp by simp
  moreover have "pool_ok ?p" "same_counts p ?p" using pool_ok_update [OF ok put(1), of w] by (simp_all add: pool_ok_def same_counts_def)
  moreover have "free_slots ?p = free_slots p + {#slot#}"
    using free_slots_moved [OF w, where c = ?c2 and free = free and X = "{#}" and Y = "{#slot#}"] c1(3) put(2) by simp
  ultimately show thesis by (rule that)
qed

section \<open>Slots over the life of tasks\<close>

text \<open>\<^verbatim>\<open>createTask\<close> takes a slot, gives it back when the task cannot be built, and otherwise counts the task
  as created; \<^verbatim>\<open>releaseTask\<close> counts it as finished and then gives the slot back.  Any number of threads
  are between two of these steps: their slots are in \<open>sl_creating\<close> and \<open>sl_finishing\<close>.\<close>

record slot_life =
  sl_pool :: pool
  sl_creating :: "nat list"
  sl_live :: "nat list"
  sl_finishing :: "nat list"

inductive life_step :: "slot_life \<Rightarrow> slot_life \<Rightarrow> bool" where
  Acquire: "me_in me (sl_pool s) \<Longrightarrow> acquireSlot_round (sl_pool s) me = (Acquired slot, p) \<Longrightarrow>
    life_step s (s\<lparr>sl_pool := p, sl_creating := slot # sl_creating s\<rparr>)"
| Refused: "me_in me (sl_pool s) \<Longrightarrow> acquireSlot_round (sl_pool s) me = (r, p) \<Longrightarrow> r = Exhausted \<or> r = Retry \<Longrightarrow>
    life_step s (s\<lparr>sl_pool := p\<rparr>)"
| Abort: "me_in me (sl_pool s) \<Longrightarrow> slot \<in> set (sl_creating s) \<Longrightarrow> releaseSlot (sl_pool s) me slot = Some p \<Longrightarrow>
    life_step s (s\<lparr>sl_pool := p, sl_creating := remove1 slot (sl_creating s)\<rparr>)"
| Create: "me_in me (sl_pool s) \<Longrightarrow> slot \<in> set (sl_creating s) \<Longrightarrow>
    life_step s (s\<lparr>sl_pool := countCreated (sl_pool s) me, sl_creating := remove1 slot (sl_creating s), sl_live := slot # sl_live s\<rparr>)"
| Finish: "me_in me (sl_pool s) \<Longrightarrow> slot \<in> set (sl_live s) \<Longrightarrow>
    life_step s (s\<lparr>sl_pool := countFinished (sl_pool s) me, sl_live := remove1 slot (sl_live s), sl_finishing := slot # sl_finishing s\<rparr>)"
| Release: "me_in me (sl_pool s) \<Longrightarrow> slot \<in> set (sl_finishing s) \<Longrightarrow> releaseSlot (sl_pool s) me slot = Some p \<Longrightarrow>
    life_step s (s\<lparr>sl_pool := p, sl_finishing := remove1 slot (sl_finishing s)\<rparr>)"

definition life_init :: "nat \<Rightarrow> nat \<Rightarrow> nat \<Rightarrow> slot_life \<Rightarrow> bool" where
  "life_init workers maxTasks capacity s \<longleftrightarrow> maxTasks \<le> capacity \<and> capacity < 2 ^ 64
     \<and> newPool workers maxTasks capacity = Some (sl_pool s) \<and> sl_creating s = [] \<and> sl_live s = [] \<and> sl_finishing s = []"

definition used :: "slot_life \<Rightarrow> nat multiset" where
  "used s = mset (sl_creating s) + mset (sl_live s) + mset (sl_finishing s)"

definition life_inv :: "slot_life \<Rightarrow> bool" where
  "life_inv s \<longleftrightarrow> pool_ok (sl_pool s) \<and> sp_maxTasks (sl_pool s) \<le> sp_capacity (sl_pool s) \<and> sp_capacity (sl_pool s) < 2 ^ 64
     \<and> length (sp_tasksCreated (sl_pool s)) = length (sp_caches (sl_pool s)) \<and> length (sp_tasksFinished (sl_pool s)) = length (sp_caches (sl_pool s))
     \<and> free_slots (sl_pool s) + used s = mset [0..<sp_maxTasks (sl_pool s)]
     \<and> liveTasks (sl_pool s) = of_nat (length (sl_live s))"

lemma foldl_plus: "foldl (\<lambda>a i. a + f i) (x :: 'a::comm_monoid_add) [0..<n] = x + (\<Sum>i<n. f i)"
  by (induction n) (simp_all add: ac_simps lessThan_Suc)

lemma liveTasks_eq:
  "liveTasks p = sp_foreignCreated p + (\<Sum>i<length (sp_caches p). sp_tasksCreated p ! i)
     - (sp_foreignFinished p + (\<Sum>i<length (sp_caches p). sp_tasksFinished p ! i))"
  by (simp add: liveTasks_def Let_def foldl_plus)

lemma sum_bump:
  assumes "w < n" "n \<le> length xs"
  shows "(\<Sum>i<n. (xs[w := xs ! w + 1]) ! i) = (\<Sum>i<n. xs ! i) + (1 :: 'a::comm_ring_1)"
proof -
  have "(\<Sum>i<n. (xs[w := xs ! w + 1]) ! i) = (\<Sum>i<n. xs ! i + (if i = w then 1 else 0))"
    using assms by (intro sum.cong) (auto simp: nth_list_update)
  then show ?thesis using assms(1) by (simp add: sum.distrib)
qed

lemma live_created:
  assumes "me_in me p" "length (sp_tasksCreated p) = length (sp_caches p)"
  shows "liveTasks (countCreated p me) = liveTasks p + 1"
  using assms sum_bump [of _ "length (sp_caches p)" "sp_tasksCreated p"]
  by (cases me) (simp_all add: me_in_def liveTasks_eq countCreated_def)

lemma live_finished:
  assumes "me_in me p" "length (sp_tasksFinished p) = length (sp_caches p)"
  shows "liveTasks (countFinished p me) = liveTasks p - 1"
  using assms sum_bump [of _ "length (sp_caches p)" "sp_tasksFinished p"]
  by (cases me) (simp_all add: me_in_def liveTasks_eq countFinished_def)

lemma same_counts_live: "same_counts p p' \<Longrightarrow> liveTasks p' = liveTasks p"
  by (simp add: same_counts_def liveTasks_eq)

lemma life_inv_pool:
  assumes "life_inv s" "same_counts (sl_pool s) p" "pool_ok p" "free_slots p + used s' = free_slots (sl_pool s) + used s"
    "sl_pool s' = p" "sl_live s' = sl_live s"
  shows "life_inv s'"
  using assms same_counts_live [OF assms(2)] by (auto simp: life_inv_def same_counts_def)

lemma acquired_found:
  assumes "pool_ok p" "me_in me p" "acquireSlot_round p me = (r, p')"
  shows "found p (case r of Acquired slot \<Rightarrow> Some slot | _ \<Rightarrow> None) p'"
proof -
  obtain r' where "tryAcquireSlot p me = (r', p')" "r' = (case r of Acquired slot \<Rightarrow> Some slot | _ \<Rightarrow> None)"
    using assms(3) by (auto simp: acquireSlot_round_def split: prod.splits option.splits if_splits)
  then show ?thesis using tryAcquireSlot_law [OF assms(1,2)] by auto
qed

lemma room: "life_inv s \<Longrightarrow> used s \<noteq> {#} \<Longrightarrow> size (free_slots (sl_pool s)) < sp_capacity (sl_pool s)"
proof -
  assume i: "life_inv s" and u: "used s \<noteq> {#}"
  have "size (free_slots (sl_pool s) + used s) = sp_maxTasks (sl_pool s)" using i by (simp add: life_inv_def)
  moreover have "0 < size (used s)" using u by (simp add: nonempty_has_size)
  ultimately show ?thesis using i by (auto simp: life_inv_def)
qed

lemma release_found:
  assumes "life_inv s" "me_in me (sl_pool s)" "used s \<noteq> {#}" "releaseSlot (sl_pool s) me slot = Some p"
  shows "same_counts (sl_pool s) p" "pool_ok p" "free_slots p = free_slots (sl_pool s) + {#slot#}"
proof -
  have "pool_ok (sl_pool s)" using assms(1) by (simp add: life_inv_def)
  from releaseSlot_law [OF this assms(2) room [OF assms(1,3)], of slot] assms(4)
  show "same_counts (sl_pool s) p" "pool_ok p" "free_slots p = free_slots (sl_pool s) + {#slot#}" by auto
qed

lemma release_some:
  assumes "life_inv s" "me_in me (sl_pool s)" "used s \<noteq> {#}"
  obtains p where "releaseSlot (sl_pool s) me slot = Some p"
proof -
  have "pool_ok (sl_pool s)" using assms(1) by (simp add: life_inv_def)
  from releaseSlot_law [OF this assms(2) room [OF assms(1,3)], of slot] that show thesis by auto
qed

lemma life_step_inv:
  assumes inv: "life_inv s" and step: "life_step s s'"
  shows "life_inv s'"
  using step
proof cases
  case (Acquire me slot p)
  have "pool_ok (sl_pool s)" using inv by (simp add: life_inv_def)
  from acquired_found [OF this Acquire(2,3)] show ?thesis
    by (intro life_inv_pool [OF inv, of p]) (use Acquire(1) in \<open>simp_all add: found_def used_def\<close>)
next
  case (Refused me r p)
  have "pool_ok (sl_pool s)" using inv by (simp add: life_inv_def)
  from acquired_found [OF this Refused(2,3)] Refused(4) show ?thesis
    by (intro life_inv_pool [OF inv, of p]) (use Refused(1) in \<open>auto simp: found_def used_def\<close>)
next
  case (Abort me slot p)
  then have "used s \<noteq> {#}" by (auto simp: used_def)
  from release_found [OF inv Abort(2) this Abort(4)] show ?thesis
    by (intro life_inv_pool [OF inv, of p]) (use Abort(1,3) in \<open>simp_all add: used_def\<close>)
next
  case (Release me slot p)
  then have "used s \<noteq> {#}" by (auto simp: used_def)
  from release_found [OF inv Release(2) this Release(4)] show ?thesis
    by (intro life_inv_pool [OF inv, of p]) (use Release(1,3) in \<open>simp_all add: used_def\<close>)
next
  case (Create me slot)
  have "liveTasks (countCreated (sl_pool s) me) = liveTasks (sl_pool s) + 1" using Create(2) inv by (intro live_created) (simp_all add: life_inv_def)
  then show ?thesis using inv Create by (cases me) (auto simp: life_inv_def used_def countCreated_def free_slots_def pool_ok_def)
next
  case (Finish me slot)
  have "liveTasks (countFinished (sl_pool s) me) = liveTasks (sl_pool s) - 1" using Finish(2) inv by (intro live_finished) (simp_all add: life_inv_def)
  moreover have "length (sl_live s) = length (remove1 slot (sl_live s)) + 1" using length_pos_if_in_set [OF Finish(3)] Finish(3) by (simp add: length_remove1)
  ultimately show ?thesis using inv Finish by (cases me) (auto simp: life_inv_def used_def countFinished_def free_slots_def pool_ok_def)
qed

lemma life_init_inv:
  assumes "life_init n m c s"
  shows "life_inv s"
proof -
  have "pushFreeSlots c [] [0..<m] = Some [0..<m]" using assms by (simp add: pushFreeSlots_law life_init_def)
  then have p: "sl_pool s = \<lparr>sp_freeSlots = [0..<m], sp_capacity = c, sp_caches = replicate n \<lparr>ca_slots = replicate kCapacity 0, ca_count = 0\<rparr>,
      sp_tasksCreated = replicate n 0, sp_tasksFinished = replicate n 0, sp_foreignCreated = 0, sp_foreignFinished = 0, sp_maxTasks = m\<rparr>"
    using assms by (simp add: life_init_def newPool_def)
  have "free_slots (sl_pool s) = mset [0..<m]" unfolding p by (simp add: free_slots_def cached_def) (induction n, simp_all)
  moreover have "liveTasks (sl_pool s) = 0" unfolding p by (simp add: liveTasks_eq)
  moreover have "pool_ok (sl_pool s)" unfolding p by (simp add: pool_ok_def cache_ok_def)
  ultimately show ?thesis using assms by (auto simp: life_inv_def used_def life_init_def p)
qed

interpretation slot_threads: step_system "life_init n m c" life_step life_inv
  by unfold_locales (fact life_init_inv, fact life_step_inv)

lemma lives:
  assumes "life_inv s"
  shows "unat (liveTasks (sl_pool s)) = length (sl_live s)" "size (free_slots (sl_pool s)) + length (sl_creating s) + length (sl_live s) + length (sl_finishing s)
    = sp_maxTasks (sl_pool s)"
proof -
  have "size (free_slots (sl_pool s) + used s) = sp_maxTasks (sl_pool s)" using assms by (simp add: life_inv_def)
  then show sz: "size (free_slots (sl_pool s)) + length (sl_creating s) + length (sl_live s) + length (sl_finishing s) = sp_maxTasks (sl_pool s)"
    by (simp add: used_def)
  then have "length (sl_live s) < 2 ^ 64" using assms by (simp add: life_inv_def)
  then show "unat (liveTasks (sl_pool s)) = length (sl_live s)" using assms by (simp add: life_inv_def unat_of_nat)
qed

text \<open>A round of \<^verbatim>\<open>acquireSlot\<close> that no other thread disturbs; calls among other threads are in \<open>Slot_Calls\<close>.\<close>

lemma acquireSlot_law:
  assumes inv: "life_inv s'" and me: "me_in me (sl_pool s')" and a: "acquireSlot_round (sl_pool s') me = (r, p)"
  shows "case r of
      Acquired slot \<Rightarrow> slot \<in># free_slots (sl_pool s')
    | Exhausted \<Rightarrow> free_slots (sl_pool s') = {#} \<and> length (sl_live s') = sp_maxTasks (sl_pool s')
    | Retry \<Rightarrow> free_slots (sl_pool s') = {#} \<and> (sl_creating s' \<noteq> [] \<or> sl_finishing s' \<noteq> [])"
proof -
  have "pool_ok (sl_pool s')" using inv by (simp add: life_inv_def)
  note f = acquired_found [OF this me a]
  then have live: "unat (liveTasks p) = length (sl_live s')" "sp_maxTasks p = sp_maxTasks (sl_pool s')"
    using same_counts_live [of "sl_pool s'" p] lives(1) [OF inv] by (simp_all add: found_def same_counts_def)
  obtain r' p' where t': "tryAcquireSlot (sl_pool s') me = (r', p')" by (cases "tryAcquireSlot (sl_pool s') me")
  then have t: "tryAcquireSlot (sl_pool s') me = (r', p)" using a by (cases r') (simp_all add: acquireSlot_round_def)
  show ?thesis
  proof (cases r')
    case (Some slot)
    then have "r = Acquired slot" using t a by (simp add: acquireSlot_round_def)
    then show ?thesis using f by (simp add: found_def)
  next
    case None
    then have r: "r = (if length (sl_live s') \<ge> sp_maxTasks (sl_pool s') then Exhausted else Retry)"
      using t a live by (simp add: acquireSlot_round_def)
    then have "free_slots (sl_pool s') = {#}" using f by (simp add: found_def split: if_splits)
    then show ?thesis using lives(2) [OF inv] unfolding r by (auto split: if_splits)
  qed
qed

section \<open>Properties\<close>

definition demo_pool :: pool where
  "demo_pool = the (newPool 2 3 8)"

definition demo_life :: slot_life where
  "demo_life = \<lparr>sl_pool = demo_pool, sl_creating = [], sl_live = [], sl_finishing = []\<rparr>"

definition demo_taken :: slot_life where
  "demo_taken = demo_life\<lparr>sl_pool := snd (acquireSlot_round demo_pool (Some 0)), sl_creating := [2]\<rparr>"

lemma demo_life_init: "life_init 2 3 8 demo_life"
  by (simp add: life_init_def demo_life_def demo_pool_def newPool_def pushFreeSlots_law)

lemma demo_life_step: "life_step demo_life demo_taken"
proof -
  have "fst (acquireSlot_round demo_pool (Some 0)) = Acquired 2" by code_simp
  then have "acquireSlot_round (sl_pool demo_life) (Some 0) = (Acquired 2, snd (acquireSlot_round demo_pool (Some 0)))"
    by (simp add: demo_life_def prod_eq_iff)
  moreover have "me_in (Some 0) (sl_pool demo_life)" by code_simp
  ultimately show ?thesis using Acquire [of "Some 0" demo_life 2] by (simp add: demo_taken_def) (simp add: demo_life_def)
qed

text \<open>C24: however threads create, abort and finish tasks, every slot is in exactly one place exactly once: the
  free list or a worker's cache, or held by one task being created, alive or being finished; the
  counters add up to the tasks alive; and giving a slot back always succeeds, it never waits for room
  on the free list.\<close>

theorem every_slot_once:
  assumes "life_init workers maxTasks capacity s" "life_step\<^sup>*\<^sup>* s s'"
  shows "free_slots (sl_pool s') + mset (sl_creating s') + mset (sl_live s') + mset (sl_finishing s') = mset [0..<sp_maxTasks (sl_pool s')]
    \<and> unat (liveTasks (sl_pool s')) = length (sl_live s')
    \<and> (\<forall>me slot. me_in me (sl_pool s') \<longrightarrow> slot \<in> set (sl_creating s' @ sl_finishing s') \<longrightarrow> releaseSlot (sl_pool s') me slot \<noteq> None)"
proof -
  have inv: "life_inv s'" by (rule slot_threads.reachable_inv [OF assms])
  have "releaseSlot (sl_pool s') me slot \<noteq> None" if "me_in me (sl_pool s')" "slot \<in> set (sl_creating s' @ sl_finishing s')" for me slot
  proof -
    have "used s' \<noteq> {#}" using that(2) by (auto simp: used_def)
    from release_some [OF inv that(1) this, of slot] show ?thesis by auto
  qed
  then show ?thesis using inv lives(1) [OF inv] by (simp add: life_inv_def used_def ac_simps)
qed

theorem every_slot_once_witness:
  "life_init 2 3 8 demo_life \<and> life_step\<^sup>*\<^sup>* demo_life demo_taken \<and> free_slots (sl_pool demo_taken) + {#2#} = {#0, 1, 2#}
    \<and> releaseSlot (sl_pool demo_taken) (Some 1) 2 \<noteq> None"
proof -
  have r: "life_step\<^sup>*\<^sup>* demo_life demo_taken" using demo_life_step by (rule r_into_rtranclp)
  have d: "sl_creating demo_taken = [2]" "sl_live demo_taken = []" "sl_finishing demo_taken = []" by (simp_all add: demo_taken_def demo_life_def)
  have m: "sp_maxTasks (sl_pool demo_taken) = 3" "me_in (Some 1) (sl_pool demo_taken)" by code_simp+
  have "mset [0..<3] = {#0, 1, 2 :: nat#}" by (simp add: numeral_3_eq_3 numeral_2_eq_2)
  then show ?thesis using every_slot_once [OF demo_life_init r] demo_life_init r d m by simp
qed

end
