(* ===== verification/Slot_Calls.thy ===== *)
theory Slot_Calls
  imports Task_Slots
begin

text \<open>
  \<^verbatim>\<open>SchedulerCore::acquireSlot\<close> as other threads meet it: any number of calls, each a sequence of
  accesses (the own cache under its guard, every other worker's cache under its guard, the free list,
  every task counter by itself), interleaved with each other and with tasks that are created, given up
  and finished.  A section under the guard of a cache is one access.
\<close>

section \<open>One access of a call\<close>

datatype acq_pc =
    Own
  | Scan nat
  | LastPop
  | ForeignFinished
  | Finished nat u64
  | ForeignCreated u64
  | Created nat u64 u64
  | Returned "nat option"

definition popAccess :: "pool \<Rightarrow> acq_pc \<Rightarrow> acq_pc \<times> pool" where
  "popAccess p next = (case popFreeSlot (sp_freeSlots p) of
     Some (slot, free) \<Rightarrow> (Returned (Some slot), p\<lparr>sp_freeSlots := free\<rparr>)
   | None \<Rightarrow> (next, p))"

definition cacheAccess :: "pool \<Rightarrow> nat \<Rightarrow> acq_pc \<Rightarrow> acq_pc \<times> pool" where
  "cacheAccess p w next = (case takeCached (sp_caches p ! w) of
     Some (slot, c) \<Rightarrow> (Returned (Some slot), p\<lparr>sp_caches := (sp_caches p)[w := c]\<rparr>)
   | None \<Rightarrow> (next, p))"

definition refill :: "pool \<Rightarrow> nat \<Rightarrow> pool" where
  "refill p w = (if ca_count (sp_caches p ! w) = 0
     then case fillCache (sp_caches p ! w) (sp_freeSlots p) of
       (c, free) \<Rightarrow> p\<lparr>sp_caches := (sp_caches p)[w := c], sp_freeSlots := free\<rparr>
     else p)"

definition acq_access :: "pool \<Rightarrow> nat option \<Rightarrow> acq_pc \<Rightarrow> acq_pc \<times> pool" where
  "acq_access p me pc = (case pc of
     Own \<Rightarrow> (case me of
         Some w \<Rightarrow> cacheAccess (refill p w) w (Scan 0)
       | None \<Rightarrow> popAccess p (Scan 0))
   | Scan i \<Rightarrow>
       if i < length (sp_caches p)
       then if me = Some i then (Scan (i + 1), p) else cacheAccess p i (Scan (i + 1))
       else (LastPop, p)
   | LastPop \<Rightarrow> popAccess p ForeignFinished
   | ForeignFinished \<Rightarrow> (Finished 0 (sp_foreignFinished p), p)
   | Finished i a \<Rightarrow>
       if i < length (sp_caches p) then (Finished (i + 1) (a + sp_tasksFinished p ! i), p) else (ForeignCreated a, p)
   | ForeignCreated a \<Rightarrow> (Created 0 a (sp_foreignCreated p), p)
   | Created i a b \<Rightarrow>
       if i < length (sp_caches p) then (Created (i + 1) a (b + sp_tasksCreated p ! i), p)
       else (if sp_maxTasks p \<le> unat (b - a) then Returned None else Own, p)
   | Returned r \<Rightarrow> (Returned r, p))"

section \<open>Calls among other threads\<close>

text \<open>A call remembers how many tasks were alive, and how many had been created so far, when it began to
  count and when it turned from the finished to the created counters.\<close>

record acq_call =
  ac_me :: "nat option"
  ac_pc :: acq_pc
  ac_liveAtStart :: nat
  ac_createdAtStart :: nat
  ac_liveAtTurn :: nat
  ac_createdAtTurn :: nat

record acq_sys =
  as_life :: slot_life
  as_calls :: "acq_call list"
  as_created :: nat

definition acq_pool :: "acq_sys \<Rightarrow> pool" where
  "acq_pool y = sl_pool (as_life y)"

definition acq_live :: "acq_sys \<Rightarrow> nat" where
  "acq_live y = length (sl_live (as_life y))"

definition observe :: "acq_sys \<Rightarrow> acq_call \<Rightarrow> acq_call" where
  "observe y c = (case ac_pc c of
     ForeignFinished \<Rightarrow> c\<lparr>ac_liveAtStart := acq_live y, ac_createdAtStart := as_created y\<rparr>
   | ForeignCreated _ \<Rightarrow> c\<lparr>ac_liveAtTurn := acq_live y, ac_createdAtTurn := as_created y\<rparr>
   | _ \<Rightarrow> c)"

definition running :: "acq_pc \<Rightarrow> bool" where
  "running pc = (case pc of Returned _ \<Rightarrow> False | _ \<Rightarrow> True)"

definition received :: "acq_pc \<Rightarrow> nat list" where
  "received pc = (case pc of Returned (Some slot) \<Rightarrow> [slot] | _ \<Rightarrow> [])"

text \<open>The slot a call returns is from then on with the task its caller is creating.\<close>

definition call_access :: "acq_sys \<Rightarrow> nat \<Rightarrow> acq_sys" where
  "call_access y k =
     (let c = as_calls y ! k in
      case acq_access (acq_pool y) (ac_me c) (ac_pc c) of
        (pc, p) \<Rightarrow> y\<lparr>as_life := (as_life y)\<lparr>sl_pool := p, sl_creating := received pc @ sl_creating (as_life y)\<rparr>,
          as_calls := (as_calls y)[k := (observe y c)\<lparr>ac_pc := pc\<rparr>]\<rparr>)"

inductive acq_step :: "acq_sys \<Rightarrow> acq_sys \<Rightarrow> bool" where
  Other: "life_step (as_life y) s \<Longrightarrow>
    acq_step y (y\<lparr>as_life := s, as_created := as_created y + (length (sl_live s) - acq_live y)\<rparr>)"
| Begin: "me_in me (acq_pool y) \<Longrightarrow> ac_me c = me \<Longrightarrow> ac_pc c = Own \<Longrightarrow> acq_step y (y\<lparr>as_calls := as_calls y @ [c]\<rparr>)"
| Access: "k < length (as_calls y) \<Longrightarrow> running (ac_pc (as_calls y ! k)) \<Longrightarrow> acq_step y (call_access y k)"

definition acq_init :: "nat \<Rightarrow> nat \<Rightarrow> nat \<Rightarrow> acq_sys \<Rightarrow> bool" where
  "acq_init workers maxTasks capacity y \<longleftrightarrow> life_init workers maxTasks capacity (as_life y) \<and> as_calls y = [] \<and> as_created y = 0"

section \<open>Invariant\<close>

definition upTo :: "u64 \<Rightarrow> u64 list \<Rightarrow> nat \<Rightarrow> nat" where
  "upTo x xs i = unat x + (\<Sum>j<i. unat (xs ! j))"

definition from_on :: "u64 list \<Rightarrow> nat \<Rightarrow> nat \<Rightarrow> nat" where
  "from_on xs i n = (\<Sum>j=i..<n. unat (xs ! j))"

definition workers_of :: "pool \<Rightarrow> nat" where
  "workers_of p = length (sp_caches p)"

definition createdTotal :: "pool \<Rightarrow> nat" where
  "createdTotal p = upTo (sp_foreignCreated p) (sp_tasksCreated p) (workers_of p)"

definition finishedTotal :: "pool \<Rightarrow> nat" where
  "finishedTotal p = upTo (sp_foreignFinished p) (sp_tasksFinished p) (workers_of p)"

definition started :: "acq_call \<Rightarrow> nat \<Rightarrow> bool" where
  "started c n \<longleftrightarrow> ac_liveAtStart c \<le> ac_createdAtStart c \<and> ac_createdAtStart c \<le> n"

definition call_inv :: "pool \<Rightarrow> nat \<Rightarrow> nat \<Rightarrow> acq_call \<Rightarrow> bool" where
  "call_inv p made live c = (case ac_pc c of
     Finished i a \<Rightarrow> i \<le> workers_of p \<and> started c made
       \<and> ac_createdAtStart c - ac_liveAtStart c \<le> unat a + from_on (sp_tasksFinished p) i (workers_of p)
       \<and> unat a \<le> upTo (sp_foreignFinished p) (sp_tasksFinished p) i
   | ForeignCreated a \<Rightarrow> started c made \<and> ac_createdAtStart c - ac_liveAtStart c \<le> unat a \<and> unat a \<le> made - live
   | Created i a b \<Rightarrow> i \<le> workers_of p \<and> started c made \<and> ac_createdAtStart c - ac_liveAtStart c \<le> unat a
       \<and> ac_liveAtTurn c \<le> ac_createdAtTurn c \<and> unat a \<le> ac_createdAtTurn c - ac_liveAtTurn c
       \<and> ac_createdAtTurn c \<le> unat b + from_on (sp_tasksCreated p) i (workers_of p)
       \<and> unat b \<le> upTo (sp_foreignCreated p) (sp_tasksCreated p) i
   | _ \<Rightarrow> True)"

definition counts_ok :: "acq_sys \<Rightarrow> bool" where
  "counts_ok y \<longleftrightarrow> acq_live y \<le> as_created y \<and> createdTotal (acq_pool y) = as_created y \<and> finishedTotal (acq_pool y) = as_created y - acq_live y
     \<and> (\<forall>c\<in>set (as_calls y). call_inv (acq_pool y) (as_created y) (acq_live y) c)"

definition acq_inv :: "acq_sys \<Rightarrow> bool" where
  "acq_inv y \<longleftrightarrow> life_inv (as_life y) \<and> (\<forall>c\<in>set (as_calls y). me_in (ac_me c) (acq_pool y)) \<and> (as_created y < 2 ^ 64 \<longrightarrow> counts_ok y)"

lemma upTo_0 [simp]: "upTo x xs 0 = unat x"
  by (simp add: upTo_def)

lemma upTo_Suc [simp]: "upTo x xs (Suc i) = upTo x xs i + unat (xs ! i)"
  by (simp add: upTo_def)

lemma from_on_step: "i < n \<Longrightarrow> from_on xs i n = unat (xs ! i) + from_on xs (Suc i) n"
  by (simp add: from_on_def sum.atLeast_Suc_lessThan)

lemma from_on_end [simp]: "from_on xs n n = 0"
  by (simp add: from_on_def)

lemma upTo_split: "i \<le> n \<Longrightarrow> upTo x xs n = upTo x xs i + from_on xs i n"
  by (simp add: upTo_def from_on_def sum.atLeastLessThan_concat [of 0 i n, symmetric] lessThan_atLeast0 flip: add.assoc)

text \<open>The counters only grow, as long as fewer than \<open>2 ^ 64\<close> tasks have been created.\<close>

definition grows :: "pool \<Rightarrow> pool \<Rightarrow> bool" where
  "grows p p' \<longleftrightarrow> workers_of p' = workers_of p
     \<and> sp_foreignFinished p \<le> sp_foreignFinished p' \<and> (\<forall>i<workers_of p. sp_tasksFinished p ! i \<le> sp_tasksFinished p' ! i)
     \<and> sp_foreignCreated p \<le> sp_foreignCreated p' \<and> (\<forall>i<workers_of p. sp_tasksCreated p ! i \<le> sp_tasksCreated p' ! i)"

lemma same_counts_grows: "same_counts p p' \<Longrightarrow> grows p p'"
  by (simp add: grows_def same_counts_def workers_of_def)

lemma same_counts_totals: "same_counts p p' \<Longrightarrow> createdTotal p' = createdTotal p \<and> finishedTotal p' = finishedTotal p"
  by (simp add: same_counts_def createdTotal_def finishedTotal_def workers_of_def)

lemma upTo_mono: "x \<le> x' \<Longrightarrow> (\<And>j. j < i \<Longrightarrow> xs ! j \<le> xs' ! j) \<Longrightarrow> upTo x xs i \<le> upTo x' xs' i"
  unfolding upTo_def by (intro add_mono sum_mono) (auto simp: word_le_nat_alt)

lemma from_on_mono: "(\<And>j. j < n \<Longrightarrow> xs ! j \<le> xs' ! j) \<Longrightarrow> from_on xs i n \<le> from_on xs' i n"
  unfolding from_on_def by (intro sum_mono) (auto simp: word_le_nat_alt)

lemma call_inv_mono:
  assumes g: "grows p p'" and "made \<le> made'" "made - live \<le> made' - live'" and c: "call_inv p made live c"
  shows "call_inv p' made' live' c"
proof -
  have w: "workers_of p' = workers_of p" using g by (simp add: grows_def)
  have u: "upTo (sp_foreignFinished p) (sp_tasksFinished p) i \<le> upTo (sp_foreignFinished p') (sp_tasksFinished p') i"
    "upTo (sp_foreignCreated p) (sp_tasksCreated p) i \<le> upTo (sp_foreignCreated p') (sp_tasksCreated p') i" if "i \<le> workers_of p" for i
    using g that by (auto simp: grows_def intro!: upTo_mono)
  have f: "from_on (sp_tasksFinished p) i (workers_of p) \<le> from_on (sp_tasksFinished p') i (workers_of p)"
    "from_on (sp_tasksCreated p) i (workers_of p) \<le> from_on (sp_tasksCreated p') i (workers_of p)" for i
    using g by (auto simp: grows_def intro!: from_on_mono)
  show ?thesis
  proof (cases "ac_pc c")
    case (Finished i a)
    then show ?thesis using c u(1) [of i] f(1) [of i] assms(2) unfolding call_inv_def w by (auto simp: started_def)
  next
    case (ForeignCreated a)
    then show ?thesis using c assms(2,3) unfolding call_inv_def by (auto simp: started_def)
  next
    case (Created i a b)
    then show ?thesis using c u(2) [of i] f(2) [of i] assms(2) unfolding call_inv_def w by (auto simp: started_def)
  qed (simp_all add: call_inv_def)
qed

text \<open>What an access does to the slots.\<close>

lemma popAccess_slots:
  assumes "pool_ok p" "popAccess p next = (pc, p')" "received next = []"
  shows "pool_ok p' \<and> same_counts p p' \<and> free_slots p = mset (received pc) + free_slots p'"
  using assms by (cases "sp_freeSlots p")
    (auto simp: popAccess_def popFreeSlot_def pool_ok_def same_counts_def free_slots_def received_def)

lemma cacheAccess_slots:
  assumes "pool_ok p" "w < length (sp_caches p)" "cacheAccess p w next = (pc, p')" "received next = []"
  shows "pool_ok p' \<and> same_counts p p' \<and> free_slots p = mset (received pc) + free_slots p'"
proof (cases "takeCached (sp_caches p ! w)")
  case None
  then show ?thesis using assms by (auto simp: cacheAccess_def same_counts_def)
next
  case (Some r)
  obtain slot c where r: "r = (slot, c)" by (cases r)
  have "cache_ok c" "cached (sp_caches p ! w) = cached c @ [slot]"
    using takeCached_law [OF pool_ok_nth [OF assms(1,2)]] Some r by auto
  then show ?thesis using assms Some r pool_ok_update [OF assms(1), of c w]
      free_slots_moved [OF assms(2), where c = c and free = "sp_freeSlots p" and X = "{#slot#}" and Y = "{#}"]
    by (auto simp: cacheAccess_def same_counts_def received_def)
qed

lemma refill_slots:
  assumes "pool_ok p" "w < length (sp_caches p)"
  shows "pool_ok (refill p w) \<and> same_counts p (refill p w) \<and> free_slots (refill p w) = free_slots p"
proof -
  obtain c free where f: "fillCache (sp_caches p ! w) (sp_freeSlots p) = (c, free)" by (metis surj_pair)
  note l = fillCache_law [OF pool_ok_nth [OF assms] f]
  then show ?thesis using assms f pool_ok_update [OF assms(1), of c w]
      free_slots_moved [OF assms(2), where c = c and free = free and X = "{#}" and Y = "{#}"]
    by (auto simp: refill_def same_counts_def pool_ok_def)
qed

lemma acq_access_slots:
  assumes ok: "pool_ok p" and me: "me_in me p" and r: "running pc" and a: "acq_access p me pc = (pc', p')"
  shows "pool_ok p' \<and> same_counts p p' \<and> free_slots p = mset (received pc') + free_slots p'"
proof (cases pc)
  case Own
  show ?thesis
  proof (cases me)
    case None
    then show ?thesis using a Own by (intro popAccess_slots [OF ok]) (auto simp: acq_access_def received_def)
  next
    case (Some w)
    have w: "w < length (sp_caches p)" using me Some by (simp add: me_in_def)
    note f = refill_slots [OF ok w]
    have "pool_ok p' \<and> same_counts (refill p w) p' \<and> free_slots (refill p w) = mset (received pc') + free_slots p'"
      using f w a Own Some by (intro cacheAccess_slots) (auto simp: acq_access_def received_def same_counts_def)
    then show ?thesis using f by (simp add: same_counts_def)
  qed
next
  case (Scan i)
  show ?thesis
  proof (cases "i < length (sp_caches p) \<and> me \<noteq> Some i")
    case True
    then show ?thesis using a Scan by (intro cacheAccess_slots [OF ok, of i]) (auto simp: acq_access_def received_def)
  next
    case False
    then show ?thesis using a Scan ok by (auto simp: acq_access_def received_def same_counts_def split: if_splits)
  qed
next
  case LastPop
  then show ?thesis using a by (intro popAccess_slots [OF ok]) (auto simp: acq_access_def received_def)
qed (use a ok r in \<open>auto simp: acq_access_def received_def same_counts_def running_def split: if_splits\<close>)

text \<open>What a step of another thread does to the counters.\<close>

lemma unat_bump:
  fixes x :: u64
  shows "unat x + 1 < 2 ^ 64 \<Longrightarrow> unat (x + 1) = unat x + 1 \<and> x \<le> x + 1"
  by (simp add: unat_word_ariths word_le_nat_alt)

lemma upTo_bump:
  assumes "i < n" "n \<le> length xs" "upTo x xs n + 1 < 2 ^ 64"
  shows "upTo x (xs[i := xs ! i + 1]) n = upTo x xs n + 1 \<and> (\<forall>j<n. xs ! j \<le> (xs[i := xs ! i + 1]) ! j)"
proof -
  have "upTo x xs n = unat x + unat (xs ! i) + (\<Sum>j\<in>{..<n} - {i}. unat (xs ! j))"
    using assms(1) by (simp add: upTo_def sum.remove [of _ i])
  moreover have "upTo x (xs[i := xs ! i + 1]) n = unat x + unat (xs ! i + 1) + (\<Sum>j\<in>{..<n} - {i}. unat (xs ! j))"
    using assms(1,2) by (simp add: upTo_def sum.remove [of _ i])
  ultimately show ?thesis using assms unat_bump [of "xs ! i"] by (auto simp: nth_list_update)
qed

lemma bump_foreign:
  "upTo x xs n + 1 < 2 ^ 64 \<Longrightarrow> upTo (x + 1) xs n = upTo x xs n + 1 \<and> x \<le> x + 1"
  using unat_bump [of x] by (simp add: upTo_def)

lemma countCreated_counts:
  assumes "me_in me p" "length (sp_tasksCreated p) = length (sp_caches p)" "createdTotal p + 1 < 2 ^ 64"
  shows "createdTotal (countCreated p me) = createdTotal p + 1 \<and> finishedTotal (countCreated p me) = finishedTotal p \<and> grows p (countCreated p me)"
proof (cases me)
  case None
  then show ?thesis using bump_foreign [of "sp_foreignCreated p" "sp_tasksCreated p" "workers_of p"] assms(3)
    by (simp add: countCreated_def createdTotal_def finishedTotal_def grows_def workers_of_def)
next
  case (Some w)
  then show ?thesis using upTo_bump [of w "workers_of p" "sp_tasksCreated p" "sp_foreignCreated p"] assms
    by (simp add: countCreated_def createdTotal_def finishedTotal_def grows_def workers_of_def me_in_def)
qed

lemma countFinished_counts:
  assumes "me_in me p" "length (sp_tasksFinished p) = length (sp_caches p)" "finishedTotal p + 1 < 2 ^ 64"
  shows "finishedTotal (countFinished p me) = finishedTotal p + 1 \<and> createdTotal (countFinished p me) = createdTotal p \<and> grows p (countFinished p me)"
proof (cases me)
  case None
  then show ?thesis using bump_foreign [of "sp_foreignFinished p" "sp_tasksFinished p" "workers_of p"] assms(3)
    by (simp add: countFinished_def createdTotal_def finishedTotal_def grows_def workers_of_def)
next
  case (Some w)
  then show ?thesis using upTo_bump [of w "workers_of p" "sp_tasksFinished p" "sp_foreignFinished p"] assms
    by (simp add: countFinished_def createdTotal_def finishedTotal_def grows_def workers_of_def me_in_def)
qed

text \<open>A step of another thread: slots only move, or one task is counted.\<close>

lemma life_step_counts:
  assumes inv: "life_inv s" and step: "life_step s s'"
  shows "(same_counts (sl_pool s) (sl_pool s') \<and> sl_live s' = sl_live s)
    \<or> (\<exists>me. me_in me (sl_pool s) \<and> sl_pool s' = countCreated (sl_pool s) me \<and> length (sl_live s') = length (sl_live s) + 1)
    \<or> (\<exists>me. me_in me (sl_pool s) \<and> sl_pool s' = countFinished (sl_pool s) me \<and> length (sl_live s) = length (sl_live s') + 1)"
  using step
proof cases
  case (Acquire me slot p)
  have "pool_ok (sl_pool s)" using inv by (simp add: life_inv_def)
  from acquired_found [OF this Acquire(2,3)] show ?thesis using Acquire(1) by (simp add: found_def)
next
  case (Refused me r p)
  have "pool_ok (sl_pool s)" using inv by (simp add: life_inv_def)
  from acquired_found [OF this Refused(2,3)] show ?thesis using Refused(1) by (simp add: found_def)
next
  case (Abort me slot p)
  then have "used s \<noteq> {#}" by (auto simp: used_def)
  from release_found(1) [OF inv Abort(2) this Abort(4)] show ?thesis using Abort(1) by simp
next
  case (Release me slot p)
  then have "used s \<noteq> {#}" by (auto simp: used_def)
  from release_found(1) [OF inv Release(2) this Release(4)] show ?thesis using Release(1) by simp
next
  case (Create me slot)
  then show ?thesis by auto
next
  case (Finish me slot)
  then show ?thesis using length_pos_if_in_set [OF Finish(3)] by (auto simp: length_remove1)
qed

text \<open>What an access adds to what a call knows.\<close>

lemma unat_plus_below:
  fixes a x :: u64
  shows "unat a + unat x < 2 ^ 64 \<Longrightarrow> unat (a + x) = unat a + unat x"
  by (simp add: unat_word_ariths)

lemma upTo_le: "i \<le> n \<Longrightarrow> upTo x xs i \<le> upTo x xs n"
  using upTo_split [of i n x xs] by simp

lemma popAccess_pc: "popAccess p next = (pc, p') \<Longrightarrow> pc = next \<or> (\<exists>slot. pc = Returned (Some slot))"
  by (auto simp: popAccess_def split: option.splits)

lemma cacheAccess_pc: "cacheAccess p w next = (pc, p') \<Longrightarrow> pc = next \<or> (\<exists>slot. pc = Returned (Some slot))"
  by (auto simp: cacheAccess_def split: option.splits)

lemma searching_pc:
  assumes "acq_access p me pc = (pc', p')" "pc \<in> {Own, LastPop} \<union> range Scan"
  shows "pc' \<in> {LastPop, ForeignFinished} \<union> range Scan \<union> range (\<lambda>slot. Returned (Some slot))"
  using assms popAccess_pc [of p _ pc' p'] cacheAccess_pc [of _ _ _ pc' p']
  by (auto simp: acq_access_def split: option.splits if_splits) fastforce+

lemma access_call_inv:
  assumes y: "acq_live y \<le> as_created y" "createdTotal (acq_pool y) = as_created y" "finishedTotal (acq_pool y) = as_created y - acq_live y" "as_created y < 2 ^ 64"
    and c: "call_inv (acq_pool y) (as_created y) (acq_live y) c" and a: "acq_access (acq_pool y) (ac_me c) (ac_pc c) = (pc, p)"
  shows "call_inv (acq_pool y) (as_created y) (acq_live y) ((observe y c)\<lparr>ac_pc := pc\<rparr>)"
proof (cases "ac_pc c")
  case ForeignFinished
  then have pc: "pc = Finished 0 (sp_foreignFinished (acq_pool y))" using a by (auto simp: acq_access_def)
  have "as_created y - acq_live y = unat (sp_foreignFinished (acq_pool y)) + from_on (sp_tasksFinished (acq_pool y)) 0 (workers_of (acq_pool y))"
    using y(3) upTo_split [of 0 "workers_of (acq_pool y)" "sp_foreignFinished (acq_pool y)"] by (simp add: finishedTotal_def)
  then show ?thesis using ForeignFinished y(1) unfolding pc by (simp add: call_inv_def observe_def started_def)
next
  case (Finished i n)
  let ?xs = "sp_tasksFinished (acq_pool y)" and ?x = "sp_foreignFinished (acq_pool y)" and ?w = "workers_of (acq_pool y)"
  have i: "i \<le> ?w" "unat n \<le> upTo ?x ?xs i" using c Finished by (simp_all add: call_inv_def)
  show ?thesis
  proof (cases "i < ?w")
    case True
    then have pc: "pc = Finished (i + 1) (n + ?xs ! i)" using a Finished by (auto simp: acq_access_def workers_of_def)
    have "upTo ?x ?xs (Suc i) < 2 ^ 64" using upTo_le [of "Suc i" ?w ?x ?xs] True y(3,4) by (simp add: finishedTotal_def)
    then have "unat (n + ?xs ! i) = unat n + unat (?xs ! i)" using i(2) by (intro unat_plus_below) simp
    then show ?thesis using c Finished True i from_on_step [OF True, of ?xs] unfolding pc by (simp add: call_inv_def observe_def started_def)
  next
    case False
    then have pc: "pc = ForeignCreated n" "i = ?w" using a Finished i(1) by (auto simp: acq_access_def workers_of_def)
    then show ?thesis using c Finished y(3) by (simp add: call_inv_def observe_def started_def finishedTotal_def)
  qed
next
  case (ForeignCreated n)
  then have pc: "pc = Created 0 n (sp_foreignCreated (acq_pool y))" using a by (auto simp: acq_access_def)
  have "as_created y = unat (sp_foreignCreated (acq_pool y)) + from_on (sp_tasksCreated (acq_pool y)) 0 (workers_of (acq_pool y))"
    using y(2) upTo_split [of 0 "workers_of (acq_pool y)" "sp_foreignCreated (acq_pool y)"] by (simp add: createdTotal_def)
  then show ?thesis using c ForeignCreated y(1) unfolding pc by (simp add: call_inv_def observe_def started_def)
next
  case (Created i n m)
  let ?xs = "sp_tasksCreated (acq_pool y)" and ?x = "sp_foreignCreated (acq_pool y)" and ?w = "workers_of (acq_pool y)"
  have i: "i \<le> ?w" "unat m \<le> upTo ?x ?xs i" using c Created by (simp_all add: call_inv_def)
  show ?thesis
  proof (cases "i < ?w")
    case True
    then have pc: "pc = Created (i + 1) n (m + ?xs ! i)" using a Created by (auto simp: acq_access_def workers_of_def)
    have "upTo ?x ?xs (Suc i) < 2 ^ 64" using upTo_le [of "Suc i" ?w ?x ?xs] True y(2,4) by (simp add: createdTotal_def)
    then have "unat (m + ?xs ! i) = unat m + unat (?xs ! i)" using i(2) by (intro unat_plus_below) simp
    then show ?thesis using c Created True i from_on_step [OF True, of ?xs] unfolding pc by (simp add: call_inv_def observe_def started_def)
  next
    case False
    then have "pc = Returned None \<or> pc = Own" using a Created by (auto simp: acq_access_def workers_of_def split: if_splits)
    then show ?thesis by (auto simp: call_inv_def)
  qed
next
  case (Returned r)
  then have pc: "pc = Returned r" using a by (auto simp: acq_access_def)
  show ?thesis unfolding pc by (simp add: call_inv_def)
qed (use searching_pc [OF a] in \<open>auto simp: call_inv_def\<close>)

text \<open>The verdict: never fewer than were alive at the turn, never more than were alive at the start or
  created since.\<close>

lemma verdict_bounds:
  assumes y: "createdTotal (acq_pool y) = as_created y"
    and c: "call_inv (acq_pool y) (as_created y) (acq_live y) c" and pc: "ac_pc c = Created (workers_of (acq_pool y)) a b"
  shows "ac_liveAtTurn c \<le> unat (b - a)" "unat (b - a) \<le> ac_liveAtStart c + (as_created y - ac_createdAtStart c)"
proof -
  have h: "ac_createdAtStart c - ac_liveAtStart c \<le> unat a" "ac_liveAtTurn c \<le> ac_createdAtTurn c" "unat a \<le> ac_createdAtTurn c - ac_liveAtTurn c"
    "ac_createdAtTurn c \<le> unat b" "unat b \<le> as_created y" "started c (as_created y)"
    using c pc y by (simp_all add: call_inv_def createdTotal_def)
  then have "unat (b - a) = unat b - unat a" by (simp add: unat_sub word_le_nat_alt)
  then show "ac_liveAtTurn c \<le> unat (b - a)" "unat (b - a) \<le> ac_liveAtStart c + (as_created y - ac_createdAtStart c)"
    using h by (auto simp: started_def)
qed

lemma other_counts:
  assumes y: "life_inv (as_life y)" "counts_ok y" "as_created y + (length (sl_live s) - acq_live y) < 2 ^ 64" and st: "life_step (as_life y) s"
  shows "counts_ok (y\<lparr>as_life := s, as_created := as_created y + (length (sl_live s) - acq_live y)\<rparr>)"
proof -
  let ?p = "acq_pool y" and ?p' = "sl_pool s" and ?made = "as_created y + (length (sl_live s) - acq_live y)"
  have l: "length (sp_tasksCreated ?p) = length (sp_caches ?p)" "length (sp_tasksFinished ?p) = length (sp_caches ?p)"
    using y(1) by (simp_all add: life_inv_def acq_pool_def)
  have c: "acq_live y \<le> as_created y" "createdTotal ?p = as_created y" "finishedTotal ?p = as_created y - acq_live y"
    "\<And>c. c \<in> set (as_calls y) \<Longrightarrow> call_inv ?p (as_created y) (acq_live y) c"
    using y(2) by (simp_all add: counts_ok_def)
  from life_step_counts [OF y(1) st]
  have "grows ?p ?p' \<and> length (sl_live s) \<le> ?made \<and> createdTotal ?p' = ?made \<and> finishedTotal ?p' = ?made - length (sl_live s)
    \<and> as_created y - acq_live y \<le> ?made - length (sl_live s)"
  proof (elim disjE exE conjE)
    assume "same_counts (sl_pool (as_life y)) (sl_pool s)" "sl_live s = sl_live (as_life y)"
    then show ?thesis using same_counts_grows same_counts_totals c by (simp add: acq_pool_def acq_live_def)
  next
    fix me
    assume m: "me_in me (sl_pool (as_life y))" "sl_pool s = countCreated (sl_pool (as_life y)) me" "length (sl_live s) = length (sl_live (as_life y)) + 1"
    then have "createdTotal ?p + 1 < 2 ^ 64" using y(3) c(2) by (simp add: acq_live_def)
    from countCreated_counts [OF _ l(1) this, of me] m c show ?thesis by (simp add: acq_pool_def acq_live_def)
  next
    fix me
    assume m: "me_in me (sl_pool (as_life y))" "sl_pool s = countFinished (sl_pool (as_life y)) me" "length (sl_live (as_life y)) = length (sl_live s) + 1"
    then have "finishedTotal ?p + 1 < 2 ^ 64" using y(3) c(1,3) by (simp add: acq_live_def)
    from countFinished_counts [OF _ l(2) this, of me] m c show ?thesis by (auto simp: acq_pool_def acq_live_def)
  qed
  note g = this
  then have "call_inv ?p' ?made (length (sl_live s)) x" if "x \<in> set (as_calls y)" for x
    using call_inv_mono [OF _ _ _ c(4) [OF that], of ?p' ?made "length (sl_live s)"] by simp
  then show ?thesis using g by (simp add: counts_ok_def acq_pool_def acq_live_def)
qed

lemma access_inv:
  assumes inv: "acq_inv y" and k: "k < length (as_calls y)" "running (ac_pc (as_calls y ! k))"
  shows "acq_inv (call_access y k)"
proof -
  let ?c = "as_calls y ! k" and ?s = "as_life y"
  obtain pc p where a: "acq_access (acq_pool y) (ac_me ?c) (ac_pc ?c) = (pc, p)" by (metis surj_pair)
  have c: "?c \<in> set (as_calls y)" using k(1) by simp
  have life: "life_inv ?s" and me: "\<And>c. c \<in> set (as_calls y) \<Longrightarrow> me_in (ac_me c) (acq_pool y)" using inv by (simp_all add: acq_inv_def)
  then have "pool_ok (acq_pool y)" by (simp add: life_inv_def acq_pool_def)
  note sl = acq_access_slots [OF this me [OF c] k(2) a]
  let ?s' = "?s\<lparr>sl_pool := p, sl_creating := received pc @ sl_creating ?s\<rparr>" and ?c' = "(observe y ?c)\<lparr>ac_pc := pc\<rparr>"
  have y': "call_access y k = y\<lparr>as_life := ?s', as_calls := (as_calls y)[k := ?c']\<rparr>" using a by (simp add: call_access_def)
  have "life_inv ?s'" by (rule life_inv_pool [OF life, of p]) (use sl in \<open>simp_all add: used_def acq_pool_def ac_simps\<close>)
  moreover have "me_in me p = me_in me (acq_pool y)" for me using sl by (simp add: me_in_def same_counts_def split: option.splits)
  moreover have "ac_me ?c' = ac_me ?c" by (simp add: observe_def split: acq_pc.splits)
  moreover have "counts_ok (call_access y k)" if s: "as_created y < 2 ^ 64"
  proof -
    have ok: "counts_ok y" using inv s by (simp add: acq_inv_def)
    then have "call_inv (acq_pool y) (as_created y) (acq_live y) ?c'"
      using access_call_inv [OF _ _ _ s _ a] c by (simp add: counts_ok_def)
    then have "x \<in> set ((as_calls y)[k := ?c']) \<Longrightarrow> call_inv (acq_pool y) (as_created y) (acq_live y) x" for x
      using ok set_update_subset_insert [of "as_calls y" k ?c'] by (auto simp: counts_ok_def)
    then have "x \<in> set ((as_calls y)[k := ?c']) \<Longrightarrow> call_inv p (as_created y) (acq_live y) x" for x
      using sl by (blast intro: call_inv_mono [OF same_counts_grows])
    then show ?thesis using ok sl same_counts_totals [of "acq_pool y" p]
      unfolding y' by (simp add: counts_ok_def acq_live_def acq_pool_def)
  qed
  ultimately show ?thesis using me c set_update_subset_insert [of "as_calls y" k ?c'] unfolding y' by (auto simp: acq_inv_def acq_pool_def)
qed

lemma life_step_me:
  assumes "life_inv s" "life_step s s'"
  shows "me_in me (sl_pool s') = me_in me (sl_pool s)"
proof -
  have "length (sp_caches (countCreated p m)) = length (sp_caches p)" "length (sp_caches (countFinished p m)) = length (sp_caches p)" for p m
    by (simp_all add: countCreated_def countFinished_def split: option.splits)
  then have "length (sp_caches (sl_pool s')) = length (sp_caches (sl_pool s))"
    using life_step_counts [OF assms] by (auto simp: same_counts_def)
  then show ?thesis by (cases me) (simp_all add: me_in_def)
qed

lemma acq_step_inv:
  assumes inv: "acq_inv y" and step: "acq_step y y'"
  shows "acq_inv y'"
  using step
proof cases
  case (Other s)
  have l: "life_inv (as_life y)" using inv by (simp add: acq_inv_def)
  have "counts_ok y'" if "as_created y' < 2 ^ 64"
    unfolding Other(1) by (rule other_counts [OF l]) (use that inv Other in \<open>simp_all add: acq_inv_def\<close>)
  then show ?thesis using inv life_step_inv [OF l Other(2)] life_step_me [OF l Other(2)]
    by (auto simp: acq_inv_def acq_pool_def Other(1))
next
  case (Begin me c)
  then show ?thesis using inv by (auto simp: acq_inv_def counts_ok_def acq_pool_def acq_live_def call_inv_def)
next
  case (Access k)
  then show ?thesis using access_inv [OF inv] by simp
qed

lemma acq_init_inv:
  assumes "acq_init workers maxTasks capacity y"
  shows "acq_inv y"
proof -
  have li: "life_init workers maxTasks capacity (as_life y)" using assms by (simp add: acq_init_def)
  then have "newPool workers maxTasks capacity = Some (acq_pool y)" by (simp add: life_init_def acq_pool_def)
  then obtain free where p: "\<lparr>sp_freeSlots = free, sp_capacity = capacity,
      sp_caches = replicate workers \<lparr>ca_slots = replicate kCapacity 0, ca_count = 0\<rparr>, sp_tasksCreated = replicate workers 0,
      sp_tasksFinished = replicate workers 0, sp_foreignCreated = 0, sp_foreignFinished = 0, sp_maxTasks = maxTasks\<rparr> = acq_pool y"
    by (auto simp: newPool_def)
  have "createdTotal (acq_pool y) = 0" "finishedTotal (acq_pool y) = 0"
    by (simp_all add: p [symmetric] createdTotal_def finishedTotal_def upTo_def workers_of_def)
  then show ?thesis using assms life_init_inv [OF li] li by (simp add: acq_inv_def counts_ok_def acq_init_def acq_live_def life_init_def)
qed

interpretation slot_calls: step_system "acq_init n m c" acq_step acq_inv
  by unfold_locales (fact acq_init_inv, fact acq_step_inv)

section \<open>A round that no other thread disturbs\<close>

definition alone :: "nat option \<Rightarrow> acq_pc \<times> pool \<Rightarrow> acq_pc \<times> pool \<Rightarrow> bool" where
  "alone me x x' \<longleftrightarrow> running (fst x) \<and> acq_access (snd x) me (fst x) = x'"

definition outcome :: "acquired \<Rightarrow> acq_pc" where
  "outcome r = (case r of Acquired slot \<Rightarrow> Returned (Some slot) | Exhausted \<Rightarrow> Returned None | Retry \<Rightarrow> Own)"

lemma alone_step: "running pc \<Longrightarrow> acq_access p me pc = x \<Longrightarrow> (alone me)\<^sup>*\<^sup>* x z \<Longrightarrow> (alone me)\<^sup>*\<^sup>* (pc, p) z"
  by (rule converse_rtranclp_into_rtranclp [where b = x]) (simp_all add: alone_def)

lemma alone_scan:
  "i \<le> length (sp_caches p) \<Longrightarrow> (alone me)\<^sup>*\<^sup>* (Scan i, p)
    (case scanCaches me (sp_caches p) [i..<length (sp_caches p)] of
       Some (slot, cs) \<Rightarrow> (Returned (Some slot), p\<lparr>sp_caches := cs\<rparr>) | None \<Rightarrow> (LastPop, p))"
proof (induction "length (sp_caches p) - i" arbitrary: i)
  case 0
  then show ?case by (intro r_into_rtranclp) (simp add: alone_def running_def acq_access_def)
next
  case (Suc n)
  then have i: "i < length (sp_caches p)" by simp
  then have u: "[i..<length (sp_caches p)] = i # [i + 1..<length (sp_caches p)]" by (simp add: upt_conv_Cons)
  have ih: "(alone me)\<^sup>*\<^sup>* (Scan (i + 1), p)
      (case scanCaches me (sp_caches p) [i + 1..<length (sp_caches p)] of
         Some (slot, cs) \<Rightarrow> (Returned (Some slot), p\<lparr>sp_caches := cs\<rparr>) | None \<Rightarrow> (LastPop, p))"
    by (rule Suc(1)) (use Suc i in simp_all)
  show ?case
  proof (cases "me = Some i \<or> takeCached (sp_caches p ! i) = None")
    case True
    then have "acq_access p me (Scan i) = (Scan (i + 1), p)" using i by (auto simp: acq_access_def cacheAccess_def)
    from alone_step [OF _ this ih] True show ?thesis unfolding u by (auto simp: running_def)
  next
    case False
    then show ?thesis using i unfolding u by (intro alone_step [OF _ refl]) (auto simp: running_def acq_access_def cacheAccess_def)
  qed
qed

lemma alone_finished:
  "i \<le> workers_of p \<Longrightarrow> (alone me)\<^sup>*\<^sup>* (Finished i a, p) (ForeignCreated (a + (\<Sum>j=i..<workers_of p. sp_tasksFinished p ! j)), p)"
proof (induction "workers_of p - i" arbitrary: i a)
  case 0
  then show ?case by (intro alone_step [OF _ refl]) (simp_all add: running_def acq_access_def workers_of_def)
next
  case (Suc n)
  then have i: "i < workers_of p" by simp
  have "(alone me)\<^sup>*\<^sup>* (Finished (i + 1) (a + sp_tasksFinished p ! i), p)
      (ForeignCreated (a + sp_tasksFinished p ! i + (\<Sum>j=i+1..<workers_of p. sp_tasksFinished p ! j)), p)"
    by (rule Suc(1)) (use Suc i in simp_all)
  then show ?case using i by (intro alone_step [OF _ refl]) (simp_all add: running_def acq_access_def workers_of_def sum.atLeast_Suc_lessThan ac_simps)
qed

lemma alone_created:
  "i \<le> workers_of p \<Longrightarrow> (alone me)\<^sup>*\<^sup>* (Created i a b, p)
    (if sp_maxTasks p \<le> unat (b + (\<Sum>j=i..<workers_of p. sp_tasksCreated p ! j) - a) then Returned None else Own, p)"
proof (induction "workers_of p - i" arbitrary: i b)
  case 0
  then show ?case by (intro alone_step [OF _ refl]) (simp_all add: running_def acq_access_def workers_of_def)
next
  case (Suc n)
  then have i: "i < workers_of p" by simp
  have "(alone me)\<^sup>*\<^sup>* (Created (i + 1) a (b + sp_tasksCreated p ! i), p)
      (if sp_maxTasks p \<le> unat (b + sp_tasksCreated p ! i + (\<Sum>j=i+1..<workers_of p. sp_tasksCreated p ! j) - a) then Returned None else Own, p)"
    by (rule Suc(1)) (use Suc i in simp_all)
  then show ?case using i by (intro alone_step [OF _ refl]) (simp_all add: running_def acq_access_def workers_of_def sum.atLeast_Suc_lessThan ac_simps)
qed

lemma alone_count:
  "(alone me)\<^sup>*\<^sup>* (ForeignFinished, p) (if sp_maxTasks p \<le> unat (liveTasks p) then Returned None else Own, p)"
proof -
  let ?n = "workers_of p"
  let ?f = "sp_foreignFinished p + (\<Sum>j=0..<?n. sp_tasksFinished p ! j)"
  have a: "(alone me)\<^sup>*\<^sup>* (ForeignFinished, p) (ForeignCreated ?f, p)"
    using alone_finished [of 0 p me "sp_foreignFinished p"] by (intro alone_step [OF _ refl]) (simp_all add: running_def acq_access_def)
  have b: "(alone me)\<^sup>*\<^sup>* (ForeignCreated ?f, p)
      (if sp_maxTasks p \<le> unat (sp_foreignCreated p + (\<Sum>j=0..<?n. sp_tasksCreated p ! j) - ?f) then Returned None else Own, p)"
    using alone_created [of 0 p me ?f "sp_foreignCreated p"] by (intro alone_step [OF _ refl]) (simp_all add: running_def acq_access_def)
  show ?thesis using rtranclp_trans [OF a b] by (simp add: liveTasks_eq workers_of_def lessThan_atLeast0)
qed

lemma alone_lastPop:
  "(alone me)\<^sup>*\<^sup>* (LastPop, p) (case popFreeSlot (sp_freeSlots p) of
     Some (slot, free) \<Rightarrow> (Returned (Some slot), p\<lparr>sp_freeSlots := free\<rparr>)
   | None \<Rightarrow> (if sp_maxTasks p \<le> unat (liveTasks p) then Returned None else Own, p))"
  by (rule alone_step [OF _ refl])
     (use alone_count [of me p] in \<open>auto simp: running_def acq_access_def popAccess_def split: option.splits\<close>)

lemma alone_scanAndPop:
  "(alone me)\<^sup>*\<^sup>* (Scan 0, p) (case scanAndPop p me of
     (Some slot, p') \<Rightarrow> (Returned (Some slot), p')
   | (None, p') \<Rightarrow> (if sp_maxTasks p' \<le> unat (liveTasks p') then Returned None else Own, p'))"
proof (cases "scanCaches me (sp_caches p) [0..<length (sp_caches p)]")
  case None
  then have "(alone me)\<^sup>*\<^sup>* (Scan 0, p) (LastPop, p)" using alone_scan [of 0 p me] by simp
  from rtranclp_trans [OF this alone_lastPop] show ?thesis using None by (auto simp: scanAndPop_def split: option.splits)
next
  case (Some r)
  then show ?thesis using alone_scan [of 0 p me] by (auto simp: scanAndPop_def split: option.splits prod.splits)
qed

lemma tryAcquireSlot_own:
  "tryAcquireSlot p (Some w) =
     (case takeCached (sp_caches (refill p w) ! w) of
        Some (slot, c) \<Rightarrow> (Some slot, (refill p w)\<lparr>sp_caches := (sp_caches (refill p w))[w := c]\<rparr>)
      | None \<Rightarrow> scanAndPop (refill p w) (Some w))" if "w < length (sp_caches p)"
  using that by (auto simp: tryAcquireSlot_def refill_def Let_def split: prod.splits option.splits)

lemma round_alone:
  assumes "me_in me p" "acquireSlot_round p me = (r, p')"
  shows "(alone me)\<^sup>*\<^sup>* (Own, p) (outcome r, p')"
proof -
  have o: "(outcome r, p') = (case tryAcquireSlot p me of
      (Some slot, p') \<Rightarrow> (Returned (Some slot), p')
    | (None, p') \<Rightarrow> (if sp_maxTasks p' \<le> unat (liveTasks p') then Returned None else Own, p'))"
    using assms(2) by (auto simp: acquireSlot_round_def outcome_def split: prod.splits option.splits)
  show ?thesis
  proof (cases me)
    case None
    show ?thesis unfolding o
      by (rule alone_step [OF _ refl])
         (use alone_scanAndPop [of me p] None in \<open>auto simp: running_def acq_access_def popAccess_def tryAcquireSlot_def split: option.splits\<close>)
  next
    case (Some w)
    have w: "w < length (sp_caches p)" using assms(1) Some by (simp add: me_in_def)
    show ?thesis unfolding o
      by (rule alone_step [OF _ refl])
         (use alone_scanAndPop [of me "refill p w"] Some tryAcquireSlot_own [OF w] in
           \<open>auto simp: running_def acq_access_def cacheAccess_def split: option.splits\<close>)
  qed
qed

section \<open>Giving up with a slot free\<close>

text \<open>One worker, two slots, all threads foreign: the first task is alive and the second slot is with a
  task being created when a call begins.  Between its two passes over the counters the first task ends
  and gives its slot back, and only then the second task is counted: never more than one task is
  alive, but the call sees two.\<close>

definition stale_start :: acq_sys where
  "stale_start = \<lparr>as_life = \<lparr>sl_pool = the (newPool 1 2 8), sl_creating = [], sl_live = [], sl_finishing = []\<rparr>, as_calls = [], as_created = 0\<rparr>"

definition foreign_call :: acq_call where
  "foreign_call = \<lparr>ac_me = None, ac_pc = Own, ac_liveAtStart = 0, ac_createdAtStart = 0, ac_liveAtTurn = 0, ac_createdAtTurn = 0\<rparr>"

definition life_then :: "acq_sys \<Rightarrow> slot_life \<Rightarrow> acq_sys" where
  "life_then y s = y\<lparr>as_life := s, as_created := as_created y + (length (sl_live s) - acq_live y)\<rparr>"

definition foreign_acquire :: "acq_sys \<Rightarrow> acq_sys" where
  "foreign_acquire y = (case acquireSlot_round (acq_pool y) None of
     (Acquired slot, p) \<Rightarrow> life_then y ((as_life y)\<lparr>sl_pool := p, sl_creating := slot # sl_creating (as_life y)\<rparr>)
   | _ \<Rightarrow> y)"

definition foreign_create :: "acq_sys \<Rightarrow> nat \<Rightarrow> acq_sys" where
  "foreign_create y slot = life_then y ((as_life y)\<lparr>sl_pool := countCreated (acq_pool y) None,
     sl_creating := remove1 slot (sl_creating (as_life y)), sl_live := slot # sl_live (as_life y)\<rparr>)"

definition foreign_finish :: "acq_sys \<Rightarrow> nat \<Rightarrow> acq_sys" where
  "foreign_finish y slot = life_then y ((as_life y)\<lparr>sl_pool := countFinished (acq_pool y) None,
     sl_live := remove1 slot (sl_live (as_life y)), sl_finishing := slot # sl_finishing (as_life y)\<rparr>)"

definition foreign_release :: "acq_sys \<Rightarrow> nat \<Rightarrow> acq_sys" where
  "foreign_release y slot = life_then y ((as_life y)\<lparr>sl_pool := the (releaseSlot (acq_pool y) None slot),
     sl_finishing := remove1 slot (sl_finishing (as_life y))\<rparr>)"

fun accesses :: "acq_sys \<Rightarrow> nat \<Rightarrow> acq_sys" where
  "accesses y 0 = y"
| "accesses y (Suc n) = accesses (call_access y 0) n"

fun all_running :: "acq_sys \<Rightarrow> nat \<Rightarrow> bool" where
  "all_running y 0 = True"
| "all_running y (Suc n) = (0 < length (as_calls y) \<and> running (ac_pc (as_calls y ! 0)) \<and> all_running (call_access y 0) n)"

lemma accesses_steps: "all_running y n \<Longrightarrow> acq_step\<^sup>*\<^sup>* y (accesses y n)"
proof (induction n arbitrary: y)
  case (Suc n)
  then have "acq_step y (call_access y 0)" using Access [of 0 y] by simp
  then show ?case using Suc by (simp add: converse_rtranclp_into_rtranclp)
qed simp

lemma foreign_steps:
  "(\<exists>slot p. acquireSlot_round (acq_pool y) None = (Acquired slot, p)) \<Longrightarrow> acq_step y (foreign_acquire y)"
  "slot \<in> set (sl_creating (as_life y)) \<Longrightarrow> acq_step y (foreign_create y slot)"
  "slot \<in> set (sl_live (as_life y)) \<Longrightarrow> acq_step y (foreign_finish y slot)"
  "slot \<in> set (sl_finishing (as_life y)) \<Longrightarrow> releaseSlot (acq_pool y) None slot \<noteq> None \<Longrightarrow> acq_step y (foreign_release y slot)"
proof -
  have n: "me_in None p" for p by (simp add: me_in_def)
  show "acq_step y (foreign_acquire y)" if "\<exists>slot p. acquireSlot_round (acq_pool y) None = (Acquired slot, p)"
    using that Other [OF Acquire [OF n], of y] by (auto simp: foreign_acquire_def life_then_def acq_pool_def)
  show "acq_step y (foreign_create y slot)" if "slot \<in> set (sl_creating (as_life y))"
    using Other [OF Create [OF n that]] by (simp add: foreign_create_def life_then_def acq_pool_def)
  show "acq_step y (foreign_finish y slot)" if "slot \<in> set (sl_live (as_life y))"
    using Other [OF Finish [OF n that]] by (simp add: foreign_finish_def life_then_def acq_pool_def)
  show "acq_step y (foreign_release y slot)" if "slot \<in> set (sl_finishing (as_life y))" "releaseSlot (acq_pool y) None slot \<noteq> None"
    using Other [OF Release [OF n that(1)]] that(2) by (auto simp: foreign_release_def life_then_def acq_pool_def)
qed

definition stale_called :: acq_sys where
  "stale_called = (foreign_acquire (foreign_create (foreign_acquire stale_start) 0))\<lparr>as_calls := [foreign_call]\<rparr>"

definition stale_turn :: acq_sys where
  "stale_turn = accesses stale_called 7"

definition stale_last :: acq_sys where
  "stale_last = accesses (foreign_create (foreign_release (foreign_finish stale_turn 0) 0) 1) 2"

definition stale_end :: acq_sys where
  "stale_end = call_access stale_last 0"

lemma stale_run: "acq_init 1 2 8 stale_start \<and> acq_step\<^sup>*\<^sup>* stale_start stale_last \<and> acq_step stale_last stale_end"
proof -
  have "fst (acquireSlot_round (acq_pool stale_start) None) = Acquired 0" by code_simp
  then have a1: "acq_step stale_start (foreign_acquire stale_start)" by (intro foreign_steps(1)) (metis prod.collapse)
  have "0 \<in> set (sl_creating (as_life (foreign_acquire stale_start)))" by code_simp
  note a2 = foreign_steps(2) [OF this]
  have "fst (acquireSlot_round (acq_pool (foreign_create (foreign_acquire stale_start) 0)) None) = Acquired 1" by code_simp
  then have a3: "acq_step (foreign_create (foreign_acquire stale_start) 0) (foreign_acquire (foreign_create (foreign_acquire stale_start) 0))"
    by (intro foreign_steps(1)) (metis prod.collapse)
  let ?y = "foreign_acquire (foreign_create (foreign_acquire stale_start) 0)"
  have "as_calls ?y = []" by code_simp
  then have a4: "acq_step ?y stale_called" using Begin [of None ?y foreign_call] by (simp add: me_in_def foreign_call_def stale_called_def)
  have "all_running stale_called 7" by code_simp
  then have a5: "acq_step\<^sup>*\<^sup>* stale_called stale_turn" unfolding stale_turn_def by (rule accesses_steps)
  have "0 \<in> set (sl_live (as_life stale_turn))" by code_simp
  note b1 = foreign_steps(3) [OF this]
  have "0 \<in> set (sl_finishing (as_life (foreign_finish stale_turn 0)))" "releaseSlot (acq_pool (foreign_finish stale_turn 0)) None 0 \<noteq> None" by code_simp+
  note b2 = foreign_steps(4) [OF this]
  have "1 \<in> set (sl_creating (as_life (foreign_release (foreign_finish stale_turn 0) 0)))" by code_simp
  note b3 = foreign_steps(2) [OF this]
  have "all_running (foreign_create (foreign_release (foreign_finish stale_turn 0) 0) 1) 2" by code_simp
  then have b4: "acq_step\<^sup>*\<^sup>* (foreign_create (foreign_release (foreign_finish stale_turn 0) 0) 1) stale_last" unfolding stale_last_def by (rule accesses_steps)
  have "all_running stale_last 1" by code_simp
  then have b5: "acq_step stale_last stale_end" using Access [of 0 stale_last] by (simp add: stale_end_def)
  have "newPool 1 2 8 \<noteq> None" by code_simp
  then have i: "acq_init 1 2 8 stale_start" by (auto simp: acq_init_def life_init_def stale_start_def)
  have "acq_step\<^sup>*\<^sup>* stale_start stale_turn" using a1 a2 a3 a4 a5 by (meson converse_rtranclp_into_rtranclp)
  moreover have "acq_step\<^sup>*\<^sup>* stale_turn stale_last" using b1 b2 b3 b4 by (meson converse_rtranclp_into_rtranclp)
  ultimately show ?thesis using i b5 by (meson rtranclp_trans)
qed

lemma acquireSlot_overcounts:
  "acq_init 1 2 8 stale_start \<and> acq_step\<^sup>*\<^sup>* stale_start stale_end \<and> ac_pc (as_calls stale_end ! 0) = Returned None
    \<and> sp_maxTasks (acq_pool stale_end) = 2 \<and> sl_live (as_life stale_end) = [1] \<and> sp_freeSlots (acq_pool stale_end) = [0]"
proof -
  have "ac_pc (as_calls stale_end ! 0) = Returned None" by code_simp
  moreover have "sp_maxTasks (acq_pool stale_end) = 2" by code_simp
  moreover have "sl_live (as_life stale_end) = [1]" by code_simp
  moreover have "sp_freeSlots (acq_pool stale_end) = [0]" by code_simp
  ultimately show ?thesis using stale_run by (meson rtranclp.rtrancl_into_rtrancl)
qed

section \<open>Properties\<close>

text \<open>C25: Whatever other threads do between the accesses of a call of \<^verbatim>\<open>acquireSlot\<close>, and as long as fewer
  than \<open>2 ^ 64\<close> tasks have been created: every slot is still in exactly one place, and a slot the call returns was
  free. The call gives up only if the tasks alive when it began to count, together with those created
  while it counted, reach \<open>maxTasks\<close>; it tries again only if fewer than \<open>maxTasks\<close> tasks were alive when it
  turned from the finished to the created counters. (The count can be too high, so giving up does not mean that
  \<open>maxTasks\<close> tasks are alive at one time: \<open>acquireSlot_overcounts\<close>.) A round that no other thread disturbs is
  exact: it succeeds if a slot is in the free list or in any worker's cache, gives up exactly if all \<open>maxTasks\<close>
  tasks are alive, and otherwise tries again, some slot being with a task that is created or finished.\<close>

theorem acquireSlot_gives_up_soundly:
  assumes "acq_init workers maxTasks capacity y0" "acq_step\<^sup>*\<^sup>* y0 y" "as_created y < 2 ^ 64"
    "c \<in> set (as_calls y)" "running (ac_pc c)" "acq_access (acq_pool y) (ac_me c) (ac_pc c) = (pc, p)"
  shows "free_slots (acq_pool y) + used (as_life y) = mset [0..<sp_maxTasks (acq_pool y)]
    \<and> free_slots (acq_pool y) = mset (received pc) + free_slots p
    \<and> (pc = Returned None \<longrightarrow> sp_maxTasks (acq_pool y) \<le> ac_liveAtStart c + (as_created y - ac_createdAtStart c))
    \<and> (pc = Own \<longrightarrow> ac_liveAtTurn c < sp_maxTasks (acq_pool y))
    \<and> (\<exists>r p'. (alone (ac_me c))\<^sup>*\<^sup>* (Own, acq_pool y) (outcome r, p') \<and>
        (case r of
           Acquired slot \<Rightarrow> slot \<in># free_slots (acq_pool y)
         | Exhausted \<Rightarrow> free_slots (acq_pool y) = {#} \<and> acq_live y = sp_maxTasks (acq_pool y)
         | Retry \<Rightarrow> free_slots (acq_pool y) = {#} \<and> (sl_creating (as_life y) \<noteq> [] \<or> sl_finishing (as_life y) \<noteq> [])))"
proof -
  have inv: "acq_inv y" by (rule slot_calls.reachable_inv [OF assms(1,2)])
  then have life: "life_inv (as_life y)" and me: "me_in (ac_me c) (acq_pool y)" and cnt: "counts_ok y" using assms(3,4) by (simp_all add: acq_inv_def)
  have ci: "call_inv (acq_pool y) (as_created y) (acq_live y) c" "createdTotal (acq_pool y) = as_created y"
    using cnt assms(4) by (simp_all add: counts_ok_def)
  have ok: "pool_ok (acq_pool y)" using life by (simp add: life_inv_def acq_pool_def)
  have last: "ac_pc c = Created (workers_of (acq_pool y)) a b \<and> pc = (if sp_maxTasks (acq_pool y) \<le> unat (b - a) then Returned None else Own)"
    if "ac_pc c = Created i a b" "pc = Returned None \<or> pc = Own" for i a b
    using that assms(6) ci(1) by (auto simp: acq_access_def call_inv_def workers_of_def split: if_splits)
  have other: "\<exists>i a b. ac_pc c = Created i a b" if "pc = Returned None \<or> pc = Own"
    using that assms(5) searching_pc [OF assms(6)] assms(6)
    by (cases "ac_pc c") (auto simp: acq_access_def running_def split: if_splits)
  have g: "pc = Returned None \<longrightarrow> sp_maxTasks (acq_pool y) \<le> ac_liveAtStart c + (as_created y - ac_createdAtStart c)"
    "pc = Own \<longrightarrow> ac_liveAtTurn c < sp_maxTasks (acq_pool y)"
    using other last verdict_bounds [OF ci(2,1)] by (fastforce split: if_splits)+
  obtain r p' where r: "acquireSlot_round (acq_pool y) (ac_me c) = (r, p')" by (metis surj_pair)
  have "case r of
      Acquired slot \<Rightarrow> slot \<in># free_slots (acq_pool y)
    | Exhausted \<Rightarrow> free_slots (acq_pool y) = {#} \<and> acq_live y = sp_maxTasks (acq_pool y)
    | Retry \<Rightarrow> free_slots (acq_pool y) = {#} \<and> (sl_creating (as_life y) \<noteq> [] \<or> sl_finishing (as_life y) \<noteq> [])"
    unfolding acq_pool_def acq_live_def by (rule acquireSlot_law [OF life]) (use me r in \<open>simp_all add: acq_pool_def\<close>)
  then show ?thesis using round_alone [OF me r] g acq_access_slots [OF ok me assms(5,6)] life by (auto simp: life_inv_def acq_pool_def)
qed

theorem acquireSlot_gives_up_soundly_witness:
  "acq_init 1 2 8 stale_start \<and> acq_step\<^sup>*\<^sup>* stale_start stale_last \<and> fst (acq_access (acq_pool stale_last) None (ac_pc (as_calls stale_last ! 0))) = Returned None
    \<and> 2 \<le> ac_liveAtStart (as_calls stale_last ! 0) + (as_created stale_last - ac_createdAtStart (as_calls stale_last ! 0))"
proof -
  let ?c = "as_calls stale_last ! 0"
  have "as_created stale_last = 2" by code_simp
  then have n: "as_created stale_last < 2 ^ 64" by simp
  have "as_calls stale_last \<noteq> []" by code_simp
  then have c: "?c \<in> set (as_calls stale_last)" by simp
  have r: "running (ac_pc ?c)" by code_simp
  have m: "sp_maxTasks (acq_pool stale_last) = 2" by code_simp
  have me: "ac_me ?c = None" by code_simp
  have a: "acq_access (acq_pool stale_last) (ac_me ?c) (ac_pc ?c) = (fst (acq_access (acq_pool stale_last) None (ac_pc ?c)), snd (acq_access (acq_pool stale_last) None (ac_pc ?c)))"
    unfolding me by simp
  have f: "fst (acq_access (acq_pool stale_last) None (ac_pc ?c)) = Returned None" by code_simp
  have run: "acq_init 1 2 8 stale_start" "acq_step\<^sup>*\<^sup>* stale_start stale_last" using stale_run by simp_all
  note acquireSlot_gives_up_soundly [OF run n c r a]
  then have "2 \<le> ac_liveAtStart ?c + (as_created stale_last - ac_createdAtStart ?c)" unfolding f m by blast
  then show ?thesis using run f by blast
qed

end
