(* ===== verification/Stack_Memory.thy ===== *)
theory Stack_Memory
  imports Prelude
begin

text \<open>
  Stacks as ranges of memory: \<^verbatim>\<open>StackView\<close>, the contract of \<^verbatim>\<open>StackAllocator\<close> as a locale, the layout of the
  control records at the top of a stack (\<^verbatim>\<open>coro/detail/StackLayout.h\<close>) and the allocator on top of
  \<^verbatim>\<open>mmap\<close>.  The answers of the kernel are arguments.
\<close>

section \<open>Stacks\<close>

record stackView =
  sv_base :: u64
  sv_size :: u64

definition topOf :: "stackView \<Rightarrow> u64" where
  "topOf s = sv_base s + sv_size s"

definition isEmpty :: "stackView \<Rightarrow> bool" where
  "isEmpty s \<longleftrightarrow> sv_base s = 0"

datatype alloc_error = InvalidArgument | OsError nat

text \<open>The addresses of a stack.\<close>

definition extent :: "stackView \<Rightarrow> nat set" where
  "extent s = {unat (sv_base s)..<unat (sv_base s) + unat (sv_size s)}"

text \<open>A stack that lies in the address space.\<close>

definition in_space :: "stackView \<Rightarrow> bool" where
  "in_space s \<longleftrightarrow> sv_base s \<noteq> 0 \<and> 0 < unat (sv_size s) \<and> unat (sv_base s) + unat (sv_size s) < 2 ^ 64"

fun apart :: "stackView list \<Rightarrow> bool" where
  "apart [] \<longleftrightarrow> True"
| "apart (s # ss) \<longleftrightarrow> in_space s \<and> (\<forall>u\<in>set ss. extent s \<inter> extent u = {}) \<and> apart ss"

lemma apart_remove1: "apart ss \<Longrightarrow> apart (remove1 s ss)"
  by (induction ss) (auto dest: notin_set_remove1)

lemma apart_perm: "mset xs = mset ys \<Longrightarrow> apart xs \<Longrightarrow> apart ys"
proof (induction xs arbitrary: ys)
  case (Cons x xs)
  then have "x \<in> set ys" by (metis list.set_intros(1) mset_eq_setD)
  then obtain as bs where ys: "ys = as @ x # bs" by (auto simp: in_set_conv_decomp)
  then have "mset xs = mset (as @ bs)" using Cons.prems(1) by simp
  then have "apart (as @ bs)" "set (as @ bs) = set xs" using Cons.IH Cons.prems(2) mset_eq_setD [of xs "as @ bs"] by simp_all
  moreover have "apart (as @ x # bs)" if "apart (as @ bs)" "in_space x" "\<forall>u\<in>set (as @ bs). extent x \<inter> extent u = {}" for as bs
    using that by (induction as) auto
  ultimately show ?case using Cons.prems(2) unfolding ys by simp
qed simp

lemma apart_append: "apart (xs @ ys) \<Longrightarrow> apart xs \<and> apart ys"
  by (induction xs) auto

lemma apart_subset:
  assumes "apart xs" "mset ys \<subseteq># mset xs"
  shows "apart ys"
proof -
  obtain zs where "mset xs = mset (ys @ zs)" using assms(2) by (metis ex_mset mset_append mset_subset_eq_exists_conv)
  then show ?thesis using apart_perm [OF _ assms(1)] apart_append by blast
qed

lemma apart_distinct: "apart ss \<Longrightarrow> distinct ss"
  by (induction ss) (auto simp: extent_def in_space_def)

section \<open>The contract of an allocator\<close>

text \<open>\<open>live\<close> are the stacks handed out and not given back; \<open>answers\<close> says what the allocator relies on below
  it (the kernel, or an upstream allocator) for one request, \<open>allowed\<close> what it asks of whoever gives a
  stack back.\<close>

locale stack_allocator =
  fixes alloc :: "'s \<Rightarrow> u64 \<Rightarrow> 'e \<Rightarrow> (alloc_error + stackView) \<times> 's"
    and dealloc :: "'s \<Rightarrow> stackView \<Rightarrow> 'd \<Rightarrow> 's"
    and live :: "'s \<Rightarrow> stackView list"
    and inv :: "'s \<Rightarrow> bool"
    and answers :: "'s \<Rightarrow> u64 \<Rightarrow> 'e \<Rightarrow> bool"
    and allowed :: "'s \<Rightarrow> 'd \<Rightarrow> bool"
  assumes live_apart: "inv s \<Longrightarrow> apart (live s)"
    and alloc_ok: "inv s \<Longrightarrow> answers s n e \<Longrightarrow> alloc s n e = (Inr v, s') \<Longrightarrow> inv s' \<and> mset (live s') = mset (v # live s) \<and> unat n \<le> unat (sv_size v)"
    and alloc_err: "inv s \<Longrightarrow> answers s n e \<Longrightarrow> alloc s n e = (Inl x, s') \<Longrightarrow> inv s' \<and> mset (live s') = mset (live s)"
    and dealloc_ok: "inv s \<Longrightarrow> allowed s d \<Longrightarrow> v \<in> set (live s) \<Longrightarrow> inv (dealloc s v d) \<and> mset (live (dealloc s v d)) = mset (remove1 v (live s))"
begin

lemma alloc_apart:
  assumes "inv s" "answers s n e" "alloc s n e = (Inr v, s')"
  shows "in_space v" "u \<in> set (live s) \<Longrightarrow> extent v \<inter> extent u = {}" "v \<notin> set (live s)" "v \<in> set (live s')"
proof -
  have m: "mset (live s') = mset (v # live s)" "apart (live s')" using alloc_ok [OF assms] live_apart by auto
  then have "apart (v # live s)" using apart_perm by metis
  then show "in_space v" "u \<in> set (live s) \<Longrightarrow> extent v \<inter> extent u = {}" "v \<notin> set (live s)"
    using apart_distinct [of "v # live s"] by auto
  show "v \<in> set (live s')" using m(1) mset_eq_setD by fastforce
qed

text \<open>A stack given straight back leaves no trace.\<close>

lemma alloc_dealloc:
  assumes "inv s" "answers s n e" "alloc s n e = (Inr v, s')" "allowed s' d"
  shows "inv (dealloc s' v d) \<and> mset (live (dealloc s' v d)) = mset (live s)"
  using dealloc_ok [OF _ assms(4), of v] alloc_ok [OF assms(1-3)] alloc_apart(4) [OF assms(1-3)] by auto

end

section \<open>Rounding sizes\<close>

lemma u64_less: "unat (x :: u64) < 2 ^ 64"
  using unsigned_less [of x] by simp

definition roundUpToPage :: "u64 \<Rightarrow> u64 \<Rightarrow> u64" where
  "roundUpToPage bytes page = (bytes + page - 1) div page * page"

lemma unat_roundUp:
  assumes "0 < unat page" "unat bytes + unat page \<le> 2 ^ 64"
  shows "unat (roundUpToPage bytes page) = (unat bytes + unat page - 1) div unat page * unat page"
proof -
  have "unat (bytes + page - 1) = unat bytes + unat page - 1"
  proof (cases "unat bytes + unat page < 2 ^ 64")
    case True
    then have "unat (bytes + page) = unat bytes + unat page" by (simp add: unat_word_ariths)
    moreover have "unat (1 :: u64) \<le> unat (bytes + page)" using calculation assms(1) by simp
    ultimately show ?thesis by (simp add: unat_sub word_le_nat_alt)
  next
    case False
    then have s: "unat bytes + unat page = 2 ^ 64" using assms(2) by simp
    then have "bytes + page = 0" by (simp add: unat_eq_0 [symmetric] unat_word_ariths)
    then show ?thesis using s by (simp add: unsigned_minus_1_eq_mask mask_eq_exp_minus_1)
  qed
  moreover have "(unat bytes + unat page - 1) div unat page * unat page < 2 ^ 64"
  proof -
    have "(unat bytes + unat page - 1) div unat page * unat page \<le> unat bytes + unat page - 1" by (rule div_times_less_eq_dividend)
    then show ?thesis using assms by linarith
  qed
  moreover have "(unat bytes + unat page - 1) div unat page < 2 ^ 64"
    using div_le_dividend [of "unat bytes + unat page - 1" "unat page"] assms by linarith
  ultimately show ?thesis by (simp add: roundUpToPage_def unat_word_ariths unat_div)
qed

text \<open>A size near the end of the address space wraps around, to zero.\<close>

lemma roundUp_wraps:
  assumes "2 ^ 64 < unat bytes + unat page"
  shows "roundUpToPage bytes page = 0"
proof -
  have p: "0 < unat page" using assms u64_less [of bytes] by (cases "unat page = 0") auto
  have "unat (bytes + page) = unat bytes + unat page - 2 ^ 64"
    using assms u64_less [of bytes] u64_less [of page] by (simp add: unat_word_ariths mod_if)
  moreover have "unat (1 :: u64) \<le> unat (bytes + page)" using assms calculation by simp
  ultimately have "unat (bytes + page - 1) = unat bytes + unat page - 2 ^ 64 - 1" by (simp add: unat_sub word_le_nat_alt)
  moreover have "\<dots> < unat page" using assms u64_less [of bytes] by simp
  ultimately have "(bytes + page - 1) div page = 0" by (simp add: word_less_nat_alt div_word_less)
  then show ?thesis by (simp add: roundUpToPage_def)
qed

lemma roundUp_covers:
  assumes "0 < unat page"
  shows "roundUpToPage bytes page = 0 \<or> unat bytes \<le> unat (roundUpToPage bytes page)"
proof (cases "unat bytes + unat page \<le> 2 ^ 64")
  case True
  have "unat bytes \<le> (unat bytes + unat page - 1) div unat page * unat page"
  proof -
    define a where "a = unat bytes + unat page - 1"
    have "a = a div unat page * unat page + a mod unat page" by simp
    moreover have "a mod unat page < unat page" using assms by simp
    ultimately show ?thesis using assms unfolding a_def by linarith
  qed
  then show ?thesis using unat_roundUp [OF assms True] by simp
next
  case False
  then show ?thesis using roundUp_wraps by simp
qed

lemma roundUp_idem:
  assumes "unat page = 2 ^ k" "k < 64" "roundUpToPage bytes page \<noteq> 0"
  shows "roundUpToPage (roundUpToPage bytes page) page = roundUpToPage bytes page"
proof -
  have p: "0 < unat page" using assms(1) by simp
  have small: "unat bytes + unat page \<le> 2 ^ 64" using assms(3) roundUp_wraps by (meson not_le)
  define q where "q = (unat bytes + unat page - 1) div unat page"
  have r: "unat (roundUpToPage bytes page) = q * unat page" unfolding q_def by (rule unat_roundUp [OF p small])
  then have "q * 2 ^ k < 2 ^ (64 - k) * 2 ^ k" using u64_less [of "roundUpToPage bytes page"] assms(1,2) by (simp flip: power_add)
  then have "(q + 1) * 2 ^ k \<le> 2 ^ (64 - k) * 2 ^ k" by (intro mult_le_mono1) simp
  then have "unat (roundUpToPage bytes page) + unat page \<le> 2 ^ 64" using assms(1,2) r by (simp flip: power_add)
  from unat_roundUp [OF p this] have "unat (roundUpToPage (roundUpToPage bytes page) page) = (q * unat page + unat page - 1) div unat page * unat page"
    using r by simp
  also have "(q * unat page + unat page - 1) div unat page = q"
    by (rule div_nat_eqI) (use p in \<open>simp_all add: algebra_simps\<close>)
  finally show ?thesis using r by (metis word_unat_eq_iff)
qed

section \<open>The allocator on mmap\<close>

datatype prot = ReadWrite | NoAccess

text \<open>What is mapped, address by address.\<close>

type_synonym vm = "nat \<Rightarrow> prot option"

definition vm_set :: "vm \<Rightarrow> u64 \<Rightarrow> u64 \<Rightarrow> prot option \<Rightarrow> vm" where
  "vm_set vm a len v = (\<lambda>x. if unat a \<le> x \<and> x < unat a + unat len then v else vm x)"

record mmap_options =
  mo_guardPages :: u64
  mo_page :: u64

definition guardOf :: "mmap_options \<Rightarrow> u64" where
  "guardOf o' = mo_guardPages o' * mo_page o'"

text \<open>The kernel's answers: the address \<^verbatim>\<open>mmap\<close> returns, whether the \<open>i\<close>-th \<^verbatim>\<open>mprotect\<close> succeeds, and the
  \<^verbatim>\<open>errno\<close> of a call that failed.\<close>

record kernel =
  kn_mapping :: "u64 option"
  kn_protects :: "nat \<Rightarrow> bool"
  kn_errno :: nat

definition mmap_allocate :: "mmap_options \<Rightarrow> kernel \<Rightarrow> vm \<Rightarrow> u64 \<Rightarrow> (alloc_error + stackView) \<times> vm" where
  "mmap_allocate o' k vm bytes =
     (let usable = roundUpToPage bytes (mo_page o'); guard = guardOf o' in
      if usable = 0 \<or> usable > (- 1) - guard then (Inl InvalidArgument, vm)
      else let total = usable + guard in
        (case kn_mapping k of
           None \<Rightarrow> (Inl (OsError (kn_errno k)), vm)
         | Some mapping \<Rightarrow>
             let vm1 = vm_set vm mapping total (Some ReadWrite) in
             if guard \<noteq> 0 \<and> \<not> kn_protects k 0 then (Inl (OsError (kn_errno k)), vm_set vm1 mapping total None)
             else (Inr \<lparr>sv_base = mapping + guard, sv_size = usable\<rparr>,
                   if guard \<noteq> 0 then vm_set vm1 mapping guard (Some NoAccess) else vm1)))"

text \<open>The loop of \<^verbatim>\<open>allocateMany\<close> from the \<open>done\<close>-th slot on; \<open>left\<close> are the slots not looked at yet.\<close>

fun carveSlots :: "u64 \<Rightarrow> u64 \<Rightarrow> u64 \<Rightarrow> kernel \<Rightarrow> u64 \<Rightarrow> nat \<Rightarrow> nat \<Rightarrow> vm \<Rightarrow> stackView list \<times> vm" where
  "carveSlots guard usable slot k mapping finished 0 vm = ([], vm)"
| "carveSlots guard usable slot k mapping finished (Suc left) vm =
     (let start = mapping + of_nat finished * slot in
      if guard \<noteq> 0 \<and> \<not> kn_protects k finished then ([], vm_set vm start (of_nat (Suc left) * slot) None)
      else let vm1 = (if guard \<noteq> 0 then vm_set vm start guard (Some NoAccess) else vm) in
        (case carveSlots guard usable slot k mapping (finished + 1) left vm1 of
           (ss, vm2) \<Rightarrow> (\<lparr>sv_base = start + guard, sv_size = usable\<rparr> # ss, vm2)))"

definition mmap_allocateMany :: "mmap_options \<Rightarrow> kernel \<Rightarrow> vm \<Rightarrow> u64 \<Rightarrow> nat \<Rightarrow> stackView list \<times> vm" where
  "mmap_allocateMany o' k vm bytes n =
     (let usable = roundUpToPage bytes (mo_page o'); guard = guardOf o' in
      if n = 0 \<or> usable = 0 \<or> usable > (- 1) - guard then ([], vm)
      else let slot = usable + guard in
        if unat slot > unat (- 1 :: u64) div n then ([], vm)
        else case kn_mapping k of
          None \<Rightarrow> ([], vm)
        | Some mapping \<Rightarrow> carveSlots guard usable slot k mapping 0 n (vm_set vm mapping (slot * of_nat n) (Some ReadWrite)))"

definition mmap_deallocate :: "mmap_options \<Rightarrow> vm \<Rightarrow> stackView \<Rightarrow> vm" where
  "mmap_deallocate o' vm s =
     (if isEmpty s then vm else vm_set vm (sv_base s - guardOf o') (sv_size s + guardOf o') None)"

section \<open>What the mappings look like\<close>

text \<open>\<^verbatim>\<open>mmap\<close> returns an unused range.\<close>

definition kernel_ok :: "kernel \<Rightarrow> vm \<Rightarrow> nat \<Rightarrow> bool" where
  "kernel_ok k vm n \<longleftrightarrow> (case kn_mapping k of None \<Rightarrow> True
     | Some m \<Rightarrow> m \<noteq> 0 \<and> unat m + n < 2 ^ 64 \<and> (\<forall>x. unat m \<le> x \<and> x < unat m + n \<longrightarrow> vm x = None))"

lemma unat_add_small: "unat a + unat b < 2 ^ 64 \<Longrightarrow> unat (a + b) = unat a + unat (b :: u64)"
  by (simp add: unat_word_ariths)

lemma no_overflow: "\<not> usable > (- 1) - guard \<Longrightarrow> unat (usable + guard) = unat usable + unat (guard :: u64)"
proof -
  assume "\<not> usable > (- 1) - guard"
  then have "usable \<le> - 1 - guard" by (rule leI)
  then have "unat usable \<le> unat (- 1 - guard)" by (simp only: word_le_nat_alt)
  also have "\<dots> = 2 ^ 64 - 1 - unat guard"
    using u64_less [of guard] by (subst unat_sub) (simp_all add: unsigned_minus_1_eq_mask mask_eq_exp_minus_1 word_le_nat_alt)
  finally show ?thesis using u64_less [of guard] by (intro unat_add_small) linarith
qed

lemma vm_set_apply: "vm_set vm a n v x = (if unat a \<le> x \<and> x < unat a + unat n then v else vm x)"
  by (simp add: vm_set_def)

lemma mmap_allocate_ok:
  assumes page: "0 < unat (mo_page o')"
    and k: "kernel_ok k vm (unat (roundUpToPage bytes (mo_page o')) + unat (guardOf o'))"
    and r: "mmap_allocate o' k vm bytes = (Inr s, vm')"
  obtains m where "kn_mapping k = Some m" "unat (sv_base s) = unat m + unat (guardOf o')" "sv_size s = roundUpToPage bytes (mo_page o')"
    "in_space s" "unat bytes \<le> unat (sv_size s)"
    "\<And>x. vm' x = (if x \<in> extent s then Some ReadWrite else if unat m \<le> x \<and> x < unat (sv_base s) then Some NoAccess else vm x)"
proof -
  let ?u = "roundUpToPage bytes (mo_page o')" and ?g = "guardOf o'"
  from r have u: "?u \<noteq> 0" "\<not> ?u > (- 1) - ?g" by (auto simp: mmap_allocate_def Let_def split: if_splits)
  from r u obtain m where m: "kn_mapping k = Some m" by (auto simp: mmap_allocate_def Let_def split: if_splits option.splits)
  from r u m have s: "s = \<lparr>sv_base = m + ?g, sv_size = ?u\<rparr>"
    and vm': "vm' = (if ?g \<noteq> 0 then vm_set (vm_set vm m (?u + ?g) (Some ReadWrite)) m ?g (Some NoAccess) else vm_set vm m (?u + ?g) (Some ReadWrite))"
    by (auto simp: mmap_allocate_def Let_def split: if_splits)
  have space: "unat m + unat ?u + unat ?g < 2 ^ 64" "m \<noteq> 0" using k m by (simp_all add: kernel_ok_def)
  then have b: "unat (sv_base s) = unat m + unat ?g" using s by (simp add: unat_add_small)
  have t: "unat (?u + ?g) = unat ?u + unat ?g" by (rule no_overflow [OF u(2)])
  have "unat m \<noteq> 0" using space(2) by (simp add: unat_eq_0)
  then have "sv_base s \<noteq> 0" using b by auto
  then have "in_space s" using b s space u(1) by (auto simp: in_space_def unat_gt_0)
  moreover have "unat bytes \<le> unat (sv_size s)" using roundUp_covers [OF page, of bytes] u(1) s by auto
  moreover have "vm' x = (if x \<in> extent s then Some ReadWrite else if unat m \<le> x \<and> x < unat (sv_base s) then Some NoAccess else vm x)" for x
    unfolding vm' extent_def b using s t by (auto simp: vm_set_apply)
  ultimately show thesis using that m b s by simp
qed

lemma mmap_allocate_err: "mmap_allocate o' k vm bytes = (Inl e, vm') \<Longrightarrow> kernel_ok k vm (unat (roundUpToPage bytes (mo_page o')) + unat (guardOf o')) \<Longrightarrow> vm' = vm"
proof -
  assume r: "mmap_allocate o' k vm bytes = (Inl e, vm')" and k: "kernel_ok k vm (unat (roundUpToPage bytes (mo_page o')) + unat (guardOf o'))"
  show "vm' = vm"
  proof (cases "roundUpToPage bytes (mo_page o') = 0 \<or> roundUpToPage bytes (mo_page o') > (- 1) - guardOf o' \<or> kn_mapping k = None")
    case True
    then show ?thesis using r by (auto simp: mmap_allocate_def Let_def split: if_splits option.splits)
  next
    case False
    then obtain m where m: "kn_mapping k = Some m" by auto
    let ?t = "roundUpToPage bytes (mo_page o') + guardOf o'"
    have "vm' = vm_set (vm_set vm m ?t (Some ReadWrite)) m ?t None" using False r m by (auto simp: mmap_allocate_def Let_def split: if_splits)
    moreover have "unat ?t = unat (roundUpToPage bytes (mo_page o')) + unat (guardOf o')" using False by (intro no_overflow) simp
    ultimately show ?thesis using k m by (auto simp: kernel_ok_def vm_set_apply fun_eq_iff)
  qed
qed

lemma mmap_deallocate_range:
  assumes "in_space s" "unat (guardOf o') < unat (sv_base s)"
  shows "mmap_deallocate o' vm s x = (if unat (sv_base s) - unat (guardOf o') \<le> x \<and> x < unat (sv_base s) + unat (sv_size s) then None else vm x)"
proof -
  have "unat (sv_base s - guardOf o') = unat (sv_base s) - unat (guardOf o')" using assms(2) by (simp add: unat_sub word_le_nat_alt)
  moreover have "unat (sv_size s + guardOf o') = unat (sv_size s) + unat (guardOf o')" using assms by (intro unat_add_small) (simp add: in_space_def)
  ultimately show ?thesis using assms by (auto simp: mmap_deallocate_def isEmpty_def in_space_def vm_set_apply)
qed

section \<open>The allocator on mmap keeps the contract\<close>

record mmap_sys =
  mm_vm :: vm
  mm_live :: "stackView list"

definition mmap_alloc :: "mmap_options \<Rightarrow> mmap_sys \<Rightarrow> u64 \<Rightarrow> kernel \<Rightarrow> (alloc_error + stackView) \<times> mmap_sys" where
  "mmap_alloc o' s bytes k = (case mmap_allocate o' k (mm_vm s) bytes of
     (Inr v, vm) \<Rightarrow> (Inr v, \<lparr>mm_vm = vm, mm_live = v # mm_live s\<rparr>)
   | (Inl e, vm) \<Rightarrow> (Inl e, s\<lparr>mm_vm := vm\<rparr>))"

definition mmap_dealloc :: "mmap_options \<Rightarrow> mmap_sys \<Rightarrow> stackView \<Rightarrow> unit \<Rightarrow> mmap_sys" where
  "mmap_dealloc o' s v d = \<lparr>mm_vm = mmap_deallocate o' (mm_vm s) v, mm_live = remove1 v (mm_live s)\<rparr>"

definition mmap_answers :: "mmap_options \<Rightarrow> mmap_sys \<Rightarrow> u64 \<Rightarrow> kernel \<Rightarrow> bool" where
  "mmap_answers o' s bytes k \<longleftrightarrow> kernel_ok k (mm_vm s) (unat (roundUpToPage bytes (mo_page o')) + unat (guardOf o'))"

text \<open>A stack with its guard below it.\<close>

definition region :: "mmap_options \<Rightarrow> stackView \<Rightarrow> nat set" where
  "region o' s = {unat (sv_base s) - unat (guardOf o')..<unat (sv_base s) + unat (sv_size s)}"

definition guarded :: "mmap_options \<Rightarrow> vm \<Rightarrow> stackView \<Rightarrow> bool" where
  "guarded o' vm s \<longleftrightarrow> in_space s \<and> unat (guardOf o') < unat (sv_base s) \<and> (\<forall>x\<in>extent s. vm x = Some ReadWrite)
     \<and> (\<forall>x. unat (sv_base s) - unat (guardOf o') \<le> x \<and> x < unat (sv_base s) \<longrightarrow> vm x = Some NoAccess)"

fun regions_apart :: "mmap_options \<Rightarrow> stackView list \<Rightarrow> bool" where
  "regions_apart o' [] \<longleftrightarrow> True"
| "regions_apart o' (s # ss) \<longleftrightarrow> (\<forall>u\<in>set ss. region o' s \<inter> region o' u = {}) \<and> regions_apart o' ss"

definition mmap_inv :: "mmap_options \<Rightarrow> mmap_sys \<Rightarrow> bool" where
  "mmap_inv o' s \<longleftrightarrow> 0 < unat (mo_page o') \<and> (\<forall>v\<in>set (mm_live s). guarded o' (mm_vm s) v) \<and> regions_apart o' (mm_live s)"

lemma extent_region: "extent s \<subseteq> region o' s"
  by (auto simp: extent_def region_def)

lemma guarded_mapped: "guarded o' vm s \<Longrightarrow> x \<in> region o' s \<Longrightarrow> vm x \<noteq> None"
  by (cases "x < unat (sv_base s)") (auto simp: guarded_def region_def extent_def)

lemma guarded_cong: "guarded o' vm s \<Longrightarrow> (\<And>x. x \<in> region o' s \<Longrightarrow> vm' x = vm x) \<Longrightarrow> guarded o' vm' s"
  by (auto simp: guarded_def region_def extent_def)

lemma regions_remove1: "regions_apart o' ss \<Longrightarrow> regions_apart o' (remove1 s ss)"
  by (induction ss) (auto dest: notin_set_remove1)

lemma regions_apart_other:
  "regions_apart o' ss \<Longrightarrow> s \<in> set ss \<Longrightarrow> u \<in> set (remove1 s ss) \<Longrightarrow> region o' s \<inter> region o' u = {}"
  by (induction ss) (auto split: if_splits)

lemma apart_regions: "regions_apart o' ss \<Longrightarrow> (\<And>s. s \<in> set ss \<Longrightarrow> in_space s) \<Longrightarrow> apart ss"
proof (induction ss)
  case (Cons s ss)
  have "extent s \<inter> extent u = {}" if "u \<in> set ss" for u
    using Cons.prems(1) that extent_region [of s o'] extent_region [of u o'] by fastforce
  then show ?case using Cons by simp
qed simp

lemma mmap_alloc_law:
  assumes inv: "mmap_inv o' s" and k: "mmap_answers o' s bytes k" and r: "mmap_alloc o' s bytes k = (Inr v, s')"
  shows "mmap_inv o' s'" "mm_live s' = v # mm_live s" "unat bytes \<le> unat (sv_size v)"
    "\<And>x. mmap_deallocate o' (mm_vm s') v x = mm_vm s x"
proof -
  obtain vm where a: "mmap_allocate o' k (mm_vm s) bytes = (Inr v, vm)" and s': "s' = \<lparr>mm_vm = vm, mm_live = v # mm_live s\<rparr>"
    using r by (auto simp: mmap_alloc_def split: prod.splits sum.splits)
  have page: "0 < unat (mo_page o')" using inv by (simp add: mmap_inv_def)
  obtain m where
    m: "kn_mapping k = Some m" "unat (sv_base v) = unat m + unat (guardOf o')" "sv_size v = roundUpToPage bytes (mo_page o')" "in_space v"
      "unat bytes \<le> unat (sv_size v)"
    and vm: "\<And>x. vm x = (if x \<in> extent v then Some ReadWrite else if unat m \<le> x \<and> x < unat (sv_base v) then Some NoAccess else mm_vm s x)"
    by (rule mmap_allocate_ok [OF page k [unfolded mmap_answers_def] a]) blast
  have free: "mm_vm s x = None" if "x \<in> region o' v" for x
    using k m that by (auto simp: mmap_answers_def kernel_ok_def region_def)
  have "m \<noteq> 0" using k m(1) by (simp add: mmap_answers_def kernel_ok_def)
  then have b: "unat (guardOf o') < unat (sv_base v)" using m(2) by (simp add: unat_gt_0)
  have gv: "guarded o' vm v" using m(2,4) b by (auto simp: guarded_def vm extent_def)
  have other: "vm x = mm_vm s x" if "x \<notin> region o' v" for x using that m(2) by (auto simp: vm region_def extent_def)
  have gu: "guarded o' (mm_vm s) u" if "u \<in> set (mm_live s)" for u using inv that by (simp add: mmap_inv_def)
  have disj: "region o' v \<inter> region o' u = {}" if "u \<in> set (mm_live s)" for u
  proof -
    have "x \<notin> region o' u" if "x \<in> region o' v" for x using guarded_mapped [OF gu [OF \<open>u \<in> _\<close>], of x] free [OF that] by auto
    then show ?thesis by blast
  qed
  have "guarded o' vm u" if "u \<in> set (mm_live s)" for u
  proof (rule guarded_cong [OF gu [OF that]])
    show "vm x = mm_vm s x" if "x \<in> region o' u" for x using disj [OF \<open>u \<in> _\<close>] that by (intro other) blast
  qed
  then show "mmap_inv o' s'" using inv gv disj by (simp add: mmap_inv_def s')
  show "mm_live s' = v # mm_live s" "unat bytes \<le> unat (sv_size v)" using s' m(5) by simp_all
  show "mmap_deallocate o' (mm_vm s') v x = mm_vm s x" for x
    using free [of x] other [of x] unfolding mmap_deallocate_range [OF m(4) b] by (simp add: s' region_def)
qed

lemma mmap_dealloc_law:
  assumes inv: "mmap_inv o' s" and v: "v \<in> set (mm_live s)"
  shows "mmap_inv o' (mmap_dealloc o' s v d)"
proof -
  have g: "guarded o' (mm_vm s) v" using inv v by (simp add: mmap_inv_def)
  then have out: "mmap_deallocate o' (mm_vm s) v x = mm_vm s x" if "x \<notin> region o' v" for x
    using that mmap_deallocate_range [of v o' "mm_vm s" x] by (auto simp: guarded_def region_def)
  have "guarded o' (mmap_deallocate o' (mm_vm s) v) u" if u: "u \<in> set (remove1 v (mm_live s))" for u
  proof (rule guarded_cong)
    show "guarded o' (mm_vm s) u" using inv u notin_set_remove1 by (fastforce simp: mmap_inv_def)
    have "region o' v \<inter> region o' u = {}" using inv v u by (intro regions_apart_other) (simp_all add: mmap_inv_def)
    then show "mmap_deallocate o' (mm_vm s) v x = mm_vm s x" if "x \<in> region o' u" for x using that by (intro out) blast
  qed
  then show ?thesis using inv regions_remove1 by (auto simp: mmap_inv_def mmap_dealloc_def)
qed

interpretation mmap: stack_allocator "mmap_alloc o'" "mmap_dealloc o'" mm_live "mmap_inv o'" "mmap_answers o'" "\<lambda>_ _. True"
proof
  fix s :: mmap_sys and v n k s' e and d :: unit
  assume inv: "mmap_inv o' s"
  show "apart (mm_live s)" using inv by (intro apart_regions [of o']) (auto simp: mmap_inv_def guarded_def)
  show "mmap_inv o' s' \<and> mset (mm_live s') = mset (v # mm_live s) \<and> unat n \<le> unat (sv_size v)"
    if "mmap_answers o' s n k" "mmap_alloc o' s n k = (Inr v, s')" using mmap_alloc_law [OF inv that] by simp
  show "mmap_inv o' s' \<and> mset (mm_live s') = mset (mm_live s)" if "mmap_answers o' s n k" "mmap_alloc o' s n k = (Inl e, s')"
  proof -
    have "s' = s" using that mmap_allocate_err [of o' k "mm_vm s" n] by (auto simp: mmap_alloc_def mmap_answers_def split: prod.splits sum.splits)
    then show ?thesis using inv by simp
  qed
  show "mmap_inv o' (mmap_dealloc o' s v d) \<and> mset (mm_live (mmap_dealloc o' s v d)) = mset (remove1 v (mm_live s))" if "v \<in> set (mm_live s)"
    using mmap_dealloc_law [OF inv that] by (simp add: mmap_dealloc_def)
qed

section \<open>A batch in one mapping\<close>

definition slotView :: "u64 \<Rightarrow> u64 \<Rightarrow> u64 \<Rightarrow> nat \<Rightarrow> stackView" where
  "slotView mapping guard usable i = \<lparr>sv_base = mapping + of_nat i * (usable + guard) + guard, sv_size = usable\<rparr>"

lemma unat_slot:
  assumes "unat m + n * unat slot < 2 ^ 64" "i \<le> n"
  shows "unat (m + of_nat i * slot) = unat m + i * unat (slot :: u64)" "unat (of_nat i * slot) = i * unat slot"
proof -
  have le: "i * unat slot \<le> n * unat slot" using assms(2) by simp
  show e: "unat (of_nat i * slot) = i * unat slot"
  proof (cases "unat slot")
    case (Suc k)
    then have "i \<le> i * unat slot" by simp
    then have "i < 2 ^ 64" "i * unat slot < 2 ^ 64" using le assms(1) by linarith+
    then show ?thesis by (simp add: unat_word_ariths unat_of_nat)
  qed (simp add: unat_eq_0)
  show "unat (m + of_nat i * slot) = unat m + i * unat slot" 
    using le assms(1) unfolding e [symmetric] by (intro unat_add_small) linarith
qed

text \<open>What the loop leaves of the mapping: \<open>d\<close> slots, each with its guard, and nothing of the others.\<close>

definition carved :: "nat \<Rightarrow> nat \<Rightarrow> nat \<Rightarrow> nat \<Rightarrow> nat \<Rightarrow> vm \<Rightarrow> nat \<Rightarrow> prot option" where
  "carved m g slot d n vm x =
     (if x < m \<or> m + n * slot \<le> x then vm x
      else if m + d * slot \<le> x then None
      else if (x - m) mod slot < g then Some NoAccess else vm x)"

lemma carved_split:
  assumes "0 < slot" "g \<le> slot" "\<And>x. vm1 x = (if m \<le> x \<and> x < m + g then Some NoAccess else vm x)"
  shows "carved (m + slot) g slot d n vm1 x = carved m g slot (Suc d) (Suc n) vm x"
proof -
  consider "x < m" | "m \<le> x" "x < m + slot" | "m + slot \<le> x" by linarith
  then show ?thesis
  proof cases
    case 2
    then have "(x - m) mod slot = x - m" by simp
    then show ?thesis using 2 assms by (auto simp: carved_def)
  next
    case 3
    then obtain y where y: "x = m + slot + y" using le_Suc_ex by blast
    have "(slot + y) mod slot = y mod slot" by simp
    then show ?thesis using assms by (auto simp: carved_def y)
  qed (use assms in \<open>auto simp: carved_def\<close>)
qed

lemma carveSlots_law:
  assumes "unat slot = unat usable + unat guard" "0 < unat usable" "unat m + (finished + left) * unat slot < 2 ^ 64"
    "carveSlots guard usable slot k m finished left vm = (ss, vm')" "slot = usable + guard"
  shows "\<exists>d\<le>left. ss = map (slotView m guard usable) [finished..<finished + d]
    \<and> vm' = carved (unat m + finished * unat slot) (unat guard) (unat slot) d left vm"
  using assms(3,4)
proof (induction left arbitrary: finished vm ss vm')
  case 0
  then show ?case by (auto simp: carved_def fun_eq_iff)
next
  case (Suc left)
  let ?start = "m + of_nat finished * slot"
  have st: "unat ?start = unat m + finished * unat slot" "unat (of_nat (Suc left) * slot) = Suc left * unat slot"
    using unat_slot [OF Suc.prems(1), of finished] unat_slot(2) [OF Suc.prems(1), of "Suc left"] by (simp_all del: of_nat_Suc)
  show ?case
  proof (cases "guard \<noteq> 0 \<and> \<not> kn_protects k finished")
    case True
    then have "ss = []" "vm' = vm_set vm ?start (of_nat (Suc left) * slot) None" using Suc.prems(2) by (simp_all del: of_nat_Suc)
    then show ?thesis using st by (intro exI [of _ 0]) (auto simp: vm_set_apply carved_def fun_eq_iff simp del: of_nat_Suc)
  next
    case False
    define vm1 where "vm1 = (if guard \<noteq> 0 then vm_set vm ?start guard (Some NoAccess) else vm)"
    obtain ts vm2 where rec: "carveSlots guard usable slot k m (finished + 1) left vm1 = (ts, vm2)" by (metis surj_pair)
    have ss: "ss = slotView m guard usable finished # ts" "vm' = vm2"
      using Suc.prems(2) False rec by (auto simp: vm1_def slotView_def assms(5) split: if_splits)
    have "unat m + (finished + 1 + left) * unat slot < 2 ^ 64" using Suc.prems(1) by simp
    from Suc.IH [OF this rec] obtain d where d: "d \<le> left" "ts = map (slotView m guard usable) [finished + 1..<finished + 1 + d]"
      "vm2 = carved (unat m + (finished + 1) * unat slot) (unat guard) (unat slot) d left vm1" by blast
    have v1: "vm1 x = (if unat m + finished * unat slot \<le> x \<and> x < unat m + finished * unat slot + unat guard then Some NoAccess else vm x)" for x
      using st(1) by (auto simp: vm1_def vm_set_apply)
    have "vm2 = carved (unat m + finished * unat slot) (unat guard) (unat slot) (Suc d) (Suc left) vm"
      unfolding d(3) using carved_split [of "unat slot" "unat guard" vm1 "unat m + finished * unat slot" vm d left] v1 assms(1,2)
      by (auto simp: ac_simps fun_eq_iff)
    then show ?thesis using d ss by (intro exI [of _ "Suc d"]) (simp add: upt_conv_Cons del: upt_Suc)
  qed
qed

section \<open>Layout of the control records\<close>

definition kMinUsableStack :: u64 where "kMinUsableStack = 4096"

record stackLayout =
  ly_block :: u64
  ly_entry :: u64
  ly_stackTop :: u64
  ly_usableSize :: u64
  ly_fits :: bool

definition alignDown :: "u64 \<Rightarrow> u64 \<Rightarrow> u64" where
  "alignDown v a = v AND NOT (a - 1)"

definition carveStack :: "stackView \<Rightarrow> u64 \<Rightarrow> u64 \<Rightarrow> u64 \<Rightarrow> u64 \<Rightarrow> stackLayout" where
  "carveStack stack entrySize entryAlign blockSize blockAlign =
     (let align = (if entryAlign > 16 then entryAlign else 16);
          recordAlign = (if blockAlign > 16 then blockAlign else 16);
          top = topOf stack; base = sv_base stack;
          entryAddr = alignDown (top - entrySize) align;
          blockAddr = alignDown (entryAddr - blockSize) recordAlign;
          fits = (entryAddr \<le> top \<and> blockAddr < entryAddr \<and> blockAddr > base \<and> blockAddr - base \<ge> kMinUsableStack)
      in if \<not> fits then \<lparr>ly_block = 0, ly_entry = 0, ly_stackTop = 0, ly_usableSize = 0, ly_fits = False\<rparr>
         else \<lparr>ly_block = blockAddr, ly_entry = entryAddr, ly_stackTop = blockAddr, ly_usableSize = blockAddr - base, ly_fits = True\<rparr>)"

lemma alignDown_dvd:
  assumes "unat a = 2 ^ k" "k < 64"
  shows "unat (alignDown v a) = unat v div 2 ^ k * 2 ^ k" "unat (alignDown v a) \<le> unat v" "2 ^ k dvd unat (alignDown v a)" "unat v < unat (alignDown v a) + 2 ^ k"
proof -
  have "a = of_nat (unat a)" by simp
  then have "a = 2 ^ k" by (simp only: assms(1) of_nat_power of_nat_numeral)
  then have "a - 1 = mask k" by (simp add: mask_eq_exp_minus_1)
  then have e: "alignDown v a = push_bit k (drop_bit k v)" by (auto simp: alignDown_def bit_eq_iff bit_simps)
  have "unat v div 2 ^ k * 2 ^ k < 2 ^ 64" using div_times_less_eq_dividend [of "unat v" "2 ^ k"] u64_less [of v] by linarith
  then have "unat (push_bit k (drop_bit k v)) = unat v div 2 ^ k * 2 ^ k"
    by (simp only: unsigned_push_bit_eq unsigned_drop_bit_eq take_bit_eq_mod push_bit_eq_mult [where 'a = nat] drop_bit_eq_div [where 'a = nat]) (simp add: u64_less [of v, simplified])
  then show u: "unat (alignDown v a) = unat v div 2 ^ k * 2 ^ k" using e by simp
  show "unat (alignDown v a) \<le> unat v" "2 ^ k dvd unat (alignDown v a)" unfolding u by simp_all
  show "unat v < unat (alignDown v a) + 2 ^ k" unfolding u
    by (metis div_mult_mod_eq add_less_cancel_left mod_less_divisor zero_less_numeral zero_less_power)
qed

text \<open>One record below an address: aligned, with room for its size, also when the subtraction wraps.\<close>

lemma place_below:
  assumes a: "unat a = 2 ^ k" "k \<le> 12" and small: "unat hi < 2 ^ 60" "unat bytes < 2 ^ 60"
    and le: "alignDown (hi - bytes) a \<le> hi"
  shows "unat (alignDown (hi - bytes) a) + unat bytes \<le> unat hi" "2 ^ k dvd unat (alignDown (hi - bytes) a)"
proof -
  have k: "k < 64" "(2 :: nat) ^ k \<le> 2 ^ 12" using a(2) power_increasing [of k 12 "2 :: nat"] by simp_all
  note al = alignDown_dvd [OF a(1) k(1), of "hi - bytes"]
  show "2 ^ k dvd unat (alignDown (hi - bytes) a)" by (rule al(3))
  have "unat bytes \<le> unat hi"
  proof (rule ccontr)
    assume w: "\<not> unat bytes \<le> unat hi"
    then have "unat (hi - bytes) = 2 ^ 64 - (unat bytes - unat hi)"
      using u64_less [of bytes] by (simp add: unat_sub_if')
    then show False using al(4) k(2) le small w unfolding word_le_nat_alt by simp
  qed
  then have "unat (hi - bytes) = unat hi - unat bytes" by (simp add: unat_sub word_le_nat_alt)
  then show "unat (alignDown (hi - bytes) a) + unat bytes \<le> unat hi" using al(2) \<open>unat bytes \<le> unat hi\<close> by simp
qed

section \<open>Properties\<close>

text \<open>C26: a layout that fits puts the body's record and the control block above the usable stack, in this
  order, inside the stack, aligned and without overlap, and leaves at least 4096 bytes; for any
  address, size and alignment that occurs, also where the subtractions wrap around.\<close>

theorem carveStack_layout:
  assumes stack: "in_space stack" "unat (topOf stack) < 2 ^ 60" and sizes: "unat entrySize < 2 ^ 60" "unat blockSize < 2 ^ 60"
    and aligns: "unat entryAlign = 2 ^ i" "i \<le> 12" "unat blockAlign = 2 ^ j" "j \<le> 12"
  defines "l \<equiv> carveStack stack entrySize entryAlign blockSize blockAlign"
  assumes fits: "ly_fits l"
  shows "unat (sv_base stack) + 4096 \<le> unat (ly_stackTop l) \<and> ly_stackTop l = ly_block l \<and> unat (ly_usableSize l) = unat (ly_stackTop l) - unat (sv_base stack)
    \<and> unat (ly_block l) + unat blockSize \<le> unat (ly_entry l) \<and> unat (ly_entry l) + unat entrySize \<le> unat (sv_base stack) + unat (sv_size stack)
    \<and> 2 ^ j dvd unat (ly_block l) \<and> 16 dvd unat (ly_block l) \<and> 2 ^ i dvd unat (ly_entry l) \<and> 16 dvd unat (ly_entry l)"
proof -
  have wide: "\<exists>n\<le>12. unat (if x > 16 then x else 16) = 2 ^ n \<and> i \<le> n \<and> 4 \<le> n" if "unat x = 2 ^ i" "i \<le> 12" for x :: u64 and i
  proof (cases "x > 16")
    case True
    then have "(2 :: nat) ^ 4 < 2 ^ i" using that(1) by (simp add: word_less_nat_alt)
    then have "4 < i" by (rule power_less_imp_less_exp [rotated]) simp
    then show ?thesis using that True by auto
  next
    case False
    then have "(2 :: nat) ^ i \<le> 2 ^ 4" using that(1) by (simp add: word_less_nat_alt not_less)
    then have "i \<le> 4" by (rule power_le_imp_le_exp [rotated]) simp
    then show ?thesis using False by (intro exI [of _ 4]) simp
  qed
  obtain e where e: "e \<le> 12" "unat (if entryAlign > 16 then entryAlign else 16) = 2 ^ e" "i \<le> e" "4 \<le> e" using wide [OF aligns(1,2)] by blast
  obtain b where b: "b \<le> 12" "unat (if blockAlign > 16 then blockAlign else 16) = 2 ^ b" "j \<le> b" "4 \<le> b" using wide [OF aligns(3,4)] by blast
  define ea where "ea = alignDown (topOf stack - entrySize) (if entryAlign > 16 then entryAlign else 16)"
  define ba where "ba = alignDown (ea - blockSize) (if blockAlign > 16 then blockAlign else 16)"
  have c: "ea \<le> topOf stack" "ba < ea" "ba > sv_base stack" "ba - sv_base stack \<ge> kMinUsableStack"
    and l: "ly_block l = ba" "ly_entry l = ea" "ly_stackTop l = ba" "ly_usableSize l = ba - sv_base stack"
    using fits unfolding l_def carveStack_def Let_def ea_def [symmetric] ba_def [symmetric] by (auto split: if_splits)
  have ent: "unat ea + unat entrySize \<le> unat (topOf stack)" "2 ^ e dvd unat ea"
    using place_below [OF e(2,1) stack(2) sizes(1)] c(1) unfolding ea_def by blast+
  have "unat ea < 2 ^ 60" using ent(1) stack(2) by linarith
  from place_below [OF b(2,1) this sizes(2)] c(2) have blk: "unat ba + unat blockSize \<le> unat ea" "2 ^ b dvd unat ba" unfolding ba_def by auto
  have top: "unat (topOf stack) = unat (sv_base stack) + unat (sv_size stack)" using stack(1) by (simp add: topOf_def in_space_def unat_add_small)
  have "unat (ba - sv_base stack) = unat ba - unat (sv_base stack)" using c(3) by (simp add: unat_sub word_le_nat_alt word_less_nat_alt)
  moreover have "4096 \<le> unat (ba - sv_base stack)" using c(4) by (simp add: word_le_nat_alt kMinUsableStack_def)
  moreover have "(2 :: nat) ^ j dvd 2 ^ b" "(2 :: nat) ^ 4 dvd 2 ^ b" "(2 :: nat) ^ i dvd 2 ^ e" "(2 :: nat) ^ 4 dvd 2 ^ e"
    using b e by (simp_all only: le_imp_power_dvd)
  note facts = this
  have "unat (sv_base stack) + 4096 \<le> unat ba" using calculation c(3) by (simp add: word_less_nat_alt)
  moreover have "2 ^ j dvd unat ba" "16 dvd unat ba" "2 ^ i dvd unat ea" "16 dvd unat ea"
    using dvd_trans [OF facts(1) blk(2)] dvd_trans [OF facts(2) blk(2)] dvd_trans [OF facts(3) ent(2)] dvd_trans [OF facts(4) ent(2)] by simp_all
  moreover have "unat (ba - sv_base stack) = unat ba - unat (sv_base stack)" using c(3) by (simp add: unat_sub word_le_nat_alt word_less_nat_alt)
  ultimately show ?thesis using ent(1) blk(1) unfolding l top by simp
qed

theorem carveStack_layout_witness:
  "ly_fits (carveStack \<lparr>sv_base = 0x10000, sv_size = 0x10000\<rparr> 100 8 200 64)
    \<and> unat (ly_block (carveStack \<lparr>sv_base = 0x10000, sv_size = 0x10000\<rparr> 100 8 200 64)) + unat (200 :: u64)
      \<le> unat (ly_entry (carveStack \<lparr>sv_base = 0x10000, sv_size = 0x10000\<rparr> 100 8 200 64))"
proof -
  let ?s = "\<lparr>sv_base = 0x10000, sv_size = 0x10000\<rparr>"
  have f: "ly_fits (carveStack ?s 100 8 200 64)" by code_simp
  have "in_space ?s" "unat (topOf ?s) < 2 ^ 60" by (simp_all add: in_space_def topOf_def)
  from carveStack_layout [OF this, of 100 200 8 3 64 6] f show ?thesis by simp
qed

text \<open>a stack from the mmap allocator has at least the requested size (a size whose rounding wraps around is
  refused), all of it is accessible, everything between it and the start of its mapping is a guard
  that is not, it overlaps no other live stack, and giving it back restores the address space exactly;
  a request that fails leaves it as it was.\<close>

theorem mmap_stack_guarded:
  assumes "mmap_inv o' s" "mmap_answers o' s bytes k" "mmap_alloc o' s bytes k = (r, s')"
  shows "case r of
      Inr v \<Rightarrow> unat bytes \<le> unat (sv_size v) \<and> (\<forall>x\<in>extent v. mm_vm s' x = Some ReadWrite)
        \<and> (\<forall>x. unat (sv_base v) - unat (guardOf o') \<le> x \<and> x < unat (sv_base v) \<longrightarrow> mm_vm s' x = Some NoAccess)
        \<and> (\<forall>u\<in>set (mm_live s). extent v \<inter> extent u = {}) \<and> mmap_dealloc o' s' v () = s
    | Inl e \<Rightarrow> s' = s"
proof (cases r)
  case (Inl e)
  then have "s' = s" using assms mmap_allocate_err [of o' k "mm_vm s" bytes] by (auto simp: mmap_alloc_def mmap_answers_def split: prod.splits sum.splits)
  then show ?thesis using Inl by simp
next
  case (Inr v)
  note law = mmap_alloc_law [OF assms(1,2) assms(3) [unfolded Inr]]
  have "guarded o' (mm_vm s') v" using law(1,2) by (simp add: mmap_inv_def)
  moreover have "extent v \<inter> extent u = {}" if "u \<in> set (mm_live s)" for u
    using mmap.alloc_apart(2) [OF assms(1,2) assms(3) [unfolded Inr] that] .
  moreover have "mmap_dealloc o' s' v () = s" using law(2,4) by (simp add: mmap_dealloc_def fun_eq_iff)
  ultimately show ?thesis using law(3) Inr by (auto simp: guarded_def)
qed

definition demo_mmap :: mmap_options where "demo_mmap = \<lparr>mo_guardPages = 1, mo_page = 4096\<rparr>"
definition demo_vm :: mmap_sys where "demo_vm = \<lparr>mm_vm = (\<lambda>_. None), mm_live = []\<rparr>"
definition demo_kernel :: kernel where "demo_kernel = \<lparr>kn_mapping = Some 0x7000000, kn_protects = (\<lambda>_. True), kn_errno = 0\<rparr>"

theorem mmap_stack_guarded_witness:
  "\<exists>s'. mmap_alloc demo_mmap demo_vm 10000 demo_kernel = (Inr \<lparr>sv_base = 0x7001000, sv_size = 12288\<rparr>, s')
     \<and> mm_vm s' 0x7000fff = Some NoAccess \<and> mmap_dealloc demo_mmap s' \<lparr>sv_base = 0x7001000, sv_size = 12288\<rparr> () = demo_vm"
proof -
  let ?v = "\<lparr>sv_base = 0x7001000, sv_size = 12288\<rparr> :: stackView"
  have g: "guardOf demo_mmap = 4096" "roundUpToPage 10000 (mo_page demo_mmap) = 12288" by code_simp+
  have "fst (mmap_alloc demo_mmap demo_vm 10000 demo_kernel) = Inr ?v"
    by (simp add: mmap_alloc_def mmap_allocate_def Let_def g demo_kernel_def)
  then obtain s' where s': "mmap_alloc demo_mmap demo_vm 10000 demo_kernel = (Inr ?v, s')" by (metis prod.collapse)
  have "mmap_inv demo_mmap demo_vm" by (simp add: mmap_inv_def demo_mmap_def demo_vm_def)
  moreover have "mmap_answers demo_mmap demo_vm 10000 demo_kernel" unfolding mmap_answers_def g by (simp add: kernel_ok_def demo_kernel_def demo_vm_def)
  ultimately have "\<forall>x. unat (sv_base ?v) - unat (guardOf demo_mmap) \<le> x \<and> x < unat (sv_base ?v) \<longrightarrow> mm_vm s' x = Some NoAccess"
    "mmap_dealloc demo_mmap s' ?v () = demo_vm" using mmap_stack_guarded [OF _ _ s'] by simp_all
  moreover have "unat (sv_base ?v) - unat (guardOf demo_mmap) \<le> 0x7000fff" "0x7000fff < unat (sv_base ?v)" unfolding g by simp_all
  ultimately show ?thesis using s' by blast
qed

text \<open>a batch from one mapping: the stacks, each with its own guard below it, tile the start of the mapping;
  when a guard cannot be set up everything from there on is unmapped again, and nothing outside the
  mapping changes.\<close>

theorem mmap_batch_tiles:
  assumes page: "0 < unat (mo_page o')" and batch: "mmap_allocateMany o' k vm bytes n = (ss, vm')"
  defines "usable \<equiv> roundUpToPage bytes (mo_page o')" and "guard \<equiv> guardOf o'"
  assumes k: "kernel_ok k vm (n * unat (usable + guard))"
  shows "(ss = [] \<and> vm' = vm) \<or> (\<exists>m d. kn_mapping k = Some m \<and> d \<le> n \<and> unat bytes \<le> unat usable \<and> ss = map (slotView m guard usable) [0..<d]
    \<and> (\<forall>x. vm' x = (if x < unat m \<or> unat m + d * unat (usable + guard) \<le> x then vm x
          else if (x - unat m) mod unat (usable + guard) < unat guard then Some NoAccess else Some ReadWrite)))"
proof (cases "n = 0 \<or> usable = 0 \<or> usable > (- 1) - guard \<or> unat (usable + guard) > unat (- 1 :: u64) div n \<or> kn_mapping k = None")
  case True
  then have "ss = [] \<and> vm' = vm" using batch by (auto simp: mmap_allocateMany_def usable_def guard_def Let_def split: if_splits)
  then show ?thesis by simp
next
  case False
  then obtain m where m: "kn_mapping k = Some m" by auto
  let ?vm = "vm_set vm m ((usable + guard) * of_nat n) (Some ReadWrite)"
  have c: "carveSlots guard usable (usable + guard) k m 0 n ?vm = (ss, vm')"
    using batch False m by (auto simp: mmap_allocateMany_def usable_def guard_def Let_def split: if_splits)
  have slot: "unat (usable + guard) = unat usable + unat guard" using False by (intro no_overflow) simp
  have u: "0 < unat usable" using False by (simp add: unat_gt_0)
  have small: "unat m + (0 + n) * unat (usable + guard) < 2 ^ 64" using k m by (simp add: kernel_ok_def)
  from carveSlots_law [OF slot u small c refl] obtain d where d: "d \<le> n" "ss = map (slotView m guard usable) [0..<d]"
    "vm' = carved (unat m) (unat guard) (unat (usable + guard)) d n ?vm" by auto
  have "unat ((usable + guard) * of_nat n) = n * unat (usable + guard)" using unat_slot(2) [OF small, of n] by (simp add: mult.commute)
  then have vm1: "?vm x = (if unat m \<le> x \<and> x < unat m + n * unat (usable + guard) then Some ReadWrite else vm x)" for x by (simp add: vm_set_apply)
  have free: "vm x = None" if "unat m \<le> x" "x < unat m + n * unat (usable + guard)" for x using k m that by (simp add: kernel_ok_def)
  define D N where "D = d * unat (usable + guard)" and "N = n * unat (usable + guard)"
  have "D \<le> N" using d(1) by (simp add: D_def N_def)
  then have "vm' x = (if x < unat m \<or> unat m + d * unat (usable + guard) \<le> x then vm x
          else if (x - unat m) mod unat (usable + guard) < unat guard then Some NoAccess else Some ReadWrite)" for x
    using free [of x] unfolding d(3) carved_def vm1 D_def [symmetric] N_def [symmetric] by (auto simp: not_less)
  moreover have "unat bytes \<le> unat usable" using roundUp_covers [OF page, of bytes] False unfolding usable_def by auto
  ultimately show ?thesis using m d(1,2) by blast
qed

theorem mmap_batch_tiles_witness:
  "\<exists>ss vm'. mmap_allocateMany demo_mmap (demo_kernel\<lparr>kn_protects := (\<lambda>i. i < 2)\<rparr>) (\<lambda>_. None) 4000 3 = (ss, vm') \<and> length ss = 2 \<and> vm' 0x7005000 = None"
proof -
  let ?k = "demo_kernel\<lparr>kn_protects := (\<lambda>i. i < 2)\<rparr>"
  have g: "guardOf demo_mmap = 4096" "roundUpToPage 4000 (mo_page demo_mmap) = 4096" by code_simp+
  obtain ss vm' where b: "mmap_allocateMany demo_mmap ?k (\<lambda>_. None) 4000 3 = (ss, vm')" by (metis surj_pair)
  have "kernel_ok ?k (\<lambda>_. None) (3 * unat (roundUpToPage 4000 (mo_page demo_mmap) + guardOf demo_mmap))" unfolding g by (simp add: kernel_ok_def demo_kernel_def)
  moreover have len: "length ss = 2"
  proof -
    have "(ss, vm') = carveSlots 4096 4096 8192 ?k 0x7000000 0 3 (vm_set (\<lambda>_. None) 0x7000000 (8192 * 3) (Some ReadWrite))"
      unfolding b [symmetric] mmap_allocateMany_def Let_def g by (simp add: demo_kernel_def unsigned_minus_1_eq_mask mask_eq_exp_minus_1)
    moreover have "length (fst (carveSlots 4096 4096 8192 ?k 0x7000000 0 3 vm)) = 2" for vm
      by (simp add: numeral_3_eq_3 split: prod.splits)
    ultimately show ?thesis by (metis fst_conv)
  qed
  ultimately obtain m d where m: "kn_mapping ?k = Some m" "ss = map (slotView m (guardOf demo_mmap) (roundUpToPage 4000 (mo_page demo_mmap))) [0..<d]"
    and vm: "vm' x = (if x < unat m \<or> unat m + d * unat (roundUpToPage 4000 (mo_page demo_mmap) + guardOf demo_mmap) \<le> x then None
          else if (x - unat m) mod unat (roundUpToPage 4000 (mo_page demo_mmap) + guardOf demo_mmap) < unat (guardOf demo_mmap) then Some NoAccess else Some ReadWrite)" for x
    using mmap_batch_tiles [OF _ b] by (auto simp: demo_mmap_def)
  have "d = 2" "m = 0x7000000" using len m by (simp_all add: demo_kernel_def)
  then have "vm' 0x7005000 = None" unfolding vm g by simp
  then show ?thesis using b len by blast
qed

end
