(* ===== verification/Pooled_Stacks.thy ===== *)
theory Pooled_Stacks
  imports Stack_Memory Step_System
begin

text \<open>
  \<^verbatim>\<open>stack/PooledStackAllocator.cpp\<close>: per-thread caches of free stacks by size, a shared pool, and the
  reserve, in front of an upstream allocator.  Free stacks are chained through a node in their own
  memory, which is modelled as such: \<open>pa_next\<close> is the memory of the nodes.  A thread is a number below
  the length of \<open>pa_caches\<close>; what the thread-specific storage, the shared pool and the upstream
  allocator answer in one call is an argument.  The shared pool is the FIFO list that \<^verbatim>\<open>SharedPool\<close> (a
  \<open>Bbq_Queue\<close>) is between whole operations; that a push or a pop of it meets another one is an answer
  too: \<open>an_busy\<close> of the four pops of one call find it busy, and \<open>an_sharedFull\<close> says that a push of
  the call found it full, or busy eight times.
\<close>

section \<open>State\<close>

definition kMaxSizeClasses :: nat where "kMaxSizeClasses = 8"
definition kReserveBatch :: nat where "kReserveBatch = 32"

text \<open>Addresses of nodes; zero is the null pointer.\<close>

record sizeClass =
  cl_size :: u64
  cl_head :: u64
  cl_count :: nat

record reserveClass = sizeClass +
  rv_target :: nat

record threadCache =
  tc_classes :: "sizeClass list"
  tc_cachedStacks :: nat
  tc_cachedBytes :: nat

record pooled =
  pa_next :: "u64 \<Rightarrow> u64"
  pa_caches :: "threadCache option list"
  pa_shared :: "stackView list"
  pa_reserves :: "reserveClass list"
  pa_page :: u64
  pa_maxCachedStacksPerThread :: nat
  pa_maxCachedBytesPerThread :: nat
  pa_keyValid :: bool
  pa_returned :: "stackView list"

text \<open>\<open>pa_returned\<close> collects what went back upstream.  The answers from below for one call:\<close>

record answers =
  an_setspecific :: bool
  an_sharedFull :: bool
  an_busy :: nat
  an_upstream :: "alloc_error + stackView"

definition nodeOf :: "stackView \<Rightarrow> u64" where
  "nodeOf s = topOf s - 8"

definition viewOf :: "u64 \<Rightarrow> u64 \<Rightarrow> stackView" where
  "viewOf node n = \<lparr>sv_base = node + 8 - n, sv_size = n\<rparr>"

section \<open>Free lists\<close>

definition class_push :: "(u64 \<Rightarrow> u64) \<Rightarrow> 'c sizeClass_scheme \<Rightarrow> stackView \<Rightarrow> (u64 \<Rightarrow> u64) \<times> 'c sizeClass_scheme" where
  "class_push nx c s = (nx(nodeOf s := cl_head c), c\<lparr>cl_head := nodeOf s, cl_count := cl_count c + 1\<rparr>)"

definition class_pop :: "(u64 \<Rightarrow> u64) \<Rightarrow> 'c sizeClass_scheme \<Rightarrow> stackView \<times> 'c sizeClass_scheme" where
  "class_pop nx c = (viewOf (cl_head c) (cl_size c), c\<lparr>cl_head := nx (cl_head c), cl_count := cl_count c - 1\<rparr>)"

fun findSize :: "'c sizeClass_scheme list \<Rightarrow> u64 \<Rightarrow> nat option" where
  "findSize [] n = None"
| "findSize (c # cs) n = (if cl_size c = n then Some 0 else map_option Suc (findSize cs n))"

definition findOrAdd :: "'c sizeClass_scheme list \<Rightarrow> u64 \<Rightarrow> nat option \<times> 'c sizeClass_scheme list" where
  "findOrAdd cs n =
     (case findSize cs n of
        Some i \<Rightarrow> (Some i, cs)
      | None \<Rightarrow>
          (case findSize cs 0 of
             Some i \<Rightarrow> (Some i, cs[i := (cs ! i)\<lparr>cl_size := n\<rparr>])
           | None \<Rightarrow> (None, cs)))"

section \<open>The cache of a thread\<close>

definition cacheOf :: "pooled \<Rightarrow> nat \<Rightarrow> threadCache" where
  "cacheOf p t = the (pa_caches p ! t)"

definition setCache :: "pooled \<Rightarrow> nat \<Rightarrow> threadCache \<Rightarrow> pooled" where
  "setCache p t tc = p\<lparr>pa_caches := (pa_caches p)[t := Some tc]\<rparr>"

text \<open>The bytes are those of stacks that do not overlap, so their sum does not wrap.\<close>

definition canCache :: "pooled \<Rightarrow> threadCache \<Rightarrow> u64 \<Rightarrow> bool" where
  "canCache p tc n \<longleftrightarrow> tc_cachedStacks tc < pa_maxCachedStacksPerThread p \<and> tc_cachedBytes tc + unat n \<le> pa_maxCachedBytesPerThread p"

definition pushFront :: "pooled \<Rightarrow> nat \<Rightarrow> nat \<Rightarrow> stackView \<Rightarrow> pooled" where
  "pushFront p t i s =
     (let tc = cacheOf p t in
      case class_push (pa_next p) (tc_classes tc ! i) s of (nx, c) \<Rightarrow>
        setCache (p\<lparr>pa_next := nx\<rparr>) t
          (tc\<lparr>tc_classes := (tc_classes tc)[i := c], tc_cachedStacks := tc_cachedStacks tc + 1,
              tc_cachedBytes := tc_cachedBytes tc + unat (sv_size s)\<rparr>))"

definition popFront :: "pooled \<Rightarrow> nat \<Rightarrow> nat \<Rightarrow> stackView \<times> pooled" where
  "popFront p t i =
     (let tc = cacheOf p t; c0 = tc_classes tc ! i in
      case class_pop (pa_next p) c0 of (s, c) \<Rightarrow>
        (s, setCache p t
          (tc\<lparr>tc_classes := (tc_classes tc)[i := c], tc_cachedStacks := tc_cachedStacks tc - 1,
              tc_cachedBytes := tc_cachedBytes tc - unat (cl_size c0)\<rparr>)))"

definition createCache :: "pooled \<Rightarrow> nat \<Rightarrow> bool \<Rightarrow> bool \<times> pooled" where
  "createCache p t ok =
     (if \<not> ok then (False, p)
      else (True, setCache p t \<lparr>tc_classes = replicate kMaxSizeClasses \<lparr>cl_size = 0, cl_head = 0, cl_count = 0\<rparr>,
                               tc_cachedStacks = 0, tc_cachedBytes = 0\<rparr>))"

definition currentCache :: "pooled \<Rightarrow> nat \<Rightarrow> bool \<Rightarrow> bool \<times> pooled" where
  "currentCache p t ok =
     (if \<not> pa_keyValid p then (False, p)
      else if pa_caches p ! t \<noteq> None then (True, p)
      else createCache p t ok)"

definition toUpstream :: "pooled \<Rightarrow> stackView \<Rightarrow> pooled" where
  "toUpstream p s = p\<lparr>pa_returned := s # pa_returned p\<rparr>"

text \<open>Caching a stack if there is a cache, room in it and a class for its size.\<close>

definition tryCache :: "pooled \<Rightarrow> nat option \<Rightarrow> stackView \<Rightarrow> bool \<times> pooled" where
  "tryCache p cache s =
     (case cache of
        None \<Rightarrow> (False, p)
      | Some t \<Rightarrow>
          if canCache p (cacheOf p t) (sv_size s) then
            (case findOrAdd (tc_classes (cacheOf p t)) (sv_size s) of
               (None, cs) \<Rightarrow> (False, setCache p t ((cacheOf p t)\<lparr>tc_classes := cs\<rparr>))
             | (Some i, cs) \<Rightarrow> (True, pushFront (setCache p t ((cacheOf p t)\<lparr>tc_classes := cs\<rparr>)) t i s))
          else (False, p))"

section \<open>The shared pool and the reserve\<close>

fun takeFromShared :: "nat \<Rightarrow> pooled \<Rightarrow> nat option \<Rightarrow> u64 \<Rightarrow> stackView option \<times> pooled" where
  "takeFromShared 0 p cache n = (None, p)"
| "takeFromShared (Suc attempts) p cache n =
     (case pa_shared p of
        [] \<Rightarrow> (None, p)
      | candidate # rest \<Rightarrow>
          let p1 = p\<lparr>pa_shared := rest\<rparr> in
          if sv_size candidate = n then (Some candidate, p1)
          else case tryCache p1 cache candidate of
            (True, p2) \<Rightarrow> takeFromShared attempts p2 cache n
          | (False, p2) \<Rightarrow> takeFromShared attempts (toUpstream p2 candidate) cache n)"

definition giveToShared :: "pooled \<Rightarrow> bool \<Rightarrow> stackView \<Rightarrow> bool \<times> pooled" where
  "giveToShared p full s = (if full then (False, p) else (True, p\<lparr>pa_shared := pa_shared p @ [s]\<rparr>))"

definition pushReserve :: "pooled \<Rightarrow> nat \<Rightarrow> stackView \<Rightarrow> pooled" where
  "pushReserve p i s =
     (case class_push (pa_next p) (pa_reserves p ! i) s of (nx, c) \<Rightarrow> p\<lparr>pa_next := nx, pa_reserves := (pa_reserves p)[i := c]\<rparr>)"

definition popReserve :: "pooled \<Rightarrow> nat \<Rightarrow> stackView \<times> pooled" where
  "popReserve p i =
     (case class_pop (pa_next p) (pa_reserves p ! i) of (s, c) \<Rightarrow> (s, p\<lparr>pa_reserves := (pa_reserves p)[i := c]\<rparr>))"

text \<open>The rest of a batch, into class \<open>j\<close> of the cache; \<open>left\<close> is what the loop counter still allows.\<close>

fun moveBatch :: "nat \<Rightarrow> pooled \<Rightarrow> nat \<Rightarrow> nat \<Rightarrow> nat \<Rightarrow> u64 \<Rightarrow> pooled" where
  "moveBatch 0 p i t j n = p"
| "moveBatch (Suc left) p i t j n =
     (if cl_head (pa_reserves p ! i) \<noteq> 0 \<and> canCache p (cacheOf p t) n then
        (case popReserve p i of (s, p1) \<Rightarrow> moveBatch left (pushFront p1 t j s) i t j n)
      else p)"

definition takeFromReserve :: "pooled \<Rightarrow> nat option \<Rightarrow> u64 \<Rightarrow> stackView option \<times> pooled" where
  "takeFromReserve p0 cache n =
     (case findOrAdd (pa_reserves p0) n of
        (None, rs) \<Rightarrow> (None, p0\<lparr>pa_reserves := rs\<rparr>)
      | (Some i, rs) \<Rightarrow>
          let p = p0\<lparr>pa_reserves := rs\<rparr> in
          if cl_head (rs ! i) = 0 then (None, p)
          else case popReserve p i of (out, p1) \<Rightarrow>
            (Some out,
             case cache of
               None \<Rightarrow> p1
             | Some t \<Rightarrow>
                 (case findOrAdd (tc_classes (cacheOf p1 t)) n of (j, cs) \<Rightarrow>
                    let p2 = setCache p1 t ((cacheOf p1 t)\<lparr>tc_classes := cs\<rparr>) in
                    (case j of None \<Rightarrow> p2 | Some j \<Rightarrow> moveBatch (kReserveBatch - 1) p2 i t j n))))"

definition giveToReserve :: "pooled \<Rightarrow> stackView \<Rightarrow> bool \<times> pooled" where
  "giveToReserve p s =
     (case findSize (pa_reserves p) (sv_size s) of
        None \<Rightarrow> (False, p)
      | Some i \<Rightarrow> if cl_count (pa_reserves p ! i) \<ge> rv_target (pa_reserves p ! i) then (False, p) else (True, pushReserve p i s))"

definition release :: "pooled \<Rightarrow> bool \<Rightarrow> stackView \<Rightarrow> pooled" where
  "release p full s =
     (case giveToShared p full s of
        (True, p1) \<Rightarrow> p1
      | (False, p1) \<Rightarrow> (case giveToReserve p1 s of (True, p2) \<Rightarrow> p2 | (False, p2) \<Rightarrow> toUpstream p2 s))"

section \<open>The allocator\<close>

definition cacheHit :: "pooled \<Rightarrow> nat \<Rightarrow> u64 \<Rightarrow> nat option" where
  "cacheHit p t n =
     (case findSize (tc_classes (cacheOf p t)) n of
        Some i \<Rightarrow> if cl_head (tc_classes (cacheOf p t) ! i) \<noteq> 0 then Some i else None
      | None \<Rightarrow> None)"

text \<open>\<^verbatim>\<open>allocate\<close> up to the point where it would ask upstream.\<close>

definition pooled_take :: "pooled \<Rightarrow> nat \<Rightarrow> u64 \<Rightarrow> answers \<Rightarrow> stackView option \<times> pooled" where
  "pooled_take p t rounded an =
     (case currentCache p t (an_setspecific an) of (has, p1) \<Rightarrow>
        (case (if has then cacheHit p1 t rounded else None) of
           Some i \<Rightarrow> (case popFront p1 t i of (s, p2) \<Rightarrow> (Some s, p2))
         | None \<Rightarrow>
             (case takeFromShared (4 - an_busy an) p1 (if has then Some t else None) rounded of
                (Some s, p2) \<Rightarrow> (Some s, p2)
              | (None, p2) \<Rightarrow> takeFromReserve p2 (if has then Some t else None) rounded)))"

definition pooled_allocate :: "pooled \<Rightarrow> nat \<Rightarrow> u64 \<Rightarrow> answers \<Rightarrow> (alloc_error + stackView) \<times> pooled" where
  "pooled_allocate p t bytes an =
     (case pooled_take p t (roundUpToPage bytes (pa_page p)) an of
        (Some s, p1) \<Rightarrow> (Inr s, p1)
      | (None, p1) \<Rightarrow> (an_upstream an, p1))"

definition pooled_deallocate :: "pooled \<Rightarrow> nat \<Rightarrow> stackView \<Rightarrow> answers \<Rightarrow> pooled" where
  "pooled_deallocate p t s an =
     (if isEmpty s then p
      else case currentCache p t (an_setspecific an) of (has, p1) \<Rightarrow>
        (case tryCache p1 (if has then Some t else None) s of
           (True, p2) \<Rightarrow> p2
         | (False, p2) \<Rightarrow> release p2 (an_sharedFull an) s))"

text \<open>The chunks of \<^verbatim>\<open>reserve\<close>: \<open>got k\<close> is what \<^verbatim>\<open>allocateMany\<close> returns for the \<open>k\<close>-th of them.  A round that
  does not end the loop takes at least one stack off what is missing.\<close>

fun pushReserves :: "pooled \<Rightarrow> nat \<Rightarrow> stackView list \<Rightarrow> pooled" where
  "pushReserves p i [] = p"
| "pushReserves p i (s # ss) = pushReserves (pushReserve p i s) i ss"

function reserveChunks :: "pooled \<Rightarrow> u64 \<Rightarrow> nat \<Rightarrow> (nat \<Rightarrow> stackView list) \<Rightarrow> nat \<Rightarrow> pooled" where
  "reserveChunks p n missing got k =
     (if missing = 0 then p
      else let wanted = min missing 256;
               p1 = (case findOrAdd (pa_reserves p) n of
                       (Some i, rs) \<Rightarrow> pushReserves (p\<lparr>pa_reserves := rs\<rparr>) i (got k)
                     | (None, rs) \<Rightarrow> p)
           in if length (got k) < wanted then p1 else reserveChunks p1 n (missing - length (got k)) got (k + 1))"
  by pat_completeness auto
termination by (relation "measure (\<lambda>(p, n, missing, got, k). missing)") auto

declare reserveChunks.simps [simp del]

definition pooled_reserve :: "pooled \<Rightarrow> u64 \<Rightarrow> nat \<Rightarrow> (nat \<Rightarrow> stackView list) \<Rightarrow> nat \<times> pooled" where
  "pooled_reserve p0 bytes n got =
     (let rounded = roundUpToPage bytes (pa_page p0) in
      case findOrAdd (pa_reserves p0) rounded of
        (None, rs) \<Rightarrow> (0, p0)
      | (Some i, rs) \<Rightarrow>
          let target = max (rv_target (rs ! i)) n;
              p = p0\<lparr>pa_reserves := rs[i := (rs ! i)\<lparr>rv_target := target\<rparr>]\<rparr>;
              p1 = reserveChunks p rounded (target - cl_count (rs ! i)) got 0
          in (cl_count (pa_reserves p1 ! i), p1))"

text \<open>A thread that ends gives its stacks back upstream.\<close>

fun drainClass :: "nat \<Rightarrow> pooled \<Rightarrow> nat \<Rightarrow> nat \<Rightarrow> pooled" where
  "drainClass 0 p t i = p"
| "drainClass (Suc k) p t i =
     (if cl_head (tc_classes (cacheOf p t) ! i) \<noteq> 0
      then (case popFront p t i of (s, p1) \<Rightarrow> drainClass k (toUpstream p1 s) t i) else p)"

definition drainToUpstream :: "pooled \<Rightarrow> nat \<Rightarrow> pooled" where
  "drainToUpstream p t =
     foldl (\<lambda>p i. drainClass (cl_count (tc_classes (cacheOf p t) ! i)) p t i) p [0..<length (tc_classes (cacheOf p t))]"

definition onThreadExit :: "pooled \<Rightarrow> nat \<Rightarrow> pooled" where
  "onThreadExit p t = (case pa_caches p ! t of None \<Rightarrow> p
     | Some _ \<Rightarrow> let p1 = drainToUpstream p t in p1\<lparr>pa_caches := (pa_caches p1)[t := None]\<rparr>)"

text \<open>The destructor.\<close>

fun drainReserve :: "nat \<Rightarrow> pooled \<Rightarrow> nat \<Rightarrow> pooled" where
  "drainReserve 0 p i = p"
| "drainReserve (Suc k) p i =
     (if cl_head (pa_reserves p ! i) \<noteq> 0
      then (case popReserve p i of (s, p1) \<Rightarrow> drainReserve k (toUpstream p1 s) i) else p)"

definition drainReserves :: "pooled \<Rightarrow> pooled" where
  "drainReserves p = foldl (\<lambda>p i. drainReserve (cl_count (pa_reserves p ! i)) p i) p [0..<length (pa_reserves p)]"

definition drainShared :: "pooled \<Rightarrow> pooled" where
  "drainShared p = (foldl toUpstream p (pa_shared p))\<lparr>pa_shared := []\<rparr>"

definition pooled_destroy :: "pooled \<Rightarrow> pooled" where
  "pooled_destroy p =
     (if \<not> pa_keyValid p then p
      else drainReserves (drainShared (foldl onThreadExit p [0..<length (pa_caches p)])))"

section \<open>The stacks on a free list\<close>

fun nodes :: "(u64 \<Rightarrow> u64) \<Rightarrow> u64 \<Rightarrow> nat \<Rightarrow> u64 list" where
  "nodes nx h 0 = []"
| "nodes nx h (Suc k) = h # nodes nx (nx h) k"

fun path :: "(u64 \<Rightarrow> u64) \<Rightarrow> u64 \<Rightarrow> u64 list \<Rightarrow> bool" where
  "path nx h [] \<longleftrightarrow> h = 0"
| "path nx h (n # ns) \<longleftrightarrow> h = n \<and> n \<noteq> 0 \<and> path nx (nx n) ns"

definition classStacks :: "(u64 \<Rightarrow> u64) \<Rightarrow> 'c sizeClass_scheme \<Rightarrow> stackView list" where
  "classStacks nx c = map (\<lambda>n. viewOf n (cl_size c)) (nodes nx (cl_head c) (cl_count c))"

definition class_ok :: "(u64 \<Rightarrow> u64) \<Rightarrow> 'c sizeClass_scheme \<Rightarrow> bool" where
  "class_ok nx c \<longleftrightarrow> path nx (cl_head c) (nodes nx (cl_head c) (cl_count c)) \<and> (cl_size c = 0 \<longrightarrow> cl_count c = 0)"

lemma viewOf_nodeOf: "viewOf (nodeOf s) (sv_size s) = s"
  by (simp add: viewOf_def nodeOf_def topOf_def)

lemma nodeOf_viewOf: "nodeOf (viewOf n m) = n" "sv_size (viewOf n m) = m"
  by (simp_all add: viewOf_def nodeOf_def topOf_def)

lemma nodes_classStacks: "map nodeOf (classStacks nx c) = nodes nx (cl_head c) (cl_count c)"
  by (simp add: classStacks_def nodeOf_viewOf comp_def)

lemma length_nodes: "length (nodes nx h k) = k"
  by (induction k arbitrary: h) auto

lemma length_classStacks: "length (classStacks nx c) = cl_count c"
  by (simp add: classStacks_def length_nodes)

lemma size_classStacks: "s \<in> set (classStacks nx c) \<Longrightarrow> sv_size s = cl_size c"
  by (auto simp: classStacks_def nodeOf_viewOf)

lemma nodes_frame: "n \<notin> set (nodes nx h k) \<Longrightarrow> nodes (nx(n := x)) h k = nodes nx h k"
  by (induction k arbitrary: h) auto

lemma path_frame: "n \<notin> set ns \<Longrightarrow> path (nx(n := x)) h ns = path nx h ns"
  by (induction ns arbitrary: h) auto

lemma class_frame:
  assumes "n \<notin> nodeOf ` set (classStacks nx c)"
  shows "classStacks (nx(n := x)) c = classStacks nx c" "class_ok (nx(n := x)) c = class_ok nx c"
proof -
  have "n \<notin> set (nodes nx (cl_head c) (cl_count c))" using assms nodes_classStacks [of nx c] by (metis list.set_map)
  then show "classStacks (nx(n := x)) c = classStacks nx c" "class_ok (nx(n := x)) c = class_ok nx c"
    by (simp_all add: classStacks_def class_ok_def nodes_frame path_frame)
qed

lemma class_push_law:
  assumes "class_ok nx c" "nodeOf s \<notin> nodeOf ` set (classStacks nx c)" "nodeOf s \<noteq> 0" "sv_size s \<noteq> 0" "sv_size s = cl_size c"
    "class_push nx c s = (nx', c')"
  shows "nx' = nx(nodeOf s := cl_head c)" "class_ok nx' c'" "classStacks nx' c' = s # classStacks nx c" "cl_size c' = cl_size c" "cl_count c' = cl_count c + 1"
proof -
  have n: "nodeOf s \<notin> set (nodes nx (cl_head c) (cl_count c))" using assms(2) nodes_classStacks [of nx c] by (metis list.set_map)
  show nx': "nx' = nx(nodeOf s := cl_head c)" and "cl_size c' = cl_size c" "cl_count c' = cl_count c + 1" using assms(6) by (auto simp: class_push_def)
  show "class_ok nx' c'" "classStacks nx' c' = s # classStacks nx c"
    using assms n viewOf_nodeOf [of s] by (auto simp: class_push_def class_ok_def classStacks_def nodes_frame path_frame)
qed

lemma class_pop_law:
  assumes "class_ok nx c" "cl_head c \<noteq> 0" "class_pop nx c = (s, c')"
  shows "class_ok nx c'" "classStacks nx c = s # classStacks nx c'" "cl_size c' = cl_size c" "cl_count c = cl_count c' + 1" "sv_size s = cl_size c"
proof -
  obtain k where k: "cl_count c = Suc k" using assms(1,2) by (cases "cl_count c") (auto simp: class_ok_def)
  then show "class_ok nx c'" "classStacks nx c = s # classStacks nx c'" "cl_size c' = cl_size c" "cl_count c = cl_count c' + 1" "sv_size s = cl_size c"
    using assms by (auto simp: class_pop_def class_ok_def classStacks_def nodeOf_viewOf)
qed

lemma class_head: "class_ok nx c \<Longrightarrow> cl_head c = 0 \<longleftrightarrow> cl_count c = 0"
  by (cases "cl_count c") (auto simp: class_ok_def)

lemma findSize_law: "findSize cs n = Some i \<Longrightarrow> i < length cs \<and> cl_size (cs ! i) = n"
  by (induction cs arbitrary: i) (auto split: if_splits)

lemma findOrAdd_law:
  assumes "findOrAdd cs n = (r, cs')" "\<forall>c\<in>set cs. class_ok nx c"
  shows "length cs' = length cs" "\<forall>c\<in>set cs'. class_ok nx c" "map (classStacks nx) cs' = map (classStacks nx) cs" "map cl_count cs' = map cl_count cs"
    "(\<Sum>c\<leftarrow>cs'. cl_count c * unat (cl_size c)) = (\<Sum>c\<leftarrow>cs. cl_count c * unat (cl_size c))"
    "r = Some i \<Longrightarrow> i < length cs' \<and> cl_size (cs' ! i) = n"
proof -
  consider "cs' = cs" "\<And>i. r = Some i \<Longrightarrow> i < length cs \<and> cl_size (cs ! i) = n"
    | j where "findSize cs 0 = Some j" "r = Some j" "cs' = cs[j := (cs ! j)\<lparr>cl_size := n\<rparr>]"
    using assms(1) findSize_law by (fastforce simp: findOrAdd_def split: option.splits)
  then have "length cs' = length cs \<and> (\<forall>c\<in>set cs'. class_ok nx c) \<and> map (classStacks nx) cs' = map (classStacks nx) cs \<and> map cl_count cs' = map cl_count cs
    \<and> (\<Sum>c\<leftarrow>cs'. cl_count c * unat (cl_size c)) = (\<Sum>c\<leftarrow>cs. cl_count c * unat (cl_size c)) \<and> (r = Some i \<longrightarrow> i < length cs' \<and> cl_size (cs' ! i) = n)"
  proof cases
    case 1
    then show ?thesis using assms(2) by simp
  next
    case 2
    have j: "j < length cs" "cl_size (cs ! j) = 0" using findSize_law [OF 2(1)] by simp_all
    then have c: "cl_count (cs ! j) = 0" "class_ok nx (cs ! j)" using assms(2) by (auto simp: class_ok_def)
    let ?c = "(cs ! j)\<lparr>cl_size := n\<rparr>"
    have "class_ok nx ?c" "classStacks nx ?c = classStacks nx (cs ! j)" using c by (auto simp: class_ok_def classStacks_def)
    moreover have "cs' = cs[j := ?c]" by fact
    moreover have "map (\<lambda>c. cl_count c * unat (cl_size c)) (cs[j := ?c]) = map (\<lambda>c. cl_count c * unat (cl_size c)) cs"
      "map cl_count (cs[j := ?c]) = map cl_count cs" "map (classStacks nx) (cs[j := ?c]) = map (classStacks nx) cs"
      using calculation c(1) j by (simp_all add: map_update list_update_same_conv)
    moreover have "\<forall>c\<in>set (cs[j := ?c]). class_ok nx c" using calculation(1) assms(2) set_update_subset_insert [of cs j ?c] by auto
    ultimately show ?thesis using 2(2) j by simp
  qed
  then show "length cs' = length cs" "\<forall>c\<in>set cs'. class_ok nx c" "map (classStacks nx) cs' = map (classStacks nx) cs" "map cl_count cs' = map cl_count cs"
    "(\<Sum>c\<leftarrow>cs'. cl_count c * unat (cl_size c)) = (\<Sum>c\<leftarrow>cs. cl_count c * unat (cl_size c))" "r = Some i \<Longrightarrow> i < length cs' \<and> cl_size (cs' ! i) = n" by blast+
qed

section \<open>The stacks of the pool\<close>

definition cacheStacks :: "(u64 \<Rightarrow> u64) \<Rightarrow> threadCache option \<Rightarrow> stackView list" where
  "cacheStacks nx o' = (case o' of None \<Rightarrow> [] | Some tc \<Rightarrow> concat (map (classStacks nx) (tc_classes tc)))"

definition pooled_stacks :: "pooled \<Rightarrow> stackView list" where
  "pooled_stacks p = concat (map (cacheStacks (pa_next p)) (pa_caches p)) @ pa_shared p @ concat (map (classStacks (pa_next p)) (pa_reserves p))"

text \<open>A cache counts what it holds, and holds no more than it may.\<close>

definition cache_fine :: "pooled \<Rightarrow> threadCache \<Rightarrow> bool" where
  "cache_fine p tc \<longleftrightarrow> (\<forall>c\<in>set (tc_classes tc). class_ok (pa_next p) c)
     \<and> tc_cachedStacks tc = (\<Sum>c\<leftarrow>tc_classes tc. cl_count c) \<and> tc_cachedStacks tc \<le> pa_maxCachedStacksPerThread p
     \<and> tc_cachedBytes tc = (\<Sum>c\<leftarrow>tc_classes tc. cl_count c * unat (cl_size c)) \<and> tc_cachedBytes tc \<le> pa_maxCachedBytesPerThread p"

definition pool_fine :: "pooled \<Rightarrow> bool" where
  "pool_fine p \<longleftrightarrow> (\<forall>tc. Some tc \<in> set (pa_caches p) \<longrightarrow> cache_fine p tc) \<and> (\<forall>c\<in>set (pa_reserves p). class_ok (pa_next p) c)"

text \<open>Nodes that can be told apart.\<close>

definition nodes_ok :: "stackView multiset \<Rightarrow> bool" where
  "nodes_ok M \<longleftrightarrow> (\<forall>s. s \<in># M \<longrightarrow> nodeOf s \<noteq> 0 \<and> sv_size s \<noteq> 0) \<and> (\<forall>n. count (image_mset nodeOf M) n \<le> 1)"

definition same_conf :: "pooled \<Rightarrow> pooled \<Rightarrow> bool" where
  "same_conf p p' \<longleftrightarrow> pa_page p' = pa_page p \<and> pa_maxCachedStacksPerThread p' = pa_maxCachedStacksPerThread p
     \<and> pa_maxCachedBytesPerThread p' = pa_maxCachedBytesPerThread p \<and> pa_keyValid p' = pa_keyValid p
     \<and> length (pa_caches p') = length (pa_caches p) \<and> length (pa_reserves p') = length (pa_reserves p)
     \<and> (\<forall>t<length (pa_caches p). pa_caches p ! t \<noteq> None \<longrightarrow> pa_caches p' ! t \<noteq> None)"

text \<open>From \<open>p\<close> with the stacks \<open>X\<close> in hand to \<open>p'\<close> with \<open>X'\<close>: every stack is still somewhere, or went back
  upstream.\<close>

definition moves :: "pooled \<Rightarrow> stackView multiset \<Rightarrow> pooled \<Rightarrow> stackView multiset \<Rightarrow> bool" where
  "moves p X p' X' \<longleftrightarrow> pool_fine p' \<and> same_conf p p'
     \<and> (\<exists>R. pa_returned p' = R @ pa_returned p \<and> mset (pooled_stacks p') + X' + mset R = mset (pooled_stacks p) + X)"

definition fine :: "pooled \<Rightarrow> stackView multiset \<Rightarrow> bool" where
  "fine p X \<longleftrightarrow> pool_fine p \<and> nodes_ok (mset (pooled_stacks p) + X)"

lemma nodes_ok_subset:
  assumes "nodes_ok M" "N \<subseteq># M"
  shows "nodes_ok N"
  unfolding nodes_ok_def
proof (intro conjI allI)
  fix n
  have "count (image_mset nodeOf N) n \<le> count (image_mset nodeOf M) n" using assms(2) by (intro mset_subset_eq_count image_mset_subseteq_mono)
  also have "\<dots> \<le> 1" using assms(1) by (simp add: nodes_ok_def)
  finally show "count (image_mset nodeOf N) n \<le> 1" .
next
  fix s
  show "s \<in># N \<longrightarrow> nodeOf s \<noteq> 0 \<and> sv_size s \<noteq> 0" using assms mset_subset_eqD [OF assms(2), of s] by (simp add: nodes_ok_def)
qed

lemma moves_fine: "fine p X \<Longrightarrow> moves p X p' X' \<Longrightarrow> fine p' X'"
proof -
  assume f: "fine p X" and m: "moves p X p' X'"
  then obtain R where "mset (pooled_stacks p') + X' + mset R = mset (pooled_stacks p) + X" by (auto simp: moves_def)
  then have "mset (pooled_stacks p') + X' \<subseteq># mset (pooled_stacks p) + X" by (metis mset_subset_eq_add_left)
  then show ?thesis using f m nodes_ok_subset by (auto simp: fine_def moves_def)
qed

lemma moves_refl: "pool_fine p \<Longrightarrow> moves p X p X"
  by (auto simp: moves_def same_conf_def)

lemma moves_trans:
  assumes "moves p X p' X'" "moves p' X' p'' X''"
  shows "moves p X p'' X''"
proof -
  obtain R S where R: "pa_returned p' = R @ pa_returned p" "mset (pooled_stacks p') + X' + mset R = mset (pooled_stacks p) + X"
    and S: "pa_returned p'' = S @ pa_returned p'" "mset (pooled_stacks p'') + X'' + mset S = mset (pooled_stacks p') + X'"
    using assms by (auto simp: moves_def)
  have "mset (pooled_stacks p'') + X'' + mset (S @ R) = mset (pooled_stacks p) + X" 
    unfolding R(2) [symmetric] using S(2) by (simp add: add.assoc [symmetric])
  moreover have "pa_returned p'' = (S @ R) @ pa_returned p" using R(1) S(1) by simp
  moreover have "same_conf p p''" using assms by (auto simp: moves_def same_conf_def)
  ultimately show ?thesis using assms unfolding moves_def by blast
qed

lemma nodes_apart:
  assumes "nodes_ok (M + {#s#})"
  shows "nodeOf s \<noteq> 0" "sv_size s \<noteq> 0" "nodeOf s \<notin> nodeOf ` set_mset M"
proof -
  show "nodeOf s \<noteq> 0" "sv_size s \<noteq> 0" using assms by (auto simp: nodes_ok_def)
  have "count (image_mset nodeOf (M + {#s#})) (nodeOf s) \<le> 1" using assms unfolding nodes_ok_def by blast
  then have "count (image_mset nodeOf M) (nodeOf s) = 0" by simp
  then have "nodeOf s \<notin># image_mset nodeOf M" by (simp add: count_eq_zero_iff)
  then show "nodeOf s \<notin> nodeOf ` set_mset M" by simp
qed

text \<open>Writing one node that is on no list.\<close>

lemma stacks_frame:
  assumes "n \<notin> nodeOf ` set (pooled_stacks p)"
  shows "\<And>o'. o' \<in> set (pa_caches p) \<Longrightarrow> cacheStacks ((pa_next p)(n := x)) o' = cacheStacks (pa_next p) o'"
    "\<And>tc. Some tc \<in> set (pa_caches p) \<Longrightarrow> cache_fine p tc \<Longrightarrow> cache_fine (p\<lparr>pa_next := (pa_next p)(n := x)\<rparr>) tc"
    "\<And>c. c \<in> set (pa_reserves p) \<Longrightarrow> classStacks ((pa_next p)(n := x)) c = classStacks (pa_next p) c"
    "\<And>c. c \<in> set (pa_reserves p) \<Longrightarrow> class_ok (pa_next p) c \<Longrightarrow> class_ok ((pa_next p)(n := x)) c"
proof -
  have cached: "n \<notin> nodeOf ` set (classStacks (pa_next p) c)" if "Some tc \<in> set (pa_caches p)" "c \<in> set (tc_classes tc)" for tc c
  proof -
    have "set (classStacks (pa_next p) c) \<subseteq> set (pooled_stacks p)" using that by (force simp: pooled_stacks_def cacheStacks_def)
    then show ?thesis using assms by blast
  qed
  have res: "n \<notin> nodeOf ` set (classStacks (pa_next p) c)" if "c \<in> set (pa_reserves p)" for c
    using that assms by (auto simp: pooled_stacks_def)
  show "cacheStacks ((pa_next p)(n := x)) o' = cacheStacks (pa_next p) o'" if "o' \<in> set (pa_caches p)" for o'
    using that class_frame(1) [OF cached] by (auto simp: cacheStacks_def intro!: arg_cong [where f = concat] split: option.splits)
  show "cache_fine (p\<lparr>pa_next := (pa_next p)(n := x)\<rparr>) tc" if "Some tc \<in> set (pa_caches p)" "cache_fine p tc" for tc
    using that class_frame(2) [OF cached [OF that(1)]] by (simp add: cache_fine_def)
  show "classStacks ((pa_next p)(n := x)) c = classStacks (pa_next p) c" if "c \<in> set (pa_reserves p)" for c
    by (rule class_frame(1) [OF res [OF that]])
  show "class_ok ((pa_next p)(n := x)) c" if "c \<in> set (pa_reserves p)" "class_ok (pa_next p) c" for c
    using class_frame(2) [OF res [OF that(1)]] that(2) by simp
qed

lemma write_node:
  fixes x :: u64
  assumes "fine p (X + {#s#})"
  defines "p' \<equiv> p\<lparr>pa_next := (pa_next p)(nodeOf s := x)\<rparr>"
  shows "pool_fine p'" "pooled_stacks p' = pooled_stacks p" "cacheStacks (pa_next p') o' = cacheStacks (pa_next p) o' \<or> o' \<notin> set (pa_caches p)"
proof -
  have "nodes_ok ((mset (pooled_stacks p) + X) + {#s#})" using assms(1) by (simp add: fine_def)
  from nodes_apart(3) [OF this] have n: "nodeOf s \<notin> nodeOf ` set (pooled_stacks p)" by auto
  note frame = stacks_frame [OF n, where x = x]
  have pf: "pool_fine p" using assms(1) by (simp add: fine_def)
  show "pool_fine p'" using pf frame(2,4) unfolding pool_fine_def p'_def by simp
  have same: "map (cacheStacks (pa_next p')) (pa_caches p) = map (cacheStacks (pa_next p)) (pa_caches p)"
    "map (classStacks (pa_next p')) (pa_reserves p) = map (classStacks (pa_next p)) (pa_reserves p)"
    using frame(1,3) by (simp_all add: p'_def)
  have "pa_caches p' = pa_caches p" "pa_reserves p' = pa_reserves p" "pa_shared p' = pa_shared p" by (simp_all add: p'_def)
  then show "pooled_stacks p' = pooled_stacks p" by (simp only: pooled_stacks_def same)
  show "cacheStacks (pa_next p') o' = cacheStacks (pa_next p) o' \<or> o' \<notin> set (pa_caches p)" using frame(1) by (auto simp: p'_def)
qed

lemma stacks_mset:
  "mset (pooled_stacks p) = (\<Sum>o'\<leftarrow>pa_caches p. mset (cacheStacks (pa_next p) o')) + mset (pa_shared p) + (\<Sum>c\<leftarrow>pa_reserves p. mset (classStacks (pa_next p) c))"
  by (simp add: pooled_stacks_def mset_concat comp_def)

lemma cacheStacks_mset: "mset (cacheStacks nx (Some tc)) = (\<Sum>c\<leftarrow>tc_classes tc. mset (classStacks nx c))"
  by (simp add: cacheStacks_def mset_concat comp_def)

text \<open>Replacing one thread's cache.\<close>

lemma setCache_moves:
  assumes "pool_fine p" "t < length (pa_caches p)" "cache_fine p tc"
    "mset (cacheStacks (pa_next p) (Some tc)) + X' = mset (cacheStacks (pa_next p) (pa_caches p ! t)) + X"
  shows "moves p X (setCache p t tc) X'"
proof -
  let ?p = "setCache p t tc"
  let ?old = "mset (cacheStacks (pa_next p) (pa_caches p ! t))" and ?new = "mset (cacheStacks (pa_next p) (Some tc))"
  have "mset (pooled_stacks ?p) + ?old = mset (pooled_stacks p) + ?new"
    using sum_list_update [OF assms(2), of "\<lambda>o'. mset (cacheStacks (pa_next p) o')" "Some tc"] by (simp add: stacks_mset setCache_def ac_simps)
  then have "(mset (pooled_stacks ?p) + ?old) + X' = mset (pooled_stacks p) + (?new + X')" by (simp add: ac_simps)
  also have "\<dots> = mset (pooled_stacks p) + (?old + X)" unfolding assms(4) ..
  finally have m: "mset (pooled_stacks ?p) + X' = mset (pooled_stacks p) + X" by simp
  have fine: "cache_fine p' tc' = cache_fine p tc'" if "pa_next p' = pa_next p" "pa_maxCachedStacksPerThread p' = pa_maxCachedStacksPerThread p"
    "pa_maxCachedBytesPerThread p' = pa_maxCachedBytesPerThread p" for p' tc' using that by (simp add: cache_fine_def)
  have "pool_fine ?p" unfolding pool_fine_def
  proof (intro conjI allI impI)
    fix tc' assume "Some tc' \<in> set (pa_caches ?p)"
    then have "tc' = tc \<or> Some tc' \<in> set (pa_caches p)" using set_update_subset_insert [of "pa_caches p" t "Some tc"] by (auto simp: setCache_def)
    then have "cache_fine p tc'" using assms(1,3) by (auto simp: pool_fine_def)
    then show "cache_fine ?p tc'" using fine [of ?p tc'] by (simp add: setCache_def)
  qed (use assms(1) in \<open>simp add: pool_fine_def setCache_def\<close>)
  moreover have "same_conf p ?p" using assms(2) by (auto simp: same_conf_def setCache_def nth_list_update)
  moreover have "pa_returned ?p = pa_returned p" by (simp add: setCache_def)
  ultimately show ?thesis using m unfolding moves_def by (intro conjI exI [of _ "[]"]) simp_all
qed

text \<open>Replacing one class of a cache.\<close>

lemma class_update:
  fixes k b :: nat
  assumes "cache_fine p tc" "i < length (tc_classes tc)" "class_ok (pa_next p) c" "cl_size c = cl_size (tc_classes tc ! i)"
    "int k = int (cl_count c) - int (cl_count (tc_classes tc ! i)) + int (tc_cachedStacks tc)" "k \<le> pa_maxCachedStacksPerThread p"
    "int b = (int (cl_count c) - int (cl_count (tc_classes tc ! i))) * int (unat (cl_size c)) + int (tc_cachedBytes tc)" "b \<le> pa_maxCachedBytesPerThread p"
  defines "tc' \<equiv> tc\<lparr>tc_classes := (tc_classes tc)[i := c], tc_cachedStacks := k, tc_cachedBytes := b\<rparr>"
  shows "cache_fine p tc'"
    "mset (cacheStacks nx (Some tc')) + mset (classStacks nx (tc_classes tc ! i)) = mset (cacheStacks nx (Some tc)) + mset (classStacks nx c)"
proof -
  have counts: "(\<Sum>c\<leftarrow>(tc_classes tc)[i := c]. cl_count c) + cl_count (tc_classes tc ! i) = (\<Sum>c\<leftarrow>tc_classes tc. cl_count c) + cl_count c"
    "(\<Sum>c\<leftarrow>(tc_classes tc)[i := c]. cl_count c * unat (cl_size c)) + cl_count (tc_classes tc ! i) * unat (cl_size (tc_classes tc ! i))
      = (\<Sum>c\<leftarrow>tc_classes tc. cl_count c * unat (cl_size c)) + cl_count c * unat (cl_size c)"
    using sum_list_update [OF assms(2), of cl_count c] sum_list_update [OF assms(2), of "\<lambda>c. cl_count c * unat (cl_size c)" c] by simp_all
  have "int b + int (cl_count (tc_classes tc ! i)) * int (unat (cl_size c)) = int (tc_cachedBytes tc) + int (cl_count c) * int (unat (cl_size c))"
    using assms(7) by (simp add: algebra_simps)
  then have b: "b + cl_count (tc_classes tc ! i) * unat (cl_size c) = tc_cachedBytes tc + cl_count c * unat (cl_size c)"
    by (metis of_nat_add of_nat_eq_iff of_nat_mult)
  have "\<forall>x\<in>set ((tc_classes tc)[i := c]). class_ok (pa_next p) x"
    using assms(1,3) set_update_subset_insert [of "tc_classes tc" i c] by (auto simp: cache_fine_def)
  then show "cache_fine p tc'" using assms(1,4,5,6,8) counts b by (simp add: cache_fine_def tc'_def)
  show "mset (cacheStacks nx (Some tc')) + mset (classStacks nx (tc_classes tc ! i)) = mset (cacheStacks nx (Some tc)) + mset (classStacks nx c)"
    using sum_list_update [OF assms(2), of "\<lambda>c. mset (classStacks nx c)" c] by (simp add: cacheStacks_mset tc'_def)
qed

definition hasCache :: "pooled \<Rightarrow> nat \<Rightarrow> bool" where
  "hasCache p t \<longleftrightarrow> t < length (pa_caches p) \<and> pa_caches p ! t \<noteq> None"

lemma hasCache_same: "same_conf p p' \<Longrightarrow> hasCache p t \<Longrightarrow> hasCache p' t"
  by (auto simp: same_conf_def hasCache_def)

lemma hasCacheD: "hasCache p t \<Longrightarrow> t < length (pa_caches p) \<and> pa_caches p ! t = Some (cacheOf p t) \<and> Some (cacheOf p t) \<in> set (pa_caches p)"
  by (auto simp: hasCache_def cacheOf_def intro: nth_mem)

lemma pushFront_moves:
  assumes f: "fine p (X + {#s#})" and h: "hasCache p t" and i: "i < length (tc_classes (cacheOf p t))"
    "cl_size (tc_classes (cacheOf p t) ! i) = sv_size s" and room: "canCache p (cacheOf p t) (sv_size s)"
  shows "moves p (X + {#s#}) (pushFront p t i s) X"
proof -
  let ?tc = "cacheOf p t" and ?c = "tc_classes (cacheOf p t) ! i"
  note t = hasCacheD [OF h]
  have cf: "cache_fine p ?tc" using f t by (auto simp: fine_def pool_fine_def)
  then have ok: "class_ok (pa_next p) ?c" using i(1) by (simp add: cache_fine_def)
  have "nodes_ok ((mset (pooled_stacks p) + X) + {#s#})" using f by (simp add: fine_def)
  note ap = nodes_apart [OF this]
  have "?c \<in> set (tc_classes ?tc)" using i(1) by simp
  then have "set (classStacks (pa_next p) ?c) \<subseteq> set (cacheStacks (pa_next p) (Some ?tc))" by (force simp: cacheStacks_def)
  also have "\<dots> \<subseteq> set (pooled_stacks p)" using t by (force simp: pooled_stacks_def)
  finally have new: "nodeOf s \<notin> nodeOf ` set (classStacks (pa_next p) ?c)" using ap(3) by auto
  obtain nx c where push: "class_push (pa_next p) ?c s = (nx, c)" by (metis surj_pair)
  note cp = class_push_law [OF ok new ap(1,2) i(2) [symmetric] push]
  define p1 where "p1 = p\<lparr>pa_next := nx\<rparr>"
  note w = write_node [OF f, of "cl_head ?c", folded cp(1), folded p1_def]
  have p1: "pa_next p1 = nx" "pa_caches p1 = pa_caches p" "cacheOf p1 t = ?tc" "t < length (pa_caches p1)" "pa_returned p1 = pa_returned p"
    "pa_maxCachedStacksPerThread p1 = pa_maxCachedStacksPerThread p" "pa_maxCachedBytesPerThread p1 = pa_maxCachedBytesPerThread p"
    using t by (simp_all add: p1_def cacheOf_def)
  have cf1: "cache_fine p1 ?tc" using w(1) t p1(2) by (auto simp: pool_fine_def)
  let ?k = "tc_cachedStacks ?tc + 1" and ?b = "tc_cachedBytes ?tc + unat (sv_size s)"
  let ?tc' = "?tc\<lparr>tc_classes := (tc_classes ?tc)[i := c], tc_cachedStacks := ?k, tc_cachedBytes := ?b\<rparr>"
  have "class_ok (pa_next p1) c" "cl_size c = cl_size ?c" using cp(2,4) p1(1) by simp_all
  note up = class_update(1) [OF cf1 i(1) this, where k = ?k and b = ?b] class_update(2) [OF cf1 i(1) this, where k = ?k and b = ?b and nx = nx]
  have up1: "cache_fine p1 ?tc'" using up(1) room cp(4,5) i(2) p1 by (simp add: canCache_def algebra_simps)
  have "mset (cacheStacks nx (Some ?tc')) + mset (classStacks nx ?c) = mset (cacheStacks nx (Some ?tc)) + mset (classStacks nx c)"
    using up(2) room cp(4,5) i(2) p1 by (simp add: canCache_def algebra_simps)
  moreover have "classStacks nx ?c = classStacks (pa_next p) ?c" unfolding cp(1) by (rule class_frame(1) [OF new])
  ultimately have "mset (cacheStacks nx (Some ?tc')) = mset (cacheStacks nx (Some ?tc)) + {#s#}" using cp(3) by simp
  then have "moves p1 (X + {#s#}) (setCache p1 t ?tc') X"
    using t p1 by (intro setCache_moves [OF w(1) p1(4) up1]) simp
  moreover have "pushFront p t i s = setCache p1 t ?tc'" by (simp add: pushFront_def Let_def push p1_def)
  moreover have "moves p (X + {#s#}) p1 (X + {#s#})" using w(1,2) by (auto simp: moves_def same_conf_def p1_def)
  ultimately show ?thesis using moves_trans by metis
qed

lemma popFront_moves:
  assumes f: "fine p X" and h: "hasCache p t" and i: "i < length (tc_classes (cacheOf p t))" "cl_head (tc_classes (cacheOf p t) ! i) \<noteq> 0"
    and r: "popFront p t i = (s, p')"
  shows "moves p X p' (X + {#s#})" "sv_size s = cl_size (tc_classes (cacheOf p t) ! i)"
proof -
  let ?tc = "cacheOf p t" and ?c = "tc_classes (cacheOf p t) ! i"
  note t = hasCacheD [OF h]
  have cf: "cache_fine p ?tc" using f t by (auto simp: fine_def pool_fine_def)
  then have ok: "class_ok (pa_next p) ?c" using i(1) by (simp add: cache_fine_def)
  obtain c where pop: "class_pop (pa_next p) ?c = (s, c)" using r by (auto simp: popFront_def Let_def split: prod.splits)
  note cp = class_pop_law [OF ok i(2) pop]
  let ?k = "tc_cachedStacks ?tc - 1" and ?b = "tc_cachedBytes ?tc - unat (cl_size ?c)"
  let ?tc' = "?tc\<lparr>tc_classes := (tc_classes ?tc)[i := c], tc_cachedStacks := ?k, tc_cachedBytes := ?b\<rparr>"
  have "cl_count ?c \<le> tc_cachedStacks ?tc" "cl_count ?c * unat (cl_size ?c) \<le> tc_cachedBytes ?tc"
    using cf i(1) member_le_sum_list [of "cl_count ?c" "map cl_count (tc_classes ?tc)"]
      member_le_sum_list [of "cl_count ?c * unat (cl_size ?c)" "map (\<lambda>c. cl_count c * unat (cl_size c)) (tc_classes ?tc)"]
    by (simp_all add: cache_fine_def)
  moreover have "tc_cachedStacks ?tc \<le> pa_maxCachedStacksPerThread p" "tc_cachedBytes ?tc \<le> pa_maxCachedBytesPerThread p"
    using cf by (simp_all add: cache_fine_def)
  ultimately have eqs: "int ?k = int (cl_count c) - int (cl_count ?c) + int (tc_cachedStacks ?tc)" "?k \<le> pa_maxCachedStacksPerThread p"
    "int ?b = (int (cl_count c) - int (cl_count ?c)) * int (unat (cl_size c)) + int (tc_cachedBytes ?tc)" "?b \<le> pa_maxCachedBytesPerThread p"
    using cp(3,4) by (simp_all add: of_nat_diff)
  note up = class_update [OF cf i(1) cp(1,3) eqs]
  have "mset (cacheStacks (pa_next p) (Some ?tc')) + {#s#} = mset (cacheStacks (pa_next p) (Some ?tc))"
    using up(2) [of "pa_next p"] cp(2) by simp
  then have "moves p X (setCache p t ?tc') (X + {#s#})" using f t by (intro setCache_moves [OF _ _ up(1)]) (simp_all add: fine_def)
  then show "moves p X p' (X + {#s#})" using r by (simp add: popFront_def Let_def pop)
  show "sv_size s = cl_size ?c" by (rule cp(5))
qed

text \<open>Looking for a class in a cache, or claiming one.\<close>

lemma claimClass_moves:
  assumes f: "pool_fine p" and h: "hasCache p t" and r: "findOrAdd (tc_classes (cacheOf p t)) n = (j, cs)"
  defines "p' \<equiv> setCache p t ((cacheOf p t)\<lparr>tc_classes := cs\<rparr>)"
  shows "moves p X p' X" "hasCache p' t" "canCache p' (cacheOf p' t) = canCache p (cacheOf p t)" "tc_classes (cacheOf p' t) = cs"
    "j = Some i \<Longrightarrow> i < length cs \<and> cl_size (cs ! i) = n"
proof -
  let ?tc = "cacheOf p t"
  note t = hasCacheD [OF h]
  have cf: "cache_fine p ?tc" using f t by (auto simp: pool_fine_def)
  have "\<forall>c\<in>set (tc_classes ?tc). class_ok (pa_next p) c" using cf by (simp add: cache_fine_def)
  note fo = findOrAdd_law [OF r this]
  have "cache_fine p (?tc\<lparr>tc_classes := cs\<rparr>)" using cf fo(2,5) arg_cong [OF fo(4), of sum_list] by (simp add: cache_fine_def)
  moreover have "cacheStacks (pa_next p) (Some (?tc\<lparr>tc_classes := cs\<rparr>)) = cacheStacks (pa_next p) (Some ?tc)" using fo(3) by (simp add: cacheStacks_def)
  ultimately show "moves p X p' X" using f t unfolding p'_def by (intro setCache_moves) simp_all
  show "hasCache p' t" using t by (simp add: p'_def hasCache_def setCache_def)
  show "canCache p' (cacheOf p' t) = canCache p (cacheOf p t)" "tc_classes (cacheOf p' t) = cs" using t by (simp_all add: p'_def canCache_def cacheOf_def setCache_def fun_eq_iff)
  show "j = Some i \<Longrightarrow> i < length cs \<and> cl_size (cs ! i) = n" by (rule fo(6))
qed

lemma tryCache_moves:
  assumes f: "fine p (X + {#s#})" and h: "\<And>t. cache = Some t \<Longrightarrow> hasCache p t" and r: "tryCache p cache s = (b, p')"
  shows "moves p (X + {#s#}) p' (if b then X else X + {#s#})"
proof (cases "\<exists>t. cache = Some t \<and> canCache p (cacheOf p t) (sv_size s)")
  case False
  then have "b = False \<and> p' = p" using r by (auto simp: tryCache_def split: option.splits)
  then show ?thesis using f by (auto intro: moves_refl simp: fine_def)
next
  case True
  then obtain t where t: "cache = Some t" "canCache p (cacheOf p t) (sv_size s)" by blast
  obtain j cs where fo: "findOrAdd (tc_classes (cacheOf p t)) (sv_size s) = (j, cs)" by (metis surj_pair)
  have pf: "pool_fine p" using f by (simp add: fine_def)
  let ?p = "setCache p t ((cacheOf p t)\<lparr>tc_classes := cs\<rparr>)"
  note cl = claimClass_moves [OF pf h [OF t(1)] fo]
  show ?thesis
  proof (cases j)
    case None
    then show ?thesis using r t fo cl(1) by (auto simp: tryCache_def)
  next
    case (Some i)
    have "fine ?p (X + {#s#})" by (rule moves_fine [OF f cl(1)])
    then have "moves ?p (X + {#s#}) (pushFront ?p t i s) X" using cl(2-5) Some t(2) by (intro pushFront_moves) simp_all
    then show ?thesis using r t fo Some moves_trans [OF cl(1)] by (auto simp: tryCache_def)
  qed
qed

lemma toUpstream_moves: "pool_fine p \<Longrightarrow> moves p (X + {#s#}) (toUpstream p s) X"
proof -
  assume f: "pool_fine p"
  have "cache_fine (toUpstream p s) = cache_fine p" by (auto simp: cache_fine_def toUpstream_def fun_eq_iff)
  then have "pool_fine (toUpstream p s)" using f by (simp add: pool_fine_def) (simp add: toUpstream_def)
  moreover have "pooled_stacks (toUpstream p s) = pooled_stacks p" by (simp add: pooled_stacks_def toUpstream_def)
  ultimately show ?thesis unfolding moves_def by (intro conjI exI [of _ "[s]"]) (simp_all add: toUpstream_def same_conf_def)
qed

lemma shared_moves:
  assumes f: "pool_fine p" and e: "mset ss + X' = mset (pa_shared p) + X"
  shows "moves p X (p\<lparr>pa_shared := ss\<rparr>) X'"
proof -
  let ?p = "p\<lparr>pa_shared := ss\<rparr>"
  have "cache_fine ?p = cache_fine p" by (auto simp: cache_fine_def fun_eq_iff)
  then have "pool_fine ?p" using f by (simp add: pool_fine_def)
  moreover have "mset (pooled_stacks ?p) + X' = mset (pooled_stacks p) + X" using e by (simp add: pooled_stacks_def ac_simps)
  ultimately show ?thesis unfolding moves_def by (intro conjI exI [of _ "[]"]) (simp_all add: same_conf_def)
qed

lemma takeFromShared_moves:
  assumes "fine p X" "\<And>t. cache = Some t \<Longrightarrow> hasCache p t" "takeFromShared k p cache n = (r, p')"
  shows "moves p X p' (case r of None \<Rightarrow> X | Some s \<Rightarrow> X + {#s#})" "r = Some s \<Longrightarrow> sv_size s = n"
proof -
  have "moves p X p' (case r of None \<Rightarrow> X | Some s \<Rightarrow> X + {#s#}) \<and> (r = Some s \<longrightarrow> sv_size s = n)"
    using assms
  proof (induction k arbitrary: p)
    case 0
    then show ?case by (auto intro: moves_refl simp: fine_def)
  next
    case (Suc k)
    have pf: "pool_fine p" using Suc.prems(1) by (simp add: fine_def)
    show ?case
    proof (cases "pa_shared p")
      case Nil
      then show ?thesis using Suc.prems(3) pf by (auto intro: moves_refl)
    next
      case (Cons c rest)
      let ?p1 = "p\<lparr>pa_shared := rest\<rparr>"
      have m1: "moves p X ?p1 (X + {#c#})" using pf Cons by (intro shared_moves) simp_all
      have f1: "fine ?p1 (X + {#c#})" by (rule moves_fine [OF Suc.prems(1) m1])
      show ?thesis
      proof (cases "sv_size c = n")
        case True
        then show ?thesis using Suc.prems(3) Cons m1 by auto
      next
        case False
        obtain b p2 where tc: "tryCache ?p1 cache c = (b, p2)" by (metis surj_pair)
        have h1: "hasCache ?p1 t" if "cache = Some t" for t using Suc.prems(2) [OF that] by (simp add: hasCache_def)
        have m2: "moves ?p1 (X + {#c#}) p2 (if b then X else X + {#c#})" using tryCache_moves [OF f1 _ tc] h1 by blast
        define p3 where "p3 = (if b then p2 else toUpstream p2 c)"
        have "pool_fine p2" using m2 by (simp add: moves_def)
        then have "moves p2 (if b then X else X + {#c#}) p3 X" using toUpstream_moves moves_refl by (simp add: p3_def)
        then have m3: "moves p X p3 X" using moves_trans [OF m1 moves_trans [OF m2]] by blast
        have rec: "takeFromShared k p3 cache n = (r, p')" using Suc.prems(3) Cons False tc by (auto simp: p3_def split: bool.splits)
        have "hasCache p3 t" if "cache = Some t" for t using hasCache_same [OF _ Suc.prems(2) [OF that]] m3 by (simp add: moves_def)
        from Suc.IH [OF moves_fine [OF Suc.prems(1) m3] this rec] show ?thesis using moves_trans [OF m3] by blast
      qed
    qed
  qed
  then show "moves p X p' (case r of None \<Rightarrow> X | Some s \<Rightarrow> X + {#s#})" "r = Some s \<Longrightarrow> sv_size s = n" by blast+
qed

text \<open>Replacing the reserve classes.\<close>

lemma reserves_moves:
  assumes "pool_fine p" "length rs = length (pa_reserves p)" "\<forall>c\<in>set rs. class_ok (pa_next p) c"
    "(\<Sum>c\<leftarrow>rs. mset (classStacks (pa_next p) c)) + X' = (\<Sum>c\<leftarrow>pa_reserves p. mset (classStacks (pa_next p) c)) + X"
  shows "moves p X (p\<lparr>pa_reserves := rs\<rparr>) X'"
proof -
  let ?p = "p\<lparr>pa_reserves := rs\<rparr>"
  have "cache_fine ?p = cache_fine p" by (auto simp: cache_fine_def fun_eq_iff)
  then have "pool_fine ?p" using assms(1,3) by (simp add: pool_fine_def)
  moreover have "mset (pooled_stacks ?p) + X' = mset (pooled_stacks p) + X" using assms(4) by (simp add: stacks_mset ac_simps)
  ultimately show ?thesis using assms(2) unfolding moves_def by (intro conjI exI [of _ "[]"]) (simp_all add: same_conf_def)
qed

lemma claimReserve_moves:
  assumes f: "pool_fine p" and r: "findOrAdd (pa_reserves p) n = (j, rs)"
  shows "moves p X (p\<lparr>pa_reserves := rs\<rparr>) X" "j = Some i \<Longrightarrow> i < length rs \<and> cl_size (rs ! i) = n"
proof -
  have ok: "\<forall>c\<in>set (pa_reserves p). class_ok (pa_next p) c" using f by (simp add: pool_fine_def)
  note fo = findOrAdd_law [OF r ok]
  have "map (\<lambda>c. mset (classStacks (pa_next p) c)) rs = map (\<lambda>c. mset (classStacks (pa_next p) c)) (pa_reserves p)"
    using arg_cong [OF fo(3), of "map mset"] by (simp add: comp_def)
  then show "moves p X (p\<lparr>pa_reserves := rs\<rparr>) X" using fo(1,2) by (intro reserves_moves [OF f]) simp_all
  show "j = Some i \<Longrightarrow> i < length rs \<and> cl_size (rs ! i) = n" by (rule fo(6))
qed

lemma pushReserve_moves:
  assumes f: "fine p (X + {#s#})" and i: "i < length (pa_reserves p)" "cl_size (pa_reserves p ! i) = sv_size s"
  shows "moves p (X + {#s#}) (pushReserve p i s) X" "cl_size (pa_reserves (pushReserve p i s) ! i) = sv_size s"
proof -
  let ?c = "pa_reserves p ! i"
  have ok: "class_ok (pa_next p) ?c" using f i(1) by (simp add: fine_def pool_fine_def)
  have "nodes_ok ((mset (pooled_stacks p) + X) + {#s#})" using f by (simp add: fine_def)
  note ap = nodes_apart [OF this]
  have "set (classStacks (pa_next p) ?c) \<subseteq> set (pooled_stacks p)" using i(1) by (force simp: pooled_stacks_def)
  then have new: "nodeOf s \<notin> nodeOf ` set (classStacks (pa_next p) ?c)" using ap(3) by auto
  obtain nx c where push: "class_push (pa_next p) ?c s = (nx, c)" by (metis surj_pair)
  note cp = class_push_law [OF ok new ap(1,2) i(2) [symmetric] push]
  define p1 where "p1 = p\<lparr>pa_next := nx\<rparr>"
  note w = write_node [OF f, of "cl_head ?c", folded cp(1), folded p1_def]
  have p1: "pa_next p1 = nx" "pa_reserves p1 = pa_reserves p" by (simp_all add: p1_def)
  have "\<forall>x\<in>set (pa_reserves p). class_ok nx x" using w(1) p1 by (simp add: pool_fine_def)
  then have "\<forall>x\<in>set ((pa_reserves p)[i := c]). class_ok (pa_next p1) x"
    using cp(2) p1(1) set_update_subset_insert [of "pa_reserves p" i c] by auto
  moreover have "(\<Sum>c\<leftarrow>(pa_reserves p)[i := c]. mset (classStacks nx c)) + X = (\<Sum>c\<leftarrow>pa_reserves p. mset (classStacks nx c)) + (X + {#s#})"
  proof -
    have "classStacks nx ?c = classStacks (pa_next p) ?c" unfolding cp(1) by (rule class_frame(1) [OF new])
    then have "mset (classStacks nx c) = mset (classStacks nx ?c) + {#s#}" using cp(3) by simp
    then show ?thesis using sum_list_update [OF i(1), of "\<lambda>c. mset (classStacks nx c)" c] by (simp add: ac_simps)
  qed
  ultimately have "moves p1 (X + {#s#}) (p1\<lparr>pa_reserves := (pa_reserves p)[i := c]\<rparr>) X" using p1 by (intro reserves_moves [OF w(1)]) simp_all
  moreover have e: "pushReserve p i s = p1\<lparr>pa_reserves := (pa_reserves p)[i := c]\<rparr>" by (simp add: pushReserve_def push p1_def)
  moreover have "moves p (X + {#s#}) p1 (X + {#s#})" using w(1,2) by (auto simp: moves_def same_conf_def p1_def)
  ultimately show "moves p (X + {#s#}) (pushReserve p i s) X" using moves_trans by metis
  show "cl_size (pa_reserves (pushReserve p i s) ! i) = sv_size s" using e i cp(4) by simp
qed

lemma popReserve_moves:
  assumes f: "fine p X" and i: "i < length (pa_reserves p)" "cl_head (pa_reserves p ! i) \<noteq> 0" and r: "popReserve p i = (s, p')"
  shows "moves p X p' (X + {#s#})" "sv_size s = cl_size (pa_reserves p ! i)" "cl_size (pa_reserves p' ! i) = cl_size (pa_reserves p ! i)" "pa_caches p' = pa_caches p"
proof -
  let ?c = "pa_reserves p ! i"
  have ok: "class_ok (pa_next p) ?c" using f i(1) by (simp add: fine_def pool_fine_def)
  obtain c where pop: "class_pop (pa_next p) ?c = (s, c)" and p': "p' = p\<lparr>pa_reserves := (pa_reserves p)[i := c]\<rparr>"
    using r by (auto simp: popReserve_def split: prod.splits)
  note cp = class_pop_law [OF ok i(2) pop]
  have "\<forall>x\<in>set (pa_reserves p). class_ok (pa_next p) x" using f by (simp add: fine_def pool_fine_def)
  then have "\<forall>x\<in>set ((pa_reserves p)[i := c]). class_ok (pa_next p) x" using cp(1) set_update_subset_insert [of "pa_reserves p" i c] by auto
  moreover have "(\<Sum>c\<leftarrow>(pa_reserves p)[i := c]. mset (classStacks (pa_next p) c)) + (X + {#s#}) = (\<Sum>c\<leftarrow>pa_reserves p. mset (classStacks (pa_next p) c)) + X"
    using sum_list_update [OF i(1), of "\<lambda>c. mset (classStacks (pa_next p) c)" c] cp(2) by (simp add: ac_simps)
  ultimately show "moves p X p' (X + {#s#})" unfolding p' using f by (intro reserves_moves) (simp_all add: fine_def)
  show "sv_size s = cl_size ?c" by (rule cp(5))
  show "cl_size (pa_reserves p' ! i) = cl_size ?c" "pa_caches p' = pa_caches p" using p' i(1) cp(3) by simp_all
qed

lemma pushFront_frame:
  assumes "hasCache p t" "j < length (tc_classes (cacheOf p t))"
  shows "pa_reserves (pushFront p t j s) = pa_reserves p" "hasCache (pushFront p t j s) t"
    "length (tc_classes (cacheOf (pushFront p t j s) t)) = length (tc_classes (cacheOf p t))"
    "cl_size (tc_classes (cacheOf (pushFront p t j s) t) ! j) = cl_size (tc_classes (cacheOf p t) ! j)"
  using assms by (simp_all add: pushFront_def Let_def class_push_def setCache_def cacheOf_def hasCache_def)

lemma moveBatch_moves:
  "fine p X \<Longrightarrow> hasCache p t \<Longrightarrow> i < length (pa_reserves p) \<Longrightarrow> cl_size (pa_reserves p ! i) = n \<Longrightarrow>
    j < length (tc_classes (cacheOf p t)) \<Longrightarrow> cl_size (tc_classes (cacheOf p t) ! j) = n \<Longrightarrow> moves p X (moveBatch k p i t j n) X"
proof (induction k arbitrary: p)
  case 0
  have "pool_fine p" using "0.prems"(1) by (simp add: fine_def)
  then show ?case using moves_refl by simp
next
  case (Suc k)
  show ?case
  proof (cases "cl_head (pa_reserves p ! i) \<noteq> 0 \<and> canCache p (cacheOf p t) n")
    case False
    then have "moveBatch (Suc k) p i t j n = p" by (simp only: moveBatch.simps if_False)
    moreover have "moves p X p X" using Suc.prems(1) by (intro moves_refl) (simp add: fine_def)
    ultimately show ?thesis by simp
  next
    case True
    obtain s p1 where pop: "popReserve p i = (s, p1)" by (metis surj_pair)
    note pm = popReserve_moves [OF Suc.prems(1,3) conjunct1 [OF True] pop]
    have c1: "cacheOf p1 t = cacheOf p t" "hasCache p1 t" using pm(4) Suc.prems(2) by (simp_all add: cacheOf_def hasCache_def)
    have f1: "fine p1 (X + {#s#})" by (rule moves_fine [OF Suc.prems(1) pm(1)])
    have conf: "same_conf p p1" using pm(1) by (simp add: moves_def)
    have "sv_size s = n" using pm(2) Suc.prems(4) by (rule trans)
    then have room: "canCache p1 (cacheOf p1 t) (sv_size s)" using conjunct2 [OF True] conf unfolding c1(1) by (simp add: canCache_def same_conf_def)
    let ?p2 = "pushFront p1 t j s"
    have m2: "moves p1 (X + {#s#}) ?p2 X"
    proof (rule pushFront_moves [OF f1 c1(2) _ _ room])
      show "j < length (tc_classes (cacheOf p1 t))" unfolding c1(1) by (rule Suc.prems(5))
      show "cl_size (tc_classes (cacheOf p1 t) ! j) = sv_size s" unfolding c1(1) \<open>sv_size s = n\<close> by (rule Suc.prems(6))
    qed
    have j1: "j < length (tc_classes (cacheOf p1 t))" using Suc.prems(5) c1 by simp
    note fr = pushFront_frame [OF c1(2) j1, where s = s]
    have m: "moves p X ?p2 X" by (rule moves_trans [OF pm(1) m2])
    have len: "length (pa_reserves p1) = length (pa_reserves p)" using conf by (simp add: same_conf_def)
    have "moves ?p2 X (moveBatch k ?p2 i t j n) X"
    proof (rule Suc.IH [OF moves_fine [OF Suc.prems(1) m] fr(2)])
      show "i < length (pa_reserves ?p2)" using fr(1) len Suc.prems(3) by simp
      show "cl_size (pa_reserves ?p2 ! i) = n" using fr(1) pm(3) Suc.prems(4) by simp
      show "j < length (tc_classes (cacheOf ?p2 t))" using fr(3) j1 by simp
      show "cl_size (tc_classes (cacheOf ?p2 t) ! j) = n" using fr(4) c1(1) Suc.prems(6) by simp
    qed
    from moves_trans [OF m this] show ?thesis unfolding moveBatch.simps pop prod.case if_P [OF True] .
  qed
qed

lemma takeFromReserve_moves:
  assumes f: "fine p X" and h: "\<And>t. cache = Some t \<Longrightarrow> hasCache p t" and r: "takeFromReserve p cache n = (res, p')"
  shows "moves p X p' (case res of None \<Rightarrow> X | Some s \<Rightarrow> X + {#s#})" "res = Some v \<Longrightarrow> sv_size v = n"
proof -
  have pf: "pool_fine p" using f by (simp add: fine_def)
  obtain j rs where fo: "findOrAdd (pa_reserves p) n = (j, rs)" by (metis surj_pair)
  define p0 where "p0 = p\<lparr>pa_reserves := rs\<rparr>"
  note cl = claimReserve_moves [OF pf fo, folded p0_def]
  have rs: "pa_reserves p0 = rs" "pa_caches p0 = pa_caches p" by (simp_all add: p0_def)
  have f0: "fine p0 X" by (rule moves_fine [OF f cl(1)])
  have "moves p X p' (case res of None \<Rightarrow> X | Some s \<Rightarrow> X + {#s#}) \<and> (res = Some v \<longrightarrow> sv_size v = n)"
  proof (cases "\<exists>i. j = Some i \<and> cl_head (rs ! i) \<noteq> 0")
    case False
    then have "res = None \<and> p' = p0" using r fo by (auto simp: takeFromReserve_def p0_def split: option.splits if_splits)
    then show ?thesis using cl(1) by simp
  next
    case True
    then obtain i where i: "j = Some i" "cl_head (rs ! i) \<noteq> 0" by blast
    have i0: "i < length rs" "cl_size (rs ! i) = n" using cl(2) i(1) by simp_all
    obtain s p1 where pop: "popReserve p0 i = (s, p1)" by (metis surj_pair)
    note pm = popReserve_moves [OF f0 _ _ pop, unfolded rs, OF i0(1) i(2)]
    have m1: "moves p X p1 (X + {#s#})" by (rule moves_trans [OF cl(1) pm(1)])
    have f1: "fine p1 (X + {#s#})" by (rule moves_fine [OF f m1])
    have res: "res = Some s" using r fo i pop by (simp add: takeFromReserve_def p0_def split: prod.splits option.splits)
    have "moves p1 (X + {#s#}) p' (X + {#s#})"
    proof (cases cache)
      case None
      then have "p' = p1" using r fo i pop by (simp add: takeFromReserve_def p0_def)
      then show ?thesis using f1 by (auto intro: moves_refl simp: fine_def)
    next
      case (Some t)
      have h1: "hasCache p1 t" using h [OF Some] pm(4) by (simp add: hasCache_def p0_def)
      have pf1: "pool_fine p1" using f1 by (simp add: fine_def)
      obtain k cs where fk: "findOrAdd (tc_classes (cacheOf p1 t)) n = (k, cs)" by (metis surj_pair)
      define p2 where "p2 = setCache p1 t ((cacheOf p1 t)\<lparr>tc_classes := cs\<rparr>)"
      note ck = claimClass_moves [OF pf1 h1 fk, folded p2_def]
      have p': "p' = (case k of None \<Rightarrow> p2 | Some j \<Rightarrow> moveBatch (kReserveBatch - 1) p2 i t j n)"
        using r fo i pop fk Some unfolding takeFromReserve_def by (cases k) (auto simp: Let_def p0_def p2_def)
      show ?thesis
      proof (cases k)
        case None
        then show ?thesis using p' ck(1) by simp
      next
        case (Some j')
        have "pa_reserves p2 = pa_reserves p1" by (simp add: p2_def setCache_def)
        moreover have "i < length (pa_reserves p1)" using pm(1) i0(1) rs by (simp add: moves_def same_conf_def)
        ultimately have "moves p2 (X + {#s#}) (moveBatch (kReserveBatch - 1) p2 i t j' n) (X + {#s#})"
          using ck(2,4,5) pm(3) i0 Some by (intro moveBatch_moves [OF moves_fine [OF f1 ck(1)]]) simp_all
        then show ?thesis using moves_trans [OF ck(1)] p' Some by simp
      qed
    qed
    then show ?thesis using moves_trans [OF m1] res pm(2) i0(2) by auto
  qed
  then show "moves p X p' (case res of None \<Rightarrow> X | Some s \<Rightarrow> X + {#s#})" "res = Some v \<Longrightarrow> sv_size v = n" by blast+
qed

lemma currentCache_moves:
  assumes f: "pool_fine p" and t: "t < length (pa_caches p)" and r: "currentCache p t ok = (has, p')"
  shows "moves p X p' X" "has \<Longrightarrow> hasCache p' t"
proof -
  let ?tc = "\<lparr>tc_classes = replicate kMaxSizeClasses \<lparr>cl_size = 0, cl_head = 0, cl_count = 0\<rparr>, tc_cachedStacks = 0, tc_cachedBytes = 0\<rparr>"
  have "class_ok nx \<lparr>cl_size = 0, cl_head = 0, cl_count = 0\<rparr>" "classStacks nx \<lparr>cl_size = 0, cl_head = 0, cl_count = 0\<rparr> = []" for nx
    by (simp_all add: class_ok_def classStacks_def)
  moreover have "(\<Sum>c\<leftarrow>replicate k x. g c) = (0 :: nat)" if "g x = 0" for k x and g :: "sizeClass \<Rightarrow> nat" using that by (induction k) auto
  ultimately have new: "cache_fine p ?tc" "mset (cacheStacks (pa_next p) (Some ?tc)) = {#}"
    by (auto simp: cache_fine_def cacheStacks_def)
  consider "\<not> has" "p' = p" | "has" "p' = p" "pa_caches p ! t \<noteq> None" | "has" "p' = setCache p t ?tc" "pa_caches p ! t = None"
    using r by (auto simp: currentCache_def createCache_def split: if_splits)
  then have "moves p X p' X \<and> (has \<longrightarrow> hasCache p' t)"
  proof cases
    case 3
    have "cacheStacks (pa_next p) None = []" by (simp add: cacheStacks_def)
    then have "moves p X (setCache p t ?tc) X" using 3(3) new(2) by (intro setCache_moves [OF f t new(1)]) simp
    then show ?thesis using 3 t by (simp add: hasCache_def setCache_def)
  qed (use f t in \<open>auto intro: moves_refl simp: hasCache_def\<close>)
  then show "moves p X p' X" "has \<Longrightarrow> hasCache p' t" by blast+
qed

lemma release_moves:
  assumes f: "fine p (X + {#s#})"
  shows "moves p (X + {#s#}) (release p full s) X"
proof -
  have pf: "pool_fine p" using f by (simp add: fine_def)
  show ?thesis
  proof (cases full)
    case False
    then show ?thesis using pf by (auto simp: release_def giveToShared_def intro!: shared_moves)
  next
    case True
    show ?thesis
    proof (cases "\<exists>i. findSize (pa_reserves p) (sv_size s) = Some i \<and> \<not> cl_count (pa_reserves p ! i) \<ge> rv_target (pa_reserves p ! i)")
      case True
      then obtain i where i: "findSize (pa_reserves p) (sv_size s) = Some i" "\<not> cl_count (pa_reserves p ! i) \<ge> rv_target (pa_reserves p ! i)" by blast
      have "moves p (X + {#s#}) (pushReserve p i s) X" using findSize_law [OF i(1)] by (intro pushReserve_moves [OF f]) simp_all
      then show ?thesis using i \<open>full\<close> by (simp add: release_def giveToShared_def giveToReserve_def)
    next
      case False
      then have "release p full s = toUpstream p s" using \<open>full\<close> by (auto simp: release_def giveToShared_def giveToReserve_def split: option.splits)
      then show ?thesis using toUpstream_moves [OF pf] by simp
    qed
  qed
qed

section \<open>The operations\<close>

lemma pooled_take_moves:
  assumes f: "fine p X" and t: "t < length (pa_caches p)" and r: "pooled_take p t n an = (res, p')"
  shows "moves p X p' (case res of None \<Rightarrow> X | Some s \<Rightarrow> X + {#s#})" "res = Some v \<Longrightarrow> sv_size v = n"
proof -
  obtain has p1 where cc: "currentCache p t (an_setspecific an) = (has, p1)" by (metis surj_pair)
  have pf: "pool_fine p" using f by (simp add: fine_def)
  note c = currentCache_moves [OF pf t cc]
  have f1: "fine p1 X" by (rule moves_fine [OF f c(1)])
  let ?cache = "if has then Some t else None"
  have h: "hasCache p1 u" if "?cache = Some u" for u using that c(2) by (auto split: if_splits)
  have "moves p X p' (case res of None \<Rightarrow> X | Some s \<Rightarrow> X + {#s#}) \<and> (res = Some v \<longrightarrow> sv_size v = n)"
  proof (cases "if has then cacheHit p1 t n else None")
    case (Some i)
    then have has: has and hit: "cacheHit p1 t n = Some i" by (auto split: if_splits)
    then have i: "i < length (tc_classes (cacheOf p1 t))" "cl_size (tc_classes (cacheOf p1 t) ! i) = n" "cl_head (tc_classes (cacheOf p1 t) ! i) \<noteq> 0"
      using findSize_law by (fastforce simp: cacheHit_def split: option.splits if_splits)+
    obtain s p2 where pop: "popFront p1 t i = (s, p2)" by (metis surj_pair)
    note pm = popFront_moves [OF f1 c(2) [OF has] i(1,3) pop]
    have "res = Some s \<and> p' = p2" using r cc Some pop by (simp add: pooled_take_def)
    then show ?thesis using moves_trans [OF c(1) pm(1)] pm(2) i(2) by auto
  next
    case None
    obtain r2 p2 where sh: "takeFromShared (4 - an_busy an) p1 ?cache n = (r2, p2)" by (metis surj_pair)
    note sm = takeFromShared_moves [OF f1 h sh]
    show ?thesis
    proof (cases r2)
      case (Some s)
      then have "res = Some s \<and> p' = p2" using r cc None sh by (simp add: pooled_take_def)
      then show ?thesis using moves_trans [OF c(1) sm(1)] sm(2) Some by auto
    next
      case N2: None
      have m2: "moves p X p2 X" using moves_trans [OF c(1) sm(1)] N2 by simp
      have h2: "hasCache p2 u" if "?cache = Some u" for u using sm(1) hasCache_same [OF _ h [OF that]] by (simp add: moves_def)
      have "takeFromReserve p2 ?cache n = (res, p')" using r cc None sh N2 by (simp add: pooled_take_def)
      note rm = takeFromReserve_moves [OF moves_fine [OF f m2] h2 this]
      show ?thesis using moves_trans [OF m2 rm(1)] rm(2) by auto
    qed
  qed
  then show "moves p X p' (case res of None \<Rightarrow> X | Some s \<Rightarrow> X + {#s#})" "res = Some v \<Longrightarrow> sv_size v = n" by blast+
qed

lemma pooled_deallocate_moves:
  assumes f: "fine p (X + {#s#})" and t: "t < length (pa_caches p)" and s: "\<not> isEmpty s"
  shows "moves p (X + {#s#}) (pooled_deallocate p t s an) X"
proof -
  obtain has p1 where cc: "currentCache p t (an_setspecific an) = (has, p1)" by (metis surj_pair)
  have pf: "pool_fine p" using f by (simp add: fine_def)
  note c = currentCache_moves [OF pf t cc]
  have f1: "fine p1 (X + {#s#})" by (rule moves_fine [OF f c(1)])
  let ?cache = "if has then Some t else None"
  have h: "hasCache p1 u" if "?cache = Some u" for u using that c(2) by (auto split: if_splits)
  obtain b p2 where tc: "tryCache p1 ?cache s = (b, p2)" by (metis surj_pair)
  note m = moves_trans [OF c(1) tryCache_moves [OF f1 h tc]]
  show ?thesis
  proof (cases b)
    case True
    then show ?thesis using m s cc tc by (simp add: pooled_deallocate_def)
  next
    case False
    then have m2: "moves p (X + {#s#}) p2 (X + {#s#})" using m by simp
    from moves_trans [OF m2 release_moves [OF moves_fine [OF f m2]]] show ?thesis using False s cc tc by (simp add: pooled_deallocate_def)
  qed
qed

lemma pushReserves_moves:
  "fine p (X + mset ss) \<Longrightarrow> i < length (pa_reserves p) \<Longrightarrow> cl_size (pa_reserves p ! i) = n \<Longrightarrow> (\<And>s. s \<in> set ss \<Longrightarrow> sv_size s = n) \<Longrightarrow>
    moves p (X + mset ss) (pushReserves p i ss) X"
proof (induction ss arbitrary: p)
  case Nil
  then show ?case by (auto intro: moves_refl simp: fine_def)
next
  case (Cons s ss)
  have f: "fine p ((X + mset ss) + {#s#})" using Cons.prems(1) by simp
  have i: "cl_size (pa_reserves p ! i) = sv_size s" using Cons.prems(3,4) by simp
  note pm = pushReserve_moves [OF f Cons.prems(2) i]
  have "i < length (pa_reserves (pushReserve p i s))" using pm(1) Cons.prems(2) by (simp add: moves_def same_conf_def)
  then have "moves (pushReserve p i s) (X + mset ss) (pushReserves (pushReserve p i s) i ss) X"
    using pm(2) Cons.prems(4) by (intro Cons.IH [OF moves_fine [OF f pm(1)]]) simp_all
  then show ?case using moves_trans [OF pm(1)] by simp
qed

text \<open>The stacks a call of \<^verbatim>\<open>reserve\<close> gets from upstream.\<close>

function reserveAnswers :: "nat \<Rightarrow> (nat \<Rightarrow> stackView list) \<Rightarrow> nat \<Rightarrow> stackView list" where
  "reserveAnswers missing got k =
     (if missing = 0 then []
      else if length (got k) < min missing 256 then got k
      else got k @ reserveAnswers (missing - length (got k)) got (k + 1))"
  by pat_completeness auto
termination by (relation "measure (\<lambda>(missing, got, k). missing)") auto

declare reserveAnswers.simps [simp del]

lemma findSize_cong: "map cl_size cs = map cl_size cs' \<Longrightarrow> findSize cs n = findSize cs' n"
proof (induction cs arbitrary: cs')
  case (Cons c cs)
  then show ?case by (cases cs') auto
qed simp

lemma pushReserves_sizes: "i < length (pa_reserves p) \<Longrightarrow> map cl_size (pa_reserves (pushReserves p i ss)) = map cl_size (pa_reserves p)"
proof (induction ss arbitrary: p)
  case (Cons s ss)
  have "map cl_size (pa_reserves (pushReserve p i s)) = map cl_size (pa_reserves p)" "length (pa_reserves (pushReserve p i s)) = length (pa_reserves p)"
    using Cons.prems by (simp_all add: pushReserve_def class_push_def map_update list_update_same_conv)
  then show ?case using Cons by simp
qed simp

lemma reserveChunks_moves:
  "fine p (X + mset (reserveAnswers missing got k)) \<Longrightarrow> findSize (pa_reserves p) n = Some i \<Longrightarrow>
    (\<And>s. s \<in> set (reserveAnswers missing got k) \<Longrightarrow> sv_size s = n) \<Longrightarrow>
    moves p (X + mset (reserveAnswers missing got k)) (reserveChunks p n missing got k) X"
proof (induction p n missing got k rule: reserveChunks.induct)
  case (1 p n missing got k)
  show ?case
  proof (cases "missing = 0")
    case True
    then have "reserveAnswers missing got k = []" "reserveChunks p n missing got k = p"
      by (simp_all add: reserveAnswers.simps [of 0] reserveChunks.simps [of p n 0])
    then show ?thesis using "1.prems"(1) moves_refl by (simp add: fine_def)
  next
    case False
    define last where "last = (length (got k) < min missing 256)"
    define rest where "rest = (if last then [] else reserveAnswers (missing - length (got k)) got (k + 1))"
    have ans: "reserveAnswers missing got k = got k @ rest" using False by (simp add: reserveAnswers.simps [of missing] rest_def last_def)
    have fo: "findOrAdd (pa_reserves p) n = (Some i, pa_reserves p)" using "1.prems"(2) by (simp add: findOrAdd_def)
    let ?p1 = "pushReserves p i (got k)"
    have i: "i < length (pa_reserves p)" "cl_size (pa_reserves p ! i) = n" using findSize_law [OF "1.prems"(2)] by simp_all
    have f: "fine p ((X + mset rest) + mset (got k))" using "1.prems"(1) ans by (simp add: ac_simps)
    have m: "moves p ((X + mset rest) + mset (got k)) ?p1 (X + mset rest)" using "1.prems"(3) ans by (intro pushReserves_moves [OF f i]) auto
    have chunks: "reserveChunks p n missing got k = (if last then ?p1 else reserveChunks ?p1 n (missing - length (got k)) got (k + 1))"
      using False fo by (simp add: reserveChunks.simps [of p n missing] last_def Let_def)
    show ?thesis
    proof (cases last)
      case True
      then show ?thesis using m chunks ans by (simp add: rest_def)
    next
      case F: False
      have "findSize (pa_reserves ?p1) n = Some i" using findSize_cong [OF pushReserves_sizes [OF i(1)]] "1.prems"(2) by simp
      moreover have "sv_size s = n" if "s \<in> set (reserveAnswers (missing - length (got k)) got (k + 1))" for s
        using that "1.prems"(3) ans F by (simp add: rest_def)
      moreover have f1: "fine ?p1 (X + mset (reserveAnswers (missing - length (got k)) got (k + 1)))" using moves_fine [OF f m] F by (simp add: rest_def)
      ultimately have "moves ?p1 (X + mset (reserveAnswers (missing - length (got k)) got (k + 1))) (reserveChunks ?p1 n (missing - length (got k)) got (k + 1)) X"
        using "1.IH" [OF False refl, of ?p1] fo F by (simp add: last_def)
      then show ?thesis using moves_trans [OF m] F chunks ans by (simp add: rest_def ac_simps)
    qed
  qed
qed

text \<open>Draining a cache.\<close>

lemma popFront_frame:
  assumes "hasCache p t" "i < length (tc_classes (cacheOf p t))" "popFront p t i = (s, p')"
  shows "hasCache p' t" "length (tc_classes (cacheOf p' t)) = length (tc_classes (cacheOf p t))"
    "cl_count (tc_classes (cacheOf p' t) ! i) = cl_count (tc_classes (cacheOf p t) ! i) - 1"
    "j \<noteq> i \<Longrightarrow> tc_classes (cacheOf p' t) ! j = tc_classes (cacheOf p t) ! j"
  using assms by (auto simp: popFront_def Let_def class_pop_def setCache_def cacheOf_def hasCache_def)

lemma toUpstream_frame: "hasCache (toUpstream p s) t = hasCache p t" "cacheOf (toUpstream p s) t = cacheOf p t"
  by (simp_all add: toUpstream_def hasCache_def cacheOf_def)

lemma drainClass_moves:
  "fine p X \<Longrightarrow> hasCache p t \<Longrightarrow> i < length (tc_classes (cacheOf p t)) \<Longrightarrow> cl_count (tc_classes (cacheOf p t) ! i) = k \<Longrightarrow>
    moves p X (drainClass k p t i) X \<and> hasCache (drainClass k p t i) t
    \<and> length (tc_classes (cacheOf (drainClass k p t i) t)) = length (tc_classes (cacheOf p t))
    \<and> cl_count (tc_classes (cacheOf (drainClass k p t i) t) ! i) = 0
    \<and> (\<forall>j. j \<noteq> i \<longrightarrow> tc_classes (cacheOf (drainClass k p t i) t) ! j = tc_classes (cacheOf p t) ! j)"
proof (induction k arbitrary: p)
  case 0
  then show ?case by (auto simp: fine_def intro: moves_refl)
next
  case (Suc k)
  let ?c = "tc_classes (cacheOf p t) ! i"
  note t = hasCacheD [OF Suc.prems(2)]
  have "class_ok (pa_next p) ?c" using Suc.prems(1,3) t by (auto simp: fine_def pool_fine_def cache_fine_def)
  then have hd: "cl_head ?c \<noteq> 0" using class_head Suc.prems(4) by fastforce
  obtain s p1 where pop: "popFront p t i = (s, p1)" by (metis surj_pair)
  note fr = popFront_frame [OF Suc.prems(2,3) pop]
  note m1 = popFront_moves(1) [OF Suc.prems(1-3) hd pop]
  have "pool_fine p1" using m1 by (simp add: moves_def)
  then have m: "moves p X (toUpstream p1 s) X" using moves_trans [OF m1 toUpstream_moves] by simp
  have d: "drainClass (Suc k) p t i = drainClass k (toUpstream p1 s) t i" using hd pop by simp
  note ih = Suc.IH [OF moves_fine [OF Suc.prems(1) m], unfolded toUpstream_frame]
  show ?case unfolding d using ih fr Suc.prems(3,4) moves_trans [OF m] by auto
qed

lemma drain_prefix:
  assumes "fine p X" "hasCache p t" "n \<le> length (tc_classes (cacheOf p t))"
  defines "q \<equiv> foldl (\<lambda>p i. drainClass (cl_count (tc_classes (cacheOf p t) ! i)) p t i) p [0..<n]"
  shows "moves p X q X \<and> hasCache q t \<and> length (tc_classes (cacheOf q t)) = length (tc_classes (cacheOf p t)) \<and> (\<forall>j<n. cl_count (tc_classes (cacheOf q t) ! j) = 0)"
  using assms(3) unfolding q_def
proof (induction n)
  case 0
  then show ?case using assms(1,2) by (auto simp: fine_def intro: moves_refl)
next
  case (Suc n)
  define q where "q = foldl (\<lambda>p i. drainClass (cl_count (tc_classes (cacheOf p t) ! i)) p t i) p [0..<n]"
  have ih: "moves p X q X" "hasCache q t" "length (tc_classes (cacheOf q t)) = length (tc_classes (cacheOf p t))" "\<forall>j<n. cl_count (tc_classes (cacheOf q t) ! j) = 0"
    using Suc unfolding q_def by auto
  have "n < length (tc_classes (cacheOf q t))" using Suc.prems ih(3) by simp
  note d = drainClass_moves [OF moves_fine [OF assms(1) ih(1)] ih(2) this refl]
  then show ?case using moves_trans [OF ih(1)] ih(3,4) by (auto simp: q_def [symmetric] less_Suc_eq)
qed

lemma onThreadExit_moves:
  assumes f: "fine p X" and t: "t < length (pa_caches p)"
  shows "pool_fine (onThreadExit p t)" "pa_caches (onThreadExit p t) ! t = None"
    "\<exists>R. mset (pooled_stacks (onThreadExit p t)) + mset R = mset (pooled_stacks p) \<and> pa_returned (onThreadExit p t) = R @ pa_returned p"
    "length (pa_caches (onThreadExit p t)) = length (pa_caches p)" "pa_page (onThreadExit p t) = pa_page p"
proof -
  have "pool_fine (onThreadExit p t) \<and> pa_caches (onThreadExit p t) ! t = None \<and> length (pa_caches (onThreadExit p t)) = length (pa_caches p)
    \<and> pa_page (onThreadExit p t) = pa_page p
    \<and> (\<exists>R. mset (pooled_stacks (onThreadExit p t)) + mset R = mset (pooled_stacks p) \<and> pa_returned (onThreadExit p t) = R @ pa_returned p)"
  proof (cases "pa_caches p ! t")
    case None
    then show ?thesis using f by (auto simp: onThreadExit_def fine_def)
  next
    case (Some tc)
    then have h: "hasCache p t" using t by (simp add: hasCache_def)
    define q where "q = drainToUpstream p t"
    have q: "moves p X q X" "hasCache q t" "\<forall>j<length (tc_classes (cacheOf q t)). cl_count (tc_classes (cacheOf q t) ! j) = 0"
      using drain_prefix [OF f h order_refl] unfolding q_def drainToUpstream_def by auto
    note tq = hasCacheD [OF q(2)]
    have "classStacks (pa_next q) c = []" if "c \<in> set (tc_classes (cacheOf q t))" for c
      using q(3) that by (auto simp: in_set_conv_nth classStacks_def)
    then have empty: "cacheStacks (pa_next q) (Some (cacheOf q t)) = []" by (auto simp: cacheStacks_def)
    let ?r = "q\<lparr>pa_caches := (pa_caches q)[t := None]\<rparr>"
    have "mset (pooled_stacks ?r) = mset (pooled_stacks q)"
      using sum_list_update [of t "pa_caches q" "\<lambda>o'. mset (cacheStacks (pa_next q) o')" None] tq empty by (simp add: stacks_mset) (simp add: cacheStacks_def)
    moreover have "pool_fine ?r"
    proof -
      have "cache_fine ?r = cache_fine q" by (auto simp: cache_fine_def fun_eq_iff)
      moreover have "Some tc \<in> set ((pa_caches q)[t := None]) \<Longrightarrow> Some tc \<in> set (pa_caches q)" for tc
        using set_update_subset_insert [of "pa_caches q" t None] by auto
      ultimately show ?thesis using q(1) by (auto simp: moves_def pool_fine_def)
    qed
    moreover have "length (pa_caches q) = length (pa_caches p)" "pa_page q = pa_page p" using q(1) by (simp_all add: moves_def same_conf_def)
    moreover obtain R where "pa_returned q = R @ pa_returned p" "mset (pooled_stacks q) + X + mset R = mset (pooled_stacks p) + X" using q(1) by (auto simp: moves_def)
    ultimately show ?thesis using Some t by (auto simp: onThreadExit_def Let_def q_def [symmetric])
  qed
  then show "pool_fine (onThreadExit p t)" "pa_caches (onThreadExit p t) ! t = None"
    "\<exists>R. mset (pooled_stacks (onThreadExit p t)) + mset R = mset (pooled_stacks p) \<and> pa_returned (onThreadExit p t) = R @ pa_returned p"
    "length (pa_caches (onThreadExit p t)) = length (pa_caches p)" "pa_page (onThreadExit p t) = pa_page p" by blast+
qed


lemma reserve_target_moves:
  assumes "pool_fine p" "i < length (pa_reserves p)"
  shows "moves p X (p\<lparr>pa_reserves := (pa_reserves p)[i := (pa_reserves p ! i)\<lparr>rv_target := n\<rparr>]\<rparr>) X"
proof -
  let ?c = "(pa_reserves p ! i)\<lparr>rv_target := n\<rparr>"
  have same: "classStacks (pa_next p) ?c = classStacks (pa_next p) (pa_reserves p ! i)" "class_ok (pa_next p) ?c = class_ok (pa_next p) (pa_reserves p ! i)"
    by (simp_all add: classStacks_def class_ok_def)
  have "\<forall>c\<in>set ((pa_reserves p)[i := ?c]). class_ok (pa_next p) c"
    using assms same(2) set_update_subset_insert [of "pa_reserves p" i ?c] by (auto simp: pool_fine_def)
  moreover have "(\<Sum>c\<leftarrow>(pa_reserves p)[i := ?c]. mset (classStacks (pa_next p) c)) = (\<Sum>c\<leftarrow>pa_reserves p. mset (classStacks (pa_next p) c))"
    using sum_list_update [OF assms(2), of "\<lambda>c. mset (classStacks (pa_next p) c)" ?c] same(1) by simp
  ultimately show ?thesis using assms(1) by (intro reserves_moves) simp_all
qed

lemma findSize_None: "findSize cs n = None \<Longrightarrow> i < length cs \<Longrightarrow> cl_size c = n \<Longrightarrow> findSize (cs[i := c]) n = Some i"
  by (induction cs arbitrary: i) (auto split: if_splits nat.splits)

lemma findOrAdd_found: "findOrAdd cs n = (Some i, cs') \<Longrightarrow> findSize cs' n = Some i"
  by (auto simp: findOrAdd_def intro!: findSize_None dest: findSize_law split: option.splits)

text \<open>What a call of \<^verbatim>\<open>reserve\<close> asks for, and the stacks it gets.\<close>

definition reserveMissing :: "pooled \<Rightarrow> u64 \<Rightarrow> nat \<Rightarrow> nat" where
  "reserveMissing p bytes n =
     (case findOrAdd (pa_reserves p) (roundUpToPage bytes (pa_page p)) of
        (None, rs) \<Rightarrow> 0 | (Some i, rs) \<Rightarrow> max (rv_target (rs ! i)) n - cl_count (rs ! i))"

lemma pooled_reserve_moves:
  assumes f: "fine p (X + mset (reserveAnswers (reserveMissing p bytes n) got 0))"
    and sz: "\<And>s. s \<in> set (reserveAnswers (reserveMissing p bytes n) got 0) \<Longrightarrow> sv_size s = roundUpToPage bytes (pa_page p)"
    and r: "pooled_reserve p bytes n got = (k, p')"
  shows "moves p (X + mset (reserveAnswers (reserveMissing p bytes n) got 0)) p' X"
proof -
  let ?A = "reserveAnswers (reserveMissing p bytes n) got 0" and ?n = "roundUpToPage bytes (pa_page p)"
  have pf: "pool_fine p" using f by (simp add: fine_def)
  obtain j rs where fo: "findOrAdd (pa_reserves p) ?n = (j, rs)" by (metis surj_pair)
  show ?thesis
  proof (cases j)
    case None
    then have "?A = []" "p' = p" using r fo by (simp_all add: reserveMissing_def pooled_reserve_def reserveAnswers.simps [of 0] Let_def)
    then show ?thesis using moves_refl [OF pf] by simp
  next
    case (Some i)
    note cl = claimReserve_moves [OF pf fo]
    let ?p1 = "p\<lparr>pa_reserves := rs\<rparr>"
    let ?p2 = "p\<lparr>pa_reserves := rs[i := (rs ! i)\<lparr>rv_target := max (rv_target (rs ! i)) n\<rparr>]\<rparr>"
    have i: "i < length rs" "cl_size (rs ! i) = ?n" using cl(2) Some by simp_all
    have "pool_fine ?p1" using cl(1) [of "{#}"] by (simp add: moves_def)
    then have "moves ?p1 (X + mset ?A) ?p2 (X + mset ?A)" using reserve_target_moves [of ?p1 i "X + mset ?A"] i(1) by simp
    then have m: "moves p (X + mset ?A) ?p2 (X + mset ?A)" using moves_trans [OF cl(1)] by blast
    have "map cl_size (pa_reserves ?p2) = map cl_size rs" using i(1) by (simp add: map_update list_update_same_conv)
    then have "findSize (pa_reserves ?p2) ?n = Some i" using findSize_cong findOrAdd_found [OF fo [unfolded Some]] by metis
    from reserveChunks_moves [OF moves_fine [OF f m, unfolded reserveMissing_def fo Some, simplified] this] sz
    have "moves ?p2 (X + mset ?A) (reserveChunks ?p2 ?n (reserveMissing p bytes n) got 0) X" using fo Some by (simp add: reserveMissing_def)
    moreover have "p' = reserveChunks ?p2 ?n (reserveMissing p bytes n) got 0"
      using r fo Some by (auto simp: pooled_reserve_def reserveMissing_def Let_def)
    ultimately show ?thesis using moves_trans [OF m] by simp
  qed
qed

text \<open>The destructor gives everything back.\<close>

definition conserves :: "pooled \<Rightarrow> pooled \<Rightarrow> bool" where
  "conserves p q \<longleftrightarrow> fine q {#} \<and> mset (pooled_stacks q) + mset (pa_returned q) = mset (pooled_stacks p) + mset (pa_returned p)
     \<and> length (pa_caches q) = length (pa_caches p) \<and> length (pa_reserves q) = length (pa_reserves p)"

lemma conserves_trans: "conserves p q \<Longrightarrow> conserves q r \<Longrightarrow> conserves p r"
  by (simp add: conserves_def)

lemma moves_conserves: "fine p {#} \<Longrightarrow> moves p {#} q {#} \<Longrightarrow> conserves p q"
  using moves_fine [of p "{#}" q "{#}"] by (auto simp: conserves_def moves_def same_conf_def)

lemma setCache_other: "j \<noteq> t \<Longrightarrow> pa_caches (setCache p t tc) ! j = pa_caches p ! j" "pa_reserves (setCache p t tc) = pa_reserves p"
  by (simp_all add: setCache_def)

lemma drainClass_other: "j \<noteq> t \<Longrightarrow> pa_caches (drainClass k p t i) ! j = pa_caches p ! j \<and> length (pa_reserves (drainClass k p t i)) = length (pa_reserves p)"
proof (induction k arbitrary: p)
  case (Suc k)
  obtain s p1 where pop: "popFront p t i = (s, p1)" by (metis surj_pair)
  then have "pa_caches (toUpstream p1 s) ! j = pa_caches p ! j" "pa_reserves (toUpstream p1 s) = pa_reserves p"
    using Suc.prems by (auto simp: popFront_def Let_def toUpstream_def setCache_other split: prod.splits)
  then show ?case using Suc.IH [OF Suc.prems, of "toUpstream p1 s"] pop by simp
qed simp

lemma drain_other: "j \<noteq> t \<Longrightarrow> pa_caches (foldl (\<lambda>p i. drainClass (g p i) p t i) p is) ! j = pa_caches p ! j
    \<and> length (pa_reserves (foldl (\<lambda>p i. drainClass (g p i) p t i) p is)) = length (pa_reserves p)"
  by (induction "is" arbitrary: p) (simp_all add: drainClass_other)

lemma exit_conserves:
  assumes f: "fine p {#}" and t: "t < length (pa_caches p)"
  shows "conserves p (onThreadExit p t)" "pa_caches (onThreadExit p t) ! t = None" "j \<noteq> t \<Longrightarrow> pa_caches (onThreadExit p t) ! j = pa_caches p ! j"
proof -
  note e = onThreadExit_moves [OF f t]
  obtain R where R: "mset (pooled_stacks (onThreadExit p t)) + mset R = mset (pooled_stacks p)" "pa_returned (onThreadExit p t) = R @ pa_returned p"
    using e(3) by blast
  have "mset (pooled_stacks (onThreadExit p t)) \<subseteq># mset (pooled_stacks p)" using R(1) by (metis mset_subset_eq_add_left)
  then have "fine (onThreadExit p t) {#}" using e(1) f nodes_ok_subset [of "mset (pooled_stacks p)"] by (simp add: fine_def)
  moreover have "length (pa_reserves (onThreadExit p t)) = length (pa_reserves p)"
    using drain_other [of "Suc t" t] by (auto simp: onThreadExit_def drainToUpstream_def Let_def split: option.splits)
  moreover have "mset (pooled_stacks (onThreadExit p t)) + mset (pa_returned (onThreadExit p t)) = mset (pooled_stacks p) + mset (pa_returned p)"
    using R by (metis (no_types, lifting) add.assoc mset_append)
  ultimately show "conserves p (onThreadExit p t)" using e(4) by (simp add: conserves_def)
  show "pa_caches (onThreadExit p t) ! t = None" by (rule e(2))
  show "j \<noteq> t \<Longrightarrow> pa_caches (onThreadExit p t) ! j = pa_caches p ! j"
    using drain_other [of j t] by (auto simp: onThreadExit_def drainToUpstream_def Let_def split: option.splits)
qed

lemma exits_conserve:
  assumes "fine p {#}" "n \<le> length (pa_caches p)"
  shows "conserves p (foldl onThreadExit p [0..<n]) \<and> (\<forall>j<n. pa_caches (foldl onThreadExit p [0..<n]) ! j = None)"
  using assms(2)
proof (induction n)
  case 0
  then show ?case using assms(1) by (simp add: conserves_def)
next
  case (Suc n)
  define q where "q = foldl onThreadExit p [0..<n]"
  have q: "conserves p q" "\<forall>j<n. pa_caches q ! j = None" using Suc unfolding q_def by simp_all
  then have "fine q {#}" "n < length (pa_caches q)" using Suc.prems by (simp_all add: conserves_def)
  note e = exit_conserves [OF this]
  show ?case using conserves_trans [OF q(1) e(1)] e(2,3) q(2) by (simp add: q_def [symmetric] less_Suc_eq)
qed

lemma drainReserve_law:
  "fine p {#} \<Longrightarrow> i < length (pa_reserves p) \<Longrightarrow> cl_count (pa_reserves p ! i) = k \<Longrightarrow>
    conserves p (drainReserve k p i) \<and> cl_count (pa_reserves (drainReserve k p i) ! i) = 0 \<and> pa_caches (drainReserve k p i) = pa_caches p
    \<and> pa_shared (drainReserve k p i) = pa_shared p \<and> (\<forall>j. j \<noteq> i \<longrightarrow> pa_reserves (drainReserve k p i) ! j = pa_reserves p ! j)"
proof (induction k arbitrary: p)
  case 0
  then show ?case by (simp add: conserves_def)
next
  case (Suc k)
  have "class_ok (pa_next p) (pa_reserves p ! i)" using Suc.prems by (simp add: fine_def pool_fine_def)
  then have hd: "cl_head (pa_reserves p ! i) \<noteq> 0" using class_head Suc.prems(3) by fastforce
  obtain s p1 where pop: "popReserve p i = (s, p1)" by (metis surj_pair)
  note m1 = popReserve_moves(1) [OF Suc.prems(1,2) hd pop]
  have "pool_fine p1" using m1 by (simp add: moves_def)
  then have m: "moves p {#} (toUpstream p1 s) {#}" using moves_trans [OF m1 toUpstream_moves] by simp
  have fr: "pa_caches (toUpstream p1 s) = pa_caches p" "pa_shared (toUpstream p1 s) = pa_shared p"
    "j \<noteq> i \<Longrightarrow> pa_reserves (toUpstream p1 s) ! j = pa_reserves p ! j" "cl_count (pa_reserves (toUpstream p1 s) ! i) = k"
    "i < length (pa_reserves (toUpstream p1 s))" for j
    using pop Suc.prems(2,3) by (auto simp: popReserve_def class_pop_def toUpstream_def)
  have d: "drainReserve (Suc k) p i = drainReserve k (toUpstream p1 s) i" using hd pop by simp
  note ih = Suc.IH [OF moves_fine [OF Suc.prems(1) m] fr(5,4)]
  show ?case unfolding d using ih fr conserves_trans [OF moves_conserves [OF Suc.prems(1) m]] by simp
qed

lemma drainReserves_prefix:
  assumes "fine p {#}" "n \<le> length (pa_reserves p)"
  defines "q \<equiv> foldl (\<lambda>p i. drainReserve (cl_count (pa_reserves p ! i)) p i) p [0..<n]"
  shows "conserves p q \<and> pa_caches q = pa_caches p \<and> pa_shared q = pa_shared p \<and> (\<forall>j<n. cl_count (pa_reserves q ! j) = 0)"
  using assms(2) unfolding q_def
proof (induction n)
  case 0
  then show ?case using assms(1) by (simp add: conserves_def)
next
  case (Suc n)
  define q where "q = foldl (\<lambda>p i. drainReserve (cl_count (pa_reserves p ! i)) p i) p [0..<n]"
  have q: "conserves p q" "pa_caches q = pa_caches p" "pa_shared q = pa_shared p" "\<forall>j<n. cl_count (pa_reserves q ! j) = 0"
    using Suc unfolding q_def by simp_all
  then have "fine q {#}" "n < length (pa_reserves q)" using Suc.prems by (simp_all add: conserves_def)
  note d = drainReserve_law [OF this refl]
  then show ?case using conserves_trans [OF q(1)] q by (auto simp: q_def [symmetric] less_Suc_eq)
qed

lemma drainShared_conserves:
  assumes f: "fine p {#}"
  shows "conserves p (drainShared p)" "pa_caches (drainShared p) = pa_caches p" "pa_shared (drainShared p) = []"
proof -
  have "foldl toUpstream q ss = q\<lparr>pa_returned := rev ss @ pa_returned q\<rparr>" for q ss
    by (induction ss arbitrary: q) (simp_all add: toUpstream_def)
  then have e: "drainShared p = p\<lparr>pa_shared := [], pa_returned := rev (pa_shared p) @ pa_returned p\<rparr>" by (simp add: drainShared_def)
  have "mset (pooled_stacks (drainShared p)) \<subseteq># mset (pooled_stacks p)" by (simp add: e stacks_mset)
  moreover have "cache_fine (drainShared p) = cache_fine p" by (auto simp: e cache_fine_def fun_eq_iff)
  then have "pool_fine (drainShared p)" using f by (simp add: fine_def pool_fine_def) (simp add: e)
  ultimately have "fine (drainShared p) {#}" using f nodes_ok_subset [of "mset (pooled_stacks p)"] by (simp add: fine_def)
  moreover have "mset (pooled_stacks (drainShared p)) + mset (pa_returned (drainShared p)) = mset (pooled_stacks p) + mset (pa_returned p)"
    by (simp add: e stacks_mset ac_simps)
  ultimately show "conserves p (drainShared p)" by (simp add: conserves_def) (simp add: e)
  show "pa_caches (drainShared p) = pa_caches p" "pa_shared (drainShared p) = []" by (simp_all add: e)
qed

lemma pooled_destroy_law:
  assumes f: "fine p {#}" and k: "pa_keyValid p"
  shows "pooled_stacks (pooled_destroy p) = []" "mset (pa_returned (pooled_destroy p)) = mset (pooled_stacks p) + mset (pa_returned p)"
proof -
  define q where "q = foldl onThreadExit p [0..<length (pa_caches p)]"
  have q: "conserves p q" "\<forall>j<length (pa_caches p). pa_caches q ! j = None" using exits_conserve [OF f order_refl] by (simp_all add: q_def)
  have fq: "fine q {#}" using q(1) by (simp add: conserves_def)
  note s = drainShared_conserves [OF fq]
  have fs: "fine (drainShared q) {#}" using s(1) by (simp add: conserves_def)
  define r where "r = drainReserves (drainShared q)"
  have r: "conserves (drainShared q) r" "pa_caches r = pa_caches q" "pa_shared r = []" "\<forall>j<length (pa_reserves (drainShared q)). cl_count (pa_reserves r ! j) = 0"
    using drainReserves_prefix [OF fs order_refl] s(2,3) unfolding r_def drainReserves_def by simp_all
  have c: "conserves p r" using conserves_trans [OF q(1) conserves_trans [OF s(1) r(1)]] .
  have "pa_caches r ! j = None" if "j < length (pa_caches r)" for j using that q r(2) by (simp add: conserves_def)
  then have "cacheStacks (pa_next r) o' = []" if "o' \<in> set (pa_caches r)" for o' using that by (auto simp: in_set_conv_nth cacheStacks_def)
  then have "concat (map (cacheStacks (pa_next r)) (pa_caches r)) = []" by simp
  moreover have "cl_count c = 0" if "c \<in> set (pa_reserves r)" for c using that r(1,4) by (auto simp: in_set_conv_nth conserves_def)
  then have "concat (map (classStacks (pa_next r)) (pa_reserves r)) = []" by (auto simp: classStacks_def)
  ultimately have e: "pooled_stacks r = []" using r(3) by (simp add: pooled_stacks_def)
  moreover have "pooled_destroy p = r" using k by (simp add: pooled_destroy_def q_def r_def)
  ultimately show "pooled_stacks (pooled_destroy p) = []" "mset (pa_returned (pooled_destroy p)) = mset (pooled_stacks p) + mset (pa_returned p)"
    using c by (simp_all add: conserves_def)
qed

section \<open>The allocator keeps the contract\<close>

text \<open>Memory that does not overlap has nodes that can be told apart.\<close>

definition roomy :: "stackView list \<Rightarrow> bool" where
  "roomy ss \<longleftrightarrow> (\<forall>s\<in>set ss. 8 \<le> unat (sv_size s))"

lemma nodeOf_extent:
  assumes "in_space s" "8 \<le> unat (sv_size s)"
  shows "unat (nodeOf s) \<in> extent s" "nodeOf s \<noteq> 0"
proof -
  have "unat (topOf s) = unat (sv_base s) + unat (sv_size s)" using assms(1) by (simp add: topOf_def in_space_def unat_add_small)
  then have n: "unat (nodeOf s) = unat (sv_base s) + unat (sv_size s) - 8" using assms(2) by (simp add: nodeOf_def unat_sub word_le_nat_alt)
  then show "unat (nodeOf s) \<in> extent s" using assms(2) by (simp add: extent_def)
  have "0 < unat (sv_base s)" using assms(1) by (simp add: in_space_def unat_gt_0)
  then show "nodeOf s \<noteq> 0" using n assms(2) by (simp add: unat_gt_0 [symmetric])
qed

lemma apart_nodes: "apart ss \<Longrightarrow> roomy ss \<Longrightarrow> nodes_ok (mset ss)"
proof -
  assume a: "apart ss" "roomy ss"
  have "distinct (map nodeOf ss) \<and> (\<forall>s\<in>set ss. nodeOf s \<noteq> 0 \<and> sv_size s \<noteq> 0)" using a
  proof (induction ss)
    case (Cons s ss)
    have "nodeOf s \<noteq> nodeOf u" if "u \<in> set ss" for u
    proof -
      have "in_space u" using Cons.prems(1) that by (induction ss) auto
      then have "unat (nodeOf u) \<in> extent u" "unat (nodeOf s) \<in> extent s" using nodeOf_extent(1) Cons.prems that by (auto simp: roomy_def)
      moreover have "extent s \<inter> extent u = {}" using Cons.prems(1) that by simp
      ultimately show ?thesis by auto
    qed
    then show ?case using Cons nodeOf_extent(2) [of s] by (auto simp: roomy_def)
  qed simp
  then show "nodes_ok (mset ss)"
    by (auto simp: nodes_ok_def distinct_count_atmost_1 simp flip: mset_map)
qed

text \<open>The stacks handed out and not given back, next to the pool; \<open>py_obtained\<close> is everything upstream ever
  gave.\<close>

record pooled_sys =
  py_pool :: pooled
  py_live :: "stackView list"
  py_obtained :: "stackView list"

definition asksUpstream :: "pooled \<Rightarrow> nat \<Rightarrow> u64 \<Rightarrow> answers \<Rightarrow> bool" where
  "asksUpstream p t bytes an \<longleftrightarrow> fst (pooled_take p t (roundUpToPage bytes (pa_page p)) an) = None"

definition sys_alloc :: "pooled_sys \<Rightarrow> u64 \<Rightarrow> nat \<times> answers \<Rightarrow> (alloc_error + stackView) \<times> pooled_sys" where
  "sys_alloc s bytes e = (case pooled_allocate (py_pool s) (fst e) bytes (snd e) of
     (Inl x, p) \<Rightarrow> (Inl x, s\<lparr>py_pool := p\<rparr>)
   | (Inr v, p) \<Rightarrow> (Inr v, s\<lparr>py_pool := p, py_live := v # py_live s,
        py_obtained := (if asksUpstream (py_pool s) (fst e) bytes (snd e) then [v] else []) @ py_obtained s\<rparr>))"

definition sys_dealloc :: "pooled_sys \<Rightarrow> stackView \<Rightarrow> nat \<times> answers \<Rightarrow> pooled_sys" where
  "sys_dealloc s v d = s\<lparr>py_pool := pooled_deallocate (py_pool s) (fst d) v (snd d), py_live := remove1 v (py_live s)\<rparr>"

definition sys_reserve :: "pooled_sys \<Rightarrow> u64 \<Rightarrow> nat \<Rightarrow> (nat \<Rightarrow> stackView list) \<Rightarrow> pooled_sys" where
  "sys_reserve s bytes n got = s\<lparr>py_pool := snd (pooled_reserve (py_pool s) bytes n got),
     py_obtained := reserveAnswers (reserveMissing (py_pool s) bytes n) got 0 @ py_obtained s\<rparr>"

definition sys_exit :: "pooled_sys \<Rightarrow> nat \<Rightarrow> pooled_sys" where
  "sys_exit s t = s\<lparr>py_pool := onThreadExit (py_pool s) t\<rparr>"

text \<open>What upstream answers is memory that nobody holds, large enough for what was asked, and for a node.\<close>

definition sys_answers :: "pooled_sys \<Rightarrow> u64 \<Rightarrow> nat \<times> answers \<Rightarrow> bool" where
  "sys_answers s bytes e \<longleftrightarrow> fst e < length (pa_caches (py_pool s)) \<and>
     (case an_upstream (snd e) of Inl _ \<Rightarrow> True
      | Inr v \<Rightarrow> roundUpToPage bytes (pa_page (py_pool s)) \<noteq> 0 \<and> unat (roundUpToPage bytes (pa_page (py_pool s))) \<le> unat (sv_size v)
          \<and> 8 \<le> unat (sv_size v) \<and> apart (v # py_live s @ pooled_stacks (snd (pooled_allocate (py_pool s) (fst e) bytes (snd e)))))"

definition sys_batch :: "pooled_sys \<Rightarrow> u64 \<Rightarrow> stackView list \<Rightarrow> bool" where
  "sys_batch s bytes ss \<longleftrightarrow> apart (ss @ py_live s @ pooled_stacks (py_pool s)) \<and> roomy ss
     \<and> (\<forall>v\<in>set ss. sv_size v = roundUpToPage bytes (pa_page (py_pool s)))"

definition pooled_inv :: "pooled_sys \<Rightarrow> bool" where
  "pooled_inv s \<longleftrightarrow> pool_fine (py_pool s) \<and> 0 < unat (pa_page (py_pool s)) \<and> apart (py_live s @ pooled_stacks (py_pool s)) \<and> roomy (py_live s @ pooled_stacks (py_pool s))
     \<and> mset (py_live s) + mset (pooled_stacks (py_pool s)) + mset (pa_returned (py_pool s)) = mset (py_obtained s)"

lemma roomy_perm: "mset xs \<subseteq># mset ys \<Longrightarrow> roomy ys \<Longrightarrow> roomy xs"
  using mset_subset_eqD [of "mset xs" "mset ys"] by (auto simp: roomy_def)

lemma inv_fine: "pooled_inv s \<Longrightarrow> fine (py_pool s) (mset (py_live s))"
  using apart_nodes [of "py_live s @ pooled_stacks (py_pool s)"] by (simp add: pooled_inv_def fine_def ac_simps)

text \<open>A move of stacks between the pool, the hands of the clients and upstream.\<close>

lemma inv_conserved:
  assumes inv: "pooled_inv s" and p: "pool_fine p" "pa_page p = pa_page (py_pool s)"
    and R: "mset (pooled_stacks p) + mset l + mset R = mset (pooled_stacks (py_pool s)) + mset (py_live s)" "pa_returned p = R @ pa_returned (py_pool s)"
  shows "pooled_inv \<lparr>py_pool = p, py_live = l, py_obtained = py_obtained s\<rparr>"
proof -
  have sub: "mset (l @ pooled_stacks p) \<subseteq># mset (py_live s @ pooled_stacks (py_pool s))"
    using R(1) by (metis add.commute mset_append mset_subset_eq_add_left)
  have "mset l + mset (pooled_stacks p) + mset (pa_returned p) = mset (pooled_stacks p) + mset l + mset R + mset (pa_returned (py_pool s))" using R(2) by (simp add: ac_simps)
  also have "\<dots> = mset (py_obtained s)" unfolding R(1) using inv by (simp add: pooled_inv_def ac_simps)
  finally show ?thesis using inv p apart_subset [OF _ sub] roomy_perm [OF sub] by (auto simp: pooled_inv_def)
qed

lemma inv_moves:
  assumes inv: "pooled_inv s" and m: "moves (py_pool s) (mset (py_live s)) p (mset l)"
  shows "pooled_inv \<lparr>py_pool = p, py_live = l, py_obtained = py_obtained s\<rparr>"
  using m inv_conserved [OF inv] by (auto simp: moves_def same_conf_def)

lemma sys_alloc_law:
  assumes inv: "pooled_inv s" and a: "sys_answers s bytes e" and r: "sys_alloc s bytes e = (res, s')"
  shows "pooled_inv s'" "case res of Inl _ \<Rightarrow> py_live s' = py_live s | Inr v \<Rightarrow> py_live s' = v # py_live s \<and> unat bytes \<le> unat (sv_size v)"
proof -
  let ?p = "py_pool s" and ?n = "roundUpToPage bytes (pa_page (py_pool s))"
  obtain t an where e: "e = (t, an)" by (metis surj_pair)
  obtain o' p1 where take: "pooled_take ?p t ?n an = (o', p1)" by (metis surj_pair)
  have t: "t < length (pa_caches ?p)" using a e by (simp add: sys_answers_def)
  note m = pooled_take_moves [OF inv_fine [OF inv] t take]
  have page: "0 < unat (pa_page ?p)" using inv by (simp add: pooled_inv_def)
  have "pooled_inv s' \<and> (case res of Inl _ \<Rightarrow> py_live s' = py_live s | Inr v \<Rightarrow> py_live s' = v # py_live s \<and> unat bytes \<le> unat (sv_size v))"
  proof (cases o')
    case (Some v)
    then have r': "res = Inr v" "s' = \<lparr>py_pool = p1, py_live = v # py_live s, py_obtained = py_obtained s\<rparr>"
      using r e take by (auto simp: sys_alloc_def pooled_allocate_def asksUpstream_def)
    have "pooled_inv s'" unfolding r' using m(1) Some by (intro inv_moves [OF inv]) simp
    moreover have "?n \<noteq> 0" using calculation m(2) Some by (auto simp: r' pooled_inv_def roomy_def)
    ultimately show ?thesis using r' m(2) Some roundUp_covers [OF page, of bytes] by auto
  next
    case None
    then have i1: "pooled_inv \<lparr>py_pool = p1, py_live = py_live s, py_obtained = py_obtained s\<rparr>" using m(1) by (intro inv_moves [OF inv]) simp
    show ?thesis
    proof (cases "an_upstream an")
      case (Inl x)
      then have "res = Inl x" "s' = \<lparr>py_pool = p1, py_live = py_live s, py_obtained = py_obtained s\<rparr>" using r e take None by (auto simp: sys_alloc_def pooled_allocate_def)
      then show ?thesis using i1 by simp
    next
      case (Inr v)
      then have r': "res = Inr v" "s' = \<lparr>py_pool = p1, py_live = v # py_live s, py_obtained = v # py_obtained s\<rparr>"
        using r e take None by (auto simp: sys_alloc_def pooled_allocate_def asksUpstream_def)
      have ok: "?n \<noteq> 0" "unat ?n \<le> unat (sv_size v)" "8 \<le> unat (sv_size v)" "apart (v # py_live s @ pooled_stacks p1)"
        using a e Inr None take by (simp_all add: sys_answers_def pooled_allocate_def)
      then have "pooled_inv s'" using i1 unfolding r' by (simp add: pooled_inv_def roomy_def)
      then show ?thesis using r' ok(1,2) roundUp_covers [OF page, of bytes] by auto
    qed
  qed
  then show "pooled_inv s'" "case res of Inl _ \<Rightarrow> py_live s' = py_live s | Inr v \<Rightarrow> py_live s' = v # py_live s \<and> unat bytes \<le> unat (sv_size v)" by blast+
qed

lemma pooled_sys_update:
  "s\<lparr>py_pool := p, py_live := l\<rparr> = \<lparr>py_pool = p, py_live = l, py_obtained = py_obtained s\<rparr>" 
  "s\<lparr>py_pool := p\<rparr> = \<lparr>py_pool = p, py_live = py_live s, py_obtained = py_obtained s\<rparr>"
  "s\<lparr>py_pool := p, py_obtained := b\<rparr> = \<lparr>py_pool = p, py_live = py_live s, py_obtained = b\<rparr>"
  by simp_all

lemma apart_in_space: "apart ss \<Longrightarrow> s \<in> set ss \<Longrightarrow> in_space s"
  by (induction ss) auto

lemma sys_dealloc_law:
  assumes inv: "pooled_inv s" and t: "fst d < length (pa_caches (py_pool s))" and v: "v \<in> set (py_live s)"
  shows "pooled_inv (sys_dealloc s v d)" "py_live (sys_dealloc s v d) = remove1 v (py_live s)"
proof -
  have X: "mset (py_live s) = mset (remove1 v (py_live s)) + {#v#}" using v by (simp add: insert_DiffM)
  have "in_space v" using inv v by (intro apart_in_space [of "py_live s @ pooled_stacks (py_pool s)"]) (simp_all add: pooled_inv_def)
  then have "\<not> isEmpty v" by (simp add: in_space_def isEmpty_def)
  from pooled_deallocate_moves [OF inv_fine [OF inv, unfolded X] t this, of "snd d"]
  have "moves (py_pool s) (mset (py_live s)) (pooled_deallocate (py_pool s) (fst d) v (snd d)) (mset (remove1 v (py_live s)))" unfolding X .
  from inv_moves [OF inv this] show "pooled_inv (sys_dealloc s v d)" by (simp only: sys_dealloc_def pooled_sys_update(1))
  show "py_live (sys_dealloc s v d) = remove1 v (py_live s)" by (simp add: sys_dealloc_def)
qed

lemma sys_reserve_law:
  assumes inv: "pooled_inv s" and b: "sys_batch s bytes (reserveAnswers (reserveMissing (py_pool s) bytes n) got 0)"
  shows "pooled_inv (sys_reserve s bytes n got)"
proof -
  define ss where "ss = reserveAnswers (reserveMissing (py_pool s) bytes n) got 0"
  let ?s = "\<lparr>py_pool = py_pool s, py_live = ss @ py_live s, py_obtained = ss @ py_obtained s\<rparr>"
  have i: "pooled_inv ?s" using inv b by (auto simp: pooled_inv_def sys_batch_def ss_def [symmetric] roomy_def ac_simps)
  obtain k p where r: "pooled_reserve (py_pool s) bytes n got = (k, p)" by (metis surj_pair)
  have "fine (py_pool s) (mset (py_live s) + mset ss)" using inv_fine [OF i] by (simp add: ac_simps)
  from pooled_reserve_moves [OF this [unfolded ss_def] _ r] b
  have "moves (py_pool s) (mset (py_live s) + mset ss) p (mset (py_live s))" by (simp add: sys_batch_def ss_def)
  then have "moves (py_pool ?s) (mset (py_live ?s)) p (mset (py_live s))" by (simp add: ac_simps)
  from inv_moves [OF i this] show ?thesis by (simp only: sys_reserve_def r ss_def [symmetric] pooled_sys_update(3) snd_conv pooled_sys.simps)
qed

lemma sys_exit_law:
  assumes inv: "pooled_inv s" and t: "t < length (pa_caches (py_pool s))"
  shows "pooled_inv (sys_exit s t)"
proof -
  note e = onThreadExit_moves [OF inv_fine [OF inv] t]
  obtain R where R: "mset (pooled_stacks (onThreadExit (py_pool s) t)) + mset R = mset (pooled_stacks (py_pool s))" "pa_returned (onThreadExit (py_pool s) t) = R @ pa_returned (py_pool s)"
    using e(3) by blast
  have "mset (pooled_stacks (onThreadExit (py_pool s) t)) + mset (py_live s) + mset R = mset (pooled_stacks (py_pool s)) + mset (py_live s)"
    unfolding R(1) [symmetric] by (simp add: ac_simps)
  from inv_conserved [OF inv e(1,5) this R(2)] show ?thesis by (simp only: sys_exit_def pooled_sys_update(2))
qed

interpretation pooled: stack_allocator sys_alloc sys_dealloc py_live pooled_inv sys_answers "\<lambda>s d. fst d < length (pa_caches (py_pool s))"
proof unfold_locales
  show "apart (py_live s)" if "pooled_inv s" for s
    using that apart_append [of "py_live s" "pooled_stacks (py_pool s)"] by (simp add: pooled_inv_def)
  show "pooled_inv s' \<and> mset (py_live s') = mset (v # py_live s) \<and> unat n \<le> unat (sv_size v)"
    if "pooled_inv s" "sys_answers s n e" "sys_alloc s n e = (Inr v, s')" for s n e v s' using sys_alloc_law [OF that] by simp
  show "pooled_inv s' \<and> mset (py_live s') = mset (py_live s)"
    if "pooled_inv s" "sys_answers s n e" "sys_alloc s n e = (Inl x, s')" for s n e x s' using sys_alloc_law [OF that] by simp
  show "pooled_inv (sys_dealloc s v d) \<and> mset (py_live (sys_dealloc s v d)) = mset (remove1 v (py_live s))"
    if "pooled_inv s" "fst d < length (pa_caches (py_pool s))" "v \<in> set (py_live s)" for s d v using sys_dealloc_law [OF that] by simp
qed

section \<open>A pool in use\<close>

definition newPooled :: "nat \<Rightarrow> u64 \<Rightarrow> nat \<Rightarrow> nat \<Rightarrow> bool \<Rightarrow> pooled" where
  "newPooled threads page maxStacks maxBytes key =
     \<lparr>pa_next = (\<lambda>_. 0), pa_caches = replicate threads None, pa_shared = [],
      pa_reserves = replicate kMaxSizeClasses \<lparr>cl_size = 0, cl_head = 0, cl_count = 0, rv_target = 0\<rparr>, pa_page = page,
      pa_maxCachedStacksPerThread = maxStacks, pa_maxCachedBytesPerThread = maxBytes, pa_keyValid = key, pa_returned = []\<rparr>"

definition pooled_init :: "pooled_sys \<Rightarrow> bool" where
  "pooled_init s \<longleftrightarrow> 0 < unat (pa_page (py_pool s)) \<and> py_live s = [] \<and> py_obtained s = [] \<and>
     (\<exists>threads page maxStacks maxBytes key. py_pool s = newPooled threads page maxStacks maxBytes key)"

inductive pooled_step :: "pooled_sys \<Rightarrow> pooled_sys \<Rightarrow> bool" where
  p_allocate: "sys_answers s bytes e \<Longrightarrow> pooled_step s (snd (sys_alloc s bytes e))"
| p_deallocate: "v \<in> set (py_live s) \<Longrightarrow> fst d < length (pa_caches (py_pool s)) \<Longrightarrow> pooled_step s (sys_dealloc s v d)"
| p_reserve: "sys_batch s bytes (reserveAnswers (reserveMissing (py_pool s) bytes n) got 0) \<Longrightarrow> pooled_step s (sys_reserve s bytes n got)"
| p_exit: "t < length (pa_caches (py_pool s)) \<Longrightarrow> pooled_step s (sys_exit s t)"

lemma newPooled_fine: "pool_fine (newPooled threads page maxStacks maxBytes key)" "pooled_stacks (newPooled threads page maxStacks maxBytes key) = []"
  by (auto simp: pool_fine_def newPooled_def class_ok_def pooled_stacks_def cacheStacks_def classStacks_def)

interpretation pooled_run: step_system pooled_init pooled_step pooled_inv
proof unfold_locales
  show "pooled_inv s" if i: "pooled_init s" for s
  proof -
    obtain threads page maxStacks maxBytes key where p: "py_pool s = newPooled threads page maxStacks maxBytes key" using i by (auto simp: pooled_init_def)
    have "pa_returned (py_pool s) = []" by (simp add: p newPooled_def)
    then show ?thesis using i by (simp add: pooled_init_def pooled_inv_def p newPooled_fine roomy_def)
  qed
  show "pooled_inv s'" if "pooled_inv s" "pooled_step s s'" for s s'
    using that(2,1)
  proof cases
    case (p_allocate bytes e)
    then show ?thesis using sys_alloc_law(1) [OF that(1), of bytes e] by (metis prod.collapse)
  qed (use that(1) sys_dealloc_law(1) sys_reserve_law sys_exit_law in auto)
qed

section \<open>Properties\<close>

text \<open>C27: Whatever threads allocate, give back, set aside or end, the stacks in use and the free stacks of
  the pool never overlap in memory, each is there once, and every stack obtained from upstream is in
  use, in the pool, or went back upstream.\<close>

theorem pooled_stacks_exclusive:
  assumes "pooled_init s" "pooled_step\<^sup>*\<^sup>* s s'"
  shows "apart (py_live s' @ pooled_stacks (py_pool s')) \<and> distinct (py_live s' @ pooled_stacks (py_pool s'))
    \<and> mset (py_obtained s') = mset (py_live s') + mset (pooled_stacks (py_pool s')) + mset (pa_returned (py_pool s'))"
proof -
  have i: "pooled_inv s'" by (rule pooled_run.reachable_inv [OF assms])
  then have "apart (py_live s' @ pooled_stacks (py_pool s'))" by (simp add: pooled_inv_def)
  then show ?thesis using i apart_distinct [of "py_live s' @ pooled_stacks (py_pool s')"] by (simp add: pooled_inv_def)
qed

definition demoPool :: pooled_sys where
  "demoPool = \<lparr>py_pool = newPooled 2 4096 8 1048576 True, py_live = [], py_obtained = []\<rparr>"

definition demoStack :: stackView where
  "demoStack = \<lparr>sv_base = 65536, sv_size = 8192\<rparr>"

definition demoAnswers :: answers where
  "demoAnswers = \<lparr>an_setspecific = True, an_sharedFull = False, an_busy = 0, an_upstream = Inr demoStack\<rparr>"

lemma demoPool_init: "pooled_init demoPool"
  by (auto simp: pooled_init_def demoPool_def newPooled_def)

lemma demoPool_round: "roundUpToPage 5000 4096 = 8192"
  by (simp add: roundUpToPage_def)

lemma findSize_replicate: "findSize (replicate k c) n = (if 0 < k \<and> cl_size c = n then Some 0 else None)"
  by (induction k) auto

lemma takeFromShared_empty: "pa_shared p = [] \<Longrightarrow> takeFromShared k p cache n = (None, p)"
  by (cases k) auto

lemma demoPool_take:
  "fst (pooled_take (py_pool demoPool) 0 8192 demoAnswers) = None"
  "pooled_stacks (snd (pooled_take (py_pool demoPool) 0 8192 demoAnswers)) = []"
proof -
  show n: "fst (pooled_take (py_pool demoPool) 0 8192 demoAnswers) = None"
    by (simp add: pooled_take_def demoPool_def demoAnswers_def newPooled_def currentCache_def createCache_def setCache_def cacheHit_def
        cacheOf_def kMaxSizeClasses_def findSize_replicate takeFromShared_empty takeFromReserve_def findOrAdd_def Let_def)
  have p: "fine (py_pool demoPool) {#}" "pooled_stacks (py_pool demoPool) = []" "0 < length (pa_caches (py_pool demoPool))"
    using newPooled_fine by (simp_all add: demoPool_def fine_def nodes_ok_def) (simp add: newPooled_def)
  obtain p' where "pooled_take (py_pool demoPool) 0 8192 demoAnswers = (None, p')" using n by (metis prod.collapse)
  from pooled_take_moves(1) [OF p(1,3) this] this show "pooled_stacks (snd (pooled_take (py_pool demoPool) 0 8192 demoAnswers)) = []"
    using p(2) by (auto simp: moves_def)
qed

lemma demoPool_answers: "sys_answers demoPool 5000 (0, demoAnswers)"
proof -
  have "pa_page (py_pool demoPool) = 4096" "length (pa_caches (py_pool demoPool)) = 2" "py_live demoPool = []" by (simp_all add: demoPool_def newPooled_def)
  moreover have "snd (pooled_allocate (py_pool demoPool) 0 5000 demoAnswers) = snd (pooled_take (py_pool demoPool) 0 8192 demoAnswers)"
    using calculation(1) demoPool_round by (auto simp: pooled_allocate_def split: prod.splits option.splits)
  ultimately show ?thesis using demoPool_take(2) demoPool_round by (simp add: sys_answers_def demoAnswers_def demoStack_def in_space_def)
qed

theorem pooled_stacks_exclusive_witness:
  "pooled_init demoPool \<and> pooled_step demoPool (snd (sys_alloc demoPool 5000 (0, demoAnswers)))
    \<and> apart (py_live (snd (sys_alloc demoPool 5000 (0, demoAnswers))) @ pooled_stacks (py_pool (snd (sys_alloc demoPool 5000 (0, demoAnswers)))))"
proof -
  have st: "pooled_step demoPool (snd (sys_alloc demoPool 5000 (0, demoAnswers)))" by (rule p_allocate [OF demoPool_answers])
  from pooled_stacks_exclusive [OF demoPool_init r_into_rtranclp [where r = pooled_step, OF st]] st show ?thesis using demoPool_init by simp
qed

definition demoUsed :: pooled_sys where
  "demoUsed = snd (sys_alloc demoPool 5000 (0, demoAnswers))"

lemma demoUsed_facts:
  "pooled_step demoPool demoUsed" "demoStack \<in> set (py_live demoUsed)" "length (pa_caches (py_pool demoUsed)) = 2" "pa_keyValid (py_pool demoUsed)"
  "pa_page (py_pool demoUsed) = 4096" "pa_maxCachedStacksPerThread (py_pool demoUsed) = 8" "pa_maxCachedBytesPerThread (py_pool demoUsed) = 1048576"
  "pa_caches (py_pool demoUsed) ! 0 = Some \<lparr>tc_classes = replicate kMaxSizeClasses \<lparr>cl_size = 0, cl_head = 0, cl_count = 0\<rparr>, tc_cachedStacks = 0, tc_cachedBytes = 0\<rparr>"
  "py_live demoUsed = [demoStack]" "py_obtained demoUsed = [demoStack]"
proof -
  show "pooled_step demoPool demoUsed" unfolding demoUsed_def by (rule p_allocate [OF demoPool_answers])
  have "pa_page (py_pool demoPool) = 4096" by (simp add: demoPool_def newPooled_def)
  then have a: "pooled_allocate (py_pool demoPool) 0 5000 demoAnswers = (Inr demoStack, snd (pooled_take (py_pool demoPool) 0 8192 demoAnswers))"
    using demoPool_take(1) demoPool_round by (auto simp: pooled_allocate_def demoAnswers_def split: prod.splits option.splits)
  then have p: "py_pool demoUsed = snd (pooled_take (py_pool demoPool) 0 8192 demoAnswers)" by (simp add: demoUsed_def sys_alloc_def)
  have page: "roundUpToPage 5000 (pa_page (py_pool demoPool)) = 8192" using demoPool_round by (simp add: demoPool_def newPooled_def)
  have d: "py_live demoPool = []" "py_obtained demoPool = []" by (simp_all add: demoPool_def)
  show "demoStack \<in> set (py_live demoUsed)" "py_live demoUsed = [demoStack]" using a d by (simp_all add: demoUsed_def sys_alloc_def)
  show "py_obtained demoUsed = [demoStack]" using a d demoPool_take(1) page by (simp add: demoUsed_def sys_alloc_def asksUpstream_def)
  show "length (pa_caches (py_pool demoUsed)) = 2" "pa_keyValid (py_pool demoUsed)"
    "pa_page (py_pool demoUsed) = 4096" "pa_maxCachedStacksPerThread (py_pool demoUsed) = 8" "pa_maxCachedBytesPerThread (py_pool demoUsed) = 1048576"
    "pa_caches (py_pool demoUsed) ! 0 = Some \<lparr>tc_classes = replicate kMaxSizeClasses \<lparr>cl_size = 0, cl_head = 0, cl_count = 0\<rparr>, tc_cachedStacks = 0, tc_cachedBytes = 0\<rparr>"
    unfolding p by (simp_all add: pooled_take_def demoPool_def demoAnswers_def newPooled_def currentCache_def createCache_def setCache_def cacheHit_def
        cacheOf_def kMaxSizeClasses_def findSize_replicate takeFromShared_empty takeFromReserve_def findOrAdd_def Let_def)
qed

definition demoGiven :: pooled_sys where
  "demoGiven = sys_dealloc demoUsed demoStack (0, demoAnswers)"

lemma demoGiven_facts:
  "pooled_step\<^sup>*\<^sup>* demoPool demoGiven" "same_conf (py_pool demoUsed) (py_pool demoGiven)" "py_live demoGiven = []" "py_obtained demoGiven = [demoStack]"
proof -
  have t: "0 < length (pa_caches (py_pool demoUsed))" by (simp add: demoUsed_facts)
  have "pooled_step demoUsed demoGiven" unfolding demoGiven_def using demoUsed_facts(2) t by (intro p_deallocate) simp_all
  then show "pooled_step\<^sup>*\<^sup>* demoPool demoGiven" using demoUsed_facts(1) by (meson r_into_rtranclp rtranclp.rtrancl_into_rtrancl)
  have u: "pooled_inv demoUsed" by (rule pooled_run.reachable_inv [OF demoPool_init r_into_rtranclp [where r = pooled_step, OF demoUsed_facts(1)]])
  have X: "mset (py_live demoUsed) = mset (remove1 demoStack (py_live demoUsed)) + {#demoStack#}" using demoUsed_facts(2) by (simp add: insert_DiffM)
  have e: "\<not> isEmpty demoStack" by (simp add: demoStack_def isEmpty_def)
  show "same_conf (py_pool demoUsed) (py_pool demoGiven)"
    using pooled_deallocate_moves [OF inv_fine [OF u, unfolded X] t e, of demoAnswers] by (simp add: moves_def sys_dealloc_def demoGiven_def)
  show "py_live demoGiven = []" "py_obtained demoGiven = [demoStack]" using demoUsed_facts(9,10) by (simp_all add: demoGiven_def sys_dealloc_def)
qed

text \<open>C28: A thread's cache never holds more stacks or more bytes than its options allow, and its two
  counters say exactly what is on its free lists.\<close>

theorem pooled_cache_within_limits:
  assumes "pooled_init s" "pooled_step\<^sup>*\<^sup>* s s'" "t < length (pa_caches (py_pool s'))" "pa_caches (py_pool s') ! t = Some tc"
  shows "tc_cachedStacks tc = length (cacheStacks (pa_next (py_pool s')) (Some tc)) \<and> tc_cachedStacks tc \<le> pa_maxCachedStacksPerThread (py_pool s')
    \<and> tc_cachedBytes tc = (\<Sum>v\<leftarrow>cacheStacks (pa_next (py_pool s')) (Some tc). unat (sv_size v)) \<and> tc_cachedBytes tc \<le> pa_maxCachedBytesPerThread (py_pool s')"
proof -
  have "pooled_inv s'" by (rule pooled_run.reachable_inv [OF assms(1,2)])
  moreover have "Some tc \<in> set (pa_caches (py_pool s'))" using assms(3,4) nth_mem by metis
  ultimately have f: "cache_fine (py_pool s') tc" by (simp add: pooled_inv_def pool_fine_def)
  let ?nx = "pa_next (py_pool s')"
  have "(\<Sum>v\<leftarrow>classStacks ?nx c. unat (sv_size v)) = cl_count c * unat (cl_size c)" for c :: sizeClass
  proof -
    have "map (\<lambda>v. unat (sv_size v)) (classStacks ?nx c) = replicate (cl_count c) (unat (cl_size c))"
      using size_classStacks [of _ ?nx c] by (intro replicate_eqI) (auto simp: length_classStacks)
    then show ?thesis by (simp add: sum_list_replicate)
  qed
  then have "(\<Sum>v\<leftarrow>concat (map (classStacks ?nx) cs). unat (sv_size v)) = (\<Sum>c\<leftarrow>cs. cl_count c * unat (cl_size c))" for cs :: "sizeClass list"
    by (induction cs) simp_all
  moreover have "length (concat (map (classStacks ?nx) cs)) = (\<Sum>c\<leftarrow>cs. cl_count c)" for cs :: "sizeClass list"
    by (induction cs) (simp_all add: length_classStacks)
  ultimately show ?thesis using f by (simp add: cache_fine_def cacheStacks_def)
qed

theorem pooled_cache_within_limits_witness:
  "pooled_init demoPool \<and> pooled_step\<^sup>*\<^sup>* demoPool demoGiven
    \<and> pa_caches (py_pool demoGiven) ! 0 = Some (cacheOf (py_pool demoGiven) 0)
    \<and> tc_cachedStacks (cacheOf (py_pool demoGiven) 0) \<le> 8 \<and> tc_cachedBytes (cacheOf (py_pool demoGiven) 0) \<le> 1048576"
proof -
  have h: "hasCache (py_pool demoGiven) 0" using demoUsed_facts(3,8) by (intro hasCache_same [OF demoGiven_facts(2)]) (simp add: hasCache_def)
  note t = hasCacheD [OF h]
  have "pa_maxCachedStacksPerThread (py_pool demoGiven) = 8" "pa_maxCachedBytesPerThread (py_pool demoGiven) = 1048576"
    using demoGiven_facts(2) demoUsed_facts(6,7) by (simp_all add: same_conf_def)
  then show ?thesis using pooled_cache_within_limits [OF demoPool_init demoGiven_facts(1), of 0 "cacheOf (py_pool demoGiven) 0"] t demoGiven_facts(1) demoPool_init by simp
qed

text \<open>A stack that a thread gives back while its cache has room is the one its next allocation of that
  size gets, whatever the shared pool, the reserve and upstream hold.\<close>

theorem pooled_reuses_last:
  assumes "pooled_init s0" "pooled_step\<^sup>*\<^sup>* s0 s" "v \<in> set (py_live s)" "t < length (pa_caches (py_pool s))"
    and cc: "currentCache (py_pool s) t (an_setspecific an) = (True, p1)"
    and room: "canCache p1 (cacheOf p1 t) (sv_size v)" "fst (findOrAdd (tc_classes (cacheOf p1 t)) (sv_size v)) \<noteq> None"
    and bytes: "roundUpToPage bytes (pa_page (py_pool s)) = sv_size v"
  shows "fst (pooled_allocate (pooled_deallocate (py_pool s) t v an) t bytes an') = Inr v"
proof -
  let ?p = "py_pool s"
  have inv: "pooled_inv s" by (rule pooled_run.reachable_inv [OF assms(1,2)])
  have ap: "apart (py_live s @ pooled_stacks ?p)" "roomy (py_live s @ pooled_stacks ?p)" using inv by (simp_all add: pooled_inv_def)
  have v: "in_space v" "8 \<le> unat (sv_size v)" using apart_in_space [OF ap(1)] ap(2) assms(3) by (auto simp: roomy_def)
  have pf: "pool_fine ?p" using inv by (simp add: pooled_inv_def)
  note c = currentCache_moves [OF pf assms(4) cc]
  have key: "pa_keyValid p1" "pa_page p1 = pa_page ?p" using cc c(1) [of "{#}"] by (auto simp: currentCache_def moves_def same_conf_def split: if_splits)
  obtain i cs where fo: "findOrAdd (tc_classes (cacheOf p1 t)) (sv_size v) = (Some i, cs)" using room(2) by (metis not_Some_eq prod.collapse)
  note fs = findOrAdd_found [OF fo]
  note i = findSize_law [OF fs]
  let ?tc = "(cacheOf p1 t)\<lparr>tc_classes := cs\<rparr>"
  define q where "q = pushFront (setCache p1 t ?tc) t i v"
  have d: "pooled_deallocate ?p t v an = q"
    using v(1) cc room(1) fo by (simp add: pooled_deallocate_def isEmpty_def in_space_def tryCache_def q_def)
  have t: "t < length (pa_caches p1)" using hasCacheD [OF c(2)] by simp
  define cl where "cl = (cs ! i)\<lparr>cl_head := nodeOf v, cl_count := cl_count (cs ! i) + 1\<rparr>"
  have q: "pa_caches q ! t = Some (?tc\<lparr>tc_classes := cs[i := cl], tc_cachedStacks := tc_cachedStacks ?tc + 1, tc_cachedBytes := tc_cachedBytes ?tc + unat (sv_size v)\<rparr>)"
    "pa_keyValid q" "pa_page q = pa_page ?p"
    using t key by (simp_all add: q_def pushFront_def Let_def class_push_def setCache_def cacheOf_def cl_def)
  have "map cl_size (cs[i := cl]) = map cl_size cs" using i by (simp add: map_update list_update_same_conv cl_def)
  then have "findSize (cs[i := cl]) (sv_size v) = Some i" using findSize_cong fs by metis
  then have hit: "cacheHit q t (sv_size v) = Some i" using q(1) i nodeOf_extent(2) [OF v] by (simp add: cacheHit_def cacheOf_def cl_def)
  have "fst (popFront q t i) = v"
    using q(1) i viewOf_nodeOf [of v] by (simp add: popFront_def Let_def class_pop_def cacheOf_def cl_def)
  then show ?thesis using q(1,2) hit bytes d q(3) by (auto simp: pooled_allocate_def pooled_take_def currentCache_def split: prod.splits)
qed

theorem pooled_reuses_last_witness:
  "currentCache (py_pool demoUsed) 0 True = (True, py_pool demoUsed)
    \<and> fst (pooled_allocate (pooled_deallocate (py_pool demoUsed) 0 demoStack demoAnswers) 0 5000 (demoAnswers\<lparr>an_upstream := Inl InvalidArgument\<rparr>)) = Inr demoStack"
proof -
  have cc: "currentCache (py_pool demoUsed) 0 (an_setspecific demoAnswers) = (True, py_pool demoUsed)"
    by (simp add: currentCache_def demoUsed_facts)
  have tc: "cacheOf (py_pool demoUsed) 0 = \<lparr>tc_classes = replicate kMaxSizeClasses \<lparr>cl_size = 0, cl_head = 0, cl_count = 0\<rparr>, tc_cachedStacks = 0, tc_cachedBytes = 0\<rparr>"
    by (simp add: cacheOf_def demoUsed_facts)
  have "canCache (py_pool demoUsed) (cacheOf (py_pool demoUsed) 0) (sv_size demoStack)"
    by (simp add: canCache_def tc demoUsed_facts demoStack_def)
  moreover have "fst (findOrAdd (tc_classes (cacheOf (py_pool demoUsed) 0)) (sv_size demoStack)) \<noteq> None"
    by (simp add: tc findOrAdd_def findSize_replicate kMaxSizeClasses_def demoStack_def)
  moreover have "0 < length (pa_caches (py_pool demoUsed))" "roundUpToPage 5000 (pa_page (py_pool demoUsed)) = sv_size demoStack"
    by (simp_all add: demoUsed_facts demoPool_round demoStack_def)
  ultimately show ?thesis
    using pooled_reuses_last [OF demoPool_init r_into_rtranclp [where r = pooled_step, OF demoUsed_facts(1)] demoUsed_facts(2) _ cc] cc
    by (simp add: demoAnswers_def)
qed

text \<open>C29: The destructor gives every free stack back upstream: those of the caches of all threads, of the
  shared pool and of the reserve.  It does so only with a valid thread key: without one it returns at once and what the
  shared pool and the reserve hold is lost.\<close>

theorem pooled_destroy_returns_all:
  assumes "pooled_init s0" "pooled_step\<^sup>*\<^sup>* s0 s" "py_live s = []"
  shows "(pa_keyValid (py_pool s) \<longrightarrow> mset (pa_returned (pooled_destroy (py_pool s))) = mset (py_obtained s) \<and> pooled_stacks (pooled_destroy (py_pool s)) = [])
    \<and> (\<not> pa_keyValid (py_pool s) \<longrightarrow> pooled_stacks (pooled_destroy (py_pool s)) = pooled_stacks (py_pool s))"
proof -
  have inv: "pooled_inv s" by (rule pooled_run.reachable_inv [OF assms(1,2)])
  then have "fine (py_pool s) {#}" using inv_fine [OF inv] assms(3) by simp
  from pooled_destroy_law [OF this] show ?thesis using inv assms(3) by (auto simp: pooled_inv_def pooled_destroy_def)
qed

theorem pooled_destroy_returns_all_witness:
  "pooled_step\<^sup>*\<^sup>* demoPool demoGiven \<and> mset (pa_returned (pooled_destroy (py_pool demoGiven))) = {#demoStack#}"
proof -
  have "pa_keyValid (py_pool demoGiven)" using demoGiven_facts(2) demoUsed_facts(4) by (simp add: same_conf_def)
  then show ?thesis using pooled_destroy_returns_all [OF demoPool_init demoGiven_facts(1,3)] demoGiven_facts(1,4) by simp
qed

end
