(* ===== verification/Task_Creation.thy ===== *)
theory Task_Creation
  imports Pooled_Stacks Task_Slots Join
begin

text \<open>
  The birth and the end of a task: \<^verbatim>\<open>createTask\<close> of \<^verbatim>\<open>sched/detail/TaskFactory.h\<close> and
  \<^verbatim>\<open>SchedulerCore::releaseTask\<close>, over the task slots and any stack allocator that keeps the contract of
  \<^verbatim>\<open>StackAllocator\<close>; then on the pooled allocator.  \<^verbatim>\<open>createTask\<close> is one step; \<^verbatim>\<open>releaseTask\<close> is two, before
  and after the wait for the pins of wakers, with any number of releases waiting at the same time and
  other threads pinning and joining in between.  What tasks being created or released at the same time
  do to the slots is in \<open>Task_Slots\<close> and \<open>Slot_Calls\<close>, the pins access by access are in \<open>Wake_Token\<close>, the joiner
  and the finisher access by access in \<open>Join\<close>.
\<close>

section \<open>Tasks and slots\<close>

record taskConf =
  cf_taskStackSize :: u64
  cf_blockSize :: u64
  cf_blockAlign :: u64
  cf_checkStackCanary :: bool

record taskRec =
  tk_entry :: u64
  tk_block :: u64
  tk_stack :: stackView
  tk_slot :: nat
  tk_generation :: u32
  tk_join :: "nat option"
  tk_name :: "string option"
  tk_stackCanary :: "u64 option"
  tk_stackTop :: u64
  tk_exception :: "nat option"

record taskSlot =
  ts_task :: "taskRec option"
  ts_generation :: u32
  ts_pins :: u32

text \<open>\<open>tw_alloc\<close> is the state of the stack allocator; \<open>tw_releasing\<close> are the tasks whose release waits for
  pins: out of their slots, their memory not yet given back.  \<open>tw_unhandled\<close> is what the exception sink has
  received.  Exceptions are numbers.\<close>

record 's world =
  tw_pool :: pool
  tw_slots :: "nat \<Rightarrow> taskSlot"
  tw_alloc :: 's
  tw_stopping :: bool
  tw_releasing :: "taskRec list"
  tw_joins :: "nat \<Rightarrow> join_sys"
  tw_unhandled :: "nat list"

datatype create_error = OperationCanceled | TryAgain | AllocFailed alloc_error | InvalidStack

record taskOptions =
  op_stackSize :: u64
  op_name :: "string option"

section \<open>createTask\<close>

text \<open>\<open>None\<close> stands for a call that does not return: a round that has to be repeated while other threads
  create or finish tasks, or a free list that stays full.\<close>

definition createTask ::
  "taskConf \<Rightarrow> ('s \<Rightarrow> u64 \<Rightarrow> 'e \<Rightarrow> (alloc_error + stackView) \<times> 's) \<Rightarrow> ('s \<Rightarrow> stackView \<Rightarrow> 'd \<Rightarrow> 's) \<Rightarrow> 's world \<Rightarrow> nat option \<Rightarrow>
    u64 \<Rightarrow> u64 \<Rightarrow> taskOptions \<Rightarrow> nat option \<Rightarrow> 'e \<Rightarrow> 'd \<Rightarrow> ((create_error + nat) \<times> 's world) option" where
  "createTask cf alloc dealloc w me entrySize entryAlign options join e d =
     (if tw_stopping w then Some (Inl OperationCanceled, w)
      else case acquireSlot_round (tw_pool w) me of
        (Exhausted, p) \<Rightarrow> Some (Inl TryAgain, w\<lparr>tw_pool := p\<rparr>)
      | (Retry, p) \<Rightarrow> None
      | (Acquired slot, p) \<Rightarrow>
          (case alloc (tw_alloc w) (if op_stackSize options \<noteq> 0 then op_stackSize options else cf_taskStackSize cf) e of
             (Inl x, a) \<Rightarrow> map_option (\<lambda>p'. (Inl (AllocFailed x), w\<lparr>tw_pool := p', tw_alloc := a\<rparr>)) (releaseSlot p me slot)
           | (Inr v, a) \<Rightarrow>
               let layout = carveStack v entrySize entryAlign (cf_blockSize cf) (cf_blockAlign cf) in
               if \<not> ly_fits layout
               then map_option (\<lambda>p'. (Inl InvalidStack, w\<lparr>tw_pool := p', tw_alloc := dealloc a v d\<rparr>)) (releaseSlot p me slot)
               else
                 let task = \<lparr>tk_entry = ly_entry layout, tk_block = ly_block layout, tk_stack = v, tk_slot = slot,
                       tk_generation = ts_generation (tw_slots w slot), tk_join = join, tk_name = op_name options,
                       tk_stackCanary = (if cf_checkStackCanary cf then Some (sv_base v) else None), tk_stackTop = ly_stackTop layout,
                       tk_exception = None\<rparr>
                 in Some (Inr slot, w\<lparr>tw_slots := (tw_slots w)(slot := (tw_slots w slot)\<lparr>ts_task := Some task\<rparr>),
                      tw_pool := countCreated p me, tw_alloc := a\<rparr>)))"

section \<open>releaseTask\<close>

text \<open>The exception sink: what it aborts with, if it does not return.  The default one always aborts.\<close>

type_synonym sink = "nat \<Rightarrow> fatal option"

definition abortingExceptionSink :: sink where
  "abortingExceptionSink e = Some (Fatal ''stackfull: unhandled exception escaped a detached task'')"

text \<open>\<^verbatim>\<open>join->exception = ...\<close> and \<^verbatim>\<open>finishJoin\<close>, undisturbed by the joiner.\<close>

definition finishJoin :: "nat option \<Rightarrow> join_sys \<Rightarrow> join_sys" where
  "finishJoin e s = (join_release (s\<lparr>jn_exception := e, jn_escaped := e, jn_done := True,
     jn_token := (jn_token s \<or> jn_waiterKind s \<noteq> kNoWaiter)\<rparr>))\<lparr>jn_finisher := FGone\<rparr>"

lemma finishJoin_steps:
  assumes "jn_finisher s = FRuns"
  shows "join_step\<^sup>*\<^sup>* s (finishJoin e s)"
proof -
  let ?s1 = "s\<lparr>jn_exception := e, jn_escaped := e, jn_finisher := FStoreDone\<rparr>"
  let ?s2 = "?s1\<lparr>jn_done := True, jn_finisher := FLoadKind\<rparr>"
  let ?s3 = "?s2\<lparr>jn_finisher := FWakes (jn_waiterKind s)\<rparr>"
  let ?s4 = "?s3\<lparr>jn_token := (jn_token s \<or> jn_waiterKind s \<noteq> kNoWaiter), jn_finisher := FDrop\<rparr>"
  have "join_step s ?s1" by (rule Finishes [OF assms])
  moreover have "join_step ?s1 ?s2" by (rule StoreDone) simp
  moreover have "join_step ?s2 ?s3" using LoadKind [of ?s2] by simp
  moreover have "join_step ?s3 ?s4" using Wakes [of ?s3] by simp
  moreover have "join_step ?s4 (finishJoin e s)"
  proof -
    have "finishJoin e s = (join_release ?s4)\<lparr>jn_finisher := FGone\<rparr>" by (simp add: finishJoin_def join_release_def)
    then show ?thesis using FinisherDrops [of ?s4] by simp
  qed
  ultimately show ?thesis by (meson converse_rtranclp_into_rtranclp rtranclp.rtrancl_refl)
qed

definition handOver :: "sink \<Rightarrow> 's world \<Rightarrow> taskRec \<Rightarrow> fatal + 's world" where
  "handOver sink w task = (case tk_join task of
     Some j \<Rightarrow> Inr (w\<lparr>tw_joins := (tw_joins w)(j := finishJoin (tk_exception task) (tw_joins w j))\<rparr>)
   | None \<Rightarrow> (case tk_exception task of
        None \<Rightarrow> Inr w
      | Some e \<Rightarrow> (case sink e of Some f \<Rightarrow> Inl f | None \<Rightarrow> Inr (w\<lparr>tw_unhandled := tw_unhandled w @ [e]\<rparr>))))"

text \<open>Up to the wait: the exception or the end is handed over, the slot is cleared and its generation
  advanced.  None: no such task.\<close>

definition unlinkTask :: "sink \<Rightarrow> 's world \<Rightarrow> nat \<Rightarrow> (fatal + 's world) option" where
  "unlinkTask sink w slot = (case ts_task (tw_slots w slot) of
     None \<Rightarrow> None
   | Some task \<Rightarrow> Some (case handOver sink w task of
        Inl f \<Rightarrow> Inl f
      | Inr w1 \<Rightarrow> Inr (w1\<lparr>tw_slots := (tw_slots w1)(slot := (tw_slots w1 slot)\<lparr>ts_task := None, ts_generation := ts_generation (tw_slots w1 slot) + 1\<rparr>),
          tw_releasing := task # tw_releasing w1\<rparr>)))"

text \<open>One turn of the wait, and what follows once no pin is left.  The flag says that the last task of a
  stopping scheduler is gone and every worker is unparked.  None: the free list never has room.\<close>

datatype 'w release_turn = StillPinned | Freed bool 'w

definition freeTask ::
  "('s \<Rightarrow> stackView \<Rightarrow> 'd \<Rightarrow> 's) \<Rightarrow> 's world \<Rightarrow> nat option \<Rightarrow> taskRec \<Rightarrow> 'd \<Rightarrow> 's world release_turn option" where
  "freeTask dealloc w me task d =
     (if ts_pins (tw_slots w (tk_slot task)) \<noteq> 0 then Some StillPinned
      else map_option (\<lambda>p. Freed (tw_stopping w \<and> liveTasks p = 0)
          (w\<lparr>tw_alloc := dealloc (tw_alloc w) (tk_stack task) d, tw_releasing := remove1 task (tw_releasing w), tw_pool := p\<rparr>))
        (releaseSlot (countFinished (tw_pool w) me) me (tk_slot task)))"

section \<open>Where slots and stacks are\<close>

definition liveSlots :: "'s world \<Rightarrow> nat list" where
  "liveSlots w = filter (\<lambda>i. ts_task (tw_slots w i) \<noteq> None) [0..<sp_maxTasks (tw_pool w)]"

definition stackIn :: "'s world \<Rightarrow> nat \<Rightarrow> stackView" where
  "stackIn w i = tk_stack (the (ts_task (tw_slots w i)))"

text \<open>Tasks count as alive, and hold slot and stack, until their release is through.\<close>

definition heldSlots :: "'s world \<Rightarrow> nat list" where
  "heldSlots w = liveSlots w @ map tk_slot (tw_releasing w)"

definition heldStacks :: "'s world \<Rightarrow> stackView list" where
  "heldStacks w = map (stackIn w) (liveSlots w) @ map tk_stack (tw_releasing w)"

definition lifeOf :: "'s world \<Rightarrow> slot_life" where
  "lifeOf w = \<lparr>sl_pool = tw_pool w, sl_creating = [], sl_live = heldSlots w, sl_finishing = []\<rparr>"

definition tasks_ok :: "'s world \<Rightarrow> bool" where
  "tasks_ok w \<longleftrightarrow> (\<forall>i task. ts_task (tw_slots w i) = Some task \<longrightarrow> i < sp_maxTasks (tw_pool w) \<and> tk_slot task = i \<and> tk_generation task = ts_generation (tw_slots w i))"

definition releasing_ok :: "'s world \<Rightarrow> bool" where
  "releasing_ok w \<longleftrightarrow> (\<forall>task\<in>set (tw_releasing w). ts_task (tw_slots w (tk_slot task)) = None
     \<and> ts_generation (tw_slots w (tk_slot task)) = tk_generation task + 1)"

lemma live_slot: "tasks_ok w \<Longrightarrow> i \<in> set (liveSlots w) \<longleftrightarrow> ts_task (tw_slots w i) \<noteq> None"
  by (auto simp: liveSlots_def tasks_ok_def)

lemma filter_split:
  assumes "i < n" "P i \<noteq> Q i" "\<And>j. j \<noteq> i \<Longrightarrow> P j = Q j"
  obtains xs ys where "filter P [0..<n] = xs @ (if P i then [i] else []) @ ys" "filter Q [0..<n] = xs @ (if Q i then [i] else []) @ ys" "i \<notin> set (xs @ ys)"
proof -
  have u: "[0..<n] = [0..<i] @ i # [Suc i..<n]" using assms(1) upt_add_eq_append [of 0 i "n - i"] upt_conv_Cons [of i n] by simp
  have "filter P [0..<i] = filter Q [0..<i]" "filter P [Suc i..<n] = filter Q [Suc i..<n]" using assms(3) by (auto intro!: filter_cong)
  then show thesis using that [of "filter P [0..<i]" "filter P [Suc i..<n]"] by (simp add: u)
qed

lemma life_inv_perm:
  "life_inv s \<Longrightarrow> sl_pool s' = sl_pool s \<Longrightarrow> sl_creating s' = sl_creating s \<Longrightarrow> sl_finishing s' = sl_finishing s \<Longrightarrow> mset (sl_live s') = mset (sl_live s) \<Longrightarrow> life_inv s'"
  using mset_eq_length [of "sl_live s'" "sl_live s"] by (simp add: life_inv_def used_def)

lemma free_not_live:
  assumes "life_inv (lifeOf w)" "tasks_ok w" "slot \<in># free_slots (tw_pool w)"
  shows "slot < sp_maxTasks (tw_pool w)" "ts_task (tw_slots w slot) = None" "slot \<notin> set (heldSlots w)"
proof -
  let ?n = "sp_maxTasks (tw_pool w)"
  have m: "free_slots (tw_pool w) + mset (heldSlots w) = mset [0..<?n]" using assms(1) by (simp add: life_inv_def lifeOf_def used_def)
  have "slot \<in># free_slots (tw_pool w) + mset (heldSlots w)" using assms(3) by simp
  then have "slot \<in># mset [0..<?n]" unfolding m .
  then show "slot < ?n" by simp
  have "count (mset [0..<?n]) slot \<le> 1" by (simp add: count_mset_set')
  then have "count (free_slots (tw_pool w)) slot + count (mset (heldSlots w)) slot \<le> 1" unfolding m [symmetric] by simp
  moreover have "0 < count (free_slots (tw_pool w)) slot" using assms(3) by simp
  ultimately have "count (mset (heldSlots w)) slot = 0" by linarith
  then show "slot \<notin> set (heldSlots w)" by (simp add: count_eq_zero_iff)
  then show "ts_task (tw_slots w slot) = None" using live_slot [OF assms(2)] by (auto simp: heldSlots_def)
qed

text \<open>A slot that gets or loses its task.\<close>

lemma liveSlots_insert:
  assumes "slot < n" "ts_task (tw_slots w slot) = None" "sp_maxTasks (tw_pool w) = n" "sp_maxTasks (tw_pool w') = n"
    "tw_slots w' = (tw_slots w)(slot := ts)" "ts_task ts = Some task"
  shows "mset (liveSlots w') = add_mset slot (mset (liveSlots w))"
    "mset (map (stackIn w') (liveSlots w')) = add_mset (tk_stack task) (mset (map (stackIn w) (liveSlots w)))"
proof -
  let ?P = "\<lambda>i. ts_task (tw_slots w i) \<noteq> None" and ?Q = "\<lambda>i. ts_task (tw_slots w' i) \<noteq> None"
  obtain xs ys where f: "filter ?P [0..<n] = xs @ ys" "filter ?Q [0..<n] = xs @ slot # ys" "slot \<notin> set (xs @ ys)"
    by (rule filter_split [of slot n ?P ?Q]) (use assms in auto)
  have m: "map (stackIn w') (xs @ slot # ys) = map (stackIn w) xs @ tk_stack task # map (stackIn w) ys"
    using f(3) assms(5,6) by (auto simp: stackIn_def)
  show "mset (liveSlots w') = add_mset slot (mset (liveSlots w))" unfolding liveSlots_def assms(3,4) f by simp
  show "mset (map (stackIn w') (liveSlots w')) = add_mset (tk_stack task) (mset (map (stackIn w) (liveSlots w)))"
    unfolding liveSlots_def assms(3,4) f m by simp
qed

section \<open>Over any allocator\<close>

definition world_inv :: "('s \<Rightarrow> stackView list) \<Rightarrow> ('s \<Rightarrow> bool) \<Rightarrow> 's world \<Rightarrow> bool" where
  "world_inv live ok w \<longleftrightarrow> ok (tw_alloc w) \<and> life_inv (lifeOf w) \<and> tasks_ok w \<and> releasing_ok w
     \<and> mset (live (tw_alloc w)) = mset (heldStacks w)"

text \<open>The slots and stacks of two states are the same.\<close>

definition same_resources :: "('s \<Rightarrow> stackView list) \<Rightarrow> 's world \<Rightarrow> 's world \<Rightarrow> bool" where
  "same_resources live w w' \<longleftrightarrow> tw_slots w' = tw_slots w \<and> tw_releasing w' = tw_releasing w \<and> free_slots (tw_pool w') = free_slots (tw_pool w)
     \<and> mset (live (tw_alloc w')) = mset (live (tw_alloc w)) \<and> liveTasks (tw_pool w') = liveTasks (tw_pool w)"

definition stackSizeOf :: "taskConf \<Rightarrow> taskOptions \<Rightarrow> u64" where
  "stackSizeOf cf options = (if op_stackSize options \<noteq> 0 then op_stackSize options else cf_taskStackSize cf)"

text \<open>A new task: in a slot that was free, with a stack large enough, into which its records fit and which
  overlaps with no other task's; the other tasks are as they were.\<close>

definition created :: "taskConf \<Rightarrow> taskOptions \<Rightarrow> u64 \<Rightarrow> u64 \<Rightarrow> 's world \<Rightarrow> 's world \<Rightarrow> nat \<Rightarrow> bool" where
  "created cf options es ea w w' slot \<longleftrightarrow> ts_task (tw_slots w slot) = None \<and> (\<exists>task. ts_task (tw_slots w' slot) = Some task \<and> tk_slot task = slot
     \<and> unat (stackSizeOf cf options) \<le> unat (sv_size (tk_stack task)) \<and> ly_fits (carveStack (tk_stack task) es ea (cf_blockSize cf) (cf_blockAlign cf))
     \<and> (\<forall>i other. i \<noteq> slot \<longrightarrow> ts_task (tw_slots w i) = Some other \<longrightarrow>
          ts_task (tw_slots w' i) = Some other \<and> extent (tk_stack task) \<inter> extent (tk_stack other) = {}))"

locale task_memory = stack_allocator +
  fixes cf :: taskConf
begin

lemma same_world:
  assumes w: "world_inv live inv w" and same: "tw_slots w' = tw_slots w" "same_counts (tw_pool w) (tw_pool w')" "life_inv (lifeOf w')" "tw_releasing w' = tw_releasing w"
    and a: "inv (tw_alloc w')" "mset (live (tw_alloc w')) = mset (live (tw_alloc w))"
  shows "world_inv live inv w'"
proof -
  have "liveSlots w' = liveSlots w" "stackIn w' = stackIn w" using same(1,2) by (auto simp: liveSlots_def stackIn_def same_counts_def fun_eq_iff)
  moreover have "tasks_ok w'" "releasing_ok w'" using w same(1,2,4) by (simp_all add: world_inv_def tasks_ok_def releasing_ok_def same_counts_def)
  ultimately show ?thesis using w same(3,4) a by (simp add: world_inv_def heldStacks_def)
qed

text \<open>A slot taken and given back.\<close>

lemma slot_back:
  assumes w: "world_inv live inv w" and me: "me_in me (tw_pool w)" and r: "acquireSlot_round (tw_pool w) me = (Acquired slot, p)"
  obtains p' where "releaseSlot p me slot = Some p'" "same_counts (tw_pool w) p'" "free_slots p' = free_slots (tw_pool w)"
    "life_inv \<lparr>sl_pool = p', sl_creating = [], sl_live = heldSlots w, sl_finishing = []\<rparr>"
proof -
  let ?L = "lifeOf w"
  let ?s1 = "?L\<lparr>sl_pool := p, sl_creating := [slot]\<rparr>"
  have L: "life_inv ?L" "sl_pool ?L = tw_pool w" "sl_creating ?L = []" "sl_live ?L = heldSlots w" "sl_finishing ?L = []" using w by (simp_all add: world_inv_def lifeOf_def)
  have "life_step ?L ?s1" using Acquire [of me ?L slot p] me r L by simp
  then have i1: "life_inv ?s1" by (rule life_step_inv [OF L(1)])
  have "pool_ok (tw_pool w)" using L by (simp add: life_inv_def)
  from acquired_found [OF this me r] have f: "same_counts (tw_pool w) p" "free_slots (tw_pool w) = {#slot#} + free_slots p" by (simp_all add: found_def)
  have me1: "me_in me (sl_pool ?s1)" using me f(1) by (cases me) (simp_all add: me_in_def same_counts_def)
  have u: "used ?s1 \<noteq> {#}" by (simp add: used_def)
  obtain p' where p': "releaseSlot p me slot = Some p'" using release_some [OF i1 me1 u, of slot] by auto
  note rf = release_found [OF i1 me1 u, of slot p'] 
  have sc: "same_counts (tw_pool w) p'" using rf(1) f(1) p' by (simp add: same_counts_def)
  have fr: "free_slots p' = free_slots (tw_pool w)" using rf(3) f(2) p' by simp
  have "life_step ?s1 (?s1\<lparr>sl_pool := p', sl_creating := remove1 slot (sl_creating ?s1)\<rparr>)" using Abort [of me ?s1 slot p'] me1 p' by simp
  then have i2: "life_inv (?s1\<lparr>sl_pool := p', sl_creating := remove1 slot (sl_creating ?s1)\<rparr>)" by (rule life_step_inv [OF i1])
  have "life_inv \<lparr>sl_pool = p', sl_creating = [], sl_live = heldSlots w, sl_finishing = []\<rparr>"
    by (rule life_inv_perm [OF i2]) (use L in simp_all)
  then show thesis using that p' sc fr by blast
qed

lemma lifeOf_back: "tw_slots w' = tw_slots w \<Longrightarrow> tw_releasing w' = tw_releasing w \<Longrightarrow> same_counts (tw_pool w) (tw_pool w') \<Longrightarrow>
    life_inv \<lparr>sl_pool = tw_pool w', sl_creating = [], sl_live = heldSlots w, sl_finishing = []\<rparr> \<Longrightarrow> life_inv (lifeOf w')"
  by (simp add: lifeOf_def heldSlots_def liveSlots_def same_counts_def)

lemma create_law:
  assumes w: "world_inv live inv w" and me: "me_in me (tw_pool w)" and ans: "answers (tw_alloc w) (stackSizeOf cf options) e"
    and d: "\<And>v a. alloc (tw_alloc w) (stackSizeOf cf options) e = (Inr v, a) \<Longrightarrow> allowed a d"
  obtains r w' where "createTask cf alloc dealloc w me es ea options join e d = Some (r, w')" "world_inv live inv w'"
    "\<And>x. r = Inl x \<Longrightarrow> same_resources live w w'"
    "\<And>slot. r = Inr slot \<Longrightarrow> created cf options es ea w w' slot"
proof (cases "tw_stopping w")
  case True
  then show thesis using that [of "Inl OperationCanceled" w] w by (simp add: createTask_def same_resources_def)
next
  case False
  have w': "inv (tw_alloc w)" "life_inv (lifeOf w)" "tasks_ok w" "mset (live (tw_alloc w)) = mset (heldStacks w)" "releasing_ok w"
    using w by (simp_all add: world_inv_def)
  obtain r p where r: "acquireSlot_round (tw_pool w) me = (r, p)" by (metis surj_pair)
  have "me_in me (sl_pool (lifeOf w))" "acquireSlot_round (sl_pool (lifeOf w)) me = (r, p)" using me r by (simp_all add: lifeOf_def)
  note al = acquireSlot_law [OF w'(2) this]
  have pok: "pool_ok (tw_pool w)" using w'(2) by (simp add: life_inv_def lifeOf_def)
  note f = acquired_found [OF pok me r]
  let ?n = "stackSizeOf cf options"
  consider (full) "r = Exhausted" | (got) slot where "r = Acquired slot" using al by (cases r) (auto simp: lifeOf_def)
  then show thesis
  proof cases
    case full
    have "life_step (lifeOf w) ((lifeOf w)\<lparr>sl_pool := p\<rparr>)" using Refused [of me "lifeOf w" r p] me r full by (simp add: lifeOf_def)
    then have i: "life_inv ((lifeOf w)\<lparr>sl_pool := p\<rparr>)" by (rule life_step_inv [OF w'(2)])
    have sc: "same_counts (tw_pool w) p" "free_slots p = free_slots (tw_pool w)" using f full by (simp_all add: found_def)
    let ?w = "w\<lparr>tw_pool := p\<rparr>"
    have "life_inv (lifeOf ?w)" using i sc(1) by (intro lifeOf_back [of ?w w]) (simp_all add: lifeOf_def)
    then have "world_inv live inv ?w" using sc(1) w'(1) by (intro same_world [OF w]) simp_all
    then show thesis using that [of "Inl TryAgain" ?w] False r full sc same_counts_live [OF sc(1)] by (simp add: createTask_def same_resources_def)
  next
    case got
    obtain p' where p': "releaseSlot p me slot = Some p'" "same_counts (tw_pool w) p'" "free_slots p' = free_slots (tw_pool w)"
      "life_inv \<lparr>sl_pool = p', sl_creating = [], sl_live = heldSlots w, sl_finishing = []\<rparr>"
      by (rule slot_back [OF w me r [unfolded got]])
    have undone: "world_inv live inv (w\<lparr>tw_pool := p', tw_alloc := a\<rparr>)" "same_resources live w (w\<lparr>tw_pool := p', tw_alloc := a\<rparr>)"
      if "inv a" "mset (live a) = mset (live (tw_alloc w))" for a
    proof -
      have "life_inv (lifeOf (w\<lparr>tw_pool := p', tw_alloc := a\<rparr>))" using p'(2,4) by (intro lifeOf_back [of _ w]) simp_all
      then show "world_inv live inv (w\<lparr>tw_pool := p', tw_alloc := a\<rparr>)" using p'(2) that by (intro same_world [OF w]) simp_all
      show "same_resources live w (w\<lparr>tw_pool := p', tw_alloc := a\<rparr>)" using p'(2,3) that(2) same_counts_live [OF p'(2)] by (simp add: same_resources_def)
    qed
    obtain res a where al': "alloc (tw_alloc w) ?n e = (res, a)" by (metis surj_pair)
    show thesis
    proof (cases res)
      case (Inl x)
      have ok: "inv a" "mset (live a) = mset (live (tw_alloc w))" using alloc_err [OF w'(1) ans] al' Inl by auto
      have "createTask cf alloc dealloc w me es ea options join e d = Some (Inl (AllocFailed x), w\<lparr>tw_pool := p', tw_alloc := a\<rparr>)"
        using False r got al' Inl p'(1) by (simp add: createTask_def stackSizeOf_def)
      then show thesis using that undone [OF ok] by simp
    next
      case (Inr v)
      note fr = free_not_live [OF w'(2,3), of slot]
      have free: "slot \<in># free_slots (tw_pool w)" using al got by (simp add: lifeOf_def)
      have am: "inv a" "mset (live a) = add_mset v (mset (live (tw_alloc w)))" "unat ?n \<le> unat (sv_size v)" using alloc_ok [OF w'(1) ans] al' Inr by auto
      let ?lay = "carveStack v es ea (cf_blockSize cf) (cf_blockAlign cf)"
      show thesis
      proof (cases "ly_fits ?lay")
        case nofit: False
        have ok: "inv (dealloc a v d)" "mset (live (dealloc a v d)) = mset (live (tw_alloc w))"
          using alloc_dealloc [OF w'(1) ans, of v a d] d al' Inr by auto
        have "createTask cf alloc dealloc w me es ea options join e d = Some (Inl InvalidStack, w\<lparr>tw_pool := p', tw_alloc := dealloc a v d\<rparr>)"
          using False r got al' Inr p'(1) nofit by (simp add: createTask_def stackSizeOf_def)
        then show thesis using that undone [OF ok] by simp
      next
        case True
        define task where "task = \<lparr>tk_entry = ly_entry ?lay, tk_block = ly_block ?lay, tk_stack = v, tk_slot = slot, tk_generation = ts_generation (tw_slots w slot),
          tk_join = join, tk_name = op_name options, tk_stackCanary = (if cf_checkStackCanary cf then Some (sv_base v) else None), tk_stackTop = ly_stackTop ?lay, tk_exception = None\<rparr>"
        define w2 where "w2 = w\<lparr>tw_slots := (tw_slots w)(slot := (tw_slots w slot)\<lparr>ts_task := Some task\<rparr>), tw_pool := countCreated p me, tw_alloc := a\<rparr>"
        have c: "createTask cf alloc dealloc w me es ea options join e d = Some (Inr slot, w2)"
          using False r got al' Inr True by (simp add: createTask_def stackSizeOf_def task_def w2_def Let_def)
        have sc: "same_counts (tw_pool w) p" using f got by (simp add: found_def)
        then have mx: "sp_maxTasks (tw_pool w2) = sp_maxTasks (tw_pool w)" by (cases me) (simp_all add: w2_def countCreated_def same_counts_def)
        note li = liveSlots_insert [OF fr(1) [OF free] fr(2) [OF free] refl mx, where ts = "(tw_slots w slot)\<lparr>ts_task := Some task\<rparr>" and task = task]
        have li: "mset (liveSlots w2) = add_mset slot (mset (liveSlots w))"
          "mset (map (stackIn w2) (liveSlots w2)) = add_mset v (mset (map (stackIn w) (liveSlots w)))"
          using li by (simp_all add: w2_def task_def)
        then have li: "mset (heldSlots w2) = add_mset slot (mset (heldSlots w))" "mset (heldStacks w2) = add_mset v (mset (heldStacks w))"
          by (simp_all add: heldSlots_def heldStacks_def) (simp_all add: w2_def)
        let ?s1 = "(lifeOf w)\<lparr>sl_pool := p, sl_creating := [slot]\<rparr>"
        have L: "sl_pool (lifeOf w) = tw_pool w" "sl_creating (lifeOf w) = []" "sl_live (lifeOf w) = heldSlots w" "sl_finishing (lifeOf w) = []" by (simp_all add: lifeOf_def)
        have "life_step (lifeOf w) ?s1" using Acquire [of me "lifeOf w" slot p] me r got L by simp
        then have i1: "life_inv ?s1" by (rule life_step_inv [OF w'(2)])
        have me1: "me_in me p" using me sc by (cases me) (simp_all add: me_in_def same_counts_def)
        have "life_step ?s1 (?s1\<lparr>sl_pool := countCreated (sl_pool ?s1) me, sl_creating := remove1 slot (sl_creating ?s1), sl_live := slot # sl_live ?s1\<rparr>)"
          using me1 by (intro Create) simp_all
        then have i2: "life_inv (?s1\<lparr>sl_pool := countCreated (sl_pool ?s1) me, sl_creating := remove1 slot (sl_creating ?s1), sl_live := slot # sl_live ?s1\<rparr>)" by (rule life_step_inv [OF i1])
        have "life_inv (lifeOf w2)" by (rule life_inv_perm [OF i2]) (use li(1) L in \<open>simp_all add: lifeOf_def [of w2], simp_all add: w2_def\<close>)
        moreover have "tasks_ok w2" using w'(3) fr(1) [OF free] mx by (auto simp: tasks_ok_def w2_def task_def)
        moreover have "releasing_ok w2" using w'(5) fr(3) [OF free] by (auto simp: releasing_ok_def w2_def heldSlots_def)
        ultimately have "world_inv live inv w2" using am(1,2) li(2) w'(4) by (simp add: world_inv_def) (simp add: w2_def)
        moreover have "extent v \<inter> extent (tk_stack other) = {}" if "ts_task (tw_slots w i) = Some other" for i other
        proof -
          have "i \<in> set (liveSlots w)" using live_slot [OF w'(3), of i] that by simp
          then have "stackIn w i \<in> set (map (stackIn w) (liveSlots w))" by simp
          then have "tk_stack other \<in> set (live (tw_alloc w))" using mset_eq_setD [OF w'(4)] that by (simp add: stackIn_def heldStacks_def)
          then show ?thesis using alloc_apart(2) [OF w'(1) ans] al' Inr by blast
        qed
        ultimately show thesis using that [OF c] fr(2) [OF free] am(3) True by (simp add: created_def) (simp add: w2_def task_def)
      qed
    qed
  qed
qed

lemma unlink_law:
  assumes w: "world_inv live inv w" and task: "ts_task (tw_slots w slot) = Some task" and u: "unlinkTask sink w slot = Some (Inr w')"
  shows "world_inv live inv w' \<and> tw_alloc w' = tw_alloc w \<and> tw_pool w' = tw_pool w \<and> tw_releasing w' = task # tw_releasing w
    \<and> tw_slots w' = (tw_slots w)(slot := (tw_slots w slot)\<lparr>ts_task := None, ts_generation := tk_generation task + 1\<rparr>)"
proof -
  have w': "inv (tw_alloc w)" "life_inv (lifeOf w)" "tasks_ok w" "mset (live (tw_alloc w)) = mset (heldStacks w)" "releasing_ok w"
    using w by (simp_all add: world_inv_def)
  have tk: "tk_slot task = slot" "ts_generation (tw_slots w slot) = tk_generation task" "slot < sp_maxTasks (tw_pool w)"
    using w'(3) task by (simp_all add: tasks_ok_def)
  have same: "tw_alloc w' = tw_alloc w" "tw_pool w' = tw_pool w" "tw_releasing w' = task # tw_releasing w"
    "tw_slots w' = (tw_slots w)(slot := (tw_slots w slot)\<lparr>ts_task := None, ts_generation := tk_generation task + 1\<rparr>)"
    using u task tk by (auto simp: unlinkTask_def handOver_def split: option.splits sum.splits)
  have ts: "tw_slots w = (tw_slots w')(slot := tw_slots w slot)" by (simp add: same fun_eq_iff)
  have "ts_task (tw_slots w' slot) = None" by (simp add: same)
  from liveSlots_insert [OF tk(3) this _ refl ts task] same(2)
  have "mset (heldSlots w) = mset (heldSlots w')" "mset (heldStacks w) = mset (heldStacks w')"
    using tk(1) same(3) by (simp_all add: heldSlots_def heldStacks_def)
  moreover from this(1) have "life_inv (lifeOf w')" by (intro life_inv_perm [OF w'(2)]) (simp_all add: lifeOf_def same)
  moreover have "tasks_ok w'" using w'(3) by (auto simp: tasks_ok_def same split: if_splits)
  moreover have "releasing_ok w'" using w'(5) task tk(1) by (auto simp: releasing_ok_def same)
  ultimately show ?thesis using w'(1,4) same by (simp add: world_inv_def)
qed

lemma free_law:
  assumes w: "world_inv live inv w" and me: "me_in me (tw_pool w)" and task: "task \<in> set (tw_releasing w)" and d: "allowed (tw_alloc w) d"
    and pins: "ts_pins (tw_slots w (tk_slot task)) = 0"
  obtains lastOne w' where "freeTask dealloc w me task d = Some (Freed lastOne w')" "world_inv live inv w'" "lastOne \<longleftrightarrow> tw_stopping w \<and> heldSlots w' = []"
    "tw_slots w' = tw_slots w" "tw_releasing w' = remove1 task (tw_releasing w)" "free_slots (tw_pool w') = add_mset (tk_slot task) (free_slots (tw_pool w))"
    "mset (live (tw_alloc w)) = add_mset (tk_stack task) (mset (live (tw_alloc w')))"
proof -
  have w': "inv (tw_alloc w)" "life_inv (lifeOf w)" "tasks_ok w" "mset (live (tw_alloc w)) = mset (heldStacks w)" "releasing_ok w"
    using w by (simp_all add: world_inv_def)
  let ?slot = "tk_slot task"
  have L: "sl_pool (lifeOf w) = tw_pool w" "sl_creating (lifeOf w) = []" "sl_live (lifeOf w) = heldSlots w" "sl_finishing (lifeOf w) = []" by (simp_all add: lifeOf_def)
  have inl: "?slot \<in> set (heldSlots w)" using task by (simp add: heldSlots_def)
  let ?p1 = "countFinished (tw_pool w) me"
  let ?s1 = "(lifeOf w)\<lparr>sl_pool := ?p1, sl_live := remove1 ?slot (heldSlots w), sl_finishing := [?slot]\<rparr>"
  have "life_step (lifeOf w) ?s1" using Finish [of me "lifeOf w" ?slot] me inl L by simp
  then have i1: "life_inv ?s1" by (rule life_step_inv [OF w'(2)])
  have me1: "me_in me (sl_pool ?s1)" using me by (cases me) (simp_all add: me_in_def countFinished_def)
  have u: "used ?s1 \<noteq> {#}" by (simp add: used_def)
  obtain p where p: "releaseSlot (sl_pool ?s1) me ?slot = Some p" by (rule release_some [OF i1 me1 u])
  let ?s2 = "?s1\<lparr>sl_pool := p, sl_finishing := remove1 ?slot (sl_finishing ?s1)\<rparr>"
  have "life_step ?s1 ?s2" using Release [of me ?s1 ?slot p] me1 p by simp
  then have i2: "life_inv ?s2" by (rule life_step_inv [OF i1])
  define w2 where "w2 = w\<lparr>tw_alloc := dealloc (tw_alloc w) (tk_stack task) d, tw_releasing := remove1 task (tw_releasing w), tw_pool := p\<rparr>"
  have r: "freeTask dealloc w me task d = Some (Freed (tw_stopping w \<and> liveTasks p = 0) w2)" using p pins by (simp add: freeTask_def w2_def)
  have "sp_maxTasks p = sp_maxTasks ?p1" using release_found(1) [OF i1 me1 u p] by (simp add: same_counts_def)
  then have mx: "sp_maxTasks (tw_pool w2) = sp_maxTasks (tw_pool w)" by (cases me) (simp_all add: w2_def countFinished_def)
  then have ls: "liveSlots w2 = liveSlots w" "stackIn w2 = stackIn w" by (auto simp: liveSlots_def stackIn_def fun_eq_iff) (simp_all add: w2_def)
  have rm: "mset (map f (tw_releasing w)) = add_mset (f task) (mset (map f (remove1 task (tw_releasing w))))" for f :: "taskRec \<Rightarrow> 'x"
    using image_mset_add_mset [of f task "mset (remove1 task (tw_releasing w))"] task by simp
  have held: "mset (heldSlots w) = add_mset ?slot (mset (heldSlots w2))" "mset (heldStacks w) = add_mset (tk_stack task) (mset (heldStacks w2))"
    using rm [of tk_slot] rm [of tk_stack] ls by (simp_all add: heldSlots_def heldStacks_def) (simp_all add: w2_def)
  have lm: "mset (heldSlots w2) = mset (remove1 ?slot (heldSlots w))" using held(1) by simp
  have life: "life_inv (lifeOf w2)" by (rule life_inv_perm [OF i2]) (use lm L in \<open>simp_all add: lifeOf_def [of w2], simp_all add: w2_def\<close>)
  have v: "tk_stack task \<in> set (live (tw_alloc w))" using mset_eq_setD [OF w'(4)] task by (simp add: heldStacks_def)
  have da: "inv (tw_alloc w2)" "mset (live (tw_alloc w2)) = mset (remove1 (tk_stack task) (live (tw_alloc w)))" using dealloc_ok [OF w'(1) d v] by (simp_all add: w2_def)
  then have m: "mset (live (tw_alloc w)) = add_mset (tk_stack task) (mset (live (tw_alloc w2)))" using v by (simp add: insert_DiffM)
  have "tasks_ok w2" using w'(3) mx by (simp add: tasks_ok_def) (simp add: w2_def)
  moreover have "releasing_ok w2" using w'(5) set_remove1_subset [of task "tw_releasing w"] by (auto simp: releasing_ok_def w2_def)
  ultimately have "world_inv live inv w2" using da(1) life m held(2) w'(4) by (simp add: world_inv_def)
  moreover have "liveTasks p = 0 \<longleftrightarrow> heldSlots w2 = []"
  proof -
    have "unat (liveTasks p) = length (heldSlots w2)" using lives(1) [OF life] by (simp add: lifeOf_def w2_def)
    then show ?thesis by (simp flip: unat_eq_0)
  qed
  moreover have "tw_slots w2 = tw_slots w" "tw_releasing w2 = remove1 task (tw_releasing w)" by (simp_all add: w2_def)
  moreover have "free_slots ?p1 = free_slots (tw_pool w)" by (cases me) (simp_all add: countFinished_def free_slots_def)
  then have "free_slots (tw_pool w2) = add_mset ?slot (free_slots (tw_pool w))" using release_found(3) [OF i1 me1 u p] by (simp add: w2_def)
  ultimately show thesis using that r m by simp
qed

end

section \<open>On the pooled allocator\<close>

type_synonym pooled_world = "pooled_sys world"

interpretation pooled_tasks: task_memory sys_alloc sys_dealloc py_live pooled_inv sys_answers "\<lambda>s d. fst d < length (pa_caches (py_pool s))" cf
  for cf
  by unfold_locales

interpretation mmap_tasks: task_memory "mmap_alloc o'" "mmap_dealloc o'" mm_live "mmap_inv o'" "mmap_answers o'" "\<lambda>_ _. True" cf
  for o' cf
  by unfold_locales

text \<open>Bodies end with an exception or without one (\<open>t_escape\<close>: \<^verbatim>\<open>runTaskBody\<close>), releases go their two halves, wakers and
  scanning threads pin and unpin slots, holders of join handles act, the scheduler stops.\<close>

inductive task_step :: "sink \<Rightarrow> taskConf \<Rightarrow> pooled_world \<Rightarrow> pooled_world \<Rightarrow> bool" for sink cf where
  t_create: "me_in me (tw_pool w) \<Longrightarrow> sys_answers (tw_alloc w) (stackSizeOf cf options) e \<Longrightarrow> fst d < length (pa_caches (py_pool (tw_alloc w))) \<Longrightarrow>
    createTask cf sys_alloc sys_dealloc w me es ea options join e d = Some (r, w') \<Longrightarrow> task_step sink cf w w'"
| t_escape: "ts_task (tw_slots w slot) = Some task \<Longrightarrow>
    task_step sink cf w (w\<lparr>tw_slots := (tw_slots w)(slot := (tw_slots w slot)\<lparr>ts_task := Some (task\<lparr>tk_exception := e'\<rparr>)\<rparr>)\<rparr>)"
| t_unlink: "unlinkTask sink w slot = Some (Inr w') \<Longrightarrow> task_step sink cf w w'"
| t_free: "me_in me (tw_pool w) \<Longrightarrow> task \<in> set (tw_releasing w) \<Longrightarrow> fst d < length (pa_caches (py_pool (tw_alloc w))) \<Longrightarrow>
    freeTask sys_dealloc w me task d = Some (Freed lastOne w') \<Longrightarrow> task_step sink cf w w'"
| t_pins: "task_step sink cf w (w\<lparr>tw_slots := (tw_slots w)(slot := (tw_slots w slot)\<lparr>ts_pins := n\<rparr>)\<rparr>)"
| t_join: "join_step (tw_joins w j) s \<Longrightarrow> jn_finisher s = jn_finisher (tw_joins w j) \<Longrightarrow> task_step sink cf w (w\<lparr>tw_joins := (tw_joins w)(j := s)\<rparr>)"
| t_stop: "task_step sink cf w (w\<lparr>tw_stopping := True\<rparr>)"

definition world_init :: "nat \<Rightarrow> nat \<Rightarrow> nat \<Rightarrow> pooled_world \<Rightarrow> bool" where
  "world_init workers maxTasks capacity w \<longleftrightarrow> life_init workers maxTasks capacity \<lparr>sl_pool = tw_pool w, sl_creating = [], sl_live = [], sl_finishing = []\<rparr>
     \<and> (\<forall>i. ts_task (tw_slots w i) = None) \<and> tw_releasing w = [] \<and> pooled_init (tw_alloc w)"

lemma allocate_caches:
  assumes "pooled_inv s" "sys_answers s n e" "sys_alloc s n e = (res, s')"
  shows "length (pa_caches (py_pool s')) = length (pa_caches (py_pool s))"
proof -
  obtain t an where e: "e = (t, an)" by (metis surj_pair)
  obtain o' p1 where take: "pooled_take (py_pool s) t (roundUpToPage n (pa_page (py_pool s))) an = (o', p1)" by (metis surj_pair)
  have t: "t < length (pa_caches (py_pool s))" using assms(2) e by (simp add: sys_answers_def)
  have "length (pa_caches p1) = length (pa_caches (py_pool s))"
    using pooled_take_moves(1) [OF inv_fine [OF assms(1)] t take] by (simp add: moves_def same_conf_def)
  moreover have "py_pool s' = p1" using assms(3) e take by (auto simp: sys_alloc_def pooled_allocate_def split: option.splits sum.splits)
  ultimately show ?thesis by simp
qed

lemma world_create:
  assumes "world_inv py_live pooled_inv w" "me_in me (tw_pool w)" "sys_answers (tw_alloc w) (stackSizeOf cf options) e" "fst d < length (pa_caches (py_pool (tw_alloc w)))"
  obtains r w' where "createTask cf sys_alloc sys_dealloc w me es ea options join e d = Some (r, w')" "world_inv py_live pooled_inv w'"
    "\<And>x. r = Inl x \<Longrightarrow> same_resources py_live w w'"
    "\<And>slot. r = Inr slot \<Longrightarrow> created cf options es ea w w' slot"
proof -
  have inv: "pooled_inv (tw_alloc w)" using assms(1) by (simp add: world_inv_def)
  show thesis
  proof (rule pooled_tasks.create_law [OF assms(1-3), where d = d and es = es and ea = ea and join = join])
    show "fst d < length (pa_caches (py_pool a))" if "sys_alloc (tw_alloc w) (stackSizeOf cf options) e = (Inr v, a)" for v a
      using allocate_caches [OF inv assms(3) that] assms(4) by simp
  qed (rule that, assumption+)
qed

lemma same_tasks:
  assumes "world_inv live ok w" "tw_pool w' = tw_pool w" "tw_alloc w' = tw_alloc w" "tw_releasing w' = tw_releasing w"
    "\<And>i. map_option (\<lambda>t. (tk_stack t, tk_slot t, tk_generation t)) (ts_task (tw_slots w' i)) = map_option (\<lambda>t. (tk_stack t, tk_slot t, tk_generation t)) (ts_task (tw_slots w i))"
    "\<And>i. ts_generation (tw_slots w' i) = ts_generation (tw_slots w i)"
  shows "world_inv live ok w'"
proof -
  have n: "ts_task (tw_slots w' i) = None \<longleftrightarrow> ts_task (tw_slots w i) = None" for i using assms(5) [of i] by (cases "ts_task (tw_slots w' i)"; cases "ts_task (tw_slots w i)") auto
  have "liveSlots w' = liveSlots w" using n assms(2) by (simp add: liveSlots_def)
  moreover have st: "ts_task (tw_slots w i) \<noteq> None \<Longrightarrow> stackIn w' i = stackIn w i" for i using assms(5) [of i] by (auto simp: stackIn_def)
  moreover have "image_mset (stackIn w') (mset (liveSlots w)) = image_mset (stackIn w) (mset (liveSlots w))"
    by (rule image_mset_cong, rule st) (simp add: liveSlots_def)
  moreover have "tasks_ok w'" unfolding tasks_ok_def
  proof (intro allI impI)
    fix i task
    assume t: "ts_task (tw_slots w' i) = Some task"
    then obtain task0 where "ts_task (tw_slots w i) = Some task0" "tk_slot task0 = tk_slot task" "tk_generation task0 = tk_generation task"
      using assms(5) [of i] by (cases "ts_task (tw_slots w i)") auto
    then show "i < sp_maxTasks (tw_pool w') \<and> tk_slot task = i \<and> tk_generation task = ts_generation (tw_slots w' i)"
      using assms(1,2,6) by (auto simp: world_inv_def tasks_ok_def)
  qed
  ultimately show ?thesis using assms n by (simp add: world_inv_def lifeOf_def heldSlots_def heldStacks_def releasing_ok_def)
qed

interpretation task_run: step_system "world_init n m c" "task_step sink cf" "world_inv py_live pooled_inv"
  for n m c sink cf
proof unfold_locales
  show "world_inv py_live pooled_inv w" if i: "world_init n m c w" for w
  proof -
    have none: "ts_task (tw_slots w i) = None" for i using i by (simp add: world_init_def)
    then have "liveSlots w = []" by (simp add: liveSlots_def)
    then have e: "heldSlots w = []" "heldStacks w = []" "tw_releasing w = []" using i by (simp_all add: world_init_def heldSlots_def heldStacks_def)
    have "life_init n m c (lifeOf w)" using i e by (simp add: world_init_def lifeOf_def)
    then have "life_inv (lifeOf w)" by (rule life_init_inv)
    moreover have "pooled_inv (tw_alloc w)" "py_live (tw_alloc w) = []" using i pooled_run.init_inv by (auto simp: world_init_def pooled_init_def)
    ultimately show ?thesis using none e by (simp add: world_inv_def tasks_ok_def releasing_ok_def)
  qed
  show "world_inv py_live pooled_inv w'" if inv: "world_inv py_live pooled_inv w" and st: "task_step sink cf w w'" for w w'
    using st
  proof cases
    case (t_create me options e d es ea join r)
    then show ?thesis using world_create [OF inv t_create(1-3), where es = es and ea = ea and join = join] by (metis option.inject prod.inject)
  next
    case (t_escape slot task e')
    then show ?thesis by (intro same_tasks [OF inv]) auto
  next
    case (t_unlink slot)
    then obtain task where "ts_task (tw_slots w slot) = Some task" by (auto simp: unlinkTask_def split: option.splits)
    then show ?thesis using pooled_tasks.unlink_law [OF inv _ t_unlink(1)] by blast
  next
    case (t_free me task d lastOne)
    then have "ts_pins (tw_slots w (tk_slot task)) = 0" by (auto simp: freeTask_def split: if_splits)
    then show ?thesis by (rule pooled_tasks.free_law [OF inv t_free(1-3)]) (use t_free(4) in auto)
  next
    case (t_pins slot n)
    then show ?thesis by (intro same_tasks [OF inv]) auto
  next
    case (t_join j s)
    then show ?thesis by (intro same_tasks [OF inv]) auto
  next
    case t_stop
    then show ?thesis by (intro same_tasks [OF inv]) auto
  qed
qed

lemma unlink_outcome:
  assumes inv: "world_inv py_live pooled_inv w" and t: "ts_task (tw_slots w slot) = Some task"
  shows "\<exists>x. unlinkTask sink w slot = Some x \<and> (case x of
      Inl f \<Rightarrow> tk_join task = None \<and> (\<exists>e. tk_exception task = Some e \<and> sink e = Some f)
    | Inr w' \<Rightarrow> ts_task (tw_slots w' slot) = None \<and> ts_generation (tw_slots w' slot) = tk_generation task + 1
        \<and> tw_releasing w' = task # tw_releasing w \<and> tw_alloc w' = tw_alloc w \<and> tw_pool w' = tw_pool w
        \<and> (\<forall>j. tk_join task = Some j \<longrightarrow> jn_finisher (tw_joins w j) = FRuns \<longrightarrow>
             join_step\<^sup>*\<^sup>* (tw_joins w j) (tw_joins w' j) \<and> jn_done (tw_joins w' j) \<and> jn_exception (tw_joins w' j) = tk_exception task)
        \<and> (\<forall>e. tk_join task = None \<longrightarrow> tk_exception task = Some e \<longrightarrow> tw_unhandled w' = tw_unhandled w @ [e]))"
proof -
  obtain x where u: "unlinkTask sink w slot = Some x" using t by (simp add: unlinkTask_def)
  show ?thesis
  proof (cases x)
    case (Inl f)
    then show ?thesis using u t by (auto simp: unlinkTask_def handOver_def split: option.splits)
  next
    case (Inr w')
    have "jn_done (finishJoin e s)" "jn_exception (finishJoin e s) = e" for e s by (simp_all add: finishJoin_def join_release_def)
    then have "\<forall>j. tk_join task = Some j \<longrightarrow> jn_finisher (tw_joins w j) = FRuns \<longrightarrow>
        join_step\<^sup>*\<^sup>* (tw_joins w j) (tw_joins w' j) \<and> jn_done (tw_joins w' j) \<and> jn_exception (tw_joins w' j) = tk_exception task"
      "\<forall>e. tk_join task = None \<longrightarrow> tk_exception task = Some e \<longrightarrow> tw_unhandled w' = tw_unhandled w @ [e]"
      using u t Inr finishJoin_steps by (auto simp: unlinkTask_def handOver_def split: option.splits)
    then show ?thesis using pooled_tasks.unlink_law [OF inv t u [unfolded Inr]] u Inr by simp
  qed
qed

section \<open>Properties\<close>

text \<open>C33: Creating a task is all or nothing: the call always returns; a task gets a slot that was free, a stack of
  at least the size asked for, into which its records fit and which overlaps with no other task's, and
  no other task is touched; after an error, be it no slot, no memory or a stack that is too small,
  slots, stacks and the count of live tasks are what they were.\<close>

theorem createTask_all_or_nothing:
  assumes "world_init workers maxTasks capacity w0" "(task_step sink cf)\<^sup>*\<^sup>* w0 w"
    "me_in me (tw_pool w)" "sys_answers (tw_alloc w) (stackSizeOf cf options) e" "fst d < length (pa_caches (py_pool (tw_alloc w)))"
  shows "\<exists>r w'. createTask cf sys_alloc sys_dealloc w me es ea options join e d = Some (r, w') \<and>
    (case r of
       Inl x \<Rightarrow> same_resources py_live w w'
     | Inr slot \<Rightarrow> created cf options es ea w w' slot)"
proof -
  have inv: "world_inv py_live pooled_inv w" by (rule task_run.reachable_inv [OF assms(1,2)])
  show ?thesis
  proof (rule world_create [OF inv assms(3-5), where es = es and ea = ea and join = join])
    fix r w'
    assume c: "createTask cf sys_alloc sys_dealloc w me es ea options join e d = Some (r, w')"
      and l: "\<And>x. r = Inl x \<Longrightarrow> same_resources py_live w w'"
      and ok: "\<And>slot. r = Inr slot \<Longrightarrow> created cf options es ea w w' slot"
    show ?thesis unfolding c using l ok by (cases r) simp_all
  qed
qed

text \<open>C34: The stacks handed out are exactly those of the tasks in the slots and of the tasks whose release is
  not through, and lie apart in memory; every task knows its slot and its generation. Releasing a task first hands over
  its end: only an exception of a detached task that the sink does not accept aborts; otherwise a joinable task's end is
  a run of the finisher of the join protocol that publishes what escaped the body, the slot is empty and its generation
  invalid, and slot, stack and count are still held. Then it waits exactly while the slot is pinned; with
  no pin left it always returns, gives back the stack and the slot, and reports the last task of a
  stopping scheduler.\<close>

theorem tasks_own_their_memory:
  assumes "world_init workers maxTasks capacity w0" "(task_step sink cf)\<^sup>*\<^sup>* w0 w"
  shows "apart (py_live (tw_alloc w)) \<and> mset (py_live (tw_alloc w)) = mset (heldStacks w) \<and> tasks_ok w \<and> releasing_ok w
    \<and> (\<forall>slot task. ts_task (tw_slots w slot) = Some task \<longrightarrow>
        (\<exists>x. unlinkTask sink w slot = Some x \<and>
          (case x of
             Inl f \<Rightarrow> tk_join task = None \<and> (\<exists>e. tk_exception task = Some e \<and> sink e = Some f)
           | Inr w' \<Rightarrow> ts_task (tw_slots w' slot) = None \<and> ts_generation (tw_slots w' slot) = tk_generation task + 1
               \<and> tw_releasing w' = task # tw_releasing w \<and> tw_alloc w' = tw_alloc w \<and> tw_pool w' = tw_pool w
               \<and> (\<forall>j. tk_join task = Some j \<longrightarrow> jn_finisher (tw_joins w j) = FRuns \<longrightarrow>
                    join_step\<^sup>*\<^sup>* (tw_joins w j) (tw_joins w' j) \<and> jn_done (tw_joins w' j) \<and> jn_exception (tw_joins w' j) = tk_exception task)
               \<and> (\<forall>e. tk_join task = None \<longrightarrow> tk_exception task = Some e \<longrightarrow> tw_unhandled w' = tw_unhandled w @ [e]))))
    \<and> (\<forall>me task d. me_in me (tw_pool w) \<longrightarrow> task \<in> set (tw_releasing w) \<longrightarrow> fst d < length (pa_caches (py_pool (tw_alloc w))) \<longrightarrow>
        (if ts_pins (tw_slots w (tk_slot task)) \<noteq> 0 then freeTask sys_dealloc w me task d = Some StillPinned
         else \<exists>w'. freeTask sys_dealloc w me task d = Some (Freed (tw_stopping w \<and> heldSlots w' = []) w')
           \<and> tw_releasing w' = remove1 task (tw_releasing w) \<and> tw_slots w' = tw_slots w
           \<and> free_slots (tw_pool w') = add_mset (tk_slot task) (free_slots (tw_pool w))
           \<and> mset (py_live (tw_alloc w)) = add_mset (tk_stack task) (mset (py_live (tw_alloc w')))))"
proof -
  have inv: "world_inv py_live pooled_inv w" by (rule task_run.reachable_inv [OF assms])
  show ?thesis
  proof (intro conjI allI impI)
    show "apart (py_live (tw_alloc w))" using inv pooled.live_apart by (simp add: world_inv_def)
    show "mset (py_live (tw_alloc w)) = mset (heldStacks w)" "tasks_ok w" "releasing_ok w" using inv by (simp_all add: world_inv_def)
  next
    fix slot task
    assume t: "ts_task (tw_slots w slot) = Some task"
    show "\<exists>x. unlinkTask sink w slot = Some x \<and> (case x of
        Inl f \<Rightarrow> tk_join task = None \<and> (\<exists>e. tk_exception task = Some e \<and> sink e = Some f)
      | Inr w' \<Rightarrow> ts_task (tw_slots w' slot) = None \<and> ts_generation (tw_slots w' slot) = tk_generation task + 1
          \<and> tw_releasing w' = task # tw_releasing w \<and> tw_alloc w' = tw_alloc w \<and> tw_pool w' = tw_pool w
          \<and> (\<forall>j. tk_join task = Some j \<longrightarrow> jn_finisher (tw_joins w j) = FRuns \<longrightarrow>
               join_step\<^sup>*\<^sup>* (tw_joins w j) (tw_joins w' j) \<and> jn_done (tw_joins w' j) \<and> jn_exception (tw_joins w' j) = tk_exception task)
          \<and> (\<forall>e. tk_join task = None \<longrightarrow> tk_exception task = Some e \<longrightarrow> tw_unhandled w' = tw_unhandled w @ [e]))"
      by (rule unlink_outcome [OF inv t])
  next
    fix me task and d :: "nat \<times> answers"
    assume h: "me_in me (tw_pool w)" "task \<in> set (tw_releasing w)" "fst d < length (pa_caches (py_pool (tw_alloc w)))"
    show "if ts_pins (tw_slots w (tk_slot task)) \<noteq> 0 then freeTask sys_dealloc w me task d = Some StillPinned
      else \<exists>w'. freeTask sys_dealloc w me task d = Some (Freed (tw_stopping w \<and> heldSlots w' = []) w')
        \<and> tw_releasing w' = remove1 task (tw_releasing w) \<and> tw_slots w' = tw_slots w
        \<and> free_slots (tw_pool w') = add_mset (tk_slot task) (free_slots (tw_pool w))
        \<and> mset (py_live (tw_alloc w)) = add_mset (tk_stack task) (mset (py_live (tw_alloc w')))"
    proof (cases "ts_pins (tw_slots w (tk_slot task)) = 0")
      case True
      show ?thesis by (rule pooled_tasks.free_law [OF inv h True]) (use True in auto)
    next
      case False
      then show ?thesis by (simp add: freeTask_def)
    qed
  qed
qed

definition demoWorld :: pooled_world where
  "demoWorld = \<lparr>tw_pool = demo_pool, tw_slots = (\<lambda>_. \<lparr>ts_task = None, ts_generation = 0, ts_pins = 0\<rparr>), tw_alloc = demoPool, tw_stopping = False,
     tw_releasing = [], tw_joins = (\<lambda>_. join_demo), tw_unhandled = []\<rparr>"

definition demoConf :: taskConf where
  "demoConf = \<lparr>cf_taskStackSize = 5000, cf_blockSize = 256, cf_blockAlign = 16, cf_checkStackCanary = True\<rparr>"

definition demoOptions :: taskOptions where
  "demoOptions = \<lparr>op_stackSize = 0, op_name = None\<rparr>"

lemma demoWorld_facts:
  "world_init 2 3 8 demoWorld" "me_in (Some 0) (tw_pool demoWorld)" "stackSizeOf demoConf demoOptions = 5000"
  "sys_answers (tw_alloc demoWorld) (stackSizeOf demoConf demoOptions) (0, demoAnswers)" "length (pa_caches (py_pool (tw_alloc demoWorld))) = 2"
proof -
  show "world_init 2 3 8 demoWorld" using demo_life_init demoPool_init by (simp add: world_init_def demoWorld_def demo_life_def)
  show "me_in (Some 0) (tw_pool demoWorld)" by (simp add: demoWorld_def) code_simp
  show s: "stackSizeOf demoConf demoOptions = 5000" by (simp add: stackSizeOf_def demoConf_def demoOptions_def)
  show "sys_answers (tw_alloc demoWorld) (stackSizeOf demoConf demoOptions) (0, demoAnswers)" unfolding s using demoPool_answers by (simp add: demoWorld_def)
  show "length (pa_caches (py_pool (tw_alloc demoWorld))) = 2" by (simp add: demoWorld_def demoPool_def newPooled_def)
qed

theorem createTask_all_or_nothing_witness:
  "world_init 2 3 8 demoWorld \<and> (\<exists>r w'. createTask demoConf sys_alloc sys_dealloc demoWorld (Some 0) 64 16 demoOptions None (0, demoAnswers) (0, demoAnswers) = Some (r, w'))"
proof -
  have "fst (0 :: nat, demoAnswers) < length (pa_caches (py_pool (tw_alloc demoWorld)))" by (simp add: demoWorld_facts)
  from createTask_all_or_nothing [OF demoWorld_facts(1) rtranclp.rtrancl_refl demoWorld_facts(2,4) this, of 64 16 None]
  show ?thesis using demoWorld_facts(1) by blast
qed

definition demoCreated :: pooled_world where
  "demoCreated = snd (the (createTask demoConf sys_alloc sys_dealloc demoWorld (Some 0) 64 16 demoOptions None (0, demoAnswers) (0, demoAnswers)))"

lemma demoCreated_step: "task_step sink demoConf demoWorld demoCreated"
proof -
  have d: "fst (0 :: nat, demoAnswers) < length (pa_caches (py_pool (tw_alloc demoWorld)))" by (simp add: demoWorld_facts)
  have inv: "world_inv py_live pooled_inv demoWorld" by (rule task_run.reachable_inv [OF demoWorld_facts(1) rtranclp.rtrancl_refl])
  obtain r w' where c: "createTask demoConf sys_alloc sys_dealloc demoWorld (Some 0) 64 16 demoOptions None (0, demoAnswers) (0, demoAnswers) = Some (r, w')"
    by (rule world_create [OF inv demoWorld_facts(2,4) d, of 64 16 None])
  then have "demoCreated = w'" by (simp add: demoCreated_def)
  then show ?thesis using t_create [OF demoWorld_facts(2,4) d c] by simp
qed

lemma demoCreated_facts:
  obtains task where "ts_task (tw_slots demoCreated 2) = Some task" "tk_exception task = None" "tk_slot task = 2"
    "ts_pins (tw_slots demoCreated 2) = 0" "me_in (Some 0) (tw_pool demoCreated)" "length (pa_caches (py_pool (tw_alloc demoCreated))) = 2"
    "tw_releasing demoCreated = []"
proof -
  have "fst (acquireSlot_round demo_pool (Some 0)) = Acquired 2" by code_simp
  then obtain p where a: "acquireSlot_round demo_pool (Some 0) = (Acquired 2, p)" by (metis prod.collapse)
  have "pa_page (py_pool demoPool) = 4096" by (simp add: demoPool_def newPooled_def)
  then have "fst (pooled_allocate (py_pool demoPool) 0 5000 demoAnswers) = Inr demoStack"
    using demoPool_take(1) demoPool_round by (auto simp: pooled_allocate_def demoAnswers_def split: prod.splits option.splits)
  then have "fst (sys_alloc demoPool 5000 (0, demoAnswers)) = Inr demoStack" by (auto simp: sys_alloc_def split: prod.splits sum.splits)
  then have m: "sys_alloc demoPool 5000 (0, demoAnswers) = (Inr demoStack, demoUsed)" by (simp add: demoUsed_def prod_eq_iff)
  let ?lay = "carveStack demoStack 64 16 256 16"
  have f: "ly_fits ?lay" by code_simp
  define task where "task = \<lparr>tk_entry = ly_entry ?lay, tk_block = ly_block ?lay, tk_stack = demoStack, tk_slot = 2, tk_generation = 0,
    tk_join = None, tk_name = None, tk_stackCanary = Some (sv_base demoStack), tk_stackTop = ly_stackTop ?lay, tk_exception = None\<rparr>"
  have c: "demoCreated = demoWorld\<lparr>tw_slots := (tw_slots demoWorld)(2 := (tw_slots demoWorld 2)\<lparr>ts_task := Some task\<rparr>), tw_pool := countCreated p (Some 0), tw_alloc := demoUsed\<rparr>"
    using a m f by (simp add: demoCreated_def createTask_def demoWorld_def demoConf_def demoOptions_def Let_def task_def)
  have "me_in (Some 0) (snd (acquireSlot_round demo_pool (Some 0)))" by code_simp
  then have "me_in (Some 0) (countCreated p (Some 0))" using a by (simp add: me_in_def countCreated_def)
  then show thesis using that [of task] demoUsed_facts(3) by (simp add: c demoWorld_def task_def)
qed

theorem tasks_own_their_memory_witness:
  "\<exists>task w2 lastOne w3. (task_step abortingExceptionSink demoConf)\<^sup>*\<^sup>* demoWorld demoCreated \<and> ts_task (tw_slots demoCreated 2) = Some task
    \<and> unlinkTask abortingExceptionSink demoCreated 2 = Some (Inr w2) \<and> freeTask sys_dealloc w2 (Some 0) task (0, demoAnswers) = Some (Freed lastOne w3)
    \<and> tw_releasing w3 = [] \<and> mset (py_live (tw_alloc demoCreated)) = add_mset (tk_stack task) (mset (py_live (tw_alloc w3)))"
proof -
  let ?k = abortingExceptionSink
  obtain task where t: "ts_task (tw_slots demoCreated 2) = Some task" "tk_exception task = None" "tk_slot task = 2"
    "ts_pins (tw_slots demoCreated 2) = 0" "me_in (Some 0) (tw_pool demoCreated)" "length (pa_caches (py_pool (tw_alloc demoCreated))) = 2"
    "tw_releasing demoCreated = []"
    by (rule demoCreated_facts)
  have r1: "(task_step ?k demoConf)\<^sup>*\<^sup>* demoWorld demoCreated" using demoCreated_step by (rule r_into_rtranclp)
  have inv: "world_inv py_live pooled_inv demoCreated" by (rule task_run.reachable_inv [OF demoWorld_facts(1) r1])
  have "\<exists>w2. unlinkTask ?k demoCreated 2 = Some (Inr w2)"
    using t(1,2) by (simp add: unlinkTask_def handOver_def split: option.splits)
  then obtain w2 where u: "unlinkTask ?k demoCreated 2 = Some (Inr w2)" by blast
  have r2: "(task_step ?k demoConf)\<^sup>*\<^sup>* demoWorld w2" using r1 t_unlink [OF u] by (rule rtranclp.rtrancl_into_rtrancl)
  note l = pooled_tasks.unlink_law [OF inv t(1) u]
  have rel: "tw_releasing w2 = [task]" using l t(7) by simp
  have "\<exists>w3. freeTask sys_dealloc w2 (Some 0) task (0, demoAnswers) = Some (Freed (tw_stopping w2 \<and> heldSlots w3 = []) w3)
      \<and> tw_releasing w3 = [] \<and> mset (py_live (tw_alloc w2)) = add_mset (tk_stack task) (mset (py_live (tw_alloc w3)))"
  proof -
    have h: "me_in (Some 0) (tw_pool w2)" "task \<in> set (tw_releasing w2)" "fst (0 :: nat, demoAnswers) < length (pa_caches (py_pool (tw_alloc w2)))"
      "ts_pins (tw_slots w2 (tk_slot task)) = 0" using l rel t by simp_all
    from tasks_own_their_memory [OF demoWorld_facts(1) r2] h rel show ?thesis
      by (elim conjE allE [of _ "Some 0"] allE [of _ task] allE [of _ "(0, demoAnswers)"]) auto
  qed
  then show ?thesis using r1 t(1) u l by auto
qed

end
