(* ===== verification/Coroutine_Switch.thy ===== *)
theory Coroutine_Switch
  imports Stack_Memory Step_System
begin

text \<open>
  The coroutine layer (\<^verbatim>\<open>coro/Coroutine.h\<close>, \<^verbatim>\<open>coro/detail/Switch.h\<close>, \<^verbatim>\<open>coro/src/Lifecycle.cpp\<close>): contexts and
  threads, the switch with its arrival bookkeeping, \<^verbatim>\<open>resume\<close>, \<^verbatim>\<open>yield\<close>, the end of a body, and the
  destruction of a handle.  A saved \<^verbatim>\<open>fcontext\<close> is the place where the context goes on when somebody
  jumps to it; a switch is the departure of one context and the arrival of another.  A call that ends
  in \<^verbatim>\<open>fatal\<close> or in a failed assertion gives \<open>None\<close>.
\<close>

section \<open>Contexts and threads\<close>

datatype ctx = Native nat | Coro nat

datatype coState = Created | Running | Suspended | Done

text \<open>Where a context that is not running goes on.\<close>

datatype point = AtEntry | InYield | InResume ctx | InUnwind ctx | AfterFinish

record cblock =
  cb_fctx :: point
  cb_thread :: nat
  cb_resumer :: ctx
  cb_entry :: bool
  cb_stack :: stackView
  cb_postSwitch :: "nat option"
  cb_state :: coState
  cb_stopRequested :: bool
  cb_exception :: "nat option"
  cb_ehGlobals :: nat

text \<open>What the code around the switches can observe: an exception that a \<^verbatim>\<open>resume\<close> rethrows, and a
  post-switch hook run on behalf of a context.\<close>

datatype event = Threw ctx nat | HookRan nat ctx

text \<open>\<open>co_handles\<close> are the coroutines that exist, \<open>co_eh\<close> the caught-exception globals of every thread.\<close>

record coros =
  co_block :: "ctx \<Rightarrow> cblock"
  co_handles :: "nat list"
  co_current :: "nat \<Rightarrow> ctx"
  co_eh :: "nat \<Rightarrow> nat"
  co_released :: "stackView list"
  co_log :: "event list"

definition upd :: "coros \<Rightarrow> ctx \<Rightarrow> (cblock \<Rightarrow> cblock) \<Rightarrow> coros" where
  "upd st c f = st\<lparr>co_block := (co_block st)(c := f (co_block st c))\<rparr>"

section \<open>The switch\<close>

definition swapEhGlobals :: "coros \<Rightarrow> ctx \<Rightarrow> ctx \<Rightarrow> nat \<Rightarrow> coros" where
  "swapEhGlobals st prev self t =
     (let st1 = upd st prev (\<lambda>b. b\<lparr>cb_ehGlobals := co_eh st t\<rparr>) in
      st1\<lparr>co_eh := (co_eh st1)(t := cb_ehGlobals (co_block st1 self))\<rparr>)"

definition runHook :: "coros \<Rightarrow> ctx \<Rightarrow> coros" where
  "runHook st prev =
     (case cb_postSwitch (co_block st prev) of
        None \<Rightarrow> st
      | Some h \<Rightarrow> (upd st prev (\<lambda>b. b\<lparr>cb_postSwitch := None\<rparr>))\<lparr>co_log := co_log st @ [HookRan h prev]\<rparr>)"

text \<open>\<open>saved\<close> is where \<open>prev\<close> left, which the jump hands over with \<open>prev\<close> itself.\<close>

definition onArrival :: "coros \<Rightarrow> ctx \<Rightarrow> ctx \<Rightarrow> point \<Rightarrow> coros" where
  "onArrival st self prev saved =
     (let st1 = upd st prev (\<lambda>b. b\<lparr>cb_fctx := saved\<rparr>);
          t = cb_thread (co_block st1 prev);
          st2 = upd st1 self (\<lambda>b. b\<lparr>cb_thread := t\<rparr>)
      in runHook (swapEhGlobals st2 prev self t) prev)"

definition prepareDeparture :: "coros \<Rightarrow> ctx \<Rightarrow> ctx \<Rightarrow> coState \<Rightarrow> coros" where
  "prepareDeparture st from to s =
     upd (upd (st\<lparr>co_current := (co_current st)(cb_thread (co_block st from) := to)\<rparr>) from (\<lambda>b. b\<lparr>cb_state := s\<rparr>))
       to (\<lambda>b. b\<lparr>cb_state := Running\<rparr>)"

definition switchTo :: "coros \<Rightarrow> ctx \<Rightarrow> ctx \<Rightarrow> point \<Rightarrow> coros" where
  "switchTo st from to saved = onArrival (prepareDeparture st from to Suspended) to from saved"

definition finishAndSwitchTo :: "coros \<Rightarrow> ctx \<Rightarrow> ctx \<Rightarrow> coros" where
  "finishAndSwitchTo st from to = onArrival (prepareDeparture st from to Done) to from AfterFinish"

section \<open>Lifecycle\<close>

definition destroyEntry :: "coros \<Rightarrow> ctx \<Rightarrow> coros" where
  "destroyEntry st c = upd st c (\<lambda>b. b\<lparr>cb_entry := False\<rparr>)"

definition releaseStack :: "coros \<Rightarrow> nat \<Rightarrow> coros" where
  "releaseStack st b =
     st\<lparr>co_handles := remove1 b (co_handles st), co_released := cb_stack (co_block st (Coro b)) # co_released st\<rparr>"

text \<open>The code after the jump of the context that has just been switched to, up to the return to its
  caller: \<^verbatim>\<open>resume\<close> rethrows what escaped the body, \<^verbatim>\<open>destroyBlock\<close> releases the stack it has unwound.\<close>

definition continue_at :: "coros \<Rightarrow> ctx \<Rightarrow> coros option" where
  "continue_at st self =
     (case cb_fctx (co_block st self) of
        AtEntry \<Rightarrow> Some st
      | InYield \<Rightarrow> Some st
      | InResume c \<Rightarrow>
          (case cb_exception (co_block st c) of
             None \<Rightarrow> Some st
           | Some e \<Rightarrow> Some ((upd st c (\<lambda>b. b\<lparr>cb_exception := None\<rparr>))\<lparr>co_log := co_log st @ [Threw self e]\<rparr>))
      | InUnwind c \<Rightarrow>
          (case c of
             Native t \<Rightarrow> None
           | Coro b \<Rightarrow>
               if cb_state (co_block st c) \<noteq> Done then None
               else Some (releaseStack (upd st c (\<lambda>b. b\<lparr>cb_exception := None\<rparr>)) b))
      | AfterFinish \<Rightarrow> None)"

text \<open>The tail of \<^verbatim>\<open>contextEntry\<close>, for a body that returned or was forced to unwind (\<open>None\<close>) or that
  threw (\<open>Some e\<close>).\<close>

definition finishBody :: "coros \<Rightarrow> nat \<Rightarrow> nat option \<Rightarrow> coros option" where
  "finishBody st t exn =
     (let self = co_current st t in
      case self of
        Native _ \<Rightarrow> None
      | Coro _ \<Rightarrow>
          let st1 = destroyEntry (upd st self (\<lambda>b. b\<lparr>cb_exception := exn\<rparr>)) self;
              r = cb_resumer (co_block st1 self)
          in continue_at (finishAndSwitchTo st1 self r) r)"

definition unwindSuspended :: "coros \<Rightarrow> nat \<Rightarrow> nat \<Rightarrow> coros option" where
  "unwindSuspended st t b =
     (let from = co_current st t in
      if from = Coro b then None
      else Some (switchTo (upd st (Coro b) (\<lambda>c. c\<lparr>cb_resumer := from\<rparr>)) from (Coro b) (InUnwind (Coro b))))"

definition destroyBlock :: "coros \<Rightarrow> nat \<Rightarrow> nat \<Rightarrow> coros option" where
  "destroyBlock st t b =
     (case cb_state (co_block st (Coro b)) of
        Running \<Rightarrow> None
      | Suspended \<Rightarrow> unwindSuspended st t b
      | Created \<Rightarrow> Some (releaseStack (destroyEntry st (Coro b)) b)
      | Done \<Rightarrow> Some (releaseStack st b))"

section \<open>Handles\<close>

definition resume :: "coros \<Rightarrow> nat \<Rightarrow> nat \<Rightarrow> coros option" where
  "resume st t b =
     (if cb_state (co_block st (Coro b)) \<noteq> Created \<and> cb_state (co_block st (Coro b)) \<noteq> Suspended then None
      else let from = co_current st t in
        continue_at (switchTo (upd st (Coro b) (\<lambda>c. c\<lparr>cb_resumer := from\<rparr>)) from (Coro b) (InResume (Coro b))) (Coro b))"

definition yield :: "coros \<Rightarrow> nat \<Rightarrow> coros option" where
  "yield st t =
     (let self = co_current st t in
      if self = Native t then None
      else let r = cb_resumer (co_block st self) in continue_at (switchTo st self r InYield) r)"

definition requestStop :: "coros \<Rightarrow> nat \<Rightarrow> coros" where
  "requestStop st b = upd st (Coro b) (\<lambda>c. c\<lparr>cb_stopRequested := True\<rparr>)"

definition stopRequested :: "coros \<Rightarrow> nat \<Rightarrow> bool" where
  "stopRequested st t \<longleftrightarrow> cb_stopRequested (co_block st (co_current st t))"

definition isInsideCoroutine :: "coros \<Rightarrow> nat \<Rightarrow> bool" where
  "isInsideCoroutine st t \<longleftrightarrow> co_current st t \<noteq> Native t"

text \<open>\<open>ans\<close> is the answer of the allocator, \<open>b\<close> the identity of the new block.  A stack that is too small
  goes back at once.\<close>

definition makeCoroutine :: "coros \<Rightarrow> nat \<Rightarrow> alloc_error + stackView \<Rightarrow> u64 \<Rightarrow> u64 \<Rightarrow> u64 \<Rightarrow> u64 \<Rightarrow> (alloc_error + nat) \<times> coros" where
  "makeCoroutine st b ans entrySize entryAlign blockSize blockAlign =
     (case ans of
        Inl e \<Rightarrow> (Inl e, st)
      | Inr s \<Rightarrow>
          if \<not> ly_fits (carveStack s entrySize entryAlign blockSize blockAlign)
          then (Inl InvalidArgument, st\<lparr>co_released := s # co_released st\<rparr>)
          else (Inr b, (upd st (Coro b) (\<lambda>_. \<lparr>cb_fctx = AtEntry, cb_thread = 0, cb_resumer = Coro b, cb_entry = True, cb_stack = s,
                  cb_postSwitch = None, cb_state = Created, cb_stopRequested = False, cb_exception = None, cb_ehGlobals = 0\<rparr>))
                  \<lparr>co_handles := b # co_handles st\<rparr>))"

text \<open>\<^verbatim>\<open>createThreadState\<close>, on every thread.\<close>

definition freshThreads :: coros where
  "freshThreads =
     \<lparr>co_block = (\<lambda>c. \<lparr>cb_fctx = AtEntry, cb_thread = (case c of Native t \<Rightarrow> t | Coro _ \<Rightarrow> 0), cb_resumer = c, cb_entry = False,
        cb_stack = \<lparr>sv_base = 0, sv_size = 0\<rparr>, cb_postSwitch = None, cb_state = Running, cb_stopRequested = False, cb_exception = None, cb_ehGlobals = 0\<rparr>),
      co_handles = [], co_current = Native, co_eh = (\<lambda>_. 0), co_released = [], co_log = []\<rparr>"

section \<open>The effect of a switch\<close>

definition depart :: "coros \<Rightarrow> ctx \<Rightarrow> ctx \<Rightarrow> coState \<Rightarrow> point \<Rightarrow> coros" where
  "depart st from to s saved = onArrival (prepareDeparture st from to s) to from saved"

lemma depart_effect:
  fixes st :: coros and s :: coState and saved :: point
  assumes "from \<noteq> to"
  defines "t \<equiv> cb_thread (co_block st from)" and "st' \<equiv> depart st from to s saved"
  shows "co_block st' from = (co_block st from)\<lparr>cb_state := s, cb_fctx := saved, cb_ehGlobals := co_eh st t, cb_postSwitch := None\<rparr>"
    "co_block st' to = (co_block st to)\<lparr>cb_state := Running, cb_thread := t\<rparr>"
    "c \<noteq> from \<Longrightarrow> c \<noteq> to \<Longrightarrow> co_block st' c = co_block st c"
    "co_current st' = (co_current st)(t := to)" "co_eh st' = (co_eh st)(t := cb_ehGlobals (co_block st to))"
    "co_handles st' = co_handles st" "co_released st' = co_released st"
    "co_log st' = co_log st @ (case cb_postSwitch (co_block st from) of None \<Rightarrow> [] | Some h \<Rightarrow> [HookRan h from])"
  using assms(1) unfolding st'_def t_def
  by (auto simp: depart_def onArrival_def prepareDeparture_def runHook_def swapEhGlobals_def upd_def Let_def split: option.splits)

lemma switch_depart: "switchTo st from to saved = depart st from to Suspended saved" "finishAndSwitchTo st from to = depart st from to Done AfterFinish"
  by (simp_all add: switchTo_def finishAndSwitchTo_def depart_def)

lemma upd_simps [simp]:
  "co_block (upd st c f) = (co_block st)(c := f (co_block st c))" "co_handles (upd st c f) = co_handles st" "co_current (upd st c f) = co_current st"
  "co_eh (upd st c f) = co_eh st" "co_released (upd st c f) = co_released st" "co_log (upd st c f) = co_log st"
  by (simp_all add: upd_def)

section \<open>Calls that nest\<close>

text \<open>The abstract view: every thread has a stack of contexts, the running one first and its native one
  last, each waiting for the one above it; a coroutine is on one such stack or idle.\<close>

fun linked :: "coros \<Rightarrow> ctx list \<Rightarrow> bool" where
  "linked st (c # d # cs) \<longleftrightarrow> cb_resumer (co_block st c) = d \<and> cb_state (co_block st d) = Suspended
     \<and> (cb_fctx (co_block st d) = InResume c \<or> cb_fctx (co_block st d) = InUnwind c) \<and> linked st (d # cs)"
| "linked st _ \<longleftrightarrow> True"

definition waiting :: "(nat \<Rightarrow> ctx list) \<Rightarrow> ctx set" where
  "waiting K = (\<Union>t. set (K t))"

definition idle_ok :: "cblock \<Rightarrow> bool" where
  "idle_ok b \<longleftrightarrow> cb_state b = Created \<and> cb_fctx b = AtEntry \<or> cb_state b = Suspended \<and> cb_fctx b = InYield \<or> cb_state b = Done \<and> cb_fctx b = AfterFinish"

text \<open>One thread's stack.\<close>

definition calls_ok :: "coros \<Rightarrow> nat \<Rightarrow> ctx list \<Rightarrow> bool" where
  "calls_ok st t cs \<longleftrightarrow> cs \<noteq> [] \<and> co_current st t = hd cs \<and> last cs = Native t \<and> distinct cs \<and> linked st cs
     \<and> (\<forall>c\<in>set cs. c = Native t \<or> (\<exists>b\<in>set (co_handles st). c = Coro b))
     \<and> cb_state (co_block st (hd cs)) = Running \<and> cb_thread (co_block st (hd cs)) = t"

text \<open>A context at rest keeps its own caught-exception globals and has no hook left to run.\<close>

definition rest_ok :: "coros \<Rightarrow> (ctx \<Rightarrow> nat) \<Rightarrow> ctx \<Rightarrow> bool" where
  "rest_ok st eh c \<longleftrightarrow> cb_postSwitch (co_block st c) = None \<and> cb_ehGlobals (co_block st c) = eh c"

definition core_inv :: "coros \<Rightarrow> (nat \<Rightarrow> ctx list) \<Rightarrow> (ctx \<Rightarrow> nat) \<Rightarrow> bool" where
  "core_inv st K eh \<longleftrightarrow> (\<forall>t. calls_ok st t (K t)) \<and> (\<forall>t u. t \<noteq> u \<longrightarrow> set (K t) \<inter> set (K u) = {})
     \<and> (\<forall>b\<in>set (co_handles st). Coro b \<notin> waiting K \<longrightarrow> idle_ok (co_block st (Coro b)))
     \<and> (\<forall>c. c \<notin> range (co_current st) \<longrightarrow> (\<forall>b. c = Coro b \<longrightarrow> b \<in> set (co_handles st)) \<longrightarrow> rest_ok st eh c)
     \<and> (\<forall>t. co_eh st t = eh (co_current st t))"

lemma linked_frame: "(\<And>c. c \<in> set cs \<Longrightarrow> co_block st' c = co_block st c) \<Longrightarrow> linked st' cs = linked st cs"
  by (induction cs rule: induct_list012) auto

lemma calls_frame:
  "calls_ok st u cs \<Longrightarrow> (\<And>c. c \<in> set cs \<Longrightarrow> co_block st' c = co_block st c) \<Longrightarrow> co_current st' u = co_current st u \<Longrightarrow>
    co_handles st' = co_handles st \<Longrightarrow> calls_ok st' u cs"
  using linked_frame [of cs st' st] by (auto simp: calls_ok_def)

lemma core_current:
  assumes "core_inv st K eh"
  shows "co_current st t = hd (K t)" "hd (K t) \<in> set (K t)" "cb_thread (co_block st (hd (K t))) = t" "calls_ok st t (K t)"
proof -
  show c: "calls_ok st t (K t)" using assms by (simp add: core_inv_def)
  then show "co_current st t = hd (K t)" "hd (K t) \<in> set (K t)" "cb_thread (co_block st (hd (K t))) = t" by (simp_all add: calls_ok_def)
qed

lemma core_other:
  assumes "core_inv st K eh" "c \<in> set (K t)"
  shows "u \<noteq> t \<Longrightarrow> co_current st u \<noteq> c" "u \<noteq> t \<Longrightarrow> c \<notin> set (K u)"
proof -
  show n: "c \<notin> set (K u)" if "u \<noteq> t" using assms that unfolding core_inv_def by blast
  show "co_current st u \<noteq> c" if "u \<noteq> t" using n [OF that] core_current(1,2) [OF assms(1), of u] by metis
qed

text \<open>Entering an idle coroutine.\<close>

lemma push_law:
  fixes st :: coros and t :: nat
  assumes inv: "core_inv st K eh" and b: "b \<in> set (co_handles st)" "Coro b \<notin> waiting K"
    and p: "p = InResume (Coro b) \<or> p = InUnwind (Coro b)"
  defines "from \<equiv> co_current st t"
  defines "st' \<equiv> depart (upd st (Coro b) (\<lambda>c. c\<lparr>cb_resumer := from\<rparr>)) from (Coro b) Suspended p"
  shows "core_inv st' (K(t := Coro b # K t)) eh" "co_handles st' = co_handles st" "co_released st' = co_released st"
    "co_block st' (Coro b) = (co_block st (Coro b))\<lparr>cb_resumer := from, cb_state := Running, cb_thread := t\<rparr>"
    "c \<noteq> from \<Longrightarrow> c \<noteq> Coro b \<Longrightarrow> co_block st' c = co_block st c" "from \<noteq> Coro b"
    "cb_entry (co_block st' from) = cb_entry (co_block st from)" "cb_exception (co_block st' from) = cb_exception (co_block st from)"
    "cb_stack (co_block st' from) = cb_stack (co_block st from)" "cb_state (co_block st' from) = Suspended"
    "co_log st' = co_log st @ (case cb_postSwitch (co_block st from) of None \<Rightarrow> [] | Some h \<Rightarrow> [HookRan h from])" "co_current st' t = Coro b" "cb_fctx (co_block st' from) = p"
proof -
  have cur: "from = hd (K t)" "from \<in> set (K t)" "cb_thread (co_block st from) = t" using core_current [OF inv, of t] by (simp_all add: from_def)
  have notb: "Coro b \<notin> set (K u)" for u using b(2) by (auto simp: waiting_def)
  show ne: "from \<noteq> Coro b" using cur(2) notb by metis
  note d = depart_effect [OF ne, where st = "upd st (Coro b) (\<lambda>c. c\<lparr>cb_resumer := from\<rparr>)" and s = Suspended and saved = p, folded st'_def]
  have blocks: "co_block st' from = (co_block st from)\<lparr>cb_state := Suspended, cb_fctx := p, cb_ehGlobals := co_eh st t, cb_postSwitch := None\<rparr>"
    "co_block st' (Coro b) = (co_block st (Coro b))\<lparr>cb_resumer := from, cb_state := Running, cb_thread := t\<rparr>"
    "\<And>c. c \<noteq> from \<Longrightarrow> c \<noteq> Coro b \<Longrightarrow> co_block st' c = co_block st c"
    using d(1-3) ne cur(3) by simp_all
  have rest: "co_current st' = (co_current st)(t := Coro b)" "co_eh st' = (co_eh st)(t := cb_ehGlobals (co_block st (Coro b)))" "co_handles st' = co_handles st"
    using d(4-6) ne cur(3) by simp_all
  show "co_handles st' = co_handles st" "co_released st' = co_released st" "c \<noteq> from \<Longrightarrow> c \<noteq> Coro b \<Longrightarrow> co_block st' c = co_block st c"
    "co_block st' (Coro b) = (co_block st (Coro b))\<lparr>cb_resumer := from, cb_state := Running, cb_thread := t\<rparr>"
    "cb_entry (co_block st' from) = cb_entry (co_block st from)" "cb_exception (co_block st' from) = cb_exception (co_block st from)"
    "cb_stack (co_block st' from) = cb_stack (co_block st from)" "cb_state (co_block st' from) = Suspended" "co_current st' t = Coro b" "cb_fctx (co_block st' from) = p"
    using blocks rest d(7) by simp_all
  show "co_log st' = co_log st @ (case cb_postSwitch (co_block st from) of None \<Rightarrow> [] | Some h \<Rightarrow> [HookRan h from])" using d(8) ne by simp
  have Kt: "calls_ok st t (K t)" using inv by (simp add: core_inv_def)
  obtain cs where cs: "K t = from # cs" using Kt cur(1) by (cases "K t") (auto simp: calls_ok_def)
  have tail: "co_block st' c = co_block st c" if "c \<in> set cs" for c using that Kt notb [of t] cs by (intro blocks(3)) (auto simp: calls_ok_def)
  have "linked st' (from # cs)"
  proof (cases cs)
    case (Cons d ds)
    then have "linked st' (d # ds) = linked st (d # ds)" using tail by (intro linked_frame) auto
    then show ?thesis using Kt cs Cons blocks(1) tail [of d] by (simp add: calls_ok_def)
  qed simp
  then have "calls_ok st' t (Coro b # K t)" using Kt cs notb [of t] b(1) blocks(1,2) rest p by (auto simp: calls_ok_def)
  moreover have "calls_ok st' u (K u)" if "u \<noteq> t" for u
  proof (rule calls_frame [of st])
    show "calls_ok st u (K u)" using inv by (simp add: core_inv_def)
    show "co_block st' c = co_block st c" if "c \<in> set (K u)" for c
      using that notb [of u] core_other(2) [OF inv cur(2) \<open>u \<noteq> t\<close>] by (intro blocks(3)) auto
  qed (use that rest in auto)
  moreover have "rest_ok st' eh c" if "c \<notin> range (co_current st')" "\<forall>b. c = Coro b \<longrightarrow> b \<in> set (co_handles st)" for c
  proof -
    have away: "c \<noteq> co_current st' u" for u using that(1) by blast
    have nb: "c \<noteq> Coro b" using away [of t] rest(1) by simp
    show ?thesis
    proof (cases "c = from")
      case True
      then show ?thesis using inv blocks(1) by (simp add: rest_ok_def core_inv_def from_def)
    next
      case False
      have "c \<noteq> co_current st u" for u using away [of u] rest(1) False from_def by (cases "u = t") simp_all
      then have "c \<notin> range (co_current st)" by blast
      then show ?thesis using inv that(2) blocks(3) [OF False nb] by (simp add: rest_ok_def core_inv_def)
    qed
  qed
  moreover have "co_eh st' u = eh (co_current st' u)" for u
  proof (cases "u = t")
    case True
    have "Coro b \<noteq> co_current st u" for u using core_current(1,2) [OF inv, of u] notb [of u] by auto
    then have "Coro b \<notin> range (co_current st)" by blast
    then have "cb_ehGlobals (co_block st (Coro b)) = eh (Coro b)" using inv b(1) by (auto simp: core_inv_def rest_ok_def)
    then show ?thesis using rest True by simp
  next
    case False
    then show ?thesis using inv rest by (simp add: core_inv_def)
  qed
  moreover have "idle_ok (co_block st' (Coro a))" if "a \<in> set (co_handles st)" "Coro a \<notin> waiting (K(t := Coro b # K t))" for a
  proof -
    have w: "Coro a \<notin> waiting K" "a \<noteq> b" using that(2) by (auto simp: waiting_def split: if_splits)
    then have "Coro a \<noteq> from" using cur(2) by (auto simp: waiting_def)
    then show ?thesis using inv that(1) w blocks(3) [of "Coro a"] by (simp add: core_inv_def)
  qed
  moreover have "set ((K(t := Coro b # K t)) u) \<inter> set ((K(t := Coro b # K t)) v) = {}" if "u \<noteq> v" for u v
    using that inv notb by (auto simp: core_inv_def)
  ultimately show "core_inv st' (K(t := Coro b # K t)) eh" using rest(3) by (auto simp: core_inv_def)
qed

text \<open>Going back to the context below.\<close>

lemma pop_law:
  fixes st :: coros and t :: nat
  assumes inv: "core_inv st K eh" and k: "K t = Coro b # d # cs" and s: "s = Suspended \<and> saved = InYield \<or> s = Done \<and> saved = AfterFinish"
  defines "st' \<equiv> depart st (Coro b) d s saved"
  shows "core_inv st' (K(t := d # cs)) eh" "co_handles st' = co_handles st" "co_released st' = co_released st"
    "co_block st' (Coro b) = (co_block st (Coro b))\<lparr>cb_state := s, cb_fctx := saved, cb_ehGlobals := co_eh st t, cb_postSwitch := None\<rparr>"
    "co_block st' d = (co_block st d)\<lparr>cb_state := Running, cb_thread := t\<rparr>"
    "c \<noteq> Coro b \<Longrightarrow> c \<noteq> d \<Longrightarrow> co_block st' c = co_block st c" "d \<noteq> Coro b" "b \<in> set (co_handles st)"
    "co_log st' = co_log st @ (case cb_postSwitch (co_block st (Coro b)) of None \<Rightarrow> [] | Some h \<Rightarrow> [HookRan h (Coro b)])"
    "co_current st t = Coro b" "cb_resumer (co_block st (Coro b)) = d" "cb_fctx (co_block st d) = InResume (Coro b) \<or> cb_fctx (co_block st d) = InUnwind (Coro b)"
    "co_current st' t = d" "cb_state (co_block st d) = Suspended"
proof -
  note Kt = core_current(4) [OF inv, of t, unfolded k]
  show cur: "co_current st t = Coro b" and r: "cb_resumer (co_block st (Coro b)) = d" and b: "b \<in> set (co_handles st)"
    and "cb_fctx (co_block st d) = InResume (Coro b) \<or> cb_fctx (co_block st d) = InUnwind (Coro b)" "cb_state (co_block st d) = Suspended"
    and ne: "d \<noteq> Coro b" using Kt by (auto simp: calls_ok_def)
  have th: "cb_thread (co_block st (Coro b)) = t" using Kt by (simp add: calls_ok_def)
  note e = depart_effect [OF ne [symmetric], where st = st and s = s and saved = saved, folded st'_def, unfolded th]
  show "co_handles st' = co_handles st" "co_released st' = co_released st"
    "co_block st' (Coro b) = (co_block st (Coro b))\<lparr>cb_state := s, cb_fctx := saved, cb_ehGlobals := co_eh st t, cb_postSwitch := None\<rparr>"
    "co_block st' d = (co_block st d)\<lparr>cb_state := Running, cb_thread := t\<rparr>" "c \<noteq> Coro b \<Longrightarrow> c \<noteq> d \<Longrightarrow> co_block st' c = co_block st c"
    "co_log st' = co_log st @ (case cb_postSwitch (co_block st (Coro b)) of None \<Rightarrow> [] | Some h \<Rightarrow> [HookRan h (Coro b)])" "co_current st' t = d"
    using e by simp_all
  have inK: "Coro b \<in> set (K t)" "d \<in> set (K t)" using k by simp_all
  have tail: "co_block st' c = co_block st c" if "c \<in> set cs" for c using that Kt by (intro e(3)) (auto simp: calls_ok_def)
  have "linked st' (d # cs)"
  proof (cases cs)
    case (Cons f fs)
    then have "linked st' (f # fs) = linked st (f # fs)" using tail by (intro linked_frame) auto
    then show ?thesis using Kt Cons e(2) tail [of f] by (simp add: calls_ok_def)
  qed simp
  then have "calls_ok st' t (d # cs)" using Kt e(2,4,6) by (auto simp: calls_ok_def)
  moreover have "calls_ok st' u (K u)" if "u \<noteq> t" for u
  proof (rule calls_frame [OF core_current(4) [OF inv]])
    show "co_block st' c = co_block st c" if "c \<in> set (K u)" for c
      using that core_other(2) [OF inv inK(1) \<open>u \<noteq> t\<close>] core_other(2) [OF inv inK(2) \<open>u \<noteq> t\<close>] by (intro e(3)) auto
  qed (use that e in auto)
  moreover have "rest_ok st' eh c" if "c \<notin> range (co_current st')" "\<forall>b. c = Coro b \<longrightarrow> b \<in> set (co_handles st)" for c
  proof -
    have away: "c \<noteq> co_current st' u" for u using that(1) by blast
    have nd: "c \<noteq> d" using away [of t] e(4) by simp
    show ?thesis
    proof (cases "c = Coro b")
      case True
      then show ?thesis using inv e(1) cur by (simp add: rest_ok_def core_inv_def)
    next
      case False
      have "c \<noteq> co_current st u" for u using away [of u] e(4) False cur by (cases "u = t") simp_all
      then have "c \<notin> range (co_current st)" by blast
      then show ?thesis using inv that(2) e(3) [OF False nd] by (simp add: rest_ok_def core_inv_def)
    qed
  qed
  moreover have "co_eh st' u = eh (co_current st' u)" for u
  proof (cases "u = t")
    case True
    have "d \<noteq> co_current st v" for v using core_other(1) [OF inv inK(2), of v] cur ne by (cases "v = t") auto
    then have "d \<notin> range (co_current st)" by blast
    moreover have "\<forall>b. d = Coro b \<longrightarrow> b \<in> set (co_handles st)" using Kt by (auto simp: calls_ok_def)
    ultimately have "cb_ehGlobals (co_block st d) = eh d" using inv by (simp add: core_inv_def rest_ok_def)
    then show ?thesis using e(4,5) True by simp
  next
    case False
    then show ?thesis using inv e(4,5) by (simp add: core_inv_def)
  qed
  moreover have "idle_ok (co_block st' (Coro a))" if "a \<in> set (co_handles st)" "Coro a \<notin> waiting (K(t := d # cs))" for a
  proof (cases "a = b")
    case True
    then show ?thesis using e(1) s by (auto simp: idle_ok_def)
  next
    case False
    have w: "Coro a \<notin> set ((K(t := d # cs)) u)" for u using that(2) by (auto simp: waiting_def)
    have "Coro a \<notin> set (K u)" for u using w [of u] False k by (cases "u = t") auto
    then have "Coro a \<notin> waiting K" by (auto simp: waiting_def)
    moreover have "Coro a \<noteq> d" using w [of t] by auto
    ultimately show ?thesis using inv that(1) e(3) [of "Coro a"] False by (simp add: core_inv_def)
  qed
  moreover have "set ((K(t := d # cs)) u) \<inter> set ((K(t := d # cs)) v) = {}" if "u \<noteq> v" for u v
  proof -
    have "set ((K(t := d # cs)) w) \<subseteq> set (K w)" for w using k by auto
    moreover have "set (K u) \<inter> set (K v) = {}" using inv that unfolding core_inv_def by blast
    ultimately show ?thesis by blast
  qed
  ultimately show "core_inv st' (K(t := d # cs)) eh" using e(6) by (auto simp: core_inv_def)
qed

text \<open>The invariant says nothing of the body, its exception and its stack.\<close>

lemma core_frame:
  assumes inv: "core_inv st K eh"
    and same: "\<And>c. cb_fctx (co_block st' c) = cb_fctx (co_block st c) \<and> cb_thread (co_block st' c) = cb_thread (co_block st c) \<and> cb_resumer (co_block st' c) = cb_resumer (co_block st c)
      \<and> cb_postSwitch (co_block st' c) = cb_postSwitch (co_block st c) \<and> cb_state (co_block st' c) = cb_state (co_block st c) \<and> cb_ehGlobals (co_block st' c) = cb_ehGlobals (co_block st c)"
    and env: "co_current st' = co_current st" "co_eh st' = co_eh st"
    and h: "set (co_handles st') \<subseteq> set (co_handles st)" "\<And>b. Coro b \<in> waiting K \<Longrightarrow> b \<in> set (co_handles st) \<Longrightarrow> b \<in> set (co_handles st')"
  shows "core_inv st' K eh"
proof -
  have l: "linked st' cs = linked st cs" for cs by (induction cs rule: induct_list012) (use same in auto)
  have "calls_ok st' t (K t)" for t
  proof -
    note k = core_current(4) [OF inv, of t]
    have "c = Native t \<or> (\<exists>b\<in>set (co_handles st'). c = Coro b)" if "c \<in> set (K t)" for c
      using k that h(2) by (fastforce simp: calls_ok_def waiting_def)
    then show ?thesis using k same env l by (simp add: calls_ok_def)
  qed
  moreover have "idle_ok (co_block st' c) = idle_ok (co_block st c)" "rest_ok st' eh c = rest_ok st eh c" for c
    using same [of c] by (simp_all add: idle_ok_def rest_ok_def)
  moreover have "\<forall>b. c = Coro b \<longrightarrow> b \<in> set (co_handles st)" if "\<forall>b. c = Coro b \<longrightarrow> b \<in> set (co_handles st')" for c using that h(1) by auto
  ultimately show ?thesis using inv env h(1) unfolding core_inv_def by (simp add: subset_iff)
qed

lemma core_release:
  assumes inv: "core_inv st K eh" and b: "Coro b \<notin> waiting K"
  shows "core_inv (releaseStack st b) K eh"
proof (rule core_frame [OF inv])
  show "set (co_handles (releaseStack st b)) \<subseteq> set (co_handles st)" using set_remove1_subset [of b "co_handles st"] by (simp add: releaseStack_def)
  show "c \<in> set (co_handles (releaseStack st b))" if "Coro c \<in> waiting K" "c \<in> set (co_handles st)" for c
  proof -
    have "c \<noteq> b" using that(1) b by auto
    then show ?thesis using that(2) by (simp add: releaseStack_def in_set_remove1)
  qed
qed (simp_all add: releaseStack_def)

section \<open>Coroutines in use\<close>

record cosys =
  cs_co :: coros
  cs_calls :: "nat \<Rightarrow> ctx list"
  cs_ehOf :: "ctx \<Rightarrow> nat"
  cs_obtained :: "stackView list"

text \<open>The body object is there until the coroutine is done; no exception stays behind; a stack belongs to
  one coroutine or has been given back.\<close>

definition bodies_ok :: "coros \<Rightarrow> bool" where
  "bodies_ok st \<longleftrightarrow> (\<forall>b\<in>set (co_handles st). (cb_entry (co_block st (Coro b)) \<longleftrightarrow> cb_state (co_block st (Coro b)) \<noteq> Done)
     \<and> cb_exception (co_block st (Coro b)) = None)"

definition accounted :: "coros \<Rightarrow> stackView list \<Rightarrow> bool" where
  "accounted st obtained \<longleftrightarrow> distinct (co_handles st)
     \<and> mset obtained = mset (map (\<lambda>b. cb_stack (co_block st (Coro b))) (co_handles st)) + mset (co_released st)"

definition co_inv :: "cosys \<Rightarrow> bool" where
  "co_inv s \<longleftrightarrow> core_inv (cs_co s) (cs_calls s) (cs_ehOf s) \<and> bodies_ok (cs_co s) \<and> accounted (cs_co s) (cs_obtained s)"

lemma accounted_frame:
  "accounted st obtained \<Longrightarrow> (\<And>b. b \<in> set (co_handles st) \<Longrightarrow> cb_stack (co_block st' (Coro b)) = cb_stack (co_block st (Coro b))) \<Longrightarrow>
    co_handles st' = co_handles st \<Longrightarrow> co_released st' = co_released st \<Longrightarrow> accounted st' obtained"
proof -
  assume a: "accounted st obtained" "\<And>b. b \<in> set (co_handles st) \<Longrightarrow> cb_stack (co_block st' (Coro b)) = cb_stack (co_block st (Coro b))"
    "co_handles st' = co_handles st" "co_released st' = co_released st"
  have "mset (map (\<lambda>b. cb_stack (co_block st' (Coro b))) (co_handles st)) = mset (map (\<lambda>b. cb_stack (co_block st (Coro b))) (co_handles st))"
    by (rule arg_cong [where f = mset]) (use a(2) in simp)
  then show "accounted st' obtained" using a(1,3,4) unfolding accounted_def by simp
qed

lemma accounted_release:
  assumes "accounted st obtained" "b \<in> set (co_handles st)"
  shows "accounted (releaseStack st b) obtained"
proof -
  let ?g = "\<lambda>b. cb_stack (co_block st (Coro b))"
  have m: "mset (co_handles st) = add_mset b (mset (remove1 b (co_handles st)))" using assms(2) by (simp add: insert_DiffM)
  have "mset (map ?g (co_handles st)) = add_mset (?g b) (mset (map ?g (remove1 b (co_handles st))))" by (subst mset_map, subst m) simp
  then show ?thesis using assms(1) by (simp add: accounted_def releaseStack_def)
qed

lemma bodies_release: "bodies_ok st \<Longrightarrow> bodies_ok (releaseStack st b)"
  using set_remove1_subset [of b "co_handles st"] by (auto simp: bodies_ok_def releaseStack_def)

lemma co_push:
  fixes t :: nat
  assumes inv: "co_inv s" and b: "b \<in> set (co_handles (cs_co s))" "Coro b \<notin> waiting (cs_calls s)" "cb_state (co_block (cs_co s) (Coro b)) \<noteq> Done"
    and p: "p = InResume (Coro b) \<or> p = InUnwind (Coro b)"
  defines "from \<equiv> co_current (cs_co s) t"
  defines "st' \<equiv> depart (upd (cs_co s) (Coro b) (\<lambda>c. c\<lparr>cb_resumer := from\<rparr>)) from (Coro b) Suspended p"
  shows "co_inv (s\<lparr>cs_co := st', cs_calls := (cs_calls s)(t := Coro b # cs_calls s t)\<rparr>)"
proof -
  let ?st = "cs_co s"
  have core: "core_inv ?st (cs_calls s) (cs_ehOf s)" using inv by (simp add: co_inv_def)
  note pl = push_law [OF core b(1,2) p, where t = t, folded from_def, folded st'_def]
  have same: "cb_entry (co_block st' c) = cb_entry (co_block ?st c)" "cb_exception (co_block st' c) = cb_exception (co_block ?st c)"
    "cb_stack (co_block st' c) = cb_stack (co_block ?st c)" "(cb_state (co_block st' c) = Done) = (cb_state (co_block ?st c) = Done)" for c
  proof -
    have "cb_state (co_block ?st from) = Running" using core_current [OF core, of t] by (simp add: from_def calls_ok_def)
    then show "cb_entry (co_block st' c) = cb_entry (co_block ?st c)" "cb_exception (co_block st' c) = cb_exception (co_block ?st c)"
      "cb_stack (co_block st' c) = cb_stack (co_block ?st c)" "(cb_state (co_block st' c) = Done) = (cb_state (co_block ?st c) = Done)"
      using pl(4-10) b(3) by (cases "c = Coro b"; cases "c = from"; simp)+
  qed
  have "bodies_ok st'" using inv same pl(2) by (simp add: co_inv_def bodies_ok_def)
  moreover have "accounted st' (cs_obtained s)" using inv same(3) pl(2,3) by (auto simp: co_inv_def intro: accounted_frame)
  ultimately show ?thesis using pl(1) by (simp add: co_inv_def)
qed

lemma resume_law:
  assumes inv: "co_inv s" and b: "b \<in> set (co_handles (cs_co s))" "Coro b \<notin> waiting (cs_calls s)"
    "cb_state (co_block (cs_co s) (Coro b)) = Created \<or> cb_state (co_block (cs_co s) (Coro b)) = Suspended"
  shows "\<exists>st'. resume (cs_co s) t b = Some st' \<and> co_inv (s\<lparr>cs_co := st', cs_calls := (cs_calls s)(t := Coro b # cs_calls s t)\<rparr>)
    \<and> co_current st' t = Coro b \<and> cb_fctx (co_block st' (co_current (cs_co s) t)) = InResume (Coro b)"
proof -
  let ?st = "cs_co s" and ?from = "co_current (cs_co s) t"
  let ?st' = "depart (upd ?st (Coro b) (\<lambda>c. c\<lparr>cb_resumer := ?from\<rparr>)) ?from (Coro b) Suspended (InResume (Coro b))"
  have core: "core_inv ?st (cs_calls s) (cs_ehOf s)" using inv by (simp add: co_inv_def)
  note pl = push_law [OF core b(1,2) disjI1 [OF refl], where t = t]
  have "idle_ok (co_block ?st (Coro b))" using core b(1,2) by (simp add: core_inv_def)
  then have "cb_fctx (co_block ?st' (Coro b)) = AtEntry \<or> cb_fctx (co_block ?st' (Coro b)) = InYield" using b(3) pl(4) by (auto simp: idle_ok_def)
  then have "continue_at ?st' (Coro b) = Some ?st'" by (auto simp: continue_at_def)
  moreover have "resume ?st t b = continue_at ?st' (Coro b)" using b(3) by (auto simp: resume_def switch_depart Let_def)
  moreover have "cb_state (co_block ?st (Coro b)) \<noteq> Done" using b(3) by auto
  note co_push [OF inv b(1,2) this disjI1 [OF refl], where t = t]
  ultimately show ?thesis using pl(12,13) by auto
qed

text \<open>A coroutine that is not on top of a stack, or that is being unwound, does not yield.\<close>

lemma yield_law:
  assumes inv: "co_inv s" and k: "cs_calls s t = Coro b # d # cs" and r: "cb_fctx (co_block (cs_co s) d) = InResume (Coro b)"
  shows "\<exists>st'. yield (cs_co s) t = Some st' \<and> co_inv (s\<lparr>cs_co := st', cs_calls := (cs_calls s)(t := d # cs)\<rparr>)
    \<and> co_current st' t = d \<and> cb_state (co_block st' (Coro b)) = Suspended"
proof -
  let ?st = "cs_co s"
  let ?st' = "depart ?st (Coro b) d Suspended InYield"
  have core: "core_inv ?st (cs_calls s) (cs_ehOf s)" using inv by (simp add: co_inv_def)
  note pl = pop_law [OF core k, of Suspended InYield, simplified]
  have ex: "cb_exception (co_block ?st (Coro b)) = None" "cb_entry (co_block ?st (Coro b))"
    using inv pl(8) core_current [OF core, of t] k by (auto simp: co_inv_def bodies_ok_def calls_ok_def)
  have same: "cb_entry (co_block ?st' c) = cb_entry (co_block ?st c)" "cb_exception (co_block ?st' c) = cb_exception (co_block ?st c)"
    "cb_stack (co_block ?st' c) = cb_stack (co_block ?st c)" "c \<noteq> Coro b \<Longrightarrow> (cb_state (co_block ?st' c) = Done) = (cb_state (co_block ?st c) = Done)" for c
    using pl(4-7,14) by (cases "c = Coro b"; cases "c = d"; simp)+
  have "continue_at ?st' d = Some ?st'" using r pl(4,5) ex(1) by (simp add: continue_at_def)
  moreover have "yield ?st t = continue_at ?st' d" using pl(10,11) by (simp add: yield_def Let_def switch_depart)
  moreover have "bodies_ok ?st'"
    unfolding bodies_ok_def pl(2)
  proof (intro ballI)
    fix a assume a: "a \<in> set (co_handles ?st)"
    then have "cb_exception (co_block ?st (Coro a)) = None" "cb_entry (co_block ?st (Coro a)) \<longleftrightarrow> cb_state (co_block ?st (Coro a)) \<noteq> Done"
      using inv by (auto simp: co_inv_def bodies_ok_def)
    then show "(cb_entry (co_block ?st' (Coro a)) \<longleftrightarrow> cb_state (co_block ?st' (Coro a)) \<noteq> Done) \<and> cb_exception (co_block ?st' (Coro a)) = None"
      using same [of "Coro a"] ex(2) pl(4) by (cases "a = b") simp_all
  qed
  moreover have "accounted ?st' (cs_obtained s)" using inv same(3) pl(2,3) by (auto simp: co_inv_def intro: accounted_frame)
  ultimately show ?thesis using pl(1,4,13) by (simp add: co_inv_def)
qed

lemma finish_law:
  assumes inv: "co_inv s" and k: "cs_calls s t = Coro b # d # cs"
  defines "st \<equiv> cs_co s"
  shows "\<exists>st'. finishBody st t exn = Some st' \<and> co_inv (s\<lparr>cs_co := st', cs_calls := (cs_calls s)(t := d # cs)\<rparr>) \<and> co_current st' t = d
    \<and> (cb_fctx (co_block st d) = InResume (Coro b) \<longrightarrow> b \<in> set (co_handles st') \<and> cb_state (co_block st' (Coro b)) = Done
         \<and> co_log st' = co_log st @ (case cb_postSwitch (co_block st (Coro b)) of None \<Rightarrow> [] | Some h \<Rightarrow> [HookRan h (Coro b)])
             @ (case exn of None \<Rightarrow> [] | Some e \<Rightarrow> [Threw d e]))
    \<and> (cb_fctx (co_block st d) = InUnwind (Coro b) \<longrightarrow> co_handles st' = remove1 b (co_handles st) \<and> co_released st' = cb_stack (co_block st (Coro b)) # co_released st)"
proof -
  let ?st1 = "destroyEntry (upd st (Coro b) (\<lambda>c. c\<lparr>cb_exception := exn\<rparr>)) (Coro b)"
  let ?st2 = "depart ?st1 (Coro b) d Done AfterFinish"
  have "core_inv st (cs_calls s) (cs_ehOf s)" using inv by (simp add: co_inv_def st_def)
  then have core: "core_inv ?st1 (cs_calls s) (cs_ehOf s)" by (rule core_frame) (auto simp: destroyEntry_def)
  note pl = pop_law [OF core k, of Done AfterFinish, simplified]
  note core2 = pl(1)
  have h: "co_handles ?st1 = co_handles st" "co_released ?st1 = co_released st" "co_log ?st1 = co_log st" "co_current ?st1 = co_current st"
    "co_block ?st1 (Coro b) = (co_block st (Coro b))\<lparr>cb_exception := exn, cb_entry := False\<rparr>" "\<And>c. c \<noteq> Coro b \<Longrightarrow> co_block ?st1 c = co_block st c"
    by (simp_all add: destroyEntry_def)
  have b: "b \<in> set (co_handles st)" using pl(8) h(1) by simp
  have bodies: "bodies_ok st" "accounted st (cs_obtained s)" using inv by (simp_all add: co_inv_def st_def)
  have others: "cb_entry (co_block ?st2 (Coro a)) \<longleftrightarrow> cb_state (co_block ?st2 (Coro a)) \<noteq> Done" "cb_exception (co_block ?st2 (Coro a)) = (if a = b then exn else None)"
    "cb_stack (co_block ?st2 (Coro a)) = cb_stack (co_block st (Coro a))" if "a \<in> set (co_handles st)" for a
  proof -
    have o: "cb_exception (co_block st (Coro a)) = None" "cb_entry (co_block st (Coro a)) \<longleftrightarrow> cb_state (co_block st (Coro a)) \<noteq> Done"
      using bodies(1) that by (auto simp: bodies_ok_def)
    have "a = b \<or> Coro a = d \<and> a \<noteq> b \<or> Coro a \<noteq> Coro b \<and> Coro a \<noteq> d" by auto
    then show "cb_entry (co_block ?st2 (Coro a)) \<longleftrightarrow> cb_state (co_block ?st2 (Coro a)) \<noteq> Done" "cb_exception (co_block ?st2 (Coro a)) = (if a = b then exn else None)"
      "cb_stack (co_block ?st2 (Coro a)) = cb_stack (co_block st (Coro a))"
      using o pl(4-7,14) h(5,6) by auto
  qed
  let ?st3 = "upd ?st2 (Coro b) (\<lambda>c. c\<lparr>cb_exception := None\<rparr>)"
  have core3: "core_inv ?st3 ((cs_calls s)(t := d # cs)) (cs_ehOf s)" by (rule core_frame [OF core2]) auto
  have b3: "bodies_ok ?st3" using others pl(2) h(1) by (auto simp: bodies_ok_def)
  have a3: "accounted ?st3 (cs_obtained s)" by (rule accounted_frame [OF bodies(2)]) (use others(3) pl(2,3) h(1,2) in auto)
  have fin: "finishBody st t exn = continue_at ?st2 d"
    using pl(10,11) h(4) by (simp add: finishBody_def Let_def switch_depart)
  have fctx: "cb_fctx (co_block ?st2 d) = cb_fctx (co_block st d)" "cb_state (co_block ?st2 (Coro b)) = Done" "cb_exception (co_block ?st2 (Coro b)) = exn"
    using pl(4,5,7) h(5,6) by simp_all
  have log2: "co_log ?st2 = co_log st @ (case cb_postSwitch (co_block st (Coro b)) of None \<Rightarrow> [] | Some h \<Rightarrow> [HookRan h (Coro b)])"
    using pl(9) h(3,5) by simp
  consider (res) "cb_fctx (co_block st d) = InResume (Coro b)" | (unw) "cb_fctx (co_block st d) = InUnwind (Coro b)" using pl(7,12) h(6) by metis
  then show ?thesis
  proof cases
    case res
    let ?st' = "case exn of None \<Rightarrow> ?st2 | Some e \<Rightarrow> ?st3\<lparr>co_log := co_log ?st2 @ [Threw d e]\<rparr>"
    have "continue_at ?st2 d = Some ?st'" using res fctx by (simp add: continue_at_def split: option.splits)
    moreover have "core_inv ?st' ((cs_calls s)(t := d # cs)) (cs_ehOf s)" by (rule core_frame [OF core2]) (auto split: option.splits)
    moreover have "bodies_ok ?st'" using b3 others pl(2) h(1) by (auto simp: bodies_ok_def split: option.splits)
    moreover have "accounted ?st' (cs_obtained s)" by (rule accounted_frame [OF a3]) (auto split: option.splits)
    moreover have "co_current ?st' t = d" "b \<in> set (co_handles ?st')" "cb_state (co_block ?st' (Coro b)) = Done"
      using pl(2,13) fctx(2) b h(1) by (auto split: option.splits)
    moreover have "co_log ?st' = co_log st @ (case cb_postSwitch (co_block st (Coro b)) of None \<Rightarrow> [] | Some h \<Rightarrow> [HookRan h (Coro b)])
        @ (case exn of None \<Rightarrow> [] | Some e \<Rightarrow> [Threw d e])" using log2 by (cases exn) simp_all
    ultimately show ?thesis using fin res by (simp add: co_inv_def)
  next
    case unw
    let ?st' = "releaseStack ?st3 b"
    have "continue_at ?st2 d = Some ?st'" using unw fctx by (simp add: continue_at_def)
    moreover have "core_inv ?st' ((cs_calls s)(t := d # cs)) (cs_ehOf s)"
    proof (rule core_release [OF core3])
      show "Coro b \<notin> waiting ((cs_calls s)(t := d # cs))"
        using core_current(4) [OF core, of t] core_other(2) [OF core, of "Coro b" t] k by (auto simp: waiting_def calls_ok_def)
    qed
    moreover have "bodies_ok ?st'" by (rule bodies_release [OF b3])
    moreover have "accounted ?st' (cs_obtained s)" using accounted_release [OF a3] b pl(2) h(1) by simp
    moreover have "co_current ?st' t = d" "co_handles ?st' = remove1 b (co_handles st)" "co_released ?st' = cb_stack (co_block st (Coro b)) # co_released st"
      using pl(2,3,4,13) h by (simp_all add: releaseStack_def)
    ultimately show ?thesis using fin unw by (simp add: co_inv_def)
  qed
qed

lemma destroy_law:
  assumes inv: "co_inv s" and b: "b \<in> set (co_handles (cs_co s))" "Coro b \<notin> waiting (cs_calls s)"
  shows "\<exists>st'. destroyBlock (cs_co s) t b = Some st' \<and>
    (if cb_state (co_block (cs_co s) (Coro b)) = Suspended
     then co_inv (s\<lparr>cs_co := st', cs_calls := (cs_calls s)(t := Coro b # cs_calls s t)\<rparr>) \<and> co_current st' t = Coro b
     else co_inv (s\<lparr>cs_co := st'\<rparr>) \<and> co_handles st' = remove1 b (co_handles (cs_co s))
       \<and> co_released st' = cb_stack (co_block (cs_co s) (Coro b)) # co_released (cs_co s))"
proof -
  let ?st = "cs_co s"
  have core: "core_inv ?st (cs_calls s) (cs_ehOf s)" and bodies: "bodies_ok ?st" "accounted ?st (cs_obtained s)" using inv by (simp_all add: co_inv_def)
  have idle: "idle_ok (co_block ?st (Coro b))" using core b by (simp add: core_inv_def)
  show ?thesis
  proof (cases "cb_state (co_block ?st (Coro b)) = Suspended")
    case True
    then have nd: "cb_state (co_block ?st (Coro b)) \<noteq> Done" by simp
    let ?st' = "depart (upd ?st (Coro b) (\<lambda>c. c\<lparr>cb_resumer := co_current ?st t\<rparr>)) (co_current ?st t) (Coro b) Suspended (InUnwind (Coro b))"
    note pl = push_law [OF core b disjI2 [OF refl], where t = t]
    have "destroyBlock ?st t b = Some ?st'" using True pl(6) by (simp add: destroyBlock_def unwindSuspended_def Let_def switch_depart)
    then show ?thesis using True co_push [OF inv b nd disjI2 [OF refl], where t = t] pl(12) by simp
  next
    case False
    define st1 where "st1 = upd ?st (Coro b) (\<lambda>c. c\<lparr>cb_entry := False\<rparr>)"
    have e: "cb_state (co_block ?st (Coro b)) = Done \<Longrightarrow> (co_block ?st (Coro b))\<lparr>cb_entry := False\<rparr> = co_block ?st (Coro b)"
      using bodies(1) b(1) by (simp add: bodies_ok_def)
    have "destroyBlock ?st t b = Some (releaseStack st1 b)"
    proof (cases "cb_state (co_block ?st (Coro b)) = Done")
      case True
      then have "st1 = ?st" using e [OF True] by (simp add: st1_def upd_def fun_upd_idem)
      then show ?thesis using True by (simp add: destroyBlock_def)
    next
      case F: False
      then have "cb_state (co_block ?st (Coro b)) = Created" using idle False by (auto simp: idle_ok_def)
      then show ?thesis by (simp add: destroyBlock_def destroyEntry_def st1_def)
    qed
    moreover have "core_inv st1 (cs_calls s) (cs_ehOf s)" by (rule core_frame [OF core]) (auto simp: st1_def)
    then have "core_inv (releaseStack st1 b) (cs_calls s) (cs_ehOf s)" using b(2) by (rule core_release)
    moreover have d: "distinct (co_handles ?st)" using bodies(2) by (simp add: accounted_def)
    then have "bodies_ok (releaseStack st1 b)" using bodies(1) by (auto simp: bodies_ok_def st1_def releaseStack_def)
    moreover have "accounted st1 (cs_obtained s)" by (rule accounted_frame [OF bodies(2)]) (auto simp: st1_def)
    from accounted_release [OF this, of b] have "accounted (releaseStack st1 b) (cs_obtained s)" using b(1) by (simp add: st1_def)
    moreover have "co_handles (releaseStack st1 b) = remove1 b (co_handles ?st)" "co_released (releaseStack st1 b) = cb_stack (co_block ?st (Coro b)) # co_released ?st"
      by (simp_all add: releaseStack_def st1_def)
    ultimately show ?thesis using False by (simp add: co_inv_def)
  qed
qed

lemma make_law:
  assumes inv: "co_inv s" and b: "b \<notin> set (co_handles (cs_co s))" and r: "makeCoroutine (cs_co s) b ans es ea bs ba = (res, st')"
  shows "co_inv (s\<lparr>cs_co := st', cs_ehOf := (if res = Inr b then (cs_ehOf s)(Coro b := 0) else cs_ehOf s),
    cs_obtained := (case ans of Inl _ \<Rightarrow> [] | Inr v \<Rightarrow> [v]) @ cs_obtained s\<rparr>)"
proof -
  let ?st = "cs_co s"
  have core: "core_inv ?st (cs_calls s) (cs_ehOf s)" and bodies: "bodies_ok ?st" "accounted ?st (cs_obtained s)" using inv by (simp_all add: co_inv_def)
  have nw: "Coro b \<notin> set (cs_calls s t)" for t using core_current(4) [OF core, of t] b by (auto simp: calls_ok_def)
  consider (err) e where "ans = Inl e" "st' = ?st" "res = Inl e" | (small) v where "ans = Inr v" "st' = ?st\<lparr>co_released := v # co_released ?st\<rparr>" "res = Inl InvalidArgument"
    | (ok) v blk where "ans = Inr v" "res = Inr b" "st' = (upd ?st (Coro b) (\<lambda>_. blk))\<lparr>co_handles := b # co_handles ?st\<rparr>" "cb_stack blk = v" "cb_entry blk"
        "cb_state blk = Created" "cb_fctx blk = AtEntry" "cb_exception blk = None" "cb_postSwitch blk = None" "cb_ehGlobals blk = 0"
    using r by (auto simp: makeCoroutine_def split: sum.splits if_splits)
  then show ?thesis
  proof cases
    case err
    then show ?thesis using inv by (simp add: co_inv_def)
  next
    case small
    have "core_inv st' (cs_calls s) (cs_ehOf s)" by (rule core_frame [OF core]) (simp_all add: small)
    then show ?thesis using bodies small by (simp add: co_inv_def bodies_ok_def accounted_def)
  next
    case ok
    have cur: "Coro b \<noteq> co_current ?st t" for t using core_current(1,2) [OF core, of t] nw [of t] by auto
    have "calls_ok st' t (cs_calls s t)" for t
    proof -
      have "linked st' (cs_calls s t) = linked ?st (cs_calls s t)" using nw [of t] by (intro linked_frame) (auto simp: ok)
      moreover have "hd (cs_calls s t) \<noteq> Coro b" using core_current(2) [OF core, of t] nw [of t] by auto
      ultimately show ?thesis using core_current(4) [OF core, of t] by (auto simp: calls_ok_def ok)
    qed
    moreover have "rest_ok st' ((cs_ehOf s)(Coro b := 0)) c" if "c \<notin> range (co_current st')" "\<forall>b. c = Coro b \<longrightarrow> b \<in> set (co_handles st')" for c
    proof (cases "c = Coro b")
      case False
      then show ?thesis using core that by (auto simp: core_inv_def rest_ok_def ok)
    qed (simp add: rest_ok_def ok)
    moreover have "co_eh st' t = ((cs_ehOf s)(Coro b := 0)) (co_current st' t)" for t using core cur [of t] by (auto simp: core_inv_def ok)
    ultimately have "core_inv st' (cs_calls s) ((cs_ehOf s)(Coro b := 0))" using core by (auto simp: core_inv_def ok idle_ok_def)
    moreover have "bodies_ok st'" using bodies(1) b by (auto simp: bodies_ok_def ok)
    moreover have "accounted st' (v # cs_obtained s)"
    proof -
      have "mset (map (\<lambda>a. cb_stack (co_block st' (Coro a))) (co_handles ?st)) = mset (map (\<lambda>a. cb_stack (co_block ?st (Coro a))) (co_handles ?st))"
        by (rule arg_cong [where f = mset]) (use b in \<open>auto simp: ok\<close>)
      then show ?thesis using bodies(2) b ok(4) unfolding accounted_def by (simp add: ok(3))
    qed
    ultimately show ?thesis using ok by (simp add: co_inv_def)
  qed
qed

text \<open>What the threads may do.  A coroutine that waits for another one it has resumed is not idle: nobody
  resumes or destroys it.  A running context changes its thread's caught-exception globals as its
  \<^verbatim>\<open>catch\<close> blocks come and go, and may leave a hook before it departs.\<close>

inductive co_step :: "cosys \<Rightarrow> cosys \<Rightarrow> bool" where
  c_make: "b \<notin> set (co_handles (cs_co s)) \<Longrightarrow> makeCoroutine (cs_co s) b ans es ea bs ba = (res, st') \<Longrightarrow>
    co_step s (s\<lparr>cs_co := st', cs_ehOf := (if res = Inr b then (cs_ehOf s)(Coro b := 0) else cs_ehOf s),
      cs_obtained := (case ans of Inl _ \<Rightarrow> [] | Inr v \<Rightarrow> [v]) @ cs_obtained s\<rparr>)"
| c_resume: "b \<in> set (co_handles (cs_co s)) \<Longrightarrow> Coro b \<notin> waiting (cs_calls s) \<Longrightarrow> resume (cs_co s) t b = Some st' \<Longrightarrow>
    co_step s (s\<lparr>cs_co := st', cs_calls := (cs_calls s)(t := Coro b # cs_calls s t)\<rparr>)"
| c_yield: "cs_calls s t = Coro b # d # cs \<Longrightarrow> cb_fctx (co_block (cs_co s) d) = InResume (Coro b) \<Longrightarrow> yield (cs_co s) t = Some st' \<Longrightarrow>
    co_step s (s\<lparr>cs_co := st', cs_calls := (cs_calls s)(t := d # cs)\<rparr>)"
| c_finish: "cs_calls s t = Coro b # d # cs \<Longrightarrow> finishBody (cs_co s) t exn = Some st' \<Longrightarrow>
    co_step s (s\<lparr>cs_co := st', cs_calls := (cs_calls s)(t := d # cs)\<rparr>)"
| c_destroy: "b \<in> set (co_handles (cs_co s)) \<Longrightarrow> Coro b \<notin> waiting (cs_calls s) \<Longrightarrow> destroyBlock (cs_co s) t b = Some st' \<Longrightarrow>
    co_step s (if cb_state (co_block (cs_co s) (Coro b)) = Suspended then s\<lparr>cs_co := st', cs_calls := (cs_calls s)(t := Coro b # cs_calls s t)\<rparr>
      else s\<lparr>cs_co := st'\<rparr>)"
| c_catch: "co_step s (s\<lparr>cs_co := (cs_co s)\<lparr>co_eh := (co_eh (cs_co s))(t := v)\<rparr>, cs_ehOf := (cs_ehOf s)(co_current (cs_co s) t := v)\<rparr>)"
| c_hook: "co_step s (s\<lparr>cs_co := upd (cs_co s) (co_current (cs_co s) t) (\<lambda>b. b\<lparr>cb_postSwitch := Some h\<rparr>)\<rparr>)"
| c_stop: "b \<in> set (co_handles (cs_co s)) \<Longrightarrow> co_step s (s\<lparr>cs_co := requestStop (cs_co s) b\<rparr>)"

definition co_init :: "cosys \<Rightarrow> bool" where
  "co_init s \<longleftrightarrow> cs_co s = freshThreads \<and> cs_calls s = (\<lambda>t. [Native t]) \<and> cs_ehOf s = (\<lambda>_. 0) \<and> cs_obtained s = []"

lemma catch_law:
  assumes inv: "co_inv s"
  shows "co_inv (s\<lparr>cs_co := (cs_co s)\<lparr>co_eh := (co_eh (cs_co s))(t := v)\<rparr>, cs_ehOf := (cs_ehOf s)(co_current (cs_co s) t := v)\<rparr>)"
proof -
  let ?st = "(cs_co s)\<lparr>co_eh := (co_eh (cs_co s))(t := v)\<rparr>" and ?eh = "(cs_ehOf s)(co_current (cs_co s) t := v)"
  have core: "core_inv (cs_co s) (cs_calls s) (cs_ehOf s)" using inv by (simp add: co_inv_def)
  have "calls_ok ?st u (cs_calls s u)" for u by (rule calls_frame [OF core_current(4) [OF core]]) simp_all
  moreover have "rest_ok ?st ?eh c" if "c \<notin> range (co_current (cs_co s))" "\<forall>b. c = Coro b \<longrightarrow> b \<in> set (co_handles (cs_co s))" for c
  proof -
    have "c \<noteq> co_current (cs_co s) t" using that(1) by blast
    then show ?thesis using core that by (simp add: core_inv_def rest_ok_def)
  qed
  moreover have "co_eh ?st u = ?eh (co_current ?st u)" for u
  proof -
    have "u \<noteq> t \<Longrightarrow> co_current (cs_co s) u \<noteq> co_current (cs_co s) t"
      using core_other(1) [OF core core_current(2) [OF core, of t]] core_current(1) [OF core, of t] by metis
    then show ?thesis using core by (auto simp: core_inv_def)
  qed
  ultimately have "core_inv ?st (cs_calls s) ?eh" using core by (auto simp: core_inv_def)
  then show ?thesis using inv by (simp add: co_inv_def bodies_ok_def accounted_def)
qed

lemma hook_law:
  assumes inv: "co_inv s"
  shows "co_inv (s\<lparr>cs_co := upd (cs_co s) (co_current (cs_co s) t) (\<lambda>b. b\<lparr>cb_postSwitch := Some h\<rparr>)\<rparr>)"
proof -
  let ?c = "co_current (cs_co s) t"
  let ?st = "upd (cs_co s) ?c (\<lambda>b. b\<lparr>cb_postSwitch := Some h\<rparr>)"
  have core: "core_inv (cs_co s) (cs_calls s) (cs_ehOf s)" using inv by (simp add: co_inv_def)
  have l: "linked ?st cs = linked (cs_co s) cs" for cs by (induction cs rule: induct_list012) auto
  have "calls_ok ?st u (cs_calls s u)" for u
    using core_current(4) [OF core, of u] l by (cases "hd (cs_calls s u) = ?c") (simp_all add: calls_ok_def)
  moreover have "rest_ok ?st (cs_ehOf s) c" if "c \<notin> range (co_current (cs_co s))" "\<forall>b. c = Coro b \<longrightarrow> b \<in> set (co_handles (cs_co s))" for c
  proof -
    have "c \<noteq> ?c" using that(1) by blast
    then show ?thesis using core that by (simp add: core_inv_def rest_ok_def)
  qed
  moreover have "idle_ok (co_block ?st c) = idle_ok (co_block (cs_co s) c)" for c by (simp add: idle_ok_def)
  ultimately have "core_inv ?st (cs_calls s) (cs_ehOf s)" using core by (simp add: core_inv_def)
  moreover have "bodies_ok ?st" using inv by (auto simp: co_inv_def bodies_ok_def)
  moreover have "accounted (cs_co s) (cs_obtained s)" using inv by (simp add: co_inv_def)
  then have "accounted ?st (cs_obtained s)" by (rule accounted_frame) simp_all
  ultimately show ?thesis by (simp add: co_inv_def)
qed

lemma stop_law:
  assumes inv: "co_inv s"
  shows "co_inv (s\<lparr>cs_co := requestStop (cs_co s) b\<rparr>)"
proof -
  have "core_inv (cs_co s) (cs_calls s) (cs_ehOf s)" "accounted (cs_co s) (cs_obtained s)" using inv by (simp_all add: co_inv_def)
  then have "core_inv (requestStop (cs_co s) b) (cs_calls s) (cs_ehOf s)" "accounted (requestStop (cs_co s) b) (cs_obtained s)"
    by (auto simp: requestStop_def elim!: core_frame accounted_frame)
  moreover have "bodies_ok (requestStop (cs_co s) b)" using inv by (auto simp: co_inv_def bodies_ok_def requestStop_def)
  ultimately show ?thesis by (simp add: co_inv_def)
qed

interpretation coroutines: step_system co_init co_step co_inv
proof unfold_locales
  show "co_inv s" if "co_init s" for s
    using that by (auto simp: co_init_def co_inv_def freshThreads_def core_inv_def calls_ok_def bodies_ok_def accounted_def rest_ok_def)
  show "co_inv s'" if inv: "co_inv s" and st: "co_step s s'" for s s'
    using st
  proof cases
    case (c_make b ans es ea bs ba res st')
    then show ?thesis using make_law [OF inv] by simp
  next
    case (c_resume b t st')
    then have "cb_state (co_block (cs_co s) (Coro b)) = Created \<or> cb_state (co_block (cs_co s) (Coro b)) = Suspended"
      by (auto simp: resume_def split: if_splits)
    from resume_law [OF inv c_resume(2,3) this, of t] show ?thesis using c_resume by auto
  next
    case (c_yield t b d cs st')
    then show ?thesis using yield_law [OF inv c_yield(2,3)] by auto
  next
    case (c_finish t b d cs exn st')
    then show ?thesis using finish_law [OF inv c_finish(2), of exn] by auto
  next
    case (c_destroy b t st')
    then show ?thesis using destroy_law [OF inv c_destroy(2,3), of t] by (auto split: if_splits)
  qed (use catch_law [OF inv] hook_law [OF inv] stop_law [OF inv] in auto)
qed

section \<open>Properties\<close>

text \<open>C30: The coroutine layer implements one call stack per thread: \<^verbatim>\<open>current\<close> is always its top and the native
  context its bottom, a coroutine runs exactly if it is the top of one of them, on the thread its
  block names, its resumer is the context right below it, and no coroutine is on two stacks.\<close>

theorem coroutines_refine_call_stacks:
  assumes "co_init s0" "co_step\<^sup>*\<^sup>* s0 s"
  shows "co_current (cs_co s) t = hd (cs_calls s t) \<and> last (cs_calls s t) = Native t \<and> distinct (cs_calls s t)
    \<and> cb_thread (co_block (cs_co s) (co_current (cs_co s) t)) = t
    \<and> (b \<in> set (co_handles (cs_co s)) \<longrightarrow> (cb_state (co_block (cs_co s) (Coro b)) = Running \<longleftrightarrow> (\<exists>u. co_current (cs_co s) u = Coro b)))
    \<and> (cs_calls s t = Coro b # d # cs \<longrightarrow> cb_resumer (co_block (cs_co s) (Coro b)) = d)
    \<and> (u \<noteq> t \<longrightarrow> set (cs_calls s t) \<inter> set (cs_calls s u) = {})"
proof -
  have "co_inv s" by (rule coroutines.reachable_inv [OF assms])
  then have core: "core_inv (cs_co s) (cs_calls s) (cs_ehOf s)" by (simp add: co_inv_def)
  note k = core_current [OF core]
  have lower: "cb_state (co_block (cs_co s) c) = Suspended" if "linked (cs_co s) cs" "c \<in> set (tl cs)" for c cs
    using that by (induction cs rule: induct_list012) auto
  have "cb_state (co_block (cs_co s) (Coro b)) = Running \<longleftrightarrow> (\<exists>u. co_current (cs_co s) u = Coro b)" if b: "b \<in> set (co_handles (cs_co s))"
  proof
    assume r: "cb_state (co_block (cs_co s) (Coro b)) = Running"
    then have "\<not> idle_ok (co_block (cs_co s) (Coro b))" by (simp add: idle_ok_def)
    then have "Coro b \<in> waiting (cs_calls s)" using core b by (auto simp: core_inv_def)
    then obtain u where u: "Coro b \<in> set (cs_calls s u)" by (auto simp: waiting_def)
    have "Coro b \<notin> set (tl (cs_calls s u))" using lower [of "cs_calls s u" "Coro b"] r k(4) [of u] by (auto simp: calls_ok_def)
    then show "\<exists>u. co_current (cs_co s) u = Coro b" using u k(1) [of u] by (cases "cs_calls s u") auto
  next
    assume "\<exists>u. co_current (cs_co s) u = Coro b"
    then obtain u where "co_current (cs_co s) u = Coro b" by blast
    then show "cb_state (co_block (cs_co s) (Coro b)) = Running" using k(1,4) [of u] by (simp add: calls_ok_def)
  qed
  moreover have "cb_resumer (co_block (cs_co s) (Coro b)) = d" if "cs_calls s t = Coro b # d # cs" using k(4) [of t] that by (simp add: calls_ok_def)
  moreover have "set (cs_calls s t) \<inter> set (cs_calls s u) = {}" if "u \<noteq> t" using core that by (auto simp: core_inv_def)
  ultimately show ?thesis using k [of t] by (simp add: calls_ok_def)
qed

definition demoCo :: cosys where
  "demoCo = \<lparr>cs_co = freshThreads, cs_calls = (\<lambda>t. [Native t]), cs_ehOf = (\<lambda>_. 0), cs_obtained = []\<rparr>"

definition demoMade :: coros where
  "demoMade = snd (makeCoroutine (snd (makeCoroutine freshThreads 1 (Inr \<lparr>sv_base = 0x10000, sv_size = 0x10000\<rparr>) 64 16 256 16))
     2 (Inr \<lparr>sv_base = 0x30000, sv_size = 0x10000\<rparr>) 64 16 256 16)"

lemma demo_fits: "ly_fits (carveStack \<lparr>sv_base = 0x10000, sv_size = 0x10000\<rparr> 64 16 256 16)" "ly_fits (carveStack \<lparr>sv_base = 0x30000, sv_size = 0x10000\<rparr> 64 16 256 16)"
  by code_simp+

lemma demo_made_run: "co_init demoCo" "\<exists>s. co_step\<^sup>*\<^sup>* demoCo s \<and> cs_co s = demoMade \<and> cs_calls s = (\<lambda>t. [Native t])"
proof -
  show "co_init demoCo" by (simp add: co_init_def demoCo_def)
  let ?a = "Inr \<lparr>sv_base = 0x10000, sv_size = 0x10000\<rparr> :: alloc_error + stackView" and ?b = "Inr \<lparr>sv_base = 0x30000, sv_size = 0x10000\<rparr> :: alloc_error + stackView"
  obtain r1 s1 where m1: "makeCoroutine freshThreads 1 ?a 64 16 256 16 = (r1, s1)" by (metis surj_pair)
  obtain r2 s2 where m2: "makeCoroutine s1 2 ?b 64 16 256 16 = (r2, s2)" by (metis surj_pair)
  have h: "co_handles s1 = [1]" using m1 demo_fits(1) by (auto simp: makeCoroutine_def freshThreads_def)
  have c1: "co_step demoCo (demoCo\<lparr>cs_co := s1, cs_ehOf := (if r1 = Inr 1 then (cs_ehOf demoCo)(Coro 1 := 0) else cs_ehOf demoCo), cs_obtained := (case ?a of Inl _ \<Rightarrow> [] | Inr v \<Rightarrow> [v]) @ cs_obtained demoCo\<rparr>)"
    (is "co_step demoCo ?s1") using m1 by (intro c_make) (simp_all add: demoCo_def freshThreads_def)
  have c2: "co_step ?s1 (?s1\<lparr>cs_co := s2, cs_ehOf := (if r2 = Inr 2 then (cs_ehOf ?s1)(Coro 2 := 0) else cs_ehOf ?s1), cs_obtained := (case ?b of Inl _ \<Rightarrow> [] | Inr v \<Rightarrow> [v]) @ cs_obtained ?s1\<rparr>)"
    (is "co_step ?s1 ?s2") using m2 h by (intro c_make) simp_all
  have "co_step\<^sup>*\<^sup>* demoCo ?s2" using c1 c2 by (meson r_into_rtranclp rtranclp.rtrancl_into_rtrancl)
  moreover have "cs_co ?s2 = demoMade" "cs_calls ?s2 = (\<lambda>t. [Native t])" using m1 m2 by (simp_all add: demoMade_def demoCo_def)
  ultimately show "\<exists>s. co_step\<^sup>*\<^sup>* demoCo s \<and> cs_co s = demoMade \<and> cs_calls s = (\<lambda>t. [Native t])" by blast
qed

lemma demo_made_blocks: "co_handles demoMade = [2, 1]" "cb_state (co_block demoMade (Coro 1)) = Created" "co_current demoMade 0 = Native 0"
  using demo_fits by (simp_all add: demoMade_def makeCoroutine_def freshThreads_def)

theorem coroutines_refine_call_stacks_witness:
  "co_init demoCo \<and> (\<exists>s. co_step\<^sup>*\<^sup>* demoCo s \<and> cs_co s = demoMade \<and> co_current (cs_co s) 0 = hd (cs_calls s 0) \<and> cb_state (co_block (cs_co s) (Coro 1)) \<noteq> Running)"
proof -
  obtain s where s: "co_step\<^sup>*\<^sup>* demoCo s" "cs_co s = demoMade" using demo_made_run(2) by blast
  have "co_current (cs_co s) 0 = hd (cs_calls s 0)" using coroutines_refine_call_stacks [OF demo_made_run(1) s(1)] by blast
  then show ?thesis using s demo_made_run(1) demo_made_blocks by auto
qed

text \<open>C31: Resuming an idle coroutine runs it; when it then yields, returns or throws, control is back in the
  context that resumed it, which sees the exception, once, and only in the last case.\<close>

theorem resume_comes_back:
  assumes "co_init s0" "co_step\<^sup>*\<^sup>* s0 s" and b: "b \<in> set (co_handles (cs_co s))" "Coro b \<notin> waiting (cs_calls s)"
    "cb_state (co_block (cs_co s) (Coro b)) = Created \<or> cb_state (co_block (cs_co s) (Coro b)) = Suspended"
  shows "\<exists>st1. resume (cs_co s) t b = Some st1 \<and> co_current st1 t = Coro b
    \<and> (\<exists>st2. yield st1 t = Some st2 \<and> co_current st2 t = co_current (cs_co s) t \<and> cb_state (co_block st2 (Coro b)) = Suspended)
    \<and> (\<exists>st2. finishBody st1 t exn = Some st2 \<and> co_current st2 t = co_current (cs_co s) t \<and> cb_state (co_block st2 (Coro b)) = Done
         \<and> cb_exception (co_block st2 (Coro b)) = None
         \<and> filter (\<lambda>e. \<exists>c x. e = Threw c x) (co_log st2) = filter (\<lambda>e. \<exists>c x. e = Threw c x) (co_log st1) @ (case exn of None \<Rightarrow> [] | Some e \<Rightarrow> [Threw (co_current (cs_co s) t) e]))"
proof -
  have inv: "co_inv s" by (rule coroutines.reachable_inv [OF assms(1,2)])
  let ?r = "co_current (cs_co s) t"
  obtain st1 where st1: "resume (cs_co s) t b = Some st1" "co_current st1 t = Coro b" "cb_fctx (co_block st1 ?r) = InResume (Coro b)"
    and i: "co_inv (s\<lparr>cs_co := st1, cs_calls := (cs_calls s)(t := Coro b # cs_calls s t)\<rparr>)" (is "co_inv ?s")
    using resume_law [OF inv b, of t] by blast
  have "core_inv (cs_co s) (cs_calls s) (cs_ehOf s)" using inv by (simp add: co_inv_def)
  then obtain cs where "cs_calls s t = ?r # cs" using core_current(1,2) [of "cs_co s" "cs_calls s" "cs_ehOf s" t] by (cases "cs_calls s t") auto
  then have k: "cs_calls ?s t = Coro b # ?r # cs" by simp
  have "\<exists>st2. yield st1 t = Some st2 \<and> co_current st2 t = ?r \<and> cb_state (co_block st2 (Coro b)) = Suspended"
    using yield_law [OF i k] st1(3) by auto
  moreover obtain st2 where st2: "finishBody st1 t exn = Some st2" "co_current st2 t = ?r" "b \<in> set (co_handles st2)" "cb_state (co_block st2 (Coro b)) = Done"
      "co_log st2 = co_log st1 @ (case cb_postSwitch (co_block st1 (Coro b)) of None \<Rightarrow> [] | Some h \<Rightarrow> [HookRan h (Coro b)]) @ (case exn of None \<Rightarrow> [] | Some e \<Rightarrow> [Threw ?r e])"
    and i2: "co_inv (?s\<lparr>cs_co := st2, cs_calls := (cs_calls ?s)(t := ?r # cs)\<rparr>)"
    using finish_law [OF i k, of exn] st1(3) by auto
  have "cb_exception (co_block st2 (Coro b)) = None" using i2 st2(3) by (simp add: co_inv_def bodies_ok_def)
  moreover have "filter (\<lambda>e. \<exists>c x. e = Threw c x) (co_log st2) = filter (\<lambda>e. \<exists>c x. e = Threw c x) (co_log st1) @ (case exn of None \<Rightarrow> [] | Some e \<Rightarrow> [Threw ?r e])"
    using st2(5) by (simp split: option.splits)
  ultimately show ?thesis using st1(1,2) st2(1,2,4) by blast
qed

theorem resume_comes_back_witness:
  "\<exists>st1 st2. resume demoMade 0 1 = Some st1 \<and> finishBody st1 0 (Some 7) = Some st2 \<and> co_current st2 0 = Native 0 \<and> Threw (Native 0) 7 \<in> set (co_log st2)"
proof -
  obtain s where s: "co_step\<^sup>*\<^sup>* demoCo s" "cs_co s = demoMade" "cs_calls s = (\<lambda>t. [Native t])" using demo_made_run(2) by blast
  have "1 \<in> set (co_handles (cs_co s))" "Coro 1 \<notin> waiting (cs_calls s)" "cb_state (co_block (cs_co s) (Coro 1)) = Created \<or> cb_state (co_block (cs_co s) (Coro 1)) = Suspended"
    using s(2,3) demo_made_blocks by (simp_all add: waiting_def)
  from resume_comes_back [OF demo_made_run(1) s(1) this, of 0 "Some 7"]
  obtain st1 st2 where a: "resume demoMade 0 1 = Some st1" "finishBody st1 0 (Some 7) = Some st2" "co_current st2 0 = Native 0"
    and l: "filter (\<lambda>e. \<exists>c x. e = Threw c x) (co_log st2) = filter (\<lambda>e. \<exists>c x. e = Threw c x) (co_log st1) @ [Threw (Native 0) 7]"
    using s(2) demo_made_blocks(3) by auto
  have "Threw (Native 0) 7 \<in> set (filter (\<lambda>e. \<exists>c x. e = Threw c x) (co_log st2))" unfolding l by simp
  then show ?thesis using a by auto
qed

text \<open>C32: Every context finds on its thread the caught-exception globals it left there itself, however often it was
  suspended and whatever thread continues it; and every stack obtained belongs to exactly one
  coroutine or was given back, once.\<close>

theorem contexts_keep_their_state:
  assumes "co_init s0" "co_step\<^sup>*\<^sup>* s0 s"
  shows "co_eh (cs_co s) t = cs_ehOf s (co_current (cs_co s) t) \<and> distinct (co_handles (cs_co s))
    \<and> mset (cs_obtained s) = mset (map (\<lambda>b. cb_stack (co_block (cs_co s) (Coro b))) (co_handles (cs_co s))) + mset (co_released (cs_co s))"
proof -
  have "co_inv s" by (rule coroutines.reachable_inv [OF assms])
  then show ?thesis by (simp add: co_inv_def core_inv_def accounted_def)
qed

theorem contexts_keep_their_state_witness:
  "co_init demoCo \<and> (\<exists>s. co_step\<^sup>*\<^sup>* demoCo s \<and> cs_co s = demoMade \<and> length (cs_obtained s) = 2)"
proof -
  obtain s where s: "co_step\<^sup>*\<^sup>* demoCo s" "cs_co s = demoMade" using demo_made_run(2) by blast
  have "mset (cs_obtained s) = mset (map (\<lambda>b. cb_stack (co_block demoMade (Coro b))) (co_handles demoMade)) + mset (co_released demoMade)"
    using contexts_keep_their_state [OF demo_made_run(1) s(1)] s(2) by simp
  then have "size (mset (cs_obtained s)) = size (mset (map (\<lambda>b. cb_stack (co_block demoMade (Coro b))) (co_handles demoMade)) + mset (co_released demoMade))" by (rule arg_cong)
  moreover have "co_released demoMade = []" using demo_fits by (simp add: demoMade_def makeCoroutine_def freshThreads_def)
  ultimately have "length (cs_obtained s) = 2" using demo_made_blocks(1) by simp
  then show ?thesis using s demo_made_run(1) by blast
qed

text \<open>A coroutine that waits in the \<^verbatim>\<open>resume\<close> of another one is marked \<^verbatim>\<open>Suspended\<close> like one that yielded, so
  the check of \<^verbatim>\<open>resume\<close> accepts it: coroutine 2, resumed by 1, may resume 1 itself.  Then 1 finishes into 2,
  and 2, whose resumer is still 1, ends in a jump to a finished context: the program aborts, and the
  thread that started it all never gets control back.\<close>

theorem resume_accepts_a_waiting_coroutine:
  "\<exists>s1 s2 s3 s4. resume demoMade 0 1 = Some s1 \<and> resume s1 0 2 = Some s2 \<and> cb_state (co_block s2 (Coro 1)) = Suspended
    \<and> resume s2 0 1 = Some s3 \<and> finishBody s3 0 None = Some s4 \<and> co_current s4 0 = Coro 2 \<and> finishBody s4 0 None = None"
proof -
  note defs = resume_def finishBody_def continue_at_def switch_depart depart_def onArrival_def prepareDeparture_def runHook_def swapEhGlobals_def destroyEntry_def upd_def Let_def
  have m: "co_block demoMade (Coro 1) = \<lparr>cb_fctx = AtEntry, cb_thread = 0, cb_resumer = Coro 1, cb_entry = True, cb_stack = \<lparr>sv_base = 0x10000, sv_size = 0x10000\<rparr>,
      cb_postSwitch = None, cb_state = Created, cb_stopRequested = False, cb_exception = None, cb_ehGlobals = 0\<rparr>"
    "co_block demoMade (Coro 2) = \<lparr>cb_fctx = AtEntry, cb_thread = 0, cb_resumer = Coro 2, cb_entry = True, cb_stack = \<lparr>sv_base = 0x30000, sv_size = 0x10000\<rparr>,
      cb_postSwitch = None, cb_state = Created, cb_stopRequested = False, cb_exception = None, cb_ehGlobals = 0\<rparr>"
    "cb_thread (co_block demoMade (Native 0)) = 0" "cb_postSwitch (co_block demoMade (Native 0)) = None"
    using demo_fits by (simp_all add: demoMade_def makeCoroutine_def freshThreads_def)
  show ?thesis using m demo_made_blocks(3) by (simp add: defs)
qed

end
