(* ===== verification/Io_Registration.thy ===== *)
theory Io_Registration
  imports Wait_List Step_System
begin

text \<open>
  \<^verbatim>\<open>io/Registration.h\<close>, \<^verbatim>\<open>io/src/Registration.cpp\<close> and the tables of the two pollers
  (\<^verbatim>\<open>io/src/EpollPoller.cpp\<close>, \<^verbatim>\<open>io/src/PollPoller.cpp\<close>): a registration counts the reports for each direction of
  its descriptor and keeps the waker of the one party waiting there; a poller finds the registration of
  a descriptor in its table.  Every operation is given as it runs under its lock; the interleavings are in
  \<^verbatim>\<open>Io_Readiness\<close>.  The kernel's answers (what \<^verbatim>\<open>epoll_wait\<close>, \<^verbatim>\<open>poll\<close> and \<^verbatim>\<open>epoll_ctl\<close> return) are arguments.
\<close>

section \<open>Registrations\<close>

type_synonym interest = u8

definition Readable :: interest where "Readable = 1"
definition Writable :: interest where "Writable = 2"

definition has :: "interest \<Rightarrow> interest \<Rightarrow> bool" where
  "has flags f \<longleftrightarrow> flags AND f \<noteq> 0"

datatype io_error = BadFileDescriptor | FileExists | TimedOut | MessageSize | SystemError int

record direction =
  dn_events :: u32
  dn_consumed :: u32
  dn_waker :: waker
  dn_closed :: bool
  dn_exhausted :: bool
  dn_exhaustedAt :: u32

record registration =
  rg_descriptor :: int
  rg_everyArrivalReported :: bool
  rg_socket :: bool
  rg_byteStream :: bool
  rg_addError :: "io_error option"
  rg_read :: direction
  rg_write :: direction

definition direction_new :: direction where
  "direction_new = \<lparr>dn_events = 0, dn_consumed = 0, dn_waker = waker_empty, dn_closed = False, dn_exhausted = False, dn_exhaustedAt = 0\<rparr>"

text \<open>The constructor, with the answers of the poller's \<^verbatim>\<open>reportsEveryArrival\<close> and \<^verbatim>\<open>add\<close>.\<close>

definition registration_new :: "int \<Rightarrow> bool \<Rightarrow> io_error option \<Rightarrow> registration" where
  "registration_new fd every added = \<lparr>rg_descriptor = fd, rg_everyArrivalReported = every, rg_socket = False, rg_byteStream = False,
     rg_addError = added, rg_read = direction_new, rg_write = direction_new\<rparr>"

definition slot :: "registration \<Rightarrow> interest \<Rightarrow> direction" where
  "slot r d = (if d = Readable then rg_read r else rg_write r)"

definition updSlot :: "registration \<Rightarrow> interest \<Rightarrow> (direction \<Rightarrow> direction) \<Rightarrow> registration" where
  "updSlot r d f = (if d = Readable then r\<lparr>rg_read := f (rg_read r)\<rparr> else r\<lparr>rg_write := f (rg_write r)\<rparr>)"

datatype Kind = Other | Pipe | StreamSocket | DatagramSocket

definition setKind :: "registration \<Rightarrow> Kind \<Rightarrow> registration" where
  "setKind r kind = r\<lparr>rg_socket := (kind = StreamSocket \<or> kind = DatagramSocket),
     rg_byteStream := ((kind = StreamSocket \<or> kind = Pipe) \<and> rg_everyArrivalReported r)\<rparr>"

definition exhausted :: "registration \<Rightarrow> interest \<Rightarrow> u32 \<Rightarrow> bool" where
  "exhausted r d seen \<longleftrightarrow> dn_exhausted (slot r d) \<and> dn_exhaustedAt (slot r d) = seen \<and> \<not> dn_closed (slot r d)"

definition noteTransfer :: "registration \<Rightarrow> interest \<Rightarrow> u32 \<Rightarrow> nat \<Rightarrow> nat \<Rightarrow> registration" where
  "noteTransfer r d seen bytes asked =
     updSlot r d (\<lambda>m. m\<lparr>dn_exhausted := (rg_byteStream r \<and> bytes \<noteq> 0 \<and> bytes < asked), dn_exhaustedAt := seen\<rparr>)"

record wakeups =
  wu_reader :: waker
  wu_writer :: waker

definition collect :: "registration \<Rightarrow> interest \<Rightarrow> interest \<Rightarrow> wakeups \<times> registration" where
  "collect r readyNow closed =
     (let r1 = (if has closed Readable then r\<lparr>rg_read := (rg_read r)\<lparr>dn_closed := True\<rparr>\<rparr> else r);
          r2 = (if has closed Writable then r1\<lparr>rg_write := (rg_write r1)\<lparr>dn_closed := True\<rparr>\<rparr> else r1);
          (reader, r3) = (if has readyNow Readable
             then (dn_waker (rg_read r2), r2\<lparr>rg_read := (rg_read r2)\<lparr>dn_events := dn_events (rg_read r2) + 1, dn_waker := waker_empty\<rparr>\<rparr>)
             else (waker_empty, r2));
          (writer, r4) = (if has readyNow Writable
             then (dn_waker (rg_write r3), r3\<lparr>rg_write := (rg_write r3)\<lparr>dn_events := dn_events (rg_write r3) + 1, dn_waker := waker_empty\<rparr>\<rparr>)
             else (waker_empty, r3))
      in (\<lparr>wu_reader = reader, wu_writer = writer\<rparr>, r4))"

definition wakeups_wake :: "wakeups \<Rightarrow> wake_event list" where
  "wakeups_wake u = [waker_wake (wu_reader u), waker_wake (wu_writer u)]"

text \<open>
  \<^verbatim>\<open>waitFor\<close>, cut where it blocks: the entry (both checks and storing the waker), the loop's check of the
  count, and the ways out.  \<open>Blocks\<close> stands for \<^verbatim>\<open>block\<close> and \<^verbatim>\<open>blockUntil\<close>.
\<close>

datatype wait_pass = Returned "io_error option" | Blocks

definition detach :: "registration \<Rightarrow> interest \<Rightarrow> waker \<Rightarrow> registration" where
  "detach r d me = (if waker_eq (dn_waker (slot r d)) me then updSlot r d (\<lambda>m. m\<lparr>dn_waker := waker_empty\<rparr>) else r)"

definition waitFor_store :: "registration \<Rightarrow> interest \<Rightarrow> u32 \<Rightarrow> waker \<Rightarrow> bool \<times> registration" where
  "waitFor_store r d seen me =
     (if dn_events (slot r d) \<noteq> seen then (False, r) else (True, updSlot r d (\<lambda>m. m\<lparr>dn_waker := me\<rparr>)))"

definition waitFor_begin :: "registration \<Rightarrow> interest \<Rightarrow> u32 \<Rightarrow> waker \<Rightarrow> io_error option \<Rightarrow> wait_pass \<times> registration" where
  "waitFor_begin r d seen me armed =
     (case rg_addError r of Some e \<Rightarrow> (Returned (Some e), r)
      | None \<Rightarrow>
          if dn_events (slot r d) \<noteq> seen then (Returned None, r)
          else (case waitFor_store r d seen me of
                  (False, r') \<Rightarrow> (Returned None, r')
                | (True, r') \<Rightarrow>
                    if \<not> rg_everyArrivalReported r \<and> armed \<noteq> None then (Returned armed, detach r' d me)
                    else (Blocks, r')))"

text \<open>After a block: \<open>timedOut\<close> says that \<^verbatim>\<open>blockUntil\<close> returned false.\<close>

definition waitFor_resume :: "registration \<Rightarrow> interest \<Rightarrow> u32 \<Rightarrow> waker \<Rightarrow> bool \<Rightarrow> wait_pass \<times> registration" where
  "waitFor_resume r d seen me timedOut =
     (if dn_events (slot r d) \<noteq> seen then (Returned None, r)
      else if timedOut then (Returned (Some TimedOut), detach r d me)
      else (Blocks, r))"

text \<open>\<^verbatim>\<open>watch\<close> arms a one-shot poller, whose answer it ignores, before it takes the lock; \<open>owner\<close> is the poller's state.\<close>

definition watch :: "('p \<Rightarrow> interest \<Rightarrow> 'p) \<Rightarrow> 'p \<Rightarrow> registration \<Rightarrow> interest \<Rightarrow> u32 \<Rightarrow> waiter \<Rightarrow> EnqueueResult \<times> 'p \<times> registration" where
  "watch arm owner r d seen w =
     (let owner' = (if rg_everyArrivalReported r then owner else arm owner d) in
      if w_cancelled w then (Cancelled, owner', r)
      else if dn_events (slot r d) \<noteq> seen then (Ready, owner', r)
      else (Enqueued, owner', updSlot r d (\<lambda>m. m\<lparr>dn_waker := waiter_waker w\<rparr>)))"

definition unwatch :: "registration \<Rightarrow> interest \<Rightarrow> waiter \<Rightarrow> bool \<times> waiter \<times> registration" where
  "unwatch r d w =
     (if waker_eq (dn_waker (slot r d)) (waiter_waker w)
      then (True, w, updSlot r d (\<lambda>m. m\<lparr>dn_waker := waker_empty\<rparr>))
      else (False, w\<lparr>w_cancelled := True\<rparr>, r))"

text \<open>The uncounted waits consume what has been reported when they return.\<close>

definition consumeEvents :: "registration \<Rightarrow> interest \<Rightarrow> registration" where
  "consumeEvents r d = updSlot r d (\<lambda>m. m\<lparr>dn_consumed := dn_events m\<rparr>)"

section \<open>The pollers\<close>

text \<open>The bits of the kernel interface on Linux.\<close>

definition POLLIN :: u32 where "POLLIN = 0x1"
definition POLLOUT :: u32 where "POLLOUT = 0x4"
definition POLLERR :: u32 where "POLLERR = 0x8"
definition POLLHUP :: u32 where "POLLHUP = 0x10"
definition POLLNVAL :: u32 where "POLLNVAL = 0x20"
definition EPOLLRDHUP :: u32 where "EPOLLRDHUP = 0x2000"

text \<open>The timeout in milliseconds, rounded up, as the \<^verbatim>\<open>int\<close> that \<^verbatim>\<open>epoll_wait\<close> and \<^verbatim>\<open>poll\<close> get.\<close>

definition millisOf :: "int \<Rightarrow> int" where
  "millisOf timeout =
     (if timeout \<ge> 0
      then let ms = timeout div 1000000 in signed_take_bit 31 (ms + (if ms * 1000000 < timeout then 1 else 0))
      else -1)"

definition readyOf :: "u32 \<Rightarrow> interest" where
  "readyOf events =
     (let ready = (if events AND (POLLIN OR EPOLLRDHUP OR POLLHUP OR POLLERR) \<noteq> 0 then 0 OR Readable else 0)
      in if events AND (POLLOUT OR POLLHUP OR POLLERR) \<noteq> 0 then ready OR Writable else ready)"

definition closedOf :: "u32 \<Rightarrow> interest" where
  "closedOf events =
     (let closed = (if events AND (EPOLLRDHUP OR POLLHUP OR POLLERR) \<noteq> 0 then 0 OR Readable else 0)
      in if events AND (POLLHUP OR POLLERR) \<noteq> 0 then closed OR Writable else closed)"

text \<open>A table maps descriptors to registrations, which are named by numbers; \<open>regs\<close> holds the registrations.\<close>

definition resized :: "'a list \<Rightarrow> nat \<Rightarrow> 'a \<Rightarrow> 'a list" where
  "resized t n x = t @ replicate (n - length t) x"

definition inTable :: "int \<Rightarrow> 'a list \<Rightarrow> bool" where
  "inTable fd t \<longleftrightarrow> 0 \<le> fd \<and> nat fd < length t"

text \<open>\<^verbatim>\<open>add\<close> with the answer \<open>ctl\<close> of \<^verbatim>\<open>epoll_ctl\<close>: one step here, while the code releases the table's lock around the system
  call.\<close>

definition epoll_add :: "nat option list \<Rightarrow> nat \<Rightarrow> int \<Rightarrow> int option \<Rightarrow> io_error option \<times> nat option list" where
  "epoll_add t r fd ctl =
     (if fd < 0 then (Some BadFileDescriptor, t)
      else let t1 = (if nat fd \<ge> length t then resized t (nat fd + 1) None else t) in
        if t1 ! nat fd \<noteq> None then (Some FileExists, t1)
        else case ctl of
            Some e \<Rightarrow> (Some (SystemError e), t1[nat fd := None])
          | None \<Rightarrow> (None, t1[nat fd := Some r]))"

definition epoll_remove :: "nat option list \<Rightarrow> nat \<Rightarrow> int \<Rightarrow> nat option list" where
  "epoll_remove t r fd = (if inTable fd t \<and> t ! nat fd = Some r then t[nat fd := None] else t)"

fun epoll_dispatch ::
  "int \<Rightarrow> nat option list \<Rightarrow> (nat \<Rightarrow> registration) \<Rightarrow> (int \<times> u32) list \<Rightarrow> wakeups list \<times> (nat \<Rightarrow> registration)" where
  "epoll_dispatch wakeFd t regs [] = ([], regs)"
| "epoll_dispatch wakeFd t regs ((fd, events) # rest) =
     (if fd = wakeFd \<or> \<not> inTable fd t then epoll_dispatch wakeFd t regs rest
      else case t ! nat fd of
          None \<Rightarrow> epoll_dispatch wakeFd t regs rest
        | Some r \<Rightarrow>
            let (u, reg) = collect (regs r) (readyOf events) (closedOf events);
                (us, regs') = epoll_dispatch wakeFd t (regs(r := reg)) rest
            in (u # us, regs'))"

record pollEntry =
  pe_registration :: "nat option"
  pe_events :: u32

definition poll_add :: "pollEntry list \<Rightarrow> nat \<Rightarrow> int \<Rightarrow> io_error option \<times> pollEntry list" where
  "poll_add t r fd =
     (if fd < 0 then (Some BadFileDescriptor, t)
      else let t1 = (if nat fd \<ge> length t then resized t (nat fd + 1) \<lparr>pe_registration = None, pe_events = 0\<rparr> else t) in
        if pe_registration (t1 ! nat fd) \<noteq> None then (Some FileExists, t1)
        else (None, t1[nat fd := \<lparr>pe_registration = Some r, pe_events = 0\<rparr>]))"

definition poll_remove :: "pollEntry list \<Rightarrow> nat \<Rightarrow> int \<Rightarrow> pollEntry list" where
  "poll_remove t r fd =
     (if inTable fd t \<and> pe_registration (t ! nat fd) = Some r then t[nat fd := \<lparr>pe_registration = None, pe_events = 0\<rparr>] else t)"

definition watchedBits :: "interest \<Rightarrow> u32" where
  "watchedBits d =
     (let events = (if has d Readable then 0 OR POLLIN else 0) in if has d Writable then events OR POLLOUT else events)"

definition poll_arm :: "pollEntry list \<Rightarrow> nat \<Rightarrow> int \<Rightarrow> interest \<Rightarrow> io_error option \<times> pollEntry list" where
  "poll_arm t r fd d =
     (if \<not> inTable fd t \<or> pe_registration (t ! nat fd) \<noteq> Some r then (Some BadFileDescriptor, t)
      else (None, t[nat fd := (t ! nat fd)\<lparr>pe_events := pe_events (t ! nat fd) OR watchedBits d\<rparr>]))"

definition poll_snapshot :: "pollEntry list \<Rightarrow> (nat \<times> u32) list" where
  "poll_snapshot t =
     map (\<lambda>fd. (fd, pe_events (t ! fd))) (filter (\<lambda>fd. pe_registration (t ! fd) \<noteq> None \<and> pe_events (t ! fd) \<noteq> 0) [0..<length t])"

definition poll_ready :: "u32 \<Rightarrow> interest" where
  "poll_ready revents =
     (let ready = (if revents AND (POLLIN OR POLLHUP OR POLLERR OR POLLNVAL) \<noteq> 0 then 0 OR Readable else 0)
      in if revents AND (POLLOUT OR POLLHUP OR POLLERR OR POLLNVAL) \<noteq> 0 then ready OR Writable else ready)"

definition poll_closed :: "u32 \<Rightarrow> interest" where
  "poll_closed revents = (if revents AND (POLLHUP OR POLLERR OR POLLNVAL) \<noteq> 0 then Readable OR Writable else 0)"

text \<open>One-shot: a reported direction is dropped from the watched ones.\<close>

definition unwatched :: "u32 \<Rightarrow> interest \<Rightarrow> u32" where
  "unwatched events ready =
     (let e1 = (if has ready Readable then events AND NOT POLLIN else events)
      in if has ready Writable then e1 AND NOT POLLOUT else e1)"

definition collectLocked ::
  "pollEntry list \<Rightarrow> (nat \<Rightarrow> registration) \<Rightarrow> nat \<Rightarrow> u32 \<Rightarrow> wakeups list \<times> pollEntry list \<times> (nat \<Rightarrow> registration)" where
  "collectLocked t regs fd revents =
     (let ready = poll_ready revents in
      if fd < length t then
        (case pe_registration (t ! fd) of
           None \<Rightarrow> ([], t, regs)
         | Some r \<Rightarrow>
             let watched = pe_events (t ! fd);
                 t' = t[fd := (t ! fd)\<lparr>pe_events := unwatched watched ready\<rparr>]
             in if watched \<noteq> 0
                then (case collect (regs r) ready (poll_closed revents) of (u, reg) \<Rightarrow> ([u], t', regs(r := reg)))
                else ([], t', regs))
      else ([], t, regs))"

fun poll_dispatch ::
  "pollEntry list \<Rightarrow> (nat \<Rightarrow> registration) \<Rightarrow> (nat \<times> u32) list \<Rightarrow> wakeups list \<times> pollEntry list \<times> (nat \<Rightarrow> registration)" where
  "poll_dispatch t regs [] = ([], t, regs)"
| "poll_dispatch t regs ((fd, revents) # rest) =
     (if revents \<noteq> 0
      then let (us, t', regs') = collectLocked t regs fd revents; (us', t'', regs'') = poll_dispatch t' regs' rest
           in (us @ us', t'', regs'')
      else poll_dispatch t regs rest)"

section \<open>The life of registrations in a poller\<close>

text \<open>
  \<^verbatim>\<open>Poller\<close> is an abstract class; \<open>lookup\<close> gives the registration a poller has for a descriptor.  The
  operations are those of the class: \<open>add\<close> with the kernel's answer, \<open>remove\<close>, \<open>arm\<close>, and a pass of \<open>wait\<close>
  over the reports of the kernel.  The program constructs and destroys registrations, waits and
  watches through them, and one thread polls.
\<close>

record 't polling =
  po_table :: 't
  po_regs :: "nat \<Rightarrow> registration"
  po_alive :: "nat \<Rightarrow> bool"

datatype ('a, 'e) poller_op = Construct nat int bool 'a | Destroy nat | Arm nat interest | Report 'e

type_synonym ('t, 'a) add_op = "'t \<Rightarrow> nat \<Rightarrow> int \<Rightarrow> 'a \<Rightarrow> io_error option \<times> 't"
type_synonym 't remove_op = "'t \<Rightarrow> nat \<Rightarrow> int \<Rightarrow> 't"
type_synonym 't arm_op = "'t \<Rightarrow> nat \<Rightarrow> int \<Rightarrow> interest \<Rightarrow> io_error option \<times> 't"
type_synonym ('t, 'e) report_op = "'t \<Rightarrow> (nat \<Rightarrow> registration) \<Rightarrow> 'e \<Rightarrow> wakeups list \<times> 't \<times> (nat \<Rightarrow> registration)"

text \<open>The constructor adds the registration and keeps the error; the destructor removes it only when
  adding it had succeeded.  An object that exists is not constructed a second time.\<close>

fun poller_do ::
  "('t, 'a) add_op \<Rightarrow> 't remove_op \<Rightarrow> 't arm_op \<Rightarrow> ('t, 'e) report_op \<Rightarrow> ('a, 'e) poller_op \<Rightarrow> 't polling \<Rightarrow> 't polling" where
  "poller_do add remove arm report (Construct r fd every a) s =
     (if po_alive s r then s
      else case add (po_table s) r fd a of
        (e, t) \<Rightarrow> s\<lparr>po_table := t, po_regs := (po_regs s)(r := registration_new fd every e), po_alive := (po_alive s)(r := True)\<rparr>)"
| "poller_do add remove arm report (Destroy r) s =
     (if \<not> po_alive s r then s
      else s\<lparr>po_alive := (po_alive s)(r := False),
             po_table := (if rg_addError (po_regs s r) = None then remove (po_table s) r (rg_descriptor (po_regs s r)) else po_table s)\<rparr>)"
| "poller_do add remove arm report (Arm r d) s =
     (if \<not> po_alive s r then s
      else s\<lparr>po_table := snd (arm (po_table s) r (rg_descriptor (po_regs s r)) d)\<rparr>)"
| "poller_do add remove arm report (Report e) s =
     (case report (po_table s) (po_regs s) e of (us, t, regs) \<Rightarrow> s\<lparr>po_table := t, po_regs := regs\<rparr>)"

text \<open>What a poller has registered is alive, at its own descriptor, and was added without an error.\<close>

definition registeredAt :: "'t polling \<Rightarrow> nat \<Rightarrow> int option" where
  "registeredAt s r = (if po_alive s r \<and> rg_addError (po_regs s r) = None then Some (rg_descriptor (po_regs s r)) else None)"

definition mutual :: "('k \<rightharpoonup> 'v) \<Rightarrow> ('v \<rightharpoonup> 'k) \<Rightarrow> bool" where
  "mutual f g \<longleftrightarrow> (\<forall>k v. f k = Some v \<longleftrightarrow> g v = Some k)"

definition polling_inv :: "('t \<Rightarrow> int \<Rightarrow> nat option) \<Rightarrow> 't polling \<Rightarrow> bool" where
  "polling_inv lookup s \<longleftrightarrow> mutual (lookup (po_table s)) (registeredAt s)"

lemma mutual_insert:
  assumes "mutual f g" "f k = None" "g v = None"
  shows "mutual (f(k \<mapsto> v)) (g(v \<mapsto> k))"
proof -
  have "g v' \<noteq> Some k" "f k' \<noteq> Some v" for v' k' using assms unfolding mutual_def by (metis option.distinct(1))+
  then show ?thesis using assms(1) by (simp add: mutual_def)
qed

lemma mutual_delete:
  assumes "mutual f g" "f k = Some v"
  shows "mutual (f(k := None)) (g(v := None))"
proof -
  have "g v = Some k" using assms by (simp add: mutual_def)
  then have "g v' = Some k \<Longrightarrow> v' = v" "f k' = Some v \<Longrightarrow> k' = k" for v' k'
    using assms unfolding mutual_def by (metis option.inject)+
  then show ?thesis using assms(1) by (auto simp: mutual_def)
qed

definition same_place :: "registration \<Rightarrow> registration \<Rightarrow> bool" where
  "same_place a b \<longleftrightarrow> rg_descriptor a = rg_descriptor b \<and> rg_addError a = rg_addError b"

fun constructs :: "nat \<Rightarrow> ('a, 'e) poller_op \<Rightarrow> bool" where
  "constructs r (Construct r' fd every a) \<longleftrightarrow> r' = r"
| "constructs r _ \<longleftrightarrow> False"

locale poller =
  fixes lookup :: "'t \<Rightarrow> int \<Rightarrow> nat option"
    and add :: "('t, 'a) add_op" and remove :: "'t remove_op" and arm :: "'t arm_op" and report :: "('t, 'e) report_op"
  assumes add_ok: "add t r fd a = (None, t') \<Longrightarrow> lookup t fd = None \<and> lookup t' = (lookup t)(fd := Some r)"
    and add_error: "add t r fd a = (Some err, t') \<Longrightarrow> lookup t' = lookup t"
    and remove_lookup: "lookup (remove t r fd) = (if lookup t fd = Some r then (lookup t)(fd := None) else lookup t)"
    and arm_lookup: "lookup (snd (arm t r fd d)) = lookup t"
    and report_lookup: "report t regs e = (us, t', regs') \<Longrightarrow> lookup t' = lookup t"
    and report_place: "report t regs e = (us, t', regs') \<Longrightarrow> same_place (regs' r) (regs r)"
    and report_frame: "report t regs e = (us, t', regs') \<Longrightarrow> (\<And>fd. lookup t fd \<noteq> Some r) \<Longrightarrow> regs' r = regs r"
begin

abbreviation step_op :: "('a, 'e) poller_op \<Rightarrow> 't polling \<Rightarrow> 't polling" where
  "step_op \<equiv> poller_do add remove arm report"

lemma construct_inv:
  assumes "polling_inv lookup s"
  shows "polling_inv lookup (step_op (Construct r fd every a) s)"
proof (cases "po_alive s r")
  case False
  then have out: "registeredAt s r = None" by (simp add: registeredAt_def)
  obtain e t where ad: "add (po_table s) r fd a = (e, t)" by fastforce
  show ?thesis
  proof (cases e)
    case None
    have "registeredAt (step_op (Construct r fd every a) s) = (registeredAt s)(r \<mapsto> fd)"
      using False ad None by (auto simp: registeredAt_def registration_new_def)
    then show ?thesis
      using mutual_insert [OF assms [unfolded polling_inv_def] _ out] add_ok [of "po_table s" r fd a t] False ad None
      by (simp add: polling_inv_def)
  next
    case (Some err)
    have "registeredAt (step_op (Construct r fd every a) s) = registeredAt s"
      using False ad Some by (auto simp: registeredAt_def registration_new_def)
    then show ?thesis using add_error [of "po_table s" r fd a err t] assms False ad Some by (simp add: polling_inv_def)
  qed
qed (use assms in simp)

lemma destroy_inv:
  assumes "polling_inv lookup s"
  shows "polling_inv lookup (step_op (Destroy r) s)"
proof (cases "registeredAt s r")
  case None
  then have "registeredAt (step_op (Destroy r) s) = registeredAt s" "po_table (step_op (Destroy r) s) = po_table s"
    by (auto simp: registeredAt_def split: if_splits)
  then show ?thesis using assms by (simp add: polling_inv_def)
next
  case (Some fd)
  then have "lookup (po_table s) fd = Some r" using assms by (simp add: polling_inv_def mutual_def)
  moreover have "registeredAt (step_op (Destroy r) s) = (registeredAt s)(r := None)" using Some by (auto simp: registeredAt_def split: if_splits)
  moreover have "po_table (step_op (Destroy r) s) = remove (po_table s) r fd" using Some by (auto simp: registeredAt_def split: if_splits)
  ultimately show ?thesis
    using mutual_delete [OF assms [unfolded polling_inv_def]] by (simp add: polling_inv_def remove_lookup)
qed

lemma report_inv:
  assumes "polling_inv lookup s"
  shows "polling_inv lookup (step_op (Report e) s)"
proof -
  obtain us t regs where rp: "report (po_table s) (po_regs s) e = (us, t, regs)" by (cases "report (po_table s) (po_regs s) e")
  show ?thesis
    using assms rp report_lookup [OF rp] report_place [OF rp] by (simp add: polling_inv_def registeredAt_def [abs_def] same_place_def cong: if_cong)
qed

lemma op_inv: "polling_inv lookup s \<Longrightarrow> polling_inv lookup (step_op x s)"
proof (cases x)
  case (Arm r d)
  then show "polling_inv lookup s \<Longrightarrow> ?thesis" by (simp add: polling_inv_def registeredAt_def [abs_def] arm_lookup cong: if_cong)
qed (simp_all only: construct_inv destroy_inv report_inv)

lemma run_inv: "polling_inv lookup s \<Longrightarrow> polling_inv lookup (fold step_op xs s)"
  by (induction xs arbitrary: s) (auto intro: op_inv)

lemma dead_op:
  assumes "polling_inv lookup s" "\<not> po_alive s r" "\<not> constructs r x"
  shows "\<not> po_alive (step_op x s) r \<and> po_regs (step_op x s) r = po_regs s r"
proof (cases x)
  case (Report e)
  obtain us t regs where rp: "report (po_table s) (po_regs s) e = (us, t, regs)" by (cases "report (po_table s) (po_regs s) e")
  have "\<And>fd. lookup (po_table s) fd \<noteq> Some r" using assms(1,2) by (simp add: polling_inv_def mutual_def registeredAt_def)
  then show ?thesis using Report rp report_frame [OF rp] assms(2) by simp
qed (use assms in \<open>auto split: prod.splits\<close>)

text \<open>Once a registration is destroyed nothing writes to it any more.\<close>

lemma dead_run:
  assumes "polling_inv lookup s" "\<not> po_alive s r" "\<And>x. x \<in> set xs \<Longrightarrow> \<not> constructs r x"
  shows "po_regs (fold step_op xs s) r = po_regs s r"
  using assms
proof (induction xs arbitrary: s)
  case (Cons x xs)
  have "\<not> po_alive (step_op x s) r \<and> po_regs (step_op x s) r = po_regs s r" using Cons.prems by (intro dead_op) auto
  then show ?case using Cons.IH [of "step_op x s"] Cons.prems op_inv by simp
qed simp

lemma destroyed_run:
  assumes "polling_inv lookup s" "\<And>x. x \<in> set xs \<Longrightarrow> \<not> constructs r x"
  shows "po_regs (fold step_op xs (step_op (Destroy r) s)) r = po_regs s r"
proof -
  have "po_regs (fold step_op xs (step_op (Destroy r) s)) r = po_regs (step_op (Destroy r) s) r"
    using assms op_inv [OF assms(1), of "Destroy r"] by (intro dead_run) auto
  then show ?thesis by simp
qed

end

section \<open>Both pollers keep the contract\<close>

definition epoll_lookup :: "nat option list \<Rightarrow> int \<Rightarrow> nat option" where
  "epoll_lookup t fd = (if inTable fd t then t ! nat fd else None)"

definition epoll_arm :: "nat option list arm_op" where
  "epoll_arm t r fd d = (None, t)"

definition epoll_report :: "int \<Rightarrow> (nat option list, (int \<times> u32) list) report_op" where
  "epoll_report wakeFd t regs events = (case epoll_dispatch wakeFd t regs events of (us, regs') \<Rightarrow> (us, t, regs'))"

definition poll_lookup :: "pollEntry list \<Rightarrow> int \<Rightarrow> nat option" where
  "poll_lookup t fd = (if inTable fd t then pe_registration (t ! nat fd) else None)"

definition poll_add_op :: "(pollEntry list, unit) add_op" where
  "poll_add_op t r fd _ = poll_add t r fd"

lemma collect_place: "same_place (snd (collect r ready closed)) r"
  by (simp add: collect_def same_place_def Let_def)

lemma same_place_trans: "same_place a b \<Longrightarrow> same_place b c \<Longrightarrow> same_place a c"
  by (simp add: same_place_def)

lemma same_place_refl [simp]: "same_place a a"
  by (simp add: same_place_def)

lemma collect_same_place: "collect a ready closed = (u, b) \<Longrightarrow> same_place b a"
  using collect_place [of a ready closed] by simp

lemma epoll_dispatch_place: "epoll_dispatch wakeFd t regs events = (us, regs') \<Longrightarrow> same_place (regs' r) (regs r)"
proof (induction events arbitrary: us regs regs')
  case (Cons e rest)
  obtain fd ev where e: "e = (fd, ev)" by (cases e)
  show ?case
  proof (cases "fd = wakeFd \<or> \<not> inTable fd t \<or> t ! nat fd = None")
    case True
    then show ?thesis using Cons unfolding e by (auto split: if_splits)
  next
    case False
    then obtain x where x: "t ! nat fd = Some x" by auto
    obtain u reg where c: "collect (regs x) (readyOf ev) (closedOf ev) = (u, reg)" by fastforce
    obtain us' where "epoll_dispatch wakeFd t (regs(x := reg)) rest = (us', regs')"
      using Cons.prems False x c unfolding e by (auto split: prod.splits)
    then have "same_place (regs' r) ((regs(x := reg)) r)" by (rule Cons.IH)
    then show ?thesis using same_place_trans [OF _ collect_same_place [OF c]] by (cases "r = x") auto
  qed
qed simp

lemma epoll_dispatch_frame:
  assumes "epoll_dispatch wakeFd t regs events = (us, regs')" "\<And>fd. epoll_lookup t fd \<noteq> Some r"
  shows "regs' r = regs r"
  using assms(1)
proof (induction events arbitrary: us regs regs')
  case (Cons e rest)
  obtain fd ev where e: "e = (fd, ev)" by (cases e)
  have "inTable fd t \<Longrightarrow> t ! nat fd \<noteq> Some r" using assms(2) [of fd] by (simp add: epoll_lookup_def)
  then show ?case
    using Cons.prems Cons.IH [of regs _ regs'] unfolding e
    by (auto split: if_splits option.splits prod.splits dest: Cons.IH)
qed simp

lemma length_resized [simp]: "length (resized t n x) = max (length t) n"
  by (auto simp: resized_def)

lemma epoll_lookup_resized: "epoll_lookup (resized t n None) = epoll_lookup t"
  by (rule ext) (auto simp: epoll_lookup_def inTable_def resized_def nth_append)

lemma epoll_lookup_update: "inTable fd t \<Longrightarrow> epoll_lookup (t[nat fd := v]) = (epoll_lookup t)(fd := v)"
  by (rule ext) (auto simp: epoll_lookup_def inTable_def nth_list_update)

interpretation epoll: poller epoll_lookup epoll_add epoll_remove epoll_arm "epoll_report wakeFd"
proof
  show "epoll_lookup t fd = None \<and> epoll_lookup t' = (epoll_lookup t)(fd := Some r)" if "epoll_add t r fd a = (None, t')" for t r fd a t'
  proof -
    define t1 where "t1 = (if nat fd \<ge> length t then resized t (nat fd + 1) None else t)"
    have fd: "inTable fd t1" "t1 ! nat fd = None" "t' = t1[nat fd := Some r]"
      using that unfolding epoll_add_def t1_def [symmetric] Let_def
      by (auto simp: inTable_def t1_def split: if_splits option.splits)
    moreover have "epoll_lookup t1 = epoll_lookup t" by (simp add: t1_def epoll_lookup_resized)
    ultimately show ?thesis using epoll_lookup_update [of fd t1 "Some r"] by (metis epoll_lookup_def)
  qed
next
  show "epoll_lookup t' = epoll_lookup t" if "epoll_add t r fd a = (Some err, t')" for t r fd a err t'
  proof -
    define t1 where "t1 = (if nat fd \<ge> length t then resized t (nat fd + 1) None else t)"
    have "t' = t \<or> t' = t1 \<or> inTable fd t1 \<and> t1 ! nat fd = None \<and> t' = t1[nat fd := None]"
      using that unfolding epoll_add_def t1_def [symmetric] Let_def
      by (auto simp: inTable_def t1_def split: if_splits option.splits)
    moreover have "epoll_lookup t1 = epoll_lookup t" by (simp add: t1_def epoll_lookup_resized)
    ultimately show ?thesis by (metis list_update_id)
  qed
next
  show "epoll_lookup (epoll_remove t r fd) = (if epoll_lookup t fd = Some r then (epoll_lookup t)(fd := None) else epoll_lookup t)" for t r fd
    using epoll_lookup_update [of fd t None] by (auto simp: epoll_remove_def epoll_lookup_def)
qed (auto simp: epoll_arm_def epoll_report_def epoll_dispatch_place dest: epoll_dispatch_frame split: prod.splits)

lemma poll_lookup_resized: "poll_lookup (resized t n \<lparr>pe_registration = None, pe_events = 0\<rparr>) = poll_lookup t"
  by (rule ext) (auto simp: poll_lookup_def inTable_def resized_def nth_append)

lemma poll_lookup_update: "inTable fd t \<Longrightarrow> poll_lookup (t[nat fd := v]) = (poll_lookup t)(fd := pe_registration v)"
  by (rule ext) (auto simp: poll_lookup_def inTable_def nth_list_update)

lemma collectLocked_law:
  assumes "collectLocked t regs fd revents = (us, t', regs')"
  shows "poll_lookup t' = poll_lookup t" "same_place (regs' r) (regs r)"
    and "(\<And>d. poll_lookup t d \<noteq> Some r) \<Longrightarrow> regs' r = regs r"
proof -
  show "poll_lookup t' = poll_lookup t"
    using assms by (auto simp: collectLocked_def poll_lookup_def fun_eq_iff Let_def nth_list_update inTable_def split: if_splits option.splits prod.splits)
  show "same_place (regs' r) (regs r)"
    using assms by (auto simp: collectLocked_def Let_def split: if_splits option.splits prod.splits dest: collect_same_place)
  show "regs' r = regs r" if *: "\<And>d. poll_lookup t d \<noteq> Some r"
    using assms * [of "int fd"] by (auto simp: collectLocked_def Let_def poll_lookup_def inTable_def split: if_splits option.splits prod.splits)
qed

lemma poll_dispatch_law:
  assumes "poll_dispatch t regs items = (us, t', regs')"
  shows "poll_lookup t' = poll_lookup t \<and> same_place (regs' r) (regs r) \<and> ((\<forall>d. poll_lookup t d \<noteq> Some r) \<longrightarrow> regs' r = regs r)"
  using assms
proof (induction t regs items arbitrary: us t' regs' rule: poll_dispatch.induct)
  case (2 t regs fd revents rest)
  show ?case
  proof (cases "revents = 0")
    case False
    obtain us1 t1 regs1 where c: "collectLocked t regs fd revents = (us1, t1, regs1)" by (cases "collectLocked t regs fd revents")
    obtain us2 t2 regs2 where d: "poll_dispatch t1 regs1 rest = (us2, t2, regs2)" by (cases "poll_dispatch t1 regs1 rest")
    have "t' = t2" "regs' = regs2" using "2.prems" False c d by auto
    then show ?thesis
      using "2.IH"(1) [OF False c [symmetric] refl refl d] collectLocked_law [OF c] same_place_trans by metis
  qed (use 2 in simp)
qed simp

interpretation poll: poller poll_lookup poll_add_op poll_remove poll_arm poll_dispatch
proof
  define e0 where "e0 = \<lparr>pe_registration = None, pe_events = 0\<rparr>"
  show "poll_lookup t fd = None \<and> poll_lookup t' = (poll_lookup t)(fd := Some r)" if "poll_add_op t r fd a = (None, t')" for t r fd a t'
  proof -
    define t1 where "t1 = (if nat fd \<ge> length t then resized t (nat fd + 1) e0 else t)"
    have fd: "inTable fd t1" "pe_registration (t1 ! nat fd) = None" "t' = t1[nat fd := \<lparr>pe_registration = Some r, pe_events = 0\<rparr>]"
      using that unfolding poll_add_op_def poll_add_def e0_def [symmetric] t1_def [symmetric] Let_def
      by (auto simp: inTable_def t1_def split: if_splits)
    moreover have "poll_lookup t1 = poll_lookup t" by (simp add: t1_def e0_def poll_lookup_resized)
    ultimately show ?thesis using poll_lookup_update [of fd t1 "\<lparr>pe_registration = Some r, pe_events = 0\<rparr>"]
      by (metis poll_lookup_def pollEntry.select_convs(1))
  qed
  show "poll_lookup t' = poll_lookup t" if "poll_add_op t r fd a = (Some err, t')" for t r fd a err t'
    using that by (auto simp: poll_add_op_def poll_add_def Let_def poll_lookup_resized split: if_splits)
next
  show "poll_lookup (poll_remove t r fd) = (if poll_lookup t fd = Some r then (poll_lookup t)(fd := None) else poll_lookup t)" for t r fd
    using poll_lookup_update [of fd t "\<lparr>pe_registration = None, pe_events = 0\<rparr>"] by (auto simp: poll_remove_def poll_lookup_def)
next
  show "poll_lookup (snd (poll_arm t r fd d)) = poll_lookup t" for t r fd d
    using poll_lookup_update [of fd t "(t ! nat fd)\<lparr>pe_events := pe_events (t ! nat fd) OR watchedBits d\<rparr>"]
    by (auto simp: poll_arm_def poll_lookup_def [of t fd])
qed (use poll_dispatch_law in blast)+

definition polling_start :: "'t \<Rightarrow> 't polling" where
  "polling_start t = \<lparr>po_table = t, po_regs = (\<lambda>_. registration_new (-1) False None), po_alive = (\<lambda>_. False)\<rparr>"

lemma polling_start_inv: "polling_inv epoll_lookup (polling_start [])" "polling_inv poll_lookup (polling_start [])"
  by (auto simp: polling_inv_def mutual_def registeredAt_def polling_start_def epoll_lookup_def poll_lookup_def inTable_def)

definition epoll_do :: "int \<Rightarrow> (int option, (int \<times> u32) list) poller_op \<Rightarrow> nat option list polling \<Rightarrow> nat option list polling" where
  "epoll_do wakeFd = poller_do epoll_add epoll_remove epoll_arm (epoll_report wakeFd)"

definition poll_do :: "(unit, (nat \<times> u32) list) poller_op \<Rightarrow> pollEntry list polling \<Rightarrow> pollEntry list polling" where
  "poll_do = poller_do poll_add_op poll_remove poll_arm poll_dispatch"

text \<open>C36: Once a registration has been destroyed no report of either poller writes to it any more, whatever
  is registered, removed, armed and reported afterwards (events for its descriptor that the kernel had
  already returned, and reuse of the descriptor, included), until an object is constructed in its place.\<close>

theorem no_report_after_destruction:
  assumes "\<And>x. x \<in> set later \<Longrightarrow> \<not> constructs r x" "\<And>x. x \<in> set later' \<Longrightarrow> \<not> constructs r x"
  shows "po_regs (fold (epoll_do wakeFd) (before @ Destroy r # later) (polling_start [])) r
       = po_regs (fold (epoll_do wakeFd) before (polling_start [])) r
    \<and> po_regs (fold poll_do (before' @ Destroy r # later') (polling_start [])) r
       = po_regs (fold poll_do before' (polling_start [])) r"
  using epoll.destroyed_run [OF epoll.run_inv [OF polling_start_inv(1), where xs = before and wakeFd = wakeFd], where xs = later and r = r and wakeFd = wakeFd]
    poll.destroyed_run [OF poll.run_inv [OF polling_start_inv(2), where xs = before'], where xs = later' and r = r] assms
  by (simp add: epoll_do_def poll_do_def del: poller_do.simps)

text \<open>A descriptor is reused between an event and its dispatch: registration 0 is destroyed, 1 takes its descriptor.\<close>

theorem no_report_after_destruction_witness:
  "po_regs (fold (epoll_do 3) ([Construct 0 5 True None, Report [(5, 1)]] @ Destroy 0 # [Construct 1 5 True None, Report [(5, 1)]]) (polling_start [])) 0
       = po_regs (fold (epoll_do 3) [Construct 0 5 True None, Report [(5, 1)]] (polling_start [])) 0
    \<and> po_regs (fold poll_do ([Construct 0 5 False (), Arm 0 Readable, Report [(5, 1)]] @ Destroy 0 # [Construct 1 5 False (), Report [(5, 1)]]) (polling_start [])) 0
       = po_regs (fold poll_do [Construct 0 5 False (), Arm 0 Readable, Report [(5, 1)]] (polling_start [])) 0"
  by (rule no_report_after_destruction) auto

section \<open>Timeouts\<close>

lemma millisOf_bounds:
  assumes "0 \<le> t" "t \<le> (2 ^ 31 - 1) * 1000000"
  shows "t \<le> millisOf t * 1000000 \<and> millisOf t * 1000000 < t + 1000000"
proof -
  define ms where "ms = t div 1000000"
  define up where "up = ms + (if ms * 1000000 < t then 1 else 0)"
  have split: "t = ms * 1000000 + t mod 1000000" "0 \<le> t mod 1000000" "t mod 1000000 < 1000000"
    by (simp_all add: ms_def)
  then have near: "t \<le> up * 1000000" "up * 1000000 < t + 1000000" by (auto simp: up_def)
  have "0 \<le> up" "up < 2 ^ 31" using near assms by auto
  then have "millisOf t = up"
    unfolding millisOf_def Let_def ms_def [symmetric] up_def [symmetric] using assms(1)
    by (simp add: signed_take_bit_int_eq_self)
  then show ?thesis using near by simp
qed

text \<open>A timeout a little above \<open>2 ^ 31\<close> milliseconds becomes negative, which the kernel takes for none.\<close>

lemma millisOf_wraps: "millisOf (2 ^ 31 * 1000000) = - (2 ^ 31)"
  by (simp add: millisOf_def signed_take_bit_def take_bit_eq_mod Let_def mask_eq_exp_minus_1 not_int_def)

text \<open>For timeouts of up to 2^31 - 1 milliseconds the pollers ask the kernel to wait for at least the given
  time and for less than a millisecond more, so a timer is never fired early by the coarser clock;
  a negative timeout is passed on as \<open>-1\<close>, to wait without a limit.\<close>

theorem poll_timeout_rounds_up:
  assumes "t \<le> (2 ^ 31 - 1) * 1000000"
  shows "if 0 \<le> t then t \<le> millisOf t * 1000000 \<and> millisOf t * 1000000 < t + 1000000 else millisOf t = -1"
proof (cases "0 \<le> t")
  case True
  then show ?thesis using millisOf_bounds [OF True assms] by simp
next
  case False
  then show ?thesis by (simp add: millisOf_def)
qed

theorem poll_timeout_rounds_up_witness:
  "(1500001 \<le> millisOf 1500001 * 1000000 \<and> millisOf 1500001 * 1000000 < 1500001 + 1000000) \<and> millisOf (-5) = -1"
  using poll_timeout_rounds_up [of 1500001] poll_timeout_rounds_up [of "-5"] by simp

end
