(* ===== verification/Io_Readiness.thy ===== *)
theory Io_Readiness
  imports Io_Registration
begin

text \<open>
  Transfers on a registered descriptor while a poller reports readiness, access by access: the retry loop of
  \<^verbatim>\<open>io/Async.h\<close> (\<^verbatim>\<open>retryWhenReady\<close>, \<^verbatim>\<open>tryCall\<close>), \<^verbatim>\<open>Registration::waitFor\<close>, and a pass of \<^verbatim>\<open>EpollPoller::wait\<close> or
  \<^verbatim>\<open>PollPoller::wait\<close> for this descriptor.  One party at a time transfers in each direction.  The kernel is
  what the manual pages document: it has some amount of bytes to read or room to write (\<open>rs_avail\<close>) and may have ended
  a direction (\<open>rs_hup\<close>); with edge triggering every arrival makes the next \<^verbatim>\<open>epoll_wait\<close> report the
  descriptor, and a short transfer on a byte stream has used up all there was; \<^verbatim>\<open>poll\<close> reports a watched
  direction that is ready, or the self-pipe, at once.
\<close>

section \<open>The model\<close>

datatype dir = Rd | Wr

definition bitOf :: "dir \<Rightarrow> interest" where
  "bitOf d = (case d of Rd \<Rightarrow> Readable | Wr \<Rightarrow> Writable)"

text \<open>
  The transferring party: outside; has read the count and will attempt the call; the attempt would
  block; in \<^verbatim>\<open>waitFor\<close> before the lock; with its waker stored, about to arm and then to poke the poller
  (one-shot pollers only); at the loop's check; blocked; timed out; leaving.
\<close>

datatype party =
    Outside | Attempt u32 | WouldBlock u32 | Locking u32 waker | Arming u32 waker | Poking u32 waker
  | Checking u32 waker | Blocked u32 waker | Timed u32 waker | Leaving u32 waker

text \<open>The polling thread: between passes; asleep in \<^verbatim>\<open>poll\<close> with the bits of the snapshot; about to drain the
  pipe; with the kernel's report; waking the collected wakers.\<close>

datatype polling_pc = PIdle | PAsleep u32 | PDrain u32 bool | PGot u32 | PWake "waker list"

text \<open>The last three fields are ghosts: the number of reports, and how many there were when the party read the
  count and when it noted its last transfer.\<close>

record readiness =
  rs_reg :: registration
  rs_entry :: pollEntry
  rs_pc :: "dir \<Rightarrow> party"
  rs_token :: "waker \<Rightarrow> bool"
  rs_poller :: polling_pc
  rs_pipe :: bool
  rs_avail :: "dir \<Rightarrow> nat"
  rs_hup :: "dir \<Rightarrow> bool"
  rs_edge :: "dir \<Rightarrow> bool"
  rs_reports :: "dir \<Rightarrow> nat"
  rs_gseen :: "dir \<Rightarrow> nat"
  rs_gex :: "dir \<Rightarrow> nat"

abbreviation dslot :: "readiness \<Rightarrow> dir \<Rightarrow> direction" where
  "dslot s d \<equiv> slot (rs_reg s) (bitOf d)"

abbreviation every :: "readiness \<Rightarrow> bool" where
  "every s \<equiv> rg_everyArrivalReported (rs_reg s)"

definition goto :: "readiness \<Rightarrow> dir \<Rightarrow> party \<Rightarrow> readiness" where
  "goto s d p = s\<lparr>rs_pc := (rs_pc s)(d := p)\<rparr>"

definition level :: "readiness \<Rightarrow> dir \<Rightarrow> bool" where
  "level s d \<longleftrightarrow> rs_avail s d > 0 \<or> rs_hup s d"

definition watches :: "u32 \<Rightarrow> dir \<Rightarrow> bool" where
  "watches bits d \<longleftrightarrow> bits AND watchedBits (bitOf d) \<noteq> 0"

fun wakerOf :: "party \<Rightarrow> waker option" where
  "wakerOf (Locking x me) = Some me"
| "wakerOf (Arming x me) = Some me"
| "wakerOf (Poking x me) = Some me"
| "wakerOf (Checking x me) = Some me"
| "wakerOf (Blocked x me) = Some me"
| "wakerOf (Timed x me) = Some me"
| "wakerOf (Leaving x me) = Some me"
| "wakerOf _ = None"

text \<open>A pass over the reports has changed the registration: the ghosts follow.\<close>

definition reported :: "readiness \<Rightarrow> registration \<Rightarrow> pollEntry \<Rightarrow> waker list \<Rightarrow> readiness" where
  "reported s r e ws = s\<lparr>rs_reg := r, rs_entry := e, rs_poller := PWake ws,
     rs_reports := (\<lambda>d. rs_reports s d + (if dn_events (slot r (bitOf d)) \<noteq> dn_events (dslot s d) then 1 else 0))\<rparr>"

definition wakersOf :: "wakeups list \<Rightarrow> waker list" where
  "wakersOf us = concat (map (\<lambda>u. [wu_reader u, wu_writer u]) us)"

text \<open>The party that transfers in direction \<open>d\<close>.\<close>

inductive party_step :: "dir \<Rightarrow> readiness \<Rightarrow> readiness \<Rightarrow> bool" where
  ReadCount: "rs_pc s d = Outside \<Longrightarrow>
    party_step d s ((goto s d (Attempt (dn_events (dslot s d))))\<lparr>rs_gseen := (rs_gseen s)(d := rs_reports s d)\<rparr>)"
| Skip: "rs_pc s d = Attempt seen \<Longrightarrow> exhausted (rs_reg s) (bitOf d) seen \<Longrightarrow> party_step d s (goto s d (WouldBlock seen))"
| Moved: "rs_pc s d = Attempt seen \<Longrightarrow> \<not> exhausted (rs_reg s) (bitOf d) seen \<Longrightarrow> 0 < k \<Longrightarrow> k \<le> asked \<Longrightarrow> k \<le> rs_avail s d \<Longrightarrow>
    (rg_byteStream (rs_reg s) \<Longrightarrow> k < asked \<Longrightarrow> k = rs_avail s d) \<Longrightarrow>
    party_step d s ((goto s d Outside)\<lparr>rs_reg := noteTransfer (rs_reg s) (bitOf d) seen k asked,
      rs_avail := (rs_avail s)(d := rs_avail s d - k), rs_gex := (rs_gex s)(d := rs_gseen s d)\<rparr>)"
| Ended: "rs_pc s d = Attempt seen \<Longrightarrow> \<not> exhausted (rs_reg s) (bitOf d) seen \<Longrightarrow> rs_hup s d \<Longrightarrow>
    party_step d s ((goto s d Outside)\<lparr>rs_reg := noteTransfer (rs_reg s) (bitOf d) seen 0 asked, rs_gex := (rs_gex s)(d := rs_gseen s d)\<rparr>)"
| Failed: "rs_pc s d = Attempt seen \<Longrightarrow> \<not> exhausted (rs_reg s) (bitOf d) seen \<Longrightarrow> party_step d s (goto s d Outside)"
| Again: "rs_pc s d = Attempt seen \<Longrightarrow> \<not> exhausted (rs_reg s) (bitOf d) seen \<Longrightarrow> \<not> level s d \<Longrightarrow> party_step d s (goto s d (WouldBlock seen))"
| WaitNot: "rs_pc s d = WouldBlock seen \<Longrightarrow> dn_events (dslot s d) \<noteq> seen \<Longrightarrow> party_step d s (goto s d Outside)"
| WaitEnter: "rs_pc s d = WouldBlock seen \<Longrightarrow> dn_events (dslot s d) = seen \<Longrightarrow> (\<And>d'. wakerOf (rs_pc s d') \<noteq> Some me) \<Longrightarrow>
    party_step d s (goto s d (Locking seen me))"
| StoreNot: "rs_pc s d = Locking seen me \<Longrightarrow> waitFor_store (rs_reg s) (bitOf d) seen me = (False, r) \<Longrightarrow>
    party_step d s ((goto s d Outside)\<lparr>rs_reg := r\<rparr>)"
| Store: "rs_pc s d = Locking seen me \<Longrightarrow> waitFor_store (rs_reg s) (bitOf d) seen me = (True, r) \<Longrightarrow>
    party_step d s ((goto s d (if every s then Checking seen me else Arming seen me))\<lparr>rs_reg := r\<rparr>)"
| Arm: "rs_pc s d = Arming seen me \<Longrightarrow> poll_arm [rs_entry s] 0 0 (bitOf d) = (None, [e]) \<Longrightarrow>
    party_step d s ((goto s d (Poking seen me))\<lparr>rs_entry := e\<rparr>)"
| Poke: "rs_pc s d = Poking seen me \<Longrightarrow> party_step d s ((goto s d (Checking seen me))\<lparr>rs_pipe := True\<rparr>)"
| CheckDone: "rs_pc s d = Checking seen me \<Longrightarrow> dn_events (dslot s d) \<noteq> seen \<Longrightarrow> party_step d s (goto s d Outside)"
| CheckBlock: "rs_pc s d = Checking seen me \<Longrightarrow> dn_events (dslot s d) = seen \<Longrightarrow> party_step d s (goto s d (Blocked seen me))"
| Woken: "rs_pc s d = Blocked seen me \<Longrightarrow> rs_token s me \<Longrightarrow>
    party_step d s ((goto s d (Checking seen me))\<lparr>rs_token := (rs_token s)(me := False)\<rparr>)"
| Spurious: "rs_pc s d = Blocked seen me \<Longrightarrow> party_step d s (goto s d (Checking seen me))"
| TimesOut: "rs_pc s d = Blocked seen me \<Longrightarrow> party_step d s (goto s d (Timed seen me))"
| TimedLate: "rs_pc s d = Timed seen me \<Longrightarrow> dn_events (dslot s d) \<noteq> seen \<Longrightarrow> party_step d s (goto s d Outside)"
| TimedLeave: "rs_pc s d = Timed seen me \<Longrightarrow> dn_events (dslot s d) = seen \<Longrightarrow> party_step d s (goto s d (Leaving seen me))"
| Unwind: "rs_pc s d = Blocked seen me \<Longrightarrow> party_step d s (goto s d (Leaving seen me))"
| Detach: "rs_pc s d = Leaving seen me \<Longrightarrow> party_step d s ((goto s d Outside)\<lparr>rs_reg := detach (rs_reg s) (bitOf d) me\<rparr>)"

text \<open>The kernel, other wakers of the same tasks, and the polling thread.\<close>

inductive around_step :: "readiness \<Rightarrow> readiness \<Rightarrow> bool" where
  Arrive: "0 < k \<Longrightarrow> around_step s (s\<lparr>rs_avail := (rs_avail s)(d := rs_avail s d + k), rs_edge := (rs_edge s)(d := True)\<rparr>)"
| HangUp: "around_step s (s\<lparr>rs_hup := (rs_hup s)(d := True), rs_edge := (rs_edge s)(d := True)\<rparr>)"
| Nudge: "around_step s (s\<lparr>rs_token := (rs_token s)(w := True)\<rparr>)"
| EpollReturn: "every s \<Longrightarrow> rs_poller s = PIdle \<Longrightarrow> (\<And>d. rs_edge s d \<Longrightarrow> has (readyOf ev) (bitOf d)) \<Longrightarrow>
    (\<And>d. rs_hup s d \<Longrightarrow> has (closedOf ev) (bitOf d)) \<Longrightarrow>
    around_step s (s\<lparr>rs_poller := PGot ev, rs_edge := (\<lambda>_. False)\<rparr>)"
| PollEnter: "\<not> every s \<Longrightarrow> rs_poller s = PIdle \<Longrightarrow> around_step s (s\<lparr>rs_poller := PAsleep (pe_events (rs_entry s))\<rparr>)"
| PollReturn: "\<not> every s \<Longrightarrow> rs_poller s = PAsleep bits \<Longrightarrow> (\<And>d. watches bits d \<Longrightarrow> level s d \<Longrightarrow> has (poll_ready ev) (bitOf d)) \<Longrightarrow>
    (bits = 0 \<Longrightarrow> ev = 0) \<Longrightarrow> around_step s (s\<lparr>rs_poller := PDrain ev (rs_pipe s)\<rparr>)"
| Drain: "rs_poller s = PDrain ev p \<Longrightarrow> around_step s (s\<lparr>rs_pipe := (rs_pipe s \<and> \<not> p), rs_poller := PGot ev\<rparr>)"
| Wake: "rs_poller s = PWake (w # ws) \<Longrightarrow> around_step s (s\<lparr>rs_token := (rs_token s)(w := True), rs_poller := PWake ws\<rparr>)"
| WakeDone: "rs_poller s = PWake [] \<Longrightarrow> around_step s (s\<lparr>rs_poller := PIdle\<rparr>)"

text \<open>A pass over what the kernel returned, under the lock of the table.\<close>

inductive pass_step :: "readiness \<Rightarrow> readiness \<Rightarrow> bool" where
  EpollCollect: "every s \<Longrightarrow> rs_poller s = PGot ev \<Longrightarrow>
    epoll_dispatch 1 [Some 0] (\<lambda>_. rs_reg s) [(0, ev)] = (us, regs) \<Longrightarrow>
    pass_step s (reported s (regs 0) (rs_entry s) (wakersOf us))"
| PollCollect: "\<not> every s \<Longrightarrow> rs_poller s = PGot ev \<Longrightarrow> poll_dispatch [rs_entry s] (\<lambda>_. rs_reg s) [(0, ev)] = (us, [e], regs) \<Longrightarrow>
    pass_step s (reported s (regs 0) e (wakersOf us))"

inductive rd_step :: "readiness \<Rightarrow> readiness \<Rightarrow> bool" where
  Party: "party_step d s s' \<Longrightarrow> rd_step s s'"
| Around: "around_step s s' \<Longrightarrow> rd_step s s'"
| Pass: "pass_step s s' \<Longrightarrow> rd_step s s'"

definition rd_init :: "bool \<Rightarrow> Kind \<Rightarrow> readiness \<Rightarrow> bool" where
  "rd_init reportsAll kind s \<longleftrightarrow>
     rs_reg s = setKind (registration_new 0 reportsAll None) kind \<and> rs_entry s = \<lparr>pe_registration = Some 0, pe_events = 0\<rparr>
   \<and> rs_pc s = (\<lambda>_. Outside) \<and> rs_poller s = PIdle \<and> rs_reports s = (\<lambda>_. 0) \<and> rs_gseen s = (\<lambda>_. 0) \<and> rs_gex s = (\<lambda>_. 0)
   \<and> (\<forall>d. rs_edge s d \<longleftrightarrow> level s d)"

section \<open>What a pass over the reports does\<close>

lemma bitOf_cases: "bitOf d = Readable \<longleftrightarrow> d = Rd" "bitOf Rd = Readable" "bitOf Wr = Writable" "Writable \<noteq> Readable"
  by (cases d) (simp_all add: bitOf_def Readable_def Writable_def)

lemma slot_updSlot: "slot (updSlot r (bitOf d) f) (bitOf d') = (if d = d' then f (slot r (bitOf d)) else slot r (bitOf d'))"
  by (cases d; cases d') (simp_all add: slot_def updSlot_def bitOf_cases)

lemma updSlot_fields [simp]:
  "rg_everyArrivalReported (updSlot r b f) = rg_everyArrivalReported r" "rg_byteStream (updSlot r b f) = rg_byteStream r"
  by (simp_all add: updSlot_def)

lemma slot_collect:
  "slot (snd (collect r ready closed)) (bitOf d) =
     (let m = slot r (bitOf d); m1 = m\<lparr>dn_closed := dn_closed m \<or> has closed (bitOf d)\<rparr> in
      if has ready (bitOf d) then m1\<lparr>dn_events := dn_events m + 1, dn_waker := waker_empty\<rparr> else m1)"
  by (cases d) (auto simp: collect_def slot_def bitOf_cases Let_def)

lemma wakers_collect: "has ready (bitOf d) \<Longrightarrow> dn_waker (slot r (bitOf d)) \<in> set (wakersOf [fst (collect r ready closed)])"
  by (cases d) (auto simp: collect_def slot_def bitOf_cases Let_def wakersOf_def)

lemma collect_fields:
  "rg_everyArrivalReported (snd (collect r ready closed)) = rg_everyArrivalReported r"
  "rg_byteStream (snd (collect r ready closed)) = rg_byteStream r"
  by (simp_all add: collect_def Let_def)

lemma epoll_pass:
  "epoll_dispatch 1 [Some 0] (\<lambda>_. r) [(0, ev)] = (us, regs) \<longleftrightarrow>
     us = [fst (collect r (readyOf ev) (closedOf ev))] \<and> regs = (\<lambda>_. r)(0 := snd (collect r (readyOf ev) (closedOf ev)))"
  by (auto simp: inTable_def split: prod.splits)

text \<open>The bits of a poll entry: collecting takes a direction out exactly when it is reported.\<close>

lemma closed_ready: "has (closedOf ev) (bitOf d) \<Longrightarrow> has (readyOf ev) (bitOf d)"
  by (cases d) (auto simp: closedOf_def readyOf_def has_def bitOf_cases Readable_def Writable_def Let_def bit.conj_disj_distrib or_eq_0_iff split: if_splits)

lemma watches_bit: "watches b d \<longleftrightarrow> bit b (case d of Rd \<Rightarrow> 0 | Wr \<Rightarrow> 2)"
  using and_exp_eq_0_iff_not_bit [of b 0] and_exp_eq_0_iff_not_bit [of b 2]
  by (cases d) (simp_all add: watches_def watchedBits_def bitOf_cases has_def Readable_def Writable_def POLLIN_def POLLOUT_def)

lemma bits_at: "bit POLLIN n \<longleftrightarrow> n = 0" "bit POLLOUT n \<longleftrightarrow> n = 2"
  using bit_exp_iff [where m = 2 and n = n and 'a = u32]
  by (auto simp: POLLIN_def POLLOUT_def bit_1_iff bit_exp_iff)

lemma watches_unwatched: "watches (unwatched b ready) d \<longleftrightarrow> watches b d \<and> \<not> has ready (bitOf d)"
  by (cases d) (auto simp: watches_bit unwatched_def Let_def bitOf_cases bit_and_iff bit_not_iff bits_at)

lemma watches_armed: "watches (b OR watchedBits (bitOf d)) d' \<longleftrightarrow> watches b d' \<or> d = d'"
  by (cases d; cases d') (auto simp: watches_bit watchedBits_def Let_def bitOf_cases bit_or_iff bits_at has_def Readable_def Writable_def)

lemma watches_0 [simp]: "\<not> watches 0 d"
  by (simp add: watches_def)

lemma poll_pass:
  assumes "poll_dispatch [e] (\<lambda>_. r) [(0, ev)] = (us, [e'], regs)" "pe_registration e = Some 0"
  shows "pe_registration e' = Some 0"
    and "ev \<noteq> 0 \<and> pe_events e \<noteq> 0 \<Longrightarrow> us = [fst (collect r (poll_ready ev) (poll_closed ev))]
      \<and> regs 0 = snd (collect r (poll_ready ev) (poll_closed ev)) \<and> pe_events e' = unwatched (pe_events e) (poll_ready ev)"
    and "\<not> (ev \<noteq> 0 \<and> pe_events e \<noteq> 0) \<Longrightarrow> us = [] \<and> regs 0 = r \<and> (\<forall>d. watches (pe_events e') d \<longleftrightarrow> watches (pe_events e) d)"
proof -
  show "pe_registration e' = Some 0"
    using assms by (auto simp: collectLocked_def Let_def split: if_splits prod.splits)
  show "us = [fst (collect r (poll_ready ev) (poll_closed ev))]
      \<and> regs 0 = snd (collect r (poll_ready ev) (poll_closed ev)) \<and> pe_events e' = unwatched (pe_events e) (poll_ready ev)"
    if "ev \<noteq> 0 \<and> pe_events e \<noteq> 0"
    using that assms by (auto simp: collectLocked_def Let_def split: prod.splits)
  show "us = [] \<and> regs 0 = r \<and> (\<forall>d. watches (pe_events e') d \<longleftrightarrow> watches (pe_events e) d)" if "\<not> (ev \<noteq> 0 \<and> pe_events e \<noteq> 0)"
    using that assms by (auto simp: collectLocked_def Let_def watches_unwatched split: if_splits prod.splits)
qed

lemma poll_ready_0: "poll_ready 0 = 0"
  by (simp add: poll_ready_def)

lemma count_exact:
  assumes "of_nat a = (of_nat b :: u32)" "a \<le> b" "b - a < 2 ^ 32"
  shows "a = b"
proof -
  have "b mod 2 ^ 32 = a mod 2 ^ 32" using assms(1) by (simp add: word_of_nat_eq_iff take_bit_eq_mod)
  then have "2 ^ 32 dvd b - a" using assms(2) by (simp add: mod_eq_dvd_iff_nat)
  then show ?thesis using assms(2,3) by (metis bot_nat_0.not_eq_extremum diff_is_0_eq le_antisym nat_dvd_not_less)
qed

section \<open>Invariant\<close>

fun seenOf :: "party \<Rightarrow> u32 option" where
  "seenOf Outside = None"
| "seenOf (Attempt x) = Some x"
| "seenOf (WouldBlock x) = Some x"
| "seenOf (Locking x me) = Some x"
| "seenOf (Arming x me) = Some x"
| "seenOf (Poking x me) = Some x"
| "seenOf (Checking x me) = Some x"
| "seenOf (Blocked x me) = Some x"
| "seenOf (Timed x me) = Some x"
| "seenOf (Leaving x me) = Some x"

text \<open>The attempt would have blocked; the waker is stored; the entry is armed; the poller has been poked.\<close>

fun stored :: "party \<Rightarrow> bool" where
  "stored (Arming x me) = True"
| "stored (Poking x me) = True"
| "stored (Checking x me) = True"
| "stored (Blocked x me) = True"
| "stored (Timed x me) = True"
| "stored _ = False"

fun armed :: "party \<Rightarrow> bool" where
  "armed (Poking x me) = True"
| "armed (Checking x me) = True"
| "armed (Blocked x me) = True"
| "armed (Timed x me) = True"
| "armed _ = False"

fun poked :: "party \<Rightarrow> bool" where
  "poked (Checking x me) = True"
| "poked (Blocked x me) = True"
| "poked (Timed x me) = True"
| "poked _ = False"

fun blocks :: "party \<Rightarrow> bool" where
  "blocks Outside = False"
| "blocks (Attempt x) = False"
| "blocks _ = True"

text \<open>The count has not gone once around since it was read, nor since the last transfer ran dry.\<close>

definition fresh :: "readiness \<Rightarrow> dir \<Rightarrow> bool" where
  "fresh s d \<longleftrightarrow> rs_reports s d - rs_gseen s d < 2 ^ 32 \<and> (dn_exhausted (dslot s d) \<longrightarrow> rs_reports s d - rs_gex s d < 2 ^ 32)"

definition pending :: "readiness \<Rightarrow> dir \<Rightarrow> bool" where
  "pending s d \<longleftrightarrow> rs_edge s d \<or> (\<exists>ev. rs_poller s = PGot ev \<and> has (readyOf ev) (bitOf d))"

definition waking :: "readiness \<Rightarrow> waker \<Rightarrow> bool" where
  "waking s w \<longleftrightarrow> rs_token s w \<or> (\<exists>ws. rs_poller s = PWake ws \<and> w \<in> set ws)"

definition count_inv :: "readiness \<Rightarrow> dir \<Rightarrow> bool" where
  "count_inv s d \<longleftrightarrow> dn_events (dslot s d) = of_nat (rs_reports s d) \<and> rs_gseen s d \<le> rs_reports s d \<and> rs_gex s d \<le> rs_gseen s d
     \<and> (dn_exhausted (dslot s d) \<longrightarrow> dn_exhaustedAt (dslot s d) = of_nat (rs_gex s d))
     \<and> (\<forall>x. seenOf (rs_pc s d) = Some x \<longrightarrow> x = of_nat (rs_gseen s d))
     \<and> (rg_byteStream (rs_reg s) \<longrightarrow> every s) \<and> pe_registration (rs_entry s) = Some 0"

definition edge_inv :: "readiness \<Rightarrow> dir \<Rightarrow> bool" where
  "edge_inv s d \<longleftrightarrow> every s \<longrightarrow>
     (dn_exhausted (dslot s d) \<and> rs_gex s d = rs_reports s d \<and> rs_avail s d > 0 \<longrightarrow> pending s d)
   \<and> (rs_hup s d \<longrightarrow> dn_closed (dslot s d) \<or> rs_edge s d \<or> (\<exists>ev. rs_poller s = PGot ev \<and> has (closedOf ev) (bitOf d)))
   \<and> (blocks (rs_pc s d) \<and> rs_gseen s d = rs_reports s d \<and> fresh s d \<and> level s d \<longrightarrow> pending s d)"

definition wait_inv :: "readiness \<Rightarrow> dir \<Rightarrow> bool" where
  "wait_inv s d \<longleftrightarrow>
     (stored (rs_pc s d) \<and> rs_gseen s d = rs_reports s d \<longrightarrow> wakerOf (rs_pc s d) = Some (dn_waker (dslot s d)))
   \<and> (\<forall>x me. rs_pc s d = Blocked x me \<and> rs_gseen s d < rs_reports s d \<and> fresh s d \<longrightarrow> waking s me)"

definition wakersApart :: "readiness \<Rightarrow> bool" where
  "wakersApart s \<longleftrightarrow> (\<forall>d d' me. wakerOf (rs_pc s d) = Some me \<and> wakerOf (rs_pc s d') = Some me \<longrightarrow> d' = d)"

definition armed_inv :: "readiness \<Rightarrow> dir \<Rightarrow> bool" where
  "armed_inv s d \<longleftrightarrow> \<not> every s \<longrightarrow>
     (armed (rs_pc s d) \<and> rs_gseen s d = rs_reports s d \<longrightarrow> watches (pe_events (rs_entry s)) d)
   \<and> (\<forall>b. poked (rs_pc s d) \<and> rs_gseen s d = rs_reports s d \<and> rs_poller s = PAsleep b \<longrightarrow> watches b d \<or> rs_pipe s)"

text \<open>Both pollers' passes as one: a report for \<open>d\<close> bumps the count and takes the waker.\<close>

lemma reported_dir:
  assumes "s' = reported s r e ws" "r = snd (collect (rs_reg s) ready closed)" "ws = wakersOf [fst (collect (rs_reg s) ready closed)]"
  shows "rs_reports s' d = rs_reports s d + (if has ready (bitOf d) then 1 else 0)"
    and "dn_events (dslot s' d) = dn_events (dslot s d) + (if has ready (bitOf d) then 1 else 0)"
    and "dn_exhausted (dslot s' d) = dn_exhausted (dslot s d)" "dn_exhaustedAt (dslot s' d) = dn_exhaustedAt (dslot s d)"
    and "dn_closed (dslot s' d) \<longleftrightarrow> dn_closed (dslot s d) \<or> has closed (bitOf d)"
    and "\<not> has ready (bitOf d) \<Longrightarrow> dn_waker (dslot s' d) = dn_waker (dslot s d)"
    and "has ready (bitOf d) \<Longrightarrow> waking s' (dn_waker (dslot s d))"
    and "every s' = every s" "rg_byteStream (rs_reg s') = rg_byteStream (rs_reg s)" "rs_poller s' = PWake ws" "rs_entry s' = e"
    and "rs_pc s' = rs_pc s" "rs_gseen s' = rs_gseen s" "rs_gex s' = rs_gex s" "rs_token s' = rs_token s" "rs_pipe s' = rs_pipe s"
    and "rs_avail s' = rs_avail s" "rs_hup s' = rs_hup s" "rs_edge s' = rs_edge s"
  using wakers_collect [of ready d "rs_reg s" closed] unfolding assms
  by (simp_all add: reported_def slot_collect Let_def collect_fields waking_def)

lemma reported_nothing:
  assumes "s' = reported s (rs_reg s) e ws"
  shows "s' = s\<lparr>rs_entry := e, rs_poller := PWake ws\<rparr>"
  using assms by (simp add: reported_def)

section \<open>Every step keeps the invariant\<close>

definition dir_inv :: "readiness \<Rightarrow> dir \<Rightarrow> bool" where
  "dir_inv s d \<longleftrightarrow> count_inv s d \<and> edge_inv s d \<and> wait_inv s d \<and> armed_inv s d"

lemma report_count:
  assumes "s' = reported s (snd (collect (rs_reg s) ready closed)) e (wakersOf [fst (collect (rs_reg s) ready closed)])"
    and "count_inv s d" "pe_registration e = Some 0"
  shows "count_inv s' d"
  using assms(2,3) by (simp add: count_inv_def reported_dir [OF assms(1) refl refl])

lemma report_edge:
  assumes "s' = reported s (snd (collect (rs_reg s) ready closed)) e (wakersOf [fst (collect (rs_reg s) ready closed)])"
    and "count_inv s d" "edge_inv s d" "rs_poller s = PGot ev" "every s \<Longrightarrow> ready = readyOf ev \<and> closed = closedOf ev"
  shows "edge_inv s' d"
  using assms(2-5)
  by (auto simp: edge_inv_def count_inv_def pending_def fresh_def level_def reported_dir [OF assms(1) refl refl] split: if_splits)

lemma report_wait:
  assumes "s' = reported s (snd (collect (rs_reg s) ready closed)) e (wakersOf [fst (collect (rs_reg s) ready closed)])"
    and "count_inv s d" "wait_inv s d" "rs_poller s = PGot ev"
  shows "wait_inv s' d"
proof -
  note r = reported_dir [OF assms(1) refl refl]
  have "waking s' me" if "rs_pc s d = Blocked x me" "rs_gseen s d < rs_reports s' d" "fresh s' d" for x me
  proof (cases "rs_gseen s d < rs_reports s d")
    case True
    then have "rs_token s me" using assms(3,4) that by (auto simp: wait_inv_def waking_def fresh_def r split: if_splits)
    then show ?thesis by (simp add: waking_def r)
  next
    case False
    then have "has ready (bitOf d)" "rs_gseen s d = rs_reports s d"
      using that(2) assms(2) by (auto simp: r count_inv_def split: if_splits)
    then show ?thesis using r(7) [of d] assms(3) that(1) by (simp add: wait_inv_def)
  qed
  then show ?thesis using assms(2,3) by (auto simp: wait_inv_def count_inv_def r split: if_splits)
qed

lemma report_armed:
  assumes "s' = reported s (snd (collect (rs_reg s) ready closed)) e (wakersOf [fst (collect (rs_reg s) ready closed)])"
    and "count_inv s d" "armed_inv s d" "\<not> every s \<Longrightarrow> pe_events e = unwatched (pe_events (rs_entry s)) ready"
  shows "armed_inv s' d"
  using assms(2-4) by (auto simp: armed_inv_def count_inv_def reported_dir [OF assms(1) refl refl] watches_unwatched split: if_splits)

text \<open>A party does not touch the other direction, the poller or the kernel's reports.\<close>

lemma party_frame:
  assumes "party_step d s s'"
  shows "rs_poller s' = rs_poller s \<and> rs_edge s' = rs_edge s \<and> rs_hup s' = rs_hup s \<and> rs_reports s' = rs_reports s
    \<and> every s' = every s \<and> rg_byteStream (rs_reg s') = rg_byteStream (rs_reg s) \<and> (rs_pipe s \<longrightarrow> rs_pipe s')
    \<and> pe_registration (rs_entry s') = pe_registration (rs_entry s)"
  using assms by cases (auto simp: goto_def noteTransfer_def waitFor_store_def detach_def poll_arm_def split: if_splits)

lemma party_frame_dir:
  assumes "party_step d s s'" "d' \<noteq> d"
  shows "rs_pc s' d' = rs_pc s d' \<and> dslot s' d' = dslot s d' \<and> rs_avail s' d' = rs_avail s d'
    \<and> rs_gseen s' d' = rs_gseen s d' \<and> rs_gex s' d' = rs_gex s d'"
  using assms by cases (auto simp: goto_def noteTransfer_def waitFor_store_def detach_def slot_updSlot split: if_splits)

lemma party_frame_bits:
  assumes "party_step d s s'" "watches (pe_events (rs_entry s)) d'"
  shows "watches (pe_events (rs_entry s')) d'"
  using assms by cases (auto simp: goto_def poll_arm_def watches_armed split: if_splits)

lemma party_frame_token:
  assumes "party_step d s s'" "rs_token s w" "\<not> rs_token s' w"
  shows "wakerOf (rs_pc s d) = Some w"
  using assms by cases (auto simp: goto_def split: if_splits)

lemma party_waker:
  assumes "party_step d s s'" "wakerOf (rs_pc s' d) = Some me"
  shows "wakerOf (rs_pc s d) = Some me \<or> (\<forall>d'. wakerOf (rs_pc s d') \<noteq> Some me)"
  using assms by cases (auto simp: goto_def split: if_splits)

lemma around_pc: "around_step s s' \<Longrightarrow> rs_pc s' = rs_pc s"
  by (erule around_step.cases) auto

lemma pass_pc: "pass_step s s' \<Longrightarrow> rs_pc s' = rs_pc s"
  by (erule pass_step.cases) (auto simp: reported_def)

lemma wakersApart_step:
  assumes "rd_step s s'" "wakersApart s"
  shows "wakersApart s'"
  using assms(1)
proof cases
  case (Party d)
  have own: "wakerOf (rs_pc s' d) = Some me \<Longrightarrow> wakerOf (rs_pc s d') = Some me \<Longrightarrow> d' = d" for d' me
    using party_waker [OF Party, of me] assms(2) by (auto simp: wakersApart_def)
  have "wakerOf (rs_pc s' d1) = Some me \<Longrightarrow> wakerOf (rs_pc s' d2) = Some me \<Longrightarrow> d2 = d1" for d1 d2 me
    using own [of me d1] own [of me d2] assms(2) party_frame_dir [OF Party, of d1] party_frame_dir [OF Party, of d2]
    unfolding wakersApart_def by (cases "d1 = d"; cases "d2 = d") auto
  then show ?thesis by (simp add: wakersApart_def)
next
  case Around
  then show ?thesis using assms(2) around_pc by (simp add: wakersApart_def)
next
  case Pass
  then show ?thesis using assms(2) pass_pc by (simp add: wakersApart_def)
qed

lemma other_dir:
  assumes "party_step d s s'" "d' \<noteq> d" "dir_inv s d'" "wakersApart s"
  shows "dir_inv s' d'"
proof -
  note f = party_frame [OF assms(1)] and g = party_frame_dir [OF assms(1,2)]
  have same: "pending s' d' = pending s d'" "fresh s' d' = fresh s d'" "level s' d' = level s d'"
    using f g by (simp_all add: pending_def fresh_def level_def)
  have wake: "waking s' me" if "rs_pc s d' = Blocked x me" "waking s me" for x me
  proof -
    have "wakerOf (rs_pc s d) \<noteq> Some me" using assms(2,4) that(1) unfolding wakersApart_def by (metis wakerOf.simps(5))
    then show ?thesis using that(2) f party_frame_token [OF assms(1), of me] by (auto simp: waking_def)
  qed
  have "count_inv s' d'" using assms(3) f g by (simp add: dir_inv_def count_inv_def)
  moreover have "edge_inv s' d'" using assms(3) f g same by (simp add: dir_inv_def edge_inv_def)
  moreover have "wait_inv s' d'" using assms(3) f g same wake by (simp add: dir_inv_def wait_inv_def)
  moreover have "armed_inv s' d'"
    using assms(3) f g party_frame_bits [OF assms(1), of d'] unfolding dir_inv_def armed_inv_def by simp metis
  ultimately show ?thesis by (simp add: dir_inv_def)
qed

section \<open>The party's own direction\<close>

lemma own_count:
  assumes "party_step d s s'" "count_inv s d"
  shows "count_inv s' d"
  using assms
  by cases (auto simp: count_inv_def goto_def noteTransfer_def waitFor_store_def detach_def poll_arm_def slot_updSlot split: if_splits)

lemma exhausted_pending:
  assumes "count_inv s d" "edge_inv s d" "every s" "rs_pc s d = Attempt seen" "exhausted (rs_reg s) (bitOf d) seen"
    and "rs_gseen s d = rs_reports s d" "fresh s d" "level s d"
  shows "pending s d"
proof -
  have "rs_gex s d = rs_reports s d"
    using assms(1,4-7) by (intro count_exact) (auto simp: count_inv_def exhausted_def fresh_def)
  then show ?thesis
    using assms closed_ready [of _ d] by (auto simp: edge_inv_def exhausted_def level_def pending_def)
qed

lemma party_closed: "party_step d s s' \<Longrightarrow> dn_closed (dslot s' d) = dn_closed (dslot s d)"
  by (erule party_step.cases) (auto simp: goto_def noteTransfer_def waitFor_store_def detach_def slot_updSlot split: if_splits)

lemma party_exhausted:
  assumes "party_step d s s'" "count_inv s d" "dn_exhausted (dslot s' d)" "rs_avail s' d > 0"
  shows "dn_exhausted (dslot s d) \<and> rs_gex s' d = rs_gex s d \<and> rs_avail s' d = rs_avail s d"
  using assms by cases (auto simp: count_inv_def goto_def noteTransfer_def waitFor_store_def detach_def slot_updSlot split: if_splits)

lemma party_blocks:
  assumes "party_step d s s'" "blocks (rs_pc s' d)"
  shows "rs_avail s' d = rs_avail s d \<and> rs_gseen s' d = rs_gseen s d \<and> rs_gex s' d = rs_gex s d
    \<and> dn_exhausted (dslot s' d) = dn_exhausted (dslot s d)
    \<and> (blocks (rs_pc s d) \<or> \<not> level s d \<or> (\<exists>seen. rs_pc s d = Attempt seen \<and> exhausted (rs_reg s) (bitOf d) seen))"
  using assms by cases (auto simp: goto_def waitFor_store_def slot_updSlot split: if_splits)

lemma own_edge:
  assumes "party_step d s s'" "count_inv s d" "edge_inv s d"
  shows "edge_inv s' d"
proof -
  note f = party_frame [OF assms(1)]
  have same: "pending s' d = pending s d" using f by (simp add: pending_def)
  have "pending s d" if "every s" "blocks (rs_pc s' d)" "rs_gseen s' d = rs_reports s' d" "fresh s' d" "level s' d"
  proof -
    have "fresh s d" "level s d" "rs_gseen s d = rs_reports s d"
      using that f party_blocks [OF assms(1) that(2)] by (auto simp: fresh_def level_def)
    then show ?thesis
      using party_blocks [OF assms(1) that(2)] exhausted_pending [OF assms(2,3) that(1)] assms(3) that(1) by (auto simp: edge_inv_def)
  qed
  moreover have "pending s d" if "every s" "dn_exhausted (dslot s' d)" "rs_gex s' d = rs_reports s' d" "rs_avail s' d > 0"
    using party_exhausted [OF assms(1,2) that(2,4)] that f assms(3) by (auto simp: edge_inv_def)
  ultimately show ?thesis
    using f party_closed [OF assms(1)] assms(3) same by (auto simp: edge_inv_def)
qed

lemma own_wait:
  assumes "party_step d s s'" "count_inv s d" "wait_inv s d"
  shows "wait_inv s' d"
  using assms(1)
proof cases
  case (CheckBlock seen me)
  have "rs_gseen s d = rs_reports s d" if "fresh s d"
    using that assms(2) CheckBlock by (intro count_exact) (auto simp: count_inv_def fresh_def)
  then show ?thesis using CheckBlock assms(3) by (auto simp: wait_inv_def goto_def fresh_def)
qed (use assms(2,3) in \<open>auto simp: wait_inv_def goto_def waitFor_store_def slot_updSlot split: if_splits\<close>)

lemma own_armed:
  assumes "party_step d s s'" "armed_inv s d"
  shows "armed_inv s' d"
  using assms by cases (auto simp: armed_inv_def goto_def noteTransfer_def waitFor_store_def detach_def poll_arm_def watches_armed split: if_splits)

section \<open>The kernel and the poller\<close>

lemma pass_report_inv:
  assumes "s' = reported s (snd (collect (rs_reg s) ready closed)) e (wakersOf [fst (collect (rs_reg s) ready closed)])"
    and "dir_inv s d" "rs_poller s = PGot ev" "pe_registration e = Some 0"
    and "every s \<Longrightarrow> ready = readyOf ev \<and> closed = closedOf ev" "\<not> every s \<Longrightarrow> pe_events e = unwatched (pe_events (rs_entry s)) ready"
  shows "dir_inv s' d"
  using report_count [OF assms(1)] report_edge [OF assms(1)] report_wait [OF assms(1)] report_armed [OF assms(1)] assms(2-)
  by (simp add: dir_inv_def)

lemma pass_nothing_inv:
  assumes "s' = s\<lparr>rs_entry := e, rs_poller := PWake []\<rparr>" "\<not> every s" "rs_poller s = PGot ev" "pe_registration e = Some 0"
    and "\<And>d. watches (pe_events e) d \<longleftrightarrow> watches (pe_events (rs_entry s)) d" "dir_inv s d"
  shows "dir_inv s' d"
  using assms(2-) unfolding assms(1)
  by (auto simp: dir_inv_def count_inv_def edge_inv_def wait_inv_def armed_inv_def waking_def fresh_def)

lemma poked_armed: "poked p \<Longrightarrow> armed p"
  by (cases p) auto

lemma around_fields:
  assumes "around_step s s'"
  shows "rs_pc s' = rs_pc s \<and> rs_reg s' = rs_reg s \<and> rs_entry s' = rs_entry s \<and> rs_reports s' = rs_reports s
    \<and> rs_gseen s' = rs_gseen s \<and> rs_gex s' = rs_gex s \<and> (\<forall>d. level s d \<longrightarrow> level s' d)"
  using assms by cases (auto simp: level_def)

lemma around_pending:
  assumes "around_step s s'" "every s"
  shows "(pending s d \<longrightarrow> pending s' d) \<and> (level s' d \<and> \<not> level s d \<longrightarrow> pending s' d)
    \<and> (rs_avail s' d > 0 \<and> rs_avail s d = 0 \<longrightarrow> pending s' d)"
  using assms by cases (auto simp: pending_def level_def)

lemma around_hup:
  assumes "around_step s s'" "every s" "rs_hup s' d"
    and "rs_hup s d \<longrightarrow> dn_closed (dslot s d) \<or> rs_edge s d \<or> (\<exists>ev. rs_poller s = PGot ev \<and> has (closedOf ev) (bitOf d))"
  shows "dn_closed (dslot s' d) \<or> rs_edge s' d \<or> (\<exists>ev. rs_poller s' = PGot ev \<and> has (closedOf ev) (bitOf d))"
  using assms by cases (auto split: if_splits)

lemma around_waking:
  assumes "around_step s s'" "waking s me"
  shows "waking s' me"
  using assms by cases (auto simp: waking_def)

lemma around_asleep:
  assumes "around_step s s'" "rs_poller s' = PAsleep b"
  shows "rs_poller s = PAsleep b \<and> rs_pipe s' = rs_pipe s \<or> b = pe_events (rs_entry s)"
  using assms by cases auto

lemma around_inv:
  assumes "around_step s s'" "dir_inv s d"
  shows "dir_inv s' d"
proof -
  note f = around_fields [OF assms(1)]
  have fresh: "fresh s' d = fresh s d" using f by (simp add: fresh_def)
  have "count_inv s' d" using assms(2) f by (simp add: dir_inv_def count_inv_def)
  moreover have "edge_inv s' d"
  proof -
    have e: "edge_inv s d" using assms(2) by (simp add: dir_inv_def)
    have "pending s' d" if "every s" "dn_exhausted (dslot s d)" "rs_gex s d = rs_reports s d" "rs_avail s' d > 0"
      using around_pending [OF assms(1) that(1), of d] that e by (auto simp: edge_inv_def)
    moreover have "pending s' d" if "every s" "blocks (rs_pc s d)" "rs_gseen s d = rs_reports s d" "fresh s d" "level s' d"
      using around_pending [OF assms(1) that(1), of d] that e by (auto simp: edge_inv_def)
    ultimately show ?thesis using f fresh e around_hup [OF assms(1), of d] by (simp add: edge_inv_def)
  qed
  moreover have "wait_inv s' d" using assms(2) f fresh around_waking [OF assms(1)] by (simp add: dir_inv_def wait_inv_def)
  moreover have "armed_inv s' d"
    using assms(2) f around_asleep [OF assms(1)] poked_armed [of "rs_pc s d"] unfolding dir_inv_def armed_inv_def by simp metis
  ultimately show ?thesis by (simp add: dir_inv_def)
qed

lemma pass_inv:
  assumes "pass_step s s'" "\<And>d. dir_inv s d"
  shows "dir_inv s' d"
proof -
  have entry: "pe_registration (rs_entry s) = Some 0" using assms(2) by (simp add: dir_inv_def count_inv_def)
  from assms(1) show ?thesis
  proof cases
    case (EpollCollect ev us regs)
    have "s' = reported s (snd (collect (rs_reg s) (readyOf ev) (closedOf ev))) (rs_entry s) (wakersOf [fst (collect (rs_reg s) (readyOf ev) (closedOf ev))])"
      using EpollCollect(1) EpollCollect(4) [unfolded epoll_pass] by simp
    then show ?thesis by (rule pass_report_inv [where ev = ev]) (use EpollCollect entry assms(2) in auto)
  next
    case (PollCollect ev us e' regs)
    note pass = poll_pass [OF PollCollect(4) entry]
    show ?thesis
    proof (cases "ev \<noteq> 0 \<and> pe_events (rs_entry s) \<noteq> 0")
      case True
      have "s' = reported s (snd (collect (rs_reg s) (poll_ready ev) (poll_closed ev))) e' (wakersOf [fst (collect (rs_reg s) (poll_ready ev) (poll_closed ev))])"
        using PollCollect(1) pass(2) [OF True] by simp
      then show ?thesis by (rule pass_report_inv [where ev = ev]) (use PollCollect pass(1) pass(2) [OF True] assms(2) in auto)
    next
      case False
      have "s' = s\<lparr>rs_entry := e', rs_poller := PWake []\<rparr>"
        using PollCollect(1) pass(3) [OF False] by (simp add: reported_def wakersOf_def)
      then show ?thesis by (rule pass_nothing_inv [where ev = ev]) (use PollCollect pass(1) pass(3) [OF False] assms(2) in auto)
    qed
  qed
qed

definition rd_inv :: "readiness \<Rightarrow> bool" where
  "rd_inv s \<longleftrightarrow> (\<forall>d. dir_inv s d) \<and> wakersApart s"

lemma rd_step_inv:
  assumes "rd_inv s" "rd_step s s'"
  shows "rd_inv s'"
proof -
  have "dir_inv s' d" for d
    using assms(2)
  proof cases
    case (Party d')
    show ?thesis
    proof (cases "d = d'")
      case True
      then show ?thesis
        using assms(1) own_count [OF Party] own_edge [OF Party] own_wait [OF Party] own_armed [OF Party]
        by (simp add: rd_inv_def dir_inv_def)
    qed (use other_dir [OF Party] assms(1) in \<open>simp add: rd_inv_def\<close>)
  next
    case Around
    then show ?thesis using assms(1) around_inv [OF Around] by (simp add: rd_inv_def)
  next
    case Pass
    then show ?thesis using assms(1) pass_inv [OF Pass] by (simp add: rd_inv_def)
  qed
  then show ?thesis using wakersApart_step [OF assms(2)] assms(1) by (simp add: rd_inv_def)
qed

lemma rd_init_inv: "rd_init reportsAll kind s \<Longrightarrow> rd_inv s"
  by (auto simp: rd_init_def rd_inv_def dir_inv_def count_inv_def edge_inv_def wait_inv_def armed_inv_def wakersApart_def pending_def level_def
      setKind_def registration_new_def slot_def direction_new_def)

interpretation readiness: step_system "rd_init reportsAll kind" rd_step rd_inv
  by unfold_locales (auto intro: rd_init_inv rd_step_inv)

section \<open>Properties\<close>

text \<open>C35: Readiness is never lost: whenever a party is blocked on a direction that has data, room or a hang-up, it
  has been woken or is about to be, or the poller will report the direction: with edge triggering a report
  is pending in the kernel or in the poller's hands (also when the transfer before was short and the next one
  did not ask the kernel at all), and with \<^verbatim>\<open>poll\<close> the direction is watched and a poller already asleep watches it
  or has a byte in its pipe.  The counts are 32 bits wide: the claim is for parties during whose
  operation the count did not go once around.\<close>

theorem readiness_not_lost:
  assumes "rd_init reportsAll kind s0" "rd_step\<^sup>*\<^sup>* s0 s" "rs_pc s d = Blocked seen me" "fresh s d" "level s d"
  shows "waking s me \<or> (if every s then pending s d
    else watches (pe_events (rs_entry s)) d \<and> (\<forall>b. rs_poller s = PAsleep b \<longrightarrow> watches b d \<or> rs_pipe s))"
proof -
  have i: "dir_inv s d" using readiness.reachable_inv [OF assms(1,2)] by (simp add: rd_inv_def)
  show ?thesis
  proof (cases "rs_gseen s d = rs_reports s d")
    case True
    then show ?thesis using i assms(3-5) by (auto simp: dir_inv_def edge_inv_def armed_inv_def)
  next
    case False
    then have "rs_gseen s d < rs_reports s d" using i by (simp add: dir_inv_def count_inv_def)
    then show ?thesis using i assms(3,4) by (simp add: dir_inv_def wait_inv_def)
  qed
qed

text \<open>A reader finds nothing, blocks, and data arrives.\<close>

definition demo_me :: waker where
  "demo_me = \<lparr>wk_token = empty_token, wk_parker = Some 7, wk_callback = None, wk_argument = 0\<rparr>"

definition rd_demo :: "registration \<Rightarrow> party \<Rightarrow> nat \<Rightarrow> readiness" where
  "rd_demo r p k = \<lparr>rs_reg = r, rs_entry = \<lparr>pe_registration = Some 0, pe_events = 0\<rparr>, rs_pc = (\<lambda>d. if d = Rd then p else Outside),
     rs_token = (\<lambda>_. False), rs_poller = PIdle, rs_pipe = False, rs_avail = (\<lambda>d. if d = Rd then k else 0), rs_hup = (\<lambda>_. False),
     rs_edge = (\<lambda>d. d = Rd \<and> k > 0), rs_reports = (\<lambda>_. 0), rs_gseen = (\<lambda>_. 0), rs_gex = (\<lambda>_. 0)\<rparr>"

definition demo_reg :: registration where
  "demo_reg = setKind (registration_new 0 True None) StreamSocket"

definition demo_waiting :: registration where
  "demo_waiting = updSlot demo_reg Readable (\<lambda>m. m\<lparr>dn_waker := demo_me\<rparr>)"

lemmas rd_demo_defs = rd_demo_def demo_reg_def demo_waiting_def setKind_def registration_new_def direction_new_def slot_def updSlot_def bitOf_def
  goto_def exhausted_def level_def waitFor_store_def Readable_def Writable_def

lemma rd_demo_goto: "goto (rd_demo r p k) Rd p' = rd_demo r p' k"
  by (auto simp: rd_demo_def goto_def)

lemma rd_demo_begin:
  "rd_step (rd_demo demo_reg Outside 0) (rd_demo demo_reg (Attempt 0) 0)"
  "rd_step (rd_demo demo_reg (Attempt 0) 0) (rd_demo demo_reg (WouldBlock 0) 0)"
  "rd_step (rd_demo demo_reg (WouldBlock 0) 0) (rd_demo demo_reg (Locking 0 demo_me) 0)"
proof -
  have "(goto (rd_demo demo_reg Outside 0) Rd (Attempt 0))\<lparr>rs_gseen := (rs_gseen (rd_demo demo_reg Outside 0))(Rd := rs_reports (rd_demo demo_reg Outside 0) Rd)\<rparr>
      = rd_demo demo_reg (Attempt 0) 0"
    by (auto simp: rd_demo_def goto_def)
  then show "rd_step (rd_demo demo_reg Outside 0) (rd_demo demo_reg (Attempt 0) 0)"
    using Party [OF ReadCount [of "rd_demo demo_reg Outside 0" Rd]] by (simp add: rd_demo_defs)
  show "rd_step (rd_demo demo_reg (Attempt 0) 0) (rd_demo demo_reg (WouldBlock 0) 0)"
    using Party [OF Again [of "rd_demo demo_reg (Attempt 0) 0" Rd 0]] unfolding rd_demo_goto by (simp add: rd_demo_defs)
  show "rd_step (rd_demo demo_reg (WouldBlock 0) 0) (rd_demo demo_reg (Locking 0 demo_me) 0)"
    using Party [OF WaitEnter [of "rd_demo demo_reg (WouldBlock 0) 0" Rd 0 demo_me]] unfolding rd_demo_goto by (simp add: rd_demo_defs)
qed

lemma rd_demo_end:
  "rd_step (rd_demo demo_reg (Locking 0 demo_me) 0) (rd_demo demo_waiting (Checking 0 demo_me) 0)"
  "rd_step (rd_demo demo_waiting (Checking 0 demo_me) 0) (rd_demo demo_waiting (Blocked 0 demo_me) 0)"
  "rd_step (rd_demo demo_waiting (Blocked 0 demo_me) 0) (rd_demo demo_waiting (Blocked 0 demo_me) 5)"
proof -
  have "(goto (rd_demo demo_reg (Locking 0 demo_me) 0) Rd (Checking 0 demo_me))\<lparr>rs_reg := demo_waiting\<rparr> = rd_demo demo_waiting (Checking 0 demo_me) 0"
    by (auto simp: rd_demo_def goto_def)
  then show "rd_step (rd_demo demo_reg (Locking 0 demo_me) 0) (rd_demo demo_waiting (Checking 0 demo_me) 0)"
    using Party [OF Store [of "rd_demo demo_reg (Locking 0 demo_me) 0" Rd 0 demo_me demo_waiting]] by (simp add: rd_demo_defs)
  show "rd_step (rd_demo demo_waiting (Checking 0 demo_me) 0) (rd_demo demo_waiting (Blocked 0 demo_me) 0)"
    using Party [OF CheckBlock [of "rd_demo demo_waiting (Checking 0 demo_me) 0" Rd 0 demo_me]] unfolding rd_demo_goto by (simp add: rd_demo_defs)
  have "(rd_demo demo_waiting (Blocked 0 demo_me) 0)\<lparr>rs_avail := (\<lambda>d. 0)(Rd := 5), rs_edge := (\<lambda>d. False)(Rd := True)\<rparr> = rd_demo demo_waiting (Blocked 0 demo_me) 5"
    by (auto simp: rd_demo_def fun_eq_iff)
  then show "rd_step (rd_demo demo_waiting (Blocked 0 demo_me) 0) (rd_demo demo_waiting (Blocked 0 demo_me) 5)"
    using rd_step.Around [OF Arrive [of 5 "rd_demo demo_waiting (Blocked 0 demo_me) 0" Rd]] by (simp add: rd_demo_def cong: if_cong)
qed

lemma rd_demo_run: "rd_step\<^sup>*\<^sup>* (rd_demo demo_reg Outside 0) (rd_demo demo_waiting (Blocked 0 demo_me) 5)"
  using rd_demo_begin rd_demo_end by (meson converse_rtranclp_into_rtranclp rtranclp.rtrancl_refl)

theorem readiness_not_lost_witness:
  "level (rd_demo demo_waiting (Blocked 0 demo_me) 5) Rd
    \<and> (waking (rd_demo demo_waiting (Blocked 0 demo_me) 5) demo_me \<or> pending (rd_demo demo_waiting (Blocked 0 demo_me) 5) Rd)"
proof -
  have "rd_init True StreamSocket (rd_demo demo_reg Outside 0)" by (auto simp: rd_init_def rd_demo_defs)
  moreover have "rs_pc (rd_demo demo_waiting (Blocked 0 demo_me) 5) Rd = Blocked 0 demo_me" "fresh (rd_demo demo_waiting (Blocked 0 demo_me) 5) Rd"
      "level (rd_demo demo_waiting (Blocked 0 demo_me) 5) Rd" "every (rd_demo demo_waiting (Blocked 0 demo_me) 5)"
    by (simp_all add: rd_demo_defs fresh_def)
  ultimately show ?thesis using readiness_not_lost [OF _ rd_demo_run] by simp
qed

end
