(* ===== verification/Io_Streams.thy ===== *)
theory Io_Streams
  imports Io_Registration
begin

text \<open>
  Transfers over a registered stream (\<^verbatim>\<open>io/Async.h\<close>, \<^verbatim>\<open>io/src/Async.cpp\<close>) and the buffered reader and writer on top
  of them (\<^verbatim>\<open>io/StreamSocket.h\<close>, \<^verbatim>\<open>io/src/StreamSocket.cpp\<close>).  What the outside does in the course of a call is a list of
  events: reports of the poller, what each system call returns, and waits that end with an error (a
  deadline).  A call that is still waiting when the list ends has no result (\<open>None\<close>).  The kernel hands the peer's
  bytes out in order, at most as many as asked for and none only at their end, and takes at least one byte
  of a write that does not fail.  Buffer sizes are far from \<open>2 ^ 64\<close>, so lengths are natural numbers.
\<close>

type_synonym byte = u8

section \<open>System calls\<close>

datatype sys_answer = Takes nat | Interrupted | NotNow | Fails int

datatype env = Reports nat | CallReturns sys_answer | WaitFails io_error

record conn =
  cn_reg :: registration
  cn_input :: "byte list"
  cn_output :: "byte list"

definition sys_read :: "nat \<Rightarrow> nat \<Rightarrow> conn \<Rightarrow> byte list \<times> conn" where
  "sys_read asked n c =
     (let k = min (max 1 n) asked in (take k (cn_input c), c\<lparr>cn_input := drop k (cn_input c)\<rparr>))"

definition sys_write :: "byte list \<Rightarrow> nat \<Rightarrow> conn \<Rightarrow> byte list \<times> conn" where
  "sys_write payload n c =
     (let k = min (max 1 n) (length payload) in (take k payload, c\<lparr>cn_output := cn_output c @ take k payload\<rparr>))"

definition reportsFor :: "interest \<Rightarrow> nat \<Rightarrow> conn \<Rightarrow> conn" where
  "reportsFor d k c = c\<lparr>cn_reg := ((\<lambda>r. snd (collect r d 0)) ^^ k) (cn_reg c)\<rparr>"

text \<open>An attempt: bytes moved, it would block, or an error.\<close>

datatype attempt = Moved "byte list" | WouldBlock | Failed io_error

fun callLoop :: "interest \<Rightarrow> nat \<Rightarrow> u32 \<Rightarrow> (nat \<Rightarrow> conn \<Rightarrow> byte list \<times> conn) \<Rightarrow> conn \<Rightarrow> env list \<Rightarrow> (attempt \<times> conn \<times> env list) option" where
  "callLoop d asked seen call c [] = None"
| "callLoop d asked seen call c (Reports k # es) = callLoop d asked seen call (reportsFor d k c) es"
| "callLoop d asked seen call c (WaitFails e # es) = None"
| "callLoop d asked seen call c (CallReturns a # es) =
     (case a of
        Takes n \<Rightarrow>
          (case call n c of (moved, c') \<Rightarrow>
             Some (Moved moved, c'\<lparr>cn_reg := noteTransfer (cn_reg c') d seen (length moved) asked\<rparr>, es))
      | Interrupted \<Rightarrow> callLoop d asked seen call c es
      | NotNow \<Rightarrow> Some (WouldBlock, c, es)
      | Fails e \<Rightarrow> Some (Failed (SystemError e), c, es))"

definition tryCall :: "interest \<Rightarrow> nat \<Rightarrow> u32 \<Rightarrow> (nat \<Rightarrow> conn \<Rightarrow> byte list \<times> conn) \<Rightarrow> conn \<Rightarrow> env list \<Rightarrow> (attempt \<times> conn \<times> env list) option" where
  "tryCall d asked seen call c es =
     (if exhausted (cn_reg c) d seen then Some (WouldBlock, c, es) else callLoop d asked seen call c es)"

text \<open>The wait of \<^verbatim>\<open>Registration::waitFor\<close> as its caller sees it.\<close>

fun waitLoop :: "interest \<Rightarrow> u32 \<Rightarrow> conn \<Rightarrow> env list \<Rightarrow> (io_error option \<times> conn \<times> env list) option" where
  "waitLoop d seen c [] = (if dn_events (slot (cn_reg c) d) \<noteq> seen then Some (None, c, []) else None)"
| "waitLoop d seen c (e # es) =
     (if dn_events (slot (cn_reg c) d) \<noteq> seen then Some (None, c, e # es)
      else case e of
          Reports k \<Rightarrow> waitLoop d seen (reportsFor d k c) es
        | WaitFails err \<Rightarrow> Some (Some err, c, es)
        | CallReturns a \<Rightarrow> None)"

definition waitNewer :: "interest \<Rightarrow> u32 \<Rightarrow> conn \<Rightarrow> env list \<Rightarrow> (io_error option \<times> conn \<times> env list) option" where
  "waitNewer d seen c es = (case rg_addError (cn_reg c) of Some err \<Rightarrow> Some (Some err, c, es) | None \<Rightarrow> waitLoop d seen c es)"

lemma callLoop_consumes: "callLoop d asked seen call c es = Some (r, c', es') \<Longrightarrow> length es' < length es"
  by (induction d asked seen call c es arbitrary: r c' es' rule: callLoop.induct) (fastforce split: sys_answer.splits prod.splits)+

lemma waitLoop_consumes:
  "waitLoop d seen c es = Some (r, c', es') \<Longrightarrow> length es' \<le> length es \<and> (dn_events (slot (cn_reg c) d) = seen \<longrightarrow> length es' < length es)"
  by (induction d seen c es arbitrary: r c' es' rule: waitLoop.induct) (fastforce split: env.splits if_splits)+

type_synonym result = "(byte list \<times> io_error option) \<times> conn \<times> env list"

function callWhenReady :: "interest \<Rightarrow> nat \<Rightarrow> (nat \<Rightarrow> conn \<Rightarrow> byte list \<times> conn) \<Rightarrow> conn \<Rightarrow> env list \<Rightarrow> result option" where
  "callWhenReady d asked call c es =
     (let seen = dn_events (slot (cn_reg c) d) in
      case tryCall d asked seen call c es of
        None \<Rightarrow> None
      | Some (Moved moved, c1, es1) \<Rightarrow> Some ((moved, None), c1, es1)
      | Some (Failed e, c1, es1) \<Rightarrow> Some (([], Some e), c1, es1)
      | Some (WouldBlock, c1, es1) \<Rightarrow>
          (case waitNewer d seen c1 es1 of
             None \<Rightarrow> None
           | Some (Some e, c2, es2) \<Rightarrow> Some (([], Some e), c2, es2)
           | Some (None, c2, es2) \<Rightarrow> callWhenReady d asked call c2 es2))"
  by auto
termination
proof (relation "measure (\<lambda>(d, asked, call, c, es). length es)", goal_cases)
  case (2 d asked call c es seen x1 a p c1 es1 q o' r c2 es2)
  then have w: "waitLoop d seen c1 es1 = Some (None, c2, es2)" by (auto simp: waitNewer_def split: option.splits)
  show ?case
  proof (cases "exhausted (cn_reg c) d seen")
    case True
    then have "c1 = c" "es1 = es" using 2 by (auto simp: tryCall_def)
    then show ?thesis using waitLoop_consumes [OF w] 2 by auto
  next
    case False
    then have "length es1 < length es" using 2 callLoop_consumes by (auto simp: tryCall_def)
    then show ?thesis using waitLoop_consumes [OF w] 2 by auto
  qed
qed simp

declare callWhenReady.simps [simp del]

definition stream_read :: "nat \<Rightarrow> conn \<Rightarrow> env list \<Rightarrow> result option" where
  "stream_read asked c es = callWhenReady Readable asked (sys_read asked) c es"

definition stream_write :: "byte list \<Rightarrow> conn \<Rightarrow> env list \<Rightarrow> result option" where
  "stream_write payload c es = callWhenReady Writable (length payload) (sys_write payload) c es"

subsection \<open>What one transfer does\<close>

definition sameData :: "conn \<Rightarrow> conn \<Rightarrow> bool" where
  "sameData a b \<longleftrightarrow> cn_input a = cn_input b \<and> cn_output a = cn_output b"

lemma sameData_refl [simp]: "sameData a a"
  by (simp add: sameData_def)

lemma reportsFor_data: "sameData (reportsFor d k c) c"
  by (simp add: reportsFor_def sameData_def)

lemma sameData_trans: "sameData a b \<Longrightarrow> sameData b c \<Longrightarrow> sameData a c"
  by (simp add: sameData_def)

definition moves :: "(nat \<Rightarrow> conn \<Rightarrow> byte list \<times> conn) \<Rightarrow> conn \<Rightarrow> byte list \<Rightarrow> conn \<Rightarrow> bool" where
  "moves call c moved c' \<longleftrightarrow> (\<exists>n c0 c1. sameData c0 c \<and> call n c0 = (moved, c1) \<and> sameData c' c1)"

lemma moves_same: "sameData c1 c \<Longrightarrow> moves call c1 m c' \<Longrightarrow> moves call c m c'"
  unfolding moves_def by (blast intro: sameData_trans)

lemma callLoop_law:
  "callLoop d asked seen call c es = Some (r, c', es') \<Longrightarrow> (case r of Moved moved \<Rightarrow> moves call c moved c' | _ \<Rightarrow> sameData c' c)"
proof (induction d asked seen call c es arbitrary: r c' es' rule: callLoop.induct)
  case (2 d asked seen call c k es)
  then show ?case using reportsFor_data [of d k c] moves_same sameData_trans
    by (auto split: attempt.splits intro: moves_same sameData_trans)
next
  case (4 d asked seen call c a es)
  then show ?case
    by (auto simp: moves_def sameData_def split: sys_answer.splits prod.splits attempt.splits) blast
qed auto

lemma waitLoop_law: "waitLoop d seen c es = Some (r, c', es') \<Longrightarrow> sameData c' c"
proof (induction d seen c es arbitrary: r c' es' rule: waitLoop.induct)
  case (2 d seen c e es)
  then show ?case using sameData_trans [OF _ reportsFor_data [of d _ c]] by (auto split: env.splits if_splits) blast
qed (auto split: if_splits)

lemma waitNewer_law: "waitNewer d seen c es = Some (r, c', es') \<Longrightarrow> sameData c' c"
  by (auto simp: waitNewer_def dest: waitLoop_law split: option.splits)

lemma tryCall_law: "tryCall d asked seen call c es = Some (r, c', es') \<Longrightarrow> (case r of Moved moved \<Rightarrow> moves call c moved c' | _ \<Rightarrow> sameData c' c)"
  using callLoop_law by (auto simp: tryCall_def split: if_splits)

lemma callWhenReady_law:
  "callWhenReady d asked call c es = Some ((moved, err), c', es') \<Longrightarrow>
     (if err = None then moves call c moved c' else moved = [] \<and> sameData c' c)"
proof (induction d asked call c es rule: callWhenReady.induct)
  case (1 d asked call c es)
  define seen where "seen = dn_events (slot (cn_reg c) d)"
  obtain r c1 es1 where t: "tryCall d asked seen call c es = Some (r, c1, es1)"
    using "1.prems" by (auto simp: callWhenReady.simps [of d asked call c] Let_def seen_def split: option.splits)
  show ?case
  proof (cases r)
    case WouldBlock
    then have s1: "sameData c1 c" using tryCall_law [OF t] by simp
    obtain we c2 es2 where w: "waitNewer d seen c1 es1 = Some (we, c2, es2)"
      using "1.prems" t WouldBlock by (auto simp: callWhenReady.simps [of d asked call c] seen_def [symmetric] split: option.splits)
    then have s2: "sameData c2 c" using waitNewer_law s1 sameData_trans by blast
    show ?thesis
    proof (cases we)
      case None
      have "callWhenReady d asked call c2 es2 = Some ((moved, err), c', es')"
        using "1.prems" t w WouldBlock None by (simp add: callWhenReady.simps [of d asked call c] seen_def [symmetric])
      then have "if err = None then moves call c2 moved c' else moved = [] \<and> sameData c' c2"
        using "1.IH" [OF seen_def t [unfolded WouldBlock]] w None by simp
      then show ?thesis using s2 moves_same sameData_trans by (metis (full_types))
    qed (use "1.prems" t w WouldBlock s2 in \<open>auto simp: callWhenReady.simps [of d asked call c] seen_def [symmetric]\<close>)
  qed (use "1.prems" t tryCall_law [OF t] in \<open>auto simp: callWhenReady.simps [of d asked call c] seen_def [symmetric]\<close>)
qed

text \<open>The contract of one transfer: order and progress.\<close>

lemma stream_read_law:
  assumes "stream_read asked c es = Some ((moved, err), c', es')"
  shows "cn_input c = moved @ cn_input c'" "cn_output c' = cn_output c" "length moved \<le> asked" "err \<noteq> None \<Longrightarrow> moved = []"
    and "err = None \<Longrightarrow> 0 < asked \<Longrightarrow> moved = [] \<Longrightarrow> cn_input c = []"
  using callWhenReady_law [OF assms [unfolded stream_read_def]]
  by (auto simp: moves_def sys_read_def sameData_def Let_def min_def max_def split: if_splits)

lemma stream_write_law:
  assumes "stream_write payload c es = Some ((moved, err), c', es')"
  shows "cn_output c' = cn_output c @ moved" "cn_input c' = cn_input c" "moved = take (length moved) payload" "err \<noteq> None \<Longrightarrow> moved = []"
    and "err = None \<Longrightarrow> payload \<noteq> [] \<Longrightarrow> moved \<noteq> []"
  using callWhenReady_law [OF assms [unfolded stream_write_def]]
  by (auto simp: moves_def sys_write_def sameData_def Let_def min_def max_def split: if_splits)

section \<open>Whole transfers\<close>

type_synonym io_result = "nat \<times> io_error option"

text \<open>The loops carry what has been transferred so far; reading also what has been put in the caller's buffer.\<close>

function writeAll :: "nat \<Rightarrow> byte list \<Rightarrow> conn \<Rightarrow> env list \<Rightarrow> (io_result \<times> conn \<times> env list) option" where
  "writeAll sent rest c es =
     (if rest = [] then Some ((sent, None), c, es)
      else case stream_write rest c es of
          None \<Rightarrow> None
        | Some ((moved, Some e), c1, es1) \<Rightarrow> Some ((sent, Some e), c1, es1)
        | Some ((moved, None), c1, es1) \<Rightarrow> writeAll (sent + length moved) (drop (length moved) rest) c1 es1)"
  by auto
termination
  by (relation "measure (\<lambda>(sent, rest, c, es). length rest)") (auto dest: stream_write_law(5))

function readExactly :: "byte list \<Rightarrow> nat \<Rightarrow> conn \<Rightarrow> env list \<Rightarrow> result option" where
  "readExactly got length' c es =
     (if length got \<ge> length' then Some ((got, None), c, es)
      else case stream_read (length' - length got) c es of
          None \<Rightarrow> None
        | Some ((moved, Some e), c1, es1) \<Rightarrow> Some ((got, Some e), c1, es1)
        | Some ((moved, None), c1, es1) \<Rightarrow>
            if moved = [] then Some ((got, None), c1, es1) else readExactly (got @ moved) length' c1 es1)"
  by auto
termination
  by (relation "measure (\<lambda>(got, length', c, es). length' - length got)") (auto simp: diff_less_mono2)

text \<open>Gathered writes: the vectors sent so far are skipped, the one sent in part is shortened.\<close>

fun advance :: "nat \<Rightarrow> byte list list \<Rightarrow> byte list list" where
  "advance left [] = []"
| "advance left (v # vs) = (if left \<ge> length v then advance (left - length v) vs else drop left v # vs)"

lemma advance_concat: "left \<le> length (concat vs) \<Longrightarrow> concat (advance left vs) = drop left (concat vs)"
  by (induction left vs rule: advance.induct) auto

lemma advance_length: "length (advance left vs) \<le> length vs"
  by (induction left vs rule: advance.induct) auto

lemma advance_less: "left = 0 \<Longrightarrow> concat vs = [] \<Longrightarrow> vs \<noteq> [] \<Longrightarrow> advance left vs = []"
proof (induction left vs rule: advance.induct)
  case (2 left v vs)
  then show ?case by (cases vs) auto
qed simp

function writevAll :: "nat \<Rightarrow> byte list list \<Rightarrow> conn \<Rightarrow> env list \<Rightarrow> (io_result \<times> conn \<times> env list) option" where
  "writevAll sent vectors c es =
     (if vectors = [] then Some ((sent, None), c, es)
      else case stream_write (concat vectors) c es of
          None \<Rightarrow> None
        | Some ((moved, Some e), c1, es1) \<Rightarrow> Some ((sent, Some e), c1, es1)
        | Some ((moved, None), c1, es1) \<Rightarrow> writevAll (sent + length moved) (advance (length moved) vectors) c1 es1)"
  by auto
termination
proof (relation "measure (\<lambda>(sent, vectors, c, es). length (concat vectors) + length vectors)", goal_cases)
  case (2 sent vectors c es a p q moved c1 es1 r)
  then have w: "stream_write (concat vectors) c es = Some ((moved, None), q)" by auto
  obtain c1' es1' where q: "q = (c1', es1')" by (cases q)
  have le: "length moved \<le> length (concat vectors)"
    using stream_write_law(3) [OF w [unfolded q]] by (metis length_take min.cobounded1 min.commute)
  show ?case
  proof (cases "concat vectors = []")
    case True
    have "length moved = 0" using le unfolding True by simp
    then have "advance (length moved) vectors = []" using True 2 by (intro advance_less) auto
    then show ?thesis using 2 by auto
  next
    case False
    then have "length moved > 0" using stream_write_law(5) [OF w [unfolded q]] by simp
    then have "length (concat (advance (length moved) vectors)) < length (concat vectors)"
      using le unfolding advance_concat [OF le] length_drop by linarith
    then show ?thesis using advance_length [of "length moved" vectors] 2 by auto
  qed
qed simp

declare writeAll.simps [simp del] readExactly.simps [simp del] writevAll.simps [simp del]

text \<open>What a loop of writes has done: \<open>k\<close> more bytes of \<open>rest\<close> went out, all of them unless there was an error.\<close>

definition sentFrom :: "nat \<Rightarrow> byte list \<Rightarrow> conn \<Rightarrow> io_result \<Rightarrow> conn \<Rightarrow> bool" where
  "sentFrom sent rest c r c' \<longleftrightarrow> (\<exists>k \<le> length rest. fst r = sent + k \<and> cn_output c' = cn_output c @ take k rest
     \<and> cn_input c' = cn_input c \<and> (snd r = None \<longrightarrow> k = length rest))"

lemma sentFrom_none: "sentFrom sent [] c (sent, None) c"
  by (simp add: sentFrom_def)

lemma sentFrom_error:
  assumes "stream_write rest c es = Some ((moved, Some e), c1, es1)"
  shows "sentFrom sent rest c (sent, Some e) c1"
  using stream_write_law [OF assms] by (auto simp: sentFrom_def intro: exI [of _ 0])

lemma sentFrom_more:
  assumes "stream_write rest c es = Some ((moved, None), c1, es1)" "sentFrom (sent + length moved) (drop (length moved) rest) c1 r c'"
  shows "sentFrom sent rest c r c'"
proof -
  note law = stream_write_law [OF assms(1)]
  have le: "length moved \<le> length rest" using law(3) by (metis length_take min.cobounded1 min.commute)
  obtain k where k: "k \<le> length rest - length moved" "fst r = sent + length moved + k"
      "cn_output c' = cn_output c1 @ take k (drop (length moved) rest)" "cn_input c' = cn_input c1"
      "snd r = None \<longrightarrow> k = length rest - length moved"
    using assms(2) by (auto simp: sentFrom_def)
  have "cn_output c' = cn_output c @ take (length moved + k) rest"
    using k(3) law(1,3) by (simp add: take_add [of "length moved"])
  then show ?thesis unfolding sentFrom_def using k law(2) le by (intro exI [of _ "length moved + k"]) auto
qed

lemma writeAll_law: "writeAll sent rest c es = Some (r, c', es') \<Longrightarrow> sentFrom sent rest c r c'"
proof (induction sent rest c es rule: writeAll.induct)
  case (1 sent rest c es)
  show ?case
  proof (cases "rest = []")
    case False
    then obtain moved we c1 es1 where w: "stream_write rest c es = Some ((moved, we), c1, es1)"
      using "1.prems" by (auto simp: writeAll.simps [of sent] split: option.splits)
    show ?thesis
    proof (cases we)
      case None
      then have "writeAll (sent + length moved) (drop (length moved) rest) c1 es1 = Some (r, c', es')"
        using "1.prems" False w by (simp add: writeAll.simps [of sent])
      then show ?thesis using "1.IH" [OF False w [unfolded None]] sentFrom_more [OF w [unfolded None]] by simp
    qed (use "1.prems" False w sentFrom_error in \<open>auto simp: writeAll.simps [of sent]\<close>)
  qed (use "1.prems" sentFrom_none in \<open>auto simp: writeAll.simps [of sent]\<close>)
qed

lemma writevAll_law: "writevAll sent vectors c es = Some (r, c', es') \<Longrightarrow> sentFrom sent (concat vectors) c r c'"
proof (induction sent vectors c es rule: writevAll.induct)
  case (1 sent vectors c es)
  show ?case
  proof (cases "vectors = []")
    case False
    then obtain moved we c1 es1 where w: "stream_write (concat vectors) c es = Some ((moved, we), c1, es1)"
      using "1.prems" by (auto simp: writevAll.simps [of sent] split: option.splits)
    show ?thesis
    proof (cases we)
      case None
      have "length moved \<le> length (concat vectors)"
        using stream_write_law(3) [OF w] by (metis length_take min.cobounded1 min.commute)
      note adv = advance_concat [OF this]
      have "writevAll (sent + length moved) (advance (length moved) vectors) c1 es1 = Some (r, c', es')"
        using "1.prems" False w None by (simp add: writevAll.simps [of sent])
      then show ?thesis using "1.IH" [OF False w [unfolded None]] sentFrom_more [OF w [unfolded None]] adv by simp
    qed (use "1.prems" False w sentFrom_error in \<open>auto simp: writevAll.simps [of sent]\<close>)
  qed (use "1.prems" sentFrom_none in \<open>auto simp: writevAll.simps [of sent]\<close>)
qed

section \<open>The buffered writer\<close>

record bufWriter =
  bw_buffer :: "byte list"
  bw_capacity :: nat
  bw_used :: nat

definition bufWriter_new :: "byte list \<Rightarrow> bufWriter" where
  "bufWriter_new memory = \<lparr>bw_buffer = memory, bw_capacity = length memory, bw_used = 0\<rparr>"

text \<open>\<^verbatim>\<open>memcpy\<close> and \<^verbatim>\<open>memmove\<close> into the buffer at an offset.\<close>

definition copyAt :: "byte list \<Rightarrow> nat \<Rightarrow> byte list \<Rightarrow> byte list" where
  "copyAt buf at bytes = take at buf @ bytes @ drop (at + length bytes) buf"

definition bw_write :: "bufWriter \<Rightarrow> byte list \<Rightarrow> conn \<Rightarrow> env list \<Rightarrow> (io_result \<times> bufWriter \<times> conn \<times> env list) option" where
  "bw_write w data c es =
     (if bw_used w + length data \<le> bw_capacity w
      then Some ((length data, None),
        w\<lparr>bw_buffer := copyAt (bw_buffer w) (bw_used w) data, bw_used := bw_used w + length data\<rparr>, c, es)
      else case writevAll 0 [take (bw_used w) (bw_buffer w), data] c es of
          None \<Rightarrow> None
        | Some ((sent, err), c1, es1) \<Rightarrow>
            let fromBuffer = (if sent < bw_used w then sent else bw_used w); buffered = bw_used w in
            (case err of
               Some e \<Rightarrow> Some ((if sent > buffered then sent - buffered else 0, Some e),
                 w\<lparr>bw_buffer := copyAt (bw_buffer w) 0 (take (buffered - fromBuffer) (drop fromBuffer (bw_buffer w))),
                   bw_used := buffered - fromBuffer\<rparr>, c1, es1)
             | None \<Rightarrow> Some ((length data, None), w\<lparr>bw_used := 0\<rparr>, c1, es1)))"

definition bw_flush :: "bufWriter \<Rightarrow> conn \<Rightarrow> env list \<Rightarrow> (io_result \<times> bufWriter \<times> conn \<times> env list) option" where
  "bw_flush w c es =
     (if bw_used w = 0 then Some ((0, None), w, c, es)
      else case writeAll 0 (take (bw_used w) (bw_buffer w)) c es of
          None \<Rightarrow> None
        | Some ((sent, err), c1, es1) \<Rightarrow>
            Some ((sent, err),
              w\<lparr>bw_buffer := copyAt (bw_buffer w) 0 (take (bw_used w - sent) (drop sent (bw_buffer w))), bw_used := bw_used w - sent\<rparr>,
              c1, es1))"

definition bw_inv :: "bufWriter \<Rightarrow> bool" where
  "bw_inv w \<longleftrightarrow> length (bw_buffer w) = bw_capacity w \<and> bw_used w \<le> bw_capacity w"

definition bw_held :: "bufWriter \<Rightarrow> byte list" where
  "bw_held w = take (bw_used w) (bw_buffer w)"

lemma length_copyAt: "at + length bytes \<le> length buf \<Longrightarrow> length (copyAt buf at bytes) = length buf"
  by (simp add: copyAt_def)

lemma take_then_drop: "i \<le> j \<Longrightarrow> take i xs @ drop i (take j xs) = take j xs"
  by (metis append_take_drop_id min.absorb1 take_take)

lemma bw_write_law:
  assumes "bw_write w data c es = Some ((n, err), w', c', es')" "bw_inv w"
  shows "bw_inv w' \<and> n \<le> length data \<and> (err = None \<longrightarrow> n = length data)
    \<and> cn_output c' @ bw_held w' = cn_output c @ bw_held w @ take n data"
proof (cases "bw_used w + length data \<le> bw_capacity w")
  case True
  then show ?thesis using assms by (auto simp: bw_write_def bw_inv_def bw_held_def copyAt_def)
next
  case False
  obtain sent we c1 es1 where w: "writevAll 0 [bw_held w, data] c es = Some ((sent, we), c1, es1)"
    using assms(1) False by (auto simp: bw_write_def bw_held_def split: option.splits)
  have law: "sent \<le> length (bw_held w @ data)" "cn_output c1 = cn_output c @ take sent (bw_held w @ data)"
      "we = None \<longrightarrow> sent = length (bw_held w @ data)"
    using writevAll_law [OF w] by (auto simp: sentFrom_def)
  have used: "length (bw_held w) = bw_used w" using assms(2) by (simp add: bw_held_def bw_inv_def)
  show ?thesis
  proof (cases we)
    case None
    then show ?thesis using assms False w law used by (auto simp: bw_write_def bw_held_def bw_inv_def)
  next
    case (Some e)
    then show ?thesis using assms False w law used
      by (auto simp: bw_write_def bw_held_def bw_inv_def copyAt_def Let_def min_def take_drop take_then_drop split: if_splits)
  qed
qed

lemma bw_flush_law:
  assumes "bw_flush w c es = Some ((n, err), w', c', es')" "bw_inv w"
  shows "bw_inv w' \<and> cn_output c' @ bw_held w' = cn_output c @ bw_held w \<and> (err = None \<longrightarrow> bw_used w' = 0)"
proof (cases "bw_used w = 0")
  case False
  obtain sent we c1 es1 where w: "writeAll 0 (bw_held w) c es = Some ((sent, we), c1, es1)"
    using assms(1) False by (auto simp: bw_flush_def bw_held_def split: option.splits)
  have used: "length (bw_held w) = bw_used w" using assms(2) by (simp add: bw_held_def bw_inv_def)
  have law: "sent \<le> bw_used w" "cn_output c1 = cn_output c @ take sent (bw_held w)" "we = None \<longrightarrow> sent = bw_used w"
    using writeAll_law [OF w] used by (auto simp: sentFrom_def)
  then show ?thesis using assms False w
    by (auto simp: bw_flush_def bw_held_def bw_inv_def copyAt_def min_def take_drop take_then_drop)
qed (use assms in \<open>auto simp: bw_flush_def\<close>)

section \<open>The buffered reader\<close>

record bufReader =
  br_buffer :: "byte list"
  br_capacity :: nat
  br_begin :: nat
  br_end :: nat

definition bufReader_new :: "byte list \<Rightarrow> bufReader" where
  "bufReader_new memory = \<lparr>br_buffer = memory, br_capacity = length memory, br_begin = 0, br_end = 0\<rparr>"

definition br_buffered :: "bufReader \<Rightarrow> nat" where
  "br_buffered b = br_end b - br_begin b"

text \<open>\<^verbatim>\<open>data()\<close> with its \<^verbatim>\<open>buffered()\<close> bytes.\<close>

definition br_data :: "bufReader \<Rightarrow> byte list" where
  "br_data b = take (br_buffered b) (drop (br_begin b) (br_buffer b))"

definition br_fill :: "bufReader \<Rightarrow> conn \<Rightarrow> env list \<Rightarrow> (io_result \<times> bufReader \<times> conn \<times> env list) option" where
  "br_fill b c es =
     (if br_begin b \<noteq> br_end b then Some ((br_end b - br_begin b, None), b, c, es)
      else case stream_read (br_capacity b) c es of
          None \<Rightarrow> None
        | Some ((got, err), c1, es1) \<Rightarrow>
            Some ((length got, err), b\<lparr>br_buffer := copyAt (br_buffer b) 0 got, br_begin := 0, br_end := length got\<rparr>, c1, es1))"

definition br_consume :: "bufReader \<Rightarrow> nat \<Rightarrow> bufReader" where
  "br_consume b n = b\<lparr>br_begin := br_begin b + (if n < br_end b - br_begin b then n else br_end b - br_begin b)\<rparr>"

definition br_read :: "bufReader \<Rightarrow> nat \<Rightarrow> conn \<Rightarrow> env list \<Rightarrow> ((byte list \<times> io_error option) \<times> bufReader \<times> conn \<times> env list) option" where
  "br_read b len c es =
     (if br_begin b = br_end b \<and> len \<ge> br_capacity b
      then map_option (\<lambda>(r, c1, es1). (r, b, c1, es1)) (stream_read len c es)
      else case br_fill b c es of
          None \<Rightarrow> None
        | Some ((n, err), b1, c1, es1) \<Rightarrow>
            if err \<noteq> None \<or> n = 0 then Some (([], err), b1, c1, es1)
            else let taken = (if len < br_buffered b1 then len else br_buffered b1)
                 in Some ((take taken (br_data b1), None), br_consume b1 taken, c1, es1))"

function br_readExactly ::
  "byte list \<Rightarrow> nat \<Rightarrow> bufReader \<Rightarrow> conn \<Rightarrow> env list \<Rightarrow> ((byte list \<times> io_error option) \<times> bufReader \<times> conn \<times> env list) option" where
  "br_readExactly got len b c es =
     (if length got \<ge> len then Some ((got, None), b, c, es)
      else case br_read b (len - length got) c es of
          None \<Rightarrow> None
        | Some ((chunk, Some e), b1, c1, es1) \<Rightarrow> Some ((got, Some e), b1, c1, es1)
        | Some ((chunk, None), b1, c1, es1) \<Rightarrow>
            if chunk = [] then Some ((got, None), b1, c1, es1) else br_readExactly (got @ chunk) len b1 c1 es1)"
  by auto
termination
  by (relation "measure (\<lambda>(got, len, b, c, es). len - length got)") (auto simp: diff_less_mono2)

definition memchr :: "byte list \<Rightarrow> byte \<Rightarrow> nat option" where
  "memchr bytes x = (let k = length (takeWhile (\<lambda>y. y \<noteq> x) bytes) in if k < length bytes then Some k else None)"

text \<open>The loop of \<^verbatim>\<open>readLine\<close> keeps \<^verbatim>\<open>limit - appended\<close> as \<open>room\<close>, and what it appended to the caller's string as \<open>line\<close>.\<close>

lemma br_fill_buffered: "br_fill b c es = Some ((n, err), b1, c1, es1) \<Longrightarrow> br_buffered b1 = n"
  by (auto simp: br_fill_def br_buffered_def split: if_splits option.splits prod.splits)

function br_readLine ::
  "byte list \<Rightarrow> byte \<Rightarrow> nat \<Rightarrow> bufReader \<Rightarrow> conn \<Rightarrow> env list \<Rightarrow> ((byte list \<times> io_error option) \<times> bufReader \<times> conn \<times> env list) option" where
  "br_readLine line delimiter room b c es =
     (case br_fill b c es of
        None \<Rightarrow> None
      | Some ((n, Some e), b1, c1, es1) \<Rightarrow> Some ((line, Some e), b1, c1, es1)
      | Some ((n, None), b1, c1, es1) \<Rightarrow>
          if n = 0 then Some ((line, None), b1, c1, es1)
          else
            let window = (if br_buffered b1 < room then br_buffered b1 else room);
                found = memchr (take window (br_data b1)) delimiter;
                taken = (case found of Some k \<Rightarrow> k + 1 | None \<Rightarrow> window);
                line' = line @ take taken (br_data b1);
                b2 = br_consume b1 taken
            in if found \<noteq> None then Some ((line', None), b2, c1, es1)
               else if room - taken = 0 then Some ((line', Some MessageSize), b2, c1, es1)
               else br_readLine line' delimiter (room - taken) b2 c1 es1)"
  by auto
termination
  by (relation "measure (\<lambda>(line, delimiter, room, b, c, es). room)") (auto dest: br_fill_buffered)

declare br_readExactly.simps [simp del] br_readLine.simps [simp del]

subsection \<open>What is still to be read\<close>

definition br_inv :: "bufReader \<Rightarrow> bool" where
  "br_inv b \<longleftrightarrow> 0 < br_capacity b \<and> length (br_buffer b) = br_capacity b \<and> br_begin b \<le> br_end b \<and> br_end b \<le> br_capacity b"

definition unread :: "bufReader \<Rightarrow> conn \<Rightarrow> byte list" where
  "unread b c = br_data b @ cn_input c"

lemma length_br_data: "br_inv b \<Longrightarrow> length (br_data b) = br_buffered b"
  by (auto simp: br_inv_def br_data_def br_buffered_def)

lemma br_fill_law:
  assumes "br_fill b c es = Some ((n, err), b', c', es')" "br_inv b"
  shows "br_inv b' \<and> unread b' c' = unread b c \<and> n = br_buffered b' \<and> br_capacity b' = br_capacity b \<and> cn_output c' = cn_output c
    \<and> (err \<noteq> None \<longrightarrow> n = 0) \<and> (err = None \<and> n = 0 \<and> 0 < br_capacity b \<longrightarrow> unread b c = [])"
proof (cases "br_begin b = br_end b")
  case False
  then show ?thesis using assms by (auto simp: br_fill_def br_inv_def br_buffered_def)
next
  case True
  obtain got c1 es1 where r: "stream_read (br_capacity b) c es = Some ((got, err), c1, es1)" "n = length got" "c' = c1"
      "b' = b\<lparr>br_buffer := copyAt (br_buffer b) 0 got, br_begin := 0, br_end := length got\<rparr>"
    using assms(1) True by (auto simp: br_fill_def split: option.splits)
  note law = stream_read_law [OF r(1)]
  have "br_data b' = got" "br_data b = []" using True by (simp_all add: r(4) br_data_def br_buffered_def copyAt_def)
  then show ?thesis
    using law r assms(2) by (auto simp: br_inv_def unread_def br_buffered_def copyAt_def)
qed

lemma br_consume_law:
  assumes "br_inv b" "n \<le> br_buffered b"
  shows "br_inv (br_consume b n)" "br_data (br_consume b n) = drop n (br_data b)" "br_capacity (br_consume b n) = br_capacity b"
  using assms by (auto simp: br_inv_def br_consume_def br_data_def br_buffered_def drop_take add.commute)

lemma br_take_law:
  assumes "br_inv b" "n \<le> br_buffered b"
  shows "take n (br_data b) = take n (unread b c)" "unread (br_consume b n) c = drop n (unread b c)"
  using assms br_consume_law [OF assms] length_br_data [OF assms(1)] by (simp_all add: unread_def)

lemma br_read_law:
  assumes "br_read b len c es = Some ((got, err), b', c', es')" "br_inv b"
  shows "br_inv b' \<and> got = take (length got) (unread b c) \<and> unread b' c' = drop (length got) (unread b c)
    \<and> length got \<le> len \<and> br_capacity b' = br_capacity b \<and> (err \<noteq> None \<longrightarrow> got = [])
    \<and> (err = None \<and> got = [] \<and> 0 < len \<and> 0 < br_capacity b \<longrightarrow> unread b c = [])"
proof (cases "br_begin b = br_end b \<and> len \<ge> br_capacity b")
  case True
  then have "br_data b = []" by (simp add: br_data_def br_buffered_def)
  moreover have "stream_read len c es = Some ((got, err), c', es')" "b' = b" using assms(1) True by (auto simp: br_read_def)
  ultimately show ?thesis using stream_read_law [of len c es got err c' es'] assms(2) by (auto simp: unread_def)
next
  case False
  obtain n we b1 c1 es1 where f: "br_fill b c es = Some ((n, we), b1, c1, es1)"
    using assms(1) False by (auto simp: br_read_def split: option.splits)
  note law = br_fill_law [OF f assms(2)]
  show ?thesis
  proof (cases "we \<noteq> None \<or> n = 0")
    case True
    then show ?thesis using assms False f law by (auto simp: br_read_def)
  next
    case more: False
    define taken where "taken = min len (br_buffered b1)"
    have t: "taken \<le> br_buffered b1" "got = take taken (br_data b1)" "b' = br_consume b1 taken" "c' = c1" "err = None"
      using assms(1) False f more by (auto simp: br_read_def taken_def Let_def min_def split: if_splits)
    have len: "length got = taken" using t law length_br_data [of b1] by simp
    have "got = take taken (unread b c)" "unread b' c' = drop taken (unread b c)"
      using t law br_take_law [of b1 taken c1] by auto
    moreover have "br_inv b'" "br_capacity b' = br_capacity b" using t law br_consume_law [of b1 taken] by auto
    moreover have "0 < len \<Longrightarrow> got \<noteq> []" using len more law by (auto simp: taken_def)
    ultimately show ?thesis unfolding len using t(5) by (auto simp: taken_def)
  qed
qed

lemma br_readExactly_law:
  "br_readExactly got len b c es = Some ((bytes, err), b', c', es') \<Longrightarrow> br_inv b \<Longrightarrow> 0 < br_capacity b \<Longrightarrow> length got \<le> len \<Longrightarrow>
     br_inv b' \<and> (\<exists>k. bytes = got @ take k (unread b c) \<and> unread b' c' = drop k (unread b c) \<and> length bytes \<le> len
       \<and> (err = None \<longrightarrow> bytes = got @ take (len - length got) (unread b c)))"
proof (induction got len b c es rule: br_readExactly.induct)
  case (1 got len b c es)
  show ?case
  proof (cases "length got \<ge> len")
    case True
    then show ?thesis using "1.prems" by (auto simp: br_readExactly.simps [of got] intro: exI [of _ 0])
  next
    case False
    obtain chunk we b1 c1 es1 where r: "br_read b (len - length got) c es = Some ((chunk, we), b1, c1, es1)"
      using "1.prems" False by (auto simp: br_readExactly.simps [of got] split: option.splits)
    note law = br_read_law [OF r "1.prems"(2)]
    show ?thesis
    proof (cases "we = None \<and> chunk \<noteq> []")
      case True
      have rec: "br_readExactly (got @ chunk) len b1 c1 es1 = Some ((bytes, err), b', c', es')"
        using "1.prems" False r True by (auto simp: br_readExactly.simps [of got])
      have le: "length (got @ chunk) \<le> len" using law False by auto
      have b1: "br_inv b1" "0 < br_capacity b1" using law "1.prems" by auto
      have "br_inv b' \<and> (\<exists>k. bytes = (got @ chunk) @ take k (unread b1 c1) \<and> unread b' c' = drop k (unread b1 c1) \<and> length bytes \<le> len
          \<and> (err = None \<longrightarrow> bytes = (got @ chunk) @ take (len - length (got @ chunk)) (unread b1 c1)))"
        using "1.IH" [OF False r] True rec le b1 by simp
      then obtain k where k: "br_inv b'" "bytes = (got @ chunk) @ take k (unread b1 c1)" "unread b' c' = drop k (unread b1 c1)" "length bytes \<le> len"
          "err = None \<longrightarrow> bytes = (got @ chunk) @ take (len - length (got @ chunk)) (unread b1 c1)"
        by blast
      have split: "chunk @ take j (unread b1 c1) = take (length chunk + j) (unread b c)" for j
        using law by (simp add: take_add)
      have "length chunk + (len - length (got @ chunk)) = len - length got" using le by simp
      then have "err = None \<longrightarrow> bytes = got @ take (len - length got) (unread b c)"
        using k(5) split [of "len - length (got @ chunk)"] by (simp del: length_append)
      moreover have "bytes = got @ take (length chunk + k) (unread b c)" using k(2) split [of k] by simp
      moreover have "unread b' c' = drop (length chunk + k) (unread b c)" using k(3) law by (simp add: add.commute)
      ultimately show ?thesis using k(1,4) by blast
    next
      case stop: False
      have "bytes = got" "err = we" "b' = b1" "c' = c1" "chunk = []"
        using "1.prems" False r stop law by (cases we; auto simp: br_readExactly.simps [of got])+
      then show ?thesis using law stop "1.prems" False by (auto intro: exI [of _ 0])
    qed
  qed
qed

subsection \<open>Environments without errors\<close>

definition quiet :: "env list \<Rightarrow> bool" where
  "quiet es \<longleftrightarrow> (\<forall>e \<in> set es. case e of Reports k \<Rightarrow> True | CallReturns a \<Rightarrow> (\<forall>n. a \<noteq> Fails n) | WaitFails err \<Rightarrow> False)"

definition added :: "conn \<Rightarrow> bool" where
  "added c \<longleftrightarrow> rg_addError (cn_reg c) = None"

lemma added_reports [simp]: "added (reportsFor d k c) = added c"
proof -
  have "rg_addError (((\<lambda>r. snd (collect r d 0)) ^^ k) r) = rg_addError r" for r
    using collect_place by (induction k) (auto simp: same_place_def)
  then show ?thesis by (simp add: added_def reportsFor_def)
qed

lemma added_note [simp]: "added (c\<lparr>cn_reg := noteTransfer (cn_reg c) d seen n asked\<rparr>) = added c"
  by (simp add: added_def noteTransfer_def updSlot_def)

lemma quiet_Cons: "quiet (e # es) \<longleftrightarrow> (case e of Reports k \<Rightarrow> True | CallReturns a \<Rightarrow> (\<forall>n. a \<noteq> Fails n) | WaitFails err \<Rightarrow> False) \<and> quiet es"
  by (simp add: quiet_def)

lemma sys_read_added: "added (snd (sys_read asked n c)) = added c"
  by (simp add: sys_read_def Let_def added_def)

lemma callLoop_quiet:
  "callLoop d asked seen (sys_read m) c es = Some (r, c', es') \<Longrightarrow> quiet es \<Longrightarrow> quiet es' \<and> added c' = added c \<and> (\<forall>e. r \<noteq> Failed e)"
proof (induction d asked seen "sys_read m" c es arbitrary: r c' es' rule: callLoop.induct)
  case (4 d asked seen c a es)
  then show ?case
  proof (cases a)
    case (Takes n)
    then show ?thesis using 4 sys_read_added [of m n c] by (auto simp: quiet_Cons split: prod.splits)
  qed (auto simp: quiet_Cons)
qed (auto simp: quiet_Cons)

lemma waitLoop_quiet:
  "waitLoop d seen c es = Some (r, c', es') \<Longrightarrow> quiet es \<Longrightarrow> quiet es' \<and> added c' = added c \<and> r = None"
proof (induction d seen c es arbitrary: r c' es' rule: waitLoop.induct)
  case (2 d seen c e es)
  then show ?case by (cases e) (auto simp: quiet_Cons split: if_splits)
qed (auto split: if_splits)

lemma callWhenReady_quiet:
  "callWhenReady d asked (sys_read m) c es = Some ((moved, err), c', es') \<Longrightarrow> quiet es \<Longrightarrow> added c \<Longrightarrow> quiet es' \<and> added c' \<and> err = None"
proof (induction d asked "sys_read m" c es rule: callWhenReady.induct)
  case (1 d asked c es)
  define seen where "seen = dn_events (slot (cn_reg c) d)"
  obtain r c1 es1 where t: "tryCall d asked seen (sys_read m) c es = Some (r, c1, es1)"
    using "1.prems" by (auto simp: callWhenReady.simps [of d asked "sys_read m" c] Let_def seen_def split: option.splits)
  have q1: "quiet es1" "added c1" "r \<noteq> Failed e" for e
    using t callLoop_quiet [of d asked seen m c es r c1 es1] "1.prems"(2,3) by (auto simp: tryCall_def split: if_splits)
  show ?case
  proof (cases r)
    case WouldBlock
    obtain we c2 es2 where w: "waitNewer d seen c1 es1 = Some (we, c2, es2)"
      using "1.prems" t WouldBlock by (auto simp: callWhenReady.simps [of d asked "sys_read m" c] seen_def [symmetric] split: option.splits)
    have q2: "quiet es2" "added c2" "we = None"
      using w waitLoop_quiet [of d seen c1 es1 we c2 es2] q1 by (auto simp: waitNewer_def added_def)
    have "callWhenReady d asked (sys_read m) c2 es2 = Some ((moved, err), c', es')"
      using "1.prems" t w WouldBlock q2 by (simp add: callWhenReady.simps [of d asked "sys_read m" c] seen_def [symmetric])
    then show ?thesis using "1.hyps" [OF seen_def t [unfolded WouldBlock]] w q2 by simp
  qed (use "1.prems" t q1 in \<open>auto simp: callWhenReady.simps [of d asked "sys_read m" c] seen_def [symmetric]\<close>)
qed

lemma br_fill_quiet:
  assumes "br_fill b c es = Some ((n, err), b', c', es')" "quiet es" "added c"
  shows "quiet es' \<and> added c' \<and> err = None"
  using assms callWhenReady_quiet by (auto simp: br_fill_def stream_read_def split: if_splits option.splits)

subsection \<open>Lines\<close>

text \<open>The next line of a byte stream: through the delimiter if it is among the first \<open>limit\<close> bytes, all that is left if
  that is less than \<open>limit\<close>, else \<open>limit\<close> bytes and an error.\<close>

definition nextLine :: "byte \<Rightarrow> nat \<Rightarrow> byte list \<Rightarrow> byte list \<times> io_error option" where
  "nextLine delimiter limit stream =
     (let k = length (takeWhile (\<lambda>x. x \<noteq> delimiter) stream) in
      if k < length stream \<and> k < limit then (take (k + 1) stream, None)
      else if length stream < limit \<or> stream = [] then (stream, None)
      else (take limit stream, Some MessageSize))"

lemma memchr_Some: "memchr bs x = Some k \<Longrightarrow> k < length bs \<and> k = length (takeWhile (\<lambda>y. y \<noteq> x) bs)"
  by (auto simp: memchr_def Let_def split: if_splits)

lemma takeWhile_short: "length (takeWhile P xs) < length xs \<longleftrightarrow> (\<exists>x \<in> set xs. \<not> P x)"
  by (induction xs) auto

lemma memchr_None: "memchr bs x = None \<Longrightarrow> x \<notin> set bs"
  using takeWhile_short [of "\<lambda>y. y \<noteq> x" bs] by (auto simp: memchr_def Let_def split: if_splits)

lemma nextLine_found:
  assumes "memchr (take w stream) x = Some k" "w \<le> room"
  shows "nextLine x room stream = (take (k + 1) stream, None)"
proof -
  have k: "k < length (take w stream)" "k = length (takeWhile (\<lambda>y. y \<noteq> x) (take w stream))" using memchr_Some [OF assms(1)] by auto
  then have "\<exists>y \<in> set (take w stream). \<not> y \<noteq> x" using takeWhile_short [of "\<lambda>y. y \<noteq> x" "take w stream"] by simp
  then have "takeWhile (\<lambda>y. y \<noteq> x) (take w stream @ drop w stream) = takeWhile (\<lambda>y. y \<noteq> x) (take w stream)"
    using takeWhile_append1 [of x "take w stream" "\<lambda>y. y \<noteq> x" "drop w stream"] by blast
  then have "k = length (takeWhile (\<lambda>y. y \<noteq> x) stream)" using k by simp
  then show ?thesis using k assms(2) by (auto simp: nextLine_def)
qed

lemma nextLine_skip:
  assumes "x \<notin> set (take w stream)" "w \<le> length stream" "w < room"
  shows "nextLine x room stream = (case nextLine x (room - w) (drop w stream) of (line, err) \<Rightarrow> (take w stream @ line, err))"
proof -
  have "takeWhile (\<lambda>y. y \<noteq> x) (take w stream @ drop w stream) = take w stream @ takeWhile (\<lambda>y. y \<noteq> x) (drop w stream)"
    using assms(1) by (intro takeWhile_append2) auto
  then have k: "length (takeWhile (\<lambda>y. y \<noteq> x) stream) = w + length (takeWhile (\<lambda>y. y \<noteq> x) (drop w stream))"
    using assms(2) by simp
  have t: "take (w + j) stream = take w stream @ take j (drop w stream)" for j by (simp add: take_add)
  show ?thesis using assms(2,3) t [of "Suc (length (takeWhile (\<lambda>y. y \<noteq> x) (drop w stream)))"] t [of "room - w"]
    by (auto simp: nextLine_def Let_def k)
qed

lemma nextLine_full:
  assumes "x \<notin> set (take room stream)" "room \<le> length stream" "stream \<noteq> []"
  shows "nextLine x room stream = (take room stream, Some MessageSize)"
proof -
  have "takeWhile (\<lambda>y. y \<noteq> x) (take room stream @ drop room stream) = take room stream @ takeWhile (\<lambda>y. y \<noteq> x) (drop room stream)"
    using assms(1) by (intro takeWhile_append2) auto
  then have "length (takeWhile (\<lambda>y. y \<noteq> x) stream) \<ge> room" using assms(2) by simp
  then show ?thesis using assms(2,3) by (auto simp: nextLine_def Let_def)
qed

text \<open>One round of the loop, with the refill's result.\<close>

lemma br_readLine_law:
  "br_readLine line x room b c es = Some ((line', err), b', c', es') \<Longrightarrow> br_inv b \<Longrightarrow> 0 < br_capacity b \<Longrightarrow>
     br_inv b' \<and> (\<exists>got. line' = line @ got \<and> got = take (length got) (unread b c) \<and> unread b' c' = drop (length got) (unread b c) \<and> length got \<le> room
       \<and> ((got, err) = nextLine x room (unread b c) \<or> err \<noteq> None \<and> x \<notin> set got \<and> \<not> (quiet es \<and> added c)))"
proof (induction line x room b c es rule: br_readLine.induct)
  case (1 line x room b c es)
  obtain n we b1 c1 es1 where f: "br_fill b c es = Some ((n, we), b1, c1, es1)"
    using "1.prems" by (auto simp: br_readLine.simps [of line] split: option.splits)
  note law = br_fill_law [OF f "1.prems"(2)]
  show ?case
  proof (cases "we \<noteq> None \<or> n = 0")
    case True
    then have "line' = line" "err = we" "b' = b1" "c' = c1" using "1.prems"(1) f by (cases we; auto simp: br_readLine.simps [of line])+
    moreover have "we = None \<Longrightarrow> nextLine x room (unread b c) = ([], None)" using True law "1.prems" by (auto simp: nextLine_def)
    ultimately show ?thesis using law br_fill_quiet [OF f] by (intro conjI exI [of _ "[]"]) (cases we; auto)+
  next
    case False
    define window where "window = (if br_buffered b1 < room then br_buffered b1 else room)"
    define found where "found = memchr (take window (br_data b1)) x"
    define taken where "taken = (case found of Some k \<Rightarrow> k + 1 | None \<Rightarrow> window)"
    define line1 where "line1 = line @ take taken (br_data b1)"
    define b2 where "b2 = br_consume b1 taken"
    have eq: "br_readLine line x room b c es = (if found \<noteq> None then Some ((line1, None), b2, c1, es1)
        else if room - taken = 0 then Some ((line1, Some MessageSize), b2, c1, es1) else br_readLine line1 x (room - taken) b2 c1 es1)"
      using f False by (auto simp: br_readLine.simps [of line] Let_def window_def found_def taken_def line1_def b2_def)
    have w: "window \<le> br_buffered b1" "window \<le> room" by (auto simp: window_def)
    have len: "length (br_data b1) = br_buffered b1" using law length_br_data by blast
    have all: "unread b c = br_data b1 @ cn_input c1" using law by (simp add: unread_def)
    have tk: "taken \<le> window"
      using memchr_Some [of "take window (br_data b1)" x] w len by (auto simp: taken_def found_def split: option.splits)
    have b2: "br_inv b2" "br_capacity b2 = br_capacity b" "unread b2 c1 = drop taken (unread b c)"
      using br_consume_law [of b1 taken] br_take_law [of b1 taken c1] tk w law by (auto simp: b2_def)
    have got: "take taken (br_data b1) = take taken (unread b c)" "taken \<le> length (unread b c)" "unread b c \<noteq> []"
      using tk w len all False law by auto
    have seen: "take window (br_data b1) = take window (unread b c)" "window \<le> length (unread b c)" using w len all by auto
    show ?thesis
    proof (cases found)
      case (Some k)
      have "nextLine x room (unread b c) = (take taken (unread b c), None)"
        using nextLine_found [of window "unread b c" x k room] Some w seen by (simp add: found_def taken_def)
      then show ?thesis using "1.prems"(1) eq Some b2 got tk w
        by (intro conjI exI [of _ "take taken (unread b c)"]) (auto simp: line1_def)
    next
      case None
      then have none: "x \<notin> set (take window (unread b c))" "taken = window"
        using memchr_None [of "take window (unread b c)" x] seen by (auto simp: found_def taken_def)
      show ?thesis
      proof (cases "room - taken = 0")
        case True
        then have "window = room" using none w by simp
        then have "nextLine x room (unread b c) = (take taken (unread b c), Some MessageSize)"
          using nextLine_full [of x room "unread b c"] none got seen by simp
        then show ?thesis using "1.prems"(1) eq None True b2 got tk w
          by (intro conjI exI [of _ "take taken (unread b c)"]) (auto simp: line1_def)
      next
        case more: False
        have rec: "br_readLine line1 x (room - taken) b2 c1 es1 = Some ((line', err), b', c', es')" using "1.prems"(1) eq None more by simp
        have ih: "br_inv b' \<and> (\<exists>got. line' = line1 @ got \<and> got = take (length got) (unread b2 c1) \<and> unread b' c' = drop (length got) (unread b2 c1)
            \<and> length got \<le> room - taken \<and> ((got, err) = nextLine x (room - taken) (unread b2 c1) \<or> err \<noteq> None \<and> x \<notin> set got \<and> \<not> (quiet es1 \<and> added c1)))"
          by (rule "1.IH" [OF f refl refl _ refl refl _ window_def found_def taken_def line1_def b2_def])
            (use False None more rec b2 "1.prems"(3) in simp_all)
        then obtain rest where r: "br_inv b'" "line' = line1 @ rest" "rest = take (length rest) (unread b2 c1)"
            "unread b' c' = drop (length rest) (unread b2 c1)" "length rest \<le> room - taken"
            "(rest, err) = nextLine x (room - taken) (unread b2 c1) \<or> err \<noteq> None \<and> x \<notin> set rest \<and> \<not> (quiet es1 \<and> added c1)"
          by blast
        define whole where "whole = take taken (unread b c) @ rest"
        have "length whole = taken + length rest" using got by (simp add: whole_def)
        then have "whole = take (length whole) (unread b c)" "unread b' c' = drop (length whole) (unread b c)"
          using r(3,4) b2(3) by (simp_all add: whole_def take_add add.commute)
        moreover have "(whole, err) = nextLine x room (unread b c) \<or> err \<noteq> None \<and> x \<notin> set whole \<and> \<not> (quiet es \<and> added c)"
          using r(6) br_fill_quiet [OF f] nextLine_skip [of x window "unread b c" room] none seen b2(3) more by (auto simp: whole_def split: prod.splits)
        ultimately show ?thesis using r(1,2,5) got \<open>length whole = taken + length rest\<close> tk w
          by (intro conjI exI [of _ whole]) (auto simp: line1_def whole_def)
      qed
    qed
  qed
qed

subsection \<open>An environment that keeps answering\<close>

text \<open>Before each transfer the poller reports once, and the kernel moves something.\<close>

definition steady :: "nat list \<Rightarrow> env list" where
  "steady ms = concat (map (\<lambda>m. [Reports 1, CallReturns (Takes m)]) ms)"

lemma steady_simps [simp]: "steady [] = []" "steady (m # ms) = Reports 1 # CallReturns (Takes m) # steady ms"
  by (simp_all add: steady_def)

lemma quiet_steady: "quiet (steady ms)"
  by (induction ms) (simp_all add: quiet_Cons, simp add: quiet_def)

lemma reported_once:
  "dn_events (slot (cn_reg (reportsFor Readable 1 c)) Readable) = dn_events (slot (cn_reg c) Readable) + 1"
  "exhausted (cn_reg (reportsFor Readable 1 c)) Readable seen = exhausted (cn_reg c) Readable seen"
  by (auto simp: reportsFor_def collect_def slot_def Readable_def Writable_def has_def Let_def exhausted_def)

lemma stream_read_steady:
  assumes "added c"
  shows "\<exists>moved c'. stream_read asked c (steady (m # ms)) = Some ((moved, None), c', steady ms) \<and> added c'"
proof -
  define seen where "seen = dn_events (slot (cn_reg c) Readable)"
  define c1 where "c1 = reportsFor Readable 1 c"
  obtain moved c2 where r: "sys_read asked m c1 = (moved, c2)" by fastforce
  define c3 where "c3 = (\<lambda>sn. c2\<lparr>cn_reg := noteTransfer (cn_reg c2) Readable sn (length moved) asked\<rparr>)"
  have "added c2" using assms r sys_read_added [of asked m c1] by (simp add: c1_def)
  then have ok: "added (c3 sn)" for sn by (simp add: c3_def)
  have ev: "dn_events (slot (cn_reg c1) Readable) = seen + 1" unfolding c1_def seen_def by (rule reported_once)
  show ?thesis
  proof (cases "exhausted (cn_reg c) Readable seen")
    case True
    then have "\<not> exhausted (cn_reg c1) Readable (seen + 1)" unfolding c1_def reported_once by (simp add: exhausted_def)
    then have again: "callWhenReady Readable asked (sys_read asked) c1 (CallReturns (Takes m) # steady ms) = Some ((moved, None), c3 (seen + 1), steady ms)"
      using r ev by (simp add: callWhenReady.simps [of Readable asked "sys_read asked" c1] tryCall_def c3_def)
    have "waitNewer Readable seen c (Reports 1 # CallReturns (Takes m) # steady ms) = Some (None, c1, CallReturns (Takes m) # steady ms)"
      using assms ev by (simp add: waitNewer_def added_def seen_def [symmetric] c1_def [symmetric] del: One_nat_def)
    then have "stream_read asked c (steady (m # ms)) = Some ((moved, None), c3 (seen + 1), steady ms)"
      using True again by (simp add: stream_read_def callWhenReady.simps [of Readable asked "sys_read asked" c] tryCall_def seen_def [symmetric] del: One_nat_def)
    then show ?thesis using ok by blast
  next
    case False
    then have "stream_read asked c (steady (m # ms)) = Some ((moved, None), c3 seen, steady ms)"
      using r by (simp add: stream_read_def callWhenReady.simps [of Readable asked "sys_read asked" c] tryCall_def seen_def [symmetric] c1_def [symmetric] c3_def del: One_nat_def)
    then show ?thesis using ok by blast
  qed
qed

lemma br_fill_steady:
  assumes "added c" "ms \<noteq> []"
  obtains n b' c' ms' where "br_fill b c (steady ms) = Some ((n, None), b', c', steady ms')" "added c'" "length ms \<le> length ms' + 1"
proof (cases "br_begin b = br_end b")
  case True
  obtain m ms' where ms: "ms = m # ms'" using assms(2) by (cases ms) auto
  obtain moved c' where "stream_read (br_capacity b) c (steady ms) = Some ((moved, None), c', steady ms')" "added c'"
    using stream_read_steady [OF assms(1)] ms by blast
  then show thesis using True ms by (intro that [of _ _ c' ms']) (auto simp: br_fill_def)
next
  case False
  then show thesis using assms by (intro that [of "br_end b - br_begin b" b c ms]) (auto simp: br_fill_def)
qed

lemma br_readLine_returns:
  "added c \<Longrightarrow> room < length ms \<Longrightarrow> \<exists>r. br_readLine line x room b c (steady ms) = Some r"
proof (induction room arbitrary: line b c ms rule: less_induct)
  case (less room)
  then obtain n b1 c1 ms1 where f: "br_fill b c (steady ms) = Some ((n, None), b1, c1, steady ms1)" "added c1" "length ms \<le> length ms1 + 1"
    using br_fill_steady [of c ms b] by (metis list.size(3) not_less_zero)
  have "br_buffered b1 = n" by (rule br_fill_buffered [OF f(1)])
  then have "\<exists>r. br_readLine line1 x (room - taken) b2 c1 (steady ms1) = Some r"
    if "n \<noteq> 0" "room - taken \<noteq> 0" "taken = (if br_buffered b1 < room then br_buffered b1 else room)" for line1 taken b2
    using that f less.prems by (intro less.IH) auto
  then show ?case using f(1) by (auto simp: br_readLine.simps [of line] Let_def split: option.splits)
qed

section \<open>Programs over a stream\<close>

text \<open>A client may also look at the buffer itself: \<^verbatim>\<open>fill\<close> delivers nothing, \<^verbatim>\<open>consume\<close> delivers the bytes at \<^verbatim>\<open>data()\<close> that
  it drops.\<close>

datatype read_op = ReadSome nat | ReadExactly nat | ReadLine byte nat | Fill | Consume nat

fun br_do :: "read_op \<Rightarrow> bufReader \<Rightarrow> conn \<Rightarrow> env list \<Rightarrow> ((byte list \<times> io_error option) \<times> bufReader \<times> conn \<times> env list) option" where
  "br_do (ReadSome n) b c es = br_read b n c es"
| "br_do (ReadExactly n) b c es = br_readExactly [] n b c es"
| "br_do (ReadLine x limit) b c es = br_readLine [] x limit b c es"
| "br_do Fill b c es = map_option (\<lambda>((n, err), rest). (([], err), rest)) (br_fill b c es)"
| "br_do (Consume n) b c es = Some ((take n (br_data b), None), br_consume b n, c, es)"

fun br_run :: "read_op list \<Rightarrow> bufReader \<Rightarrow> conn \<Rightarrow> env list \<Rightarrow> (byte list list \<times> bufReader \<times> conn \<times> env list) option" where
  "br_run [] b c es = Some ([], b, c, es)"
| "br_run (x # xs) b c es =
     (case br_do x b c es of
        None \<Rightarrow> None
      | Some ((bytes, err), b1, c1, es1) \<Rightarrow>
          map_option (\<lambda>(outs, rest). (bytes # outs, rest)) (br_run xs b1 c1 es1))"

datatype write_op = WriteBytes "byte list" | Flush

fun bw_do :: "write_op \<Rightarrow> bufWriter \<Rightarrow> conn \<Rightarrow> env list \<Rightarrow> (io_result \<times> bufWriter \<times> conn \<times> env list) option" where
  "bw_do (WriteBytes data) w c es = bw_write w data c es"
| "bw_do Flush w c es = bw_flush w c es"

fun accepted :: "write_op \<Rightarrow> nat \<Rightarrow> byte list" where
  "accepted (WriteBytes data) n = take n data"
| "accepted Flush n = []"

fun bw_run :: "write_op list \<Rightarrow> bufWriter \<Rightarrow> conn \<Rightarrow> env list \<Rightarrow> (byte list list \<times> bufWriter \<times> conn \<times> env list) option" where
  "bw_run [] w c es = Some ([], w, c, es)"
| "bw_run (x # xs) w c es =
     (case bw_do x w c es of
        None \<Rightarrow> None
      | Some ((n, err), w1, c1, es1) \<Rightarrow>
          map_option (\<lambda>(outs, rest). (accepted x n # outs, rest)) (bw_run xs w1 c1 es1))"

lemma br_do_law:
  assumes "br_do x b c es = Some ((bytes, err), b', c', es')" "br_inv b"
  shows "br_inv b' \<and> unread b c = bytes @ unread b' c'"
proof (cases x)
  case (ReadSome n)
  then show ?thesis using assms br_read_law [of b n c es bytes err b' c' es'] by (metis append_take_drop_id br_do.simps(1))
next
  case (ReadExactly n)
  have "0 < br_capacity b" using assms(2) by (simp add: br_inv_def)
  then obtain k where "br_inv b'" "bytes = take k (unread b c)" "unread b' c' = drop k (unread b c)"
    using ReadExactly assms br_readExactly_law [of "[]" n b c es bytes err b' c' es'] by auto
  then show ?thesis by simp
next
  case (ReadLine d limit)
  then obtain got where "bytes = got" "got = take (length got) (unread b c)" "unread b' c' = drop (length got) (unread b c)" "br_inv b'"
    using assms br_readLine_law [of "[]" d limit b c es bytes err b' c' es'] by (auto simp: br_inv_def)
  then show ?thesis by (metis append_take_drop_id)
next
  case Fill
  then obtain n where "br_fill b c es = Some ((n, err), b', c', es')" "bytes = []" using assms(1) by auto
  then show ?thesis using br_fill_law assms(2) by fastforce
next
  case (Consume n)
  let ?n = "min n (br_buffered b)"
  have "br_consume b n = br_consume b ?n" by (auto simp: br_consume_def br_buffered_def)
  moreover have "take n (br_data b) = take ?n (br_data b)" using length_br_data [OF assms(2)] by (auto simp: min_def)
  ultimately have "bytes = take ?n (br_data b)" "b' = br_consume b ?n" "c' = c" using Consume assms(1) by auto
  then show ?thesis using br_take_law [OF assms(2), of ?n c] br_consume_law(1) [OF assms(2), of ?n] by simp
qed

lemma bw_do_law:
  assumes "bw_do x w c es = Some ((n, err), w', c', es')" "bw_inv w"
  shows "bw_inv w' \<and> cn_output c' @ bw_held w' = cn_output c @ bw_held w @ accepted x n"
  using assms bw_write_law [of w _ c es n err w' c' es'] bw_flush_law [of w c es n err w' c' es'] by (cases x) auto

lemma br_run_law:
  "br_run xs b c es = Some (outs, b', c', es') \<Longrightarrow> br_inv b \<Longrightarrow> br_inv b' \<and> unread b c = concat outs @ unread b' c'"
proof (induction xs arbitrary: b c es outs)
  case (Cons x xs)
  then obtain bytes err b1 c1 es1 outs1 where d: "br_do x b c es = Some ((bytes, err), b1, c1, es1)"
      "br_run xs b1 c1 es1 = Some (outs1, b', c', es')" "outs = bytes # outs1"
    by (auto split: option.splits prod.splits)
  then show ?case using br_do_law [OF d(1) Cons.prems(2)] Cons.IH [OF d(2)] by simp
qed simp

lemma bw_run_law:
  "bw_run xs w c es = Some (outs, w', c', es') \<Longrightarrow> bw_inv w \<Longrightarrow> bw_inv w' \<and> cn_output c' @ bw_held w' = cn_output c @ bw_held w @ concat outs"
proof (induction xs arbitrary: w c es outs)
  case (Cons x xs)
  then obtain n err w1 c1 es1 outs1 where d: "bw_do x w c es = Some ((n, err), w1, c1, es1)"
      "bw_run xs w1 c1 es1 = Some (outs1, w', c', es')" "outs = accepted x n # outs1"
    by (auto split: option.splits prod.splits)
  then show ?case using bw_do_law [OF d(1) Cons.prems(2)] Cons.IH [OF d(2)]
    by (metis append.assoc concat.simps(2))
qed simp

section \<open>Properties\<close>

definition conn_new :: "byte list \<Rightarrow> conn" where
  "conn_new input = \<lparr>cn_reg = setKind (registration_new 5 True None) StreamSocket, cn_input = input, cn_output = []\<rparr>"

text \<open>C37: Whatever calls a program makes on a buffered reader, in whatever pieces the peer's bytes arrive and whatever
  calls fail or time out in between, the bytes it is given are together exactly a prefix of what the peer sent:
  nothing is lost, repeated or reordered, and the rest is still to be read.\<close>

theorem buffered_reader_refines_stream:
  assumes "memory \<noteq> []" "br_run xs (bufReader_new memory) c es = Some (outs, b, c', es')"
  shows "cn_input c = concat outs @ unread b c'"
proof -
  have "br_inv (bufReader_new memory)" "br_data (bufReader_new memory) = []"
    using assms(1) by (simp_all add: bufReader_new_def br_inv_def br_data_def br_buffered_def)
  then show ?thesis using br_run_law [OF assms(2)] by (simp add: unread_def)
qed

theorem buffered_reader_refines_stream_witness:
  "\<exists>outs b c' es'. br_run [ReadSome 1, ReadLine 10 8, ReadExactly 2] (bufReader_new [0, 0, 0, 0]) (conn_new [1, 2, 3, 10, 5, 6, 7]) (steady [3, 9, 1, 1, 1])
      = Some (outs, b, c', es') \<and> outs = [[1], [2, 3, 10], [5, 6]] \<and> [1, 2, 3, 10, 5, 6, 7] = concat outs @ unread b c'"
proof -
  have run: "map_option fst (br_run [ReadSome 1, ReadLine 10 8, ReadExactly 2] (bufReader_new [0, 0, 0, 0]) (conn_new [1, 2, 3, 10, 5, 6, 7]) (steady [3, 9, 1, 1, 1]))
      = Some [[1], [2, 3, 10], [5, 6]]"
    by code_simp
  then obtain b c' es' where "br_run [ReadSome 1, ReadLine 10 8, ReadExactly 2] (bufReader_new [0, 0, 0, 0]) (conn_new [1, 2, 3, 10, 5, 6, 7]) (steady [3, 9, 1, 1, 1])
      = Some ([[1], [2, 3, 10], [5, 6]], b, c', es')"
    by auto
  from buffered_reader_refines_stream [OF _ this] this show ?thesis by (simp add: conn_new_def)
qed

text \<open>C38: As long as no transfer fails, \<^verbatim>\<open>readLine\<close> returns the next line of the stream as if it were all in memory, however the
  bytes are cut up by the buffer and the kernel, and consumes exactly that line; and it does return, after at most
  \<open>limit + 1\<close> transfers.\<close>

theorem readLine_exact:
  assumes "br_inv b" "added c"
  shows "(\<forall>es r b' c' es'. quiet es \<and> br_readLine [] x limit b c es = Some (r, b', c', es') \<longrightarrow>
        r = nextLine x limit (unread b c) \<and> unread b' c' = drop (length (fst r)) (unread b c))
    \<and> (\<forall>ms. limit < length ms \<longrightarrow>
        (\<exists>b' c' es'. br_readLine [] x limit b c (steady ms) = Some (nextLine x limit (unread b c), b', c', es')))"
proof -
  have cap: "0 < br_capacity b" using assms(1) by (simp add: br_inv_def)
  have exact: "r = nextLine x limit (unread b c) \<and> unread b' c' = drop (length (fst r)) (unread b c)"
    if "quiet es" "br_readLine [] x limit b c es = Some (r, b', c', es')" for es r b' c' es'
    using br_readLine_law [of "[]" x limit b c es "fst r" "snd r" b' c' es'] that assms cap by auto
  moreover have "\<exists>b' c' es'. br_readLine [] x limit b c (steady ms) = Some (nextLine x limit (unread b c), b', c', es')" if "limit < length ms" for ms
  proof -
    have "\<exists>r. br_readLine [] x limit b c (steady ms) = Some r" using assms(2) that by (rule br_readLine_returns)
    then obtain r b' c' es' where "br_readLine [] x limit b c (steady ms) = Some (r, b', c', es')" by auto
    then show ?thesis using exact [OF quiet_steady] by blast
  qed
  ultimately show ?thesis by blast
qed

theorem readLine_exact_witness:
  "\<exists>b' c' es'. br_readLine [] 10 6 (bufReader_new [0, 0]) (conn_new [7, 8, 9, 10, 11]) (steady [1, 1, 1, 1, 1, 1, 1]) = Some (([7, 8, 9, 10], None), b', c', es')"
proof -
  have "br_inv (bufReader_new [0, 0])" "added (conn_new [7, 8, 9, 10, 11])"
    by (simp_all add: br_inv_def bufReader_new_def added_def conn_new_def setKind_def registration_new_def)
  moreover have "nextLine 10 6 (unread (bufReader_new [0, 0]) (conn_new [7, 8, 9, 10, 11])) = ([7, 8, 9, 10], None)" by code_simp
  moreover have "6 < length [1, 1, 1, 1, 1, 1, 1 :: nat]" by simp
  ultimately show ?thesis
    using readLine_exact [of "bufReader_new [0, 0]" "conn_new [7, 8, 9, 10, 11]" 10 6] by metis
qed

text \<open>C39: Whatever is written through a buffered writer, and whatever writes and flushes fail half-way, the bytes the kernel took
  followed by those in the buffer are exactly the bytes the calls reported as accepted, in order; a flush that
  succeeds leaves none behind.\<close>

theorem buffered_writer_conserves:
  assumes "bw_run xs (bufWriter_new memory) c es = Some (outs, w, c', es')"
  shows "cn_output c' @ bw_held w = cn_output c @ concat outs
    \<and> (\<forall>n w2 c2 es2. bw_flush w c' es' = Some ((n, None), w2, c2, es2) \<longrightarrow> cn_output c2 = cn_output c @ concat outs)
    \<and> (\<forall>data n w2 c2 es2. bw_write w data c' es' = Some ((n, None), w2, c2, es2) \<longrightarrow> n = length data)"
proof -
  have "bw_inv (bufWriter_new memory)" "bw_held (bufWriter_new memory) = []" by (simp_all add: bufWriter_new_def bw_inv_def bw_held_def)
  then have i: "bw_inv w" "cn_output c' @ bw_held w = cn_output c @ concat outs" using bw_run_law [OF assms] by auto
  have "cn_output c2 = cn_output c @ concat outs" if "bw_flush w c' es' = Some ((n, None), w2, c2, es2)" for n w2 c2 es2
    using bw_flush_law [OF that i(1)] i(2) by (auto simp: bw_held_def)
  moreover have "n = length data" if "bw_write w data c' es' = Some ((n, None), w2, c2, es2)" for data n w2 c2 es2
    using bw_write_law [OF that i(1)] by simp
  ultimately show ?thesis using i(2) by blast
qed

text \<open>A gathered write fails after two bytes; the byte it left in the buffer goes out with the flush.\<close>

theorem buffered_writer_conserves_witness:
  "\<exists>outs w c' es'. bw_run [WriteBytes [1, 2, 3], WriteBytes [4, 5, 6], Flush] (bufWriter_new [0, 0, 0, 0]) (conn_new [])
      [CallReturns (Takes 2), Reports 1, CallReturns (Fails 32), CallReturns (Takes 9)] = Some (outs, w, c', es')
    \<and> outs = [[1, 2, 3], [], []] \<and> cn_output c' @ bw_held w = [1, 2, 3]"
proof -
  have "map_option fst (bw_run [WriteBytes [1, 2, 3], WriteBytes [4, 5, 6], Flush] (bufWriter_new [0, 0, 0, 0]) (conn_new [])
      [CallReturns (Takes 2), Reports 1, CallReturns (Fails 32), CallReturns (Takes 9)]) = Some [[1, 2, 3], [], []]"
    by code_simp
  then obtain w c' es' where "bw_run [WriteBytes [1, 2, 3], WriteBytes [4, 5, 6], Flush] (bufWriter_new [0, 0, 0, 0]) (conn_new [])
      [CallReturns (Takes 2), Reports 1, CallReturns (Fails 32), CallReturns (Takes 9)] = Some ([[1, 2, 3], [], []], w, c', es')"
    by auto
  from buffered_writer_conserves [OF this] this show ?thesis by (simp add: conn_new_def)
qed

end
