(* ===== verification/Timekeeper.thy ===== *)
theory Timekeeper
  imports Scheduler_System Timer_Queue
begin

text \<open>
  The timekeeper protocol of \<^verbatim>\<open>SchedulerCore.cpp\<close> (\<^verbatim>\<open>addTimer\<close>, \<^verbatim>\<open>addCallbackTimer\<close>, \<^verbatim>\<open>requestRampUp\<close>, \<^verbatim>\<open>nextDeadline\<close>) and
  \<^verbatim>\<open>Worker::sleepIdle\<close> and \<^verbatim>\<open>maintain\<close>, access by access: threads add timers to any worker's queue or request a ramp-up, timers
  fire and are cancelled, and workers take turns as the timekeeper, which computes the earliest deadline without
  a lock and sleeps until then.  A queue is the set of its entries, with the mirrors \<^verbatim>\<open>publishLocked\<close> keeps of it: the
  bit in the shared mask, the size and the earliest deadline (\<open>Timer_Queue\<close> shows that the heap's first entry is the
  earliest).  All accesses are sequentially consistent, as in the code.
\<close>

section \<open>Walking over the bits of a mask\<close>

lemma ctz_least: "k < ctz m \<Longrightarrow> \<not> bit m k"
proof -
  assume k: "k < ctz m"
  have "ctz m \<le> 64" using length_takeWhile_le [of "\<lambda>i. \<not> bit m i" "[0..<64]"] by (simp add: ctz_def)
  then have "takeWhile (\<lambda>i. \<not> bit m i) [0..<64] ! k = k" using k takeWhile_nth [of k "\<lambda>i. \<not> bit m i" "[0..<64]"] by (simp add: ctz_def)
  then show ?thesis using k nth_mem [of k "takeWhile (\<lambda>i. \<not> bit m i) [0..<64]"] by (auto simp: ctz_def dest: set_takeWhileD)
qed

lemma minus_one_bits:
  fixes n :: nat
  assumes "bit n c" "\<And>k. k < c \<Longrightarrow> \<not> bit n k" "c \<le> k"
  shows "bit (n - 1) k \<longleftrightarrow> bit n k \<and> k \<noteq> c"
proof -
  define d where "d = n div 2 ^ c"
  have "odd d" using assms(1) by (simp add: d_def bit_iff_odd)
  have "take_bit c n = 0" using assms(2) by (intro bit_eqI) (auto simp: bit_take_bit_iff)
  then have n: "n = 2 ^ c * d" by (simp add: d_def take_bit_eq_mod mod_eq_0_iff_dvd)
  obtain e where e: "d = Suc e" using \<open>odd d\<close> by (cases d) auto
  obtain p where p: "(2 :: nat) ^ c = Suc p" by (cases "(2 :: nat) ^ c") auto
  have "(n - 1) div 2 ^ c = e"
    by (rule div_nat_eqI) (auto simp: n e p)
  then have low: "(n - 1) div 2 ^ c = d - 1" using e by simp
  have up: "x div 2 ^ k = (x div 2 ^ c) div 2 ^ (k - c)" for x :: nat
    using assms(3) by (simp add: div_mult2_eq [symmetric] power_add [symmetric])
  show ?thesis
  proof (cases "k = c")
    case True
    then show ?thesis using low \<open>odd d\<close> by (simp add: bit_iff_odd)
  next
    case False
    then obtain j where j: "k - c = Suc j" using assms(3) by (metis Suc_diff_Suc le_neq_implies_less)
    have "(d - 1) div 2 = d div 2" using \<open>odd d\<close> by (elim oddE) simp
    then have "(d - 1) div 2 ^ Suc j = d div 2 ^ Suc j" by (simp only: power_Suc div_mult2_eq)
    then show ?thesis using False low up [of n] up [of "n - 1"] j by (simp add: bit_iff_odd d_def [symmetric])
  qed
qed

lemma clear_lowest:
  fixes m :: u64
  assumes "m \<noteq> 0"
  shows "bit (m AND (m - 1)) k \<longleftrightarrow> bit m k \<and> k \<noteq> ctz m"
proof -
  have bits: "bit x i \<longleftrightarrow> bit (unat x) i" for x :: u64 and i by (simp add: bit_unsigned_iff bit_imp_le_length)
  have "unat (m - 1) = unat m - 1" using assms by (rule unat_minus_one)
  then have "bit (m - 1) k \<longleftrightarrow> bit m k \<and> k \<noteq> ctz m" if "ctz m \<le> k"
    using minus_one_bits [of "unat m" "ctz m" k] ctz_bit(1) [OF assms] ctz_least [of _ m] that by (simp add: bits)
  then show ?thesis using ctz_least [of k m] by (cases "ctz m \<le> k") (auto simp: bit_and_iff)
qed

section \<open>The model\<close>

text \<open>Inside \<^verbatim>\<open>publishLocked\<close>, with the entry that is being added, if one is.\<close>

datatype publish = AtMask "nat option" | AtEarliest "nat option"

text \<open>A call of \<^verbatim>\<open>addTimer\<close>, \<^verbatim>\<open>addCallbackTimer\<close> or \<^verbatim>\<open>requestRampUp\<close>: not started; in the queue's lock; about to load
  \<^verbatim>\<open>timekeeper\<close>; about to load \<^verbatim>\<open>keeperDeadline\<close>; about to wake the keeper it saw; done.\<close>

datatype adder = Fresh | Adding nat | Added | SawKeeper nat | Waking nat | Finished

text \<open>A worker: elsewhere; has claimed the role; has marked the deadline as being scanned; with the mask left to walk
  over and the earliest deadline so far; with the deadline it will publish; asleep.  \<open>Polling\<close> is a busy worker that
  holds the role for the zero-timeout poll of \<^verbatim>\<open>maintain\<close>, without touching \<^verbatim>\<open>keeperDeadline\<close>.\<close>

datatype keeper_pc = Working | Polling | Claimed | Marked | Scanning u64 int | Ready int | Asleep int

record timing =
  tm_due :: "nat \<Rightarrow> int"
  tm_heap :: "nat \<Rightarrow> nat set"
  tm_size :: "nat \<Rightarrow> nat"
  tm_earliest :: "nat \<Rightarrow> int"
  tm_lock :: "nat \<Rightarrow> publish option"
  tm_mask :: u64
  tm_adder :: "nat \<Rightarrow> adder"
  tm_keeper :: "nat option"
  tm_keeperDeadline :: int
  tm_rampUp :: int
  tm_token :: "nat \<Rightarrow> bool"
  tm_pc :: "nat \<Rightarrow> keeper_pc"
  tm_hasDriver :: bool

definition kScanningTimers :: int where
  "kScanningTimers = 2 ^ 63 - 1"

definition setAdder :: "timing \<Rightarrow> nat \<Rightarrow> adder \<Rightarrow> timing" where
  "setAdder s i p = s\<lparr>tm_adder := (tm_adder s)(i := p)\<rparr>"

definition setPc :: "timing \<Rightarrow> nat \<Rightarrow> keeper_pc \<Rightarrow> timing" where
  "setPc s w p = s\<lparr>tm_pc := (tm_pc s)(w := p)\<rparr>"

text \<open>The mask of \<^verbatim>\<open>publishLocked\<close>.\<close>

definition publishedMask :: "nat \<Rightarrow> nat \<Rightarrow> nat \<Rightarrow> u64 \<Rightarrow> u64" where
  "publishedMask q before now m =
     (if before = 0 \<and> now \<noteq> 0 then m OR push_bit q 1 else if before \<noteq> 0 \<and> now = 0 then m AND NOT (push_bit q 1) else m)"

definition earliestOf :: "timing \<Rightarrow> nat \<Rightarrow> int" where
  "earliestOf s q = (if tm_heap s q = {} then kNoDeadline else Min (tm_due s ` tm_heap s q))"

text \<open>Steps of the queues (up to 64 workers have one each) and of the calls.\<close>

inductive timer_step :: "timing \<Rightarrow> timing \<Rightarrow> bool" where
  Add: "tm_adder s i = Fresh \<Longrightarrow> tm_lock s q = None \<Longrightarrow> q < 64 \<Longrightarrow>
    timer_step s ((setAdder s i (Adding q))\<lparr>tm_heap := (tm_heap s)(q := insert i (tm_heap s q)), tm_lock := (tm_lock s)(q \<mapsto> AtMask (Some i))\<rparr>)"
| Remove: "i \<in> tm_heap s q \<Longrightarrow> tm_lock s q = None \<Longrightarrow>
    timer_step s (s\<lparr>tm_heap := (tm_heap s)(q := tm_heap s q - {i}), tm_lock := (tm_lock s)(q \<mapsto> AtMask None)\<rparr>)"
| PublishMask: "tm_lock s q = Some (AtMask a) \<Longrightarrow>
    timer_step s (s\<lparr>tm_mask := publishedMask q (tm_size s q) (card (tm_heap s q)) (tm_mask s), tm_lock := (tm_lock s)(q \<mapsto> AtEarliest a)\<rparr>)"
| PublishEarliest: "tm_lock s q = Some (AtEarliest a) \<Longrightarrow>
    timer_step s (s\<lparr>tm_size := (tm_size s)(q := card (tm_heap s q)), tm_earliest := (tm_earliest s)(q := earliestOf s q),
      tm_lock := (tm_lock s)(q := None), tm_adder := (case a of Some i \<Rightarrow> (tm_adder s)(i := Added) | None \<Rightarrow> tm_adder s)\<rparr>)"
| Request: "tm_adder s i = Fresh \<Longrightarrow> tm_due s i < tm_rampUp s \<Longrightarrow> timer_step s ((setAdder s i Added)\<lparr>tm_rampUp := tm_due s i\<rparr>)"
| NoKeeper: "tm_adder s i = Added \<Longrightarrow> tm_keeper s = None \<Longrightarrow> timer_step s (setAdder s i Finished)"
| Keeper: "tm_adder s i = Added \<Longrightarrow> tm_keeper s = Some w \<Longrightarrow> timer_step s (setAdder s i (SawKeeper w))"
| Later: "tm_adder s i = SawKeeper w \<Longrightarrow> tm_due s i \<ge> tm_keeperDeadline s \<Longrightarrow> timer_step s (setAdder s i Finished)"
| Earlier: "tm_adder s i = SawKeeper w \<Longrightarrow> tm_due s i < tm_keeperDeadline s \<Longrightarrow> timer_step s (setAdder s i (Waking w))"
| Unpark: "tm_adder s i = Waking w \<Longrightarrow>
    timer_step s ((setAdder s i Finished)\<lparr>tm_token := (tm_token s)(w := (tm_hasDriver s \<longrightarrow> tm_keeper s = Some w \<or> tm_token s w))\<rparr>)"

text \<open>Steps of the workers.  Waking up is possible at any time: by the timeout, by a token, or for no reason; that a
  sleep until \<open>d\<close> ends by \<open>d\<close> is left to the parker and the driver.\<close>

inductive keeper_step :: "timing \<Rightarrow> timing \<Rightarrow> bool" where
  Claim: "tm_pc s w = Working \<Longrightarrow> tm_keeper s = None \<Longrightarrow> keeper_step s ((setPc s w Claimed)\<lparr>tm_keeper := Some w\<rparr>)"
| Mark: "tm_pc s w = Claimed \<Longrightarrow> keeper_step s ((setPc s w Marked)\<lparr>tm_keeperDeadline := kScanningTimers\<rparr>)"
| LoadMask: "tm_pc s w = Marked \<Longrightarrow> keeper_step s (setPc s w (Scanning (tm_mask s) kNoDeadline))"
| ReadQueue: "tm_pc s w = Scanning m e \<Longrightarrow> m \<noteq> 0 \<Longrightarrow>
    keeper_step s (setPc s w (Scanning (m AND (m - 1)) (if tm_earliest s (ctz m) < e then tm_earliest s (ctz m) else e)))"
| ReadRampUp: "tm_pc s w = Scanning 0 e \<Longrightarrow> keeper_step s (setPc s w (Ready (if tm_rampUp s < e then tm_rampUp s else e)))"
| Sleep: "tm_pc s w = Ready d \<Longrightarrow> keeper_step s ((setPc s w (Asleep d))\<lparr>tm_keeperDeadline := d\<rparr>)"
| Leave: "tm_pc s w = Asleep d \<Longrightarrow> keeper_step s ((setPc s w Working)\<lparr>tm_keeper := None, tm_token := (tm_token s)(w := False)\<rparr>)"
| PollClaim: "tm_hasDriver s \<Longrightarrow> tm_pc s w = Working \<Longrightarrow> tm_keeper s = None \<Longrightarrow> keeper_step s ((setPc s w Polling)\<lparr>tm_keeper := Some w\<rparr>)"
| PollRelease: "tm_pc s w = Polling \<Longrightarrow> keeper_step s ((setPc s w Working)\<lparr>tm_keeper := None, tm_token := (tm_token s)(w := False)\<rparr>)"
| RampedUp: "keeper_step s (s\<lparr>tm_rampUp := kNoDeadline\<rparr>)"
| Nudge: "keeper_step s (s\<lparr>tm_token := (tm_token s)(w := True)\<rparr>)"

inductive tm_step :: "timing \<Rightarrow> timing \<Rightarrow> bool" where
  Timer: "timer_step s s' \<Longrightarrow> tm_step s s'"
| Keeper: "keeper_step s s' \<Longrightarrow> tm_step s s'"

definition tm_init :: "timing \<Rightarrow> bool" where
  "tm_init s \<longleftrightarrow> tm_heap s = (\<lambda>_. {}) \<and> tm_size s = (\<lambda>_. 0) \<and> tm_earliest s = (\<lambda>_. kNoDeadline) \<and> tm_lock s = (\<lambda>_. None) \<and> tm_mask s = 0
     \<and> tm_adder s = (\<lambda>_. Fresh) \<and> tm_keeper s = None \<and> tm_rampUp s = kNoDeadline \<and> tm_pc s = (\<lambda>_. Working)"

section \<open>Invariant\<close>

fun done_adding :: "adder \<Rightarrow> bool" where
  "done_adding Fresh = False"
| "done_adding (Adding q) = False"
| "done_adding _ = True"

definition published :: "timing \<Rightarrow> nat \<Rightarrow> nat \<Rightarrow> bool" where
  "published s i q \<longleftrightarrow> i \<in> tm_heap s q \<and> done_adding (tm_adder s i)"

text \<open>The call is still to look at the deadline of \<open>w\<close>, or is about to wake it.\<close>

definition watching :: "timing \<Rightarrow> nat \<Rightarrow> nat \<Rightarrow> bool" where
  "watching s w i \<longleftrightarrow> tm_adder s i = Added \<or> tm_adder s i = SawKeeper w \<or> tm_adder s i = Waking w"

text \<open>A queue with its mirrors: at rest, or while a change is being published.\<close>

definition q_shape :: "timing \<Rightarrow> nat \<Rightarrow> bool" where
  "q_shape s q \<longleftrightarrow> finite (tm_heap s q) \<and> (tm_heap s q \<noteq> {} \<or> tm_lock s q \<noteq> None \<longrightarrow> q < 64)"

definition q_size :: "timing \<Rightarrow> nat \<Rightarrow> bool" where
  "q_size s q \<longleftrightarrow> tm_lock s q = None \<longrightarrow> tm_size s q = card (tm_heap s q)"

definition q_filled :: "timing \<Rightarrow> nat \<Rightarrow> bool" where
  "q_filled s q \<longleftrightarrow> (if \<exists>a. tm_lock s q = Some (AtEarliest a) then tm_heap s q \<noteq> {} else tm_size s q \<noteq> 0)"

definition q_bit :: "timing \<Rightarrow> nat \<Rightarrow> bool" where
  "q_bit s q \<longleftrightarrow> bit (tm_mask s) q = q_filled s q"

definition q_owner :: "timing \<Rightarrow> nat \<Rightarrow> bool" where
  "q_owner s q \<longleftrightarrow> (\<forall>i. tm_lock s q = Some (AtMask (Some i)) \<or> tm_lock s q = Some (AtEarliest (Some i)) \<longrightarrow> tm_adder s i = Adding q)"

definition q_home :: "timing \<Rightarrow> nat \<Rightarrow> bool" where
  "q_home s q \<longleftrightarrow> (\<forall>i \<in> tm_heap s q. tm_adder s i \<noteq> Fresh \<and> (\<forall>q'. tm_adder s i = Adding q' \<longrightarrow> q' = q))"

definition q_mirror :: "timing \<Rightarrow> nat \<Rightarrow> bool" where
  "q_mirror s q \<longleftrightarrow> (\<forall>i. published s i q \<longrightarrow> bit (tm_mask s) q \<and> tm_earliest s q \<le> tm_due s i)"

definition queue_inv :: "timing \<Rightarrow> nat \<Rightarrow> bool" where
  "queue_inv s q \<longleftrightarrow> q_shape s q \<and> q_size s q \<and> q_bit s q \<and> q_owner s q \<and> q_home s q \<and> q_mirror s q"

lemmas q_defs = q_shape_def q_size_def q_filled_def q_bit_def q_owner_def q_home_def q_mirror_def

definition role_inv :: "timing \<Rightarrow> bool" where
  "role_inv s \<longleftrightarrow> (\<forall>w. tm_pc s w \<noteq> Working \<longleftrightarrow> tm_keeper s = Some w)
     \<and> (\<forall>w. tm_pc s w = Marked \<or> (\<exists>m e. tm_pc s w = Scanning m e) \<or> (\<exists>d. tm_pc s w = Ready d) \<longrightarrow> tm_keeperDeadline s = kNoDeadline)
     \<and> (\<forall>w d. tm_pc s w = Asleep d \<longrightarrow> tm_keeperDeadline s = d)
     \<and> (\<forall>w. (\<forall>m e. tm_pc s w = Scanning m e \<longrightarrow> e \<le> kNoDeadline) \<and> (\<forall>d. tm_pc s w = Ready d \<or> tm_pc s w = Asleep d \<longrightarrow> d \<le> kNoDeadline))"

definition covers :: "timing \<Rightarrow> nat \<Rightarrow> int \<Rightarrow> nat \<Rightarrow> bool" where
  "covers s w d i \<longleftrightarrow> d \<le> tm_due s i \<or> watching s w i \<or> tm_token s w \<or> kNoDeadline \<le> tm_due s i"

definition cover_inv :: "timing \<Rightarrow> nat \<Rightarrow> bool" where
  "cover_inv s w \<longleftrightarrow> (case tm_pc s w of
       Scanning m e \<Rightarrow> (\<forall>i q. published s i q \<longrightarrow> bit m q \<or> covers s w e i)
     | Ready d \<Rightarrow> (\<forall>i q. published s i q \<longrightarrow> covers s w d i) \<and> (d \<le> tm_rampUp s \<or> tm_token s w \<or> (\<exists>i. tm_due s i = tm_rampUp s \<and> watching s w i))
     | Asleep d \<Rightarrow> (\<forall>i q. published s i q \<longrightarrow> covers s w d i) \<and> (d \<le> tm_rampUp s \<or> tm_token s w \<or> (\<exists>i. tm_due s i = tm_rampUp s \<and> watching s w i))
     | _ \<Rightarrow> True)"

definition tm_inv :: "timing \<Rightarrow> bool" where
  "tm_inv s \<longleftrightarrow> (\<forall>q. queue_inv s q) \<and> role_inv s \<and> (\<forall>w. cover_inv s w)"

section \<open>Every step keeps the invariant\<close>

lemma bit_publishedMask:
  assumes "q < 64"
  shows "bit (publishedMask q before now m) k \<longleftrightarrow>
    (if k = q then (if before = 0 \<and> now \<noteq> 0 then True else if before \<noteq> 0 \<and> now = 0 then False else bit m q) else bit m k)"
proof -
  have "bit (push_bit q 1 :: u64) k \<longleftrightarrow> k = q" using assms by (auto simp: push_bit_eq_mult bit_exp_iff)
  moreover have "bit (NOT (push_bit q 1 :: u64)) k \<longleftrightarrow> k < 64 \<and> k \<noteq> q" using calculation by (simp add: bit_not_iff)
  ultimately show ?thesis using assms by (auto simp: publishedMask_def bit_or_iff bit_and_iff dest: bit_imp_le_length)
qed

lemma earliestOf_le: "finite (tm_heap s q) \<Longrightarrow> i \<in> tm_heap s q \<Longrightarrow> earliestOf s q \<le> tm_due s i"
  by (auto simp: earliestOf_def intro: Min_le)

lemma keeper_frame:
  "keeper_step s s' \<Longrightarrow> tm_heap s' = tm_heap s \<and> tm_size s' = tm_size s \<and> tm_lock s' = tm_lock s \<and> tm_mask s' = tm_mask s
     \<and> tm_earliest s' = tm_earliest s \<and> tm_adder s' = tm_adder s \<and> tm_due s' = tm_due s"
  by (erule keeper_step.cases) (simp_all add: setPc_def)

lemma keeper_queue: "keeper_step s s' \<Longrightarrow> queue_inv s' q \<longleftrightarrow> queue_inv s q"
  by (drule keeper_frame) (simp only: queue_inv_def q_defs published_def)

lemma shape_step: "timer_step s s' \<Longrightarrow> q_shape s q \<Longrightarrow> q_shape s' q"
  by (erule timer_step.cases) (auto simp: q_shape_def setAdder_def split: if_splits)

lemma size_step: "timer_step s s' \<Longrightarrow> q_size s q \<Longrightarrow> q_size s' q"
  by (erule timer_step.cases) (auto simp: q_size_def setAdder_def)

lemma owner_step:
  assumes "timer_step s s'" "\<And>q. q_owner s q"
  shows "q_owner s' q"
  using assms(1)
proof cases
  case (PublishEarliest p a)
  then show ?thesis using assms(2) [of p] assms(2) [of q] by (cases a) (auto simp: q_owner_def)
qed (use assms(2) [of q] in \<open>auto simp: q_owner_def setAdder_def\<close>)

lemma home_step:
  assumes "timer_step s s'" "\<And>q. q_home s q" "\<And>q. q_owner s q"
  shows "q_home s' q"
  using assms(1)
proof cases
  case (PublishEarliest p a)
  then show ?thesis using assms(2) [of q] by (cases a) (auto simp: q_home_def)
qed (use assms(2) [of q] in \<open>auto simp: q_home_def setAdder_def\<close>)

lemma bit_step:
  assumes "timer_step s s'" "\<And>q. queue_inv s q"
  shows "q_bit s' q"
  using assms(1)
proof cases
  case (PublishMask p a)
  have p: "p < 64" "finite (tm_heap s p)" using assms(2) [of p] PublishMask by (auto simp: queue_inv_def q_shape_def)
  show ?thesis using assms(2) [of q] PublishMask p bit_publishedMask [OF p(1), of "tm_size s p" "card (tm_heap s p)" "tm_mask s" q]
    by (auto simp: queue_inv_def q_bit_def q_filled_def card_eq_0_iff split: if_splits)
next
  case (PublishEarliest p a)
  have "finite (tm_heap s p)" using assms(2) [of p] by (auto simp: queue_inv_def q_shape_def)
  then show ?thesis using assms(2) [of q] PublishEarliest by (auto simp: queue_inv_def q_bit_def q_filled_def card_eq_0_iff)
qed (use assms(2) [of q] in \<open>auto simp: queue_inv_def q_bit_def q_filled_def setAdder_def\<close>)

lemma mirror_step:
  assumes "timer_step s s'" "\<And>q. queue_inv s q"
  shows "q_mirror s' q"
  using assms(1)
proof cases
  case (PublishMask p a)
  have p: "p < 64" "finite (tm_heap s p)" using assms(2) [of p] PublishMask by (auto simp: queue_inv_def q_shape_def)
  show ?thesis using assms(2) [of q] PublishMask p bit_publishedMask [OF p(1), of "tm_size s p" "card (tm_heap s p)" "tm_mask s" q]
    by (auto simp: queue_inv_def q_mirror_def published_def card_eq_0_iff split: if_splits)
next
  case (PublishEarliest p a)
  have fin: "finite (tm_heap s p)" using assms(2) [of p] by (auto simp: queue_inv_def q_shape_def)
  have filled: "i \<in> tm_heap s p \<Longrightarrow> bit (tm_mask s) p" for i
    using assms(2) [of p] PublishEarliest by (auto simp: queue_inv_def q_bit_def q_filled_def)
  have own: "a = Some i \<Longrightarrow> tm_adder s i = Adding p" for i
    using assms(2) [of p] PublishEarliest by (simp add: queue_inv_def q_owner_def)
  have "q_home s q" using assms(2) by (simp add: queue_inv_def)
  then have adds: "a = Some i \<Longrightarrow> i \<in> tm_heap s q \<Longrightarrow> q = p" for i
    using own [of i] unfolding q_home_def by metis
  have "bit (tm_mask s') q \<and> tm_earliest s' q \<le> tm_due s' i" if pub: "published s' i q" for i
  proof -
    have heap: "i \<in> tm_heap s q" using pub PublishEarliest by (simp add: published_def)
    show ?thesis
    proof (cases "q = p")
      case True
      then show ?thesis using heap filled [of i] earliestOf_le [OF fin, of i] PublishEarliest(1) by simp
    next
      case False
      then have "a \<noteq> Some i" using adds heap by blast
      then have "published s i q" using pub heap PublishEarliest(1) by (cases a) (auto simp: published_def)
      then show ?thesis using assms(2) [of q] False PublishEarliest(1) by (simp add: queue_inv_def q_mirror_def)
    qed
  qed
  then show ?thesis by (simp add: q_mirror_def)
qed (use assms(2) [of q] in \<open>auto simp: queue_inv_def q_mirror_def q_home_def published_def setAdder_def split: if_splits\<close>)

lemma timer_queue_inv:
  assumes "timer_step s s'" "\<And>q. queue_inv s q"
  shows "queue_inv s' q"
  using shape_step [OF assms(1)] size_step [OF assms(1)] owner_step [OF assms(1)] home_step [OF assms(1)] bit_step [OF assms] mirror_step [OF assms] assms(2)
  by (simp add: queue_inv_def)

lemma timer_frame:
  "timer_step s s' \<Longrightarrow> tm_pc s' = tm_pc s \<and> tm_keeper s' = tm_keeper s \<and> tm_keeperDeadline s' = tm_keeperDeadline s \<and> tm_due s' = tm_due s"
  by (erule timer_step.cases) (simp_all add: setAdder_def)

lemma timer_role: "timer_step s s' \<Longrightarrow> role_inv s' \<longleftrightarrow> role_inv s"
  by (drule timer_frame) (simp only: role_inv_def)

lemma keeper_role:
  assumes "keeper_step s s'" "role_inv s"
  shows "role_inv s'"
proof -
  have k: "\<And>w. tm_pc s w \<noteq> Working \<longleftrightarrow> tm_keeper s = Some w" using assms(2) by (simp add: role_inv_def)
  show ?thesis using assms(1)
  proof cases
    case (Claim w)
    have "tm_pc s v = Working" for v using k Claim by auto
    then show ?thesis using assms(2) Claim by (auto simp: role_inv_def setPc_def)
  next
    case (Mark w)
    have "v \<noteq> w \<Longrightarrow> tm_pc s v = Working" for v using k [of v] k [of w] Mark by auto
    then show ?thesis using assms(2) Mark by (auto simp: role_inv_def setPc_def kScanningTimers_def kNoDeadline_def)
  next
    case (Sleep w d)
    have "v \<noteq> w \<Longrightarrow> tm_pc s v = Working" for v using k [of v] k [of w] Sleep by auto
    then show ?thesis using assms(2) Sleep by (auto simp: role_inv_def setPc_def)
  next
    case (Leave w d)
    have "v \<noteq> w \<Longrightarrow> tm_pc s v = Working" for v using k [of v] k [of w] Leave by auto
    then show ?thesis using assms(2) Leave by (auto simp: role_inv_def setPc_def)
  next
    case (PollClaim w)
    have "tm_pc s v = Working" for v using k PollClaim by auto
    then show ?thesis using assms(2) PollClaim by (auto simp: role_inv_def setPc_def)
  next
    case (PollRelease w)
    have "v \<noteq> w \<Longrightarrow> tm_pc s v = Working" for v using k [of v] k [of w] PollRelease by auto
    then show ?thesis using assms(2) PollRelease by (auto simp: role_inv_def setPc_def)
  next
    case (LoadMask w)
    then show ?thesis using assms(2) by (auto simp: role_inv_def setPc_def)
  next
    case (ReadQueue w m e)
    then show ?thesis using assms(2) by (fastforce simp: role_inv_def setPc_def)
  next
    case (ReadRampUp w e)
    then show ?thesis using assms(2) by (fastforce simp: role_inv_def setPc_def)
  qed (use assms(2) in \<open>simp_all add: role_inv_def\<close>)
qed

lemma role_scanning: "role_inv s \<Longrightarrow> tm_pc s w = Scanning m e \<Longrightarrow> tm_keeperDeadline s = kNoDeadline \<and> tm_keeper s = Some w \<and> e \<le> kNoDeadline"
  unfolding role_inv_def by (metis keeper_pc.distinct(7))

lemma role_ready: "role_inv s \<Longrightarrow> tm_pc s w = Ready d \<Longrightarrow> tm_keeperDeadline s = kNoDeadline \<and> tm_keeper s = Some w \<and> d \<le> kNoDeadline"
  unfolding role_inv_def by (metis keeper_pc.distinct(9))

lemma role_asleep: "role_inv s \<Longrightarrow> tm_pc s w = Asleep d \<Longrightarrow> tm_keeperDeadline s = d \<and> tm_keeper s = Some w \<and> d \<le> kNoDeadline"
  unfolding role_inv_def by (metis keeper_pc.distinct(11))

text \<open>What a step of a call means for a worker that already has its deadline, or for the part of the scan behind it.\<close>

lemma watching_step:
  assumes "timer_step s s'" "tm_keeper s = Some w" "watching s w i"
  shows "watching s' w i \<or> tm_token s' w \<or> tm_keeperDeadline s \<le> tm_due s i"
  using assms by cases (auto simp: watching_def setAdder_def split: option.splits)

lemma token_step: "timer_step s s' \<Longrightarrow> tm_token s w \<Longrightarrow> tm_token s' w"
  by (erule timer_step.cases) (auto simp: setAdder_def)

lemma published_step:
  assumes "timer_step s s'" "published s' i q" "queue_inv s q" "\<And>q. queue_inv s q"
  shows "published s i q \<or> tm_adder s' i = Added"
  using assms(1)
proof cases
  case (PublishEarliest p a)
  then show ?thesis using assms(2) by (cases a) (auto simp: published_def split: if_splits)
next
  case (Add j p)
  then show ?thesis using assms(2) by (auto simp: published_def setAdder_def split: if_splits)
qed (use assms(2) in \<open>auto simp: published_def setAdder_def split: if_splits\<close>)

lemma covers_step:
  assumes "timer_step s s'" "tm_keeper s = Some w" "covers s w d i" "tm_keeperDeadline s = kNoDeadline \<or> tm_keeperDeadline s = d"
  shows "covers s' w d i"
  using watching_step [OF assms(1,2), of i] token_step [OF assms(1), of w] timer_frame [OF assms(1)] assms(3,4)
  by (auto simp: covers_def)

lemma published_covers:
  assumes "timer_step s s'" "tm_keeper s = Some w" "tm_keeperDeadline s = kNoDeadline \<or> tm_keeperDeadline s = d" "\<And>q. queue_inv s q"
    and "published s' i q" "published s i q \<Longrightarrow> covers s w d i"
  shows "covers s' w d i"
proof (cases "published s i q")
  case True
  then show ?thesis using covers_step [OF assms(1,2) assms(6) assms(3)] by simp
next
  case False
  then have "tm_adder s' i = Added" using published_step [OF assms(1,5)] assms(4) by blast
  then show ?thesis by (simp add: covers_def watching_def)
qed

lemma rampUp_step:
  assumes "timer_step s s'" "tm_keeper s = Some w" "tm_keeperDeadline s = kNoDeadline \<or> tm_keeperDeadline s = d" "d \<le> kNoDeadline"
    and "d \<le> tm_rampUp s \<or> tm_token s w \<or> (\<exists>i. tm_due s i = tm_rampUp s \<and> watching s w i)"
  shows "d \<le> tm_rampUp s' \<or> tm_token s' w \<or> (\<exists>i. tm_due s' i = tm_rampUp s' \<and> watching s' w i)"
proof (cases "tm_rampUp s' = tm_rampUp s")
  case True
  then show ?thesis
    using assms(3-5) token_step [OF assms(1), of w] watching_step [OF assms(1,2)] timer_frame [OF assms(1)] by (metis order_trans)
next
  case False
  have "\<exists>i. tm_due s' i = tm_rampUp s' \<and> watching s' w i"
    using assms(1) False by cases (auto simp: setAdder_def watching_def)
  then show ?thesis by blast
qed

lemma timer_cover:
  assumes "timer_step s s'" "\<And>q. queue_inv s q" "role_inv s" "cover_inv s w"
  shows "cover_inv s' w"
proof -
  note f = timer_frame [OF assms(1)]
  show ?thesis
  proof (cases "tm_pc s w")
    case (Scanning m e)
    have kd: "tm_keeperDeadline s = kNoDeadline" "tm_keeper s = Some w" using role_scanning [OF assms(3) Scanning] by auto
    have "bit m q \<or> covers s' w e i" if "published s' i q" for i q
      using published_covers [OF assms(1) kd(2) disjI1 [OF kd(1)] assms(2) that, of e] assms(4) Scanning by (auto simp: cover_inv_def)
    then show ?thesis using f Scanning by (simp add: cover_inv_def)
  next
    case (Ready d)
    have kd: "tm_keeperDeadline s = kNoDeadline" "tm_keeper s = Some w" "d \<le> kNoDeadline" using role_ready [OF assms(3) Ready] by auto
    have "covers s' w d i" if "published s' i q" for i q
      using published_covers [OF assms(1) kd(2) disjI1 [OF kd(1)] assms(2) that, of d] assms(4) Ready by (auto simp: cover_inv_def)
    then show ?thesis using f Ready rampUp_step [OF assms(1) kd(2) disjI1 [OF kd(1)] kd(3)] assms(4) by (simp add: cover_inv_def)
  next
    case (Asleep d)
    have kd: "tm_keeperDeadline s = d" "tm_keeper s = Some w" "d \<le> kNoDeadline" using role_asleep [OF assms(3) Asleep] by auto
    have "covers s' w d i" if "published s' i q" for i q
      using published_covers [OF assms(1) kd(2) disjI2 [OF kd(1)] assms(2) that] assms(4) Asleep by (auto simp: cover_inv_def)
    then show ?thesis using f Asleep rampUp_step [OF assms(1) kd(2) disjI2 [OF kd(1)] kd(3)] assms(4) by (simp add: cover_inv_def)
  qed (use f in \<open>simp_all add: cover_inv_def\<close>)
qed

lemma others_work: "role_inv s \<Longrightarrow> tm_pc s w \<noteq> Working \<Longrightarrow> v \<noteq> w \<Longrightarrow> tm_pc s v = Working"
  unfolding role_inv_def by (metis option.inject)

lemma keeper_cover:
  assumes "keeper_step s s'" "\<And>q. queue_inv s q" "role_inv s" "\<And>w. cover_inv s w"
  shows "cover_inv s' v"
proof -
  note f = keeper_frame [OF assms(1)]
  have same: "published s' i q = published s i q" "watching s' w i = watching s w i" for i q w
    using f by (simp_all add: published_def watching_def)
  have mirror: "published s i q \<Longrightarrow> bit (tm_mask s) q \<and> tm_earliest s q \<le> tm_due s i" for i q
    using assms(2) [of q] by (simp add: queue_inv_def q_mirror_def)
  have away: "cover_inv s' v" if "tm_pc s' v = Working" for v using that by (simp add: cover_inv_def)
  show ?thesis using assms(1)
  proof cases
    case (LoadMask w)
    then show ?thesis using away others_work [OF assms(3), of w v] mirror same
      by (cases "v = w") (auto simp: cover_inv_def setPc_def)
  next
    case (ReadQueue w m e)
    have "bit (m AND (m - 1)) q \<or> covers s w (if tm_earliest s (ctz m) < e then tm_earliest s (ctz m) else e) i" if "published s i q" for i q
    proof (cases "q = ctz m")
      case True
      then show ?thesis using mirror [OF that] by (auto simp: covers_def)
    next
      case False
      have "bit m q \<or> covers s w e i" using assms(4) [of w] ReadQueue(2) that by (auto simp: cover_inv_def)
      then show ?thesis using False clear_lowest [OF ReadQueue(3), of q] by (auto simp: covers_def)
    qed
    then show ?thesis using away others_work [OF assms(3), of w v] same ReadQueue
      by (cases "v = w") (auto simp: cover_inv_def setPc_def covers_def)
  next
    case (ReadRampUp w e)
    have "covers s w (if tm_rampUp s < e then tm_rampUp s else e) i" if "published s i q" for i q
      using assms(4) [of w] ReadRampUp that by (fastforce simp: cover_inv_def covers_def)
    then show ?thesis using away others_work [OF assms(3), of w v] same ReadRampUp
      by (cases "v = w") (auto simp: cover_inv_def setPc_def covers_def)
  next
    case (Sleep w d)
    then show ?thesis using away others_work [OF assms(3), of w v] assms(4) [of w] same
      by (cases "v = w") (auto simp: cover_inv_def setPc_def covers_def)
  next
    case (Claim w)
    then have "tm_pc s' v = Working \<or> v = w" using assms(3) by (auto simp: role_inv_def setPc_def)
    then show ?thesis using away Claim by (auto simp: cover_inv_def setPc_def)
  next
    case (Mark w)
    then show ?thesis using away others_work [OF assms(3), of w v] by (cases "v = w") (auto simp: cover_inv_def setPc_def)
  next
    case (Leave w d)
    then show ?thesis using away others_work [OF assms(3), of w v] by (cases "v = w") (auto simp: cover_inv_def setPc_def)
  next
    case (PollClaim w)
    then have "tm_pc s' v = Working \<or> v = w" using assms(3) by (auto simp: role_inv_def setPc_def)
    then show ?thesis using away PollClaim by (auto simp: cover_inv_def setPc_def)
  next
    case (PollRelease w)
    then show ?thesis using away others_work [OF assms(3), of w v] by (cases "v = w") (auto simp: cover_inv_def setPc_def)
  next
    case RampedUp
    have "d \<le> kNoDeadline" if "tm_pc s v = Ready d \<or> tm_pc s v = Asleep d" for d
      using that role_ready [OF assms(3)] role_asleep [OF assms(3)] by blast
    then show ?thesis using RampedUp assms(4) [of v] same by (cases "tm_pc s v") (auto simp: cover_inv_def covers_def)
  next
    case (Nudge w)
    then show ?thesis using assms(4) [of v] same by (cases "tm_pc s v") (auto simp: cover_inv_def covers_def)
  qed
qed

lemma tm_step_inv:
  assumes "tm_inv s" "tm_step s s'"
  shows "tm_inv s'"
proof -
  have i: "\<And>q. queue_inv s q" "role_inv s" "\<And>w. cover_inv s w" using assms(1) by (simp_all add: tm_inv_def)
  show ?thesis using assms(2)
  proof cases
    case Timer
    then show ?thesis using timer_queue_inv [OF Timer i(1)] timer_role [OF Timer] timer_cover [OF Timer i(1,2)] i by (simp add: tm_inv_def)
  next
    case Keeper
    then show ?thesis using keeper_queue [OF Keeper] keeper_role [OF Keeper i(2)] keeper_cover [OF Keeper i] i by (simp add: tm_inv_def)
  qed
qed

lemma tm_init_inv: "tm_init s \<Longrightarrow> tm_inv s"
  by (auto simp: tm_init_def tm_inv_def queue_inv_def q_defs role_inv_def cover_inv_def published_def)

interpretation timekeeper: step_system tm_init tm_step tm_inv
  by unfold_locales (auto intro: tm_init_inv tm_step_inv)

section \<open>Property\<close>

text \<open>C40: A timekeeper never sleeps past a timer or a ramp-up request: while it is asleep until \<open>d\<close> and no wake has been
  posted to it, every pending timer whose add has returned has a deadline of at least \<open>d\<close>, and so does the
  ramp-up request unless a request is still being made; and a timer whose add has not returned yet is
  no earlier than \<open>d\<close> either, or the adding thread is still to look at the timekeeper's deadline or to wake it.\<close>

theorem timekeeper_never_oversleeps:
  assumes "tm_init s0" "tm_step\<^sup>*\<^sup>* s0 s" "tm_pc s w = Asleep d" "\<not> tm_token s w"
  shows "(\<forall>i q. i \<in> tm_heap s q \<and> tm_adder s i = Finished \<and> tm_due s i < kNoDeadline \<longrightarrow> d \<le> tm_due s i)
    \<and> (\<forall>i q. published s i q \<and> tm_due s i < d \<longrightarrow> watching s w i)
    \<and> ((\<forall>i. \<not> watching s w i) \<longrightarrow> d \<le> tm_rampUp s)"
proof -
  have inv: "tm_inv s" by (rule timekeeper.reachable_inv [OF assms(1,2)])
  then have c: "cover_inv s w" "d \<le> kNoDeadline" using role_asleep [of s w d] assms(3) by (simp_all add: tm_inv_def)
  then have "covers s w d i" if "published s i q" for i q using that assms(3) by (simp add: cover_inv_def) blast
  then show ?thesis using c assms(3,4) by (force simp: covers_def published_def watching_def cover_inv_def)
qed

text \<open>A timer due at 100 is added to queue 2, then worker 1 becomes the timekeeper.\<close>

definition tk0 :: timing where
  "tk0 = \<lparr>tm_due = (\<lambda>_. 100), tm_heap = (\<lambda>_. {}), tm_size = (\<lambda>_. 0), tm_earliest = (\<lambda>_. kNoDeadline), tm_lock = (\<lambda>_. None), tm_mask = 0,
     tm_adder = (\<lambda>_. Fresh), tm_keeper = None, tm_keeperDeadline = 0, tm_rampUp = kNoDeadline, tm_token = (\<lambda>_. False), tm_pc = (\<lambda>_. Working),
     tm_hasDriver = False\<rparr>"

definition tk1 :: timing where
  "tk1 = (setAdder tk0 0 (Adding 2))\<lparr>tm_heap := (tm_heap tk0)(2 := insert 0 (tm_heap tk0 2)), tm_lock := (tm_lock tk0)(2 \<mapsto> AtMask (Some 0))\<rparr>"

definition tk2 :: timing where
  "tk2 = tk1\<lparr>tm_mask := publishedMask 2 (tm_size tk1 2) (card (tm_heap tk1 2)) (tm_mask tk1), tm_lock := (tm_lock tk1)(2 \<mapsto> AtEarliest (Some 0))\<rparr>"

definition tk3 :: timing where
  "tk3 = tk2\<lparr>tm_size := (tm_size tk2)(2 := card (tm_heap tk2 2)), tm_earliest := (tm_earliest tk2)(2 := earliestOf tk2 2),
     tm_lock := (tm_lock tk2)(2 := None), tm_adder := (tm_adder tk2)(0 := Added)\<rparr>"

definition tk4 :: timing where
  "tk4 = setAdder tk3 0 Finished"

definition tk5 :: timing where
  "tk5 = (setPc tk4 1 Claimed)\<lparr>tm_keeper := Some 1\<rparr>"

definition tk6 :: timing where
  "tk6 = (setPc tk5 1 Marked)\<lparr>tm_keeperDeadline := kScanningTimers\<rparr>"

definition tk7 :: timing where
  "tk7 = setPc tk6 1 (Scanning (tm_mask tk6) kNoDeadline)"

definition tk8 :: timing where
  "tk8 = setPc tk7 1 (Scanning 0 100)"

definition tk9 :: timing where
  "tk9 = setPc tk8 1 (Ready 100)"

definition tk10 :: timing where
  "tk10 = (setPc tk9 1 (Asleep 100))\<lparr>tm_keeperDeadline := 100\<rparr>"

lemmas tk_defs = tk0_def tk1_def tk2_def tk3_def tk4_def tk5_def tk6_def tk7_def tk8_def tk9_def tk10_def setAdder_def setPc_def publishedMask_def
  earliestOf_def kNoDeadline_def

lemma tk_timer_steps: "timer_step tk0 tk1" "timer_step tk1 tk2" "timer_step tk2 tk3" "timer_step tk3 tk4"
proof -
  show "timer_step tk0 tk1" unfolding tk1_def by (rule Add) (simp_all add: tk_defs)
  show "timer_step tk1 tk2" unfolding tk2_def by (rule PublishMask) (simp add: tk_defs)
  show "timer_step tk2 tk3" using PublishEarliest [of tk2 2 "Some 0"] by (simp add: tk3_def) (simp add: tk_defs)
  show "timer_step tk3 tk4" unfolding tk4_def by (rule NoKeeper) (simp_all add: tk_defs)
qed

lemma tk_scan: "(push_bit 2 1 :: u64) AND (push_bit 2 1 - 1) = 0" "ctz (push_bit 2 1) = 2"
  by code_simp+

lemma tk_keeper_steps: "keeper_step tk4 tk5" "keeper_step tk5 tk6" "keeper_step tk6 tk7" "keeper_step tk7 tk8" "keeper_step tk8 tk9" "keeper_step tk9 tk10"
proof -
  show "keeper_step tk4 tk5" unfolding tk5_def by (rule Claim) (simp_all add: tk_defs)
  show "keeper_step tk5 tk6" unfolding tk6_def by (rule Mark) (simp add: tk_defs)
  show "keeper_step tk6 tk7" unfolding tk7_def by (rule LoadMask) (simp add: tk_defs)
  have m: "tm_pc tk7 1 = Scanning (push_bit 2 1) kNoDeadline" "tm_earliest tk7 2 = 100" by (simp_all add: tk_defs)
  show "keeper_step tk7 tk8"
    using ReadQueue [OF m(1)] m(2) unfolding tk_scan tk8_def by (simp add: kNoDeadline_def)
  have "tm_pc tk8 1 = Scanning 0 100" "tm_rampUp tk8 = kNoDeadline" by (simp_all add: tk_defs)
  then show "keeper_step tk8 tk9" using ReadRampUp [of tk8 1 100] unfolding tk9_def by (simp add: kNoDeadline_def)
  show "keeper_step tk9 tk10" unfolding tk10_def by (rule Sleep) (simp add: tk9_def setPc_def)
qed

theorem timekeeper_never_oversleeps_witness: "tm_pc tk10 1 = Asleep 100 \<and> 0 \<in> tm_heap tk10 2 \<and> 100 \<le> tm_due tk10 0"
proof -
  have "tm_step\<^sup>*\<^sup>* tk0 tk10"
    using tk_timer_steps tk_keeper_steps by (meson converse_rtranclp_into_rtranclp rtranclp.rtrancl_refl tm_step.intros)
  moreover have "tm_init tk0" by (simp add: tm_init_def tk0_def)
  moreover have "tm_pc tk10 1 = Asleep 100" "\<not> tm_token tk10 1" "0 \<in> tm_heap tk10 2" "tm_adder tk10 0 = Finished" "tm_due tk10 0 < kNoDeadline"
    by (simp_all add: tk_defs)
  ultimately show ?thesis using timekeeper_never_oversleeps [of tk0 tk10 1 100] by blast
qed

end
