(* ===== verification/Spec2Isabelle.thy ===== *)
theory Spec2Isabelle
  imports Packed_Cursor Work_Queue_Spec Ring_Queue Bbq_Queue Event_Sources Timer_Queue Task_Park Wake_Token Join Parker Bwos_Steal Scheduler_System
    Mpsc_Queue Slot_Calls Task_Creation Coroutine_Switch Io_Readiness Io_Streams Timekeeper
begin

text \<open>
  A verification development for \<^verbatim>\<open>stackfull\<close>, a C++ library of stackful coroutines with a
  work-stealing scheduler, synchronisation primitives and non-blocking input and output.

  \<^bold>\<open>The program.\<close>  Six layers, each a directory under \<^verbatim>\<open>src/\<close>.  \<^verbatim>\<open>stack\<close> hands out stacks of memory.  \<^verbatim>\<open>coro\<close>
  carves a stack into a control block and the part that the body runs on, and switches between contexts.
  \<^verbatim>\<open>queue\<close> holds the bounded concurrent queues.  \<^verbatim>\<open>sched\<close> makes tasks out of coroutines: each worker
  thread has a run queue, a one-entry LIFO slot and an inbox for pinned tasks; all share an injection queue; a task
  parks and is woken through a token; one sleeping worker is the timekeeper and watches the timers.  \<^verbatim>\<open>sync\<close> puts
  waiters with their wakers on lists (semaphores, mutexes, condition variables, wait groups, channels, and the event
  sources that \<^verbatim>\<open>select\<close> waits for).  \<^verbatim>\<open>io\<close> registers descriptors with a poller, whose reports wake the tasks that
  wait for them, and puts transfers and buffered streams on top.

  \<^bold>\<open>Theories and sources.\<close>

  \<^item> Shared: \<open>Prelude\<close> (collections, lists, rings, words) and \<open>Step_System\<close> (reachability and invariants of step
    relations).
  \<^item> \<^verbatim>\<open>queue\<close>: \<open>Packed_Cursor\<close> (\<^verbatim>\<open>detail/PackedCursor.h\<close>); \<open>Work_Queue_Spec\<close> (the contract that the two run queues
    share); \<open>Ring_Queue\<close> (\<^verbatim>\<open>RingQueue.h\<close>); \<open>Bbq_Queue\<close> (\<^verbatim>\<open>BbqQueue.h\<close>); \<open>Bwos_Queue\<close>, \<open>Bwos_Laws\<close>, \<open>Bwos_Steal\<close>
    (\<^verbatim>\<open>BwosQueue.h\<close>: its operations, its invariant, thieves and the contract).
  \<^item> \<^verbatim>\<open>stack\<close>: \<open>Stack_Memory\<close> (\<^verbatim>\<open>StackAllocator.h\<close>, \<^verbatim>\<open>MmapStackAllocator.cpp\<close> and \<^verbatim>\<open>coro/detail/StackLayout.h\<close>);
    \<open>Pooled_Stacks\<close> (\<^verbatim>\<open>PooledStackAllocator.cpp\<close>).
  \<^item> \<^verbatim>\<open>coro\<close>: \<open>Coroutine_Switch\<close> (\<^verbatim>\<open>Coroutine.h\<close>, \<^verbatim>\<open>detail/Switch.h\<close>, \<^verbatim>\<open>Lifecycle.cpp\<close>, \<^verbatim>\<open>ThreadState.cpp\<close>).
  \<^item> \<^verbatim>\<open>sched\<close>: \<open>Timer_Queue\<close> (\<^verbatim>\<open>TimerQueue.cpp\<close>); \<open>Timekeeper\<close> (the timers and the sleep of
    \<^verbatim>\<open>SchedulerCore.cpp\<close> and \<^verbatim>\<open>Worker.cpp\<close>); \<open>Task_Park\<close> (the accesses to \<^verbatim>\<open>parkState\<close>); \<open>Wake_Token\<close> (\<^verbatim>\<open>WakeToken.cpp\<close>);
    \<open>Join\<close> (\<^verbatim>\<open>JoinHandle.cpp\<close>); \<open>Parker\<close> (\<^verbatim>\<open>Parker.cpp\<close>); \<open>Mpsc_Queue\<close> (\<^verbatim>\<open>detail/MpscQueue.h\<close>); \<open>Task_Slots\<close> (the slab of
    \<^verbatim>\<open>SchedulerCore.cpp\<close>) and \<open>Slot_Calls\<close> (\<^verbatim>\<open>acquireSlot\<close> among other threads, access by access); \<open>Task_Creation\<close> (\<^verbatim>\<open>detail/TaskFactory.h\<close> and \<^verbatim>\<open>releaseTask\<close>); \<open>Placement\<close> (\<^verbatim>\<open>detail/Runtime.h\<close>,
    \<^verbatim>\<open>Worker.cpp\<close>, \<^verbatim>\<open>SchedulerCore.cpp\<close>, \<^verbatim>\<open>ThisTask.h\<close>, and \<^verbatim>\<open>stop\<close> of \<^verbatim>\<open>Scheduler.cpp\<close>), with its laws in \<open>Placement_Laws\<close>, the whole
    scheduler as a step relation in \<open>Sched_System\<close> and \<open>Sched_Steps\<close>, and its two builds in \<open>Scheduler_System\<close>.
  \<^item> \<^verbatim>\<open>sync\<close>: \<open>Wait_List\<close> (\<^verbatim>\<open>detail/Waiter.h\<close>); \<open>Semaphore\<close> (also \<^verbatim>\<open>Mutex.h\<close>); \<open>Cond_Wait\<close> (\<^verbatim>\<open>ConditionVariable\<close>,
    \<^verbatim>\<open>WaitGroup\<close>); \<open>Channel\<close>; \<open>Event_Sources\<close> (\<^verbatim>\<open>Completion.h\<close>, \<^verbatim>\<open>Stream.h\<close>, \<^verbatim>\<open>Mailbox.h\<close>, \<^verbatim>\<open>Select.h\<close>).
  \<^item> \<^verbatim>\<open>io\<close>: \<open>Io_Registration\<close> (\<^verbatim>\<open>Registration.cpp\<close> and the tables of \<^verbatim>\<open>EpollPoller.cpp\<close> and \<^verbatim>\<open>PollPoller.cpp\<close>);
    \<open>Io_Readiness\<close> (\<^verbatim>\<open>Async.h\<close> against a poller, access by access); \<open>Io_Streams\<close> (\<^verbatim>\<open>Async.cpp\<close>, \<^verbatim>\<open>StreamSocket.cpp\<close>).

  \<^bold>\<open>How the code becomes definitions.\<close>  A class is a record, an enumeration a datatype, a packed atomic a word whose width
  is a parameter, and a pointer an index or an address into an explicit store wherever nodes are linked through
  one another (waiters, MPSC nodes, free stacks, coroutine contexts).  A method is a function from the state to its result
  and the new state, with every early return a branch; a failed check or assertion is \<open>None\<close> or a recorded
  message.  Where threads interfere the method is cut at its atomic accesses or critical sections: each thread has a program
  counter, and an inductive step relation interleaves them without a bound on their number.  The atomics are
  sequentially consistent in these relations, and a spin lock is mutual exclusion.  Where a theory works on whole
  operations instead, its first lines say so.  What a system call, the kernel, the clock, another allocator or the upstream
  answers is an argument of the operation, restricted only by its documented behaviour.

  \<^bold>\<open>Interfaces.\<close>  \<open>work_queue\<close> and \<open>unbounded_rounds\<close> are the contract of a run queue, kept by the ring and the
  block queue; \<open>local_queue\<close> is what placement needs of it, and the laws of the scheduler are proved once and
  hold for both builds (\<open>ring_build\<close>, \<open>bwos_build\<close>).  \<open>stack_allocator\<close> is kept by the mmap and by the pooled
  allocator; \<open>task_memory\<close> extends it by what creating a task needs.  \<open>event_source\<close> is kept by the three sources and by their
  sum, over which \<^verbatim>\<open>select\<close> is proved.  \<open>poller\<close> is kept by both pollers.  \<open>step_system\<close> is interpreted by every
  step relation and yields the invariant of its reachable states.

  \<^bold>\<open>What is shown.\<close>

  \<^item> Queues: packing is a bijection at every width; each run queue hands every accepted entry out once, the
    block queue also with copies of thieves outstanding, and its loops end; the bounded queue is first-in
    first-out and accepts up to its capacity within the lifetime of its versions, and refuses for good once they are used up.
  \<^item> Stacks and coroutines: stacks in use, cached and pooled never overlap and none is leaked by any
    path; carving stays inside the stack; contexts implement one call stack per thread, exceptions reach the
    resumer once, and exception globals follow their context.
  \<^item> Scheduler: each runnable task is in exactly one place exactly once, the shutdown reaper included; pinned tasks stay on their
    worker until the reaper unwinds them; the LIFO slot cannot starve the run queue; a wake is not lost and a task is never queued twice; tokens never reach freed
    memory; joining, unparking, slots, creation and release are exact on success and on failure, with the search for a
    slot giving up no earlier than its count allows (the count may be too high, which is shown too); due timers fire once and in
    order, and the timekeeper never sleeps past one.
  \<^item> Synchronisation: the intrusive list refines a list; permits are conserved modulo the 64 bits of their counter and no waiter sleeps beside one;
    channels are first-in first-out within their capacity, can be drained after \<^verbatim>\<open>close\<close>, and strand nobody but for notifications that
    end with an unwound party, which are counted and shown to occur.
  \<^item> Input and output: readiness is not lost between an attempt that would block and the wait; nothing is reported to a
    destroyed registration; the buffered reader and writer neither lose nor invent nor reorder a byte, and lines end
    where the stream's own lines end.

  \<^bold>\<open>Bounds and fuel.\<close>  The loops of the block queue carry fuel of two blocks for a push, one round per entry for a batch and one lap for the
  searches; that this suffices is itself proved.  The loops of the bounded queue and the walks along
  waiter lists are partial functions that are shown to return.  The retries that the code limits are limited in the same way: four attempts on the
  shared pool, 32 stacks or slots in a batch.  Masks have 64 bits, so a scheduler has at most
  64 workers.  The bounded queue's order holds within the lifetime of the versions, beyond which the refusal above is proved.
  A token reaches its own task as long as its slot has held at most \<open>2 ^ 32\<close> tasks, and the bounds on the count of
  live tasks hold while fewer than \<open>2 ^ 64\<close> tasks have been created.
  Report counts of registrations are 32-bit words; readiness assumes that fewer than \<open>2 ^ 32\<close> reports arrive
  between reading the count and comparing it again.  The outside of a stream is a list of events; a call still
  waiting at its end has no result.

  \<^bold>\<open>Not modelled.\<close>  The context switch itself (\<^verbatim>\<open>fcontext\<close>) is assembly; the layer above relies on a
  jump going on where its target stopped.  Access to the runtime's exception globals and sanitizer annotations
  is outside C++ proper.  Memory orders weaker than sequential consistency are not expressed.  \<^verbatim>\<open>SpinLock\<close> and the
  condition-variable parker are the operating system's scheduling.  \<^verbatim>\<open>Scheduler\<close> (but for \<^verbatim>\<open>stop\<close>), \<^verbatim>\<open>runtime\<close> and \<^verbatim>\<open>Affinity\<close> start threads and
  forward to the modelled core.  Sockets, addresses, name resolution, \<^verbatim>\<open>accept\<close> and \<^verbatim>\<open>connect\<close> wrap system calls.  \<^verbatim>\<open>exec\<close>
  is templates over a library that is not in the repository.  Benchmarks and tests are clients.
\<close>

end
